(* ===== verification/FP_Prelude.thy ===== *)
theory FP_Prelude
  imports Main "HOL-Library.Word"
begin

unbundle bit_operations_syntax

text \<open>
  Shared vocabulary of the development: the C integer types as words, the lemma
  collections the component proofs draw on, and generic facts on words, bits and lists.
  Nothing here models code of the repository.
\<close>

type_synonym u8 = "8 word"
type_synonym u16 = "16 word"
type_synonym u32 = "32 word"
type_synonym u64 = "64 word"

named_theorems word_nat \<open>reading word arithmetic as arithmetic on natural numbers\<close>
named_theorems word_bits \<open>reading single bits of word expressions\<close>

subsection \<open>Words as natural numbers\<close>

lemma unat_u64_lt [simp]: "unat (x :: u64) < 18446744073709551616"
  using unsigned_less [where ?'a = nat, of x] by simp

lemma unat_u32_lt [simp]: "unat (x :: u32) < 4294967296"
  using unsigned_less [where ?'a = nat, of x] by simp

lemma unat_u16_lt [simp]: "unat (x :: u16) < 65536"
  using unsigned_less [where ?'a = nat, of x] by simp

lemma unat_u8_lt [simp]: "unat (x :: u8) < 256"
  using unsigned_less [where ?'a = nat, of x] by simp

lemma unat_and_mask: "unat (x AND mask n) = unat x mod 2 ^ n"
  proof -
  have "unat (take_bit n x) = take_bit n (unat x)"
    by (simp add: unsigned_take_bit_eq)
  then show ?thesis
    by (simp only: take_bit_eq_mask [of n x] take_bit_eq_mod [of n "unat x"])
qed

lemma unat_and_255 [word_nat]: "unat ((x :: 'a::len word) AND 255) = unat x mod 256"
  using unat_and_mask [of x 8] by (simp add: mask_eq_exp_minus_1)

lemma unat_ucast_u64_u32 [word_nat]: "unat (ucast (x :: u64) :: u32) = unat x mod 4294967296"
  by (simp add: unsigned_ucast_eq take_bit_eq_mod)

lemma unat_ucast_u32_u64 [word_nat, simp]: "unat (ucast (x :: u32) :: u64) = unat x"
proof -
  have "unat x < 18446744073709551616"
    using unat_u32_lt [of x] by linarith
  then show ?thesis
    by (simp add: unsigned_ucast_eq take_bit_eq_mod)
qed

lemma unat_ucast_u16_u32: "unat (ucast (x :: u16) :: u32) = unat x"
proof -
  have "unat x < 4294967296"
    using unat_u16_lt [of x] by linarith
  then show ?thesis
    by (simp add: unsigned_ucast_eq take_bit_eq_mod)
qed

lemma unat_sub_mod:
  "unat ((a :: u64) - b) = (unat a + 18446744073709551616 - unat b) mod 18446744073709551616"
proof (cases "unat b \<le> unat a")
  case True
  have "unat a + 18446744073709551616 - unat b = unat a - unat b + 18446744073709551616"
    using True by simp
  moreover have "unat a - unat b < 18446744073709551616"
    using unat_u64_lt [of a] by linarith
  ultimately show ?thesis
    using True by (simp only: unat_sub_if' if_True mod_add_self2 mod_less)
next
  case False
  then have "unat a + 18446744073709551616 - unat b < 18446744073709551616"
    by linarith
  then show ?thesis
    using False by (simp add: unat_sub_if')
qed

lemma unat_add_mod:
  "unat ((a :: u64) + b) = (unat a + unat b) mod 18446744073709551616"
  by (simp add: unat_word_ariths)

lemma unat_u64_max: "unat (- 1 :: u64) = 18446744073709551615"
  by (simp add: unsigned_minus_1_eq_mask mask_eq_exp_minus_1)

lemma unat_eqD: "unat (x :: 'a::len word) = n \<Longrightarrow> x = of_nat n"
  by auto

subsection \<open>Single bits\<close>

lemma bit_word_lt: "bit (x :: u64) i \<Longrightarrow> i < 64"
  using bit_imp_le_length [of x i] by simp

lemma bit_u64_push [word_bits]:
  "bit (push_bit m (x :: u64)) i \<longleftrightarrow> i < 64 \<and> m \<le> i \<and> bit x (i - m)"
  by (auto simp: bit_push_bit_iff possible_bit_def)

lemma bit_u64_drop [word_bits]: "bit (drop_bit m (x :: u64)) i \<longleftrightarrow> bit x (m + i)"
  by (simp add: bit_drop_bit_eq)

lemma bit_u64_one [word_bits]: "bit (1 :: u64) i \<longleftrightarrow> i = 0"
  by (simp add: bit_1_iff)

lemma bit_u64_all [word_bits]: "bit (- 1 :: u64) i \<longleftrightarrow> i < 64"
  by (simp add: bit_minus_1_iff possible_bit_def)

lemma bit_u64_not [word_bits]: "bit (NOT (x :: u64)) i \<longleftrightarrow> i < 64 \<and> \<not> bit x i"
  by (simp add: bit_not_iff possible_bit_def)

lemma u64_eq_0_iff: "(x :: u64) = 0 \<longleftrightarrow> (\<forall>i < 64. \<not> bit x i)"
  by (auto intro!: bit_word_eqI)

lemma u64_neq_0_iff: "(x :: u64) \<noteq> 0 \<longleftrightarrow> (\<exists>i < 64. bit x i)"
  by (auto simp: u64_eq_0_iff)

lemma and_plus_and_not: "((x :: 'a::len word) AND m) + (x AND NOT m) = x"
proof -
  have "(x AND m) AND (x AND NOT m) = 0" and "(x AND m) OR (x AND NOT m) = x"
    by (rule bit_word_eqI, auto simp: bit_and_iff bit_or_iff bit_not_iff)+
  then show ?thesis
    using word_plus_and_or [of "x AND m" "x AND NOT m"] by simp
qed

lemmas [word_bits] = bit_and_iff bit_or_iff bit_xor_iff

end
