(* ===== verification/FP_Platform.thy ===== *)
theory FP_Platform
  imports FP_Prelude
begin

unbundle bit_operations_syntax

text \<open>
  The platform layer of the protocol: \<^verbatim>\<open>src/src/protocol/platform/generic.h\<close> (bit
  operations on arrays of longs, wrap-around time comparison, find-first/last-set,
  Jenkins' hash, the ones' complement checksum) and \<^verbatim>\<open>src/src/protocol/topology.h\<close>
  (translation of addresses to node ids, packing of paths into destinations), and the partitions
  of the nodes, \<^verbatim>\<open>src/src/grant-accept/partitioning.h\<close>.

  \<^verbatim>\<open>unsigned long\<close> and \<^verbatim>\<open>u64\<close> are 64-bit words, as \<^verbatim>\<open>CONFIG_64BIT\<close> requires. A read of
  an address is a list index; the alignment of a buffer is passed where the code
  inspects the pointer's low bits.
\<close>

subsection \<open>Definitions: bit operations and time comparison\<close>

definition BITS_PER_LONG :: nat where
  "BITS_PER_LONG = 64"

definition BIT_WORD :: "nat \<Rightarrow> nat" where
  "BIT_WORD nr = nr div BITS_PER_LONG"

definition BIT_MASK :: "nat \<Rightarrow> u64" where
  "BIT_MASK nr = push_bit (nr mod BITS_PER_LONG) 1"

definition set_bit_arr :: "nat \<Rightarrow> u64 list \<Rightarrow> u64 list" where
  "set_bit_arr nr addr = addr[BIT_WORD nr := addr ! BIT_WORD nr OR BIT_MASK nr]"

definition clear_bit_arr :: "nat \<Rightarrow> u64 list \<Rightarrow> u64 list" where
  "clear_bit_arr nr addr = addr[BIT_WORD nr := addr ! BIT_WORD nr AND NOT (BIT_MASK nr)]"

definition test_bit_arr :: "nat \<Rightarrow> u64 list \<Rightarrow> bool" where
  "test_bit_arr nr addr = (1 AND drop_bit (nr mod BITS_PER_LONG) (addr ! BIT_WORD nr) \<noteq> 0)"

text \<open>
  \<^verbatim>\<open>__builtin_ffsl\<close> gives 0 on 0, so \<^verbatim>\<open>__ffs 0\<close> is -1; \<^verbatim>\<open>__builtin_clzl 0\<close> has no
  defined result, which the model keeps as an unspecified value.
\<close>

definition ffs64 :: "u64 \<Rightarrow> int" where
  "ffs64 x = (case find (bit x) [0..<64] of Some i \<Rightarrow> int i | None \<Rightarrow> - 1)"

definition fls64 :: "u64 \<Rightarrow> int" where
  "fls64 x = (case find (bit x) (rev [0..<64]) of Some i \<Rightarrow> int i | None \<Rightarrow> undefined)"

definition time_after64 :: "u64 \<Rightarrow> u64 \<Rightarrow> bool" where
  "time_after64 a b = (sint (b - a) < 0)"

definition time_before64 :: "u64 \<Rightarrow> u64 \<Rightarrow> bool" where
  "time_before64 a b = time_after64 b a"

definition time_after_eq64 :: "u64 \<Rightarrow> u64 \<Rightarrow> bool" where
  "time_after_eq64 a b = (sint (a - b) \<ge> 0)"

definition time_before_eq64 :: "u64 \<Rightarrow> u64 \<Rightarrow> bool" where
  "time_before_eq64 a b = time_after_eq64 b a"

definition time_in_range64 :: "u64 \<Rightarrow> u64 \<Rightarrow> u64 \<Rightarrow> bool" where
  "time_in_range64 a b c = (time_after_eq64 a b \<and> time_before_eq64 a c)"

subsection \<open>Definitions: Jenkins' hash\<close>

definition fp_rot :: "u32 \<Rightarrow> nat \<Rightarrow> u32" where
  "fp_rot x k = (push_bit k x OR drop_bit (32 - k) x)"

definition fp_jhash_final :: "u32 \<Rightarrow> u32 \<Rightarrow> u32 \<Rightarrow> u32 \<times> u32 \<times> u32" where
  "fp_jhash_final a b c =
     (let c = (c XOR b) - fp_rot b 14;
          a = (a XOR c) - fp_rot c 11;
          b = (b XOR a) - fp_rot a 25;
          c = (c XOR b) - fp_rot b 16;
          a = (a XOR c) - fp_rot c 4;
          b = (b XOR a) - fp_rot a 14;
          c = (c XOR b) - fp_rot b 24
      in (a, b, c))"

definition fp_jhash_nwords :: "u32 \<Rightarrow> u32 \<Rightarrow> u32 \<Rightarrow> u32 \<Rightarrow> u32" where
  "fp_jhash_nwords a b c initval =
     (case fp_jhash_final (a + initval) (b + initval) (c + initval) of (_, _, c') \<Rightarrow> c')"

definition fp_jhash_3words :: "u32 \<Rightarrow> u32 \<Rightarrow> u32 \<Rightarrow> u32 \<Rightarrow> u32" where
  "fp_jhash_3words a b c initval = fp_jhash_nwords a b c (initval + 0xdeadbeef + push_bit 2 3)"

definition fp_jhash_1word :: "u32 \<Rightarrow> u32 \<Rightarrow> u32" where
  "fp_jhash_1word a initval = fp_jhash_nwords a 0 0 (initval + 0xdeadbeef + push_bit 2 1)"

subsection \<open>Definitions: ones' complement checksum\<close>

definition byte_at :: "u8 list \<Rightarrow> nat \<Rightarrow> u64" where
  "byte_at d i = ucast (d ! i)"

definition load16_le :: "u8 list \<Rightarrow> nat \<Rightarrow> u64" where
  "load16_le d i = byte_at d i + push_bit 8 (byte_at d (i + 1))"

definition load32_le :: "u8 list \<Rightarrow> nat \<Rightarrow> u64" where
  "load32_le d i = byte_at d i + push_bit 8 (byte_at d (i + 1))
     + push_bit 16 (byte_at d (i + 2)) + push_bit 24 (byte_at d (i + 3))"

fun csum_words :: "u8 list \<Rightarrow> nat \<Rightarrow> nat \<Rightarrow> u64 \<Rightarrow> u64" where
  "csum_words d p 0 acc = acc"
| "csum_words d p (Suc n) acc = csum_words d (p + 4) n (acc + load32_le d p)"

definition csum_last :: "u8 list \<Rightarrow> nat \<Rightarrow> nat \<Rightarrow> u64 \<Rightarrow> u64" where
  "csum_last d p data_len acc =
     (let k = 3 - data_len mod 4;
          acc = (if k = 0 then acc + push_bit 16 (byte_at d (p + 2)) else acc);
          acc = (if k \<le> 1 then acc + push_bit 8 (byte_at d (p + 1)) else acc);
          acc = (if k \<le> 2 then acc + byte_at d p else acc)
      in acc)"

definition csum_fold32 :: "u64 \<Rightarrow> u32" where
  "csum_fold32 acc =
     (let s = ucast (ucast acc :: u32) + drop_bit 32 acc
      in (ucast s :: u32) + ucast (drop_bit 32 s))"

text \<open>
  \<open>addr\<close> is the address of the buffer; the code reads its two low bits. \<open>p\<close> is the
  offset of \<^verbatim>\<open>p32\<close> from the start of the buffer.
\<close>

definition fp_csum_partial :: "nat \<Rightarrow> u8 list \<Rightarrow> nat \<Rightarrow> u32 \<Rightarrow> u32" where
  "fp_csum_partial addr d data_len init_val =
     (let acc = ucast init_val
      in if data_len < 4 then csum_fold32 (csum_last d 0 data_len acc)
         else
           let flip = odd addr;
               (acc, p, data_len) = (if flip then (acc + push_bit 8 (byte_at d 0), 1, data_len - 1)
                                     else (acc, 0, data_len));
               (acc, p, data_len) = (if (addr + p) div 2 mod 2 = 1
                                     then (acc + load16_le d p, p + 2, data_len - 2)
                                     else (acc, p, data_len));
               acc = csum_words d p (data_len div 4) acc;
               p = p + 4 * (data_len div 4);
               acc = csum_last d p data_len acc;
               acc = (if flip then push_bit 8 acc else acc)
           in csum_fold32 acc)"

definition fp_fold :: "u64 \<Rightarrow> u16" where
  "fp_fold sum64 =
     (let s = ucast (ucast sum64 :: u32) + drop_bit 32 sum64;
          sum32 = (ucast (s + drop_bit 32 s) :: u32);
          sum32 = ucast (ucast sum32 :: u16) + drop_bit 16 sum32
      in NOT ((ucast sum32 :: u16) + ucast (drop_bit 16 sum32)))"

text \<open>
  \<^verbatim>\<open>saddr + daddr\<close> is a 32-bit acc; \<^verbatim>\<open>(len + proto) << 8\<close> is an \<^verbatim>\<open>int\<close>, non-negative
  since both operands are 16 bits wide, added as 32 bits.
\<close>

definition fp_csum_tcpudp_magic :: "u32 \<Rightarrow> u32 \<Rightarrow> u16 \<Rightarrow> u16 \<Rightarrow> u32 \<Rightarrow> u16" where
  "fp_csum_tcpudp_magic saddr daddr len proto sum32 =
     fp_fold (ucast sum32 + ucast (saddr + daddr + push_bit 8 (ucast len + ucast proto)))"

subsection \<open>Definitions: topology\<close>

definition MAX_NODES :: nat where "MAX_NODES = 256"
definition FP_NODES_SHIFT :: nat where "FP_NODES_SHIFT = 8"
definition MAX_RACKS :: nat where "MAX_RACKS = 16"
definition TOR_SHIFT :: nat where "TOR_SHIFT = 8"
definition MAX_NODES_PER_RACK :: nat where "MAX_NODES_PER_RACK = 256"
definition OUT_OF_BOUNDARY_NODE_ID :: nat where "OUT_OF_BOUNDARY_NODE_ID = MAX_NODES - 1"

text \<open>\<^verbatim>\<open>ntohl\<close> on a little-endian host is a byte swap of the 32-bit word.\<close>

definition ntohl :: "u32 \<Rightarrow> u32" where
  "ntohl x = (push_bit 24 (x AND 0xFF) OR push_bit 8 (x AND 0xFF00)
     OR drop_bit 8 (x AND 0xFF0000) OR drop_bit 24 x)"

definition fp_map_ip_to_id :: "u32 \<Rightarrow> u16" where
  "fp_map_ip_to_id ipaddr = ucast (ntohl ipaddr AND (push_bit 8 1 - 1))"

definition fp_map_mac_to_id :: "u64 \<Rightarrow> u16" where
  "fp_map_mac_to_id mac =
     ucast (fp_jhash_3words (ucast (mac AND 0xFFFFFFFF)) (ucast (drop_bit 32 mac)) 0 0x33
            AND (push_bit 8 1 - 1))"

definition fp_alloc_node :: "u16 \<Rightarrow> u16" where
  "fp_alloc_node alloc = (alloc AND 0x3FFF)"

definition fp_alloc_path :: "u16 \<Rightarrow> u16" where
  "fp_alloc_path alloc = drop_bit 14 alloc"

definition fp_rack_from_node_id :: "u16 \<Rightarrow> u16" where
  "fp_rack_from_node_id node = drop_bit TOR_SHIFT node"

subsection \<open>Partitions of the nodes (grant-accept/partitioning.h)\<close>

definition PARTITION_N_NODES :: nat where "PARTITION_N_NODES = 128"
definition N_PARTITIONS :: nat where
  "N_PARTITIONS = (MAX_NODES + PARTITION_N_NODES - 1) div PARTITION_N_NODES"

definition PARTITION_OF :: "u16 \<Rightarrow> nat" where
  "PARTITION_OF node = unat node div PARTITION_N_NODES"

definition PARTITION_IDX :: "u16 \<Rightarrow> nat" where
  "PARTITION_IDX node = unat node mod PARTITION_N_NODES"

definition first_in_partition :: "nat \<Rightarrow> nat" where
  "first_in_partition part = part * PARTITION_N_NODES"

definition last_in_partition :: "nat \<Rightarrow> nat" where
  "last_in_partition part =
     (if part = N_PARTITIONS - 1 then MAX_NODES - 1 else first_in_partition (part + 1) - 1)"

end
