(* ===== verification/FP_Window.thy ===== *)
theory FP_Window
  imports FP_Platform
begin

unbundle bit_operations_syntax

text \<open>
  The sliding window of \<^verbatim>\<open>src/src/protocol/window.h\<close>: a circular bitmap of 256 sequence
  numbers, of which the newest 192 form the window, with a summary word that has one bit
  per word of the bitmap, counted back from the word of the head.

  \<^verbatim>\<open>FASTPASS_BUG_ON\<close> reports and continues (\<^verbatim>\<open>FASTPASS_BUG_SHOULD_PANIC\<close> is 0, and the
  kernel variant only dumps the stack), so an operation that contains it returns its
  result together with a flag that says whether a report was made.
\<close>

subsection \<open>Definitions\<close>

definition FASTPASS_WND_LOG :: nat where
  "FASTPASS_WND_LOG = 8"

definition FASTPASS_WND_LEN :: nat where
  "FASTPASS_WND_LEN = 2 ^ FASTPASS_WND_LOG - BITS_PER_LONG"

definition FASTPASS_WND_WORDS :: nat where
  "FASTPASS_WND_WORDS = (2 ^ FASTPASS_WND_LOG + BITS_PER_LONG - 1) div BITS_PER_LONG"

record fp_window =
  marked :: "u64 list"
  summary :: u64
  head :: u64
  head_word :: u32
  num_marked :: u32

definition wnd_pos :: "u64 \<Rightarrow> u32" where
  "wnd_pos tslot = ucast (tslot AND (push_bit FASTPASS_WND_LOG 1 - 1))"

definition summary_pos :: "fp_window \<Rightarrow> u32 \<Rightarrow> u32" where
  "summary_pos wnd pos =
     ucast ((ucast (head_word wnd) - of_nat (BIT_WORD (unat pos)) :: u64)
            mod of_nat FASTPASS_WND_WORDS)"

definition wnd_empty :: "fp_window \<Rightarrow> bool" where
  "wnd_empty wnd = (num_marked wnd = 0)"

definition wnd_num_marked :: "fp_window \<Rightarrow> u32" where
  "wnd_num_marked wnd = num_marked wnd"

definition wnd_head :: "fp_window \<Rightarrow> u64" where
  "wnd_head wnd = head wnd"

definition wnd_edge :: "fp_window \<Rightarrow> u64" where
  "wnd_edge wnd = head wnd - of_nat FASTPASS_WND_LEN + 1"

definition wnd_seq_before :: "fp_window \<Rightarrow> u64 \<Rightarrow> bool" where
  "wnd_seq_before wnd seqno = time_before64 seqno (wnd_edge wnd)"

definition wnd_seq_after :: "fp_window \<Rightarrow> u64 \<Rightarrow> bool" where
  "wnd_seq_after wnd seqno = time_after64 seqno (wnd_head wnd)"

definition wnd_is_marked :: "fp_window \<Rightarrow> u64 \<Rightarrow> bool" where
  "wnd_is_marked wnd seqno = test_bit_arr (unat (wnd_pos seqno)) (marked wnd)"

definition wnd_mark :: "fp_window \<Rightarrow> u64 \<Rightarrow> fp_window \<times> bool" where
  "wnd_mark wnd seqno =
     (let seqno_index = wnd_pos seqno;
          bug = wnd_is_marked wnd seqno
      in (wnd\<lparr>marked := set_bit_arr (unat seqno_index) (marked wnd),
              summary := hd (set_bit_arr (unat (summary_pos wnd seqno_index)) [summary wnd]),
              num_marked := num_marked wnd + 1\<rparr>, bug))"

text \<open>
  The \<^verbatim>\<open>next_intermediate\<close> loop of \<^verbatim>\<open>wnd_mark_bulk\<close>. Its counter runs modulo the number of
  words, so that many rounds reach every word; running out of rounds is \<open>None\<close>.
\<close>

fun mark_intermediate :: "nat \<Rightarrow> u64 list \<Rightarrow> nat \<Rightarrow> nat \<Rightarrow> bool \<Rightarrow> (u64 list \<times> bool) option" where
  "mark_intermediate 0 m cur_word end_word bug = None"
| "mark_intermediate (Suc fuel) m cur_word end_word bug =
     (let cur_word = (cur_word + 1) mod FASTPASS_WND_WORDS
      in if cur_word \<noteq> end_word
         then mark_intermediate fuel (m[cur_word := - 1]) cur_word end_word (bug \<or> m ! cur_word \<noteq> 0)
         else Some (m, bug))"

definition mark_bulk_words ::
    "u64 list \<Rightarrow> nat \<Rightarrow> nat \<Rightarrow> nat \<Rightarrow> nat \<Rightarrow> (u64 list \<times> bool) option" where
  "mark_bulk_words m start_word start_offset end_word end_offset =
     (let mask = push_bit start_offset (- 1);
          finish = (\<lambda>m mask bug.
            let mask = mask AND drop_bit (BITS_PER_LONG - 1 - end_offset) (- 1)
            in (m[end_word := m ! end_word OR mask], bug \<or> m ! end_word AND mask \<noteq> 0))
      in if start_word = end_word then Some (finish m mask False)
         else map_option (\<lambda>(m, bug). finish m (- 1) bug)
                (mark_intermediate FASTPASS_WND_WORDS (m[start_word := m ! start_word OR mask])
                   start_word end_word (m ! start_word AND mask \<noteq> 0)))"

definition wnd_mark_bulk :: "fp_window \<Rightarrow> u64 \<Rightarrow> u32 \<Rightarrow> (fp_window \<times> bool) option" where
  "wnd_mark_bulk wnd seqno amount =
     (let bug = (time_before_eq64 seqno (head wnd - of_nat FASTPASS_WND_LEN)
                 \<or> time_after64 (seqno + ucast amount - 1) (head wnd));
          start_index = wnd_pos seqno;
          end_index = wnd_pos (seqno + ucast amount - 1);
          mask = drop_bit (BITS_PER_LONG - 1 - unat (summary_pos wnd start_index)) (- 1)
                   AND push_bit (unat (summary_pos wnd end_index)) (- 1)
      in map_option
           (\<lambda>(m, bug'). (wnd\<lparr>marked := m,
                             summary := summary wnd OR mask,
                             num_marked := num_marked wnd + amount\<rparr>, bug \<or> bug'))
           (mark_bulk_words (marked wnd)
              (BIT_WORD (unat start_index)) (unat start_index mod BITS_PER_LONG)
              (BIT_WORD (unat end_index)) (unat end_index mod BITS_PER_LONG)))"

definition wnd_clear :: "fp_window \<Rightarrow> u64 \<Rightarrow> fp_window \<times> bool" where
  "wnd_clear wnd seqno =
     (let seqno_index = wnd_pos seqno;
          bug = (\<not> wnd_is_marked wnd seqno);
          m = clear_bit_arr (unat seqno_index) (marked wnd)
      in (wnd\<lparr>marked := m,
              summary := (if m ! BIT_WORD (unat seqno_index) = 0
                          then hd (clear_bit_arr (unat (summary_pos wnd seqno_index)) [summary wnd])
                          else summary wnd),
              num_marked := num_marked wnd - 1\<rparr>, bug))"

definition wnd_at_or_before :: "fp_window \<Rightarrow> u64 \<Rightarrow> int \<times> bool" where
  "wnd_at_or_before wnd seqno =
     (let bug = time_after64 seqno (head wnd)
      in if time_before_eq64 seqno (head wnd - of_nat FASTPASS_WND_LEN) then (- 1, bug)
         else
           let seqno_index = wnd_pos seqno;
               seqno_word = (of_nat (BIT_WORD (unat seqno_index)) :: u32);
               seqno_offset = unat seqno_index mod BITS_PER_LONG;
               tmp = push_bit (BITS_PER_LONG - 1 - seqno_offset) (marked wnd ! unat seqno_word)
           in if tmp \<noteq> 0 then (int BITS_PER_LONG - 1 - fls64 tmp, bug)
              else
                let tmp = drop_bit (unat (summary_pos wnd seqno_index)) (summary wnd) AND NOT 1
                in if tmp = 0 then (- 1, bug)
                   else
                     let result_word_offset = (of_int (ffs64 tmp) :: u32);
                         tmp = marked wnd ! unat ((seqno_word - result_word_offset)
                                                  mod of_nat FASTPASS_WND_WORDS)
                     in (int BITS_PER_LONG * uint result_word_offset + int seqno_offset - fls64 tmp,
                         bug))"

definition wnd_earliest_marked :: "fp_window \<Rightarrow> u64" where
  "wnd_earliest_marked wnd =
     (let word_offset = (of_int (fls64 (summary wnd)) :: u32);
          tmp = marked wnd ! unat ((head_word wnd - word_offset) mod of_nat FASTPASS_WND_WORDS)
      in (head wnd AND NOT (of_nat BITS_PER_LONG - 1)) - ucast word_offset * of_nat BITS_PER_LONG
           + of_int (ffs64 tmp))"

text \<open>The boolean result and the output parameter of \<^verbatim>\<open>wnd_at_or_after\<close> are an option.\<close>

definition wnd_at_or_after :: "fp_window \<Rightarrow> u64 \<Rightarrow> u64 option" where
  "wnd_at_or_after wnd seqno =
     (if wnd_seq_after wnd seqno then None
      else if wnd_seq_before wnd seqno then
        (if wnd_empty wnd then None else Some (wnd_earliest_marked wnd))
      else
        let seqno_index = wnd_pos seqno;
            seqno_word = (of_nat (BIT_WORD (unat seqno_index)) :: u32);
            seqno_offset = unat seqno_index mod BITS_PER_LONG;
            tmp = drop_bit seqno_offset (marked wnd ! unat seqno_word)
        in if tmp \<noteq> 0 then Some (seqno + of_int (ffs64 tmp))
           else
             let tmp = push_bit (BITS_PER_LONG - 1 - unat (summary_pos wnd seqno_index)) (summary wnd)
                         AND (push_bit 63 1 - 1)
             in if tmp = 0 then None
                else
                  let result_word_offset = (of_int (int BITS_PER_LONG - 1 - fls64 tmp) :: u32);
                      tmp = marked wnd ! unat ((seqno_word + result_word_offset)
                                               mod of_nat FASTPASS_WND_WORDS)
                  in Some (seqno - of_nat seqno_offset + of_nat BITS_PER_LONG * ucast result_word_offset
                           + of_int (ffs64 tmp)))"

definition wnd_reset :: "fp_window \<Rightarrow> u64 \<Rightarrow> fp_window" where
  "wnd_reset wnd new_head =
     wnd\<lparr>marked := replicate FASTPASS_WND_WORDS 0,
         head := new_head,
         head_word := of_nat (BIT_WORD (unat (wnd_pos new_head))),
         summary := 0,
         num_marked := 0\<rparr>"

definition wnd_advance :: "fp_window \<Rightarrow> u64 \<Rightarrow> fp_window \<times> bool" where
  "wnd_advance wnd amount =
     (let word_shift = (head wnd + amount) div of_nat BITS_PER_LONG - head wnd div of_nat BITS_PER_LONG;
          (wnd', bug) =
            (if word_shift \<ge> of_nat FASTPASS_WND_WORDS
             then (wnd\<lparr>marked := replicate FASTPASS_WND_WORDS 0, summary := 0\<rparr>, num_marked wnd \<noteq> 0)
             else (wnd\<lparr>summary := push_bit (unat word_shift) (summary wnd)\<rparr>,
                   \<not> wnd_empty wnd \<and> time_before_eq64 (wnd_earliest_marked wnd)
                                       (head wnd + amount - of_nat FASTPASS_WND_LEN)))
      in (wnd'\<lparr>head := head wnd + amount,
               head_word := ucast ((ucast (head_word wnd) + word_shift) mod of_nat FASTPASS_WND_WORDS)\<rparr>,
          bug))"

definition wnd_get_mask_unsafe :: "fp_window \<Rightarrow> u64 \<Rightarrow> u64" where
  "wnd_get_mask_unsafe wnd pos =
     (let pos_index = wnd_pos pos;
          pos_word = (of_nat (BIT_WORD (unat pos_index)) :: u32);
          pos_offset = unat pos_index mod BITS_PER_LONG
      in if pos_offset = BITS_PER_LONG - 1 then marked wnd ! unat pos_word
         else push_bit (BITS_PER_LONG - 1 - pos_offset) (marked wnd ! unat pos_word)
              OR drop_bit (pos_offset + 1)
                   (marked wnd ! unat ((pos_word - 1) mod of_nat FASTPASS_WND_WORDS)))"

definition wnd_get_mask :: "fp_window \<Rightarrow> u64 \<Rightarrow> u64" where
  "wnd_get_mask wnd pos =
     (if time_before_eq64 pos (head wnd - of_nat FASTPASS_WND_LEN) then 0
      else if time_after_eq64 pos (head wnd + of_nat BITS_PER_LONG) then 0
      else wnd_get_mask_unsafe wnd pos)"

end
