(* ===== verification/FP_Window_Inv.thy ===== *)
theory FP_Window_Inv
  imports FP_Window
begin

unbundle bit_operations_syntax

text \<open>
  Correctness of the window of \<^verbatim>\<open>window.h\<close>. The abstract value of a window is its head and
  the set of marked sequence numbers; the invariant ties bitmap, summary and counter to
  that set. Bits are addressed by coordinates: the word, counted back from the word of the
  head, and the offset inside the word.
\<close>

subsection \<open>Finding the first and the last set bit\<close>

lemma find_Some_sorted:
  assumes "find P xs = Some x" and "sorted_wrt (<) xs" and "y \<in> set xs" and "P y"
  shows "(x :: nat) \<le> y"
  using assms by (induction xs) (auto split: if_splits)

lemma find_Some_sorted_rev:
  assumes "find P xs = Some x" and "sorted_wrt (>) xs" and "y \<in> set xs" and "P y"
  shows "y \<le> (x :: nat)"
  using assms by (induction xs) (auto split: if_splits)

lemma ffs64_eqI:
  assumes "bit x i" and "\<And>j. j < i \<Longrightarrow> \<not> bit x j"
  shows "ffs64 x = int i"
proof -
  have i: "i \<in> set [0..<64]"
    using bit_word_lt [OF assms(1)] by simp
  then obtain j where j: "find (bit x) [0..<64] = Some j"
    using assms(1) by (cases "find (bit x) [0..<64]") (auto simp: find_None_iff)
  then have "bit x j"
    by (auto simp: find_Some_iff)
  moreover have "j \<le> i"
    using j i assms(1) by (intro find_Some_sorted [of "bit x" "[0..<64]"]) auto
  ultimately have "j = i"
    using assms(2) by (cases "j = i") auto
  with j show ?thesis
    by (simp add: ffs64_def)
qed

lemma fls64_eqI:
  assumes "bit x i" and "\<And>j. i < j \<Longrightarrow> \<not> bit x j"
  shows "fls64 x = int i"
proof -
  have i: "i \<in> set (rev [0..<64])"
    using bit_word_lt [OF assms(1)] by simp
  then obtain j where j: "find (bit x) (rev [0..<64]) = Some j"
    using assms(1) by (cases "find (bit x) (rev [0..<64])") (auto simp: find_None_iff)
  then have "bit x j"
    by (auto simp: find_Some_iff)
  moreover have "i \<le> j"
    using j i assms(1)
    by (intro find_Some_sorted_rev [of "bit x" "rev [0..<64]"]) (auto simp: sorted_wrt_rev)
  ultimately have "j = i"
    using assms(2) by (cases "j = i") auto
  with j show ?thesis
    by (simp add: fls64_def)
qed

lemma ffs64_ex:
  assumes "x \<noteq> 0"
  obtains i where "bit x i" and "i < 64" and "ffs64 x = int i" and "\<And>j. j < i \<Longrightarrow> \<not> bit x j"
proof -
  define i where "i = (LEAST i. bit x i)"
  have ex: "\<exists>i. bit x i"
    using assms u64_neq_0_iff by auto
  then have "bit x i"
    unfolding i_def by (rule LeastI_ex)
  moreover have "\<And>j. j < i \<Longrightarrow> \<not> bit x j"
    unfolding i_def by (rule not_less_Least)
  ultimately show thesis
    using that ffs64_eqI bit_word_lt by blast
qed

lemma fls64_ex:
  assumes "x \<noteq> 0"
  obtains i where "bit x i" and "i < 64" and "fls64 x = int i" and "\<And>j. i < j \<Longrightarrow> \<not> bit x j"
proof -
  define i where "i = Max {i. bit x i}"
  have fin: "finite {i. bit x i}"
    by (rule finite_subset [of _ "{..<64}"]) (auto dest: bit_word_lt)
  have ex: "{i. bit x i} \<noteq> {}"
    using assms u64_neq_0_iff by auto
  have "bit x i"
    using Max_in [OF fin ex] by (simp add: i_def)
  moreover have "\<And>j. i < j \<Longrightarrow> \<not> bit x j"
    using Max_ge [OF fin] by (auto simp: i_def leD)
  ultimately show thesis
    using that fls64_eqI bit_word_lt by blast
qed

subsection \<open>Time comparison as distance\<close>

lemma sint_u64_eq:
  "sint (x :: u64) = (if uint x < 9223372036854775808 then uint x else uint x - 18446744073709551616)"
proof -
  have eq: "sint x = (uint x + 9223372036854775808) mod 18446744073709551616 - 9223372036854775808"
    using int_word_sint [where ?'a = 64, of "uint x"] by simp
  have lt: "uint x < 18446744073709551616" "0 \<le> uint x"
    using uint_lt2p [of x] by simp_all
  show ?thesis
  proof (cases "uint x < 9223372036854775808")
    case True
    then have "(uint x + 9223372036854775808) mod 18446744073709551616 = uint x + 9223372036854775808"
      using lt by (intro mod_pos_pos_trivial) linarith+
    with eq True show ?thesis by simp
  next
    case False
    have "(uint x + 9223372036854775808) mod 18446744073709551616
        = (uint x - 9223372036854775808 + 18446744073709551616) mod 18446744073709551616"
      by (simp add: add.commute)
    also have "\<dots> = uint x - 9223372036854775808"
      unfolding mod_add_self2 using False lt by (intro mod_pos_pos_trivial) linarith+
    finally show ?thesis
      using eq False by simp
  qed
qed

lemma sint_u64_neg_iff: "sint (x :: u64) < 0 \<longleftrightarrow> 9223372036854775808 \<le> unat x"
proof -
  have "unat x = nat (uint x)" "uint x < 18446744073709551616" "0 \<le> uint x"
    using uint_lt2p [of x] by simp_all
  then show ?thesis
    unfolding sint_u64_eq by (cases "uint x < 9223372036854775808") (simp_all only: if_True if_False, linarith+)
qed

lemma time_after64_iff: "time_after64 a b \<longleftrightarrow> 9223372036854775808 \<le> unat (b - a)"
  by (simp only: time_after64_def sint_u64_neg_iff)

lemma time_after_eq64_iff: "time_after_eq64 a b \<longleftrightarrow> unat (a - b) < 9223372036854775808"
  using sint_u64_neg_iff [of "a - b"] by (simp add: time_after_eq64_def) linarith

lemma unat_sub_const:
  assumes "n \<le> unat (a - s)"
  shows "unat ((a :: u64) - of_nat n - s) = unat (a - s) - n"
proof -
  have n: "n < 18446744073709551616"
    using assms unat_u64_lt [of "a - s"] by linarith
  then have "unat (of_nat n :: u64) = n"
    by (simp add: unat_of_nat)
  then have "of_nat n \<le> a - s"
    using assms by (simp add: word_le_nat_alt)
  moreover have "a - of_nat n - s = (a - s) - of_nat n"
    by simp
  ultimately show ?thesis
    by (simp only: unat_sub \<open>unat (of_nat n :: u64) = n\<close>)
qed

lemma unat_sub_const_wrap:
  assumes "unat (a - s) < n" and "n < 18446744073709551616"
  shows "unat ((a :: u64) - of_nat n - s) = unat (a - s) + 18446744073709551616 - n"
proof -
  have "unat (of_nat n :: u64) = n"
    using assms(2) by (simp add: unat_of_nat)
  moreover have "a - of_nat n - s = (a - s) - of_nat n"
    by simp
  moreover have "\<not> n \<le> unat (a - s)"
    using assms(1) by simp
  ultimately show ?thesis
    using unat_sub_if' [of "a - s" "of_nat n"] by (simp only: if_False) simp
qed

lemma before_eq_window_iff:
  assumes "unat (a - s) < 9223372036854775808" and that: "n < 9223372036854775808"
  shows "time_before_eq64 s ((a :: u64) - of_nat n) \<longleftrightarrow> n \<le> unat (a - s)"
proof (cases "n \<le> unat (a - s)")
  case True
  then show ?thesis
    using assms by (simp add: time_before_eq64_def time_after_eq64_iff unat_sub_const)
next
  case False
  then have "unat (a - of_nat n - s) = unat (a - s) + 18446744073709551616 - n"
    using that by (intro unat_sub_const_wrap) auto
  with False that show ?thesis
    by (simp add: time_before_eq64_def time_after_eq64_iff)
qed

subsection \<open>Constants of the window\<close>

lemma wnd_consts [simp]:
  "BITS_PER_LONG = 64" "FASTPASS_WND_LOG = 8" "FASTPASS_WND_LEN = 192" "FASTPASS_WND_WORDS = 4"
  by (simp_all add: BITS_PER_LONG_def FASTPASS_WND_LOG_def FASTPASS_WND_LEN_def FASTPASS_WND_WORDS_def)

lemma BIT_WORD_eq [simp]: "BIT_WORD n = n div 64"
  by (simp add: BIT_WORD_def)

lemma bit_BIT_MASK [word_bits]: "bit (BIT_MASK n) i \<longleftrightarrow> i = n mod 64"
  by (auto simp: BIT_MASK_def bit_u64_push bit_u64_one simp del: push_bit_of_1)

lemma unat_wnd_pos [word_nat]: "unat (wnd_pos s) = unat s mod 256"
proof -
  have "unat s mod 256 < 4294967296"
    by (rule less_le_trans [of _ 256]) auto
  then show ?thesis
    by (simp add: wnd_pos_def push_bit_of_1 unat_ucast_u64_u32 unat_and_255 mod_less)
qed

lemma test_bit_arr_iff: "test_bit_arr n m \<longleftrightarrow> bit (m ! (n div 64)) (n mod 64)"
proof -
  have "1 AND drop_bit (n mod 64) (m ! (n div 64)) \<noteq> 0 \<longleftrightarrow> odd (drop_bit (n mod 64) (m ! (n div 64)))"
    by (simp add: one_and_eq odd_iff_mod_2_eq_one)
  also have "\<dots> \<longleftrightarrow> bit (m ! (n div 64)) (n mod 64)"
    by (simp add: bit_iff_odd_drop_bit)
  finally show ?thesis
    by (simp add: test_bit_arr_def)
qed

lemma mod4_sub:
  assumes "q \<le> 18446744073709551612"
  shows "(h + 18446744073709551616 - q) mod 4 = (h + 4 - q mod 4) mod (4 :: nat)"
proof -
  have "h + 18446744073709551616 - q = (h + 4 - q mod 4) + 4 * (4611686018427387903 - q div 4)"
    using assms div_mult_mod_eq [of q 4] by linarith
  then show ?thesis by (simp only: mod_mult_self2)
qed

lemma summary_pos_nat [word_nat]:
  "unat (summary_pos w p) = (unat (head_word w) + 4 - unat p div 64 mod 4) mod 4"
proof -
  have pd: "unat (of_nat (unat p div 64) :: u64) = unat p div 64"
  proof -
    have "unat p div 64 < 18446744073709551616"
      using unat_u32_lt [of p] by linarith
    then show ?thesis by (simp add: unat_of_nat)
  qed
  have "unat ((ucast (head_word w) - of_nat (unat p div 64) :: u64) mod 4)
      = (unat (head_word w) + 18446744073709551616 - unat p div 64) mod 18446744073709551616 mod 4"
    by (simp add: unat_mod unat_sub_mod pd)
  also have "\<dots> = (unat (head_word w) + 18446744073709551616 - unat p div 64) mod 4"
    by (rule mod_mod_cancel) simp
  also have "\<dots> = (unat (head_word w) + 4 - unat p div 64 mod 4) mod 4"
    using unat_u32_lt [of p] by (intro mod4_sub) linarith
  finally have eq: "unat ((ucast (head_word w) - of_nat (unat p div 64) :: u64) mod 4)
      = (unat (head_word w) + 4 - unat p div 64 mod 4) mod 4" .
  have "(unat (head_word w) + 4 - unat p div 64 mod 4) mod 4 < 4294967296"
    by (rule less_le_trans [of _ 4]) auto
  with eq show ?thesis
    by (simp add: summary_pos_def unat_ucast_u64_u32)
qed

subsection \<open>Coordinates\<close>

definition ho :: "fp_window \<Rightarrow> nat" where
  "ho w = unat (head w) mod 64"

definition wd :: "fp_window \<Rightarrow> nat \<Rightarrow> u64" where
  "wd w k = marked w ! ((unat (head_word w) + 4 - k) mod 4)"

definition coord :: "fp_window \<Rightarrow> u64 \<Rightarrow> nat \<Rightarrow> nat \<Rightarrow> bool" where
  "coord w s k i \<longleftrightarrow> k < 4 \<and> i < 64 \<and> i \<le> 64 * k + ho w \<and> unat (head w - s) + i = 64 * k + ho w"

definition head_word_ok :: "fp_window \<Rightarrow> bool" where
  "head_word_ok w \<longleftrightarrow> unat (head_word w) = unat (head w) div 64 mod 4"

lemma ho_lt [simp]: "ho w < 64"
  by (simp add: ho_def)

lemma coord_ex:
  assumes "unat (head w - s) < 193 + ho w"
  obtains k i where "coord w s k i"
proof -
  let ?d = "unat (head w - s)"
  define k where "k = (?d + 63 - ho w) div 64"
  define i where "i = 64 * k + ho w - ?d"
  have o: "ho w < 64" by simp
  have k: "?d + 63 - ho w = 64 * k + (?d + 63 - ho w) mod 64"
    by (simp add: k_def)
  have m: "(?d + 63 - ho w) mod 64 < 64" by simp
  have "k < 4"
    using assms o unfolding k_def by (intro less_mult_imp_div_less) linarith
  moreover have "?d \<le> 64 * k + ho w"
    using k m o by linarith
  moreover have "i < 64"
    using k m o unfolding i_def by linarith
  ultimately have "coord w s k i"
    by (auto simp: coord_def i_def)
  then show thesis by (rule that)
qed

lemma coord_unique:
  assumes "coord w s k i" and "coord w s k' i'"
  shows "k' = k \<and> i' = i"
proof -
  have eq: "64 * int k - int i = 64 * int k' - int i'"
    using assms by (auto simp: coord_def)
  have "int i < 64" "int i' < 64" "0 \<le> int i" "0 \<le> int i'"
    using assms by (auto simp: coord_def)
  then have "int k = int k'"
    using eq by linarith
  with eq show ?thesis by simp
qed

lemma coord_seq:
  assumes "coord w s k i"
  shows "s = head w - of_nat (64 * k + ho w - i)"
proof -
  have "unat (head w - s) = 64 * k + ho w - i"
    using assms by (auto simp: coord_def)
  then have "head w - s = of_nat (64 * k + ho w - i)"
    by (metis of_nat_unat ucast_id)
  then show ?thesis by (simp add: algebra_simps)
qed

lemma coordI:
  assumes "k < 4" and "i < 64" and "i \<le> 64 * k + ho w"
  shows "coord w (head w - of_nat (64 * k + ho w - i)) k i"
proof -
  have "64 * k + ho w - i < 18446744073709551616"
    using assms ho_lt [of w] by linarith
  then have "unat (of_nat (64 * k + ho w - i) :: u64) = 64 * k + ho w - i"
    by (simp add: unat_of_nat)
  moreover have "head w - (head w - of_nat (64 * k + ho w - i)) = of_nat (64 * k + ho w - i)"
    by simp
  ultimately show ?thesis
    using assms unfolding coord_def by (simp only:) simp
qed

lemma pos_arith:
  fixes h :: nat
  assumes "i < 64" and "k \<le> 4"
  shows "(64 * (h + 288230376151711744 - k) + i) mod 256 = 64 * ((h mod 4 + 4 - k) mod 4) + i"
proof -
  have "(64 * (h + 288230376151711744 - k) + i) mod 256 = 64 * ((h + 288230376151711744 - k) mod 4) + i"
    using assms(1) mod_mult2_eq [of "64 * (h + 288230376151711744 - k) + i" 64 4] by simp
  moreover have "h + 288230376151711744 - k = (h mod 4 + 4 - k) + 4 * (h div 4 + 72057594037927935)"
  proof -
    define j where "j = 4 - k"
    have j: "4 = k + j"
      using assms(2) by (simp add: j_def)
    then have "h + 288230376151711744 - k = h + 288230376151711740 + j" and "h mod 4 + 4 - k = h mod 4 + j"
      by simp_all
    moreover have "4 * (h div 4 + 72057594037927935) = h div 4 * 4 + 288230376151711740"
      by simp
    ultimately show ?thesis
      using div_mult_mod_eq [of h 4] by (simp only:)
  qed
  ultimately show ?thesis by (simp only: mod_mult_self2)
qed

lemma age_pos:
  assumes ki: "k \<le> 4" "i < 64" "unat (head w - s) + i = 64 * k + ho w" and hw: "head_word_ok w"
  shows "unat s mod 256 = 64 * ((unat (head_word w) + 4 - k) mod 4) + i"
proof -
  let ?h = "unat (head w)" and ?d = "unat (head w - s)"
  have "s = head w - (head w - s)" by simp
  then have "unat s = (?h + 18446744073709551616 - ?d) mod 18446744073709551616"
    by (metis unat_sub_mod)
  then have "unat s mod 256 = (?h + 18446744073709551616 - ?d) mod 256"
    by (simp add: mod_mod_cancel)
  also have "?h + 18446744073709551616 - ?d = 64 * (?h div 64 + 288230376151711744 - k) + i"
    using ki div_mult_mod_eq [of ?h 64] unfolding ho_def by linarith
  also have "\<dots> mod 256 = 64 * ((?h div 64 mod 4 + 4 - k) mod 4) + i"
    by (rule pos_arith) (use ki in auto)
  finally show ?thesis
    using hw by (simp add: head_word_ok_def)
qed

lemma coord_pos:
  assumes c: "coord w s k i" and hw: "head_word_ok w"
  shows "unat (wnd_pos s) = 64 * ((unat (head_word w) + 4 - k) mod 4) + i"
  using age_pos [of k i w s] assms by (simp add: coord_def unat_wnd_pos)

lemma coord_word:
  assumes "coord w s k i" and "head_word_ok w"
  shows "unat (wnd_pos s) div 64 = (unat (head_word w) + 4 - k) mod 4"
    and "unat (wnd_pos s) mod 64 = i"
  using coord_pos [OF assms] assms(1) by (auto simp: coord_def)

lemma mod4_neg:
  assumes "h < 4" and "k < 4"
  shows "(h + 4 - (h + 4 - k) mod 4) mod 4 = (k :: nat)"
proof -
  have "h \<in> {0, 1, 2, 3}" "k \<in> {0, 1, 2, 3}"
    using assms by auto
  then show ?thesis by auto
qed

lemma coord_summary:
  assumes c: "coord w s k i" and hw: "head_word_ok w"
  shows "unat (summary_pos w (wnd_pos s)) = k"
proof -
  have "unat (head_word w) < 4" "k < 4"
    using hw c by (auto simp: head_word_ok_def coord_def)
  then show ?thesis
    by (simp add: summary_pos_nat coord_word [OF c hw]) (intro mod4_neg; assumption)
qed

lemma coord_marked:
  assumes "coord w s k i" and "head_word_ok w"
  shows "wnd_is_marked w s \<longleftrightarrow> bit (wd w k) i"
  by (simp add: wnd_is_marked_def test_bit_arr_iff coord_word [OF assms] wd_def)

subsection \<open>The abstract window and its invariant\<close>

definition wnd_set :: "fp_window \<Rightarrow> u64 set" where
  "wnd_set w = {s. unat (head w - s) < 192 \<and> wnd_is_marked w s}"

definition bits_in_window :: "fp_window \<Rightarrow> bool" where
  "bits_in_window w \<longleftrightarrow>
     (\<forall>k<4. \<forall>i<64. bit (wd w k) i \<longrightarrow> i \<le> 64 * k + ho w \<and> 64 * k + ho w < 192 + i)"

definition summary_ok :: "fp_window \<Rightarrow> bool" where
  "summary_ok w \<longleftrightarrow> (\<forall>k. bit (summary w) k \<longleftrightarrow> k < 4 \<and> wd w k \<noteq> 0)"

definition wnd_inv :: "fp_window \<Rightarrow> bool" where
  "wnd_inv w \<longleftrightarrow> length (marked w) = 4 \<and> head_word_ok w \<and> bits_in_window w \<and> summary_ok w
     \<and> unat (num_marked w) = card (wnd_set w)"

lemma wnd_invD:
  assumes "wnd_inv w"
  shows "length (marked w) = 4" "head_word_ok w" "bits_in_window w" "summary_ok w"
    "unat (num_marked w) = card (wnd_set w)"
  using assms by (auto simp: wnd_inv_def)

lemma word_slot_inj:
  assumes "h < 4" "k < 4" "k' < 4"
  shows "(h + 4 - k) mod 4 = (h + 4 - k') mod (4 :: nat) \<longleftrightarrow> k = k'"
  by (metis mod4_neg assms)

lemma head_word_lt: "head_word_ok w \<Longrightarrow> unat (head_word w) < 4"
  by (simp add: head_word_ok_def)

lemma finite_wnd_set [simp]: "finite (wnd_set w)"
  by simp

lemma card_wnd_set_le: "card (wnd_set w) \<le> 192"
proof -
  have "wnd_set w \<subseteq> (\<lambda>d. head w - of_nat d) ` {..<192}"
  proof
    fix s assume "s \<in> wnd_set w"
    then have "unat (head w - s) \<in> {..<192}" and "s = head w - of_nat (unat (head w - s))"
      by (auto simp: wnd_set_def)
    then show "s \<in> (\<lambda>d. head w - of_nat d) ` {..<192}"
      by blast
  qed
  then have "card (wnd_set w) \<le> card {..<192 :: nat}"
    by (rule surj_card_le [OF finite_lessThan])
  then show ?thesis by simp
qed

lemma in_wnd_set_coord:
  assumes "head_word_ok w" and "bits_in_window w" and c: "coord w s k i"
  shows "s \<in> wnd_set w \<longleftrightarrow> bit (wd w k) i"
proof -
  have "bit (wd w k) i \<Longrightarrow> unat (head w - s) < 192"
    using assms(2) c unfolding bits_in_window_def coord_def by fastforce
  then show ?thesis
    using coord_marked [OF c assms(1)] by (auto simp: wnd_set_def)
qed

lemma wnd_set_age: "s \<in> wnd_set w \<Longrightarrow> unat (head w - s) < 192"
  by (simp add: wnd_set_def)

lemma in_wnd_setE:
  assumes "s \<in> wnd_set w" and "head_word_ok w"
  obtains k i where "coord w s k i" and "bit (wd w k) i"
proof -
  from assms(1) have "unat (head w - s) < 193 + ho w"
    by (simp add: wnd_set_def)
  then obtain k i where c: "coord w s k i" by (rule coord_ex)
  moreover have "bit (wd w k) i"
    using assms coord_marked [OF c] by (auto simp: wnd_set_def)
  ultimately show thesis by (rule that)
qed

text \<open>
  Two windows with the same head: the bits of one determine its invariant relative to the
  other. The update operations are proved through this rule.
\<close>

lemma bits_setI:
  assumes same: "head w' = head w" "head_word w' = head_word w"
    and hw: "head_word_ok w" and ok: "bits_in_window w"
    and bits: "\<And>t k i. coord w t k i \<Longrightarrow> unat (head w - t) < 192 \<Longrightarrow> bit (wd w' k) i \<longleftrightarrow> t \<in> S"
    and inwin: "bits_in_window w'"
    and S: "\<And>t. t \<in> S \<Longrightarrow> unat (head w - t) < 192"
  shows "wnd_set w' = S"
proof (rule set_eqI)
  fix t
  have hw': "head_word_ok w'"
    using hw same by (simp add: head_word_ok_def)
  have co: "\<And>t k i. coord w' t k i \<longleftrightarrow> coord w t k i"
    using same by (simp add: coord_def ho_def)
  show "t \<in> wnd_set w' \<longleftrightarrow> t \<in> S"
  proof (cases "unat (head w - t) < 192")
    case True
    then have "unat (head w - t) < 193 + ho w"
      by simp
    then obtain k i where c: "coord w t k i"
      by (rule coord_ex)
    then show ?thesis
      using in_wnd_set_coord [OF hw' inwin, of t k i] bits [OF c True] co by simp
  next
    case False
    then show ?thesis
      using S same by (auto simp: wnd_set_def)
  qed
qed

end
