(* ===== verification/FP_Window_Ops.thy ===== *)
theory FP_Window_Ops
  imports FP_Window_Inv
begin

unbundle bit_operations_syntax

text \<open>
  Every operation of \<^verbatim>\<open>window.h\<close> against the abstract window: reset, marking and clearing
  one sequence number, advancing the head, the three searches and the acknowledgement mask.
\<close>

subsection \<open>Reset\<close>

lemma wnd_reset_inv: "wnd_inv (wnd_reset w h)" and wnd_reset_set: "wnd_set (wnd_reset w h) = {}"
proof -
  let ?w = "wnd_reset w h"
  have m: "\<And>i. i < 4 \<Longrightarrow> marked ?w ! i = 0"
    by (simp add: wnd_reset_def)
  have set: "wnd_set ?w = {}"
    by (simp add: wnd_set_def wnd_is_marked_def test_bit_arr_iff unat_wnd_pos m)
  have "unat h mod 256 div 64 = unat h div 64 mod 4"
    using mod_mult2_eq [of "unat h" 64 4] by simp
  moreover have "unat h div 64 mod 4 < 4294967296"
    by (rule less_le_trans [of _ 4]) auto
  ultimately have "head_word_ok ?w"
    by (simp add: head_word_ok_def wnd_reset_def unat_wnd_pos unat_of_nat)
  moreover have "wd ?w k = 0" for k
    by (simp add: wd_def m)
  moreover have "length (marked ?w) = 4" "summary ?w = 0" "num_marked ?w = 0"
    by (simp_all add: wnd_reset_def)
  ultimately show "wnd_inv ?w"
    by (simp add: wnd_inv_def bits_in_window_def summary_ok_def set)
  show "wnd_set ?w = {}" by (rule set)
qed

lemma wnd_reset_head [simp]: "head (wnd_reset w h) = h"
  by (simp add: wnd_reset_def)

subsection \<open>Marking and clearing one sequence number\<close>

lemma wd_update_slot:
  assumes "length (marked w) = 4" and "unat (head_word w) < 4" and "k < 4" and "j < 4"
    and "marked w' = (marked w)[(unat (head_word w) + 4 - k) mod 4 := x]"
    and "head_word w' = head_word w"
  shows "wd w' j = (if j = k then x else wd w j)"
  using assms word_slot_inj [of "unat (head_word w)" k j] by (auto simp: wd_def nth_list_update)

lemma hd_set_bit_arr: "k < 64 \<Longrightarrow> hd (set_bit_arr k [x]) = x OR BIT_MASK k"
  by (simp add: set_bit_arr_def)

lemma hd_clear_bit_arr: "k < 64 \<Longrightarrow> hd (clear_bit_arr k [x]) = x AND NOT (BIT_MASK k)"
  by (simp add: clear_bit_arr_def)

lemma coord_same:
  assumes "head w' = head w" and "head_word w' = head_word w"
  shows "coord w' = coord w" and "ho w' = ho w" and "head_word_ok w' = head_word_ok w"
  using assms by (auto simp: fun_eq_iff coord_def ho_def head_word_ok_def)

lemma summary_okD: "summary_ok w \<Longrightarrow> bit (summary w) k \<longleftrightarrow> k < 4 \<and> wd w k \<noteq> 0"
  by (simp only: summary_ok_def)

text \<open>Changing the one bit at the coordinates of \<open>s\<close> changes membership of \<open>s\<close> only.\<close>

lemma point_update:
  assumes inv: "wnd_inv w" and c: "coord w s k i" and age: "unat (head w - s) < 192"
    and same: "head w' = head w" "head_word w' = head_word w"
    and bit': "\<And>j l. j < 4 \<Longrightarrow> l < 64 \<Longrightarrow>
      bit (wd w' j) l \<longleftrightarrow> (if j = k \<and> l = i then b else bit (wd w j) l)"
  shows "bits_in_window w'"
    and "wnd_set w' = (if b then insert s (wnd_set w) else wnd_set w - {s})"
proof -
  note I = wnd_invD [OF inv]
  show inwin: "bits_in_window w'"
    using I(3) c age by (auto simp: bits_in_window_def bit' coord_same [OF same] coord_def split: if_splits)
  show "wnd_set w' = (if b then insert s (wnd_set w) else wnd_set w - {s})"
  proof (rule bits_setI [OF same I(2,3)])
    fix t l j assume ct: "coord w t l j" and "unat (head w - t) < 192"
    then have "l < 4" "j < 64" by (auto simp: coord_def)
    moreover have "l = k \<and> j = i \<longleftrightarrow> t = s"
      using coord_unique [OF c, of l j] coord_seq [OF c] coord_seq [OF ct] ct by auto
    ultimately show "bit (wd w' l) j \<longleftrightarrow> t \<in> (if b then insert s (wnd_set w) else wnd_set w - {s})"
      using in_wnd_set_coord [OF I(2,3) ct] by (auto simp: bit')
  next
    show "bits_in_window w'" by (rule inwin)
  next
    fix t assume "t \<in> (if b then insert s (wnd_set w) else wnd_set w - {s})"
    then show "unat (head w - t) < 192" using age wnd_set_age by (auto split: if_splits)
  qed
qed

lemma wnd_coordE:
  assumes "unat (head w - s) < 192"
  obtains k i where "coord w s k i" and "k < 4" and "i < 64"
proof -
  have "unat (head w - s) < 193 + ho w"
    using assms by simp
  then obtain k i where "coord w s k i"
    by (rule coord_ex)
  then show thesis
    using that by (auto simp: coord_def)
qed

lemma wnd_mark_step:
  assumes inv: "wnd_inv w" and age: "unat (head w - s) < 192" and w': "w' = fst (wnd_mark w s)"
  shows "length (marked w') = 4 \<and> head_word_ok w' \<and> bits_in_window w' \<and> summary_ok w'
    \<and> wnd_set w' = insert s (wnd_set w)"
proof -
  note I = wnd_invD [OF inv]
  obtain k i where c: "coord w s k i" and ki: "k < 4" "i < 64"
    using age by (rule wnd_coordE)
  have same: "head w' = head w" "head_word w' = head_word w"
    by (simp_all add: w' wnd_mark_def Let_def)
  have marked': "marked w' = (marked w)[(unat (head_word w) + 4 - k) mod 4 := wd w k OR BIT_MASK i]"
    using ki by (simp add: w' wnd_mark_def Let_def set_bit_arr_def coord_word [OF c I(2)] BIT_MASK_def wd_def)
  have wd': "wd w' j = (if j = k then wd w k OR BIT_MASK i else wd w j)" if "j < 4" for j
    by (rule wd_update_slot [OF I(1) head_word_lt [OF I(2)] ki(1) that marked' same(2)])
  have sum': "summary w' = summary w OR BIT_MASK k"
    using ki by (simp add: w' wnd_mark_def Let_def coord_summary [OF c I(2)] hd_set_bit_arr)
  have bit': "bit (wd w' j) l \<longleftrightarrow> (if j = k \<and> l = i then True else bit (wd w j) l)"
    if "j < 4" "l < 64" for j l
    using that ki by (auto simp: wd' word_bits)
  have "wd w k OR BIT_MASK i \<noteq> 0"
    using ki by (auto simp: u64_neq_0_iff word_bits)
  have "bit (summary w') j \<longleftrightarrow> j < 4 \<and> wd w' j \<noteq> 0" for j
    using summary_okD [OF I(4), of j] ki \<open>wd w k OR BIT_MASK i \<noteq> 0\<close>
    by (cases "j = k") (simp_all add: sum' bit_or_iff bit_BIT_MASK wd' cong: conj_cong)
  then have "summary_ok w'"
    by (simp only: summary_ok_def simp_thms)
  moreover have "length (marked w') = 4"
    using I(1) by (simp add: marked')
  moreover have "head_word_ok w'"
    using I(2) coord_same(3) [OF same] by simp
  ultimately show ?thesis
    using point_update [OF inv c age same bit'] by (simp only: if_True if_False simp_thms)
qed

lemma wnd_mark_correct:
  assumes inv: "wnd_inv w" and age: "unat (head w - s) < 192" and new: "s \<notin> wnd_set w"
  shows "\<exists>w'. wnd_mark w s = (w', False) \<and> wnd_inv w' \<and> wnd_set w' = insert s (wnd_set w)
    \<and> head w' = head w"
proof -
  note step = wnd_mark_step [OF inv age refl]
  have "unat (num_marked w + 1) = Suc (unat (num_marked w))"
    using wnd_invD(5) [OF inv] card_wnd_set_le [of w] by (simp add: unat_word_ariths)
  then have "wnd_inv (fst (wnd_mark w s))"
    using step new wnd_invD(5) [OF inv] by (simp add: wnd_inv_def) (simp add: wnd_mark_def Let_def)
  moreover have "\<not> wnd_is_marked w s"
    using new age by (simp add: wnd_set_def)
  ultimately show ?thesis
    using step by (auto simp: wnd_mark_def Let_def)
qed

lemma wnd_clear_step:
  assumes inv: "wnd_inv w" and age: "unat (head w - s) < 192" and w': "w' = fst (wnd_clear w s)"
  shows "length (marked w') = 4 \<and> head_word_ok w' \<and> bits_in_window w' \<and> summary_ok w'
    \<and> wnd_set w' = wnd_set w - {s}"
proof -
  note I = wnd_invD [OF inv]
  obtain k i where c: "coord w s k i" and ki: "k < 4" "i < 64"
    using age by (rule wnd_coordE)
  let ?x = "wd w k AND NOT (BIT_MASK i)"
  have same: "head w' = head w" "head_word w' = head_word w"
    by (simp_all add: w' wnd_clear_def Let_def)
  have marked': "marked w' = (marked w)[(unat (head_word w) + 4 - k) mod 4 := ?x]"
    using ki by (simp add: w' wnd_clear_def Let_def clear_bit_arr_def coord_word [OF c I(2)] BIT_MASK_def wd_def)
  have wd': "wd w' j = (if j = k then ?x else wd w j)" if "j < 4" for j
    by (rule wd_update_slot [OF I(1) head_word_lt [OF I(2)] ki(1) that marked' same(2)])
  have "summary w' = (if marked w' ! ((unat (head_word w) + 4 - k) mod 4) = 0
      then summary w AND NOT (BIT_MASK k) else summary w)"
    using ki by (simp add: w' wnd_clear_def Let_def coord_summary [OF c I(2)] hd_clear_bit_arr
      coord_word [OF c I(2)])
  then have sum': "summary w' = (if ?x = 0 then summary w AND NOT (BIT_MASK k) else summary w)"
    using I(1) by (simp add: marked')
  have bit': "bit (wd w' j) l \<longleftrightarrow> (if j = k \<and> l = i then False else bit (wd w j) l)"
    if "j < 4" "l < 64" for j l
    using that ki by (auto simp: wd' word_bits)
  have "?x \<noteq> 0 \<Longrightarrow> wd w k \<noteq> 0"
    by auto
  then have "bit (summary w') j \<longleftrightarrow> j < 4 \<and> wd w' j \<noteq> 0" for j
    using summary_okD [OF I(4), of j] ki bit_word_lt [of "summary w" j]
    by (cases "j = k") (auto simp add: sum' bit_and_iff bit_u64_not bit_BIT_MASK wd' cong: conj_cong)
  then have "summary_ok w'"
    by (simp only: summary_ok_def simp_thms)
  moreover have "length (marked w') = 4"
    using I(1) by (simp add: marked')
  moreover have "head_word_ok w'"
    using I(2) coord_same(3) [OF same] by simp
  ultimately show ?thesis
    using point_update [OF inv c age same bit'] by (simp only: if_True if_False simp_thms)
qed

lemma wnd_clear_correct:
  assumes inv: "wnd_inv w" and s: "s \<in> wnd_set w"
  shows "\<exists>w'. wnd_clear w s = (w', False) \<and> wnd_inv w' \<and> wnd_set w' = wnd_set w - {s}
    \<and> head w' = head w"
proof -
  note step = wnd_clear_step [OF inv wnd_set_age [OF s] refl]
  have pos: "0 < card (wnd_set w)"
    using s by (auto simp: card_gt_0_iff)
  then have "unat (num_marked w - 1) = unat (num_marked w) - 1"
    using wnd_invD(5) [OF inv] by (intro unat_minus_one) auto
  then have "wnd_inv (fst (wnd_clear w s))"
    using step s wnd_invD(5) [OF inv] by (simp add: wnd_inv_def) (simp add: wnd_clear_def Let_def)
  moreover have "wnd_is_marked w s"
    using s by (simp add: wnd_set_def)
  ultimately show ?thesis
    using step by (auto simp: wnd_clear_def Let_def)
qed

subsection \<open>Searching backwards\<close>

lemma nat_less_4: "(n :: nat) < 4 \<Longrightarrow> n \<in> {0, 1, 2, 3}"
  by auto

lemma slot_sub:
  assumes "h < 4" and "k + j < 4"
  shows "unat ((of_nat ((h + 4 - k) mod 4) - of_nat j :: u32) mod 4) = (h + 4 - (k + j)) mod 4"
proof -
  have "h \<in> {0, 1, 2, 3}" "k \<in> {0, 1, 2, 3}" "j \<in> {0, 1, 2, 3}"
    using assms by auto
  then show ?thesis
    using assms(2) by auto
qed

lemma slot_add:
  assumes "h < 4" and "k < 4" and "j \<le> k"
  shows "unat ((of_nat ((h + 4 - k) mod 4) + of_nat j :: u32) mod 4) = (h + 4 - (k - j)) mod 4"
proof -
  have "h \<in> {0, 1, 2, 3}" "k \<in> {0, 1, 2, 3}" "j \<in> {0, 1, 2, 3}"
    using assms by auto
  then show ?thesis
    using assms(3) by auto
qed

lemma marked_bit_seq:
  assumes inv: "wnd_inv w" and k: "k < 4" and b: "bit (wd w k) i"
  obtains t where "coord w t k i" and "t \<in> wnd_set w"
proof -
  note I = wnd_invD [OF inv]
  have "i < 64"
    using b by (rule bit_word_lt)
  then have "coord w (head w - of_nat (64 * k + ho w - i)) k i"
    using I(3) b k by (intro coordI) (auto simp: bits_in_window_def)
  then show thesis
    using that in_wnd_set_coord [OF I(2,3)] b by blast
qed

text \<open>Ages decide the order of coordinates.\<close>

lemma coord_age: "coord w t k i \<Longrightarrow> unat (head w - t) + i = 64 * k + ho w"
  by (simp add: coord_def)

lemma unat_diff_age:
  assumes "unat (a - s) \<le> unat (a - t)"
  shows "unat ((s :: u64) - t) = unat (a - t) - unat (a - s)"
proof -
  have "s - t = (a - t) - (a - s)" by simp
  then show ?thesis
    using assms by (simp only: unat_sub word_le_nat_alt)
qed

definition older :: "fp_window \<Rightarrow> u64 \<Rightarrow> u64 set" where
  "older w s = {t \<in> wnd_set w. unat (head w - s) \<le> unat (head w - t)}"

definition newer :: "fp_window \<Rightarrow> u64 \<Rightarrow> u64 set" where
  "newer w s = {t \<in> wnd_set w. unat (head w - t) \<le> unat (head w - s)}"

definition latest_before :: "fp_window \<Rightarrow> u64 \<Rightarrow> int \<Rightarrow> bool" where
  "latest_before w s r \<longleftrightarrow>
     (if older w s = {} then r = - 1
      else \<exists>t \<in> older w s. r = int (unat (s - t)) \<and> (\<forall>t' \<in> older w s. unat (s - t) \<le> unat (s - t')))"

lemma latest_beforeI:
  assumes inv: "wnd_inv w" and cs: "coord w s k0 i0" and ct: "coord w t k i" and t: "t \<in> wnd_set w"
    and le: "64 * k0 + i \<le> 64 * k + i0"
    and best: "\<And>k' i'. k' < 4 \<Longrightarrow> bit (wd w k') i' \<Longrightarrow> i' < 64 \<Longrightarrow> 64 * k0 + i' \<le> 64 * k' + i0
      \<Longrightarrow> 64 * k + i' \<le> 64 * k' + i"
    and r: "r = int (64 * k + i0) - int (64 * k0 + i)"
  shows "latest_before w s r"
proof -
  have t': "t \<in> older w s"
    using t le coord_age [OF cs] coord_age [OF ct] by (simp add: older_def)
  have d: "unat (s - t) = unat (head w - t) - unat (head w - s)"
    using t' by (intro unat_diff_age) (simp add: older_def)
  have "unat (s - t) \<le> unat (s - u)" if u: "u \<in> older w s" for u
  proof -
    have du: "unat (s - u) = unat (head w - u) - unat (head w - s)"
      using u by (intro unat_diff_age) (simp add: older_def)
    from u obtain k' i' where cu: "coord w u k' i'" "bit (wd w k') i'"
      using wnd_invD(2) [OF inv] by (auto simp: older_def elim: in_wnd_setE)
    moreover have "64 * k0 + i' \<le> 64 * k' + i0"
      using u coord_age [OF cs] coord_age [OF cu(1)] by (simp add: older_def)
    ultimately have "64 * k + i' \<le> 64 * k' + i"
      using best [of k' i'] by (auto simp: coord_def)
    then show ?thesis
      using coord_age [OF ct] coord_age [OF cu(1)] unfolding d du by linarith
  qed
  moreover have "r = int (unat (s - t))"
    using r d le coord_age [OF cs] coord_age [OF ct] by linarith
  ultimately show ?thesis
    using t' unfolding latest_before_def by auto
qed

lemma older_empty:
  assumes inv: "wnd_inv w" and cs: "coord w s k0 i0"
    and none: "\<And>k' i'. k' < 4 \<Longrightarrow> bit (wd w k') i' \<Longrightarrow> \<not> 64 * k0 + i' \<le> 64 * k' + i0"
  shows "latest_before w s (- 1)"
proof -
  have "u \<notin> older w s" for u
  proof
    assume u: "u \<in> older w s"
    then obtain k' i' where cu: "coord w u k' i'" "bit (wd w k') i'"
      using wnd_invD(2) [OF inv] by (auto simp: older_def elim: in_wnd_setE)
    moreover have "64 * k0 + i' \<le> 64 * k' + i0"
      using u coord_age [OF cs] coord_age [OF cu(1)] by (simp add: older_def)
    ultimately show False
      using none [of k' i'] by (auto simp: coord_def)
  qed
  then have "older w s = {}"
    by blast
  then show ?thesis
    by (simp add: latest_before_def)
qed

lemma before_first_word:
  assumes inv: "wnd_inv w" and cs: "coord w s k0 i0" and nz: "push_bit (63 - i0) (wd w k0) \<noteq> 0"
  shows "latest_before w s (63 - fls64 (push_bit (63 - i0) (wd w k0)))"
proof -
  have k0: "k0 < 4" "i0 < 64"
    using cs by (auto simp: coord_def)
  from nz obtain j where j: "bit (push_bit (63 - i0) (wd w k0)) j" "j < 64"
      "fls64 (push_bit (63 - i0) (wd w k0)) = int j"
      and mx: "\<And>l. j < l \<Longrightarrow> \<not> bit (push_bit (63 - i0) (wd w k0)) l"
    by (rule fls64_ex) blast
  define i where "i = j - (63 - i0)"
  have i: "bit (wd w k0) i" "j = i + (63 - i0)" "i \<le> i0"
    using j k0 by (auto simp: word_bits i_def)
  have best: "i' \<le> i" if "bit (wd w k0) i'" "i' \<le> i0" for i'
  proof (rule ccontr)
    assume "\<not> i' \<le> i"
    then have "bit (push_bit (63 - i0) (wd w k0)) (i' + (63 - i0))" "j < i' + (63 - i0)"
      using that i k0 by (auto simp: word_bits)
    with mx show False by blast
  qed
  obtain t where t: "coord w t k0 i" "t \<in> wnd_set w"
    using inv k0(1) i(1) by (rule marked_bit_seq)
  show ?thesis
  proof (rule latest_beforeI [OF inv cs t])
    fix k' i' assume a: "k' < 4" "bit (wd w k') i'" "i' < 64" "64 * k0 + i' \<le> 64 * k' + i0"
    then have "k' = k0 \<and> i' \<le> i \<or> k0 < k'"
      using best [of i'] k0 by (cases "k' = k0") auto
    then show "64 * k0 + i' \<le> 64 * k' + i"
      using a(3) by auto
  qed (use i k0 j in auto)
qed

lemma before_later_word:
  assumes inv: "wnd_inv w" and cs: "coord w s k0 i0"
    and none: "push_bit (63 - i0) (wd w k0) = 0"
    and j: "0 < j" "k0 + j < 4" "wd w (k0 + j) \<noteq> 0"
    and gap: "\<And>l. 0 < l \<Longrightarrow> l < j \<Longrightarrow> wd w (k0 + l) = 0"
  shows "latest_before w s (64 * int j + int i0 - fls64 (wd w (k0 + j)))"
proof -
  have k0: "k0 < 4" "i0 < 64"
    using cs by (auto simp: coord_def)
  have none': "\<not> bit (wd w k0) i'" if "i' \<le> i0" for i'
  proof
    assume "bit (wd w k0) i'"
    then have "bit (push_bit (63 - i0) (wd w k0)) (i' + (63 - i0))"
      using that k0 by (auto simp: word_bits)
    with none show False by simp
  qed
  from j(3) obtain i where i: "bit (wd w (k0 + j)) i" "i < 64" "fls64 (wd w (k0 + j)) = int i"
      and mx: "\<And>l. i < l \<Longrightarrow> \<not> bit (wd w (k0 + j)) l"
    by (rule fls64_ex) blast
  obtain t where t: "coord w t (k0 + j) i" "t \<in> wnd_set w"
    using inv j(2) i(1) by (rule marked_bit_seq)
  show ?thesis
  proof (rule latest_beforeI [OF inv cs t])
    fix k' i' assume a: "k' < 4" "bit (wd w k') i'" "i' < 64" "64 * k0 + i' \<le> 64 * k' + i0"
    have "k0 \<le> k'"
      using a(4) k0 by linarith
    moreover have "k' \<noteq> k0"
      using a none' by auto
    moreover have "\<not> (k0 < k' \<and> k' < k0 + j)"
      using gap [of "k' - k0"] a(2) by auto
    ultimately consider "k' = k0 + j" | "k0 + j < k'"
      by linarith
    then show "64 * (k0 + j) + i' \<le> 64 * k' + i"
      using a mx [of i'] by cases (auto simp: not_less [symmetric])
  qed (use i k0 j in auto)
qed

lemma summary_above:
  assumes "summary_ok w" and "k0 < 4"
  shows "bit (drop_bit k0 (summary w) AND NOT 1) j \<longleftrightarrow> 0 < j \<and> k0 + j < 4 \<and> wd w (k0 + j) \<noteq> 0"
  using summary_okD [OF assms(1), of "k0 + j"] by (auto simp: word_bits)

lemma before_other_words:
  assumes inv: "wnd_inv w" and cs: "coord w s k0 i0"
    and none: "push_bit (63 - i0) (wd w k0) = 0"
    and tmp: "tmp = drop_bit k0 (summary w) AND NOT 1"
  shows "latest_before w s
    (if tmp = 0 then - 1
     else 64 * ffs64 tmp + int i0 - fls64 (wd w (k0 + nat (ffs64 tmp))))"
proof (cases "tmp = 0")
  case True
  have k0: "k0 < 4" "i0 < 64"
    using cs by (auto simp: coord_def)
  have "latest_before w s (- 1)"
  proof (rule older_empty [OF inv cs], rule notI)
    fix k' i' assume a: "k' < 4" "bit (wd w k') i'" "64 * k0 + i' \<le> 64 * k' + i0"
    have "k' \<noteq> k0"
    proof
      assume "k' = k0"
      then have "bit (push_bit (63 - i0) (wd w k0)) (i' + (63 - i0))"
        using a k0 by (auto simp: word_bits)
      with none show False by simp
    qed
    then have "0 < k' - k0" "k0 + (k' - k0) = k'" "wd w k' \<noteq> 0"
      using a k0 bit_word_lt [OF a(2)] by auto
    with a(1) True show False
      using summary_above [OF wnd_invD(4) [OF inv] k0(1), of "k' - k0"] tmp by auto
  qed
  with True show ?thesis by simp
next
  case False
  then obtain j where j: "bit tmp j" "ffs64 tmp = int j" and mn: "\<And>l. l < j \<Longrightarrow> \<not> bit tmp l"
    by (rule ffs64_ex) blast
  have k0: "k0 < 4"
    using cs by (auto simp: coord_def)
  note above = summary_above [OF wnd_invD(4) [OF inv] k0, folded tmp]
  have "latest_before w s (64 * int j + int i0 - fls64 (wd w (k0 + j)))"
    using j(1) mn by (intro before_later_word [OF inv cs none]) (auto simp: above)
  with False j show ?thesis by simp
qed

lemma unat_slot: "unat (of_nat (n mod 4) :: u32) = n mod 4"
proof -
  have "n mod 4 < 4294967296"
    by (rule less_le_trans [of _ 4]) auto
  then show ?thesis
    by (simp add: unat_of_nat)
qed

lemma unat_small: "j < 64 \<Longrightarrow> unat (of_nat j :: u32) = j" "j < 64 \<Longrightarrow> uint (of_nat j :: u32) = int j"
  by (simp_all add: unat_of_nat unsigned_of_nat take_bit_eq_mod)

lemma ucast_small: "j < 64 \<Longrightarrow> (ucast (of_nat j :: u32) :: u64) = of_nat j"
  by (simp add: word_unat_eq_iff unat_small unat_of_nat)

lemma before_search:
  assumes inv: "wnd_inv w" and c: "coord w s k i"
    and t1: "t1 = push_bit (63 - i) (wd w k)" and t2: "t2 = drop_bit k (summary w) AND NOT 1"
  shows "latest_before w s
    (if t1 \<noteq> 0 then 63 - fls64 t1
     else if t2 = 0 then - 1
     else 64 * uint (of_int (ffs64 t2) :: u32) + int i
       - fls64 (marked w ! unat ((of_nat ((unat (head_word w) + 4 - k) mod 4) - of_int (ffs64 t2) :: u32) mod 4)))"
proof (cases "t1 = 0")
  case False
  then show ?thesis
    using before_first_word [OF inv c] by (simp add: t1)
next
  case z: True
  note I = wnd_invD [OF inv] and other = before_other_words [OF inv c z [unfolded t1] t2]
  show ?thesis
  proof (cases "t2 = 0")
    case True
    then show ?thesis using other z by simp
  next
    case False
    then obtain j where j: "bit t2 j" "j < 64" "ffs64 t2 = int j"
      by (rule ffs64_ex) blast
    then have kj: "k + j < 4"
      using summary_above [OF I(4), of k j] c by (auto simp: coord_def t2)
    then show ?thesis
      using other z False j slot_sub [OF head_word_lt [OF I(2)] kj]
      by (simp add: wd_def unat_small)
  qed
qed

theorem wnd_at_or_before_correct:
  assumes inv: "wnd_inv w" and s: "unat (head w - s) < 9223372036854775808"
  shows "snd (wnd_at_or_before w s) = False \<and> latest_before w s (fst (wnd_at_or_before w s))"
proof -
  note I = wnd_invD [OF inv]
  have nb: "\<not> time_after64 s (head w)"
    using s by (simp add: time_after64_iff)
  have be: "time_before_eq64 s (head w - of_nat 192) \<longleftrightarrow> 192 \<le> unat (head w - s)"
    using s by (rule before_eq_window_iff) simp
  show ?thesis
  proof (cases "192 \<le> unat (head w - s)")
    case True
    then have "older w s = {}"
      using wnd_set_age by (fastforce simp: older_def)
    then show ?thesis
      using True nb be by (simp add: wnd_at_or_before_def latest_before_def)
  next
    case False
    then obtain k i where c: "coord w s k i"
      using wnd_coordE [of w s] by (metis not_le)
    define t1 t2 where "t1 = push_bit (63 - i) (wd w k)" and "t2 = drop_bit k (summary w) AND NOT 1"
    note search = before_search [OF inv c t1_def t2_def]
    have "wnd_at_or_before w s =
      (if t1 \<noteq> 0 then 63 - fls64 t1
       else if t2 = 0 then - 1
       else 64 * uint (of_int (ffs64 t2) :: u32) + int i
         - fls64 (marked w ! unat ((of_nat ((unat (head_word w) + 4 - k) mod 4) - of_int (ffs64 t2) :: u32) mod 4)),
       False)"
      using False nb be
      by (simp add: wnd_at_or_before_def Let_def coord_word [OF c I(2)] coord_summary [OF c I(2)]
          unat_slot wd_def t1_def t2_def)
    with search show ?thesis
      by (simp only: fst_conv snd_conv)
  qed
qed

subsection \<open>Searching forwards\<close>

lemma unat_and_not_63: "unat ((x :: u64) AND NOT 63) = unat x - unat x mod 64"
proof -
  have "x AND NOT 63 = x - (x AND 63)"
    using and_plus_and_not [of x 63] by (metis add_diff_cancel_left')
  moreover have "unat (x AND 63) = unat x mod 64"
    using unat_and_mask [of x 6] by (simp add: mask_eq_exp_minus_1)
  ultimately show ?thesis
    by (simp add: unat_sub word_and_le2)
qed

lemma head_floor: "head w AND - 64 = head w - of_nat (ho w)"
proof -
  have "unat (head w AND - 64) = unat (head w) - ho w"
    using unat_and_not_63 [of "head w"] by (simp add: ho_def)
  moreover have "unat (head w - of_nat (ho w)) = unat (head w) - ho w"
    by (subst unat_sub) (simp_all add: word_le_nat_alt unat_of_nat ho_def)
  ultimately show ?thesis
    by (simp add: word_unat_eq_iff)
qed

text \<open>The sequence number at given coordinates, as the code computes it from the head's word.\<close>

lemma seq_of_coord:
  assumes "coord w t k i"
  shows "t = head w - of_nat (ho w) - of_nat k * 64 + of_nat i"
proof -
  have "i \<le> 64 * k + ho w"
    using assms by (simp add: coord_def)
  then have "(of_nat (64 * k + ho w - i) :: u64) = of_nat (64 * k + ho w) - of_nat i"
    by (rule of_nat_diff)
  then show ?thesis
    by (simp add: coord_seq [OF assms])
qed

definition earliest_of :: "fp_window \<Rightarrow> u64 set \<Rightarrow> u64 \<Rightarrow> bool" where
  "earliest_of w S t \<longleftrightarrow> t \<in> S \<and> (\<forall>t' \<in> S. unat (head w - t') \<le> unat (head w - t))"

lemma wnd_earliest_marked_correct:
  assumes inv: "wnd_inv w" and ne: "wnd_set w \<noteq> {}"
  shows "earliest_of w (wnd_set w) (wnd_earliest_marked w)"
proof -
  note I = wnd_invD [OF inv]
  from ne obtain u where "u \<in> wnd_set w" by blast
  then obtain ku iu where "coord w u ku iu" "bit (wd w ku) iu"
    using I(2) by (rule in_wnd_setE)
  then have "bit (summary w) ku"
    using summary_okD [OF I(4), of ku] by (auto simp: coord_def)
  then have "summary w \<noteq> 0"
    by (metis bit_0_eq bot_apply bot_bool_def)
  then obtain k where k: "bit (summary w) k" "fls64 (summary w) = int k" "k < 64"
      and kmax: "\<And>l. k < l \<Longrightarrow> \<not> bit (summary w) l"
    by (rule fls64_ex) blast
  then have k4: "k < 4" "wd w k \<noteq> 0"
    using summary_okD [OF I(4), of k] by auto
  then obtain i where i: "bit (wd w k) i" "ffs64 (wd w k) = int i" "i < 64"
      and imin: "\<And>l. l < i \<Longrightarrow> \<not> bit (wd w k) l"
    by - (rule ffs64_ex [of "wd w k"], auto)
  obtain t where t: "coord w t k i" "t \<in> wnd_set w"
    using inv k4(1) i(1) by (rule marked_bit_seq)
  have hw: "unat (head_word w) < 4"
    using I(2) by (rule head_word_lt)
  have "head_word w = of_nat ((unat (head_word w) + 4 - 0) mod 4)"
    using hw by simp
  then have slot: "unat ((head_word w - of_nat k) mod 4) = (unat (head_word w) + 4 - k) mod 4"
    using slot_sub [OF hw, of 0 k] k4 by (simp add: mod_add_self2)
  have "wnd_earliest_marked w = t"
    using k i slot by (simp add: wnd_earliest_marked_def Let_def head_floor seq_of_coord [OF t(1)]
        wd_def [symmetric] unat_small ucast_small)
  moreover have "unat (head w - t') \<le> unat (head w - t)" if t': "t' \<in> wnd_set w" for t'
  proof -
    obtain k' i' where c': "coord w t' k' i'" "bit (wd w k') i'"
      using t' I(2) by (rule in_wnd_setE)
    then have "bit (summary w) k'"
      using summary_okD [OF I(4), of k'] by (auto simp: coord_def)
    then have "k' \<le> k" using kmax by (metis not_le)
    moreover have "k' = k \<Longrightarrow> i \<le> i'" using imin c' by (metis not_le)
    ultimately have "64 * k' + i \<le> 64 * k + i'"
      using i(3) by (cases "k' = k") auto
    then show ?thesis
      using coord_age [OF t(1)] coord_age [OF c'(1)] by linarith
  qed
  ultimately show ?thesis
    using t(2) by (simp add: earliest_of_def)
qed

lemma earliest_newerI:
  assumes inv: "wnd_inv w" and cs: "coord w s k0 i0" and ct: "coord w t k i" and t: "t \<in> wnd_set w"
    and le: "64 * k + i0 \<le> 64 * k0 + i"
    and best: "\<And>k' i'. k' < 4 \<Longrightarrow> bit (wd w k') i' \<Longrightarrow> i' < 64 \<Longrightarrow> 64 * k' + i0 \<le> 64 * k0 + i'
      \<Longrightarrow> 64 * k' + i \<le> 64 * k + i'"
  shows "earliest_of w (newer w s) t"
proof -
  have "t \<in> newer w s"
    using t le coord_age [OF cs] coord_age [OF ct] by (simp add: newer_def)
  moreover have "unat (head w - u) \<le> unat (head w - t)" if u: "u \<in> newer w s" for u
  proof -
    from u obtain k' i' where cu: "coord w u k' i'" "bit (wd w k') i'"
      using wnd_invD(2) [OF inv] by (auto simp: newer_def elim: in_wnd_setE)
    moreover have "64 * k' + i0 \<le> 64 * k0 + i'"
      using u coord_age [OF cs] coord_age [OF cu(1)] by (simp add: newer_def)
    ultimately have "64 * k' + i \<le> 64 * k + i'"
      using best [of k' i'] by (auto simp: coord_def)
    then show ?thesis
      using coord_age [OF ct] coord_age [OF cu(1)] by linarith
  qed
  ultimately show ?thesis
    by (simp add: earliest_of_def)
qed

lemma newer_empty:
  assumes inv: "wnd_inv w" and cs: "coord w s k0 i0"
    and none: "\<And>k' i'. k' < 4 \<Longrightarrow> bit (wd w k') i' \<Longrightarrow> \<not> 64 * k' + i0 \<le> 64 * k0 + i'"
  shows "newer w s = {}"
proof -
  have False if u: "u \<in> newer w s" for u
  proof -
    from u obtain k' i' where cu: "coord w u k' i'" "bit (wd w k') i'"
      using wnd_invD(2) [OF inv] by (auto simp: newer_def elim: in_wnd_setE)
    moreover have "64 * k' + i0 \<le> 64 * k0 + i'"
      using u coord_age [OF cs] coord_age [OF cu(1)] by (simp add: newer_def)
    ultimately show False
      using none [of k' i'] by (auto simp: coord_def)
  qed
  then show ?thesis by blast
qed

lemma after_first_word:
  assumes inv: "wnd_inv w" and cs: "coord w s k0 i0" and nz: "drop_bit i0 (wd w k0) \<noteq> 0"
  shows "earliest_of w (newer w s) (s + of_int (ffs64 (drop_bit i0 (wd w k0))))"
proof -
  have k0: "k0 < 4" "i0 < 64"
    using cs by (auto simp: coord_def)
  from nz obtain j where j: "bit (drop_bit i0 (wd w k0)) j" "ffs64 (drop_bit i0 (wd w k0)) = int j"
      and mn: "\<And>l. l < j \<Longrightarrow> \<not> bit (drop_bit i0 (wd w k0)) l"
    by (rule ffs64_ex) blast
  then have b: "bit (wd w k0) (i0 + j)"
    by (simp add: word_bits)
  obtain t where t: "coord w t k0 (i0 + j)" "t \<in> wnd_set w"
    using inv k0(1) b by (rule marked_bit_seq)
  have "earliest_of w (newer w s) t"
  proof (rule earliest_newerI [OF inv cs t])
    fix k' i' assume a: "k' < 4" "bit (wd w k') i'" "i' < 64" "64 * k' + i0 \<le> 64 * k0 + i'"
    have "i0 + j \<le> i'" if "k' = k0"
      using mn [of "i' - i0"] a that by (cases "i' - i0 < j") (auto simp: word_bits)
    then show "64 * k' + (i0 + j) \<le> 64 * k0 + i'"
      using a bit_word_lt [OF b] by (cases "k' = k0") auto
  qed simp
  moreover have "t = s + of_nat j"
    by (subst seq_of_coord [OF t(1)], subst seq_of_coord [OF cs]) simp
  ultimately show ?thesis
    using j(2) by simp
qed

lemma bit_low63: "bit (9223372036854775807 :: u64) l \<longleftrightarrow> l < 63"
proof -
  have "(9223372036854775807 :: u64) = mask 63"
    by (simp add: mask_eq_exp_minus_1)
  then show ?thesis
    by (simp only: bit_mask_iff) (auto simp: possible_bit_def)
qed

lemma summary_below:
  assumes "summary_ok w" and "k0 < 4"
  shows "bit (push_bit (63 - k0) (summary w) AND (push_bit 63 1 - 1)) l \<longleftrightarrow>
    l < 63 \<and> 63 - k0 \<le> l \<and> wd w (l - (63 - k0)) \<noteq> 0"
  using summary_okD [OF assms(1), of "l - (63 - k0)"] assms(2)
  by (auto simp: bit_and_iff bit_low63 bit_u64_push simp del: bit_numeral_word_iff)

lemma after_later_word:
  assumes inv: "wnd_inv w" and cs: "coord w s k0 i0" and none: "drop_bit i0 (wd w k0) = 0"
    and k: "k < k0" "wd w k \<noteq> 0" and gap: "\<And>l. k < l \<Longrightarrow> l < k0 \<Longrightarrow> wd w l = 0"
  shows "earliest_of w (newer w s) (s - of_nat i0 + 64 * of_nat (k0 - k) + of_int (ffs64 (wd w k)))"
proof -
  have k0: "k0 < 4" "i0 < 64"
    using cs by (auto simp: coord_def)
  from k(2) obtain i where i: "bit (wd w k) i" "i < 64" "ffs64 (wd w k) = int i"
      and mn: "\<And>l. l < i \<Longrightarrow> \<not> bit (wd w k) l"
    by (rule ffs64_ex) blast
  obtain t where t: "coord w t k i" "t \<in> wnd_set w"
    using inv _ i(1) by (rule marked_bit_seq) (use k k0 in simp)
  have "earliest_of w (newer w s) t"
  proof (rule earliest_newerI [OF inv cs t])
    fix k' i' assume a: "k' < 4" "bit (wd w k') i'" "i' < 64" "64 * k' + i0 \<le> 64 * k0 + i'"
    have "k' \<noteq> k0"
    proof
      assume "k' = k0"
      then have "bit (drop_bit i0 (wd w k0)) (i' - i0)"
        using a by (simp add: word_bits)
      with none show False by simp
    qed
    then have "k' \<le> k"
      using gap [of k'] a by (cases "k' \<le> k") auto
    moreover have "k' = k \<Longrightarrow> i \<le> i'"
      using mn [of i'] a by (cases "i \<le> i'") auto
    ultimately show "64 * k' + i \<le> 64 * k + i'"
      using i(2) by (cases "k' = k") auto
  qed (use k k0 i in auto)
  moreover have "t = s - of_nat i0 + 64 * of_nat (k0 - k) + of_nat i"
    using k by (subst seq_of_coord [OF t(1)], subst seq_of_coord [OF cs]) (simp add: of_nat_diff algebra_simps)
  ultimately show ?thesis
    using i(3) by simp
qed

lemma after_other_words:
  assumes inv: "wnd_inv w" and cs: "coord w s k0 i0" and none: "drop_bit i0 (wd w k0) = 0"
    and t2: "t2 = push_bit (63 - k0) (summary w) AND (push_bit 63 1 - 1)"
    and j: "j = (of_int (63 - fls64 t2) :: u32)"
  shows "case (if t2 = 0 then None
      else Some (s - of_nat i0 + 64 * ucast j
        + of_int (ffs64 (marked w ! unat ((of_nat ((unat (head_word w) + 4 - k0) mod 4) + j) mod 4))))) of
      None \<Rightarrow> newer w s = {} | Some t \<Rightarrow> earliest_of w (newer w s) t"
proof -
  note I = wnd_invD [OF inv]
  have k0: "k0 < 4" "i0 < 64"
    using cs by (auto simp: coord_def)
  note below = summary_below [OF I(4) k0(1), folded t2]
  show ?thesis
  proof (cases "t2 = 0")
    case True
    have "newer w s = {}"
    proof (rule newer_empty [OF inv cs], rule notI)
      fix k' i' assume a: "k' < 4" "bit (wd w k') i'" "64 * k' + i0 \<le> 64 * k0 + i'"
      have "k' \<noteq> k0"
        using none a bit_u64_drop [of i0 "wd w k0" "i' - i0"] by auto
      then have "k' < k0" "wd w k' \<noteq> 0"
        using a k0 bit_word_lt [OF a(2)] by auto
      then have "bit t2 (k' + (63 - k0))"
        using k0 by (auto simp: below)
      with True show False by simp
    qed
    with True show ?thesis by simp
  next
    case False
    then obtain l where l: "bit t2 l" "l < 64" "fls64 t2 = int l" and mx: "\<And>m. l < m \<Longrightarrow> \<not> bit t2 m"
      by (rule fls64_ex) blast
    define k where "k = l - (63 - k0)"
    have k: "k < k0" "wd w k \<noteq> 0" "l = k + (63 - k0)"
      using l(1) k0 by (auto simp: below k_def)
    have gap: "wd w m = 0" if "k < m" "m < k0" for m
      using mx [of "m + (63 - k0)"] that k k0 by (auto simp: below)
    have "63 - int l = int (k0 - k)"
      using k k0 by linarith
    then have jk: "j = of_nat (k0 - k)"
      using j l(3) by (metis of_int_of_nat_eq)
    have "k0 - (k0 - k) = k"
      using k by simp
    then have "marked w ! unat ((of_nat ((unat (head_word w) + 4 - k0) mod 4) + j) mod 4) = wd w k"
      using slot_add [OF head_word_lt [OF I(2)] k0(1), of "k0 - k"] by (simp only: jk wd_def diff_le_self)
    then show ?thesis
      using after_later_word [OF inv cs none k(1,2) gap] False k0
      by (simp add: jk ucast_small)
  qed
qed

lemma seq_before_iff:
  assumes "unat (head w - s) < 9223372036854775808"
  shows "wnd_seq_before w s \<longleftrightarrow> 192 \<le> unat (head w - s)"
proof -
  have "wnd_edge w - s = head w - of_nat 191 - s"
    by (simp add: wnd_edge_def)
  moreover have "s - wnd_edge w = - (wnd_edge w - s)"
    by simp
  ultimately have e: "s - wnd_edge w = of_nat 191 - (head w - s)"
    by simp
  show ?thesis
  proof (cases "191 < unat (head w - s)")
    case True
    then have "unat (of_nat 191 - (head w - s)) = 191 + 18446744073709551616 - unat (head w - s)"
      using unat_sub_if' [of "of_nat 191" "head w - s"] by simp
    then show ?thesis
      using True assms
      by (simp only: wnd_seq_before_def time_before64_def time_after64_iff e) linarith
  next
    case False
    then have "unat (of_nat 191 - (head w - s)) = 191 - unat (head w - s)"
      using unat_sub_if' [of "of_nat 191" "head w - s"] by simp
    then show ?thesis
      using False
      by (simp only: wnd_seq_before_def time_before64_def time_after64_iff e) linarith
  qed
qed

theorem wnd_at_or_after_correct:
  assumes inv: "wnd_inv w" and s: "unat (head w - s) < 9223372036854775808"
  shows "case wnd_at_or_after w s of None \<Rightarrow> newer w s = {} | Some t \<Rightarrow> earliest_of w (newer w s) t"
proof -
  note I = wnd_invD [OF inv]
  have na: "\<not> wnd_seq_after w s"
    using s by (simp add: wnd_seq_after_def time_after64_iff wnd_head_def)
  show ?thesis
  proof (cases "192 \<le> unat (head w - s)")
    case True
    then have all: "newer w s = wnd_set w"
      using wnd_set_age by (fastforce simp: newer_def)
    have "wnd_empty w \<longleftrightarrow> wnd_set w = {}"
      using I(5) by (simp add: wnd_empty_def unat_eq_zero [symmetric])
    then show ?thesis
      using True na all seq_before_iff [OF s] wnd_earliest_marked_correct [OF inv]
      by (simp add: wnd_at_or_after_def)
  next
    case False
    then obtain k i where c: "coord w s k i"
      using wnd_coordE [of w s] by (metis not_le)
    define t1 t2 j where "t1 = drop_bit i (wd w k)"
      and "t2 = push_bit (63 - k) (summary w) AND (push_bit 63 1 - 1)"
      and "j = (of_int (63 - fls64 t2) :: u32)"
    have eq: "wnd_at_or_after w s =
      (if t1 \<noteq> 0 then Some (s + of_int (ffs64 t1))
       else if t2 = 0 then None
       else Some (s - of_nat i + 64 * ucast j
         + of_int (ffs64 (marked w ! unat ((of_nat ((unat (head_word w) + 4 - k) mod 4) + j) mod 4)))))"
      using False na seq_before_iff [OF s]
      by (simp add: wnd_at_or_after_def Let_def coord_word [OF c I(2)] coord_summary [OF c I(2)]
          unat_slot wd_def t1_def t2_def j_def)
    show ?thesis
    proof (cases "t1 = 0")
      case True
      then show ?thesis
        using after_other_words [OF inv c True [unfolded t1_def] t2_def j_def] by (simp only: eq simp_thms if_False)
    next
      case False
      then show ?thesis
        using after_first_word [OF inv c] by (simp add: eq t1_def)
    qed
  qed
qed

lemma wnd_at_or_after_future:
  assumes "9223372036854775808 \<le> unat (head w - s)"
  shows "wnd_at_or_after w s = None"
  using assms by (simp add: wnd_at_or_after_def wnd_seq_after_def time_after64_iff wnd_head_def)

subsection \<open>Advancing the head\<close>

lemma slot_shift:
  assumes "h < 4" and "n < 4" and "k < 4"
  shows "((h + n) mod 4 + 4 - k) mod 4 = (h + 4 - (if n \<le> k then k - n else k + 4 - n)) mod (4 :: nat)"
proof -
  have "h \<in> {0, 1, 2, 3}" "n \<in> {0, 1, 2, 3}" "k \<in> {0, 1, 2, 3}"
    using assms by auto
  then show ?thesis by auto
qed

lemma advance_shift:
  assumes hw: "head_word_ok w" and nowrap: "unat (head w) + unat a < 18446744073709551616"
    and sh: "sh = (head w + a) div 64 - head w div 64"
    and hw': "head_word w' = ucast ((ucast (head_word w) + sh) mod 4)" and h': "head w' = head w + a"
  shows "unat sh = (unat (head w) + unat a) div 64 - unat (head w) div 64"
    and "unat (head_word w') = (unat (head_word w) + unat sh) mod 4"
    and "head_word_ok w'"
    and "64 * unat sh + ho w' = ho w + unat a"
proof -
  let ?h = "unat (head w)" and ?a = "unat a"
  have add: "unat (head w + a) = ?h + ?a"
    using nowrap by (simp add: unat_add_mod)
  have "head w div 64 \<le> (head w + a) div 64"
    by (simp add: word_le_nat_alt unat_div add div_le_mono)
  then show sh': "unat sh = (?h + ?a) div 64 - ?h div 64"
    by (simp add: sh unat_sub unat_div add)
  have "unat (head_word w) + unat sh < 18446744073709551616"
    using head_word_lt [OF hw] sh' nowrap by linarith
  then have "unat ((ucast (head_word w) + sh :: u64) mod 4) = (unat (head_word w) + unat sh) mod 4"
    by (simp add: unat_mod unat_add_mod)
  moreover have "(unat (head_word w) + unat sh) mod 4 < 4294967296"
    by (rule less_le_trans [of _ 4]) auto
  ultimately show hws: "unat (head_word w') = (unat (head_word w) + unat sh) mod 4"
    by (simp add: hw' unat_ucast_u64_u32)
  have "?h div 64 \<le> (?h + ?a) div 64"
    by (simp add: div_le_mono)
  then have "(?h div 64 mod 4 + ((?h + ?a) div 64 - ?h div 64)) mod 4 = (?h + ?a) div 64 mod 4"
    using mod_add_left_eq [of "?h div 64" 4 "(?h + ?a) div 64 - ?h div 64"] by simp
  then show "head_word_ok w'"
    by (simp only: head_word_ok_def h' add hws sh' hw [unfolded head_word_ok_def])
  show "64 * unat sh + ho w' = ho w + ?a"
    using \<open>?h div 64 \<le> (?h + ?a) div 64\<close> div_mult_mod_eq [of ?h 64] div_mult_mod_eq [of "?h + ?a" 64]
    unfolding ho_def h' add sh' diff_mult_distrib2 by linarith
qed

lemma age_add:
  assumes "unat (h - t) + unat a < 18446744073709551616"
  shows "unat ((h :: u64) + a - t) = unat (h - t) + unat a"
proof -
  have "unat ((h - t) + a) = unat (h - t) + unat a"
    using assms unat_add_mod [of "h - t" a] by simp
  moreover have "h + a - t = (h - t) + a" by simp
  ultimately show ?thesis by (simp only:)
qed

text \<open>
  Advancing by less than four words keeps the bitmap and shifts the coordinates, provided
  every marked sequence number stays inside the window.
\<close>

lemma advance_words:
  assumes inv: "wnd_inv w" and nowrap: "unat (head w) + unat a < 18446744073709551616"
    and surv: "\<forall>t \<in> wnd_set w. unat (head w - t) + unat a < 192"
    and sh: "sh = (head w + a) div 64 - head w div 64" and n: "unat sh < 4"
    and w': "head_word w' = ucast ((ucast (head_word w) + sh) mod 4)" "head w' = head w + a"
      "marked w' = marked w"
    and k: "k < 4"
  shows "wd w' k = (if unat sh \<le> k then wd w (k - unat sh) else 0)"
    and "bit (wd w j) i \<Longrightarrow> j < 4 \<Longrightarrow> 64 * (j + unat sh) + ho w' < 192 + i"
proof -
  note I = wnd_invD [OF inv]
  note A = advance_shift [OF I(2) nowrap sh w'(1,2)]
  have old: "64 * (j + unat sh) + ho w' < 192 + i" if b: "bit (wd w j) i" "j < 4" for j i
  proof -
    obtain t where t: "coord w t j i" "t \<in> wnd_set w"
      using inv b(2,1) by (rule marked_bit_seq)
    show ?thesis
      using surv [rule_format, OF t(2)] coord_age [OF t(1)] A(4) unfolding distrib_left by linarith
  qed
  then show "bit (wd w j) i \<Longrightarrow> j < 4 \<Longrightarrow> 64 * (j + unat sh) + ho w' < 192 + i"
    by blast
  have "wd w' k = wd w (if unat sh \<le> k then k - unat sh else k + 4 - unat sh)"
    using slot_shift [OF head_word_lt [OF I(2)] n k] by (simp add: wd_def w'(3) A(2))
  moreover have "wd w (k + 4 - unat sh) = 0" if "\<not> unat sh \<le> k"
  proof (rule ccontr)
    assume "wd w (k + 4 - unat sh) \<noteq> 0"
    then obtain i where "i < 64" "bit (wd w (k + 4 - unat sh)) i"
      by (auto simp: u64_neq_0_iff)
    moreover have "k + 4 - unat sh < 4" "k + 4 - unat sh + unat sh = k + 4"
      using that n by auto
    ultimately show False
      using old [of "k + 4 - unat sh" i] by simp
  qed
  ultimately show "wd w' k = (if unat sh \<le> k then wd w (k - unat sh) else 0)"
    by simp
qed

lemma advance_set:
  assumes inv: "wnd_inv w" and nowrap: "unat (head w) + unat a < 18446744073709551616"
    and surv: "\<forall>t \<in> wnd_set w. unat (head w - t) + unat a < 192"
    and sh: "sh = (head w + a) div 64 - head w div 64" and n: "unat sh < 4"
    and w': "head_word w' = ucast ((ucast (head_word w) + sh) mod 4)" "head w' = head w + a"
      "marked w' = marked w"
  shows "bits_in_window w' \<and> wnd_set w' = wnd_set w"
proof
  note I = wnd_invD [OF inv]
  note A = advance_shift [OF I(2) nowrap sh w'(1,2)] and W = advance_words [OF inv nowrap surv sh n w']
  have bit_age: "i \<le> 64 * k + ho w' \<and> 64 * k + ho w' < 192 + i" if b: "bit (wd w' k) i" "k < 4" for k i
  proof -
    have k: "unat sh \<le> k" "bit (wd w (k - unat sh)) i"
      using b W(1) [OF b(2)] by (auto split: if_splits)
    have "i < 64" using b(1) by (rule bit_word_lt)
    then have "i \<le> 64 * (k - unat sh) + ho w"
      using I(3) k b(2) by (auto simp: bits_in_window_def)
    then show ?thesis
      using W(2) [OF b(2) k(2)] b(2) k(1) A(4) by (simp add: diff_mult_distrib2)
  qed
  then show win: "bits_in_window w'"
    by (auto simp: bits_in_window_def)
  show "wnd_set w' = wnd_set w"
  proof (intro set_eqI iffI)
    fix t assume t: "t \<in> wnd_set w'"
    then obtain k i where c: "coord w' t k i" "bit (wd w' k) i"
      using A(3) by (rule in_wnd_setE)
    then have k: "k < 4" "unat sh \<le> k" "bit (wd w (k - unat sh)) i"
      using W(1) [of k] by (auto simp: coord_def split: if_splits)
    obtain u where u: "coord w u (k - unat sh) i" "u \<in> wnd_set w"
      using inv _ k(3) by (rule marked_bit_seq) (use k(1) in simp)
    have "unat (head w' - u) = unat (head w' - t)"
      using age_add [of "head w" u a] surv [rule_format, OF u(2)] coord_age [OF u(1)] coord_age [OF c(1)] A(4) k(2)
      by (simp add: w'(2) diff_mult_distrib2)
    then have "u = t"
      by (simp add: word_unat_eq_iff [symmetric])
    with u show "t \<in> wnd_set w" by simp
  next
    fix t assume t: "t \<in> wnd_set w"
    then have "unat (head w' - t) < 192"
      using age_add [of "head w" t a] surv [rule_format, OF t] by (simp add: w'(2))
    with t show "t \<in> wnd_set w'"
      by (simp add: wnd_set_def wnd_is_marked_def w'(3))
  qed
qed

lemma advance_summary:
  assumes inv: "wnd_inv w" and nowrap: "unat (head w) + unat a < 18446744073709551616"
    and surv: "\<forall>t \<in> wnd_set w. unat (head w - t) + unat a < 192"
    and sh: "sh = (head w + a) div 64 - head w div 64" and n: "unat sh < 4"
    and w': "head_word w' = ucast ((ucast (head_word w) + sh) mod 4)" "head w' = head w + a"
      "marked w' = marked w"
    and sum: "summary w' = push_bit (unat sh) (summary w)"
  shows "summary_ok w'"
proof -
  note I = wnd_invD [OF inv] and W = advance_words [OF inv nowrap surv sh n w']
  have zero: "wd w j = 0" if "j < 4" "4 \<le> j + unat sh" for j
  proof (rule ccontr)
    assume "wd w j \<noteq> 0"
    then obtain i where "i < 64" "bit (wd w j) i"
      by (auto simp: u64_neq_0_iff)
    then show False
      using W(2) [of 0 j i] that by simp
  qed
  have "bit (summary w') k \<longleftrightarrow> k < 4 \<and> wd w' k \<noteq> 0" for k
  proof (cases "unat sh \<le> k")
    case True
    show ?thesis
    proof (cases "k < 4")
      case k: True
      then show ?thesis
        using True summary_okD [OF I(4), of "k - unat sh"] W(1) [of k] by (auto simp: sum bit_u64_push)
    next
      case False
      then show ?thesis
        using True summary_okD [OF I(4), of "k - unat sh"] zero [of "k - unat sh"]
        by (auto simp: sum bit_u64_push)
    qed
  next
    case False
    then show ?thesis
      using W(1) [of k] by (auto simp: sum bit_u64_push)
  qed
  then show ?thesis
    by (simp only: summary_ok_def simp_thms)
qed

lemma advance_far:
  fixes w' :: fp_window
  assumes inv: "wnd_inv w" and nowrap: "unat (head w) + unat a < 18446744073709551616"
    and surv: "\<forall>t \<in> wnd_set w. unat (head w - t) + unat a < 192"
    and sh: "sh = (head w + a) div 64 - head w div 64" and n: "4 \<le> unat sh"
    and w': "head_word w' = ucast ((ucast (head_word w) + sh) mod 4)" "head w' = head w + a"
  shows "wnd_set w = {}"
proof -
  note A = advance_shift [OF wnd_invD(2) [OF inv] nowrap sh w']
  have "192 \<le> unat a"
    using A(4) n ho_lt [of w] by linarith
  then show ?thesis
    using surv by auto
qed

theorem wnd_advance_correct:
  assumes inv: "wnd_inv w" and nowrap: "unat (head w) + unat a < 18446744073709551616"
    and surv: "\<forall>t \<in> wnd_set w. unat (head w - t) + unat a < 192"
  shows "\<exists>w'. wnd_advance w a = (w', False) \<and> wnd_inv w' \<and> wnd_set w' = wnd_set w
    \<and> head w' = head w + a"
proof -
  note I = wnd_invD [OF inv]
  define sh where "sh = (head w + a) div 64 - head w div 64"
  define w' where "w' = fst (wnd_advance w a)"
  have w': "head_word w' = ucast ((ucast (head_word w) + sh) mod 4)" "head w' = head w + a"
    by (auto simp: w'_def wnd_advance_def Let_def sh_def)
  note A = advance_shift [OF I(2) nowrap sh_def w']
  have num: "num_marked w' = num_marked w"
    by (simp add: w'_def wnd_advance_def Let_def)
  have "wnd_inv w' \<and> wnd_set w' = wnd_set w \<and> snd (wnd_advance w a) = False"
  proof (cases "4 \<le> unat sh")
    case True
    have empty: "wnd_set w = {}"
      by (rule advance_far [OF inv nowrap surv sh_def True w'])
    have far: "4 \<le> sh"
      using True by (simp add: word_le_nat_alt)
    have m: "marked w' = replicate 4 0" "summary w' = 0" "snd (wnd_advance w a) \<longleftrightarrow> num_marked w \<noteq> 0"
      using far by (simp_all add: w'_def wnd_advance_def Let_def sh_def)
    then have "wd w' k = 0" for k
      by (simp add: wd_def)
    moreover have "wnd_set w' = {}"
      by (simp add: wnd_set_def wnd_is_marked_def test_bit_arr_iff unat_wnd_pos m)
    ultimately show ?thesis
      using A(3) I(5) empty m num
      by (simp add: wnd_inv_def bits_in_window_def summary_ok_def unat_eq_zero)
  next
    case False
    then have n: "unat sh < 4" and near: "\<not> 4 \<le> sh"
      by (simp_all add: word_le_nat_alt)
    have m: "marked w' = marked w" "summary w' = push_bit (unat sh) (summary w)"
      "snd (wnd_advance w a) \<longleftrightarrow> \<not> wnd_empty w \<and> time_before_eq64 (wnd_earliest_marked w) (head w + a - of_nat 192)"
      using near by (simp_all add: w'_def wnd_advance_def Let_def sh_def)
    have set: "bits_in_window w' \<and> wnd_set w' = wnd_set w"
      by (rule advance_set [OF inv nowrap surv sh_def n w' m(1)])
    have "summary_ok w'"
      by (rule advance_summary [OF inv nowrap surv sh_def n w' m(1,2)])
    moreover have "\<not> snd (wnd_advance w a)"
    proof (cases "wnd_empty w")
      case False
      then have "wnd_set w \<noteq> {}"
        using I(5) by (auto simp: wnd_empty_def unat_eq_zero)
      then have e: "wnd_earliest_marked w \<in> wnd_set w"
        using wnd_earliest_marked_correct [OF inv] by (simp add: earliest_of_def)
      then have "unat (head w + a - wnd_earliest_marked w) < 192"
        using surv age_add [of "head w" "wnd_earliest_marked w" a] by fastforce
      then have "\<not> time_before_eq64 (wnd_earliest_marked w) (head w + a - of_nat 192)"
        by (subst before_eq_window_iff) auto
      then show ?thesis
        using m(3) by blast
    qed (use m(3) in simp)
    ultimately show ?thesis
      using set A(3) I(1,5) m(1) num by (simp add: wnd_inv_def)
  qed
  then show ?thesis
    using w'(2) by (auto simp: w'_def prod_eq_iff)
qed

subsection \<open>The acknowledgement mask\<close>

lemma is_marked_pos: "wnd_is_marked w t \<longleftrightarrow> bit (marked w ! (unat t mod 256 div 64)) (unat t mod 64)"
proof -
  have "unat t mod 256 mod 64 = unat t mod 64"
    by (rule mod_mod_cancel) simp
  then show ?thesis
    by (simp add: wnd_is_marked_def test_bit_arr_iff unat_wnd_pos)
qed

text \<open>The 64 positions behind the window are clear, so aliases of marked positions do not show.\<close>

lemma not_marked_behind:
  assumes inv: "wnd_inv w" and d: "192 \<le> unat (head w - t)" "unat (head w - t) < 256"
  shows "\<not> wnd_is_marked w t"
proof
  assume m: "wnd_is_marked w t"
  note I = wnd_invD [OF inv]
  let ?d = "unat (head w - t)"
  define k where "k = (?d + 63 - ho w) div 64"
  define i where "i = 64 * k + ho w - ?d"
  have o: "ho w < 64" by simp
  have k: "?d + 63 - ho w = 64 * k + (?d + 63 - ho w) mod 64" and "(?d + 63 - ho w) mod 64 < 64"
    by (simp_all add: k_def)
  then have i: "?d + i = 64 * k + ho w" "i < 64"
    using o d unfolding i_def by linarith+
  then have "2 < k" "k < 5"
    using d o by linarith+
  then have k34: "k = 3 \<or> k = 4"
    by auto
  have "unat t mod 256 = 64 * ((unat (head_word w) + 4 - k) mod 4) + i"
    by (rule age_pos) (use i k34 I(2) in auto)
  moreover have "unat t mod 64 = unat t mod 256 mod 64"
    by (simp add: mod_mod_cancel)
  ultimately have "bit (marked w ! ((unat (head_word w) + 4 - k) mod 4)) i"
    using m i(2) by (simp add: is_marked_pos)
  moreover have "(unat (head_word w) + 4 - k) mod 4 = (unat (head_word w) + 4 - k mod 4) mod 4"
    using k34 by auto
  ultimately have "bit (wd w (k mod 4)) i"
    by (simp add: wd_def)
  then have "64 * (k mod 4) + ho w < 192 + i" "i \<le> 64 * (k mod 4) + ho w"
    using I(3) i(2) by (auto simp: bits_in_window_def)
  then show False
    using k34 i(1) d by auto
qed

lemma mod_256_sub: "unat ((t :: u64) - 256) mod 256 = unat t mod 256"
proof -
  have "unat (t - 256) mod 256 = (unat t + 18446744073709551616 - 256) mod 256"
    by (simp add: unat_sub_mod mod_mod_cancel)
  also have "unat t + 18446744073709551616 - 256 = unat t + 256 * 72057594037927935"
    by simp
  finally show ?thesis
    by (simp only: mod_mult_self2)
qed

lemma marked_iff_in_set:
  assumes inv: "wnd_inv w" and t: "unat (head w - t) < 256 \<or> unat (t - head w) < 64"
  shows "wnd_is_marked w t \<longleftrightarrow> t \<in> wnd_set w"
proof (cases "unat (head w - t) < 256")
  case True
  then show ?thesis
    using not_marked_behind [OF inv, of t] by (cases "192 \<le> unat (head w - t)") (auto simp: wnd_set_def)
next
  case False
  let ?e = "unat (t - head w)" and ?u = "t - 256"
  have e: "?e < 64" "0 < ?e"
    using t False by (auto intro!: gr0I simp: unat_eq_zero)
  have "head w - ?u = 256 - (t - head w)"
    by simp
  then have d: "unat (head w - ?u) = 256 - ?e"
    using e unat_sub_if' [of "256" "t - head w"] by (simp only: simp_thms) simp
  then have "\<not> wnd_is_marked w ?u"
    using e by (intro not_marked_behind [OF inv]) auto
  moreover have "unat ?u mod 256 = unat t mod 256"
    by (rule mod_256_sub)
  moreover have "x mod 256 mod 64 = x mod 64" for x :: nat
    by (simp add: mod_mod_cancel)
  ultimately have "\<not> wnd_is_marked w t"
    by (metis is_marked_pos)
  then show ?thesis
    by (simp add: wnd_set_def)
qed

lemma mod_256_back:
  assumes "j < 64"
  shows "unat ((p :: u64) - of_nat j) mod 256 = (unat p mod 256 + 256 - j) mod 256"
proof -
  have "unat (p - of_nat j) mod 256 = (unat p + 18446744073709551616 - j) mod 256"
    using assms by (simp add: unat_sub_mod mod_mod_cancel unat_of_nat)
  also have "unat p + 18446744073709551616 - j = (unat p + 256 - j) + 256 * 72057594037927935"
    using assms by simp
  also have "\<dots> mod 256 = (unat p + (256 - j)) mod 256"
    using assms by (simp only: mod_mult_self2) simp
  also have "\<dots> = (unat p mod 256 + (256 - j)) mod 256"
    by (simp only: mod_add_left_eq)
  finally show ?thesis
    using assms by simp
qed

lemma back_pos_same:
  assumes "j \<le> o'" and "o' < 64" and "q < 4"
  shows "(64 * q + o' + 256 - j) mod 256 = 64 * q + (o' - (j :: nat))"
proof -
  have "64 * q + o' + 256 - j = 64 * q + (o' - j) + 256" and "64 * q + (o' - j) < 256"
    using assms by auto
  then show ?thesis
    by (simp only: mod_add_self2 mod_less)
qed

lemma back_pos_prev:
  assumes "o' < j" and "j < 64" and "q < 4"
  shows "(64 * q + o' + 256 - j) mod 256 = 64 * ((q + 3) mod 4) + (o' + 64 - (j :: nat))"
proof -
  define r where "r = o' + 64 - j"
  have r: "64 * q + o' + 256 - j = 64 * (q + 3) + r" "r < 64"
    using assms by (auto simp: r_def)
  have "(64 * (q + 3) + r) mod (64 * 4) = 64 * ((64 * (q + 3) + r) div 64 mod 4) + (64 * (q + 3) + r) mod 64"
    by (rule mod_mult2_eq)
  moreover have "(64 * (q + 3) + r) div 64 = q + 3" "(64 * (q + 3) + r) mod 64 = r"
    using r(2) by (simp_all del: distrib_left_numeral)
  ultimately show ?thesis
    by (simp add: r(1) r_def [symmetric] del: distrib_left_numeral)
qed

lemma is_marked_at:
  assumes "unat t mod 256 = 64 * q + b" and "b < 64"
  shows "wnd_is_marked w t \<longleftrightarrow> bit (marked w ! q) b"
  using assms by (simp add: wnd_is_marked_def test_bit_arr_iff unat_wnd_pos)

lemma wnd_get_mask_unsafe_bit:
  assumes "i < 64"
  shows "bit (wnd_get_mask_unsafe w p) i \<longleftrightarrow> wnd_is_marked w (p - of_nat (63 - i))"
proof -
  define q off where "q = unat p mod 256 div 64" and "off = unat p mod 256 mod 64"
  have qo: "unat p mod 256 = 64 * q + off" "off < 64"
    by (simp_all add: q_def off_def)
  moreover have "q < 4"
    unfolding q_def by (rule less_mult_imp_div_less) simp
  ultimately have *: "unat (p - of_nat (63 - i)) mod 256
      = (if 63 - i \<le> off then 64 * q + (off - (63 - i)) else 64 * ((q + 3) mod 4) + (off + 64 - (63 - i)))"
    using mod_256_back [of "63 - i" p] back_pos_same [of "63 - i" off q] back_pos_prev [of off "63 - i" q] assms
    by (simp only: if_split) auto
  have "unat ((of_nat q - 1 :: u32) mod 4) = (q + 3) mod 4"
    using nat_less_4 [OF \<open>q < 4\<close>] by auto
  moreover have "unat (of_nat q :: u32) = q"
    using \<open>q < 4\<close> by (simp add: unat_of_nat)
  ultimately have "bit (wnd_get_mask_unsafe w p) i \<longleftrightarrow>
      (if 63 - i \<le> off then bit (marked w ! q) (off - (63 - i))
       else bit (marked w ! ((q + 3) mod 4)) (off + 64 - (63 - i)))"
    using assms qo
    by (auto simp: wnd_get_mask_unsafe_def Let_def unat_wnd_pos q_def [symmetric] off_def [symmetric]
        bit_or_iff bit_u64_push bit_u64_drop add.commute [of i] dest: bit_word_lt)
  moreover have "off - (63 - i) < 64" "\<not> 63 - i \<le> off \<Longrightarrow> off + 64 - (63 - i) < 64"
    using qo(2) by linarith+
  ultimately show ?thesis
    using * by (cases "63 - i \<le> off") (simp_all only: if_True if_False simp_thms is_marked_at)
qed

lemma unat_sub_flip: "unat ((b :: u64) - a) = (if a = b then 0 else 18446744073709551616 - unat (a - b))"
proof (cases "a = b")
  case False
  then have "unat (a - b) \<noteq> 0"
    by (simp add: unat_eq_zero)
  then show ?thesis
    using False unat_sub_if' [of 0 "a - b"] by simp
qed simp

lemma unat_sub_const_if:
  assumes "n < 18446744073709551616"
  shows "unat ((a :: u64) - of_nat n - s)
    = (if n \<le> unat (a - s) then unat (a - s) - n else unat (a - s) + 18446744073709551616 - n)"
  using assms unat_sub_const [of n a s] unat_sub_const_wrap [of a s n]
  by (cases "n \<le> unat (a - s)") simp_all

lemma mask_guard:
  "\<not> time_before_eq64 p (h - of_nat 192) \<and> \<not> time_after_eq64 p (h + of_nat 64)
    \<longleftrightarrow> unat (h - p) < 192 \<or> unat (p - h) < 64"
proof -
  have "p - (h + of_nat 64) = p - of_nat 64 - h"
    by simp
  then have 1: "unat (p - (h + of_nat 64))
      = (if 64 \<le> unat (p - h) then unat (p - h) - 64 else unat (p - h) + 18446744073709551616 - 64)"
    by (simp only: unat_sub_const_if)
  have 2: "unat (h - of_nat 192 - p)
      = (if 192 \<le> unat (h - p) then unat (h - p) - 192 else unat (h - p) + 18446744073709551616 - 192)"
    by (simp only: unat_sub_const_if)
  show ?thesis
    using unat_u64_lt [of "h - p"]
    unfolding time_before_eq64_def time_after_eq64_iff 1 2 unat_sub_flip [of p h] by (auto split: if_splits)
qed

theorem wnd_get_mask_correct:
  assumes inv: "wnd_inv w" and i: "i < 64"
  shows "bit (wnd_get_mask w p) i \<longleftrightarrow> p - of_nat (63 - i) \<in> wnd_set w"
proof -
  define j where "j = 63 - i"
  define t where "t = p - of_nat j"
  have j: "unat (of_nat j :: u64) = j" "j < 64"
    by (simp_all add: j_def unat_of_nat)
  have h: "head w - t = (head w - p) + of_nat j" "t - head w = (p - head w) - of_nat j"
    by (simp_all add: t_def)
  show ?thesis
  proof (cases "unat (head w - p) < 192 \<or> unat (p - head w) < 64")
    case True
    have "unat (head w - t) < 256 \<or> unat (t - head w) < 64"
    proof (cases "unat (head w - p) < 192")
      case True
      then show ?thesis
        using j by (simp add: h(1) unat_add_mod)
    next
      case False
      then have "unat (p - head w) < 64"
        using True by simp
      then show ?thesis
        using j unat_sub_flip [of t "head w"] unfolding h(2) unat_sub_if' by (auto split: if_splits)
    qed
    then show ?thesis
      using True i mask_guard [of p "head w"]
      by (simp add: wnd_get_mask_def wnd_get_mask_unsafe_bit marked_iff_in_set [OF inv] t_def j_def)
  next
    case False
    then have "wnd_get_mask w p = 0"
      using mask_guard [of p "head w"] by (auto simp: wnd_get_mask_def)
    moreover have "\<not> unat (head w - t) < 192"
    proof
      assume "unat (head w - t) < 192"
      moreover define x where "x = head w - t"
      ultimately have x: "unat x < 192" "head w - p = x - of_nat j" "p - head w = of_nat j - x"
        by (simp_all add: h(1))
      show False
        using False x(1) j unfolding x(2,3) unat_sub_if' by (auto split: if_splits)
    qed
    ultimately show ?thesis
      by (auto simp: wnd_set_def t_def j_def)
  qed
qed

end
