(* ===== verification/FP_Window_Spec.thy ===== *)
theory FP_Window_Spec
  imports FP_Window_Ops
begin

text \<open>
  The contract of a window of marked sequence numbers, as the protocol relies on it, and
  the proof that \<^verbatim>\<open>window.h\<close> keeps it. The operations return the new window together with the
  flag that says whether \<^verbatim>\<open>FASTPASS_BUG_ON\<close> reported; the laws promise that it does not.
\<close>

subsection \<open>The contract\<close>

locale seq_window =
  fixes inv :: "'w \<Rightarrow> bool"
    and mem :: "'w \<Rightarrow> u64 set"
    and top_seq :: "'w \<Rightarrow> u64"
    and mark :: "'w \<Rightarrow> u64 \<Rightarrow> 'w \<times> bool"
    and clear :: "'w \<Rightarrow> u64 \<Rightarrow> 'w \<times> bool"
    and advance :: "'w \<Rightarrow> u64 \<Rightarrow> 'w \<times> bool"
    and at_or_before :: "'w \<Rightarrow> u64 \<Rightarrow> int \<times> bool"
    and at_or_after :: "'w \<Rightarrow> u64 \<Rightarrow> u64 option"
  assumes mem_age: "t \<in> mem w \<Longrightarrow> unat (top_seq w - t) < 192"
    and mem_finite: "finite (mem w)"
    and mark_law: "inv w \<Longrightarrow> unat (top_seq w - t) < 192 \<Longrightarrow> t \<notin> mem w \<Longrightarrow>
      \<exists>w'. mark w t = (w', False) \<and> inv w' \<and> mem w' = insert t (mem w) \<and> top_seq w' = top_seq w"
    and clear_law: "inv w \<Longrightarrow> t \<in> mem w \<Longrightarrow>
      \<exists>w'. clear w t = (w', False) \<and> inv w' \<and> mem w' = mem w - {t} \<and> top_seq w' = top_seq w"
    and advance_law: "inv w \<Longrightarrow> unat (top_seq w) + unat a < 18446744073709551616 \<Longrightarrow>
      \<forall>t \<in> mem w. unat (top_seq w - t) + unat a < 192 \<Longrightarrow>
      \<exists>w'. advance w a = (w', False) \<and> inv w' \<and> mem w' = mem w \<and> top_seq w' = top_seq w + a"
    and before_law: "inv w \<Longrightarrow> unat (top_seq w - t) < 192 \<Longrightarrow>
      (if \<exists>u \<in> mem w. unat (top_seq w - t) \<le> unat (top_seq w - u)
       then \<exists>u \<in> mem w. unat (top_seq w - t) \<le> unat (top_seq w - u) \<and> at_or_before w t = (int (unat (t - u)), False)
         \<and> (\<forall>v \<in> mem w. unat (top_seq w - t) \<le> unat (top_seq w - v) \<longrightarrow> unat (top_seq w - u) \<le> unat (top_seq w - v))
       else at_or_before w t = (- 1, False))"
    and after_law: "inv w \<Longrightarrow> unat (top_seq w + 1 - t) \<le> 193 \<Longrightarrow>
      (case at_or_after w t of
         None \<Rightarrow> \<forall>u \<in> mem w. \<not> time_after_eq64 u t
       | Some u \<Rightarrow> u \<in> mem w \<and> time_after_eq64 u t \<and> (\<forall>v \<in> mem w. time_after_eq64 v t \<longrightarrow> time_after_eq64 v u))"
begin

lemma add_next:
  assumes "inv w" and nowrap: "top_seq w \<noteq> - 1" and free: "top_seq w - 191 \<notin> mem w"
  shows "\<exists>w1 w2. advance w 1 = (w1, False) \<and> mark w1 (top_seq w1) = (w2, False) \<and> inv w2
    \<and> mem w2 = insert (top_seq w + 1) (mem w) \<and> top_seq w1 = top_seq w + 1 \<and> top_seq w2 = top_seq w + 1
    \<and> top_seq w + 1 \<notin> mem w"
proof -
  have age: "unat (top_seq w - t) + unat (1 :: u64) < 192" if "t \<in> mem w" for t
  proof -
    have "unat (top_seq w - t) \<noteq> 191"
    proof
      assume "unat (top_seq w - t) = 191"
      then have "top_seq w - t = 191"
        by (auto dest: unat_eqD)
      then have "t = top_seq w - 191"
        by (simp add: algebra_simps)
      with that free show False by simp
    qed
    then show ?thesis
      using mem_age [OF that] by simp
  qed
  have "unat (top_seq w) \<noteq> 18446744073709551615"
  proof
    assume "unat (top_seq w) = 18446744073709551615"
    then have "top_seq w = of_nat 18446744073709551615"
      by (rule unat_eqD)
    with nowrap show False by simp
  qed
  then have "unat (top_seq w) + unat (1 :: u64) < 18446744073709551616"
    using unat_u64_lt [of "top_seq w"] by (simp only: unat_1)
  then obtain w1 where w1: "advance w 1 = (w1, False)" "inv w1" "mem w1 = mem w" "top_seq w1 = top_seq w + 1"
    using advance_law [of w 1] assms(1) age by blast
  have new: "top_seq w + 1 \<notin> mem w"
  proof
    assume "top_seq w + 1 \<in> mem w"
    from mem_age [OF this] show False by (simp add: unat_u64_max)
  qed
  obtain w2 where "mark w1 (top_seq w1) = (w2, False)" "inv w2" "mem w2 = insert (top_seq w1) (mem w1)"
      "top_seq w2 = top_seq w1"
    using mark_law [of w1 "top_seq w1"] w1 new by auto
  with w1 new show ?thesis by auto
qed

text \<open>Popping the youngest member again and again empties the window.\<close>

lemma drain_step:
  assumes "inv w" and "unat (top_seq w - t) < 192"
    and old: "\<forall>u \<in> mem w. unat (top_seq w - t) \<le> unat (top_seq w - u)"
  shows "(mem w = {} \<and> at_or_before w t = (- 1, False)) \<or>
    (\<exists>u \<in> mem w. \<exists>gap \<ge> 0. at_or_before w t = (gap, False) \<and> t - of_int gap = u
      \<and> (\<forall>v \<in> mem w. unat (top_seq w - u) \<le> unat (top_seq w - v)))"
proof (cases "mem w = {}")
  case True
  then show ?thesis
    using before_law [OF assms(1,2)] by simp
next
  case False
  then have "\<exists>u \<in> mem w. unat (top_seq w - t) \<le> unat (top_seq w - u)"
    using old by blast
  then obtain u where u: "u \<in> mem w" "at_or_before w t = (int (unat (t - u)), False)"
      "\<forall>v \<in> mem w. unat (top_seq w - t) \<le> unat (top_seq w - v) \<longrightarrow> unat (top_seq w - u) \<le> unat (top_seq w - v)"
    using before_law [OF assms(1,2)] by (simp only: if_True) blast
  have "t - of_int (int (unat (t - u))) = u"
    by simp
  moreover have "\<forall>v \<in> mem w. unat (top_seq w - u) \<le> unat (top_seq w - v)"
    using u(3) old by blast
  ultimately show ?thesis
    using u(1,2) by (metis of_nat_0_le_iff)
qed

end

subsection \<open>The window of \<^verbatim>\<open>window.h\<close> keeps the contract\<close>

lemma after_eq_age:
  assumes "unat (h - t) < 192" and "unat ((h :: u64) + 1 - s) \<le> 193"
  shows "time_after_eq64 t s \<longleftrightarrow> s \<noteq> h + 1 \<and> unat (h - t) \<le> unat (h - s)"
proof -
  define a b where "a = h - t" and "b = h + 1 - s"
  have ts: "t - s = b - 1 - a" and hs: "h - s = b - 1"
    by (simp_all add: a_def b_def)
  have a: "unat a < 192" and b: "unat b \<le> 193"
    using assms by (simp_all add: a_def b_def)
  show ?thesis
  proof (cases "b = 0")
    case True
    then have "t - s = - 1 - a" and "s = h + 1"
      using ts by (simp_all add: b_def algebra_simps)
    moreover have "unat (- 1 - a) = 18446744073709551615 - unat a"
      using a by (simp add: unat_u64_max unat_sub word_le_nat_alt)
    ultimately have "\<not> unat (t - s) < 9223372036854775808"
      using a by (simp only: not_less)
    then show ?thesis
      using \<open>s = h + 1\<close> unfolding time_after_eq64_iff by blast
  next
    case False
    then have b1: "unat (b - 1) = unat b - 1" and "s \<noteq> h + 1"
      by (rule unat_minus_one) (use False in \<open>auto simp: b_def\<close>)
    then show ?thesis
      using a b unfolding time_after_eq64_iff ts hs a_def [symmetric] unat_sub_if' [of "b - 1" a]
      by (cases "unat a \<le> unat (b - 1)") simp_all
  qed
qed

lemma wnd_after_law:
  assumes inv: "wnd_inv w" and s: "unat (head w + 1 - s) \<le> 193"
  shows "case wnd_at_or_after w s of
      None \<Rightarrow> \<forall>u \<in> wnd_set w. \<not> time_after_eq64 u s
    | Some u \<Rightarrow> u \<in> wnd_set w \<and> time_after_eq64 u s \<and> (\<forall>v \<in> wnd_set w. time_after_eq64 v s \<longrightarrow> time_after_eq64 v u)"
proof -
  have iff: "time_after_eq64 u s \<longleftrightarrow> s \<noteq> head w + 1 \<and> u \<in> newer w s" if "u \<in> wnd_set w" for u
    using after_eq_age [OF wnd_set_age [OF that] s] that by (simp add: newer_def)
  show ?thesis
  proof (cases "s = head w + 1")
    case True
    then show ?thesis
      using iff wnd_at_or_after_future [of w s] by (simp add: unat_u64_max)
  next
    case False
    then have "unat (head w + 1 - s - 1) = unat (head w + 1 - s) - 1"
      by (intro unat_minus_one) auto
    then have "unat (head w - s) < 9223372036854775808"
      using s by (simp add: algebra_simps)
    note C = wnd_at_or_after_correct [OF inv this]
    show ?thesis
    proof (cases "wnd_at_or_after w s")
      case None
      then show ?thesis
        using C iff by simp
    next
      case (Some u)
      then have u: "u \<in> newer w s" "\<forall>v \<in> newer w s. unat (head w - v) \<le> unat (head w - u)"
        using C by (auto simp: earliest_of_def)
      then have uw: "u \<in> wnd_set w"
        by (simp add: newer_def)
      have "u \<noteq> head w + 1" "unat (head w + 1 - u) \<le> 193"
        using wnd_set_age [OF uw] unat_add_mod [of "head w - u" 1] by (auto simp: algebra_simps)
      then have "time_after_eq64 v u" if "v \<in> newer w s" for v
        using after_eq_age [OF wnd_set_age, of v w u] that u(2) by (auto simp: newer_def)
      then show ?thesis
        using Some u uw iff False by auto
    qed
  qed
qed

lemma wnd_before_law:
  assumes inv: "wnd_inv w" and s: "unat (head w - s) < 192"
  shows "if \<exists>u \<in> wnd_set w. unat (head w - s) \<le> unat (head w - u)
     then \<exists>u \<in> wnd_set w. unat (head w - s) \<le> unat (head w - u) \<and> wnd_at_or_before w s = (int (unat (s - u)), False)
       \<and> (\<forall>v \<in> wnd_set w. unat (head w - s) \<le> unat (head w - v) \<longrightarrow> unat (head w - u) \<le> unat (head w - v))
     else wnd_at_or_before w s = (- 1, False)"
proof -
  have C: "snd (wnd_at_or_before w s) = False" "latest_before w s (fst (wnd_at_or_before w s))"
    using wnd_at_or_before_correct [OF inv, of s] s by simp_all
  have dist: "unat (s - u) = unat (head w - u) - unat (head w - s)" if "u \<in> older w s" for u
    using unat_diff_age [of "head w" s u] that by (simp add: older_def)
  show ?thesis
  proof (cases "older w s = {}")
    case True
    then have "\<not> (\<exists>u \<in> wnd_set w. unat (head w - s) \<le> unat (head w - u))"
      by (auto simp: older_def)
    then show ?thesis
      using C True by (simp add: latest_before_def prod_eq_iff)
  next
    case False
    then obtain u where u: "u \<in> older w s" "fst (wnd_at_or_before w s) = int (unat (s - u))"
        "\<forall>v \<in> older w s. unat (s - u) \<le> unat (s - v)"
      using C(2) by (auto simp: latest_before_def)
    have "\<forall>v \<in> older w s. unat (head w - u) \<le> unat (head w - v)"
      using u(1,3) dist by (fastforce simp: older_def)
    then have "u \<in> wnd_set w \<and> unat (head w - s) \<le> unat (head w - u) \<and> wnd_at_or_before w s = (int (unat (s - u)), False)
       \<and> (\<forall>v \<in> wnd_set w. unat (head w - s) \<le> unat (head w - v) \<longrightarrow> unat (head w - u) \<le> unat (head w - v))"
      using u C(1) by (simp add: older_def prod_eq_iff)
    then show ?thesis
      by (simp only: split: if_split) blast
  qed
qed

interpretation fpw: seq_window wnd_inv wnd_set head wnd_mark wnd_clear wnd_advance wnd_at_or_before wnd_at_or_after
proof (unfold_locales, goal_cases)
  case (1 t w) then show ?case by (rule wnd_set_age)
next
  case (2 w) show ?case by simp
next
  case (3 w t) then show ?case by (rule wnd_mark_correct)
next
  case (4 w t) then show ?case by (rule wnd_clear_correct)
next
  case (5 w a) then show ?case by (rule wnd_advance_correct)
next
  case (6 w t) then show ?case by (rule wnd_before_law)
next
  case (7 w t) then show ?case by (rule wnd_after_law)
qed

subsection \<open>The operations of the window, on its set of marked sequence numbers\<close>

text \<open>A window with two marked sequence numbers, in different words of the bitmap.\<close>

definition demo_wnd :: fp_window where
  "demo_wnd = fst (wnd_mark (fst (wnd_mark
     (wnd_reset \<lparr>marked = [], summary = 0, head = 0, head_word = 0, num_marked = 0\<rparr> 1000) 990)) 900)"

lemma demo_wnd_inv: "wnd_inv demo_wnd" "wnd_set demo_wnd = {900, 990}" "head demo_wnd = 1000"
proof -
  define w0 where "w0 = wnd_reset \<lparr>marked = [], summary = 0, head = 0, head_word = 0, num_marked = 0\<rparr> 1000"
  have w0: "wnd_inv w0" "wnd_set w0 = {}" "head w0 = 1000"
    by (simp_all add: w0_def wnd_reset_inv wnd_reset_set)
  then obtain w1 where w1: "wnd_mark w0 990 = (w1, False)" "wnd_inv w1" "wnd_set w1 = {990}" "head w1 = 1000"
    using wnd_mark_correct [of w0 990] by auto
  then obtain w2 where "wnd_mark w1 900 = (w2, False)" "wnd_inv w2" "wnd_set w2 = {900, 990}" "head w2 = 1000"
    using wnd_mark_correct [of w1 900] by auto
  then show "wnd_inv demo_wnd" "wnd_set demo_wnd = {900, 990}" "head demo_wnd = 1000"
    using w1 by (simp_all add: demo_wnd_def w0_def [symmetric])
qed

text \<open>
  The windows the protocol can produce, with the set they stand for: a window is reset, sequence
  numbers of the window are marked and marked ones are cleared, and the head advances as long as no
  marked sequence number falls out of the window and the head does not pass \<open>2 ^ 64\<close>.
\<close>

inductive wnd_history :: "fp_window \<Rightarrow> u64 set \<Rightarrow> u64 \<Rightarrow> bool" where
  reset: "wnd_history (wnd_reset w h) {} h"
| mark: "wnd_history w S h \<Longrightarrow> unat (h - t) < 192 \<Longrightarrow> t \<notin> S \<Longrightarrow> wnd_history (fst (wnd_mark w t)) (insert t S) h"
| clear: "wnd_history w S h \<Longrightarrow> t \<in> S \<Longrightarrow> wnd_history (fst (wnd_clear w t)) (S - {t}) h"
| advance: "wnd_history w S h \<Longrightarrow> unat h + unat a < 18446744073709551616 \<Longrightarrow> \<forall>t \<in> S. unat (h - t) + unat a < 192
     \<Longrightarrow> wnd_history (fst (wnd_advance w a)) S (h + a)"

lemma wnd_mark_set:
  assumes "wnd_inv w" and "unat (head w - t) < 192" and "t \<notin> wnd_set w"
  shows "wnd_inv (fst (wnd_mark w t)) \<and> wnd_set (fst (wnd_mark w t)) = insert t (wnd_set w) \<and> head (fst (wnd_mark w t)) = head w
    \<and> \<not> snd (wnd_mark w t)"
  using fpw.mark_law [OF assms] by (elim exE conjE) (simp only: fst_conv snd_conv simp_thms)

lemma wnd_clear_set:
  assumes "wnd_inv w" and "t \<in> wnd_set w"
  shows "wnd_inv (fst (wnd_clear w t)) \<and> wnd_set (fst (wnd_clear w t)) = wnd_set w - {t} \<and> head (fst (wnd_clear w t)) = head w
    \<and> \<not> snd (wnd_clear w t)"
  using fpw.clear_law [OF assms] by (elim exE conjE) (simp only: fst_conv snd_conv simp_thms)

lemma wnd_advance_set:
  assumes "wnd_inv w" and "unat (head w) + unat a < 18446744073709551616"
    and "\<forall>t \<in> wnd_set w. unat (head w - t) + unat a < 192"
  shows "wnd_inv (fst (wnd_advance w a)) \<and> wnd_set (fst (wnd_advance w a)) = wnd_set w
    \<and> head (fst (wnd_advance w a)) = head w + a \<and> \<not> snd (wnd_advance w a)"
  using fpw.advance_law [OF assms] by (elim exE conjE) (simp only: fst_conv snd_conv simp_thms)

lemma wnd_history_set: "wnd_history w S h \<Longrightarrow> wnd_inv w \<and> wnd_set w = S \<and> head w = h"
proof (induction rule: wnd_history.induct)
  case (reset w h)
  then show ?case
    by (simp add: wnd_reset_inv wnd_reset_set)
next
  case (mark w S h t)
  then show ?case
    using wnd_mark_set [of w t] by simp
next
  case (clear w S h t)
  then show ?case
    using wnd_clear_set [of w t] by simp
next
  case (advance w S h a)
  then show ?case
    using wnd_advance_set [of w a] by (simp only: simp_thms)
qed

lemma wnd_search_back:
  assumes "wnd_inv w" and "unat (head w - t) < 192"
  shows "(\<forall>u \<in> wnd_set w. unat (head w - u) < unat (head w - t)) \<and> wnd_at_or_before w t = (- 1, False)
    \<or> (\<exists>u \<in> wnd_set w. unat (head w - t) \<le> unat (head w - u) \<and> wnd_at_or_before w t = (int (unat (t - u)), False)
       \<and> (\<forall>v \<in> wnd_set w. unat (head w - t) \<le> unat (head w - v) \<longrightarrow> unat (head w - u) \<le> unat (head w - v)))"
proof (cases "\<exists>u \<in> wnd_set w. unat (head w - t) \<le> unat (head w - u)")
  case True
  then show ?thesis
    using fpw.before_law [OF assms] by (simp only: if_True) blast
next
  case False
  then show ?thesis
    using fpw.before_law [OF assms] by (simp only: if_False) force
qed

text \<open>
  C13. The window refines a set of sequence numbers: after any legal sequence of resets, marks, clears
  and advances, the bitmap, its summary word and its counter stand for the set \<open>S\<close> these operations
  build. Searching backwards gives the distance to the nearest member at or before a position and -1
  when there is none; searching forwards gives the earliest member at or after a position, also from
  before the window or one past its head; bit \<open>i\<close> of the 64-bit mask is membership of the number
  \<open>63 - i\<close> before a position, stale bits of the circular bitmap never show; and marking, clearing and
  advancing report no bug.
\<close>

theorem window_refines_set:
  assumes "wnd_history w S h"
  shows "unat (wnd_num_marked w) = card S
    \<and> (m \<in> S \<longrightarrow> \<not> snd (wnd_clear w m)) \<and> (m \<notin> S \<longrightarrow> unat (h - m) < 192 \<longrightarrow> \<not> snd (wnd_mark w m))
    \<and> (unat h + unat a < 18446744073709551616 \<longrightarrow> (\<forall>u \<in> S. unat (h - u) + unat a < 192) \<longrightarrow> \<not> snd (wnd_advance w a))
    \<and> (unat (h - t) < 192 \<longrightarrow>
         (\<forall>u \<in> S. unat (h - u) < unat (h - t)) \<and> wnd_at_or_before w t = (- 1, False)
         \<or> (\<exists>u \<in> S. unat (h - t) \<le> unat (h - u) \<and> wnd_at_or_before w t = (int (unat (t - u)), False)
            \<and> (\<forall>v \<in> S. unat (h - t) \<le> unat (h - v) \<longrightarrow> unat (h - u) \<le> unat (h - v))))
    \<and> (unat (h + 1 - t) \<le> 193 \<longrightarrow>
         (case wnd_at_or_after w t of
            None \<Rightarrow> \<forall>u \<in> S. \<not> time_after_eq64 u t
          | Some u \<Rightarrow> u \<in> S \<and> time_after_eq64 u t \<and> (\<forall>v \<in> S. time_after_eq64 v t \<longrightarrow> time_after_eq64 v u)))
    \<and> (i < 64 \<longrightarrow> bit (wnd_get_mask w p) i = (p - of_nat (63 - i) \<in> S))"
proof -
  have w: "wnd_inv w" "wnd_set w = S" "head w = h"
    using wnd_history_set [OF assms] by simp_all
  have "unat (wnd_num_marked w) = card S"
    using w(1,2) by (simp add: wnd_inv_def wnd_num_marked_def)
  moreover have "\<not> snd (wnd_clear w m)" if "m \<in> S"
    using wnd_clear_set [OF w(1), of m] that w by simp
  moreover have "\<not> snd (wnd_mark w m)" if "m \<notin> S" "unat (h - m) < 192"
    using wnd_mark_set [OF w(1), of m] that w by simp
  moreover have "\<not> snd (wnd_advance w a)" if "unat h + unat a < 18446744073709551616" "\<forall>u \<in> S. unat (h - u) + unat a < 192"
    using wnd_advance_set [OF w(1), of a, unfolded w(2,3), OF that] by blast
  moreover note wnd_search_back [OF w(1), of t, unfolded w(2,3)] fpw.after_law [OF w(1), of t, unfolded w(2,3)]
    wnd_get_mask_correct [OF w(1), of i p, unfolded w(2)]
  ultimately show ?thesis
    by (intro conjI impI)
qed

lemma demo_history: "wnd_history demo_wnd {900, 990} 1000"
proof -
  have "wnd_history demo_wnd (insert 900 (insert 990 {})) 1000"
    unfolding demo_wnd_def by (intro wnd_history.mark wnd_history.reset) simp_all
  then show ?thesis
    by simp
qed

theorem window_refines_set_witness:
  "unat (wnd_num_marked demo_wnd) = 2 \<and> \<not> snd (wnd_clear demo_wnd 900) \<and> \<not> snd (wnd_advance demo_wnd 91)
    \<and> wnd_at_or_before demo_wnd 980 = (80, False) \<and> wnd_at_or_after demo_wnd 901 = Some 990 \<and> bit (wnd_get_mask demo_wnd 1010) 43"
proof -
  note r = window_refines_set [OF demo_history]
  have "wnd_at_or_before demo_wnd 980 = (80, False)"
    using r [of 0 0 980 0 0] by auto
  moreover have "wnd_at_or_after demo_wnd 901 = Some 990"
    using r [of 0 0 901 0 0] by (auto simp: time_after_eq64_iff unat_u64_max split: option.splits)
  moreover have "bit (wnd_get_mask demo_wnd 1010) 43" "\<not> snd (wnd_clear demo_wnd 900)" "\<not> snd (wnd_advance demo_wnd 91)"
      "unat (wnd_num_marked demo_wnd) = 2"
    using r [of 900 91 0 43 1010] by simp_all
  ultimately show ?thesis
    by blast
qed

text \<open>
  When the head passes \<open>2 ^ 64\<close> the word shift of \<^verbatim>\<open>wnd_advance\<close> is computed from the wrapped
  head: a marked sequence number is lost from the bitmap although it is still counted, and a
  bug is reported. Reset timestamps are hashed to any 64-bit head.
\<close>

theorem window_advance_wraps:
  "let w = fst (wnd_mark (wnd_reset demo_wnd (- 1)) (- 1)) in
     wnd_is_marked w (- 1) \<and> snd (wnd_advance w 1) \<and> \<not> wnd_is_marked (fst (wnd_advance w 1)) (- 1)
     \<and> num_marked (fst (wnd_advance w 1)) = 1"
  by code_simp

end
