(* ===== verification/FP_Conn.thy ===== *)
theory FP_Conn
  imports FP_Window_Spec
begin

unbundle bit_operations_syntax

text \<open>
  The connection state of the protocol (\<^verbatim>\<open>src/src/protocol/fpproto.h\<close>), the window of
  outstanding packet descriptors (\<^verbatim>\<open>outwnd.h\<close>) and the pacer (\<^verbatim>\<open>pacer.h\<close>).

  The protocol talks to its user through the callbacks of \<^verbatim>\<open>struct fpproto_ops\<close>, frees
  descriptors and reports violated assumptions. All of these are recorded, in order, in the
  \<open>trace\<close> of the model. A NULL dereference, a read outside the packet and a loop that
  does not end are entries of the trace as well; the theorems show that they never appear.
\<close>

subsection \<open>Definitions: packet descriptors, callbacks and statistics\<close>

definition FASTPASS_TO_CONTROLLER_SEQNO_OFFSET :: u64 where
  "FASTPASS_TO_CONTROLLER_SEQNO_OFFSET = 0"

definition FASTPASS_TO_ENDPOINT_SEQNO_OFFSET :: u64 where
  "FASTPASS_TO_ENDPOINT_SEQNO_OFFSET = 0xDEADBEEF"

text \<open>\<open>ep\<close> is \<^verbatim>\<open>IS_ENDPOINT\<close>: the same sources are compiled for the endpoint and the controller.\<close>

definition FASTPASS_EGRESS_SEQNO_OFFSET :: "bool \<Rightarrow> u64" where
  "FASTPASS_EGRESS_SEQNO_OFFSET ep =
     (if ep then FASTPASS_TO_CONTROLLER_SEQNO_OFFSET else FASTPASS_TO_ENDPOINT_SEQNO_OFFSET)"

definition FASTPASS_INGRESS_SEQNO_OFFSET :: "bool \<Rightarrow> u64" where
  "FASTPASS_INGRESS_SEQNO_OFFSET ep =
     (if ep then FASTPASS_TO_ENDPOINT_SEQNO_OFFSET else FASTPASS_TO_CONTROLLER_SEQNO_OFFSET)"

definition FASTPASS_BAD_PKT_RESET_THRESHOLD :: u32 where
  "FASTPASS_BAD_PKT_RESET_THRESHOLD = 10"

definition FASTPASS_RESET_WINDOW_NS :: u64 where
  "FASTPASS_RESET_WINDOW_NS = 1000 * 1000 * 1000"

record fpproto_areq_desc =
  src_dst_key :: u64
  tslots :: u64

record fpproto_pktdesc =
  pd_n_areq :: u16
  pd_areq :: "fpproto_areq_desc list"
  pd_n_dsts :: u16
  pd_dsts :: "u16 list"
  pd_dst_counts :: "u16 list"
  pd_alloc_tslot :: u16
  pd_tslot_desc :: "u8 list"
  pd_base_tslot :: u16
  pd_sent_timestamp :: u64
  pd_seqno :: u64
  pd_ack_seq :: u64
  pd_ack_vec :: u16
  pd_send_reset :: bool
  pd_reset_timestamp :: u64

text \<open>A callback is a pointer that may be NULL; \<^verbatim>\<open>set_timer\<close> and \<^verbatim>\<open>cancel_timer\<close> are called unchecked.\<close>

record fpproto_ops =
  has_handle_reset :: bool
  has_handle_ack :: bool
  has_handle_neg_ack :: bool
  has_trigger_request :: bool
  has_handle_alloc :: bool
  has_handle_areq :: bool

datatype out_event =
    Set_timer u64
  | Cancel_timer
  | Handle_ack fpproto_pktdesc
  | Handle_neg_ack fpproto_pktdesc
  | Handle_reset
  | Trigger_request
  | Handle_alloc u32 "u16 list" "u8 list"
  | Handle_areq "u8 list" nat
  | Pktdesc_free "fpproto_pktdesc option"
  | Bug
  | Null_deref
  | Oob_read
  | Diverged

record fp_proto_stat =
  st_version :: u32
  st_out_max_seqno :: u64
  st_timeout_handler_runs :: u64
  st_ack_payloads :: u64
  st_too_early_ack :: u64
  st_acked_packets :: u64
  st_timeout_pkts :: u64
  st_informative_ack_payloads :: u64
  st_reprogrammed_timer :: u64
  st_earliest_unacked :: u64
  st_committed_pkts :: u64
  st_never_acked_pkts :: u64
  st_next_timeout_seqno :: u64
  st_tx_num_unacked :: u16
  st_fall_off_outwnd :: u64
  st_rx_pkts :: u64
  st_rx_too_short :: u64
  st_rx_unknown_payload :: u64
  st_rx_incomplete_reset :: u64
  st_rx_incomplete_alloc :: u64
  st_rx_incomplete_ack :: u64
  st_rx_incomplete_areq :: u64
  st_rx_dup_pkt :: u64
  st_rx_out_of_order :: u64
  st_rx_checksum_error :: u64
  st_in_max_seqno :: u64
  st_inwnd_jumped :: u64
  st_seqno_before_inwnd :: u64
  st_consecutive_bad_pkts :: u16
  st_inwnd :: u64
  st_in_sync :: bool
  st_last_reset_time :: u64
  st_reset_payloads :: u64
  st_proto_resets :: u64
  st_redundant_reset :: u64
  st_reset_both_recent_last_reset_wins :: u64
  st_reset_both_recent_payload_wins :: u64
  st_reset_last_recent_payload_old :: u64
  st_reset_last_old_payload_recent :: u64
  st_reset_both_old :: u64
  st_no_reset_because_recent :: u64
  st_reset_from_bad_pkts :: u64
  st_forced_reset :: u64

subsection \<open>Definitions: the connection\<close>

record fpproto_conn =
  last_reset_time :: u64
  next_seqno :: u64
  in_max_seqno :: u64
  in_sync :: bool
  ops :: fpproto_ops
  rst_win_ns :: u64
  send_timeout :: u32
  consecutive_bad_pkts :: u32
  outwnd :: fp_window
  unacked_pkts :: "fpproto_pktdesc option list"
  next_timeout_seqno :: u64
  inwnd :: u64
  stat :: fp_proto_stat

record proto = fpproto_conn +
  trace :: "out_event list"

definition emit :: "out_event \<Rightarrow> proto \<Rightarrow> proto" where
  "emit e s = s\<lparr>trace := trace s @ [e]\<rparr>"

definition bug_on :: "bool \<Rightarrow> proto \<Rightarrow> proto" where
  "bug_on b s = (if b then emit Bug s else s)"

definition stat_inc :: "((u64 \<Rightarrow> u64) \<Rightarrow> fp_proto_stat \<Rightarrow> fp_proto_stat) \<Rightarrow> proto \<Rightarrow> proto" where
  "stat_inc upd s = s\<lparr>stat := upd (\<lambda>n. n + 1) (stat s)\<rparr>"

subsection \<open>Definitions: the window of outstanding packets\<close>

definition outwnd_add :: "fpproto_pktdesc option \<Rightarrow> proto \<Rightarrow> proto" where
  "outwnd_add pd s =
     (let s = bug_on (pd = None) s;
          (w, b1) = wnd_advance (outwnd s) 1;
          s = bug_on b1 (s\<lparr>outwnd := w\<rparr>);
          (w, b2) = wnd_mark (outwnd s) (head (outwnd s));
          s = bug_on b2 (s\<lparr>outwnd := w\<rparr>)
      in s\<lparr>unacked_pkts := (unacked_pkts s)[unat (wnd_pos (head (outwnd s))) := pd]\<rparr>)"

definition outwnd_pop :: "u64 \<Rightarrow> proto \<Rightarrow> fpproto_pktdesc option \<times> proto" where
  "outwnd_pop seqno s =
     (let seqno_index = unat (wnd_pos seqno);
          res = unacked_pkts s ! seqno_index;
          (w, b) = wnd_clear (outwnd s) seqno;
          s = bug_on b (s\<lparr>outwnd := w\<rparr>)
      in (res, s\<lparr>unacked_pkts := (unacked_pkts s)[seqno_index := None]\<rparr>))"

definition outwnd_peek :: "proto \<Rightarrow> u64 \<Rightarrow> fpproto_pktdesc option" where
  "outwnd_peek s seqno = unacked_pkts s ! unat (wnd_pos seqno)"

subsection \<open>Definitions: the pacer\<close>

record fp_pacer =
  pa_T :: u64
  pa_next_event :: u64
  pa_cost :: u32
  pa_max_credit :: u32
  pa_min_gap :: u32

definition PACER_NO_NEXT_EVENT :: u64 where
  "PACER_NO_NEXT_EVENT = NOT 0"

definition pacer_init_full :: "u64 \<Rightarrow> u32 \<Rightarrow> u32 \<Rightarrow> u32 \<Rightarrow> fp_pacer" where
  "pacer_init_full now cost max_credit min_gap =
     \<lparr>pa_T = now - ucast max_credit, pa_next_event = PACER_NO_NEXT_EVENT,
      pa_cost = cost, pa_max_credit = max_credit, pa_min_gap = min_gap\<rparr>"

definition pacer_is_triggered :: "fp_pacer \<Rightarrow> bool" where
  "pacer_is_triggered pa = (pa_next_event pa \<noteq> PACER_NO_NEXT_EVENT)"

definition pacer_trigger :: "fp_pacer \<Rightarrow> u64 \<Rightarrow> bool \<times> fp_pacer" where
  "pacer_trigger pa now =
     (if pacer_is_triggered pa then (False, pa)
      else (True, pa\<lparr>pa_next_event := max (pa_T pa + ucast (pa_cost pa)) (now + ucast (pa_min_gap pa))\<rparr>))"

definition pacer_next_event :: "fp_pacer \<Rightarrow> u64" where
  "pacer_next_event pa = pa_next_event pa"

definition pacer_reset :: "fp_pacer \<Rightarrow> fp_pacer" where
  "pacer_reset pa =
     pa\<lparr>pa_T := max (pa_T pa) (pa_next_event pa - ucast (pa_max_credit pa)) + ucast (pa_cost pa),
        pa_next_event := PACER_NO_NEXT_EVENT\<rparr>"

end
