(* ===== verification/FP_Proto.thy ===== *)
theory FP_Proto
  imports FP_Conn
begin

unbundle bit_operations_syntax

text \<open>
  The connection logic of \<^verbatim>\<open>src/src/protocol/fpproto.c\<close>: acknowledgements, timeouts, resets,
  the at-most-once filter of received packets and the two send operations.

  \<open>ep\<close> is \<^verbatim>\<open>IS_ENDPOINT\<close>; every reading of the clock \<^verbatim>\<open>fp_get_time_ns\<close> is an argument.
\<close>

subsection \<open>Definitions: sequence numbers and checksum\<close>

definition base_seqno_from_timestamp :: "u64 \<Rightarrow> u64" where
  "base_seqno_from_timestamp reset_time =
     (let time_hash = fp_jhash_1word (ucast reset_time) (ucast (drop_bit 32 reset_time))
      in reset_time + ucast time_hash + push_bit 32 (ucast time_hash))"

definition tstamp_in_window :: "u64 \<Rightarrow> u64 \<Rightarrow> u64 \<Rightarrow> bool" where
  "tstamp_in_window tstamp win_middle win_size =
     (tstamp \<ge> win_middle - win_size div 2 \<and> tstamp < win_middle + (win_size + 1) div 2)"

definition IPPROTO_FASTPASS :: u16 where
  "IPPROTO_FASTPASS = 222"

text \<open>\<open>addr\<close> is the address of the packet, which decides how the sum is split into words.\<close>

definition fastpass_checksum :: "nat \<Rightarrow> u8 list \<Rightarrow> u64 \<Rightarrow> u64 \<Rightarrow> u16" where
  "fastpass_checksum addr pkt seqno ack_seq =
     (let seq_hash = fp_jhash_3words (ucast seqno) (ucast (drop_bit 32 seqno)) (ucast ack_seq)
                       (ucast (drop_bit 32 ack_seq));
          csum = fp_csum_partial addr pkt (length pkt) seq_hash
      in fp_csum_tcpudp_magic 0 0 (of_nat (length pkt)) IPPROTO_FASTPASS csum)"

subsection \<open>Definitions: timers, acknowledgements and resets\<close>

definition recompute_and_reset_retrans_timer :: "proto \<Rightarrow> proto" where
  "recompute_and_reset_retrans_timer s =
     (case wnd_at_or_after (outwnd s) (next_timeout_seqno s) of
        None \<Rightarrow> emit Cancel_timer (s\<lparr>next_timeout_seqno := wnd_head (outwnd s) + 1\<rparr>)
      | Some seqno \<Rightarrow>
          let s = s\<lparr>next_timeout_seqno := seqno\<rparr>
          in case outwnd_peek s seqno of
               None \<Rightarrow> emit Null_deref s
             | Some pd \<Rightarrow>
                 let timeout = pd_sent_timestamp pd + ucast (send_timeout s)
                 in stat_inc st_reprogrammed_timer_update
                      (emit (Set_timer timeout) (emit Cancel_timer s)))"

text \<open>A callback on a descriptor dereferences it: on NULL this is a fault.\<close>

definition call_with_pd :: "bool \<Rightarrow> (fpproto_pktdesc \<Rightarrow> out_event) \<Rightarrow> fpproto_pktdesc option \<Rightarrow> proto \<Rightarrow> proto" where
  "call_with_pd present cb pd s =
     (if present then (case pd of None \<Rightarrow> emit Null_deref s | Some p \<Rightarrow> emit (cb p) s) else s)"

definition do_ack_seqno :: "u64 \<Rightarrow> proto \<Rightarrow> proto" where
  "do_ack_seqno seqno s =
     (let s = bug_on (wnd_seq_after (outwnd s) seqno) s;
          s = bug_on (wnd_seq_before (outwnd s) seqno) s;
          s = stat_inc st_acked_packets_update s;
          s = bug_on (\<not> wnd_is_marked (outwnd s) seqno) s;
          (pd, s) = outwnd_pop seqno s;
          s = call_with_pd (has_handle_ack (ops s)) Handle_ack pd s
      in emit (Pktdesc_free pd) s)"

definition do_neg_ack_seqno :: "u64 \<Rightarrow> proto \<Rightarrow> proto" where
  "do_neg_ack_seqno seq s =
     call_with_pd (has_handle_neg_ack (ops s)) Handle_neg_ack (outwnd_peek s seq) s"

text \<open>The loop of \<^verbatim>\<open>free_unacked\<close>; \<open>fuel\<close> bounds its rounds, running out is \<open>Diverged\<close>.\<close>

fun clear_next_unacked :: "nat \<Rightarrow> u64 \<Rightarrow> proto \<Rightarrow> proto" where
  "clear_next_unacked 0 tslot s = emit Diverged s"
| "clear_next_unacked (Suc fuel) tslot s =
     (let (gap, b) = wnd_at_or_before (outwnd s) tslot;
          s = bug_on b s
      in if gap \<ge> 0 then
           let tslot = tslot - of_int gap;
               (pd, s) = outwnd_pop tslot s
           in clear_next_unacked fuel tslot (emit (Pktdesc_free pd) s)
         else s)"

definition free_unacked :: "proto \<Rightarrow> proto" where
  "free_unacked s = clear_next_unacked (FASTPASS_WND_LEN + 1) (wnd_head (outwnd s)) s"

definition do_proto_reset :: "bool \<Rightarrow> u64 \<Rightarrow> bool \<Rightarrow> proto \<Rightarrow> proto" where
  "do_proto_reset ep reset_time sync s =
     (let base_seqno = base_seqno_from_timestamp reset_time;
          s = free_unacked s;
          s = s\<lparr>last_reset_time := reset_time,
                outwnd := wnd_reset (outwnd s) (base_seqno + FASTPASS_EGRESS_SEQNO_OFFSET ep - 1),
                in_max_seqno := base_seqno + FASTPASS_INGRESS_SEQNO_OFFSET ep - 1,
                inwnd := NOT 0,
                consecutive_bad_pkts := 0\<rparr>;
          s = s\<lparr>next_timeout_seqno := wnd_head (outwnd s) + 1, in_sync := sync\<rparr>
      in stat_inc st_proto_resets_update s)"

definition fpproto_force_reset :: "bool \<Rightarrow> u64 \<Rightarrow> proto \<Rightarrow> proto" where
  "fpproto_force_reset ep now s = do_proto_reset ep now False (stat_inc st_forced_reset_update s)"

fun timeout_loop :: "nat \<Rightarrow> u64 \<Rightarrow> u64 \<Rightarrow> proto \<Rightarrow> proto" where
  "timeout_loop 0 now seqno s = emit Diverged s"
| "timeout_loop (Suc fuel) now seqno s =
     (case wnd_at_or_after (outwnd s) seqno of
        None \<Rightarrow> s\<lparr>next_timeout_seqno := wnd_head (outwnd s) + 1\<rparr>
      | Some seqno \<Rightarrow>
          (case outwnd_peek s seqno of
             None \<Rightarrow> emit Null_deref s
           | Some pd \<Rightarrow>
               let timeout = pd_sent_timestamp pd + ucast (send_timeout s)
               in if time_after64 timeout now
                  then emit (Set_timer timeout) (s\<lparr>next_timeout_seqno := seqno\<rparr>)
                  else timeout_loop fuel now (seqno + 1)
                         (do_neg_ack_seqno seqno (stat_inc st_timeout_pkts_update s))))"

definition fpproto_handle_timeout :: "u64 \<Rightarrow> proto \<Rightarrow> proto" where
  "fpproto_handle_timeout now s =
     (let s = stat_inc st_timeout_handler_runs_update s
      in timeout_loop (FASTPASS_WND_LEN + 1) now (next_timeout_seqno s) s)"

definition call_handle_reset :: "proto \<Rightarrow> proto" where
  "call_handle_reset s = (if has_handle_reset (ops s) then emit Handle_reset s else s)"

definition call_trigger_request :: "proto \<Rightarrow> proto" where
  "call_trigger_request s = (if has_trigger_request (ops s) then emit Trigger_request s else s)"

text \<open>The result is \<^verbatim>\<open>true\<close> for the return value 1 (drop).\<close>

definition reset_payload_handler :: "bool \<Rightarrow> u64 \<Rightarrow> u64 \<Rightarrow> proto \<Rightarrow> bool \<times> proto" where
  "reset_payload_handler ep now full_tstamp s =
     (let s = stat_inc st_reset_payloads_update s
      in if full_tstamp = last_reset_time s then
           let s = (if ep \<and> \<not> in_sync s then s else stat_inc st_redundant_reset_update s)
           in (False, s\<lparr>in_sync := ep\<rparr>)
         else
           let last_is_recent = tstamp_in_window (last_reset_time s) now (rst_win_ns s);
               payload_is_recent = tstamp_in_window full_tstamp now (rst_win_ns s);
               accept = (\<lambda>s. (False, call_handle_reset (do_proto_reset ep full_tstamp ep s)))
           in if last_is_recent then
                if payload_is_recent then
                  if time_before64 full_tstamp (last_reset_time s)
                  then (True, stat_inc st_reset_both_recent_last_reset_wins_update s)
                  else accept (stat_inc st_reset_both_recent_payload_wins_update s)
                else (True, stat_inc st_reset_last_recent_payload_old_update s)
              else
                if payload_is_recent
                then accept (stat_inc st_reset_last_old_payload_recent_update s)
                else (True, call_handle_reset (do_proto_reset ep now ep (stat_inc st_reset_both_old_update s))))"

subsection \<open>Definitions: the acknowledgement payload\<close>

lemma clear_ffs_less:
  assumes "(x :: u64) \<noteq> 0"
  shows "unat (x AND NOT (push_bit (nat (ffs64 x)) 1)) < unat x"
proof -
  obtain i where i: "bit x i" "i < 64" "ffs64 x = int i"
    using assms by (rule ffs64_ex)
  let ?y = "x AND NOT (push_bit i 1)"
  have "bit x j \<and> \<not> bit ?y j" if "j = i" for j
    using that i by (simp add: word_bits del: push_bit_of_1)
  then have "?y \<noteq> x"
    by auto
  moreover have "?y \<le> x"
    by (rule word_and_le2)
  ultimately show ?thesis
    using i(3) by (simp add: word_less_nat_alt [symmetric] del: push_bit_of_1)
qed

function ack_todo :: "u64 \<Rightarrow> u64 \<Rightarrow> int \<Rightarrow> proto \<Rightarrow> int \<times> proto" where
  "ack_todo ack_seq todo_mask n_acked s =
     (if todo_mask = 0 then (n_acked, s)
      else
        let offset = ffs64 todo_mask;
            cur_seqno = ack_seq - 63 + of_int offset;
            s = bug_on (wnd_seq_before (outwnd s) cur_seqno) s;
            s = bug_on (\<not> wnd_is_marked (outwnd s) cur_seqno) s;
            s = do_ack_seqno cur_seqno s
        in ack_todo ack_seq (todo_mask AND NOT (push_bit (nat offset) 1)) (n_acked + 1) s)"
  by auto
termination
  by (relation "measure (\<lambda>(ack_seq, todo_mask, n_acked, s). unat todo_mask)")
    (auto simp del: push_bit_of_1 intro: clear_ffs_less)

declare ack_todo.simps [simp del]

definition ack_payload_handler :: "u64 \<Rightarrow> u64 \<Rightarrow> proto \<Rightarrow> proto" where
  "ack_payload_handler ack_seq ack_vec s =
     (let s = stat_inc st_ack_payloads_update s
      in if wnd_seq_before (outwnd s) ack_seq then stat_inc st_too_early_ack_update s
         else
           let unacked_mask = wnd_get_mask (outwnd s) ack_seq;
               (n_acked, s) = ack_todo ack_seq (ack_vec AND unacked_mask) 0 s
           in if n_acked > 0
              then stat_inc st_informative_ack_payloads_update (recompute_and_reset_retrans_timer s)
              else s)"

subsection \<open>Definitions: good and bad packets, the window of received packets\<close>

definition got_good_packet :: "proto \<Rightarrow> proto" where
  "got_good_packet s = s\<lparr>consecutive_bad_pkts := 0\<rparr>"

definition got_bad_packet :: "bool \<Rightarrow> u64 \<Rightarrow> proto \<Rightarrow> proto" where
  "got_bad_packet ep now s =
     (let s = s\<lparr>in_sync := False, consecutive_bad_pkts := consecutive_bad_pkts s + 1\<rparr>
      in if consecutive_bad_pkts s < FASTPASS_BAD_PKT_RESET_THRESHOLD then call_trigger_request s
         else
           let s = s\<lparr>consecutive_bad_pkts := 0\<rparr>
           in if time_in_range64 (last_reset_time s) (now - FASTPASS_RESET_WINDOW_NS)
                   (now + FASTPASS_RESET_WINDOW_NS)
              then call_trigger_request (stat_inc st_no_reset_because_recent_update s)
              else call_trigger_request
                     (call_handle_reset
                       (do_proto_reset ep now False (stat_inc st_reset_from_bad_pkts_update s))))"

text \<open>The boolean of the next two is \<^verbatim>\<open>true\<close> for the return value 1 (drop).\<close>

definition update_inwnd :: "u64 \<Rightarrow> proto \<Rightarrow> bool \<times> proto" where
  "update_inwnd seqno s =
     (let hd_seq = in_max_seqno s;
          m = push_bit (unat (63 - (hd_seq - seqno))) 1
      in if time_after_eq64 seqno (hd_seq + 64) then
           (False, (stat_inc st_inwnd_jumped_update s)\<lparr>in_max_seqno := seqno, inwnd := push_bit 63 1\<rparr>)
         else if time_after64 seqno hd_seq then
           (False, s\<lparr>inwnd := drop_bit (unat (seqno - hd_seq)) (inwnd s) OR push_bit 63 1,
                     in_max_seqno := seqno\<rparr>)
         else if time_before_eq64 seqno (hd_seq - 64) then
           (True, stat_inc st_seqno_before_inwnd_update s)
         else if inwnd s AND m \<noteq> 0 then (True, stat_inc st_rx_dup_pkt_update s)
         else (False, stat_inc st_rx_out_of_order_update (s\<lparr>inwnd := inwnd s OR m\<rparr>)))"

definition at_most_once_may_accept :: "proto \<Rightarrow> u64 \<Rightarrow> bool" where
  "at_most_once_may_accept s seqno =
     (let hd_seq = in_max_seqno s
      in if time_after64 seqno hd_seq then False
         else if time_before_eq64 seqno (hd_seq - 64) then True
         else if inwnd s AND push_bit (unat (63 - (hd_seq - seqno))) 1 \<noteq> 0 then True
         else False)"

subsection \<open>Definitions: sending\<close>

definition fpproto_prepare_to_send :: "proto \<Rightarrow> proto" where
  "fpproto_prepare_to_send s =
     (let window_edge = wnd_edge (outwnd s)
      in if wnd_is_marked (outwnd s) window_edge then
           let s = stat_inc st_never_acked_pkts_update s;
               s = (if time_after_eq64 window_edge (next_timeout_seqno s)
                    then recompute_and_reset_retrans_timer
                           ((do_neg_ack_seqno window_edge (stat_inc st_fall_off_outwnd_update s))
                              \<lparr>next_timeout_seqno := window_edge + 1\<rparr>)
                    else s);
               (pd, s) = outwnd_pop window_edge s
           in emit (Pktdesc_free pd) s
         else s)"

text \<open>\<^verbatim>\<open>fpproto_commit_packet\<close> fills the descriptor in and hands it to the window.\<close>

definition commit_fields :: "proto \<Rightarrow> u64 \<Rightarrow> fpproto_pktdesc \<Rightarrow> fpproto_pktdesc" where
  "commit_fields s timestamp pd =
     pd\<lparr>pd_sent_timestamp := timestamp,
        pd_seqno := wnd_head (outwnd s) + 1,
        pd_send_reset := \<not> in_sync s,
        pd_reset_timestamp := last_reset_time s,
        pd_ack_seq := in_max_seqno s,
        pd_ack_vec := (ucast (drop_bit 48 (inwnd s) AND 0x7FFF))
           OR push_bit 15 (if inwnd s AND drop_bit 16 (NOT 0) = drop_bit 16 (NOT 0) then 1 else 0)\<rparr>"

definition fpproto_commit_packet :: "fpproto_pktdesc \<Rightarrow> u64 \<Rightarrow> proto \<Rightarrow> proto" where
  "fpproto_commit_packet pd timestamp s =
     recompute_and_reset_retrans_timer
       (stat_inc st_committed_pkts_update (outwnd_add (Some (commit_fields s timestamp pd)) s))"

subsection \<open>Definitions: statistics, creation and destruction\<close>

definition FASTPASS_PROTOCOL_STATS_VERSION :: u32 where
  "FASTPASS_PROTOCOL_STATS_VERSION = 2"

definition fpproto_dump_stats :: "proto \<Rightarrow> fp_proto_stat" where
  "fpproto_dump_stats s = stat s"

definition fpproto_update_internal_stats :: "proto \<Rightarrow> proto" where
  "fpproto_update_internal_stats s =
     s\<lparr>stat := (stat s)
        \<lparr>st_version := FASTPASS_PROTOCOL_STATS_VERSION,
         st_last_reset_time := last_reset_time s,
         st_out_max_seqno := wnd_head (outwnd s),
         st_in_max_seqno := in_max_seqno s,
         st_in_sync := in_sync s,
         st_consecutive_bad_pkts := ucast (consecutive_bad_pkts s),
         st_tx_num_unacked := ucast (wnd_num_marked (outwnd s)),
         st_earliest_unacked := (if wnd_empty (outwnd s) then 0 else wnd_earliest_marked (outwnd s)),
         st_inwnd := inwnd s,
         st_next_timeout_seqno := next_timeout_seqno s\<rparr>\<rparr>"

definition fpproto_init_conn :: "bool \<Rightarrow> u64 \<Rightarrow> fpproto_ops \<Rightarrow> u64 \<Rightarrow> u64 \<Rightarrow> proto \<Rightarrow> proto" where
  "fpproto_init_conn ep now new_ops new_rst_win_ns new_send_timeout s =
     (do_proto_reset ep now False s)
       \<lparr>ops := new_ops, rst_win_ns := new_rst_win_ns, send_timeout := ucast new_send_timeout\<rparr>"

definition fpproto_destroy_conn :: "proto \<Rightarrow> proto" where
  "fpproto_destroy_conn s = free_unacked s"

end
