(* ===== verification/FP_Packet.thy ===== *)
theory FP_Packet
  imports FP_Proto
begin

unbundle bit_operations_syntax

text \<open>
  Packets of the protocol (\<^verbatim>\<open>src/src/protocol/fpproto.c\<close>): reception with its parser and the
  encoder. A packet is the list of its bytes. Every read of the parser is checked: a read
  beyond the packet appears as \<open>Oob_read\<close> in the trace. \<^verbatim>\<open>ntohs\<close> and \<^verbatim>\<open>ntohl\<close> of a load are
  big-endian reads; the checksum is stored in the byte order of the (little-endian) host.
\<close>

subsection \<open>Definitions: reading bytes\<close>

definition rd8 :: "u8 list \<Rightarrow> nat \<Rightarrow> u8 option" where
  "rd8 pkt i = (if i < length pkt then Some (pkt ! i) else None)"

definition rd16 :: "u8 list \<Rightarrow> nat \<Rightarrow> u16 option" where
  "rd16 pkt i = (if i + 1 < length pkt then Some (push_bit 8 (ucast (pkt ! i)) OR ucast (pkt ! (i + 1)))
                 else None)"

definition rd16_host :: "u8 list \<Rightarrow> nat \<Rightarrow> u16 option" where
  "rd16_host pkt i = (if i + 1 < length pkt then Some (ucast (pkt ! i) OR push_bit 8 (ucast (pkt ! (i + 1))))
                      else None)"

definition rd32 :: "u8 list \<Rightarrow> nat \<Rightarrow> u32 option" where
  "rd32 pkt i = (if i + 3 < length pkt
                 then Some (push_bit 24 (ucast (pkt ! i)) OR push_bit 16 (ucast (pkt ! (i + 1)))
                            OR push_bit 8 (ucast (pkt ! (i + 2))) OR ucast (pkt ! (i + 3)))
                 else None)"

definition FASTPASS_PTYPE_PADDING :: u8 where "FASTPASS_PTYPE_PADDING = 0x0"
definition FASTPASS_PTYPE_RESET :: u8 where "FASTPASS_PTYPE_RESET = 0x1"
definition FASTPASS_PTYPE_AREQ :: u8 where "FASTPASS_PTYPE_AREQ = 0x2"
definition FASTPASS_PTYPE_ALLOC :: u8 where "FASTPASS_PTYPE_ALLOC = 0x3"
definition FASTPASS_PTYPE_ACK :: u8 where "FASTPASS_PTYPE_ACK = 0x4"

subsection \<open>Definitions: the header and the acknowledgements of a packet\<close>

record fastpass_hdr =
  hdr_seq :: u16
  hdr_ack_seq :: u16
  hdr_ack_vec :: u16
  hdr_checksum :: u16

definition read_hdr :: "u8 list \<Rightarrow> fastpass_hdr option" where
  "read_hdr pkt =
     (case (rd16 pkt 0, rd16 pkt 2, rd16 pkt 4, rd16_host pkt 6) of
        (Some a, Some b, Some c, Some d) \<Rightarrow>
          Some \<lparr>hdr_seq = a, hdr_ack_seq = b, hdr_ack_vec = c, hdr_checksum = d\<rparr>
      | _ \<Rightarrow> None)"

text \<open>The lowest 56 bits of a reset timestamp, completed to 64 bits around the current time.\<close>

definition full_reset_tstamp :: "u64 \<Rightarrow> u32 \<Rightarrow> u32 \<Rightarrow> u64" where
  "full_reset_tstamp now hi lo =
     (let partial_tstamp = push_bit 32 (ucast (hi AND (push_bit 24 1 - 1))) OR ucast lo;
          rst_tstamp = now - push_bit 55 1
      in rst_tstamp + ((partial_tstamp - rst_tstamp) AND (push_bit 56 1 - 1)))"

definition complete_seqno :: "u64 \<Rightarrow> u16 \<Rightarrow> u64" where
  "complete_seqno from seq16 = from + ((ucast seq16 - from) AND 0xFFFF)"

text \<open>The reset timestamp and the full sequence numbers of a packet; \<open>None\<close> is a read out of bounds.\<close>

definition rx_seqnos :: "bool \<Rightarrow> u64 \<Rightarrow> u8 \<Rightarrow> u8 list \<Rightarrow> fastpass_hdr \<Rightarrow> proto \<Rightarrow> (u64 \<times> u64 \<times> u64) option" where
  "rx_seqnos ep now payload_type pkt hdr s =
     (if payload_type = FASTPASS_PTYPE_RESET then
        (case (rd32 pkt 8, rd32 pkt 12) of
           (Some hi, Some lo) \<Rightarrow>
             let rst_tstamp = full_reset_tstamp now hi lo;
                 base_seqno = base_seqno_from_timestamp rst_tstamp
             in Some (rst_tstamp,
                      complete_seqno (base_seqno + FASTPASS_INGRESS_SEQNO_OFFSET ep) (hdr_seq hdr),
                      complete_seqno (base_seqno + FASTPASS_EGRESS_SEQNO_OFFSET ep - 1) (hdr_ack_seq hdr))
         | _ \<Rightarrow> None)
      else
        Some (0, complete_seqno (in_max_seqno s - push_bit 14 1) (hdr_seq hdr),
                 complete_seqno (wnd_head (outwnd s) - push_bit 16 1 + 1) (hdr_ack_seq hdr)))"

definition ack_vec_of_hdr :: "u16 \<Rightarrow> u64" where
  "ack_vec_of_hdr ack_vec16 =
     ((push_bit 48 1 - ucast (drop_bit 15 ack_vec16)) AND NOT (push_bit 48 1))
       OR push_bit 48 (ucast (ack_vec16 AND 0x7FFF)) OR push_bit 63 1"

definition ack_vec_of_payload :: "u32 \<Rightarrow> u16 \<Rightarrow> u64" where
  "ack_vec_of_payload hi lo =
     push_bit 20 (ucast hi AND (push_bit 28 1 - 1)) OR push_bit 4 (ucast lo)"

subsection \<open>Definitions: reception\<close>

definition fpproto_successful_rx :: "u64 \<Rightarrow> proto \<Rightarrow> proto" where
  "fpproto_successful_rx in_seq s = snd (update_inwnd in_seq s)"

text \<open>
  The part of \<^verbatim>\<open>fpproto_handle_rx_packet\<close> after the checks of the sequence number, from the
  acknowledgements on; \<open>curp\<close> is the offset of the first payload after the RESET. The result
  holds the returned boolean and the sequence number stored in \<^verbatim>\<open>*returned_in_seq\<close>, if any.
\<close>

definition rx_acks :: "u8 list \<Rightarrow> nat \<Rightarrow> u64 \<Rightarrow> u64 \<Rightarrow> u16 \<Rightarrow> proto \<Rightarrow> bool \<times> u64 option \<times> proto" where
  "rx_acks pkt curp in_seq ack_seq ack_vec16 s =
     (let s = ack_payload_handler ack_seq (ack_vec_of_hdr ack_vec16) s
      in if curp = length pkt then (False, None, fpproto_successful_rx in_seq s)
         else case rd8 pkt curp of
           None \<Rightarrow> (False, Some in_seq, emit Oob_read s)
         | Some b \<Rightarrow>
             if drop_bit 4 b \<noteq> FASTPASS_PTYPE_ACK then (True, Some in_seq, s)
             else if curp + 6 > length pkt
             then (False, Some in_seq, stat_inc st_rx_incomplete_ack_update s)
             else case (rd32 pkt curp, rd16 pkt (curp + 4)) of
               (Some hi, Some lo) \<Rightarrow>
                 (True, Some in_seq, ack_payload_handler ack_seq (ack_vec_of_payload hi lo) s)
             | _ \<Rightarrow> (False, Some in_seq, emit Oob_read s))"

definition rx_verified ::
    "bool \<Rightarrow> u64 \<Rightarrow> u8 \<Rightarrow> u8 list \<Rightarrow> u64 \<Rightarrow> u64 \<Rightarrow> u64 \<Rightarrow> u16 \<Rightarrow> proto \<Rightarrow> bool \<times> u64 option \<times> proto" where
  "rx_verified ep now payload_type pkt rst_tstamp in_seq ack_seq ack_vec16 s =
     (let (drop_it, curp, s) =
        (if payload_type = FASTPASS_PTYPE_RESET then
           let s = s\<lparr>in_sync := False\<rparr>;
               s = (if \<not> ep then call_trigger_request s else s);
               (r, s) = reset_payload_handler ep now rst_tstamp s
           in (r, 16, s)
         else (False, 8, s\<lparr>in_sync := True\<rparr>))
      in if drop_it then (False, None, s)
         else if at_most_once_may_accept s in_seq then (False, None, s)
         else rx_acks pkt curp in_seq ack_seq ack_vec16 s)"

text \<open>
  \<open>now1\<close> is the clock read while parsing a RESET, \<open>now2\<close> the one read by
  \<^verbatim>\<open>reset_payload_handler\<close> or \<^verbatim>\<open>got_bad_packet\<close>. The checksum field of the packet is zeroed.
\<close>

definition clear_checksum :: "u8 list \<Rightarrow> u8 list" where
  "clear_checksum pkt = pkt[6 := 0, 7 := 0]"

definition fpproto_handle_rx_packet ::
    "bool \<Rightarrow> nat \<Rightarrow> u64 \<Rightarrow> u64 \<Rightarrow> u8 list \<Rightarrow> proto \<Rightarrow> bool \<times> u64 option \<times> u8 list \<times> proto" where
  "fpproto_handle_rx_packet ep addr now1 now2 pkt s =
     (let s = stat_inc st_rx_pkts_update s
      in if length pkt < 8 then (False, None, pkt, stat_inc st_rx_too_short_update s)
         else case (if length pkt = 8 then Some 0 else map_option (drop_bit 4) (rd8 pkt 8)) of
           None \<Rightarrow> (False, None, pkt, emit Oob_read s)
         | Some payload_type \<Rightarrow>
             if payload_type = FASTPASS_PTYPE_RESET \<and> 8 + 8 > length pkt
             then (False, None, pkt, stat_inc st_rx_incomplete_reset_update s)
             else case read_hdr pkt of
               None \<Rightarrow> (False, None, pkt, emit Oob_read s)
             | Some hdr \<Rightarrow>
                 (case rx_seqnos ep now1 payload_type pkt hdr s of
                    None \<Rightarrow> (False, None, pkt, emit Oob_read s)
                  | Some (rst_tstamp, in_seq, ack_seq) \<Rightarrow>
                      let pkt = clear_checksum pkt;
                          checksum = fastpass_checksum addr pkt in_seq ack_seq
                      in if checksum \<noteq> hdr_checksum hdr
                         then (False, None, pkt, stat_inc st_rx_checksum_error_update (got_bad_packet ep now2 s))
                         else
                           let (r, q, s) = rx_verified ep now2 payload_type pkt rst_tstamp in_seq ack_seq
                                             (hdr_ack_vec hdr) (got_good_packet s)
                           in (r, q, pkt, s)))"

definition process_alloc :: "u8 list \<Rightarrow> nat \<Rightarrow> proto \<Rightarrow> nat option \<times> proto" where
  "process_alloc pkt dat s =
     (if dat + 2 > length pkt then (None, stat_inc st_rx_incomplete_alloc_update s)
      else case rd16 pkt dat of
        None \<Rightarrow> (None, emit Oob_read s)
      | Some payload_type \<Rightarrow>
          let alloc_n_dst = unat (drop_bit 8 payload_type AND 0xF);
              alloc_n_tslots = 2 * unat (payload_type AND 0x3F)
          in if dat + 2 + 2 + 2 * alloc_n_dst + alloc_n_tslots > length pkt
             then (None, stat_inc st_rx_incomplete_alloc_update s)
             else case (rd16 pkt (dat + 2), those (map (\<lambda>i. rd16 pkt (dat + 4 + 2 * i)) [0..<alloc_n_dst])) of
               (Some base, Some alloc_dst) \<Rightarrow>
                 let alloc_base_tslot = push_bit 4 (ucast base :: u32);
                     slots = take alloc_n_tslots (drop (dat + 4 + 2 * alloc_n_dst) pkt);
                     s = (if has_handle_alloc (ops s)
                          then emit (Handle_alloc alloc_base_tslot alloc_dst slots) s else s)
                 in (Some (4 + 2 * alloc_n_dst + alloc_n_tslots), s)
             | _ \<Rightarrow> (None, emit Oob_read s))"

definition process_areq :: "u8 list \<Rightarrow> nat \<Rightarrow> proto \<Rightarrow> nat option \<times> proto" where
  "process_areq pkt dat s =
     (if dat + 2 > length pkt then (None, stat_inc st_rx_incomplete_areq_update s)
      else case rd16 pkt dat of
        None \<Rightarrow> (None, emit Oob_read s)
      | Some payload_type \<Rightarrow>
          let n_dst = unat (payload_type AND 0x3F)
          in if dat + 2 + 4 * n_dst > length pkt
             then (None, stat_inc st_rx_incomplete_areq_update s)
             else (Some (2 + 4 * n_dst),
                   if has_handle_areq (ops s)
                   then emit (Handle_areq (take (4 * n_dst) (drop (dat + 2) pkt)) n_dst) s else s))"

text \<open>One round of the payload loop: the new offset, or \<open>None\<close> for the result \<^verbatim>\<open>false\<close>.\<close>

definition handle_payload :: "u8 list \<Rightarrow> nat \<Rightarrow> proto \<Rightarrow> nat option \<times> proto" where
  "handle_payload pkt curp s =
     (case rd8 pkt curp of
        None \<Rightarrow> (None, emit Oob_read s)
      | Some b \<Rightarrow>
          let payload_type = drop_bit 4 b
          in if payload_type = FASTPASS_PTYPE_ACK then (Some (curp + 6), s)
             else if payload_type = FASTPASS_PTYPE_RESET then (Some (curp + 8), s)
             else if payload_type = FASTPASS_PTYPE_ALLOC then
               (case process_alloc pkt curp s of
                  (None, s) \<Rightarrow> (None, s) | (Some n, s) \<Rightarrow> (Some (curp + n), s))
             else if payload_type = FASTPASS_PTYPE_AREQ then
               (case process_areq pkt curp s of
                  (None, s) \<Rightarrow> (None, s) | (Some n, s) \<Rightarrow> (Some (curp + n), s))
             else if payload_type = FASTPASS_PTYPE_PADDING then (Some (length pkt), s)
             else (None, stat_inc st_rx_unknown_payload_update s))"

lemma process_alloc_progress: "process_alloc pkt dat s = (Some n, s') \<Longrightarrow> 0 < n"
  by (auto simp: process_alloc_def Let_def split: if_splits option.splits)

lemma process_areq_progress: "process_areq pkt dat s = (Some n, s') \<Longrightarrow> 0 < n"
  by (auto simp: process_areq_def Let_def split: if_splits option.splits)

lemma handle_payload_progress: "handle_payload pkt curp s = (Some c, s') \<Longrightarrow> curp < length pkt \<and> curp < c"
  by (auto simp: handle_payload_def rd8_def Let_def
      dest: process_alloc_progress process_areq_progress split: if_splits option.splits prod.splits)

function rx_payloads :: "u8 list \<Rightarrow> nat \<Rightarrow> proto \<Rightarrow> bool \<times> proto" where
  "rx_payloads pkt curp s =
     (case handle_payload pkt curp s of
        (None, s) \<Rightarrow> (False, s)
      | (Some curp, s) \<Rightarrow> if curp < length pkt then rx_payloads pkt curp s else (True, s))"
  by auto
termination
  by (relation "measure (\<lambda>(pkt, curp, s). length pkt - curp)")
    (auto dest: sym [THEN handle_payload_progress])

declare rx_payloads.simps [simp del]

definition fpproto_perform_rx_callbacks :: "u8 list \<Rightarrow> proto \<Rightarrow> bool \<times> proto" where
  "fpproto_perform_rx_callbacks pkt s = rx_payloads pkt 8 (bug_on (length pkt = 8) s)"

definition fpproto_handle_rx_complete :: "bool \<Rightarrow> nat \<Rightarrow> u64 \<Rightarrow> u64 \<Rightarrow> u8 list \<Rightarrow> proto \<Rightarrow> proto" where
  "fpproto_handle_rx_complete ep addr now1 now2 pkt s =
     (case fpproto_handle_rx_packet ep addr now1 now2 pkt s of
        (True, Some in_seq, pkt, s) \<Rightarrow>
          (case fpproto_perform_rx_callbacks pkt s of
             (True, s) \<Rightarrow> fpproto_successful_rx in_seq s
           | (False, s) \<Rightarrow> s)
      | (_, _, _, s) \<Rightarrow> s)"

subsection \<open>Definitions: encoding\<close>

definition be16 :: "u16 \<Rightarrow> u8 list" where
  "be16 x = [ucast (drop_bit 8 x), ucast x]"

definition be32 :: "u32 \<Rightarrow> u8 list" where
  "be32 x = [ucast (drop_bit 24 x), ucast (drop_bit 16 x), ucast (drop_bit 8 x), ucast x]"

definition encode_alloc :: "fpproto_pktdesc \<Rightarrow> u8 list" where
  "encode_alloc pd =
     be16 (push_bit 12 3 OR push_bit 8 (pd_n_dsts pd) OR ucast ((ucast (pd_alloc_tslot pd) + 1 :: u32) div 2))
     @ be16 (pd_base_tslot pd)
     @ concat (map (\<lambda>i. be16 (pd_dsts pd ! i)) [0..<unat (pd_n_dsts pd)])
     @ map (\<lambda>i. pd_tslot_desc pd ! i) [0..<unat (pd_alloc_tslot pd)]"

definition encode_areq :: "fpproto_pktdesc \<Rightarrow> u8 list" where
  "encode_areq pd =
     be16 (push_bit 12 2 OR (pd_n_areq pd AND 0x3F))
     @ concat (map (\<lambda>i. be16 (ucast (src_dst_key (pd_areq pd ! i))) @ be16 (ucast (tslots (pd_areq pd ! i))))
                [0..<unat (pd_n_areq pd)])"

text \<open>
  The result is the return value and the bytes written to the buffer. \<open>remaining_len\<close> is not
  reduced by the ALLOC payload, as in the source.
\<close>

definition fpproto_encode_packet :: "bool \<Rightarrow> nat \<Rightarrow> fpproto_pktdesc \<Rightarrow> nat \<Rightarrow> nat \<Rightarrow> int \<times> u8 list" where
  "fpproto_encode_packet ep addr pd max_len min_size =
     (let remaining_len = max_len
      in if remaining_len < 8 then (- 1, [])
         else
           let pkt = be16 (ucast (pd_seqno pd)) @ be16 (ucast (pd_ack_seq pd)) @ be16 (pd_ack_vec pd) @ [0, 0];
               remaining_len = remaining_len - 8
           in if pd_send_reset pd \<and> remaining_len < 8 then (- 2, pkt)
              else
                let (pkt, remaining_len) =
                      (if pd_send_reset pd
                       then (pkt @ be32 (push_bit 28 1 OR (ucast (drop_bit 32 (pd_reset_timestamp pd)) AND 0x00FFFFFF))
                                 @ be32 (ucast (pd_reset_timestamp pd)), remaining_len - 8)
                       else (pkt, remaining_len));
                    pkt = (if \<not> ep \<and> 0 < pd_alloc_tslot pd then pkt @ encode_alloc pd else pkt)
                in if 0 < pd_n_areq pd \<and> remaining_len < 2 + 4 * unat (pd_n_areq pd) then (- 3, pkt)
                   else
                     let (pkt, remaining_len) =
                           (if 0 < pd_n_areq pd
                            then (pkt @ encode_areq pd, remaining_len - 2 - 4 * unat (pd_n_areq pd))
                            else (pkt, remaining_len))
                     in if length pkt < min_size \<and> remaining_len < min_size - length pkt then (- 4, pkt)
                        else
                          let pkt = (if length pkt < min_size then pkt @ replicate (min_size - length pkt) 0
                                     else pkt);
                              csum = fastpass_checksum addr pkt (pd_seqno pd) (pd_ack_seq pd);
                              pkt = pkt[6 := ucast csum, 7 := ucast (drop_bit 8 csum)]
                          in if length pkt > max_len then (- 5, pkt) else (int (length pkt), pkt))"

end
