(* ===== verification/FP_Proto_Inv.thy ===== *)
theory FP_Proto_Inv
  imports FP_Packet "HOL-Library.Multiset"
begin

unbundle bit_operations_syntax

text \<open>
  The invariant of a connection and its preservation by every operation of the protocol: the
  window of outstanding packets is well formed, descriptors are held exactly for the
  marked sequence numbers, no operation reports a bug, dereferences NULL, reads outside a
  packet or diverges, and every committed descriptor is held or has been freed, once.
\<close>

subsection \<open>The invariant\<close>

definition slot :: "u64 \<Rightarrow> nat" where
  "slot t = unat t mod 256"

definition pkts_ok :: "fp_window \<Rightarrow> fpproto_pktdesc option list \<Rightarrow> bool" where
  "pkts_ok w us \<longleftrightarrow> length us = 256
     \<and> (\<forall>t \<in> wnd_set w. \<exists>pd. us ! slot t = Some pd \<and> pd_seqno pd = t)
     \<and> (\<forall>i < 256. (\<forall>t \<in> wnd_set w. slot t \<noteq> i) \<longrightarrow> us ! i = None)"

definition core_inv :: "proto \<Rightarrow> bool" where
  "core_inv s \<longleftrightarrow> wnd_inv (outwnd s) \<and> pkts_ok (outwnd s) (unacked_pkts s)"

definition timer_ok :: "nat \<Rightarrow> proto \<Rightarrow> bool" where
  "timer_ok n s \<longleftrightarrow> unat (head (outwnd s) + 1 - next_timeout_seqno s) \<le> n"

definition conn_inv :: "proto \<Rightarrow> bool" where
  "conn_inv s \<longleftrightarrow> core_inv s \<and> timer_ok 192 s \<and> bit (inwnd s) 63"

definition is_fault :: "out_event \<Rightarrow> bool" where
  "is_fault e \<longleftrightarrow> e \<in> {Bug, Null_deref, Oob_read, Diverged}"

definition faults :: "proto \<Rightarrow> out_event list" where
  "faults s = filter is_fault (trace s)"

definition freed_by :: "out_event \<Rightarrow> fpproto_pktdesc multiset" where
  "freed_by e = (case e of Pktdesc_free (Some pd) \<Rightarrow> {#pd#} | _ \<Rightarrow> {#})"

definition freed :: "proto \<Rightarrow> fpproto_pktdesc multiset" where
  "freed s = sum_list (map freed_by (trace s))"

definition held_list :: "fpproto_pktdesc option list \<Rightarrow> fpproto_pktdesc multiset" where
  "held_list us = (\<Sum>i < 256. case us ! i of Some pd \<Rightarrow> {#pd#} | None \<Rightarrow> {#})"

definition ledger :: "proto \<Rightarrow> fpproto_pktdesc multiset" where
  "ledger s = held_list (unacked_pkts s) + freed s"

text \<open>\<open>keeps s s'\<close>: from \<open>s\<close> to \<open>s'\<close> the invariant holds, nothing is faulty and nothing is lost.\<close>

definition keeps :: "proto \<Rightarrow> proto \<Rightarrow> bool" where
  "keeps s s' \<longleftrightarrow> core_inv s' \<and> faults s' = faults s \<and> ledger s' = ledger s"

subsection \<open>Projections of the bookkeeping operations\<close>

lemma emit_sel [simp]:
  "last_reset_time (emit e s) = last_reset_time s" "in_max_seqno (emit e s) = in_max_seqno s"
  "in_sync (emit e s) = in_sync s" "ops (emit e s) = ops s" "rst_win_ns (emit e s) = rst_win_ns s"
  "send_timeout (emit e s) = send_timeout s" "consecutive_bad_pkts (emit e s) = consecutive_bad_pkts s"
  "outwnd (emit e s) = outwnd s" "unacked_pkts (emit e s) = unacked_pkts s"
  "next_timeout_seqno (emit e s) = next_timeout_seqno s" "inwnd (emit e s) = inwnd s"
  "stat (emit e s) = stat s" "trace (emit e s) = trace s @ [e]"
  by (simp_all add: emit_def)

lemma stat_inc_sel [simp]:
  "last_reset_time (stat_inc u s) = last_reset_time s" "in_max_seqno (stat_inc u s) = in_max_seqno s"
  "in_sync (stat_inc u s) = in_sync s" "ops (stat_inc u s) = ops s" "rst_win_ns (stat_inc u s) = rst_win_ns s"
  "send_timeout (stat_inc u s) = send_timeout s" "consecutive_bad_pkts (stat_inc u s) = consecutive_bad_pkts s"
  "outwnd (stat_inc u s) = outwnd s" "unacked_pkts (stat_inc u s) = unacked_pkts s"
  "next_timeout_seqno (stat_inc u s) = next_timeout_seqno s" "inwnd (stat_inc u s) = inwnd s"
  "trace (stat_inc u s) = trace s"
  by (simp_all add: stat_inc_def)

lemma bug_on_False [simp]: "bug_on False s = s"
  by (simp add: bug_on_def)

lemma core_inv_cong:
  "outwnd s' = outwnd s \<Longrightarrow> unacked_pkts s' = unacked_pkts s \<Longrightarrow> core_inv s' = core_inv s"
  by (simp add: core_inv_def)

lemma ledger_eq:
  "ledger s = held_list (unacked_pkts s) + sum_list (map freed_by (trace s))"
  by (simp add: ledger_def freed_def)

text \<open>A change that touches neither window, descriptors nor trace beyond harmless events.\<close>

lemma keeps_quiet:
  assumes "core_inv s" and "outwnd s' = outwnd s" and "unacked_pkts s' = unacked_pkts s"
    and "trace s' = trace s @ es" and "\<forall>e \<in> set es. \<not> is_fault e \<and> freed_by e = {#}"
  shows "keeps s s'"
proof -
  have "filter is_fault es = []"
    using assms(5) by (simp add: filter_empty_conv)
  moreover have "sum_list (map freed_by es) = {#}"
    using assms(5) by (induction es) auto
  ultimately show ?thesis
    using assms(1-4) by (simp add: keeps_def core_inv_def faults_def ledger_eq)
qed

lemma keeps_refl: "core_inv s \<Longrightarrow> keeps s s"
  by (simp add: keeps_def)

lemma keeps_trans: "keeps s s' \<Longrightarrow> keeps s' s'' \<Longrightarrow> keeps s s''"
  by (simp add: keeps_def)

lemma keepsD: "keeps s s' \<Longrightarrow> core_inv s'"
  by (simp add: keeps_def)

lemma core_invD:
  assumes "core_inv s"
  shows "wnd_inv (outwnd s)" "pkts_ok (outwnd s) (unacked_pkts s)"
  using assms by (simp_all add: core_inv_def)

lemma event_simps [simp]:
  "\<not> is_fault (Set_timer t)" "\<not> is_fault Cancel_timer" "\<not> is_fault (Handle_ack pd)"
  "\<not> is_fault (Handle_neg_ack pd)" "\<not> is_fault Handle_reset" "\<not> is_fault Trigger_request"
  "\<not> is_fault (Handle_alloc b ds ts)" "\<not> is_fault (Handle_areq bs n)" "\<not> is_fault (Pktdesc_free p)"
  "freed_by (Set_timer t) = {#}" "freed_by Cancel_timer = {#}" "freed_by (Handle_ack pd) = {#}"
  "freed_by (Handle_neg_ack pd) = {#}" "freed_by Handle_reset = {#}" "freed_by Trigger_request = {#}"
  "freed_by (Handle_alloc b ds ts) = {#}" "freed_by (Handle_areq bs n) = {#}"
  "freed_by (Pktdesc_free (Some pd)) = {#pd#}"
  by (simp_all add: is_fault_def freed_by_def)

subsection \<open>The window of outstanding packets\<close>

lemma slot_lt [simp]: "slot t < 256"
  by (simp add: slot_def)

lemma unat_pos_slot [simp]: "unat (wnd_pos t) = slot t"
  by (simp add: slot_def unat_wnd_pos)

lemma mod256_cancel:
  fixes c :: nat
  assumes "(c - a) mod 256 = (c - b) mod 256" and "a < 256" and "b < 256" and "256 \<le> c"
  shows "a = b"
proof -
  have "int (c - a) mod 256 = int (c - b) mod 256"
    using assms(1) by (metis of_nat_mod of_nat_numeral)
  then have "(int c - int a) mod 256 = (int c - int b) mod 256"
    using assms(2-4) by (simp add: of_nat_diff)
  then have "256 dvd (int b - int a)"
    by (simp add: mod_eq_dvd_iff)
  then obtain k where k: "int b - int a = 256 * k"
    by (elim dvdE)
  then have "k = 0"
    using assms(2,3) by linarith
  with k show ?thesis by simp
qed

lemma slot_eq_iff:
  assumes "unat (h - t) < 256" and "unat (h - u) < 256"
  shows "slot t = slot u \<longleftrightarrow> t = u"
proof
  assume eq: "slot t = slot u"
  have s: "unat x mod 256 = (unat h + 18446744073709551616 - unat (h - x)) mod 256" for x
  proof -
    have "x = h - (h - x)" by simp
    then have "unat x = (unat h + 18446744073709551616 - unat (h - x)) mod 18446744073709551616"
      by (metis unat_sub_mod)
    then show ?thesis by (simp add: mod_mod_cancel)
  qed
  have "(unat h + 18446744073709551616 - unat (h - t)) mod 256 = (unat h + 18446744073709551616 - unat (h - u)) mod 256"
    using eq s [of t] s [of u] by (simp add: slot_def)
  then have "unat (h - t) = unat (h - u)"
    using assms by (rule mod256_cancel) simp
  then show "t = u"
    by (simp add: word_unat_eq_iff [symmetric])
qed simp

lemma slot_mem_iff: "t \<in> wnd_set w \<Longrightarrow> u \<in> wnd_set w \<Longrightarrow> slot t = slot u \<longleftrightarrow> t = u"
  using slot_eq_iff [of "head w" t u] wnd_set_age [of t w] wnd_set_age [of u w] by simp

lemma held_list_update:
  assumes "length us = 256" and "i < 256" and "us ! i = x"
  shows "held_list (us[i := y]) + (case x of Some pd \<Rightarrow> {#pd#} | None \<Rightarrow> {#})
    = held_list us + (case y of Some pd \<Rightarrow> {#pd#} | None \<Rightarrow> {#})"
proof -
  let ?f = "\<lambda>us i. case us ! i of Some pd \<Rightarrow> {#pd#} | None \<Rightarrow> {#}"
  have "(\<Sum>j \<in> {..<256} - {i}. ?f (us[i := y]) j) = (\<Sum>j \<in> {..<256} - {i}. ?f us j)"
    by (rule sum.cong) auto
  moreover have "held_list xs = ?f xs i + sum (?f xs) ({..<256} - {i})" for xs
    unfolding held_list_def using assms(2) by (intro sum.remove) auto
  ultimately have "held_list (us[i := y]) = ?f (us[i := y]) i + sum (?f us) ({..<256} - {i})"
    and "held_list us = ?f us i + sum (?f us) ({..<256} - {i})"
    by metis+
  then show ?thesis
    using assms by (simp add: ac_simps)
qed

lemma pkts_okD:
  assumes "pkts_ok w us"
  shows "length us = 256" and "t \<in> wnd_set w \<Longrightarrow> \<exists>pd. us ! slot t = Some pd \<and> pd_seqno pd = t"
    and "i < 256 \<Longrightarrow> \<forall>t \<in> wnd_set w. slot t \<noteq> i \<Longrightarrow> us ! i = None"
  using assms by (simp_all add: pkts_ok_def)

lemma outwnd_pop_ok:
  assumes inv: "core_inv s" and t: "t \<in> wnd_set (outwnd s)"
  shows "\<exists>pd w'. outwnd_pop t s = (Some pd, s\<lparr>outwnd := w', unacked_pkts := (unacked_pkts s)[slot t := None]\<rparr>)
    \<and> outwnd_peek s t = Some pd \<and> pd_seqno pd = t \<and> wnd_inv w' \<and> wnd_set w' = wnd_set (outwnd s) - {t}
    \<and> head w' = head (outwnd s) \<and> pkts_ok w' ((unacked_pkts s)[slot t := None])
    \<and> held_list (unacked_pkts s) = add_mset pd (held_list ((unacked_pkts s)[slot t := None]))"
proof -
  note I = core_invD [OF inv]
  obtain w' where w': "wnd_clear (outwnd s) t = (w', False)" "wnd_inv w'" "wnd_set w' = wnd_set (outwnd s) - {t}"
      "head w' = head (outwnd s)"
    using fpw.clear_law [OF I(1) t] by blast
  obtain pd where pd: "unacked_pkts s ! slot t = Some pd" "pd_seqno pd = t"
    using pkts_okD(2) [OF I(2) t] by blast
  have same: "(unacked_pkts s)[slot t := None] ! slot u = unacked_pkts s ! slot u"
    if "u \<in> wnd_set (outwnd s) - {t}" for u
    using slot_mem_iff [OF t, of u] that by (intro nth_list_update_neq) auto
  have "(unacked_pkts s)[slot t := None] ! i = None" if "i < 256" "\<forall>u \<in> wnd_set w'. slot u \<noteq> i" for i
    using that pkts_okD(3) [OF I(2), of i] by (cases "i = slot t") (auto simp: w'(3) pkts_okD(1) [OF I(2)])
  then have "pkts_ok w' ((unacked_pkts s)[slot t := None])"
    using pkts_okD(1,2) [OF I(2)] same unfolding pkts_ok_def by (simp add: w'(3))
  then show ?thesis
    using w' pd held_list_update [OF pkts_okD(1) [OF I(2)] slot_lt pd(1), of None]
    by (auto simp: outwnd_pop_def outwnd_peek_def)
qed

lemma outwnd_add_ok:
  assumes inv: "core_inv s" and seq: "pd_seqno pd = head (outwnd s) + 1"
    and nowrap: "head (outwnd s) \<noteq> - 1" and free: "head (outwnd s) - 191 \<notin> wnd_set (outwnd s)"
  shows "\<exists>w' us'. outwnd_add (Some pd) s = s\<lparr>outwnd := w', unacked_pkts := us'\<rparr> \<and> wnd_inv w'
    \<and> wnd_set w' = insert (pd_seqno pd) (wnd_set (outwnd s)) \<and> head w' = head (outwnd s) + 1 \<and> pkts_ok w' us'
    \<and> held_list us' = add_mset pd (held_list (unacked_pkts s)) \<and> us' ! slot (pd_seqno pd) = Some pd"
proof -
  note I = core_invD [OF inv]
  let ?h = "head (outwnd s) + 1"
  obtain w1 w2 where w: "wnd_advance (outwnd s) 1 = (w1, False)" "wnd_mark w1 (head w1) = (w2, False)" "wnd_inv w2"
      "wnd_set w2 = insert ?h (wnd_set (outwnd s))" "head w1 = ?h" "head w2 = ?h" "?h \<notin> wnd_set (outwnd s)"
    using fpw.add_next [OF I(1) nowrap free] by blast
  let ?us = "(unacked_pkts s)[slot ?h := Some pd]"
  have other: "slot t \<noteq> slot ?h" if "t \<in> wnd_set (outwnd s)" for t
    using slot_mem_iff [of t w2 ?h] that w(4,7) by auto
  then have "unacked_pkts s ! slot ?h = None"
    using pkts_okD(3) [OF I(2) slot_lt] by blast
  then have "held_list ?us = add_mset pd (held_list (unacked_pkts s))"
    using held_list_update [OF pkts_okD(1) [OF I(2)] slot_lt, of ?h None "Some pd"] by simp
  moreover have "pkts_ok w2 ?us"
    using I(2) other seq by (auto simp: pkts_ok_def w(4) nth_list_update)
  ultimately show ?thesis
    using w seq pkts_okD(1) [OF I(2)] by (intro exI [of _ w2] exI [of _ ?us]) (simp add: outwnd_add_def)
qed

subsection \<open>Timers\<close>

lemma peek_mem:
  assumes "core_inv s" and "t \<in> wnd_set (outwnd s)"
  shows "\<exists>pd. outwnd_peek s t = Some pd \<and> pd_seqno pd = t"
  using pkts_okD(2) [OF core_invD(2) [OF assms(1)] assms(2)] by (simp add: outwnd_peek_def)

lemma mem_timer: "t \<in> wnd_set w \<Longrightarrow> unat (head w + 1 - t) \<le> 192"
proof -
  assume "t \<in> wnd_set w"
  then have "unat (head w - t) < 192"
    by (rule wnd_set_age)
  moreover have "head w + 1 - t = (head w - t) + 1"
    by simp
  ultimately show ?thesis
    by (simp only: unat_add_mod) simp
qed

text \<open>The retransmission timer is set for the first outstanding packet not yet timed out.\<close>

definition retrans_event :: "proto \<Rightarrow> out_event list \<Rightarrow> bool" where
  "retrans_event s es \<longleftrightarrow>
     (es = [Cancel_timer] \<and> (\<forall>t \<in> wnd_set (outwnd s). \<not> time_after_eq64 t (next_timeout_seqno s)))
     \<or> (\<exists>t pd. es = [Cancel_timer, Set_timer (pd_sent_timestamp pd + ucast (send_timeout s))]
         \<and> t \<in> wnd_set (outwnd s) \<and> outwnd_peek s t = Some pd \<and> time_after_eq64 t (next_timeout_seqno s)
         \<and> (\<forall>u \<in> wnd_set (outwnd s). time_after_eq64 u (next_timeout_seqno s) \<longrightarrow> time_after_eq64 u t))"

lemma retrans_ok:
  assumes inv: "core_inv s" and nts: "timer_ok 193 s"
  shows "\<exists>n st es. recompute_and_reset_retrans_timer s = s\<lparr>next_timeout_seqno := n, stat := st, trace := trace s @ es\<rparr>
    \<and> unat (head (outwnd s) + 1 - n) \<le> 192 \<and> retrans_event s es"
proof -
  note I = core_invD [OF inv]
  have law: "case wnd_at_or_after (outwnd s) (next_timeout_seqno s) of
      None \<Rightarrow> \<forall>u \<in> wnd_set (outwnd s). \<not> time_after_eq64 u (next_timeout_seqno s)
    | Some u \<Rightarrow> u \<in> wnd_set (outwnd s) \<and> time_after_eq64 u (next_timeout_seqno s)
        \<and> (\<forall>v \<in> wnd_set (outwnd s). time_after_eq64 v (next_timeout_seqno s) \<longrightarrow> time_after_eq64 v u)"
    using nts unfolding timer_ok_def by (rule fpw.after_law [OF I(1)])
  show ?thesis
  proof (cases "wnd_at_or_after (outwnd s) (next_timeout_seqno s)")
    case None
    then have "retrans_event s [Cancel_timer]"
      using law by (simp add: retrans_event_def)
    then show ?thesis
      using None by (intro exI [of _ "head (outwnd s) + 1"] exI [of _ "stat s"] exI [of _ "[Cancel_timer]"])
        (simp add: recompute_and_reset_retrans_timer_def emit_def wnd_head_def)
  next
    case (Some t)
    then have t: "t \<in> wnd_set (outwnd s)"
      using law by simp
    obtain pd where pd: "outwnd_peek s t = Some pd"
      using peek_mem [OF inv t] by blast
    let ?es = "[Cancel_timer, Set_timer (pd_sent_timestamp pd + ucast (send_timeout s))]"
    have "retrans_event s ?es"
      using law Some pd by (auto simp: retrans_event_def)
    moreover have "outwnd_peek (s\<lparr>next_timeout_seqno := t\<rparr>) t = Some pd"
      using pd by (simp add: outwnd_peek_def)
    ultimately show ?thesis
      using Some mem_timer [OF t]
      by (intro exI [of _ t] exI [of _ "st_reprogrammed_timer_update (\<lambda>n. n + 1) (stat s)"] exI [of _ ?es])
        (simp add: recompute_and_reset_retrans_timer_def emit_def stat_inc_def)
  qed
qed

lemma retrans_event_quiet: "retrans_event s es \<Longrightarrow> \<forall>e \<in> set es. \<not> is_fault e \<and> freed_by e = {#}"
  by (auto simp: retrans_event_def)

lemma retrans_keeps:
  assumes inv: "core_inv s" and nts: "timer_ok 193 s"
  shows "keeps s (recompute_and_reset_retrans_timer s)" and "timer_ok 192 (recompute_and_reset_retrans_timer s)"
    and "outwnd (recompute_and_reset_retrans_timer s) = outwnd s"
    and "unacked_pkts (recompute_and_reset_retrans_timer s) = unacked_pkts s"
proof -
  obtain n st es where r: "recompute_and_reset_retrans_timer s = s\<lparr>next_timeout_seqno := n, stat := st, trace := trace s @ es\<rparr>"
      "unat (head (outwnd s) + 1 - n) \<le> 192" "retrans_event s es"
    using retrans_ok [OF assms] by blast
  show "keeps s (recompute_and_reset_retrans_timer s)"
    by (rule keeps_quiet [OF inv _ _ _ retrans_event_quiet [OF r(3)]])
      (use r(1) in simp_all)
  show "timer_ok 192 (recompute_and_reset_retrans_timer s)"
    "outwnd (recompute_and_reset_retrans_timer s) = outwnd s"
    "unacked_pkts (recompute_and_reset_retrans_timer s) = unacked_pkts s"
    using r(1,2) by (simp_all add: timer_ok_def)
qed

subsection \<open>Acknowledgements\<close>

text \<open>The part of the state that acknowledgements, timeouts and sending leave alone.\<close>

definition frame :: "proto \<Rightarrow> proto \<Rightarrow> bool" where
  "frame s s' \<longleftrightarrow> last_reset_time s' = last_reset_time s \<and> in_max_seqno s' = in_max_seqno s
     \<and> in_sync s' = in_sync s \<and> ops s' = ops s \<and> rst_win_ns s' = rst_win_ns s
     \<and> send_timeout s' = send_timeout s \<and> consecutive_bad_pkts s' = consecutive_bad_pkts s \<and> inwnd s' = inwnd s"

lemma frame_trans: "frame s s' \<Longrightarrow> frame s' s'' \<Longrightarrow> frame s s''"
  by (simp add: frame_def)

lemma mem_in_window:
  assumes "t \<in> wnd_set w"
  shows "\<not> wnd_seq_after w t" "\<not> wnd_seq_before w t" "wnd_is_marked w t"
proof -
  have "unat (head w - t) < 192"
    using assms by (rule wnd_set_age)
  then show "\<not> wnd_seq_after w t" "\<not> wnd_seq_before w t"
    by (simp_all add: wnd_seq_after_def wnd_head_def time_after64_iff seq_before_iff)
  show "wnd_is_marked w t"
    using assms by (simp add: wnd_set_def)
qed

lemma keeps_popped:
  assumes inv: "core_inv s" and t: "t \<in> wnd_set (outwnd s)" and pop: "outwnd_pop t s = (p, s1)"
    and s': "outwnd s' = outwnd s1" "unacked_pkts s' = unacked_pkts s1"
      "trace s' = trace s @ es @ [Pktdesc_free p]"
    and es: "\<forall>e \<in> set es. \<not> is_fault e \<and> freed_by e = {#}"
  shows "keeps s s' \<and> wnd_set (outwnd s') = wnd_set (outwnd s) - {t} \<and> head (outwnd s') = head (outwnd s)"
proof -
  obtain pd w' where P: "(p, s1) = (Some pd, s\<lparr>outwnd := w', unacked_pkts := (unacked_pkts s)[slot t := None]\<rparr>)"
      "wnd_inv w'" "wnd_set w' = wnd_set (outwnd s) - {t}" "head w' = head (outwnd s)"
      "pkts_ok w' ((unacked_pkts s)[slot t := None])"
      "held_list (unacked_pkts s) = add_mset pd (held_list ((unacked_pkts s)[slot t := None]))"
    using outwnd_pop_ok [OF inv t] pop by auto
  have "filter is_fault es = []" "sum_list (map freed_by es) = {#}"
    using es by (induction es) auto
  then show ?thesis
    using P s' by (simp add: keeps_def core_inv_def faults_def ledger_eq)
qed

definition ack_events :: "proto \<Rightarrow> fpproto_pktdesc \<Rightarrow> out_event list" where
  "ack_events s pd = (if has_handle_ack (ops s) then [Handle_ack pd] else []) @ [Pktdesc_free (Some pd)]"

lemma do_ack_ok:
  assumes inv: "core_inv s" and t: "t \<in> wnd_set (outwnd s)"
  shows "keeps s (do_ack_seqno t s) \<and> wnd_set (outwnd (do_ack_seqno t s)) = wnd_set (outwnd s) - {t}
    \<and> head (outwnd (do_ack_seqno t s)) = head (outwnd s) \<and> frame s (do_ack_seqno t s)
    \<and> next_timeout_seqno (do_ack_seqno t s) = next_timeout_seqno s
    \<and> (\<exists>pd. outwnd_peek s t = Some pd \<and> pd_seqno pd = t \<and> trace (do_ack_seqno t s) = trace s @ ack_events s pd)"
proof -
  let ?s = "stat_inc st_acked_packets_update s"
  have inv': "core_inv ?s" and t': "t \<in> wnd_set (outwnd ?s)"
    using inv t core_inv_cong [of ?s s] by simp_all
  obtain pd w' where P: "outwnd_pop t ?s = (Some pd, ?s\<lparr>outwnd := w', unacked_pkts := (unacked_pkts s)[slot t := None]\<rparr>)"
      "outwnd_peek s t = Some pd" "pd_seqno pd = t"
    using outwnd_pop_ok [OF inv' t'] by (auto simp: outwnd_peek_def)
  have eq: "do_ack_seqno t s = emit (Pktdesc_free (Some pd)) (call_with_pd (has_handle_ack (ops s)) Handle_ack (Some pd)
      (?s\<lparr>outwnd := w', unacked_pkts := (unacked_pkts s)[slot t := None]\<rparr>))"
    using mem_in_window [OF t] by (simp add: do_ack_seqno_def Let_def P(1))
  then have tr: "trace (do_ack_seqno t s) = trace ?s @ (if has_handle_ack (ops s) then [Handle_ack pd] else []) @ [Pktdesc_free (Some pd)]"
    and f: "frame s (do_ack_seqno t s)" "next_timeout_seqno (do_ack_seqno t s) = next_timeout_seqno s"
    by (simp_all add: call_with_pd_def frame_def)
  have "keeps ?s (do_ack_seqno t s) \<and> wnd_set (outwnd (do_ack_seqno t s)) = wnd_set (outwnd ?s) - {t}
      \<and> head (outwnd (do_ack_seqno t s)) = head (outwnd ?s)"
    by (rule keeps_popped [OF inv' t' P(1) _ _ tr]) (auto simp: eq call_with_pd_def)
  then show ?thesis
    using f tr P(2,3) by (simp add: keeps_def faults_def ledger_eq ack_events_def)
qed

lemma seq_of_bit: "i < 64 \<Longrightarrow> (a :: u64) - 63 + of_nat i = a - of_nat (63 - i)"
  by (simp add: of_nat_diff)

definition seq_at :: "u64 \<Rightarrow> nat \<Rightarrow> u64" where
  "seq_at ack_seq i = ack_seq - of_nat (63 - i)"

definition bit_seqs :: "u64 \<Rightarrow> u64 \<Rightarrow> u64 set" where
  "bit_seqs ack_seq v = seq_at ack_seq ` {i. i < 64 \<and> bit v i}"

lemma seq_at_inj:
  assumes "i < 64" and "j < 64"
  shows "seq_at a i = seq_at a j \<longleftrightarrow> i = j"
proof
  assume "seq_at a i = seq_at a j"
  then have "(of_nat (63 - i) :: u64) = of_nat (63 - j)"
    by (simp add: seq_at_def del: of_nat_diff)
  then have "unat (of_nat (63 - i) :: u64) = unat (of_nat (63 - j) :: u64)"
    by (simp only:)
  then show "i = j"
    using assms by (simp add: unat_of_nat del: of_nat_diff)
qed simp

lemma bit_seqs_remove:
  assumes "bit v i" and "i < 64" and "\<forall>j < 64. bit v' j \<longleftrightarrow> bit v j \<and> j \<noteq> i"
  shows "bit_seqs a v = insert (seq_at a i) (bit_seqs a v')" and "seq_at a i \<notin> bit_seqs a v'"
proof -
  have "{j. j < 64 \<and> bit v j} = insert i {j. j < 64 \<and> bit v' j}" "i \<notin> {j. j < 64 \<and> bit v' j}"
    using assms by auto
  then show "bit_seqs a v = insert (seq_at a i) (bit_seqs a v')" "seq_at a i \<notin> bit_seqs a v'"
    using assms(2) unfolding bit_seqs_def by (simp, metis (lifting) imageE mem_Collect_eq seq_at_inj)
qed

lemma ack_todo_ok:
  assumes "core_inv s" and "bit_seqs ack_seq todo \<subseteq> wnd_set (outwnd s)" and "ack_todo ack_seq todo n s = (n', s')"
  shows "keeps s s' \<and> wnd_set (outwnd s') = wnd_set (outwnd s) - bit_seqs ack_seq todo
    \<and> head (outwnd s') = head (outwnd s) \<and> frame s s' \<and> next_timeout_seqno s' = next_timeout_seqno s
    \<and> n \<le> n' \<and> (n' = n \<longleftrightarrow> todo = 0) \<and> (todo = 0 \<longrightarrow> s' = s)"
  using assms
proof (induction "unat todo" arbitrary: todo n s rule: less_induct)
  case (less todo n s)
  show ?case
  proof (cases "todo = 0")
    case True
    then have "n' = n" "s' = s"
      using less(4) by (simp_all add: ack_todo.simps [of ack_seq 0])
    moreover have "bit_seqs ack_seq 0 = {}"
      by (simp add: bit_seqs_def)
    ultimately show ?thesis
      using True less(2) by (simp add: keeps_refl frame_def)
  next
    case False
    then obtain i where i: "bit todo i" "i < 64" "ffs64 todo = int i"
      by (rule ffs64_ex)
    define t where "t = seq_at ack_seq i"
    let ?todo = "todo AND NOT (push_bit i 1)"
    have cur: "ack_seq - 63 + of_nat i = t"
      using seq_of_bit [OF i(2), of ack_seq] by (simp only: t_def seq_at_def)
    have "\<forall>j < 64. bit ?todo j \<longleftrightarrow> bit todo j \<and> j \<noteq> i"
      using i(2) by (auto simp: word_bits simp del: push_bit_of_1)
    note seqs = bit_seqs_remove [OF i(1,2) this, of ack_seq, folded t_def]
    have t: "t \<in> wnd_set (outwnd s)"
      using less(3) seqs(1) by blast
    note A = do_ack_ok [OF less(2) t]
    have rest: "ack_todo ack_seq ?todo (n + 1) (do_ack_seqno t s) = (n', s')"
      using less(4) False mem_in_window [OF t] i(3)
      by (simp add: ack_todo.simps [of ack_seq todo] cur Let_def del: push_bit_of_1)
    have sub: "bit_seqs ack_seq ?todo \<subseteq> wnd_set (outwnd (do_ack_seqno t s))"
      using less(3) seqs A by auto
    have "core_inv (do_ack_seqno t s)"
      using A by (simp add: keeps_def)
    note B = less(1) [OF clear_ffs_less [OF False, unfolded i(3) nat_int] this sub rest]
    have "keeps s s'" "frame s s'"
      using A B keeps_trans [of s "do_ack_seqno t s" s'] frame_trans [of s "do_ack_seqno t s" s'] by simp_all
    moreover have "wnd_set (outwnd s') = wnd_set (outwnd s) - bit_seqs ack_seq todo"
      using A B seqs(1) by auto
    ultimately show ?thesis
      using A B False by simp
  qed
qed

lemma bit_seqs_mask:
  assumes "wnd_inv w"
  shows "bit_seqs a (v AND wnd_get_mask w a) = bit_seqs a v \<inter> wnd_set w"
  using wnd_get_mask_correct [OF assms] by (auto simp: bit_seqs_def seq_at_def bit_and_iff)

text \<open>
  The effect of an acknowledgement: the acknowledged outstanding packets leave the window,
  nothing else does.
\<close>

definition ack_effect :: "u64 \<Rightarrow> u64 \<Rightarrow> proto \<Rightarrow> proto \<Rightarrow> bool" where
  "ack_effect a v s s' \<longleftrightarrow> head (outwnd s') = head (outwnd s)
     \<and> wnd_set (outwnd s') = wnd_set (outwnd s) - (if wnd_seq_before (outwnd s) a then {} else bit_seqs a v)"

lemma keeps_stat: "keeps s (stat_inc u s') = keeps s s'"
  by (simp add: keeps_def core_inv_def faults_def ledger_eq)

lemma keeps_stat_left: "keeps (stat_inc u s) s' = keeps s s'"
  by (simp add: keeps_def core_inv_def faults_def ledger_eq)

lemma frame_stat: "frame s (stat_inc u s') = frame s s'" "frame (stat_inc u s) s' = frame s s'"
  by (simp_all add: frame_def)

lemma timer_ok_stat: "timer_ok n (stat_inc u s) = timer_ok n s"
  by (simp add: timer_ok_def)

lemma core_inv_stat: "core_inv (stat_inc u s) = core_inv s"
  by (simp add: core_inv_def)

lemmas through_stat [simp] = keeps_stat keeps_stat_left frame_stat timer_ok_stat core_inv_stat

lemma retrans_frame:
  assumes "core_inv s" and "timer_ok 193 s"
  shows "frame s (recompute_and_reset_retrans_timer s)"
  using retrans_ok [OF assms] by (auto simp: frame_def)

lemma ack_payload_ok:
  assumes inv: "core_inv s" and tm: "timer_ok 192 s"
  shows "keeps s (ack_payload_handler a v s) \<and> timer_ok 192 (ack_payload_handler a v s)
    \<and> frame s (ack_payload_handler a v s) \<and> ack_effect a v s (ack_payload_handler a v s)"
proof (cases "wnd_seq_before (outwnd s) a")
  case True
  then show ?thesis
    using assms by (simp add: ack_payload_handler_def ack_effect_def Let_def keeps_refl frame_def)
next
  case False
  let ?s = "stat_inc st_ack_payloads_update s" and ?m = "v AND wnd_get_mask (outwnd s) a"
  obtain n s1 where r: "ack_todo a ?m 0 ?s = (n, s1)"
    by (metis surj_pair)
  have m: "bit_seqs a ?m = bit_seqs a v \<inter> wnd_set (outwnd s)"
    by (rule bit_seqs_mask [OF core_invD(1) [OF inv]])
  have A: "keeps s s1 \<and> wnd_set (outwnd s1) = wnd_set (outwnd s) - bit_seqs a v
      \<and> head (outwnd s1) = head (outwnd s) \<and> frame s s1 \<and> next_timeout_seqno s1 = next_timeout_seqno s"
    using ack_todo_ok [OF _ _ r] inv m by auto
  then have c1: "core_inv s1" and t1: "timer_ok 192 s1" and e1: "ack_effect a v s s1"
    using tm False by (auto simp: keeps_def timer_ok_def ack_effect_def)
  show ?thesis
  proof (cases "0 < n")
    case True
    have t1': "timer_ok 193 s1"
      using t1 by (simp add: timer_ok_def)
    note R = retrans_keeps [OF c1 t1'] retrans_frame [OF c1 t1']
    show ?thesis
      using True False r A R e1 keeps_trans [of s s1] frame_trans [of s s1]
      by (simp add: ack_payload_handler_def Let_def ack_effect_def)
  next
    case False2: False
    show ?thesis
      using False False2 r A t1 e1 by (simp add: ack_payload_handler_def Let_def)
  qed
qed

subsection \<open>Timeouts\<close>

lemma do_neg_ack_eq:
  assumes "core_inv s" and "t \<in> wnd_set (outwnd s)"
  shows "\<exists>pd. outwnd_peek s t = Some pd \<and> pd_seqno pd = t
    \<and> do_neg_ack_seqno t s = (if has_handle_neg_ack (ops s) then emit (Handle_neg_ack pd) s else s)"
  using peek_mem [OF assms] by (auto simp: do_neg_ack_seqno_def call_with_pd_def)

lemma do_neg_ack_ok:
  assumes inv: "core_inv s" and t: "t \<in> wnd_set (outwnd s)"
  shows "keeps s (do_neg_ack_seqno t s)" "outwnd (do_neg_ack_seqno t s) = outwnd s"
    "frame s (do_neg_ack_seqno t s)" "unacked_pkts (do_neg_ack_seqno t s) = unacked_pkts s"
    "next_timeout_seqno (do_neg_ack_seqno t s) = next_timeout_seqno s"
proof -
  obtain pd where d: "do_neg_ack_seqno t s = (if has_handle_neg_ack (ops s) then emit (Handle_neg_ack pd) s else s)"
    using do_neg_ack_eq [OF assms] by blast
  let ?es = "if has_handle_neg_ack (ops s) then [Handle_neg_ack pd] else []"
  show "keeps s (do_neg_ack_seqno t s)"
    by (rule keeps_quiet [of _ _ ?es, OF inv]) (auto simp: d)
  show "outwnd (do_neg_ack_seqno t s) = outwnd s" "frame s (do_neg_ack_seqno t s)"
    "unacked_pkts (do_neg_ack_seqno t s) = unacked_pkts s"
    "next_timeout_seqno (do_neg_ack_seqno t s) = next_timeout_seqno s"
    by (simp_all add: d frame_def)
qed

text \<open>Order of the members of a window, by age.\<close>

lemma mem_after_iff:
  assumes "u \<in> wnd_set w" and "t \<in> wnd_set w"
  shows "time_after_eq64 u t \<longleftrightarrow> unat (head w - u) \<le> unat (head w - t)"
    and "time_after_eq64 u (t + 1) \<longleftrightarrow> unat (head w - u) < unat (head w - t)"
proof -
  have t: "unat (head w + 1 - t) \<le> 193" "unat (head w - t) < 192"
    using mem_timer [OF assms(2)] wnd_set_age [OF assms(2)] by simp_all
  then have "t \<noteq> head w + 1"
    by (auto simp: unat_u64_max)
  then show "time_after_eq64 u t \<longleftrightarrow> unat (head w - u) \<le> unat (head w - t)"
    using after_eq_age [OF wnd_set_age [OF assms(1)] t(1)] by simp
  have next_ok: "unat (head w + 1 - (t + 1)) \<le> 193"
    using t(2) by simp
  have "head w - (t + 1) = (head w - t) - 1"
    by simp
  then have "head w \<noteq> t \<Longrightarrow> unat (head w - (t + 1)) = unat (head w - t) - 1"
    using unat_minus_one [of "head w - t"] by (simp only:) simp
  moreover have "head w \<noteq> t \<Longrightarrow> 0 < unat (head w - t)"
    by (auto intro!: gr0I simp: unat_eq_zero)
  ultimately show "time_after_eq64 u (t + 1) \<longleftrightarrow> unat (head w - u) < unat (head w - t)"
    using after_eq_age [OF wnd_set_age [OF assms(1)] next_ok] by (cases "head w = t") auto
qed

lemma no_mem_after_head: "u \<in> wnd_set w \<Longrightarrow> \<not> time_after_eq64 u (head w + 1)"
  using after_eq_age [OF wnd_set_age, of u w "head w + 1"] by simp

definition pd_at :: "proto \<Rightarrow> u64 \<Rightarrow> fpproto_pktdesc" where
  "pd_at s t = the (outwnd_peek s t)"

definition tmo :: "proto \<Rightarrow> u64 \<Rightarrow> u64" where
  "tmo s t = pd_sent_timestamp (pd_at s t) + ucast (send_timeout s)"

definition nack_events :: "proto \<Rightarrow> u64 \<Rightarrow> out_event list" where
  "nack_events s t = (if has_handle_neg_ack (ops s) then [Handle_neg_ack (pd_at s t)] else [])"

definition from_seq :: "proto \<Rightarrow> u64 \<Rightarrow> u64 set" where
  "from_seq s q = {u \<in> wnd_set (outwnd s). time_after_eq64 u q}"

text \<open>
  What a run of the timeout handler did: the packets \<open>ts\<close> are the outstanding ones from \<open>q\<close> up to
  the new \<open>next_timeout_seqno\<close>, all expired; the timer is set for the first one that is not.
\<close>

definition timeout_effect :: "u64 \<Rightarrow> proto \<Rightarrow> u64 \<Rightarrow> u64 \<Rightarrow> u64 list \<Rightarrow> out_event list \<Rightarrow> bool" where
  "timeout_effect now s q n ts es \<longleftrightarrow>
     sorted_wrt (\<lambda>a b. time_after_eq64 b a) ts \<and> distinct ts \<and> set ts = from_seq s q - from_seq s n
     \<and> from_seq s n \<subseteq> from_seq s q
     \<and> (\<forall>u \<in> set ts. \<not> time_after64 (tmo s u) now)
     \<and> ((from_seq s n = {} \<and> es = concat (map (nack_events s) ts))
        \<or> (n \<in> from_seq s n \<and> time_after64 (tmo s n) now
           \<and> es = concat (map (nack_events s) ts) @ [Set_timer (tmo s n)]))"

lemma nack_quiet: "\<forall>e \<in> set (nack_events s t). \<not> is_fault e \<and> freed_by e = {#}"
  by (simp add: nack_events_def)

lemma do_neg_ack_at:
  assumes "core_inv s" and "t \<in> wnd_set (outwnd s)"
  shows "do_neg_ack_seqno t s = s\<lparr>trace := trace s @ nack_events s t\<rparr>"
  using do_neg_ack_eq [OF assms] by (auto simp: nack_events_def pd_at_def emit_def)

lemma nack_events_stat [simp]: "nack_events (stat_inc u s) = nack_events s"
  by (simp add: fun_eq_iff nack_events_def pd_at_def outwnd_peek_def)

lemma after_eq_refl [simp]: "time_after_eq64 t t"
  by (simp add: time_after_eq64_iff)

lemma from_seq_same:
  assumes "\<forall>v \<in> from_seq s q. time_after_eq64 v t" and "\<forall>v \<in> from_seq s t. time_after_eq64 v q"
  shows "from_seq s q = from_seq s t"
  using assms unfolding from_seq_def by blast

lemma from_seq_step:
  assumes "t \<in> from_seq s q" and "\<forall>v \<in> from_seq s q. time_after_eq64 v t" 
    and "\<forall>v \<in> from_seq s t. time_after_eq64 v q"
  shows "from_seq s q = insert t (from_seq s (t + 1))" and "t \<notin> from_seq s (t + 1)"
    and "v \<in> from_seq s (t + 1) \<Longrightarrow> time_after_eq64 v t"
proof -
  have t: "t \<in> wnd_set (outwnd s)"
    using assms(1) by (simp add: from_seq_def)
  have q: "from_seq s q = from_seq s t"
    by (rule from_seq_same [OF assms(2,3)])
  define age where "age v = unat (head (outwnd s) - v)" for v
  have inj: "v = t" if "age v = age t" for v
    using that by (simp add: age_def word_unat_eq_iff [symmetric])
  have "from_seq s t = {v \<in> wnd_set (outwnd s). age v \<le> age t}"
    "from_seq s (t + 1) = {v \<in> wnd_set (outwnd s). age v < age t}"
    using mem_after_iff [OF _ t] by (auto simp: from_seq_def age_def)
  then show "from_seq s q = insert t (from_seq s (t + 1))" "t \<notin> from_seq s (t + 1)"
    "v \<in> from_seq s (t + 1) \<Longrightarrow> time_after_eq64 v t"
    using t inj mem_after_iff(1) [OF _ t, of v] unfolding q age_def [symmetric]
    by (auto simp: le_less)
qed

lemma timeout_effect_Cons:
  assumes step: "from_seq s q = insert t (from_seq s (t + 1))" "t \<notin> from_seq s (t + 1)"
      "\<forall>v \<in> from_seq s (t + 1). time_after_eq64 v t"
    and exp: "\<not> time_after64 (tmo s t) now" and rest: "timeout_effect now s (t + 1) n ts es"
  shows "timeout_effect now s q n (t # ts) (nack_events s t @ es)"
proof -
  have "t \<notin> from_seq s n"
    using rest step(2) by (auto simp: timeout_effect_def)
  then show ?thesis
    using assms unfolding timeout_effect_def by auto
qed

declare timeout_loop.simps [simp del]

lemma timeout_loop_ok:
  assumes "core_inv s" and "unat (head (outwnd s) + 1 - q) \<le> 193" and "card (from_seq s q) < fuel"
  shows "\<exists>n st ts es. timeout_loop fuel now q s = s\<lparr>next_timeout_seqno := n, stat := st, trace := trace s @ es\<rparr>
    \<and> unat (head (outwnd s) + 1 - n) \<le> 192 \<and> timeout_effect now s q n ts es"
  using assms
proof (induction fuel arbitrary: q s)
  case (Suc fuel)
  note inv = Suc.prems(1)
  have law: "case wnd_at_or_after (outwnd s) q of
      None \<Rightarrow> \<forall>u \<in> wnd_set (outwnd s). \<not> time_after_eq64 u q
    | Some u \<Rightarrow> u \<in> wnd_set (outwnd s) \<and> time_after_eq64 u q
        \<and> (\<forall>v \<in> wnd_set (outwnd s). time_after_eq64 v q \<longrightarrow> time_after_eq64 v u)"
    using Suc.prems(2) by (rule fpw.after_law [OF core_invD(1) [OF inv]])
  show ?case
  proof (cases "wnd_at_or_after (outwnd s) q")
    case None
    then have "timeout_effect now s q (head (outwnd s) + 1) [] []"
      using law no_mem_after_head by (auto simp: timeout_effect_def from_seq_def)
    then show ?thesis
      using None by (intro exI [of _ "head (outwnd s) + 1"] exI [of _ "stat s"] exI [of _ "[]"])
        (simp add: wnd_head_def timeout_loop.simps)
  next
    case (Some t)
    then have t: "t \<in> wnd_set (outwnd s)" "t \<in> from_seq s q" "\<forall>v \<in> from_seq s q. time_after_eq64 v t"
      using law by (auto simp: from_seq_def)
    have below: "\<forall>v \<in> from_seq s t. time_after_eq64 v q"
    proof
      fix v assume "v \<in> from_seq s t"
      then have v: "v \<in> wnd_set (outwnd s)" "unat (head (outwnd s) - v) \<le> unat (head (outwnd s) - t)"
        using mem_after_iff(1) [OF _ t(1)] by (auto simp: from_seq_def)
      then show "time_after_eq64 v q"
        using t(2) after_eq_age [OF wnd_set_age [OF t(1)] Suc.prems(2)] after_eq_age [OF wnd_set_age [OF v(1)] Suc.prems(2)]
        by (auto simp: from_seq_def)
    qed
    obtain pd where pd: "outwnd_peek s t = Some pd"
      using peek_mem [OF inv t(1)] by blast
    then have tm: "pd_sent_timestamp pd + ucast (send_timeout s) = tmo s t"
      by (simp add: tmo_def pd_at_def)
    show ?thesis
    proof (cases "time_after64 (tmo s t) now")
      case True
      then have eq: "timeout_loop (Suc fuel) now q s = emit (Set_timer (tmo s t)) (s\<lparr>next_timeout_seqno := t\<rparr>)"
        using Some pd tm by (simp add: Let_def timeout_loop.simps)
      have "timeout_effect now s q t [] [Set_timer (tmo s t)]"
        using True t(2) from_seq_same [OF t(3) below] by (simp add: timeout_effect_def)
      then show ?thesis
        using mem_timer [OF t(1)]
        by (intro exI [of _ t] exI [of _ "stat s"] exI [of _ "[]"] exI [of _ "[Set_timer (tmo s t)]"])
          (simp add: eq emit_def)
    next
      case False
      define s1 where "s1 = s\<lparr>stat := st_timeout_pkts_update (\<lambda>n. n + 1) (stat s), trace := trace s @ nack_events s t\<rparr>"
      have "do_neg_ack_seqno t (stat_inc st_timeout_pkts_update s) = s1"
        using inv t(1) by (simp add: do_neg_ack_at) (simp add: s1_def stat_inc_def)
      then have eq: "timeout_loop (Suc fuel) now q s = timeout_loop fuel now (t + 1) s1"
        using Some pd tm False by (simp add: Let_def timeout_loop.simps)
      have s1: "core_inv s1" "outwnd s1 = outwnd s" "from_seq s1 = from_seq s" "tmo s1 = tmo s" "nack_events s1 = nack_events s"
        using inv by (auto simp: s1_def core_inv_def fun_eq_iff from_seq_def tmo_def pd_at_def outwnd_peek_def nack_events_def)
      note step = from_seq_step [OF t(2,3) below]
      have "card (from_seq s1 (t + 1)) < fuel"
        using Suc.prems(3) step(1,2) by (simp add: s1(3) from_seq_def)
      moreover have "unat (head (outwnd s1) + 1 - (t + 1)) \<le> 193"
        using wnd_set_age [OF t(1)] by (simp add: s1(2))
      ultimately obtain n st ts es where IH: "timeout_loop fuel now (t + 1) s1 = s1\<lparr>next_timeout_seqno := n, stat := st, trace := trace s1 @ es\<rparr>"
          "unat (head (outwnd s) + 1 - n) \<le> 192" "timeout_effect now s (t + 1) n ts es"
        using Suc.IH [OF s1(1), of "t + 1"] unfolding timeout_effect_def s1(2-5) by blast
      then have "timeout_effect now s q n (t # ts) (nack_events s t @ es)"
        using timeout_effect_Cons [OF step(1,2) _ False] step(3) by blast
      then show ?thesis
        using IH(2) by (intro exI [of _ n] exI [of _ st] exI [of _ "t # ts"] exI [of _ "nack_events s t @ es"])
          (simp add: eq IH(1), simp add: s1_def)
    qed
  qed
qed simp

lemma card_from_seq: "card (from_seq s q) < FASTPASS_WND_LEN + 1"
proof -
  have "card (from_seq s q) \<le> card (wnd_set (outwnd s))"
    by (rule card_mono) (auto simp: from_seq_def)
  then show ?thesis
    using card_wnd_set_le [of "outwnd s"] by simp
qed

lemma from_seq_stat [simp]: "from_seq (stat_inc u s) = from_seq s" "tmo (stat_inc u s) = tmo s"
  by (auto simp: fun_eq_iff from_seq_def tmo_def pd_at_def outwnd_peek_def)

lemma timeout_effect_stat [simp]: "timeout_effect now (stat_inc u s) = timeout_effect now s"
  by (simp add: fun_eq_iff timeout_effect_def)

lemma timeout_quiet: "timeout_effect now s q n ts es \<Longrightarrow> \<forall>e \<in> set es. \<not> is_fault e \<and> freed_by e = {#}"
  using nack_quiet by (fastforce simp: timeout_effect_def)

lemma handle_timeout_ok:
  assumes inv: "core_inv s" and tm: "timer_ok 192 s"
  shows "\<exists>n st ts es. fpproto_handle_timeout now s = s\<lparr>next_timeout_seqno := n, stat := st, trace := trace s @ es\<rparr>
    \<and> unat (head (outwnd s) + 1 - n) \<le> 192 \<and> timeout_effect now s (next_timeout_seqno s) n ts es"
proof -
  let ?s = "stat_inc st_timeout_handler_runs_update s"
  have "unat (head (outwnd ?s) + 1 - next_timeout_seqno s) \<le> 193"
    using tm by (simp add: timer_ok_def)
  then obtain n st ts es where
      "timeout_loop (FASTPASS_WND_LEN + 1) now (next_timeout_seqno s) ?s = ?s\<lparr>next_timeout_seqno := n, stat := st, trace := trace ?s @ es\<rparr>"
      "unat (head (outwnd ?s) + 1 - n) \<le> 192" "timeout_effect now ?s (next_timeout_seqno s) n ts es"
    using timeout_loop_ok [OF _ _ card_from_seq, of ?s "next_timeout_seqno s" now] inv by auto
  then show ?thesis
    unfolding timeout_effect_stat
    by (intro exI [of _ n] exI [of _ st] exI [of _ ts] exI [of _ es])
      (simp add: fpproto_handle_timeout_def Let_def, simp add: stat_inc_def)
qed

lemma handle_timeout_keeps:
  assumes "conn_inv s"
  shows "keeps s (fpproto_handle_timeout now s)" and "conn_inv (fpproto_handle_timeout now s)"
proof -
  have inv: "core_inv s" and tm: "timer_ok 192 s" and b: "bit (inwnd s) 63"
    using assms by (simp_all add: conn_inv_def)
  obtain n st ts es where h: "fpproto_handle_timeout now s = s\<lparr>next_timeout_seqno := n, stat := st, trace := trace s @ es\<rparr>"
      "unat (head (outwnd s) + 1 - n) \<le> 192" "timeout_effect now s (next_timeout_seqno s) n ts es"
    using handle_timeout_ok [OF inv tm] by blast
  show k: "keeps s (fpproto_handle_timeout now s)"
    by (rule keeps_quiet [OF inv _ _ _ timeout_quiet [OF h(3)]]) (use h(1) in simp_all)
  show "conn_inv (fpproto_handle_timeout now s)"
    using keepsD [OF k] h(1,2) b by (simp add: conn_inv_def timer_ok_def)
qed

subsection \<open>Freeing everything, and resets\<close>

declare clear_next_unacked.simps [simp del]

text \<open>The descriptors that the loop frees, youngest first.\<close>

lemma clear_next_ok:
  assumes "core_inv s" and "unat (head (outwnd s) - q) < 192"
    and "\<forall>u \<in> wnd_set (outwnd s). unat (head (outwnd s) - q) \<le> unat (head (outwnd s) - u)"
    and "card (wnd_set (outwnd s)) < fuel"
  shows "keeps s (clear_next_unacked fuel q s) \<and> wnd_set (outwnd (clear_next_unacked fuel q s)) = {}
    \<and> frame s (clear_next_unacked fuel q s)
    \<and> (\<exists>pds. trace (clear_next_unacked fuel q s) = trace s @ map (\<lambda>pd. Pktdesc_free (Some pd)) pds
        \<and> distinct (map pd_seqno pds) \<and> set (map pd_seqno pds) = wnd_set (outwnd s))"
  using assms
proof (induction fuel arbitrary: q s)
  case (Suc fuel)
  note inv = Suc.prems(1)
  consider (empty) "wnd_set (outwnd s) = {}" "wnd_at_or_before (outwnd s) q = (- 1, False)"
    | (pop) u gap where "u \<in> wnd_set (outwnd s)" "gap \<ge> 0" "wnd_at_or_before (outwnd s) q = (gap, False)"
        "q - of_int gap = u" "\<forall>v \<in> wnd_set (outwnd s). unat (head (outwnd s) - u) \<le> unat (head (outwnd s) - v)"
    using fpw.drain_step [OF core_invD(1) [OF inv] Suc.prems(2,3)] by blast
  then show ?case
  proof cases
    case empty
    then show ?thesis
      using inv by (simp add: clear_next_unacked.simps keeps_refl frame_def)
  next
    case pop
    obtain p s1 where P: "outwnd_pop u s = (p, s1)"
      by (metis surj_pair)
    obtain pd w' where pd: "p = Some pd" "pd_seqno pd = u" "s1 = s\<lparr>outwnd := w', unacked_pkts := (unacked_pkts s)[slot u := None]\<rparr>"
      using outwnd_pop_ok [OF inv pop(1)] P by auto
    let ?s = "emit (Pktdesc_free p) s1"
    have K: "keeps s ?s \<and> wnd_set (outwnd ?s) = wnd_set (outwnd s) - {u} \<and> head (outwnd ?s) = head (outwnd s)"
      by (rule keeps_popped [OF inv pop(1) P, of _ "[]"]) (simp_all add: pd)
    have eq: "clear_next_unacked (Suc fuel) q s = clear_next_unacked fuel u ?s"
      using pop P by (simp add: clear_next_unacked.simps)
    have "card (wnd_set (outwnd s) - {u}) < card (wnd_set (outwnd s))"
      using pop(1) by (intro card_Diff1_less) auto
    then have "card (wnd_set (outwnd s) - {u}) < fuel"
      using Suc.prems(4) by simp
    then have IH: "keeps ?s (clear_next_unacked fuel u ?s) \<and> wnd_set (outwnd (clear_next_unacked fuel u ?s)) = {}
      \<and> frame ?s (clear_next_unacked fuel u ?s)
      \<and> (\<exists>pds. trace (clear_next_unacked fuel u ?s) = trace ?s @ map (\<lambda>pd. Pktdesc_free (Some pd)) pds
          \<and> distinct (map pd_seqno pds) \<and> set (map pd_seqno pds) = wnd_set (outwnd s) - {u})"
      using Suc.IH [of ?s u] K keepsD [of s ?s] pop(5) wnd_set_age [OF pop(1)] by auto
    then obtain pds where pds: "trace (clear_next_unacked fuel u ?s) = trace ?s @ map (\<lambda>pd. Pktdesc_free (Some pd)) pds"
        "distinct (map pd_seqno pds)" "set (map pd_seqno pds) = wnd_set (outwnd s) - {u}"
      by blast
    have "frame s ?s"
      by (simp add: frame_def pd)
    then have "keeps s (clear_next_unacked fuel u ?s)" "frame s (clear_next_unacked fuel u ?s)"
      using IH K keeps_trans [of s ?s] frame_trans [of s ?s] by simp_all
    moreover have "trace (clear_next_unacked fuel u ?s) = trace s @ map (\<lambda>pd. Pktdesc_free (Some pd)) (pd # pds)
        \<and> distinct (map pd_seqno (pd # pds)) \<and> set (map pd_seqno (pd # pds)) = wnd_set (outwnd s)"
      using pds pd pop(1) by (auto simp del: set_map)
    ultimately show ?thesis
      unfolding eq using IH by blast
  qed
qed simp

end
