(* ===== verification/FP_Proto_Ops.thy ===== *)
theory FP_Proto_Ops
  imports FP_Proto_Inv
begin

unbundle bit_operations_syntax

text \<open>
  Correctness of the operations of the protocol that build on acknowledgements and timeouts:
  resets, the at-most-once window of received packets, sending and the reception of a packet.
\<close>

subsection \<open>Resets\<close>

lemma pkts_ok_empty:
  assumes "pkts_ok w us" and "wnd_set w = {}" and "wnd_set w' = {}"
  shows "pkts_ok w' us"
  using assms by (simp add: pkts_ok_def)

lemma free_unacked_ok:
  assumes "core_inv s"
  shows "keeps s (free_unacked s)" "wnd_set (outwnd (free_unacked s)) = {}" "frame s (free_unacked s)"
    "\<exists>pds. trace (free_unacked s) = trace s @ map (\<lambda>pd. Pktdesc_free (Some pd)) pds
      \<and> distinct (map pd_seqno pds) \<and> set (map pd_seqno pds) = wnd_set (outwnd s)"
proof -
  have "card (wnd_set (outwnd s)) < FASTPASS_WND_LEN + 1"
    using card_wnd_set_le [of "outwnd s"] by simp
  then have "keeps s (free_unacked s) \<and> wnd_set (outwnd (free_unacked s)) = {} \<and> frame s (free_unacked s)
    \<and> (\<exists>pds. trace (free_unacked s) = trace s @ map (\<lambda>pd. Pktdesc_free (Some pd)) pds
      \<and> distinct (map pd_seqno pds) \<and> set (map pd_seqno pds) = wnd_set (outwnd s))"
    unfolding free_unacked_def wnd_head_def by (intro clear_next_ok [OF assms]) simp_all
  then show "keeps s (free_unacked s)" "wnd_set (outwnd (free_unacked s)) = {}" "frame s (free_unacked s)"
    "\<exists>pds. trace (free_unacked s) = trace s @ map (\<lambda>pd. Pktdesc_free (Some pd)) pds
      \<and> distinct (map pd_seqno pds) \<and> set (map pd_seqno pds) = wnd_set (outwnd s)"
    by auto
qed

text \<open>The state right after a reset with timestamp \<open>tstamp\<close>.\<close>

definition fresh :: "bool \<Rightarrow> u64 \<Rightarrow> proto \<Rightarrow> bool" where
  "fresh ep tstamp s \<longleftrightarrow> last_reset_time s = tstamp \<and> wnd_set (outwnd s) = {}
     \<and> head (outwnd s) = base_seqno_from_timestamp tstamp + FASTPASS_EGRESS_SEQNO_OFFSET ep - 1
     \<and> in_max_seqno s = base_seqno_from_timestamp tstamp + FASTPASS_INGRESS_SEQNO_OFFSET ep - 1
     \<and> inwnd s = - 1 \<and> consecutive_bad_pkts s = 0 \<and> next_timeout_seqno s = head (outwnd s) + 1"

lemma do_proto_reset_ok:
  assumes "core_inv s"
  shows "keeps s (do_proto_reset ep tstamp sync s)" and "conn_inv (do_proto_reset ep tstamp sync s)"
    and "fresh ep tstamp (do_proto_reset ep tstamp sync s)" and "in_sync (do_proto_reset ep tstamp sync s) = sync"
    and "ops (do_proto_reset ep tstamp sync s) = ops s" and "rst_win_ns (do_proto_reset ep tstamp sync s) = rst_win_ns s"
    and "trace (do_proto_reset ep tstamp sync s) = trace (free_unacked s)"
    and "send_timeout (do_proto_reset ep tstamp sync s) = send_timeout s"
proof -
  let ?f = "free_unacked s" and ?r = "do_proto_reset ep tstamp sync s"
  let ?w = "wnd_reset (outwnd ?f) (base_seqno_from_timestamp tstamp + FASTPASS_EGRESS_SEQNO_OFFSET ep - 1)"
  note F = free_unacked_ok [OF assms]
  have sel: "outwnd ?r = ?w" "unacked_pkts ?r = unacked_pkts ?f" "trace ?r = trace ?f"
    by (simp_all add: do_proto_reset_def Let_def)
  have "wnd_inv ?w" "wnd_set ?w = {}"
    by (rule wnd_reset_inv, rule wnd_reset_set)
  moreover have "pkts_ok ?w (unacked_pkts ?f)"
    by (rule pkts_ok_empty [OF core_invD(2) [OF keepsD [OF F(1)]] F(2) wnd_reset_set])
  ultimately have core: "core_inv ?r"
    by (simp add: core_inv_def sel)
  then show "keeps s ?r"
    using F(1) by (simp add: keeps_def faults_def ledger_eq sel)
  show fr: "fresh ep tstamp ?r"
    by (simp add: fresh_def do_proto_reset_def Let_def wnd_head_def wnd_reset_set)
  then show "conn_inv ?r"
    using core by (simp add: conn_inv_def timer_ok_def fresh_def)
  show "in_sync ?r = sync" "ops ?r = ops s" "rst_win_ns ?r = rst_win_ns s" "trace ?r = trace ?f"
    "send_timeout ?r = send_timeout s"
    using F(3) by (simp_all add: do_proto_reset_def Let_def frame_def)
qed

lemma quiet_call:
  "keeps s (call_handle_reset s') = keeps s s'" "keeps s (call_trigger_request s') = keeps s s'"
  "conn_inv (call_handle_reset s') = conn_inv s'" "conn_inv (call_trigger_request s') = conn_inv s'"
  "fresh ep t (call_handle_reset s') = fresh ep t s'" "fresh ep t (call_trigger_request s') = fresh ep t s'"
  by (simp_all add: call_handle_reset_def call_trigger_request_def keeps_def conn_inv_def core_inv_def timer_ok_def
      faults_def ledger_eq fresh_def)

lemma conn_inv_stat [simp]: "conn_inv (stat_inc u s) = conn_inv s"
  by (simp add: conn_inv_def)

lemma conn_inv_core: "conn_inv s \<Longrightarrow> core_inv s"
  by (simp add: conn_inv_def)

lemma conn_inv_field [simp]:
  "conn_inv (s\<lparr>in_sync := b\<rparr>) = conn_inv s" "conn_inv (s\<lparr>consecutive_bad_pkts := n\<rparr>) = conn_inv s"
  "conn_inv (s\<lparr>last_reset_time := t\<rparr>) = conn_inv s"
  by (simp_all add: conn_inv_def core_inv_def timer_ok_def)

lemma core_inv_field [simp]:
  "core_inv (s\<lparr>in_sync := b\<rparr>) = core_inv s" "core_inv (s\<lparr>consecutive_bad_pkts := n\<rparr>) = core_inv s"
  by (simp_all add: core_inv_def)

lemma keeps_field [simp]:
  "keeps s (s'\<lparr>in_sync := b\<rparr>) = keeps s s'" "keeps s (s'\<lparr>consecutive_bad_pkts := n\<rparr>) = keeps s s'"
  "keeps (s\<lparr>in_sync := b\<rparr>) s' = keeps s s'" "keeps (s\<lparr>consecutive_bad_pkts := n\<rparr>) s' = keeps s s'"
  by (simp_all add: keeps_def core_inv_def faults_def ledger_eq)

lemma reset_payload_ok:
  assumes inv: "conn_inv s" and r: "reset_payload_handler ep now tstamp s = (d, s')"
  shows "keeps s s'" and "conn_inv s'"
proof -
  have c: "core_inv s"
    using inv by (rule conn_inv_core)
  have R: "keeps s (do_proto_reset ep t b (stat_inc u1 (stat_inc u2 s)))"
    "conn_inv (do_proto_reset ep t b (stat_inc u1 (stat_inc u2 s)))" for t b u1 u2
    using do_proto_reset_ok(1,2) [of "stat_inc u1 (stat_inc u2 s)"] c by simp_all
  show "keeps s s'" "conn_inv s'"
    using r inv c R keeps_refl [OF c]
    by (auto simp: reset_payload_handler_def Let_def quiet_call split: if_splits)
qed

text \<open>
  The decision table of \<^verbatim>\<open>reset_payload_handler\<close>: which timestamp the connection has after a
  RESET payload, and whether the packet is dropped.
\<close>

definition reset_decision :: "bool \<Rightarrow> u64 \<Rightarrow> u64 \<Rightarrow> proto \<Rightarrow> bool \<times> u64 option" where
  "reset_decision ep now tstamp s =
     (if tstamp = last_reset_time s then (False, None)
      else case (tstamp_in_window (last_reset_time s) now (rst_win_ns s), tstamp_in_window tstamp now (rst_win_ns s)) of
        (True, True) \<Rightarrow> if time_before64 tstamp (last_reset_time s) then (True, None) else (False, Some tstamp)
      | (True, False) \<Rightarrow> (True, None)
      | (False, True) \<Rightarrow> (False, Some tstamp)
      | (False, False) \<Rightarrow> (True, Some now))"

lemma fresh_stat [simp]: "fresh ep t (stat_inc u s) = fresh ep t s"
  by (simp add: fresh_def)

lemma call_handle_reset_sel [simp]:
  "in_sync (call_handle_reset s) = in_sync s" "outwnd (call_handle_reset s) = outwnd s"
  "last_reset_time (call_handle_reset s) = last_reset_time s"
  "trace (call_handle_reset s) = trace s @ (if has_handle_reset (ops s) then [Handle_reset] else [])"
  by (simp_all add: call_handle_reset_def)

lemma reset_trace:
  assumes "core_inv s"
  shows "\<exists>pds. trace (call_handle_reset (do_proto_reset ep t b s))
      = trace s @ map (\<lambda>pd. Pktdesc_free (Some pd)) pds @ (if has_handle_reset (ops s) then [Handle_reset] else [])
    \<and> distinct (map pd_seqno pds) \<and> set (map pd_seqno pds) = wnd_set (outwnd s)"
proof -
  obtain pds where "trace (free_unacked s) = trace s @ map (\<lambda>pd. Pktdesc_free (Some pd)) pds"
      "distinct (map pd_seqno pds)" "set (map pd_seqno pds) = wnd_set (outwnd s)"
    using free_unacked_ok(4) [OF assms] by blast
  then show ?thesis
    using do_proto_reset_ok(5,7) [OF assms, of ep t b] by (intro exI [of _ pds]) (simp del: set_map)
qed

lemma reset_decision_ok:
  assumes inv: "core_inv s" and r: "reset_payload_handler ep now tstamp s = (d, s')"
  shows "d = fst (reset_decision ep now tstamp s) \<and>
    (case snd (reset_decision ep now tstamp s) of
       None \<Rightarrow> outwnd s' = outwnd s \<and> last_reset_time s' = last_reset_time s \<and> trace s' = trace s
     | Some t \<Rightarrow> fresh ep t s' \<and> in_sync s' = ep \<and>
         (\<exists>pds. trace s' = trace s @ map (\<lambda>pd. Pktdesc_free (Some pd)) pds
              @ (if has_handle_reset (ops s) then [Handle_reset] else [])
            \<and> distinct (map pd_seqno pds) \<and> set (map pd_seqno pds) = wnd_set (outwnd s)))"
proof -
  have R: "fresh ep t (call_handle_reset (do_proto_reset ep t b (stat_inc u1 (stat_inc u2 s))))
      \<and> in_sync (call_handle_reset (do_proto_reset ep t b (stat_inc u1 (stat_inc u2 s)))) = b
      \<and> (\<exists>pds. trace (call_handle_reset (do_proto_reset ep t b (stat_inc u1 (stat_inc u2 s))))
            = trace s @ map (\<lambda>pd. Pktdesc_free (Some pd)) pds @ (if has_handle_reset (ops s) then [Handle_reset] else [])
          \<and> distinct (map pd_seqno pds) \<and> set (map pd_seqno pds) = wnd_set (outwnd s))" for t b u1 u2
    using do_proto_reset_ok(3,4) [of "stat_inc u1 (stat_inc u2 s)" ep t b] reset_trace [of "stat_inc u1 (stat_inc u2 s)" ep t b] inv
    by (simp add: quiet_call)
  show ?thesis
    using r R by (auto simp: reset_payload_handler_def reset_decision_def Let_def simp del: call_handle_reset_sel
        split: if_splits)
qed

lemma got_bad_ok:
  assumes inv: "conn_inv s"
  shows "keeps s (got_bad_packet ep now s)" and "conn_inv (got_bad_packet ep now s)"
proof -
  have c: "core_inv s"
    using inv by (rule conn_inv_core)
  have "core_inv (stat_inc st_reset_from_bad_pkts_update (s\<lparr>in_sync := False, consecutive_bad_pkts := 0\<rparr>))"
    using c by simp
  note R = do_proto_reset_ok(1,2) [OF this]
  show "keeps s (got_bad_packet ep now s)" "conn_inv (got_bad_packet ep now s)"
    using inv R keeps_refl [OF c] by (simp_all add: got_bad_packet_def Let_def quiet_call)
qed

text \<open>Two ends that reset to the same timestamp agree on the next sequence numbers.\<close>

lemma fresh_agree:
  assumes "fresh True t e" and "fresh False t c"
  shows "head (outwnd e) = in_max_seqno c" and "head (outwnd c) = in_max_seqno e"
  using assms
  by (simp_all add: fresh_def FASTPASS_EGRESS_SEQNO_OFFSET_def FASTPASS_INGRESS_SEQNO_OFFSET_def)

subsection \<open>At most once\<close>

text \<open>
  Sequence numbers are compared as distances, so the theorems fix a base \<open>b\<close> and consider the
  numbers less than \<open>2 ^ 62\<close> above it.
\<close>

definition off :: "u64 \<Rightarrow> u64 \<Rightarrow> nat" where
  "off b x = unat (x - b)"

definition near :: "u64 \<Rightarrow> u64 \<Rightarrow> bool" where
  "near b x \<longleftrightarrow> off b x < 4611686018427387904"

lemma off_sub: "unat (x - y) = (if off b y \<le> off b x then off b x - off b y
    else off b x + 18446744073709551616 - off b y)"
proof -
  have "x - y = (x - b) - (y - b)"
    by simp
  then show ?thesis
    unfolding off_def by (simp only: unat_sub_if') simp
qed

lemma off_inj: "off b x = off b y \<longleftrightarrow> x = y"
  by (simp add: off_def word_unat_eq_iff [symmetric])

lemma near_time:
  assumes "near b x" and "near b y"
  shows "time_after64 x y \<longleftrightarrow> off b y < off b x"
    and "time_after_eq64 x (y + 64) \<longleftrightarrow> off b y + 64 \<le> off b x"
    and "time_before_eq64 x (y - 64) \<longleftrightarrow> off b x + 64 \<le> off b y"
proof -
  note n = assms [unfolded near_def]
  show "time_after64 x y \<longleftrightarrow> off b y < off b x"
    using n unfolding time_after64_iff off_sub [of y x b] by auto
  have "x - (y + 64) = x - of_nat 64 - y" and "y - 64 - x = y - of_nat 64 - x"
    by simp_all
  then show "time_after_eq64 x (y + 64) \<longleftrightarrow> off b y + 64 \<le> off b x"
    and "time_before_eq64 x (y - 64) \<longleftrightarrow> off b x + 64 \<le> off b y"
    using n unfolding time_before_eq64_def time_after_eq64_iff
    by (simp_all only: unat_sub_const_if off_sub [of x y b] off_sub [of y x b]) auto
qed

definition seen_at :: "nat \<Rightarrow> u64 \<Rightarrow> nat set" where
  "seen_at h x = {n. n + 64 \<le> h \<or> (n \<le> h \<and> bit x (63 - (h - n)))}"

definition seen :: "u64 \<Rightarrow> proto \<Rightarrow> nat set" where
  "seen b s = seen_at (off b (in_max_seqno s)) (inwnd s)"

lemma seen_at_jump:
  assumes "h + 64 \<le> t" and "\<And>k. bit x' k \<longleftrightarrow> k = 63"
  shows "seen_at t x' = insert t (seen_at h x) \<union> {m. m + 64 \<le> t}"
proof (rule set_eqI)
  fix n
  have "63 - (t - n) = 63 \<longleftrightarrow> t \<le> n"
    by linarith
  then show "n \<in> seen_at t x' \<longleftrightarrow> n \<in> insert t (seen_at h x) \<union> {m. m + 64 \<le> t}"
    using assms(1) by (auto simp: seen_at_def assms(2))
qed

lemma seen_at_ahead:
  assumes "h < t" and "t < h + 64" and "\<And>k. bit x' k \<longleftrightarrow> bit x (t - h + k) \<or> k = 63"
  shows "seen_at t x' = insert t (seen_at h x) \<union> {m. m + 64 \<le> t}"
proof (rule set_eqI)
  fix n
  show "n \<in> seen_at t x' \<longleftrightarrow> n \<in> insert t (seen_at h x) \<union> {m. m + 64 \<le> t}"
  proof (cases "n + 64 \<le> t \<or> t \<le> n")
    case True
    then show ?thesis
      using assms(1) by (auto simp: seen_at_def assms(3))
  next
    case False
    have "\<not> bit x (t - h + (63 - (t - n)))" if "h < n"
      using that False assms(1,2) bit_word_lt [of x "t - h + (63 - (t - n))"] by linarith
    moreover have "t - h + (63 - (t - n)) = 63 - (h - n)" if "n \<le> h"
      using that False assms(1) by linarith
    ultimately show ?thesis
      using False assms(1) by (cases "n \<le> h") (auto simp: seen_at_def assms(3))
  qed
qed

lemma seen_at_set:
  assumes "t \<le> h" and "h < t + 64" and "\<And>k. bit x' k \<longleftrightarrow> bit x k \<or> k = 63 - (h - t)"
  shows "seen_at h x' = insert t (seen_at h x) \<union> {m. m + 64 \<le> t}"
proof (rule set_eqI)
  fix n
  have "63 - (h - n) = 63 - (h - t) \<longleftrightarrow> n = t" if "n \<le> h" "h < n + 64"
    using that assms(1,2) by linarith
  then show "n \<in> seen_at h x' \<longleftrightarrow> n \<in> insert t (seen_at h x) \<union> {m. m + 64 \<le> t}"
    using assms(1,2) by (cases "n \<le> h \<and> h < n + 64") (auto simp: seen_at_def assms(3))
qed

lemma and_bit_nonzero: "k < 64 \<Longrightarrow> (x :: u64) AND push_bit k 1 \<noteq> 0 \<longleftrightarrow> bit x k"
  by (auto simp: u64_neq_0_iff word_bits simp del: push_bit_of_1)

lemma inwnd_bit_pos:
  assumes "near b t" and "near b h" and "off b t \<le> off b h" and "off b h < off b t + 64"
  shows "unat (63 - (h - t)) = 63 - (off b h - off b t)"
proof -
  have d: "unat (h - t) = off b h - off b t"
    using assms(3) by (simp add: off_sub [of h t b])
  then have "h - t \<le> 63"
    using assms(3,4) by (simp add: word_le_nat_alt)
  then show ?thesis
    by (simp add: unat_sub d)
qed

lemma may_accept_seen:
  assumes "near b t" and "near b (in_max_seqno s)"
  shows "at_most_once_may_accept s t \<longleftrightarrow> off b t \<in> seen b s"
proof -
  let ?h = "in_max_seqno s"
  show ?thesis
  proof (cases "off b t \<le> off b ?h \<and> off b ?h < off b t + 64")
    case True
    let ?k = "63 - (off b ?h - off b t)"
    have "?k < 64"
      by simp
    then show ?thesis
      using True near_time [OF assms] inwnd_bit_pos [OF assms] and_bit_nonzero [of ?k "inwnd s"]
      by (auto simp: at_most_once_may_accept_def seen_def seen_at_def Let_def simp del: push_bit_of_1)
  next
    case False
    then show ?thesis
      using near_time [OF assms] by (auto simp: at_most_once_may_accept_def seen_def seen_at_def Let_def)
  qed
qed

lemma update_inwnd_seen:
  assumes t: "near b t" and h: "near b (in_max_seqno s)" and r: "update_inwnd t s = (d, s')"
  shows "d \<longleftrightarrow> off b t \<in> seen b s" and "seen b s' = insert (off b t) (seen b s) \<union> {m. m + 64 \<le> off b t}"
    and "off b (in_max_seqno s') = max (off b (in_max_seqno s)) (off b t)"
proof -
  let ?h = "in_max_seqno s"
  note T = near_time [OF t h]
  consider (jump) "off b ?h + 64 \<le> off b t" | (ahead) "off b ?h < off b t" "off b t < off b ?h + 64"
    | (old) "off b t + 64 \<le> off b ?h" | (in_wnd) "off b t \<le> off b ?h" "off b ?h < off b t + 64"
    by linarith
  then have "(d \<longleftrightarrow> off b t \<in> seen b s) \<and> seen b s' = insert (off b t) (seen b s) \<union> {m. m + 64 \<le> off b t}
    \<and> off b (in_max_seqno s') = max (off b ?h) (off b t)"
  proof cases
    case jump
    then have "d = False" "in_max_seqno s' = t" "inwnd s' = push_bit 63 1"
      using r T by (auto simp: update_inwnd_def Let_def simp del: push_bit_of_1)
    moreover have "bit (push_bit 63 1 :: u64) k \<longleftrightarrow> k = 63" for k
      by (auto simp: word_bits simp del: push_bit_of_1)
    ultimately show ?thesis
      using jump seen_at_jump [OF jump] by (simp add: seen_def) (simp add: seen_at_def)
  next
    case ahead
    then have "d = False" "in_max_seqno s' = t" "inwnd s' = drop_bit (unat (t - ?h)) (inwnd s) OR push_bit 63 1"
      using r T by (auto simp: update_inwnd_def Let_def simp del: push_bit_of_1)
    moreover have "unat (t - ?h) = off b t - off b ?h"
      using ahead by (simp add: off_sub [of t ?h b])
    moreover have "bit (drop_bit e x OR push_bit 63 1 :: u64) k \<longleftrightarrow> bit x (e + k) \<or> k = 63" for x e k
      by (auto simp: word_bits simp del: push_bit_of_1)
    ultimately show ?thesis
      using ahead seen_at_ahead [OF ahead] by (simp add: seen_def del: push_bit_of_1) (simp add: seen_at_def)
  next
    case old
    then have "d = True" "inwnd s' = inwnd s" "in_max_seqno s' = ?h" "off b t \<in> seen b s"
      using r T by (auto simp: update_inwnd_def Let_def seen_def seen_at_def)
    moreover have "m \<in> seen b s" if "m + 64 \<le> off b t" for m
      using that old by (simp add: seen_def seen_at_def)
    ultimately show ?thesis
      using old by (auto simp: seen_def)
  next
    case in_wnd
    then have p: "unat (63 - (?h - t)) = 63 - (off b ?h - off b t)"
      by (rule inwnd_bit_pos [OF t h])
    let ?k = "63 - (off b ?h - off b t)"
    have u: "update_inwnd t s = (if bit (inwnd s) ?k then (True, stat_inc st_rx_dup_pkt_update s)
        else (False, stat_inc st_rx_out_of_order_update (s\<lparr>inwnd := inwnd s OR push_bit ?k 1\<rparr>)))"
      using in_wnd T by (simp add: update_inwnd_def Let_def p and_bit_nonzero del: push_bit_of_1)
    have orb: "bit (x OR push_bit ?k 1 :: u64) j \<longleftrightarrow> bit x j \<or> j = ?k" for x j
      by (auto simp: word_bits simp del: push_bit_of_1)
    show ?thesis
    proof (cases "bit (inwnd s) ?k")
      case True
      then have "d" "inwnd s' = inwnd s" "in_max_seqno s' = ?h" "off b t \<in> seen b s"
        using r u in_wnd by (auto simp: seen_def seen_at_def)
      moreover have "m \<in> seen b s" if "m + 64 \<le> off b t" for m
        using that in_wnd by (simp add: seen_def seen_at_def)
      ultimately show ?thesis
        using in_wnd by (auto simp: seen_def)
    next
      case False
      then have "\<not> d" "inwnd s' = inwnd s OR push_bit ?k 1" "in_max_seqno s' = ?h" "off b t \<notin> seen b s"
        using r u in_wnd by (auto simp: seen_def seen_at_def simp del: push_bit_of_1)
      then show ?thesis
        using in_wnd seen_at_set [OF in_wnd orb] by (simp add: seen_def del: push_bit_of_1)
    qed
  qed
  then show "d \<longleftrightarrow> off b t \<in> seen b s" "seen b s' = insert (off b t) (seen b s) \<union> {m. m + 64 \<le> off b t}"
    "off b (in_max_seqno s') = max (off b (in_max_seqno s)) (off b t)"
    by auto
qed

lemma update_inwnd_ok:
  assumes "conn_inv s"
  shows "keeps s (snd (update_inwnd t s))" "conn_inv (snd (update_inwnd t s))"
    "outwnd (snd (update_inwnd t s)) = outwnd s" "trace (snd (update_inwnd t s)) = trace s"
proof -
  have b: "bit (inwnd s) 63" "core_inv s"
    using assms by (simp_all add: conn_inv_def)
  have m: "bit (push_bit 63 1 :: u64) 63"
    by (simp add: word_bits del: push_bit_of_1)
  have "bit (inwnd (snd (update_inwnd t s))) 63"
    using b m by (simp add: update_inwnd_def Let_def bit_or_iff del: push_bit_of_1)
  moreover have "unacked_pkts (snd (update_inwnd t s)) = unacked_pkts s"
    "next_timeout_seqno (snd (update_inwnd t s)) = next_timeout_seqno s"
    by (simp_all add: update_inwnd_def Let_def)
  moreover show o: "outwnd (snd (update_inwnd t s)) = outwnd s" "trace (snd (update_inwnd t s)) = trace s"
    by (simp_all add: update_inwnd_def Let_def)
  ultimately show "keeps s (snd (update_inwnd t s))" "conn_inv (snd (update_inwnd t s))"
    using assms b(2) by (simp_all add: keeps_def core_inv_def conn_inv_def timer_ok_def faults_def ledger_eq)
qed

subsection \<open>Sending\<close>

lemma edge_mem: "wnd_is_marked w (wnd_edge w) \<longleftrightarrow> wnd_edge w \<in> wnd_set w" and wnd_edge_eq: "wnd_edge w = head w - 191"
proof -
  show e: "wnd_edge w = head w - 191"
    by (simp add: wnd_edge_def)
  show "wnd_is_marked w (wnd_edge w) \<longleftrightarrow> wnd_edge w \<in> wnd_set w"
    by (simp add: wnd_set_def e)
qed

lemma prepare_ok:
  assumes "conn_inv s"
  shows "keeps s (fpproto_prepare_to_send s) \<and> conn_inv (fpproto_prepare_to_send s)
    \<and> wnd_set (outwnd (fpproto_prepare_to_send s)) = wnd_set (outwnd s) - {wnd_edge (outwnd s)}
    \<and> head (outwnd (fpproto_prepare_to_send s)) = head (outwnd s) \<and> frame s (fpproto_prepare_to_send s)"
proof (cases "wnd_edge (outwnd s) \<in> wnd_set (outwnd s)")
  case False
  then show ?thesis
    using assms keeps_refl [OF conn_inv_core [OF assms]] by (simp add: fpproto_prepare_to_send_def Let_def edge_mem frame_def)
next
  case True
  let ?e = "wnd_edge (outwnd s)"
  define s1 where "s1 = (if time_after_eq64 ?e (next_timeout_seqno s)
     then recompute_and_reset_retrans_timer ((do_neg_ack_seqno ?e (stat_inc st_fall_off_outwnd_update
        (stat_inc st_never_acked_pkts_update s)))\<lparr>next_timeout_seqno := ?e + 1\<rparr>)
     else stat_inc st_never_acked_pkts_update s)"
  have c: "core_inv s" and b: "bit (inwnd s) 63" and tm: "timer_ok 192 s"
    using assms by (simp_all add: conn_inv_def)
  have s1: "keeps s s1" "outwnd s1 = outwnd s" "frame s s1" "timer_ok 192 s1" "inwnd s1 = inwnd s"
  proof -
    define s0 where "s0 = stat_inc st_fall_off_outwnd_update (stat_inc st_never_acked_pkts_update s)"
    define s0' where "s0' = (do_neg_ack_seqno ?e s0)\<lparr>next_timeout_seqno := ?e + 1\<rparr>"
    have s0: "core_inv s0" "?e \<in> wnd_set (outwnd s0)" "keeps s s0" "frame s s0" "outwnd s0 = outwnd s"
      using c True keeps_refl [OF c] by (simp_all add: s0_def frame_def)
    note N = do_neg_ack_ok [OF s0(1,2)]
    have k0: "core_inv s0'" "keeps s s0'" "frame s s0'" "outwnd s0' = outwnd s"
      using keeps_trans [OF s0(3) N(1)] frame_trans [OF s0(4) N(3)] N(2) s0(5)
      by (simp_all add: s0'_def keeps_def core_inv_def faults_def ledger_eq frame_def)
    moreover have "next_timeout_seqno s0' = head (outwnd s) - 190"
      by (simp add: s0'_def wnd_edge_eq)
    then have "timer_ok 193 s0'"
      by (simp add: timer_ok_def k0(4))
    ultimately have "keeps s (recompute_and_reset_retrans_timer s0')" "outwnd (recompute_and_reset_retrans_timer s0') = outwnd s"
      "frame s (recompute_and_reset_retrans_timer s0')" "timer_ok 192 (recompute_and_reset_retrans_timer s0')"
      using retrans_keeps [of s0'] retrans_frame [of s0'] keeps_trans frame_trans by metis+
    then show "keeps s s1" "outwnd s1 = outwnd s" "frame s s1" "timer_ok 192 s1"
      using keeps_refl [OF c] tm by (simp_all add: s1_def s0'_def s0_def frame_def)
    then show "inwnd s1 = inwnd s"
      by (simp add: frame_def)
  qed
  obtain p s2 where P: "outwnd_pop ?e s1 = (p, s2)"
    by (metis surj_pair)
  have e1: "?e \<in> wnd_set (outwnd s1)"
    using True s1(2) by simp
  obtain pd w' where pd: "s2 = s1\<lparr>outwnd := w', unacked_pkts := (unacked_pkts s1)[slot ?e := None]\<rparr>"
    using outwnd_pop_ok [OF keepsD [OF s1(1)] e1] P by auto
  let ?s = "emit (Pktdesc_free p) s2"
  have "keeps s1 ?s \<and> wnd_set (outwnd ?s) = wnd_set (outwnd s1) - {?e} \<and> head (outwnd ?s) = head (outwnd s1)"
    by (rule keeps_popped [OF keepsD [OF s1(1)] e1 P, of _ "[]"]) (simp_all add: pd)
  moreover have "fpproto_prepare_to_send s = ?s"
    using True P by (simp add: fpproto_prepare_to_send_def Let_def edge_mem s1_def)
  moreover have "frame s ?s" "next_timeout_seqno ?s = next_timeout_seqno s1"
    using s1(3) by (simp_all add: pd frame_def)
  ultimately show ?thesis
    using s1 b keeps_trans [OF s1(1), of ?s]
    by (simp add: conn_inv_def keeps_def timer_ok_def frame_def)
qed

lemma commit_ok:
  assumes inv: "conn_inv s" and nowrap: "head (outwnd s) \<noteq> - 1" and free: "wnd_edge (outwnd s) \<notin> wnd_set (outwnd s)"
  shows "conn_inv (fpproto_commit_packet pd now s) \<and> faults (fpproto_commit_packet pd now s) = faults s
    \<and> ledger (fpproto_commit_packet pd now s) = add_mset (commit_fields s now pd) (ledger s)
    \<and> wnd_set (outwnd (fpproto_commit_packet pd now s)) = insert (head (outwnd s) + 1) (wnd_set (outwnd s))
    \<and> head (outwnd (fpproto_commit_packet pd now s)) = head (outwnd s) + 1
    \<and> outwnd_peek (fpproto_commit_packet pd now s) (head (outwnd s) + 1) = Some (commit_fields s now pd)
    \<and> frame s (fpproto_commit_packet pd now s)"
proof -
  have c: "core_inv s" and b: "bit (inwnd s) 63" and tm: "timer_ok 192 s"
    using inv by (simp_all add: conn_inv_def)
  let ?pd = "commit_fields s now pd"
  have seq: "pd_seqno ?pd = head (outwnd s) + 1"
    by (simp add: commit_fields_def wnd_head_def)
  obtain w' us' where A: "outwnd_add (Some ?pd) s = s\<lparr>outwnd := w', unacked_pkts := us'\<rparr>" "wnd_inv w'"
      "wnd_set w' = insert (head (outwnd s) + 1) (wnd_set (outwnd s))" "head w' = head (outwnd s) + 1" "pkts_ok w' us'"
      "held_list us' = add_mset ?pd (held_list (unacked_pkts s))" "us' ! slot (head (outwnd s) + 1) = Some ?pd"
    using outwnd_add_ok [OF c seq nowrap] free seq by (auto simp: wnd_edge_eq)
  define s1 where "s1 = stat_inc st_committed_pkts_update (s\<lparr>outwnd := w', unacked_pkts := us'\<rparr>)"
  have s1: "core_inv s1" "outwnd s1 = w'" "unacked_pkts s1 = us'" "trace s1 = trace s" "frame s s1" "inwnd s1 = inwnd s"
    using A by (simp_all add: s1_def core_inv_def frame_def)
  have "unat (x + 1) \<le> 193" if "unat x \<le> 192" for x :: u64
    using that by (simp add: unat_add_mod)
  then have "unat (head (outwnd s) + 1 - next_timeout_seqno s + 1) \<le> 193"
    using tm unfolding timer_ok_def by blast
  moreover have "head (outwnd s) + 1 - next_timeout_seqno s + 1 = head (outwnd s) + 1 + 1 - next_timeout_seqno s"
    by simp
  ultimately have t1: "timer_ok 193 s1"
    by (simp only: timer_ok_def s1(2) A(4)) (simp add: s1_def)
  note R = retrans_keeps [OF s1(1) t1] retrans_frame [OF s1(1) t1]
  show ?thesis
    using R A s1 b frame_trans [OF s1(5) R(5)]
    by (simp add: fpproto_commit_packet_def s1_def [symmetric] conn_inv_def keeps_def outwnd_peek_def faults_def ledger_eq frame_def)
qed

end
