(* ===== verification/FP_Rx.thy ===== *)
theory FP_Rx
  imports FP_Proto_Ops
begin

unbundle bit_operations_syntax

text \<open>
  Reception: parsing never reads outside the packet, and every packet, well formed or not,
  keeps the invariant of the connection. The runs of the protocol are a step relation; the
  invariant holds in every reachable state.
\<close>

subsection \<open>Parsing stays inside the packet\<close>

lemma rd_Some:
  "i < length pkt \<Longrightarrow> rd8 pkt i = Some (pkt ! i)"
  "i + 1 < length pkt \<Longrightarrow> \<exists>x. rd16 pkt i = Some x"
  "i + 1 < length pkt \<Longrightarrow> \<exists>x. rd16_host pkt i = Some x"
  "i + 3 < length pkt \<Longrightarrow> \<exists>x. rd32 pkt i = Some x"
  by (simp_all add: rd8_def rd16_def rd16_host_def rd32_def)

lemma read_hdr_Some: "8 \<le> length pkt \<Longrightarrow> \<exists>h. read_hdr pkt = Some h"
  by (simp add: read_hdr_def rd16_def rd16_host_def)

lemma those_Some: "\<forall>x \<in> set xs. \<exists>y. f x = Some y \<Longrightarrow> \<exists>ys. those (map f xs) = Some ys"
  by (induction xs) auto

lemma rx_seqnos_Some:
  assumes "payload_type = FASTPASS_PTYPE_RESET \<longrightarrow> 16 \<le> length pkt"
  shows "\<exists>r. rx_seqnos ep now payload_type pkt hdr s = Some r"
  using assms by (auto simp: rx_seqnos_def rd32_def Let_def)

definition ok_step :: "proto \<Rightarrow> proto \<Rightarrow> bool" where
  "ok_step s s' \<longleftrightarrow> keeps s s' \<and> conn_inv s'"

lemma ok_stepI: "conn_inv s' \<Longrightarrow> faults s' = faults s \<Longrightarrow> ledger s' = ledger s \<Longrightarrow> ok_step s s'"
  by (simp add: ok_step_def keeps_def conn_inv_def)

lemma ok_refl: "conn_inv s \<Longrightarrow> ok_step s s"
  by (simp add: ok_step_def keeps_refl conn_inv_core)

lemma ok_trans: "ok_step s s' \<Longrightarrow> ok_step s' s'' \<Longrightarrow> ok_step s s''"
  using keeps_trans by (auto simp: ok_step_def)

lemma ok_inv: "ok_step s s' \<Longrightarrow> conn_inv s'"
  by (simp add: ok_step_def)

lemma ok_stat [simp]: "ok_step s (stat_inc u s') = ok_step s s'" "ok_step (stat_inc u s) s' = ok_step s s'"
  by (simp_all add: ok_step_def)

lemma ok_field [simp]:
  "ok_step s (s'\<lparr>in_sync := b\<rparr>) = ok_step s s'" "ok_step s (s'\<lparr>consecutive_bad_pkts := n\<rparr>) = ok_step s s'"
  "ok_step (s\<lparr>in_sync := b\<rparr>) s' = ok_step s s'"
  by (simp_all add: ok_step_def)

lemma ok_emit: "\<not> is_fault e \<Longrightarrow> freed_by e = {#} \<Longrightarrow> ok_step s (emit e s') = ok_step s s'"
  by (simp add: ok_step_def keeps_def conn_inv_def core_inv_def timer_ok_def faults_def ledger_eq)

lemma ok_call [simp]:
  "ok_step s (call_handle_reset s') = ok_step s s'" "ok_step s (call_trigger_request s') = ok_step s s'"
  by (simp_all add: ok_step_def quiet_call)

lemma ack_payload_step: "conn_inv s \<Longrightarrow> ok_step s (ack_payload_handler a v s)"
  using ack_payload_ok [of s a v] by (auto simp: ok_step_def conn_inv_def keeps_def frame_def)

lemma successful_rx_step: "conn_inv s \<Longrightarrow> ok_step s (fpproto_successful_rx t s)"
  using update_inwnd_ok [of s t] by (simp add: ok_step_def fpproto_successful_rx_def)

lemma reset_payload_step: "conn_inv s \<Longrightarrow> reset_payload_handler ep now t s = (d, s') \<Longrightarrow> ok_step s s'"
  using reset_payload_ok by (simp add: ok_step_def)

lemma got_bad_step: "conn_inv s \<Longrightarrow> ok_step s (got_bad_packet ep now s)"
  using got_bad_ok by (simp add: ok_step_def)

lemma got_good_step: "conn_inv s \<Longrightarrow> ok_step s (got_good_packet s)"
  using ok_refl by (simp add: got_good_packet_def)

lemma rx_acks_step:
  assumes inv: "conn_inv s" and len: "curp \<le> length pkt" and r: "rx_acks pkt curp in_seq a v s = (d, q, s')"
  shows "ok_step s s'" and "d \<Longrightarrow> curp < length pkt \<and> q = Some in_seq"
proof -
  let ?s = "ack_payload_handler a (ack_vec_of_hdr v) s"
  have s1: "ok_step s ?s"
    by (rule ack_payload_step [OF inv])
  have rx: "ok_step s (fpproto_successful_rx in_seq ?s)" and ack: "\<And>v'. ok_step s (ack_payload_handler a v' ?s)"
    using ok_trans [OF s1 successful_rx_step [OF ok_inv [OF s1]]] ok_trans [OF s1 ack_payload_step [OF ok_inv [OF s1]]]
    by blast+
  have "\<exists>hi lo. rd32 pkt curp = Some hi \<and> rd16 pkt (curp + 4) = Some lo" if "curp + 6 \<le> length pkt"
    using that by (simp add: rd32_def rd16_def)
  moreover have "rd8 pkt curp = Some (pkt ! curp)" if "curp \<noteq> length pkt"
    using that len by (simp add: rd8_def)
  ultimately show "ok_step s s'" "d \<Longrightarrow> curp < length pkt \<and> q = Some in_seq"
    using r len s1 rx ack by (auto simp: rx_acks_def Let_def not_le split: if_splits)
qed

lemma rx_verified_step:
  assumes inv: "conn_inv s" and len: "(if pt = FASTPASS_PTYPE_RESET then 16 else 8) \<le> length pkt"
    and r: "rx_verified ep now pt pkt rst in_seq a v s = (d, q, s')"
  shows "ok_step s s'" and "d \<Longrightarrow> 8 < length pkt \<and> q = Some in_seq"
proof -
  let ?s = "if \<not> ep then call_trigger_request (s\<lparr>in_sync := False\<rparr>) else s\<lparr>in_sync := False\<rparr>"
  have p: "conn_inv ?s" "ok_step s ?s"
    using inv ok_refl [OF inv] by (simp_all add: quiet_call)
  obtain r0 s0 where rp: "reset_payload_handler ep now rst ?s = (r0, s0)"
    by (metis surj_pair)
  have s0: "ok_step s s0"
    using p(2) reset_payload_step [OF p(1) rp] by (rule ok_trans)
  define drop_it curp s1 where "drop_it = (pt = FASTPASS_PTYPE_RESET \<and> r0)"
    and "curp = (if pt = FASTPASS_PTYPE_RESET then 16 else 8 :: nat)"
    and "s1 = (if pt = FASTPASS_PTYPE_RESET then s0 else s\<lparr>in_sync := True\<rparr>)"
  have h: "rx_verified ep now pt pkt rst in_seq a v s =
      (if drop_it then (False, None, s1) else if at_most_once_may_accept s1 in_seq then (False, None, s1)
       else rx_acks pkt curp in_seq a v s1)"
    using rp by (simp add: rx_verified_def Let_def drop_it_def curp_def s1_def)
  have s1: "ok_step s s1" and c: "curp \<le> length pkt" "8 \<le> curp"
    using s0 ok_refl [OF inv] len by (simp_all add: s1_def curp_def)
  then have i1: "conn_inv s1"
    by (simp add: ok_step_def)
  show "ok_step s s'"
    using r h s1 ok_trans [OF s1 rx_acks_step(1) [OF i1 c(1)]]
    by (auto split: if_splits)
  show "d \<Longrightarrow> 8 < length pkt \<and> q = Some in_seq"
    using r h c rx_acks_step(2) [OF i1 c(1)] by (fastforce split: if_splits)
qed

lemma length_clear_checksum [simp]: "length (clear_checksum pkt) = length pkt"
  by (simp add: clear_checksum_def)

lemma handle_rx_packet_step:
  assumes inv: "conn_inv s" and r: "fpproto_handle_rx_packet ep addr now1 now2 pkt s = (d, q, pkt', s')"
  shows "ok_step s s'" and "d \<Longrightarrow> 8 < length pkt' \<and> (\<exists>in_seq. q = Some in_seq)"
proof -
  let ?s = "stat_inc st_rx_pkts_update s"
  have i: "conn_inv ?s" "ok_step s ?s"
    using inv ok_refl by simp_all
  have "ok_step s s' \<and> (d \<longrightarrow> 8 < length pkt' \<and> (\<exists>in_seq. q = Some in_seq))"
  proof (cases "length pkt < 8")
    case True
    then show ?thesis
      using r i by (auto simp: fpproto_handle_rx_packet_def)
  next
    case len: False
    define pt where "pt = (if length pkt = 8 then 0 else drop_bit 4 (pkt ! 8))"
    have pt: "(if length pkt = 8 then Some 0 else map_option (drop_bit 4) (rd8 pkt 8)) = Some pt"
      using len by (simp add: pt_def rd8_def)
    show ?thesis
    proof (cases "pt = FASTPASS_PTYPE_RESET \<and> length pkt < 16")
      case True
      then show ?thesis
        using r i len pt by (auto simp: fpproto_handle_rx_packet_def Let_def)
    next
      case False
      obtain hdr where hdr: "read_hdr pkt = Some hdr"
        using read_hdr_Some [of pkt] len by auto
      obtain rst in_seq a where sq: "rx_seqnos ep now1 pt pkt hdr ?s = Some (rst, in_seq, a)"
        using rx_seqnos_Some [of pt pkt ep now1 hdr ?s] False by (metis not_less prod_cases3)
      obtain d1 q1 s1 where v: "rx_verified ep now2 pt (clear_checksum pkt) rst in_seq a (hdr_ack_vec hdr) (got_good_packet ?s) = (d1, q1, s1)"
        by (metis prod_cases3)
      have g: "conn_inv (got_good_packet ?s)"
        using ok_inv [OF got_good_step [OF i(1)]] .
      have "(if pt = FASTPASS_PTYPE_RESET then 16 else 8) \<le> length (clear_checksum pkt)"
        using False len by auto
      note V = rx_verified_step [OF g this v]
      have "ok_step s s1" "ok_step s (got_bad_packet ep now2 ?s)"
        using ok_trans [OF got_good_step [OF i(1)] V(1)] got_bad_step [OF i(1)] by simp_all
      then show ?thesis
        using r len pt False hdr sq v V(2)
        by (auto simp: fpproto_handle_rx_packet_def Let_def not_less split: if_splits)
    qed
  qed
  then show "ok_step s s'" "d \<Longrightarrow> 8 < length pkt' \<and> (\<exists>in_seq. q = Some in_seq)"
    by blast+
qed

lemma process_alloc_step:
  assumes inv: "conn_inv s" and r: "process_alloc pkt dat s = (n, s')"
  shows "ok_step s s'"
proof -
  have "\<exists>x. rd16 pkt dat = Some x" if "dat + 2 \<le> length pkt"
    using that by (simp add: rd16_def)
  moreover have "\<exists>x ys. rd16 pkt (dat + 2) = Some x \<and> those (map (\<lambda>i. rd16 pkt (dat + 4 + 2 * i)) [0..<k]) = Some ys"
    if "dat + 2 + 2 + 2 * k + m \<le> length pkt" for k m
    using that those_Some [of "[0..<k]" "\<lambda>i. rd16 pkt (dat + 4 + 2 * i)"] by (simp add: rd16_def)
  ultimately show ?thesis
    using r ok_refl [OF inv]
    by (fastforce simp: process_alloc_def Let_def ok_emit not_le split: if_splits option.splits)
qed

lemma process_areq_step:
  assumes inv: "conn_inv s" and r: "process_areq pkt dat s = (n, s')"
  shows "ok_step s s'"
  using r ok_refl [OF inv]
  by (auto simp: process_areq_def Let_def ok_emit rd16_def split: if_splits)

lemma handle_payload_step:
  assumes inv: "conn_inv s" and c: "curp < length pkt" and r: "handle_payload pkt curp s = (n, s')"
  shows "ok_step s s'"
  using r ok_refl [OF inv] process_alloc_step [OF inv] process_areq_step [OF inv] rd_Some(1) [OF c]
  by (auto simp: handle_payload_def Let_def split: if_splits prod.splits option.splits)

lemma rx_payloads_step:
  "conn_inv s \<Longrightarrow> curp < length pkt \<Longrightarrow> rx_payloads pkt curp s = (d, s') \<Longrightarrow> ok_step s s'"
proof (induction pkt curp s arbitrary: d s' rule: rx_payloads.induct)
  case (1 pkt curp s)
  obtain n s1 where h: "handle_payload pkt curp s = (n, s1)"
    by (metis surj_pair)
  have s1: "ok_step s s1"
    by (rule handle_payload_step [OF 1(2,3) h])
  show ?case
  proof (cases n)
    case None
    then show ?thesis
      using 1(4) h s1 by (simp add: rx_payloads.simps [of pkt curp])
  next
    case (Some c)
    show ?thesis
    proof (cases "c < length pkt")
      case True
      then have "rx_payloads pkt c s1 = (d, s')"
        using 1(4) h Some by (simp add: rx_payloads.simps [of pkt curp])
      then have "ok_step s1 s'"
        using 1(1) [OF h [symmetric] Some] True ok_inv [OF s1] by simp
      with s1 show ?thesis by (rule ok_trans)
    next
      case False
      then show ?thesis
        using 1(4) h Some s1 by (simp add: rx_payloads.simps [of pkt curp])
    qed
  qed
qed

lemma rx_complete_step:
  assumes "conn_inv s"
  shows "ok_step s (fpproto_handle_rx_complete ep addr now1 now2 pkt s)"
proof -
  obtain d q pkt' s1 where r: "fpproto_handle_rx_packet ep addr now1 now2 pkt s = (d, q, pkt', s1)"
    by (metis prod_cases4)
  note R = handle_rx_packet_step [OF assms r]
  obtain d2 s2 where p: "fpproto_perform_rx_callbacks pkt' s1 = (d2, s2)"
    by (metis surj_pair)
  show ?thesis
  proof (cases d)
    case True
    then have "ok_step s s2"
      using R p rx_payloads_step [OF ok_inv [OF R(1)], of 8 pkt' d2 s2] ok_trans
      by (auto simp: fpproto_perform_rx_callbacks_def)
    then show ?thesis
      using True R p r ok_trans [OF _ successful_rx_step [OF ok_inv]]
      by (auto simp: fpproto_handle_rx_complete_def split: bool.splits)
  next
    case False
    then show ?thesis
      using r R(1) by (simp add: fpproto_handle_rx_complete_def)
  qed
qed

end
