(* ===== verification/FP_Run.thy ===== *)
theory FP_Run
  imports FP_Rx
begin

unbundle bit_operations_syntax

text \<open>
  Runs of a connection: the operations that the user of the protocol may call, as a step
  relation, from a connection in zeroed memory that \<^verbatim>\<open>fpproto_init_conn\<close> has initialised. A
  packet is sent by \<^verbatim>\<open>fpproto_prepare_to_send\<close> followed by \<^verbatim>\<open>fpproto_commit_packet\<close>, as both
  users of the protocol do. The last argument of the relations collects the descriptors
  handed to the protocol.
\<close>

definition zero_stat :: fp_proto_stat where
  "zero_stat = \<lparr>st_version = 0, st_out_max_seqno = 0, st_timeout_handler_runs = 0, st_ack_payloads = 0,
     st_too_early_ack = 0, st_acked_packets = 0, st_timeout_pkts = 0, st_informative_ack_payloads = 0,
     st_reprogrammed_timer = 0, st_earliest_unacked = 0, st_committed_pkts = 0, st_never_acked_pkts = 0,
     st_next_timeout_seqno = 0, st_tx_num_unacked = 0, st_fall_off_outwnd = 0, st_rx_pkts = 0,
     st_rx_too_short = 0, st_rx_unknown_payload = 0, st_rx_incomplete_reset = 0, st_rx_incomplete_alloc = 0,
     st_rx_incomplete_ack = 0, st_rx_incomplete_areq = 0, st_rx_dup_pkt = 0, st_rx_out_of_order = 0,
     st_rx_checksum_error = 0, st_in_max_seqno = 0, st_inwnd_jumped = 0, st_seqno_before_inwnd = 0,
     st_consecutive_bad_pkts = 0, st_inwnd = 0, st_in_sync = False, st_last_reset_time = 0,
     st_reset_payloads = 0, st_proto_resets = 0, st_redundant_reset = 0,
     st_reset_both_recent_last_reset_wins = 0, st_reset_both_recent_payload_wins = 0,
     st_reset_last_recent_payload_old = 0, st_reset_last_old_payload_recent = 0, st_reset_both_old = 0,
     st_no_reset_because_recent = 0, st_reset_from_bad_pkts = 0, st_forced_reset = 0\<rparr>"

definition zero_ops :: fpproto_ops where
  "zero_ops = \<lparr>has_handle_reset = False, has_handle_ack = False, has_handle_neg_ack = False,
     has_trigger_request = False, has_handle_alloc = False, has_handle_areq = False\<rparr>"

definition zero_window :: fp_window where
  "zero_window = \<lparr>marked = replicate 4 0, summary = 0, head = 0, head_word = 0, num_marked = 0\<rparr>"

definition zero_conn :: proto where
  "zero_conn = \<lparr>last_reset_time = 0, next_seqno = 0, in_max_seqno = 0, in_sync = False, ops = zero_ops,
     rst_win_ns = 0, send_timeout = 0, consecutive_bad_pkts = 0, outwnd = zero_window,
     unacked_pkts = replicate 256 None, next_timeout_seqno = 0, inwnd = 0, stat = zero_stat, trace = []\<rparr>"

inductive proto_step :: "bool \<Rightarrow> proto \<Rightarrow> fpproto_pktdesc multiset \<Rightarrow> proto \<Rightarrow> fpproto_pktdesc multiset \<Rightarrow> bool"
  for ep :: bool where
  send: "head (outwnd s) \<noteq> - 1 \<Longrightarrow> s1 = fpproto_prepare_to_send s \<Longrightarrow>
    proto_step ep s C (fpproto_commit_packet pd now s1) (add_mset (commit_fields s1 now pd) C)"
| prepare: "proto_step ep s C (fpproto_prepare_to_send s) C"
| rx: "proto_step ep s C (fpproto_handle_rx_complete ep addr now1 now2 pkt s) C"
| timeout: "proto_step ep s C (fpproto_handle_timeout now s) C"
| force_reset: "proto_step ep s C (fpproto_force_reset ep now s) C"
| update_stats: "proto_step ep s C (fpproto_update_internal_stats s) C"

inductive_cases proto_stepE: "proto_step ep s C s' C'"

inductive reachable :: "bool \<Rightarrow> proto \<Rightarrow> fpproto_pktdesc multiset \<Rightarrow> bool" for ep :: bool where
  init: "reachable ep (fpproto_init_conn ep now os rw sto zero_conn) {#}"
| step: "reachable ep s C \<Longrightarrow> proto_step ep s C s' C' \<Longrightarrow> reachable ep s' C'"

lemma zero_window_inv: "wnd_inv zero_window" "wnd_set zero_window = {}"
proof -
  have "zero_window = wnd_reset zero_window 0"
    by (simp add: zero_window_def wnd_reset_def wnd_pos_def)
  then show "wnd_inv zero_window" "wnd_set zero_window = {}"
    by (metis wnd_reset_inv, metis wnd_reset_set)
qed

lemma zero_conn_inv: "core_inv zero_conn" "faults zero_conn = []" "ledger zero_conn = {#}"
  using zero_window_inv
  by (simp_all add: core_inv_def pkts_ok_def zero_conn_def faults_def ledger_eq held_list_def)

lemma init_ok:
  fixes s :: proto
  assumes "core_inv s"
  shows "ok_step s (fpproto_init_conn ep now os rw sto s)"
proof -
  let ?r = "do_proto_reset ep now False s" and ?i = "fpproto_init_conn ep now os rw sto s"
  note R = do_proto_reset_ok(1,2) [OF assms, of ep now False]
  have "conn_inv ?i"
    using R(2) by (simp add: fpproto_init_conn_def conn_inv_def core_inv_def timer_ok_def)
  moreover have "faults ?i = faults s" "ledger ?i = ledger s"
    using R(1) by (simp_all add: fpproto_init_conn_def keeps_def faults_def ledger_eq)
  ultimately show ?thesis by (rule ok_stepI)
qed

lemma send_ok:
  assumes inv: "conn_inv s" and nowrap: "head (outwnd s) \<noteq> - 1" and s1: "s1 = fpproto_prepare_to_send s"
  shows "conn_inv (fpproto_commit_packet pd now s1) \<and> faults (fpproto_commit_packet pd now s1) = faults s
    \<and> ledger (fpproto_commit_packet pd now s1) = add_mset (commit_fields s1 now pd) (ledger s)
    \<and> wnd_set (outwnd (fpproto_commit_packet pd now s1)) = insert (head (outwnd s) + 1) (wnd_set (outwnd s) - {wnd_edge (outwnd s)})
    \<and> head (outwnd (fpproto_commit_packet pd now s1)) = head (outwnd s) + 1
    \<and> outwnd_peek (fpproto_commit_packet pd now s1) (head (outwnd s) + 1) = Some (commit_fields s1 now pd)"
proof -
  note P = prepare_ok [OF inv, folded s1]
  have "wnd_edge (outwnd s1) = wnd_edge (outwnd s)"
    using P by (simp add: wnd_edge_eq)
  then have "wnd_edge (outwnd s1) \<notin> wnd_set (outwnd s1)"
    using P by simp
  then show ?thesis
    using commit_ok [of s1 pd now] P nowrap by (simp add: keeps_def)
qed

lemma step_ok:
  assumes "proto_step ep s C s' C'" and inv: "conn_inv s"
  shows "conn_inv s' \<and> faults s' = faults s \<and> (ledger s = C \<longrightarrow> ledger s' = C')"
  using assms(1)
proof (cases rule: proto_step.cases)
  case (send s1 pd now)
  then show ?thesis
    using send_ok [OF inv, of s1 pd now] by simp
next
  case prepare
  then show ?thesis
    using prepare_ok [OF inv] by (simp add: keeps_def)
next
  case (rx addr now1 now2 pkt)
  then show ?thesis
    using rx_complete_step [OF inv, of ep addr now1 now2 pkt] by (simp add: ok_step_def keeps_def)
next
  case (timeout now)
  then show ?thesis
    using handle_timeout_keeps [OF inv, of now] by (simp add: keeps_def)
next
  case (force_reset now)
  have "core_inv (stat_inc st_forced_reset_update s)"
    using conn_inv_core [OF inv] by simp
  from do_proto_reset_ok(1,2) [OF this, of ep now False] show ?thesis
    using force_reset by (simp add: fpproto_force_reset_def keeps_def faults_def ledger_eq)
next
  case update_stats
  then show ?thesis
    using inv by (simp add: fpproto_update_internal_stats_def conn_inv_def core_inv_def timer_ok_def faults_def ledger_eq)
qed

lemma reachable_inv: "reachable ep s C \<Longrightarrow> conn_inv s \<and> faults s = [] \<and> ledger s = C"
proof (induction rule: reachable.induct)
  case (init now os rw sto)
  then show ?case
    using init_ok [OF zero_conn_inv(1), of ep now os rw sto] zero_conn_inv(2,3) by (simp add: ok_step_def keeps_def)
next
  case (step s C s' C')
  then show ?case
    using step_ok [OF step(2)] by simp
qed

end
