(* ===== verification/FP_Codec.thy ===== *)
theory FP_Codec
  imports FP_Run
begin

unbundle bit_operations_syntax

text \<open>
  The wire format: what \<^verbatim>\<open>fpproto_encode_packet\<close> writes, \<^verbatim>\<open>fpproto_handle_rx_packet\<close> and
  \<^verbatim>\<open>fpproto_perform_rx_callbacks\<close> read back. Sequence numbers travel as 16 bits and reset
  timestamps as 56 bits; both are completed from the receiver's own state.
\<close>

subsection \<open>Bytes and words\<close>

lemma be16_word:
  "push_bit 8 (ucast (ucast (drop_bit 8 x) :: u8)) OR ucast (ucast x :: u8) = (x :: u16)"
  by (rule bit_word_eqI) (auto simp: bit_or_iff bit_push_bit_iff bit_unsigned_iff possible_bit_def bit_drop_bit_eq)

lemma host16_word:
  "ucast (ucast x :: u8) OR push_bit 8 (ucast (ucast (drop_bit 8 x) :: u8)) = (x :: u16)"
  using be16_word [of x] by (simp add: or.commute)

lemma be32_word:
  "push_bit 24 (ucast (ucast (drop_bit 24 x) :: u8)) OR push_bit 16 (ucast (ucast (drop_bit 16 x) :: u8))
    OR push_bit 8 (ucast (ucast (drop_bit 8 x) :: u8)) OR ucast (ucast x :: u8) = (x :: u32)"
proof (rule bit_word_eqI)
  fix n assume "n < LENGTH(32)"
  then have "n < 8 \<or> 8 \<le> n \<and> n < 16 \<or> 16 \<le> n \<and> n < 24 \<or> 24 \<le> n \<and> n < 32"
    by auto
  then show "bit (push_bit 24 (ucast (ucast (drop_bit 24 x) :: u8)) OR push_bit 16 (ucast (ucast (drop_bit 16 x) :: u8))
    OR push_bit 8 (ucast (ucast (drop_bit 8 x) :: u8)) OR ucast (ucast x :: u8) :: u32) n = bit x n"
    by (elim disjE conjE) (simp_all add: bit_or_iff bit_push_bit_iff bit_unsigned_iff possible_bit_def bit_drop_bit_eq, auto)
qed

lemma rd16_be16 [simp]: "n = length p \<Longrightarrow> rd16 (p @ be16 x @ r) n = Some x"
  using be16_word [of x] by (simp add: rd16_def be16_def nth_append)

lemma rd32_be32: "n = length p \<Longrightarrow> rd32 (p @ be32 x @ r) n = Some x"
  using be32_word [of x] by (simp add: rd32_def be32_def nth_append)

lemma length_be [simp]: "length (be16 x) = 2" "length (be32 y) = 4"
  by (simp_all add: be16_def be32_def)

subsection \<open>Completing truncated numbers\<close>

lemma take_bit_sub_left:
  assumes "n \<le> 64"
  shows "take_bit n (take_bit n a - b) = take_bit n ((a :: u64) - b)"
proof -
  have dvd: "(2 :: nat) ^ n dvd 18446744073709551616"
    using le_imp_power_dvd [of n 64 "2 :: nat"] assms by simp
  have u: "unat (take_bit n x) = unat x mod 2 ^ n" for x :: u64
    using unat_and_mask [of x n] by (simp only: take_bit_eq_mask)
  have sub: "unat (x - b) mod 2 ^ n = (unat x + (18446744073709551616 - unat b)) mod 2 ^ n" for x
    using unat_u64_lt [of b] Nat.diff_add_assoc [of "unat b" 18446744073709551616 "unat x"]
    by (simp only: unat_sub_mod mod_mod_cancel [OF dvd])
  have "unat (take_bit n (take_bit n a - b)) = unat (take_bit n (a - b))"
    by (simp only: u sub mod_add_left_eq)
  then show ?thesis
    by (simp only: word_unat_eq_iff)
qed

lemma low_bits_eq:
  "(ucast (ucast (x :: u64) :: u16) - b) AND 0xFFFF = (x - b) AND (0xFFFF :: u64)"
proof -
  have "(ucast (ucast x :: u16) :: u64) = take_bit 16 x"
    by (rule bit_word_eqI) (auto simp: bit_take_bit_iff bit_unsigned_iff possible_bit_def)
  then have "take_bit 16 (ucast (ucast x :: u16) - b) = take_bit 16 (x - b)"
    using take_bit_sub_left [of 16 x b] by simp
  then show ?thesis
    by (simp add: take_bit_eq_mask mask_eq_exp_minus_1)
qed

lemma and_mask_small:
  assumes "unat (x :: 'a::len word) < 2 ^ n"
  shows "x AND mask n = x"
proof -
  have "unat (x AND mask n) = unat x"
    using assms by (simp add: unat_and_mask)
  then show ?thesis
    by (simp only: word_unat_eq_iff)
qed

lemma complete_seqno_correct:
  assumes "unat (x - from) < 65536"
  shows "complete_seqno from (ucast x) = x"
proof -
  have "(x - from) AND 0xFFFF = x - from"
    using and_mask_small [of "x - from" 16] assms by (simp add: mask_eq_exp_minus_1)
  then show ?thesis
    by (simp add: complete_seqno_def low_bits_eq)
qed

definition reset_hi_word :: "u64 \<Rightarrow> u32" where
  "reset_hi_word tstamp = push_bit 28 1 OR (ucast (drop_bit 32 tstamp) AND 0x00FFFFFF)"

lemma reset_partial:
  "push_bit 32 (ucast (reset_hi_word x AND (push_bit 24 1 - 1))) OR ucast (ucast x :: u32) = take_bit 56 (x :: u64)"
proof -
  have m: "(push_bit 24 1 - 1 :: u32) = mask 24" "(0x00FFFFFF :: u32) = mask 24"
    by (simp_all add: mask_eq_exp_minus_1)
  show ?thesis
    unfolding reset_hi_word_def m
  proof (rule bit_word_eqI)
    fix n assume "n < LENGTH(64)"
    then have "n < 32 \<or> 32 \<le> n \<and> n < 56 \<or> 56 \<le> n \<and> n < 64"
      by auto
    then show "bit (push_bit 32 (ucast ((push_bit 28 1 OR ucast (drop_bit 32 x) AND mask 24 :: u32) AND mask 24))
        OR ucast (ucast x :: u32) :: u64) n = bit (take_bit 56 x) n"
      by (elim disjE conjE) (auto simp: bit_or_iff bit_and_iff bit_push_bit_iff bit_unsigned_iff possible_bit_def
          bit_drop_bit_eq bit_take_bit_iff bit_mask_iff bit_1_iff simp del: push_bit_of_1)
  qed
qed

lemma full_reset_tstamp_correct:
  assumes "unat (x - (now - push_bit 55 1)) < 2 ^ 56"
  shows "full_reset_tstamp now (reset_hi_word x) (ucast x) = x"
proof -
  define b :: u64 where "b = now - push_bit 55 1"
  have "(take_bit 56 x - b) AND mask 56 = take_bit 56 (x - b)"
    using take_bit_sub_left [of 56 x b] by (simp only: take_bit_eq_mask)
  also have "\<dots> = (x - b) AND mask 56"
    by (simp only: take_bit_eq_mask)
  also have "\<dots> = x - b"
    using assms by (intro and_mask_small) (simp only: b_def)
  finally have "(take_bit 56 x - b) AND (push_bit 56 1 - 1) = x - b"
    by (simp add: mask_eq_exp_minus_1)
  then show ?thesis
    unfolding full_reset_tstamp_def Let_def reset_partial b_def [symmetric] by simp
qed

subsection \<open>The shape of an encoded packet\<close>

definition hdr_bytes :: "fpproto_pktdesc \<Rightarrow> u16 \<Rightarrow> u8 list" where
  "hdr_bytes pd c = be16 (ucast (pd_seqno pd)) @ be16 (ucast (pd_ack_seq pd)) @ be16 (pd_ack_vec pd)
     @ [ucast c, ucast (drop_bit 8 c)]"

definition reset_bytes :: "fpproto_pktdesc \<Rightarrow> u8 list" where
  "reset_bytes pd = (if pd_send_reset pd
     then be32 (reset_hi_word (pd_reset_timestamp pd)) @ be32 (ucast (pd_reset_timestamp pd)) else [])"

definition alloc_bytes :: "bool \<Rightarrow> fpproto_pktdesc \<Rightarrow> u8 list" where
  "alloc_bytes ep pd = (if \<not> ep \<and> 0 < pd_alloc_tslot pd then encode_alloc pd else [])"

definition areq_bytes :: "fpproto_pktdesc \<Rightarrow> u8 list" where
  "areq_bytes pd = (if 0 < pd_n_areq pd then encode_areq pd else [])"

definition payload :: "bool \<Rightarrow> fpproto_pktdesc \<Rightarrow> nat \<Rightarrow> u8 list" where
  "payload ep pd k = reset_bytes pd @ alloc_bytes ep pd @ areq_bytes pd @ replicate k 0"

lemma set_checksum:
  "(be16 a @ be16 b @ be16 c @ [0, 0] @ r)[6 := x, 7 := y] = be16 a @ be16 b @ be16 c @ [x, y] @ r"
  by (simp add: be16_def eval_nat_numeral)

definition unpadded :: "bool \<Rightarrow> fpproto_pktdesc \<Rightarrow> u8 list" where
  "unpadded ep pd = hdr_bytes pd 0 @ reset_bytes pd @ alloc_bytes ep pd @ areq_bytes pd"

lemma if_append:
  "(if b then (p @ x, r - c) else (p, r)) = (p @ (if b then x else []), r - (if b then c else 0 :: nat))"
  "(if b then p @ x else p) = p @ (if b then x else [])"
  by simp_all

lemma encode_unfold:
  fixes pd :: fpproto_pktdesc and max_len min_size :: nat
  defines "h \<equiv> be16 (ucast (pd_seqno pd)) @ be16 (ucast (pd_ack_seq pd)) @ be16 (pd_ack_vec pd) @ [0, 0]"
    and "r1 \<equiv> max_len - 8 - (if pd_send_reset pd then 8 else 0)"
  defines "r2 \<equiv> r1 - (if 0 < pd_n_areq pd then 2 + 4 * unat (pd_n_areq pd) else 0)"
  shows "fpproto_encode_packet ep addr pd max_len min_size =
     (if max_len < 8 then (- 1, [])
      else if pd_send_reset pd \<and> max_len - 8 < 8 then (- 2, h)
      else if 0 < pd_n_areq pd \<and> r1 < 2 + 4 * unat (pd_n_areq pd) then (- 3, h @ reset_bytes pd @ alloc_bytes ep pd)
      else if length (unpadded ep pd) < min_size \<and> r2 < min_size - length (unpadded ep pd) then (- 4, unpadded ep pd)
      else
        let pkt = unpadded ep pd @ (if length (unpadded ep pd) < min_size
                    then replicate (min_size - length (unpadded ep pd)) 0 else []);
            csum = fastpass_checksum addr pkt (pd_seqno pd) (pd_ack_seq pd);
            pkt = pkt[6 := ucast csum, 7 := ucast (drop_bit 8 csum)]
        in if length pkt > max_len then (- 5, pkt) else (int (length pkt), pkt))"
proof -
  have u: "unpadded ep pd = h @ reset_bytes pd @ alloc_bytes ep pd @ areq_bytes pd"
    by (simp add: unpadded_def hdr_bytes_def h_def)
  have areq: "(if 0 < pd_n_areq pd then (p @ encode_areq pd, r - 2 - 4 * unat (pd_n_areq pd)) else (p, r))
      = (p @ areq_bytes pd, r - (if 0 < pd_n_areq pd then 2 + 4 * unat (pd_n_areq pd) else 0))" for p and r :: nat
    by (simp add: areq_bytes_def)
  show ?thesis
    unfolding fpproto_encode_packet_def u r2_def r1_def h_def areq if_append
      reset_bytes_def alloc_bytes_def reset_hi_word_def
    by (simp only: Let_def prod.case append_assoc)
qed

lemma encode_shape:
  assumes "fpproto_encode_packet ep addr pd max_len min_size = (n, pkt)" and "0 \<le> n"
  shows "\<exists>k. pkt = hdr_bytes pd (fastpass_checksum addr (hdr_bytes pd 0 @ payload ep pd k) (pd_seqno pd) (pd_ack_seq pd))
      @ payload ep pd k \<and> n = int (length pkt) \<and> length pkt \<le> max_len"
proof -
  define k where "k = min_size - length (unpadded ep pd)"
  define q where "q = hdr_bytes pd 0 @ payload ep pd k"
  have q: "unpadded ep pd @ replicate k 0 = q"
    by (simp add: q_def unpadded_def payload_def)
  have pad: "unpadded ep pd @ (if length (unpadded ep pd) < min_size
      then replicate (min_size - length (unpadded ep pd)) 0 else []) = q"
    using q by (cases "length (unpadded ep pd) < min_size") (simp_all add: k_def)
  let ?c = "fastpass_checksum addr q (pd_seqno pd) (pd_ack_seq pd)"
  let ?q = "q[6 := ucast ?c, 7 := ucast (drop_bit 8 ?c)]"
  have "pkt = ?q \<and> n = int (length ?q) \<and> length ?q \<le> max_len"
    using encode_unfold [of ep addr pd max_len min_size] assms unfolding pad q Let_def
    by (simp split: if_splits)
  moreover have "?q = hdr_bytes pd ?c @ payload ep pd k"
    using set_checksum [of "ucast (pd_seqno pd)" "ucast (pd_ack_seq pd)" "pd_ack_vec pd" "payload ep pd k" "ucast ?c" "ucast (drop_bit 8 ?c)"]
    by (simp add: q_def hdr_bytes_def)
  ultimately show ?thesis
    unfolding q_def by blast
qed

lemma read_hdr_bytes:
  "read_hdr (hdr_bytes pd c @ r) = Some \<lparr>hdr_seq = ucast (pd_seqno pd), hdr_ack_seq = ucast (pd_ack_seq pd),
     hdr_ack_vec = pd_ack_vec pd, hdr_checksum = c\<rparr>"
proof -
  let ?a = "ucast (pd_seqno pd)" and ?b = "ucast (pd_ack_seq pd)" and ?v = "pd_ack_vec pd" and ?c = "[ucast c, ucast (drop_bit 8 c)]"
  have "rd16 ([] @ be16 ?a @ (be16 ?b @ be16 ?v @ ?c @ r)) 0 = Some ?a"
    "rd16 (be16 ?a @ be16 ?b @ (be16 ?v @ ?c @ r)) 2 = Some ?b"
    "rd16 ((be16 ?a @ be16 ?b) @ be16 ?v @ (?c @ r)) 4 = Some ?v"
    by (rule rd16_be16, simp)+
  moreover have "rd16_host ((be16 ?a @ be16 ?b @ be16 ?v) @ ?c @ r) 6 = Some c"
    using host16_word [of c] by (simp add: rd16_host_def nth_append)
  ultimately show ?thesis
    by (simp add: read_hdr_def hdr_bytes_def)
qed

lemma clear_checksum_bytes: "clear_checksum (hdr_bytes pd c @ r) = hdr_bytes pd 0 @ r"
  using set_checksum by (simp add: clear_checksum_def hdr_bytes_def be16_def eval_nat_numeral)

lemma length_hdr_bytes [simp]: "length (hdr_bytes pd c) = 8"
  by (simp add: hdr_bytes_def)

lemma reset_hi_type: "drop_bit 4 (ucast (drop_bit 24 (reset_hi_word x)) :: u8) = 1"
  by (rule bit_word_eqI) (auto simp: reset_hi_word_def word_bits bit_drop_bit_eq bit_unsigned_iff bit_push_bit_iff bit_or_iff possible_bit_def
    bit_1_iff simp del: push_bit_of_1)

lemma csum_addr:
  assumes "addr mod 4 = addr' mod 4"
  shows "fastpass_checksum addr = fastpass_checksum addr'"
proof -
  have "addr = addr mod 4 + 4 * (addr div 4)" "addr' = addr' mod 4 + 4 * (addr' div 4)"
    by simp_all
  then obtain r q q' where a: "addr = r + 4 * q" "addr' = r + 4 * q'" "r < 4"
    using assms by (metis mod_less_divisor zero_less_numeral)
  have "odd (r + 4 * q) = odd r" "(r + 4 * q + p) div 2 mod 2 = (r + p) div 2 mod 2" for p q :: nat
  proof -
    have "(r + 4 * q + p) div 2 = (r + p) div 2 + 2 * q"
      by simp
    then show "(r + 4 * q + p) div 2 mod 2 = (r + p) div 2 mod 2"
      by simp
  qed simp
  then show ?thesis
    unfolding a by (simp only: fun_eq_iff fastpass_checksum_def fp_csum_partial_def) simp
qed

text \<open>When the receiver can complete the truncated numbers of a packet.\<close>

definition completable :: "bool \<Rightarrow> u64 \<Rightarrow> fpproto_pktdesc \<Rightarrow> proto \<Rightarrow> bool" where
  "completable ep now pd s =
     (if pd_send_reset pd then
        (let base = base_seqno_from_timestamp (pd_reset_timestamp pd)
         in unat (pd_reset_timestamp pd - (now - push_bit 55 1)) < 2 ^ 56
            \<and> unat (pd_seqno pd - (base + FASTPASS_INGRESS_SEQNO_OFFSET ep)) < 65536
            \<and> unat (pd_ack_seq pd - (base + FASTPASS_EGRESS_SEQNO_OFFSET ep - 1)) < 65536)
      else unat (pd_seqno pd - (in_max_seqno s - push_bit 14 1)) < 65536
         \<and> unat (pd_ack_seq pd - (wnd_head (outwnd s) - push_bit 16 1 + 1)) < 65536)"

definition wire_type :: "fpproto_pktdesc \<Rightarrow> u8 list \<Rightarrow> u8" where
  "wire_type pd pkt = (if length pkt = 8 then 0 else drop_bit 4 (pkt ! 8))"

lemma wire_type_reset:
  assumes "pd_send_reset pd"
  shows "wire_type pd (hdr_bytes pd c @ payload ep pd k) = FASTPASS_PTYPE_RESET"
  using assms reset_hi_type [of "pd_reset_timestamp pd"]
  by (simp add: wire_type_def payload_def reset_bytes_def nth_append be32_def FASTPASS_PTYPE_RESET_def)

lemma bit_small:
  assumes "unat (x :: 'a::len word) < 2 ^ k" and "k \<le> n"
  shows "\<not> bit x n"
proof -
  have "unat (x AND mask k) = unat x"
    using assms(1) by (simp add: unat_and_mask)
  then have "x = x AND mask k"
    by (simp only: word_unat_eq_iff)
  then have "bit x n = bit (x AND mask k) n"
    by simp
  then show ?thesis
    using assms(2) by (simp add: bit_and_iff bit_mask_iff)
qed

lemma drop4_be16:
  "drop_bit 4 (ucast (drop_bit 8 x) :: u8) = ucast (drop_bit 12 (x :: u16))"
  by (rule bit_word_eqI) (auto simp: bit_drop_bit_eq bit_unsigned_iff possible_bit_def dest: bit_imp_le_length)

definition areq_short :: "u16 \<Rightarrow> u16" where
  "areq_short n = push_bit 12 2 OR (n AND 0x3F)"

lemma and_3F: "(x :: u16) AND 0x3F = x AND mask 6" and and_F: "(x :: u16) AND 0xF = x AND mask 4"
  by (simp_all add: mask_eq_exp_minus_1)

lemma drop_small: "unat (x :: u16) < 2 ^ k \<Longrightarrow> k \<le> m \<Longrightarrow> drop_bit m x = 0"
  by (rule bit_word_eqI) (simp add: bit_drop_bit_eq bit_small)

lemma areq_short_fields:
  "ucast (drop_bit 12 (areq_short n)) = (2 :: u8)" "unat n < 64 \<Longrightarrow> areq_short n AND 0x3F = n"
proof -
  have "unat (n AND 0x3F) < 2 ^ 6"
    by (simp only: and_3F unat_and_mask) simp
  then have "drop_bit 12 (n AND 0x3F) = 0"
    by (rule drop_small) simp
  then show "ucast (drop_bit 12 (areq_short n)) = (2 :: u8)"
    by (simp add: areq_short_def)
  show "unat n < 64 \<Longrightarrow> areq_short n AND 0x3F = n"
    using and_mask_small [of n 6] and_3F [of n] by (simp add: areq_short_def bit.conj_disj_distrib2 and.assoc)
qed

definition alloc_short :: "u16 \<Rightarrow> u16 \<Rightarrow> u16" where
  "alloc_short n_dsts n_tslot = push_bit 12 3 OR push_bit 8 n_dsts OR ucast ((ucast n_tslot + 1 :: u32) div 2)"

lemma alloc_half: "unat (ucast ((ucast (n :: u16) + 1 :: u32) div 2) :: u16) = (unat n + 1) div 2"
proof -
  have Suc_lt: "Suc (unat n) mod 4294967296 = Suc (unat n)"
    using unat_u16_lt [of n] by (intro mod_less) linarith
  have "unat n < 4294967296"
    using unat_u16_lt [of n] by linarith
  then have u: "unat (ucast n :: u32) = unat n"
    by (simp add: unsigned_ucast_eq take_bit_eq_mod)
  have "unat ((ucast n + 1 :: u32) div 2) = (unat n + 1) div 2"
    by (simp add: unat_div unat_word_ariths u Suc_lt)
  moreover have "Suc (unat n) div 2 < 65536"
    using unat_u16_lt [of n] by (intro less_mult_imp_div_less) linarith
  ultimately show ?thesis
    by (simp add: unsigned_ucast_eq take_bit_eq_mod)
qed

lemma alloc_short_fields:
  assumes "unat n_dsts < 16" and "unat n_tslot < 126"
  shows "ucast (drop_bit 12 (alloc_short n_dsts n_tslot)) = (3 :: u8)"
    and "unat (drop_bit 8 (alloc_short n_dsts n_tslot) AND 0xF) = unat n_dsts"
    and "unat (alloc_short n_dsts n_tslot AND 0x3F) = (unat n_tslot + 1) div 2"
proof -
  define h :: u16 where "h = ucast ((ucast n_tslot + 1 :: u32) div 2)"
  have h: "unat h < 2 ^ 6" "unat h = (unat n_tslot + 1) div 2"
    using assms(2) alloc_half [of n_tslot] by (simp_all add: h_def)
  have d: "drop_bit 12 h = 0" "drop_bit 8 h = 0" "h AND mask 6 = h"
    using h(1) drop_small [OF h(1)] and_mask_small [OF h(1)] by simp_all
  have nb: "\<not> bit n_dsts j" if "4 \<le> j" for j
    using assms(1) that by (intro bit_small [of _ 4]) simp_all
  have n: "drop_bit 12 (push_bit 8 n_dsts) = 0" "push_bit 8 n_dsts AND mask 6 = 0"
    by (rule bit_word_eqI, use nb in \<open>force simp: bit_drop_bit_eq bit_push_bit_iff bit_and_iff bit_mask_iff possible_bit_def\<close>)+
  have n8: "drop_bit 8 (push_bit 8 n_dsts) = n_dsts"
  proof (rule bit_word_eqI)
    fix j show "bit (drop_bit 8 (push_bit 8 n_dsts)) j = bit n_dsts j"
      using nb [of j] by (cases "4 \<le> j") (auto simp: bit_drop_bit_eq bit_push_bit_iff possible_bit_def)
  qed
  have n4: "n_dsts AND mask 4 = n_dsts"
    using assms(1) by (intro and_mask_small) simp
  show "ucast (drop_bit 12 (alloc_short n_dsts n_tslot)) = (3 :: u8)"
    by (simp add: alloc_short_def h_def [symmetric] d n)
  show "unat (drop_bit 8 (alloc_short n_dsts n_tslot) AND 0xF) = unat n_dsts"
    unfolding and_F
    by (simp add: alloc_short_def h_def [symmetric] d n n4 n8 bit.conj_disj_distrib2) (simp add: mask_eq_exp_minus_1)
  show "unat (alloc_short n_dsts n_tslot AND 0x3F) = (unat n_tslot + 1) div 2"
    unfolding and_3F h(2) [symmetric]
    by (simp add: alloc_short_def h_def [symmetric] d n n4 n8 bit.conj_disj_distrib2) (simp add: mask_eq_exp_minus_1)
qed

subsection \<open>Round trip of the header\<close>

definition wf_pd :: "fpproto_pktdesc \<Rightarrow> bool" where
  "wf_pd pd \<longleftrightarrow> unat (pd_n_dsts pd) \<le> 15 \<and> length (pd_dsts pd) = 15
     \<and> unat (pd_alloc_tslot pd) \<le> 64 \<and> even (unat (pd_alloc_tslot pd)) \<and> length (pd_tslot_desc pd) = 64
     \<and> unat (pd_n_areq pd) \<le> 10 \<and> length (pd_areq pd) = 10"

lemma encode_alloc_short:
  "encode_alloc pd = be16 (alloc_short (pd_n_dsts pd) (pd_alloc_tslot pd)) @ be16 (pd_base_tslot pd)
     @ concat (map (\<lambda>i. be16 (pd_dsts pd ! i)) [0..<unat (pd_n_dsts pd)])
     @ map (\<lambda>i. pd_tslot_desc pd ! i) [0..<unat (pd_alloc_tslot pd)]"
  by (simp add: encode_alloc_def alloc_short_def)

lemma encode_areq_short:
  "encode_areq pd = be16 (areq_short (pd_n_areq pd))
     @ concat (map (\<lambda>i. be16 (ucast (src_dst_key (pd_areq pd ! i))) @ be16 (ucast (tslots (pd_areq pd ! i))))
                [0..<unat (pd_n_areq pd)])"
  by (simp add: encode_areq_def areq_short_def)

lemma be16_type: "drop_bit 4 (hd (be16 x)) = ucast (drop_bit 12 x)"
  by (simp add: be16_def drop4_be16)

lemma hd_be16_append: "hd (be16 x @ r) = hd (be16 x)" and be16_nonempty: "be16 x @ r \<noteq> []"
  by (simp_all add: be16_def)

lemma wire_type_plain:
  assumes "\<not> pd_send_reset pd" and "wf_pd pd"
  shows "wire_type pd (hdr_bytes pd c @ payload ep pd k) \<in> {3, 2, 0}"
proof (cases "payload ep pd k = []")
  case True
  then show ?thesis
    by (simp add: wire_type_def)
next
  case False
  then have w: "wire_type pd (hdr_bytes pd c @ payload ep pd k) = drop_bit 4 (hd (payload ep pd k))"
    by (simp add: wire_type_def nth_append hd_conv_nth)
  have "drop_bit 4 (hd (encode_alloc pd @ r)) = 3" "drop_bit 4 (hd (encode_areq pd @ r)) = 2" for r
    using alloc_short_fields(1) [of "pd_n_dsts pd" "pd_alloc_tslot pd"] areq_short_fields(1) assms(2)
    by (simp_all add: encode_alloc_short encode_areq_short hd_be16_append be16_type wf_pd_def)
  then have "drop_bit 4 (hd (payload ep pd k)) \<in> {3, 2, 0}"
    using False assms(1) by (auto simp: payload_def reset_bytes_def alloc_bytes_def areq_bytes_def
        hd_replicate split: if_splits)
  then show ?thesis
    unfolding w .
qed

lemma wire_type_other:
  assumes "\<not> pd_send_reset pd" and "wf_pd pd"
  shows "wire_type pd (hdr_bytes pd c @ payload ep pd k) \<noteq> FASTPASS_PTYPE_RESET"
  using wire_type_plain [OF assms, of c ep k] by (auto simp: FASTPASS_PTYPE_RESET_def)

lemma rd8_nth: "i < length p \<Longrightarrow> rd8 p i = Some (p ! i)"
  by (simp add: rd8_def)

lemma rx_seqnos_encoded:
  assumes c: "completable ep now pd s" and pt: "pt = FASTPASS_PTYPE_RESET \<longleftrightarrow> pd_send_reset pd"
  shows "rx_seqnos ep now pt (hdr_bytes pd c @ payload e pd k) \<lparr>hdr_seq = ucast (pd_seqno pd),
       hdr_ack_seq = ucast (pd_ack_seq pd), hdr_ack_vec = v, hdr_checksum = cs\<rparr> s
    = Some (if pd_send_reset pd then pd_reset_timestamp pd else 0, pd_seqno pd, pd_ack_seq pd)"
proof (cases "pd_send_reset pd")
  case True
  let ?t = "pd_reset_timestamp pd" and ?r = "alloc_bytes e pd @ areq_bytes pd @ replicate k 0"
  have "rd32 (hdr_bytes pd c @ be32 (reset_hi_word ?t) @ (be32 (ucast ?t) @ ?r)) 8 = Some (reset_hi_word ?t)"
    "rd32 ((hdr_bytes pd c @ be32 (reset_hi_word ?t)) @ be32 (ucast ?t) @ ?r) 12 = Some (ucast ?t)"
    by (rule rd32_be32, simp)+
  then have "rd32 (hdr_bytes pd c @ payload e pd k) 8 = Some (reset_hi_word ?t)"
    "rd32 (hdr_bytes pd c @ payload e pd k) 12 = Some (ucast ?t)"
    using True by (simp_all add: payload_def reset_bytes_def)
  moreover have "full_reset_tstamp now (reset_hi_word ?t) (ucast ?t) = ?t"
    using True c by (intro full_reset_tstamp_correct) (simp add: completable_def Let_def)
  ultimately show ?thesis
    using True c pt by (simp add: rx_seqnos_def Let_def completable_def complete_seqno_correct)
next
  case False
  then show ?thesis
    using c pt by (simp add: rx_seqnos_def completable_def complete_seqno_correct)
qed

lemma header_roundtrip:
  assumes enc: "fpproto_encode_packet ep' addr pd max_len min_size = (n, pkt)" "0 \<le> n" and wf: "wf_pd pd"
    and c: "completable ep now1 pd s" and al: "addr' mod 4 = addr mod 4"
  shows "fpproto_handle_rx_packet ep addr' now1 now2 pkt s =
    (case rx_verified ep now2 (wire_type pd pkt) (clear_checksum pkt)
       (if pd_send_reset pd then pd_reset_timestamp pd else 0) (pd_seqno pd) (pd_ack_seq pd) (pd_ack_vec pd)
       (got_good_packet (stat_inc st_rx_pkts_update s)) of (r, q, s') \<Rightarrow> (r, q, clear_checksum pkt, s'))"
proof -
  define s1 where "s1 = stat_inc st_rx_pkts_update s"
  obtain k where k: "pkt = hdr_bytes pd (fastpass_checksum addr (hdr_bytes pd 0 @ payload ep' pd k) (pd_seqno pd) (pd_ack_seq pd))
      @ payload ep' pd k"
    using encode_shape [OF enc] by blast
  define cs where "cs = fastpass_checksum addr (hdr_bytes pd 0 @ payload ep' pd k) (pd_seqno pd) (pd_ack_seq pd)"
  have pk: "pkt = hdr_bytes pd cs @ payload ep' pd k" and clr: "clear_checksum pkt = hdr_bytes pd 0 @ payload ep' pd k"
    using k clear_checksum_bytes by (simp_all add: cs_def)
  have pt: "wire_type pd pkt = FASTPASS_PTYPE_RESET \<longleftrightarrow> pd_send_reset pd"
    using wire_type_reset wire_type_other [OF _ wf] pk by blast
  have len: "\<not> length pkt < 8" "pd_send_reset pd \<longrightarrow> \<not> length pkt < 16"
    by (simp_all add: pk payload_def reset_bytes_def)
  have ty: "(if length pkt = 8 then Some 0 else map_option (drop_bit 4) (rd8 pkt 8)) = Some (wire_type pd pkt)"
    using len(1) by (simp add: wire_type_def rd8_nth)
  have "completable ep now1 pd s1"
    using c by (simp only: completable_def s1_def stat_inc_sel)
  note sq = rx_seqnos_encoded [OF this pt, of cs ep' k "pd_ack_vec pd" cs, folded pk]
  have "fastpass_checksum addr' (clear_checksum pkt) (pd_seqno pd) (pd_ack_seq pd) = cs"
    using csum_addr [OF al] by (simp add: clr cs_def)
  then show ?thesis
    using len ty pt read_hdr_bytes [of pd cs "payload ep' pd k", folded pk] sq
    by (simp add: fpproto_handle_rx_packet_def Let_def s1_def [symmetric], blast)
qed

subsection \<open>Round trip of the payloads\<close>

definition rx_rest :: "u8 list \<Rightarrow> nat \<Rightarrow> proto \<Rightarrow> bool \<times> proto" where
  "rx_rest pkt curp s = (if curp < length pkt then rx_payloads pkt curp s else (True, s))"

lemma rx_rest_step:
  assumes "handle_payload pkt curp s = (Some c, s')"
  shows "rx_rest pkt curp s = rx_rest pkt c s'"
  using handle_payload_progress [OF assms] assms by (simp add: rx_rest_def rx_payloads.simps [of pkt curp])

lemma blocks_at:
  assumes "i < n"
  shows "concat (map f [0..<n]) = concat (map f [0..<i]) @ f i @ concat (map f [Suc i..<n])"
proof -
  have "[0..<n] = [0..<i] @ [i..<n]"
    using assms upt_add_eq_append [of 0 i "n - i"] by simp
  also have "[i..<n] = i # [Suc i..<n]"
    using assms by (rule upt_conv_Cons)
  finally show ?thesis by simp
qed

lemma length_blocks: "(\<And>i. length (f i) = m) \<Longrightarrow> length (concat (map f xs)) = m * length xs"
  by (induction xs) auto

lemma rd16_block:
  assumes "i < n" and "\<And>i. length (f i) = m" and "f i = x @ be16 v @ y"
  shows "rd16 (p @ concat (map f [0..<n]) @ r) (length p + m * i + length x) = Some v"
proof -
  have eq: "p @ concat (map f [0..<n]) @ r = (p @ concat (map f [0..<i]) @ x) @ be16 v @ (y @ concat (map f [Suc i..<n]) @ r)"
    unfolding blocks_at [OF assms(1), of f] assms(3) by simp
  show ?thesis
    unfolding eq using length_blocks [of f m "[0..<i]"] assms(2) by (intro rd16_be16) simp
qed

lemma those_map_Some: "\<forall>x \<in> set xs. f x = Some (g x) \<Longrightarrow> those (map f xs) = Some (map g xs)"
  by (induction xs) auto

lemma nth_map_take: "n \<le> length xs \<Longrightarrow> map ((!) xs) [0..<n] = take n xs"
  by (simp add: list_eq_iff_nth_eq)

lemma rd8_be16: "rd8 (p @ be16 x @ r) (length p) = Some (hd (be16 x))"
  by (simp add: rd8_def be16_def nth_append)

lemma handle_payload_reset:
  "handle_payload (p @ be32 (reset_hi_word t) @ r) (length p) s = (Some (length p + 8), s)"
proof -
  have "rd8 (p @ be32 (reset_hi_word t) @ r) (length p) = Some (ucast (drop_bit 24 (reset_hi_word t)))"
    by (simp add: rd8_def be32_def nth_append)
  then show ?thesis
    using reset_hi_type [of t] by (simp add: handle_payload_def FASTPASS_PTYPE_ACK_def FASTPASS_PTYPE_RESET_def Let_def)
qed

lemma handle_payload_padding:
  "handle_payload (p @ replicate (Suc k) 0) (length p) s = (Some (length (p @ replicate (Suc k) 0)), s)"
  by (simp add: handle_payload_def rd8_def nth_append FASTPASS_PTYPE_ACK_def FASTPASS_PTYPE_RESET_def
      FASTPASS_PTYPE_ALLOC_def FASTPASS_PTYPE_AREQ_def FASTPASS_PTYPE_PADDING_def Let_def)

definition areq_body :: "fpproto_pktdesc \<Rightarrow> u8 list" where
  "areq_body pd = concat (map (\<lambda>i. be16 (ucast (src_dst_key (pd_areq pd ! i))) @ be16 (ucast (tslots (pd_areq pd ! i))))
     [0..<unat (pd_n_areq pd)])"

definition areq_event :: "fpproto_pktdesc \<Rightarrow> proto \<Rightarrow> out_event list" where
  "areq_event pd s = (if 0 < pd_n_areq pd \<and> has_handle_areq (ops s)
     then [Handle_areq (areq_body pd) (unat (pd_n_areq pd))] else [])"

definition alloc_event :: "bool \<Rightarrow> fpproto_pktdesc \<Rightarrow> proto \<Rightarrow> out_event list" where
  "alloc_event ep pd s = (if \<not> ep \<and> 0 < pd_alloc_tslot pd \<and> has_handle_alloc (ops s)
     then [Handle_alloc (push_bit 4 (ucast (pd_base_tslot pd))) (take (unat (pd_n_dsts pd)) (pd_dsts pd))
             (take (unat (pd_alloc_tslot pd)) (pd_tslot_desc pd))] else [])"

lemma length_areq_body: "length (areq_body pd) = 4 * unat (pd_n_areq pd)"
  unfolding areq_body_def by (subst length_blocks [of _ 4]) simp_all

lemma handle_payload_areq:
  assumes "wf_pd pd" and "0 < pd_n_areq pd"
  shows "handle_payload (p @ encode_areq pd @ r) (length p) s
    = (Some (length p + length (encode_areq pd)), s\<lparr>trace := trace s @ areq_event pd s\<rparr>)"
proof -
  let ?a = "areq_short (pd_n_areq pd)" and ?b = "areq_body pd"
  have e: "encode_areq pd = be16 ?a @ ?b"
    by (simp add: encode_areq_short areq_body_def)
  have f: "?a AND 0x3F = pd_n_areq pd" "drop_bit 4 (hd (be16 ?a)) = 2"
    using areq_short_fields [of "pd_n_areq pd"] assms(1) by (simp_all add: be16_type wf_pd_def)
  have "process_areq (p @ be16 ?a @ (?b @ r)) (length p) s
      = (Some (2 + 4 * unat (pd_n_areq pd)), s\<lparr>trace := trace s @ areq_event pd s\<rparr>)"
    using assms(2) by (simp add: process_areq_def f(1) length_areq_body Let_def areq_event_def emit_def)
  then show ?thesis
    using rd8_be16 [of p ?a "?b @ r"] f(2)
    by (simp add: e handle_payload_def length_areq_body FASTPASS_PTYPE_ACK_def FASTPASS_PTYPE_RESET_def
        FASTPASS_PTYPE_ALLOC_def FASTPASS_PTYPE_AREQ_def Let_def)
qed

lemma handle_payload_alloc:
  assumes wf: "wf_pd pd" and pos: "0 < pd_alloc_tslot pd"
  shows "handle_payload (p @ encode_alloc pd @ r) (length p) s
    = (Some (length p + length (encode_alloc pd)), s\<lparr>trace := trace s @ alloc_event False pd s\<rparr>)"
proof -
  let ?n = "unat (pd_n_dsts pd)" and ?t = "unat (pd_alloc_tslot pd)"
  let ?a = "alloc_short (pd_n_dsts pd) (pd_alloc_tslot pd)" and ?d = "concat (map (\<lambda>i. be16 (pd_dsts pd ! i)) [0..<?n])"
    and ?s = "map (\<lambda>i. pd_tslot_desc pd ! i) [0..<?t]"
  let ?pkt = "p @ be16 ?a @ be16 (pd_base_tslot pd) @ ?d @ ?s @ r"
  have e: "p @ encode_alloc pd @ r = ?pkt"
    by (simp add: encode_alloc_short)
  have f: "unat (drop_bit 8 ?a AND 0xF) = ?n" "2 * unat (?a AND 0x3F) = ?t" "drop_bit 4 (hd (be16 ?a)) = 3"
    using alloc_short_fields [of "pd_n_dsts pd" "pd_alloc_tslot pd"] wf by (auto simp: be16_type wf_pd_def)
  have l: "length ?d = 2 * ?n"
    by (subst length_blocks [of _ 2]) simp_all
  have "rd16 ?pkt (length p) = Some ?a"
    by simp
  moreover have "rd16 ((p @ be16 ?a) @ be16 (pd_base_tslot pd) @ ?d @ ?s @ r) (length p + 2) = Some (pd_base_tslot pd)"
    by (rule rd16_be16) simp
  moreover have "rd16 ((p @ be16 ?a @ be16 (pd_base_tslot pd)) @ ?d @ (?s @ r)) (length (p @ be16 ?a @ be16 (pd_base_tslot pd)) + 2 * i + length ([] :: u8 list))
      = Some (pd_dsts pd ! i)" if "i < ?n" for i
    by (rule rd16_block [where f = "\<lambda>i. be16 (pd_dsts pd ! i)" and y = "[]", OF that]) simp_all
  then have "those (map (\<lambda>i. rd16 ?pkt (length p + 4 + 2 * i)) [0..<?n]) = Some (map ((!) (pd_dsts pd)) [0..<?n])"
    by (intro those_map_Some) (simp add: add.commute add.left_commute)
  moreover have "map ((!) (pd_dsts pd)) [0..<?n] = take ?n (pd_dsts pd)" "?s = take ?t (pd_tslot_desc pd)"
    using wf nth_map_take [of ?n "pd_dsts pd"] nth_map_take [of ?t "pd_tslot_desc pd"] by (simp_all add: wf_pd_def)
  moreover have "take ?t (drop (length p + 4 + 2 * ?n) ?pkt) = ?s"
    by (simp add: l)
  moreover have "?t \<le> length (pd_tslot_desc pd)"
    using wf by (simp add: wf_pd_def)
  ultimately have "process_alloc ?pkt (length p) s
      = (Some (4 + 2 * ?n + ?t), s\<lparr>trace := trace s @ alloc_event False pd s\<rparr>)"
    using pos by (simp add: process_alloc_def f l Let_def alloc_event_def emit_def)
  then show ?thesis
    using rd8_be16 [of p ?a "be16 (pd_base_tslot pd) @ ?d @ ?s @ r"] f(3)
    by (simp add: e handle_payload_def FASTPASS_PTYPE_ACK_def FASTPASS_PTYPE_RESET_def
        FASTPASS_PTYPE_ALLOC_def Let_def) (simp add: encode_alloc_short l)
qed

lemma payload_roundtrip:
  assumes enc: "fpproto_encode_packet ep addr pd max_len min_size = (n, pkt)" "8 < n" and wf: "wf_pd pd"
  shows "fpproto_perform_rx_callbacks (clear_checksum pkt) s
    = (True, s\<lparr>trace := trace s @ alloc_event ep pd s @ areq_event pd s\<rparr>)"
proof -
  obtain cs k where pk: "pkt = hdr_bytes pd cs @ payload ep pd k" "n = int (length pkt)"
    using encode_shape [OF enc(1)] enc(2) by auto
  let ?p = "clear_checksum pkt" and ?h = "hdr_bytes pd 0"
  let ?R = "reset_bytes pd" and ?A = "alloc_bytes ep pd" and ?Q = "areq_bytes pd"
  have p: "?p = ?h @ ?R @ ?A @ ?Q @ replicate k 0"
    by (simp add: pk clear_checksum_bytes payload_def)
  define s1 s2 where "s1 = s\<lparr>trace := trace s @ alloc_event ep pd s\<rparr>"
    and "s2 = s\<lparr>trace := trace s @ alloc_event ep pd s @ areq_event pd s\<rparr>"
  have "rx_rest ?p 8 s = rx_rest ?p (length (?h @ ?R)) s"
    using rx_rest_step [OF handle_payload_reset [of ?h "pd_reset_timestamp pd" "be32 (ucast (pd_reset_timestamp pd)) @ ?A @ ?Q @ replicate k 0" s]]
    by (simp add: p reset_bytes_def)
  also have "\<dots> = rx_rest ?p (length (?h @ ?R @ ?A)) s1"
    using rx_rest_step [OF handle_payload_alloc [OF wf, of "?h @ ?R" "?Q @ replicate k 0" s]]
    by (auto simp: p alloc_bytes_def s1_def alloc_event_def add.assoc)
  also have "\<dots> = rx_rest ?p (length (?h @ ?R @ ?A @ ?Q)) s2"
    using rx_rest_step [OF handle_payload_areq [OF wf, of "?h @ ?R @ ?A" "replicate k 0" s1]]
    by (auto simp: p areq_bytes_def s1_def s2_def areq_event_def add.assoc)
  also have "\<dots> = (True, s2)"
  proof (cases k)
    case 0
    then show ?thesis by (simp add: p rx_rest_def)
  next
    case (Suc j)
    then show ?thesis
      using rx_rest_step [OF handle_payload_padding [of "?h @ ?R @ ?A @ ?Q" j s2]] by (simp add: p rx_rest_def)
  qed
  finally show ?thesis
    using enc(2) pk(2) by (simp add: fpproto_perform_rx_callbacks_def rx_rest_def s2_def)
qed

text \<open>The bytes handed to \<^verbatim>\<open>handle_areq\<close> are the requested destinations and demands, in order.\<close>

lemma areq_body_read:
  assumes "i < unat (pd_n_areq pd)"
  shows "rd16 (areq_body pd) (4 * i) = Some (ucast (src_dst_key (pd_areq pd ! i)))"
    and "rd16 (areq_body pd) (4 * i + 2) = Some (ucast (tslots (pd_areq pd ! i)))"
proof -
  let ?k = "\<lambda>i. be16 (ucast (src_dst_key (pd_areq pd ! i)))" and ?t = "\<lambda>i. be16 (ucast (tslots (pd_areq pd ! i)))"
  have "rd16 ([] @ concat (map (\<lambda>i. ?k i @ ?t i) [0..<unat (pd_n_areq pd)]) @ []) (length ([] :: u8 list) + 4 * i + length ([] :: u8 list))
      = Some (ucast (src_dst_key (pd_areq pd ! i)))"
    by (rule rd16_block [where f = "\<lambda>i. ?k i @ ?t i" and y = "?t i", OF assms]) simp_all
  then show "rd16 (areq_body pd) (4 * i) = Some (ucast (src_dst_key (pd_areq pd ! i)))"
    by (simp add: areq_body_def)
  have "rd16 ([] @ concat (map (\<lambda>i. ?k i @ ?t i) [0..<unat (pd_n_areq pd)]) @ []) (length ([] :: u8 list) + 4 * i + length (?k i))
      = Some (ucast (tslots (pd_areq pd ! i)))"
    by (rule rd16_block [where f = "\<lambda>i. ?k i @ ?t i" and y = "[]", OF assms]) simp_all
  then show "rd16 (areq_body pd) (4 * i + 2) = Some (ucast (tslots (pd_areq pd ! i)))"
    by (simp add: areq_body_def)
qed

subsection \<open>Acknowledgement vectors\<close>

text \<open>
  The 16 bits sent with every packet acknowledge, at the other side, only packets that were
  received: the vector rebuilt by the peer is contained in the window of received packets.
\<close>

definition sent_ack_vec :: "u64 \<Rightarrow> u16" where
  "sent_ack_vec iw = ucast (drop_bit 48 iw AND 0x7FFF)
     OR push_bit 15 (if iw AND drop_bit 16 (NOT 0) = drop_bit 16 (NOT 0) then 1 else 0)"

lemma all_low48: "(iw AND drop_bit 16 (NOT 0) = (drop_bit 16 (NOT 0) :: u64)) \<longleftrightarrow> (\<forall>j < 48. bit iw j)"
proof -
  have "(iw AND mask 48 = mask 48) \<longleftrightarrow> (\<forall>j < 48. bit iw j)"
  proof
    assume eq: "iw AND mask 48 = mask 48"
    show "\<forall>j < 48. bit iw j"
    proof (intro allI impI)
      fix j :: nat assume "j < 48"
      then have "bit (iw AND mask 48) j"
        unfolding eq by (simp add: bit_mask_iff possible_bit_def)
      then show "bit iw j"
        by (simp add: bit_and_iff)
    qed
  next
    assume "\<forall>j < 48. bit iw j"
    then show "iw AND mask 48 = mask 48"
      by (intro bit_word_eqI) (auto simp: bit_and_iff bit_mask_iff)
  qed
  then show ?thesis by simp
qed

lemma bit_sent_ack_vec:
  "bit (sent_ack_vec iw) i \<longleftrightarrow> (i < 15 \<and> bit iw (48 + i)) \<or> (i = 15 \<and> (\<forall>j < 48. bit iw j))"
proof -
  have m: "(0x7FFF :: u64) = mask 15"
    by (simp add: mask_eq_exp_minus_1)
  have "bit (push_bit 15 (if P then 1 else 0 :: u16)) i \<longleftrightarrow> i = 15 \<and> P" for P
    by (auto simp: bit_push_bit_iff possible_bit_def bit_1_iff simp del: push_bit_of_1)
  then show ?thesis
    unfolding sent_ack_vec_def all_low48 m
    by (auto simp: bit_or_iff bit_and_iff bit_unsigned_iff bit_drop_bit_eq bit_mask_iff possible_bit_def
        dest: bit_imp_le_length simp del: push_bit_of_1)
qed

lemma bit_ack_vec_of_hdr:
  "bit (ack_vec_of_hdr v) i \<longleftrightarrow> i < 64 \<and> (i = 63 \<or> (48 \<le> i \<and> i < 63 \<and> bit v (i - 48)) \<or> (i < 48 \<and> bit v 15))"
proof -
  have m: "(0x7FFF :: u16) = mask 15"
    by (simp add: mask_eq_exp_minus_1)
  have "bit v (15 + n) \<longleftrightarrow> n = 0 \<and> bit v 15" for n
    using bit_imp_le_length [of v "15 + n"] by (cases n) auto
  then have "drop_bit 15 v = (if bit v 15 then 1 else 0)"
    by (intro bit_word_eqI) (auto simp: bit_drop_bit_eq bit_1_iff)
  then have low: "(push_bit 48 1 - ucast (drop_bit 15 v)) AND NOT (push_bit 48 1) = (if bit v 15 then mask 48 else 0 :: u64)"
    by (simp add: mask_eq_exp_minus_1)
  show ?thesis
    unfolding ack_vec_of_hdr_def low m
    by (auto simp: bit_or_iff bit_and_iff bit_unsigned_iff bit_push_bit_iff bit_mask_iff possible_bit_def bit_1_iff
        simp del: push_bit_of_1)
qed

lemma ack_vec_bits:
  "bit (ack_vec_of_hdr (sent_ack_vec iw)) i \<longleftrightarrow>
     i < 64 \<and> (i = 63 \<or> (48 \<le> i \<and> bit iw i) \<or> (i < 48 \<and> (\<forall>j < 48. bit iw j)))"
  unfolding bit_ack_vec_of_hdr bit_sent_ack_vec by auto

lemma commit_ack_vec: "pd_ack_vec (commit_fields s now pd) = sent_ack_vec (inwnd s)"
  by (simp add: commit_fields_def sent_ack_vec_def)

lemma ack_vec_sound:
  assumes "bit iw 63" and "bit (ack_vec_of_hdr (sent_ack_vec iw)) i"
  shows "bit iw i"
  using assms unfolding ack_vec_bits by auto

subsection \<open>Properties of the wire format\<close>

definition all_ops :: fpproto_ops where
  "all_ops = \<lparr>has_handle_reset = True, has_handle_ack = True, has_handle_neg_ack = True,
     has_trigger_request = True, has_handle_alloc = True, has_handle_areq = True\<rparr>"

definition demo_codec_pd :: fpproto_pktdesc where
  "demo_codec_pd = \<lparr>pd_n_areq = 2, pd_areq = replicate 10 \<lparr>src_dst_key = 7, tslots = 3\<rparr>, pd_n_dsts = 1,
     pd_dsts = replicate 15 9, pd_dst_counts = replicate 15 0, pd_alloc_tslot = 2, pd_tslot_desc = replicate 64 17,
     pd_base_tslot = 5, pd_sent_timestamp = 0, pd_seqno = 3, pd_ack_seq = 0, pd_ack_vec = 1, pd_send_reset = False,
     pd_reset_timestamp = 0\<rparr>"

lemma demo_codec_wf: "wf_pd demo_codec_pd"
  by (simp add: wf_pd_def demo_codec_pd_def)

lemma length_encode_areq: "length (encode_areq pd) = 2 + 4 * unat (pd_n_areq pd)"
  by (simp add: encode_areq_short areq_body_def [symmetric] length_areq_body)

lemma length_encode_alloc: "length (encode_alloc pd) = 4 + 2 * unat (pd_n_dsts pd) + unat (pd_alloc_tslot pd)"
  unfolding encode_alloc_short by (simp add: length_blocks [of _ 2])

lemma demo_codec_enc: "\<exists>pkt. fpproto_encode_packet False 0 demo_codec_pd 154 64 = (64, pkt)"
proof -
  have "length (unpadded False demo_codec_pd) = 26"
    by (simp add: unpadded_def reset_bytes_def alloc_bytes_def areq_bytes_def length_encode_areq length_encode_alloc)
      (simp add: demo_codec_pd_def)
  then show ?thesis
    unfolding encode_unfold by (simp add: Let_def) (simp add: demo_codec_pd_def)
qed

lemma demo_codec_completable: "completable True 0 demo_codec_pd zero_conn"
  by (simp add: completable_def demo_codec_pd_def zero_conn_def zero_window_def wnd_head_def)

text \<open>
  C10. A packet written by \<^verbatim>\<open>fpproto_encode_packet\<close> passes the checks of
  \<^verbatim>\<open>fpproto_handle_rx_packet\<close> at the other end: its checksum is right and processing goes on with
  the full 64-bit sequence number, acknowledgement number and reset timestamp of the sender,
  provided they are within reach of the 16 and 56 bits that are sent, and the buffers of the sender and
  of the receiver are aligned alike (their addresses agree modulo 4: the checksum adds the bytes up in a
  way that depends on the alignment of the buffer).
\<close>

theorem encode_rx_header:
  assumes "fpproto_encode_packet ep' addr pd max_len min_size = (n, pkt)" and "0 \<le> n" and "wf_pd pd"
    and "completable ep now1 pd s" and "addr' mod 4 = addr mod 4"
  shows "fpproto_handle_rx_packet ep addr' now1 now2 pkt s =
    (case rx_verified ep now2 (wire_type pd pkt) (clear_checksum pkt)
       (if pd_send_reset pd then pd_reset_timestamp pd else 0) (pd_seqno pd) (pd_ack_seq pd) (pd_ack_vec pd)
       (got_good_packet (stat_inc st_rx_pkts_update s)) of (r, q, s') \<Rightarrow> (r, q, clear_checksum pkt, s'))"
  using header_roundtrip [OF assms] .

theorem encode_rx_header_witness:
  "\<exists>pkt. fpproto_encode_packet False 0 demo_codec_pd 154 64 = (64, pkt)
    \<and> fpproto_handle_rx_packet True 8 0 0 pkt zero_conn =
    (case rx_verified True 0 (wire_type demo_codec_pd pkt) (clear_checksum pkt) 0 3 0 1
       (got_good_packet (stat_inc st_rx_pkts_update zero_conn)) of (r, q, s') \<Rightarrow> (r, q, clear_checksum pkt, s'))"
proof -
  obtain pkt where pkt: "fpproto_encode_packet False 0 demo_codec_pd 154 64 = (64, pkt)"
    using demo_codec_enc by blast
  have "pd_send_reset demo_codec_pd = False" "pd_seqno demo_codec_pd = 3" "pd_ack_seq demo_codec_pd = 0" "pd_ack_vec demo_codec_pd = 1"
    by (simp_all add: demo_codec_pd_def)
  with encode_rx_header [OF pkt _ demo_codec_wf demo_codec_completable, of 8 0] show ?thesis
    by (intro exI [of _ pkt] conjI pkt) simp
qed

text \<open>
  C11. The payloads of an encoded packet reach the callbacks unchanged and in order: one
  \<^verbatim>\<open>handle_alloc\<close> with the base timeslot, the destinations and the timeslot descriptors, then
  one \<^verbatim>\<open>handle_areq\<close> with the requests; padding and RESET are skipped.
\<close>

theorem encode_rx_payloads:
  assumes "fpproto_encode_packet ep addr pd max_len min_size = (n, pkt)" and "8 < n" and "wf_pd pd"
  shows "fpproto_perform_rx_callbacks (clear_checksum pkt) s
    = (True, s\<lparr>trace := trace s @ alloc_event ep pd s @ areq_event pd s\<rparr>)"
  using payload_roundtrip [OF assms] .

theorem encode_rx_payloads_witness:
  "\<exists>pkt. fpproto_encode_packet False 0 demo_codec_pd 154 64 = (64, pkt)
    \<and> fpproto_perform_rx_callbacks (clear_checksum pkt) (zero_conn\<lparr>ops := all_ops\<rparr>)
      = (True, zero_conn\<lparr>ops := all_ops, trace := [Handle_alloc 80 [9] [17, 17], Handle_areq [0, 7, 0, 3, 0, 7, 0, 3] 2]\<rparr>)"
proof -
  obtain pkt where pkt: "fpproto_encode_packet False 0 demo_codec_pd 154 64 = (64, pkt)"
    using demo_codec_enc by blast
  have "alloc_event False demo_codec_pd (zero_conn\<lparr>ops := all_ops\<rparr>) @ areq_event demo_codec_pd (zero_conn\<lparr>ops := all_ops\<rparr>)
      = [Handle_alloc 80 [9] [17, 17], Handle_areq [0, 7, 0, 3, 0, 7, 0, 3] 2]"
    by code_simp
  moreover have "trace zero_conn = []"
    by (simp add: zero_conn_def)
  ultimately show ?thesis
    using encode_rx_payloads [OF pkt _ demo_codec_wf, of "zero_conn\<lparr>ops := all_ops\<rparr>"]
    by (intro exI [of _ pkt] conjI pkt) simp
qed

text \<open>
  A packet acknowledges only what was received: every bit of the vector that the peer
  rebuilds from the 16 bits of a committed packet is a bit of the window of received packets.
\<close>

theorem acks_only_received:
  assumes "conn_inv s" and "bit (ack_vec_of_hdr (pd_ack_vec (commit_fields s now pd))) i"
  shows "bit (inwnd s) i"
  using assms ack_vec_sound [of "inwnd s" i] by (simp add: commit_ack_vec conn_inv_def)

theorem acks_only_received_witness:
  "bit (inwnd (fpproto_init_conn True 5 zero_ops 10 10 zero_conn)) 63"
proof (rule acks_only_received)
  show "conn_inv (fpproto_init_conn True 5 zero_ops 10 10 zero_conn)"
    using init_ok [OF zero_conn_inv(1)] by (simp add: ok_step_def)
  show "bit (ack_vec_of_hdr (pd_ack_vec (commit_fields (fpproto_init_conn True 5 zero_ops 10 10 zero_conn) 0 demo_codec_pd))) 63"
    by (simp add: commit_ack_vec ack_vec_bits)
qed

end
