(* ===== verification/FP_Loops.thy ===== *)
theory FP_Loops
  imports FP_Prelude "HOL-Library.Monad_Syntax" "HOL-Library.Multiset"
begin

unbundle bit_operations_syntax

text \<open>
  Shared vocabulary of the arbiter's allocation code: stateful C code is state passing in
  the option monad, where \<^term>\<open>None\<close> stands for a run that does not return: an assertion
  of the code fails, an array is accessed outside its bounds, or a loop never ends. A
  counting loop is \<^verbatim>\<open>foldo\<close> over its indices. \<^verbatim>\<open>wp m P\<close> is the total correctness of \<^verbatim>\<open>m\<close>:
  it returns, and the result satisfies \<^verbatim>\<open>P\<close>. Nothing here models code of the repository.
\<close>

named_theorems wp_intro \<open>total correctness of the operations, as introduction rules\<close>

definition guard_o :: "bool \<Rightarrow> unit option" where
  "guard_o b = (if b then Some () else None)"

primrec foldo :: "('a \<Rightarrow> 's \<Rightarrow> 's option) \<Rightarrow> 'a list \<Rightarrow> 's \<Rightarrow> 's option" where
  "foldo f [] s = Some s"
| "foldo f (x # xs) s = f x s \<bind> foldo f xs"

definition wp :: "'a option \<Rightarrow> ('a \<Rightarrow> bool) \<Rightarrow> bool" where
  "wp m P = (\<exists>x. m = Some x \<and> P x)"

definition lsb_of :: "u64 \<Rightarrow> nat" where
  "lsb_of x = (case find (bit x) [0..<64] of Some i \<Rightarrow> i | None \<Rightarrow> 64)"

subsection \<open>Total correctness\<close>

lemma wp_None [simp]: "wp None P \<longleftrightarrow> False"
  by (simp add: wp_def)

lemma wp_Some [simp]: "wp (Some x) P \<longleftrightarrow> P x"
  by (simp add: wp_def)

lemma wp_bind [simp]: "wp (m \<bind> f) P \<longleftrightarrow> wp m (\<lambda>x. wp (f x) P)"
  by (cases m) auto

lemma wp_guard [simp]: "wp (guard_o b) P \<longleftrightarrow> b \<and> P ()"
  by (simp add: guard_o_def)

lemma wp_Let [simp]: "wp (Let e f) P \<longleftrightarrow> wp (f e) P"
  by simp

lemma wp_if [simp]: "wp (if b then m else m') P \<longleftrightarrow> (if b then wp m P else wp m' P)"
  by simp

lemma wp_mono: "wp m P \<Longrightarrow> (\<And>x. P x \<Longrightarrow> Q x) \<Longrightarrow> wp m Q"
  by (auto simp: wp_def)

lemma wp_conj: "wp m P \<Longrightarrow> wp m Q \<Longrightarrow> wp m (\<lambda>x. P x \<and> Q x)"
  by (auto simp: wp_def)

lemma wpD: "wp m P \<Longrightarrow> \<exists>x. m = Some x \<and> P x"
  by (simp add: wp_def)

lemma wp_and: "wp m P \<Longrightarrow> (\<And>x. m = Some x \<Longrightarrow> Q x) \<Longrightarrow> wp m (\<lambda>x. P x \<and> Q x)"
  by (auto simp: wp_def)

lemma foldo_append: "foldo f (xs @ ys) s = foldo f xs s \<bind> foldo f ys"
proof (induction xs arbitrary: s)
  case (Cons x xs)
  then show ?case by (cases "f x s") auto
qed simp

lemma foldo_map: "foldo f (map g xs) s = foldo (\<lambda>x. f (g x)) xs s"
proof (induction xs arbitrary: s)
  case (Cons x xs)
  then show ?case by (cases "f (g x) s") auto
qed simp

lemma wp_foldo:
  assumes "P 0 s"
    and "\<And>i s. i < length xs \<Longrightarrow> P i s \<Longrightarrow> wp (f (xs ! i) s) (P (Suc i))"
  shows "wp (foldo f xs s) (P (length xs))"
  using assms
proof (induction xs arbitrary: s P)
  case (Cons x xs)
  have "wp (f x s) (P (Suc 0))"
    using Cons.prems(1) Cons.prems(2) [of 0 s] by simp
  moreover have "wp (foldo f xs s') (P (Suc (length xs)))" if "P (Suc 0) s'" for s'
    using Cons.IH [of "\<lambda>i. P (Suc i)" s'] that Cons.prems(2) by fastforce
  ultimately show ?case
    by (auto simp: wp_def)
qed simp

lemma wp_upto:
  assumes "P 0 s" and "\<And>i s. i < n \<Longrightarrow> P i s \<Longrightarrow> wp (f i s) (P (Suc i))"
  shows "wp (foldo f [0..<n] s) (P n)"
  using wp_foldo [of P s "[0..<n]" f] assms by simp

subsection \<open>Lists updated in one place\<close>

lemma sum_list_upd:
  "i < length xs \<Longrightarrow> sum_list (xs[i := x]) + xs ! i = sum_list xs + (x :: 'a::cancel_comm_monoid_add)"
proof (induction xs arbitrary: i)
  case (Cons a xs)
  then show ?case by (cases i) (auto simp: ac_simps)
qed simp

lemma list_update_all: "\<forall>x \<in> set xs. P x \<Longrightarrow> P y \<Longrightarrow> \<forall>x \<in> set (xs[i := y]). P x"
  using set_update_subset_insert [of xs i y] by blast

subsection \<open>The lowest set bit\<close>

lemma lsb_of_Some:
  assumes "(x :: u64) \<noteq> 0"
  shows "bit x (lsb_of x)" and "lsb_of x < 64" and "\<And>i. i < lsb_of x \<Longrightarrow> \<not> bit x i"
proof -
  obtain k where k: "k < 64" "bit x k"
    using assms by (auto simp: u64_neq_0_iff)
  then obtain i where i: "find (bit x) [0..<64] = Some i"
    by (cases "find (bit x) [0..<64]") (auto simp: find_None_iff)
  then have "i < 64" "bit x i" "\<And>j. j < i \<Longrightarrow> \<not> bit x j"
    by (auto simp: find_Some_iff)
  then show "bit x (lsb_of x)" "lsb_of x < 64" "\<And>i. i < lsb_of x \<Longrightarrow> \<not> bit x i"
    by (simp_all add: lsb_of_def i)
qed

lemma lsb_of_least: "bit (x :: u64) i \<Longrightarrow> lsb_of x \<le> i"
  by (metis lsb_of_Some(3) bit_0_eq bot_apply bot_bool_def linorder_not_le)

lemma isolate_lowest_bit:
  assumes "(x :: u64) \<noteq> 0"
  shows "x AND (- x) = push_bit (lsb_of x) 1"
proof -
  let ?k = "lsb_of x"
  note k = lsb_of_Some [OF assms]
  have low: "bit (x - 1) i \<longleftrightarrow> i < ?k \<or> ?k < i \<and> bit x i" if "i < 64" for i
  proof -
    define hi where "hi = x AND NOT (mask (Suc ?k))"
    have bit_hi: "bit hi i \<longleftrightarrow> i < 64 \<and> ?k < i \<and> bit x i" for i
      by (auto simp: hi_def word_bits bit_mask_iff possible_bit_def dest: bit_word_lt)
    have bit_k: "bit (push_bit ?k 1 :: u64) i \<longleftrightarrow> i = ?k" for i
      using k(2) by (auto simp: word_bits simp del: push_bit_of_1)
    have "hi + push_bit ?k 1 = hi OR push_bit ?k 1"
      by (rule disjunctive_add_eq_or, rule bit_word_eqI)
         (auto simp: bit_and_iff bit_hi bit_k simp del: push_bit_of_1)
    also have "\<dots> = x"
      using k by (intro bit_word_eqI)
        (auto simp: bit_or_iff bit_hi bit_k simp del: push_bit_of_1,
         metis linorder_neqE_nat)
    finally have x: "x = hi + push_bit ?k 1" ..
    have m: "(push_bit ?k 1 :: u64) - 1 = mask ?k"
      by (simp add: mask_eq_exp_minus_1)
    have "x - 1 = hi + mask ?k"
      using arg_cong [OF x, of "\<lambda>y. y - 1"] by (simp only: add_diff_eq [symmetric] m)
    also have "\<dots> = hi OR mask ?k"
      by (rule disjunctive_add_eq_or, rule bit_word_eqI)
         (auto simp: bit_and_iff bit_hi bit_mask_iff)
    finally have e: "x - 1 = hi OR mask ?k" .
    show ?thesis
      using that by (auto simp: e bit_or_iff bit_hi bit_mask_iff possible_bit_def)
  qed
  have neg: "- x = NOT (x - 1)"
    by (simp add: not_eq_complement)
  show ?thesis
  proof (rule bit_word_eqI)
    fix n assume "n < LENGTH(64)"
    then have n: "n < 64" by simp
    have "bit (x AND (- x)) n \<longleftrightarrow> bit x n \<and> \<not> bit (x - 1) n"
      using n by (simp only: neg bit_and_iff bit_u64_not) simp
    also have "\<dots> \<longleftrightarrow> n = ?k"
      using low [OF n] k(1,3) by (metis linorder_neqE_nat)
    also have "\<dots> \<longleftrightarrow> bit (push_bit ?k 1 :: u64) n"
      using k(2) n by (auto simp: word_bits simp del: push_bit_of_1)
    finally show "bit (x AND (- x)) n \<longleftrightarrow> bit (push_bit ?k 1 :: u64) n" .
  qed
qed

end
