(* ===== verification/FP_Ring.thy ===== *)
theory FP_Ring
  imports FP_Loops
begin

unbundle bit_operations_syntax

text \<open>
  The queues and pools of the stand-alone build of the allocator:
  \<^verbatim>\<open>src/src/graph-algo/fp_ring.h\<close> (a ring buffer with free-running 32-bit head and tail)
  and the memory pool of \<^verbatim>\<open>src/src/graph-algo/platform.h\<close>. What a ring or a pool holds is a
  type parameter. The array behind a ring is a list; what \<^verbatim>\<open>malloc\<close> leaves in it is the
  argument \<^verbatim>\<open>mem\<close> (\<^term>\<open>None\<close> when the allocation fails). The contract of a queue is the
  locale \<^verbatim>\<open>fifo\<close>, interpreted on the ring.
\<close>

subsection \<open>Definitions: the ring\<close>

definition FP_RING_BUFFER_SIZE :: nat where "FP_RING_BUFFER_SIZE = 128"

record 'a fp_ring =
  ring_head :: u32
  ring_tail :: u32
  ring_mask :: u32
  ring_elem :: "'a list"

definition fp_ring_create :: "nat \<Rightarrow> (nat \<Rightarrow> 'a) option \<Rightarrow> 'a fp_ring option" where
  "fp_ring_create log_size mem = do {
     let num_elems = (push_bit log_size 1 :: u32);
     garbage \<leftarrow> mem;
     Some \<lparr> ring_head = 0, ring_tail = 0, ring_mask = num_elems - 1,
            ring_elem = map garbage [0..<unat num_elems] \<rparr> }"

definition fp_ring_enqueue :: "'a fp_ring \<Rightarrow> 'a \<Rightarrow> 'a fp_ring option" where
  "fp_ring_enqueue ring x = do {
     guard_o (ring_tail ring \<noteq> ring_head ring + ring_mask ring);
     let i = unat (ring_tail ring AND ring_mask ring);
     guard_o (i < length (ring_elem ring));
     Some (ring\<lparr> ring_elem := (ring_elem ring)[i := x], ring_tail := ring_tail ring + 1 \<rparr>) }"

definition fp_ring_enqueue_bulk :: "'a fp_ring \<Rightarrow> 'a list \<Rightarrow> 'a fp_ring option" where
  "fp_ring_enqueue_bulk ring elems = do {
     guard_o (ring_tail ring + of_nat (length elems) \<le> ring_head ring + ring_mask ring);
     foldo (\<lambda>x r. fp_ring_enqueue r x) elems ring }"

text \<open>
  The result of a dequeue is the object, or \<^term>\<open>None\<close> for \<^verbatim>\<open>-ENOENT\<close>.
\<close>

definition fp_ring_dequeue :: "'a fp_ring \<Rightarrow> ('a option \<times> 'a fp_ring) option" where
  "fp_ring_dequeue ring =
     (if ring_head ring = ring_tail ring then Some (None, ring)
      else do {
        let i = unat (ring_head ring AND ring_mask ring);
        guard_o (i < length (ring_elem ring));
        Some (Some (ring_elem ring ! i), ring\<lparr> ring_head := ring_head ring + 1 \<rparr>) })"

primrec burst :: "('q \<Rightarrow> ('a option \<times> 'q) option) \<Rightarrow> nat \<Rightarrow> 'q \<Rightarrow> ('a list \<times> 'q) option" where
  "burst deq 0 q = Some ([], q)"
| "burst deq (Suc n) q = do {
     (r, q1) \<leftarrow> deq q;
     case r of
       None \<Rightarrow> Some ([], q1)
     | Some x \<Rightarrow> do { (xs, q2) \<leftarrow> burst deq n q1; Some (x # xs, q2) } }"

definition fp_ring_dequeue_burst :: "'a fp_ring \<Rightarrow> nat \<Rightarrow> ('a list \<times> 'a fp_ring) option" where
  "fp_ring_dequeue_burst r n = burst fp_ring_dequeue n r"

definition fp_ring_empty :: "'a fp_ring \<Rightarrow> bool" where
  "fp_ring_empty ring = (ring_head ring = ring_tail ring)"

definition destroy_pointer_queue :: "'a fp_ring \<Rightarrow> unit option" where
  "destroy_pointer_queue queue = guard_o (ring_head queue = ring_tail queue)"

subsection \<open>Definitions: the memory pool\<close>

record 'a fp_mempool =
  total_elements :: u32
  cur_elements :: u32
  elements :: "'a list"

text \<open>
  \<^verbatim>\<open>fp_mempool_create\<close> calls \<^verbatim>\<open>malloc\<close> for the table and for each element; \<^verbatim>\<open>objs\<close> lists what
  the calls for the elements returned, \<^verbatim>\<open>tables\<close> tells whether the two others succeeded.
  When a call fails everything allocated before is freed and NULL is returned.
\<close>

definition fp_mempool_create :: "bool \<Rightarrow> 'a option list \<Rightarrow> 'a fp_mempool option" where
  "fp_mempool_create tables objs =
     (if tables \<and> None \<notin> set objs
      then Some \<lparr> total_elements = of_nat (length objs), cur_elements = of_nat (length objs),
                  elements = map the objs \<rparr>
      else None)"

definition fp_mempool_get :: "'a fp_mempool \<Rightarrow> ('a option \<times> 'a fp_mempool) option" where
  "fp_mempool_get mp =
     (if cur_elements mp = 0 then Some (None, mp)
      else do {
        let c = cur_elements mp - 1;
        guard_o (unat c < length (elements mp));
        Some (Some (elements mp ! unat c), mp\<lparr> cur_elements := c \<rparr>) })"

definition fp_mempool_put :: "'a fp_mempool \<Rightarrow> 'a \<Rightarrow> 'a fp_mempool option" where
  "fp_mempool_put mp obj = do {
     guard_o (unat (cur_elements mp) < length (elements mp));
     Some (mp\<lparr> elements := (elements mp)[unat (cur_elements mp) := obj],
               cur_elements := cur_elements mp + 1 \<rparr>) }"

definition fp_mempool_get_bulk :: "'a fp_mempool \<Rightarrow> nat \<Rightarrow> ('a list option \<times> 'a fp_mempool) option" where
  "fp_mempool_get_bulk mp n =
     (if unat (cur_elements mp) < n then Some (None, mp)
      else do {
        let c = cur_elements mp - of_nat n;
        guard_o (unat c + n \<le> length (elements mp));
        Some (Some (take n (drop (unat c) (elements mp))), mp\<lparr> cur_elements := c \<rparr>) })"

subsection \<open>Definitions: scripts of queue operations\<close>

text \<open>
  A script is any interleaving of the producer's and the consumer's calls; \<^verbatim>\<open>script_fits\<close> says
  that it never enqueues into a full queue (the assertion of \<^verbatim>\<open>fp_ring_enqueue\<close>).
\<close>

datatype 'a qop = Enq 'a | Deq

primrec run_script :: "('q \<Rightarrow> 'a \<Rightarrow> 'q option) \<Rightarrow> ('q \<Rightarrow> ('a option \<times> 'q) option) \<Rightarrow> 'a qop list
    \<Rightarrow> 'q \<Rightarrow> ('a list \<times> 'q) option" where
  "run_script enq deq [] q = Some ([], q)"
| "run_script enq deq (op # ops) q =
     (case op of
        Enq x \<Rightarrow> do { q1 \<leftarrow> enq q x; run_script enq deq ops q1 }
      | Deq \<Rightarrow> do {
          (r, q1) \<leftarrow> deq q;
          (out, q2) \<leftarrow> run_script enq deq ops q1;
          Some (case_option [] (\<lambda>x. [x]) r @ out, q2) })"

primrec script_fits :: "nat \<Rightarrow> nat \<Rightarrow> 'a qop list \<Rightarrow> bool" where
  "script_fits room n [] = True"
| "script_fits room n (op # ops) =
     (case op of Enq x \<Rightarrow> n < room \<and> script_fits room (Suc n) ops
      | Deq \<Rightarrow> script_fits room (n - 1) ops)"

primrec enqueued :: "'a qop list \<Rightarrow> 'a list" where
  "enqueued [] = []"
| "enqueued (op # ops) = (case op of Enq x \<Rightarrow> x # enqueued ops | Deq \<Rightarrow> enqueued ops)"

subsection \<open>What a ring and a pool hold\<close>

definition ring_count :: "'a fp_ring \<Rightarrow> nat" where
  "ring_count r = unat (ring_tail r - ring_head r)"

definition ring_slot :: "'a fp_ring \<Rightarrow> nat \<Rightarrow> nat" where
  "ring_slot r i = unat ((ring_head r + of_nat i) AND ring_mask r)"

definition ring_list :: "'a fp_ring \<Rightarrow> 'a list" where
  "ring_list r = map (\<lambda>i. ring_elem r ! ring_slot r i) [0..<ring_count r]"

definition ring_room :: "'a fp_ring \<Rightarrow> nat" where
  "ring_room r = unat (ring_mask r)"

definition ring_wf :: "'a fp_ring \<Rightarrow> bool" where
  "ring_wf r \<longleftrightarrow> length (ring_elem r) = unat (ring_mask r) + 1
     \<and> (\<exists>k \<le> 31. ring_mask r = mask k) \<and> ring_count r \<le> unat (ring_mask r)"

definition pool_list :: "'a fp_mempool \<Rightarrow> 'a list" where
  "pool_list mp = take (unat (cur_elements mp)) (elements mp)"

definition pool_wf :: "'a fp_mempool \<Rightarrow> bool" where
  "pool_wf mp \<longleftrightarrow> unat (cur_elements mp) \<le> length (elements mp)
     \<and> length (elements mp) < 4294967296"

definition pool_size :: "'a fp_mempool \<Rightarrow> nat" where
  "pool_size mp = length (elements mp)"

subsection \<open>The ring is a bounded queue\<close>

lemma unat_u32_add_of_nat: "unat ((h :: u32) + of_nat i) = (unat h + i) mod 4294967296"
  by (simp add: unat_word_ariths unat_of_nat mod_add_right_eq)

lemma ring_slot_mod:
  assumes "ring_mask r = mask k" "k \<le> 31"
  shows "ring_slot r i = (unat (ring_head r) + i) mod 2 ^ k"
proof -
  have "(2 :: nat) ^ k dvd 2 ^ 32"
    using assms by (intro le_imp_power_dvd) simp
  then show ?thesis
    by (simp add: ring_slot_def assms unat_and_mask unat_u32_add_of_nat mod_mod_cancel)
qed

lemma unat_mask_u32:
  assumes "k \<le> 31"
  shows "unat (mask k :: u32) + 1 = 2 ^ k"
proof -
  have "unat (mask k :: u32) = unat ((- 1 :: u32) AND mask k)"
    by simp
  also have "\<dots> = (2 ^ 32 - 1) mod 2 ^ k"
    by (simp only: unat_and_mask) (simp add: unsigned_minus_1_eq_mask mask_eq_exp_minus_1)
  also have "\<dots> = 2 ^ k - 1"
    using assms mask_mod_exp [of 32 k, where ?'a = nat] by (simp add: mask_eq_exp_minus_1)
  finally show ?thesis
    by simp
qed

lemma ring_wfE:
  assumes "ring_wf r"
  obtains k where "k \<le> 31" "ring_mask r = mask k" "length (ring_elem r) = 2 ^ k"
    "ring_count r < 2 ^ k" "ring_room r + 1 = 2 ^ k"
proof -
  from assms obtain k where k: "k \<le> 31" "ring_mask r = mask k"
    and l: "length (ring_elem r) = unat (ring_mask r) + 1" "ring_count r \<le> unat (ring_mask r)"
    by (auto simp: ring_wf_def)
  then show ?thesis
    using that [of k] unat_mask_u32 [OF k(1)] by (simp add: ring_room_def)
qed

lemma ring_slot_lt: "ring_wf r \<Longrightarrow> ring_slot r i < length (ring_elem r)"
  by (erule ring_wfE) (simp add: ring_slot_mod)

lemma mod_add_inj:
  assumes "i < m" "j < (m :: nat)" "(a + i) mod m = (a + j) mod m"
  shows "i = j"
proof -
  have "b \<le> c \<Longrightarrow> c < m \<Longrightarrow> (a + b) mod m = (a + c) mod m \<Longrightarrow> b = c" for b c
    using mod_eq_dvd_iff_nat [of "a + b" "a + c" m] nat_dvd_not_less [of "c - b" m] by fastforce
  then show ?thesis
    using assms by (metis nat_le_linear)
qed

lemma ring_slot_inj:
  assumes "ring_wf r" "i \<le> ring_room r" "j \<le> ring_room r" "ring_slot r i = ring_slot r j"
  shows "i = j"
proof -
  obtain k where k: "k \<le> 31" "ring_mask r = mask k" "ring_room r + 1 = 2 ^ k"
    using ring_wfE [OF assms(1)] by blast
  then have "i < 2 ^ k" "j < 2 ^ k"
    using assms(2,3) by simp_all
  then show ?thesis
    using assms(4) mod_add_inj [of i "2 ^ k" j "unat (ring_head r)"]
    by (simp add: ring_slot_mod [OF k(2,1)])
qed

lemma ring_tail_slot: "ring_tail r AND ring_mask r = (ring_head r + of_nat (ring_count r)) AND ring_mask r"
  by (simp add: ring_count_def)

lemma length_ring_list [simp]: "length (ring_list r) = ring_count r"
  by (simp add: ring_list_def)

lemma ring_count_room: "ring_wf r \<Longrightarrow> ring_count r \<le> ring_room r"
  by (simp add: ring_wf_def ring_room_def)

lemma ring_not_full:
  assumes "ring_wf r" "ring_count r < ring_room r"
  shows "ring_tail r \<noteq> ring_head r + ring_mask r"
  using assms by (auto simp: ring_count_def ring_room_def)

lemma ring_count_Suc:
  assumes "ring_wf r" "ring_count r < ring_room r"
  shows "unat (ring_tail r + 1 - ring_head r) = Suc (ring_count r)"
proof -
  have "unat (ring_tail r - ring_head r) + 1 < 4294967296"
    using assms unat_u32_lt [of "ring_mask r"] unfolding ring_count_def ring_room_def
    by linarith
  then have "unat ((ring_tail r - ring_head r) + 1) = unat (ring_tail r - ring_head r) + 1"
    by (simp add: unat_word_ariths)
  then show ?thesis
    by (simp add: ring_count_def algebra_simps)
qed

lemma fp_ring_enqueue_ok:
  assumes "ring_wf r" "ring_count r < ring_room r"
  shows "wp (fp_ring_enqueue r x) (\<lambda>r'. ring_wf r' \<and> ring_list r' = ring_list r @ [x]
           \<and> ring_room r' = ring_room r \<and> ring_head r' = ring_head r)"
proof -
  let ?i = "ring_slot r (ring_count r)"
  let ?r = "r\<lparr>ring_elem := (ring_elem r)[?i := x], ring_tail := ring_tail r + 1\<rparr>"
  have i: "unat (ring_tail r AND ring_mask r) = ?i"
    by (simp add: ring_slot_def ring_tail_slot)
  have eq: "fp_ring_enqueue r x = Some ?r"
    using ring_slot_lt [OF assms(1)] ring_not_full [OF assms]
    by (simp add: fp_ring_enqueue_def i guard_o_def)
  have cnt: "ring_count ?r = Suc (ring_count r)"
    using ring_count_Suc [OF assms] by (simp add: ring_count_def)
  have slot: "ring_slot ?r j = ring_slot r j" for j
    by (simp add: ring_slot_def)
  have "?i \<noteq> ring_slot r j" if "j < ring_count r" for j
    using ring_slot_inj [OF assms(1), of j "ring_count r"] that assms(2) by auto
  then have "ring_list ?r = ring_list r @ [x]"
    using ring_slot_lt [OF assms(1), of "ring_count r"]
    by (simp add: ring_list_def cnt slot)
  moreover have "ring_wf ?r"
    using assms cnt by (auto simp: ring_wf_def ring_room_def)
  ultimately show ?thesis
    by (simp add: eq ring_room_def)
qed

lemma fp_ring_dequeue_empty:
  "ring_wf r \<Longrightarrow> ring_list r = [] \<Longrightarrow> fp_ring_dequeue r = Some (None, r)"
  by (simp add: ring_list_def fp_ring_dequeue_def ring_count_def unat_eq_zero)

lemma fp_ring_dequeue_ok:
  assumes "ring_wf r" "ring_list r = x # xs"
  shows "wp (fp_ring_dequeue r) (\<lambda>(y, r'). y = Some x \<and> ring_wf r' \<and> ring_list r' = xs
           \<and> ring_room r' = ring_room r \<and> ring_head r' = ring_head r + 1)"
proof -
  let ?r = "r\<lparr>ring_head := ring_head r + 1\<rparr>"
  have n: "ring_count r = Suc (length xs)"
    using arg_cong [OF assms(2), of length] by simp
  then have ne: "ring_head r \<noteq> ring_tail r"
    by (auto simp: ring_count_def)
  have i: "unat (ring_head r AND ring_mask r) = ring_slot r 0"
    by (simp add: ring_slot_def)
  have x: "ring_elem r ! ring_slot r 0 = x"
    using arg_cong [OF assms(2), of "\<lambda>l. l ! 0"] n
    by (simp add: ring_list_def nth_append del: upt_Suc)
  have eq: "fp_ring_dequeue r = Some (Some x, ?r)"
    using ne ring_slot_lt [OF assms(1)] x by (simp add: fp_ring_dequeue_def i guard_o_def)
  have cnt: "ring_count ?r = length xs"
  proof -
    have "ring_tail r - ring_head r \<noteq> 0" using ne by simp
    then have "unat (ring_tail r - ring_head r - 1) = unat (ring_tail r - ring_head r) - 1"
      using unat_minus_one by blast
    then show ?thesis
      using n by (simp add: ring_count_def algebra_simps)
  qed
  have slot: "ring_slot ?r j = ring_slot r (Suc j)" for j
    by (simp add: ring_slot_def algebra_simps)
  have "ring_list r = x # map (\<lambda>j. ring_elem r ! ring_slot r (Suc j)) [0..<length xs]"
    by (simp add: ring_list_def n x upt_rec [of 0 "Suc (length xs)"] map_Suc_upt [symmetric]
        del: upt_Suc)
  then have "ring_list ?r = xs"
    using assms(2) by (simp add: ring_list_def cnt slot)
  moreover have "ring_wf ?r"
    using assms(1) cnt n by (auto simp: ring_wf_def)
  ultimately show ?thesis
    by (simp add: eq ring_room_def)
qed

lemma fp_ring_create_ok:
  assumes "log_size \<le> 31"
  shows "wp (fp_ring_create log_size (Some g)) (\<lambda>r. ring_wf r \<and> ring_list r = []
           \<and> ring_room r = 2 ^ log_size - 1)"
proof -
  have m: "(push_bit log_size 1 :: u32) - 1 = mask log_size"
    by (simp add: mask_eq_exp_minus_1)
  have u: "unat (push_bit log_size 1 :: u32) = 2 ^ log_size"
  proof -
    have "(2 :: nat) ^ log_size < 2 ^ 32"
      using assms by (intro power_strict_increasing) simp_all
    then show ?thesis
      using unat_of_nat [of "2 ^ log_size", where ?'a = 32] by simp
  qed
  show ?thesis
    using unat_mask_u32 [OF assms] assms
    by (auto simp: fp_ring_create_def m u ring_wf_def ring_count_def ring_list_def ring_room_def
        simp del: push_bit_of_1)
qed

subsection \<open>The contract of a queue\<close>

text \<open>
  What the allocator relies on when it passes bins between cores: a bounded first-in
  first-out queue. The loops over it (a burst, a bulk insert, any script) are proved once
  here.
\<close>

locale fifo =
  fixes wf :: "'q \<Rightarrow> bool"
    and contents :: "'q \<Rightarrow> 'a list"
    and room :: "'q \<Rightarrow> nat"
    and enq :: "'q \<Rightarrow> 'a \<Rightarrow> 'q option"
    and deq :: "'q \<Rightarrow> ('a option \<times> 'q) option"
  assumes count_room: "wf q \<Longrightarrow> length (contents q) \<le> room q"
    and enq_ok: "wf q \<Longrightarrow> length (contents q) < room q \<Longrightarrow>
      wp (enq q x) (\<lambda>q'. wf q' \<and> contents q' = contents q @ [x] \<and> room q' = room q)"
    and deq_empty: "wf q \<Longrightarrow> contents q = [] \<Longrightarrow> deq q = Some (None, q)"
    and deq_ok: "wf q \<Longrightarrow> contents q = x # xs \<Longrightarrow>
      wp (deq q) (\<lambda>(y, q'). y = Some x \<and> wf q' \<and> contents q' = xs \<and> room q' = room q)"
begin

lemma enq_all:
  assumes "wf q" "length (contents q) + length xs \<le> room q"
  shows "wp (foldo (\<lambda>x r. enq r x) xs q)
    (\<lambda>q'. wf q' \<and> contents q' = contents q @ xs \<and> room q' = room q)"
  using assms
proof (induction xs arbitrary: q)
  case (Cons x xs)
  have "wp (enq q x) (\<lambda>q'. wf q' \<and> contents q' = contents q @ [x] \<and> room q' = room q)"
    using Cons.prems by (intro enq_ok) auto
  then show ?case
    unfolding foldo.simps wp_bind
  proof (rule wp_mono)
    fix q' assume q': "wf q' \<and> contents q' = contents q @ [x] \<and> room q' = room q"
    then show "wp (foldo (\<lambda>x r. enq r x) xs q')
        (\<lambda>q'. wf q' \<and> contents q' = contents q @ x # xs \<and> room q' = room q)"
      using Cons.IH [of q'] Cons.prems by auto
  qed
qed simp

lemma burst_ok:
  assumes "wf q"
  shows "wp (burst deq n q) (\<lambda>(xs, q'). xs = take n (contents q) \<and> wf q'
    \<and> contents q' = drop n (contents q) \<and> room q' = room q)"
  using assms
proof (induction n arbitrary: q)
  case (Suc n)
  show ?case
  proof (cases "contents q")
    case Nil
    then show ?thesis using Suc.prems by (simp add: deq_empty)
  next
    case (Cons x xs)
    obtain q1 where q1: "deq q = Some (Some x, q1)" "wf q1" "contents q1 = xs" "room q1 = room q"
      using wpD [OF deq_ok [OF Suc.prems Cons]] by auto
    then show ?thesis
      using wpD [OF Suc.IH [OF q1(2)]] Cons by auto
  qed
qed simp

lemma script_ok:
  assumes "wf q" "script_fits (room q) (length (contents q)) ops"
  shows "wp (run_script enq deq ops q) (\<lambda>(out, q'). out @ contents q' = contents q @ enqueued ops
    \<and> wf q' \<and> room q' = room q)"
  using assms
proof (induction ops arbitrary: q)
  case (Cons op ops)
  show ?case
  proof (cases op)
    case (Enq x)
    then obtain q1 where q1: "enq q x = Some q1" "wf q1" "contents q1 = contents q @ [x]"
        "room q1 = room q"
      using wpD [OF enq_ok [OF Cons.prems(1)]] Cons.prems(2) by auto
    then show ?thesis
      using wpD [OF Cons.IH [OF q1(2)]] Cons.prems(2) Enq by auto
  next
    case Deq
    show ?thesis
    proof (cases "contents q")
      case Nil
      then show ?thesis
        using wpD [OF Cons.IH [OF Cons.prems(1)]] Cons.prems Deq
        by (auto simp: deq_empty)
    next
      case (Cons x xs)
      obtain q1 where q1: "deq q = Some (Some x, q1)" "wf q1" "contents q1 = xs" "room q1 = room q"
        using wpD [OF deq_ok [OF Cons.prems(1) Cons]] by auto
      then show ?thesis
        using wpD [OF Cons.IH [OF q1(2)]] Cons.prems(2) Deq Cons by auto
    qed
  qed
qed simp

end

interpretation rq: fifo ring_wf ring_list ring_room fp_ring_enqueue fp_ring_dequeue
proof
  fix r :: "'a fp_ring" and x
  show "ring_wf r \<Longrightarrow> length (ring_list r) \<le> ring_room r"
    by (simp add: ring_count_room)
  show "ring_wf r \<Longrightarrow> length (ring_list r) < ring_room r \<Longrightarrow> wp (fp_ring_enqueue r x)
      (\<lambda>r'. ring_wf r' \<and> ring_list r' = ring_list r @ [x] \<and> ring_room r' = ring_room r)"
    by (rule wp_mono [OF fp_ring_enqueue_ok]) auto
  show "ring_wf r \<Longrightarrow> ring_list r = [] \<Longrightarrow> fp_ring_dequeue r = Some (None, r)"
    by (rule fp_ring_dequeue_empty)
  show "ring_wf r \<Longrightarrow> ring_list r = x # xs \<Longrightarrow> wp (fp_ring_dequeue r) (\<lambda>(y, r'). y = Some x
      \<and> ring_wf r' \<and> ring_list r' = xs \<and> ring_room r' = ring_room r)" for xs
    by (rule wp_mono [OF fp_ring_dequeue_ok]) auto
qed

text \<open>
  C26: from an empty or partly filled ring, any interleaving of enqueues and dequeues that never
  enqueues into a full ring runs without a failed assertion, and what was dequeued followed by
  what the ring still holds is what it held followed by what was enqueued, in that order, for every
  position of the free-running 32-bit indices.
\<close>

theorem ring_refines_queue:
  assumes "ring_wf r" "script_fits (ring_room r) (ring_count r) ops"
  shows "\<exists>out r'. run_script fp_ring_enqueue fp_ring_dequeue ops r = Some (out, r')
    \<and> out @ ring_list r' = ring_list r @ enqueued ops \<and> ring_wf r'"
  using wpD [OF rq.script_ok [of r ops]] assms by auto

theorem ring_refines_queue_witness:
  "\<exists>out r'. run_script fp_ring_enqueue fp_ring_dequeue [Enq (7 :: nat), Enq 8, Deq, Enq 9]
      \<lparr> ring_head = - 1, ring_tail = - 1, ring_mask = 3, ring_elem = [0, 0, 0, 0] \<rparr> = Some (out, r')
    \<and> out @ ring_list r' = [7, 8, 9]"
proof -
  let ?r = "\<lparr> ring_head = - 1, ring_tail = - 1, ring_mask = 3, ring_elem = [0, 0, 0, 0] \<rparr> :: nat fp_ring"
  have "ring_wf ?r" "ring_list ?r = []"
    by (auto simp: ring_wf_def ring_count_def ring_list_def mask_eq_exp_minus_1 intro!: exI [of _ 2])
  then show ?thesis
    using ring_refines_queue [of ?r "[Enq 7, Enq 8, Deq, Enq 9]"] by (auto simp: ring_room_def ring_count_def)
qed

subsection \<open>Bulk operations of the ring\<close>

lemma fp_ring_enqueue_head: "fp_ring_enqueue r x = Some r' \<Longrightarrow> ring_head r' = ring_head r"
  by (auto simp: fp_ring_enqueue_def guard_o_def Let_def split: if_splits bind_splits)

lemma foldo_enqueue_head:
  "foldo (\<lambda>x r. fp_ring_enqueue r x) xs r = Some r' \<Longrightarrow> ring_head r' = ring_head r"
proof (induction xs arbitrary: r)
  case (Cons x xs)
  then show ?case
    by (auto split: bind_splits dest!: fp_ring_enqueue_head)
qed simp

lemma fp_ring_dequeue_head:
  "fp_ring_dequeue r = Some (y, r') \<Longrightarrow>
     ring_head r' = ring_head r + (if y = None then 0 else 1)"
  by (auto simp: fp_ring_dequeue_def guard_o_def Let_def split: if_splits bind_splits)

lemma fp_ring_dequeue_burst_head:
  "fp_ring_dequeue_burst r n = Some (xs, r') \<Longrightarrow> ring_head r' = ring_head r + of_nat (length xs)"
  unfolding fp_ring_dequeue_burst_def
proof (induction n arbitrary: r xs)
  case (Suc n)
  then obtain y r1 where d: "fp_ring_dequeue r = Some (y, r1)"
    by (auto split: bind_splits)
  note h = fp_ring_dequeue_head [OF d]
  show ?case
  proof (cases y)
    case None
    then show ?thesis using Suc.prems d h by auto
  next
    case (Some a)
    then obtain ys r2 where "burst fp_ring_dequeue n r1 = Some (ys, r2)" "xs = a # ys" "r' = r2"
      using Suc.prems d by (auto split: bind_splits)
    then show ?thesis using Suc.IH [of r1 ys] h Some by auto
  qed
qed auto

lemma fp_ring_dequeue_burst_ok:
  assumes "ring_wf r"
  shows "wp (fp_ring_dequeue_burst r n) (\<lambda>(xs, r'). xs = take n (ring_list r) \<and> ring_wf r'
    \<and> ring_list r' = drop n (ring_list r) \<and> ring_room r' = ring_room r
    \<and> ring_head r' = ring_head r + of_nat (length xs))"
  using wpD [OF rq.burst_ok [OF assms, of n]] fp_ring_dequeue_burst_head [of r n]
  by (auto simp: fp_ring_dequeue_burst_def)

lemma fp_ring_dequeue_burst_split:
  assumes "ring_wf r"
  obtains xs q where "fp_ring_dequeue_burst r n = Some (xs, q)" "ring_wf q" "ring_list r = xs @ ring_list q"
    "ring_room q = ring_room r" "ring_head q = ring_head r + of_nat (length xs)" "length xs \<le> n"
proof -
  obtain xs q where x: "fp_ring_dequeue_burst r n = Some (xs, q)" "xs = take n (ring_list r) \<and> ring_wf q
      \<and> ring_list q = drop n (ring_list r) \<and> ring_room q = ring_room r
      \<and> ring_head q = ring_head r + of_nat (length xs)"
    using wpD [OF fp_ring_dequeue_burst_ok [OF assms, of n]] by blast
  then have "ring_list r = xs @ ring_list q" "length xs \<le> n"
    by simp_all
  then show thesis
    using that x by blast
qed

text \<open>
  The assertion of \<^verbatim>\<open>fp_ring_enqueue_bulk\<close> compares wrapped 32-bit sums, so its lemma asks that
  the head is far enough from \<^verbatim>\<open>2^32\<close>.
\<close>

lemma fp_ring_enqueue_bulk_ok:
  assumes "ring_wf r" "ring_count r + length xs \<le> ring_room r"
    and "unat (ring_head r) + ring_room r < 4294967296"
  shows "wp (fp_ring_enqueue_bulk r xs) (\<lambda>r'. ring_wf r' \<and> ring_list r' = ring_list r @ xs
    \<and> ring_room r' = ring_room r \<and> ring_head r' = ring_head r)"
proof -
  have "unat (ring_tail r + of_nat (length xs)) = unat (ring_head r) + (ring_count r + length xs)"
  proof -
    have "ring_tail r + of_nat (length xs) = ring_head r + of_nat (ring_count r + length xs)"
      by (simp add: ring_count_def)
    then show ?thesis
      using assms(2,3) unat_u32_add_of_nat [of "ring_head r" "ring_count r + length xs"]
      by (simp add: add.assoc)
  qed
  moreover have "unat (ring_head r + ring_mask r) = unat (ring_head r) + ring_room r"
    using assms(3) by (simp add: unat_word_ariths ring_room_def)
  ultimately have "ring_tail r + of_nat (length xs) \<le> ring_head r + ring_mask r"
    using assms(2) by (simp add: word_le_nat_alt)
  then have eq: "fp_ring_enqueue_bulk r xs = foldo (\<lambda>x r. fp_ring_enqueue r x) xs r"
    by (simp add: fp_ring_enqueue_bulk_def guard_o_def)
  have "length (ring_list r) + length xs \<le> ring_room r"
    using assms(2) by simp
  from wpD [OF rq.enq_all [OF assms(1) this]] obtain r' where
    "foldo (\<lambda>x r. fp_ring_enqueue r x) xs r = Some r'" "ring_wf r'"
    "ring_list r' = ring_list r @ xs" "ring_room r' = ring_room r"
    by blast
  then show ?thesis
    using foldo_enqueue_head [of xs r r'] by (simp add: eq)
qed

subsection \<open>The pool is a stack\<close>

lemma length_pool_list: "pool_wf mp \<Longrightarrow> length (pool_list mp) = unat (cur_elements mp)"
  by (simp add: pool_wf_def pool_list_def)

lemma fp_mempool_get_ok:
  assumes "pool_wf mp" "pool_list mp \<noteq> []"
  shows "wp (fp_mempool_get mp) (\<lambda>(y, mp'). \<exists>x. y = Some x \<and> pool_wf mp'
    \<and> pool_list mp = pool_list mp' @ [x] \<and> pool_size mp' = pool_size mp)"
proof -
  have ne: "cur_elements mp \<noteq> 0"
    using assms by (auto simp: pool_list_def)
  then have u: "unat (cur_elements mp - 1) = unat (cur_elements mp) - 1"
    and pos: "0 < unat (cur_elements mp)"
    by (simp_all add: unat_minus_one unat_gt_0)
  then have lt: "unat (cur_elements mp) - 1 < length (elements mp)"
    using assms(1) unfolding pool_wf_def by linarith
  show ?thesis
    using assms(1) ne lt pos take_Suc_conv_app_nth [OF lt]
    by (simp add: fp_mempool_get_def pool_wf_def pool_list_def pool_size_def u)
qed

lemma fp_mempool_get_none:
  "pool_wf mp \<Longrightarrow> pool_list mp = [] \<Longrightarrow> fp_mempool_get mp = Some (None, mp)"
  by (auto simp: fp_mempool_get_def pool_list_def pool_wf_def unat_eq_zero)

lemma fp_mempool_put_ok:
  assumes "pool_wf mp" "length (pool_list mp) < pool_size mp"
  shows "wp (fp_mempool_put mp x) (\<lambda>mp'. pool_wf mp' \<and> pool_list mp' = pool_list mp @ [x]
    \<and> pool_size mp' = pool_size mp)"
proof -
  have lt: "unat (cur_elements mp) < length (elements mp)"
    using assms by (simp add: pool_size_def length_pool_list)
  then have "unat (cur_elements mp + 1) = unat (cur_elements mp) + 1"
    using assms(1) by (simp add: unat_word_ariths pool_wf_def)
  then show ?thesis
    using assms(1) lt
    by (simp add: fp_mempool_put_def pool_wf_def pool_list_def pool_size_def
        take_Suc_conv_app_nth)
qed

lemma fp_mempool_get_bulk_ok:
  assumes "pool_wf mp" "n \<le> length (pool_list mp)"
  shows "wp (fp_mempool_get_bulk mp n) (\<lambda>(y, mp'). \<exists>xs. y = Some xs \<and> length xs = n \<and> pool_wf mp'
    \<and> pool_list mp = pool_list mp' @ xs \<and> pool_size mp' = pool_size mp)"
proof -
  have n: "n \<le> unat (cur_elements mp)"
    using assms by (simp add: length_pool_list)
  then have "n < 4294967296"
    using unat_u32_lt [of "cur_elements mp"] by linarith
  then have "unat (of_nat n :: u32) = n"
    by (simp add: unat_of_nat)
  then have u: "unat (cur_elements mp - of_nat n) = unat (cur_elements mp) - n"
    using n by (simp add: unat_sub_if')
  have "take (unat (cur_elements mp)) (elements mp)
      = take (unat (cur_elements mp) - n) (elements mp)
        @ take n (drop (unat (cur_elements mp) - n) (elements mp))"
    using n take_add [of "unat (cur_elements mp) - n" n "elements mp"] by simp
  then show ?thesis
    using assms(1) n
    by (auto simp: fp_mempool_get_bulk_def pool_wf_def pool_list_def pool_size_def u)
qed

end
