(* ===== verification/FP_AdmLog.thy ===== *)
theory FP_AdmLog
  imports FP_Loops
begin

unbundle bit_operations_syntax

text \<open>
  The counters of the allocator, \<^verbatim>\<open>src/src/graph-algo/admissible_algo_log.h\<close>, with
  \<^verbatim>\<open>MAINTAIN_ADM_LOG_COUNTERS\<close> and \<^verbatim>\<open>MAINTAIN_CORE_BIN_HISTOGRAM\<close> set, as in the code.
  Arrays are functions from indices. They are write-only: no decision of the allocator reads
  them. The three counters of the grant/accept variant are part of the structure.
\<close>

definition BACKLOG_HISTOGRAM_NUM_BINS :: u32 where "BACKLOG_HISTOGRAM_NUM_BINS = 16"
definition BACKLOG_HISTOGRAM_SHIFT :: nat where "BACKLOG_HISTOGRAM_SHIFT = 2"
definition BIN_SIZE_HISTOGRAM_NUM_BINS :: u32 where "BIN_SIZE_HISTOGRAM_NUM_BINS = 16"
definition BIN_SIZE_HISTOGRAM_SHIFT :: nat where "BIN_SIZE_HISTOGRAM_SHIFT = 4"
definition CORE_BIN_HISTOGRAM_NUM_BINS :: u32 where "CORE_BIN_HISTOGRAM_NUM_BINS = 16"
definition CORE_BIN_HISTOGRAM_SHIFT :: nat where "CORE_BIN_HISTOGRAM_SHIFT = 2"

record admission_core_statistics =
  no_available_timeslots_for_bin_entry :: u64
  allocated_backlog_remaining :: u64
  backlog_sum :: u64
  allocated_no_backlog :: u64
  backlog_histogram :: "nat \<Rightarrow> u64"
  bin_size_histogram :: "nat \<Rightarrow> u64"
  core_bins_histogram :: "nat \<Rightarrow> u64"
  admitted_traffic_alloc_failed :: u64
  wait_for_space_in_q_bin_out :: u64
  wait_for_space_in_q_spent :: u64
  wait_for_space_in_q_admitted_out :: u64
  out_bin_alloc_failed :: u64
  q_out_flush_bin_full :: u64
  q_out_flush_batch_finished :: u64
  q_spent_flush_bin_full :: u64
  q_spent_flush_batch_finished :: u64
  stat_new_request_bins :: u64
  stat_new_requests :: u64
  waiting_to_pass_token :: u64
  passed_bins_during_wrap_up :: u64
  passed_bins_during_run :: u64
  wrap_up_non_empty_bin :: u64
  wrap_up_non_empty_bin_demands :: u64
  phase_finished :: u64
  phase_none_ready :: u64
  phase_out_of_order :: u64

record admission_statistics =
  wait_for_space_in_q_head :: u64
  new_demands_bin_alloc_failed :: u64
  added_backlog_atomically :: u64
  backlog_sum_atomically :: u64
  backlog_sum_inc_atomically :: u64
  added_backlog_to_queue :: u64
  backlog_sum_to_queue :: u64
  backlog_sum_inc_to_queue :: u64
  backlog_flush_forced :: u64
  backlog_flush_bin_full :: u64
  spent_bins :: u64
  spent_demands :: u64

subsection \<open>Global counters\<close>

text \<open>
  \<^verbatim>\<open>new_backlog\<close> is an \<^verbatim>\<open>int32_t\<close> parameter: adding it to a 64-bit counter sign-extends it.
\<close>

definition adm_log_increased_backlog_to_queue ::
    "admission_statistics \<Rightarrow> u32 \<Rightarrow> u32 \<Rightarrow> admission_statistics" where
  "adm_log_increased_backlog_to_queue ast amt new_backlog = ast\<lparr>
     added_backlog_to_queue := added_backlog_to_queue ast + 1,
     backlog_sum_inc_to_queue := backlog_sum_inc_to_queue ast + ucast amt,
     backlog_sum_to_queue := backlog_sum_to_queue ast + scast new_backlog \<rparr>"

definition adm_log_increased_backlog_atomically ::
    "admission_statistics \<Rightarrow> u32 \<Rightarrow> u32 \<Rightarrow> admission_statistics" where
  "adm_log_increased_backlog_atomically ast amt new_backlog = ast\<lparr>
     added_backlog_atomically := added_backlog_atomically ast + 1,
     backlog_sum_inc_atomically := backlog_sum_inc_atomically ast + ucast amt,
     backlog_sum_atomically := backlog_sum_atomically ast + scast new_backlog \<rparr>"

definition adm_log_forced_backlog_flush :: "admission_statistics \<Rightarrow> admission_statistics" where
  "adm_log_forced_backlog_flush st = st\<lparr> backlog_flush_forced := backlog_flush_forced st + 1 \<rparr>"

definition adm_log_backlog_flush_bin_full :: "admission_statistics \<Rightarrow> admission_statistics" where
  "adm_log_backlog_flush_bin_full st = st\<lparr> backlog_flush_bin_full := backlog_flush_bin_full st + 1 \<rparr>"

definition adm_log_processed_spent_demands ::
    "admission_statistics \<Rightarrow> u32 \<Rightarrow> u32 \<Rightarrow> admission_statistics" where
  "adm_log_processed_spent_demands st num_bins num_demands = st\<lparr>
     spent_bins := spent_bins st + scast num_bins,
     spent_demands := spent_demands st + ucast num_demands \<rparr>"

subsection \<open>Counters of a core\<close>

definition adm_algo_log_no_available_timeslots_for_bin_entry ::
    "admission_core_statistics \<Rightarrow> admission_core_statistics" where
  "adm_algo_log_no_available_timeslots_for_bin_entry st = st\<lparr>
     no_available_timeslots_for_bin_entry := no_available_timeslots_for_bin_entry st + 1 \<rparr>"

definition hist_inc :: "(nat \<Rightarrow> u64) \<Rightarrow> u32 \<Rightarrow> u64 \<Rightarrow> nat \<Rightarrow> u64" where
  "hist_inc h i v = h(unat i := h (unat i) + v)"

text \<open>
  \<^verbatim>\<open>int32_t backlog\<close>: the shift keeps its sign, and adding it to a 64-bit counter extends it.
\<close>

definition adm_log_allocated_backlog_remaining ::
    "admission_core_statistics \<Rightarrow> u32 \<Rightarrow> admission_core_statistics" where
  "adm_log_allocated_backlog_remaining st backlog =
     (let hist_bin = signed_drop_bit BACKLOG_HISTOGRAM_SHIFT backlog;
          hist_bin = (if hist_bin \<ge> BACKLOG_HISTOGRAM_NUM_BINS
                      then BACKLOG_HISTOGRAM_NUM_BINS - 1 else hist_bin)
      in st\<lparr> allocated_backlog_remaining := allocated_backlog_remaining st + 1,
             backlog_sum := backlog_sum st + scast backlog,
             backlog_histogram := hist_inc (backlog_histogram st) hist_bin 1 \<rparr>)"

definition adm_log_allocator_no_backlog ::
    "admission_core_statistics \<Rightarrow> admission_core_statistics" where
  "adm_log_allocator_no_backlog st = st\<lparr> allocated_no_backlog := allocated_no_backlog st + 1 \<rparr>"

definition adm_log_dequeued_bin_in ::
    "admission_core_statistics \<Rightarrow> u16 \<Rightarrow> admission_core_statistics" where
  "adm_log_dequeued_bin_in st sz =
     (let hist_bin = drop_bit BIN_SIZE_HISTOGRAM_SHIFT (ucast sz :: u32);
          hist_bin = (if hist_bin \<ge> BIN_SIZE_HISTOGRAM_NUM_BINS
                      then BIN_SIZE_HISTOGRAM_NUM_BINS - 1 else hist_bin)
      in st\<lparr> bin_size_histogram := hist_inc (bin_size_histogram st) hist_bin 1 \<rparr>)"

definition adm_log_processed_core_bin ::
    "admission_core_statistics \<Rightarrow> u16 \<Rightarrow> u16 \<Rightarrow> admission_core_statistics" where
  "adm_log_processed_core_bin st bin_index sz =
     (let hist_bin = drop_bit CORE_BIN_HISTOGRAM_SHIFT (ucast bin_index :: u32);
          hist_bin = (if hist_bin \<ge> CORE_BIN_HISTOGRAM_NUM_BINS
                      then BIN_SIZE_HISTOGRAM_NUM_BINS - 1 else hist_bin)
      in st\<lparr> core_bins_histogram := hist_inc (core_bins_histogram st) hist_bin (ucast sz) \<rparr>)"

definition adm_log_passed_bins_during_wrap_up ::
    "admission_core_statistics \<Rightarrow> u32 \<Rightarrow> admission_core_statistics" where
  "adm_log_passed_bins_during_wrap_up st n_bins = st\<lparr>
     passed_bins_during_wrap_up := passed_bins_during_wrap_up st + ucast n_bins \<rparr>"

definition adm_log_passed_bins_during_run ::
    "admission_core_statistics \<Rightarrow> u32 \<Rightarrow> admission_core_statistics" where
  "adm_log_passed_bins_during_run st n_bins = st\<lparr>
     passed_bins_during_run := passed_bins_during_run st + ucast n_bins \<rparr>"

definition adm_log_wrap_up_non_empty_bin ::
    "admission_core_statistics \<Rightarrow> u32 \<Rightarrow> admission_core_statistics" where
  "adm_log_wrap_up_non_empty_bin st sz = st\<lparr>
     wrap_up_non_empty_bin := wrap_up_non_empty_bin st + 1,
     wrap_up_non_empty_bin_demands := wrap_up_non_empty_bin_demands st + ucast sz \<rparr>"

definition adm_log_q_out_flush_bin_full ::
    "admission_core_statistics \<Rightarrow> admission_core_statistics" where
  "adm_log_q_out_flush_bin_full st = st\<lparr> q_out_flush_bin_full := q_out_flush_bin_full st + 1 \<rparr>"

definition adm_log_q_spent_flush_bin_full ::
    "admission_core_statistics \<Rightarrow> admission_core_statistics" where
  "adm_log_q_spent_flush_bin_full st = st\<lparr> q_spent_flush_bin_full := q_spent_flush_bin_full st + 1 \<rparr>"

definition adm_log_q_out_flush_batch_finished ::
    "admission_core_statistics \<Rightarrow> admission_core_statistics" where
  "adm_log_q_out_flush_batch_finished st = st\<lparr>
     q_out_flush_batch_finished := q_out_flush_batch_finished st + 1 \<rparr>"

definition adm_log_q_spent_flush_batch_finished ::
    "admission_core_statistics \<Rightarrow> admission_core_statistics" where
  "adm_log_q_spent_flush_batch_finished st = st\<lparr>
     q_spent_flush_batch_finished := q_spent_flush_batch_finished st + 1 \<rparr>"

definition adm_log_processed_new_requests ::
    "admission_core_statistics \<Rightarrow> u32 \<Rightarrow> u32 \<Rightarrow> admission_core_statistics" where
  "adm_log_processed_new_requests st num_bins num_demands = st\<lparr>
     stat_new_request_bins := stat_new_request_bins st + scast num_bins,
     stat_new_requests := stat_new_requests st + ucast num_demands \<rparr>"

text \<open>
  The counters of waits and failed allocations, which the stand-alone build never reaches and
  returns from (a wait there does not end), and those of the grant/accept variant.
\<close>

definition adm_log_wait_for_space_in_q_head :: "admission_statistics \<Rightarrow> admission_statistics" where
  "adm_log_wait_for_space_in_q_head st = st\<lparr> wait_for_space_in_q_head := wait_for_space_in_q_head st + 1 \<rparr>"

definition adm_log_new_demands_bin_alloc_failed :: "admission_statistics \<Rightarrow> admission_statistics" where
  "adm_log_new_demands_bin_alloc_failed st = st\<lparr> new_demands_bin_alloc_failed := new_demands_bin_alloc_failed st + 1 \<rparr>"

definition adm_log_wait_for_space_in_q_bin_out :: "admission_core_statistics \<Rightarrow> admission_core_statistics" where
  "adm_log_wait_for_space_in_q_bin_out st = st\<lparr> wait_for_space_in_q_bin_out := wait_for_space_in_q_bin_out st + 1 \<rparr>"

definition adm_log_wait_for_space_in_q_spent :: "admission_core_statistics \<Rightarrow> admission_core_statistics" where
  "adm_log_wait_for_space_in_q_spent st = st\<lparr> wait_for_space_in_q_spent := wait_for_space_in_q_spent st + 1 \<rparr>"

definition adm_log_wait_for_space_in_q_admitted_traffic :: "admission_core_statistics \<Rightarrow> admission_core_statistics" where
  "adm_log_wait_for_space_in_q_admitted_traffic st = st\<lparr> wait_for_space_in_q_admitted_out := wait_for_space_in_q_admitted_out st + 1 \<rparr>"

definition adm_log_admitted_traffic_alloc_failed :: "admission_core_statistics \<Rightarrow> admission_core_statistics" where
  "adm_log_admitted_traffic_alloc_failed st = st\<lparr> admitted_traffic_alloc_failed := admitted_traffic_alloc_failed st + 1 \<rparr>"

definition adm_log_out_bin_alloc_failed :: "admission_core_statistics \<Rightarrow> admission_core_statistics" where
  "adm_log_out_bin_alloc_failed st = st\<lparr> out_bin_alloc_failed := out_bin_alloc_failed st + 1 \<rparr>"

definition adm_log_wait_for_q_bin_out_enqueue_token :: "admission_core_statistics \<Rightarrow> admission_core_statistics" where
  "adm_log_wait_for_q_bin_out_enqueue_token st = st\<lparr> waiting_to_pass_token := waiting_to_pass_token st + 1 \<rparr>"

definition adm_log_phase_finished :: "admission_core_statistics \<Rightarrow> admission_core_statistics" where
  "adm_log_phase_finished st = st\<lparr> phase_finished := phase_finished st + 1 \<rparr>"

definition adm_log_phase_none_ready :: "admission_core_statistics \<Rightarrow> admission_core_statistics" where
  "adm_log_phase_none_ready st = st\<lparr> phase_none_ready := phase_none_ready st + 1 \<rparr>"

definition adm_log_phase_out_of_order :: "admission_core_statistics \<Rightarrow> admission_core_statistics" where
  "adm_log_phase_out_of_order st = st\<lparr> phase_out_of_order := phase_out_of_order st + 1 \<rparr>"

end
