(* ===== verification/FP_Bins.thy ===== *)
theory FP_Bins
  imports FP_Ring FP_AdmLog FP_Platform
begin

unbundle bit_operations_syntax

text \<open>
  The data structures of the allocator, under \<^verbatim>\<open>src/src/graph-algo/\<close>: bins of backlogged
  source/destination pairs (\<^verbatim>\<open>bin.h\<close>), the table of backlogs (\<^verbatim>\<open>backlog.h\<close>, with the bit
  operations of \<^verbatim>\<open>bitasm.h\<close>), the admitted traffic of a timeslot (\<^verbatim>\<open>admitted.h\<close>) and the
  occupancy of a batch of timeslots (\<^verbatim>\<open>batch.h\<close>).

  Arrays are functions from indices; every access that can leave the array is guarded by its
  length. The number of entries a bin was allocated with is kept beside it
  (\<^verbatim>\<open>bin_cap\<close>), so that an insertion past the end is a run that stops. \<^verbatim>\<open>bin_list\<close> and
  \<^verbatim>\<open>admitted_list\<close> read the entries below \<^verbatim>\<open>size\<close>.
\<close>

subsection \<open>Definitions: bins\<close>

record backlog_edge =
  e_src :: u16
  e_dst :: u16
  e_backlog :: u16
  e_metric :: u32

record bin =
  bin_size :: u32
  bin_edges :: "nat \<Rightarrow> backlog_edge"
  bin_cap :: nat

definition init_bin :: "bin \<Rightarrow> bin" where
  "init_bin b = b\<lparr> bin_size := 0 \<rparr>"

definition is_empty_bin :: "bin \<Rightarrow> bool" where
  "is_empty_bin b = (bin_size b = 0)"

definition enqueue_bin_edge :: "bin \<Rightarrow> backlog_edge \<Rightarrow> bin option" where
  "enqueue_bin_edge b edge = do {
     let n = bin_size b;
     guard_o (unat n < bin_cap b);
     Some (b\<lparr> bin_edges := (bin_edges b)(unat n := edge), bin_size := n + 1 \<rparr>) }"

definition enqueue_bin :: "bin \<Rightarrow> u16 \<Rightarrow> u16 \<Rightarrow> u16 \<Rightarrow> u32 \<Rightarrow> bin option" where
  "enqueue_bin b src dst backlog metric =
     enqueue_bin_edge b \<lparr> e_src = src, e_dst = dst, e_backlog = backlog, e_metric = metric \<rparr>"

definition bin_get :: "bin \<Rightarrow> nat \<Rightarrow> backlog_edge" where
  "bin_get b index = bin_edges b index"

text \<open>
  A \<^verbatim>\<open>struct bin\<close> is a 4-byte size followed by entries of 12 bytes (three 16-bit fields, two
  bytes of padding, one 32-bit field). The allocation may fail.
\<close>

definition bin_num_bytes :: "u32 \<Rightarrow> u32" where
  "bin_num_bytes n_elem = 4 + n_elem * 12"

definition create_bin :: "nat \<Rightarrow> (nat \<Rightarrow> backlog_edge) option \<Rightarrow> bin option" where
  "create_bin n_elem mem = do {
     garbage \<leftarrow> mem;
     Some (init_bin \<lparr> bin_size = 0, bin_edges = garbage, bin_cap = n_elem \<rparr>) }"

definition bin_list :: "bin \<Rightarrow> backlog_edge list" where
  "bin_list b = map (bin_edges b) [0..<unat (bin_size b)]"

subsection \<open>Definitions: backlogs\<close>

definition NUM_SRC_DST_PAIRS :: nat where
  "NUM_SRC_DST_PAIRS = MAX_NODES * MAX_NODES"

record backlog =
  bl_n :: "nat \<Rightarrow> u32"
  is_active :: "nat \<Rightarrow> u64"

definition bts :: "(nat \<Rightarrow> u64) \<Rightarrow> nat \<Rightarrow> nat \<Rightarrow> u64" where
  "bts arr index = arr(index div 64 := arr (index div 64) OR push_bit (index mod 64) 1)"

definition arr_unset_bit :: "(nat \<Rightarrow> u64) \<Rightarrow> nat \<Rightarrow> nat \<Rightarrow> u64" where
  "arr_unset_bit arr index = arr(index div 64 := arr (index div 64) AND NOT (push_bit (index mod 64) 1))"

definition arr_bit :: "(nat \<Rightarrow> u64) \<Rightarrow> nat \<Rightarrow> bool" where
  "arr_bit arr index = bit (arr (index div 64)) (index mod 64)"

definition backlog_init :: "backlog \<Rightarrow> backlog" where
  "backlog_init bl = bl\<lparr>
     bl_n := (\<lambda>i. if i < NUM_SRC_DST_PAIRS then 0 else bl_n bl i),
     is_active := (\<lambda>i. if i < (NUM_SRC_DST_PAIRS + 63) div 64 then 0 else is_active bl i) \<rparr>"

definition backlog_index :: "u16 \<Rightarrow> u16 \<Rightarrow> nat" where
  "backlog_index src dst = unat (push_bit FP_NODES_SHIFT (ucast src :: u32) + ucast dst)"

definition backlog_get :: "backlog \<Rightarrow> u16 \<Rightarrow> u16 \<Rightarrow> u32 option" where
  "backlog_get bl src dst = do {
     guard_o (backlog_index src dst < NUM_SRC_DST_PAIRS);
     Some (bl_n bl (backlog_index src dst)) }"

definition backlog_non_active :: "backlog \<Rightarrow> u16 \<Rightarrow> u16 \<Rightarrow> backlog option" where
  "backlog_non_active bl src dst = do {
     guard_o (backlog_index src dst < NUM_SRC_DST_PAIRS);
     Some (bl\<lparr> is_active := arr_unset_bit (is_active bl) (backlog_index src dst) \<rparr>) }"

definition backlog_reset_pair :: "backlog \<Rightarrow> u16 \<Rightarrow> u16 \<Rightarrow> backlog option" where
  "backlog_reset_pair bl src dst = do {
     guard_o (backlog_index src dst < NUM_SRC_DST_PAIRS);
     Some (bl\<lparr> bl_n := (bl_n bl)(backlog_index src dst := 0) \<rparr>) }"

definition backlog_increase :: "backlog \<Rightarrow> u16 \<Rightarrow> u16 \<Rightarrow> u32 \<Rightarrow> admission_statistics
    \<Rightarrow> (bool \<times> backlog \<times> admission_statistics) option" where
  "backlog_increase bl src dst amount stat = do {
     guard_o (amount \<noteq> 0);
     let index = backlog_index src dst;
     guard_o (index < NUM_SRC_DST_PAIRS);
     let was_set = arr_bit (is_active bl) index;
     let bl = bl\<lparr> is_active := bts (is_active bl) index \<rparr>;
     if \<not> was_set then do {
       guard_o (bl_n bl index = 0);
       Some (True, bl, adm_log_increased_backlog_to_queue stat amount amount) }
     else do {
       let bl = bl\<lparr> bl_n := (bl_n bl)(index := bl_n bl index + amount) \<rparr>;
       Some (False, bl, adm_log_increased_backlog_atomically stat amount (bl_n bl index)) } }"

subsection \<open>Definitions: admitted traffic\<close>

record admitted_edge =
  a_src :: u16
  a_dst :: u16

record admitted_traffic =
  at_size :: u16
  at_partition :: u16
  at_edges :: "nat \<Rightarrow> admitted_edge"

definition init_admitted_traffic :: "admitted_traffic \<Rightarrow> admitted_traffic" where
  "init_admitted_traffic admitted = admitted\<lparr> at_size := 0, at_partition := 0 \<rparr>"

definition insert_admitted_edge :: "admitted_traffic \<Rightarrow> u16 \<Rightarrow> u16 \<Rightarrow> admitted_traffic option" where
  "insert_admitted_edge admitted src dst = do {
     guard_o (unat (at_size admitted) < MAX_NODES);
     guard_o (unat src < MAX_NODES);
     guard_o (unat dst < MAX_NODES);
     Some (admitted\<lparr>
       at_edges := (at_edges admitted)(unat (at_size admitted) := \<lparr> a_src = src, a_dst = dst \<rparr>),
       at_size := at_size admitted + 1 \<rparr>) }"

definition get_admitted_edge :: "admitted_traffic \<Rightarrow> u16 \<Rightarrow> admitted_edge option" where
  "get_admitted_edge admitted index = do {
     guard_o (index \<le> at_size admitted);
     guard_o (unat index < MAX_NODES);
     Some (at_edges admitted (unat index)) }"

definition set_admitted_partition :: "admitted_traffic \<Rightarrow> u16 \<Rightarrow> admitted_traffic" where
  "set_admitted_partition admitted partition_index = admitted\<lparr> at_partition := partition_index \<rparr>"

definition get_admitted_partition :: "admitted_traffic \<Rightarrow> u16" where
  "get_admitted_partition admitted = at_partition admitted"

definition create_admitted_traffic :: "admitted_traffic option \<Rightarrow> admitted_traffic option" where
  "create_admitted_traffic mem = map_option init_admitted_traffic mem"

definition get_num_admitted :: "admitted_traffic \<Rightarrow> u16" where
  "get_num_admitted admitted = at_size admitted"

definition admitted_list :: "admitted_traffic \<Rightarrow> admitted_edge list" where
  "admitted_list a = map (at_edges a) [0..<unat (at_size a)]"

subsection \<open>Definitions: the occupancy of a batch\<close>

definition BATCH_SIZE :: nat where "BATCH_SIZE = 16"
definition BATCH_SHIFT :: nat where "BATCH_SHIFT = 4"
definition SUPPORTS_OVERSUBSCRIPTION :: bool where "SUPPORTS_OVERSUBSCRIPTION = False"

record batch_state =
  bs_oversubscribed :: bool
  allowed_mask :: u64
  src_endnodes :: "nat \<Rightarrow> u64"
  dst_endnodes :: "nat \<Rightarrow> u64"
  src_rack_bitmaps :: "nat \<Rightarrow> u64"
  dst_rack_bitmaps :: "nat \<Rightarrow> u64"
  src_rack_counts :: "nat \<Rightarrow> u16"
  dst_rack_counts :: "nat \<Rightarrow> u16"
  out_of_boundary_counts :: "nat \<Rightarrow> u16"

definition fill :: "nat \<Rightarrow> 'a \<Rightarrow> (nat \<Rightarrow> 'a) \<Rightarrow> nat \<Rightarrow> 'a" where
  "fill n v arr = (\<lambda>i. if i < n then v else arr i)"

definition batch_mask :: u64 where
  "batch_mask = push_bit BATCH_SIZE 1 - 1"

definition batch_state_init :: "batch_state \<Rightarrow> bool \<Rightarrow> u16 \<Rightarrow> u16 \<Rightarrow> u16 \<Rightarrow> batch_state option" where
  "batch_state_init state oversubscribed inter_rack_capacity out_of_boundary_capacity num_nodes = do {
     guard_o (unat num_nodes \<le> MAX_NODES);
     let state = state\<lparr>
       bs_oversubscribed := oversubscribed,
       allowed_mask := batch_mask,
       src_endnodes := fill (unat num_nodes) (NOT 0) (src_endnodes state),
       dst_endnodes := (fill (unat num_nodes) (NOT 0) (dst_endnodes state))
                         (OUT_OF_BOUNDARY_NODE_ID := NOT 0) \<rparr>;
     let state = (if oversubscribed then state\<lparr>
         src_rack_bitmaps := fill (unat num_nodes div 2 ^ TOR_SHIFT) (NOT 0) (src_rack_bitmaps state),
         dst_rack_bitmaps := fill (unat num_nodes div 2 ^ TOR_SHIFT) (NOT 0) (dst_rack_bitmaps state),
         src_rack_counts := fill (MAX_RACKS * BATCH_SIZE) inter_rack_capacity (src_rack_counts state),
         dst_rack_counts := fill (MAX_RACKS * BATCH_SIZE) inter_rack_capacity (dst_rack_counts state) \<rparr>
       else state);
     Some (state\<lparr> out_of_boundary_counts :=
       fill BATCH_SIZE out_of_boundary_capacity (out_of_boundary_counts state) \<rparr>) }"

definition batch_state_get_avail_bitmap :: "batch_state \<Rightarrow> u16 \<Rightarrow> u16 \<Rightarrow> u64 option" where
  "batch_state_get_avail_bitmap state src dst = do {
     guard_o (unat src < MAX_NODES);
     guard_o (unat dst < MAX_NODES);
     let endnode_bitmap = allowed_mask state
           AND src_endnodes state (unat src) AND dst_endnodes state (unat dst);
     if SUPPORTS_OVERSUBSCRIPTION \<and> bs_oversubscribed state then do {
       let src_rack = unat (fp_rack_from_node_id src);
       let dst_rack = unat (fp_rack_from_node_id dst);
       let rack_bitmap = (if unat dst = OUT_OF_BOUNDARY_NODE_ID
             then src_rack_bitmaps state src_rack
             else src_rack_bitmaps state src_rack AND dst_rack_bitmaps state dst_rack);
       Some (endnode_bitmap AND rack_bitmap) }
     else Some endnode_bitmap }"

text \<open>
  The two masks of \<^verbatim>\<open>batch_state_set_occupied_conditional\<close> are \<^verbatim>\<open>-(condition)\<close>: all ones or zero.
  Adding the 64-bit all-ones mask to the 16-bit count subtracts one. The rack part is
  compiled out.
\<close>

definition neg_bool :: "bool \<Rightarrow> u64" where
  "neg_bool b = (if b then - 1 else 0)"

definition occupy_rack :: "batch_state \<Rightarrow> u16 \<Rightarrow> u16 \<Rightarrow> nat \<Rightarrow> batch_state" where
  "occupy_rack state src dst timeslot =
     (let sr = unat (fp_rack_from_node_id src);
          si = BATCH_SIZE * sr + timeslot;
          state = state\<lparr> src_rack_counts := (src_rack_counts state)(si := src_rack_counts state si - 1) \<rparr>;
          state = (if src_rack_counts state si = 0
            then state\<lparr> src_rack_bitmaps := (src_rack_bitmaps state)
                   (sr := src_rack_bitmaps state sr AND NOT (push_bit timeslot 1)) \<rparr>
            else state)
      in if unat dst \<noteq> OUT_OF_BOUNDARY_NODE_ID then
           (let dr = unat (fp_rack_from_node_id dst);
                di = BATCH_SIZE * dr + timeslot;
                state = state\<lparr> dst_rack_counts := (dst_rack_counts state)(di := dst_rack_counts state di - 1) \<rparr>
            in if dst_rack_counts state di = 0
               then state\<lparr> dst_rack_bitmaps := (dst_rack_bitmaps state)
                      (dr := dst_rack_bitmaps state dr AND NOT (push_bit timeslot 1)) \<rparr>
               else state)
         else state)"

definition batch_state_set_occupied_conditional ::
    "batch_state \<Rightarrow> u16 \<Rightarrow> u16 \<Rightarrow> nat \<Rightarrow> u64 \<Rightarrow> batch_state option" where
  "batch_state_set_occupied_conditional state src dst timeslot set_bitmask = do {
     guard_o (unat src < MAX_NODES);
     guard_o (unat dst < MAX_NODES);
     guard_o (timeslot \<le> BATCH_SIZE);
     guard_o (timeslot < BATCH_SIZE);
     let is_out_of_boundary = neg_bool (unat dst = OUT_OF_BOUNDARY_NODE_ID);
     let is_set = neg_bool (set_bitmask \<noteq> 0);
     let state = state\<lparr> src_endnodes := (src_endnodes state)
           (unat src := src_endnodes state (unat src) XOR set_bitmask) \<rparr>;
     let state = state\<lparr> out_of_boundary_counts := (out_of_boundary_counts state)
           (timeslot := out_of_boundary_counts state timeslot
                          + ucast (is_out_of_boundary AND is_set)) \<rparr>;
     let flip_mask = is_out_of_boundary OR neg_bool (out_of_boundary_counts state timeslot = 0);
     let state = state\<lparr> dst_endnodes := (dst_endnodes state)
           (unat dst := dst_endnodes state (unat dst) XOR (set_bitmask AND flip_mask)) \<rparr>;
     Some (if SUPPORTS_OVERSUBSCRIPTION \<and> bs_oversubscribed state \<and> is_set \<noteq> 0
           then occupy_rack state src dst timeslot else state) }"

definition batch_state_disallow_lsb_timeslot :: "batch_state \<Rightarrow> batch_state" where
  "batch_state_disallow_lsb_timeslot state =
     state\<lparr> allowed_mask := push_bit 1 (allowed_mask state) AND batch_mask \<rparr>"

subsection \<open>Bins\<close>

definition bin_wf :: "bin \<Rightarrow> bool" where
  "bin_wf b \<longleftrightarrow> unat (bin_size b) \<le> bin_cap b \<and> bin_cap b < 4294967296"

lemma length_bin_list: "length (bin_list b) = unat (bin_size b)"
  by (simp add: bin_list_def)

lemma bin_list_init [simp]: "bin_list (init_bin b) = []"
  by (simp add: bin_list_def init_bin_def)

lemma bin_cap_init [simp]: "bin_cap (init_bin b) = bin_cap b"
  by (simp add: init_bin_def)

lemma bin_wf_init [simp]: "bin_cap b < 4294967296 \<Longrightarrow> bin_wf (init_bin b)"
  by (simp add: bin_wf_def init_bin_def)

lemma is_empty_bin_iff: "is_empty_bin b \<longleftrightarrow> bin_list b = []"
  by (simp add: is_empty_bin_def bin_list_def unat_eq_zero)

lemma bin_get_nth: "i < unat (bin_size b) \<Longrightarrow> bin_get b i = bin_list b ! i"
  by (simp add: bin_get_def bin_list_def)

lemma enqueue_bin_edge_ok:
  assumes "bin_wf b" "length (bin_list b) < bin_cap b"
  shows "wp (enqueue_bin_edge b e) (\<lambda>b'. bin_wf b' \<and> bin_list b' = bin_list b @ [e] \<and> bin_cap b' = bin_cap b)"
proof -
  have lt: "unat (bin_size b) < bin_cap b"
    using assms by (simp add: length_bin_list)
  then have "unat (bin_size b + 1) = Suc (unat (bin_size b))"
    using assms(1) by (simp add: unat_word_ariths bin_wf_def)
  then show ?thesis
    using assms(1) lt by (auto simp: enqueue_bin_edge_def bin_wf_def bin_list_def)
qed

lemma enqueue_bin_edge_prefix:
  "enqueue_bin_edge b e = Some b' \<Longrightarrow> i < unat (bin_size b) \<Longrightarrow> bin_get b' i = bin_get b i"
  by (auto simp: enqueue_bin_edge_def guard_o_def bin_get_def Let_def split: if_splits)

subsection \<open>Bit arrays and backlogs\<close>

lemma arr_bit_bts [simp]: "arr_bit (bts arr i) j \<longleftrightarrow> j = i \<or> arr_bit arr j"
proof -
  have "i div 64 = j div 64 \<and> i mod 64 = j mod 64 \<longleftrightarrow> i = j"
    by (metis div_mult_mod_eq)
  then show ?thesis
    by (auto simp: arr_bit_def bts_def word_bits simp del: push_bit_of_1)
qed

lemma arr_bit_unset [simp]: "arr_bit (arr_unset_bit arr i) j \<longleftrightarrow> j \<noteq> i \<and> arr_bit arr j"
proof -
  have "i div 64 = j div 64 \<and> i mod 64 = j mod 64 \<longleftrightarrow> i = j"
    by (metis div_mult_mod_eq)
  then show ?thesis
    by (auto simp: arr_bit_def arr_unset_bit_def word_bits simp del: push_bit_of_1)
qed

lemma backlog_index_eq: "backlog_index src dst = unat src * 256 + unat dst"
proof -
  have s: "unat (ucast src :: u32) = unat src" and d: "unat (ucast dst :: u32) = unat dst"
    using less_trans [OF unat_u16_lt [of src], of 4294967296]
      less_trans [OF unat_u16_lt [of dst], of 4294967296]
    by (simp_all add: unsigned_ucast_eq take_bit_eq_mod)
  have "push_bit FP_NODES_SHIFT (ucast src :: u32) = ucast src * 256"
    by (simp add: FP_NODES_SHIFT_def push_bit_eq_mult)
  moreover have "unat (ucast src * 256 + ucast dst :: u32) = unat src * 256 + unat dst"
  proof -
    have "unat src * 256 + unat dst < 4294967296"
      using unat_u16_lt [of src] unat_u16_lt [of dst] by linarith
    then show ?thesis
      by (simp add: unat_word_ariths s d mod_add_left_eq)
  qed
  ultimately show ?thesis
    by (simp add: backlog_index_def)
qed

lemma backlog_index_lt:
  "unat src < 256 \<Longrightarrow> unat dst < 256 \<Longrightarrow> backlog_index src dst < NUM_SRC_DST_PAIRS"
  by (simp add: backlog_index_eq NUM_SRC_DST_PAIRS_def MAX_NODES_def)

lemma backlog_index_inj:
  assumes "unat dst < 256" "unat dst' < 256" "backlog_index src dst = backlog_index src' dst'"
  shows "src = src' \<and> dst = dst'"
proof -
  have "(unat src * 256 + unat dst) div 256 = (unat src' * 256 + unat dst') div 256"
    "(unat src * 256 + unat dst) mod 256 = (unat src' * 256 + unat dst') mod 256"
    using assms(3) by (simp_all only: backlog_index_eq)
  then have "unat src = unat src'" "unat dst = unat dst'"
    using assms(1,2) by simp_all
  then show ?thesis
    by (simp add: word_unat_eq_iff)
qed

subsection \<open>Admitted traffic\<close>

lemma admitted_list_init [simp]: "admitted_list (init_admitted_traffic a) = []"
  by (simp add: admitted_list_def init_admitted_traffic_def)

lemma length_admitted_list: "length (admitted_list a) = unat (at_size a)"
  by (simp add: admitted_list_def)

lemma insert_admitted_edge_ok:
  assumes "length (admitted_list a) < 256" "unat src < 256" "unat dst < 256"
  shows "wp (insert_admitted_edge a src dst) (\<lambda>a'. admitted_list a' = admitted_list a @ [\<lparr>a_src = src, a_dst = dst\<rparr>])"
proof -
  have "unat (at_size a + 1) = Suc (unat (at_size a))"
    using assms(1) by (simp add: unat_word_ariths length_admitted_list)
  then show ?thesis
    using assms by (simp add: insert_admitted_edge_def MAX_NODES_def admitted_list_def)
qed

lemma admitted_lt_256:
  assumes "distinct (map a_src es)" "\<forall>e \<in> set es. unat (a_src e) < 256"
    and "unat s < 256" "s \<notin> a_src ` set es"
  shows "length es < 256"
proof -
  have inj: "inj_on (unat :: u16 \<Rightarrow> nat) A" for A
    by (simp add: inj_on_def word_unat_eq_iff)
  have "card (unat ` insert s (a_src ` set es)) \<le> card {..<256 :: nat}"
    using assms(2,3) by (intro card_mono) auto
  moreover have "card (unat ` insert s (a_src ` set es)) = card (insert s (a_src ` set es))"
    by (rule card_image [OF inj])
  moreover have "card (a_src ` set es) = length es"
    using distinct_card [OF assms(1)] by simp
  moreover have "card (insert s (a_src ` set es)) = Suc (card (a_src ` set es))"
    using assms(4) by (intro card_insert_disjoint) simp_all
  moreover have "card {..<256 :: nat} = 256"
    by simp
  ultimately show ?thesis
    by linarith
qed

subsection \<open>Occupancy\<close>

definition avail :: "batch_state \<Rightarrow> u16 \<Rightarrow> u16 \<Rightarrow> u64" where
  "avail state src dst =
     allowed_mask state AND src_endnodes state (unat src) AND dst_endnodes state (unat dst)"

lemma get_avail_bitmap: "unat src < 256 \<Longrightarrow> unat dst < 256 \<Longrightarrow>
    batch_state_get_avail_bitmap state src dst = Some (avail state src dst)"
  by (simp add: batch_state_get_avail_bitmap_def avail_def MAX_NODES_def guard_o_def
      SUPPORTS_OVERSUBSCRIPTION_def)

lemma bit_avail: "bit (avail state src dst) t \<longleftrightarrow> bit (allowed_mask state) t
    \<and> bit (src_endnodes state (unat src)) t \<and> bit (dst_endnodes state (unat dst)) t"
  by (simp add: avail_def bit_and_iff)

lemma bit_batch_mask: "bit batch_mask i \<longleftrightarrow> i < 16"
proof -
  have e: "batch_mask = mask 16"
    by (simp add: batch_mask_def BATCH_SIZE_def mask_eq_exp_minus_1)
  show ?thesis
    unfolding e bit_mask_iff by (auto simp: possible_bit_def)
qed

lemma bit_disallow: "bit (allowed_mask (batch_state_disallow_lsb_timeslot state)) i \<longleftrightarrow>
    i < 16 \<and> 1 \<le> i \<and> bit (allowed_mask state) (i - 1)"
  unfolding batch_state_disallow_lsb_timeslot_def
  by (auto simp: bit_and_iff bit_batch_mask bit_u64_push simp del: push_bit_Suc One_nat_def
      push_bit_numeral)

lemma disallow_other [simp]:
  "src_endnodes (batch_state_disallow_lsb_timeslot b) = src_endnodes b"
  "dst_endnodes (batch_state_disallow_lsb_timeslot b) = dst_endnodes b"
  "out_of_boundary_counts (batch_state_disallow_lsb_timeslot b) = out_of_boundary_counts b"
  by (simp_all add: batch_state_disallow_lsb_timeslot_def)

lemma set_occupied_ok:
  assumes src: "unat src < 256" and dst: "unat dst < 256" and t: "t < 16"
    and av: "bit (avail state src dst) t"
  shows "wp (batch_state_set_occupied_conditional state src dst t (push_bit t 1))
    (\<lambda>s'. allowed_mask s' = allowed_mask state
       \<and> (\<forall>s i. bit (src_endnodes s' s) i \<longleftrightarrow> bit (src_endnodes state s) i \<and> \<not> (s = unat src \<and> i = t))
       \<and> (\<forall>d i. bit (dst_endnodes s' d) i \<longrightarrow> bit (dst_endnodes state d) i)
       \<and> (unat dst \<noteq> 255 \<longrightarrow> out_of_boundary_counts s' = out_of_boundary_counts state
            \<and> (out_of_boundary_counts state t = 0 \<longrightarrow> (\<forall>d i. bit (dst_endnodes s' d) i
                 \<longleftrightarrow> bit (dst_endnodes state d) i \<and> \<not> (d = unat dst \<and> i = t)))))"
proof -
  have b: "bit (push_bit t 1 :: u64) i \<longleftrightarrow> i = t" for i
    using t by (auto simp: word_bits simp del: push_bit_of_1)
  then have nz: "(push_bit t 1 :: u64) \<noteq> 0"
    by (metis bit_0_eq bot_apply bot_bool_def)
  have sb: "bit (src_endnodes state (unat src)) t" and db: "bit (dst_endnodes state (unat dst)) t"
    using av by (simp_all add: bit_avail)
  show ?thesis
    using src dst t sb db
    by (auto simp: batch_state_set_occupied_conditional_def SUPPORTS_OVERSUBSCRIPTION_def
        MAX_NODES_def BATCH_SIZE_def OUT_OF_BOUNDARY_NODE_ID_def nz neg_bool_def bit_xor_iff
        bit_and_iff b simp del: push_bit_of_1)
qed

lemma batch_state_init_ok:
  assumes "unat num_nodes \<le> 256"
  shows "wp (batch_state_init state False irc oob num_nodes) (\<lambda>s'. allowed_mask s' = batch_mask
    \<and> (\<forall>t < 16. out_of_boundary_counts s' t = oob)
    \<and> (\<forall>i < unat num_nodes. src_endnodes s' i = - 1 \<and> dst_endnodes s' i = - 1))"
  using assms by (auto simp: batch_state_init_def MAX_NODES_def BATCH_SIZE_def fill_def)

end
