(* ===== verification/FP_Alloc.thy ===== *)
theory FP_Alloc
  imports FP_Bins
begin

unbundle bit_operations_syntax

text \<open>
  The pipelined timeslot allocator of the arbiter:
  \<^verbatim>\<open>src/src/graph-algo/admissible_structures.h\<close>, \<^verbatim>\<open>admissible_traffic.h\<close> and
  \<^verbatim>\<open>admissible_traffic.c\<close>, in the stand-alone build (\<^verbatim>\<open>NO_DPDK\<close>, \<^verbatim>\<open>PIPELINED_ALGO\<close>), where one
  thread runs a batch at a time.

  Rings, pools and bins move between owners: a bin that is put into a ring or a pool is not
  used afterwards by the code that put it there, so bins are values. The admitted traffic is
  different: a core keeps its pointers to the structures it already sent out, so those are
  addresses into the store \<^verbatim>\<open>admitted_store\<close>. A function that gets both a core and the status
  threads the pair; \<^verbatim>\<open>status->cores\<close> is not read through the status in these functions. The
  argument \<^verbatim>\<open>queue_out\<close> is an index into \<^verbatim>\<open>q_bin\<close>. The number of cores, a build-time
  constant, is the number of entries of \<^verbatim>\<open>cores\<close>. The field \<^verbatim>\<open>core_bin_mempool\<close> is never used by
  the code and left out.
\<close>

subsection \<open>Definitions: constants and state\<close>

definition SMALL_BIN_SIZE :: nat where "SMALL_BIN_SIZE = 32"
definition LARGE_BIN_SIZE :: nat where "LARGE_BIN_SIZE = MAX_NODES * MAX_NODES"
definition NUM_BINS :: nat where "NUM_BINS = 32"
definition BIN_MASK_SIZE :: nat where "BIN_MASK_SIZE = (NUM_BINS + BATCH_SIZE + 63) div 64"
definition RING_DEQUEUE_BURST_SIZE :: nat where "RING_DEQUEUE_BURST_SIZE = 8"
definition URGENT_NUM_TIMESLOTS_START :: u64 where "URGENT_NUM_TIMESLOTS_START = of_nat BATCH_SIZE"
definition URGENT_NUM_TIMESLOTS_END :: u64 where "URGENT_NUM_TIMESLOTS_END = 1"
definition Q_IN_Q_OUT_BURST_SIZE :: nat where "Q_IN_Q_OUT_BURST_SIZE = 16"
definition TIMESLOT_SHIFT_PER_PRIORITY :: nat where "TIMESLOT_SHIFT_PER_PRIORITY = 1"
definition TIMESLOTS_START_BEFORE :: nat where
  "TIMESLOTS_START_BEFORE = (BATCH_SIZE + NUM_BINS) * 2 ^ TIMESLOT_SHIFT_PER_PRIORITY"
definition SPENT_RING_DEQUEUE_SIZE :: nat where "SPENT_RING_DEQUEUE_SIZE = 256"

record seq_admission_core_state =
  new_request_bins :: "nat \<Rightarrow> bin"
  non_empty_bins :: "nat \<Rightarrow> u64"
  allowed_bins :: "nat \<Rightarrow> u64"
  core_batch :: batch_state
  core_admitted :: "nat \<Rightarrow> nat"
  out_bin :: bin
  spent_bin :: bin
  core_stat :: admission_core_statistics
  current_timeslot :: u64

record seq_admissible_status =
  st_oversubscribed :: bool
  st_out_of_boundary_capacity :: u16
  st_inter_rack_capacity :: u16
  num_nodes :: u16
  last_alloc_tslot :: "nat \<Rightarrow> u64"
  st_backlog :: backlog
  new_demands :: bin
  q_head :: "bin fp_ring"
  q_admitted_out :: "nat fp_ring"
  q_spent :: "bin fp_ring"
  bin_mempool :: "bin fp_mempool"
  admitted_traffic_mempool :: "nat fp_mempool"
  admitted_store :: "nat \<Rightarrow> admitted_traffic"
  cores :: "seq_admission_core_state list"
  q_bin :: "bin fp_ring list"
  st_stat :: admission_statistics

type_synonym cstate = "seq_admission_core_state \<times> seq_admissible_status"

definition ALGO_N_CORES :: "seq_admissible_status \<Rightarrow> nat" where
  "ALGO_N_CORES st = length (cores st)"

definition MAX_DEMANDS_PER_BATCH :: "seq_admissible_status \<Rightarrow> nat" where
  "MAX_DEMANDS_PER_BATCH st = MAX_NODES * BATCH_SIZE * ALGO_N_CORES st"

subsection \<open>Definitions: initialisation\<close>

definition seq_reset_admissible_status :: "seq_admissible_status \<Rightarrow> bool \<Rightarrow> u16 \<Rightarrow> u16 \<Rightarrow> u16
    \<Rightarrow> seq_admissible_status option" where
  "seq_reset_admissible_status status oversubscribed inter_rack_capacity out_of_boundary_capacity nn = do {
     guard_o (\<not> (oversubscribed \<and> \<not> SUPPORTS_OVERSUBSCRIPTION));
     Some (status\<lparr> st_oversubscribed := oversubscribed,
       st_inter_rack_capacity := inter_rack_capacity,
       st_out_of_boundary_capacity := out_of_boundary_capacity,
       num_nodes := nn,
       last_alloc_tslot := fill NUM_SRC_DST_PAIRS 0 (last_alloc_tslot status),
       st_backlog := backlog_init (st_backlog status) \<rparr>) }"

definition get_status_index :: "u16 \<Rightarrow> u16 \<Rightarrow> nat" where
  "get_status_index src dst = unat (push_bit FP_NODES_SHIFT (ucast src :: u32) + ucast dst)"

definition alloc_core_reset :: "cstate \<Rightarrow> cstate option" where
  "alloc_core_reset = (\<lambda>(core, status). do {
     let core = core\<lparr>
       new_request_bins := (\<lambda>i. if i < NUM_BINS + BATCH_SIZE then init_bin (new_request_bins core i)
                                else new_request_bins core i),
       allowed_bins := (fill BIN_MASK_SIZE 0 (allowed_bins core))(0 := 1) \<rparr>;
     bs \<leftarrow> batch_state_init (core_batch core) (st_oversubscribed status)
             (st_inter_rack_capacity status) (st_out_of_boundary_capacity status) (num_nodes status);
     let core = core\<lparr> core_batch := bs, non_empty_bins := fill BIN_MASK_SIZE 0 (non_empty_bins core) \<rparr>;
     guard_o (is_empty_bin (out_bin core));
     guard_o (is_empty_bin (spent_bin core));
     Some (core, status) })"

text \<open>
  The bins of a core are allocated one by one until an allocation fails; the flag says
  whether all succeeded.
\<close>

primrec create_request_bins :: "(nat \<Rightarrow> (nat \<Rightarrow> backlog_edge) option) \<Rightarrow> nat list \<Rightarrow> (nat \<Rightarrow> bin)
    \<Rightarrow> bool \<times> (nat \<Rightarrow> bin)" where
  "create_request_bins mems [] arr = (True, arr)"
| "create_request_bins mems (j # js) arr =
     (case create_bin LARGE_BIN_SIZE (mems j) of
        None \<Rightarrow> (False, arr)
      | Some b \<Rightarrow> create_request_bins mems js (arr(j := b)))"

definition set_core :: "seq_admissible_status \<Rightarrow> nat \<Rightarrow> seq_admission_core_state \<Rightarrow> seq_admissible_status" where
  "set_core status i core = status\<lparr> cores := (cores status)[i := core] \<rparr>"

definition alloc_core_init :: "seq_admissible_status \<Rightarrow> nat \<Rightarrow> u64
    \<Rightarrow> (nat \<Rightarrow> (nat \<Rightarrow> backlog_edge) option) \<Rightarrow> (int \<times> seq_admissible_status) option" where
  "alloc_core_init status core_index timeslot mems = do {
     guard_o (core_index < length (cores status));
     let core = cores status ! core_index;
     let (ok, arr) = create_request_bins mems [0..<NUM_BINS + BATCH_SIZE] (new_request_bins core);
     let core = core\<lparr> new_request_bins := arr \<rparr>;
     if \<not> ok then Some (-1, set_core status core_index core)
     else do {
       (r, mp) \<leftarrow> fp_mempool_get (bin_mempool status);
       let status = status\<lparr> bin_mempool := mp \<rparr>;
       case r of None \<Rightarrow> Some (-1, set_core status core_index core) | Some b \<Rightarrow> do {
         let core = core\<lparr> out_bin := init_bin b \<rparr>;
         (r, mp) \<leftarrow> fp_mempool_get (bin_mempool status);
         let status = status\<lparr> bin_mempool := mp \<rparr>;
         case r of None \<Rightarrow> Some (-1, set_core status core_index core) | Some b \<Rightarrow> do {
           let core = core\<lparr> spent_bin := init_bin b, current_timeslot := timeslot \<rparr>;
           Some (0, set_core status core_index core) } } } }"

primrec alloc_cores_init :: "nat list \<Rightarrow> (nat \<Rightarrow> nat \<Rightarrow> (nat \<Rightarrow> backlog_edge) option)
    \<Rightarrow> seq_admissible_status \<Rightarrow> (int \<times> seq_admissible_status) option" where
  "alloc_cores_init [] mems status = Some (0, status)"
| "alloc_cores_init (i # is) mems status = do {
     (rc, status) \<leftarrow> alloc_core_init status i (of_nat (NUM_BINS + i * BATCH_SIZE)) (mems i);
     if rc \<noteq> 0 then Some (-1, status) else alloc_cores_init is mems status }"

definition seq_init_admissible_status :: "seq_admissible_status \<Rightarrow> bool \<Rightarrow> u16 \<Rightarrow> u16 \<Rightarrow> u16
    \<Rightarrow> bin fp_ring \<Rightarrow> nat fp_ring \<Rightarrow> bin fp_ring \<Rightarrow> bin fp_mempool \<Rightarrow> nat fp_mempool
    \<Rightarrow> bin fp_ring list \<Rightarrow> (nat \<Rightarrow> nat \<Rightarrow> (nat \<Rightarrow> backlog_edge) option)
    \<Rightarrow> (int \<times> seq_admissible_status) option" where
  "seq_init_admissible_status status oversubscribed inter_rack_capacity out_of_boundary_capacity nn
       qh qa qs bmp amp qb mems = do {
     status \<leftarrow> seq_reset_admissible_status status oversubscribed inter_rack_capacity
                 out_of_boundary_capacity nn;
     guard_o (length qb = ALGO_N_CORES status);
     let status = status\<lparr> q_head := qh, q_admitted_out := qa, q_spent := qs, bin_mempool := bmp,
                          admitted_traffic_mempool := amp, q_bin := qb \<rparr>;
     (r, mp) \<leftarrow> fp_mempool_get (bin_mempool status);
     b \<leftarrow> r;
     let status = status\<lparr> bin_mempool := mp, new_demands := init_bin b \<rparr>;
     alloc_cores_init [0..<ALGO_N_CORES status] mems status }"

text \<open>
  \<^verbatim>\<open>seq_create_admissible_status\<close> drops the return code of the initialisation.
\<close>

definition seq_create_admissible_status :: "seq_admissible_status option \<Rightarrow> bool \<Rightarrow> u16 \<Rightarrow> u16 \<Rightarrow> u16
    \<Rightarrow> bin fp_ring \<Rightarrow> nat fp_ring \<Rightarrow> bin fp_ring \<Rightarrow> bin fp_mempool \<Rightarrow> nat fp_mempool
    \<Rightarrow> bin fp_ring list \<Rightarrow> (nat \<Rightarrow> nat \<Rightarrow> (nat \<Rightarrow> backlog_edge) option)
    \<Rightarrow> seq_admissible_status option option" where
  "seq_create_admissible_status mem oversubscribed inter_rack_capacity out_of_boundary_capacity nn
       qh qa qs bmp amp qb mems =
     (case mem of None \<Rightarrow> Some None | Some status \<Rightarrow> do {
        (rc, status) \<leftarrow> seq_init_admissible_status status oversubscribed inter_rack_capacity
          out_of_boundary_capacity nn qh qa qs bmp amp qb mems;
        Some (Some status) })"

subsection \<open>Definitions: flushing bins\<close>

text \<open>
  A full ring fails the assertion of \<^verbatim>\<open>fp_ring_enqueue\<close>; an empty pool is waited for, and
  without another thread the wait never ends.
\<close>

definition fresh_bin :: "seq_admissible_status \<Rightarrow> (bin \<times> seq_admissible_status) option" where
  "fresh_bin status = do {
     (r, mp) \<leftarrow> fp_mempool_get (bin_mempool status);
     b \<leftarrow> r;
     Some (init_bin b, status\<lparr> bin_mempool := mp \<rparr>) }"

definition core_flush_q_spent :: "cstate \<Rightarrow> cstate option" where
  "core_flush_q_spent = (\<lambda>(core, status). do {
     q \<leftarrow> fp_ring_enqueue (q_spent status) (spent_bin core);
     (b, status) \<leftarrow> fresh_bin (status\<lparr> q_spent := q \<rparr>);
     Some (core\<lparr> spent_bin := b \<rparr>, status) })"

definition core_enqueue_to_q_spent :: "u16 \<Rightarrow> u16 \<Rightarrow> u32 \<Rightarrow> cstate \<Rightarrow> cstate option" where
  "core_enqueue_to_q_spent src dst metric = (\<lambda>(core, status). do {
     b \<leftarrow> enqueue_bin (spent_bin core) src dst 0 metric;
     let core = core\<lparr> spent_bin := b \<rparr>;
     if bin_size (spent_bin core) = of_nat SMALL_BIN_SIZE
     then core_flush_q_spent
            (core\<lparr> core_stat := adm_log_q_spent_flush_bin_full (core_stat core) \<rparr>, status)
     else Some (core, status) })"

definition core_flush_q_out :: "nat \<Rightarrow> cstate \<Rightarrow> cstate option" where
  "core_flush_q_out queue = (\<lambda>(core, status). do {
     guard_o (queue < length (q_bin status));
     q \<leftarrow> fp_ring_enqueue (q_bin status ! queue) (out_bin core);
     (b, status) \<leftarrow> fresh_bin (status\<lparr> q_bin := (q_bin status)[queue := q] \<rparr>);
     Some (core\<lparr> out_bin := b \<rparr>, status) })"

definition core_enqueue_to_q_out_edge :: "nat \<Rightarrow> backlog_edge \<Rightarrow> cstate \<Rightarrow> cstate option" where
  "core_enqueue_to_q_out_edge queue_out edge = (\<lambda>(core, status). do {
     b \<leftarrow> enqueue_bin_edge (out_bin core) edge;
     let core = core\<lparr> out_bin := b \<rparr>;
     if bin_size (out_bin core) = of_nat SMALL_BIN_SIZE
     then core_flush_q_out queue_out
            (core\<lparr> core_stat := adm_log_q_out_flush_bin_full (core_stat core) \<rparr>, status)
     else Some (core, status) })"

definition core_enqueue_to_q_out :: "nat \<Rightarrow> u16 \<Rightarrow> u16 \<Rightarrow> u16 \<Rightarrow> u32 \<Rightarrow> cstate \<Rightarrow> cstate option" where
  "core_enqueue_to_q_out queue_out src dst backlog metric = (\<lambda>(core, status). do {
     b \<leftarrow> enqueue_bin (out_bin core) src dst backlog metric;
     let core = core\<lparr> out_bin := b \<rparr>;
     if bin_size (out_bin core) = of_nat SMALL_BIN_SIZE
     then core_flush_q_out queue_out
            (core\<lparr> core_stat := adm_log_q_out_flush_bin_full (core_stat core) \<rparr>, status)
     else Some (core, status) })"

definition flush_backlog_now :: "seq_admissible_status \<Rightarrow> seq_admissible_status option" where
  "flush_backlog_now status = do {
     q \<leftarrow> fp_ring_enqueue (q_head status) (new_demands status);
     (b, status) \<leftarrow> fresh_bin (status\<lparr> q_head := q \<rparr>);
     Some (status\<lparr> new_demands := b \<rparr>) }"

definition seq_flush_backlog :: "seq_admissible_status \<Rightarrow> seq_admissible_status option" where
  "seq_flush_backlog status =
     (if is_empty_bin (new_demands status) then Some status
      else flush_backlog_now (status\<lparr> st_stat := adm_log_forced_backlog_flush (st_stat status) \<rparr>))"

subsection \<open>Definitions: demands\<close>

text \<open>
  The 32-bit amount is passed to the 16-bit \<^verbatim>\<open>backlog\<close> of \<^verbatim>\<open>enqueue_bin\<close>, and the 64-bit
  timeslot to its 32-bit \<^verbatim>\<open>metric\<close>: both are truncated.
\<close>

definition enqueue_new_demand :: "seq_admissible_status \<Rightarrow> u16 \<Rightarrow> u16 \<Rightarrow> u32
    \<Rightarrow> seq_admissible_status option" where
  "enqueue_new_demand status src dst amount = do {
     guard_o (get_status_index src dst < NUM_SRC_DST_PAIRS);
     b \<leftarrow> enqueue_bin (new_demands status) src dst (ucast amount)
           (ucast (last_alloc_tslot status (get_status_index src dst)));
     let status = status\<lparr> new_demands := b \<rparr>;
     if bin_size (new_demands status) = of_nat SMALL_BIN_SIZE
     then flush_backlog_now
            (status\<lparr> st_stat := adm_log_backlog_flush_bin_full (st_stat status) \<rparr>)
     else Some status }"

definition seq_add_backlog :: "seq_admissible_status \<Rightarrow> u16 \<Rightarrow> u16 \<Rightarrow> u32
    \<Rightarrow> seq_admissible_status option" where
  "seq_add_backlog status src dst amount = do {
     (fresh, bl, stat) \<leftarrow> backlog_increase (st_backlog status) src dst amount (st_stat status);
     let status = status\<lparr> st_backlog := bl, st_stat := stat \<rparr>;
     if \<not> fresh then Some status else enqueue_new_demand status src dst amount }"

definition handle_spent_edge :: "backlog_edge \<Rightarrow> seq_admissible_status \<Rightarrow> seq_admissible_status option" where
  "handle_spent_edge edge status = do {
     let src = e_src edge;
     let dst = e_dst edge;
     backlog \<leftarrow> backlog_get (st_backlog status) src dst;
     if backlog = 0 then do {
       guard_o (get_status_index src dst < NUM_SRC_DST_PAIRS);
       let status = status\<lparr> last_alloc_tslot :=
             (last_alloc_tslot status)(get_status_index src dst := ucast (e_metric edge)) \<rparr>;
       bl \<leftarrow> backlog_non_active (st_backlog status) src dst;
       Some (status\<lparr> st_backlog := bl \<rparr>) }
     else do {
       bl \<leftarrow> backlog_reset_pair (st_backlog status) src dst;
       enqueue_new_demand (status\<lparr> st_backlog := bl \<rparr>) src dst backlog } }"

definition handle_spent_bin :: "bin \<Rightarrow> u32 \<times> u32 \<times> seq_admissible_status
    \<Rightarrow> (u32 \<times> u32 \<times> seq_admissible_status) option" where
  "handle_spent_bin b = (\<lambda>(num_entries, num_bins, status). do {
     status \<leftarrow> foldo (\<lambda>i. handle_spent_edge (bin_get b i)) [0..<unat (bin_size b)] status;
     mp \<leftarrow> fp_mempool_put (bin_mempool status) b;
     Some (num_entries + bin_size b, num_bins + 1, status\<lparr> bin_mempool := mp \<rparr>) })"

definition seq_handle_spent :: "seq_admissible_status \<Rightarrow> seq_admissible_status option" where
  "seq_handle_spent status = do {
     (bins, q) \<leftarrow> fp_ring_dequeue_burst (q_spent status) SPENT_RING_DEQUEUE_SIZE;
     (num_entries, num_bins, status) \<leftarrow> foldo handle_spent_bin bins (0, 0, status\<lparr> q_spent := q \<rparr>);
     Some (status\<lparr> st_stat := adm_log_processed_spent_demands (st_stat status) num_bins num_entries \<rparr>) }"

definition seq_reset_sender :: "seq_admissible_status \<Rightarrow> u16 \<Rightarrow> seq_admissible_status option" where
  "seq_reset_sender status src =
     foldo (\<lambda>dst status. do {
       bl \<leftarrow> backlog_reset_pair (st_backlog status) src (of_nat dst);
       Some (status\<lparr> st_backlog := bl \<rparr>) }) [0..<MAX_NODES] status"

subsection \<open>Definitions: the bin of a flow\<close>

text \<open>
  The arithmetic is on 32-bit words except the shift, whose left operand \<^verbatim>\<open>~0UL << ...\<close> is
  64 bits wide. \<^verbatim>\<open>group_ind\<close> is a \<^verbatim>\<open>uint16_t\<close>. For a \<^verbatim>\<open>group_ind\<close> above 62 the shift count is out
  of the range C defines; the processor reduces it modulo 64, and since those groups are folded
  into the last one the result does not depend on it.
\<close>

definition bin_index_from_timeslot :: "u32 \<Rightarrow> u64 \<Rightarrow> nat" where
  "bin_index_from_timeslot last_allocated cur =
     (let gap = (ucast (cur + of_nat BATCH_SIZE) :: u32) - last_allocated
      in if gap \<le> of_nat NUM_BINS then NUM_BINS + BATCH_SIZE - 1 - unat gap
         else
          (let gap = gap - (of_nat NUM_BINS + 1);
               group_ind = (ucast (drop_bit BATCH_SHIFT gap) :: u16);
               bin_gap = (ucast (drop_bit ((1 + unat group_ind) mod 64)
                            (push_bit (BATCH_SHIFT + 1) (NOT (0 :: u64))
                              OR (ucast gap AND of_nat (BATCH_SIZE - 1)))) :: u16);
               is_large_gap = (if unat group_ind \<ge> BATCH_SHIFT then 1 else 0 :: u16);
               bin_gap = bin_gap OR (push_bit 15 1 - is_large_gap)
           in BATCH_SIZE - 1 - unat (bin_gap AND of_nat (BATCH_SIZE - 1))))"

definition new_metric_after_alloc :: "nat \<Rightarrow> seq_admission_core_state \<Rightarrow> u32" where
  "new_metric_after_alloc batch_timeslot core = ucast (current_timeslot core + of_nat batch_timeslot)"

definition bin_after_alloc :: "nat \<Rightarrow> nat" where
  "bin_after_alloc batch_timeslot = NUM_BINS + batch_timeslot"

subsection \<open>Definitions: moving entries\<close>

definition set_bin_non_empty :: "seq_admission_core_state \<Rightarrow> nat \<Rightarrow> seq_admission_core_state" where
  "set_bin_non_empty core bin_index = core\<lparr> non_empty_bins := bts (non_empty_bins core) bin_index \<rparr>"

definition add_request :: "nat \<Rightarrow> backlog_edge \<Rightarrow> seq_admission_core_state
    \<Rightarrow> seq_admission_core_state option" where
  "add_request bin_index edge core = do {
     guard_o (bin_index < NUM_BINS + BATCH_SIZE);
     b \<leftarrow> enqueue_bin_edge (new_request_bins core bin_index) edge;
     Some (set_bin_non_empty
       (core\<lparr> new_request_bins := (new_request_bins core)(bin_index := b) \<rparr>) bin_index) }"

definition incoming_bin_to_core :: "bin \<Rightarrow> seq_admission_core_state \<Rightarrow> seq_admission_core_state option" where
  "incoming_bin_to_core b core =
     foldo (\<lambda>i core. add_request
               (bin_index_from_timeslot (e_metric (bin_get b i)) (current_timeslot core))
               (bin_get b i) core)
       [0..<unat (bin_size b)] core"

definition move_bin_to_q_out :: "nat \<Rightarrow> bin \<Rightarrow> cstate \<Rightarrow> cstate option" where
  "move_bin_to_q_out queue_out b =
     foldo (\<lambda>i. core_enqueue_to_q_out_edge queue_out (bin_get b i)) [0..<unat (bin_size b)]"

partial_function (option) move_core_loop :: "nat \<Rightarrow> nat \<Rightarrow> u64 \<Rightarrow> cstate \<Rightarrow> cstate option" where
  "move_core_loop queue_out ind msk s =
     (if msk = 0 then Some s
      else do {
        let bin_index = lsb_of msk + 64 * ind;
        guard_o (bin_index < NUM_BINS + BATCH_SIZE);
        let b = new_request_bins (fst s) bin_index;
        s \<leftarrow> move_bin_to_q_out queue_out b
               ((fst s)\<lparr> core_stat := adm_log_wrap_up_non_empty_bin (core_stat (fst s)) (bin_size b) \<rparr>,
                snd s);
        move_core_loop queue_out ind (msk AND (msk - 1)) s })"

definition move_core_to_q_out :: "nat \<Rightarrow> cstate \<Rightarrow> cstate option" where
  "move_core_to_q_out queue_out =
     foldo (\<lambda>ind s. move_core_loop queue_out ind (non_empty_bins (fst s) ind) s) [0..<BIN_MASK_SIZE]"

subsection \<open>Definitions: allocation\<close>

definition try_allocation :: "u16 \<Rightarrow> u16 \<Rightarrow> u16 \<Rightarrow> u32 \<Rightarrow> cstate \<Rightarrow> (bool \<times> cstate) option" where
  "try_allocation src dst backlog metric = (\<lambda>(core, status). do {
     timeslot_bitmap \<leftarrow> batch_state_get_avail_bitmap (core_batch core) src dst;
     if timeslot_bitmap = 0
     then Some (True, core\<lparr> core_stat :=
            adm_algo_log_no_available_timeslots_for_bin_entry (core_stat core) \<rparr>, status)
     else do {
       let batch_timeslot = lsb_of timeslot_bitmap mod 2 ^ BATCH_SHIFT;
       let set_bit = timeslot_bitmap AND (- timeslot_bitmap);
       let backlog = backlog - 1;
       bs \<leftarrow> batch_state_set_occupied_conditional (core_batch core) src dst batch_timeslot set_bit;
       let core = core\<lparr> core_batch := bs \<rparr>;
       let metric = new_metric_after_alloc batch_timeslot core;
       let p = core_admitted core batch_timeslot;
       adm \<leftarrow> insert_admitted_edge (admitted_store status p) src dst;
       let status = status\<lparr> admitted_store := (admitted_store status)(p := adm) \<rparr>;
       if backlog \<noteq> 0 then do {
         let core = core\<lparr> core_stat := adm_log_allocated_backlog_remaining (core_stat core) (ucast backlog) \<rparr>;
         core \<leftarrow> add_request (bin_after_alloc batch_timeslot)
                  \<lparr> e_src = src, e_dst = dst, e_backlog = backlog, e_metric = metric \<rparr> core;
         Some (False, core, status) }
       else do {
         s \<leftarrow> core_enqueue_to_q_spent src dst metric
                (core\<lparr> core_stat := adm_log_allocator_no_backlog (core_stat core) \<rparr>, status);
         Some (False, s) } } })"

definition try_allocation_bin :: "nat \<Rightarrow> nat \<Rightarrow> cstate \<Rightarrow> cstate option" where
  "try_allocation_bin bin_index queue_out s =
     foldo (\<lambda>i s. do {
         let e = bin_get (new_request_bins (fst s) bin_index) i;
         (rc, s) \<leftarrow> try_allocation (e_src e) (e_dst e) (e_backlog e) (e_metric e) s;
         if rc then core_enqueue_to_q_out queue_out (e_src e) (e_dst e) (e_backlog e) (e_metric e) s
         else Some s })
       [0..<unat (bin_size (new_request_bins (fst s) bin_index))] s"

partial_function (option) try_allocation_loop :: "nat \<Rightarrow> nat \<Rightarrow> u64 \<Rightarrow> cstate \<Rightarrow> cstate option" where
  "try_allocation_loop queue_out ind allowed s =
     (let msk = non_empty_bins (fst s) ind AND allowed
      in if msk = 0 then Some s
         else do {
           let core = fst s;
           let core = core\<lparr> non_empty_bins := (non_empty_bins core)
                 (ind := non_empty_bins core ind XOR (msk AND (- msk))) \<rparr>;
           let bin_index = lsb_of msk + 64 * ind;
           guard_o (bin_index < NUM_BINS + BATCH_SIZE);
           let core = core\<lparr> core_stat := adm_log_processed_core_bin (core_stat core)
                 (of_nat bin_index) (ucast (bin_size (new_request_bins core bin_index))) \<rparr>;
           s \<leftarrow> try_allocation_bin bin_index queue_out (core, snd s);
           let core = fst s;
           let core = core\<lparr> new_request_bins := (new_request_bins core)
                 (bin_index := init_bin (new_request_bins core bin_index)) \<rparr>;
           try_allocation_loop queue_out ind allowed (core, snd s) })"

definition try_allocation_core :: "nat \<Rightarrow> cstate \<Rightarrow> cstate option" where
  "try_allocation_core queue_out =
     foldo (\<lambda>ind s. try_allocation_loop queue_out ind (allowed_bins (fst s) ind) s) [0..<BIN_MASK_SIZE]"

definition process_new_bin :: "bin \<Rightarrow> u32 \<times> u32 \<times> cstate \<Rightarrow> (u32 \<times> u32 \<times> cstate) option" where
  "process_new_bin b = (\<lambda>(num_entries, num_bins, core, status). do {
     core \<leftarrow> incoming_bin_to_core b core;
     mp \<leftarrow> fp_mempool_put (bin_mempool status) b;
     Some (num_entries + bin_size b, num_bins + 1, core, status\<lparr> bin_mempool := mp \<rparr>) })"

definition process_new_requests :: "cstate \<Rightarrow> (u32 \<times> cstate) option" where
  "process_new_requests = (\<lambda>(core, status). do {
     (bins, q) \<leftarrow> fp_ring_dequeue_burst (q_head status) RING_DEQUEUE_BURST_SIZE;
     (num_entries, num_bins, core, status) \<leftarrow>
        foldo process_new_bin bins (0, 0, core, status\<lparr> q_head := q \<rparr>);
     Some (num_entries,
       core\<lparr> core_stat := adm_log_processed_new_requests (core_stat core) num_bins num_entries \<rparr>,
       status) })"

definition burst_q_in_to_q_out :: "nat \<Rightarrow> nat \<Rightarrow> cstate \<Rightarrow> (nat \<times> cstate) option" where
  "burst_q_in_to_q_out queue_in queue_out = (\<lambda>(core, status). do {
     guard_o (queue_in < length (q_bin status) \<and> queue_out < length (q_bin status));
     (bins, q) \<leftarrow> fp_ring_dequeue_burst (q_bin status ! queue_in) Q_IN_Q_OUT_BURST_SIZE;
     let status = status\<lparr> q_bin := (q_bin status)[queue_in := q] \<rparr>;
     if length bins > 0 then do {
       q \<leftarrow> fp_ring_enqueue_bulk (q_bin status ! queue_out) bins;
       Some (length bins, core, status\<lparr> q_bin := (q_bin status)[queue_out := q] \<rparr>) }
     else Some (length bins, core, status) })"

subsection \<open>Definitions: one batch\<close>

text \<open>
  The local variables of \<^verbatim>\<open>seq_get_admissible_traffic\<close> that live across iterations of its loop.
\<close>

record batch_locals =
  prev_timeslot :: u64
  now_timeslot :: u64
  processed_bins :: u16
  admitted_bins :: u16
  should_process_new_req :: bool
  n_processed :: u64

definition send_admitted :: "nat \<Rightarrow> cstate \<Rightarrow> cstate option" where
  "send_admitted b = (\<lambda>(core, status). do {
     q \<leftarrow> fp_ring_enqueue (q_admitted_out status) (core_admitted core b);
     Some (core\<lparr> core_batch := batch_state_disallow_lsb_timeslot (core_batch core) \<rparr>,
           status\<lparr> q_admitted_out := q \<rparr>) })"

text \<open>
  From the test of the clock to the label \<^verbatim>\<open>handle_inputs\<close>: send out the timeslots whose time has
  come, then allow more bins. The flag of the result is the jump to \<^verbatim>\<open>wrap_up\<close>.
\<close>

definition update_allowed :: "u64 \<Rightarrow> batch_locals \<Rightarrow> cstate \<Rightarrow> (bool \<times> batch_locals \<times> cstate) option" where
  "update_allowed first_timeslot l = (\<lambda>(core, status).
     let slot_gap = sint (now_timeslot l - (first_timeslot + of_nat BATCH_SIZE - 1)
                          + of_nat TIMESLOTS_START_BEFORE)
     in if slot_gap < 0 then Some (False, l, core, status)
        else
         (let new_processed_bins = (if slot_gap > int TIMESLOTS_START_BEFORE
                then of_nat (BATCH_SIZE + NUM_BINS)
                else of_int (slot_gap div 2 ^ TIMESLOT_SHIFT_PER_PRIORITY) :: u16);
              core = core\<lparr> allowed_bins :=
                fold (\<lambda>b arr. bts arr b) [unat (processed_bins l)..<unat new_processed_bins]
                  (allowed_bins core) \<rparr>
          in Some (False, l\<lparr> processed_bins := new_processed_bins \<rparr>, core, status)))"

definition clock_step :: "u64 \<Rightarrow> batch_locals \<Rightarrow> cstate \<Rightarrow> (bool \<times> batch_locals \<times> cstate) option" where
  "clock_step first_timeslot l s =
     (if now_timeslot l = prev_timeslot l then Some (False, l, s)
      else do {
        let l = l\<lparr> prev_timeslot := now_timeslot l,
                   should_process_new_req :=
                     first_timeslot - now_timeslot l > URGENT_NUM_TIMESLOTS_END
                     \<and> first_timeslot - now_timeslot l \<le> URGENT_NUM_TIMESLOTS_START \<rparr>;
        let admit_gap = sint (now_timeslot l - first_timeslot + 1);
        if admit_gap \<le> 0 then update_allowed first_timeslot l s
        else do {
          let admit_gap = (if admit_gap > int BATCH_SIZE then int BATCH_SIZE else admit_gap);
          s \<leftarrow> foldo send_admitted [unat (admitted_bins l)..<nat admit_gap] s;
          let l = l\<lparr> admitted_bins := of_int admit_gap \<rparr>;
          if admitted_bins l = of_nat BATCH_SIZE then Some (True, l, s)
          else update_allowed first_timeslot l s } })"

definition handle_inputs :: "nat \<Rightarrow> nat \<Rightarrow> batch_locals \<Rightarrow> cstate \<Rightarrow> (batch_locals \<times> cstate) option" where
  "handle_inputs queue_in queue_out l s =
     (if unat (n_processed l) \<ge> MAX_DEMANDS_PER_BATCH (snd s) then do {
        (n, core, status) \<leftarrow> burst_q_in_to_q_out queue_in queue_out s;
        Some (l, core\<lparr> core_stat := adm_log_passed_bins_during_run (core_stat core) (of_nat n) \<rparr>, status) }
      else do {
        (l, core, status) \<leftarrow>
          (if should_process_new_req l then do {
             (n, s) \<leftarrow> process_new_requests s;
             Some (l\<lparr> n_processed := n_processed l + ucast n \<rparr>, s) }
           else Some (l, s));
        guard_o (queue_in < length (q_bin status));
        (r, q) \<leftarrow> fp_ring_dequeue (q_bin status ! queue_in);
        let status = status\<lparr> q_bin := (q_bin status)[queue_in := q] \<rparr>;
        case r of None \<Rightarrow> Some (l, core, status)
        | Some bin_in \<Rightarrow> do {
            let core = core\<lparr> core_stat := adm_log_dequeued_bin_in (core_stat core) (ucast (bin_size bin_in)) \<rparr>;
            let l = l\<lparr> n_processed := n_processed l + ucast (bin_size bin_in) \<rparr>;
            core \<leftarrow> incoming_bin_to_core bin_in core;
            mp \<leftarrow> fp_mempool_put (bin_mempool status) bin_in;
            Some (l, core, status\<lparr> bin_mempool := mp \<rparr>) } })"

text \<open>
  The stand-alone build advances the clock by one in every iteration and processes new
  requests ten times, without counting them.
\<close>

definition poll_requests :: "cstate \<Rightarrow> cstate option" where
  "poll_requests = foldo (\<lambda>_ s. map_option snd (process_new_requests s)) [0..<10]"

partial_function (option) batch_loop :: "nat \<Rightarrow> nat \<Rightarrow> u64 \<Rightarrow> batch_locals \<Rightarrow> cstate \<Rightarrow> cstate option" where
  "batch_loop queue_in queue_out first_timeslot l s = do {
     let l = l\<lparr> now_timeslot := now_timeslot l + 1 \<rparr>;
     s \<leftarrow> poll_requests s;
     (wrap_up, l, s) \<leftarrow> clock_step first_timeslot l s;
     if wrap_up then Some s
     else do {
       (l, s) \<leftarrow> handle_inputs queue_in queue_out l s;
       s \<leftarrow> try_allocation_core queue_out s;
       batch_loop queue_in queue_out first_timeslot l s } }"

definition get_admitted_structs :: "cstate \<Rightarrow> cstate option" where
  "get_admitted_structs = (\<lambda>(core, status). do {
     (r, mp) \<leftarrow> fp_mempool_get_bulk (admitted_traffic_mempool status) BATCH_SIZE;
     ps \<leftarrow> r;
     let core = core\<lparr> core_admitted := (\<lambda>i. if i < BATCH_SIZE then ps ! i else core_admitted core i) \<rparr>;
     Some (core, status\<lparr> admitted_traffic_mempool := mp,
       admitted_store := fold (\<lambda>i store. store(core_admitted core i :=
           init_admitted_traffic (store (core_admitted core i)))) [0..<BATCH_SIZE]
         (admitted_store status) \<rparr>) })"

definition batch_wrap_up :: "nat \<Rightarrow> nat \<Rightarrow> cstate \<Rightarrow> cstate option" where
  "batch_wrap_up queue_in queue_out s = do {
     (core, status) \<leftarrow> move_core_to_q_out queue_out s;
     (core, status) \<leftarrow> (if \<not> is_empty_bin (out_bin core)
        then core_flush_q_out queue_out
               (core\<lparr> core_stat := adm_log_q_out_flush_batch_finished (core_stat core) \<rparr>, status)
        else Some (core, status));
     (core, status) \<leftarrow> (if \<not> is_empty_bin (spent_bin core)
        then core_flush_q_spent
               (core\<lparr> core_stat := adm_log_q_spent_flush_batch_finished (core_stat core) \<rparr>, status)
        else Some (core, status));
     (n, core, status) \<leftarrow> burst_q_in_to_q_out queue_in queue_out (core, status);
     Some (core\<lparr> core_stat := adm_log_passed_bins_during_wrap_up (core_stat core) (of_nat n),
                 current_timeslot := current_timeslot core
                   + of_nat (ALGO_N_CORES status * BATCH_SIZE) \<rparr>, status) }"

definition seq_get_admissible_traffic :: "seq_admissible_status \<Rightarrow> nat \<Rightarrow> u64
    \<Rightarrow> seq_admissible_status option" where
  "seq_get_admissible_traffic status core_index first_timeslot = do {
     guard_o (core_index < ALGO_N_CORES status);
     let queue_in = core_index;
     let queue_out = (core_index + 1) mod ALGO_N_CORES status;
     s \<leftarrow> alloc_core_reset (cores status ! core_index, status);
     s \<leftarrow> get_admitted_structs s;
     let l = \<lparr> prev_timeslot = first_timeslot - of_nat NUM_BINS - 2,
               now_timeslot = first_timeslot - of_nat NUM_BINS - 1,
               processed_bins = 0, admitted_bins = 0,
               should_process_new_req = False, n_processed = 0 \<rparr>;
     s \<leftarrow> batch_loop queue_in queue_out first_timeslot l s;
     (core, status) \<leftarrow> batch_wrap_up queue_in queue_out s;
     Some (set_core status core_index core) }"

end
