(* ===== verification/FP_Alloc_Inv.thy ===== *)
theory FP_Alloc_Inv
  imports FP_Alloc
begin

unbundle bit_operations_syntax

text \<open>
  The invariant of a batch of the allocator. While entries move between rings, bins and the
  hands of the code, the following is kept: every entry of the pipeline is somewhere exactly
  once; for every pair the demand that is left plus the timeslots given out is constant; the
  admitted traffic of each timeslot never uses a source twice (nor, without traffic that
  leaves the network, a destination); and there are always enough free bins and enough room
  in the rings.

  An invariant takes the constants of the batch (\<^verbatim>\<open>bparams\<close>), the set of request bins
  whose contents are not counted (because the code is working through them), the multiset of
  entries in hand (those waiting for allocation and the spent ones), the number of bins in
  hand, and how many bins may still be dequeued. \<^verbatim>\<open>bp_sent\<close> counts the timeslots already sent
  out; their traffic, \<^verbatim>\<open>bp_snap\<close>, no longer changes.
\<close>

subsection \<open>Definitions\<close>

definition pair :: "backlog_edge \<Rightarrow> u16 \<times> u16" where
  "pair e = (e_src e, e_dst e)"

definition apair :: "admitted_edge \<Rightarrow> u16 \<times> u16" where
  "apair a = (a_src a, a_dst a)"

definition edges_of :: "bin multiset \<Rightarrow> backlog_edge multiset" where
  "edges_of bs = (\<Sum>b\<in>#bs. mset (bin_list b))"

definition demand :: "u16 \<times> u16 \<Rightarrow> backlog_edge multiset \<Rightarrow> nat" where
  "demand p es = (\<Sum>e\<in>#es. if pair e = p then unat (e_backlog e) else 0)"

definition qwork :: "seq_admissible_status \<Rightarrow> bin multiset" where
  "qwork st = mset (ring_list (q_head st)) + (\<Sum>r\<leftarrow>q_bin st. mset (ring_list r))"

definition qspent :: "seq_admissible_status \<Rightarrow> bin multiset" where
  "qspent st = mset (ring_list (q_spent st))"

definition req_edges :: "nat set \<Rightarrow> (nat \<Rightarrow> bin) \<Rightarrow> backlog_edge multiset" where
  "req_edges B arr = (\<Sum>b\<in>{..<48} - B. mset (bin_list (arr b)))"

definition work_edges :: "cstate \<Rightarrow> backlog_edge multiset" where
  "work_edges s = edges_of (qwork (snd s)) + mset (bin_list (out_bin (fst s)))"

definition spent_edges :: "cstate \<Rightarrow> backlog_edge multiset" where
  "spent_edges s = edges_of (qspent (snd s)) + mset (bin_list (spent_bin (fst s)))"

definition all_edges :: "nat set \<Rightarrow> cstate \<Rightarrow> backlog_edge multiset" where
  "all_edges B s = work_edges s + spent_edges s + req_edges B (new_request_bins (fst s))"

definition tslot :: "cstate \<Rightarrow> nat \<Rightarrow> admitted_edge list" where
  "tslot s t = admitted_list (admitted_store (snd s) (core_admitted (fst s) t))"

definition served :: "u16 \<times> u16 \<Rightarrow> cstate \<Rightarrow> nat" where
  "served p s = (\<Sum>t<16. count (mset (map apair (tslot s t))) p)"

record bparams =
  bp_pairs :: "(u16 \<times> u16) multiset"
  bp_need :: "u16 \<times> u16 \<Rightarrow> nat"
  bp_bins :: nat
  bp_clean :: bool
  bp_sent :: nat
  bp_snap :: "nat \<Rightarrow> admitted_edge list"
  bp_core :: seq_admission_core_state
  bp_st :: seq_admissible_status

definition bin_small :: "bin \<Rightarrow> bool" where
  "bin_small b \<longleftrightarrow> bin_wf b \<and> bin_cap b = 32"

definition later_bin :: "seq_admission_core_state \<Rightarrow> nat \<Rightarrow> backlog_edge \<Rightarrow> bool" where
  "later_bin core b e \<longleftrightarrow> (\<forall>t. bit (avail (core_batch core) (e_src e) (e_dst e)) t \<longrightarrow> b < 32 + t)"

definition edge_ok :: "bparams \<Rightarrow> seq_admission_core_state \<Rightarrow> backlog_edge \<Rightarrow> bool" where
  "edge_ok K core e \<longleftrightarrow> unat (e_src e) < 256 \<and> unat (e_dst e) < 256 \<and> e_backlog e \<noteq> 0
     \<and> (bp_clean K \<longrightarrow> unat (e_dst e) \<noteq> 255)
     \<and> later_bin core (bin_index_from_timeslot (e_metric e) (current_timeslot core)) e"

definition spent_ok :: "backlog_edge \<Rightarrow> bool" where
  "spent_ok e \<longleftrightarrow> unat (e_src e) < 256 \<and> unat (e_dst e) < 256 \<and> e_backlog e = 0"

text \<open>Rings, pools and bins.\<close>

definition qring_ok :: "bparams \<Rightarrow> nat \<Rightarrow> bin fp_ring \<Rightarrow> bool" where
  "qring_ok K g r \<longleftrightarrow> ring_wf r \<and> size (bp_pairs K) \<le> ring_room r
     \<and> unat (ring_head r) + ring_room r + g < 4294967296"

definition res_inv :: "bparams \<Rightarrow> nat \<Rightarrow> nat \<Rightarrow> cstate \<Rightarrow> bool" where
  "res_inv K h g s \<longleftrightarrow>
     ring_wf (q_head (snd s)) \<and> (\<forall>r \<in> set (q_bin (snd s)). qring_ok K g r)
     \<and> ring_wf (q_spent (snd s)) \<and> size (bp_pairs K) \<le> ring_room (q_spent (snd s))
     \<and> (\<forall>b \<in># qwork (snd s) + qspent (snd s). bin_small b \<and> bin_list b \<noteq> [])
     \<and> pool_wf (bin_mempool (snd s)) \<and> (\<forall>b \<in> set (pool_list (bin_mempool (snd s))). bin_cap b = 32)
     \<and> bp_bins K \<le> pool_size (bin_mempool (snd s))
     \<and> size (qwork (snd s)) + size (qspent (snd s)) + length (pool_list (bin_mempool (snd s))) + h = bp_bins K
     \<and> size (bp_pairs K) \<le> bp_bins K \<and> size (bp_pairs K) \<le> 65536
     \<and> bin_small (out_bin (fst s)) \<and> length (bin_list (out_bin (fst s))) < 32
     \<and> bin_small (spent_bin (fst s)) \<and> length (bin_list (spent_bin (fst s))) < 32
     \<and> (\<forall>b < 48. bin_wf (new_request_bins (fst s) b) \<and> bin_cap (new_request_bins (fst s) b) = 65536)"

text \<open>Entries and demands.\<close>

definition edge_inv :: "bparams \<Rightarrow> nat set \<Rightarrow> backlog_edge multiset \<Rightarrow> backlog_edge multiset \<Rightarrow> cstate \<Rightarrow> bool" where
  "edge_inv K B X Y s \<longleftrightarrow>
     image_mset pair (all_edges B s + X + Y) = bp_pairs K
     \<and> (\<forall>p. demand p (all_edges B s + X + Y) + served p s = bp_need K p)
     \<and> (\<forall>e \<in># work_edges s + X. edge_ok K (fst s) e)
     \<and> (\<forall>e \<in># spent_edges s + Y. spent_ok e)
     \<and> (\<forall>b < 48. b \<notin> B \<longrightarrow> (\<forall>e \<in> set (bin_list (new_request_bins (fst s) b)).
          edge_ok K (fst s) e \<and> later_bin (fst s) b e))
     \<and> (\<forall>b < 48. b \<notin> B \<longrightarrow> bin_list (new_request_bins (fst s) b) \<noteq> []
          \<longrightarrow> bit (non_empty_bins (fst s) 0) b)
     \<and> (\<forall>b. bit (non_empty_bins (fst s) 0) b \<longrightarrow> b < 48)"

text \<open>Admitted traffic and occupancy.\<close>

definition match_inv :: "bparams \<Rightarrow> cstate \<Rightarrow> bool" where
  "match_inv K s \<longleftrightarrow>
     inj_on (core_admitted (fst s)) {..<16}
     \<and> (\<forall>i. bit (allowed_mask (core_batch (fst s))) i \<longleftrightarrow> bp_sent K \<le> i \<and> i < 16)
     \<and> (\<forall>t < 16. distinct (map a_src (tslot s t)) \<and> (\<forall>a \<in> set (tslot s t).
          unat (a_src a) < 256 \<and> unat (a_dst a) < 256
          \<and> \<not> bit (src_endnodes (core_batch (fst s)) (unat (a_src a))) t))
     \<and> (bp_clean K \<longrightarrow> (\<forall>t < 16. out_of_boundary_counts (core_batch (fst s)) t = 0
          \<and> distinct (map a_dst (tslot s t)) \<and> (\<forall>a \<in> set (tslot s t).
               \<not> bit (dst_endnodes (core_batch (fst s)) (unat (a_dst a))) t)))
     \<and> (\<forall>t < 16. t < bp_sent K \<longrightarrow> tslot s t = bp_snap K t)"

text \<open>What a batch does not touch.\<close>

definition frame_inv :: "bparams \<Rightarrow> cstate \<Rightarrow> bool" where
  "frame_inv K s \<longleftrightarrow>
     current_timeslot (fst s) = current_timeslot (bp_core K)
     \<and> core_admitted (fst s) = core_admitted (bp_core K)
     \<and> st_backlog (snd s) = st_backlog (bp_st K)
     \<and> last_alloc_tslot (snd s) = last_alloc_tslot (bp_st K)
     \<and> new_demands (snd s) = new_demands (bp_st K)
     \<and> cores (snd s) = cores (bp_st K)
     \<and> st_oversubscribed (snd s) = st_oversubscribed (bp_st K)
     \<and> st_out_of_boundary_capacity (snd s) = st_out_of_boundary_capacity (bp_st K)
     \<and> num_nodes (snd s) = num_nodes (bp_st K)
     \<and> q_admitted_out (snd s) = q_admitted_out (bp_st K)
     \<and> admitted_traffic_mempool (snd s) = admitted_traffic_mempool (bp_st K)
     \<and> length (q_bin (snd s)) = length (q_bin (bp_st K))
     \<and> (\<forall>p. p \<notin> core_admitted (bp_core K) ` {..<16} \<longrightarrow>
          admitted_store (snd s) p = admitted_store (bp_st K) p)"

definition binv :: "bparams \<Rightarrow> nat set \<Rightarrow> backlog_edge multiset \<Rightarrow> backlog_edge multiset \<Rightarrow> nat \<Rightarrow> nat
    \<Rightarrow> cstate \<Rightarrow> bool" where
  "binv K B X Y h g s \<longleftrightarrow> res_inv K h g s \<and> edge_inv K B X Y s \<and> match_inv K s \<and> frame_inv K s"

lemmas binv_defs = binv_def res_inv_def edge_inv_def match_inv_def frame_inv_def

lemma bin_small_init [simp]: "bin_small b \<Longrightarrow> bin_small (init_bin b)"
  by (simp add: bin_small_def)

subsection \<open>Multisets of entries\<close>

lemma edges_of_simps [simp]:
  "edges_of {#} = {#}"
  "edges_of (add_mset b bs) = mset (bin_list b) + edges_of bs"
  "edges_of (bs + cs) = edges_of bs + edges_of cs"
  by (simp_all add: edges_of_def)

lemma demand_simps [simp]:
  "demand p {#} = 0"
  "demand p (add_mset e es) = (if pair e = p then unat (e_backlog e) else 0) + demand p es"
  "demand p (es + fs) = demand p es + demand p fs"
  by (simp_all add: demand_def)

lemma size_edges_of:
  assumes "\<forall>b \<in># bs. bin_list b \<noteq> []"
  shows "size bs \<le> size (edges_of bs)"
  using assms
proof (induction bs)
  case (add b bs)
  have "1 \<le> length (bin_list b)"
    using add.prems by (simp add: Suc_le_eq)
  then show ?case
    using add by simp
qed simp

lemma req_edges_upd_out: "b \<in> B \<Longrightarrow> req_edges B (arr(b := c)) = req_edges B arr"
  unfolding req_edges_def by (rule sum.cong) auto

lemma req_edges_insert:
  assumes "b < 48" "b \<notin> B"
  shows "req_edges B arr = req_edges (insert b B) arr + mset (bin_list (arr b))"
proof -
  define A :: "nat set" where "A = {..<48}"
  have "finite (A - insert b B)" "b \<notin> A - insert b B" "insert b (A - insert b B) = A - B"
    using assms by (auto simp: A_def)
  then have "(\<Sum>x\<in>A - B. mset (bin_list (arr x)))
      = mset (bin_list (arr b)) + (\<Sum>x\<in>A - insert b B. mset (bin_list (arr x)))"
    using sum.insert [of "A - insert b B" b "\<lambda>x. mset (bin_list (arr x))"] by simp
  then show ?thesis
    by (simp only: req_edges_def A_def add.commute)
qed

lemma req_edges_upd_in:
  assumes "b < 48" "b \<notin> B"
  shows "req_edges B (arr(b := c)) + mset (bin_list (arr b)) = req_edges B arr + mset (bin_list c)"
  using req_edges_insert [OF assms, of arr] req_edges_insert [OF assms, of "arr(b := c)"]
    req_edges_upd_out [of b "insert b B" arr c]
  by (simp add: ac_simps)

lemma qwork_upd:
  assumes "i < length (q_bin st)"
  shows "qwork (st\<lparr> q_bin := (q_bin st)[i := r] \<rparr>) + mset (ring_list (q_bin st ! i))
    = qwork st + mset (ring_list r)"
  using sum_list_upd [of i "map (\<lambda>r. mset (ring_list r)) (q_bin st)" "mset (ring_list r)"] assms
  by (simp add: qwork_def map_update ac_simps)

subsection \<open>Moving entries that wait for allocation\<close>

lemma edge_inv_move:
  assumes "edge_inv K B X Y s"
    and "work_edges s' + X' = work_edges s + X" "spent_edges s' + Y' = spent_edges s + Y"
    and "new_request_bins (fst s') = new_request_bins (fst s)"
      "non_empty_bins (fst s') 0 = non_empty_bins (fst s) 0"
    and "core_batch (fst s') = core_batch (fst s)" "current_timeslot (fst s') = current_timeslot (fst s)"
    and "\<And>t. tslot s' t = tslot s t"
  shows "edge_inv K B X' Y' s'"
proof -
  have "all_edges B s' + X' + Y' = (work_edges s' + X') + (spent_edges s' + Y')
      + req_edges B (new_request_bins (fst s'))"
    by (simp add: all_edges_def ac_simps)
  also have "\<dots> = all_edges B s + X + Y"
    by (simp add: assms(2-4)) (simp add: all_edges_def ac_simps)
  finally have "all_edges B s' + X' + Y' = all_edges B s + X + Y" .
  moreover have "served p s' = served p s" for p
    by (simp add: served_def assms(8))
  moreover have "edge_ok K (fst s') e = edge_ok K (fst s) e" "later_bin (fst s') b e = later_bin (fst s) b e" for e b
    by (simp_all add: edge_ok_def later_bin_def assms(6,7))
  ultimately show ?thesis
    using assms(1) unfolding edge_inv_def assms(2-5) by simp
qed

lemma binv_stat [simp]:
  "binv K B X Y h g (core\<lparr> core_stat := x \<rparr>, st) = binv K B X Y h g (core, st)"
proof -
  have "edge_inv K B X Y (core\<lparr>core_stat := x\<rparr>, st) = edge_inv K B X Y (core, st)"
    by (rule iffI; erule edge_inv_move) (simp_all add: work_edges_def spent_edges_def tslot_def)
  moreover have "match_inv K (core\<lparr>core_stat := x\<rparr>, st) = match_inv K (core, st)"
    by (simp add: match_inv_def tslot_def)
  ultimately show ?thesis
    by (simp add: binv_def res_inv_def frame_inv_def)
qed

lemma binv_stat_out [simp]:
  "binv K B X Y h g (core\<lparr> core_stat := x, out_bin := b \<rparr>, st) = binv K B X Y h g (core\<lparr> out_bin := b \<rparr>, st)"
proof -
  have "core\<lparr> core_stat := x, out_bin := b \<rparr> = core\<lparr> out_bin := b \<rparr>\<lparr> core_stat := x \<rparr>"
    by simp
  then show ?thesis
    by (simp only: binv_stat)
qed

lemma binv_stat_spent [simp]:
  "binv K B X Y h g (core\<lparr> core_stat := x, spent_bin := b \<rparr>, st) = binv K B X Y h g (core\<lparr> spent_bin := b \<rparr>, st)"
proof -
  have "core\<lparr> core_stat := x, spent_bin := b \<rparr> = core\<lparr> spent_bin := b \<rparr>\<lparr> core_stat := x \<rparr>"
    by simp
  then show ?thesis
    by (simp only: binv_stat)
qed

lemma binv_count:
  assumes "binv K B X Y h g s"
  shows "size (qwork (snd s)) + size (qspent (snd s)) + length (bin_list (out_bin (fst s)))
    + length (bin_list (spent_bin (fst s))) + size (req_edges B (new_request_bins (fst s))) + size X + size Y
    \<le> size (bp_pairs K)"
proof -
  have "size (qwork (snd s)) \<le> size (edges_of (qwork (snd s)))"
    "size (qspent (snd s)) \<le> size (edges_of (qspent (snd s)))"
    using assms by (auto intro!: size_edges_of simp: binv_def res_inv_def)
  moreover have "size (all_edges B s + X + Y) = size (bp_pairs K)"
    using assms unfolding binv_def edge_inv_def by (metis size_image_mset)
  ultimately show ?thesis
    by (simp add: all_edges_def work_edges_def spent_edges_def)
qed

lemma fresh_bin_ok:
  assumes "pool_wf (bin_mempool st)" "pool_list (bin_mempool st) \<noteq> []"
    and "\<forall>b \<in> set (pool_list (bin_mempool st)). bin_cap b = 32"
  shows "wp (fresh_bin st) (\<lambda>(b, st'). bin_small b \<and> bin_list b = [] \<and> (\<exists>mp. st' = st\<lparr> bin_mempool := mp \<rparr>
    \<and> pool_wf mp \<and> pool_size mp = pool_size (bin_mempool st)
    \<and> length (pool_list (bin_mempool st)) = Suc (length (pool_list mp))
    \<and> (\<forall>b \<in> set (pool_list mp). bin_cap b = 32)))"
proof -
  obtain x mp where "fp_mempool_get (bin_mempool st) = Some (Some x, mp)" "pool_wf mp"
      "pool_list (bin_mempool st) = pool_list mp @ [x]" "pool_size mp = pool_size (bin_mempool st)"
    using wpD [OF fp_mempool_get_ok [OF assms(1,2)]] by auto
  then show ?thesis
    using assms(3) by (auto simp: fresh_bin_def bin_small_def)
qed

lemma binv_pool_nonempty:
  assumes "binv K B X Y 0 g s" "X + Y \<noteq> {#}"
  shows "pool_list (bin_mempool (snd s)) \<noteq> []"
proof -
  have "0 < size X + size Y"
    using assms(2) by (metis nonempty_has_size size_union)
  then have "size (qwork (snd s)) + size (qspent (snd s)) < size (bp_pairs K)"
    using binv_count [OF assms(1)] by linarith
  moreover have "size (qwork (snd s)) + size (qspent (snd s)) + length (pool_list (bin_mempool (snd s))) = bp_bins K"
    "size (bp_pairs K) \<le> bp_bins K"
    using assms(1) by (simp_all add: binv_def res_inv_def)
  ultimately show ?thesis
    by auto
qed

lemma sum_list_member_size:
  "r \<in> set rs \<Longrightarrow> size (f r) \<le> size (\<Sum>r\<leftarrow>rs. (f r :: 'a multiset))"
  by (induction rs) auto

lemma qwork_ring_size:
  "r \<in> set (q_bin st) \<Longrightarrow> ring_count r \<le> size (qwork st)"
  using sum_list_member_size [of r "q_bin st" "\<lambda>r. mset (ring_list r)"] by (simp add: qwork_def)

lemma flush_q_out_ok:
  assumes inv: "binv K B (X + mset (bin_list (out_bin core))) Y 0 g
      (core\<lparr> out_bin := init_bin (out_bin core) \<rparr>, st)"
    and ob: "bin_small (out_bin core)" "bin_list (out_bin core) \<noteq> []"
    and q: "q < length (q_bin st)"
  shows "wp (core_flush_q_out q (core, st)) (binv K B X Y 0 g)"
proof -
  let ?r = "q_bin st ! q" and ?b = "out_bin core"
  have r_in: "?r \<in> set (q_bin st)"
    using q by simp
  have "res_inv K 0 g (core\<lparr> out_bin := init_bin ?b \<rparr>, st)"
    using inv by (simp add: binv_def)
  note res = this [unfolded res_inv_def, simplified]
  have "0 < length (bin_list ?b)"
    using ob(2) by simp
  then have "ring_count ?r < size (bp_pairs K)"
    using binv_count [OF inv, simplified] qwork_ring_size [OF r_in] by linarith
  moreover have rok: "qring_ok K g ?r"
    using res r_in by blast
  ultimately have rk: "ring_wf ?r" "ring_count ?r < ring_room ?r"
    by (simp_all add: qring_ok_def)
  obtain r' where r': "fp_ring_enqueue ?r ?b = Some r'" "ring_wf r'"
      "ring_list r' = ring_list ?r @ [?b]" "ring_room r' = ring_room ?r" "ring_head r' = ring_head ?r"
    using wpD [OF fp_ring_enqueue_ok [OF rk]] by auto
  let ?st = "st\<lparr> q_bin := (q_bin st)[q := r'] \<rparr>"
  have pool: "pool_list (bin_mempool ?st) \<noteq> []"
    using binv_pool_nonempty [OF inv] ob(2) by simp
  obtain b mp where b: "fresh_bin ?st = Some (b, ?st\<lparr> bin_mempool := mp \<rparr>)" "bin_small b" "bin_list b = []"
      "pool_wf mp" "pool_size mp = pool_size (bin_mempool st)"
      "length (pool_list (bin_mempool st)) = Suc (length (pool_list mp))"
      "\<forall>b \<in> set (pool_list mp). bin_cap b = 32"
    using wpD [OF fresh_bin_ok [of ?st]] pool res by auto
  let ?s = "(core\<lparr> out_bin := b \<rparr>, ?st\<lparr> bin_mempool := mp \<rparr>)"
  have qw: "qwork (snd ?s) = qwork st + {# ?b #}"
    using qwork_upd [OF q, of r'] by (simp add: qwork_def r'(3))
  have rings: "\<forall>r \<in> set ((q_bin st)[q := r']). qring_ok K g r"
    using res rok r' by (intro list_update_all) (auto simp: qring_ok_def)
  have qs: "qspent (snd ?s) = qspent st"
    by (simp add: qspent_def)
  have bins: "\<forall>b \<in># qwork (snd ?s) + qspent (snd ?s). bin_small b \<and> bin_list b \<noteq> []"
    using res ob unfolding qw qs by auto
  have cnt: "size (qwork (snd ?s)) + size (qspent (snd ?s)) + length (pool_list mp) + 0 = bp_bins K"
    using res b(6) unfolding qw qs by simp
  have "res_inv K 0 g ?s"
    unfolding res_inv_def using bins cnt rings b(2-5,7) res by simp
  moreover have "edge_inv K B X Y ?s"
    by (rule edge_inv_move [of K B "X + mset (bin_list ?b)" Y "(core\<lparr>out_bin := init_bin ?b\<rparr>, st)"])
       (use inv in \<open>simp_all add: binv_def work_edges_def spent_edges_def qspent_def qw [simplified] b tslot_def\<close>)
  moreover have "match_inv K ?s"
    using inv by (simp add: binv_def match_inv_def tslot_def)
  moreover have "frame_inv K ?s"
    using inv by (simp add: binv_def frame_inv_def)
  ultimately show ?thesis
    using q by (simp add: core_flush_q_out_def r' b binv_def)
qed

lemma binv_out_to_hand:
  assumes "binv K B X Y h g (core, st)"
  shows "binv K B (X + mset (bin_list (out_bin core))) Y h g (core\<lparr> out_bin := init_bin (out_bin core) \<rparr>, st)"
proof -
  let ?s = "(core\<lparr> out_bin := init_bin (out_bin core) \<rparr>, st)"
  have "edge_inv K B (X + mset (bin_list (out_bin core))) Y ?s"
    by (rule edge_inv_move [of K B X Y "(core, st)"])
       (use assms in \<open>simp_all add: binv_def work_edges_def spent_edges_def tslot_def\<close>)
  moreover have "res_inv K h g ?s"
    using assms by (simp add: binv_def res_inv_def)
  moreover have "match_inv K ?s"
    using assms by (simp add: binv_def match_inv_def tslot_def)
  moreover have "frame_inv K ?s"
    using assms by (simp add: binv_def frame_inv_def)
  ultimately show ?thesis
    by (simp add: binv_def)
qed

lemma binv_hand_to_out:
  assumes "binv K B (X + mset (bin_list b)) Y h g (core\<lparr> out_bin := c \<rparr>, st)" "bin_list c = []"
    and "bin_small b" "length (bin_list b) < 32"
  shows "binv K B X Y h g (core\<lparr> out_bin := b \<rparr>, st)"
proof -
  let ?s = "(core\<lparr> out_bin := b \<rparr>, st)"
  have "edge_inv K B X Y ?s"
    by (rule edge_inv_move [of K B "X + mset (bin_list b)" Y "(core\<lparr> out_bin := c \<rparr>, st)"])
       (use assms in \<open>simp_all add: binv_def work_edges_def spent_edges_def tslot_def\<close>)
  moreover have "res_inv K h g ?s"
    using assms by (simp add: binv_def res_inv_def)
  moreover have "match_inv K ?s"
    using assms by (simp add: binv_def match_inv_def tslot_def)
  moreover have "frame_inv K ?s"
    using assms by (simp add: binv_def frame_inv_def)
  ultimately show ?thesis
    by (simp add: binv_def)
qed

lemma small_full_iff:
  "bin_small b \<Longrightarrow> bin_size b = of_nat SMALL_BIN_SIZE \<longleftrightarrow> length (bin_list b) = 32"
proof -
  have "bin_size b = 32 \<longleftrightarrow> unat (bin_size b) = 32"
    by (auto simp: word_unat_eq_iff)
  then show ?thesis
    by (simp add: length_bin_list SMALL_BIN_SIZE_def)
qed

lemma enqueue_q_out_edge_ok:
  assumes inv: "binv K B (add_mset e X) Y 0 g s" and q: "q < length (q_bin (snd s))"
  shows "wp (core_enqueue_to_q_out_edge q e s) (binv K B X Y 0 g)"
proof -
  obtain core st where s: "s = (core, st)"
    by (cases s)
  let ?b = "out_bin core"
  have ob: "bin_wf ?b" "bin_cap ?b = 32" "length (bin_list ?b) < 32"
    using inv by (simp_all add: s binv_def res_inv_def bin_small_def)
  obtain b where b: "enqueue_bin_edge ?b e = Some b" "bin_wf b" "bin_list b = bin_list ?b @ [e]" "bin_cap b = 32"
    using wpD [OF enqueue_bin_edge_ok [of ?b e]] ob by auto
  then have small: "bin_small b"
    by (simp add: bin_small_def)
  have hand: "binv K B (X + mset (bin_list b)) Y 0 g (core\<lparr> out_bin := init_bin ?b \<rparr>, st)"
    using binv_out_to_hand [OF inv [unfolded s]] by (simp add: b(3) ac_simps)
  show ?thesis
  proof (cases "length (bin_list b) = 32")
    case True
    let ?c = "core\<lparr> out_bin := b, core_stat := adm_log_q_out_flush_bin_full (core_stat core) \<rparr>"
    have "binv K B (X + mset (bin_list b)) Y 0 g (core\<lparr> out_bin := init_bin b \<rparr>, st)"
      using binv_hand_to_out [of K B "X + mset (bin_list b)" "init_bin b" Y 0 g "init_bin ?b" core] hand small
      by simp
    then have "binv K B (X + mset (bin_list (out_bin ?c))) Y 0 g (?c\<lparr> out_bin := init_bin (out_bin ?c) \<rparr>, st)"
      by simp
    then show ?thesis
      using flush_q_out_ok [of K B X ?c Y g st q] small q True b
      by (simp add: core_enqueue_to_q_out_edge_def s small_full_iff [OF small])
  next
    case False
    then have "binv K B X Y 0 g (core\<lparr> out_bin := b \<rparr>, st)"
      using binv_hand_to_out [OF hand] small ob(3) b(3) by simp
    then show ?thesis
      using False b by (simp add: core_enqueue_to_q_out_edge_def s small_full_iff [OF small])
  qed
qed

lemma enqueue_q_out_eq:
  "core_enqueue_to_q_out q src dst backlog metric =
     core_enqueue_to_q_out_edge q \<lparr> e_src = src, e_dst = dst, e_backlog = backlog, e_metric = metric \<rparr>"
  by (simp add: core_enqueue_to_q_out_def core_enqueue_to_q_out_edge_def enqueue_bin_def)

subsection \<open>Spent entries\<close>

lemma binv_spent_to_hand:
  assumes "binv K B X Y h g (core, st)"
  shows "binv K B X (Y + mset (bin_list (spent_bin core))) h g (core\<lparr> spent_bin := init_bin (spent_bin core) \<rparr>, st)"
proof -
  let ?s = "(core\<lparr> spent_bin := init_bin (spent_bin core) \<rparr>, st)"
  have "edge_inv K B X (Y + mset (bin_list (spent_bin core))) ?s"
    by (rule edge_inv_move [of K B X Y "(core, st)"])
       (use assms in \<open>simp_all add: binv_def work_edges_def spent_edges_def tslot_def\<close>)
  moreover have "res_inv K h g ?s"
    using assms by (simp add: binv_def res_inv_def)
  moreover have "match_inv K ?s"
    using assms by (simp add: binv_def match_inv_def tslot_def)
  moreover have "frame_inv K ?s"
    using assms by (simp add: binv_def frame_inv_def)
  ultimately show ?thesis
    by (simp add: binv_def)
qed

lemma binv_hand_to_spent:
  assumes "binv K B X (Y + mset (bin_list b)) h g (core\<lparr> spent_bin := c \<rparr>, st)" "bin_list c = []"
    and "bin_small b" "length (bin_list b) < 32"
  shows "binv K B X Y h g (core\<lparr> spent_bin := b \<rparr>, st)"
proof -
  let ?s = "(core\<lparr> spent_bin := b \<rparr>, st)"
  have "edge_inv K B X Y ?s"
    by (rule edge_inv_move [of K B X "Y + mset (bin_list b)" "(core\<lparr> spent_bin := c \<rparr>, st)"])
       (use assms in \<open>simp_all add: binv_def work_edges_def spent_edges_def tslot_def\<close>)
  moreover have "res_inv K h g ?s"
    using assms by (simp add: binv_def res_inv_def)
  moreover have "match_inv K ?s"
    using assms by (simp add: binv_def match_inv_def tslot_def)
  moreover have "frame_inv K ?s"
    using assms by (simp add: binv_def frame_inv_def)
  ultimately show ?thesis
    by (simp add: binv_def)
qed

lemma flush_q_spent_ok:
  assumes inv: "binv K B X (Y + mset (bin_list (spent_bin core))) 0 g
      (core\<lparr> spent_bin := init_bin (spent_bin core) \<rparr>, st)"
    and ob: "bin_small (spent_bin core)" "bin_list (spent_bin core) \<noteq> []"
  shows "wp (core_flush_q_spent (core, st)) (\<lambda>s'. binv K B X Y 0 g s' \<and>
    (\<exists>b q mp. s' = (core\<lparr> spent_bin := b \<rparr>, st\<lparr> q_spent := q, bin_mempool := mp \<rparr>)))"
proof -
  let ?r = "q_spent st" and ?b = "spent_bin core"
  have "res_inv K 0 g (core\<lparr> spent_bin := init_bin ?b \<rparr>, st)"
    using inv by (simp add: binv_def)
  note res = this [unfolded res_inv_def, simplified]
  have "0 < length (bin_list ?b)"
    using ob(2) by simp
  moreover have "ring_count ?r = size (qspent st)"
    by (simp add: qspent_def)
  ultimately have "ring_count ?r < size (bp_pairs K)"
    using binv_count [OF inv, simplified] by linarith
  then have rk: "ring_wf ?r" "ring_count ?r < ring_room ?r"
    using res by auto
  obtain r' where r': "fp_ring_enqueue ?r ?b = Some r'" "ring_wf r'"
      "ring_list r' = ring_list ?r @ [?b]" "ring_room r' = ring_room ?r"
    using wpD [OF fp_ring_enqueue_ok [OF rk]] by auto
  let ?st = "st\<lparr> q_spent := r' \<rparr>"
  have pool: "pool_list (bin_mempool ?st) \<noteq> []"
    using binv_pool_nonempty [OF inv] ob(2) by simp
  obtain b mp where b: "fresh_bin ?st = Some (b, ?st\<lparr> bin_mempool := mp \<rparr>)" "bin_small b" "bin_list b = []"
      "pool_wf mp" "pool_size mp = pool_size (bin_mempool st)"
      "length (pool_list (bin_mempool st)) = Suc (length (pool_list mp))"
      "\<forall>b \<in> set (pool_list mp). bin_cap b = 32"
    using wpD [OF fresh_bin_ok [of ?st]] pool res by auto
  let ?s = "(core\<lparr> spent_bin := b \<rparr>, ?st\<lparr> bin_mempool := mp \<rparr>)"
  have qs: "qspent (snd ?s) = qspent st + {# ?b #}"
    by (simp add: qspent_def r'(3))
  have qw: "qwork (snd ?s) = qwork st"
    by (simp add: qwork_def)
  have bins: "\<forall>b \<in># qwork (snd ?s) + qspent (snd ?s). bin_small b \<and> bin_list b \<noteq> []"
    using res ob unfolding qw qs by auto
  have cnt: "size (qwork (snd ?s)) + size (qspent (snd ?s)) + length (pool_list mp) + 0 = bp_bins K"
    using res b(6) unfolding qw qs by simp
  have "res_inv K 0 g ?s"
    unfolding res_inv_def using bins cnt b(2-5,7) r'(2,4) res by simp
  moreover have "edge_inv K B X Y ?s"
    by (rule edge_inv_move [of K B X "Y + mset (bin_list ?b)" "(core\<lparr>spent_bin := init_bin ?b\<rparr>, st)"])
       (use inv in \<open>simp_all add: binv_def work_edges_def spent_edges_def qs [simplified] qw [simplified] b tslot_def\<close>)
  moreover have "match_inv K ?s"
    using inv by (simp add: binv_def match_inv_def tslot_def)
  moreover have "frame_inv K ?s"
    using inv by (simp add: binv_def frame_inv_def)
  ultimately show ?thesis
    by (auto simp: core_flush_q_spent_def r' b binv_def)
qed

lemma enqueue_q_spent_ok:
  assumes inv: "binv K B X (add_mset \<lparr> e_src = src, e_dst = dst, e_backlog = 0, e_metric = m \<rparr> Y) 0 g (core, st)"
  shows "wp (core_enqueue_to_q_spent src dst m (core, st)) (\<lambda>s'. binv K B X Y 0 g s'
    \<and> new_request_bins (fst s') = new_request_bins core \<and> non_empty_bins (fst s') = non_empty_bins core
    \<and> core_batch (fst s') = core_batch core
    \<and> length (q_bin (snd s')) = length (q_bin st))"
proof -
  let ?b = "spent_bin core" and ?e = "\<lparr> e_src = src, e_dst = dst, e_backlog = 0, e_metric = m \<rparr>"
  have ob: "bin_wf ?b" "bin_cap ?b = 32" "length (bin_list ?b) < 32"
    using inv by (simp_all add: binv_def res_inv_def bin_small_def)
  obtain b where b: "enqueue_bin_edge ?b ?e = Some b" "bin_wf b" "bin_list b = bin_list ?b @ [?e]" "bin_cap b = 32"
    using wpD [OF enqueue_bin_edge_ok [of ?b ?e]] ob by auto
  then have small: "bin_small b"
    by (simp add: bin_small_def)
  have hand: "binv K B X (Y + mset (bin_list b)) 0 g (core\<lparr> spent_bin := init_bin ?b \<rparr>, st)"
    using binv_spent_to_hand [OF inv] by (simp add: b(3) ac_simps)
  show ?thesis
  proof (cases "length (bin_list b) = 32")
    case True
    let ?c = "core\<lparr> spent_bin := b, core_stat := adm_log_q_spent_flush_bin_full (core_stat core) \<rparr>"
    have "binv K B X (Y + mset (bin_list b)) 0 g (core\<lparr> spent_bin := init_bin b \<rparr>, st)"
      using binv_hand_to_spent [of K B X "Y + mset (bin_list b)" "init_bin b" 0 g "init_bin ?b" core] hand small
      by simp
    then have "binv K B X (Y + mset (bin_list (spent_bin ?c))) 0 g (?c\<lparr> spent_bin := init_bin (spent_bin ?c) \<rparr>, st)"
      by simp
    from flush_q_spent_ok [OF this] have "wp (core_flush_q_spent (?c, st)) (\<lambda>s'. binv K B X Y 0 g s'
        \<and> new_request_bins (fst s') = new_request_bins core \<and> non_empty_bins (fst s') = non_empty_bins core
    \<and> core_batch (fst s') = core_batch core
        \<and> length (q_bin (snd s')) = length (q_bin st))"
      by (rule wp_mono) (use small b in auto)
    then show ?thesis
      using True b
      by (simp add: core_enqueue_to_q_spent_def enqueue_bin_def small_full_iff [OF small])
  next
    case False
    then have "binv K B X Y 0 g (core\<lparr> spent_bin := b \<rparr>, st)"
      using binv_hand_to_spent [OF hand] small ob(3) b(3) by simp
    then show ?thesis
      using False b by (simp add: core_enqueue_to_q_spent_def enqueue_bin_def small_full_iff [OF small])
  qed
qed

subsection \<open>Entries of the request bins\<close>

lemma bit_bts_0: "b < 64 \<Longrightarrow> bit (bts arr b 0) i \<longleftrightarrow> i = b \<or> bit (arr 0) i"
  by (auto simp: bts_def word_bits simp del: push_bit_of_1)

lemma req_bin_le: "b < 48 \<Longrightarrow> b \<notin> B \<Longrightarrow> length (bin_list (arr b)) \<le> size (req_edges B arr)"
  using req_edges_insert [of b B arr] by simp

lemma add_request_ok:
  assumes inv: "binv K B (add_mset e X) Y h g (core, st)"
    and b: "b < 48" "b \<notin> B" "later_bin core b e"
  shows "wp (add_request b e core) (\<lambda>core'. binv K B X Y h g (core', st)
    \<and> (\<forall>c. c \<noteq> b \<longrightarrow> new_request_bins core' c = new_request_bins core c)
    \<and> (\<forall>i. bit (non_empty_bins core' 0) i \<longleftrightarrow> i = b \<or> bit (non_empty_bins core 0) i)
    \<and> allowed_bins core' = allowed_bins core)"
proof -
  let ?b = "new_request_bins core b"
  have res: "res_inv K h g (core, st)" and edg: "edge_inv K B (add_mset e X) Y (core, st)"
    and mat: "match_inv K (core, st)" and fra: "frame_inv K (core, st)"
    using inv by (simp_all add: binv_def)
  have wf: "bin_wf ?b" "bin_cap ?b = 65536" and sz: "size (bp_pairs K) \<le> 65536"
    using res b(1) by (simp_all add: res_inv_def)
  have "length (bin_list ?b) < 65536"
    using binv_count [OF inv, simplified] req_bin_le [OF b(1,2), of "new_request_bins core"] sz by linarith
  then obtain c where c: "enqueue_bin_edge ?b e = Some c" "bin_wf c" "bin_list c = bin_list ?b @ [e]" "bin_cap c = 65536"
    using wpD [OF enqueue_bin_edge_ok [of ?b e]] wf by auto
  let ?arr = "(new_request_bins core)(b := c)"
  let ?core = "core\<lparr> new_request_bins := ?arr, non_empty_bins := bts (non_empty_bins core) b \<rparr>"
  have req: "req_edges B ?arr = req_edges B (new_request_bins core) + {# e #}"
    using req_edges_upd_in [OF b(1,2), of "new_request_bins core" c] by (simp add: c(3))
  have all: "all_edges B (?core, st) + X + Y = all_edges B (core, st) + add_mset e X + Y"
    by (simp add: all_edges_def work_edges_def spent_edges_def req)
  have w: "work_edges (?core, st) = work_edges (core, st)" "spent_edges (?core, st) = spent_edges (core, st)"
    by (simp_all add: work_edges_def spent_edges_def)
  have ok: "edge_ok K ?core e' = edge_ok K core e'" "later_bin ?core b' e' = later_bin core b' e'" for b' e'
    by (simp_all add: edge_ok_def later_bin_def)
  have srv: "served p (?core, st) = served p (core, st)" for p
    by (simp add: served_def tslot_def)
  have bts: "bit (bts (non_empty_bins core) b 0) i \<longleftrightarrow> i = b \<or> bit (non_empty_bins core 0) i" for i
    using b(1) by (simp add: bit_bts_0)
  have "edge_inv K B X Y (?core, st)"
    using edg b unfolding edge_inv_def all w fst_conv snd_conv ok srv
    by (auto simp: c(3) bts)
  moreover have "res_inv K h g (?core, st)"
    using res c by (simp add: res_inv_def)
  moreover have "match_inv K (?core, st)"
    using mat by (simp add: match_inv_def tslot_def)
  moreover have "frame_inv K (?core, st)"
    using fra by (simp add: frame_inv_def)
  moreover have "add_request b e core = Some ?core"
    using b(1) by (simp add: add_request_def c set_bin_non_empty_def NUM_BINS_def BATCH_SIZE_def guard_o_def)
  ultimately show ?thesis
    by (simp add: binv_def bts)
qed

end
