(* ===== verification/FP_Alloc_Step.thy ===== *)
theory FP_Alloc_Step
  imports FP_Alloc_Inv
begin

unbundle bit_operations_syntax

text \<open>
  The allocation step of \<^verbatim>\<open>admissible_traffic.c\<close> keeps the invariant of the batch: one entry
  (\<^verbatim>\<open>try_allocation\<close>), one bin, all bins, incoming bins, and the end of a batch. An entry is
  only ever moved to a bin of higher index than the one being processed, so the loop over the
  bins ends.
\<close>

subsection \<open>The bin of an entry after an allocation\<close>

lemma ucast_u32_add: "(ucast (a + b :: u64) :: u32) = ucast a + ucast b"
proof -
  have "unat (ucast (a + b) :: u32) = unat (ucast a + ucast b :: u32)"
    by (simp add: unat_ucast_u64_u32 unat_word_ariths mod_mod_cancel mod_add_eq)
  then show ?thesis
    by (simp add: word_unat_eq_iff)
qed

lemma ucast_u32_of_nat: "(ucast (of_nat n :: u64) :: u32) = of_nat n"
proof -
  have "unat (ucast (of_nat n :: u64) :: u32) = unat (of_nat n :: u32)"
    by (simp add: unat_ucast_u64_u32 unat_of_nat mod_mod_cancel)
  then show ?thesis
    by (simp add: word_unat_eq_iff)
qed

lemma bin_index_after_alloc:
  assumes "t < 16"
  shows "bin_index_from_timeslot (ucast (cur + of_nat t)) cur = 31 + t"
proof -
  define k where "k = 16 - t"
  have k: "k \<le> 16" "16 = k + t"
    using assms by (simp_all add: k_def)
  have "of_nat 16 - of_nat t = (of_nat k :: u32)"
    unfolding k(2) by simp
  then have gap: "(ucast (cur + of_nat BATCH_SIZE) :: u32) - ucast (cur + of_nat t) = of_nat k"
    by (simp add: ucast_u32_add ucast_u32_of_nat BATCH_SIZE_def)
  have u: "unat (of_nat k :: u32) = k"
    using k(1) by (simp add: unat_of_nat)
  then have le: "(of_nat k :: u32) \<le> of_nat NUM_BINS"
    using k(1) by (simp add: word_le_nat_alt NUM_BINS_def)
  have "bin_index_from_timeslot (ucast (cur + of_nat t)) cur = NUM_BINS + BATCH_SIZE - 1 - k"
    by (simp only: bin_index_from_timeslot_def Let_def gap le if_True u)
  then show ?thesis
    using k by (simp add: NUM_BINS_def BATCH_SIZE_def)
qed

subsection \<open>Giving a timeslot to an entry\<close>

text \<open>
  The state after a timeslot \<^verbatim>\<open>t\<close> is taken: the occupancy has changed and the pair is in the
  admitted traffic of \<^verbatim>\<open>t\<close>.
\<close>

definition taken :: "cstate \<Rightarrow> backlog_edge \<Rightarrow> nat \<Rightarrow> batch_state \<Rightarrow> admitted_traffic \<Rightarrow> bool" where
  "taken s e t bs adm \<longleftrightarrow>
     allowed_mask bs = allowed_mask (core_batch (fst s))
     \<and> (\<forall>x i. bit (src_endnodes bs x) i \<longleftrightarrow>
          bit (src_endnodes (core_batch (fst s)) x) i \<and> \<not> (x = unat (e_src e) \<and> i = t))
     \<and> (\<forall>x i. bit (dst_endnodes bs x) i \<longrightarrow> bit (dst_endnodes (core_batch (fst s)) x) i)
     \<and> (unat (e_dst e) \<noteq> 255 \<longrightarrow> out_of_boundary_counts bs = out_of_boundary_counts (core_batch (fst s))
          \<and> (out_of_boundary_counts (core_batch (fst s)) t = 0 \<longrightarrow> (\<forall>x i. bit (dst_endnodes bs x) i
               \<longleftrightarrow> bit (dst_endnodes (core_batch (fst s)) x) i \<and> \<not> (x = unat (e_dst e) \<and> i = t))))
     \<and> admitted_list adm = tslot s t @ [\<lparr> a_src = e_src e, a_dst = e_dst e \<rparr>]"

definition give :: "cstate \<Rightarrow> nat \<Rightarrow> batch_state \<Rightarrow> admitted_traffic \<Rightarrow> cstate" where
  "give s t bs adm = ((fst s)\<lparr> core_batch := bs \<rparr>,
     (snd s)\<lparr> admitted_store := (admitted_store (snd s))(core_admitted (fst s) t := adm) \<rparr>)"

lemma tslot_give:
  assumes "inj_on (core_admitted (fst s)) {..<16}" "t < 16" "u < 16" "taken s e t bs adm"
  shows "tslot (give s t bs adm) u =
    (if u = t then tslot s t @ [\<lparr> a_src = e_src e, a_dst = e_dst e \<rparr>] else tslot s u)"
proof -
  have "core_admitted (fst s) u = core_admitted (fst s) t \<longleftrightarrow> u = t"
    using assms(1-3) by (auto simp: inj_on_def)
  then show ?thesis
    using assms(4) by (simp add: give_def tslot_def taken_def)
qed

lemma avail_shrinks:
  assumes "taken s e t bs adm"
  shows "bit (avail bs x y) i \<Longrightarrow> bit (avail (core_batch (fst s)) x y) i"
  using assms by (auto simp: taken_def bit_avail)

lemma later_bin_shrinks:
  "taken s e t bs adm \<Longrightarrow> later_bin (fst s) b f \<Longrightarrow> later_bin (fst (give s t bs adm)) b f"
  using avail_shrinks [of s e t bs adm] by (auto simp: later_bin_def give_def)

lemma edge_ok_shrinks:
  "taken s e t bs adm \<Longrightarrow> edge_ok K (fst s) f \<Longrightarrow> edge_ok K (fst (give s t bs adm)) f"
  using later_bin_shrinks [of s e t bs adm _ f] by (auto simp: edge_ok_def give_def)

lemma served_give:
  assumes "inj_on (core_admitted (fst s)) {..<16}" "t < 16" "taken s e t bs adm"
  shows "served p (give s t bs adm) = served p s + (if p = pair e then 1 else 0)"
proof -
  have "served p (give s t bs adm)
      = (\<Sum>u<16. count (mset (map apair (tslot s u))) p + (if u = t then (if p = pair e then 1 else 0) else 0))"
    unfolding served_def using assms
    by (intro sum.cong) (auto simp: tslot_give apair_def pair_def)
  also have "\<dots> = served p s + (\<Sum>u<16. if u = t then (if p = pair e then 1 else 0) else 0)"
    by (simp only: sum.distrib served_def)
  finally show ?thesis
    using assms(2) by simp
qed

lemma match_inv_give:
  assumes mat: "match_inv K s" and t: "t < 16" and tk: "taken s e t bs adm"
    and av: "bit (avail (core_batch (fst s)) (e_src e) (e_dst e)) t"
    and lt: "unat (e_src e) < 256" "unat (e_dst e) < 256" and cl: "bp_clean K \<Longrightarrow> unat (e_dst e) \<noteq> 255"
  shows "match_inv K (give s t bs adm)"
proof -
  let ?c = "core_batch (fst s)" and ?a = "\<lparr> a_src = e_src e, a_dst = e_dst e \<rparr>"
  have inj: "inj_on (core_admitted (fst s)) {..<16}"
    using mat by (simp add: match_inv_def)
  note ts = tslot_give [OF inj t _ tk]
  have avt: "bit (allowed_mask ?c) t" "bit (src_endnodes ?c (unat (e_src e))) t"
      "bit (dst_endnodes ?c (unat (e_dst e))) t"
    using av by (simp_all add: bit_avail)
  have tk': "allowed_mask bs = allowed_mask ?c"
      "\<And>x i. bit (src_endnodes bs x) i \<longleftrightarrow> bit (src_endnodes ?c x) i \<and> \<not> (x = unat (e_src e) \<and> i = t)"
    using tk by (auto simp: taken_def)
  have old: "distinct (map a_src (tslot s u))" "\<And>a. a \<in> set (tslot s u) \<Longrightarrow> unat (a_src a) < 256 \<and> unat (a_dst a) < 256
      \<and> \<not> bit (src_endnodes ?c (unat (a_src a))) u" if "u < 16" for u
    using mat that unfolding match_inv_def by blast+
  have new: "e_src e \<notin> a_src ` set (tslot s t)"
    using old(2) [OF t] avt(2) by auto
  have 1: "distinct (map a_src (tslot (give s t bs adm) u)) \<and> (\<forall>a \<in> set (tslot (give s t bs adm) u).
      unat (a_src a) < 256 \<and> unat (a_dst a) < 256 \<and> \<not> bit (src_endnodes bs (unat (a_src a))) u)"
    if u: "u < 16" for u
    using old [OF u] new lt by (auto simp: ts [OF u] tk')
  have 2: "out_of_boundary_counts bs u = 0 \<and> distinct (map a_dst (tslot (give s t bs adm) u))
      \<and> (\<forall>a \<in> set (tslot (give s t bs adm) u). \<not> bit (dst_endnodes bs (unat (a_dst a))) u)"
    if u: "u < 16" and c: "bp_clean K" for u
  proof -
    have d: "out_of_boundary_counts ?c v = 0" "distinct (map a_dst (tslot s v))"
      "\<And>a. a \<in> set (tslot s v) \<Longrightarrow> \<not> bit (dst_endnodes ?c (unat (a_dst a))) v" if "v < 16" for v
      using mat that c unfolding match_inv_def by blast+
    have "out_of_boundary_counts bs = out_of_boundary_counts ?c"
      and e: "\<And>x i. bit (dst_endnodes bs x) i \<longleftrightarrow> bit (dst_endnodes ?c x) i \<and> \<not> (x = unat (e_dst e) \<and> i = t)"
      using tk cl [OF c] d(1) [OF t] by (auto simp: taken_def)
    moreover have "e_dst e \<notin> a_dst ` set (tslot s t)"
      using d(3) [OF t] avt(3) by auto
    ultimately show ?thesis
      using d [OF u] by (auto simp: ts [OF u] e)
  qed
  have all: "\<forall>i. bit (allowed_mask bs) i \<longleftrightarrow> bp_sent K \<le> i \<and> i < 16"
    using mat by (simp add: match_inv_def tk')
  have 3: "tslot (give s t bs adm) u = bp_snap K u" if u: "u < 16" "u < bp_sent K" for u
  proof -
    have "u \<noteq> t"
      using u avt(1) all by (auto simp: tk')
    then show ?thesis
      using mat u by (simp add: ts match_inv_def)
  qed
  then show ?thesis
    unfolding match_inv_def using 1 2 3 inj all by (simp add: give_def)
qed

lemma edge_inv_give:
  assumes edg: "edge_inv K B (add_mset e X) Y s" and mat: "match_inv K s"
    and t: "t < 16" and tk: "taken s e t bs adm"
    and e': "pair e' = pair e" "unat (e_backlog e') + 1 = unat (e_backlog e)"
    and XY: "add_mset e' (X + Y) = X' + Y'"
      "\<forall>f \<in># X'. f \<in># X \<or> edge_ok K (fst (give s t bs adm)) f" "\<forall>f \<in># Y'. f \<in># Y \<or> spent_ok f"
  shows "edge_inv K B X' Y' (give s t bs adm)"
proof -
  let ?s = "give s t bs adm"
  have inj: "inj_on (core_admitted (fst s)) {..<16}"
    using mat by (simp add: match_inv_def)
  have all: "all_edges B ?s = all_edges B s" and w: "work_edges ?s = work_edges s"
    and sp: "spent_edges ?s = spent_edges s"
    and rq: "new_request_bins (fst ?s) = new_request_bins (fst s)" "non_empty_bins (fst ?s) = non_empty_bins (fst s)"
    by (simp_all add: all_edges_def work_edges_def spent_edges_def qwork_def qspent_def give_def)
  have xy: "all_edges B ?s + X' + Y' = add_mset e' (all_edges B s + X + Y)"
    using XY(1) by (simp add: all ac_simps)
  have "image_mset pair (all_edges B ?s + X' + Y') = bp_pairs K"
    unfolding xy using edg e'(1) by (simp add: edge_inv_def)
  moreover have "demand p (all_edges B ?s + X' + Y') + served p ?s = bp_need K p" for p
  proof -
    have "demand p (all_edges B s + add_mset e X + Y) + served p s = bp_need K p"
      using edg unfolding edge_inv_def by blast
    then show ?thesis
      unfolding xy served_give [OF inj t tk] using e' by auto
  qed
  moreover have "\<forall>f \<in># work_edges ?s + X'. edge_ok K (fst ?s) f"
    unfolding w using edg XY(2) edge_ok_shrinks [OF tk] by (fastforce simp: edge_inv_def)
  moreover have "\<forall>f \<in># spent_edges ?s + Y'. spent_ok f"
    unfolding sp using edg XY(3) by (auto simp: edge_inv_def)
  moreover have "\<forall>b < 48. b \<notin> B \<longrightarrow> (\<forall>f \<in> set (bin_list (new_request_bins (fst ?s) b)).
      edge_ok K (fst ?s) f \<and> later_bin (fst ?s) b f)"
    unfolding rq using edg edge_ok_shrinks [OF tk] later_bin_shrinks [OF tk]
    unfolding edge_inv_def by blast
  ultimately show ?thesis
    using edg unfolding edge_inv_def rq by blast
qed

lemma frame_inv_give:
  "frame_inv K s \<Longrightarrow> t < 16 \<Longrightarrow> frame_inv K (give s t bs adm)"
  by (auto simp: frame_inv_def give_def)

lemma res_inv_give: "res_inv K h g s \<Longrightarrow> res_inv K h g (give s t bs adm)"
  by (simp add: res_inv_def give_def qwork_def qspent_def)

lemma binv_give:
  assumes inv: "binv K B (add_mset e X) Y h g s" and t: "t < 16" and tk: "taken s e t bs adm"
    and av: "bit (avail (core_batch (fst s)) (e_src e) (e_dst e)) t"
      "\<And>u. u < t \<Longrightarrow> \<not> bit (avail (core_batch (fst s)) (e_src e) (e_dst e)) u"
    and e': "e' = \<lparr> e_src = e_src e, e_dst = e_dst e, e_backlog = e_backlog e - 1,
      e_metric = new_metric_after_alloc t (fst s) \<rparr>"
  shows "e_backlog e' \<noteq> 0 \<Longrightarrow> binv K B (add_mset e' X) Y h g (give s t bs adm)
      \<and> later_bin (fst (give s t bs adm)) (32 + t) e'"
    and "e_backlog e' = 0 \<Longrightarrow> binv K B X (add_mset e' Y) h g (give s t bs adm)"
proof -
  let ?s = "give s t bs adm"
  have ok: "edge_ok K (fst s) e"
    using inv by (simp add: binv_def edge_inv_def)
  then have lt: "unat (e_src e) < 256" "unat (e_dst e) < 256" and cl: "bp_clean K \<Longrightarrow> unat (e_dst e) \<noteq> 255"
    and nz: "e_backlog e \<noteq> 0"
    by (simp_all add: edge_ok_def)
  have edg: "edge_inv K B (add_mset e X) Y s" and mat: "match_inv K s"
    using inv by (simp_all add: binv_def)
  have pe: "pair e' = pair e" "unat (e_backlog e') + 1 = unat (e_backlog e)"
    using nz by (simp_all add: e' pair_def unat_minus_one unat_gt_0)
  have later: "t < u" if "bit (avail bs (e_src e) (e_dst e)) u" for u
  proof -
    have "bit (avail (core_batch (fst s)) (e_src e) (e_dst e)) u"
      by (rule avail_shrinks [OF tk that])
    moreover have "u \<noteq> t"
      using that tk by (auto simp: taken_def bit_avail)
    ultimately show ?thesis
      using av(2) [of u] by (cases "u < t") auto
  qed
  have lb: "later_bin (fst ?s) b e'" if "b \<le> 32 + t" for b
    using later that by (force simp: later_bin_def give_def e')
  have sok: "edge_ok K (fst ?s) e'" if "e_backlog e' \<noteq> 0"
    using that lt cl lb bin_index_after_alloc [OF t, of "current_timeslot (fst s)"]
    by (simp add: edge_ok_def give_def e' new_metric_after_alloc_def)
  have rest: "res_inv K h g ?s" "match_inv K ?s" "frame_inv K ?s"
    using inv res_inv_give match_inv_give [OF mat t tk av(1) lt cl] frame_inv_give t
    by (auto simp: binv_def)
  show "binv K B (add_mset e' X) Y h g ?s \<and> later_bin (fst ?s) (32 + t) e'" if "e_backlog e' \<noteq> 0"
    using edge_inv_give [OF edg mat t tk pe, of "add_mset e' X" Y] sok [OF that] rest lb
    by (simp add: binv_def)
  show "binv K B X (add_mset e' Y) h g ?s" if "e_backlog e' = 0"
    using edge_inv_give [OF edg mat t tk pe, of X "add_mset e' Y"] that lt rest
    by (simp add: binv_def spent_ok_def e')
qed

subsection \<open>One entry\<close>

text \<open>
  While the entries of bin \<^verbatim>\<open>b\<close> are processed, that bin is left alone, no bin at or below it
  becomes non-empty, and no timeslot becomes available again.
\<close>

definition keeps_above :: "nat \<Rightarrow> cstate \<Rightarrow> cstate \<Rightarrow> bool" where
  "keeps_above b s s' \<longleftrightarrow> new_request_bins (fst s') b = new_request_bins (fst s) b
     \<and> (\<forall>i \<le> b. bit (non_empty_bins (fst s') 0) i \<longrightarrow> bit (non_empty_bins (fst s) 0) i)
     \<and> (\<forall>x y i. bit (avail (core_batch (fst s')) x y) i \<longrightarrow> bit (avail (core_batch (fst s)) x y) i)"

lemma above_refl [simp]: "keeps_above b s s"
  by (simp add: keeps_above_def)

lemma above_trans: "keeps_above b s s' \<Longrightarrow> keeps_above b s' s'' \<Longrightarrow> keeps_above b s s''"
  by (auto simp: keeps_above_def)

lemma above_later_bin: "keeps_above b s s' \<Longrightarrow> later_bin (fst s) c e \<Longrightarrow> later_bin (fst s') c e"
  by (auto simp: keeps_above_def later_bin_def)

lemma add_request_batch: "add_request b e core = Some core' \<Longrightarrow> core_batch core' = core_batch core"
  by (auto simp: add_request_def set_bin_non_empty_def split: bind_splits)

lemma taken_exists:
  assumes mat: "match_inv K (core, st)" and ok: "edge_ok K core e" and t: "t < 16"
    and av: "bit (avail (core_batch core) (e_src e) (e_dst e)) t"
  shows "\<exists>bs adm. batch_state_set_occupied_conditional (core_batch core) (e_src e) (e_dst e) t (push_bit t 1) = Some bs
    \<and> insert_admitted_edge (admitted_store st (core_admitted core t)) (e_src e) (e_dst e) = Some adm
    \<and> taken (core, st) e t bs adm"
proof -
  have lt: "unat (e_src e) < 256" "unat (e_dst e) < 256"
    using ok by (simp_all add: edge_ok_def)
  have "bit (src_endnodes (core_batch core) (unat (e_src e))) t"
    using av by (simp add: bit_avail)
  then have "e_src e \<notin> a_src ` set (tslot (core, st) t)"
    using mat t unfolding match_inv_def by fastforce
  then have "length (tslot (core, st) t) < 256"
    using mat t lt by (intro admitted_lt_256) (auto simp: match_inv_def)
  then have "length (admitted_list (admitted_store st (core_admitted core t))) < 256"
    by (simp add: tslot_def)
  from wpD [OF insert_admitted_edge_ok [OF this lt]] wpD [OF set_occupied_ok [OF lt t av]]
  show ?thesis
    by (force simp: taken_def tslot_def)
qed

lemma try_allocation_ok:
  assumes inv: "binv K {b} (add_mset e X) Y 0 g s" and b: "b < 48" and later: "later_bin (fst s) b e"
  shows "wp (try_allocation (e_src e) (e_dst e) (e_backlog e) (e_metric e) s) (\<lambda>(rc, s').
    binv K {b} (if rc then add_mset e X else X) Y 0 g s' \<and> keeps_above b s s')"
proof -
  obtain core st where s: "s = (core, st)"
    by (cases s)
  let ?av = "avail (core_batch core) (e_src e) (e_dst e)"
  have ok: "edge_ok K core e" and mat: "match_inv K (core, st)"
    using inv by (simp_all add: s binv_def edge_inv_def)
  then have get: "batch_state_get_avail_bitmap (core_batch core) (e_src e) (e_dst e) = Some ?av"
    by (simp add: edge_ok_def get_avail_bitmap)
  show ?thesis
  proof (cases "?av = 0")
    case True
    then show ?thesis
      using inv get by (simp add: try_allocation_def s keeps_above_def)
  next
    case False
    define t where "t = lsb_of ?av"
    note t = lsb_of_Some [OF False, folded t_def]
    have t16: "t < 16"
      using t(1) mat by (auto simp: bit_avail match_inv_def)
    obtain bs adm where occ: "batch_state_set_occupied_conditional (core_batch core) (e_src e) (e_dst e) t (push_bit t 1) = Some bs"
        "insert_admitted_edge (admitted_store st (core_admitted core t)) (e_src e) (e_dst e) = Some adm"
        "taken (core, st) e t bs adm"
      using taken_exists [OF mat ok t16 t(1)] by auto
    define e' where "e' = \<lparr> e_src = e_src e, e_dst = e_dst e, e_backlog = e_backlog e - 1,
      e_metric = new_metric_after_alloc t core \<rparr>"
    have g: "give (core, st) t bs adm = (core\<lparr> core_batch := bs \<rparr>,
        st\<lparr> admitted_store := (admitted_store st)(core_admitted core t := adm) \<rparr>)"
      by (simp add: give_def)
    let ?st = "st\<lparr> admitted_store := (admitted_store st)(core_admitted core t := adm) \<rparr>"
    have give1: "e_backlog e' \<noteq> 0 \<Longrightarrow> binv K {b} (add_mset e' X) Y 0 g (core\<lparr> core_batch := bs \<rparr>, ?st)
        \<and> later_bin (core\<lparr> core_batch := bs \<rparr>) (32 + t) e'"
      and give2: "e_backlog e' = 0 \<Longrightarrow> binv K {b} X (add_mset e' Y) 0 g (core\<lparr> core_batch := bs \<rparr>, ?st)"
      using binv_give [of K "{b}" e X Y 0 g "(core, st)" t bs adm e', unfolded g] inv t16 occ(3) t(1,3)
      by (simp_all add: s e'_def)
    have slot: "lsb_of ?av mod 2 ^ BATCH_SHIFT = t"
      using t16 by (simp add: t_def BATCH_SHIFT_def)
    have sb: "?av AND (- ?av) = push_bit t 1"
      using isolate_lowest_bit [OF False] by (simp add: t_def)
    have m: "new_metric_after_alloc t (core\<lparr> core_batch := bs \<rparr>) = e_metric e'"
      by (simp add: new_metric_after_alloc_def e'_def)
    have shr: "bit (avail bs x y) i \<longrightarrow> bit (avail (core_batch core) x y) i" for x y i
      using avail_shrinks [OF occ(3)] by simp
    have bt: "b < 32 + t"
      using later t(1) by (simp add: s later_bin_def)
    show ?thesis
    proof (cases "e_backlog e - 1 = 0")
      case True
      then have z: "e_backlog e' = 0"
        by (simp add: e'_def)
      then have e'_eq: "e' = \<lparr> e_src = e_src e, e_dst = e_dst e, e_backlog = 0, e_metric = e_metric e' \<rparr>"
        by (simp add: e'_def)
      let ?c = "core\<lparr> core_batch := bs, core_stat := adm_log_allocator_no_backlog (core_stat core) \<rparr>"
      have "binv K {b} X (add_mset \<lparr> e_src = e_src e, e_dst = e_dst e, e_backlog = 0, e_metric = e_metric e' \<rparr> Y) 0 g
          (?c, st\<lparr> admitted_store := (admitted_store st)(core_admitted core t := adm) \<rparr>)"
        using give2 [OF z] e'_eq by simp
      from enqueue_q_spent_ok [OF this] show ?thesis
        using True get occ False
        by (simp add: try_allocation_def s slot sb m Let_def del: push_bit_of_1)
           (erule wp_mono, auto simp: keeps_above_def shr)
    next
      case False': False
      then have nz: "e_backlog e' \<noteq> 0"
        by (simp add: e'_def)
      let ?c = "core\<lparr> core_batch := bs, core_stat := adm_log_allocated_backlog_remaining (core_stat core) (ucast (e_backlog e - 1)) \<rparr>"
      have "binv K {b} (add_mset e' X) Y 0 g
          (?c, st\<lparr> admitted_store := (admitted_store st)(core_admitted core t := adm) \<rparr>)"
        and "later_bin ?c (32 + t) e'"
        using give1 [OF nz] by (simp_all add: later_bin_def)
      from add_request_ok [OF this(1) _ _ this(2)] bt t16
      have "wp (add_request (32 + t) e' ?c) (\<lambda>core'. binv K {b} X Y 0 g (core', ?st)
          \<and> new_request_bins core' b = new_request_bins core b
          \<and> (\<forall>i \<le> b. bit (non_empty_bins core' 0) i \<longrightarrow> bit (non_empty_bins core 0) i))"
        by (auto elim!: wp_mono)
      moreover have "core_batch core' = bs" if "add_request (32 + t) e' ?c = Some core'" for core'
        using add_request_batch [OF that] by simp
      ultimately show ?thesis
        using False' get occ False shr
        by (simp add: try_allocation_def s slot sb m Let_def bin_after_alloc_def NUM_BINS_def
            e'_def del: push_bit_of_1)
           (drule (1) wp_and, erule wp_mono, auto simp: keeps_above_def)
    qed
  qed
qed

subsection \<open>One bin\<close>

lemma q_out_frame:
  "core_enqueue_to_q_out_edge q e s = Some s' \<Longrightarrow> new_request_bins (fst s') = new_request_bins (fst s)
     \<and> non_empty_bins (fst s') = non_empty_bins (fst s) \<and> core_batch (fst s') = core_batch (fst s)"
  by (auto simp: core_enqueue_to_q_out_edge_def core_flush_q_out_def fresh_bin_def Let_def
      split: if_splits bind_splits prod.splits)

lemma enqueue_q_out_edge:
  "core_enqueue_to_q_out q (e_src e) (e_dst e) (e_backlog e) (e_metric e) = core_enqueue_to_q_out_edge q e"
  by (cases e) (simp add: enqueue_q_out_eq)

lemma q_out_wp:
  assumes "binv K {b} (add_mset e X) Y 0 g s" "q < length (q_bin (bp_st K))"
  shows "wp (core_enqueue_to_q_out_edge q e s) (\<lambda>s'. binv K {b} X Y 0 g s' \<and> keeps_above b s s')"
proof (rule wp_and)
  have "length (q_bin (snd s)) = length (q_bin (bp_st K))"
    using assms(1) by (simp add: binv_def frame_inv_def)
  then show "wp (core_enqueue_to_q_out_edge q e s) (binv K {b} X Y 0 g)"
    using enqueue_q_out_edge_ok [OF assms(1)] assms(2) by simp
  show "keeps_above b s s'" if "core_enqueue_to_q_out_edge q e s = Some s'" for s'
    using q_out_frame [OF that] by (simp add: keeps_above_def)
qed

lemma try_allocation_bin_ok:
  assumes inv: "binv K {b} (mset es) Y 0 g s" and b: "b < 48" and q: "q < length (q_bin (bp_st K))"
    and es: "es = bin_list (new_request_bins (fst s) b)" and later: "\<forall>e \<in> set es. later_bin (fst s) b e"
  shows "wp (try_allocation_bin b q s) (\<lambda>s'. binv K {b} {#} Y 0 g s' \<and> keeps_above b s s')"
proof -
  let ?n = "unat (bin_size (new_request_bins (fst s) b))"
  have n: "length es = ?n"
    by (simp add: es length_bin_list)
  let ?P = "\<lambda>i s'. binv K {b} (mset (drop i es)) Y 0 g s' \<and> keeps_above b s s'"
  have "wp (try_allocation_bin b q s) (?P ?n)"
    unfolding try_allocation_bin_def
  proof (rule wp_upto)
    show "?P 0 s"
      using inv by simp
    fix i s' assume i: "i < ?n" and P: "?P i s'"
    let ?e = "es ! i"
    have e: "bin_get (new_request_bins (fst s') b) i = ?e"
      using P i by (simp add: keeps_above_def bin_get_nth es)
    have d: "mset (drop i es) = add_mset ?e (mset (drop (Suc i) es))"
      using i n by (simp add: Cons_nth_drop_Suc [symmetric])
    have inv': "binv K {b} (add_mset ?e (mset (drop (Suc i) es))) Y 0 g s'"
      using P by (simp add: d)
    have lb: "later_bin (fst s') b ?e"
      using P later i n by (intro above_later_bin [of b s s']) simp_all
    have tr: "keeps_above b s' s2 \<Longrightarrow> keeps_above b s s2" for s2
      using P above_trans by blast
    have q_out: "binv K {b} (add_mset ?e (mset (drop (Suc i) es))) Y 0 g s2 \<Longrightarrow> keeps_above b s s2 \<Longrightarrow>
        wp (core_enqueue_to_q_out q (e_src ?e) (e_dst ?e) (e_backlog ?e) (e_metric ?e) s2) (?P (Suc i))" for s2
      using q_out_wp [of K b ?e "mset (drop (Suc i) es)" Y g s2 q] q
      by (auto simp: enqueue_q_out_edge elim!: wp_mono intro: above_trans)
    show "wp (Let (bin_get (new_request_bins (fst s') b) i) (\<lambda>e. do {
        (rc, s) \<leftarrow> try_allocation (e_src e) (e_dst e) (e_backlog e) (e_metric e) s';
        if rc then core_enqueue_to_q_out q (e_src e) (e_dst e) (e_backlog e) (e_metric e) s else Some s }))
        (?P (Suc i))"
      unfolding Let_def e wp_bind
    proof (rule wp_mono [OF try_allocation_ok [OF inv' b lb]], goal_cases)
      case (1 x)
      then show ?case
        using tr [of "snd x"] q_out [of "snd x"] by (cases x) auto
    qed
  qed
  then show ?thesis
    using n by simp
qed

subsection \<open>All allowed bins\<close>

lemma binv_open_bin:
  assumes inv: "binv K B X Y h g (core, st)" and b: "b < 48" "b \<notin> B"
    and ne: "\<And>i. bit (ne 0) i \<longrightarrow> bit (non_empty_bins core 0) i"
      "\<And>i. i \<noteq> b \<Longrightarrow> bit (non_empty_bins core 0) i \<Longrightarrow> bit (ne 0) i"
  shows "binv K (insert b B) (X + mset (bin_list (new_request_bins core b))) Y h g
    (core\<lparr> non_empty_bins := ne \<rparr>, st)"
proof -
  let ?s = "(core\<lparr> non_empty_bins := ne \<rparr>, st)" and ?es = "mset (bin_list (new_request_bins core b))"
  have edg: "edge_inv K B X Y (core, st)" and res: "res_inv K h g (core, st)"
    and mat: "match_inv K (core, st)" and fra: "frame_inv K (core, st)"
    using inv by (simp_all add: binv_def)
  have all: "all_edges (insert b B) ?s + (X + ?es) + Y = all_edges B (core, st) + X + Y"
    using req_edges_insert [OF b, of "new_request_bins core"]
    by (simp add: all_edges_def work_edges_def spent_edges_def ac_simps)
  have w: "work_edges ?s = work_edges (core, st)" "spent_edges ?s = spent_edges (core, st)"
    by (simp_all add: work_edges_def spent_edges_def)
  have ok: "edge_ok K (fst ?s) e' = edge_ok K core e'" "later_bin (fst ?s) b' e' = later_bin core b' e'" for b' e'
    by (simp_all add: edge_ok_def later_bin_def)
  have srv: "served p ?s = served p (core, st)" for p
    by (simp add: served_def tslot_def)
  have es: "\<forall>e \<in># ?es. edge_ok K core e"
    using edg b by (auto simp: edge_inv_def)
  have "edge_inv K (insert b B) (X + ?es) Y ?s"
    using edg es unfolding edge_inv_def all w ok srv by (auto simp: ne intro: ne(2))
  moreover have "res_inv K h g ?s"
    using res by (simp add: res_inv_def)
  moreover have "match_inv K ?s"
    using mat by (simp add: match_inv_def tslot_def)
  moreover have "frame_inv K ?s"
    using fra by (simp add: frame_inv_def)
  ultimately show ?thesis
    by (simp add: binv_def)
qed

lemma binv_close_bin:
  assumes inv: "binv K (insert b B) X Y h g (core, st)" and b: "b < 48" "b \<notin> B"
  shows "binv K B X Y h g (core\<lparr> new_request_bins := (new_request_bins core)
    (b := init_bin (new_request_bins core b)) \<rparr>, st)"
proof -
  let ?arr = "(new_request_bins core)(b := init_bin (new_request_bins core b))"
  let ?s = "(core\<lparr> new_request_bins := ?arr \<rparr>, st)"
  have edg: "edge_inv K (insert b B) X Y (core, st)" and res: "res_inv K h g (core, st)"
    and mat: "match_inv K (core, st)" and fra: "frame_inv K (core, st)"
    using inv by (simp_all add: binv_def)
  have "req_edges B ?arr = req_edges (insert b B) (new_request_bins core)"
    using req_edges_insert [OF b, of ?arr] req_edges_upd_out [of b "insert b B"] by simp
  then have all: "all_edges B ?s = all_edges (insert b B) (core, st)"
    by (simp add: all_edges_def work_edges_def spent_edges_def)
  have w: "work_edges ?s = work_edges (core, st)" "spent_edges ?s = spent_edges (core, st)"
    by (simp_all add: work_edges_def spent_edges_def)
  have ok: "edge_ok K (fst ?s) e' = edge_ok K core e'" "later_bin (fst ?s) b' e' = later_bin core b' e'" for b' e'
    by (simp_all add: edge_ok_def later_bin_def)
  have srv: "served p ?s = served p (core, st)" for p
    by (simp add: served_def tslot_def)
  have "edge_inv K B X Y ?s"
    using edg unfolding edge_inv_def all w ok srv by auto
  moreover have "res_inv K h g ?s"
    using res by (simp add: res_inv_def)
  moreover have "match_inv K ?s"
    using mat by (simp add: match_inv_def tslot_def)
  moreover have "frame_inv K ?s"
    using fra by (simp add: frame_inv_def)
  ultimately show ?thesis
    by (simp add: binv_def)
qed

lemma try_allocation_loop_ok:
  assumes "binv K {} {#} Y 0 g s" and q: "q < length (q_bin (bp_st K))"
    and "\<And>i. i < j \<Longrightarrow> \<not> bit (non_empty_bins (fst s) 0 AND allowed) i"
  shows "wp (try_allocation_loop q 0 allowed s) (binv K {} {#} Y 0 g)"
  using assms(1,3)
proof (induction "64 - j" arbitrary: j s rule: less_induct)
  case less
  obtain core st where s: "s = (core, st)"
    by (cases s)
  let ?m = "non_empty_bins core 0 AND allowed"
  show ?case
  proof (cases "?m = 0")
    case True
    then show ?thesis
      using less.prems(1) by (subst try_allocation_loop.simps) (simp add: s)
  next
    case False
    define b where "b = lsb_of ?m"
    note b = lsb_of_Some [OF False, folded b_def]
    let ?es = "bin_list (new_request_bins core b)"
    let ?ne = "(non_empty_bins core)(0 := non_empty_bins core 0 XOR (?m AND (- ?m)))"
    have bb: "bit (non_empty_bins core 0) b"
      using b(1) by (simp add: bit_and_iff)
    then have b48: "b < 48"
      using less.prems(1) by (simp add: s binv_def edge_inv_def)
    have ne: "bit (?ne 0) i \<longleftrightarrow> bit (non_empty_bins core 0) i \<and> i \<noteq> b" for i
      using bb b(2) isolate_lowest_bit [OF False, folded b_def]
      by (auto simp: bit_xor_iff word_bits simp del: push_bit_of_1)
    let ?c = "core\<lparr> non_empty_bins := ?ne, core_stat := adm_log_processed_core_bin (core_stat core)
        (of_nat b) (ucast (bin_size (new_request_bins core b))) \<rparr>"
    have open_b: "binv K {b} (mset ?es) Y 0 g (?c, st)"
      using binv_open_bin [OF less.prems(1) [unfolded s] b48, of ?ne] ne by simp
    have "\<forall>e \<in> set ?es. later_bin (fst (?c, st)) b e"
      using less.prems(1) b48 by (auto simp: s binv_def edge_inv_def later_bin_def)
    then have bin: "wp (try_allocation_bin b q (?c, st))
        (\<lambda>s'. binv K {b} {#} Y 0 g s' \<and> keeps_above b (?c, st) s')"
      using try_allocation_bin_ok [OF open_b b48 q] by simp
    have rest: "wp (try_allocation_loop q 0 allowed (core'\<lparr> new_request_bins :=
        (new_request_bins core')(b := init_bin (new_request_bins core' b)) \<rparr>, st')) (binv K {} {#} Y 0 g)"
      (is "wp (try_allocation_loop q 0 allowed ?s') _")
      if "binv K {b} {#} Y 0 g (core', st')" "keeps_above b (?c, st) (core', st')" for core' st'
    proof (rule less.hyps [of "Suc b"])
      have "j \<le> b"
        using less.prems(2) b(1) by (metis fst_conv linorder_not_le s)
      then show "64 - Suc b < 64 - j"
        using b(2) by simp
      show "binv K {} {#} Y 0 g ?s'"
        by (rule binv_close_bin) (use that b48 in simp_all)
      show "\<not> bit (non_empty_bins (fst ?s') 0 AND allowed) i" if "i < Suc b" for i
      proof -
        have "bit (non_empty_bins core' 0) i \<Longrightarrow> bit (?ne 0) i"
          using \<open>keeps_above b (?c, st) (core', st')\<close> that by (simp add: keeps_above_def)
        then show ?thesis
          using ne [of i] b(3) [of i] that by (auto simp: bit_and_iff)
      qed
    qed
    show ?thesis
      using False b48
      by (subst try_allocation_loop.simps)
         (simp add: s Let_def b_def [symmetric] NUM_BINS_def BATCH_SIZE_def,
          rule wp_mono [OF bin], use rest in auto)
  qed
qed

lemma try_allocation_core_ok:
  assumes "binv K {} {#} Y 0 g s" "q < length (q_bin (bp_st K))"
  shows "wp (try_allocation_core q s) (binv K {} {#} Y 0 g)"
  using try_allocation_loop_ok [OF assms, of 0]
  by (simp add: try_allocation_core_def BIN_MASK_SIZE_def NUM_BINS_def BATCH_SIZE_def)

end
