(* ===== verification/FP_Alloc_Batch.thy ===== *)
theory FP_Alloc_Batch
  imports FP_Alloc_Step
begin

unbundle bit_operations_syntax

text \<open>
  A whole batch of the allocator, \<^verbatim>\<open>seq_get_admissible_traffic\<close>: taking bins from the queues,
  sending out timeslots, the main loop and its end, and wrapping up. The main loop runs exactly
  48 times whatever the inputs are.
\<close>

subsection \<open>Taking bins from a queue\<close>

lemma bin_index_range: "bin_index_from_timeslot m c < 48"
proof -
  have "15 - n < (48 :: nat)" "47 - n < (48 :: nat)" for n
    by simp_all
  then show ?thesis
    unfolding bin_index_from_timeslot_def Let_def NUM_BINS_def BATCH_SIZE_def by auto
qed

lemma add_request_timeslot: "add_request b e core = Some core' \<Longrightarrow> allowed_bins core' = allowed_bins core"
  by (auto simp: add_request_def set_bin_non_empty_def split: bind_splits)

lemma incoming_bin_ok:
  assumes inv: "binv K {} (X + mset (bin_list b)) Y h g (core, st)"
  shows "wp (incoming_bin_to_core b core) (\<lambda>core'. binv K {} X Y h g (core', st))"
proof -
  let ?es = "bin_list b" and ?n = "unat (bin_size b)"
  let ?P = "\<lambda>i core'. binv K {} (X + mset (drop i ?es)) Y h g (core', st)"
  have "wp (incoming_bin_to_core b core) (?P ?n)"
    unfolding incoming_bin_to_core_def
  proof (rule wp_upto)
    show "?P 0 core"
      using inv by simp
    fix i core' assume i: "i < ?n" and P: "?P i core'"
    let ?e = "?es ! i"
    have e: "bin_get b i = ?e"
      using i by (simp add: bin_get_nth)
    have "mset (drop i ?es) = add_mset ?e (mset (drop (Suc i) ?es))"
      using i by (simp add: Cons_nth_drop_Suc [symmetric] length_bin_list)
    then have inv': "binv K {} (add_mset ?e (X + mset (drop (Suc i) ?es))) Y h g (core', st)"
      using P by simp
    then have "edge_ok K core' ?e"
      by (simp add: binv_def edge_inv_def)
    then have "later_bin core' (bin_index_from_timeslot (e_metric ?e) (current_timeslot core')) ?e"
      by (simp add: edge_ok_def)
    from add_request_ok [OF inv' bin_index_range _ this]
    show "wp (add_request (bin_index_from_timeslot (e_metric (bin_get b i)) (current_timeslot core'))
        (bin_get b i) core') (?P (Suc i))"
      unfolding e by (auto elim: wp_mono)
  qed
  then show ?thesis
    by (simp add: length_bin_list)
qed

lemma binv_put:
  assumes inv: "binv K B X Y (Suc h) g (core, st)" and b: "bin_cap b = 32"
  shows "wp (fp_mempool_put (bin_mempool st) b) (\<lambda>mp. binv K B X Y h g (core, st\<lparr> bin_mempool := mp \<rparr>))"
proof -
  have res: "res_inv K (Suc h) g (core, st)" and edg: "edge_inv K B X Y (core, st)"
    and mat: "match_inv K (core, st)" and fra: "frame_inv K (core, st)"
    using inv by (simp_all add: binv_def)
  note r = res [unfolded res_inv_def, simplified]
  have wf: "pool_wf (bin_mempool st)" and lt: "length (pool_list (bin_mempool st)) < pool_size (bin_mempool st)"
    using r by auto
  have key: "binv K B X Y h g (core, st\<lparr> bin_mempool := mp \<rparr>)"
    if mp: "pool_wf mp" "pool_list mp = pool_list (bin_mempool st) @ [b]" "pool_size mp = pool_size (bin_mempool st)" for mp
  proof -
    let ?s = "(core, st\<lparr> bin_mempool := mp \<rparr>)"
    have q: "qwork (snd ?s) = qwork st" "qspent (snd ?s) = qspent st"
      by (simp_all add: qwork_def qspent_def)
    have caps: "\<forall>b \<in> set (pool_list mp). bin_cap b = 32"
      using r b mp(2) by auto
    have cnt: "size (qwork st) + size (qspent st) + length (pool_list mp) + h = bp_bins K"
      using r mp(2) by simp
    have "res_inv K h g ?s"
      unfolding res_inv_def q using r mp(1,3) caps cnt by simp
    moreover have "edge_inv K B X Y ?s"
      by (rule edge_inv_move [OF edg]) (simp_all add: work_edges_def spent_edges_def q [simplified] tslot_def)
    moreover have "match_inv K ?s"
      using mat by (simp add: match_inv_def tslot_def)
    moreover have "frame_inv K ?s"
      using fra by (simp add: frame_inv_def)
    ultimately show ?thesis
      by (simp add: binv_def)
  qed
  show ?thesis
    by (rule wp_mono [OF fp_mempool_put_ok [OF wf lt]]) (simp add: key)
qed

lemma qring_ok_mono: "qring_ok K g r \<Longrightarrow> g' \<le> g \<Longrightarrow> qring_ok K g' r"
  by (auto simp: qring_ok_def)

text \<open>
  Bins leave the queues of waiting entries: their entries and the bins themselves are in hand.
\<close>

lemma binv_take:
  assumes inv: "binv K B X Y h g (core, st)"
    and st': "qwork st = qwork st' + mset bs" "q_spent st' = q_spent st" "bin_mempool st' = bin_mempool st"
      "admitted_store st' = admitted_store st"
    and rings: "ring_wf (q_head st')" "\<forall>r \<in> set (q_bin st'). qring_ok K g' r"
    and fr: "frame_inv K (core, st')"
  shows "binv K B (X + edges_of (mset bs)) Y (h + length bs) g' (core, st')"
proof -
  have res: "res_inv K h g (core, st)" and edg: "edge_inv K B X Y (core, st)" and mat: "match_inv K (core, st)"
    using inv by (simp_all add: binv_def)
  have qs: "qspent st' = qspent st"
    by (simp add: qspent_def st')
  note r = res [unfolded res_inv_def, simplified]
  have bins: "\<forall>b \<in># qwork st' + qspent st'. bin_small b \<and> bin_list b \<noteq> []"
    using r unfolding qs st'(1) by auto
  have cnt: "size (qwork st') + size (qspent st') + length (pool_list (bin_mempool st')) + (h + length bs) = bp_bins K"
    using r unfolding st' qs by simp
  have "res_inv K (h + length bs) g' (core, st')"
    unfolding res_inv_def using r rings bins cnt by (simp add: st')
  moreover have "edge_inv K B (X + edges_of (mset bs)) Y (core, st')"
    by (rule edge_inv_move [OF edg]) (simp_all add: work_edges_def spent_edges_def qs st' tslot_def)
  moreover have "match_inv K (core, st')"
    using mat by (simp add: match_inv_def tslot_def st')
  ultimately show ?thesis
    using fr by (simp add: binv_def)
qed

lemma binv_take_small:
  assumes "binv K B X Y h g (core, st)" "qwork st = W + mset bs" "b \<in> set bs"
  shows "bin_small b" "bin_list b \<noteq> []"
  using assms by (auto simp: binv_def res_inv_def)

lemma frame_inv_upd:
  "frame_inv K (core, st) \<Longrightarrow> frame_inv K (core, st\<lparr> q_head := q \<rparr>)"
  "frame_inv K (core, st) \<Longrightarrow> frame_inv K (core, st\<lparr> q_bin := (q_bin st)[i := r] \<rparr>)"
  by (simp_all add: frame_inv_def)

lemma process_bin_ok:
  assumes inv: "binv K {} (X + mset (bin_list b)) Y (Suc h) g (core, st)" and b: "bin_small b"
  shows "wp (do { core' \<leftarrow> incoming_bin_to_core b core; mp \<leftarrow> fp_mempool_put (bin_mempool st) b;
      Some (core', st\<lparr> bin_mempool := mp \<rparr>) }) (binv K {} X Y h g)"
proof -
  have put: "wp (fp_mempool_put (bin_mempool st) b) (\<lambda>mp. binv K {} X Y h g (core', st\<lparr> bin_mempool := mp \<rparr>))"
    if "binv K {} X Y (Suc h) g (core', st)" for core'
    using binv_put [OF that] b by (simp add: bin_small_def)
  show ?thesis
    unfolding wp_bind wp_Some by (rule wp_mono [OF incoming_bin_ok [OF inv]], erule put)
qed

lemma process_new_requests_ok:
  assumes inv: "binv K {} {#} Y 0 g s"
  shows "wp (process_new_requests s) (\<lambda>(n, s'). binv K {} {#} Y 0 g s')"
proof -
  obtain core st where s: "s = (core, st)"
    by (cases s)
  have "ring_wf (q_head st)"
    using inv by (simp add: s binv_def res_inv_def)
  from fp_ring_dequeue_burst_split [OF this, of RING_DEQUEUE_BURST_SIZE]
  obtain bs q where q: "fp_ring_dequeue_burst (q_head st) RING_DEQUEUE_BURST_SIZE = Some (bs, q)"
      "ring_wf q" "ring_list (q_head st) = bs @ ring_list q"
    by metis
  have qw: "qwork st = qwork (st\<lparr> q_head := q \<rparr>) + mset bs"
    by (simp add: qwork_def q(3))
  have small: "bin_small b" if "b \<in> set bs" for b
    using binv_take_small [OF inv [unfolded s] qw that] by simp
  let ?P = "\<lambda>i (x :: u32 \<times> u32 \<times> cstate).
    binv K {} (edges_of (mset (drop i bs))) Y (length bs - i) g (snd (snd x))"
  have rings: "\<forall>r \<in> set (q_bin st). qring_ok K g r" and fr: "frame_inv K (core, st\<lparr> q_head := q \<rparr>)"
    using inv frame_inv_upd(1) [of K core st q] by (simp_all add: s binv_def res_inv_def)
  have start: "?P 0 (0, 0, core, st\<lparr> q_head := q \<rparr>)"
    using binv_take [OF inv [unfolded s] qw, of g] q(2) rings fr by simp
  have "wp (foldo process_new_bin bs (0, 0, core, st\<lparr> q_head := q \<rparr>)) (?P (length bs))"
  proof (rule wp_foldo [where P = ?P])
    show "?P 0 (0, 0, core, st\<lparr> q_head := q \<rparr>)"
      by (rule start)
    fix i x assume i: "i < length bs" and P: "?P i x"
    obtain ne nb c u where x: "x = (ne, nb, c, u)"
      by (cases x)
    have d: "drop i bs = bs ! i # drop (Suc i) bs"
      using i by (simp add: Cons_nth_drop_Suc)
    have "binv K {} (edges_of (mset (drop (Suc i) bs)) + mset (bin_list (bs ! i))) Y
        (Suc (length bs - Suc i)) g (c, u)"
      using P i by (simp add: x d ac_simps Suc_diff_Suc)
    from process_bin_ok [OF this small] i
    show "wp (process_new_bin (bs ! i) x) (?P (Suc i))"
      by (simp add: process_new_bin_def x)
  qed
  then show ?thesis
    by (simp add: process_new_requests_def s q) (erule wp_mono, auto)
qed

lemma poll_requests_ok:
  assumes "binv K {} {#} Y 0 g s"
  shows "wp (poll_requests s) (binv K {} {#} Y 0 g)"
  unfolding poll_requests_def
proof (rule wp_upto [where P = "\<lambda>_. binv K {} {#} Y 0 g"])
  show "binv K {} {#} Y 0 g s"
    by (rule assms)
  fix i s' assume "binv K {} {#} Y 0 g s'"
  from wpD [OF process_new_requests_ok [OF this]]
  show "wp (map_option snd (process_new_requests s')) (binv K {} {#} Y 0 g)"
    by auto
qed

subsection \<open>Passing bins on\<close>

lemma binv_return:
  assumes inv: "binv K B (X + edges_of (mset bs)) Y (h + length bs) g (core, st)"
    and st': "qwork st' = qwork st + mset bs" "q_spent st' = q_spent st" "bin_mempool st' = bin_mempool st"
      "admitted_store st' = admitted_store st" "q_head st' = q_head st"
    and rings: "\<forall>r \<in> set (q_bin st'). qring_ok K g r"
    and bs: "\<forall>b \<in> set bs. bin_small b \<and> bin_list b \<noteq> []"
    and fr: "frame_inv K (core, st')"
  shows "binv K B X Y h g (core, st')"
proof -
  have res: "res_inv K (h + length bs) g (core, st)" and mat: "match_inv K (core, st)"
    and edg: "edge_inv K B (X + edges_of (mset bs)) Y (core, st)"
    using inv by (simp_all add: binv_def)
  have qs: "qspent st' = qspent st"
    by (simp add: qspent_def st')
  note r = res [unfolded res_inv_def, simplified]
  have bins: "\<forall>b \<in># qwork st' + qspent st'. bin_small b \<and> bin_list b \<noteq> []"
    using r bs unfolding qs st'(1) by auto
  have cnt: "size (qwork st') + size (qspent st') + length (pool_list (bin_mempool st')) + h = bp_bins K"
    using r unfolding st' qs by simp
  have "res_inv K h g (core, st')"
    unfolding res_inv_def using r rings bins cnt by (simp add: st')
  moreover have "edge_inv K B X Y (core, st')"
    by (rule edge_inv_move [OF edg]) (simp_all add: work_edges_def spent_edges_def qs st' tslot_def)
  moreover have "match_inv K (core, st')"
    using mat by (simp add: match_inv_def tslot_def st')
  ultimately show ?thesis
    using fr by (simp add: binv_def)
qed

lemma unat_head_add: "unat ((h :: u32) + of_nat n) \<le> unat h + n"
  by (simp add: unat_u32_add_of_nat)

lemma qring_ok_dequeue:
  assumes "qring_ok K (g + k) r" "ring_wf q" "ring_room q = ring_room r"
    "ring_head q = ring_head r + of_nat n" "n \<le> k"
  shows "qring_ok K g q"
  using assms unat_head_add [of "ring_head r" n] by (simp add: qring_ok_def)

lemma qwork_take:
  assumes "i < length (q_bin st)" "ring_list (q_bin st ! i) = bs @ ring_list q"
  shows "qwork st = qwork (st\<lparr> q_bin := (q_bin st)[i := q] \<rparr>) + mset bs"
  using qwork_upd [OF assms(1), of q] assms(2) by (simp add: ac_simps)

lemma binv_take_q_bin:
  assumes inv: "binv K B X Y h (g + k) (core, st)" and i: "i < length (q_bin st)"
    and q: "ring_wf q" "ring_list (q_bin st ! i) = bs @ ring_list q" "ring_room q = ring_room (q_bin st ! i)"
      "ring_head q = ring_head (q_bin st ! i) + of_nat (length bs)" "length bs \<le> k"
  shows "binv K B (X + edges_of (mset bs)) Y (h + length bs) g (core, st\<lparr> q_bin := (q_bin st)[i := q] \<rparr>)"
    and "\<forall>b \<in> set bs. bin_small b \<and> bin_list b \<noteq> []"
proof -
  let ?st = "st\<lparr> q_bin := (q_bin st)[i := q] \<rparr>"
  have rings: "\<forall>r \<in> set (q_bin st). qring_ok K (g + k) r" and hd: "ring_wf (q_head st)"
    and fr: "frame_inv K (core, ?st)"
    using inv frame_inv_upd(2) by (simp_all add: binv_def res_inv_def)
  then have okq: "qring_ok K g q"
    using q i by (intro qring_ok_dequeue [of K g k "q_bin st ! i"]) simp_all
  have "\<forall>r \<in> set (q_bin st). qring_ok K g r"
    using rings qring_ok_mono [of K "g + k" _ g] by auto
  from list_update_all [OF this okq, of i] have "\<forall>r \<in> set (q_bin ?st). qring_ok K g r"
    by simp
  then show "binv K B (X + edges_of (mset bs)) Y (h + length bs) g (core, ?st)"
    using binv_take [OF inv qwork_take [OF i q(2)], of g] hd fr by simp
  show "\<forall>b \<in> set bs. bin_small b \<and> bin_list b \<noteq> []"
    using binv_take_small [OF inv qwork_take [OF i q(2)]] by blast
qed

lemma burst_queue_ok:
  assumes inv: "binv K B {#} Y 0 (g + 16) (core, st)"
    and qi: "qi < length (q_bin st)" and qo: "qo < length (q_bin st)"
  shows "wp (burst_q_in_to_q_out qi qo (core, st)) (\<lambda>(n, s'). binv K B {#} Y 0 g s')"
proof -
  have "ring_wf (q_bin st ! qi)"
    using inv qi by (simp add: binv_def res_inv_def qring_ok_def)
  from fp_ring_dequeue_burst_split [OF this, of Q_IN_Q_OUT_BURST_SIZE]
  obtain bs q where d: "fp_ring_dequeue_burst (q_bin st ! qi) Q_IN_Q_OUT_BURST_SIZE = Some (bs, q)"
      and q: "ring_wf q" "ring_list (q_bin st ! qi) = bs @ ring_list q" "ring_room q = ring_room (q_bin st ! qi)"
        "ring_head q = ring_head (q_bin st ! qi) + of_nat (length bs)" "length bs \<le> 16"
    unfolding Q_IN_Q_OUT_BURST_SIZE_def by metis
  let ?st = "st\<lparr> q_bin := (q_bin st)[qi := q] \<rparr>"
  note taken = binv_take_q_bin [OF inv qi q, simplified]
  show ?thesis
  proof (cases "bs = []")
    case True
    then show ?thesis
      using taken(1) d qi qo by (simp add: burst_q_in_to_q_out_def)
  next
    case False
    let ?r = "q_bin ?st ! qo"
    have r_in: "?r \<in> set (q_bin ?st)"
      using qo by simp
    then have rok: "qring_ok K g ?r"
      using taken(1) by (auto simp: binv_def res_inv_def)
    have "length bs \<le> size (edges_of (mset bs))"
      using size_edges_of [of "mset bs"] taken(2) by simp
    then have "ring_count ?r + length bs \<le> ring_room ?r"
      using binv_count [OF taken(1), simplified] qwork_ring_size [OF r_in] rok by (simp add: qring_ok_def)
    moreover have "ring_wf ?r" "unat (ring_head ?r) + ring_room ?r < 4294967296"
      using rok by (simp_all add: qring_ok_def)
    ultimately obtain r' where r': "fp_ring_enqueue_bulk ?r bs = Some r'" "ring_wf r'"
        "ring_list r' = ring_list ?r @ bs" "ring_room r' = ring_room ?r" "ring_head r' = ring_head ?r"
      using wpD [OF fp_ring_enqueue_bulk_ok [of ?r bs]] by blast
    let ?st2 = "?st\<lparr> q_bin := (q_bin ?st)[qo := r'] \<rparr>"
    have qw: "qwork ?st2 = qwork ?st + mset bs"
      using qwork_upd [of qo ?st r'] qo by (simp add: r'(3))
    have okr: "qring_ok K g r'"
      using rok r' by (simp add: qring_ok_def)
    have "\<forall>r \<in> set (q_bin ?st). qring_ok K g r"
      using taken(1) by (simp add: binv_def res_inv_def)
    from list_update_all [OF this okr, of qo] have rings: "\<forall>r \<in> set (q_bin ?st2). qring_ok K g r"
      by simp
    have "frame_inv K (core, ?st2)"
      using taken(1) by (simp add: binv_def frame_inv_def)
    then have "binv K B {#} Y 0 g (core, ?st2)"
      using binv_return [of K B "{#}" bs Y 0 g core ?st ?st2] taken qw rings by simp
    then show ?thesis
      using d qi qo False r'(1) by (simp add: burst_q_in_to_q_out_def)
  qed
qed

subsection \<open>Moving the remaining entries out\<close>

lemma move_bin_ok:
  assumes inv: "binv K B (mset (bin_list b)) Y 0 g s" and q: "q < length (q_bin (bp_st K))"
  shows "wp (move_bin_to_q_out q b s) (\<lambda>s'. binv K B {#} Y 0 g s'
    \<and> new_request_bins (fst s') = new_request_bins (fst s))"
proof -
  let ?es = "bin_list b" and ?n = "unat (bin_size b)"
  let ?P = "\<lambda>i s'. binv K B (mset (drop i ?es)) Y 0 g s' \<and> new_request_bins (fst s') = new_request_bins (fst s)"
  have "wp (move_bin_to_q_out q b s) (?P ?n)"
    unfolding move_bin_to_q_out_def
  proof (rule wp_upto)
    show "?P 0 s"
      using inv by simp
    fix i s' assume i: "i < ?n" and P: "?P i s'"
    let ?e = "?es ! i"
    have "mset (drop i ?es) = add_mset ?e (mset (drop (Suc i) ?es))"
      using i by (simp add: Cons_nth_drop_Suc [symmetric] length_bin_list)
    then have inv': "binv K B (add_mset ?e (mset (drop (Suc i) ?es))) Y 0 g s'"
      using P by simp
    have "q < length (q_bin (snd s'))"
      using P q by (simp add: binv_def frame_inv_def)
    from enqueue_q_out_edge_ok [OF inv' this]
    have "wp (core_enqueue_to_q_out_edge q ?e s') (\<lambda>s''. binv K B (mset (drop (Suc i) ?es)) Y 0 g s''
        \<and> new_request_bins (fst s'') = new_request_bins (fst s'))"
      by (rule wp_and) (simp add: q_out_frame)
    then show "wp (core_enqueue_to_q_out_edge q (bin_get b i) s') (?P (Suc i))"
      using P i by (auto simp: bin_get_nth elim!: wp_mono)
  qed
  then show ?thesis
    by (simp add: length_bin_list)
qed

lemma bit_clear_lowest:
  assumes "(x :: u64) \<noteq> 0"
  shows "bit (x AND (x - 1)) i \<longleftrightarrow> bit x i \<and> i \<noteq> lsb_of x"
proof -
  have "x AND NOT (x - 1) = push_bit (lsb_of x) 1"
    using isolate_lowest_bit [OF assms] by (simp add: not_eq_complement)
  then have "bit (x AND NOT (x - 1)) i \<longleftrightarrow> i = lsb_of x"
    using lsb_of_Some(2) [OF assms] by (auto simp: word_bits simp del: push_bit_of_1)
  then show ?thesis
    using bit_word_lt [of x i] by (auto simp: word_bits)
qed

lemma binv_all_bins:
  assumes inv: "binv K B {#} Y h g s" and B: "\<And>i. i < 48 \<Longrightarrow> i \<notin> B \<Longrightarrow> bin_list (new_request_bins (fst s) i) = []"
  shows "binv K {..<48} {#} Y h g s"
proof -
  have "req_edges B (new_request_bins (fst s)) = {#}"
    using B unfolding req_edges_def by (intro sum.neutral) simp
  then have all: "all_edges {..<48} s = all_edges B s"
    by (simp add: all_edges_def req_edges_def)
  have "edge_inv K B {#} Y s"
    using inv by (simp add: binv_def)
  then have "edge_inv K {..<48} {#} Y s"
    unfolding edge_inv_def all by simp
  then show ?thesis
    using inv by (simp add: binv_def)
qed

lemma move_core_loop_ok:
  assumes "binv K B {#} Y 0 g s" and q: "q < length (q_bin (bp_st K))"
    and "\<And>i. bit msk i \<Longrightarrow> i < 48 \<and> i \<notin> B"
    and "\<And>i. i < 48 \<Longrightarrow> i \<notin> B \<Longrightarrow> bin_list (new_request_bins (fst s) i) \<noteq> [] \<Longrightarrow> bit msk i"
    and "\<And>i. i < j \<Longrightarrow> \<not> bit msk i"
  shows "wp (move_core_loop q 0 msk s) (binv K {..<48} {#} Y 0 g)"
  using assms(1,3-5)
proof (induction "64 - j" arbitrary: j msk B s rule: less_induct)
  case less
  obtain core st where s: "s = (core, st)"
    by (cases s)
  show ?case
  proof (cases "msk = 0")
    case True
    then have "binv K {..<48} {#} Y 0 g s"
      using binv_all_bins [OF less.prems(1)] less.prems(3) by force
    then show ?thesis
      using True by (subst move_core_loop.simps) simp
  next
    case False
    define b where "b = lsb_of msk"
    note b = lsb_of_Some [OF False, folded b_def]
    have b48: "b < 48" "b \<notin> B"
      using less.prems(2) b(1) by auto
    let ?b = "new_request_bins core b"
    let ?c = "core\<lparr> core_stat := adm_log_wrap_up_non_empty_bin (core_stat core) (bin_size ?b) \<rparr>"
    have "binv K (insert b B) (mset (bin_list ?b)) Y 0 g (core\<lparr> non_empty_bins := non_empty_bins core \<rparr>, st)"
      using binv_open_bin [OF less.prems(1) [unfolded s] b48, of "non_empty_bins core"] by simp
    then have "binv K (insert b B) (mset (bin_list ?b)) Y 0 g (?c, st)"
      by simp
    note move = move_bin_ok [OF this q]
    have "j \<le> b"
      using less.prems(4) b(1) by (metis linorder_not_le)
    then have m: "64 - Suc b < 64 - j"
      using b(2) by simp
    have rest: "wp (move_core_loop q 0 (msk AND (msk - 1)) s') (binv K {..<48} {#} Y 0 g)"
      if inv': "binv K (insert b B) {#} Y 0 g s'" and eq: "new_request_bins (fst s') = new_request_bins core" for s'
      by (rule less.hyps [OF m inv'])
         (use less.prems(2,3) eq b(3) in \<open>auto simp: bit_clear_lowest [OF False] s b_def [symmetric] less_Suc_eq\<close>)
    show ?thesis
      using False b48
      by (subst move_core_loop.simps)
         (simp add: s Let_def b_def [symmetric] NUM_BINS_def BATCH_SIZE_def,
          rule wp_mono [OF move], use rest in auto)
  qed
qed

lemma move_core_ok:
  assumes inv: "binv K {} {#} Y 0 g s" and q: "q < length (q_bin (bp_st K))"
  shows "wp (move_core_to_q_out q s) (binv K {..<48} {#} Y 0 g)"
proof -
  have "wp (move_core_loop q 0 (non_empty_bins (fst s) 0) s) (binv K {..<48} {#} Y 0 g)"
    by (rule move_core_loop_ok [OF inv q, where j = 0])
       (use inv in \<open>auto simp: binv_def edge_inv_def\<close>)
  then show ?thesis
    by (simp add: move_core_to_q_out_def BIN_MASK_SIZE_def NUM_BINS_def BATCH_SIZE_def)
qed

subsection \<open>Wrapping up\<close>

lemma flush_q_out_frame:
  "core_flush_q_out q s = Some s' \<Longrightarrow> bin_list (out_bin (fst s')) = [] \<and> spent_bin (fst s') = spent_bin (fst s)"
  by (auto simp: core_flush_q_out_def fresh_bin_def split: bind_splits prod.splits)

lemma flush_q_spent_frame:
  "core_flush_q_spent s = Some s' \<Longrightarrow> bin_list (spent_bin (fst s')) = [] \<and> out_bin (fst s') = out_bin (fst s)"
  by (auto simp: core_flush_q_spent_def fresh_bin_def split: bind_splits prod.splits)

lemma burst_frame: "burst_q_in_to_q_out qi qo s = Some (n, s') \<Longrightarrow> fst s' = fst s"
  by (auto simp: burst_q_in_to_q_out_def Let_def split: bind_splits prod.splits if_splits)

lemma final_flush_out:
  assumes inv: "binv K B {#} Y 0 g (core, st)" and q: "q < length (q_bin (bp_st K))"
  shows "wp (if \<not> is_empty_bin (out_bin core)
        then core_flush_q_out q (core\<lparr> core_stat := x \<rparr>, st) else Some (core, st))
      (\<lambda>s'. binv K B {#} Y 0 g s' \<and> bin_list (out_bin (fst s')) = [])"
proof (cases "bin_list (out_bin core) = []")
  case True
  then show ?thesis
    using inv by (simp add: is_empty_bin_iff)
next
  case False
  let ?c = "core\<lparr> core_stat := x \<rparr>"
  have "binv K B (mset (bin_list (out_bin ?c))) Y 0 g (?c\<lparr> out_bin := init_bin (out_bin ?c) \<rparr>, st)"
    using binv_out_to_hand [OF inv] by simp
  moreover have "bin_small (out_bin ?c)" "q < length (q_bin st)"
    using inv q by (simp_all add: binv_def res_inv_def frame_inv_def)
  ultimately have "wp (core_flush_q_out q (?c, st)) (binv K B {#} Y 0 g)"
    using flush_q_out_ok [of K B "{#}" ?c Y g st q] False by simp
  then have "wp (core_flush_q_out q (?c, st)) (\<lambda>s'. binv K B {#} Y 0 g s' \<and> bin_list (out_bin (fst s')) = [])"
    by (rule wp_and) (simp add: flush_q_out_frame)
  then show ?thesis
    using False by (simp add: is_empty_bin_iff)
qed

lemma final_flush_spent:
  assumes inv: "binv K B X {#} 0 g (core, st)"
  shows "wp (if \<not> is_empty_bin (spent_bin core)
        then core_flush_q_spent (core\<lparr> core_stat := x \<rparr>, st) else Some (core, st))
      (\<lambda>s'. binv K B X {#} 0 g s' \<and> bin_list (spent_bin (fst s')) = [] \<and> out_bin (fst s') = out_bin core)"
proof (cases "bin_list (spent_bin core) = []")
  case True
  then show ?thesis
    using inv by (simp add: is_empty_bin_iff)
next
  case False
  let ?c = "core\<lparr> core_stat := x \<rparr>"
  have "binv K B X (mset (bin_list (spent_bin ?c))) 0 g (?c\<lparr> spent_bin := init_bin (spent_bin ?c) \<rparr>, st)"
    using binv_spent_to_hand [OF inv] by simp
  moreover have "bin_small (spent_bin ?c)"
    using inv by (simp add: binv_def res_inv_def)
  ultimately have "wp (core_flush_q_spent (?c, st)) (\<lambda>s'. binv K B X {#} 0 g s' \<and>
      (\<exists>b q mp. s' = (?c\<lparr> spent_bin := b \<rparr>, st\<lparr> q_spent := q, bin_mempool := mp \<rparr>)))"
    using flush_q_spent_ok [of K B X "{#}" ?c g st] False by simp
  then have "wp (core_flush_q_spent (?c, st)) (binv K B X {#} 0 g)"
    by (rule wp_mono) blast
  then have "wp (core_flush_q_spent (?c, st)) (\<lambda>s'. binv K B X {#} 0 g s'
      \<and> (bin_list (spent_bin (fst s')) = [] \<and> out_bin (fst s') = out_bin core))"
    by (rule wp_and) (drule flush_q_spent_frame, simp)
  then show ?thesis
    using False by (simp add: is_empty_bin_iff)
qed

lemma batch_wrap_up_ok:
  assumes inv: "binv K {} {#} {#} 0 (g + 16) s"
    and q: "qi < length (q_bin (bp_st K))" "qo < length (q_bin (bp_st K))"
  shows "wp (batch_wrap_up qi qo s) (\<lambda>(core, st). binv K {..<48} {#} {#} 0 g
      (core\<lparr> current_timeslot := current_timeslot (bp_core K) \<rparr>, st)
    \<and> bin_list (out_bin core) = [] \<and> bin_list (spent_bin core) = []
    \<and> current_timeslot core = current_timeslot (bp_core K) + of_nat (ALGO_N_CORES (bp_st K) * BATCH_SIZE))"
proof -
  obtain c1 t1 where 1: "move_core_to_q_out qo s = Some (c1, t1)" "binv K {..<48} {#} {#} 0 (g + 16) (c1, t1)"
    using wpD [OF move_core_ok [OF inv q(2)]] by auto
  obtain c2 t2 where 2: "(if \<not> is_empty_bin (out_bin c1)
        then core_flush_q_out qo (c1\<lparr> core_stat := adm_log_q_out_flush_batch_finished (core_stat c1) \<rparr>, t1)
        else Some (c1, t1)) = Some (c2, t2)"
      "binv K {..<48} {#} {#} 0 (g + 16) (c2, t2)" "bin_list (out_bin c2) = []"
    using wpD [OF final_flush_out [OF 1(2) q(2)]] by force
  obtain c3 t3 where 3: "(if \<not> is_empty_bin (spent_bin c2)
        then core_flush_q_spent (c2\<lparr> core_stat := adm_log_q_spent_flush_batch_finished (core_stat c2) \<rparr>, t2)
        else Some (c2, t2)) = Some (c3, t3)"
      "binv K {..<48} {#} {#} 0 (g + 16) (c3, t3)" "bin_list (spent_bin c3) = []" "out_bin c3 = out_bin c2"
    using wpD [OF final_flush_spent [OF 2(2)]] by force
  have "qi < length (q_bin t3)" "qo < length (q_bin t3)"
    using 3(2) q by (simp_all add: binv_def frame_inv_def)
  from wpD [OF burst_queue_ok [OF 3(2) this]]
  obtain n t4 where 4: "burst_q_in_to_q_out qi qo (c3, t3) = Some (n, c3, t4)"
      "binv K {..<48} {#} {#} 0 g (c3, t4)"
    using burst_frame [of qi qo "(c3, t3)"] by fastforce
  have cur: "current_timeslot c3 = current_timeslot (bp_core K)" "ALGO_N_CORES t4 = ALGO_N_CORES (bp_st K)"
    using 4(2) by (simp_all add: binv_def frame_inv_def ALGO_N_CORES_def)
  have "binv K {..<48} {#} {#} 0 g
      (c3\<lparr> core_stat := x, current_timeslot := current_timeslot (bp_core K) \<rparr>, t4)" for x
  proof -
    have "c3\<lparr> core_stat := x, current_timeslot := current_timeslot (bp_core K) \<rparr> = c3\<lparr> core_stat := x \<rparr>"
      using cur(1) by (cases c3) simp
    then show ?thesis
      using 4(2) by simp
  qed
  then show ?thesis
    using 1(1) 2(1,3) 3(1,3,4) 4(1) cur by (simp add: batch_wrap_up_def)
qed

end
