(* ===== verification/FP_Alloc_Run.thy ===== *)
theory FP_Alloc_Run
  imports FP_Alloc_Batch
begin

unbundle bit_operations_syntax

text \<open>
  The main loop of \<^verbatim>\<open>seq_get_admissible_traffic\<close> and the batch as a whole: from a state between
  two batches (\<^verbatim>\<open>batch_pre\<close>) the call returns, sends out sixteen timeslots whose traffic forms
  matchings, and accounts for every unit of demand.
\<close>

subsection \<open>Inputs\<close>

lemma binv_allowed_bins [simp]:
  "binv K B X Y h g (core\<lparr> allowed_bins := a \<rparr>, st) = binv K B X Y h g (core, st)"
proof -
  have "edge_inv K B X Y (core\<lparr>allowed_bins := a\<rparr>, st) = edge_inv K B X Y (core, st)"
    by (rule iffI; erule edge_inv_move) (simp_all add: work_edges_def spent_edges_def tslot_def)
  moreover have "match_inv K (core\<lparr>allowed_bins := a\<rparr>, st) = match_inv K (core, st)"
    by (simp add: match_inv_def tslot_def)
  ultimately show ?thesis
    by (simp add: binv_def res_inv_def frame_inv_def)
qed

lemma binv_budget: "binv K B X Y h g s \<Longrightarrow> g' \<le> g \<Longrightarrow> binv K B X Y h g' s"
  using qring_ok_mono [of K g _ g'] by (auto simp: binv_def res_inv_def)

lemma fp_ring_dequeue_cases:
  assumes "ring_wf r"
  obtains "fp_ring_dequeue r = Some (None, r)"
  | b q where "fp_ring_dequeue r = Some (Some b, q)" "ring_wf q" "ring_list r = [b] @ ring_list q"
      "ring_room q = ring_room r" "ring_head q = ring_head r + of_nat (length [b])"
proof (cases "ring_list r")
  case Nil
  then show thesis
    using that(1) fp_ring_dequeue_empty [OF assms] by simp
next
  case (Cons b bs)
  then show thesis
    using that(2) wpD [OF fp_ring_dequeue_ok [OF assms Cons]] by auto
qed

lemma dequeue_input_ok:
  assumes inv: "binv K {} {#} Y 0 (g + 16) (core, st)" and qi: "qi < length (q_bin (bp_st K))"
  shows "wp (do {
      guard_o (qi < length (q_bin st));
      (r, q) \<leftarrow> fp_ring_dequeue (q_bin st ! qi);
      let status = st\<lparr> q_bin := (q_bin st)[qi := q] \<rparr>;
      case r of None \<Rightarrow> Some (l, core, status)
      | Some bin_in \<Rightarrow> do {
          let core = core\<lparr> core_stat := adm_log_dequeued_bin_in (core_stat core) (ucast (bin_size bin_in)) \<rparr>;
          let l = l\<lparr> n_processed := n_processed l + ucast (bin_size bin_in) \<rparr>;
          core \<leftarrow> incoming_bin_to_core bin_in core;
          mp \<leftarrow> fp_mempool_put (bin_mempool status) bin_in;
          Some (l, core, status\<lparr> bin_mempool := mp \<rparr>) } })
    (\<lambda>(l', s'). binv K {} {#} Y 0 g s' \<and> now_timeslot l' = now_timeslot l
       \<and> prev_timeslot l' = prev_timeslot l \<and> admitted_bins l' = admitted_bins l)"
proof -
  have q: "qi < length (q_bin st)"
    using inv qi by (simp add: binv_def frame_inv_def)
  then have "ring_wf (q_bin st ! qi)"
    using inv by (simp add: binv_def res_inv_def qring_ok_def)
  then show ?thesis
  proof (cases rule: fp_ring_dequeue_cases)
    case 1
    then show ?thesis
      using q binv_budget [OF inv, of g] by simp
  next
    case (2 b r)
    let ?st = "st\<lparr> q_bin := (q_bin st)[qi := r] \<rparr>"
    note take = binv_take_q_bin [OF inv q 2(2-5)]
    let ?c = "core\<lparr> core_stat := adm_log_dequeued_bin_in (core_stat core) (ucast (bin_size b)) \<rparr>"
    have "binv K {} ({#} + mset (bin_list b)) Y (Suc 0) g (?c, ?st)" "bin_small b"
      using take by simp_all
    from process_bin_ok [OF this]
    show ?thesis
      using q 2(1) by simp
  qed
qed

lemma handle_inputs_ok:
  assumes inv: "binv K {} {#} Y 0 (g + 16) s"
    and q: "qi < length (q_bin (bp_st K))" "qo < length (q_bin (bp_st K))"
  shows "wp (handle_inputs qi qo l s) (\<lambda>(l', s'). binv K {} {#} Y 0 g s'
    \<and> now_timeslot l' = now_timeslot l \<and> prev_timeslot l' = prev_timeslot l
    \<and> admitted_bins l' = admitted_bins l)"
proof -
  obtain core st where s: "s = (core, st)"
    by (cases s)
  note inv' = inv [unfolded s]
  show ?thesis
  proof (cases "unat (n_processed l) \<ge> MAX_DEMANDS_PER_BATCH (snd s)")
    case True
    have "qi < length (q_bin st)" "qo < length (q_bin st)"
      using inv' q by (simp_all add: binv_def frame_inv_def)
    from wpD [OF burst_queue_ok [OF inv' this]] obtain n c t where
      "burst_q_in_to_q_out qi qo (core, st) = Some (n, c, t)" "binv K {} {#} Y 0 g (c, t)"
      by auto
    then show ?thesis
      using True by (simp add: handle_inputs_def s)
  next
    case False
    show ?thesis
    proof (cases "should_process_new_req l")
      case True
      obtain n c t where p: "process_new_requests (core, st) = Some (n, c, t)" "binv K {} {#} Y 0 (g + 16) (c, t)"
        using wpD [OF process_new_requests_ok [OF inv']] by auto
      show ?thesis
        using dequeue_input_ok [OF p(2) q(1), of "l\<lparr> n_processed := n_processed l + ucast n \<rparr>"] False True p(1)
        by (simp add: handle_inputs_def s del: wp_bind wp_Let)
    next
      case no: False
      show ?thesis
        using dequeue_input_ok [OF inv' q(1), of l] False no
        by (simp add: handle_inputs_def s del: wp_bind wp_Let)
    qed
  qed
qed

subsection \<open>Sending out timeslots\<close>

text \<open>
  The constants of the batch once \<^verbatim>\<open>k\<close> timeslots are out: their traffic is \<^verbatim>\<open>f\<close> and the output
  queue is \<^verbatim>\<open>q\<close>.
\<close>

definition at_sent :: "bparams \<Rightarrow> nat \<Rightarrow> (nat \<Rightarrow> admitted_edge list) \<Rightarrow> nat fp_ring \<Rightarrow> bparams" where
  "at_sent K k f q = K\<lparr> bp_sent := k, bp_snap := f, bp_st := (bp_st K)\<lparr> q_admitted_out := q \<rparr> \<rparr>"

definition sent_inv :: "bparams \<Rightarrow> nat \<Rightarrow> nat \<Rightarrow> cstate \<Rightarrow> bool" where
  "sent_inv K g k s \<longleftrightarrow> (\<exists>f q. binv (at_sent K k f q) {} {#} {#} 0 g s \<and> ring_wf q
     \<and> ring_list q = ring_list (q_admitted_out (bp_st K)) @ map (core_admitted (bp_core K)) [0..<k]
     \<and> ring_room q = ring_room (q_admitted_out (bp_st K)))"

lemma at_sent_simps [simp]:
  "bp_pairs (at_sent K k f q) = bp_pairs K" "bp_need (at_sent K k f q) = bp_need K"
  "bp_bins (at_sent K k f q) = bp_bins K" "bp_clean (at_sent K k f q) = bp_clean K"
  "bp_core (at_sent K k f q) = bp_core K" "bp_sent (at_sent K k f q) = k" "bp_snap (at_sent K k f q) = f"
  "q_bin (bp_st (at_sent K k f q)) = q_bin (bp_st K)" "cores (bp_st (at_sent K k f q)) = cores (bp_st K)"
  "q_admitted_out (bp_st (at_sent K k f q)) = q"
  by (simp_all add: at_sent_def)

lemma sent_inv_op:
  assumes "sent_inv K g k s" and "\<And>f q. binv (at_sent K k f q) {} {#} {#} 0 g s \<Longrightarrow>
    wp m (binv (at_sent K k f q) {} {#} {#} 0 g')"
  shows "wp m (sent_inv K g' k)"
proof -
  from assms(1) obtain f q where fq: "binv (at_sent K k f q) {} {#} {#} 0 g s" "ring_wf q"
      "ring_list q = ring_list (q_admitted_out (bp_st K)) @ map (core_admitted (bp_core K)) [0..<k]"
      "ring_room q = ring_room (q_admitted_out (bp_st K))"
    unfolding sent_inv_def by blast
  show ?thesis
    by (rule wp_mono [OF assms(2) [OF fq(1)]]) (use fq(2-4) in \<open>unfold sent_inv_def, blast\<close>)
qed

lemma edge_inv_disallow:
  assumes "edge_inv K B X Y (core, st)" "bp_clean K' = bp_clean K" "bp_pairs K' = bp_pairs K" "bp_need K' = bp_need K"
    and "\<And>i. bit (allowed_mask (batch_state_disallow_lsb_timeslot (core_batch core))) i \<Longrightarrow> bit (allowed_mask (core_batch core)) i"
  shows "edge_inv K' B X Y (core\<lparr> core_batch := batch_state_disallow_lsb_timeslot (core_batch core) \<rparr>,
      st\<lparr> q_admitted_out := q \<rparr>)"
proof -
  let ?c = "core\<lparr> core_batch := batch_state_disallow_lsb_timeslot (core_batch core) \<rparr>"
  let ?s = "(?c, st\<lparr> q_admitted_out := q \<rparr>)"
  have all: "all_edges B ?s = all_edges B (core, st)" and w: "work_edges ?s = work_edges (core, st)"
    and sp: "spent_edges ?s = spent_edges (core, st)"
    by (simp_all add: all_edges_def work_edges_def spent_edges_def qwork_def qspent_def)
  have srv: "served p ?s = served p (core, st)" for p
    by (simp add: served_def tslot_def)
  have lb: "later_bin core b e \<Longrightarrow> later_bin ?c b e" for b e
    using assms(5) by (auto simp: later_bin_def bit_avail)
  then have ok: "edge_ok K core e \<Longrightarrow> edge_ok K' ?c e" for e
    by (simp add: edge_ok_def assms(2))
  show ?thesis
    using assms(1) lb ok unfolding edge_inv_def all w sp srv assms(3,4) by simp
qed

lemma send_admitted_ok:
  assumes inv: "sent_inv K g k s" and k: "k < 16"
    and room: "length (ring_list (q_admitted_out (bp_st K))) + 16 \<le> ring_room (q_admitted_out (bp_st K))"
  shows "wp (send_admitted k s) (sent_inv K g (Suc k))"
proof -
  obtain core st where s: "s = (core, st)"
    by (cases s)
  from inv obtain f q where b: "binv (at_sent K k f q) {} {#} {#} 0 g (core, st)" and q: "ring_wf q"
      "ring_list q = ring_list (q_admitted_out (bp_st K)) @ map (core_admitted (bp_core K)) [0..<k]"
      "ring_room q = ring_room (q_admitted_out (bp_st K))"
    by (auto simp: sent_inv_def s)
  have fr: "frame_inv (at_sent K k f q) (core, st)" and mat: "match_inv (at_sent K k f q) (core, st)"
    and res: "res_inv (at_sent K k f q) 0 g (core, st)" and edg: "edge_inv (at_sent K k f q) {} {#} {#} (core, st)"
    using b by (simp_all add: binv_def)
  have qa: "q_admitted_out st = q" and adm: "core_admitted core = core_admitted (bp_core K)"
    using fr by (simp_all add: frame_inv_def)
  have "ring_count q = length (ring_list q)"
    by simp
  also have "\<dots> < ring_room q"
    unfolding q(2,3) using room k by simp
  finally obtain q' where q': "fp_ring_enqueue q (core_admitted core k) = Some q'" "ring_wf q'"
      "ring_list q' = ring_list q @ [core_admitted core k]" "ring_room q' = ring_room q"
    using wpD [OF fp_ring_enqueue_ok [OF q(1)]] by blast
  let ?bs = "batch_state_disallow_lsb_timeslot (core_batch core)"
  let ?s = "(core\<lparr> core_batch := ?bs \<rparr>, st\<lparr> q_admitted_out := q' \<rparr>)"
  let ?K = "at_sent K (Suc k) (f(k := tslot (core, st) k)) q'"
  have al: "bit (allowed_mask (core_batch core)) i \<longleftrightarrow> k \<le> i \<and> i < 16" for i
    using mat by (simp add: match_inv_def)
  have al': "bit (allowed_mask ?bs) i \<longleftrightarrow> Suc k \<le> i \<and> i < 16" for i
    unfolding bit_disallow al by linarith
  have "edge_inv ?K {} {#} {#} ?s"
    by (rule edge_inv_disallow [OF edg]) (simp_all add: al al')
  moreover have "res_inv ?K 0 g ?s"
    using res by (simp add: res_inv_def qwork_def qspent_def qring_ok_def)
  moreover have "match_inv ?K ?s"
    using mat al' unfolding match_inv_def by (simp add: tslot_def less_Suc_eq)
  moreover have "frame_inv ?K ?s"
    using fr by (simp add: frame_inv_def at_sent_def)
  ultimately have "binv ?K {} {#} {#} 0 g ?s"
    by (simp add: binv_def)
  moreover have "ring_list q' = ring_list (q_admitted_out (bp_st K)) @ map (core_admitted (bp_core K)) [0..<Suc k]"
    using q'(3) q(2) adm by simp
  ultimately have "sent_inv K g (Suc k) ?s"
    using q' q(3) unfolding sent_inv_def by auto
  then show ?thesis
    using q'(1) by (simp add: send_admitted_def s qa)
qed

subsection \<open>The clock\<close>

lemma sint_u64: "- 9223372036854775808 \<le> n \<Longrightarrow> n < 9223372036854775808 \<Longrightarrow> sint (word_of_int n :: u64) = n"
  by (simp add: signed_of_int signed_take_bit_int_eq_self)

lemma update_allowed_ok:
  "wp (update_allowed first l (core, st)) (\<lambda>(w, l', c, st'). \<not> w \<and> st' = st \<and> (\<exists>a. c = core\<lparr> allowed_bins := a \<rparr>)
     \<and> now_timeslot l' = now_timeslot l \<and> prev_timeslot l' = prev_timeslot l \<and> admitted_bins l' = admitted_bins l)"
proof -
  have ex: "\<exists>a. core = core\<lparr> allowed_bins := a \<rparr>"
    by (rule exI [of _ "allowed_bins core"]) simp
  show ?thesis
    unfolding update_allowed_def by (auto simp: Let_def intro: ex)
qed

lemma sent_inv_allowed [simp]:
  "sent_inv K g k (core\<lparr> allowed_bins := a \<rparr>, st) = sent_inv K g k (core, st)"
  by (simp add: sent_inv_def)

lemma update_allowed_sent:
  assumes "sent_inv K g k s"
  shows "wp (update_allowed first l s) (\<lambda>(w, l', s'). \<not> w \<and> sent_inv K g k s' \<and> now_timeslot l' = now_timeslot l
    \<and> prev_timeslot l' = prev_timeslot l \<and> admitted_bins l' = admitted_bins l)"
  using wpD [OF update_allowed_ok [of first l "fst s" "snd s"]] assms by auto

lemma clock_step_ok:
  assumes inv: "sent_inv K g (i - 32) s" and i: "i < 48"
    and l: "now_timeslot l = first + word_of_int (int i - 32)" "prev_timeslot l \<noteq> now_timeslot l"
      "admitted_bins l = of_nat (i - 32)"
    and room: "length (ring_list (q_admitted_out (bp_st K))) + 16 \<le> ring_room (q_admitted_out (bp_st K))"
  shows "wp (clock_step first l s) (\<lambda>(w, l', s'). (w \<longleftrightarrow> i = 47) \<and> sent_inv K g (Suc i - 32) s'
    \<and> now_timeslot l' = now_timeslot l \<and> prev_timeslot l' = now_timeslot l
    \<and> admitted_bins l' = of_nat (Suc i - 32))"
proof -
  have "now_timeslot l - first + 1 = word_of_int (int i - 31)"
    by (simp add: l(1))
  then have gap: "sint (now_timeslot l - first + 1) = int i - 31"
    using i by (simp only: sint_u64)
  let ?l = "l\<lparr> prev_timeslot := now_timeslot l, should_process_new_req :=
      first - now_timeslot l > URGENT_NUM_TIMESLOTS_END
      \<and> first - now_timeslot l \<le> URGENT_NUM_TIMESLOTS_START \<rparr>"
  show ?thesis
  proof (cases "i < 32")
    case True
    then have "clock_step first l s = update_allowed first ?l s"
      using l(2) by (simp add: clock_step_def Let_def gap)
    moreover have "Suc i - 32 = i - 32"
      using True by simp
    ultimately show ?thesis
      using update_allowed_sent [OF inv, of first ?l] l(3) True by (auto elim!: wp_mono)
  next
    case False
    define k where "k = i - 32"
    have k: "k < 16" "Suc i - 32 = Suc k" "i = k + 32" "int i - 31 = int (Suc k)"
      using False i by (simp_all add: k_def)
    have u: "unat (of_nat k :: u16) = k"
      using k(1) by (simp add: unat_of_nat)
    obtain s' where s': "send_admitted k s = Some s'" "sent_inv K g (Suc k) s'"
      using wpD [OF send_admitted_ok [OF inv [folded k_def] k(1) room]] by auto
    let ?l' = "?l\<lparr> admitted_bins := of_nat (Suc k) \<rparr>"
    have up: "[k..<Suc k] = [k]"
      by simp
    have eq: "(of_nat (Suc k) :: u16) = of_nat BATCH_SIZE \<longleftrightarrow> k = 15"
    proof -
      have "unat (of_nat (Suc k) :: u16) = Suc k" "unat (of_nat BATCH_SIZE :: u16) = 16"
        using k(1) by (simp_all add: unat_of_nat BATCH_SIZE_def del: of_nat_Suc)
      then show ?thesis
        by (auto simp: word_unat_eq_iff simp del: of_nat_Suc)
    qed
    have step: "clock_step first l s =
        (if k = 15 then Some (True, ?l', s') else update_allowed first ?l' s')"
    proof -
      have g: "sint (now_timeslot l - first + 1) = int (Suc k)" and a: "admitted_bins l = of_nat k"
        using gap l(3) by (simp_all only: k(4) k_def)
      have "\<not> int (Suc k) \<le> 0" "\<not> int BATCH_SIZE < int (Suc k)"
        using k(1) by (simp_all add: BATCH_SIZE_def)
      then show ?thesis
        using l(2) s'(1) by (simp add: clock_step_def Let_def g a u eq up del: of_nat_Suc upt_Suc)
    qed
    show ?thesis
    proof (cases "k = 15")
      case True
      then show ?thesis
        using step s'(2) k by (simp del: of_nat_Suc)
    next
      case no: False
      then show ?thesis
        using step update_allowed_sent [OF s'(2), of first ?l'] k(3) unfolding k(2)
        by (auto elim!: wp_mono simp del: of_nat_Suc)
    qed
  qed
qed

subsection \<open>The main loop\<close>

lemma batch_loop_ok:
  assumes "sent_inv K (16 * (48 - i)) (i - 32) s" "i < 48"
    and "now_timeslot l = first + word_of_int (int i - 33)" "prev_timeslot l \<noteq> now_timeslot l + 1"
      "admitted_bins l = of_nat (i - 32)"
    and room: "length (ring_list (q_admitted_out (bp_st K))) + 16 \<le> ring_room (q_admitted_out (bp_st K))"
    and q: "qi < length (q_bin (bp_st K))" "qo < length (q_bin (bp_st K))"
  shows "wp (batch_loop qi qo first l s) (sent_inv K 16 16)"
  using assms(1-5)
proof (induction "48 - i" arbitrary: i l s rule: less_induct)
  case less
  let ?l = "l\<lparr> now_timeslot := now_timeslot l + 1 \<rparr>"
  have now: "now_timeslot ?l = first + word_of_int (int i - 32)"
    by (simp add: less.prems(3))
  have "wp (poll_requests s) (sent_inv K (16 * (48 - i)) (i - 32))"
    by (rule sent_inv_op [OF less.prems(1)], erule poll_requests_ok)
  then obtain s1 where s1: "poll_requests s = Some s1" "sent_inv K (16 * (48 - i)) (i - 32) s1"
    by (auto simp: wp_def)
  obtain w l2 s2 where s2: "clock_step first ?l s1 = Some (w, l2, s2)" "w \<longleftrightarrow> i = 47"
      "sent_inv K (16 * (48 - i)) (Suc i - 32) s2" "now_timeslot l2 = now_timeslot ?l"
      "prev_timeslot l2 = now_timeslot ?l" "admitted_bins l2 = of_nat (Suc i - 32)"
    using wpD [OF clock_step_ok [OF s1(2) less.prems(2) now _ _ room]] less.prems(4,5) by auto
  show ?case
  proof (cases "i = 47")
    case True
    then show ?thesis
      using s1(1) s2 by (subst batch_loop.simps) simp
  next
    case False
    then have i: "Suc i < 48" "48 - Suc i < 48 - i" "16 * (48 - i) = 16 * (48 - Suc i) + 16"
      using less.prems(2) by simp_all
    have "wp (handle_inputs qi qo l2 s2) (\<lambda>(l', s'). sent_inv K (16 * (48 - Suc i)) (Suc i - 32) s'
        \<and> now_timeslot l' = now_timeslot l2 \<and> prev_timeslot l' = prev_timeslot l2
        \<and> admitted_bins l' = admitted_bins l2)"
    proof -
      from s2(3) obtain f r where fr: "binv (at_sent K (Suc i - 32) f r) {} {#} {#} 0 (16 * (48 - Suc i) + 16) s2"
          "ring_wf r" "ring_list r = ring_list (q_admitted_out (bp_st K)) @ map (core_admitted (bp_core K)) [0..<Suc i - 32]"
          "ring_room r = ring_room (q_admitted_out (bp_st K))"
        unfolding sent_inv_def i(3) by blast
      show ?thesis
        by (rule wp_mono [OF handle_inputs_ok [OF fr(1), of qi qo l2]])
           (use q fr(2-4) in \<open>auto simp: sent_inv_def\<close>)
    qed
    then obtain l3 s3 where s3: "handle_inputs qi qo l2 s2 = Some (l3, s3)"
        "sent_inv K (16 * (48 - Suc i)) (Suc i - 32) s3" "now_timeslot l3 = now_timeslot l2"
        "prev_timeslot l3 = prev_timeslot l2" "admitted_bins l3 = admitted_bins l2"
      by (auto simp: wp_def)
    have "wp (try_allocation_core qo s3) (sent_inv K (16 * (48 - Suc i)) (Suc i - 32))"
      by (rule sent_inv_op [OF s3(2)], erule try_allocation_core_ok) (simp add: q(2))
    then obtain s4 where s4: "try_allocation_core qo s3 = Some s4" "sent_inv K (16 * (48 - Suc i)) (Suc i - 32) s4"
      by (auto simp: wp_def)
    have "wp (batch_loop qi qo first l3 s4) (sent_inv K 16 16)"
      by (rule less.hyps [OF i(2) s4(2) i(1)]) (use s2 s3 now in simp_all)
    then show ?thesis
      using s1(1) s2(1,2) s3(1) s4(1) False by (subst batch_loop.simps) simp
  qed
qed

subsection \<open>Between batches\<close>

text \<open>
  \<^verbatim>\<open>pipeline\<close> holds the entries in the queues between two batches. \<^verbatim>\<open>batch_pre\<close> is what a batch
  starts from: well-formed rings with room for every entry, enough bins, empty bins at the
  core, entries with a backlog whose last allocation lies before the batch, and sixteen
  structures for admitted traffic. The first argument says that no traffic leaves the network.
\<close>

definition pipeline :: "seq_admissible_status \<Rightarrow> backlog_edge multiset" where
  "pipeline st = edges_of (qwork st) + edges_of (qspent st)"

definition queues_ok :: "seq_admissible_status \<Rightarrow> bool" where
  "queues_ok st \<longleftrightarrow> ring_wf (q_head st)
     \<and> (\<forall>r \<in> set (q_bin st). ring_wf r \<and> size (pipeline st) \<le> ring_room r
          \<and> unat (ring_head r) + ring_room r + 768 < 4294967296)
     \<and> ring_wf (q_spent st) \<and> size (pipeline st) \<le> ring_room (q_spent st)
     \<and> (\<forall>b \<in># qwork st + qspent st. bin_small b \<and> bin_list b \<noteq> [])"

definition pools_ok :: "seq_admissible_status \<Rightarrow> bool" where
  "pools_ok st \<longleftrightarrow> pool_wf (bin_mempool st) \<and> (\<forall>b \<in> set (pool_list (bin_mempool st)). bin_cap b = 32)
     \<and> size (qwork st) + size (qspent st) + length (pool_list (bin_mempool st)) \<le> pool_size (bin_mempool st)
     \<and> size (pipeline st) \<le> size (qwork st) + size (qspent st) + length (pool_list (bin_mempool st))
     \<and> size (pipeline st) \<le> 65536
     \<and> ring_wf (q_admitted_out st) \<and> length (ring_list (q_admitted_out st)) + 16 \<le> ring_room (q_admitted_out st)
     \<and> pool_wf (admitted_traffic_mempool st) \<and> 16 \<le> length (pool_list (admitted_traffic_mempool st))
     \<and> distinct (pool_list (admitted_traffic_mempool st))"

definition core_ok :: "seq_admission_core_state \<Rightarrow> bool" where
  "core_ok core \<longleftrightarrow> bin_small (out_bin core) \<and> bin_list (out_bin core) = []
     \<and> bin_small (spent_bin core) \<and> bin_list (spent_bin core) = []
     \<and> (\<forall>b < 48. bin_cap (new_request_bins core b) = 65536)"

definition waiting_ok :: "bool \<Rightarrow> u64 \<Rightarrow> backlog_edge \<Rightarrow> bool" where
  "waiting_ok clean cur e \<longleftrightarrow> unat (e_src e) < 256 \<and> unat (e_dst e) < 256 \<and> e_backlog e \<noteq> 0
     \<and> (clean \<longrightarrow> unat (e_dst e) \<noteq> 255) \<and> bin_index_from_timeslot (e_metric e) cur < 32"

definition batch_pre :: "bool \<Rightarrow> nat \<Rightarrow> seq_admissible_status \<Rightarrow> bool" where
  "batch_pre clean ci st \<longleftrightarrow> ci < length (cores st) \<and> length (q_bin st) = length (cores st)
     \<and> \<not> st_oversubscribed st \<and> unat (num_nodes st) \<le> 256
     \<and> (clean \<longrightarrow> st_out_of_boundary_capacity st = 0)
     \<and> queues_ok st \<and> pools_ok st \<and> core_ok (cores st ! ci)
     \<and> (\<forall>e \<in># edges_of (qwork st). waiting_ok clean (current_timeslot (cores st ! ci)) e)
     \<and> (\<forall>e \<in># edges_of (qspent st). spent_ok e)"

lemma fold_init_store:
  assumes "inj_on p {..<n}"
  shows "fold (\<lambda>i store. store(p i := f (store (p i)))) [0..<n] \<sigma> x
    = (if x \<in> p ` {..<n} then f (\<sigma> x) else \<sigma> x)"
  using assms
proof (induction n)
  case (Suc n)
  have "inj_on p (insert n {..<n})"
    using Suc.prems by (simp add: lessThan_Suc)
  then have "inj_on p {..<n}" "p n \<notin> p ` {..<n}"
    by (auto simp: inj_on_insert)
  then show ?case
    using Suc.IH by (auto simp: lessThan_Suc)
qed simp

lemma alloc_core_reset_ok:
  assumes "core_ok core" "unat (num_nodes st) \<le> 256" "\<not> st_oversubscribed st"
  shows "wp (alloc_core_reset (core, st)) (\<lambda>(c, t). t = st \<and> out_bin c = out_bin core
    \<and> spent_bin c = spent_bin core \<and> current_timeslot c = current_timeslot core
    \<and> (\<forall>b < 48. new_request_bins c b = init_bin (new_request_bins core b)) \<and> non_empty_bins c 0 = 0
    \<and> allowed_mask (core_batch c) = batch_mask
    \<and> (\<forall>t < 16. out_of_boundary_counts (core_batch c) t = st_out_of_boundary_capacity st))"
proof -
  obtain bs where bs: "batch_state_init (core_batch core) False (st_inter_rack_capacity st)
        (st_out_of_boundary_capacity st) (num_nodes st) = Some bs"
      "allowed_mask bs = batch_mask" "\<forall>t < 16. out_of_boundary_counts bs t = st_out_of_boundary_capacity st"
    using wpD [OF batch_state_init_ok [OF assms(2)]] by blast
  then show ?thesis
    using assms(1,3)
    by (simp add: alloc_core_reset_def is_empty_bin_iff core_ok_def NUM_BINS_def BATCH_SIZE_def
        BIN_MASK_SIZE_def fill_def)
qed

lemma get_admitted_structs_ok:
  assumes "pools_ok st"
  shows "wp (get_admitted_structs (core, st)) (\<lambda>(c, t). \<exists>ps ca mp store. c = core\<lparr> core_admitted := ca \<rparr>
    \<and> t = st\<lparr> admitted_traffic_mempool := mp, admitted_store := store \<rparr>
    \<and> length ps = 16 \<and> distinct ps \<and> pool_list (admitted_traffic_mempool st) = pool_list mp @ ps \<and> pool_wf mp
    \<and> (\<forall>i < 16. ca i = ps ! i)
    \<and> (\<forall>x. store x = (if x \<in> set ps then init_admitted_traffic (admitted_store st x) else admitted_store st x)))"
proof -
  let ?mp = "admitted_traffic_mempool st"
  have "pool_wf ?mp" "BATCH_SIZE \<le> length (pool_list ?mp)"
    using assms by (simp_all add: pools_ok_def BATCH_SIZE_def)
  from wpD [OF fp_mempool_get_bulk_ok [OF this]] obtain ps mp where
    ps: "fp_mempool_get_bulk ?mp BATCH_SIZE = Some (Some ps, mp)" "length ps = 16" "pool_wf mp"
      "pool_list ?mp = pool_list mp @ ps"
    by (auto simp: BATCH_SIZE_def)
  have dist: "distinct ps"
    using assms ps(4) by (simp add: pools_ok_def)
  define ca where "ca = (\<lambda>i. if i < BATCH_SIZE then ps ! i else core_admitted core i)"
  define store where "store = fold (\<lambda>i store. store(ca i := init_admitted_traffic (store (ca i)))) [0..<BATCH_SIZE] (admitted_store st)"
  have im: "ca ` {..<BATCH_SIZE} = set ps"
    using ps(2) by (auto simp: ca_def BATCH_SIZE_def in_set_conv_nth image_iff)
  have inj: "inj_on ca {..<BATCH_SIZE}"
    using dist ps(2) by (auto simp: ca_def inj_on_def nth_eq_iff_index_eq BATCH_SIZE_def)
  have st: "store x = (if x \<in> set ps then init_admitted_traffic (admitted_store st x) else admitted_store st x)" for x
    using fold_init_store [OF inj, of init_admitted_traffic "admitted_store st" x] unfolding im store_def .
  have eq: "get_admitted_structs (core, st) = Some (core\<lparr> core_admitted := ca \<rparr>,
      st\<lparr> admitted_traffic_mempool := mp, admitted_store := store \<rparr>)"
    by (simp add: get_admitted_structs_def ps(1) store_def ca_def)
  have "\<forall>i < 16. ca i = ps ! i"
    by (simp add: ca_def BATCH_SIZE_def)
  then show ?thesis
    using ps(2-4) dist st unfolding eq wp_Some by blast
qed

subsection \<open>The batch\<close>

definition batch_params :: "bool \<Rightarrow> seq_admissible_status \<Rightarrow> cstate \<Rightarrow> bparams" where
  "batch_params clean st s = \<lparr> bp_pairs = image_mset pair (pipeline st), bp_need = (\<lambda>p. demand p (pipeline st)),
     bp_bins = size (qwork st) + size (qspent st) + length (pool_list (bin_mempool st)), bp_clean = clean,
     bp_sent = 0, bp_snap = (\<lambda>_. []), bp_core = fst s, bp_st = snd s \<rparr>"

lemma start_binv:
  assumes pre: "batch_pre clean ci st"
    and t: "t = st\<lparr> admitted_traffic_mempool := mp, admitted_store := store \<rparr>"
    and c: "out_bin c = out_bin (cores st ! ci)" "spent_bin c = spent_bin (cores st ! ci)"
      "current_timeslot c = current_timeslot (cores st ! ci)"
      "\<forall>b < 48. new_request_bins c b = init_bin (new_request_bins (cores st ! ci) b)" "non_empty_bins c 0 = 0"
      "allowed_mask (core_batch c) = batch_mask"
      "\<forall>t < 16. out_of_boundary_counts (core_batch c) t = st_out_of_boundary_capacity st"
    and ps: "length ps = 16" "distinct ps" "\<forall>i < 16. core_admitted c i = ps ! i"
    and store: "\<forall>x. store x = (if x \<in> set ps then init_admitted_traffic (admitted_store st x) else admitted_store st x)"
  shows "binv (batch_params clean st (c, t)) {} {#} {#} 0 768 (c, t)"
proof -
  let ?K = "batch_params clean st (c, t)" and ?core = "cores st ! ci"
  have p: "core_ok ?core" "queues_ok st" "pools_ok st" "clean \<longrightarrow> st_out_of_boundary_capacity st = 0"
      "\<forall>e \<in># edges_of (qwork st). waiting_ok clean (current_timeslot ?core) e"
      "\<forall>e \<in># edges_of (qspent st). spent_ok e"
    using pre by (simp_all add: batch_pre_def)
  have q: "qwork t = qwork st" "qspent t = qspent st" "bin_mempool t = bin_mempool st" "q_bin t = q_bin st"
      "q_head t = q_head st" "q_spent t = q_spent st" "admitted_store t = store"
    by (simp_all add: t qwork_def qspent_def)
  have empty: "bin_list (out_bin c) = []" "bin_list (spent_bin c) = []"
    using p(1) c(1,2) by (simp_all add: core_ok_def)
  have req: "req_edges {} (new_request_bins c) = {#}"
    unfolding req_edges_def by (rule sum.neutral) (use c(4) in auto)
  have work: "work_edges (c, t) = edges_of (qwork st)" and spent: "spent_edges (c, t) = edges_of (qspent st)"
    by (simp_all add: work_edges_def spent_edges_def q empty)
  have all: "all_edges {} (c, t) = pipeline st"
    by (simp add: all_edges_def work spent req pipeline_def)
  have slot: "tslot (c, t) i = []" if "i < 16" for i
    using that ps(1,3) store by (simp add: tslot_def q)
  have "res_inv ?K 0 768 (c, t)"
    using p(1-3) c(1,2,4) unfolding res_inv_def
    by (simp add: batch_params_def q core_ok_def queues_ok_def pools_ok_def qring_ok_def bin_small_def)
  moreover have "edge_inv ?K {} {#} {#} (c, t)"
    using p(5,6) c(3,4,5) unfolding edge_inv_def
    by (simp add: all work spent batch_params_def served_def slot waiting_ok_def edge_ok_def later_bin_def)
       force
  moreover have "match_inv ?K (c, t)"
  proof -
    have "inj_on (core_admitted c) {..<16}"
      using ps by (auto simp: inj_on_def nth_eq_iff_index_eq)
    then show ?thesis
      using c(6,7) p(4) unfolding match_inv_def
      by (simp add: slot batch_params_def bit_batch_mask)
  qed
  moreover have "frame_inv ?K (c, t)"
    by (simp add: frame_inv_def batch_params_def)
  ultimately show ?thesis
    by (simp add: binv_def)
qed

lemma pipeline_set_core [simp]: "pipeline (set_core st i core) = pipeline st"
  by (simp add: pipeline_def set_core_def qwork_def qspent_def)

lemma served_sum_list:
  assumes "length ps = 16" "\<forall>i < 16. core_admitted (fst s) i = ps ! i"
  shows "served p s = (\<Sum>x\<leftarrow>ps. count (mset (map apair (admitted_list (admitted_store (snd s) x)))) p)"
proof -
  have "(\<Sum>x\<leftarrow>ps. count (mset (map apair (admitted_list (admitted_store (snd s) x)))) p)
      = (\<Sum>t<16. count (mset (map apair (admitted_list (admitted_store (snd s) (ps ! t))))) p)"
    using assms(1) by (simp only: sum_list_sum_nth length_map atLeast0LessThan nth_map cong: sum.cong) simp
  also have "\<dots> = served p s"
    unfolding served_def using assms(2) by (intro sum.cong) (simp_all add: tslot_def)
  finally show ?thesis ..
qed

text \<open>
  What a batch leaves behind: \<^verbatim>\<open>ps\<close> are the structures it sent out.
\<close>

definition batch_post :: "bool \<Rightarrow> nat \<Rightarrow> seq_admissible_status \<Rightarrow> nat list \<Rightarrow> seq_admissible_status \<Rightarrow> bool" where
  "batch_post clean ci st ps st' \<longleftrightarrow> length ps = 16 \<and> distinct ps
     \<and> pool_list (admitted_traffic_mempool st) = pool_list (admitted_traffic_mempool st') @ ps
     \<and> ring_list (q_admitted_out st') = ring_list (q_admitted_out st) @ ps
     \<and> image_mset pair (pipeline st') = image_mset pair (pipeline st)
     \<and> (\<forall>p. demand p (pipeline st')
          + (\<Sum>x\<leftarrow>ps. count (mset (map apair (admitted_list (admitted_store st' x)))) p) = demand p (pipeline st))
     \<and> (\<forall>x \<in> set ps. distinct (map a_src (admitted_list (admitted_store st' x))))
     \<and> (clean \<longrightarrow> (\<forall>x \<in> set ps. distinct (map a_dst (admitted_list (admitted_store st' x)))))
     \<and> (\<forall>x. x \<notin> set ps \<longrightarrow> admitted_store st' x = admitted_store st x)
     \<and> st_backlog st' = st_backlog st \<and> last_alloc_tslot st' = last_alloc_tslot st \<and> new_demands st' = new_demands st
     \<and> (\<exists>core. cores st' = (cores st)[ci := core] \<and> core_ok core
          \<and> current_timeslot core = current_timeslot (cores st ! ci) + of_nat (length (cores st) * 16))
     \<and> size (qwork st') + size (qspent st') + length (pool_list (bin_mempool st'))
         = size (qwork st) + size (qspent st) + length (pool_list (bin_mempool st))"

lemma batch_post_intro:
  assumes K_def: "K = batch_params clean st (c, t)"
    and inv: "binv (at_sent K 16 f q) {..<48} {#} {#} 0 g
      (core\<lparr> current_timeslot := current_timeslot c \<rparr>, u)"
    and core: "bin_list (out_bin core) = []" "bin_list (spent_bin core) = []"
      "current_timeslot core = current_timeslot (cores st ! ci) + of_nat (length (cores st) * 16)"
    and q: "ring_list q = ring_list (q_admitted_out st) @ map (core_admitted c) [0..<16]"
    and t: "t = st\<lparr> admitted_traffic_mempool := mp, admitted_store := store \<rparr>"
      "pool_list (admitted_traffic_mempool st) = pool_list mp @ ps"
    and ps: "length ps = 16" "distinct ps" "\<forall>i < 16. core_admitted c i = ps ! i"
    and store: "\<forall>x. x \<notin> set ps \<longrightarrow> store x = admitted_store st x"
  shows "batch_post clean ci st ps (set_core u ci core)"
proof -
  let ?K = "at_sent K 16 f q" and ?c = "core\<lparr> current_timeslot := current_timeslot c \<rparr>"
  have res: "res_inv ?K 0 g (?c, u)" and edg: "edge_inv ?K {..<48} {#} {#} (?c, u)"
    and mat: "match_inv ?K (?c, u)" and fr: "frame_inv ?K (?c, u)"
    using inv by (simp_all add: binv_def)
  have ca: "\<forall>i < 16. core_admitted core i = ps ! i"
    using fr ps(3) by (simp add: frame_inv_def K_def batch_params_def)
  have map: "map (core_admitted c) [0..<16] = ps"
    using ps by (intro nth_equalityI) simp_all
  have im: "core_admitted c ` {..<16} = set ps"
    using map by (metis atLeast0LessThan atLeast_upt image_set)
  have all: "all_edges {..<48} (?c, u) = pipeline u"
    by (simp add: all_edges_def work_edges_def spent_edges_def req_edges_def pipeline_def core)
  have pairs: "image_mset pair (pipeline u) = image_mset pair (pipeline st)"
    using edg by (simp add: edge_inv_def all K_def batch_params_def)
  have nd: "demand p (pipeline u) + served p (?c, u) = demand p (pipeline st)" for p
    using edg unfolding edge_inv_def all by (cases p) (simp add: K_def batch_params_def)
  have dem: "demand p (pipeline u) + (\<Sum>x\<leftarrow>ps. count (mset (map apair (admitted_list (admitted_store u x)))) p)
      = demand p (pipeline st)" for p
    using served_sum_list [OF ps(1), of "(?c, u)" p] ca nd [of p] by simp
  have slots: "x \<in> set ps \<Longrightarrow> \<exists>i < 16. admitted_list (admitted_store u x) = tslot (?c, u) i" for x
    using ca ps(1) by (force simp: tslot_def in_set_conv_nth)
  have src: "\<forall>x \<in> set ps. distinct (map a_src (admitted_list (admitted_store u x)))"
    using slots mat unfolding match_inv_def by metis
  have dst: "clean \<longrightarrow> (\<forall>x \<in> set ps. distinct (map a_dst (admitted_list (admitted_store u x))))"
  proof
    assume "clean"
    then have "bp_clean ?K"
      by (simp add: K_def batch_params_def)
    then have "\<forall>i < 16. distinct (map a_dst (tslot (?c, u) i))"
      using mat unfolding match_inv_def by blast
    then show "\<forall>x \<in> set ps. distinct (map a_dst (admitted_list (admitted_store u x)))"
      using slots by metis
  qed
  have f: "st_backlog u = st_backlog st" "last_alloc_tslot u = last_alloc_tslot st" "new_demands u = new_demands st"
      "cores u = cores st" "admitted_traffic_mempool u = mp" "q_admitted_out u = q"
      "\<forall>x. x \<notin> set ps \<longrightarrow> admitted_store u x = admitted_store st x"
    using fr store im by (simp_all add: frame_inv_def K_def batch_params_def at_sent_def t(1))
  have cok: "core_ok core"
    using res core(1,2) by (simp add: core_ok_def res_inv_def)
  have cnt: "size (qwork u) + size (qspent u) + length (pool_list (bin_mempool u))
      = size (qwork st) + size (qspent st) + length (pool_list (bin_mempool st))"
    using res by (simp add: res_inv_def K_def batch_params_def)
  have sc: "qwork (set_core u ci core) = qwork u" "qspent (set_core u ci core) = qspent u"
    by (simp_all add: set_core_def qwork_def qspent_def)
  have cs: "\<exists>c. cores (set_core u ci core) = (cores st)[ci := c] \<and> core_ok c
      \<and> current_timeslot c = current_timeslot (cores st ! ci) + of_nat (length (cores st) * 16)"
    using cok core(3) f(4) by (intro exI [of _ core]) (simp add: set_core_def)
  have out: "ring_list (q_admitted_out (set_core u ci core)) = ring_list (q_admitted_out st) @ ps"
    using f(6) q map by (simp add: set_core_def)
  show ?thesis
    unfolding batch_post_def pipeline_set_core sc
    using ps(1,2) t(2) pairs dem src dst f cs cnt out by (simp add: set_core_def)
qed

lemma batch_ok:
  assumes pre: "batch_pre clean ci st"
  shows "\<exists>st' ps. seq_get_admissible_traffic st ci first = Some st' \<and> batch_post clean ci st ps st'"
proof -
  let ?core = "cores st ! ci" and ?qo = "(ci + 1) mod length (cores st)"
  have p: "core_ok ?core" "unat (num_nodes st) \<le> 256" "\<not> st_oversubscribed st" "pools_ok st"
    "ci < length (cores st)" "length (q_bin st) = length (cores st)"
    using pre by (simp_all add: batch_pre_def)
  have qo: "?qo < length (cores st)"
    using p(5) by (intro mod_less_divisor) linarith
  obtain c0 where c0: "alloc_core_reset (?core, st) = Some (c0, st)"
      "out_bin c0 = out_bin ?core" "spent_bin c0 = spent_bin ?core" "current_timeslot c0 = current_timeslot ?core"
      "\<forall>b < 48. new_request_bins c0 b = init_bin (new_request_bins ?core b)" "non_empty_bins c0 0 = 0"
      "allowed_mask (core_batch c0) = batch_mask"
      "\<forall>t < 16. out_of_boundary_counts (core_batch c0) t = st_out_of_boundary_capacity st"
    using wpD [OF alloc_core_reset_ok [OF p(1-3)]] by auto
  obtain ps ca mp store where g: "get_admitted_structs (c0, st) = Some (c0\<lparr> core_admitted := ca \<rparr>,
        st\<lparr> admitted_traffic_mempool := mp, admitted_store := store \<rparr>)"
      and ps: "length ps = 16" "distinct ps" "pool_list (admitted_traffic_mempool st) = pool_list mp @ ps" "pool_wf mp"
        "\<forall>i < 16. ca i = ps ! i"
      and store: "\<forall>x. store x = (if x \<in> set ps then init_admitted_traffic (admitted_store st x) else admitted_store st x)"
    using wpD [OF get_admitted_structs_ok [OF p(4), of c0]] by auto
  define c where "c = c0\<lparr> core_admitted := ca \<rparr>"
  define t where "t = st\<lparr> admitted_traffic_mempool := mp, admitted_store := store \<rparr>"
  let ?K = "batch_params clean st (c, t)"
  have K: "bp_st ?K = t" "bp_core ?K = c"
    by (simp_all add: batch_params_def)
  have ct: "current_timeslot c = current_timeslot ?core"
    by (simp add: c_def c0(4))
  have tf: "q_bin t = q_bin st" "q_admitted_out t = q_admitted_out st" "cores t = cores st"
    by (simp_all add: t_def)
  have bi: "binv ?K {} {#} {#} 0 768 (c, t)"
    by (rule start_binv [OF pre t_def, of c ps]) (use c0 ps store in \<open>simp_all add: c_def\<close>)
  have room: "length (ring_list (q_admitted_out (bp_st ?K))) + 16 \<le> ring_room (q_admitted_out (bp_st ?K))"
    and rwf: "ring_wf (q_admitted_out st)"
    using p(4) by (simp_all add: K tf pools_ok_def)
  have "at_sent ?K 0 (\<lambda>_. []) (q_admitted_out st) = ?K"
    by (simp add: at_sent_def batch_params_def t_def)
  then have si: "sent_inv ?K (16 * (48 - 0)) (0 - 32) (c, t)"
    using bi rwf unfolding sent_inv_def K tf by (intro exI [of _ "\<lambda>_. []"] exI [of _ "q_admitted_out st"]) simp
  let ?l = "\<lparr> prev_timeslot = first - of_nat NUM_BINS - 2, now_timeslot = first - of_nat NUM_BINS - 1,
      processed_bins = 0, admitted_bins = 0, should_process_new_req = False, n_processed = 0 \<rparr>"
  have "wp (batch_loop ci ?qo first ?l (c, t)) (sent_inv ?K 16 16)"
    by (rule batch_loop_ok [OF si _ _ _ _ room]) (use p qo in \<open>simp_all add: K tf NUM_BINS_def\<close>)
  then obtain s1 f q where s1: "batch_loop ci ?qo first ?l (c, t) = Some s1"
      "binv (at_sent ?K 16 f q) {} {#} {#} 0 (0 + 16) s1"
      "ring_list q = ring_list (q_admitted_out st) @ map (core_admitted c) [0..<16]"
    unfolding wp_def sent_inv_def K tf by auto
  have "wp (batch_wrap_up ci ?qo s1) (\<lambda>(core, u). binv (at_sent ?K 16 f q) {..<48} {#} {#} 0 0
      (core\<lparr> current_timeslot := current_timeslot (bp_core (at_sent ?K 16 f q)) \<rparr>, u)
    \<and> bin_list (out_bin core) = [] \<and> bin_list (spent_bin core) = []
    \<and> current_timeslot core = current_timeslot (bp_core (at_sent ?K 16 f q))
        + of_nat (ALGO_N_CORES (bp_st (at_sent ?K 16 f q)) * BATCH_SIZE))"
    by (rule batch_wrap_up_ok [OF s1(2)]) (use p qo in \<open>simp_all add: K tf\<close>)
  then obtain core u where u: "batch_wrap_up ci ?qo s1 = Some (core, u)"
      "binv (at_sent ?K 16 f q) {..<48} {#} {#} 0 0 (core\<lparr> current_timeslot := current_timeslot c \<rparr>, u)"
      "bin_list (out_bin core) = []" "bin_list (spent_bin core) = []"
      "current_timeslot core = current_timeslot ?core + of_nat (length (cores st) * 16)"
    using ct by (auto simp: wp_def K tf ALGO_N_CORES_def BATCH_SIZE_def)
  have "batch_post clean ci st ps (set_core u ci core)"
    by (rule batch_post_intro [OF refl u(2-5) s1(3) t_def ps(3,1,2)]) (use ps store in \<open>simp_all add: c_def\<close>)
  moreover have "seq_get_admissible_traffic st ci first = Some (set_core u ci core)"
    using p(5) c0(1) g s1(1) u(1)
    by (simp add: seq_get_admissible_traffic_def ALGO_N_CORES_def guard_o_def c_def t_def Let_def)
  ultimately show ?thesis
    by blast
qed

end
