(* ===== verification/FP_Alloc_Status.thy ===== *)
theory FP_Alloc_Status
  imports FP_Alloc_Run
begin

unbundle bit_operations_syntax

text \<open>
  The arbiter's side of the allocator: demands coming in (\<^verbatim>\<open>seq_add_backlog\<close>), being flushed
  into the pipeline, and spent entries coming back (\<^verbatim>\<open>seq_handle_spent\<close>). A pair is active
  exactly when one entry for it travels through the system, so the assertion in
  \<^verbatim>\<open>backlog_increase\<close> never fails and no pair is ever listed twice. What is owed to a pair is
  the backlog in the table plus the backlog of its entry; requests add to it and allocated
  timeslots are taken off it.
\<close>

subsection \<open>Definitions: the entry of an active pair\<close>

definition entries :: "seq_admissible_status \<Rightarrow> backlog_edge multiset" where
  "entries st = pipeline st + mset (bin_list (new_demands st))"

definition active :: "backlog \<Rightarrow> u16 \<times> u16 \<Rightarrow> bool" where
  "active bl p = arr_bit (is_active bl) (backlog_index (fst p) (snd p))"

definition pending :: "backlog \<Rightarrow> u16 \<times> u16 \<Rightarrow> nat" where
  "pending bl p = unat (bl_n bl (backlog_index (fst p) (snd p)))"

definition endnodes :: "u16 \<times> u16 \<Rightarrow> bool" where
  "endnodes p \<longleftrightarrow> unat (fst p) < 256 \<and> unat (snd p) < 256"

definition table_ok :: "backlog_edge multiset \<Rightarrow> backlog \<Rightarrow> bool" where
  "table_ok M bl \<longleftrightarrow> (\<forall>e \<in># M. endnodes (pair e))
     \<and> (\<forall>p. endnodes p \<longrightarrow> count (image_mset pair M) p = (if active bl p then 1 else 0)
          \<and> (\<not> active bl p \<longrightarrow> pending bl p = 0))"

definition status_ok :: "seq_admissible_status \<Rightarrow> bool" where
  "status_ok st \<longleftrightarrow> table_ok (entries st) (st_backlog st)"

definition owed :: "seq_admissible_status \<Rightarrow> u16 \<times> u16 \<Rightarrow> nat" where
  "owed st p = pending (st_backlog st) p + demand p (entries st)"

text \<open>
  Room for \<^verbatim>\<open>n\<close> more demands and for \<^verbatim>\<open>h\<close> bins to be returned to the pool.
\<close>

definition demand_room :: "nat \<Rightarrow> nat \<Rightarrow> seq_admissible_status \<Rightarrow> bool" where
  "demand_room n h st \<longleftrightarrow> ring_wf (q_head st) \<and> ring_count (q_head st) + n \<le> ring_room (q_head st)
     \<and> pool_wf (bin_mempool st) \<and> n \<le> length (pool_list (bin_mempool st))
     \<and> length (pool_list (bin_mempool st)) + h \<le> pool_size (bin_mempool st)
     \<and> (\<forall>b \<in> set (pool_list (bin_mempool st)). bin_cap b = 32)
     \<and> bin_small (new_demands st) \<and> length (bin_list (new_demands st)) < 32"

subsection \<open>Enqueueing demands\<close>

lemma qwork_head: "ring_list q = ring_list (q_head st) @ [b] \<Longrightarrow>
    qwork (st\<lparr> q_head := q \<rparr>) = add_mset b (qwork st)"
  by (simp add: qwork_def)

lemma pipeline_fields [simp]:
  "pipeline (st\<lparr> bin_mempool := mp \<rparr>) = pipeline st" "pipeline (st\<lparr> new_demands := b \<rparr>) = pipeline st"
  "pipeline (st\<lparr> st_stat := x \<rparr>) = pipeline st" "pipeline (st\<lparr> st_backlog := bl \<rparr>) = pipeline st"
  "pipeline (st\<lparr> last_alloc_tslot := l \<rparr>) = pipeline st"
  by (simp_all add: pipeline_def qwork_def qspent_def)

lemma flush_backlog_now_ok:
  assumes "ring_wf (q_head st)" "ring_count (q_head st) < ring_room (q_head st)"
    and "pool_wf (bin_mempool st)" "pool_list (bin_mempool st) \<noteq> []"
    and "\<forall>b \<in> set (pool_list (bin_mempool st)). bin_cap b = 32"
  shows "wp (flush_backlog_now st) (\<lambda>st'. \<exists>q mp b. st' = st\<lparr> q_head := q, bin_mempool := mp, new_demands := b \<rparr>
    \<and> ring_wf q \<and> ring_list q = ring_list (q_head st) @ [new_demands st] \<and> ring_room q = ring_room (q_head st)
    \<and> pool_wf mp \<and> pool_size mp = pool_size (bin_mempool st)
    \<and> length (pool_list (bin_mempool st)) = Suc (length (pool_list mp))
    \<and> (\<forall>b \<in> set (pool_list mp). bin_cap b = 32) \<and> bin_small b \<and> bin_list b = [])"
proof -
  obtain q where q: "fp_ring_enqueue (q_head st) (new_demands st) = Some q" "ring_wf q"
      "ring_list q = ring_list (q_head st) @ [new_demands st]" "ring_room q = ring_room (q_head st)"
    using wpD [OF fp_ring_enqueue_ok [OF assms(1,2)]] by blast
  have "wp (fresh_bin (st\<lparr> q_head := q \<rparr>)) (\<lambda>(b, st'). bin_small b \<and> bin_list b = []
    \<and> (\<exists>mp. st' = st\<lparr> q_head := q \<rparr>\<lparr> bin_mempool := mp \<rparr>
    \<and> pool_wf mp \<and> pool_size mp = pool_size (bin_mempool (st\<lparr> q_head := q \<rparr>))
    \<and> length (pool_list (bin_mempool (st\<lparr> q_head := q \<rparr>))) = Suc (length (pool_list mp))
    \<and> (\<forall>b \<in> set (pool_list mp). bin_cap b = 32)))"
    by (rule fresh_bin_ok) (use assms in simp_all)
  then obtain b mp where "fresh_bin (st\<lparr> q_head := q \<rparr>) = Some (b, st\<lparr> q_head := q, bin_mempool := mp \<rparr>)"
      "bin_small b" "bin_list b = []" "pool_wf mp" "pool_size mp = pool_size (bin_mempool st)"
      "length (pool_list (bin_mempool st)) = Suc (length (pool_list mp))"
      "\<forall>b \<in> set (pool_list mp). bin_cap b = 32"
    by (auto simp: wp_def)
  then show ?thesis
    using q by (auto simp: flush_backlog_now_def)
qed

lemma pipeline_flush:
  assumes "ring_list q = ring_list (q_head st) @ [b]"
  shows "pipeline (st\<lparr> q_head := q, bin_mempool := mp, new_demands := c \<rparr>) = pipeline st + mset (bin_list b)"
proof -
  have "pipeline (st\<lparr> q_head := q, bin_mempool := mp, new_demands := c \<rparr>) = pipeline (st\<lparr> q_head := q \<rparr>)"
    by (simp add: pipeline_def qwork_def qspent_def)
  then show ?thesis
    using qwork_head [OF assms] by (simp add: pipeline_def qspent_def ac_simps)
qed

lemma get_status_index_eq: "get_status_index src dst = backlog_index src dst"
  by (simp add: get_status_index_def backlog_index_def)

definition new_entry :: "seq_admissible_status \<Rightarrow> u16 \<Rightarrow> u16 \<Rightarrow> u32 \<Rightarrow> backlog_edge" where
  "new_entry st src dst amount = \<lparr> e_src = src, e_dst = dst, e_backlog = ucast amount,
     e_metric = ucast (last_alloc_tslot st (backlog_index src dst)) \<rparr>"

lemma enqueue_new_demand_ok:
  assumes room: "demand_room (Suc n) h st" and ends: "endnodes (src, dst)"
  shows "wp (enqueue_new_demand st src dst amount) (\<lambda>st'. demand_room n h st'
    \<and> entries st' = add_mset (new_entry st src dst amount) (entries st)
    \<and> st_backlog st' = st_backlog st \<and> last_alloc_tslot st' = last_alloc_tslot st \<and> q_spent st' = q_spent st)"
proof -
  let ?e = "new_entry st src dst amount" and ?nd = "new_demands st"
  have r: "ring_wf (q_head st)" "ring_count (q_head st) < ring_room (q_head st)" "pool_wf (bin_mempool st)"
      "pool_list (bin_mempool st) \<noteq> []" "\<forall>b \<in> set (pool_list (bin_mempool st)). bin_cap b = 32"
      "bin_small ?nd" "length (bin_list ?nd) < 32"
    using room by (auto simp: demand_room_def)
  have small: "bin_wf ?nd" "length (bin_list ?nd) < bin_cap ?nd"
    using r(6,7) by (simp_all add: bin_small_def)
  obtain b where b: "enqueue_bin_edge ?nd ?e = Some b" "bin_wf b" "bin_list b = bin_list ?nd @ [?e]"
      "bin_cap b = bin_cap ?nd"
    using wpD [OF enqueue_bin_edge_ok [OF small]] by blast
  have sz: "unat (bin_size b) = Suc (length (bin_list ?nd))"
    using b(3) length_bin_list [of b] by simp
  have full: "bin_size b = 32 \<longleftrightarrow> Suc (length (bin_list ?nd)) = 32"
    by (simp add: word_unat_eq_iff sz)
  have idx: "backlog_index src dst < NUM_SRC_DST_PAIRS"
    using ends by (intro backlog_index_lt) (simp_all add: endnodes_def)
  show ?thesis
  proof (cases "bin_size b = 32")
    case True
    let ?st = "st\<lparr> new_demands := b, st_stat := adm_log_backlog_flush_bin_full (st_stat st) \<rparr>"
    have "wp (flush_backlog_now ?st) (\<lambda>st'. \<exists>q mp c. st' = ?st\<lparr> q_head := q, bin_mempool := mp, new_demands := c \<rparr>
        \<and> ring_wf q \<and> ring_list q = ring_list (q_head ?st) @ [new_demands ?st] \<and> ring_room q = ring_room (q_head ?st)
        \<and> pool_wf mp \<and> pool_size mp = pool_size (bin_mempool ?st)
        \<and> length (pool_list (bin_mempool ?st)) = Suc (length (pool_list mp))
        \<and> (\<forall>b \<in> set (pool_list mp). bin_cap b = 32) \<and> bin_small c \<and> bin_list c = [])"
      by (rule flush_backlog_now_ok) (use r in simp_all)
    then obtain q mp c where f: "flush_backlog_now ?st = Some (?st\<lparr> q_head := q, bin_mempool := mp, new_demands := c \<rparr>)"
        "ring_wf q" "ring_list q = ring_list (q_head ?st) @ [b]" "ring_room q = ring_room (q_head st)"
        "pool_wf mp" "pool_size mp = pool_size (bin_mempool st)"
        "length (pool_list (bin_mempool st)) = Suc (length (pool_list mp))"
        "\<forall>b \<in> set (pool_list mp). bin_cap b = 32" "bin_small c" "bin_list c = []"
      by (auto simp: wp_def)
    have cnt: "ring_count q = Suc (ring_count (q_head st))"
      using arg_cong [OF f(3), of length] by simp
    have "entries (?st\<lparr> q_head := q, bin_mempool := mp, new_demands := c \<rparr>) = add_mset ?e (entries st)"
      using f(10) b(3) by (simp only: entries_def pipeline_flush [OF f(3)]) simp
    moreover have "demand_room n h (?st\<lparr> q_head := q, bin_mempool := mp, new_demands := c \<rparr>)"
      using room f cnt by (simp add: demand_room_def)
    ultimately show ?thesis
      using b(1) True f(1) idx
      by (simp add: enqueue_new_demand_def enqueue_bin_def new_entry_def get_status_index_eq SMALL_BIN_SIZE_def)
  next
    case False
    have "entries (st\<lparr> new_demands := b \<rparr>) = add_mset ?e (entries st)"
      using b(3) by (simp add: entries_def)
    moreover have "demand_room n h (st\<lparr> new_demands := b \<rparr>)"
      using room b False full by (simp add: demand_room_def bin_small_def)
    ultimately show ?thesis
      using b(1) False idx
      by (simp add: enqueue_new_demand_def enqueue_bin_def new_entry_def get_status_index_eq SMALL_BIN_SIZE_def)
  qed
qed

subsection \<open>The table of backlogs\<close>

lemma active_index_eq:
  assumes "endnodes p" "endnodes (src, dst)"
  shows "backlog_index (fst p) (snd p) = backlog_index src dst \<longleftrightarrow> p = (src, dst)"
  using assms backlog_index_inj [of "snd p" dst "fst p" src] by (cases p) (auto simp: endnodes_def)

lemma table_ok_activate:
  assumes ok: "table_ok M bl" and na: "\<not> active bl (src, dst)" and ends: "endnodes (src, dst)"
    and e: "pair e = (src, dst)"
  shows "table_ok (add_mset e M) (bl\<lparr> is_active := bts (is_active bl) (backlog_index src dst) \<rparr>)"
  using assms active_index_eq [OF _ ends] unfolding table_ok_def active_def pending_def by auto

lemma table_ok_increase:
  assumes ok: "table_ok M bl" and na: "active bl (src, dst)" and ends: "endnodes (src, dst)"
  shows "table_ok M (bl\<lparr> is_active := bts (is_active bl) (backlog_index src dst),
    bl_n := (bl_n bl)(backlog_index src dst := x) \<rparr>)"
  using assms active_index_eq [OF _ ends] unfolding table_ok_def active_def pending_def by auto

lemma table_ok_deactivate:
  assumes ok: "table_ok (add_mset e M) bl" and e: "pair e = (src, dst)" and z: "pending bl (src, dst) = 0"
  shows "table_ok M (bl\<lparr> is_active := arr_unset_bit (is_active bl) (backlog_index src dst) \<rparr>)"
proof -
  have ends: "endnodes (src, dst)" and sub: "\<forall>e \<in># M. endnodes (pair e)"
    using ok e by (auto simp: table_ok_def)
  have "count (image_mset pair (add_mset e M)) (src, dst) \<le> 1"
    using ok ends by (simp add: table_ok_def)
  then have c0: "count (image_mset pair M) (src, dst) = 0"
    using e by simp
  let ?bl = "bl\<lparr> is_active := arr_unset_bit (is_active bl) (backlog_index src dst) \<rparr>"
  have act: "active ?bl p \<longleftrightarrow> p \<noteq> (src, dst) \<and> active bl p" if "endnodes p" for p
    using active_index_eq [OF that ends] by (auto simp: active_def)
  have pend: "pending ?bl p = pending bl p" for p
    by (simp add: pending_def)
  have "count (image_mset pair M) p = (if active ?bl p then 1 else 0) \<and> (\<not> active ?bl p \<longrightarrow> pending ?bl p = 0)"
    if p: "endnodes p" for p
  proof (cases "p = (src, dst)")
    case False
    have "count (image_mset pair (add_mset e M)) p = (if active bl p then 1 else 0) \<and> (\<not> active bl p \<longrightarrow> pending bl p = 0)"
      using ok p unfolding table_ok_def by blast
    then show ?thesis
      using False e p by (simp add: act pend)
  qed (use c0 z p in \<open>simp add: act pend\<close>)
  then show ?thesis
    using sub unfolding table_ok_def by blast
qed

lemma table_ok_renew:
  assumes ok: "table_ok (add_mset e M) bl" and e: "pair e = (src, dst)" "pair e' = (src, dst)"
  shows "table_ok (add_mset e' M) (bl\<lparr> bl_n := (bl_n bl)(backlog_index src dst := 0) \<rparr>)"
  using assms unfolding table_ok_def active_def pending_def by auto

lemma table_ok_reset:
  assumes "table_ok M bl"
  shows "table_ok M (bl\<lparr> bl_n := (bl_n bl)(i := 0) \<rparr>)"
  using assms unfolding table_ok_def active_def pending_def by auto

lemma backlog_get_ok: "endnodes (src, dst) \<Longrightarrow> backlog_get bl src dst = Some (bl_n bl (backlog_index src dst))"
  by (simp add: backlog_get_def guard_o_def backlog_index_lt endnodes_def)

subsection \<open>Adding demands\<close>

lemma seq_add_backlog_ok:
  assumes room: "demand_room 1 h st" and ok: "status_ok st" and ends: "endnodes (src, dst)" and nz: "amount \<noteq> 0"
  shows "wp (seq_add_backlog st src dst amount) (\<lambda>st'. status_ok st' \<and> demand_room 0 h st'
    \<and> (unat amount < 65536 \<longrightarrow> pending (st_backlog st) (src, dst) + unat amount < 4294967296 \<longrightarrow>
        (\<forall>p. endnodes p \<longrightarrow> owed st' p = owed st p + (if p = (src, dst) then unat amount else 0)))
    \<and> q_spent st' = q_spent st)"
proof -
  let ?i = "backlog_index src dst" and ?bl = "st_backlog st"
  have idx: "?i < NUM_SRC_DST_PAIRS"
    using ends by (intro backlog_index_lt) (simp_all add: endnodes_def)
  have act: "arr_bit (is_active ?bl) ?i = active ?bl (src, dst)"
    by (simp add: active_def)
  show ?thesis
  proof (cases "active ?bl (src, dst)")
    case True
    let ?bl' = "?bl\<lparr> is_active := bts (is_active ?bl) ?i, bl_n := (bl_n ?bl)(?i := bl_n ?bl ?i + amount) \<rparr>"
    define st' where "st' = st\<lparr> st_backlog := ?bl', st_stat :=
      adm_log_increased_backlog_atomically (st_stat st) amount (bl_n ?bl ?i + amount) \<rparr>"
    have ent: "entries st' = entries st"
      by (simp add: st'_def entries_def pipeline_def qwork_def qspent_def)
    have "status_ok st'"
      using table_ok_increase [OF _ True ends] ok by (simp add: status_ok_def ent) (simp add: st'_def)
    moreover have "demand_room 0 h st'"
      using room by (simp add: demand_room_def st'_def)
    moreover have "owed st' p = owed st p + (if p = (src, dst) then unat amount else 0)"
      if "endnodes p" "pending ?bl (src, dst) + unat amount < 4294967296" for p
    proof -
      have "unat (bl_n ?bl ?i + amount) = unat (bl_n ?bl ?i) + unat amount"
        using that(2) by (simp add: pending_def unat_word_ariths)
      then show ?thesis
        using active_index_eq [OF that(1) ends]
        by (auto simp: owed_def ent) (simp_all add: st'_def pending_def)
    qed
    moreover have "seq_add_backlog st src dst amount = Some st'"
      using nz idx True by (simp add: seq_add_backlog_def backlog_increase_def act st'_def guard_o_def Let_def)
    ultimately show ?thesis
      by (simp add: st'_def)
  next
    case False
    let ?bl' = "?bl\<lparr> is_active := bts (is_active ?bl) ?i \<rparr>"
    have z: "bl_n ?bl ?i = 0"
      using ok ends False by (simp add: status_ok_def table_ok_def pending_def unat_eq_zero)
    define st1 where "st1 = st\<lparr> st_backlog := ?bl', st_stat :=
      adm_log_increased_backlog_to_queue (st_stat st) amount amount \<rparr>"
    have ent1: "entries st1 = entries st"
      by (simp add: st1_def entries_def pipeline_def qwork_def qspent_def)
    have "demand_room (Suc 0) h st1"
      using room by (simp add: demand_room_def st1_def)
    from wpD [OF enqueue_new_demand_ok [OF this ends, of amount]] obtain st' where
      st': "enqueue_new_demand st1 src dst amount = Some st'" "demand_room 0 h st'"
        "entries st' = add_mset (new_entry st1 src dst amount) (entries st)" "st_backlog st' = ?bl'"
        "q_spent st' = q_spent st"
      by (auto simp: ent1) (simp add: st1_def)
    have pr: "pair (new_entry st1 src dst amount) = (src, dst)"
      by (simp add: pair_def new_entry_def)
    have "status_ok st'"
      using table_ok_activate [OF _ False ends pr] ok by (simp add: status_ok_def st'(3,4))
    moreover have "owed st' p = owed st p + (if p = (src, dst) then unat amount else 0)"
      if "unat amount < 65536" for p
    proof -
      have "unat (ucast amount :: u16) = unat amount"
        using that by (simp add: unsigned_ucast_eq take_bit_eq_mod)
      then have "unat (e_backlog (new_entry st1 src dst amount)) = unat amount"
        by (simp add: new_entry_def)
      then show ?thesis
        by (auto simp: owed_def st'(3,4) pr) (simp_all add: pending_def)
    qed
    moreover have "seq_add_backlog st src dst amount = Some st'"
      using nz idx False z st'(1) by (simp add: seq_add_backlog_def backlog_increase_def act st1_def guard_o_def Let_def)
    ultimately show ?thesis
      using st'(2,5) by simp
  qed
qed

subsection \<open>Spent entries\<close>

text \<open>
  \<^verbatim>\<open>spending X Y n h\<close> holds while spent entries are worked through: \<^verbatim>\<open>X\<close> are those still in hand, and
  \<^verbatim>\<open>base\<close> is what was owed at the start (kept as long as the backlogs fit in 16 bits).
\<close>

definition spending :: "backlog_edge multiset \<Rightarrow> nat \<Rightarrow> nat \<Rightarrow> (u16 \<times> u16 \<Rightarrow> nat) \<Rightarrow> bin fp_ring
    \<Rightarrow> seq_admissible_status \<Rightarrow> bool" where
  "spending X n h base q st \<longleftrightarrow> table_ok (entries st + X) (st_backlog st) \<and> (\<forall>e \<in># X. spent_ok e)
     \<and> demand_room n h st \<and> q_spent st = q
     \<and> ((\<forall>p. endnodes p \<longrightarrow> base p < 65536) \<longrightarrow> (\<forall>p. endnodes p \<longrightarrow> owed st p = base p))"

lemma demand_room_mono: "demand_room n h st \<Longrightarrow> n' \<le> n \<Longrightarrow> h' \<le> h \<Longrightarrow> demand_room n' h' st"
  by (simp add: demand_room_def)

lemma handle_spent_edge_ok:
  assumes inv: "spending (add_mset e X) (Suc n) h base q st"
  shows "wp (handle_spent_edge e st) (spending X n h base q)"
proof -
  let ?src = "e_src e" and ?dst = "e_dst e" and ?bl = "st_backlog st"
  let ?i = "backlog_index ?src ?dst"
  have tab: "table_ok (add_mset e (entries st + X)) ?bl" and room: "demand_room (Suc n) h st"
    and sp: "spent_ok e" "\<forall>e \<in># X. spent_ok e" and q: "q_spent st = q"
    and own: "(\<forall>p. endnodes p \<longrightarrow> base p < 65536) \<longrightarrow> (\<forall>p. endnodes p \<longrightarrow> owed st p = base p)"
    using inv unfolding spending_def by simp_all
  have pr: "pair e = (?src, ?dst)"
    by (simp add: pair_def)
  have ends: "endnodes (?src, ?dst)" and z: "e_backlog e = 0"
    using sp(1) by (simp_all add: spent_ok_def endnodes_def)
  have idx: "?i < NUM_SRC_DST_PAIRS"
    using ends by (intro backlog_index_lt) (simp_all add: endnodes_def)
  show ?thesis
  proof (cases "bl_n ?bl ?i = 0")
    case True
    let ?bl' = "?bl\<lparr> is_active := arr_unset_bit (is_active ?bl) ?i \<rparr>"
    define st' where "st' = st\<lparr> last_alloc_tslot := (last_alloc_tslot st)(?i := ucast (e_metric e)), st_backlog := ?bl' \<rparr>"
    have ent: "entries st' = entries st"
      by (simp add: st'_def entries_def pipeline_def qwork_def qspent_def)
    have "table_ok (entries st + X) ?bl'"
      by (rule table_ok_deactivate [OF tab pr]) (simp add: pending_def True)
    moreover have "owed st' p = owed st p" for p
      by (simp add: owed_def ent) (simp add: st'_def pending_def)
    moreover have "demand_room n h st'"
      using demand_room_mono [OF room, of n h] by (simp add: demand_room_def st'_def)
    ultimately have "spending X n h base q st'"
      using sp(2) own q by (simp add: spending_def ent) (simp add: st'_def)
    moreover have "handle_spent_edge e st = Some st'"
      using idx True by (simp add: handle_spent_edge_def backlog_get_ok [OF ends] backlog_non_active_def
          get_status_index_eq guard_o_def st'_def Let_def)
    ultimately show ?thesis
      by simp
  next
    case False
    let ?bl' = "?bl\<lparr> bl_n := (bl_n ?bl)(?i := 0) \<rparr>"
    define st1 where "st1 = st\<lparr> st_backlog := ?bl' \<rparr>"
    have st1: "entries st1 = entries st" "q_spent st1 = q"
      by (simp_all add: st1_def entries_def q)
    have "demand_room (Suc n) h st1"
      using room by (simp add: demand_room_def st1_def)
    from wpD [OF enqueue_new_demand_ok [OF this ends, of "bl_n ?bl ?i"]] obtain st' where
      st': "enqueue_new_demand st1 ?src ?dst (bl_n ?bl ?i) = Some st'" "demand_room n h st'"
        "entries st' = add_mset (new_entry st1 ?src ?dst (bl_n ?bl ?i)) (entries st)" "st_backlog st' = ?bl'"
        "q_spent st' = q"
      by (auto simp: st1) (simp add: st1_def)
    let ?e' = "new_entry st1 ?src ?dst (bl_n ?bl ?i)"
    have pr': "pair ?e' = (?src, ?dst)"
      by (simp add: pair_def new_entry_def)
    have "table_ok (entries st' + X) (st_backlog st')"
      using table_ok_renew [OF tab pr pr'] by (simp add: st'(3,4))
    moreover have "owed st' p = owed st p" if "unat (bl_n ?bl ?i) < 65536" "endnodes p" for p
    proof -
      have "unat (e_backlog ?e') = unat (bl_n ?bl ?i)"
        using that(1) by (simp add: new_entry_def unsigned_ucast_eq take_bit_eq_mod)
      then show ?thesis
        using active_index_eq [OF that(2) ends]
        by (auto simp: owed_def st'(3,4) pr') (simp_all add: pending_def)
    qed
    moreover have "unat (bl_n ?bl ?i) < 65536" if "\<forall>p. endnodes p \<longrightarrow> base p < 65536"
    proof -
      have "pending ?bl (?src, ?dst) \<le> owed st (?src, ?dst)"
        by (simp add: owed_def)
      then show ?thesis
        using own that ends by (fastforce simp: pending_def)
    qed
    ultimately have "spending X n h base q st'"
      using sp(2) own st'(2,5) by (simp add: spending_def)
    moreover have "handle_spent_edge e st = Some st'"
      using idx False st'(1) by (simp add: handle_spent_edge_def backlog_get_ok [OF ends] backlog_reset_pair_def
          guard_o_def st1_def Let_def)
    ultimately show ?thesis
      by simp
  qed
qed

lemma handle_spent_edges_ok:
  assumes "spending (mset es + X) (length es + n) h base q st"
  shows "wp (foldo handle_spent_edge es st) (spending X n h base q)"
  using assms
proof (induction es arbitrary: st)
  case (Cons e es)
  then have "wp (handle_spent_edge e st) (spending (mset es + X) (length es + n) h base q)"
    by (intro handle_spent_edge_ok) simp
  then show ?case
    unfolding foldo.simps wp_bind by (rule wp_mono) (rule Cons.IH)
qed simp

lemma handle_spent_bin_ok:
  assumes "spending (mset (bin_list b) + X) (length (bin_list b) + n) (Suc h) base q st" "bin_cap b = 32"
  shows "wp (handle_spent_bin b (k, m, st)) (\<lambda>(k', m', st'). k' = k + bin_size b \<and> m' = m + 1 \<and> spending X n h base q st')"
proof -
  have l: "bin_list b = map (bin_get b) [0..<unat (bin_size b)]"
    by (simp add: bin_list_def bin_get_def)
  obtain st1 where st1: "foldo (\<lambda>i. handle_spent_edge (bin_get b i)) [0..<unat (bin_size b)] st = Some st1"
      "spending X n (Suc h) base q st1"
    using wpD [OF handle_spent_edges_ok [OF assms(1)]] unfolding l foldo_map by blast
  have r: "demand_room n (Suc h) st1"
    using st1(2) by (simp add: spending_def)
  then have "pool_wf (bin_mempool st1)" "length (pool_list (bin_mempool st1)) < pool_size (bin_mempool st1)"
    by (simp_all add: demand_room_def)
  from wpD [OF fp_mempool_put_ok [OF this, of b]] obtain mp where mp: "fp_mempool_put (bin_mempool st1) b = Some mp"
      "pool_wf mp" "pool_list mp = pool_list (bin_mempool st1) @ [b]" "pool_size mp = pool_size (bin_mempool st1)"
    by blast
  have "entries (st1\<lparr> bin_mempool := mp \<rparr>) = entries st1"
    by (simp add: entries_def)
  moreover have "demand_room n h (st1\<lparr> bin_mempool := mp \<rparr>)"
    using r mp assms(2) by (auto simp: demand_room_def)
  ultimately have "spending X n h base q (st1\<lparr> bin_mempool := mp \<rparr>)"
    using st1(2) by (simp add: spending_def owed_def)
  then show ?thesis
    by (simp add: handle_spent_bin_def st1(1) mp(1))
qed

lemma handle_spent_bins_ok:
  assumes "spending (edges_of (mset bs) + X) (size (edges_of (mset bs)) + n) (length bs + h) base q st"
    and "\<forall>b \<in> set bs. bin_cap b = 32"
  shows "wp (foldo handle_spent_bin bs (k, m, st)) (\<lambda>(k', m', st'). spending X n h base q st')"
  using assms
proof (induction bs arbitrary: st k m)
  case (Cons b bs)
  have "wp (handle_spent_bin b (k, m, st)) (\<lambda>(k', m', st'). k' = k + bin_size b \<and> m' = m + 1
      \<and> spending (edges_of (mset bs) + X) (size (edges_of (mset bs)) + n) (length bs + h) base q st')"
    using Cons.prems by (intro handle_spent_bin_ok) (simp_all add: ac_simps)
  then show ?case
    unfolding foldo.simps wp_bind by (rule wp_mono) (use Cons.IH Cons.prems(2) in auto)
qed simp

text \<open>The spent bins one call works through.\<close>

definition spent_burst :: "seq_admissible_status \<Rightarrow> bin list" where
  "spent_burst st = take 256 (ring_list (q_spent st))"

lemma seq_handle_spent_ok:
  assumes ok: "status_ok st" and wf: "ring_wf (q_spent st)"
    and sp: "\<forall>b \<in> set (spent_burst st). bin_cap b = 32 \<and> (\<forall>e \<in> set (bin_list b). spent_ok e)"
    and room: "demand_room (n + size (edges_of (mset (spent_burst st)))) (length (spent_burst st) + h) st"
  shows "wp (seq_handle_spent st) (\<lambda>st'. status_ok st' \<and> demand_room n h st'
    \<and> ((\<forall>p. endnodes p \<longrightarrow> owed st p < 65536) \<longrightarrow> (\<forall>p. endnodes p \<longrightarrow> owed st' p = owed st p))
    \<and> ring_list (q_spent st') = drop 256 (ring_list (q_spent st)))"
proof -
  let ?bs = "spent_burst st"
  obtain q where q: "fp_ring_dequeue_burst (q_spent st) SPENT_RING_DEQUEUE_SIZE = Some (?bs, q)"
      "ring_list q = drop 256 (ring_list (q_spent st))"
    using wpD [OF fp_ring_dequeue_burst_ok [OF wf, of SPENT_RING_DEQUEUE_SIZE]]
    by (auto simp: spent_burst_def SPENT_RING_DEQUEUE_SIZE_def)
  let ?st = "st\<lparr> q_spent := q \<rparr>"
  have split: "mset (ring_list (q_spent st)) = mset ?bs + mset (ring_list q)"
    by (metis append_take_drop_id mset_append q(2) spent_burst_def)
  have ent: "entries ?st + edges_of (mset ?bs) = entries st"
    unfolding entries_def pipeline_def qwork_def qspent_def by (simp add: split ac_simps)
  have spE: "\<forall>e \<in># edges_of (mset ?bs). spent_ok e"
    using sp by (auto simp: edges_of_def)
  have "demand p (edges_of (mset ?bs)) = 0" for p
    using spE by (auto simp: demand_def spent_ok_def intro!: sum_mset.neutral)
  then have own: "owed ?st p = owed st p" for p
    using arg_cong [OF ent, of "demand p"] by (simp add: owed_def)
  have "spending (edges_of (mset ?bs) + {#}) (size (edges_of (mset ?bs)) + n) (length ?bs + h) (owed st) q ?st"
    using ok spE room ent own by (simp add: spending_def status_ok_def demand_room_def ac_simps)
  from wpD [OF handle_spent_bins_ok [OF this, of 0 0]] sp obtain k m st' where
    st': "foldo handle_spent_bin ?bs (0, 0, ?st) = Some (k, m, st')" "spending {#} n h (owed st) q st'"
    by auto
  let ?st' = "st'\<lparr> st_stat := adm_log_processed_spent_demands (st_stat st') m k \<rparr>"
  have ent': "entries ?st' = entries st'"
    by (simp add: entries_def)
  have "status_ok ?st'" "demand_room n h ?st'" "ring_list (q_spent ?st') = drop 256 (ring_list (q_spent st))"
    "(\<forall>p. endnodes p \<longrightarrow> owed st p < 65536) \<longrightarrow> (\<forall>p. endnodes p \<longrightarrow> owed ?st' p = owed st p)"
    using st'(2) q(2) by (simp_all add: spending_def status_ok_def demand_room_def owed_def ent')
  then show ?thesis
    by (simp add: seq_handle_spent_def q(1) st'(1))
qed

end
