(* ===== verification/FP_Prio.thy ===== *)
theory FP_Prio
  imports FP_Alloc
begin

unbundle bit_operations_syntax

text \<open>
  Which bin a flow goes to. \<^verbatim>\<open>bin_index_from_timeslot\<close> turns the time since a flow's last
  allocation into a bin by shifts and masks; \<^verbatim>\<open>bin_of_gap\<close> says what this computes: the gaps up
  to 32 go to the bins 47 down to 15, one each, then four groups of sixteen gaps are folded two, four,
  eight and sixteen to a bin from bin 15 on, and everything older shares bin 0. The comment in the code
  describes another folding, of groups of 64 bins, and the test \<^verbatim>\<open>test_bin_computation.c\<close> expects the
  next bin up for the gaps up to 32.
\<close>

subsection \<open>Definitions: the bins by arithmetic\<close>

definition bin_of_gap :: "nat \<Rightarrow> nat" where
  "bin_of_gap gap =
     (if gap \<le> 32 then 47 - gap
      else (let g = (gap - 33) div 16; r = (gap - 33) mod 16
            in if g < 4 then 2 ^ (4 - g) - 1 - r div 2 ^ (1 + g) else 0))"

definition flow_gap :: "u32 \<Rightarrow> u64 \<Rightarrow> nat" where
  "flow_gap last_allocated cur = unat ((ucast (cur + 16) :: u32) - last_allocated)"

definition folded_bin :: "u32 \<Rightarrow> nat" where
  "folded_bin gap =
    (let group_ind = (ucast (drop_bit 4 gap) :: u16);
         bin_gap = (ucast (drop_bit ((1 + unat group_ind) mod 64)
                      (push_bit 5 (NOT (0 :: u64)) OR (ucast gap AND 15))) :: u16);
         is_large_gap = (if unat group_ind \<ge> 4 then 1 else 0 :: u16);
         bin_gap = bin_gap OR (push_bit 15 1 - is_large_gap)
     in 15 - unat (bin_gap AND 15))"

subsection \<open>The folded groups\<close>

lemma folded_small: "list_all (\<lambda>n. folded_bin (of_nat n) = (let g = n div 16; r = n mod 16 in 2 ^ (4 - g) - 1 - r div 2 ^ (1 + g))) [0..<64]"
  by code_simp

lemma folded_large:
  assumes "64 \<le> unat gap" "unat gap < 1048576"
  shows "folded_bin gap = 0"
proof -
  have "unat (drop_bit 4 gap) = unat gap div 16"
    by (simp add: drop_bit_eq_div unat_div)
  moreover have "unat gap div 16 < 65536" "4 \<le> unat gap div 16"
    using assms by (simp_all add: div_less_iff_less_mult)
  ultimately have g: "4 \<le> unat (ucast (drop_bit 4 gap) :: u16)"
    by (simp add: unsigned_ucast_eq take_bit_eq_mod)
  have "(x OR 0x7FFF) AND 15 = 15" for x :: u16
  proof -
    have "(x OR 0x7FFF) AND 15 = (x AND 15) OR (0x7FFF AND 15)"
      by (rule bit.conj_disj_distrib2)
    also have "\<dots> = (x AND 15) OR 15" by simp
    also have "\<dots> = 15" by (rule bit_eqI) (auto simp: bit_or_iff bit_and_iff)
    finally show ?thesis .
  qed
  then show ?thesis
    using g by (simp add: folded_bin_def Let_def)
qed

lemma bin_index_eq:
  assumes "flow_gap last_allocated cur < 1048576 + 33"
  shows "bin_index_from_timeslot last_allocated cur = bin_of_gap (flow_gap last_allocated cur)"
proof -
  define gap where "gap = (ucast (cur + 16) :: u32) - last_allocated"
  have i: "bin_index_from_timeslot last_allocated cur = (if gap \<le> 32 then 47 - unat gap else folded_bin (gap - 33))"
    by (simp add: bin_index_from_timeslot_def folded_bin_def BATCH_SIZE_def NUM_BINS_def BATCH_SHIFT_def gap_def Let_def)
  have le: "gap \<le> 32 \<longleftrightarrow> unat gap \<le> 32"
    by (simp add: word_le_nat_alt)
  have fg: "flow_gap last_allocated cur = unat gap"
    by (simp add: flow_gap_def gap_def)
  show ?thesis
  proof (cases "unat gap \<le> 32")
    case True
    then show ?thesis by (simp add: i le fg bin_of_gap_def)
  next
    case False
    then have u: "unat (gap - 33) = unat gap - 33"
      by (simp add: unat_sub_if')
    show ?thesis
    proof (cases "unat (gap - 33) < 64")
      case small: True
      then have "folded_bin (of_nat (unat (gap - 33))) = (let g = unat (gap - 33) div 16; r = unat (gap - 33) mod 16
          in 2 ^ (4 - g) - 1 - r div 2 ^ (1 + g))"
        using folded_small unfolding list_all_iff by (metis atLeastLessThan_iff le0 set_upt)
      moreover have "unat (gap - 33) div 16 < 4"
        using small by simp
      ultimately show ?thesis
        using False by (simp add: i le fg bin_of_gap_def u Let_def)
    next
      case large: False
      moreover have "\<not> (unat gap - 33) div 16 < 4"
        using large u by simp
      ultimately show ?thesis
        using False folded_large [of "gap - 33"] assms by (simp add: i le fg bin_of_gap_def u)
    qed
  qed
qed

subsection \<open>Older flows go to earlier bins\<close>

lemma bin_of_gap_small: "sorted (rev (map bin_of_gap [0..<98]))"
  by code_simp

lemma bin_of_gap_antimono:
  assumes "g \<le> g'"
  shows "bin_of_gap g' \<le> bin_of_gap g"
proof (cases "g' < 98")
  case True
  have "rev (map bin_of_gap [0..<98]) ! (97 - g') \<le> rev (map bin_of_gap [0..<98]) ! (97 - g)"
    using assms True by (intro sorted_nth_mono [OF bin_of_gap_small]) simp_all
  then show ?thesis
    using assms True by (simp add: rev_nth)
next
  case False
  then have "bin_of_gap g' = 0"
    by (simp add: bin_of_gap_def Let_def)
  then show ?thesis by simp
qed

text \<open>
  C25: within the range of the 16-bit group index, the bit manipulation of
  \<^verbatim>\<open>bin_index_from_timeslot\<close> computes \<^verbatim>\<open>bin_of_gap\<close>, the folding described above, and a flow that has
  waited longer is never put in a later bin than one that has waited less. A flow of the first timeslot
  of the batch is in bin \<^verbatim>\<open>NUM_BINS - 1\<close>, where \<^verbatim>\<open>test_bin_computation.c\<close> asserts \<^verbatim>\<open>NUM_BINS\<close>.
\<close>

theorem bin_index_priority:
  assumes "flow_gap last1 cur \<le> flow_gap last2 cur" "flow_gap last2 cur < 1048609"
  shows "bin_index_from_timeslot last1 cur = bin_of_gap (flow_gap last1 cur)
    \<and> bin_index_from_timeslot last2 cur = bin_of_gap (flow_gap last2 cur)
    \<and> bin_index_from_timeslot last2 cur \<le> bin_index_from_timeslot last1 cur
    \<and> bin_index_from_timeslot (ucast cur) cur = NUM_BINS - 1"
proof -
  have "(ucast (cur + 16) :: u32) = ucast cur + 16"
    by (simp add: word_unat_eq_iff unsigned_ucast_eq take_bit_eq_mod unat_word_ariths mod_mod_cancel mod_add_left_eq)
  then have "flow_gap (ucast cur) cur = 16"
    by (simp add: flow_gap_def)
  then have "bin_index_from_timeslot (ucast cur) cur = NUM_BINS - 1"
    by (simp add: bin_index_eq bin_of_gap_def NUM_BINS_def)
  then show ?thesis
    using assms bin_index_eq [of last1 cur] bin_index_eq [of last2 cur] bin_of_gap_antimono by simp
qed

theorem bin_index_priority_witness:
  "bin_index_from_timeslot 100 400 \<le> bin_index_from_timeslot 380 400
    \<and> bin_index_from_timeslot 380 400 = 14 \<and> bin_index_from_timeslot 100 400 = 0 \<and> bin_index_from_timeslot 400 400 = 31"
proof -
  have g: "flow_gap 380 400 = 36" "flow_gap 100 400 = 316"
    by (simp_all add: flow_gap_def)
  show ?thesis
    using bin_index_priority [of 380 400 100] by (simp add: g) (simp add: bin_of_gap_def NUM_BINS_def)
qed

text \<open>
  Past that range the index wraps: a flow that waited 2^20 timeslots longer than another of bin
  15 shares its bin, although the comment in the code reserves the last bin for all older flows.
\<close>

lemma bin_index_wraps: "flow_gap 0 1048593 = 1048609 \<and> bin_index_from_timeslot 0 1048593 = 15 \<and> bin_of_gap 1048609 = 0"
  by (simp add: flow_gap_def bin_of_gap_def bin_index_from_timeslot_def BATCH_SIZE_def NUM_BINS_def BATCH_SHIFT_def
      Let_def drop_bit_eq_div, code_simp)

end
