(* ===== verification/FP_Alloc_Spec.thy ===== *)
theory FP_Alloc_Spec
  imports FP_Alloc_Status FP_Prio
begin

unbundle bit_operations_syntax

text \<open>
  The allocator as a whole. \<^verbatim>\<open>alloc_run\<close> is any sequence of the arbiter's calls (requests,
  flushes, spent entries, resets of a sender) and batches; it counts what each pair requested
  and what it was given. The properties of the allocator are stated at the end, each with
  a concrete status on which its hypotheses hold.
\<close>

subsection \<open>Definitions: sequences of calls\<close>

text \<open>The timeslots a batch added to the output queue, for a pair.\<close>

definition granted :: "seq_admissible_status \<Rightarrow> seq_admissible_status \<Rightarrow> u16 \<times> u16 \<Rightarrow> nat" where
  "granted st st' p = (\<Sum>x\<leftarrow>drop (ring_count (q_admitted_out st)) (ring_list (q_admitted_out st')).
     length (filter (\<lambda>a. apair a = p) (admitted_list (admitted_store st' x))))"

inductive alloc_run :: "seq_admissible_status \<Rightarrow> (u16 \<times> u16 \<Rightarrow> nat) \<Rightarrow> (u16 \<times> u16 \<Rightarrow> nat)
    \<Rightarrow> seq_admissible_status \<Rightarrow> bool" for st0 where
  start: "alloc_run st0 (\<lambda>_. 0) (\<lambda>_. 0) st0"
| request: "\<lbrakk>alloc_run st0 req got st; demand_room 1 0 st; endnodes (src, dst); amount \<noteq> 0; unat amount < 65536;
    pending (st_backlog st) (src, dst) + unat amount < 4294967296; seq_add_backlog st src dst amount = Some st'\<rbrakk>
    \<Longrightarrow> alloc_run st0 (req((src, dst) := req (src, dst) + unat amount)) got st'"
| flush: "\<lbrakk>alloc_run st0 req got st; demand_room 1 0 st; seq_flush_backlog st = Some st'\<rbrakk>
    \<Longrightarrow> alloc_run st0 req got st'"
| spent: "\<lbrakk>alloc_run st0 req got st; ring_wf (q_spent st);
    \<forall>b \<in> set (spent_burst st). bin_cap b = 32 \<and> (\<forall>e \<in> set (bin_list b). spent_ok e);
    demand_room (size (edges_of (mset (spent_burst st)))) (length (spent_burst st)) st;
    \<forall>p. endnodes p \<longrightarrow> owed st p < 65536; seq_handle_spent st = Some st'\<rbrakk>
    \<Longrightarrow> alloc_run st0 req got st'"
| reset: "\<lbrakk>alloc_run st0 req got st; unat src < 256; seq_reset_sender st src = Some st'\<rbrakk>
    \<Longrightarrow> alloc_run st0 req got st'"
| batch: "\<lbrakk>alloc_run st0 req got st; batch_pre clean ci st; seq_get_admissible_traffic st ci first = Some st'\<rbrakk>
    \<Longrightarrow> alloc_run st0 req (\<lambda>p. got p + granted st st' p) st'"

subsection \<open>Flushing and resetting\<close>

lemma seq_flush_backlog_ok:
  assumes room: "demand_room 1 h st"
  shows "wp (seq_flush_backlog st) (\<lambda>st'. entries st' = entries st \<and> st_backlog st' = st_backlog st
    \<and> bin_list (new_demands st') = [] \<and> demand_room 0 h st')"
proof (cases "is_empty_bin (new_demands st)")
  case True
  then show ?thesis
    using demand_room_mono [OF room, of 0 h] by (simp add: seq_flush_backlog_def is_empty_bin_iff)
next
  case False
  let ?st = "st\<lparr> st_stat := adm_log_forced_backlog_flush (st_stat st) \<rparr>"
  have r: "ring_wf (q_head st)" "ring_count (q_head st) < ring_room (q_head st)" "pool_wf (bin_mempool st)"
      "pool_list (bin_mempool st) \<noteq> []" "\<forall>b \<in> set (pool_list (bin_mempool st)). bin_cap b = 32"
    using room by (auto simp: demand_room_def)
  have "wp (flush_backlog_now ?st) (\<lambda>st'. \<exists>q mp c. st' = ?st\<lparr> q_head := q, bin_mempool := mp, new_demands := c \<rparr>
      \<and> ring_wf q \<and> ring_list q = ring_list (q_head ?st) @ [new_demands ?st] \<and> ring_room q = ring_room (q_head ?st)
      \<and> pool_wf mp \<and> pool_size mp = pool_size (bin_mempool ?st)
      \<and> length (pool_list (bin_mempool ?st)) = Suc (length (pool_list mp))
      \<and> (\<forall>b \<in> set (pool_list mp). bin_cap b = 32) \<and> bin_small c \<and> bin_list c = [])"
    by (rule flush_backlog_now_ok) (use r in simp_all)
  then obtain q mp c where f: "flush_backlog_now ?st = Some (?st\<lparr> q_head := q, bin_mempool := mp, new_demands := c \<rparr>)"
      "ring_wf q" "ring_list q = ring_list (q_head ?st) @ [new_demands st]" "ring_room q = ring_room (q_head st)"
      "pool_wf mp" "pool_size mp = pool_size (bin_mempool st)"
      "length (pool_list (bin_mempool st)) = Suc (length (pool_list mp))"
      "\<forall>b \<in> set (pool_list mp). bin_cap b = 32" "bin_small c" "bin_list c = []"
    by (auto simp: wp_def)
  have cnt: "ring_count q = Suc (ring_count (q_head st))"
    using arg_cong [OF f(3), of length] by simp
  have "entries (?st\<lparr> q_head := q, bin_mempool := mp, new_demands := c \<rparr>) = entries st"
    using f(10) by (simp only: entries_def pipeline_flush [OF f(3)]) simp
  moreover have "demand_room 0 h (?st\<lparr> q_head := q, bin_mempool := mp, new_demands := c \<rparr>)"
    using room f cnt by (simp add: demand_room_def)
  ultimately show ?thesis
    using False f(1,10) by (simp add: seq_flush_backlog_def)
qed

lemma seq_reset_sender_ok:
  assumes src: "unat src < 256" and ok: "status_ok st"
  shows "wp (seq_reset_sender st src) (\<lambda>st'. status_ok st' \<and> entries st' = entries st
    \<and> (\<forall>p. endnodes p \<longrightarrow> pending (st_backlog st') p = (if fst p = src then 0 else pending (st_backlog st) p)))"
proof -
  define J where "J = (\<lambda>i st'. status_ok st' \<and> entries st' = entries st
    \<and> (\<forall>p. endnodes p \<longrightarrow> pending (st_backlog st') p
         = (if fst p = src \<and> unat (snd p) < i then 0 else pending (st_backlog st) p)))"
  have "wp (seq_reset_sender st src) (J (length [0..<MAX_NODES]))"
    unfolding seq_reset_sender_def
  proof (rule wp_foldo [where P = J])
    show "J 0 st"
      using ok by (simp add: J_def)
    fix i s assume i: "i < length [0..<MAX_NODES]" and s: "J i s"
    let ?d = "of_nat i :: u16" and ?bl = "st_backlog s"
    have d: "unat ?d = i" "i < 256"
      using i by (simp_all add: MAX_NODES_def unat_of_nat)
    then have ends: "endnodes (src, ?d)"
      using src by (simp add: endnodes_def)
    define s' where "s' = s\<lparr> st_backlog := ?bl\<lparr> bl_n := (bl_n ?bl)(backlog_index src ?d := 0) \<rparr> \<rparr>"
    have ent: "entries s' = entries s"
      by (simp add: s'_def entries_def)
    have "table_ok (entries s) ?bl"
      using s unfolding J_def status_ok_def by blast
    then have "status_ok s'"
      using table_ok_reset unfolding status_ok_def ent by (simp add: s'_def)
    moreover have "pending (st_backlog s') p = (if fst p = src \<and> unat (snd p) < Suc i then 0 else pending (st_backlog st) p)"
      if p: "endnodes p" for p
    proof -
      have "p = (src, ?d) \<longleftrightarrow> fst p = src \<and> unat (snd p) = i"
        using d(1) by (cases p) (auto simp: word_unat_eq_iff)
      then have "pending (st_backlog s') p = (if fst p = src \<and> unat (snd p) = i then 0 else pending ?bl p)"
        using active_index_eq [OF p ends] by (simp add: s'_def pending_def)
      moreover have "pending ?bl p = (if fst p = src \<and> unat (snd p) < i then 0 else pending (st_backlog st) p)"
        using s p unfolding J_def by blast
      ultimately show ?thesis
        by (auto simp: less_Suc_eq)
    qed
    ultimately have "J (Suc i) s'"
      using s ent by (simp add: J_def)
    then show "wp (do { bl \<leftarrow> backlog_reset_pair (st_backlog s) src (of_nat ([0..<MAX_NODES] ! i));
        Some (s\<lparr> st_backlog := bl \<rparr>) }) (J (Suc i))"
      using i backlog_index_lt [of src ?d] src d
      by (simp add: backlog_reset_pair_def s'_def)
  qed
  then show ?thesis
    by (rule wp_mono) (auto simp: J_def MAX_NODES_def endnodes_def)
qed

subsection \<open>Batches between calls\<close>

lemma count_filter_apair: "count (mset (map apair xs)) p = length (filter (\<lambda>a. apair a = p) xs)"
  by (induction xs) auto

lemma batch_entries:
  assumes "batch_post clean ci st ps st'"
  shows "image_mset pair (entries st') = image_mset pair (entries st)"
    and "demand p (entries st') + granted st st' p = demand p (entries st)"
    and "st_backlog st' = st_backlog st"
proof -
  have nd: "new_demands st' = new_demands st" and "st_backlog st' = st_backlog st"
    using assms by (simp_all add: batch_post_def)
  then show "st_backlog st' = st_backlog st" by simp
  show "image_mset pair (entries st') = image_mset pair (entries st)"
    using assms nd by (simp add: entries_def batch_post_def)
  have "drop (ring_count (q_admitted_out st)) (ring_list (q_admitted_out st')) = ps"
    using assms by (simp add: batch_post_def)
  moreover have "demand p (pipeline st')
      + (\<Sum>x\<leftarrow>ps. count (mset (map apair (admitted_list (admitted_store st' x)))) p) = demand p (pipeline st)"
    using assms unfolding batch_post_def by blast
  ultimately show "demand p (entries st') + granted st st' p = demand p (entries st)"
    unfolding count_filter_apair by (simp add: entries_def granted_def nd)
qed

lemma table_ok_pairs:
  assumes "table_ok M bl" "image_mset pair M' = image_mset pair M"
  shows "table_ok M' bl"
proof -
  have "pair ` set_mset M' = pair ` set_mset M"
    using assms(2) by (metis set_image_mset)
  then have "\<forall>e \<in># M'. endnodes (pair e)"
    using assms(1) unfolding table_ok_def by (metis image_iff)
  then show ?thesis
    using assms by (simp add: table_ok_def)
qed

lemma batch_status_ok:
  assumes "batch_pre clean ci st" "seq_get_admissible_traffic st ci first = Some st'" "status_ok st"
  shows "status_ok st' \<and> owed st' p + granted st st' p = owed st p"
proof -
  obtain ps where ps: "batch_post clean ci st ps st'"
    using batch_ok [OF assms(1), of first] assms(2) by auto
  then show ?thesis
    using table_ok_pairs [OF _ batch_entries(1) [OF ps]] batch_entries(2) [OF ps, of p] batch_entries(3) [OF ps] assms(3)
    by (simp add: status_ok_def owed_def)
qed

lemma alloc_run_inv:
  assumes "alloc_run st0 req got st" "status_ok st0"
  shows "status_ok st \<and> (\<forall>p. endnodes p \<longrightarrow> got p + owed st p \<le> owed st0 p + req p)"
  using assms
proof (induction rule: alloc_run.induct)
  case (request req got st src dst amount st')
  then show ?case
    using wpD [OF seq_add_backlog_ok [OF request.hyps(2) _ request.hyps(3,4)]] by auto
next
  case (flush req got st st')
  then show ?case
    using wpD [OF seq_flush_backlog_ok [OF flush.hyps(2)]] by (auto simp: status_ok_def owed_def)
next
  case (spent req got st st')
  have "demand_room (0 + size (edges_of (mset (spent_burst st)))) (length (spent_burst st) + 0) st"
    using spent.hyps(4) by simp
  from wpD [OF seq_handle_spent_ok [OF _ spent.hyps(2,3) this]] spent show ?case
    by auto
next
  case (reset req got st src st')
  have "status_ok st"
    using reset.IH [OF reset.prems] by simp
  from wpD [OF seq_reset_sender_ok [OF reset.hyps(2) this]] reset.hyps(3)
  have "status_ok st'" "entries st' = entries st"
      "\<forall>p. endnodes p \<longrightarrow> pending (st_backlog st') p = (if fst p = src then 0 else pending (st_backlog st) p)"
    by simp_all
  then show ?case
    using reset.IH [OF reset.prems] by (fastforce simp: owed_def)
next
  case (batch req got st clean ci first st')
  have step: "status_ok st'" "got p + granted st st' p + owed st' p = got p + owed st p" for p
    using batch_status_ok [OF batch.hyps(2,3), of p] batch.IH [OF batch.prems] by simp_all
  show ?case
    unfolding step(2) using step(1) batch.IH [OF batch.prems] by simp
qed simp

subsection \<open>A status to try the properties on\<close>

definition demo_bin :: "nat \<Rightarrow> backlog_edge list \<Rightarrow> bin" where
  "demo_bin cap es = \<lparr> bin_size = of_nat (length es),
     bin_edges = (\<lambda>i. if i < length es then es ! i else \<lparr> e_src = 0, e_dst = 0, e_backlog = 0, e_metric = 0 \<rparr>),
     bin_cap = cap \<rparr>"

definition demo_ring :: "'a \<Rightarrow> 'a list \<Rightarrow> 'a fp_ring" where
  "demo_ring x xs = \<lparr> ring_head = 0, ring_tail = of_nat (length xs), ring_mask = 31,
     ring_elem = xs @ replicate (32 - length xs) x \<rparr>"

definition demo_core :: seq_admission_core_state where
  "demo_core = \<lparr> new_request_bins = (\<lambda>_. demo_bin 65536 []), non_empty_bins = (\<lambda>_. 0), allowed_bins = (\<lambda>_. 0),
     core_batch = \<lparr> bs_oversubscribed = False, allowed_mask = 0, src_endnodes = (\<lambda>_. 0), dst_endnodes = (\<lambda>_. 0),
       src_rack_bitmaps = (\<lambda>_. 0), dst_rack_bitmaps = (\<lambda>_. 0), src_rack_counts = (\<lambda>_. 0),
       dst_rack_counts = (\<lambda>_. 0), out_of_boundary_counts = (\<lambda>_. 0) \<rparr>,
     core_admitted = (\<lambda>_. 0), out_bin = demo_bin 32 [], spent_bin = demo_bin 32 [],
     core_stat = \<lparr> no_available_timeslots_for_bin_entry = 0, allocated_backlog_remaining = 0, backlog_sum = 0,
       allocated_no_backlog = 0, backlog_histogram = (\<lambda>_. 0), bin_size_histogram = (\<lambda>_. 0),
       core_bins_histogram = (\<lambda>_. 0), admitted_traffic_alloc_failed = 0, wait_for_space_in_q_bin_out = 0,
       wait_for_space_in_q_spent = 0, wait_for_space_in_q_admitted_out = 0, out_bin_alloc_failed = 0,
       q_out_flush_bin_full = 0, q_out_flush_batch_finished = 0, q_spent_flush_bin_full = 0,
       q_spent_flush_batch_finished = 0, stat_new_request_bins = 0, stat_new_requests = 0,
       waiting_to_pass_token = 0, passed_bins_during_wrap_up = 0, passed_bins_during_run = 0,
       wrap_up_non_empty_bin = 0, wrap_up_non_empty_bin_demands = 0, phase_finished = 0, phase_none_ready = 0,
       phase_out_of_order = 0 \<rparr>,
     current_timeslot = 64 \<rparr>"

text \<open>
  The bins given travel through \<^verbatim>\<open>q_head\<close>; the two cores have empty queues.
\<close>

definition demo_status :: "backlog \<Rightarrow> bin list \<Rightarrow> seq_admissible_status" where
  "demo_status bl bins = \<lparr> st_oversubscribed = False, st_out_of_boundary_capacity = 0, st_inter_rack_capacity = 0,
     num_nodes = 256, last_alloc_tslot = (\<lambda>_. 0), st_backlog = bl, new_demands = demo_bin 32 [],
     q_head = demo_ring (demo_bin 32 []) bins, q_admitted_out = demo_ring 0 [], q_spent = demo_ring (demo_bin 32 []) [],
     bin_mempool = \<lparr> total_elements = 12, cur_elements = 8, elements = replicate 12 (demo_bin 32 []) \<rparr>,
     admitted_traffic_mempool = \<lparr> total_elements = 16, cur_elements = 16, elements = [0..<16] \<rparr>,
     admitted_store = (\<lambda>_. \<lparr> at_size = 0, at_partition = 0, at_edges = (\<lambda>_. \<lparr> a_src = 0, a_dst = 0 \<rparr>) \<rparr>),
     cores = [demo_core, demo_core], q_bin = [demo_ring (demo_bin 32 []) [], demo_ring (demo_bin 32 []) []],
     st_stat = \<lparr> wait_for_space_in_q_head = 0, new_demands_bin_alloc_failed = 0, added_backlog_atomically = 0,
       backlog_sum_atomically = 0, backlog_sum_inc_atomically = 0, added_backlog_to_queue = 0,
       backlog_sum_to_queue = 0, backlog_sum_inc_to_queue = 0, backlog_flush_forced = 0,
       backlog_flush_bin_full = 0, spent_bins = 0, spent_demands = 0 \<rparr> \<rparr>"

definition demo_backlog :: backlog where
  "demo_backlog = \<lparr> bl_n = (\<lambda>_. 0), is_active = (\<lambda>_. 0) \<rparr>"

definition demo_edges :: "backlog_edge list" where
  "demo_edges = [\<lparr> e_src = 1, e_dst = 2, e_backlog = 3, e_metric = 40 \<rparr>,
     \<lparr> e_src = 1, e_dst = 3, e_backlog = 1, e_metric = 41 \<rparr>, \<lparr> e_src = 4, e_dst = 2, e_backlog = 7, e_metric = 0 \<rparr>]"

lemma bin_list_demo [simp]: "length es \<le> 32 \<Longrightarrow> bin_list (demo_bin cap es) = es"
  by (intro nth_equalityI) (simp_all add: bin_list_def demo_bin_def unat_of_nat)

lemma bin_cap_demo [simp]: "bin_cap (demo_bin cap es) = cap"
  by (simp add: demo_bin_def)

lemma bin_small_demo [simp]: "length es \<le> 32 \<Longrightarrow> bin_small (demo_bin 32 es)"
  using length_bin_list [of "demo_bin 32 es"] by (simp add: bin_small_def bin_wf_def)

lemma demo_ring_simps [simp]:
  assumes "length xs \<le> 31"
  shows "ring_list (demo_ring x xs) = xs" "ring_wf (demo_ring x xs)" "ring_count (demo_ring x xs) = length xs"
    "ring_room (demo_ring x xs) = 31" "ring_head (demo_ring x xs) = 0"
proof -
  let ?r = "demo_ring x xs"
  have m: "ring_mask ?r = mask 5"
    by (simp add: demo_ring_def mask_eq_exp_minus_1)
  show c: "ring_count ?r = length xs"
    using assms by (simp add: ring_count_def demo_ring_def unat_of_nat)
  then show "ring_wf ?r"
    using assms m unfolding ring_wf_def by (auto simp: demo_ring_def mask_eq_exp_minus_1 intro!: exI [of _ 5])
  have "ring_slot ?r i = i" if "i < length xs" for i
    using that assms ring_slot_mod [OF m, of i] by (simp add: demo_ring_def)
  then show "ring_list ?r = xs"
    using c by (intro nth_equalityI) (simp_all add: ring_list_def, simp add: demo_ring_def nth_append)
  show "ring_room ?r = 31" "ring_head ?r = 0"
    by (simp_all add: demo_ring_def ring_room_def)
qed

lemma demo_queues [simp]:
  assumes "length bins \<le> 4"
  shows "qwork (demo_status bl bins) = mset bins" "qspent (demo_status bl bins) = {#}"
    "pipeline (demo_status bl bins) = edges_of (mset bins)" "entries (demo_status bl bins) = edges_of (mset bins)"
  using assms by (simp_all add: qwork_def qspent_def pipeline_def entries_def demo_status_def)

lemma demo_status_ok: "status_ok (demo_status demo_backlog [])"
  by (simp add: status_ok_def table_ok_def active_def pending_def demo_backlog_def)
     (simp add: demo_status_def arr_bit_def)

lemma demo_batch_pre: "batch_pre True 0 (demo_status demo_backlog [demo_bin 32 demo_edges])"
proof -
  let ?st = "demo_status demo_backlog [demo_bin 32 demo_edges]"
  have e: "length demo_edges = 3"
    by (simp add: demo_edges_def)
  have pipe: "size (pipeline ?st) = 3" "edges_of (qwork ?st) = mset demo_edges"
    using e by simp_all
  have "queues_ok ?st"
    unfolding queues_ok_def pipe by (simp add: e) (simp add: demo_status_def e demo_edges_def)
  moreover have "pools_ok ?st"
    unfolding pools_ok_def pipe by (simp add: pool_wf_def pool_list_def pool_size_def) (simp add: demo_status_def)
  moreover have "core_ok demo_core"
    by (simp add: core_ok_def) (simp add: demo_core_def)
  moreover have "\<forall>x \<in># mset demo_edges. waiting_ok True 64 x"
    by (simp add: demo_edges_def) (simp add: waiting_ok_def, code_simp)
  ultimately show ?thesis
    unfolding batch_pre_def pipe
    by (simp) (simp add: demo_status_def demo_core_def)
qed

subsection \<open>Properties of the allocator\<close>

text \<open>
  C19: a batch returns. From any status with room for its entries, whatever is in the queues and
  bins, \<^verbatim>\<open>seq_get_admissible_traffic\<close> ends without a failed assertion or a wait that never ends, takes
  sixteen structures from the pool and sends out exactly those, one per timeslot.
\<close>

theorem batch_returns:
  assumes "batch_pre clean ci st"
  shows "\<exists>st' ps. seq_get_admissible_traffic st ci first = Some st' \<and> length ps = 16 \<and> distinct ps
    \<and> ring_list (q_admitted_out st') = ring_list (q_admitted_out st) @ ps
    \<and> pool_list (admitted_traffic_mempool st) = pool_list (admitted_traffic_mempool st') @ ps"
  using batch_ok [OF assms, of first] unfolding batch_post_def by blast

theorem batch_returns_witness:
  "\<exists>st' ps. seq_get_admissible_traffic (demo_status demo_backlog [demo_bin 32 demo_edges]) 0 64 = Some st'
    \<and> length ps = 16 \<and> ring_list (q_admitted_out st') = ps"
proof -
  have "ring_list (q_admitted_out (demo_status demo_backlog [demo_bin 32 demo_edges])) = []"
    by (simp add: demo_status_def)
  then show ?thesis
    using batch_returns [OF demo_batch_pre, of 64] by auto
qed

text \<open>
  C20: what a batch sends out, timeslot by timeslot. No source is served twice in a timeslot, and only
  pairs with demand are served, for any traffic and any capacity. No destination is served twice under
  \<open>clean\<close>: the capacity for traffic out of the network is 0 and no waiting entry has destination 255.
  The condition is needed. The arbiter sets the capacity to 16 (\<^verbatim>\<open>seq_admission_core.h:12\<close>), and then
  destinations are not marked as taken, as C27 shows: what it sends out is a matching of the sources only.
\<close>

theorem batch_matching:
  assumes "batch_pre clean ci st" "seq_get_admissible_traffic st ci first = Some st'"
  shows "list_all (\<lambda>x. distinct (map a_src (admitted_list (admitted_store st' x)))
      \<and> (clean \<longrightarrow> distinct (map a_dst (admitted_list (admitted_store st' x))))
      \<and> list_all (\<lambda>a. 0 < demand (apair a) (pipeline st)) (admitted_list (admitted_store st' x)))
    (drop (ring_count (q_admitted_out st)) (ring_list (q_admitted_out st')))"
proof -
  obtain ps where ps: "batch_post clean ci st ps st'"
    using batch_ok [OF assms(1), of first] assms(2) by auto
  have out: "drop (ring_count (q_admitted_out st)) (ring_list (q_admitted_out st')) = ps"
    using ps by (simp add: batch_post_def)
  have "0 < demand (apair a) (pipeline st)" if "x \<in> set ps" "a \<in> set (admitted_list (admitted_store st' x))" for x a
  proof -
    let ?c = "\<lambda>x. count (mset (map apair (admitted_list (admitted_store st' x)))) (apair a)"
    have "0 < ?c x"
      using that(2) by (simp add: count_filter_apair filter_empty_conv)
    also have "?c x \<le> (\<Sum>x\<leftarrow>ps. ?c x)"
      using that(1) by (intro member_le_sum_list) simp_all
    also have "\<dots> \<le> demand (apair a) (pipeline st)"
      using ps unfolding batch_post_def by (metis le_add2)
    finally show ?thesis .
  qed
  then show ?thesis
    using ps unfolding out list_all_iff by (simp add: batch_post_def)
qed

theorem batch_matching_witness:
  "\<exists>st'. seq_get_admissible_traffic (demo_status demo_backlog [demo_bin 32 demo_edges]) 0 64 = Some st'
    \<and> list_all (\<lambda>x. distinct (map a_src (admitted_list (admitted_store st' x)))
        \<and> distinct (map a_dst (admitted_list (admitted_store st' x)))) (ring_list (q_admitted_out st'))"
proof -
  let ?st = "demo_status demo_backlog [demo_bin 32 demo_edges]"
  obtain st' where st': "seq_get_admissible_traffic ?st 0 64 = Some st'"
    using batch_ok [OF demo_batch_pre] by blast
  have "ring_count (q_admitted_out ?st) = 0"
    by (simp add: demo_status_def)
  then show ?thesis
    using st' batch_matching [OF demo_batch_pre st'] by (simp add: list_all_iff)
qed

text \<open>
  C21: a batch loses and invents nothing: the entries in the queues are for the same pairs as
  before, each pair once as often, and for every pair the demand that is left plus the timeslots
  it was given is the demand before. The bins are conserved too.
\<close>

theorem batch_conserves:
  assumes "batch_pre clean ci st" "seq_get_admissible_traffic st ci first = Some st'"
  shows "image_mset pair (entries st') = image_mset pair (entries st)
    \<and> demand p (entries st') + granted st st' p = demand p (entries st)
    \<and> size (qwork st') + size (qspent st') + length (pool_list (bin_mempool st'))
      = size (qwork st) + size (qspent st) + length (pool_list (bin_mempool st))"
proof -
  obtain ps where ps: "batch_post clean ci st ps st'"
    using batch_ok [OF assms(1), of first] assms(2) by auto
  then have "size (qwork st') + size (qspent st') + length (pool_list (bin_mempool st'))
      = size (qwork st) + size (qspent st) + length (pool_list (bin_mempool st))"
    unfolding batch_post_def by blast
  then show ?thesis
    using batch_entries(1,2) [OF ps] by blast
qed

theorem batch_conserves_witness:
  "\<exists>st'. seq_get_admissible_traffic (demo_status demo_backlog [demo_bin 32 demo_edges]) 0 64 = Some st'
    \<and> demand (4, 2) (entries st') + granted (demo_status demo_backlog [demo_bin 32 demo_edges]) st' (4, 2) = 7"
proof -
  let ?st = "demo_status demo_backlog [demo_bin 32 demo_edges]"
  obtain st' where st': "seq_get_admissible_traffic ?st 0 64 = Some st'"
    using batch_ok [OF demo_batch_pre] by blast
  have "demand (4, 2) (entries ?st) = 7"
    by (simp add: demo_edges_def) (simp add: demand_def pair_def)
  then show ?thesis
    using st' batch_conserves [OF demo_batch_pre st', of "(4, 2)"] by auto
qed

text \<open>
  C22: over any sequence of requests, flushes, returns of spent entries, resets and batches, every
  pair has exactly one entry while it is active and none otherwise, and no pair is ever given
  more timeslots than were owed to it at the start plus what was requested since.
\<close>

theorem grants_within_requests:
  assumes "status_ok st0" "alloc_run st0 req got st" "endnodes p"
  shows "status_ok st \<and> got p + owed st p \<le> owed st0 p + req p"
  using alloc_run_inv [OF assms(2,1)] assms(3) by blast

lemma demo_room: "demand_room 1 0 (demo_status bl [])"
  by (simp add: demand_room_def pool_wf_def pool_list_def pool_size_def demo_status_def)

theorem grants_within_requests_witness:
  "\<exists>st. alloc_run (demo_status demo_backlog []) ((\<lambda>_. 0)((1, 2) := 5)) (\<lambda>_. 0) st \<and> status_ok st
    \<and> owed st (1, 2) \<le> 5"
proof -
  let ?st0 = "demo_status demo_backlog []"
  have p: "endnodes (1, 2)" "pending (st_backlog ?st0) (1, 2) = 0" "owed ?st0 (1, 2) = 0"
    by (simp_all add: endnodes_def owed_def demo_queues) (simp_all add: pending_def demo_status_def demo_backlog_def)
  obtain st where st: "seq_add_backlog ?st0 1 2 5 = Some st"
    using wpD [OF seq_add_backlog_ok [OF demo_room demo_status_ok p(1), of 5]] by auto
  have run: "alloc_run ?st0 ((\<lambda>_. 0)((1, 2) := 5)) (\<lambda>_. 0) st"
    using alloc_run.request [OF alloc_run.start demo_room p(1) _ _ _ st] p(2) by simp
  show ?thesis
    using run grants_within_requests [OF demo_status_ok run p(1)] p(3) by auto
qed

text \<open>
  A request is taken without a failed assertion (the table never holds a backlog for an
  inactive pair), and for an amount below 2^16 exactly that amount is added to what is owed to
  the pair, and nothing to any other.
\<close>

theorem request_is_owed:
  assumes "demand_room 1 h st" "status_ok st" "endnodes (src, dst)" "amount \<noteq> 0" "unat amount < 65536"
    and "pending (st_backlog st) (src, dst) + unat amount < 4294967296" "endnodes p"
  shows "\<exists>st'. seq_add_backlog st src dst amount = Some st' \<and> status_ok st'
    \<and> owed st' p = owed st p + (if p = (src, dst) then unat amount else 0)"
  using wpD [OF seq_add_backlog_ok [OF assms(1-4)]] assms(5-7) by (cases p) auto

theorem request_is_owed_witness:
  "\<exists>st'. seq_add_backlog (demo_status demo_backlog []) 1 2 5 = Some st' \<and> owed st' (1, 2) = 5"
proof -
  have p: "endnodes (1, 2)" "pending (st_backlog (demo_status demo_backlog [])) (1, 2) = 0"
      "owed (demo_status demo_backlog []) (1, 2) = 0"
    by (simp_all add: endnodes_def owed_def demo_queues) (simp_all add: pending_def demo_status_def demo_backlog_def)
  show ?thesis
    using request_is_owed [OF demo_room demo_status_ok p(1) _ _ _ p(1), of 5] p(2,3) by auto
qed

text \<open>
  Spent entries are taken back without a failed assertion and in bursts of 256 bins; again
  every active pair has exactly one entry and every other pair none, and as long as less than
  2^16 timeslots are owed to each pair, what is owed does not change.
\<close>

theorem spent_entries_return:
  assumes "status_ok st" "ring_wf (q_spent st)"
    and "\<forall>b \<in> set (spent_burst st). bin_cap b = 32 \<and> (\<forall>e \<in> set (bin_list b). spent_ok e)"
    and "demand_room (size (edges_of (mset (spent_burst st)))) (length (spent_burst st)) st"
    and "\<forall>p. endnodes p \<longrightarrow> owed st p < 65536" "endnodes p"
  shows "\<exists>st'. seq_handle_spent st = Some st' \<and> status_ok st' \<and> owed st' p = owed st p
    \<and> ring_list (q_spent st') = drop 256 (ring_list (q_spent st))"
proof -
  have "demand_room (0 + size (edges_of (mset (spent_burst st)))) (length (spent_burst st) + 0) st"
    using assms(4) by simp
  from wpD [OF seq_handle_spent_ok [OF assms(1-3) this]] assms(5,6) show ?thesis
    by (cases p) auto
qed

definition demo_spent :: seq_admissible_status where
  "demo_spent = (demo_status (demo_backlog\<lparr> is_active := bts (bts (\<lambda>_. 0) (backlog_index 1 2)) (backlog_index 1 2),
     bl_n := (\<lambda>_. 0)(backlog_index 1 2 := 9) \<rparr>) [])
   \<lparr> q_spent := demo_ring (demo_bin 32 []) [demo_bin 32 [\<lparr> e_src = 1, e_dst = 2, e_backlog = 0, e_metric = 70 \<rparr>]] \<rparr>"

lemma demo_spent_ok:
  "status_ok demo_spent" "spent_burst demo_spent = [demo_bin 32 [\<lparr> e_src = 1, e_dst = 2, e_backlog = 0, e_metric = 70 \<rparr>]]"
  "demand_room 1 1 demo_spent" "ring_wf (q_spent demo_spent)"
  "endnodes p \<Longrightarrow> owed demo_spent p = (if p = (1, 2) then 9 else 0)"
proof -
  let ?e = "\<lparr> e_src = 1, e_dst = 2, e_backlog = 0, e_metric = 70 \<rparr>"
  have p: "endnodes (1, 2)" "pair ?e = (1, 2)"
    by (simp_all add: endnodes_def pair_def)
  have ent: "entries demo_spent = {# ?e #}"
    by (simp add: demo_spent_def entries_def pipeline_def qwork_def qspent_def) (simp add: demo_status_def)
  have "table_ok {#} demo_backlog"
    using demo_status_ok by (simp add: status_ok_def) (simp add: demo_status_def)
  then have "table_ok {# ?e #} (demo_backlog\<lparr> is_active := bts (is_active demo_backlog) (backlog_index 1 2) \<rparr>)"
    by (rule table_ok_activate [OF _ _ p]) (simp add: active_def demo_backlog_def arr_bit_def)
  from table_ok_increase [OF this _ p(1), of 9] have "table_ok {# ?e #} (st_backlog demo_spent)"
    by (simp add: demo_spent_def demo_status_def demo_backlog_def active_def)
  then show "status_ok demo_spent"
    by (simp add: status_ok_def ent)
  show "spent_burst demo_spent = [demo_bin 32 [?e]]" "ring_wf (q_spent demo_spent)"
    by (simp_all add: spent_burst_def demo_spent_def)
  show "demand_room 1 1 demo_spent"
    by (simp add: demand_room_def pool_wf_def pool_list_def pool_size_def demo_spent_def demo_status_def)
  show "endnodes p \<Longrightarrow> owed demo_spent p = (if p = (1, 2) then 9 else 0)"
    using active_index_eq [OF _ p(1), of p] unfolding owed_def ent
    by (simp add: pending_def demo_spent_def demo_status_def)
qed

theorem spent_entries_return_witness:
  "\<exists>st'. seq_handle_spent demo_spent = Some st' \<and> status_ok st' \<and> owed st' (1, 2) = 9"
proof -
  have p: "endnodes (1, 2)"
    by (simp add: endnodes_def)
  have own: "\<forall>p. endnodes p \<longrightarrow> owed demo_spent p < 65536"
    using demo_spent_ok(5) by auto
  have room: "demand_room (size (edges_of (mset (spent_burst demo_spent)))) (length (spent_burst demo_spent)) demo_spent"
    using demo_spent_ok(3) by (simp add: demo_spent_ok(2))
  have sp: "\<forall>b \<in> set (spent_burst demo_spent). bin_cap b = 32 \<and> (\<forall>e \<in> set (bin_list b). spent_ok e)"
    by (simp add: demo_spent_ok(2) spent_ok_def)
  show ?thesis
    using spent_entries_return [OF demo_spent_ok(1,4) sp room own p] demo_spent_ok(5) [OF p] by auto
qed

text \<open>
  C27: once the count of traffic out of the network is not zero in a timeslot, an allocation to an
  ordinary destination in that timeslot does not mark the destination as taken: every other source
  that was free there can still be matched with it. (The destination is flipped for traffic out of
  the network or at a count of zero, where the comments describe the opposite.)
\<close>

theorem destination_not_reserved:
  assumes "unat src < 256" "unat dst < 255" "unat src' < 256" "src' \<noteq> src" "t < 16"
    and "out_of_boundary_counts state t \<noteq> 0"
    and "bit (avail state src dst) t" "bit (avail state src' dst) t"
  shows "\<exists>state'. batch_state_set_occupied_conditional state src dst t (push_bit t 1) = Some state'
    \<and> bit (avail state' src' dst) t"
proof -
  have "unat src' \<noteq> unat src"
    using assms(4) by (simp add: word_unat_eq_iff)
  then show ?thesis
    using assms by (simp add: batch_state_set_occupied_conditional_def guard_o_def MAX_NODES_def BATCH_SIZE_def
        OUT_OF_BOUNDARY_NODE_ID_def SUPPORTS_OVERSUBSCRIPTION_def neg_bool_def bit_avail del: push_bit_of_1)
qed

text \<open>
  So it is in the arbiter, whose capacity is 16: in a new batch, after source 1 was given destination 2,
  source 3 is still matched with it. With capacity 0 it takes one allocation out of the network, which
  brings the count to 65535.
\<close>

definition demo_state :: batch_state where
  "demo_state = \<lparr> bs_oversubscribed = False, allowed_mask = 65535, src_endnodes = (\<lambda>_. - 1), dst_endnodes = (\<lambda>_. - 1),
     src_rack_bitmaps = (\<lambda>_. 0), dst_rack_bitmaps = (\<lambda>_. 0), src_rack_counts = (\<lambda>_. 0),
     dst_rack_counts = (\<lambda>_. 0), out_of_boundary_counts = (\<lambda>_. 0) \<rparr>"

theorem destination_not_reserved_witness:
  "(\<exists>s1 s2. batch_state_init demo_state False 4 16 256 = Some s1
      \<and> batch_state_set_occupied_conditional s1 1 2 0 1 = Some s2 \<and> bit (avail s2 3 2) 0)
    \<and> (\<exists>s1 s2. batch_state_set_occupied_conditional demo_state 9 255 0 1 = Some s1
      \<and> batch_state_set_occupied_conditional s1 1 2 0 1 = Some s2 \<and> bit (avail s2 3 2) 0)"
proof -
  have step: "\<exists>s2. batch_state_set_occupied_conditional s1 1 2 0 1 = Some s2 \<and> bit (avail s2 3 2) 0"
    if "out_of_boundary_counts s1 0 \<noteq> 0" "avail s1 1 2 = 65535" "avail s1 3 2 = 65535" for s1
  proof -
    have "\<exists>s2. batch_state_set_occupied_conditional s1 1 2 0 (push_bit 0 1) = Some s2 \<and> bit (avail s2 3 2) 0"
      by (rule destination_not_reserved) (simp_all add: that)
    then show ?thesis by simp
  qed
  obtain s0 where s0: "batch_state_init demo_state False 4 16 256 = Some s0"
      "out_of_boundary_counts s0 0 \<noteq> 0" "avail s0 1 2 = 65535" "avail s0 3 2 = 65535"
    by (simp add: batch_state_init_def guard_o_def MAX_NODES_def BATCH_SIZE_def fill_def batch_mask_def
        OUT_OF_BOUNDARY_NODE_ID_def demo_state_def avail_def Let_def unsigned_minus_1_eq_mask mask_eq_exp_minus_1)
  obtain s1 where s1: "batch_state_set_occupied_conditional demo_state 9 255 0 1 = Some s1"
      "out_of_boundary_counts s1 0 = - 1" "avail s1 1 2 = 65535" "avail s1 3 2 = 65535"
    by (simp add: batch_state_set_occupied_conditional_def guard_o_def MAX_NODES_def BATCH_SIZE_def
        OUT_OF_BOUNDARY_NODE_ID_def SUPPORTS_OVERSUBSCRIPTION_def neg_bool_def demo_state_def avail_def
        Let_def unsigned_minus_1_eq_mask mask_eq_exp_minus_1)
  show ?thesis
    using s0(1) s1(1) step [OF s0(2-4)] step [of s1] s1(2-4) by auto
qed

end
