(* ===== verification/FP_Graph.thy ===== *)
theory FP_Graph
  imports FP_Loops
begin

unbundle bit_operations_syntax

text \<open>
  Bipartite multigraphs as bitmaps (\<^verbatim>\<open>src/src/graph-algo/graph.h\<close>) and the Euler split
  (\<^verbatim>\<open>euler_split.c\<close>, \<^verbatim>\<open>kapoor_rizzi.h\<close> and \<^verbatim>\<open>kapoor_rizzi.c\<close>). A vertex has 64 places for edges; the
  structure says where the edge in a place leads (vertex and place there), the bitmap of a
  vertex which of its places are in use. Vertices are natural numbers: the code's \<^verbatim>\<open>uint8_t\<close>
  vertices are below 128 by its assertions. Accesses outside the arrays and shifts past 63
  are guarded. \<^verbatim>\<open>bsfq\<close> is \<^term>\<open>lsb_of\<close>.
\<close>

subsection \<open>Definitions: graphs\<close>

definition MAX_DEGREE :: nat where "MAX_DEGREE = 64"
definition MAX_GRAPH_NODES :: nat where "MAX_GRAPH_NODES = 64"

record graph_edges =
  neighbor_bitmaps :: "nat \<Rightarrow> u64"

record neighbor =
  nb_id :: u8
  nb_index :: u8

record graph_structure =
  gs_n :: nat
  vertices :: "nat \<Rightarrow> nat \<Rightarrow> neighbor"

definition graph_structure_init :: "graph_structure \<Rightarrow> nat \<Rightarrow> graph_structure option" where
  "graph_structure_init structure n = do {
     guard_o (n \<le> MAX_GRAPH_NODES);
     Some (structure\<lparr> gs_n := n \<rparr>) }"

definition graph_edges_init :: "graph_edges \<Rightarrow> nat \<Rightarrow> graph_edges option" where
  "graph_edges_init edges n = do {
     guard_o (n \<le> MAX_GRAPH_NODES);
     Some (edges\<lparr> neighbor_bitmaps := (\<lambda>i. if i < 2 * n then 0 else neighbor_bitmaps edges i) \<rparr>) }"

definition has_neighbor :: "graph_edges \<Rightarrow> nat \<Rightarrow> bool option" where
  "has_neighbor edges vertex = do {
     guard_o (vertex < 2 * MAX_GRAPH_NODES);
     Some (neighbor_bitmaps edges vertex \<noteq> 0) }"

lemma drop_bit_1_less: "0 < (x :: u64) \<Longrightarrow> unat (drop_bit 1 x) < unat x"
  by (simp add: drop_bit_eq_div unat_div word_less_nat_alt)

function degree_loop :: "u64 \<Rightarrow> u8 \<Rightarrow> u8" where
  "degree_loop bitmap degree =
     (if bitmap > 0 then degree_loop (drop_bit 1 bitmap) (degree + ucast (bitmap AND 1)) else degree)"
  by pat_completeness auto
termination
  by (relation "measure (\<lambda>(bitmap, _). unat bitmap)") (auto intro: drop_bit_1_less simp del: One_nat_def)

declare degree_loop.simps [simp del]

definition get_degree :: "graph_edges \<Rightarrow> nat \<Rightarrow> u8 option" where
  "get_degree edges vertex = do {
     guard_o (vertex < 2 * MAX_GRAPH_NODES);
     Some (degree_loop (neighbor_bitmaps edges vertex) 0) }"

definition get_max_degree :: "graph_edges \<Rightarrow> nat \<Rightarrow> u8 option" where
  "get_max_degree edges n = do {
     guard_o (n \<le> MAX_GRAPH_NODES);
     foldo (\<lambda>i max_degree. do {
         d \<leftarrow> get_degree edges i;
         Some (if max_degree > d then max_degree else d) }) [0..<2 * n] 0 }"

text \<open>
  The bitmaps of both ends are read before either is written.
\<close>

definition clear_edge :: "graph_edges \<Rightarrow> nat \<Rightarrow> nat \<Rightarrow> nat \<Rightarrow> nat \<Rightarrow> graph_edges" where
  "clear_edge edges u i v j = edges\<lparr> neighbor_bitmaps := (neighbor_bitmaps edges)
     (u := neighbor_bitmaps edges u AND NOT (push_bit i 1),
      v := neighbor_bitmaps edges v AND NOT (push_bit j 1)) \<rparr>"

definition mark_edge :: "graph_edges \<Rightarrow> nat \<Rightarrow> nat \<Rightarrow> nat \<Rightarrow> nat \<Rightarrow> graph_edges" where
  "mark_edge edges u i v j = edges\<lparr> neighbor_bitmaps := (neighbor_bitmaps edges)
     (u := neighbor_bitmaps edges u OR push_bit i 1,
      v := neighbor_bitmaps edges v OR push_bit j 1) \<rparr>"

definition find_neighbor :: "graph_structure \<Rightarrow> graph_edges \<Rightarrow> nat \<Rightarrow> (nat \<times> nat \<times> nat) option" where
  "find_neighbor structure src_edges u = do {
     guard_o (u < 2 * gs_n structure);
     guard_o (u < 2 * MAX_GRAPH_NODES);
     let u_bitmap = neighbor_bitmaps src_edges u;
     guard_o (u_bitmap \<noteq> 0);
     let edge_index_u = lsb_of u_bitmap;
     let v = unat (nb_id (vertices structure u edge_index_u));
     let edge_index_v = unat (nb_index (vertices structure u edge_index_u));
     guard_o (v < 2 * MAX_GRAPH_NODES);
     guard_o (edge_index_v < 64);
     Some (edge_index_u, v, edge_index_v) }"

definition split_edge :: "graph_structure \<Rightarrow> graph_edges \<Rightarrow> graph_edges \<Rightarrow> nat
    \<Rightarrow> (nat \<times> graph_edges \<times> graph_edges) option" where
  "split_edge structure src_edges dst_edges u = do {
     (i, v, j) \<leftarrow> find_neighbor structure src_edges u;
     Some (v, clear_edge src_edges u i v j, mark_edge dst_edges u i v j) }"

definition remove_edge_to_neighbor :: "graph_structure \<Rightarrow> graph_edges \<Rightarrow> nat \<Rightarrow> (nat \<times> graph_edges) option" where
  "remove_edge_to_neighbor structure src_edges u = do {
     (i, v, j) \<leftarrow> find_neighbor structure src_edges u;
     Some (v, clear_edge src_edges u i v j) }"

definition set_neighbor :: "graph_structure \<Rightarrow> nat \<Rightarrow> nat \<Rightarrow> nat \<Rightarrow> nat \<Rightarrow> graph_structure" where
  "set_neighbor structure u i v j = structure\<lparr> vertices := (vertices structure)
     (u := (vertices structure u)(i := \<lparr> nb_id = of_nat v, nb_index = of_nat j \<rparr>)) \<rparr>"

definition add_edge :: "graph_structure \<Rightarrow> graph_edges \<Rightarrow> nat \<Rightarrow> nat \<Rightarrow> (graph_structure \<times> graph_edges) option" where
  "add_edge structure edges u v = do {
     let n = gs_n structure;
     guard_o (u < 2 * n \<and> v < 2 * n);
     guard_o (u < 2 * MAX_GRAPH_NODES \<and> v < 2 * MAX_GRAPH_NODES);
     let u_bitmap = neighbor_bitmaps edges u;
     guard_o (NOT u_bitmap \<noteq> 0);
     let edge_index_u = lsb_of (NOT u_bitmap);
     let v_bitmap = neighbor_bitmaps edges v;
     guard_o (NOT v_bitmap \<noteq> 0);
     let edge_index_v = lsb_of (NOT v_bitmap);
     let edges = mark_edge edges u edge_index_u v edge_index_v;
     let structure = set_neighbor structure u edge_index_u v edge_index_v;
     Some (set_neighbor structure v edge_index_v u edge_index_u, edges) }"

definition add_edges :: "graph_edges \<Rightarrow> graph_edges \<Rightarrow> nat \<Rightarrow> graph_edges option" where
  "add_edges edges_1 edges_2 n = foldo (\<lambda>i edges_1. do {
       guard_o (i < 2 * MAX_GRAPH_NODES);
       let bitmap_1 = neighbor_bitmaps edges_1 i;
       let bitmap_2 = neighbor_bitmaps edges_2 i;
       guard_o (bitmap_1 AND bitmap_2 = 0);
       Some (edges_1\<lparr> neighbor_bitmaps := (neighbor_bitmaps edges_1)(i := bitmap_1 OR bitmap_2) \<rparr>) })
     [0..<2 * n] edges_1"

definition copy_edges :: "graph_edges \<Rightarrow> graph_edges \<Rightarrow> nat \<Rightarrow> graph_edges option" where
  "copy_edges src_edges dst_edges n = do {
     guard_o (n \<le> MAX_GRAPH_NODES);
     Some (dst_edges\<lparr> neighbor_bitmaps :=
       (\<lambda>i. if i < 2 * n then neighbor_bitmaps src_edges i else neighbor_bitmaps dst_edges i) \<rparr>) }"

definition set_edge :: "graph_structure \<Rightarrow> graph_edges \<Rightarrow> graph_edges \<Rightarrow> nat \<Rightarrow> nat \<Rightarrow> graph_edges option" where
  "set_edge structure existing_edges edges u v = do {
     guard_o (u < 2 * MAX_GRAPH_NODES \<and> v < 2 * MAX_GRAPH_NODES);
     let u_info = vertices structure u;
     case find (\<lambda>i. unat (nb_id (u_info i)) = v \<and> \<not> bit (neighbor_bitmaps edges u) i
                    \<and> \<not> bit (neighbor_bitmaps existing_edges u) i) [0..<MAX_DEGREE] of
       None \<Rightarrow> Some edges
     | Some i \<Rightarrow> do {
         guard_o (unat (nb_index (u_info i)) < 64);
         Some (mark_edge edges u i v (unat (nb_index (u_info i)))) } }"

definition are_equal :: "graph_edges \<Rightarrow> graph_edges \<Rightarrow> nat \<Rightarrow> bool" where
  "are_equal edges_1 edges_2 n =
     list_all (\<lambda>i. neighbor_bitmaps edges_1 i = neighbor_bitmaps edges_2 i) [0..<2 * n]"

definition is_perfect_matching :: "graph_edges \<Rightarrow> nat \<Rightarrow> bool" where
  "is_perfect_matching edges n = list_all (\<lambda>i. get_degree edges i = Some 1) [0..<2 * n]"

text \<open>
  The loops of \<^verbatim>\<open>is_consistent\<close> stop at the first place that fails; a reference outside the
  structure is not consistent either.
\<close>

definition place_consistent :: "graph_structure \<Rightarrow> nat \<Rightarrow> nat \<Rightarrow> bool" where
  "place_consistent structure i j =
     (let other = unat (nb_id (vertices structure i j));
          v_index_for_other = unat (nb_index (vertices structure i j))
      in other < 2 * MAX_GRAPH_NODES \<and> v_index_for_other < MAX_DEGREE
         \<and> unat (nb_id (vertices structure other v_index_for_other)) = i
         \<and> unat (nb_index (vertices structure other v_index_for_other)) = j)"

definition is_consistent :: "graph_structure \<Rightarrow> graph_edges \<Rightarrow> bool" where
  "is_consistent structure edges =
     list_all (\<lambda>i. list_all (\<lambda>j. bit (neighbor_bitmaps edges i) j \<longrightarrow> place_consistent structure i j)
       [0..<MAX_DEGREE]) [0..<2 * gs_n structure]"

subsection \<open>Definitions: the Euler split\<close>

partial_function (option) split_loop :: "graph_structure \<Rightarrow> nat \<Rightarrow> nat \<Rightarrow> graph_edges \<times> graph_edges \<times> graph_edges
    \<Rightarrow> (graph_edges \<times> graph_edges \<times> graph_edges) option" where
  "split_loop structure node cur_node s = do {
     let (edges_in, edges_1, edges_2) = s;
     b \<leftarrow> has_neighbor edges_in node;
     if \<not> b then Some (edges_in, edges_1, edges_2)
     else do {
       (new_node, edges_in, edges_1) \<leftarrow> split_edge structure edges_in edges_1 cur_node;
       let cur_node = new_node;
       guard_o (is_consistent structure edges_in);
       guard_o (is_consistent structure edges_1);
       (new_node, edges_in, edges_2) \<leftarrow> split_edge structure edges_in edges_2 cur_node;
       let cur_node = new_node;
       guard_o (is_consistent structure edges_in);
       guard_o (is_consistent structure edges_2);
       split_loop structure node cur_node (edges_in, edges_1, edges_2) } }"

definition split :: "graph_structure \<Rightarrow> graph_edges \<times> graph_edges \<times> graph_edges
    \<Rightarrow> (graph_edges \<times> graph_edges \<times> graph_edges) option" where
  "split structure = foldo (\<lambda>node s. split_loop structure node node s) [0..<gs_n structure]"

subsection \<open>Definitions: Kapoor and Rizzi's method\<close>

definition MAX_MATCHINGS :: nat where "MAX_MATCHINGS = 48"
definition MAX_STEPS :: nat where "MAX_STEPS = 128"

record kr_step =
  src_index :: nat
  dst1_index :: nat
  dst2_index :: nat

record kr =
  kr_degree :: nat
  kr_num_steps :: nat
  kr_steps :: "nat \<Rightarrow> kr_step"

record matching_set =
  ms_num_matchings :: nat
  ms_matchings :: "nat \<Rightarrow> graph_edges"

definition kr_init :: "kr \<Rightarrow> nat \<Rightarrow> kr option" where
  "kr_init k degree = do {
     guard_o (degree \<ge> 1);
     Some (k\<lparr> kr_degree := degree, kr_num_steps := 0 \<rparr>) }"

definition set_kr_step :: "kr \<Rightarrow> nat \<Rightarrow> nat \<Rightarrow> nat \<Rightarrow> kr option" where
  "set_kr_step k src_i dst1 dst2 = do {
     guard_o (kr_num_steps k < MAX_STEPS);
     Some (k\<lparr> kr_steps := (kr_steps k)(kr_num_steps k :=
                \<lparr> src_index = src_i, dst1_index = dst1, dst2_index = dst2 \<rparr>),
              kr_num_steps := kr_num_steps k + 1 \<rparr>) }"

definition matching_set_init :: "matching_set \<Rightarrow> matching_set" where
  "matching_set_init solution = solution\<lparr> ms_num_matchings := 0 \<rparr>"

definition get_num_matchings :: "matching_set \<Rightarrow> nat" where
  "get_num_matchings solution = ms_num_matchings solution"

definition get_matching :: "matching_set \<Rightarrow> nat \<Rightarrow> graph_edges option" where
  "get_matching solution index = do {
     guard_o (index < ms_num_matchings solution);
     guard_o (index < MAX_MATCHINGS);
     Some (ms_matchings solution index) }"

text \<open>
  The three graphs of a step are different elements of the array (the code's comment asks for
  that); a step that names an element twice is not modelled and stops the run.
\<close>

definition kr_split :: "graph_structure \<Rightarrow> kr_step \<Rightarrow> (nat \<Rightarrow> graph_edges) \<Rightarrow> (nat \<Rightarrow> graph_edges) option" where
  "kr_split structure step ms = do {
     guard_o (distinct [src_index step, dst1_index step, dst2_index step]);
     guard_o (src_index step < MAX_MATCHINGS \<and> dst1_index step < MAX_MATCHINGS \<and> dst2_index step < MAX_MATCHINGS);
     (a, b, c) \<leftarrow> split structure (ms (src_index step), ms (dst1_index step), ms (dst2_index step));
     Some (ms(src_index step := a, dst1_index step := b, dst2_index step := c)) }"

definition solve :: "kr \<Rightarrow> graph_structure \<Rightarrow> graph_edges \<Rightarrow> graph_edges \<Rightarrow> matching_set
    \<Rightarrow> matching_set option" where
  "solve k structure edges_in edges_arbitrary solution = do {
     let num_matchings = (kr_degree k + 1) mod 256;
     guard_o (gs_n structure \<le> MAX_GRAPH_NODES);
     ms \<leftarrow> foldo (\<lambda>i ms. do {
         e \<leftarrow> graph_edges_init (ms i) (gs_n structure);
         Some (ms(i := e)) }) [0..<MAX_MATCHINGS] (ms_matchings solution);
     guard_o (num_matchings < MAX_MATCHINGS);
     e \<leftarrow> add_edges (ms num_matchings) edges_in (gs_n structure);
     let ms = ms(num_matchings := e);
     e \<leftarrow> add_edges (ms 0) edges_arbitrary (gs_n structure);
     let ms = ms(0 := e);
     ms \<leftarrow> foldo (\<lambda>i ms. do {
         guard_o (i < MAX_STEPS);
         kr_split structure (kr_steps k i) ms }) [0..<kr_num_steps k] ms;
     Some (solution\<lparr> ms_matchings := ms, ms_num_matchings := num_matchings \<rparr>) }"

end
