(* ===== verification/FP_Euler.thy ===== *)
theory FP_Euler
  imports FP_Loops
begin

text \<open>
  The Euler split, once for every routine that walks a bipartite multigraph by peeling off two
  edges at a time: one from a left vertex, then one from the right vertex it led to. The walk
  for a left vertex ends when that vertex has no edge left. The locale asks how one peeled edge
  changes the degrees and what the routine keeps track of (an invariant over counters of how
  many edges of each colour every vertex has received); it gives that the walk ends, uses up
  every edge, and gives each vertex half of its edges in each colour when all degrees are even.
\<close>

definition bump :: "(bool \<Rightarrow> nat \<Rightarrow> nat) \<Rightarrow> bool \<Rightarrow> nat \<Rightarrow> nat \<Rightarrow> bool \<Rightarrow> nat \<Rightarrow> nat" where
  "bump C c u v = (\<lambda>c' w. if c' = c \<and> (w = u \<or> w = v) then Suc (C c' w) else C c' w)"

definition peeled :: "nat \<Rightarrow> (nat \<Rightarrow> nat) \<Rightarrow> (nat \<Rightarrow> nat) \<Rightarrow> nat \<Rightarrow> nat \<Rightarrow> bool" where
  "peeled n d d' u v \<longleftrightarrow> 0 < d u \<and> 0 < d v
     \<and> (\<forall>w < 2 * n. d' w = (if w = u \<or> w = v then d w - 1 else d w))"

locale euler_walk =
  fixes n :: nat
    and deg :: "'s \<Rightarrow> nat \<Rightarrow> nat"
    and peel :: "bool \<Rightarrow> nat \<Rightarrow> 's \<Rightarrow> (nat \<times> 's) option"
    and walk :: "nat \<Rightarrow> nat \<Rightarrow> 's \<Rightarrow> 's option"
    and inv :: "(bool \<Rightarrow> nat \<Rightarrow> nat) \<Rightarrow> 's \<Rightarrow> bool"
  assumes walk_unfold: "inv C s \<Longrightarrow> node < n \<Longrightarrow> walk node cur s =
      (if deg s node = 0 then Some s
       else do { (v, s) \<leftarrow> peel False cur s; (w, s) \<leftarrow> peel True v s; walk node w s })"
    and peel_left: "inv C s \<Longrightarrow> u < n \<Longrightarrow> 0 < deg s u \<Longrightarrow>
      wp (peel False u s) (\<lambda>(v, s'). n \<le> v \<and> v < 2 * n \<and> peeled n (deg s) (deg s') u v \<and> inv (bump C False u v) s')"
    and peel_right: "inv C s \<Longrightarrow> n \<le> u \<Longrightarrow> u < 2 * n \<Longrightarrow> 0 < deg s u \<Longrightarrow>
      wp (peel True u s) (\<lambda>(v, s'). v < n \<and> peeled n (deg s) (deg s') u v \<and> inv (bump C True u v) s')"
    and no_left_edges: "inv C s \<Longrightarrow> \<forall>u < n. deg s u = 0 \<Longrightarrow> v < 2 * n \<Longrightarrow> deg s v = 0"
begin

text \<open>
  The state at the head of the inner loop: the walk for \<^verbatim>\<open>node\<close> stands at \<^verbatim>\<open>cur\<close>. Away from the two,
  degrees are even and colours balanced; if they differ, \<^verbatim>\<open>node\<close> has one edge of the first colour
  too many, \<^verbatim>\<open>cur\<close> one of the second, and both have an odd number of edges left.
\<close>

definition at :: "(nat \<Rightarrow> nat) \<Rightarrow> nat \<Rightarrow> nat \<Rightarrow> (bool \<Rightarrow> nat \<Rightarrow> nat) \<Rightarrow> 's \<Rightarrow> bool" where
  "at T node cur C s \<longleftrightarrow> inv C s \<and> (\<forall>w < 2 * n. deg s w + C False w + C True w = T w
     \<and> C False w + (if cur \<noteq> node \<and> w = cur then 1 else 0) = C True w + (if cur \<noteq> node \<and> w = node then 1 else 0)
     \<and> (even (deg s w) \<longleftrightarrow> cur = node \<or> (w \<noteq> node \<and> w \<noteq> cur)))"

lemma round_ok:
  assumes at: "at T node cur C s" and lt: "node < n" "cur < n" and go: "0 < deg s node"
  shows "wp (do { (v, s) \<leftarrow> peel False cur s; peel True v s })
    (\<lambda>(w, s'). w < n \<and> (\<exists>C'. at T node w C' s') \<and> (\<Sum>i<n. deg s' i) < (\<Sum>i<n. deg s i)
      \<and> (\<forall>i < 2 * n. deg s' i \<le> deg s i))"
proof -
  have inv: "inv C s" and dd: "\<And>w. w < 2 * n \<Longrightarrow> deg s w + C False w + C True w = T w"
    and bal: "\<And>w. w < 2 * n \<Longrightarrow> C False w + (if cur \<noteq> node \<and> w = cur then 1 else 0)
        = C True w + (if cur \<noteq> node \<and> w = node then 1 else 0)"
    and par: "\<And>w. w < 2 * n \<Longrightarrow> even (deg s w) \<longleftrightarrow> cur = node \<or> (w \<noteq> node \<and> w \<noteq> cur)"
    using at unfolding at_def by blast+
  have "0 < deg s cur"
    using go par [of cur] lt by (cases "cur = node") (auto intro: odd_pos)
  from wpD [OF peel_left [OF inv lt(2) this]] obtain v s1 where
    s1: "peel False cur s = Some (v, s1)" "n \<le> v" "v < 2 * n" "peeled n (deg s) (deg s1) cur v" "inv (bump C False cur v) s1"
    by auto
  have "even (deg s v)" "0 < deg s v" "deg s1 v = deg s v - 1"
    using par [of v] s1(2-4) lt by (auto simp: peeled_def)
  then have "0 < deg s1 v"
    by (cases "deg s v = 1") auto
  from wpD [OF peel_right [OF s1(5,2,3) this]] obtain w s2 where
    s2: "peel True v s1 = Some (w, s2)" "w < n" "peeled n (deg s1) (deg s2) v w" "inv (bump (bump C False cur v) True v w) s2"
    by auto
  let ?C = "bump (bump C False cur v) True v w"
  have d1: "deg s1 i = (if i = cur \<or> i = v then deg s i - 1 else deg s i)" if "i < 2 * n" for i
    using s1(4) that by (simp add: peeled_def)
  have d2: "deg s2 i = (if i = v \<or> i = w then deg s1 i - 1 else deg s1 i)" if "i < 2 * n" for i
    using s2(3) that by (simp add: peeled_def)
  have pos: "0 < deg s cur" "0 < deg s v" "0 < deg s1 v" "0 < deg s1 w"
    using s1(4) s2(3) by (simp_all add: peeled_def)
  have cv: "cur \<noteq> v" "w \<noteq> v" "node \<noteq> v"
    using s1(2) lt s2(2) by auto
  have dleft: "deg s2 i + (if i = cur then 1 else 0) + (if i = w then 1 else 0) = deg s i" if "i < 2 * n" "i \<noteq> v" for i
    using d1 [OF that(1)] d2 [OF that(1)] that(2) pos(1,4) by auto
  have dv: "deg s2 v + 2 = deg s v"
    using d1 [OF s1(3)] d2 [OF s1(3)] pos(2,3) by auto
  have ev: "even (deg s2 v)"
    using dv \<open>even (deg s v)\<close> by (metis even_add dvd_refl)
  have C1: "?C False i = C False i + (if i = cur \<or> i = v then 1 else 0)" "?C True i = C True i + (if i = v \<or> i = w then 1 else 0)" for i
    by (simp_all add: bump_def)
  have "deg s2 i + ?C False i + ?C True i = T i
      \<and> ?C False i + (if w \<noteq> node \<and> i = w then 1 else 0) = ?C True i + (if w \<noteq> node \<and> i = node then 1 else 0)
      \<and> (even (deg s2 i) \<longleftrightarrow> w = node \<or> (i \<noteq> node \<and> i \<noteq> w))" if i: "i < 2 * n" for i
  proof (cases "i = v")
    case True
    then show ?thesis
      using dd [OF i] bal [OF i] par [OF i] dv cv ev unfolding C1 by auto
  next
    case False
    have CF: "?C False i = C False i + (if i = cur then 1 else 0)" and CT: "?C True i = C True i + (if i = w then 1 else 0)"
      using False by (simp_all add: C1)
    have "deg s2 i + ?C False i + ?C True i = T i"
      unfolding CF CT using dd [OF i] dleft [OF i False] by linarith
    moreover have "?C False i + (if w \<noteq> node \<and> i = w then 1 else 0) = ?C True i + (if w \<noteq> node \<and> i = node then 1 else 0)"
      unfolding CF CT using bal [OF i] by (cases "i = cur"; cases "i = w"; cases "i = node") simp_all
    moreover have "even (deg s2 i) \<longleftrightarrow> w = node \<or> (i \<noteq> node \<and> i \<noteq> w)"
      using par [OF i] unfolding dleft [OF i False, symmetric] by (cases "i = cur"; cases "i = w") auto
    ultimately show ?thesis
      by blast
  qed
  then have "at T node w ?C s2"
    using s2(4) unfolding at_def by blast
  moreover have le: "deg s2 i \<le> deg s i" if "i < 2 * n" for i
    using d1 [OF that] d2 [OF that] by simp
  moreover have "(\<Sum>i<n. deg s2 i) < (\<Sum>i<n. deg s i)"
  proof (rule sum_strict_mono_ex1)
    show "\<forall>i \<in> {..<n}. deg s2 i \<le> deg s i" using le by simp
    show "\<exists>i \<in> {..<n}. deg s2 i < deg s i"
      using dleft [of cur] cv(1) lt(2) by (intro bexI [of _ cur]) auto
  qed simp
  ultimately show ?thesis
    using s1(1) s2(1,2) by auto
qed

lemma walk_ok:
  assumes "at T node cur C s" "node < n" "cur < n"
  shows "wp (walk node cur s) (\<lambda>s'. (\<exists>C'. at T node node C' s') \<and> deg s' node = 0 \<and> (\<forall>i < 2 * n. deg s' i \<le> deg s i))"
  using assms
proof (induction "\<Sum>i<n. deg s i" arbitrary: cur C s rule: less_induct)
  case less
  have inv: "inv C s" using less.prems(1) by (simp add: at_def)
  show ?case
  proof (cases "deg s node = 0")
    case True
    have "cur = node"
      using less.prems(1,2) True unfolding at_def
      by (metis dvd_0_right less_le_trans mult_2 trans_le_add1 order_refl)
    then show ?thesis
      using True less.prems(1) by (auto simp: walk_unfold [OF inv less.prems(2)])
  next
    case False
    obtain v s1 w s2 where r: "peel False cur s = Some (v, s1)" "peel True v s1 = Some (w, s2)" "w < n"
        "\<exists>C'. at T node w C' s2" "(\<Sum>i<n. deg s2 i) < (\<Sum>i<n. deg s i)" "\<forall>i < 2 * n. deg s2 i \<le> deg s i"
      using wpD [OF round_ok [OF less.prems]] False by (fastforce split: bind_splits)
    then obtain C' where "at T node w C' s2" by blast
    from wpD [OF less.hyps [OF r(5) this less.prems(2) r(3)]] obtain s' where
      "walk node w s2 = Some s'" "\<exists>C'. at T node node C' s'" "deg s' node = 0" "\<forall>i < 2 * n. deg s' i \<le> deg s2 i"
      by blast
    then show ?thesis
      using False r(1,2,6) by (auto simp: walk_unfold [OF inv less.prems(2)] intro: order_trans)
  qed
qed

theorem euler_split:
  assumes "inv (\<lambda>_ _. 0) s" "\<forall>w < 2 * n. even (deg s w)"
  shows "wp (foldo (\<lambda>node s. walk node node s) [0..<n] s)
    (\<lambda>s'. \<exists>C. inv C s' \<and> (\<forall>w < 2 * n. deg s' w = 0 \<and> 2 * C False w = deg s w \<and> 2 * C True w = deg s w))"
proof -
  define J where "J = (\<lambda>i s'. (\<exists>C. inv C s' \<and> (\<forall>w < 2 * n. deg s' w + C False w + C True w = deg s w
    \<and> C False w = C True w \<and> even (deg s' w))) \<and> (\<forall>w < i. deg s' w = 0))"
  have "wp (foldo (\<lambda>node s. walk node node s) [0..<n] s) (J (length [0..<n]))"
  proof (rule wp_foldo [where P = J])
    show "J 0 s"
      using assms by (auto simp: J_def)
    fix i s1 assume i: "i < length [0..<n]" and "J i s1"
    then obtain C where C: "at (deg s) i i C s1" and z: "\<forall>w < i. deg s1 w = 0"
      by (auto simp: J_def at_def)
    have "wp (walk i i s1) (J (Suc i))"
    proof (rule wp_mono [OF walk_ok [OF C]])
      fix s2 assume s2: "(\<exists>C'. at (deg s) i i C' s2) \<and> deg s2 i = 0 \<and> (\<forall>w < 2 * n. deg s2 w \<le> deg s1 w)"
      then have "\<forall>w < Suc i. deg s2 w = 0"
        using z i by (auto simp: less_Suc_eq) (metis le_zero_eq less_trans mult_2 trans_less_add1)
      then show "J (Suc i) s2"
        using s2 by (auto simp: J_def at_def)
    qed (use i in simp_all)
    then show "wp (walk ([0..<n] ! i) ([0..<n] ! i) s1) (J (Suc i))"
      using i by simp
  qed
  then show ?thesis
  proof (rule wp_mono)
    fix s' assume "J (length [0..<n]) s'"
    then obtain C where C: "inv C s'" and eq: "\<forall>w < 2 * n. deg s' w + C False w + C True w = deg s w \<and> C False w = C True w"
      and z: "\<forall>w < n. deg s' w = 0"
      by (auto simp: J_def)
    have "deg s' w = 0 \<and> 2 * C False w = deg s w \<and> 2 * C True w = deg s w" if "w < 2 * n" for w
      using no_left_edges [OF C z that] eq [rule_format, OF that] by simp
    then show "\<exists>C. inv C s' \<and> (\<forall>w < 2 * n. deg s' w = 0 \<and> 2 * C False w = deg s w \<and> 2 * C True w = deg s w)"
      using C by blast
  qed
qed

end

end
