(* ===== verification/FP_Split.thy ===== *)
theory FP_Split
  imports FP_Graph FP_Euler
begin

unbundle bit_operations_syntax

text \<open>
  Consistent bipartite graphs, the effect of adding and removing an edge on them, and the
  correctness of the Euler split: \<^verbatim>\<open>split\<close> is an instance of \<^verbatim>\<open>euler_walk\<close>.
\<close>

subsection \<open>Definitions: consistent graphs\<close>

definition gbit :: "graph_edges \<Rightarrow> nat \<Rightarrow> nat \<Rightarrow> bool" where
  "gbit E u i = bit (neighbor_bitmaps E u) i"

definition partner :: "graph_structure \<Rightarrow> nat \<times> nat \<Rightarrow> nat \<times> nat" where
  "partner S p = (unat (nb_id (vertices S (fst p) (snd p))), unat (nb_index (vertices S (fst p) (snd p))))"

definition gdeg :: "graph_edges \<Rightarrow> nat \<Rightarrow> nat" where
  "gdeg E u = card {i. gbit E u i}"

text \<open>
  Every place in use leads to the other side, to a place in use there that leads back.
\<close>

definition graph_ok :: "graph_structure \<Rightarrow> graph_edges \<Rightarrow> bool" where
  "graph_ok S E \<longleftrightarrow> gs_n S \<le> 64 \<and> (\<forall>u i. u < 2 * gs_n S \<longrightarrow> gbit E u i \<longrightarrow>
     fst (partner S (u, i)) < 2 * gs_n S \<and> snd (partner S (u, i)) < 64
     \<and> (fst (partner S (u, i)) < gs_n S \<longleftrightarrow> gs_n S \<le> u)
     \<and> partner S (partner S (u, i)) = (u, i)
     \<and> gbit E (fst (partner S (u, i))) (snd (partner S (u, i))))"

subsection \<open>Places and degrees\<close>

lemma gbit_lt: "gbit E u i \<Longrightarrow> i < 64"
  by (simp add: gbit_def bit_word_lt)

lemma finite_places [simp]: "finite {i. gbit E u i}"
  by (rule finite_subset [of _ "{..<64}"]) (auto dest: gbit_lt)

lemma gdeg_0_iff: "gdeg E u = 0 \<longleftrightarrow> neighbor_bitmaps E u = 0"
proof -
  have "gdeg E u = 0 \<longleftrightarrow> (\<forall>i. \<not> gbit E u i)"
    by (auto simp: gdeg_def)
  also have "\<dots> \<longleftrightarrow> neighbor_bitmaps E u = 0"
    by (auto simp: gbit_def intro: bit_word_eqI)
  finally show ?thesis .
qed

lemma gdeg_le_64: "gdeg E u \<le> 64"
proof -
  have "gdeg E u \<le> card {..<64 :: nat}"
    unfolding gdeg_def by (rule card_mono) (auto dest: gbit_lt)
  then show ?thesis by simp
qed

lemma gdeg_free: "gdeg E u < 64 \<Longrightarrow> NOT (neighbor_bitmaps E u) \<noteq> 0"
proof
  assume d: "gdeg E u < 64" and "NOT (neighbor_bitmaps E u) = 0"
  then have "neighbor_bitmaps E u = - 1"
    by (metis bit.compl_zero bit.double_compl)
  then have "{i. gbit E u i} = {..<64}"
    by (auto simp: gbit_def bit_u64_all)
  then show False
    using d by (simp add: gdeg_def)
qed

lemma bit_place [word_bits]: "bit (push_bit i (1 :: u64)) k \<longleftrightarrow> k = i \<and> i < 64"
  by (auto simp: word_bits simp del: push_bit_of_1)

lemma gbit_clear:
  assumes "u \<noteq> v"
  shows "gbit (clear_edge E u i v j) w k \<longleftrightarrow> gbit E w k \<and> (w, k) \<noteq> (u, i) \<and> (w, k) \<noteq> (v, j)"
  using assms by (auto simp: gbit_def clear_edge_def word_bits simp del: push_bit_of_1 dest: bit_word_lt)

lemma gbit_mark:
  assumes "u \<noteq> v" "i < 64" "j < 64"
  shows "gbit (mark_edge E u i v j) w k \<longleftrightarrow> gbit E w k \<or> (w, k) = (u, i) \<or> (w, k) = (v, j)"
  using assms by (auto simp: gbit_def mark_edge_def word_bits simp del: push_bit_of_1)

lemma gdeg_clear:
  assumes "u \<noteq> v" "gbit E u i" "gbit E v j"
  shows "gdeg (clear_edge E u i v j) w = (if w = u \<or> w = v then gdeg E w - 1 else gdeg E w)"
proof -
  have "{k. gbit (clear_edge E u i v j) w k} = {k. gbit E w k} - (if w = u then {i} else if w = v then {j} else {})"
    using assms(1) by (auto simp: gbit_clear)
  then show ?thesis
    using assms by (auto simp: gdeg_def card_Diff_subset)
qed

lemma gdeg_mark:
  assumes "u \<noteq> v" "i < 64" "j < 64" "\<not> gbit E u i" "\<not> gbit E v j"
  shows "gdeg (mark_edge E u i v j) w = (if w = u \<or> w = v then Suc (gdeg E w) else gdeg E w)"
proof -
  have "{k. gbit (mark_edge E u i v j) w k} = {k. gbit E w k} \<union> (if w = u then {i} else if w = v then {j} else {})"
    using assms(1-3) by (auto simp: gbit_mark)
  then show ?thesis
    using assms by (auto simp: gdeg_def)
qed

lemma graph_okD:
  assumes "graph_ok S E" "u < 2 * gs_n S" "gbit E u i" "partner S (u, i) = (v, j)"
  shows "v < 2 * gs_n S" "j < 64" "v < gs_n S \<longleftrightarrow> gs_n S \<le> u" "partner S (v, j) = (u, i)" "gbit E v j" "u \<noteq> v"
proof -
  have *: "fst (partner S (u, i)) < 2 * gs_n S \<and> snd (partner S (u, i)) < 64
     \<and> (fst (partner S (u, i)) < gs_n S \<longleftrightarrow> gs_n S \<le> u)
     \<and> partner S (partner S (u, i)) = (u, i)
     \<and> gbit E (fst (partner S (u, i))) (snd (partner S (u, i)))"
    using assms(1-3) unfolding graph_ok_def by blast
  then show "v < 2 * gs_n S" "j < 64" "v < gs_n S \<longleftrightarrow> gs_n S \<le> u" "partner S (v, j) = (u, i)" "gbit E v j"
    unfolding assms(4) by simp_all
  then show "u \<noteq> v" by auto
qed

lemma graph_okI:
  assumes "gs_n S \<le> 64"
    and "\<And>u i v j. u < 2 * gs_n S \<Longrightarrow> gbit E u i \<Longrightarrow> partner S (u, i) = (v, j) \<Longrightarrow>
      v < 2 * gs_n S \<and> j < 64 \<and> (v < gs_n S \<longleftrightarrow> gs_n S \<le> u) \<and> partner S (v, j) = (u, i) \<and> gbit E v j"
  shows "graph_ok S E"
  unfolding graph_ok_def using assms by (metis prod.collapse)

lemma graph_ok_clear:
  assumes ok: "graph_ok S E" and u: "u < 2 * gs_n S" "gbit E u i" "partner S (u, i) = (v, j)"
  shows "graph_ok S (clear_edge E u i v j)"
proof (rule graph_okI)
  note uv = graph_okD [OF ok u]
  show "gs_n S \<le> 64" using ok by (simp add: graph_ok_def)
  fix w k x l
  assume w: "w < 2 * gs_n S" "gbit (clear_edge E u i v j) w k" and p: "partner S (w, k) = (x, l)"
  then have b: "gbit E w k" "(w, k) \<noteq> (u, i)" "(w, k) \<noteq> (v, j)"
    by (simp_all add: gbit_clear [OF uv(6)])
  note wx = graph_okD [OF ok w(1) b(1) p]
  have "(x, l) \<noteq> (u, i)" "(x, l) \<noteq> (v, j)"
    using wx(4) u(3) uv(4) b(2,3) by auto
  then show "x < 2 * gs_n S \<and> l < 64 \<and> (x < gs_n S \<longleftrightarrow> gs_n S \<le> w) \<and> partner S (x, l) = (w, k)
      \<and> gbit (clear_edge E u i v j) x l"
    using wx by (simp add: gbit_clear [OF uv(6)])
qed

lemma graph_ok_mark:
  assumes ok: "graph_ok S E" and uv: "u < 2 * gs_n S" "v < 2 * gs_n S" "v < gs_n S \<longleftrightarrow> gs_n S \<le> u"
    and ij: "i < 64" "j < 64" and p: "partner S (u, i) = (v, j)" "partner S (v, j) = (u, i)"
  shows "graph_ok S (mark_edge E u i v j)"
proof (rule graph_okI)
  have ne: "u \<noteq> v" using uv(3) by auto
  have mk: "gbit (mark_edge E u i v j) u i" "gbit (mark_edge E u i v j) v j"
    by (simp_all add: gbit_mark [OF ne ij])
  show "gs_n S \<le> 64" using ok by (simp add: graph_ok_def)
  fix w k x l
  assume w: "w < 2 * gs_n S" "gbit (mark_edge E u i v j) w k" and pw: "partner S (w, k) = (x, l)"
  consider "gbit E w k" | "(w, k) = (u, i)" | "(w, k) = (v, j)"
    using w(2) by (auto simp: gbit_mark [OF ne ij])
  then show "x < 2 * gs_n S \<and> l < 64 \<and> (x < gs_n S \<longleftrightarrow> gs_n S \<le> w) \<and> partner S (x, l) = (w, k)
      \<and> gbit (mark_edge E u i v j) x l"
  proof cases
    case 1
    then show ?thesis
      using graph_okD [OF ok w(1) 1 pw] by (simp add: gbit_mark [OF ne ij])
  qed (use uv ij p pw mk in auto)
qed

lemma is_consistent_ok:
  assumes "graph_ok S E"
  shows "is_consistent S E"
proof -
  have "place_consistent S u i" if "u < 2 * gs_n S" "gbit E u i" for u i
  proof -
    obtain v j where p: "partner S (u, i) = (v, j)"
      by fastforce
    have "gs_n S \<le> 64"
      using assms by (simp add: graph_ok_def)
    then show ?thesis
      using graph_okD [OF assms that p] p
      by (auto simp: place_consistent_def partner_def MAX_GRAPH_NODES_def MAX_DEGREE_def Let_def)
  qed
  then show ?thesis
    by (simp add: is_consistent_def list_all_iff gbit_def)
qed

lemma find_neighbor_ok:
  assumes ok: "graph_ok S E" and u: "u < 2 * gs_n S" "0 < gdeg E u"
  obtains i v j where "find_neighbor S E u = Some (i, v, j)" "gbit E u i" "partner S (u, i) = (v, j)"
proof -
  let ?i = "lsb_of (neighbor_bitmaps E u)"
  have nz: "neighbor_bitmaps E u \<noteq> 0"
    using u(2) gdeg_0_iff [of E u] by auto
  have b: "gbit E u ?i"
    using lsb_of_Some [OF nz] by (simp add: gbit_def)
  obtain v j where p: "partner S (u, ?i) = (v, j)"
    by fastforce
  have "gs_n S \<le> 64"
    using ok by (simp add: graph_ok_def)
  then have "find_neighbor S E u = Some (?i, v, j)"
    using u(1) nz graph_okD [OF ok u(1) b p] p
    by (auto simp: find_neighbor_def guard_o_def partner_def MAX_GRAPH_NODES_def Let_def)
  then show ?thesis
    using that b p by blast
qed

subsection \<open>One peeled edge\<close>

text \<open>
  \<^verbatim>\<open>split_inv\<close>: the edges still to be split, those given to the first and to the second graph are
  consistent graphs, pairwise disjoint and together the edges there were at the start; \<^verbatim>\<open>C\<close> counts
  what each vertex was given.
\<close>

definition apart :: "nat \<Rightarrow> graph_edges \<Rightarrow> graph_edges \<Rightarrow> bool" where
  "apart m E F \<longleftrightarrow> (\<forall>u < m. \<forall>i. \<not> (gbit E u i \<and> gbit F u i))"

definition split_inv :: "graph_structure \<Rightarrow> (nat \<Rightarrow> nat \<Rightarrow> bool) \<Rightarrow> graph_edges \<Rightarrow> graph_edges
    \<Rightarrow> (bool \<Rightarrow> nat \<Rightarrow> nat) \<Rightarrow> graph_edges \<times> graph_edges \<times> graph_edges \<Rightarrow> bool" where
  "split_inv S U b1 b2 C = (\<lambda>(E, e1, e2). graph_ok S E \<and> graph_ok S e1 \<and> graph_ok S e2
     \<and> apart (2 * gs_n S) E e1 \<and> apart (2 * gs_n S) E e2 \<and> apart (2 * gs_n S) e1 e2
     \<and> (\<forall>u < 2 * gs_n S. (\<forall>i. U u i \<longleftrightarrow> gbit E u i \<or> gbit e1 u i \<or> gbit e2 u i)
          \<and> gdeg e1 u = gdeg b1 u + C False u \<and> gdeg e2 u = gdeg b2 u + C True u
          \<and> (\<forall>i. (gbit b1 u i \<longrightarrow> gbit e1 u i) \<and> (gbit b2 u i \<longrightarrow> gbit e2 u i))))"

lemma move_edge:
  assumes E: "graph_ok S E" "u < 2 * gs_n S" "gbit E u i" "partner S (u, i) = (v, j)"
    and F: "graph_ok S F" "apart (2 * gs_n S) E F" and G: "apart (2 * gs_n S) E G" "apart (2 * gs_n S) F G"
  defines "E' \<equiv> clear_edge E u i v j" and "F' \<equiv> mark_edge F u i v j"
  shows "graph_ok S E'" "graph_ok S F'" "apart (2 * gs_n S) E' F'" "apart (2 * gs_n S) E' G" "apart (2 * gs_n S) F' G"
    "peeled (gs_n S) (gdeg E) (gdeg E') u v"
    "\<And>w. w < 2 * gs_n S \<Longrightarrow> gdeg F' w = (if w = u \<or> w = v then Suc (gdeg F w) else gdeg F w)"
    "\<And>w k. w < 2 * gs_n S \<Longrightarrow> gbit E' w k \<or> gbit F' w k \<longleftrightarrow> gbit E w k \<or> gbit F w k"
    "\<And>w k. gbit F w k \<Longrightarrow> gbit F' w k"
proof -
  note uv = graph_okD [OF E]
  have i: "i < 64" using E(3) by (rule gbit_lt)
  have nf: "\<not> gbit F u i" "\<not> gbit F v j"
    using F(2) E(2,3) uv(1,5) by (auto simp: apart_def)
  show "graph_ok S E'"
    unfolding E'_def by (rule graph_ok_clear [OF E])
  show "graph_ok S F'"
    unfolding F'_def by (rule graph_ok_mark [OF F(1) E(2) uv(1,3) i uv(2) E(4) uv(4)])
  note c = gbit_clear [OF uv(6), of E i j] and m = gbit_mark [OF uv(6) i uv(2), of F]
  show "apart (2 * gs_n S) E' F'" "apart (2 * gs_n S) E' G" "apart (2 * gs_n S) F' G"
    using F(2) G uv(5) E(3) unfolding apart_def E'_def F'_def c m by auto
  show "gbit E' w k \<or> gbit F' w k \<longleftrightarrow> gbit E w k \<or> gbit F w k" if "w < 2 * gs_n S" for w k
    using uv(5) E(3) unfolding E'_def F'_def c m by auto
  show "gbit F w k \<Longrightarrow> gbit F' w k" for w k
    by (simp add: F'_def m)
  show "gdeg F' w = (if w = u \<or> w = v then Suc (gdeg F w) else gdeg F w)" for w
    unfolding F'_def by (rule gdeg_mark [OF uv(6) i uv(2) nf])
  have "gdeg E u \<noteq> 0" "gdeg E v \<noteq> 0"
    using E(3) uv(5) by (auto simp: gdeg_def)
  then show "peeled (gs_n S) (gdeg E) (gdeg E') u v"
    using gdeg_clear [OF uv(6) E(3) uv(5)] by (simp add: peeled_def E'_def)
qed

definition split_peel :: "graph_structure \<Rightarrow> bool \<Rightarrow> nat \<Rightarrow> graph_edges \<times> graph_edges \<times> graph_edges
    \<Rightarrow> (nat \<times> graph_edges \<times> graph_edges \<times> graph_edges) option" where
  "split_peel S c u = (\<lambda>(E, e1, e2). do {
     (v, E, e) \<leftarrow> split_edge S E (if c then e2 else e1) u;
     guard_o (is_consistent S E);
     guard_o (is_consistent S e);
     Some (v, E, if c then e1 else e, if c then e else e2) })"

lemma split_peel_ok:
  assumes inv: "split_inv S U b1 b2 C s" and u: "u < 2 * gs_n S" "0 < gdeg (fst s) u"
  shows "wp (split_peel S c u s) (\<lambda>(v, s'). v < 2 * gs_n S \<and> (v < gs_n S \<longleftrightarrow> gs_n S \<le> u)
    \<and> peeled (gs_n S) (gdeg (fst s)) (gdeg (fst s')) u v \<and> split_inv S U b1 b2 (bump C c u v) s')"
proof -
  obtain E e1 e2 where s: "s = (E, e1, e2)" by (cases s)
  have g: "graph_ok S E" "graph_ok S e1" "graph_ok S e2" "apart (2 * gs_n S) E e1" "apart (2 * gs_n S) E e2"
      "apart (2 * gs_n S) e1 e2" "apart (2 * gs_n S) e2 e1"
    and d: "\<And>w. w < 2 * gs_n S \<Longrightarrow> (\<forall>i. U w i \<longleftrightarrow> gbit E w i \<or> gbit e1 w i \<or> gbit e2 w i)
          \<and> gdeg e1 w = gdeg b1 w + C False w \<and> gdeg e2 w = gdeg b2 w + C True w
          \<and> (\<forall>i. (gbit b1 w i \<longrightarrow> gbit e1 w i) \<and> (gbit b2 w i \<longrightarrow> gbit e2 w i))"
    using inv unfolding s split_inv_def by (auto simp: apart_def)
  obtain i v j where f: "find_neighbor S E u = Some (i, v, j)" "gbit E u i" "partner S (u, i) = (v, j)"
    using find_neighbor_ok [OF g(1) u(1)] u(2) s by auto
  note uv = graph_okD [OF g(1) u(1) f(2,3)]
  show ?thesis
  proof (cases c)
    case True
    note m = move_edge [OF g(1) u(1) f(2,3) g(3,5,4,7)]
    have "(\<forall>k. U w k \<longleftrightarrow> gbit (clear_edge E u i v j) w k \<or> gbit (e1) w k \<or> gbit (mark_edge e2 u i v j) w k)
        \<and> gdeg (e1) w = gdeg b1 w + bump C True u v False w \<and> gdeg (mark_edge e2 u i v j) w = gdeg b2 w + bump C True u v True w
        \<and> (\<forall>k. (gbit b1 w k \<longrightarrow> gbit (e1) w k) \<and> (gbit b2 w k \<longrightarrow> gbit (mark_edge e2 u i v j) w k))"
      if w: "w < 2 * gs_n S" for w
      using d [OF w] m(7) [OF w] m(8) [OF w] m(9) [of w] by (auto simp: bump_def)
    moreover have "apart (2 * gs_n S) (e1) (mark_edge e2 u i v j)"
      using m(5) by (auto simp: apart_def)
    ultimately have "split_inv S U b1 b2 (bump C True u v) (clear_edge E u i v j, e1, mark_edge e2 u i v j)"
      unfolding split_inv_def prod.case using g(2) m(1-4) by blast
    then show ?thesis
      using uv(1,3) m(1,2,6) True by (simp add: split_peel_def s split_edge_def f(1) is_consistent_ok)
  next
    case False
    note m = move_edge [OF g(1) u(1) f(2,3) g(2,4,5,6)]
    have "(\<forall>k. U w k \<longleftrightarrow> gbit (clear_edge E u i v j) w k \<or> gbit (mark_edge e1 u i v j) w k \<or> gbit (e2) w k)
        \<and> gdeg (mark_edge e1 u i v j) w = gdeg b1 w + bump C False u v False w \<and> gdeg (e2) w = gdeg b2 w + bump C False u v True w
        \<and> (\<forall>k. (gbit b1 w k \<longrightarrow> gbit (mark_edge e1 u i v j) w k) \<and> (gbit b2 w k \<longrightarrow> gbit (e2) w k))"
      if w: "w < 2 * gs_n S" for w
      using d [OF w] m(7) [OF w] m(8) [OF w] m(9) [of w] by (auto simp: bump_def)
    moreover have "apart (2 * gs_n S) (mark_edge e1 u i v j) (e2)"
      using m(5) by (auto simp: apart_def)
    ultimately have "split_inv S U b1 b2 (bump C False u v) (clear_edge E u i v j, mark_edge e1 u i v j, e2)"
      unfolding split_inv_def prod.case using g(3) m(1-4) by blast
    then show ?thesis
      using uv(1,3) m(1,2,6) False by (simp add: split_peel_def s split_edge_def f(1) is_consistent_ok)
  qed
qed

lemma gdeg_no_left:
  assumes ok: "graph_ok S E" and z: "\<forall>u < gs_n S. gdeg E u = 0" and v: "v < 2 * gs_n S"
  shows "gdeg E v = 0"
proof (rule ccontr)
  assume "gdeg E v \<noteq> 0"
  then obtain i where i: "gbit E v i"
    by (auto simp: gdeg_def)
  obtain w j where p: "partner S (v, i) = (w, j)"
    by fastforce
  note vw = graph_okD [OF ok v i p]
  have "v < gs_n S \<or> w < gs_n S"
    using vw(3) by auto
  then show False
  proof
    assume "v < gs_n S"
    then have "gdeg E v = 0" using z by blast
    then show False using i by (simp add: gdeg_def)
  next
    assume "w < gs_n S"
    then have "gdeg E w = 0" using z by blast
    then show False using vw(5) by (simp add: gdeg_def)
  qed
qed

lemma split_loop_unfold:
  assumes "split_inv S U b1 b2 C s" "node < gs_n S"
  shows "split_loop S node cur s = (if gdeg (fst s) node = 0 then Some s
    else do { (v, s) \<leftarrow> split_peel S False cur s; (w, s) \<leftarrow> split_peel S True v s; split_loop S node w s })"
proof -
  obtain E e1 e2 where s: "s = (E, e1, e2)" by (cases s)
  have "gs_n S \<le> 64"
    using assms(1) by (simp add: s split_inv_def graph_ok_def)
  then have h: "has_neighbor E node = Some (gdeg E node \<noteq> 0)"
    using assms(2) by (simp add: has_neighbor_def guard_o_def MAX_GRAPH_NODES_def gdeg_0_iff)
  show ?thesis
    unfolding s by (subst split_loop.simps) (auto simp: h split_peel_def split: Option.bind_split)
qed

interpretation sp: euler_walk "gs_n S" "\<lambda>s. gdeg (fst s)" "split_peel S" "split_loop S" "split_inv S U b1 b2"
  for S :: graph_structure and U :: "nat \<Rightarrow> nat \<Rightarrow> bool" and b1 b2 :: graph_edges
proof
  fix C s node cur u v
  show "split_inv S U b1 b2 C s \<Longrightarrow> node < gs_n S \<Longrightarrow> split_loop S node cur s = (if gdeg (fst s) node = 0 then Some s
      else do { (v, s) \<leftarrow> split_peel S False cur s; (w, s) \<leftarrow> split_peel S True v s; split_loop S node w s })"
    by (rule split_loop_unfold)
  show "split_inv S U b1 b2 C s \<Longrightarrow> u < gs_n S \<Longrightarrow> 0 < gdeg (fst s) u \<Longrightarrow>
      wp (split_peel S False u s) (\<lambda>(v, s'). gs_n S \<le> v \<and> v < 2 * gs_n S
        \<and> peeled (gs_n S) (gdeg (fst s)) (gdeg (fst s')) u v \<and> split_inv S U b1 b2 (bump C False u v) s')"
    by (rule wp_mono [OF split_peel_ok]) auto
  show "split_inv S U b1 b2 C s \<Longrightarrow> gs_n S \<le> u \<Longrightarrow> u < 2 * gs_n S \<Longrightarrow> 0 < gdeg (fst s) u \<Longrightarrow>
      wp (split_peel S True u s) (\<lambda>(v, s'). v < gs_n S
        \<and> peeled (gs_n S) (gdeg (fst s)) (gdeg (fst s')) u v \<and> split_inv S U b1 b2 (bump C True u v) s')"
    by (rule wp_mono [OF split_peel_ok]) auto
  show "split_inv S U b1 b2 C s \<Longrightarrow> \<forall>u < gs_n S. gdeg (fst s) u = 0 \<Longrightarrow> v < 2 * gs_n S \<Longrightarrow> gdeg (fst s) v = 0"
    by (rule gdeg_no_left) (auto simp: split_inv_def)
qed

subsection \<open>The Euler split\<close>

lemma split_ok:
  assumes ok: "graph_ok S E" "graph_ok S b1" "graph_ok S b2"
    and ap: "apart (2 * gs_n S) E b1" "apart (2 * gs_n S) E b2" "apart (2 * gs_n S) b1 b2"
    and ev: "\<forall>w < 2 * gs_n S. even (gdeg E w)"
  shows "wp (split S (E, b1, b2)) (\<lambda>(E', e1, e2). graph_ok S e1 \<and> graph_ok S e2 \<and> apart (2 * gs_n S) e1 e2
    \<and> (\<forall>w < 2 * gs_n S. gdeg E' w = 0 \<and> gdeg e1 w = gdeg b1 w + gdeg E w div 2 \<and> gdeg e2 w = gdeg b2 w + gdeg E w div 2
         \<and> (\<forall>i. (gbit e1 w i \<or> gbit e2 w i \<longleftrightarrow> gbit E w i \<or> gbit b1 w i \<or> gbit b2 w i)
              \<and> (gbit b1 w i \<longrightarrow> gbit e1 w i) \<and> (gbit b2 w i \<longrightarrow> gbit e2 w i))))"
proof -
  let ?U = "\<lambda>u i. gbit E u i \<or> gbit b1 u i \<or> gbit b2 u i"
  have "split_inv S ?U b1 b2 (\<lambda>_ _. 0) (E, b1, b2)"
    using ok ap by (simp add: split_inv_def)
  from wpD [OF sp.euler_split [OF this]] ev obtain s' C where s': "split S (E, b1, b2) = Some s'" "split_inv S ?U b1 b2 C s'"
      "\<forall>w < 2 * gs_n S. gdeg (fst s') w = 0 \<and> 2 * C False w = gdeg E w \<and> 2 * C True w = gdeg E w"
    by (auto simp: split_def)
  obtain E' e1 e2 where e: "s' = (E', e1, e2)" by (cases s')
  have "gdeg E' w = 0 \<and> gdeg e1 w = gdeg b1 w + gdeg E w div 2 \<and> gdeg e2 w = gdeg b2 w + gdeg E w div 2
      \<and> (\<forall>i. (gbit e1 w i \<or> gbit e2 w i \<longleftrightarrow> gbit E w i \<or> gbit b1 w i \<or> gbit b2 w i)
           \<and> (gbit b1 w i \<longrightarrow> gbit e1 w i) \<and> (gbit b2 w i \<longrightarrow> gbit e2 w i))" if w: "w < 2 * gs_n S" for w
  proof -
    have c: "gdeg E' w = 0" "2 * C False w = gdeg E w" "2 * C True w = gdeg E w"
      using s'(3) w by (simp_all add: e)
    then have "\<not> gbit E' w i" for i
      by (simp add: gdeg_def)
    moreover have "C False w = gdeg E w div 2" "C True w = gdeg E w div 2"
      using c(2,3) by simp_all
    ultimately show ?thesis
      using c(1) s'(2) w unfolding e split_inv_def by simp
  qed
  then show ?thesis
    using s'(1,2) by (simp add: e split_inv_def)
qed

subsection \<open>Degrees\<close>

lemma card_bits_drop: "card {i. bit (x :: u64) i} = (if bit x 0 then 1 else 0) + card {i. bit (drop_bit 1 x) i}"
proof -
  have "{i. bit x i} = {i. i = 0 \<and> bit x 0} \<union> Suc ` {i. bit (drop_bit 1 x) i}"
  proof (rule set_eqI)
    show "i \<in> {i. bit x i} \<longleftrightarrow> i \<in> {i. i = 0 \<and> bit x 0} \<union> Suc ` {i. bit (drop_bit 1 x) i}" for i
      by (cases i) (auto simp: bit_u64_drop)
  qed
  moreover have "card ({i. i = 0 \<and> bit x 0} \<union> Suc ` {i. bit (drop_bit 1 x) i})
      = card {i :: nat. i = 0 \<and> bit x 0} + card (Suc ` {i. bit (drop_bit 1 x) i})"
    by (rule card_Un_disjoint) (auto intro!: finite_subset [of "{i. bit (drop_bit 1 x) i}" "{..<64}"] dest: bit_word_lt)
  moreover have "card (Suc ` {i. bit (drop_bit 1 x) i}) = card {i. bit (drop_bit 1 x) i}"
    by (rule card_image) simp
  ultimately show ?thesis by simp
qed

lemma degree_loop_eq: "degree_loop b d = d + of_nat (card {i. bit b i})"
proof (induction b d rule: degree_loop.induct)
  case (1 b d)
  show ?case
  proof (cases "b > 0")
    case True
    have "ucast (b AND 1) = (if bit b 0 then 1 else 0 :: u8)"
      by (cases "even b") (simp_all add: and_one_eq bit_0 odd_iff_mod_2_eq_one even_iff_mod_2_eq_zero)
    then show ?thesis
      using 1 True card_bits_drop [of b] by (subst degree_loop.simps) simp
  next
    case False
    then show ?thesis
      by (subst degree_loop.simps) (simp add: word_gt_0 bot_fun_def)
  qed
qed

lemma get_degree_ok: "v < 128 \<Longrightarrow> get_degree E v = Some (of_nat (gdeg E v)) \<and> unat (of_nat (gdeg E v) :: u8) = gdeg E v"
  using gdeg_le_64 [of E v]
  by (simp add: get_degree_def guard_o_def MAX_GRAPH_NODES_def degree_loop_eq gdeg_def gbit_def unat_of_nat)

subsection \<open>Properties of the Euler split\<close>

text \<open>
  C28: the split ends without a failed assertion on every consistent bipartite graph whose
  degrees are even; it uses up the input, every vertex gets exactly half of its edges in
  each of the two output graphs, and every edge is in one of them. (What the outputs held before is kept.)
\<close>

theorem split_halves:
  assumes "graph_ok S E" "graph_ok S b1" "graph_ok S b2"
    and "apart (2 * gs_n S) E b1" "apart (2 * gs_n S) E b2" "apart (2 * gs_n S) b1 b2"
    and "\<forall>w < 2 * gs_n S. even (gdeg E w)" "w < 2 * gs_n S"
  shows "\<exists>E' e1 e2. split S (E, b1, b2) = Some (E', e1, e2) \<and> neighbor_bitmaps E' w = 0
    \<and> gdeg e1 w = gdeg b1 w + gdeg E w div 2 \<and> gdeg e2 w = gdeg b2 w + gdeg E w div 2
    \<and> (gbit e1 w i \<or> gbit e2 w i \<longleftrightarrow> gbit E w i \<or> gbit b1 w i \<or> gbit b2 w i)
    \<and> graph_ok S e1 \<and> graph_ok S e2 \<and> apart (2 * gs_n S) e1 e2"
  using wpD [OF split_ok [OF assms(1-7)]] assms(8) by (auto simp: gdeg_0_iff [symmetric])

definition demo_structure :: graph_structure where
  "demo_structure = \<lparr> gs_n = 1, vertices = (\<lambda>u i. \<lparr> nb_id = (if u = 0 then 1 else 0), nb_index = of_nat i \<rparr>) \<rparr>"

definition demo_graph :: "u64 \<Rightarrow> graph_edges" where
  "demo_graph x = \<lparr> neighbor_bitmaps = (\<lambda>_. x) \<rparr>"

lemma demo_graph_ok: "graph_ok demo_structure (demo_graph x)"
proof (rule graph_okI)
  show "gs_n demo_structure \<le> 64" by (simp add: demo_structure_def)
  fix u i v j
  assume u: "u < 2 * gs_n demo_structure" "gbit (demo_graph x) u i" and p: "partner demo_structure (u, i) = (v, j)"
  have i: "i < 64" using u(2) by (rule gbit_lt)
  have "v = (if u = 0 then 1 else 0)" "j = i"
    using p i by (auto simp: partner_def demo_structure_def unat_of_nat)
  then show "v < 2 * gs_n demo_structure \<and> j < 64 \<and> (v < gs_n demo_structure \<longleftrightarrow> gs_n demo_structure \<le> u)
      \<and> partner demo_structure (v, j) = (u, i) \<and> gbit (demo_graph x) v j"
    using u i by (auto simp: partner_def demo_structure_def gbit_def demo_graph_def unat_of_nat)
qed

lemma gdeg_demo: "gdeg (demo_graph 3) w = 2"
proof -
  have "bit (3 :: u64) i \<longleftrightarrow> i \<in> {0, 1}" for i
  proof -
    have "bit (mask 2 :: u64) i \<longleftrightarrow> i < 2" by (auto simp: bit_mask_iff possible_bit_def)
    moreover have "(mask 2 :: u64) = 3" by (simp add: mask_eq_exp_minus_1)
    ultimately show ?thesis by auto
  qed
  then have "{i. gbit (demo_graph 3) w i} = {0, 1}"
    by (auto simp: gbit_def demo_graph_def)
  then show ?thesis by (simp add: gdeg_def)
qed

lemma gdeg_demo_0: "gdeg (demo_graph 0) w = 0"
  by (simp add: gdeg_0_iff demo_graph_def)

theorem split_halves_witness:
  "\<exists>E' e1 e2. split demo_structure (demo_graph 3, demo_graph 0, demo_graph 0) = Some (E', e1, e2)
    \<and> neighbor_bitmaps E' 0 = 0 \<and> gdeg e1 0 = 1 \<and> gdeg e2 0 = 1"
proof -
  have ap: "apart (2 * gs_n demo_structure) E (demo_graph 0)" for E
    by (simp add: apart_def gbit_def demo_graph_def)
  have n: "0 < 2 * gs_n demo_structure" by (simp add: demo_structure_def)
  show ?thesis
    using split_halves [OF demo_graph_ok [of 3] demo_graph_ok [of 0] demo_graph_ok [of 0] ap ap ap _ n, of 0] gdeg_demo gdeg_demo_0
    by auto
qed

end
