(* ===== verification/FP_Paths.thy ===== *)
theory FP_Paths
  imports FP_Bins FP_Split
begin

unbundle bit_operations_syntax

text \<open>
  Path selection (\<^verbatim>\<open>src/src/graph-algo/path_selection.h\<close> and \<^verbatim>\<open>path_selection.c\<close>): the admitted traffic
  of a timeslot becomes a multigraph between racks, is filled up with dummy edges to a regular
  graph, and two rounds of Euler splits give every edge one of four paths. Racks are
  natural numbers; arithmetic on \<^verbatim>\<open>uint8_t\<close> and \<^verbatim>\<open>uint16_t\<close> variables is taken modulo 256 and 65536
  where it could wrap. What uninitialised local arrays hold is an argument.
\<close>

subsection \<open>Definitions: racks and nodes\<close>

definition NUM_PATHS :: nat where "NUM_PATHS = 4"
definition PATH_MASK :: u16 where "PATH_MASK = 0x3FFF"
definition PATH_SHIFT :: nat where "PATH_SHIFT = 14"

record racks_to_nodes =
  rn_size :: nat
  admitted_indices :: "nat \<Rightarrow> nat"

type_synonym racks_to_nodes_mapping = "nat \<Rightarrow> racks_to_nodes"

definition init_racks_to_nodes_mapping :: "racks_to_nodes_mapping \<Rightarrow> racks_to_nodes_mapping" where
  "init_racks_to_nodes_mapping m =
     (\<lambda>i. if i < MAX_RACKS * MAX_RACKS then (m i)\<lparr> rn_size := 0 \<rparr> else m i)"

definition get_rack_pair_index :: "nat \<Rightarrow> nat \<Rightarrow> nat option" where
  "get_rack_pair_index src_rack dst_rack = do {
     guard_o (src_rack < MAX_RACKS);
     guard_o (dst_rack < MAX_RACKS);
     Some (src_rack * MAX_RACKS + dst_rack) }"

definition admitted_edge_at :: "admitted_traffic \<Rightarrow> nat \<Rightarrow> admitted_edge option" where
  "admitted_edge_at admitted i = do {
     guard_o (i < MAX_NODES);
     Some (at_edges admitted i) }"

definition rack_of :: "u16 \<Rightarrow> nat" where
  "rack_of node = unat (fp_rack_from_node_id node)"

definition map_rack_edge :: "admitted_traffic \<Rightarrow> nat \<Rightarrow> racks_to_nodes_mapping \<Rightarrow> racks_to_nodes_mapping option" where
  "map_rack_edge admitted i m = do {
     edge \<leftarrow> admitted_edge_at admitted i;
     let src_rack = rack_of (a_src edge);
     let dst_rack = rack_of (a_dst edge);
     rack_pair_index \<leftarrow> get_rack_pair_index src_rack dst_rack;
     let rack_pair = m rack_pair_index;
     guard_o (rn_size rack_pair < MAX_NODES_PER_RACK);
     Some (m(rack_pair_index := rack_pair\<lparr>
       admitted_indices := (admitted_indices rack_pair)(rn_size rack_pair := i),
       rn_size := rn_size rack_pair + 1 \<rparr>)) }"

definition map_racks_to_nodes :: "admitted_traffic \<Rightarrow> racks_to_nodes_mapping \<Rightarrow> racks_to_nodes_mapping option" where
  "map_racks_to_nodes admitted m = foldo (map_rack_edge admitted) [0..<unat (at_size admitted)] m"

subsection \<open>Definitions: the graph\<close>

record cg_state =
  cg_structure :: graph_structure
  cg_edges :: graph_edges
  cg_src_counts :: "nat \<Rightarrow> nat"
  cg_dst_counts :: "nat \<Rightarrow> nat"
  cg_num_edges :: nat

definition cg_add :: "nat \<Rightarrow> nat \<Rightarrow> nat \<Rightarrow> cg_state \<Rightarrow> cg_state option" where
  "cg_add num_racks src_rack dst_rack s = do {
     (structure, edges) \<leftarrow> add_edge (cg_structure s) (cg_edges s) (src_rack mod 256) ((dst_rack + num_racks) mod 256);
     guard_o (src_rack < num_racks \<and> dst_rack < num_racks);
     Some (s\<lparr> cg_structure := structure, cg_edges := edges,
       cg_src_counts := (cg_src_counts s)(src_rack := (cg_src_counts s src_rack + 1) mod 256),
       cg_dst_counts := (cg_dst_counts s)(dst_rack := (cg_dst_counts s dst_rack + 1) mod 256),
       cg_num_edges := (cg_num_edges s + 1) mod 65536 \<rparr>) }"

definition cg_max_degree :: "nat \<Rightarrow> cg_state \<Rightarrow> nat" where
  "cg_max_degree num_racks s = fold (\<lambda>i max_degree.
       let max_degree = (if cg_src_counts s i > max_degree then cg_src_counts s i else max_degree)
       in if cg_dst_counts s i > max_degree then cg_dst_counts s i else max_degree) [0..<num_racks] 0"

definition round_degree :: "nat \<Rightarrow> nat" where
  "round_degree max_degree =
     (if max_degree mod NUM_PATHS \<noteq> 0 then (max_degree div NUM_PATHS + 1) * NUM_PATHS else max_degree)"

partial_function (option) skip_full :: "nat \<Rightarrow> nat \<Rightarrow> (nat \<Rightarrow> nat) \<Rightarrow> nat \<Rightarrow> nat option" where
  "skip_full num_racks max_degree counts i = do {
     guard_o (i < num_racks);
     if counts i = max_degree then skip_full num_racks max_degree counts ((i + 1) mod 256) else Some i }"

partial_function (option) dummy_loop :: "nat \<Rightarrow> nat \<Rightarrow> nat \<Rightarrow> nat \<Rightarrow> cg_state \<Rightarrow> cg_state option" where
  "dummy_loop num_racks max_degree src dst s =
     (if cg_num_edges s < max_degree * num_racks then do {
        src \<leftarrow> skip_full num_racks max_degree (cg_src_counts s) src;
        dst \<leftarrow> skip_full num_racks max_degree (cg_dst_counts s) dst;
        s \<leftarrow> cg_add num_racks src dst s;
        dummy_loop num_racks max_degree src dst s }
      else Some s)"

definition construct_graph :: "admitted_traffic \<Rightarrow> graph_structure \<Rightarrow> graph_edges
    \<Rightarrow> (graph_structure \<times> graph_edges) option" where
  "construct_graph admitted structure edges = do {
     let num_racks = gs_n structure;
     let s = \<lparr> cg_structure = structure, cg_edges = edges, cg_src_counts = (\<lambda>_. 0), cg_dst_counts = (\<lambda>_. 0),
               cg_num_edges = 0 \<rparr>;
     s \<leftarrow> foldo (\<lambda>i s. do {
         edge \<leftarrow> admitted_edge_at admitted i;
         cg_add num_racks (rack_of (a_src edge)) (rack_of (a_dst edge)) s }) [0..<unat (at_size admitted)] s;
     let max_degree = round_degree (cg_max_degree num_racks s) mod 256;
     s \<leftarrow> dummy_loop num_racks max_degree 0 0 s;
     guard_o (is_consistent (cg_structure s) (cg_edges s));
     Some (cg_structure s, cg_edges s) }"

subsection \<open>Definitions: assigning paths\<close>

definition assign_to_path :: "racks_to_nodes_mapping \<Rightarrow> admitted_traffic \<Rightarrow> nat \<Rightarrow> nat \<Rightarrow> nat
    \<Rightarrow> (racks_to_nodes_mapping \<times> admitted_traffic) option" where
  "assign_to_path m admitted src_rack dst_rack path = do {
     guard_o (path < NUM_PATHS);
     rack_pair_index \<leftarrow> get_rack_pair_index src_rack dst_rack;
     let rack_pair = m rack_pair_index;
     if rn_size rack_pair > 0 then do {
       let admitted_index = admitted_indices rack_pair (rn_size rack_pair - 1);
       guard_o (admitted_index < unat (at_size admitted));
       guard_o (admitted_index < MAX_NODES);
       let edge = at_edges admitted admitted_index;
       let edge = edge\<lparr> a_dst := (a_dst edge AND PATH_MASK) + push_bit PATH_SHIFT (of_nat path) \<rparr>;
       Some (m(rack_pair_index := rack_pair\<lparr> rn_size := rn_size rack_pair - 1 \<rparr>),
             admitted\<lparr> at_edges := (at_edges admitted)(admitted_index := edge) \<rparr>) }
     else Some (m, admitted) }"

type_synonym path_state = "graph_edges \<times> racks_to_nodes_mapping \<times> admitted_traffic"

text \<open>
  The argument \<^verbatim>\<open>new_node - num_racks\<close> is converted to \<^verbatim>\<open>uint8_t\<close>.
\<close>

definition pop_peel :: "graph_structure \<Rightarrow> nat \<Rightarrow> nat \<Rightarrow> bool \<Rightarrow> nat \<Rightarrow> path_state \<Rightarrow> (nat \<times> path_state) option" where
  "pop_peel structure path_0 path_1 second cur_node = (\<lambda>(edges, m, admitted). do {
     (new_node, edges) \<leftarrow> remove_edge_to_neighbor structure edges cur_node;
     (m, admitted) \<leftarrow>
       (if second then assign_to_path m admitted new_node ((cur_node + 256 - gs_n structure) mod 256) path_1
        else assign_to_path m admitted cur_node ((new_node + 256 - gs_n structure) mod 256) path_0);
     guard_o (is_consistent structure edges);
     Some (new_node, edges, m, admitted) })"

partial_function (option) populate_loop :: "graph_structure \<Rightarrow> nat \<Rightarrow> nat \<Rightarrow> nat \<Rightarrow> nat \<Rightarrow> path_state
    \<Rightarrow> path_state option" where
  "populate_loop structure path_0 path_1 node cur_node s = do {
     b \<leftarrow> has_neighbor (fst s) node;
     if \<not> b then Some s
     else do {
       (cur_node, s) \<leftarrow> pop_peel structure path_0 path_1 False cur_node s;
       (cur_node, s) \<leftarrow> pop_peel structure path_0 path_1 True cur_node s;
       populate_loop structure path_0 path_1 node cur_node s } }"

definition split_and_populate_paths :: "graph_structure \<Rightarrow> nat \<Rightarrow> nat \<Rightarrow> path_state \<Rightarrow> path_state option" where
  "split_and_populate_paths structure path_0 path_1 s = do {
     guard_o (path_0 < NUM_PATHS);
     guard_o (path_1 < NUM_PATHS);
     foldo (\<lambda>node s. populate_loop structure path_0 path_1 node node s) [0..<gs_n structure] s }"

definition select_paths :: "admitted_traffic \<Rightarrow> nat \<Rightarrow> racks_to_nodes_mapping \<Rightarrow> graph_structure
    \<Rightarrow> (nat \<Rightarrow> graph_edges) \<Rightarrow> admitted_traffic option" where
  "select_paths admitted num_racks m structure edges = do {
     guard_o (num_racks \<le> MAX_RACKS);
     m \<leftarrow> map_racks_to_nodes admitted (init_racks_to_nodes_mapping m);
     structure \<leftarrow> graph_structure_init structure num_racks;
     e0 \<leftarrow> graph_edges_init (edges 0) num_racks;
     e1 \<leftarrow> graph_edges_init (edges 1) num_racks;
     e2 \<leftarrow> graph_edges_init (edges 2) num_racks;
     (structure, e0) \<leftarrow> construct_graph admitted structure e0;
     (e0, e1, e2) \<leftarrow> split structure (e0, e1, e2);
     (e1, m, admitted) \<leftarrow> split_and_populate_paths structure 0 1 (e1, m, admitted);
     (e2, m, admitted) \<leftarrow> split_and_populate_paths structure 2 3 (e2, m, admitted);
     Some admitted }"

subsection \<open>Definitions: checking an assignment\<close>

definition path_of :: "u16 \<Rightarrow> nat" where
  "path_of dst = unat (drop_bit PATH_SHIFT (dst AND NOT PATH_MASK))"

definition count_path :: "nat \<Rightarrow> nat \<Rightarrow> (nat \<Rightarrow> nat) \<Rightarrow> (nat \<Rightarrow> nat) option" where
  "count_path rack path counts = do {
     guard_o (rack * NUM_PATHS + path < MAX_RACKS * NUM_PATHS);
     Some (counts(rack * NUM_PATHS + path := (counts (rack * NUM_PATHS + path) + 1) mod 256)) }"

definition rack_degree :: "(nat \<Rightarrow> nat) \<Rightarrow> nat \<Rightarrow> nat" where
  "rack_degree counts i = (\<Sum>j\<leftarrow>[0..<NUM_PATHS]. counts (i * NUM_PATHS + j))"

definition paths_are_valid :: "admitted_traffic \<Rightarrow> nat \<Rightarrow> (nat \<Rightarrow> nat) \<Rightarrow> (nat \<Rightarrow> nat) \<Rightarrow> bool option" where
  "paths_are_valid admitted num_racks src_garbage dst_garbage = do {
     guard_o (num_racks \<le> MAX_RACKS);
     (src_counts, dst_counts) \<leftarrow> foldo (\<lambda>i (src_counts, dst_counts). do {
         edge \<leftarrow> admitted_edge_at admitted i;
         let path = path_of (a_dst edge);
         src_counts \<leftarrow> count_path (rack_of (a_src edge)) path src_counts;
         dst_counts \<leftarrow> count_path (rack_of (a_dst edge AND PATH_MASK)) path dst_counts;
         Some (src_counts, dst_counts) }) [0..<unat (at_size admitted)]
       (fill (num_racks * NUM_PATHS) 0 src_garbage, fill (num_racks * NUM_PATHS) 0 dst_garbage);
     let max_rack_degree = fold (\<lambda>i mx.
         let mx = (if rack_degree src_counts i > mx then rack_degree src_counts i else mx)
         in if rack_degree dst_counts i > mx then rack_degree dst_counts i else mx) [0..<num_racks] 0;
     let max_rack_degree = round_degree max_rack_degree;
     Some (list_all (\<lambda>i. list_all (\<lambda>j. src_counts (i * NUM_PATHS + j) \<le> max_rack_degree div NUM_PATHS
         \<and> dst_counts (i * NUM_PATHS + j) \<le> max_rack_degree div NUM_PATHS) [0..<NUM_PATHS]) [0..<num_racks]) }"

end
