(* ===== verification/FP_Paths_Graph.thy ===== *)
theory FP_Paths_Graph
  imports FP_Paths
begin

unbundle bit_operations_syntax

text \<open>
  The graph that path selection builds: consistent, with every rack at the same degree (a
  multiple of four), and with at least as many edges between two racks as the traffic has.
\<close>

subsection \<open>Multiplicities\<close>

definition mult :: "graph_structure \<Rightarrow> graph_edges \<Rightarrow> nat \<Rightarrow> nat \<Rightarrow> nat" where
  "mult S E r x = card {i. gbit E r i \<and> fst (partner S (r, i)) = x}"

lemma finite_mult [simp]: "finite {i. gbit E r i \<and> P i}"
  by (rule finite_subset [OF _ finite_places [of E r]]) auto

lemma mult_le_gdeg: "mult S E r x \<le> gdeg E r"
  unfolding mult_def gdeg_def by (rule card_mono) auto

lemma mult_clear:
  assumes "u \<noteq> v" "r \<noteq> v" "gbit E u i" "partner S (u, i) = (v, j)"
  shows "mult S (clear_edge E u i v j) r x = (if r = u \<and> x = v then mult S E r x - 1 else mult S E r x)"
proof -
  have "{k. gbit (clear_edge E u i v j) r k \<and> fst (partner S (r, k)) = x}
      = {k. gbit E r k \<and> fst (partner S (r, k)) = x} - (if r = u \<and> x = v then {i} else {})"
    using assms by (auto simp: gbit_clear)
  then show ?thesis
    using assms(3,4) by (auto simp: mult_def card_Diff_subset)
qed

lemma clear_edge_swap: "u \<noteq> v \<Longrightarrow> clear_edge E u i v j = clear_edge E v j u i"
  by (simp add: clear_edge_def fun_upd_twist)

lemma mult_split:
  assumes "apart (2 * gs_n S) e1 e2" "r < 2 * gs_n S" "\<forall>i. gbit e1 r i \<or> gbit e2 r i \<longleftrightarrow> gbit E r i"
  shows "mult S E r x = mult S e1 r x + mult S e2 r x"
proof -
  have "{i. gbit E r i \<and> fst (partner S (r, i)) = x}
      = {i. gbit e1 r i \<and> fst (partner S (r, i)) = x} \<union> {i. gbit e2 r i \<and> fst (partner S (r, i)) = x}"
    using assms(3) by auto
  moreover have "{i. gbit e1 r i \<and> fst (partner S (r, i)) = x} \<inter> {i. gbit e2 r i \<and> fst (partner S (r, i)) = x} = {}"
    using assms(1,2) by (auto simp: apart_def)
  ultimately show ?thesis
    by (simp add: mult_def card_Un_disjoint)
qed

subsection \<open>Adding an edge\<close>

lemma partner_set_neighbor:
  assumes "v < 256" "j < 256"
  shows "partner (set_neighbor S u i v j) p = (if p = (u, i) then (v, j) else partner S p)"
  using assms by (cases p) (auto simp: partner_def set_neighbor_def unat_of_nat)

lemma graph_ok_set:
  assumes ok: "graph_ok S E" and free: "\<not> gbit E u i" "\<not> gbit E v j"
    and p: "\<And>q. q \<noteq> (u, i) \<Longrightarrow> q \<noteq> (v, j) \<Longrightarrow> partner S' q = partner S q" and n: "gs_n S' = gs_n S"
  shows "graph_ok S' E"
proof (rule graph_okI)
  show "gs_n S' \<le> 64" using ok n by (simp add: graph_ok_def)
  fix w k x l
  assume w: "w < 2 * gs_n S'" "gbit E w k" and pw: "partner S' (w, k) = (x, l)"
  have "(w, k) \<noteq> (u, i)" "(w, k) \<noteq> (v, j)"
    using free w(2) by auto
  then have "partner S (w, k) = (x, l)"
    using pw p by metis
  note wx = graph_okD [OF ok _ w(2) this]
  have "gbit E x l" using wx w(1) n by simp
  then show "x < 2 * gs_n S' \<and> l < 64 \<and> (x < gs_n S' \<longleftrightarrow> gs_n S' \<le> w) \<and> partner S' (x, l) = (w, k) \<and> gbit E x l"
    using wx w(1) n p [of "(x, l)"] free by auto
qed

lemma add_edge_ok:
  assumes ok: "graph_ok S E" and uv: "u < gs_n S" "gs_n S \<le> v" "v < 2 * gs_n S"
    and room: "gdeg E u < 64" "gdeg E v < 64"
  shows "wp (add_edge S E u v) (\<lambda>(S', E'). graph_ok S' E' \<and> gs_n S' = gs_n S
    \<and> (\<forall>w. gdeg E' w = (if w = u \<or> w = v then Suc (gdeg E w) else gdeg E w))
    \<and> (\<forall>r < gs_n S. \<forall>x. mult S' E' r x = mult S E r x + (if r = u \<and> x = v then 1 else 0)))"
proof -
  define i where "i = lsb_of (NOT (neighbor_bitmaps E u))"
  define j where "j = lsb_of (NOT (neighbor_bitmaps E v))"
  have free: "NOT (neighbor_bitmaps E u) \<noteq> 0" "NOT (neighbor_bitmaps E v) \<noteq> 0"
    using room by (simp_all add: gdeg_free)
  have i: "i < 64" "\<not> gbit E u i" and j: "j < 64" "\<not> gbit E v j"
    using lsb_of_Some(1,2) [OF free(1)] lsb_of_Some(1,2) [OF free(2)]
    by (simp_all add: i_def j_def gbit_def bit_u64_not)
  have n: "gs_n S \<le> 64" using ok by (simp add: graph_ok_def)
  have ne: "u \<noteq> v" using uv by auto
  define S' where "S' = set_neighbor (set_neighbor S u i v j) v j u i"
  define E' where "E' = mark_edge E u i v j"
  have p: "partner S' q = (if q = (v, j) then (u, i) else if q = (u, i) then (v, j) else partner S q)" for q
    using uv n i(1) j(1) by (simp add: S'_def partner_set_neighbor)
  have gn: "gs_n S' = gs_n S"
    by (simp add: S'_def set_neighbor_def)
  have "graph_ok S' E"
    by (rule graph_ok_set [OF ok i(2) j(2) _ gn]) (simp add: p)
  then have "graph_ok S' E'"
    unfolding E'_def by (rule graph_ok_mark) (use uv i j p ne gn in auto)
  moreover have "gdeg E' w = (if w = u \<or> w = v then Suc (gdeg E w) else gdeg E w)" for w
    unfolding E'_def by (rule gdeg_mark [OF ne i(1) j(1) i(2) j(2)])
  moreover have "mult S' E' r x = mult S E r x + (if r = u \<and> x = v then 1 else 0)" if "r < gs_n S" for r x
  proof -
    have "r \<noteq> v" using that uv(2) by auto
    then have "{k. gbit E' r k \<and> fst (partner S' (r, k)) = x}
        = {k. gbit E r k \<and> fst (partner S (r, k)) = x} \<union> (if r = u \<and> x = v then {i} else {})"
      using i(2) ne by (auto simp: E'_def gbit_mark [OF ne i(1) j(1)] p)
    then show ?thesis
      using i(2) by (auto simp: mult_def)
  qed
  moreover have "add_edge S E u v = Some (S', E')"
    using uv n free by (simp add: add_edge_def guard_o_def MAX_GRAPH_NODES_def Let_def S'_def E'_def i_def j_def)
  ultimately show ?thesis
    using gn by simp
qed

subsection \<open>Building the graph\<close>

definition srack :: "admitted_traffic \<Rightarrow> nat \<Rightarrow> nat" where
  "srack A i = rack_of (a_src (at_edges A i))"

definition drack :: "admitted_traffic \<Rightarrow> nat \<Rightarrow> nat" where
  "drack A i = rack_of (a_dst (at_edges A i))"

definition srcs :: "admitted_traffic \<Rightarrow> nat \<Rightarrow> nat \<Rightarrow> nat" where
  "srcs A k r = card {i. i < k \<and> srack A i = r}"

definition dsts :: "admitted_traffic \<Rightarrow> nat \<Rightarrow> nat \<Rightarrow> nat" where
  "dsts A k d = card {i. i < k \<and> drack A i = d}"

definition rpairs :: "admitted_traffic \<Rightarrow> nat \<Rightarrow> nat \<Rightarrow> nat \<Rightarrow> nat" where
  "rpairs A k r d = card {i. i < k \<and> srack A i = r \<and> drack A i = d}"

lemma card_Suc_P: "card {i. i < Suc k \<and> P i} = card {i. i < k \<and> P i} + (if P k then 1 else 0)"
proof -
  have "{i. i < Suc k \<and> P i} = {i. i < k \<and> P i} \<union> (if P k then {k} else {})"
    by (auto simp: less_Suc_eq)
  then show ?thesis by simp
qed

lemma counts_Suc:
  "srcs A (Suc k) r = srcs A k r + (if srack A k = r then 1 else 0)"
  "dsts A (Suc k) d = dsts A k d + (if drack A k = d then 1 else 0)"
  "rpairs A (Suc k) r d = rpairs A k r d + (if srack A k = r \<and> drack A k = d then 1 else 0)"
  by (simp_all add: srcs_def dsts_def rpairs_def card_Suc_P)

lemma counts_mono: "k \<le> m \<Longrightarrow> srcs A k r \<le> srcs A m r" "k \<le> m \<Longrightarrow> dsts A k r \<le> dsts A m r"
  unfolding srcs_def dsts_def by (rule card_mono; auto)+

definition cg_inv :: "nat \<Rightarrow> (nat \<Rightarrow> nat \<Rightarrow> nat) \<Rightarrow> cg_state \<Rightarrow> bool" where
  "cg_inv n K s \<longleftrightarrow> graph_ok (cg_structure s) (cg_edges s) \<and> gs_n (cg_structure s) = n
     \<and> (\<forall>r < n. gdeg (cg_edges s) r = cg_src_counts s r \<and> gdeg (cg_edges s) (n + r) = cg_dst_counts s r)
     \<and> (\<Sum>r<n. cg_src_counts s r) = cg_num_edges s \<and> (\<Sum>r<n. cg_dst_counts s r) = cg_num_edges s
     \<and> (\<forall>r < n. \<forall>d < n. K r d \<le> mult (cg_structure s) (cg_edges s) r (n + d))"

lemma sum_upd_Suc: "r < n \<Longrightarrow> (\<Sum>i<n. (f(r := Suc (f r))) i) = Suc (\<Sum>i<(n :: nat). f i)"
  by (simp add: sum.remove [of "{..<n}" r])

lemma cg_add_ok:
  assumes inv: "cg_inv n K s" and rd: "r < n" "d < n" and lt: "cg_src_counts s r < 64" "cg_dst_counts s d < 64"
    and n: "n \<le> 16"
  shows "wp (cg_add n r d s) (\<lambda>s'. cg_inv n (\<lambda>r' d'. K r' d' + (if r' = r \<and> d' = d then 1 else 0)) s'
    \<and> cg_src_counts s' = (cg_src_counts s)(r := Suc (cg_src_counts s r))
    \<and> cg_dst_counts s' = (cg_dst_counts s)(d := Suc (cg_dst_counts s d))
    \<and> cg_num_edges s' = Suc (cg_num_edges s))"
proof -
  let ?S = "cg_structure s" and ?E = "cg_edges s"
  have g: "graph_ok ?S ?E" "gs_n ?S = n" "\<forall>r < n. gdeg ?E r = cg_src_counts s r \<and> gdeg ?E (n + r) = cg_dst_counts s r"
    "(\<Sum>r<n. cg_src_counts s r) = cg_num_edges s" "(\<Sum>r<n. cg_dst_counts s r) = cg_num_edges s"
    "\<forall>r < n. \<forall>d < n. K r d \<le> mult ?S ?E r (n + d)"
    using inv by (simp_all add: cg_inv_def)
  obtain S' E' where a: "add_edge ?S ?E r (n + d) = Some (S', E')" "graph_ok S' E'" "gs_n S' = n"
      "\<forall>w. gdeg E' w = (if w = r \<or> w = n + d then Suc (gdeg ?E w) else gdeg ?E w)"
      "\<forall>r' < n. \<forall>x. mult S' E' r' x = mult ?S ?E r' x + (if r' = r \<and> x = n + d then 1 else 0)"
    using wpD [OF add_edge_ok [OF g(1), of r "n + d"]] rd lt g(2,3) by auto
  have "(\<Sum>r<n. cg_src_counts s r) \<le> (\<Sum>r<n. 64)"
    using g(3) gdeg_le_64 by (intro sum_mono) (metis lessThan_iff)
  then have num: "cg_num_edges s < 65535"
    using g(4) n by simp
  let ?s = "s\<lparr> cg_structure := S', cg_edges := E',
    cg_src_counts := (cg_src_counts s)(r := Suc (cg_src_counts s r)),
    cg_dst_counts := (cg_dst_counts s)(d := Suc (cg_dst_counts s d)), cg_num_edges := Suc (cg_num_edges s) \<rparr>"
  have "cg_inv n (\<lambda>r' d'. K r' d' + (if r' = r \<and> d' = d then 1 else 0)) ?s"
    using a(2-5) g(3-6) rd sum_upd_Suc [of r n "cg_src_counts s"] sum_upd_Suc [of d n "cg_dst_counts s"]
    unfolding cg_inv_def by auto
  moreover have "cg_add n r d s = Some ?s"
    using a(1) rd lt num n by (simp add: cg_add_def guard_o_def add.commute)
  ultimately show ?thesis
    by simp
qed

lemma real_edges_ok:
  assumes N: "N \<le> 256" and racks: "\<forall>i < N. srack A i < n \<and> drack A i < n" and n: "n \<le> 16"
    and deg: "\<forall>r < n. srcs A N r \<le> 64 \<and> dsts A N r \<le> 64" and ini: "cg_inv n (\<lambda>_ _. 0) s0"
    and zero: "cg_src_counts s0 = (\<lambda>_. 0)" "cg_dst_counts s0 = (\<lambda>_. 0)" "cg_num_edges s0 = 0"
  shows "wp (foldo (\<lambda>i s. do { edge \<leftarrow> admitted_edge_at A i;
        cg_add n (rack_of (a_src edge)) (rack_of (a_dst edge)) s }) [0..<N] s0)
    (\<lambda>s. cg_inv n (rpairs A N) s \<and> cg_num_edges s = N
       \<and> (\<forall>r < n. cg_src_counts s r = srcs A N r \<and> cg_dst_counts s r = dsts A N r))"
proof -
  define J where "J = (\<lambda>k s. cg_inv n (rpairs A k) s \<and> cg_num_edges s = k
       \<and> (\<forall>r < n. cg_src_counts s r = srcs A k r \<and> cg_dst_counts s r = dsts A k r))"
  have "wp (foldo (\<lambda>i s. do { edge \<leftarrow> admitted_edge_at A i;
      cg_add n (rack_of (a_src edge)) (rack_of (a_dst edge)) s }) [0..<N] s0) (J (length [0..<N]))"
  proof (rule wp_foldo [where P = J])
    have "rpairs A 0 = (\<lambda>_ _. 0)"
      by (simp add: rpairs_def fun_eq_iff)
    then show "J 0 s0"
      using ini zero by (simp add: J_def srcs_def dsts_def)
    fix k s assume k: "k < length [0..<N]" and s: "J k s"
    let ?r = "srack A k" and ?d = "drack A k"
    have rd: "?r < n" "?d < n" using racks k by simp_all
    have "srcs A (Suc k) ?r \<le> srcs A N ?r" "dsts A (Suc k) ?d \<le> dsts A N ?d"
      using k by (simp_all add: counts_mono)
    then have "srcs A (Suc k) ?r \<le> 64" "dsts A (Suc k) ?d \<le> 64"
      using deg rd order_trans by blast+
    then have lt: "cg_src_counts s ?r < 64" "cg_dst_counts s ?d < 64"
      using s rd by (simp_all add: J_def counts_Suc)
    have inv: "cg_inv n (rpairs A k) s" using s by (simp add: J_def)
    have "rpairs A (Suc k) = (\<lambda>r' d'. rpairs A k r' d' + (if r' = ?r \<and> d' = ?d then 1 else 0))"
      by (simp add: fun_eq_iff counts_Suc eq_commute)
    then have "wp (cg_add n ?r ?d s) (J (Suc k))"
      using s by (intro wp_mono [OF cg_add_ok [OF inv rd lt n]]) (auto simp: J_def counts_Suc)
    then show "wp (do { edge \<leftarrow> admitted_edge_at A ([0..<N] ! k);
        cg_add n (rack_of (a_src edge)) (rack_of (a_dst edge)) s }) (J (Suc k))"
      using k N by (simp add: admitted_edge_at_def MAX_NODES_def srack_def drack_def)
  qed
  then show ?thesis
    by (simp add: J_def)
qed

subsection \<open>Making the graph regular\<close>

definition fold_max :: "(nat \<Rightarrow> nat) \<Rightarrow> (nat \<Rightarrow> nat) \<Rightarrow> nat \<Rightarrow> nat" where
  "fold_max f g n = fold (\<lambda>i mx. let mx = (if f i > mx then f i else mx) in if g i > mx then g i else mx) [0..<n] 0"

lemma fold_max_Suc: "fold_max f g (Suc n) = max (max (fold_max f g n) (f n)) (g n)"
  by (simp add: fold_max_def Let_def max_def)

lemma fold_max_ge: "i < n \<Longrightarrow> f i \<le> fold_max f g n \<and> g i \<le> fold_max f g n"
  by (induction n) (auto simp: fold_max_Suc less_Suc_eq)

lemma fold_max_le: "(\<And>i. i < n \<Longrightarrow> f i \<le> b \<and> g i \<le> b) \<Longrightarrow> fold_max f g n \<le> b"
  by (induction n) (auto simp: fold_max_Suc fold_max_def [of _ _ 0])

lemma fold_max_cong: "(\<And>i. i < n \<Longrightarrow> f i = f' i \<and> g i = g' i) \<Longrightarrow> fold_max f g n = fold_max f' g' n"
  by (induction n) (auto simp: fold_max_Suc fold_max_def [of _ _ 0])

lemma round_degree_props: "m \<le> round_degree m" "round_degree m mod 4 = 0" "m \<le> 64 \<Longrightarrow> round_degree m \<le> 64"
  unfolding round_degree_def NUM_PATHS_def by (auto; presburger)+

text \<open>The degree of the regular graph.\<close>

definition need :: "admitted_traffic \<Rightarrow> nat \<Rightarrow> nat \<Rightarrow> nat" where
  "need A N n = round_degree (fold_max (srcs A N) (dsts A N) n)"

lemma need_props:
  assumes "\<forall>r < n. srcs A N r \<le> 64 \<and> dsts A N r \<le> 64"
  shows "need A N n \<le> 64" "need A N n mod 4 = 0" "r < n \<Longrightarrow> srcs A N r \<le> need A N n \<and> dsts A N r \<le> need A N n"
proof -
  have "fold_max (srcs A N) (dsts A N) n \<le> 64"
    by (rule fold_max_le) (use assms in simp)
  then show "need A N n \<le> 64" "need A N n mod 4 = 0"
    by (simp_all add: need_def round_degree_props)
  show "r < n \<Longrightarrow> srcs A N r \<le> need A N n \<and> dsts A N r \<le> need A N n"
    using fold_max_ge [of r n "srcs A N" "dsts A N"] round_degree_props(1) order_trans unfolding need_def by blast
qed

lemma skip_full_ok:
  assumes "i \<le> r" "r < n" "counts r \<noteq> m" "n \<le> 16"
  shows "wp (skip_full n m counts i) (\<lambda>x. i \<le> x \<and> x < n \<and> counts x \<noteq> m \<and> (\<forall>y. i \<le> y \<and> y < x \<longrightarrow> counts y = m))"
  using assms
proof (induction "r - i" arbitrary: i)
  case 0
  then show ?case
    by (subst skip_full.simps) auto
next
  case (Suc k)
  show ?case
  proof (cases "counts i = m")
    case True
    have "wp (skip_full n m counts (Suc i)) (\<lambda>x. Suc i \<le> x \<and> x < n \<and> counts x \<noteq> m \<and> (\<forall>y. Suc i \<le> y \<and> y < x \<longrightarrow> counts y = m))"
      using Suc by (intro Suc.hyps(1)) auto
    then have "wp (skip_full n m counts (Suc i)) (\<lambda>x. i \<le> x \<and> x < n \<and> counts x \<noteq> m \<and> (\<forall>y. i \<le> y \<and> y < x \<longrightarrow> counts y = m))"
      by (rule wp_mono) (metis True Suc_leD not_less_eq_eq le_antisym)
    then show ?thesis
      using True Suc.prems Suc.hyps(2) by (subst skip_full.simps) simp
  next
    case False
    then show ?thesis
      using Suc.prems by (subst skip_full.simps) auto
  qed
qed

lemma not_all_full:
  assumes "(\<Sum>r<n. f r) < m * (n :: nat)" "\<forall>r < n. f r \<le> m" "\<forall>r < i. f r = (m :: nat)"
  obtains r where "i \<le> r" "r < n" "f r \<noteq> m"
proof -
  have "\<exists>r < n. f r \<noteq> m"
  proof (rule ccontr)
    assume "\<not> (\<exists>r < n. f r \<noteq> m)"
    then have "(\<Sum>r<n. f r) = (\<Sum>r<n. m)" by (intro sum.cong) auto
    then show False using assms(1) by simp
  qed
  then show ?thesis
    using that assms(3) by (metis linorder_not_le)
qed

lemma all_full:
  assumes "m * n \<le> (\<Sum>r<n. f r)" "\<forall>r < n. f r \<le> (m :: nat)" "r < (n :: nat)"
  shows "f r = m"
proof (rule ccontr)
  assume "f r \<noteq> m"
  then have "(\<Sum>r<n. f r) < (\<Sum>r<n. m)"
    using assms(2,3) by (intro sum_strict_mono_ex1) (auto intro!: bexI [of _ r] simp: le_neq_implies_less)
  then show False using assms(1) by (simp add: mult.commute)
qed

lemma dummy_loop_ok:
  assumes "cg_inv n K s" "\<forall>r < n. cg_src_counts s r \<le> m \<and> cg_dst_counts s r \<le> m" "m \<le> 64" "n \<le> 16"
    and "\<forall>r < src. cg_src_counts s r = m" "\<forall>d < dst. cg_dst_counts s d = m"
  shows "wp (dummy_loop n m src dst s) (\<lambda>s'. cg_inv n K s' \<and> (\<forall>r < n. cg_src_counts s' r = m \<and> cg_dst_counts s' r = m))"
  using assms
proof (induction "m * n - cg_num_edges s" arbitrary: s src dst rule: less_induct)
  case less
  have sums: "(\<Sum>r<n. cg_src_counts s r) = cg_num_edges s" "(\<Sum>r<n. cg_dst_counts s r) = cg_num_edges s"
    using less.prems(1) by (simp_all add: cg_inv_def)
  show ?case
  proof (cases "cg_num_edges s < m * n")
    case True
    obtain r where r: "src \<le> r" "r < n" "cg_src_counts s r \<noteq> m"
      using not_all_full [of "cg_src_counts s" n m src] sums True less.prems(2,5) by auto
    obtain d where d: "dst \<le> d" "d < n" "cg_dst_counts s d \<noteq> m"
      using not_all_full [of "cg_dst_counts s" n m dst] sums True less.prems(2,6) by auto
    obtain r' where r': "skip_full n m (cg_src_counts s) src = Some r'" "src \<le> r'" "r' < n" "cg_src_counts s r' \<noteq> m"
        "\<forall>y. src \<le> y \<and> y < r' \<longrightarrow> cg_src_counts s y = m"
      using wpD [OF skip_full_ok [of src r n "cg_src_counts s", OF r less.prems(4)]] by blast
    obtain d' where d': "skip_full n m (cg_dst_counts s) dst = Some d'" "dst \<le> d'" "d' < n" "cg_dst_counts s d' \<noteq> m"
        "\<forall>y. dst \<le> y \<and> y < d' \<longrightarrow> cg_dst_counts s y = m"
      using wpD [OF skip_full_ok [of dst d n "cg_dst_counts s", OF d less.prems(4)]] by blast
    have lt: "cg_src_counts s r' < m" "cg_dst_counts s d' < m"
      using less.prems(2) r'(3,4) d'(3,4) by (simp_all add: le_neq_implies_less)
    obtain s' where s': "cg_add n r' d' s = Some s'" "cg_inv n (\<lambda>x y. K x y + (if x = r' \<and> y = d' then 1 else 0)) s'"
        "cg_src_counts s' = (cg_src_counts s)(r' := Suc (cg_src_counts s r'))"
        "cg_dst_counts s' = (cg_dst_counts s)(d' := Suc (cg_dst_counts s d'))" "cg_num_edges s' = Suc (cg_num_edges s)"
      using wpD [OF cg_add_ok [OF less.prems(1) r'(3) d'(3) _ _ less.prems(4)]] lt less.prems(3) by auto
    have inv: "cg_inv n K s'"
      using s'(2) unfolding cg_inv_def by (meson le_add1 order_trans)
    have "wp (dummy_loop n m r' d' s') (\<lambda>s'. cg_inv n K s' \<and> (\<forall>r < n. cg_src_counts s' r = m \<and> cg_dst_counts s' r = m))"
    proof (rule less.hyps [OF _ inv _ less.prems(3,4)])
      show "m * n - cg_num_edges s' < m * n - cg_num_edges s"
        using True s'(5) by simp
      show "\<forall>r < n. cg_src_counts s' r \<le> m \<and> cg_dst_counts s' r \<le> m"
        using less.prems(2) lt by (auto simp: s'(3,4))
      show "\<forall>r < r'. cg_src_counts s' r = m" "\<forall>d < d'. cg_dst_counts s' d = m"
        using less.prems(5,6) r'(5) d'(5) by (simp_all add: s'(3,4)) (meson linorder_not_le)+
    qed
    then show ?thesis
      using True r'(1) d'(1) s'(1) by (subst dummy_loop.simps) simp
  next
    case False
    then have "\<forall>r < n. cg_src_counts s r = m \<and> cg_dst_counts s r = m"
      using all_full [of m n "cg_src_counts s"] all_full [of m n "cg_dst_counts s"] sums less.prems(2) by simp
    then show ?thesis
      using False less.prems(1) by (subst dummy_loop.simps) simp
  qed
qed

lemma construct_graph_ok:
  fixes A :: admitted_traffic
  defines "N \<equiv> unat (at_size A)"
  assumes N: "N \<le> 256" and racks: "\<forall>i < N. srack A i < n \<and> drack A i < n" and n: "n \<le> 16" "gs_n S = n"
    and deg: "\<forall>r < n. srcs A N r \<le> 64 \<and> dsts A N r \<le> 64"
    and E: "\<forall>u < 2 * n. neighbor_bitmaps E u = 0"
  shows "wp (construct_graph A S E) (\<lambda>(S', E'). graph_ok S' E' \<and> gs_n S' = n
    \<and> (\<forall>w < 2 * n. gdeg E' w = need A N n) \<and> (\<forall>r < n. \<forall>d < n. rpairs A N r d \<le> mult S' E' r (n + d)))"
proof -
  let ?s0 = "\<lparr> cg_structure = S, cg_edges = E, cg_src_counts = (\<lambda>_. 0), cg_dst_counts = (\<lambda>_. 0), cg_num_edges = 0 \<rparr>"
  have "\<not> gbit E u i" if "u < 2 * n" for u i
    using E that by (simp add: gbit_def)
  moreover have "gdeg E u = 0" if "u < 2 * n" for u
    using E that by (simp add: gdeg_0_iff)
  ultimately have ini: "cg_inv n (\<lambda>_ _. 0) ?s0"
    using n by (simp add: cg_inv_def graph_ok_def)
  obtain s1 where s1: "foldo (\<lambda>i s. do { edge \<leftarrow> admitted_edge_at A i;
        cg_add n (rack_of (a_src edge)) (rack_of (a_dst edge)) s }) [0..<N] ?s0 = Some s1"
      "cg_inv n (rpairs A N) s1" "\<forall>r < n. cg_src_counts s1 r = srcs A N r \<and> cg_dst_counts s1 r = dsts A N r"
    using wpD [OF real_edges_ok [OF N racks n(1) deg ini]] by auto
  have "cg_max_degree n s1 = fold_max (cg_src_counts s1) (cg_dst_counts s1) n"
    by (simp add: cg_max_degree_def fold_max_def)
  also have "\<dots> = fold_max (srcs A N) (dsts A N) n"
    by (rule fold_max_cong) (use s1(3) in simp)
  finally have mx: "round_degree (cg_max_degree n s1) = need A N n"
    by (simp add: need_def)
  note nd = need_props [OF deg]
  obtain s2 where s2: "dummy_loop n (need A N n) 0 0 s1 = Some s2" "cg_inv n (rpairs A N) s2"
      "\<forall>r < n. cg_src_counts s2 r = need A N n \<and> cg_dst_counts s2 r = need A N n"
    using wpD [OF dummy_loop_ok [OF s1(2) _ nd(1) n(1), of 0 0]] s1(3) nd(3) by auto
  have g: "graph_ok (cg_structure s2) (cg_edges s2)" "gs_n (cg_structure s2) = n"
      "\<forall>r < n. gdeg (cg_edges s2) r = need A N n \<and> gdeg (cg_edges s2) (n + r) = need A N n"
      "\<forall>r < n. \<forall>d < n. rpairs A N r d \<le> mult (cg_structure s2) (cg_edges s2) r (n + d)"
    using s2(2,3) by (simp_all add: cg_inv_def)
  have "gdeg (cg_edges s2) w = need A N n" if "w < 2 * n" for w
  proof (cases "w < n")
    case False
    then have "w - n < n" "n + (w - n) = w" using that by auto
    then show ?thesis using g(3) by metis
  qed (use g(3) in simp)
  moreover have "need A N n mod 256 = need A N n"
    using nd(1) by simp
  ultimately show ?thesis
    using s1(1) s2(1) g(1,2,4) is_consistent_ok [OF g(1)]
    by (simp add: construct_graph_def n(2) N_def [symmetric] mx guard_o_def Let_def)
qed

end
