(* ===== verification/FP_Paths_Ok.thy ===== *)
theory FP_Paths_Ok
  imports FP_Paths_Graph
begin

unbundle bit_operations_syntax

text \<open>
  Correctness of path selection: every edge of the traffic is given a path, nothing else of it
  changes, and at every rack each of the four paths carries at most a quarter of the degree.
\<close>

subsection \<open>Path bits\<close>

lemma path_word:
  assumes "p < 4"
  shows "path_of ((x AND PATH_MASK) + push_bit PATH_SHIFT (of_nat p)) = p"
    and "((x AND PATH_MASK) + push_bit PATH_SHIFT (of_nat p)) AND PATH_MASK = x AND PATH_MASK"
proof -
  have m: "PATH_MASK = mask 14"
    by (simp add: PATH_MASK_def mask_eq_exp_minus_1)
  let ?y = "push_bit 14 (of_nat p) :: u16"
  have b: "bit (mask 14 :: u16) i \<longleftrightarrow> i < 14" for i
    by (auto simp: bit_mask_iff possible_bit_def)
  have y: "bit ?y i \<longleftrightarrow> 14 \<le> i \<and> i < 16 \<and> bit (of_nat p :: u16) (i - 14)" for i
    by (auto simp: bit_push_bit_iff possible_bit_def simp del: push_bit_numeral)
  have add: "(x AND PATH_MASK) + push_bit PATH_SHIFT (of_nat p) = (x AND mask 14) OR ?y"
  proof -
    have "(x AND mask 14) AND ?y = 0"
      by (rule bit_word_eqI) (simp add: bit_and_iff b y)
    then show ?thesis
      using word_plus_and_or [of "x AND mask 14" ?y] by (simp add: m PATH_SHIFT_def)
  qed
  show "((x AND PATH_MASK) + push_bit PATH_SHIFT (of_nat p)) AND PATH_MASK = x AND PATH_MASK"
    unfolding add unfolding m by (rule bit_word_eqI) (auto simp: bit_and_iff bit_or_iff b y)
  have p: "p = 0 \<or> p = 1 \<or> p = 2 \<or> p = 3"
    using assms by auto
  have "((x AND mask 14) OR ?y) AND NOT (mask 14) = ?y"
    by (rule bit_word_eqI) (auto simp: bit_and_iff bit_or_iff bit_not_iff b y possible_bit_def)
  then have "path_of ((x AND PATH_MASK) + push_bit PATH_SHIFT (of_nat p)) = unat (drop_bit 14 ?y)"
    unfolding path_of_def add unfolding m by (simp add: PATH_SHIFT_def)
  also have "\<dots> = p"
    using p by auto
  finally show "path_of ((x AND PATH_MASK) + push_bit PATH_SHIFT (of_nat p)) = p" .
qed

subsection \<open>The mapping from racks to admitted edges\<close>

definition rlist :: "racks_to_nodes_mapping \<Rightarrow> nat \<Rightarrow> nat \<Rightarrow> nat list" where
  "rlist m r d = map (admitted_indices (m (r * 16 + d))) [0..<rn_size (m (r * 16 + d))]"

definition edges_between :: "admitted_traffic \<Rightarrow> nat \<Rightarrow> nat \<Rightarrow> nat \<Rightarrow> nat list" where
  "edges_between A k r d = filter (\<lambda>i. srack A i = r \<and> drack A i = d) [0..<k]"

lemma pair_index_inj: "d < 16 \<Longrightarrow> d' < 16 \<Longrightarrow> r * 16 + d = r' * 16 + d' \<Longrightarrow> r = r' \<and> d = (d' :: nat)"
proof -
  assume d: "d < 16" "d' < 16" and eq: "r * 16 + d = r' * 16 + d'"
  have "(r * 16 + d) div 16 = (r' * 16 + d') div 16" "(r * 16 + d) mod 16 = (r' * 16 + d') mod 16"
    by (simp_all only: eq)
  then show ?thesis
    using d by simp
qed

lemma edges_between_Suc:
  "edges_between A (Suc k) r d = edges_between A k r d @ (if srack A k = r \<and> drack A k = d then [k] else [])"
  by (simp add: edges_between_def)

lemma length_edges_between: "length (edges_between A k r d) = rpairs A k r d"
proof -
  have "length (edges_between A k r d) = card (set (edges_between A k r d))"
    by (metis distinct_card edges_between_def distinct_filter distinct_upt)
  also have "set (edges_between A k r d) = {i. i < k \<and> srack A i = r \<and> drack A i = d}"
    by (auto simp: edges_between_def)
  finally show ?thesis
    by (simp add: rpairs_def)
qed

lemma length_edges_between_le: "length (edges_between A k r d) \<le> k"
  unfolding edges_between_def using length_filter_le [of _ "[0..<k]"] by simp

lemma map_racks_ok:
  assumes "unat (at_size A) \<le> 256" "\<forall>i < unat (at_size A). srack A i < 16 \<and> drack A i < 16"
  shows "wp (map_racks_to_nodes A (init_racks_to_nodes_mapping m0))
    (\<lambda>m. \<forall>r < 16. \<forall>d < 16. rlist m r d = edges_between A (unat (at_size A)) r d)"
proof -
  let ?N = "unat (at_size A)"
  define J where "J = (\<lambda>k m. \<forall>r < 16. \<forall>d < 16. rlist m r d = edges_between A k r d)"
  have "wp (map_racks_to_nodes A (init_racks_to_nodes_mapping m0)) (J (length [0..<?N]))"
    unfolding map_racks_to_nodes_def
  proof (rule wp_foldo [where P = J])
    show "J 0 (init_racks_to_nodes_mapping m0)"
      by (simp add: J_def rlist_def edges_between_def init_racks_to_nodes_mapping_def MAX_RACKS_def)
    fix k m assume k: "k < length [0..<?N]" and m: "J k m"
    let ?r = "srack A k" and ?d = "drack A k"
    let ?p = "m (?r * 16 + ?d)"
    have rd: "?r < 16" "?d < 16" using assms(2) k by simp_all
    have "length (rlist m ?r ?d) \<le> k"
      using m rd length_edges_between_le by (simp add: J_def)
    then have sz: "rn_size ?p < 256"
      using k assms(1) by (simp add: rlist_def)
    define m' where "m' = m(?r * 16 + ?d := ?p\<lparr> admitted_indices := (admitted_indices ?p)(rn_size ?p := k), rn_size := rn_size ?p + 1 \<rparr>)"
    have rl: "rlist m' r d = rlist m r d @ (if ?r = r \<and> ?d = d then [k] else [])" if "r < 16" "d < 16" for r d
    proof (cases "?r = r \<and> ?d = d")
      case True
      then show ?thesis by (simp add: rlist_def m'_def)
    next
      case False
      then have "r * 16 + d \<noteq> ?r * 16 + ?d"
        using pair_index_inj [OF that(2) rd(2), of r ?r] by blast
      then show ?thesis using False by (simp add: rlist_def m'_def)
    qed
    have "J (Suc k) m'"
      unfolding J_def
    proof (intro allI impI)
      fix r d :: nat assume "r < 16" "d < 16"
      then show "rlist m' r d = edges_between A (Suc k) r d"
        using m rl unfolding J_def edges_between_Suc by simp
    qed
    then show "wp (map_rack_edge A ([0..<?N] ! k) m) (J (Suc k))"
      using k assms(1) rd sz
      by (simp add: map_rack_edge_def admitted_edge_at_def get_rack_pair_index_def MAX_NODES_def MAX_RACKS_def MAX_NODES_PER_RACK_def
          srack_def drack_def m'_def)
  qed
  then show ?thesis
    by (simp add: J_def)
qed

subsection \<open>Assigning one edge\<close>

text \<open>
  An admitted edge is pending while its index is still in the mapping. \<^verbatim>\<open>scount\<close> and \<^verbatim>\<open>dcount\<close> count
  the edges already assigned, per rack and path.
\<close>

definition is_pending :: "admitted_traffic \<Rightarrow> racks_to_nodes_mapping \<Rightarrow> nat \<Rightarrow> bool" where
  "is_pending A m i \<longleftrightarrow> i \<in> set (rlist m (srack A i) (drack A i))"

definition scount :: "admitted_traffic \<Rightarrow> nat \<Rightarrow> racks_to_nodes_mapping \<Rightarrow> admitted_traffic \<Rightarrow> nat \<Rightarrow> nat \<Rightarrow> nat" where
  "scount A N m adm r p = card {i. i < N \<and> \<not> is_pending A m i \<and> srack A i = r \<and> path_of (a_dst (at_edges adm i)) = p}"

definition dcount :: "admitted_traffic \<Rightarrow> nat \<Rightarrow> racks_to_nodes_mapping \<Rightarrow> admitted_traffic \<Rightarrow> nat \<Rightarrow> nat \<Rightarrow> nat" where
  "dcount A N m adm d p = card {i. i < N \<and> \<not> is_pending A m i \<and> drack A i = d \<and> path_of (a_dst (at_edges adm i)) = p}"

definition map_inv :: "admitted_traffic \<Rightarrow> nat \<Rightarrow> nat \<Rightarrow> racks_to_nodes_mapping \<Rightarrow> bool" where
  "map_inv A N n m \<longleftrightarrow> (\<forall>r < n. \<forall>d < n. rlist m r d = take (rn_size (m (r * 16 + d))) (edges_between A N r d))"

definition adm_inv :: "admitted_traffic \<Rightarrow> nat \<Rightarrow> admitted_traffic \<Rightarrow> bool" where
  "adm_inv A N adm \<longleftrightarrow> at_size adm = at_size A \<and> (\<forall>i < N. a_src (at_edges adm i) = a_src (at_edges A i)
     \<and> a_dst (at_edges adm i) AND PATH_MASK = a_dst (at_edges A i) AND PATH_MASK)"

lemma card_le_insert:
  assumes "finite T" "R \<subseteq> (if b then insert x T else T)"
  shows "card R \<le> card T + (if b then 1 else 0)"
proof -
  have "card R \<le> card (if b then insert x T else T)"
    using assms by (intro card_mono) auto
  then show ?thesis
    using card_insert_le_m1 [of "Suc (card T)" T x] by (auto split: if_splits simp: card_insert_if assms(1))
qed

lemma assign_ok:
  assumes m: "map_inv A N n m" and adm: "adm_inv A N adm" and N: "N = unat (at_size A)" "N \<le> 256" and n: "n \<le> 16"
    and rd: "r < n" "d < n" and p: "p < 4" and racks: "\<forall>i < N. srack A i < n \<and> drack A i < n"
  shows "wp (assign_to_path m adm r d p) (\<lambda>(m', adm'). map_inv A N n m' \<and> adm_inv A N adm'
    \<and> (\<forall>r' < n. \<forall>d' < n. rn_size (m' (r' * 16 + d')) = rn_size (m (r' * 16 + d')) - (if r' = r \<and> d' = d then 1 else 0))
    \<and> (\<forall>r' p'. scount A N m' adm' r' p' \<le> scount A N m adm r' p' + (if r' = r \<and> p' = p then 1 else 0))
    \<and> (\<forall>d' p'. dcount A N m' adm' d' p' \<le> dcount A N m adm d' p' + (if d' = d \<and> p' = p then 1 else 0)))"
proof -
  let ?p = "m (r * 16 + d)" and ?L = "edges_between A N r d"
  have g: "get_rack_pair_index r d = Some (r * 16 + d)"
    using rd n by (simp add: get_rack_pair_index_def MAX_RACKS_def guard_o_def)
  have rl: "rlist m r d = take (rn_size ?p) ?L"
    using m rd by (simp add: map_inv_def)
  show ?thesis
  proof (cases "rn_size ?p")
    case 0
    then show ?thesis
      using m adm p by (simp add: assign_to_path_def g NUM_PATHS_def guard_o_def)
  next
    case (Suc k)
    have len: "Suc k \<le> length ?L"
      using arg_cong [OF rl, of length] Suc by (simp add: rlist_def)
    define i0 where "i0 = admitted_indices ?p k"
    have "rlist m r d ! k = ?L ! k"
      unfolding rl using Suc len by simp
    moreover have "rlist m r d ! k = i0"
      by (simp add: rlist_def i0_def Suc del: upt_Suc)
    ultimately have i0: "?L ! k = i0" by simp
    then have "i0 \<in> set ?L" using len by (metis Suc_le_lessD nth_mem)
    then have i: "i0 < N" "srack A i0 = r" "drack A i0 = d"
      by (auto simp: edges_between_def)
    define e where "e = (at_edges adm i0)\<lparr> a_dst := (a_dst (at_edges adm i0) AND PATH_MASK) + push_bit PATH_SHIFT (of_nat p) \<rparr>"
    define m' where "m' = m(r * 16 + d := ?p\<lparr> rn_size := k \<rparr>)"
    define adm' where "adm' = adm\<lparr> at_edges := (at_edges adm)(i0 := e) \<rparr>"
    have eq: "assign_to_path m adm r d p = Some (m', adm')"
      using p i(1) N Suc adm by (simp add: assign_to_path_def g NUM_PATHS_def guard_o_def i0_def [symmetric]
          adm_inv_def MAX_NODES_def m'_def adm'_def e_def)
    have same: "m' (r' * 16 + d') = m (r' * 16 + d')" if "d' < n" "\<not> (r' = r \<and> d' = d)" for r' d'
      using pair_index_inj [of d' d r' r] that rd(2) n by (auto simp: m'_def)
    have rl': "rlist m' r d = take k ?L"
    proof -
      have "rlist m' r d = take k (rlist m r d)"
        by (simp add: rlist_def m'_def Suc take_map)
      then show ?thesis using rl Suc by simp
    qed
    have mi: "map_inv A N n m'"
      unfolding map_inv_def
    proof (intro allI impI)
      fix r' d' assume a: "r' < n" "d' < n"
      show "rlist m' r' d' = take (rn_size (m' (r' * 16 + d'))) (edges_between A N r' d')"
      proof (cases "r' = r \<and> d' = d")
        case True
        then show ?thesis using rl' by (simp add: m'_def)
      next
        case False
        have "rlist m' r' d' = rlist m r' d'" using same [OF a(2) False] by (simp add: rlist_def)
        then show ?thesis using m a same [OF a(2) False] by (simp add: map_inv_def)
      qed
    qed
    have ai: "adm_inv A N adm'"
      using adm path_word(2) [OF p] by (simp add: adm_inv_def adm'_def e_def)
    have sz: "\<forall>r' < n. \<forall>d' < n. rn_size (m' (r' * 16 + d')) = rn_size (m (r' * 16 + d')) - (if r' = r \<and> d' = d then 1 else 0)"
      using same Suc by (auto simp: m'_def)
    have "is_pending A m' x" if "is_pending A m x" "x \<noteq> i0" "drack A x < n" for x
    proof (cases "srack A x = r \<and> drack A x = d")
      case True
      have "x \<in> set (take (Suc k) ?L)" using that(1) True rl Suc by (simp add: is_pending_def)
      then have "x \<in> set (take k ?L)"
        using i0 that(2) len by (simp add: take_Suc_conv_app_nth)
      then show ?thesis using True rl' by (simp add: is_pending_def)
    next
      case False
      then show ?thesis using that(1) same [OF that(3), of "srack A x"] by (auto simp: is_pending_def rlist_def)
    qed
    then have np: "\<not> is_pending A m x" if "\<not> is_pending A m' x" "x \<noteq> i0" "drack A x < n" for x
      using that by blast
    have path: "path_of (a_dst (at_edges adm' x)) = (if x = i0 then p else path_of (a_dst (at_edges adm x)))" for x
      using path_word(1) [OF p] by (simp add: adm'_def e_def)
    have "scount A N m' adm' r' p' \<le> scount A N m adm r' p' + (if r' = r \<and> p' = p then 1 else 0)" for r' p'
      unfolding scount_def by (rule card_le_insert [where x = i0]) (use np path i racks in auto)
    moreover have "dcount A N m' adm' d' p' \<le> dcount A N m adm d' p' + (if d' = d \<and> p' = p then 1 else 0)" for d' p'
      unfolding dcount_def by (rule card_le_insert [where x = i0]) (use np path i racks in auto)
    ultimately show ?thesis
      using eq mi ai sz by simp
  qed
qed

end
