(* ===== verification/FP_Paths_Spec.thy ===== *)
theory FP_Paths_Spec
  imports FP_Paths_Ok
begin

unbundle bit_operations_syntax

text \<open>
  \<^verbatim>\<open>split_and_populate_paths\<close> is another instance of \<^verbatim>\<open>euler_walk\<close>: its counters bound the edges assigned to
  the two paths at every rack. Together with the split and the construction of the graph this
  gives the properties of \<^verbatim>\<open>select_paths\<close> at the end.
\<close>

subsection \<open>Walking and assigning\<close>

definition setting :: "admitted_traffic \<Rightarrow> nat \<Rightarrow> nat \<Rightarrow> bool" where
  "setting A N n \<longleftrightarrow> N = unat (at_size A) \<and> N \<le> 256 \<and> n \<le> 16 \<and> (\<forall>i < N. srack A i < n \<and> drack A i < n)"

definition path_bound :: "(nat \<Rightarrow> nat \<Rightarrow> nat) \<Rightarrow> nat \<Rightarrow> nat \<Rightarrow> (bool \<Rightarrow> nat \<Rightarrow> nat) \<Rightarrow> nat \<Rightarrow> nat \<Rightarrow> nat" where
  "path_bound B p0 p1 C p w = B p w + (if p = p0 then C False w else if p = p1 then C True w else 0)"

definition pop_inv :: "admitted_traffic \<Rightarrow> nat \<Rightarrow> graph_structure \<Rightarrow> (nat \<Rightarrow> nat \<Rightarrow> nat) \<Rightarrow> (nat \<Rightarrow> nat \<Rightarrow> nat)
    \<Rightarrow> nat \<Rightarrow> nat \<Rightarrow> (bool \<Rightarrow> nat \<Rightarrow> nat) \<Rightarrow> path_state \<Rightarrow> bool" where
  "pop_inv A N S later B p0 p1 C = (\<lambda>(E, m, adm). graph_ok S E \<and> setting A N (gs_n S) \<and> p0 < 4 \<and> p1 < 4 \<and> p0 \<noteq> p1
     \<and> map_inv A N (gs_n S) m \<and> adm_inv A N adm
     \<and> (\<forall>r < gs_n S. \<forall>d < gs_n S. rn_size (m (r * 16 + d)) \<le> mult S E r (gs_n S + d) + later r d)
     \<and> (\<forall>r < gs_n S. \<forall>p. scount A N m adm r p \<le> path_bound B p0 p1 C p r
          \<and> dcount A N m adm r p \<le> path_bound B p0 p1 C p (gs_n S + r)))"

lemma pop_step:
  assumes inv: "pop_inv A N S later B p0 p1 C (E, m, adm)" and E: "l < gs_n S" "gbit E l i" "partner S (l, i) = (gs_n S + d, j)"
    and d: "d < gs_n S" and uv: "(u = l \<and> v = gs_n S + d) \<or> (v = l \<and> u = gs_n S + d)"
  shows "wp (assign_to_path m adm l d (if c then p1 else p0))
    (\<lambda>(m', adm'). pop_inv A N S later B p0 p1 (bump C c u v) (clear_edge E l i (gs_n S + d) j, m', adm'))"
proof -
  let ?n = "gs_n S" and ?p = "if c then p1 else p0"
  have ok: "graph_ok S E" and st: "setting A N ?n" and p: "p0 < 4" "p1 < 4" "p0 \<noteq> p1"
    and m: "map_inv A N ?n m" and adm: "adm_inv A N adm"
    and sz: "\<And>r d. r < ?n \<Longrightarrow> d < ?n \<Longrightarrow> rn_size (m (r * 16 + d)) \<le> mult S E r (?n + d) + later r d"
    and cnt: "\<And>r p. r < ?n \<Longrightarrow> scount A N m adm r p \<le> path_bound B p0 p1 C p r
          \<and> dcount A N m adm r p \<le> path_bound B p0 p1 C p (?n + r)"
    using inv by (auto simp: pop_inv_def)
  have st': "N = unat (at_size A)" "N \<le> 256" "?n \<le> 16" "\<forall>i < N. srack A i < ?n \<and> drack A i < ?n"
    using st by (simp_all add: setting_def)
  have lt: "l < 2 * ?n" "l \<noteq> ?n + d" using E(1) by auto
  have pc: "?p < 4" using p by simp
  obtain m' adm' where a: "assign_to_path m adm l d ?p = Some (m', adm')" "map_inv A N ?n m'" "adm_inv A N adm'"
      "\<And>r' d'. r' < ?n \<Longrightarrow> d' < ?n \<Longrightarrow> rn_size (m' (r' * 16 + d')) = rn_size (m (r' * 16 + d')) - (if r' = l \<and> d' = d then 1 else 0)"
      "\<And>r' p'. scount A N m' adm' r' p' \<le> scount A N m adm r' p' + (if r' = l \<and> p' = ?p then 1 else 0)"
      "\<And>d' p'. dcount A N m' adm' d' p' \<le> dcount A N m adm d' p' + (if d' = d \<and> p' = ?p then 1 else 0)"
    using wpD [OF assign_ok [OF m adm st'(1-3) E(1) d pc st'(4)]] by blast
  have ml: "mult S (clear_edge E l i (?n + d) j) r x = (if r = l \<and> x = ?n + d then mult S E r x - 1 else mult S E r x)"
    if "r < ?n" for r x
    by (rule mult_clear [OF lt(2) _ E(2,3)]) (use that in auto)
  have "0 < mult S E l (?n + d)"
    unfolding mult_def using E(2,3) by (subst card_gt_0_iff) auto
  then have "rn_size (m' (r' * 16 + d')) \<le> mult S (clear_edge E l i (?n + d) j) r' (?n + d') + later r' d'"
    if "r' < ?n" "d' < ?n" for r' d'
    using sz [OF that] a(4) [OF that] ml [OF that(1), of "?n + d'"] by auto
  moreover have "path_bound B p0 p1 (bump C c u v) p' w = path_bound B p0 p1 C p' w
      + (if (w = l \<or> w = ?n + d) \<and> p' = ?p then 1 else 0)" for p' w
    using p(3) uv by (auto simp: path_bound_def bump_def)
  then have "scount A N m' adm' r' p' \<le> path_bound B p0 p1 (bump C c u v) p' r'
      \<and> dcount A N m' adm' r' p' \<le> path_bound B p0 p1 (bump C c u v) p' (?n + r')" if "r' < ?n" for r' p'
    using cnt [OF that, of p'] a(5) [of r' p'] a(6) [of r' p'] E(1) that d by (auto split: if_splits)
  ultimately show ?thesis
    using a(1-3) graph_ok_clear [OF ok lt(1) E(2,3)] st p by (simp add: pop_inv_def)
qed

lemma pop_peel_ok:
  assumes inv: "pop_inv A N S later B p0 p1 C s" and u: "u < 2 * gs_n S" "0 < gdeg (fst s) u" "c \<longleftrightarrow> gs_n S \<le> u"
  shows "wp (pop_peel S p0 p1 c u s) (\<lambda>(v, s'). v < 2 * gs_n S \<and> (v < gs_n S \<longleftrightarrow> gs_n S \<le> u)
    \<and> peeled (gs_n S) (gdeg (fst s)) (gdeg (fst s')) u v \<and> pop_inv A N S later B p0 p1 (bump C c u v) s')"
proof -
  obtain E m adm where s: "s = (E, m, adm)" by (cases s)
  let ?n = "gs_n S"
  have ok: "graph_ok S E" and n: "?n \<le> 16"
    using inv by (simp_all add: s pop_inv_def setting_def)
  obtain i v j where f: "find_neighbor S E u = Some (i, v, j)" "gbit E u i" "partner S (u, i) = (v, j)"
    using find_neighbor_ok [OF ok u(1)] u(2) s by auto
  note uv = graph_okD [OF ok u(1) f(2,3)]
  let ?E = "clear_edge E u i v j"
  have "gdeg E u \<noteq> 0" "gdeg E v \<noteq> 0"
    using f(2) uv(5) by (auto simp: gdeg_def)
  then have pe: "peeled ?n (gdeg E) (gdeg ?E) u v"
    using gdeg_clear [OF uv(6) f(2) uv(5)] by (simp add: peeled_def)
  have con: "is_consistent S ?E"
    using graph_ok_clear [OF ok u(1) f(2,3)] by (rule is_consistent_ok)
  define l where "l = (if c then v else u)"
  define d where "d = (if c then u else v) - ?n"
  have ld: "l < ?n" "d < ?n" "(if c then u else v) = ?n + d"
    using u(1,3) uv(1,3) n by (auto simp: l_def d_def)
  have mod: "((if c then u else v) + 256 - ?n) mod 256 = d"
    unfolding ld(3) using ld(2) n by simp
  have "wp (assign_to_path m adm l d (if c then p1 else p0)) (\<lambda>(m', adm'). pop_inv A N S later B p0 p1 (bump C c u v) (?E, m', adm'))"
  proof (cases c)
    case True
    have "?E = clear_edge E v j u i" using uv(6) by (rule clear_edge_swap)
    then show ?thesis
      using pop_step [OF inv [unfolded s], of l j d i u v c] ld(1-3) uv(4,5) True by (simp add: l_def)
  next
    case False
    then show ?thesis
      using pop_step [OF inv [unfolded s], of l i d j u v c] ld(1-3) f(2,3) by (simp add: l_def)
  qed
  then obtain m' adm' where "assign_to_path m adm l d (if c then p1 else p0) = Some (m', adm')"
      "pop_inv A N S later B p0 p1 (bump C c u v) (?E, m', adm')"
    by (auto simp: wp_def)
  then show ?thesis
    using uv(1,3) pe con mod
    by (cases c) (simp_all add: pop_peel_def s remove_edge_to_neighbor_def f(1) guard_o_def l_def)
qed

interpretation pp: euler_walk "gs_n S" "\<lambda>s. gdeg (fst s)" "pop_peel S p0 p1" "populate_loop S p0 p1"
    "pop_inv A N S later B p0 p1"
  for S :: graph_structure and p0 p1 :: nat and A :: admitted_traffic and N :: nat
    and later B :: "nat \<Rightarrow> nat \<Rightarrow> nat"
proof
  fix C s node cur u v
  show "populate_loop S p0 p1 node cur s = (if gdeg (fst s) node = 0 then Some s
      else do { (v, s) \<leftarrow> pop_peel S p0 p1 False cur s; (w, s) \<leftarrow> pop_peel S p0 p1 True v s; populate_loop S p0 p1 node w s })"
    if "pop_inv A N S later B p0 p1 C s" "node < gs_n S"
  proof -
    have "gs_n S \<le> 16"
      using that(1) by (auto simp: pop_inv_def setting_def split: prod.splits)
    then have "has_neighbor (fst s) node = Some (gdeg (fst s) node \<noteq> 0)"
      using that(2) by (simp add: has_neighbor_def guard_o_def MAX_GRAPH_NODES_def gdeg_0_iff)
    then show ?thesis
      by (subst populate_loop.simps) simp
  qed
  show "pop_inv A N S later B p0 p1 C s \<Longrightarrow> u < gs_n S \<Longrightarrow> 0 < gdeg (fst s) u \<Longrightarrow>
      wp (pop_peel S p0 p1 False u s) (\<lambda>(v, s'). gs_n S \<le> v \<and> v < 2 * gs_n S
        \<and> peeled (gs_n S) (gdeg (fst s)) (gdeg (fst s')) u v \<and> pop_inv A N S later B p0 p1 (bump C False u v) s')"
    by (rule wp_mono [OF pop_peel_ok]) auto
  show "pop_inv A N S later B p0 p1 C s \<Longrightarrow> gs_n S \<le> u \<Longrightarrow> u < 2 * gs_n S \<Longrightarrow> 0 < gdeg (fst s) u \<Longrightarrow>
      wp (pop_peel S p0 p1 True u s) (\<lambda>(v, s'). v < gs_n S
        \<and> peeled (gs_n S) (gdeg (fst s)) (gdeg (fst s')) u v \<and> pop_inv A N S later B p0 p1 (bump C True u v) s')"
    by (rule wp_mono [OF pop_peel_ok]) auto
  show "pop_inv A N S later B p0 p1 C s \<Longrightarrow> \<forall>u < gs_n S. gdeg (fst s) u = 0 \<Longrightarrow> v < 2 * gs_n S \<Longrightarrow> gdeg (fst s) v = 0"
    by (rule gdeg_no_left) (auto simp: pop_inv_def)
qed

lemma populate_ok:
  assumes inv: "pop_inv A N S later B p0 p1 (\<lambda>_ _. 0) (E, m, adm)" and ev: "\<forall>w < 2 * gs_n S. even (gdeg E w)"
  shows "wp (split_and_populate_paths S p0 p1 (E, m, adm)) (\<lambda>(E', m', adm'). map_inv A N (gs_n S) m' \<and> adm_inv A N adm'
    \<and> (\<forall>r < gs_n S. \<forall>d < gs_n S. rn_size (m' (r * 16 + d)) \<le> later r d)
    \<and> (\<forall>r < gs_n S. \<forall>p. scount A N m' adm' r p \<le> B p r + (if p = p0 \<or> p = p1 then gdeg E r div 2 else 0)
         \<and> dcount A N m' adm' r p \<le> B p (gs_n S + r) + (if p = p0 \<or> p = p1 then gdeg E (gs_n S + r) div 2 else 0)))"
proof -
  let ?n = "gs_n S"
  obtain s' C where s': "foldo (\<lambda>node s. populate_loop S p0 p1 node node s) [0..<?n] (E, m, adm) = Some s'"
      "pop_inv A N S later B p0 p1 C s'"
      "\<forall>w < 2 * ?n. gdeg (fst s') w = 0 \<and> 2 * C False w = gdeg E w \<and> 2 * C True w = gdeg E w"
    using wpD [OF pp.euler_split [OF inv]] ev by auto
  obtain E' m' adm' where e: "s' = (E', m', adm')" by (cases s')
  have p: "p0 < 4" "p1 < 4" using inv by (simp_all add: pop_inv_def)
  have C: "C False w = gdeg E w div 2" "C True w = gdeg E w div 2" if "w < 2 * ?n" for w
    using s'(3) that by (metis nonzero_mult_div_cancel_left zero_neq_numeral)+
  have "mult S E' r x = 0" if "r < ?n" for r x
  proof -
    have "gdeg E' r = 0" using s'(3) that by (simp add: e)
    then show ?thesis using mult_le_gdeg [of S E' r x] by simp
  qed
  then have "\<forall>r < ?n. \<forall>d < ?n. rn_size (m' (r * 16 + d)) \<le> later r d"
    using s'(2) by (simp add: e pop_inv_def)
  moreover have "scount A N m' adm' r q \<le> B q r + (if q = p0 \<or> q = p1 then gdeg E r div 2 else 0)
      \<and> dcount A N m' adm' r q \<le> B q (?n + r) + (if q = p0 \<or> q = p1 then gdeg E (?n + r) div 2 else 0)" if r: "r < ?n" for r q
  proof -
    have "scount A N m' adm' r q \<le> path_bound B p0 p1 C q r \<and> dcount A N m' adm' r q \<le> path_bound B p0 p1 C q (?n + r)"
      using s'(2) r by (simp add: e pop_inv_def)
    then show ?thesis
      using C [of r] C [of "?n + r"] r by (auto simp: path_bound_def split: if_splits)
  qed
  ultimately show ?thesis
    using s'(1,2) p by (simp add: split_and_populate_paths_def guard_o_def NUM_PATHS_def e pop_inv_def)
qed

subsection \<open>Counting the paths used\<close>

lemma path_of_lt: "path_of x < 4"
proof -
  have "unat (drop_bit 14 y) < 4" for y :: u16
    using unat_u16_lt [of y] by (simp add: drop_bit_eq_div unat_div less_mult_imp_div_less)
  then show ?thesis
    unfolding path_of_def PATH_SHIFT_def by blast
qed

definition rack_paths :: "(nat \<Rightarrow> nat) \<Rightarrow> admitted_traffic \<Rightarrow> nat \<Rightarrow> nat \<Rightarrow> nat \<Rightarrow> nat" where
  "rack_paths rack adm k r p = card {i. i < k \<and> rack i = r \<and> path_of (a_dst (at_edges adm i)) = p}"

lemma rack_paths_Suc: "rack_paths rack adm (Suc k) r p
    = rack_paths rack adm k r p + (if rack k = r \<and> path_of (a_dst (at_edges adm k)) = p then 1 else 0)"
  by (simp add: rack_paths_def card_Suc_P)

lemma rack_paths_mono: "k \<le> N \<Longrightarrow> rack_paths rack adm k r p \<le> rack_paths rack adm N r p"
  unfolding rack_paths_def by (rule card_mono) auto

lemma rack_paths_sum: "(\<Sum>p<4. rack_paths rack adm k r p) = card {i. i < k \<and> rack i = r}"
proof -
  have "{i. i < k \<and> rack i = r} = (\<Union>p<4. {i. i < k \<and> rack i = r \<and> path_of (a_dst (at_edges adm i)) = p})"
    using path_of_lt by auto
  moreover have "card (\<Union>p<4. {i. i < k \<and> rack i = r \<and> path_of (a_dst (at_edges adm i)) = p})
      = (\<Sum>p<4. card {i. i < k \<and> rack i = r \<and> path_of (a_dst (at_edges adm i)) = p})"
    by (rule card_UN_disjoint) auto
  ultimately show ?thesis
    by (simp add: rack_paths_def)
qed

definition counts_ok :: "(nat \<Rightarrow> nat) \<Rightarrow> admitted_traffic \<Rightarrow> nat \<Rightarrow> nat \<Rightarrow> (nat \<Rightarrow> nat) \<Rightarrow> bool" where
  "counts_ok rack adm n k counts \<longleftrightarrow> (\<forall>r < n. \<forall>p < 4. counts (r * 4 + p) = rack_paths rack adm k r p)"

lemma count_path_ok:
  assumes ok: "counts_ok rack adm n k counts" and k: "k < N" and n: "n \<le> 16" "rack k < n"
    and lim: "\<forall>r < n. \<forall>p < 4. rack_paths rack adm N r p \<le> 64"
  shows "wp (count_path (rack k) (path_of (a_dst (at_edges adm k))) counts) (counts_ok rack adm n (Suc k))"
proof -
  let ?p = "path_of (a_dst (at_edges adm k))"
  have p: "?p < 4" by (rule path_of_lt)
  have "rack_paths rack adm k (rack k) ?p \<le> 64"
    using lim n(2) p rack_paths_mono [of k N rack adm "rack k" ?p] k by (meson less_imp_le order_trans)
  then have c: "(counts (rack k * 4 + ?p) + 1) mod 256 = Suc (rack_paths rack adm k (rack k) ?p)"
    using ok n(2) p by (simp add: counts_ok_def)
  have inj: "r * 4 + q = rack k * 4 + ?p \<longleftrightarrow> r = rack k \<and> q = ?p" if "q < 4" for r q
  proof
    assume eq: "r * 4 + q = rack k * 4 + ?p"
    have "(r * 4 + q) div 4 = (rack k * 4 + ?p) div 4" "(r * 4 + q) mod 4 = (rack k * 4 + ?p) mod 4"
      by (simp_all only: eq)
    then show "r = rack k \<and> q = ?p" using that p by simp
  qed simp
  have "counts_ok rack adm n (Suc k) (counts(rack k * 4 + ?p := Suc (rack_paths rack adm k (rack k) ?p)))"
    using ok by (auto simp: counts_ok_def rack_paths_Suc inj)
  moreover have "rack k * 4 + ?p < 64" using n p by simp
  ultimately show ?thesis
    using c by (simp add: count_path_def NUM_PATHS_def MAX_RACKS_def)
qed

lemma rack_degree_ok:
  assumes "counts_ok rack adm n k counts" "r < n"
  shows "rack_degree counts r = card {i. i < k \<and> rack i = r}"
proof -
  have "rack_degree counts r = (\<Sum>p<4. counts (r * 4 + p))"
    by (simp add: rack_degree_def NUM_PATHS_def sum_list_distinct_conv_sum_set atLeast0LessThan)
  also have "\<dots> = (\<Sum>p<4. rack_paths rack adm k r p)"
    using assms by (intro sum.cong) (auto simp: counts_ok_def)
  finally show ?thesis
    by (simp add: rack_paths_sum)
qed

text \<open>The traffic path selection can handle.\<close>

definition paths_pre :: "admitted_traffic \<Rightarrow> nat \<Rightarrow> bool" where
  "paths_pre A n \<longleftrightarrow> setting A (unat (at_size A)) n
     \<and> (\<forall>i < unat (at_size A). a_dst (at_edges A i) AND PATH_MASK = a_dst (at_edges A i))
     \<and> (\<forall>r < n. srcs A (unat (at_size A)) r \<le> 64 \<and> dsts A (unat (at_size A)) r \<le> 64)"

definition balanced :: "admitted_traffic \<Rightarrow> nat \<Rightarrow> admitted_traffic \<Rightarrow> bool" where
  "balanced A n adm \<longleftrightarrow> (\<forall>r < n. \<forall>p < 4.
     rack_paths (srack A) adm (unat (at_size A)) r p \<le> need A (unat (at_size A)) n div 4
     \<and> rack_paths (drack A) adm (unat (at_size A)) r p \<le> need A (unat (at_size A)) n div 4)"

lemma paths_are_valid_ok:
  assumes pre: "paths_pre A n" and adm: "adm_inv A (unat (at_size A)) adm" and bal: "balanced A n adm"
  shows "paths_are_valid adm n g1 g2 = Some True"
proof -
  let ?N = "unat (at_size A)"
  have st: "?N \<le> 256" "n \<le> 16" "\<forall>i < ?N. srack A i < n \<and> drack A i < n"
    and msk: "\<forall>i < ?N. a_dst (at_edges A i) AND PATH_MASK = a_dst (at_edges A i)"
    and deg: "\<forall>r < n. srcs A ?N r \<le> 64 \<and> dsts A ?N r \<le> 64"
    using pre by (simp_all add: paths_pre_def setting_def)
  note nd = need_props [OF deg]
  have q: "need A ?N n div 4 \<le> 64" using nd(1) by simp
  have lim: "\<forall>r < n. \<forall>p < 4. rack_paths (srack A) adm ?N r p \<le> 64" "\<forall>r < n. \<forall>p < 4. rack_paths (drack A) adm ?N r p \<le> 64"
    using bal q unfolding balanced_def by (meson order_trans)+
  define J where "J = (\<lambda>k (cs, cd). counts_ok (srack A) adm n k cs \<and> counts_ok (drack A) adm n k cd)"
  let ?f = "\<lambda>i (src_counts, dst_counts). do {
         edge \<leftarrow> admitted_edge_at adm i;
         let path = path_of (a_dst edge);
         src_counts \<leftarrow> count_path (rack_of (a_src edge)) path src_counts;
         dst_counts \<leftarrow> count_path (rack_of (a_dst edge AND PATH_MASK)) path dst_counts;
         Some (src_counts, dst_counts) }"
  have "wp (foldo ?f [0..<?N] (fill (n * 4) 0 g1, fill (n * 4) 0 g2)) (J (length [0..<?N]))"
  proof (rule wp_foldo [where P = J])
    show "J 0 (fill (n * 4) 0 g1, fill (n * 4) 0 g2)"
      by (auto simp: J_def counts_ok_def rack_paths_def fill_def)
    fix k s assume k: "k < length [0..<?N]" and "J k s"
    then obtain cs cd where s: "s = (cs, cd)" "counts_ok (srack A) adm n k cs" "counts_ok (drack A) adm n k cd"
      by (cases s) (simp add: J_def)
    have kN: "k < ?N" using k by simp
    have r: "rack_of (a_src (at_edges adm k)) = srack A k" "rack_of (a_dst (at_edges adm k) AND PATH_MASK) = drack A k"
      using adm msk kN by (simp_all add: adm_inv_def srack_def drack_def)
    obtain cs' where "count_path (srack A k) (path_of (a_dst (at_edges adm k))) cs = Some cs'" "counts_ok (srack A) adm n (Suc k) cs'"
      using wpD [OF count_path_ok [OF s(2) kN st(2) _ lim(1)]] st(3) kN by blast
    moreover obtain cd' where "count_path (drack A k) (path_of (a_dst (at_edges adm k))) cd = Some cd'" "counts_ok (drack A) adm n (Suc k) cd'"
      using wpD [OF count_path_ok [OF s(3) kN st(2) _ lim(2)]] st(3) kN by blast
    ultimately show "wp (?f ([0..<?N] ! k) s) (J (Suc k))"
      using k kN st(1) by (simp add: s(1) admitted_edge_at_def MAX_NODES_def r J_def)
  qed
  then obtain cs cd where c: "foldo ?f [0..<?N] (fill (n * 4) 0 g1, fill (n * 4) 0 g2) = Some (cs, cd)"
      "counts_ok (srack A) adm n ?N cs" "counts_ok (drack A) adm n ?N cd"
    by (auto simp: wp_def J_def)
  have "fold_max (rack_degree cs) (rack_degree cd) n = fold_max (srcs A ?N) (dsts A ?N) n"
    by (rule fold_max_cong) (simp add: rack_degree_ok [OF c(2)] rack_degree_ok [OF c(3)] srcs_def dsts_def)
  then have mx: "round_degree (fold_max (rack_degree cs) (rack_degree cd) n) = need A ?N n"
    by (simp add: need_def)
  have "list_all (\<lambda>i. list_all (\<lambda>j. cs (i * 4 + j) \<le> need A ?N n div 4 \<and> cd (i * 4 + j) \<le> need A ?N n div 4) [0..<4]) [0..<n]"
    using c(2,3) bal by (simp add: list_all_iff counts_ok_def balanced_def)
  moreover have "at_size adm = at_size A" using adm by (simp add: adm_inv_def)
  ultimately show ?thesis
    using c(1) st(2) mx unfolding paths_are_valid_def
    by (simp add: NUM_PATHS_def MAX_RACKS_def guard_o_def fold_max_def [symmetric])
qed

subsection \<open>Selecting paths\<close>

lemma empty_graph:
  assumes "gs_n S \<le> 64" "\<forall>u < 2 * gs_n S. neighbor_bitmaps e u = 0"
  shows "graph_ok S e" "apart (2 * gs_n S) E e" "apart (2 * gs_n S) e E" "u < 2 * gs_n S \<Longrightarrow> gdeg e u = 0" "u < 2 * gs_n S \<Longrightarrow> \<not> gbit e u i"
  using assms by (simp_all add: graph_ok_def apart_def gbit_def gdeg_0_iff)

lemma start_pop_inv:
  assumes st: "setting A N (gs_n S)" and ok: "graph_ok S e1"
    and m: "\<forall>r < 16. \<forall>d < 16. rlist m r d = edges_between A N r d"
    and le: "\<forall>r < gs_n S. \<forall>d < gs_n S. rpairs A N r d \<le> mult S e1 r (gs_n S + d) + later r d"
  shows "pop_inv A N S later (\<lambda>_ _. 0) 0 1 (\<lambda>_ _. 0) (e1, m, A)"
proof -
  have n: "gs_n S \<le> 16" and racks: "\<And>i. i < N \<Longrightarrow> srack A i < 16 \<and> drack A i < 16"
    using st unfolding setting_def by (auto intro: less_le_trans)
  have sz: "rn_size (m (r * 16 + d)) = rpairs A N r d" if "r < 16" "d < 16" for r d
    using m that length_edges_between [of A N r d] by (metis length_map length_upt minus_nat.diff_0 rlist_def)
  have "is_pending A m i" if "i < N" for i
    using m racks [OF that] that by (simp add: is_pending_def edges_between_def)
  then have "scount A N m A r p = 0" "dcount A N m A r p = 0" for r p
    by (auto simp: scount_def dcount_def)
  moreover have "map_inv A N (gs_n S) m"
    unfolding map_inv_def
  proof (intro allI impI)
    fix r d assume "r < gs_n S" "d < gs_n S"
    then have "r < 16" "d < 16" using n by auto
    then show "rlist m r d = take (rn_size (m (r * 16 + d))) (edges_between A N r d)"
      using m sz length_edges_between [of A N r d] by simp
  qed
  moreover have "rn_size (m (r * 16 + d)) \<le> mult S e1 r (gs_n S + d) + later r d" if "r < gs_n S" "d < gs_n S" for r d
    using le that n sz by simp
  ultimately show ?thesis
    using st ok by (simp add: pop_inv_def adm_inv_def)
qed

lemma next_pop_inv:
  assumes "setting A N (gs_n S)" "graph_ok S e2" "map_inv A N (gs_n S) m" "adm_inv A N adm"
    and "\<forall>r < gs_n S. \<forall>d < gs_n S. rn_size (m (r * 16 + d)) \<le> mult S e2 r (gs_n S + d)"
    and "\<forall>r < gs_n S. \<forall>p. scount A N m adm r p \<le> B p r \<and> dcount A N m adm r p \<le> B p (gs_n S + r)"
  shows "pop_inv A N S (\<lambda>_ _. 0) B 2 3 (\<lambda>_ _. 0) (e2, m, adm)"
  using assms by (simp add: pop_inv_def path_bound_def)

lemma none_pending:
  assumes st: "setting A N n" and m: "\<forall>r < n. \<forall>d < n. rn_size (m (r * 16 + d)) \<le> 0"
  shows "rack_paths (srack A) adm N r p = scount A N m adm r p" "rack_paths (drack A) adm N r p = dcount A N m adm r p"
proof -
  have "\<not> is_pending A m i" if "i < N" for i
  proof -
    have "rn_size (m (srack A i * 16 + drack A i)) = 0"
      using m st that by (simp add: setting_def)
    then show ?thesis by (simp add: is_pending_def rlist_def)
  qed
  then have "{i. i < N \<and> \<not> is_pending A m i \<and> Q i} = {i. i < N \<and> Q i}" for Q
    by auto
  then show "rack_paths (srack A) adm N r p = scount A N m adm r p" "rack_paths (drack A) adm N r p = dcount A N m adm r p"
    unfolding rack_paths_def scount_def dcount_def by simp_all
qed

lemma select_paths_ok:
  assumes pre: "paths_pre A n"
  shows "wp (select_paths A n m0 S0 garbage) (\<lambda>adm. adm_inv A (unat (at_size A)) adm \<and> balanced A n adm)"
proof -
  let ?N = "unat (at_size A)"
  define M where "M = need A ?N n"
  have st: "setting A ?N n" "?N \<le> 256" "n \<le> 16" "\<forall>i < ?N. srack A i < n \<and> drack A i < n"
    and deg: "\<forall>r < n. srcs A ?N r \<le> 64 \<and> dsts A ?N r \<le> 64"
    using pre by (simp_all add: paths_pre_def setting_def)
  have M: "M mod 4 = 0" using need_props(2) [OF deg] by (simp add: M_def)
  obtain m where m: "map_racks_to_nodes A (init_racks_to_nodes_mapping m0) = Some m"
      "\<forall>r < 16. \<forall>d < 16. rlist m r d = edges_between A ?N r d"
    using wpD [OF map_racks_ok [OF st(2)]] st(3,4) by (meson less_le_trans)
  define e where "e k = (garbage k)\<lparr> neighbor_bitmaps := (\<lambda>i. if i < 2 * n then 0 else neighbor_bitmaps (garbage k) i) \<rparr>" for k
  have e: "graph_edges_init (garbage k) n = Some (e k)" "\<forall>u < 2 * n. neighbor_bitmaps (e k) u = 0" for k
    using st(3) by (simp_all add: graph_edges_init_def guard_o_def MAX_GRAPH_NODES_def e_def)
  obtain S E where g: "construct_graph A (S0\<lparr> gs_n := n \<rparr>) (e 0) = Some (S, E)" "graph_ok S E" "gs_n S = n"
      "\<forall>w < 2 * n. gdeg E w = M" "\<forall>r < n. \<forall>d < n. rpairs A ?N r d \<le> mult S E r (n + d)"
    using wpD [OF construct_graph_ok [OF st(2,4,3) _ deg e(2) [of 0], of "S0\<lparr> gs_n := n \<rparr>"]] by (auto simp: M_def)
  have n64: "gs_n S \<le> 64" and z: "\<forall>u < 2 * gs_n S. neighbor_bitmaps (e k) u = 0" for k
    using st(3) g(3) e(2) by simp_all
  note em = empty_graph [OF n64 z]
  have "even M" using M by presburger
  then have "wp (split S (E, e 1, e 2)) (\<lambda>(E', e1, e2). graph_ok S e1 \<and> graph_ok S e2 \<and> apart (2 * gs_n S) e1 e2
    \<and> (\<forall>w < 2 * gs_n S. gdeg E' w = 0 \<and> gdeg e1 w = gdeg (e 1) w + gdeg E w div 2 \<and> gdeg e2 w = gdeg (e 2) w + gdeg E w div 2
         \<and> (\<forall>i. (gbit e1 w i \<or> gbit e2 w i \<longleftrightarrow> gbit E w i \<or> gbit (e 1) w i \<or> gbit (e 2) w i)
              \<and> (gbit (e 1) w i \<longrightarrow> gbit e1 w i) \<and> (gbit (e 2) w i \<longrightarrow> gbit e2 w i))))"
    using g(2,3,4) em(1,2) by (intro split_ok) simp_all
  then obtain E' e1 e2 where sp: "split S (E, e 1, e 2) = Some (E', e1, e2)" "graph_ok S e1" "graph_ok S e2" "apart (2 * gs_n S) e1 e2"
      "\<forall>w < 2 * n. gdeg e1 w = M div 2 \<and> gdeg e2 w = M div 2 \<and> (\<forall>i. gbit e1 w i \<or> gbit e2 w i \<longleftrightarrow> gbit E w i)"
    using g(3,4) em(4,5) by (auto simp: wp_def)
  have ev: "\<forall>w < 2 * gs_n S. even (gdeg e1 w)" "\<forall>w < 2 * gs_n S. even (gdeg e2 w)"
    using sp(5) g(3) M by (auto simp: dvd_def)
  have quarter: "gdeg e1 r div 2 = M div 4" "gdeg e1 (n + r) div 2 = M div 4"
      "gdeg e2 r div 2 = M div 4" "gdeg e2 (n + r) div 2 = M div 4" if "r < n" for r
    using sp(5) g(3) that by (simp_all add: div_mult2_eq [symmetric])
  have mu: "mult S E r x = mult S e1 r x + mult S e2 r x" if "r < n" for r x
    using mult_split [OF sp(4), of r E x] sp(5) g(3) that by simp
  have "pop_inv A ?N S (\<lambda>r d. mult S e2 r (n + d)) (\<lambda>_ _. 0) 0 1 (\<lambda>_ _. 0) (e1, m, A)"
    by (rule start_pop_inv) (use st(1) g(3,5) sp(2) m(2) mu in auto)
  from wpD [OF populate_ok [OF this ev(1)]] obtain f1 m1 a1 where
    p1: "split_and_populate_paths S 0 1 (e1, m, A) = Some (f1, m1, a1)" "map_inv A ?N n m1" "adm_inv A ?N a1"
      "\<forall>r < n. \<forall>d < n. rn_size (m1 (r * 16 + d)) \<le> mult S e2 r (n + d)"
      "\<forall>r < n. \<forall>p. scount A ?N m1 a1 r p \<le> (if p = 0 \<or> p = 1 then M div 4 else 0)
         \<and> dcount A ?N m1 a1 r p \<le> (if p = 0 \<or> p = 1 then M div 4 else 0)"
    by (auto simp: quarter g(3) cong: conj_cong if_cong)
  have "pop_inv A ?N S (\<lambda>_ _. 0) (\<lambda>p w. if p = 0 \<or> p = 1 then M div 4 else 0) 2 3 (\<lambda>_ _. 0) (e2, m1, a1)"
    by (rule next_pop_inv) (use st(1) g(3) sp(3) p1(2-5) in auto)
  from wpD [OF populate_ok [OF this ev(2)]] obtain f2 m2 a2 where
    p2: "split_and_populate_paths S 2 3 (e2, m1, a1) = Some (f2, m2, a2)" "adm_inv A ?N a2"
      "\<forall>r < n. \<forall>d < n. rn_size (m2 (r * 16 + d)) \<le> 0"
      "\<forall>r < n. \<forall>p. scount A ?N m2 a2 r p \<le> (if p = 0 \<or> p = 1 then M div 4 else 0) + (if p = 2 \<or> p = 3 then M div 4 else 0)
         \<and> dcount A ?N m2 a2 r p \<le> (if p = 0 \<or> p = 1 then M div 4 else 0) + (if p = 2 \<or> p = 3 then M div 4 else 0)"
    by (auto simp: quarter g(3) cong: conj_cong if_cong)
  have "scount A ?N m2 a2 r p \<le> M div 4 \<and> dcount A ?N m2 a2 r p \<le> M div 4" if "r < n" for r p
    using p2(4) [rule_format, OF that, of p] by (auto split: if_splits)
  then have "balanced A n a2"
    by (simp add: balanced_def none_pending [OF st(1) p2(3)] M_def)
  moreover have "select_paths A n m0 S0 garbage = Some a2"
    using st(3) m(1) e(1) g(1) sp(1) p1(1) p2(1)
    by (simp add: select_paths_def guard_o_def MAX_RACKS_def graph_structure_init_def MAX_GRAPH_NODES_def)
  ultimately show ?thesis
    using p2(2) by simp
qed

subsection \<open>Properties of path selection\<close>

text \<open>
  C29: for traffic between at most 16 racks in which no rack sends or receives more than 64
  edges, \<^verbatim>\<open>select_paths\<close> ends without a failed assertion and its result passes \<^verbatim>\<open>paths_are_valid\<close>: no
  rack uses a path for more than a quarter of the rounded maximal degree. Only the path bits of the
  destinations change. The bound of 64 is a condition on the traffic: with the constants of \<^verbatim>\<open>topology.h\<close>
  (256 nodes, \<^verbatim>\<open>TOR_SHIFT\<close> 8) every node is in rack 0, so it asks for at most 64 admitted edges in the
  timeslot; with more of them path selection stops at an assertion (\<^verbatim>\<open>select_paths_overflow\<close> below).
\<close>

theorem select_paths_valid:
  assumes "paths_pre A n" "i < unat (at_size A)"
  shows "\<exists>adm. select_paths A n m0 S0 garbage = Some adm \<and> paths_are_valid adm n g1 g2 = Some True
    \<and> at_size adm = at_size A \<and> a_src (at_edges adm i) = a_src (at_edges A i)
    \<and> a_dst (at_edges adm i) AND PATH_MASK = a_dst (at_edges A i)"
proof -
  obtain adm where adm: "select_paths A n m0 S0 garbage = Some adm" "adm_inv A (unat (at_size A)) adm" "balanced A n adm"
    using wpD [OF select_paths_ok [OF assms(1)]] by blast
  have "a_dst (at_edges A i) AND PATH_MASK = a_dst (at_edges A i)"
    using assms by (simp add: paths_pre_def)
  then show ?thesis
    using adm paths_are_valid_ok [OF assms(1) adm(2,3)] assms(2) by (auto simp: adm_inv_def)
qed

lemma counts_le: "srcs A k r \<le> k" "dsts A k r \<le> k"
proof -
  have "card {i. i < k \<and> P i} \<le> k" for P
    using card_mono [of "{..<k}" "{i. i < k \<and> P i}"] by auto
  then show "srcs A k r \<le> k" "dsts A k r \<le> k"
    by (simp_all add: srcs_def dsts_def)
qed

text \<open>Four edges between nodes of the network, all of rack 0.\<close>

definition demo_traffic :: admitted_traffic where
  "demo_traffic = \<lparr> at_size = 4, at_partition = 0, at_edges = (\<lambda>i. if i = 0 then \<lparr> a_src = 1, a_dst = 2 \<rparr>
     else if i = 1 then \<lparr> a_src = 3, a_dst = 4 \<rparr> else if i = 2 then \<lparr> a_src = 5, a_dst = 254 \<rparr>
     else \<lparr> a_src = 200, a_dst = 7 \<rparr>) \<rparr>"

lemma demo_traffic_pre: "paths_pre demo_traffic 4"
proof -
  have u: "unat (at_size demo_traffic) = 4" by (simp add: demo_traffic_def)
  have i: "i < 4 \<Longrightarrow> i = 0 \<or> i = 1 \<or> i = 2 \<or> i = 3" for i :: nat by auto
  have "srack demo_traffic i < 4 \<and> drack demo_traffic i < 4
      \<and> a_dst (at_edges demo_traffic i) AND PATH_MASK = a_dst (at_edges demo_traffic i)" if "i < 4" for i
    using i [OF that] by (auto simp: srack_def drack_def rack_of_def fp_rack_from_node_id_def TOR_SHIFT_def
        PATH_MASK_def demo_traffic_def drop_bit_eq_div)
  moreover have "srcs demo_traffic 4 r \<le> 64 \<and> dsts demo_traffic 4 r \<le> 64" for r
    using counts_le [of demo_traffic 4 r] by auto
  ultimately show ?thesis
    unfolding paths_pre_def setting_def u by simp
qed

theorem select_paths_valid_witness:
  "\<exists>adm. select_paths demo_traffic 4 (\<lambda>_. \<lparr> rn_size = 9, admitted_indices = (\<lambda>_. 0) \<rparr>) demo_structure (\<lambda>_. demo_graph 7)
      = Some adm \<and> paths_are_valid adm 4 (\<lambda>_. 1) (\<lambda>_. 2) = Some True \<and> a_dst (at_edges adm 2) AND PATH_MASK = 254"
proof -
  have "2 < unat (at_size demo_traffic)" "a_dst (at_edges demo_traffic 2) = 254"
    by (simp_all add: demo_traffic_def)
  then show ?thesis
    using select_paths_valid [OF demo_traffic_pre] by metis
qed

text \<open>
  Path selection stops at an assertion when a rack has more than 64 edges in a timeslot. With the
  constants of \<^verbatim>\<open>topology.h\<close> every node is in rack 0, so this is any timeslot with more than 64
  admitted edges.
\<close>

lemma rack_0: "unat x < 256 \<Longrightarrow> rack_of x = 0"
  by (simp add: rack_of_def fp_rack_from_node_id_def TOR_SHIFT_def drop_bit_eq_div unat_div)

theorem select_paths_overflow:
  assumes "64 < unat (at_size A)" "n \<le> 16" "0 < n"
    and "\<forall>i < unat (at_size A). unat (a_src (at_edges A i)) < 256 \<and> unat (a_dst (at_edges A i)) < 256"
  shows "select_paths A n m0 S0 garbage = None"
proof -
  let ?N = "unat (at_size A)" and ?S = "S0\<lparr> gs_n := n \<rparr>"
  define e where "e = (garbage 0)\<lparr> neighbor_bitmaps := (\<lambda>i. if i < 2 * n then 0 else neighbor_bitmaps (garbage 0) i) \<rparr>"
  let ?s0 = "\<lparr> cg_structure = ?S, cg_edges = e, cg_src_counts = (\<lambda>_. 0), cg_dst_counts = (\<lambda>_. 0), cg_num_edges = 0 \<rparr>"
  let ?f = "\<lambda>i s. do { edge \<leftarrow> admitted_edge_at A i; cg_add n (rack_of (a_src edge)) (rack_of (a_dst edge)) s }"
  have racks: "srack A i = 0" "drack A i = 0" if "i < ?N" for i
    using assms(4) that by (simp_all add: srack_def drack_def rack_0)
  have ini: "cg_inv n (\<lambda>_ _. 0) ?s0"
    using assms(2) by (simp add: cg_inv_def graph_ok_def gbit_def gdeg_0_iff e_def)
  have racks64: "\<forall>i < 64. srack A i < n \<and> drack A i < n"
    using racks assms(1,3) by simp
  have deg64: "\<forall>r < n. srcs A 64 r \<le> 64 \<and> dsts A 64 r \<le> 64"
    using counts_le by simp
  obtain s where s: "foldo ?f [0..<64] ?s0 = Some s" "cg_inv n (rpairs A 64) s"
      "\<forall>r < n. cg_src_counts s r = srcs A 64 r \<and> cg_dst_counts s r = dsts A 64 r"
    using wpD [OF real_edges_ok [OF _ racks64 assms(2) deg64 ini]] by auto
  have "{i. i < 64 \<and> srack A i = 0} = {..<64}"
    using racks assms(1) by auto
  then have "gdeg (cg_edges s) 0 = 64"
    using s(2,3) assms(3) by (simp add: cg_inv_def srcs_def)
  moreover have "{i. gbit (cg_edges s) 0 i} \<subseteq> {..<64}"
    by (auto dest: gbit_lt)
  ultimately have "{i. gbit (cg_edges s) 0 i} = {..<64}"
    by (intro card_subset_eq) (simp_all add: gdeg_def)
  then have "NOT (neighbor_bitmaps (cg_edges s) 0) = 0"
    by (auto simp: u64_eq_0_iff bit_u64_not gbit_def set_eq_iff)
  then have "?f 64 s = None"
    using assms(1,4) by (simp add: admitted_edge_at_def guard_o_def cg_add_def add_edge_def rack_0 Let_def)
  moreover have "[0..<?N] = [0..<64] @ 64 # [Suc 64..<?N]"
  proof -
    have "[0..<?N] = [0..<64] @ [64..<?N]"
      using upt_add_eq_append [of 0 64 "?N - 64"] assms(1) by simp
    then show ?thesis
      using assms(1) by (simp only: upt_conv_Cons)
  qed
  ultimately have "foldo ?f [0..<?N] ?s0 = None"
    using s(1) by (simp add: foldo_append)
  then have "construct_graph A ?S e = None"
    by (simp add: construct_graph_def)
  then show ?thesis
    using assms(2) by (simp add: select_paths_def graph_structure_init_def graph_edges_init_def guard_o_def
        MAX_RACKS_def MAX_GRAPH_NODES_def e_def bind_eq_None_conv)
qed

theorem select_paths_overflow_witness:
  "select_paths \<lparr> at_size = 65, at_partition = 0, at_edges = (\<lambda>i. \<lparr> a_src = 1, a_dst = 2 \<rparr>) \<rparr> 1
    (\<lambda>_. \<lparr> rn_size = 0, admitted_indices = (\<lambda>_. 0) \<rparr>) demo_structure (\<lambda>_. demo_graph 0) = None"
  by (rule select_paths_overflow) simp_all

end
