(* ===== verification/FP_Timer.thy ===== *)
theory FP_Timer
  imports FP_Loops FP_Window_Inv
begin

text \<open>
  The timer wheel of the arbiter's communication core, \<^verbatim>\<open>src/src/arbiter/fp_timer.h\<close>: 1024
  slots of linked timers, and a head that follows the clock in units of \<open>2 ^ 14\<close> cycles.

  A timer is a number and a list of the vendored \<^verbatim>\<open>ccan/list\<close> is the list of the timers linked
  on it. The \<^verbatim>\<open>time\<close> fields of all timers are the function \<^verbatim>\<open>tim_time\<close> of the wheel. \<^verbatim>\<open>list_del\<close> takes
  a node out of whatever list it is on.
\<close>

subsection \<open>Definitions\<close>

definition MAX_TIMER_SLOTS :: nat where "MAX_TIMER_SLOTS = 1024"
definition TIMER_GRANULARITY :: u64 where "TIMER_GRANULARITY = 16 * 1024"
definition TIMER_NOT_SET_TIME :: u64 where "TIMER_NOT_SET_TIME = NOT 0"

record fp_timers =
  tmr_head :: u64
  tmr_slots :: "nat \<Rightarrow> nat list"
  tim_time :: "nat \<Rightarrow> u64"

definition fp_init_timers :: "fp_timers \<Rightarrow> u64 \<Rightarrow> fp_timers" where
  "fp_init_timers timers now = timers\<lparr>
     tmr_slots := (\<lambda>i. if i < MAX_TIMER_SLOTS then [] else tmr_slots timers i),
     tmr_head := now div TIMER_GRANULARITY \<rparr>"

definition fp_init_timer :: "nat \<Rightarrow> fp_timers \<Rightarrow> fp_timers" where
  "fp_init_timer tim timers = timers\<lparr> tim_time := (tim_time timers)(tim := TIMER_NOT_SET_TIME) \<rparr>"

definition list_del :: "nat \<Rightarrow> fp_timers \<Rightarrow> fp_timers" where
  "list_del tim timers = timers\<lparr> tmr_slots := (\<lambda>s. removeAll tim (tmr_slots timers s)) \<rparr>"

definition tmr_slot_of :: "u64 \<Rightarrow> nat" where
  "tmr_slot_of t = unat (t mod of_nat MAX_TIMER_SLOTS)"

definition fp_timer_reset :: "fp_timers \<Rightarrow> nat \<Rightarrow> u64 \<Rightarrow> fp_timers" where
  "fp_timer_reset timers tim when =
     (let when = when div TIMER_GRANULARITY;
          slot = (if when \<le> tmr_head timers then tmr_slot_of (tmr_head timers) else tmr_slot_of when);
          timers = (if tim_time timers tim \<noteq> TIMER_NOT_SET_TIME then list_del tim timers else timers)
      in timers\<lparr> tim_time := (tim_time timers)(tim := when),
                 tmr_slots := (tmr_slots timers)(slot := tmr_slots timers slot @ [tim]) \<rparr>)"

definition fp_timer_stop :: "nat \<Rightarrow> fp_timers \<Rightarrow> fp_timers" where
  "fp_timer_stop tim timers =
     (if tim_time timers tim = TIMER_NOT_SET_TIME then timers
      else list_del tim (timers\<lparr> tim_time := (tim_time timers)(tim := TIMER_NOT_SET_TIME) \<rparr>))"

text \<open>
  One slot: the timers that are due move to \<^verbatim>\<open>l\<close>. The loop over the slots may not end when the
  signed comparison never fails, hence a partial function.
\<close>

definition expire_timer :: "u64 \<Rightarrow> nat \<Rightarrow> fp_timers \<times> nat list \<Rightarrow> fp_timers \<times> nat list" where
  "expire_timer now tim = (\<lambda>(timers, l).
     if tim_time timers tim \<le> now
     then ((list_del tim timers)\<lparr> tim_time := (tim_time timers)(tim := TIMER_NOT_SET_TIME) \<rparr>, l @ [tim])
     else (timers, l))"

definition expire_slot :: "u64 \<Rightarrow> fp_timers \<times> nat list \<Rightarrow> fp_timers \<times> nat list" where
  "expire_slot now st =
     fold (expire_timer now) (tmr_slots (fst st) (tmr_slot_of (tmr_head (fst st)))) st"

partial_function (option) expire_loop ::
    "u64 \<Rightarrow> fp_timers \<times> nat list \<Rightarrow> (fp_timers \<times> nat list) option" where
  "expire_loop now st =
     (if sint now - sint (tmr_head (fst st)) \<ge> 0
      then (let (timers, l) = expire_slot now st
            in expire_loop now (timers\<lparr> tmr_head := tmr_head timers + 1 \<rparr>, l))
      else Some st)"

definition fp_timer_get_expired :: "fp_timers \<Rightarrow> u64 \<Rightarrow> nat list \<Rightarrow> (fp_timers \<times> nat list) option" where
  "fp_timer_get_expired timers now l = do {
     let now = now div TIMER_GRANULARITY;
     guard_o (now - tmr_head timers < 100 * of_nat MAX_TIMER_SLOTS);
     (timers, l) \<leftarrow> expire_loop now (timers, l);
     Some (timers\<lparr> tmr_head := now \<rparr>, l) }"

subsection \<open>Invariant\<close>

text \<open>
  A set timer is linked exactly once, in the slot of its time, or in the slot of the head when
  its time has passed; an idle timer is not linked. Times are those of a 64-bit clock in units
  of the granularity.
\<close>

definition due_slot :: "u64 \<Rightarrow> u64 \<Rightarrow> nat" where
  "due_slot h t = (if t \<le> h then tmr_slot_of h else tmr_slot_of t)"

definition timers_ok :: "fp_timers \<Rightarrow> bool" where
  "timers_ok timers \<longleftrightarrow> unat (tmr_head timers) \<le> 2 ^ 50
     \<and> (\<forall>i. tim_time timers i \<noteq> TIMER_NOT_SET_TIME \<longrightarrow> unat (tim_time timers i) < 2 ^ 50)
     \<and> (\<forall>s < MAX_TIMER_SLOTS. distinct (tmr_slots timers s))
     \<and> (\<forall>s < MAX_TIMER_SLOTS. \<forall>i. i \<in> set (tmr_slots timers s)
          \<longleftrightarrow> tim_time timers i \<noteq> TIMER_NOT_SET_TIME \<and> s = due_slot (tmr_head timers) (tim_time timers i))"

definition set_timers :: "fp_timers \<Rightarrow> nat set" where
  "set_timers timers = {i. tim_time timers i \<noteq> TIMER_NOT_SET_TIME}"

definition due :: "u64 \<Rightarrow> fp_timers \<Rightarrow> nat \<Rightarrow> bool" where
  "due now timers i \<longleftrightarrow> tim_time timers i \<noteq> TIMER_NOT_SET_TIME \<and> tim_time timers i \<le> now"

lemma tmr_slot_lt: "tmr_slot_of t < MAX_TIMER_SLOTS"
  by (simp add: tmr_slot_of_def MAX_TIMER_SLOTS_def unat_mod)

lemma due_slot_lt: "due_slot h t < MAX_TIMER_SLOTS"
  by (simp add: due_slot_def tmr_slot_lt)

lemma timers_slot_iff:
  "timers_ok timers \<Longrightarrow> s < MAX_TIMER_SLOTS \<Longrightarrow> i \<in> set (tmr_slots timers s) \<longleftrightarrow>
     i \<in> set_timers timers \<and> s = due_slot (tmr_head timers) (tim_time timers i)"
  by (simp add: timers_ok_def set_timers_def)

lemma granule_lt: "unat (when div TIMER_GRANULARITY) < 2 ^ 50"
proof -
  have "unat when div 16384 < 2 ^ 50"
    using unat_u64_lt [of "when"] by (simp add: less_mult_imp_div_less)
  then show ?thesis
    by (simp add: TIMER_GRANULARITY_def unat_div)
qed

lemma granule_set: "when div TIMER_GRANULARITY \<noteq> TIMER_NOT_SET_TIME"
  using granule_lt [of "when"] by (auto simp: TIMER_NOT_SET_TIME_def unat_u64_max)

lemma fp_timer_reset_ok:
  assumes "timers_ok timers"
  shows "timers_ok (fp_timer_reset timers tim when)"
    and "tim_time (fp_timer_reset timers tim when) = (tim_time timers)(tim := when div TIMER_GRANULARITY)"
    and "tmr_head (fp_timer_reset timers tim when) = tmr_head timers"
proof -
  define t where "t = when div TIMER_GRANULARITY"
  have t: "unat t < 2 ^ 50" "t \<noteq> TIMER_NOT_SET_TIME"
    by (simp_all only: t_def granule_lt granule_set not_False_eq_True)
  define slot where "slot = due_slot (tmr_head timers) t"
  define rest where "rest = (\<lambda>s. removeAll tim (tmr_slots timers s))"
  have rest_iff: "i \<in> set (rest s) \<longleftrightarrow> i \<noteq> tim \<and> i \<in> set (tmr_slots timers s)" for i s
    by (auto simp: rest_def)
  have idle: "rest s = tmr_slots timers s" if "tim_time timers tim = TIMER_NOT_SET_TIME" "s < MAX_TIMER_SLOTS" for s
    using timers_slot_iff [OF assms that(2), of tim] that(1) by (simp add: rest_def set_timers_def)
  define after where "after = fp_timer_reset timers tim when"
  have f: "tim_time after = (tim_time timers)(tim := t)" "tmr_head after = tmr_head timers"
    by (simp_all add: after_def fp_timer_reset_def Let_def list_del_def t_def)
  have sl: "tmr_slots after s = (if s = slot then rest s @ [tim] else rest s)" if "s < MAX_TIMER_SLOTS" for s
    using that idle due_slot_lt [of "tmr_head timers" t]
    by (auto simp: after_def fp_timer_reset_def Let_def list_del_def t_def [symmetric] slot_def due_slot_def rest_def)
  have dist: "distinct (rest s)" if "s < MAX_TIMER_SLOTS" for s
    using assms that by (simp add: timers_ok_def rest_def distinct_removeAll)
  have "timers_ok after"
    unfolding timers_ok_def
  proof (intro conjI allI impI)
    show "unat (tmr_head after) \<le> 2 ^ 50"
      using assms by (simp only: f timers_ok_def)
    show "unat (tim_time after i) < 2 ^ 50" if "tim_time after i \<noteq> TIMER_NOT_SET_TIME" for i
      using assms that t by (cases "i = tim") (simp_all add: f timers_ok_def)
    show "distinct (tmr_slots after s)" if "s < MAX_TIMER_SLOTS" for s
      using dist [OF that] that by (auto simp: sl rest_iff)
    show "i \<in> set (tmr_slots after s) \<longleftrightarrow> tim_time after i \<noteq> TIMER_NOT_SET_TIME
        \<and> s = due_slot (tmr_head after) (tim_time after i)" if "s < MAX_TIMER_SLOTS" for s i
      using timers_slot_iff [OF assms that, of i] that t
      by (cases "i = tim") (auto simp: sl f rest_iff slot_def set_timers_def)
  qed
  then show "timers_ok (fp_timer_reset timers tim when)"
    "tim_time (fp_timer_reset timers tim when) = (tim_time timers)(tim := when div TIMER_GRANULARITY)"
    "tmr_head (fp_timer_reset timers tim when) = tmr_head timers"
    using f by (simp_all add: after_def t_def)
qed

lemma fp_timer_stop_ok:
  assumes "timers_ok timers"
  shows "timers_ok (fp_timer_stop tim timers)"
    and "tim_time (fp_timer_stop tim timers) = (tim_time timers)(tim := TIMER_NOT_SET_TIME)"
    and "tmr_head (fp_timer_stop tim timers) = tmr_head timers"
  using assms by (auto simp: fp_timer_stop_def timers_ok_def list_del_def distinct_removeAll)

lemma fp_init_timers_ok:
  assumes "\<forall>i. tim_time timers i = TIMER_NOT_SET_TIME"
  shows "timers_ok (fp_init_timers timers now)"
  using assms granule_lt [of now]
  by (simp add: timers_ok_def fp_init_timers_def less_imp_le)

subsection \<open>Expiry\<close>

lemma fold_expire_timer:
  assumes "distinct xs" "\<forall>i \<in> set xs. tim_time timers i \<noteq> TIMER_NOT_SET_TIME"
  shows "fold (expire_timer now) xs (timers, l) =
    (timers\<lparr> tmr_slots := (\<lambda>s. filter (\<lambda>i. \<not> (i \<in> set xs \<and> tim_time timers i \<le> now)) (tmr_slots timers s)),
             tim_time := (\<lambda>i. if i \<in> set xs \<and> tim_time timers i \<le> now then TIMER_NOT_SET_TIME else tim_time timers i) \<rparr>,
     l @ filter (\<lambda>i. tim_time timers i \<le> now) xs)"
  using assms
proof (induction xs arbitrary: timers l)
  case (Cons x xs)
  define after where "after = (if tim_time timers x \<le> now
    then (list_del x timers)\<lparr> tim_time := (tim_time timers)(x := TIMER_NOT_SET_TIME) \<rparr> else timers)"
  have x: "x \<notin> set xs" "distinct xs"
    using Cons.prems(1) by simp_all
  have same: "tim_time after i = tim_time timers i" if "i \<in> set xs" for i
    using that x by (auto simp: after_def)
  have step: "expire_timer now x (timers, l) = (after, if tim_time timers x \<le> now then l @ [x] else l)"
    by (simp add: expire_timer_def after_def)
  have flt: "filter (\<lambda>i. tim_time after i \<le> now) xs = filter (\<lambda>i. tim_time timers i \<le> now) xs"
    using same by (auto intro: filter_cong)
  have slots: "filter (\<lambda>i. \<not> (i \<in> set xs \<and> tim_time after i \<le> now)) (tmr_slots after s)
      = filter (\<lambda>i. \<not> (i \<in> set (x # xs) \<and> tim_time timers i \<le> now)) (tmr_slots timers s)" for s
    using x by (auto simp: after_def list_del_def removeAll_filter_not_eq intro!: filter_cong)
  have times: "(\<lambda>i. if i \<in> set xs \<and> tim_time after i \<le> now then TIMER_NOT_SET_TIME else tim_time after i)
      = (\<lambda>i. if i \<in> set (x # xs) \<and> tim_time timers i \<le> now then TIMER_NOT_SET_TIME else tim_time timers i)"
    using x by (auto simp: after_def fun_eq_iff)
  have "\<forall>i \<in> set xs. tim_time after i \<noteq> TIMER_NOT_SET_TIME"
    using Cons.prems(2) same by simp
  note IH = Cons.IH [OF x(2) this]
  show ?case
    unfolding fold.simps comp_def step IH slots times flt
    by (simp add: after_def list_del_def)
qed simp

text \<open>
  After the slot of the head is processed, every timer whose time is at most the head is gone:
  the invariant holds with the head one further.
\<close>

lemma expire_slot_ok:
  assumes ok: "timers_ok timers" and h: "tmr_head timers \<le> now" "unat now < 2 ^ 50"
  defines "xs \<equiv> tmr_slots timers (tmr_slot_of (tmr_head timers))"
  shows "\<exists>after. expire_slot now (timers, l) = (after, l @ filter (\<lambda>i. tim_time timers i \<le> now) xs)
    \<and> timers_ok (after\<lparr> tmr_head := tmr_head timers + 1 \<rparr>) \<and> tmr_head after = tmr_head timers
    \<and> tim_time after = (\<lambda>i. if i \<in> set xs \<and> tim_time timers i \<le> now then TIMER_NOT_SET_TIME else tim_time timers i)"
proof -
  let ?h = "tmr_head timers"
  define gone where "gone = (\<lambda>i. i \<in> set xs \<and> tim_time timers i \<le> now)"
  define after where "after = timers\<lparr> tmr_slots := (\<lambda>s. filter (\<lambda>i. \<not> gone i) (tmr_slots timers s)),
    tim_time := (\<lambda>i. if gone i then TIMER_NOT_SET_TIME else tim_time timers i) \<rparr>"
  have xs: "i \<in> set xs \<longleftrightarrow> tim_time timers i \<noteq> TIMER_NOT_SET_TIME \<and> tmr_slot_of ?h = due_slot ?h (tim_time timers i)" for i
    using timers_slot_iff [OF ok tmr_slot_lt, of i ?h] by (simp add: xs_def set_timers_def)
  have dx: "distinct xs"
    using ok tmr_slot_lt by (auto simp: timers_ok_def xs_def)
  have e: "expire_slot now (timers, l) = (after, l @ filter (\<lambda>i. tim_time timers i \<le> now) xs)"
    using fold_expire_timer [OF dx] xs by (simp add: expire_slot_def xs_def [symmetric] after_def gone_def)
  have h1: "unat (?h + 1) = unat ?h + 1"
  proof -
    have "unat ?h + 1 < 18446744073709551616"
      using h by (simp add: word_le_nat_alt)
    then show ?thesis
      by (simp add: unat_add_mod)
  qed
  have later: "?h < tim_time timers i" if "tim_time timers i \<noteq> TIMER_NOT_SET_TIME" "\<not> gone i" for i
  proof (rule ccontr)
    assume "\<not> ?h < tim_time timers i"
    then have le: "tim_time timers i \<le> ?h"
      by simp
    then have "i \<in> set xs"
      using that(1) xs [of i] by (simp add: due_slot_def)
    with that(2) le h(1) show False
      by (auto simp: gone_def)
  qed
  have slot: "due_slot (?h + 1) t = due_slot ?h t" if "?h < t" for t
  proof -
    have "t \<le> ?h + 1 \<Longrightarrow> t = ?h + 1"
      using that h1 by (simp add: word_le_nat_alt word_less_nat_alt word_unat_eq_iff)
    then show ?thesis
      using that by (auto simp: due_slot_def not_le)
  qed
  have "timers_ok (after\<lparr> tmr_head := ?h + 1 \<rparr>)"
    unfolding timers_ok_def
  proof (intro conjI allI impI)
    show "unat (tmr_head (after\<lparr> tmr_head := ?h + 1 \<rparr>)) \<le> 2 ^ 50"
      using h by (simp add: h1 word_le_nat_alt)
    show "unat (tim_time (after\<lparr> tmr_head := ?h + 1 \<rparr>) i) < 2 ^ 50"
      if "tim_time (after\<lparr> tmr_head := ?h + 1 \<rparr>) i \<noteq> TIMER_NOT_SET_TIME" for i
      using that ok by (simp add: after_def timers_ok_def split: if_splits)
    show "distinct (tmr_slots (after\<lparr> tmr_head := ?h + 1 \<rparr>) s)" if "s < MAX_TIMER_SLOTS" for s
      using that ok by (simp add: after_def timers_ok_def)
    show "i \<in> set (tmr_slots (after\<lparr> tmr_head := ?h + 1 \<rparr>) s) \<longleftrightarrow>
        tim_time (after\<lparr> tmr_head := ?h + 1 \<rparr>) i \<noteq> TIMER_NOT_SET_TIME
        \<and> s = due_slot (tmr_head (after\<lparr> tmr_head := ?h + 1 \<rparr>)) (tim_time (after\<lparr> tmr_head := ?h + 1 \<rparr>) i)"
      if "s < MAX_TIMER_SLOTS" for s i
      using timers_slot_iff [OF ok that, of i] later [of i] slot [of "tim_time timers i"]
      by (auto simp: after_def set_timers_def)
  qed
  then show ?thesis
    using e by (auto simp: after_def gone_def)
qed

lemma sint_clock:
  assumes "unat (x :: u64) \<le> 2 ^ 50"
  shows "sint x = int (unat x)"
proof -
  have "uint x = int (unat x)"
    by simp
  moreover have "int (unat x) < 9223372036854775808"
    using of_nat_mono [OF assms, where ?'a = int] by (simp only: of_nat_power of_nat_numeral) (rule le_less_trans, assumption, simp)
  ultimately show ?thesis
    by (simp only: sint_u64_eq if_True)
qed

lemma clock_ge: "unat x \<le> 2 ^ 50 \<Longrightarrow> unat y \<le> 2 ^ 50 \<Longrightarrow> 0 \<le> sint x - sint (y :: u64) \<longleftrightarrow> unat y \<le> unat (x :: u64)"
  by (simp only: sint_clock diff_ge_0_iff_ge of_nat_le_iff)

lemma expire_loop_ok:
  assumes "timers_ok timers" "unat now < 2 ^ 50" "unat now = unat (tmr_head timers) + n"
  shows "\<exists>after ds. expire_loop now (timers, l) = Some (after, l @ ds) \<and> timers_ok after
    \<and> unat (tmr_head after) = unat now + 1 \<and> distinct ds \<and> set ds = Collect (due now timers)
    \<and> tim_time after = (\<lambda>i. if due now timers i then TIMER_NOT_SET_TIME else tim_time timers i)"
  using assms
proof (induction n arbitrary: timers l)
  case (0 timers l)
  let ?h = "tmr_head timers"
  define xs where "xs = filter (\<lambda>i. tim_time timers i \<le> now) (tmr_slots timers (tmr_slot_of ?h))"
  have h: "?h = now"
    using 0 by (simp add: word_unat_eq_iff)
  obtain a where a: "expire_slot now (timers, l) = (a, l @ xs)" "timers_ok (a\<lparr> tmr_head := ?h + 1 \<rparr>)" "tmr_head a = ?h"
      "tim_time a = (\<lambda>i. if i \<in> set xs then TIMER_NOT_SET_TIME else tim_time timers i)"
    using expire_slot_ok [OF 0(1) _ 0(2), of l] h by (auto simp: xs_def)
  have u: "unat (now + 1) = unat now + 1"
    using 0(2) by (simp add: unat_add_mod)
  have "i \<in> set xs \<longleftrightarrow> due now timers i" for i
    using timers_slot_iff [OF 0(1) tmr_slot_lt, of i ?h] h
    by (auto simp: xs_def due_def set_timers_def due_slot_def)
  moreover have "distinct xs"
    using 0(1) tmr_slot_lt by (auto simp: xs_def timers_ok_def)
  moreover have "expire_loop now (timers, l) = Some (a\<lparr> tmr_head := now + 1 \<rparr>, l @ xs)"
    using 0(2) u clock_ge [of now "now + 1"]
    by (subst expire_loop.simps, subst expire_loop.simps) (simp add: a h)
  ultimately show ?case
    using a u h by (auto simp: fun_eq_iff)
next
  case (Suc n timers l)
  let ?h = "tmr_head timers"
  define xs where "xs = filter (\<lambda>i. tim_time timers i \<le> now) (tmr_slots timers (tmr_slot_of ?h))"
  have h: "unat ?h < unat now"
    using Suc.prems by simp
  obtain a where a: "expire_slot now (timers, l) = (a, l @ xs)" "timers_ok (a\<lparr> tmr_head := ?h + 1 \<rparr>)" "tmr_head a = ?h"
      "tim_time a = (\<lambda>i. if i \<in> set xs then TIMER_NOT_SET_TIME else tim_time timers i)"
    using expire_slot_ok [OF Suc.prems(1) _ Suc.prems(2), of l] h by (auto simp: xs_def word_le_nat_alt)
  define t where "t = a\<lparr> tmr_head := ?h + 1 \<rparr>"
  have u: "unat (?h + 1) = unat ?h + 1"
    using h Suc.prems(2) by (simp add: unat_add_mod)
  obtain b ds where b: "expire_loop now (t, l @ xs) = Some (b, (l @ xs) @ ds)" "timers_ok b"
      "unat (tmr_head b) = unat now + 1" "distinct ds" "set ds = Collect (due now t)"
      "tim_time b = (\<lambda>i. if due now t i then TIMER_NOT_SET_TIME else tim_time t i)"
    using Suc.IH [of t "l @ xs"] a(2) Suc.prems u by (auto simp: t_def)
  have set_xs: "due now timers i" if "i \<in> set xs" for i
    using that timers_slot_iff [OF Suc.prems(1) tmr_slot_lt, of i ?h] by (auto simp: xs_def due_def set_timers_def)
  have due_t: "due now t i \<longleftrightarrow> due now timers i \<and> i \<notin> set xs" for i
    by (auto simp: due_def t_def a)
  have "distinct (xs @ ds)"
    using Suc.prems(1) tmr_slot_lt b(4,5) due_t by (auto simp: xs_def [symmetric] timers_ok_def) (auto simp: xs_def)
  moreover have "set (xs @ ds) = Collect (due now timers)"
    using set_xs by (auto simp: b(5) due_t)
  moreover have "expire_loop now (timers, l) = Some (b, l @ (xs @ ds))"
    using h Suc.prems(2) b(1) by (subst expire_loop.simps, subst clock_ge) (simp_all add: a t_def)
  moreover have "tim_time b = (\<lambda>i. if due now timers i then TIMER_NOT_SET_TIME else tim_time timers i)"
  proof (rule ext)
    fix i
    have "tim_time t i = (if i \<in> set xs then TIMER_NOT_SET_TIME else tim_time timers i)"
      by (simp add: t_def a(4))
    then show "tim_time b i = (if due now timers i then TIMER_NOT_SET_TIME else tim_time timers i)"
      using set_xs [of i] by (simp add: b(6) due_t)
  qed
  ultimately show ?case
    using b(2,3) by blast
qed

lemma fp_timer_get_expired_ok:
  assumes ok: "timers_ok timers" and h: "tmr_head timers \<le> now div TIMER_GRANULARITY"
    and near: "unat (now div TIMER_GRANULARITY) < unat (tmr_head timers) + 102400"
  shows "wp (fp_timer_get_expired timers now l) (\<lambda>(after, l'). \<exists>ds. l' = l @ ds \<and> distinct ds
    \<and> set ds = Collect (due (now div TIMER_GRANULARITY) timers) \<and> timers_ok after
    \<and> tmr_head after = now div TIMER_GRANULARITY
    \<and> tim_time after = (\<lambda>i. if due (now div TIMER_GRANULARITY) timers i then TIMER_NOT_SET_TIME else tim_time timers i))"
proof -
  define n where "n = now div TIMER_GRANULARITY"
  have n: "unat n < 2 ^ 50"
    unfolding n_def by (rule granule_lt)
  have le: "unat (tmr_head timers) \<le> unat n"
    using h by (simp add: n_def word_le_nat_alt)
  then have "unat (n - tmr_head timers) = unat n - unat (tmr_head timers)"
    by (simp add: unat_sub word_le_nat_alt)
  then have g: "n - tmr_head timers < 100 * of_nat MAX_TIMER_SLOTS"
    using near by (simp add: n_def [symmetric] word_less_nat_alt MAX_TIMER_SLOTS_def)
  obtain a ds where a: "expire_loop n (timers, l) = Some (a, l @ ds)" "timers_ok a" "unat (tmr_head a) = unat n + 1"
      "distinct ds" "set ds = Collect (due n timers)"
      "tim_time a = (\<lambda>i. if due n timers i then TIMER_NOT_SET_TIME else tim_time timers i)"
    using expire_loop_ok [OF ok n, of "unat n - unat (tmr_head timers)" l] le by auto
  have later: "n < tim_time a i" if "tim_time a i \<noteq> TIMER_NOT_SET_TIME" for i
    using that by (auto simp: a(6) due_def not_le split: if_splits)
  have slot: "due_slot n (tim_time a i) = due_slot (tmr_head a) (tim_time a i)" if "tim_time a i \<noteq> TIMER_NOT_SET_TIME" for i
  proof -
    have "tim_time a i \<le> tmr_head a \<Longrightarrow> tim_time a i = tmr_head a"
      using later [OF that] a(3) by (simp add: word_le_nat_alt word_less_nat_alt word_unat_eq_iff)
    then show ?thesis
      using later [OF that] by (auto simp: due_slot_def not_le)
  qed
  have "timers_ok (a\<lparr> tmr_head := n \<rparr>)"
    using a(2) n slot by (auto simp: timers_ok_def)
  then show ?thesis
    using a g by (simp add: fp_timer_get_expired_def n_def [symmetric])
qed

subsection \<open>The contract of a set of timers\<close>

text \<open>
  A script is a sequence of calls. The abstract state gives each set timer its time, in units of
  the granularity; an expiry call yields exactly the timers that are due and unsets them.
  \<^verbatim>\<open>clock_ok\<close> is what the code asserts of its clock: it does not run backwards and is read often
  enough.
\<close>

datatype timer_op = T_reset nat u64 | T_stop nat | T_expire u64

type_synonym timer_spec = "nat \<Rightarrow> u64 option"

primrec run_timers :: "('w \<Rightarrow> nat \<Rightarrow> u64 \<Rightarrow> 'w) \<Rightarrow> (nat \<Rightarrow> 'w \<Rightarrow> 'w) \<Rightarrow> ('w \<Rightarrow> u64 \<Rightarrow> nat list \<Rightarrow> ('w \<times> nat list) option)
    \<Rightarrow> timer_op list \<Rightarrow> 'w \<Rightarrow> (nat list list \<times> 'w) option" where
  "run_timers reset stop expire [] w = Some ([], w)"
| "run_timers reset stop expire (op # ops) w =
     (case op of
        T_reset tim when \<Rightarrow> run_timers reset stop expire ops (reset w tim when)
      | T_stop tim \<Rightarrow> run_timers reset stop expire ops (stop tim w)
      | T_expire now \<Rightarrow> do {
          (w, l) \<leftarrow> expire w now [];
          (out, w) \<leftarrow> run_timers reset stop expire ops w;
          Some (l # out, w) })"

primrec clock_ok :: "u64 \<Rightarrow> timer_op list \<Rightarrow> bool" where
  "clock_ok h [] = True"
| "clock_ok h (op # ops) =
     (case op of
        T_expire now \<Rightarrow> h \<le> now div TIMER_GRANULARITY \<and> unat (now div TIMER_GRANULARITY) < unat h + 102400
          \<and> clock_ok (now div TIMER_GRANULARITY) ops
      | _ \<Rightarrow> clock_ok h ops)"

definition spec_due :: "u64 \<Rightarrow> timer_spec \<Rightarrow> nat set" where
  "spec_due now m = {i. \<exists>t. m i = Some t \<and> t \<le> now div TIMER_GRANULARITY}"

definition spec_rest :: "u64 \<Rightarrow> timer_spec \<Rightarrow> timer_spec" where
  "spec_rest now m = (\<lambda>i. if i \<in> spec_due now m then None else m i)"

primrec spec_timers :: "timer_op list \<Rightarrow> timer_spec \<Rightarrow> nat set list \<times> timer_spec" where
  "spec_timers [] m = ([], m)"
| "spec_timers (op # ops) m =
     (case op of
        T_reset tim when \<Rightarrow> spec_timers ops (m(tim := Some (when div TIMER_GRANULARITY)))
      | T_stop tim \<Rightarrow> spec_timers ops (m(tim := None))
      | T_expire now \<Rightarrow> (let (out, m') = spec_timers ops (spec_rest now m) in (spec_due now m # out, m')))"

locale timer_queue =
  fixes good :: "'w \<Rightarrow> bool"
    and clock :: "'w \<Rightarrow> u64"
    and abs_timers :: "'w \<Rightarrow> timer_spec"
    and reset :: "'w \<Rightarrow> nat \<Rightarrow> u64 \<Rightarrow> 'w"
    and stop :: "nat \<Rightarrow> 'w \<Rightarrow> 'w"
    and expire :: "'w \<Rightarrow> u64 \<Rightarrow> nat list \<Rightarrow> ('w \<times> nat list) option"
  assumes reset_law: "good w \<Longrightarrow> good (reset w tim t) \<and> clock (reset w tim t) = clock w
      \<and> abs_timers (reset w tim t) = (abs_timers w)(tim := Some (t div TIMER_GRANULARITY))"
    and stop_law: "good w \<Longrightarrow> good (stop tim w) \<and> clock (stop tim w) = clock w
      \<and> abs_timers (stop tim w) = (abs_timers w)(tim := None)"
    and expire_law: "good w \<Longrightarrow> clock w \<le> now div TIMER_GRANULARITY \<Longrightarrow>
      unat (now div TIMER_GRANULARITY) < unat (clock w) + 102400 \<Longrightarrow>
      wp (expire w now l) (\<lambda>(w', l'). \<exists>ds. l' = l @ ds \<and> distinct ds \<and> set ds = spec_due now (abs_timers w)
        \<and> good w' \<and> clock w' = now div TIMER_GRANULARITY \<and> abs_timers w' = spec_rest now (abs_timers w))"
begin

lemma timer_script:
  assumes "good w" "clock_ok (clock w) ops"
  shows "wp (run_timers reset stop expire ops w) (\<lambda>(out, w'). good w' \<and> (\<forall>l \<in> set out. distinct l)
    \<and> (map set out, abs_timers w') = spec_timers ops (abs_timers w))"
  using assms
proof (induction ops arbitrary: w)
  case (Cons op ops)
  show ?case
  proof (cases op)
    case (T_reset tim t)
    have r: "good (reset w tim t)" "clock (reset w tim t) = clock w"
        "abs_timers (reset w tim t) = (abs_timers w)(tim := Some (t div TIMER_GRANULARITY))"
      using reset_law [OF Cons.prems(1)] by blast+
    then show ?thesis
      using Cons.IH [of "reset w tim t", unfolded r] Cons.prems T_reset by (simp del: fun_upd_apply)
  next
    case (T_stop tim)
    have r: "good (stop tim w)" "clock (stop tim w) = clock w" "abs_timers (stop tim w) = (abs_timers w)(tim := None)"
      using stop_law [OF Cons.prems(1)] by blast+
    then show ?thesis
      using Cons.IH [of "stop tim w", unfolded r] Cons.prems T_stop by (simp del: fun_upd_apply)
  next
    case (T_expire now)
    have "clock w \<le> now div TIMER_GRANULARITY" "unat (now div TIMER_GRANULARITY) < unat (clock w) + 102400"
      and rest: "clock_ok (now div TIMER_GRANULARITY) ops"
      using Cons.prems T_expire by simp_all
    from wpD [OF expire_law [OF Cons.prems(1) this(1,2), of "[]"]]
    obtain w1 ds where w1: "expire w now [] = Some (w1, ds)" "distinct ds" "set ds = spec_due now (abs_timers w)"
        "good w1" "clock w1 = now div TIMER_GRANULARITY" "abs_timers w1 = spec_rest now (abs_timers w)"
      by auto
    have "clock_ok (clock w1) ops"
      using rest w1(5) by simp
    from wpD [OF Cons.IH [OF w1(4) this]] obtain out w2 where
      "run_timers reset stop expire ops w1 = Some (out, w2)" "good w2" "\<forall>l \<in> set out. distinct l"
      "(map set out, abs_timers w2) = spec_timers ops (abs_timers w1)"
      by auto
    then show ?thesis
      using w1 T_expire by (auto simp: prod_eq_iff split: prod.splits)
  qed
qed simp

end

definition timer_abs :: "fp_timers \<Rightarrow> timer_spec" where
  "timer_abs timers = (\<lambda>i. if tim_time timers i = TIMER_NOT_SET_TIME then None else Some (tim_time timers i))"

lemma spec_due_abs: "spec_due now (timer_abs timers) = Collect (due (now div TIMER_GRANULARITY) timers)"
  by (auto simp: spec_due_def timer_abs_def due_def split: if_splits)

interpretation wheel: timer_queue timers_ok tmr_head timer_abs fp_timer_reset fp_timer_stop fp_timer_get_expired
proof (unfold_locales, goal_cases)
  case (1 w tim t)
  then show ?case
    using fp_timer_reset_ok [OF 1, of tim t] granule_set [of t] by (auto simp: timer_abs_def fun_eq_iff)
next
  case (2 w tim)
  then show ?case
    using fp_timer_stop_ok [OF 2, of tim] by (auto simp: timer_abs_def fun_eq_iff)
next
  case (3 w now l)
  show ?case
    by (rule wp_mono [OF fp_timer_get_expired_ok [OF 3, of l]])
      (auto simp: spec_due_abs spec_rest_def, auto simp: timer_abs_def fun_eq_iff spec_due_abs)
qed

subsection \<open>Properties\<close>

text \<open>
  C33. The timer wheel refines a set of timers: for every sequence of resets, stops and expiry
  calls on a clock that moves forward, every call returns, every expiry yields exactly the
  timers that are due and not stopped, each once, and no timer is lost, whatever slots of the
  wheel the times fall into.
\<close>

theorem timers_refine:
  assumes "timers_ok timers" and "clock_ok (tmr_head timers) ops"
  shows "\<exists>out after. run_timers fp_timer_reset fp_timer_stop fp_timer_get_expired ops timers = Some (out, after)
    \<and> timers_ok after \<and> (\<forall>l \<in> set out. distinct l)
    \<and> (map set out, timer_abs after) = spec_timers ops (timer_abs timers)"
  using wpD [OF wheel.timer_script [OF assms]] by auto

definition demo_timers :: fp_timers where
  "demo_timers = fp_init_timers \<lparr> tmr_head = 0, tmr_slots = \<lambda>_. [], tim_time = \<lambda>_. TIMER_NOT_SET_TIME \<rparr> 163840"

definition demo_script :: "timer_op list" where
  "demo_script = [T_reset 1 200000, T_reset 2 400000, T_reset 1 17000000, T_expire 500000, T_expire 16800000,
     T_expire 17000000]"

lemma demo_timers_ok: "timers_ok demo_timers" and demo_clock: "clock_ok (tmr_head demo_timers) demo_script"
proof -
  show "timers_ok demo_timers"
    unfolding demo_timers_def by (rule fp_init_timers_ok) simp
  show "clock_ok (tmr_head demo_timers) demo_script"
    by (simp add: demo_script_def demo_timers_def fp_init_timers_def TIMER_GRANULARITY_def)
qed

lemma demo_spec: "fst (spec_timers demo_script (timer_abs demo_timers)) = [{2}, {}, {1}]"
proof -
  have "timer_abs demo_timers = (\<lambda>_. None)"
    by (simp add: timer_abs_def demo_timers_def fp_init_timers_def)
  then show ?thesis
    by (simp add: demo_script_def TIMER_GRANULARITY_def spec_rest_def spec_due_def split: if_splits prod.splits)
       auto
qed

theorem timers_refine_witness:
  "\<exists>out after. run_timers fp_timer_reset fp_timer_stop fp_timer_get_expired demo_script demo_timers = Some (out, after)
     \<and> map set out = [{2}, {}, {1}]"
  using timers_refine [OF demo_timers_ok demo_clock] demo_spec by (metis fst_conv)

end
