(* ===== verification/FP_Comm.thy ===== *)
theory FP_Comm
  imports FP_Timer FP_Packet FP_Alloc
begin

unbundle bit_operations_syntax

text \<open>
  The communication core of the arbiter, \<^verbatim>\<open>src/src/arbiter/comm_core.c\<close>: the state it keeps for
  every end node, the callbacks it hands to the protocol, the processing of admitted traffic and
  the packets it sends.

  The state \<^verbatim>\<open>comm\<close> holds the end nodes, the one communication core, the allocator it feeds
  (\<^verbatim>\<open>g_admissible_status()\<close>, reached through the wrappers of \<^verbatim>\<open>admissible.h\<close>) and the frames handed
  to the network. The protocol model records its callbacks in a trace; \<^verbatim>\<open>with_conn\<close> runs a
  protocol operation on the connection of a node and then the callbacks it made. They do not
  touch the connection, so their order with the rest of the operation does not matter. Readings
  of the cycle counter are arguments. The log counters of \<^verbatim>\<open>comm_log.h\<close> are left out.
\<close>

subsection \<open>Definitions: state\<close>

definition ALLOC_REPORT_QUEUE_SIZE :: u64 where "ALLOC_REPORT_QUEUE_SIZE = push_bit (FP_NODES_SHIFT + 1) 1"
definition ALLOC_REPORT_QUEUE_MASK :: u64 where "ALLOC_REPORT_QUEUE_MASK = ALLOC_REPORT_QUEUE_SIZE - 1"
definition FASTPASS_PKT_MAX_ALLOC_TSLOTS :: nat where "FASTPASS_PKT_MAX_ALLOC_TSLOTS = 64"
definition FASTPASS_PKT_MAX_AREQ :: nat where "FASTPASS_PKT_MAX_AREQ = 10"
definition FASTPASS_PKT_ALLOC_LEN :: nat where "FASTPASS_PKT_ALLOC_LEN = 2 + 2 * 15 + FASTPASS_PKT_MAX_ALLOC_TSLOTS"
definition FASTPASS_MAX_PAYLOAD :: nat where
  "FASTPASS_MAX_PAYLOAD = 8 + 8 + (2 + 4 * FASTPASS_PKT_MAX_AREQ) + FASTPASS_PKT_ALLOC_LEN"
definition MAX_ADMITTED_PER_LOOP :: nat where "MAX_ADMITTED_PER_LOOP = 4 * BATCH_SIZE"
definition MAX_PATHS :: nat where "MAX_PATHS = 4"
definition NUM_NODES :: nat where "NUM_NODES = 256"

record alloc_report_queue =
  is_pending :: "nat \<Rightarrow> u8"
  q_pending :: "nat \<Rightarrow> u16"
  rq_head :: u32
  rq_tail :: u32

record end_node_state =
  en_conn :: proto
  en_dst_ether :: "u8 list"
  en_dst_ip :: "u8 list"
  en_controller_ip :: "u8 list"
  en_pending :: fp_window
  en_allocs :: "nat \<Rightarrow> u16"
  en_demands :: "nat \<Rightarrow> u32"
  alloc_to_dst :: "nat \<Rightarrow> u32"
  acked_allocs :: "nat \<Rightarrow> u32"
  report_queue :: alloc_report_queue
  tx_pacer :: fp_pacer
  total_alloc :: u64
  total_acked_alloc :: u64

record comm_core_state =
  alloc_enc_space :: "nat \<Rightarrow> u8"
  latest_timeslot :: "nat \<Rightarrow> u64"
  timeout_timers :: fp_timers
  tx_timers :: fp_timers

record comm =
  end_nodes :: "nat \<Rightarrow> end_node_state"
  ccore :: comm_core_state
  adm :: seq_admissible_status
  comm_bug :: bool
  comm_sent :: "u8 list list"

definition upd_en :: "nat \<Rightarrow> (end_node_state \<Rightarrow> end_node_state) \<Rightarrow> comm \<Rightarrow> comm" where
  "upd_en node f c = c\<lparr> end_nodes := (end_nodes c)(node := f (end_nodes c node)) \<rparr>"

subsection \<open>Definitions: initialisation\<close>

text \<open>
  The costs and timeouts are computed from the frequency of the cycle counter in floating point;
  they are arguments. The operations of the arbiter have no \<^verbatim>\<open>handle_alloc\<close>.
\<close>

definition comm_proto_ops :: fpproto_ops where
  "comm_proto_ops = \<lparr> has_handle_reset = True, has_handle_ack = True, has_handle_neg_ack = True,
     has_trigger_request = True, has_handle_alloc = False, has_handle_areq = True \<rparr>"

definition comm_init_global_structs :: "u64 \<Rightarrow> u64 \<Rightarrow> u64 \<Rightarrow> u64 \<Rightarrow> u32 \<Rightarrow> u32 \<Rightarrow> u32 \<Rightarrow> comm \<Rightarrow> comm" where
  "comm_init_global_structs now_ns first_time_slot now timeout send_cost max_burst min_trigger_gap c =
     fold (\<lambda>i c.
       let c = upd_en i (\<lambda>en. en\<lparr>
             en_conn := fpproto_init_conn False now_ns comm_proto_ops FASTPASS_RESET_WINDOW_NS timeout (en_conn en),
             en_pending := wnd_reset (en_pending en) (first_time_slot - 1),
             tx_pacer := pacer_init_full now send_cost max_burst min_trigger_gap \<rparr>) c
       in c\<lparr> ccore := (ccore c)\<lparr> timeout_timers := fp_init_timer i (timeout_timers (ccore c)),
                                tx_timers := fp_init_timer i (tx_timers (ccore c)) \<rparr> \<rparr>)
     [0..<MAX_NODES] c"

definition comm_init_core :: "u64 \<Rightarrow> comm \<Rightarrow> comm" where
  "comm_init_core first_time_slot c = c\<lparr> ccore := (ccore c)\<lparr>
     alloc_enc_space := fill (MAX_NODES * MAX_PATHS) 0 (alloc_enc_space (ccore c)),
     latest_timeslot := fill N_PARTITIONS (first_time_slot - 1) (latest_timeslot (ccore c)) \<rparr> \<rparr>"

subsection \<open>Definitions: triggers and reports\<close>

definition trigger_request :: "nat \<Rightarrow> u64 \<Rightarrow> comm \<Rightarrow> comm" where
  "trigger_request node now c =
     (let (set, pa) = pacer_trigger (tx_pacer (end_nodes c node)) now;
          c = upd_en node (\<lambda>en. en\<lparr> tx_pacer := pa \<rparr>) c
      in if set
         then c\<lparr> ccore := (ccore c)\<lparr> tx_timers :=
                fp_timer_reset (tx_timers (ccore c)) node (pacer_next_event pa) \<rparr> \<rparr>
         else c)"

definition report_push :: "u16 \<Rightarrow> alloc_report_queue \<Rightarrow> alloc_report_queue" where
  "report_push node q = q\<lparr> is_pending := (is_pending q)(unat node := 1),
     q_pending := (q_pending q)(unat (ucast (rq_tail q) AND ALLOC_REPORT_QUEUE_MASK) := node),
     rq_tail := rq_tail q + 1 \<rparr>"

definition trigger_report :: "nat \<Rightarrow> u16 \<Rightarrow> u64 \<Rightarrow> comm \<Rightarrow> comm option" where
  "trigger_report en_node node now c = do {
     guard_o (unat node < MAX_NODES);
     if is_pending (report_queue (end_nodes c en_node)) (unat node) \<noteq> 0 then Some c
     else Some (trigger_request en_node now
                 (upd_en en_node (\<lambda>en. en\<lparr> report_queue := report_push node (report_queue en) \<rparr>) c)) }"

definition report_empty :: "alloc_report_queue \<Rightarrow> bool" where
  "report_empty q = (rq_head q = rq_tail q)"

definition report_pop :: "alloc_report_queue \<Rightarrow> (u16 \<times> alloc_report_queue) option" where
  "report_pop q = do {
     guard_o (\<not> report_empty q);
     let node = q_pending q (unat (ucast (rq_head q) AND ALLOC_REPORT_QUEUE_MASK));
     guard_o (unat node < MAX_NODES);
     guard_o (is_pending q (unat node) \<noteq> 0);
     Some (node, q\<lparr> is_pending := (is_pending q)(unat node := 0), rq_head := rq_head q + 1 \<rparr>) }"

subsection \<open>Definitions: callbacks of the protocol\<close>

definition cancel_retrans_timer :: "nat \<Rightarrow> comm \<Rightarrow> comm" where
  "cancel_retrans_timer node c =
     c\<lparr> ccore := (ccore c)\<lparr> timeout_timers := fp_timer_stop node (timeout_timers (ccore c)) \<rparr> \<rparr>"

definition set_retrans_timer :: "nat \<Rightarrow> u64 \<Rightarrow> comm \<Rightarrow> comm" where
  "set_retrans_timer node when c =
     c\<lparr> ccore := (ccore c)\<lparr> timeout_timers := fp_timer_reset (timeout_timers (ccore c)) node when \<rparr> \<rparr>"

text \<open>
  The demand an end node asks for is a counter of which the packet carries 16 bits. The
  difference of the two \<^verbatim>\<open>s32\<close> is computed in two's complement.
\<close>

definition areq_demand :: "u32 \<Rightarrow> u16 \<Rightarrow> u32" where
  "areq_demand orig_demand cnt =
     (let demand = orig_demand - push_bit 15 1
      in demand + ((ucast cnt - demand) AND 0xFFFF))"

definition comm_areq_one :: "nat \<Rightarrow> u16 \<Rightarrow> u16 \<Rightarrow> comm \<Rightarrow> comm option" where
  "comm_areq_one node dst cnt c = do {
     let orig_demand = en_demands (end_nodes c node) (unat dst);
     let demand = areq_demand orig_demand cnt;
     let demand_diff = sint (demand - orig_demand);
     if demand_diff > 0 then do {
       st \<leftarrow> seq_add_backlog (adm c) (of_nat node) dst (of_int demand_diff);
       Some (upd_en node (\<lambda>en. en\<lparr> en_demands := (en_demands en)(unat dst := demand) \<rparr>) (c\<lparr> adm := st \<rparr>)) }
     else Some c }"

primrec comm_areq_loop :: "nat \<Rightarrow> u8 list \<Rightarrow> nat list \<Rightarrow> comm \<Rightarrow> (bool \<times> comm) option" where
  "comm_areq_loop node dst_and_count [] c = Some (True, c)"
| "comm_areq_loop node dst_and_count (i # is) c = do {
     dst \<leftarrow> rd16 dst_and_count (4 * i);
     cnt \<leftarrow> rd16 dst_and_count (4 * i + 2);
     if \<not> (unat dst < MAX_NODES) then Some (False, c)
     else do {
       c \<leftarrow> comm_areq_one node dst cnt c;
       comm_areq_loop node dst_and_count is c } }"

definition comm_handle_areq :: "nat \<Rightarrow> u8 list \<Rightarrow> nat \<Rightarrow> u64 \<Rightarrow> comm \<Rightarrow> comm option" where
  "comm_handle_areq node dst_and_count n now c = do {
     (ok, c) \<leftarrow> comm_areq_loop node dst_and_count [0..<n] c;
     Some (if ok then trigger_request node now c else c) }"

definition comm_handle_reset :: "nat \<Rightarrow> comm \<Rightarrow> comm option" where
  "comm_handle_reset node c = do {
     st \<leftarrow> seq_reset_sender (adm c) (of_nat node);
     Some (upd_en node (\<lambda>en. en\<lparr>
       en_demands := fill MAX_NODES 0 (en_demands en),
       alloc_to_dst := fill MAX_NODES 0 (alloc_to_dst en),
       acked_allocs := fill MAX_NODES 0 (acked_allocs en),
       report_queue := (report_queue en)\<lparr> rq_head := 0, rq_tail := 0,
         is_pending := fill MAX_NODES 0 (is_pending (report_queue en)) \<rparr> \<rparr>) (c\<lparr> adm := st \<rparr>)) }"

text \<open>The descriptor was filled by this core; an entry outside its array stops the run.\<close>

definition pd_areq_nth :: "fpproto_pktdesc \<Rightarrow> nat \<Rightarrow> fpproto_areq_desc option" where
  "pd_areq_nth pd i = (if i < length (pd_areq pd) then Some (pd_areq pd ! i) else None)"

definition comm_handle_neg_ack :: "nat \<Rightarrow> fpproto_pktdesc \<Rightarrow> u64 \<Rightarrow> comm \<Rightarrow> comm option" where
  "comm_handle_neg_ack node pd now c =
     foldo (\<lambda>i c. do {
       a \<leftarrow> pd_areq_nth pd i;
       let dst = (ucast (src_dst_key a) :: u16);
       guard_o (unat dst < MAX_NODES);
       if sint ((ucast (tslots a) :: u32) - acked_allocs (end_nodes c node) (unat dst)) > 0
       then trigger_report node dst now c else Some c }) [0..<unat (pd_n_areq pd)] c"

definition comm_handle_ack :: "nat \<Rightarrow> fpproto_pktdesc \<Rightarrow> comm \<Rightarrow> comm option" where
  "comm_handle_ack node pd c =
     foldo (\<lambda>i c. do {
       a \<leftarrow> pd_areq_nth pd i;
       let dst = (ucast (src_dst_key a) :: u16);
       guard_o (unat dst < MAX_NODES);
       let new_acked = sint ((ucast (tslots a) :: u32) - acked_allocs (end_nodes c node) (unat dst));
       if new_acked > 0
       then Some (upd_en node (\<lambda>en. en\<lparr>
              acked_allocs := (acked_allocs en)(unat dst := acked_allocs en (unat dst) + of_int new_acked),
              total_acked_alloc := total_acked_alloc en + of_int new_acked \<rparr>) c)
       else Some c }) [0..<unat (pd_n_areq pd)] c"

definition comm_event :: "nat \<Rightarrow> u64 \<Rightarrow> out_event \<Rightarrow> comm \<Rightarrow> comm option" where
  "comm_event node now e c =
     (case e of
        Set_timer when \<Rightarrow> Some (set_retrans_timer node when c)
      | Cancel_timer \<Rightarrow> Some (cancel_retrans_timer node c)
      | Handle_ack pd \<Rightarrow> comm_handle_ack node pd c
      | Handle_neg_ack pd \<Rightarrow> comm_handle_neg_ack node pd now c
      | Handle_reset \<Rightarrow> comm_handle_reset node c
      | Trigger_request \<Rightarrow> Some (trigger_request node now c)
      | Handle_areq dst_and_count n \<Rightarrow> comm_handle_areq node dst_and_count n now c
      | Handle_alloc base dsts descs \<Rightarrow> Some c
      | Pktdesc_free pd \<Rightarrow> Some c
      | Bug \<Rightarrow> Some (c\<lparr> comm_bug := True \<rparr>)
      | Null_deref \<Rightarrow> None
      | Oob_read \<Rightarrow> None
      | Diverged \<Rightarrow> None)"

definition with_conn :: "nat \<Rightarrow> u64 \<Rightarrow> (proto \<Rightarrow> proto) \<Rightarrow> comm \<Rightarrow> comm option" where
  "with_conn node now f c =
     (let s = f ((en_conn (end_nodes c node))\<lparr> trace := [] \<rparr>)
      in foldo (comm_event node now) (trace s) (upd_en node (\<lambda>en. en\<lparr> en_conn := s \<rparr>) c))"

subsection \<open>Definitions: admitted traffic\<close>

text \<open>
  The loop that throws away timeslots sliding out of the window of pending allocations; each
  round clears one of at most 192 marks, running out of \<open>fuel\<close> stops the run. The boolean says
  whether the window reported a bug.
\<close>

fun throw_away :: "nat \<Rightarrow> u64 \<Rightarrow> fp_window \<times> bool \<Rightarrow> (fp_window \<times> bool) option" where
  "throw_away 0 tslot wb = None"
| "throw_away (Suc fuel) tslot (wnd, bug) =
     (let (gap, b) = wnd_at_or_before wnd tslot
      in if gap \<ge> 0 then
           let tslot = tslot - of_int gap;
               (wnd, b') = wnd_clear wnd tslot
           in throw_away fuel tslot (wnd, bug \<or> b \<or> b')
         else Some (wnd, bug \<or> b))"

definition add_alloc_wnd :: "u64 \<Rightarrow> fp_window \<Rightarrow> (fp_window \<times> bool) option" where
  "add_alloc_wnd cur_slot wnd = do {
     let tslot = cur_slot - of_nat FASTPASS_WND_LEN;
     let tslot = (if time_before64 (wnd_head wnd) tslot then wnd_head wnd else tslot);
     (wnd, b1) \<leftarrow> throw_away (FASTPASS_WND_LEN + 1) tslot (wnd, False);
     let (wnd, b2) = wnd_advance wnd (cur_slot - wnd_head wnd);
     let (wnd, b3) = wnd_mark wnd cur_slot;
     Some (wnd, b1 \<or> b2 \<or> b3) }"

definition add_alloc :: "u64 \<Rightarrow> u64 \<Rightarrow> admitted_edge \<Rightarrow> comm \<Rightarrow> comm option" where
  "add_alloc cur_slot now edge c = do {
     let src = unat (a_src edge);
     let dst = a_dst edge;
     guard_o (src < MAX_NODES);
     (wnd, b) \<leftarrow> add_alloc_wnd cur_slot (en_pending (end_nodes c src));
     let c = upd_en src (\<lambda>en. en\<lparr> en_pending := wnd,
           en_allocs := (en_allocs en)(unat (wnd_pos cur_slot) := dst),
           alloc_to_dst := (alloc_to_dst en)
             (unat dst mod MAX_NODES := alloc_to_dst en (unat dst mod MAX_NODES) + 1),
           total_alloc := total_alloc en + 1 \<rparr>) c;
     let c = c\<lparr> comm_bug := comm_bug c \<or> b \<rparr>;
     trigger_report src (of_nat (unat dst mod MAX_NODES)) now c }"

definition process_admitted :: "u64 \<Rightarrow> admitted_traffic \<Rightarrow> comm \<Rightarrow> comm option" where
  "process_admitted now admitted c = do {
     let partition = unat (get_admitted_partition admitted);
     guard_o (partition < N_PARTITIONS);
     let cur_slot = latest_timeslot (ccore c) partition + 1;
     let c = c\<lparr> ccore := (ccore c)\<lparr> latest_timeslot := (latest_timeslot (ccore c))
           (partition := cur_slot) \<rparr> \<rparr>;
     guard_o (unat (get_num_admitted admitted) \<le> MAX_NODES);
     foldo (\<lambda>j. add_alloc cur_slot now (at_edges admitted j))
       [0..<unat (get_num_admitted admitted)] c }"

text \<open>
  The ring of admitted traffic is the one the allocator fills; the structures go back to their
  pool when they are processed.
\<close>

definition process_allocated_traffic :: "u64 \<Rightarrow> comm \<Rightarrow> comm option" where
  "process_allocated_traffic now c = do {
     (admitted, q) \<leftarrow> fp_ring_dequeue_burst (q_admitted_out (adm c)) MAX_ADMITTED_PER_LOOP;
     let c = c\<lparr> adm := (adm c)\<lparr> q_admitted_out := q \<rparr> \<rparr>;
     c \<leftarrow> foldo (\<lambda>a c. process_admitted now (admitted_store (adm c) a) c) admitted c;
     mp \<leftarrow> foldo (\<lambda>a mp. fp_mempool_put mp a) admitted (admitted_traffic_mempool (adm c));
     Some (c\<lparr> adm := (adm c)\<lparr> admitted_traffic_mempool := mp \<rparr> \<rparr>) }"

subsection \<open>Definitions: filling a packet\<close>

definition pd_set_areq :: "fpproto_pktdesc \<Rightarrow> u64 \<Rightarrow> u64 \<Rightarrow> fpproto_pktdesc" where
  "pd_set_areq pd key ts = pd\<lparr>
     pd_areq := (pd_areq pd)[unat (pd_n_areq pd) := \<lparr> src_dst_key = key, tslots = ts \<rparr>],
     pd_n_areq := pd_n_areq pd + 1 \<rparr>"

function report_loop :: "(nat \<Rightarrow> u32) \<Rightarrow> fpproto_pktdesc \<Rightarrow> alloc_report_queue
    \<Rightarrow> (fpproto_pktdesc \<times> alloc_report_queue) option" where
  "report_loop allocated pd q =
     (if \<not> report_empty q \<and> unat (pd_n_areq pd) < FASTPASS_PKT_MAX_AREQ
      then case report_pop q of
             None \<Rightarrow> None
           | Some (node, q) \<Rightarrow>
               report_loop allocated (pd_set_areq pd (ucast node) (ucast (allocated (unat node)))) q
      else Some (pd, q))"
  by auto
termination
proof (relation "measure (\<lambda>(allocated, pd, q). FASTPASS_PKT_MAX_AREQ - unat (pd_n_areq pd))", simp)
  fix allocated node and pd :: fpproto_pktdesc and q q' :: alloc_report_queue
  assume c: "\<not> report_empty q \<and> unat (pd_n_areq pd) < FASTPASS_PKT_MAX_AREQ"
  then have "unat (pd_n_areq pd + 1) = unat (pd_n_areq pd) + 1"
    by (simp add: FASTPASS_PKT_MAX_AREQ_def unat_word_ariths)
  with c show "((allocated, pd_set_areq pd (ucast node) (ucast (allocated (unat node))), q'), allocated, pd, q)
      \<in> measure (\<lambda>(allocated, pd, q). FASTPASS_PKT_MAX_AREQ - unat (pd_n_areq pd))"
    by (simp add: pd_set_areq_def diff_less_mono2)
qed

declare report_loop.simps [simp del]

definition fill_packet_report :: "nat \<Rightarrow> u64 \<Rightarrow> fpproto_pktdesc \<Rightarrow> comm \<Rightarrow> (fpproto_pktdesc \<times> comm) option" where
  "fill_packet_report node now pd c = do {
     let en = end_nodes c node;
     (pd, q) \<leftarrow> report_loop (alloc_to_dst en) (pd\<lparr> pd_n_areq := 0 \<rparr>) (report_queue en);
     let c = upd_en node (\<lambda>en. en\<lparr> report_queue := q \<rparr>) c;
     Some (pd, if \<not> report_empty q then trigger_request node now c else c) }"

text \<open>The local variables of \<^verbatim>\<open>fill_packet_alloc\<close>, with the descriptor and the scratch space it writes.\<close>

record fill_state =
  f_enc :: "nat \<Rightarrow> u8"
  f_pd :: fpproto_pktdesc
  f_wnd :: fp_window
  f_n_dsts :: nat
  f_n_tslot :: nat
  f_bug :: bool

definition enc_index :: "u16 \<Rightarrow> nat" where
  "enc_index dst = unat dst mod NUM_NODES + NUM_NODES * unat (drop_bit 14 dst)"

definition put_tslot :: "u8 \<Rightarrow> fill_state \<Rightarrow> fill_state option" where
  "put_tslot b f = do {
     guard_o (f_n_tslot f < FASTPASS_PKT_MAX_ALLOC_TSLOTS);
     Some (f\<lparr> f_pd := (f_pd f)\<lparr> pd_tslot_desc := (pd_tslot_desc (f_pd f))[f_n_tslot f := b] \<rparr>,
              f_n_tslot := f_n_tslot f + 1 \<rparr>) }"

definition put_dst :: "u16 \<Rightarrow> fill_state \<Rightarrow> fill_state" where
  "put_dst dst f = f\<lparr> f_pd := (f_pd f)\<lparr>
       pd_dsts := (pd_dsts (f_pd f))[f_n_dsts f := dst],
       pd_dst_counts := (pd_dst_counts (f_pd f))[f_n_dsts f := 0] \<rparr>,
     f_enc := (f_enc f)(enc_index dst := of_nat (f_n_dsts f)),
     f_n_dsts := f_n_dsts f + 1 \<rparr>"

text \<open>
  One pass from the label \<^verbatim>\<open>next_alloc\<close> to the clearing of the timeslot; the boolean is true when
  the code jumps to \<^verbatim>\<open>cleanup\<close> because the packet has 15 destinations already.
\<close>

definition put_skip :: "u16 \<Rightarrow> fill_state \<Rightarrow> (u16 \<times> fill_state) option" where
  "put_skip gap f =
     (if gap > 16 then do {
        let skip16 = (gap - 1) div 16;
        f \<leftarrow> put_tslot (ucast (skip16 - 1)) f;
        Some (gap - 16 * skip16, f) }
      else Some (gap, f))"

definition put_alloc :: "u64 \<Rightarrow> u16 \<Rightarrow> u16 \<Rightarrow> fill_state \<Rightarrow> fill_state option" where
  "put_alloc cur_tslot gap dst f = do {
     let e = f_enc f (enc_index dst);
     guard_o (unat e < 15);
     f \<leftarrow> put_tslot (push_bit 4 (e + 1) OR (ucast gap - 1)) f;
     let pd = f_pd f;
     let (wnd, b) = wnd_clear (f_wnd f) cur_tslot;
     Some (f\<lparr> f_pd := pd\<lparr> pd_dst_counts := (pd_dst_counts pd)[unat e := pd_dst_counts pd ! unat e + 1] \<rparr>,
              f_wnd := wnd, f_bug := f_bug f \<or> b \<rparr>) }"

definition next_alloc :: "(nat \<Rightarrow> u16) \<Rightarrow> u64 \<Rightarrow> u64 \<Rightarrow> fill_state \<Rightarrow> (bool \<times> fill_state) option" where
  "next_alloc allocs prev_tslot cur_tslot f = do {
     (gap, f) \<leftarrow> put_skip (ucast (cur_tslot - prev_tslot)) f;
     let dst = allocs (unat (wnd_pos cur_tslot));
     if f_enc f (enc_index dst) = 0 \<and> f_n_dsts f = 15 then Some (True, f)
     else do {
       let f = (if f_enc f (enc_index dst) = 0 then put_dst dst f else f);
       f \<leftarrow> put_alloc cur_tslot gap dst f;
       Some (False, f) } }"

lemma put_tslot_n: "put_tslot b f = Some f' \<Longrightarrow> f_n_tslot f' = f_n_tslot f + 1 \<and> f_n_tslot f' \<le> 64"
  by (auto simp: put_tslot_def guard_o_def FASTPASS_PKT_MAX_ALLOC_TSLOTS_def split: if_splits)

lemma put_skip_n: "put_skip gap f = Some (gap', f') \<Longrightarrow> f_n_tslot f \<le> f_n_tslot f'"
  by (auto simp: put_skip_def Let_def bind_eq_Some_conv dest: put_tslot_n split: if_splits)

lemma put_alloc_n: "put_alloc t gap dst f = Some f' \<Longrightarrow> f_n_tslot f < f_n_tslot f'"
  by (cases "put_tslot (push_bit 4 (f_enc f (enc_index dst) + 1) OR ucast gap - 1) f")
    (auto simp: put_alloc_def Let_def guard_o_def dest!: put_tslot_n split: if_splits prod.splits)

lemma next_alloc_progress:
  "next_alloc allocs prev_tslot cur_tslot f = Some (False, f') \<Longrightarrow> f_n_tslot f < f_n_tslot f'"
  by (auto simp: next_alloc_def put_dst_def Let_def bind_eq_Some_conv dest!: put_skip_n put_alloc_n split: if_splits)

function fill_allocs :: "(nat \<Rightarrow> u16) \<Rightarrow> u64 \<Rightarrow> u64 \<Rightarrow> fill_state \<Rightarrow> fill_state option" where
  "fill_allocs allocs prev_tslot cur_tslot f =
     (case next_alloc allocs prev_tslot cur_tslot f of
        None \<Rightarrow> None
      | Some (True, f) \<Rightarrow> Some f
      | Some (False, f) \<Rightarrow>
          if \<not> wnd_empty (f_wnd f) \<and> f_n_tslot f \<le> FASTPASS_PKT_MAX_ALLOC_TSLOTS - 2
          then fill_allocs allocs cur_tslot (wnd_earliest_marked (f_wnd f)) f
          else Some f)"
  by auto
termination
  by (relation "measure (\<lambda>(allocs, p, t, f). FASTPASS_PKT_MAX_ALLOC_TSLOTS - f_n_tslot f)")
    (auto simp: FASTPASS_PKT_MAX_ALLOC_TSLOTS_def dest: next_alloc_progress intro!: diff_less_mono2)

declare fill_allocs.simps [simp del]

definition fill_cleanup :: "fill_state \<Rightarrow> fill_state option" where
  "fill_cleanup f = do {
     let f = f\<lparr> f_enc := fold (\<lambda>i e. e(enc_index (pd_dsts (f_pd f) ! i) := 0)) [0..<f_n_dsts f] (f_enc f) \<rparr>;
     if odd (f_n_tslot f) then put_tslot 0 f else Some f }"

definition fill_packet_alloc :: "nat \<Rightarrow> fpproto_pktdesc \<Rightarrow> comm \<Rightarrow> (fpproto_pktdesc \<times> comm) option" where
  "fill_packet_alloc node pd c = do {
     let en = end_nodes c node;
     let wnd = en_pending en;
     if wnd_empty wnd then Some (pd\<lparr> pd_n_dsts := 0, pd_alloc_tslot := 0 \<rparr>, c)
     else do {
       let cur_tslot = wnd_earliest_marked wnd;
       let prev_tslot = (cur_tslot - 1) AND push_bit 4 (NOT 0);
       let pd = pd\<lparr> pd_base_tslot := ucast (drop_bit 4 prev_tslot AND 0xFFFF) \<rparr>;
       f \<leftarrow> fill_allocs (en_allocs en) prev_tslot cur_tslot
              \<lparr> f_enc = alloc_enc_space (ccore c), f_pd = pd, f_wnd = wnd, f_n_dsts = 0, f_n_tslot = 0,
                f_bug = False \<rparr>;
       f \<leftarrow> fill_cleanup f;
       guard_o (even (f_n_tslot f));
       let c = upd_en node (\<lambda>en. en\<lparr> en_pending := f_wnd f \<rparr>) c;
       let c = c\<lparr> ccore := (ccore c)\<lparr> alloc_enc_space := f_enc f \<rparr>, comm_bug := comm_bug c \<or> f_bug f \<rparr>;
       Some ((f_pd f)\<lparr> pd_n_dsts := of_nat (f_n_dsts f), pd_alloc_tslot := of_nat (f_n_tslot f) \<rparr>, c) } }"

subsection \<open>Definitions: sending and receiving\<close>

definition ETHER_TYPE_IPv4 :: u16 where "ETHER_TYPE_IPv4 = 0x0800"
definition ETHER_TYPE_ARP :: u16 where "ETHER_TYPE_ARP = 0x0806"
definition IPPROTO_FASTPASS_WATCHDOG :: u8 where "IPPROTO_FASTPASS_WATCHDOG = 223"

text \<open>
  \<^verbatim>\<open>port_ether\<close> is the address of the output port and \<^verbatim>\<open>addr\<close> the address of the payload in memory.
  The checksum of the IP header is left to the network card. A failed encoding is logged and the
  negative length is used all the same.
\<close>

definition make_packet :: "u8 list \<Rightarrow> nat \<Rightarrow> end_node_state \<Rightarrow> fpproto_pktdesc \<Rightarrow> u8 list" where
  "make_packet port_ether addr en pd =
     (let (data_len, payload) = fpproto_encode_packet False addr pd FASTPASS_MAX_PAYLOAD 26;
          ipv4_length = 20 + data_len
      in take (nat (14 + ipv4_length))
           (en_dst_ether en @ port_ether @ be16 ETHER_TYPE_IPv4
            @ [0x45, push_bit 2 46] @ be16 (of_int ipv4_length) @ be16 0 @ be16 0 @ [77, ucast IPPROTO_FASTPASS] @ be16 0
            @ en_controller_ip en @ en_dst_ip en @ payload))"

text \<open>
  \<^verbatim>\<open>mem\<close> is the descriptor the pool returns and \<^verbatim>\<open>mbuf\<close> tells whether a packet buffer was available.
\<close>

definition tx_end_node :: "nat \<Rightarrow> u64 \<Rightarrow> fpproto_pktdesc option \<Rightarrow> bool \<Rightarrow> u8 list \<Rightarrow> nat \<Rightarrow> comm \<Rightarrow> comm option" where
  "tx_end_node node now mem mbuf port_ether addr c = do {
     let c = upd_en node (\<lambda>en. en\<lparr> tx_pacer := pacer_reset (tx_pacer en) \<rparr>) c;
     c \<leftarrow> with_conn node now fpproto_prepare_to_send c;
     case mem of
       None \<Rightarrow> Some (trigger_request node now c)
     | Some pd \<Rightarrow> do {
         (pd, c) \<leftarrow> fill_packet_alloc node pd c;
         (pd, c) \<leftarrow> fill_packet_report node now pd c;
         let committed = commit_fields (en_conn (end_nodes c node)) now pd;
         c \<leftarrow> with_conn node now (fpproto_commit_packet pd now) c;
         Some (if mbuf
               then c\<lparr> comm_sent := comm_sent c @ [make_packet port_ether addr (end_nodes c node) committed] \<rparr>
               else c) } }"

text \<open>
  A received frame is a list of bytes; a read past its end stops the run. The result tells
  whether the frame was a watchdog packet. The payload is taken behind a header of 20 bytes,
  while its length is computed from the length field of the header.
\<close>

definition frame_mac :: "u8 list \<Rightarrow> u64 option" where
  "frame_mac m = do {
     hi \<leftarrow> rd16 m 6;
     lo \<leftarrow> rd32 m 8;
     Some (push_bit 32 (ucast hi) OR ucast lo) }"

definition comm_rx_fastpass :: "u8 list \<Rightarrow> nat \<Rightarrow> u64 \<Rightarrow> u64 \<Rightarrow> u64 \<Rightarrow> comm \<Rightarrow> comm option" where
  "comm_rx_fastpass m addr now1 now2 now c = do {
     ip_total_len \<leftarrow> rd16 m 16;
     version_ihl \<leftarrow> rd8 m 14;
     let ip_hdr_len = unat (version_ihl AND 0xF);
     if 14 + unat ip_total_len > length m then Some c
     else if ip_hdr_len < 5 \<or> unat ip_total_len < 4 * ip_hdr_len then Some c
     else do {
       mac_addr \<leftarrow> frame_mac m;
       let req_src = unat (fp_map_mac_to_id mac_addr);
       guard_o (req_src < MAX_NODES);
       let c = upd_en req_src (\<lambda>en. en\<lparr> en_dst_ether := take 6 (drop 6 m), en_dst_ip := take 4 (drop 26 m),
             en_controller_ip := take 4 (drop 30 m) \<rparr>) c;
       with_conn req_src now (fpproto_handle_rx_complete False addr now1 now2
           (take (unat ip_total_len - 4 * ip_hdr_len) (drop 34 m))) c } }"

definition comm_rx :: "u8 list \<Rightarrow> nat \<Rightarrow> u64 \<Rightarrow> u64 \<Rightarrow> u64 \<Rightarrow> comm \<Rightarrow> (bool \<times> comm) option" where
  "comm_rx m addr now1 now2 now c = do {
     ether_type \<leftarrow> rd16 m 12;
     if ether_type = ETHER_TYPE_ARP then Some (False, c)
     else if ether_type \<noteq> ETHER_TYPE_IPv4 then Some (False, c)
     else do {
       next_proto_id \<leftarrow> rd8 m 23;
       if next_proto_id = IPPROTO_FASTPASS_WATCHDOG then Some (True, c)
       else if next_proto_id \<noteq> ucast IPPROTO_FASTPASS then Some (False, c)
       else map_option (\<lambda>c. (False, c)) (comm_rx_fastpass m addr now1 now2 now c) } }"

text \<open>
  A queue gives frames, each with the address of its payload and whether the deadline has not
  passed when its turn comes. The last \<^verbatim>\<open>PREFETCH_OFFSET\<close> frames are handled whatever the time, but not
  once a watchdog packet was seen. The boolean is \<^verbatim>\<open>saw_watchdog\<close>.
\<close>

definition PREFETCH_OFFSET :: nat where "PREFETCH_OFFSET = 3"

definition rx_prefetched :: "u64 \<Rightarrow> u64 \<Rightarrow> u8 list \<times> nat \<times> bool \<Rightarrow> bool \<times> comm \<Rightarrow> (bool \<times> comm) option" where
  "rx_prefetched now_ns now = (\<lambda>(m, addr, in_time) (saw, c).
     if in_time then do {
       (res, c) \<leftarrow> comm_rx m addr now_ns now_ns now c;
       Some (saw \<or> res, c) }
     else Some (saw, c))"

definition rx_remaining :: "u64 \<Rightarrow> u64 \<Rightarrow> u8 list \<times> nat \<times> bool \<Rightarrow> bool \<times> comm \<Rightarrow> (bool \<times> comm) option" where
  "rx_remaining now_ns now = (\<lambda>(m, addr, in_time) (saw, c).
     if saw then Some (saw, c) else comm_rx m addr now_ns now_ns now c)"

definition do_rx_burst :: "u64 \<Rightarrow> u64 \<Rightarrow> (u8 list \<times> nat \<times> bool) list list \<Rightarrow> comm \<Rightarrow> (bool \<times> comm) option" where
  "do_rx_burst now_ns now queues c =
     foldo (\<lambda>pkts s. do {
       let n = length pkts - PREFETCH_OFFSET;
       s \<leftarrow> foldo (rx_prefetched now_ns now) (take n pkts) s;
       foldo (rx_remaining now_ns now) (drop n pkts) s }) queues (False, c)"

text \<open>
  One round of the main loop. \<^verbatim>\<open>I_AM_MASTER\<close> is 1, so a watchdog packet changes nothing and
  \<^verbatim>\<open>watchdog_loop\<close> is never entered. \<^verbatim>\<open>mems\<close> are the descriptors the pool has for the nodes that send. ARP,
  IGMP and watchdog packets that are sent are not part of the state.
\<close>

definition comm_round :: "u64 \<Rightarrow> u64 \<Rightarrow> (u8 list \<times> nat \<times> bool) list list \<Rightarrow> (nat \<Rightarrow> fpproto_pktdesc option)
    \<Rightarrow> (nat \<Rightarrow> bool) \<Rightarrow> u8 list \<Rightarrow> nat \<Rightarrow> comm \<Rightarrow> comm option" where
  "comm_round now_ns now queues mems mbufs port_ether addr c = do {
     (saw_watchdog, c) \<leftarrow> do_rx_burst now_ns now queues c;
     (timers, lst) \<leftarrow> fp_timer_get_expired (timeout_timers (ccore c)) now [];
     c \<leftarrow> foldo (\<lambda>node. with_conn node now (fpproto_handle_timeout now)) lst
            (c\<lparr> ccore := (ccore c)\<lparr> timeout_timers := timers \<rparr> \<rparr>);
     c \<leftarrow> process_allocated_traffic now c;
     st \<leftarrow> seq_handle_spent (adm c);
     st \<leftarrow> seq_flush_backlog st;
     let c = c\<lparr> adm := st \<rparr>;
     (timers, lst) \<leftarrow> fp_timer_get_expired (tx_timers (ccore c)) now [];
     foldo (\<lambda>node. tx_end_node node now (mems node) (mbufs node) port_ether addr) lst
       (c\<lparr> ccore := (ccore c)\<lparr> tx_timers := timers \<rparr> \<rparr>) }"

end
