(* ===== verification/FP_Client.thy ===== *)
theory FP_Client
  imports FP_Loops FP_Packet
begin

unbundle bit_operations_syntax

text \<open>
  The end node's side, \<^verbatim>\<open>src/src/kernel-mod/sch_fastpass.c\<close>: it counts the timeslots every
  destination needs, requests them from the arbiter, and spends the timeslots the arbiter
  allocates.

  The kernel runs the handlers under the locks of the destination, the queue and the
  connection; a handler is one step of the model. Calls into the queueing discipline
  (\<^verbatim>\<open>tsq_admit_now\<close>) are recorded in \<^verbatim>\<open>sch_admitted\<close>, packets handed to the socket in \<^verbatim>\<open>sch_sent\<close>, the
  programming of the retransmission timer in \<^verbatim>\<open>retrans_timer\<close>. Readings of the clocks are
  arguments. A destination number outside the array \<^verbatim>\<open>dsts\<close> stops the run. The protocol model
  records its callbacks in a trace, which is processed after the protocol operation. The array
  \<^verbatim>\<open>schedule\<close> is never used by the code and left out.
\<close>

subsection \<open>Definitions: state\<close>

definition FASTPASS_REQUEST_WINDOW_SIZE :: u64 where "FASTPASS_REQUEST_WINDOW_SIZE = push_bit 13 1"
definition SCH_MAX_AREQ :: nat where "SCH_MAX_AREQ = 10"

datatype flow_state = FLOW_UNQUEUED | FLOW_REQUEST_QUEUE

record fp_dst =
  demand_tslots :: u64
  requested_tslots :: u64
  acked_tslots :: u64
  alloc_tslots :: u64
  used_tslots :: u64
  flow_state :: flow_state

record fp_sched_stat =
  admitted_timeslots :: u64
  early_enqueue :: u64
  late_enqueue1 :: u64
  late_enqueue2 :: u64
  late_enqueue3 :: u64
  late_enqueue4 :: u64
  req_alloc_errors :: u64
  request_with_empty_flowqueue :: u64
  queued_flow_already_acked :: u64
  alloc_too_late :: u64
  alloc_premature :: u64
  unwanted_alloc :: u64
  alloc_report_larger_than_requested :: u64
  timeslots_assumed_lost :: u64

text \<open>The last fields of the configuration are module parameters.\<close>

record fp_sched_data =
  tslot_mul :: u32
  tslot_shift :: u32
  miss_threshold :: u32
  max_preload :: u32
  unreq_flows :: "nat \<Rightarrow> u16"
  unreq_dsts_head :: u32
  unreq_dsts_tail :: u32
  dsts :: "nat \<Rightarrow> fp_dst"
  alloc_wnd :: fp_window
  sch_timeslot :: u64
  request_pacer :: fp_pacer
  is_destroyed :: bool
  sch_conn :: proto
  q_demand_tslots :: u32
  q_requested_tslots :: u64
  q_alloc_tslots :: u32
  q_acked_tslots :: u64
  q_used_tslots :: u64
  sch_stat :: fp_sched_stat
  sch_bug :: bool
  retrans_timer :: "u64 option"
  sch_admitted :: "u16 list"
  sch_sent :: "fpproto_pktdesc list"

definition upd_dst :: "u16 \<Rightarrow> (fp_dst \<Rightarrow> fp_dst) \<Rightarrow> fp_sched_data \<Rightarrow> fp_sched_data" where
  "upd_dst dst_id f q = q\<lparr> dsts := (dsts q)(unat dst_id := f (dsts q (unat dst_id))) \<rparr>"

definition get_dst :: "fp_sched_data \<Rightarrow> u16 \<Rightarrow> fp_dst option" where
  "get_dst q index = (if unat index < MAX_NODES then Some (dsts q (unat index)) else None)"

definition sch_stat_inc :: "((u64 \<Rightarrow> u64) \<Rightarrow> fp_sched_stat \<Rightarrow> fp_sched_stat) \<Rightarrow> fp_sched_data \<Rightarrow> fp_sched_data" where
  "sch_stat_inc upd q = q\<lparr> sch_stat := upd (\<lambda>n. n + 1) (sch_stat q) \<rparr>"

subsection \<open>Definitions: the request queue\<close>

definition trigger_tx :: "u64 \<Rightarrow> fp_sched_data \<Rightarrow> fp_sched_data" where
  "trigger_tx now q = q\<lparr> request_pacer := snd (pacer_trigger (request_pacer q) now) \<rparr>"

definition unreq_dsts_enqueue_if_not_queued :: "u64 \<Rightarrow> u16 \<Rightarrow> fp_sched_data \<Rightarrow> fp_sched_data" where
  "unreq_dsts_enqueue_if_not_queued now dst_id q =
     (if flow_state (dsts q (unat dst_id)) \<noteq> FLOW_UNQUEUED then q
      else
        let q = q\<lparr> unreq_flows := (unreq_flows q)(unat (unreq_dsts_tail q mod of_nat MAX_NODES) := dst_id),
                   unreq_dsts_tail := unreq_dsts_tail q + 1 \<rparr>;
            q = upd_dst dst_id (\<lambda>d. d\<lparr> flow_state := FLOW_REQUEST_QUEUE \<rparr>) q
        in trigger_tx now q)"

definition unreq_dsts_dequeue_and_get :: "fp_sched_data \<Rightarrow> (u16 option \<times> fp_sched_data) option" where
  "unreq_dsts_dequeue_and_get q =
     (if unreq_dsts_head q = unreq_dsts_tail q then Some (None, q)
      else do {
        let dst_id = unreq_flows q (unat (unreq_dsts_head q mod of_nat MAX_NODES));
        let q = q\<lparr> unreq_dsts_head := unreq_dsts_head q + 1 \<rparr>;
        d \<leftarrow> get_dst q dst_id;
        Some (Some dst_id, upd_dst dst_id (\<lambda>d. d\<lparr> flow_state := FLOW_UNQUEUED \<rparr>) q) })"

definition n_unreq_dsts :: "fp_sched_data \<Rightarrow> u32" where
  "n_unreq_dsts q = unreq_dsts_tail q - unreq_dsts_head q"

definition flow_inc_used :: "u16 \<Rightarrow> u64 \<Rightarrow> fp_sched_data \<Rightarrow> fp_sched_data" where
  "flow_inc_used dst_id amount q =
     (upd_dst dst_id (\<lambda>d. d\<lparr> used_tslots := used_tslots d + amount \<rparr>) q)
       \<lparr> q_used_tslots := q_used_tslots q + amount \<rparr>"

definition flow_inc_demand :: "u64 \<Rightarrow> u16 \<Rightarrow> u64 \<Rightarrow> fp_sched_data \<Rightarrow> fp_sched_data" where
  "flow_inc_demand now dst_id amount q =
     (let q = upd_dst dst_id (\<lambda>d. d\<lparr> demand_tslots := demand_tslots d + amount \<rparr>) q;
          q = unreq_dsts_enqueue_if_not_queued now dst_id q
      in q\<lparr> q_demand_tslots := q_demand_tslots q + ucast amount \<rparr>)"

definition fpq_add_timeslot :: "u64 \<Rightarrow> u64 \<Rightarrow> fp_sched_data \<Rightarrow> fp_sched_data option" where
  "fpq_add_timeslot now dst_id q = do {
     guard_o (unat (ucast dst_id :: u32) < MAX_NODES);
     Some (flow_inc_demand now (ucast dst_id) 1 q) }"

subsection \<open>Definitions: callbacks of the protocol\<close>

text \<open>
  \<^verbatim>\<open>base_idx\<close> is the pseudo-random index at which the loop over the destinations starts, below
  \<^verbatim>\<open>MAX_NODES\<close>.
\<close>

definition reset_dst :: "u64 \<Rightarrow> u16 \<Rightarrow> fp_sched_data \<Rightarrow> fp_sched_data" where
  "reset_dst now dst_id q =
     (let d = dsts q (unat dst_id)
      in if demand_tslots d = used_tslots d then q
         else
           let q = upd_dst dst_id (\<lambda>d. d\<lparr> demand_tslots := demand_tslots d - used_tslots d,
                     alloc_tslots := 0, acked_tslots := 0, requested_tslots := 0, used_tslots := 0 \<rparr>) q;
               q = q\<lparr> q_demand_tslots := q_demand_tslots q + ucast (demand_tslots (dsts q (unat dst_id))) \<rparr>
           in unreq_dsts_enqueue_if_not_queued now dst_id q)"

definition sch_handle_reset :: "u64 \<Rightarrow> u32 \<Rightarrow> fp_sched_data \<Rightarrow> fp_sched_data" where
  "sch_handle_reset now base_idx q =
     fold (\<lambda>idx. reset_dst now (ucast ((of_nat idx + base_idx) AND of_nat (MAX_NODES - 1))))
       [0..<MAX_NODES]
       (q\<lparr> alloc_wnd := wnd_reset (alloc_wnd q) (sch_timeslot q),
           q_demand_tslots := 0, q_requested_tslots := 0, q_alloc_tslots := 0, q_acked_tslots := 0,
           q_used_tslots := 0 \<rparr>)"

definition count_late :: "u64 \<Rightarrow> u64 \<Rightarrow> fp_sched_data \<Rightarrow> fp_sched_data" where
  "count_late cur full_tslot q =
     (let mt = miss_threshold q
      in if full_tslot > cur then sch_stat_inc early_enqueue_update q
         else if full_tslot < cur - ucast (drop_bit 1 mt)
         then (if full_tslot < cur - ucast (3 * drop_bit 2 mt) then sch_stat_inc late_enqueue4_update q
               else sch_stat_inc late_enqueue3_update q)
         else (if full_tslot < cur - ucast (drop_bit 2 mt) then sch_stat_inc late_enqueue2_update q
               else sch_stat_inc late_enqueue1_update q))"

definition admit_tslot :: "u64 \<Rightarrow> u64 \<Rightarrow> u16 \<Rightarrow> fp_sched_data \<Rightarrow> fp_sched_data option" where
  "admit_tslot cur full_tslot dst_id q =
     (if time_before64 full_tslot (cur - ucast (miss_threshold q)) then Some (sch_stat_inc alloc_too_late_update q)
      else if time_after64 full_tslot (cur + ucast (max_preload q)) then Some (sch_stat_inc alloc_premature_update q)
      else do {
        d \<leftarrow> get_dst q dst_id;
        if used_tslots d \<noteq> demand_tslots d then do {
          let q = flow_inc_used dst_id 1 q;
          let q = upd_dst dst_id (\<lambda>d. d\<lparr> alloc_tslots := alloc_tslots d + 1 \<rparr>) q;
          let q = q\<lparr> sch_admitted := sch_admitted q @ [dst_id], q_alloc_tslots := q_alloc_tslots q + 1 \<rparr>;
          Some (count_late cur full_tslot (sch_stat_inc admitted_timeslots_update q)) }
        else Some (sch_stat_inc unwanted_alloc_update q) })"

primrec alloc_specs :: "u64 \<Rightarrow> u16 list \<Rightarrow> u8 list \<Rightarrow> u64 \<Rightarrow> fp_sched_data \<Rightarrow> fp_sched_data option" where
  "alloc_specs cur dst_ids [] full_tslot q = Some q"
| "alloc_specs cur dst_ids (spec # ss) full_tslot q =
     (let dst_id_idx = unat (drop_bit 4 spec);
          low = ucast (spec AND 0xF) :: u64
      in if dst_id_idx = 0 then alloc_specs cur dst_ids ss (full_tslot + 16 * (1 + low)) q
         else if dst_id_idx > length dst_ids then Some q
         else do {
           let full_tslot = full_tslot + (1 + low);
           q \<leftarrow> admit_tslot cur full_tslot (dst_ids ! (dst_id_idx - 1)) q;
           alloc_specs cur dst_ids ss full_tslot q })"

definition timeslot_at :: "u64 \<Rightarrow> fp_sched_data \<Rightarrow> u64" where
  "timeslot_at now_real q = drop_bit (unat (tslot_shift q)) (now_real * ucast (tslot_mul q))"

definition full_base_tslot :: "u64 \<Rightarrow> u32 \<Rightarrow> u64" where
  "full_base_tslot cur base_tslot =
     (let full_tslot = cur - push_bit 18 1
      in full_tslot + ucast ((base_tslot - ucast full_tslot) AND 0xFFFFF))"

definition sch_handle_alloc :: "u64 \<Rightarrow> u64 \<Rightarrow> u32 \<Rightarrow> u16 list \<Rightarrow> u8 list \<Rightarrow> fp_sched_data \<Rightarrow> fp_sched_data option" where
  "sch_handle_alloc now now_real base_tslot dst_ids descs q =
     (let q = trigger_tx now q;
          cur = timeslot_at now_real q
      in alloc_specs cur dst_ids descs (full_base_tslot cur base_tslot) q)"

text \<open>
  A report that claims more than was requested forces a reset; the loop ends there. The events of that
  reset are only frees of descriptors, for which the scheduler has no callback to run.
\<close>

definition full_count :: "u64 \<Rightarrow> u16 \<Rightarrow> u64" where
  "full_count alloc count_low =
     (let cnt = alloc - push_bit 15 1 in cnt + ucast (count_low - ucast cnt))"

definition sch_areq_one :: "u64 \<Rightarrow> u64 \<Rightarrow> u32 \<Rightarrow> u16 \<Rightarrow> u16 \<Rightarrow> fp_sched_data \<Rightarrow> (bool \<times> fp_sched_data) option" where
  "sch_areq_one now now_real base_idx dst_id count_low q = do {
     d \<leftarrow> get_dst q dst_id;
     let cnt = full_count (alloc_tslots d) count_low;
     if sint (cnt - alloc_tslots d) > 0 then do {
       let n_lost = cnt - alloc_tslots d;
       if sint (cnt - requested_tslots d) > 0 then do {
         let q = sch_stat_inc alloc_report_larger_than_requested_update q;
         let q = q\<lparr> sch_conn := fpproto_force_reset True now_real (sch_conn q) \<rparr>;
         Some (False, sch_handle_reset now base_idx q) }
       else do {
         let q = upd_dst dst_id (\<lambda>d. d\<lparr> alloc_tslots := alloc_tslots d + n_lost \<rparr>) q;
         let q = flow_inc_used dst_id n_lost q;
         let q = flow_inc_demand now dst_id n_lost q;
         let q = q\<lparr> q_alloc_tslots := q_alloc_tslots q + ucast n_lost \<rparr>;
         Some (True, q\<lparr> sch_stat := timeslots_assumed_lost_update (\<lambda>n. n + n_lost) (sch_stat q) \<rparr>) } }
     else Some (True, q) }"

primrec sch_areq_loop :: "u64 \<Rightarrow> u64 \<Rightarrow> u32 \<Rightarrow> u8 list \<Rightarrow> nat list \<Rightarrow> fp_sched_data \<Rightarrow> fp_sched_data option" where
  "sch_areq_loop now now_real base_idx dst_and_count [] q = Some q"
| "sch_areq_loop now now_real base_idx dst_and_count (i # is) q = do {
     dst_id \<leftarrow> rd16 dst_and_count (4 * i);
     count_low \<leftarrow> rd16 dst_and_count (4 * i + 2);
     (go, q) \<leftarrow> sch_areq_one now now_real base_idx dst_id count_low q;
     if go then sch_areq_loop now now_real base_idx dst_and_count is q else Some q }"

definition sch_handle_areq :: "u64 \<Rightarrow> u64 \<Rightarrow> u32 \<Rightarrow> u8 list \<Rightarrow> nat \<Rightarrow> fp_sched_data \<Rightarrow> fp_sched_data option" where
  "sch_handle_areq now now_real base_idx dst_and_count n q =
     sch_areq_loop now now_real base_idx dst_and_count [0..<n] (trigger_tx now q)"

definition sch_pd_areq :: "fpproto_pktdesc \<Rightarrow> nat \<Rightarrow> (u16 \<times> u64) option" where
  "sch_pd_areq pd i =
     (if i < length (pd_areq pd) \<and> unat (ucast (src_dst_key (pd_areq pd ! i)) :: u32) < MAX_NODES
      then Some (ucast (src_dst_key (pd_areq pd ! i)), tslots (pd_areq pd ! i)) else None)"

definition sch_ack_one :: "u64 \<Rightarrow> u16 \<Rightarrow> u64 \<Rightarrow> fp_sched_data \<Rightarrow> fp_sched_data option" where
  "sch_ack_one now dst_id new_acked q = do {
     d \<leftarrow> get_dst q dst_id;
     if acked_tslots d < new_acked then do {
       let q = q\<lparr> sch_bug := sch_bug q \<or> new_acked > demand_tslots d \<rparr>;
       let q = q\<lparr> q_acked_tslots := q_acked_tslots q + (new_acked - acked_tslots d) \<rparr>;
       let q = upd_dst dst_id (\<lambda>d. d\<lparr> acked_tslots := new_acked \<rparr>) q;
       Some (if requested_tslots d \<noteq> demand_tslots d
             then unreq_dsts_enqueue_if_not_queued now dst_id q else q) }
     else Some q }"

definition sch_handle_ack :: "u64 \<Rightarrow> fpproto_pktdesc \<Rightarrow> fp_sched_data \<Rightarrow> fp_sched_data option" where
  "sch_handle_ack now pd q =
     foldo (\<lambda>i q. do { (dst_id, ts) \<leftarrow> sch_pd_areq pd i; sch_ack_one now dst_id ts q }) [0..<unat (pd_n_areq pd)] q"

definition sch_handle_neg_ack :: "u64 \<Rightarrow> fpproto_pktdesc \<Rightarrow> fp_sched_data \<Rightarrow> fp_sched_data option" where
  "sch_handle_neg_ack now pd q =
     foldo (\<lambda>i q. do {
       (dst_id, req_tslots) \<leftarrow> sch_pd_areq pd i;
       d \<leftarrow> get_dst q dst_id;
       Some (if req_tslots \<le> acked_tslots d then q else unreq_dsts_enqueue_if_not_queued now dst_id q) })
     [0..<unat (pd_n_areq pd)] q"

subsection \<open>Definitions: the protocol operations with their callbacks\<close>

definition sch_event :: "u64 \<Rightarrow> u64 \<Rightarrow> u32 \<Rightarrow> out_event \<Rightarrow> fp_sched_data \<Rightarrow> fp_sched_data option" where
  "sch_event now now_real base_idx e q =
     (case e of
        Set_timer when \<Rightarrow> Some (q\<lparr> retrans_timer := Some when \<rparr>)
      | Cancel_timer \<Rightarrow> Some (q\<lparr> retrans_timer := None \<rparr>)
      | Handle_ack pd \<Rightarrow> sch_handle_ack now pd q
      | Handle_neg_ack pd \<Rightarrow> sch_handle_neg_ack now pd q
      | Handle_reset \<Rightarrow> Some (sch_handle_reset now base_idx q)
      | Trigger_request \<Rightarrow> Some (trigger_tx now q)
      | Handle_alloc base dst_ids descs \<Rightarrow> sch_handle_alloc now now_real base dst_ids descs q
      | Handle_areq dst_and_count n \<Rightarrow> sch_handle_areq now now_real base_idx dst_and_count n q
      | Pktdesc_free pd \<Rightarrow> Some q
      | Bug \<Rightarrow> Some (q\<lparr> sch_bug := True \<rparr>)
      | Null_deref \<Rightarrow> None
      | Oob_read \<Rightarrow> None
      | Diverged \<Rightarrow> None)"

definition sch_run :: "u64 \<Rightarrow> u64 \<Rightarrow> u32 \<Rightarrow> (proto \<Rightarrow> 'r \<times> proto) \<Rightarrow> fp_sched_data \<Rightarrow> ('r \<times> fp_sched_data) option" where
  "sch_run now now_real base_idx f q =
     (let (r, s) = f ((sch_conn q)\<lparr> trace := [] \<rparr>)
      in map_option (Pair r) (foldo (sch_event now now_real base_idx) (trace s) (q\<lparr> sch_conn := s \<rparr>)))"

definition sch_do :: "u64 \<Rightarrow> u64 \<Rightarrow> u32 \<Rightarrow> (proto \<Rightarrow> proto) \<Rightarrow> fp_sched_data \<Rightarrow> fp_sched_data option" where
  "sch_do now now_real base_idx f q = map_option snd (sch_run now now_real base_idx (\<lambda>s. ((), f s)) q)"

definition ctrl_rcv_handler :: "u64 \<Rightarrow> u64 \<Rightarrow> u32 \<Rightarrow> nat \<Rightarrow> u8 list \<Rightarrow> fp_sched_data \<Rightarrow> fp_sched_data option" where
  "ctrl_rcv_handler now now_real base_idx addr pkt q =
     (if is_destroyed q then Some q
      else do {
        ((ret, in_seq, pkt), q) \<leftarrow> sch_run now now_real base_idx
          (\<lambda>s. case fpproto_handle_rx_packet True addr now_real now_real pkt s of
                 (ret, in_seq, pkt, s) \<Rightarrow> ((ret, in_seq, pkt), s)) q;
        if \<not> ret then Some q
        else do {
          (ret, q) \<leftarrow> sch_run now now_real base_idx (fpproto_perform_rx_callbacks pkt) q;
          if \<not> ret then Some q
          else do {
            seqno \<leftarrow> in_seq;
            sch_do now now_real base_idx (fpproto_successful_rx seqno) q } } })"

definition retrans_tasklet_func :: "u64 \<Rightarrow> u64 \<Rightarrow> u32 \<Rightarrow> fp_sched_data \<Rightarrow> fp_sched_data option" where
  "retrans_tasklet_func now now_real base_idx q =
     (if is_destroyed q then Some q else sch_do now now_real base_idx (fpproto_handle_timeout now) q)"

subsection \<open>Definitions: requests\<close>

text \<open>
  The loop that fills the descriptor. A queued destination whose demand is acknowledged already
  is dropped without using up an entry, so the number of rounds is bounded by the length of the
  queue: the difference of its two counters.
\<close>

definition request_one :: "u16 \<Rightarrow> fpproto_pktdesc \<times> fp_sched_data \<Rightarrow> fpproto_pktdesc \<times> fp_sched_data" where
  "request_one dst_id = (\<lambda>(pd, q).
     let d = dsts q (unat dst_id);
         new_requested = min (demand_tslots d) (acked_tslots d + FASTPASS_REQUEST_WINDOW_SIZE - 1)
     in if new_requested \<le> acked_tslots d then (pd, sch_stat_inc queued_flow_already_acked_update q)
        else
          let q = q\<lparr> q_requested_tslots := q_requested_tslots q + (new_requested - requested_tslots d) \<rparr>;
              q = upd_dst dst_id (\<lambda>d. d\<lparr> requested_tslots := new_requested \<rparr>) q;
              pd = pd\<lparr> pd_areq := (pd_areq pd)
                         [unat (pd_n_areq pd) := \<lparr> src_dst_key = ucast dst_id, tslots = new_requested \<rparr>],
                       pd_n_areq := pd_n_areq pd + 1 \<rparr>
          in (pd, q))"

lemma dequeue_Some:
  assumes "unreq_dsts_dequeue_and_get q = Some (Some d, q')"
  shows "unreq_dsts_head q \<noteq> unreq_dsts_tail q \<and> unreq_dsts_head q' = unreq_dsts_head q + 1
    \<and> unreq_dsts_tail q' = unreq_dsts_tail q"
  using assms by (auto simp: unreq_dsts_dequeue_and_get_def get_dst_def upd_dst_def Let_def split: if_splits)

lemma request_one_queue:
  "unreq_dsts_head (snd (request_one d (pd, q))) = unreq_dsts_head q"
  "unreq_dsts_tail (snd (request_one d (pd, q))) = unreq_dsts_tail q"
  by (simp_all add: request_one_def upd_dst_def sch_stat_inc_def Let_def)

lemma request_one_shrinks:
  assumes "unreq_dsts_dequeue_and_get q = Some (Some dst_id, q')"
  shows "unat (n_unreq_dsts (snd (request_one dst_id (pd, q')))) < unat (n_unreq_dsts q)"
proof -
  note d = dequeue_Some [OF assms]
  then have "unat (unreq_dsts_tail q - unreq_dsts_head q - 1) = unat (unreq_dsts_tail q - unreq_dsts_head q) - 1"
    by (intro unat_minus_one) auto
  moreover have "unreq_dsts_tail q - (unreq_dsts_head q + 1) = unreq_dsts_tail q - unreq_dsts_head q - 1"
    by (simp only: diff_diff_eq)
  moreover have "0 < unat (unreq_dsts_tail q - unreq_dsts_head q)"
    using d by (auto simp: unat_gt_0)
  ultimately have "unat (unreq_dsts_tail q - (unreq_dsts_head q + 1)) < unat (unreq_dsts_tail q - unreq_dsts_head q)"
    by (simp only: diff_less zero_less_one)
  then show ?thesis
    using d by (simp add: n_unreq_dsts_def request_one_queue)
qed

function request_loop :: "fpproto_pktdesc \<times> fp_sched_data \<Rightarrow> (fpproto_pktdesc \<times> fp_sched_data) option" where
  "request_loop (pd, q) =
     (if unat (pd_n_areq pd) < SCH_MAX_AREQ
      then case unreq_dsts_dequeue_and_get q of
             None \<Rightarrow> None
           | Some (None, q) \<Rightarrow> Some (pd, q)
           | Some (Some dst_id, q) \<Rightarrow> request_loop (request_one dst_id (pd, q))
      else Some (pd, q))"
  by pat_completeness auto
termination
  by (relation "measure (\<lambda>s. unat (n_unreq_dsts (snd s)))") (auto dest: request_one_shrinks)

declare request_loop.simps [simp del]

text \<open>
  \<^verbatim>\<open>mem\<close> is the descriptor the allocation returns. The connection cannot be destroyed between the
  two places where \<^verbatim>\<open>is_destroyed\<close> is tested within one step.
\<close>

definition send_request :: "u64 \<Rightarrow> u64 \<Rightarrow> u32 \<Rightarrow> fpproto_pktdesc option \<Rightarrow> fp_sched_data \<Rightarrow> fp_sched_data option" where
  "send_request now now_real base_idx mem q =
     (case mem of
        None \<Rightarrow> Some (trigger_tx now (sch_stat_inc req_alloc_errors_update q))
      | Some pd \<Rightarrow>
          if is_destroyed q then Some q
          else do {
            q \<leftarrow> sch_do now now_real base_idx fpproto_prepare_to_send q;
            (pd, q) \<leftarrow> request_loop (pd\<lparr> pd_n_areq := 0 \<rparr>, q);
            let q = (if pd_n_areq pd = 0 then sch_stat_inc request_with_empty_flowqueue_update q else q);
            let committed = commit_fields (sch_conn q) now pd;
            q \<leftarrow> sch_do now now_real base_idx (fpproto_commit_packet pd now) q;
            let q = q\<lparr> sch_sent := sch_sent q @ [committed] \<rparr>;
            Some (if q_alloc_tslots q \<noteq> q_demand_tslots q then trigger_tx now q else q) })"

definition maintenance_tasklet_func :: "u64 \<Rightarrow> u64 \<Rightarrow> u32 \<Rightarrow> fpproto_pktdesc option \<Rightarrow> fp_sched_data \<Rightarrow> fp_sched_data option" where
  "maintenance_tasklet_func now now_real base_idx mem q =
     (if pacer_is_triggered (request_pacer q) \<and> time_after_eq64 now (pacer_next_event (request_pacer q))
      then send_request now now_real base_idx mem (q\<lparr> request_pacer := pacer_reset (request_pacer q) \<rparr>)
      else Some q)"

subsection \<open>Definitions: creation and destruction\<close>

definition sch_proto_ops :: fpproto_ops where
  "sch_proto_ops = \<lparr> has_handle_reset = True, has_handle_ack = True, has_handle_neg_ack = True,
     has_trigger_request = True, has_handle_alloc = True, has_handle_areq = True \<rparr>"

text \<open>
  The memory of the qdisc is zeroed by the kernel. \<^verbatim>\<open>proc_ok\<close> and \<^verbatim>\<open>sock_ok\<close> tell whether the proc entry
  and the control socket could be created; the result is true when the qdisc is up.
\<close>

definition fpq_new_qdisc :: "u64 \<Rightarrow> u64 \<Rightarrow> u32 \<Rightarrow> u32 \<Rightarrow> u32 \<Rightarrow> u32 \<Rightarrow> u32 \<Rightarrow> u64 \<Rightarrow> u64 \<Rightarrow> bool \<Rightarrow> bool
    \<Rightarrow> fp_sched_data \<Rightarrow> bool \<times> fp_sched_data" where
  "fpq_new_qdisc now_real now mul shift req_cost req_bucketlen req_min_gap reset_window retrans_timeout proc_ok sock_ok q =
     (let q = q\<lparr> unreq_dsts_head := 0, unreq_dsts_tail := 0, tslot_mul := mul, tslot_shift := shift \<rparr>;
          q = q\<lparr> sch_timeslot := timeslot_at now_real q \<rparr>;
          q = q\<lparr> alloc_wnd := wnd_reset (alloc_wnd q) (sch_timeslot q),
                 request_pacer := pacer_init_full now req_cost req_bucketlen req_min_gap \<rparr>
      in if \<not> proc_ok then (False, q)
         else
           let q = q\<lparr> is_destroyed := False,
                      sch_conn := fpproto_init_conn True now_real sch_proto_ops reset_window retrans_timeout (sch_conn q) \<rparr>
           in if \<not> sock_ok then (False, q\<lparr> sch_conn := fpproto_destroy_conn (sch_conn q) \<rparr>) else (True, q))"

definition fpq_stop_qdisc :: "fp_sched_data \<Rightarrow> fp_sched_data" where
  "fpq_stop_qdisc q = q\<lparr> is_destroyed := True, sch_conn := fpproto_destroy_conn (sch_conn q), retrans_timer := None \<rparr>"

end
