(* ===== verification/FP_Circ.thy ===== *)
theory FP_Circ
  imports FP_Loops
begin

text \<open>
  Circular arrays of node numbers with free-running 32-bit counters, as the report queue of the
  arbiter and the request queue of the end node use them: a node is entered only when a flag of
  its own says that it is not in the queue yet. Nothing here models code of the repository.
\<close>

definition circ_list :: "nat \<Rightarrow> (nat \<Rightarrow> u16) \<Rightarrow> u32 \<Rightarrow> u32 \<Rightarrow> u16 list" where
  "circ_list m arr h t = map (\<lambda>i. arr ((unat h + i) mod m)) [0..<unat (t - h)]"

text \<open>The queue holds every flagged node exactly once, and no other.\<close>

definition flagged :: "nat \<Rightarrow> (nat \<Rightarrow> u16) \<Rightarrow> u32 \<Rightarrow> u32 \<Rightarrow> (nat \<Rightarrow> bool) \<Rightarrow> bool" where
  "flagged m arr h t flag \<longleftrightarrow> unat (t - h) \<le> m \<and> distinct (circ_list m arr h t)
     \<and> (\<forall>d \<in> set (circ_list m arr h t). unat d < 256)
     \<and> (\<forall>d. unat d < 256 \<longrightarrow> flag (unat d) = (d \<in> set (circ_list m arr h t)))"

lemma circ_list_empty [simp]: "circ_list m arr h h = []"
  by (simp add: circ_list_def)

lemma length_circ_list: "length (circ_list m arr h t) = unat (t - h)"
  by (simp add: circ_list_def)

lemma unat_diff_wrap: "(unat h + unat ((t :: u32) - h)) mod 4294967296 = unat t"
proof -
  have "unat (h + (t - h)) = (unat h + unat (t - h)) mod 4294967296"
    by (simp only: unat_word_ariths) simp
  then show ?thesis
    by simp
qed

lemma circ_slot_tail:
  assumes "m dvd 4294967296"
  shows "(unat h + unat ((t :: u32) - h)) mod m = unat t mod m"
  using mod_mod_cancel [OF assms, of "unat h + unat (t - h)"] by (simp add: unat_diff_wrap)

lemma circ_push:
  assumes m: "m dvd 4294967296" and room: "unat (t - h) < m" and m32: "m < 4294967296"
  shows "circ_list m (arr(unat t mod m := x)) h (t + 1) = circ_list m arr h t @ [x]"
proof -
  let ?n = "unat (t - h)"
  have "unat (t + 1 - h) = unat ((t - h) + 1)"
    by (simp add: algebra_simps)
  also have "\<dots> = Suc ?n"
    using room m32 by (simp add: unat_word_ariths)
  finally have n: "unat (t + 1 - h) = Suc ?n" .
  have "(unat h + i) mod m \<noteq> unat t mod m" if "i < ?n" for i
  proof
    assume "(unat h + i) mod m = unat t mod m"
    then have "(unat h + i) mod m = (unat h + ?n) mod m"
      by (simp only: circ_slot_tail [OF m])
    then have "m dvd ?n - i"
      using that mod_eq_dvd_iff_nat [of "unat h + i" "unat h + ?n" m] by simp
    then show False
      using that room by (auto dest: dvd_imp_le)
  qed
  then show ?thesis
    by (auto simp: circ_list_def n circ_slot_tail [OF m] intro!: map_cong)
qed

lemma circ_pop:
  assumes "m dvd 4294967296" "h \<noteq> t"
  shows "circ_list m arr h t = arr (unat h mod m) # circ_list m arr (h + 1) t"
proof -
  have "unat (t - h - 1) = unat (t - h) - 1"
    using assms(2) by (intro unat_minus_one) auto
  moreover have "t - (h + 1) = t - h - 1"
    by (simp only: diff_diff_eq)
  ultimately have n: "unat (t - (h + 1)) = unat (t - h) - 1"
    by (simp only:)
  have pos: "0 < unat (t - h)"
    using assms(2) by (auto simp: unat_gt_0)
  have step: "(unat h + Suc i) mod m = (unat (h + 1) + i) mod m" for i
  proof -
    have "(unat (h + 1) + i) mod m = ((unat h + 1) mod 4294967296 + i) mod m"
      by (simp add: unat_word_ariths)
    also have "\<dots> = ((unat h + 1) mod 4294967296 mod m + i) mod m"
      by (simp add: mod_add_left_eq)
    also have "\<dots> = ((unat h + 1) mod m + i) mod m"
      by (simp only: mod_mod_cancel [OF assms(1)])
    finally show ?thesis
      by (simp add: mod_add_left_eq)
  qed
  have "[0..<unat (t - h)] = 0 # map Suc [0..<unat (t - h) - 1]"
    using pos by (metis Suc_diff_1 map_Suc_upt upt_conv_Cons)
  then show ?thesis
    using step by (simp add: circ_list_def n comp_def)
qed

lemma nodes_lt_256:
  assumes "distinct ds" "\<forall>d \<in> set ds. unat (d :: u16) < 256" "unat x < 256" "x \<notin> set ds"
  shows "length ds < 256"
proof -
  have "card (unat ` set (x # ds)) \<le> card {..<256 :: nat}"
    using assms by (intro card_mono) auto
  moreover have "card (unat ` set (x # ds)) = length (x # ds)"
    using assms by (subst card_image) (auto simp: inj_on_def word_unat_eq_iff distinct_card)
  ultimately show ?thesis
    by simp
qed

lemma flagged_push:
  assumes f: "flagged m arr h t flag" and m: "m dvd 4294967296" "m < 4294967296" "256 \<le> m"
    and x: "unat x < 256" "\<not> flag (unat x)"
  shows "flagged m (arr(unat t mod m := x)) h (t + 1) (flag(unat x := True))"
    and "circ_list m (arr(unat t mod m := x)) h (t + 1) = circ_list m arr h t @ [x]"
proof -
  have new: "x \<notin> set (circ_list m arr h t)"
    using f x by (simp add: flagged_def)
  then have room: "unat (t - h) < m"
    using nodes_lt_256 [OF _ _ x(1) new] f m(3) by (simp add: flagged_def length_circ_list)
  note p = circ_push [OF m(1) room m(2), of arr x]
  show "circ_list m (arr(unat t mod m := x)) h (t + 1) = circ_list m arr h t @ [x]"
    by (rule p)
  have "unat (t + 1 - h) = Suc (unat (t - h))"
    using p length_circ_list [of m "arr(unat t mod m := x)" h "t + 1"] by (simp add: length_circ_list)
  then show "flagged m (arr(unat t mod m := x)) h (t + 1) (flag(unat x := True))"
    using f x new room unfolding flagged_def p by (auto simp: word_unat_eq_iff)
qed

lemma flagged_pop:
  assumes f: "flagged m arr h t flag" and m: "m dvd 4294967296" and ne: "h \<noteq> t"
  defines "x \<equiv> arr (unat h mod m)"
  shows "unat x < 256" and "flag (unat x)" and "circ_list m arr h t = x # circ_list m arr (h + 1) t"
    and "flagged m arr (h + 1) t (flag(unat x := False))"
proof -
  show p: "circ_list m arr h t = x # circ_list m arr (h + 1) t"
    unfolding x_def by (rule circ_pop [OF m ne])
  show x: "unat x < 256" and "flag (unat x)"
    using f by (auto simp: flagged_def p)
  have "unat (t - (h + 1)) \<le> m"
    using f p length_circ_list [of m arr "h + 1" t] length_circ_list [of m arr h t] by (simp add: flagged_def)
  then show "flagged m arr (h + 1) t (flag(unat x := False))"
    using f unfolding flagged_def p by (auto simp: word_unat_eq_iff [symmetric])
qed

lemma flagged_empty: "flagged m arr h h (\<lambda>_. False)"
  by (simp add: flagged_def)

lemma flagged_cong: "(\<And>i. i < 256 \<Longrightarrow> flag i = flag' i) \<Longrightarrow> flagged m arr h t flag = flagged m arr h t flag'"
  by (simp add: flagged_def)

end
