(* ===== verification/FP_Client_Inv.thy ===== *)
theory FP_Client_Inv
  imports FP_Client FP_Circ FP_Run
begin

text \<open>
  The end node: the request queue holds every flow that is flagged as queued exactly once, and the
  timeslots of a flow are conserved: what the queueing discipline asked for is either still open
  or was admitted, whatever packets are received, lost, acknowledged or reported, and whatever
  resets happen.
\<close>

subsection \<open>The queue and the open timeslots\<close>

abbreviation queued :: "fp_sched_data \<Rightarrow> nat \<Rightarrow> bool" where
  "queued q i \<equiv> flow_state (dsts q i) = FLOW_REQUEST_QUEUE"

definition queue_ok :: "fp_sched_data \<Rightarrow> bool" where
  "queue_ok q \<longleftrightarrow> flagged 256 (unreq_flows q) (unreq_dsts_head q) (unreq_dsts_tail q) (queued q)"

definition unreq_list :: "fp_sched_data \<Rightarrow> u16 list" where
  "unreq_list q = circ_list 256 (unreq_flows q) (unreq_dsts_head q) (unreq_dsts_tail q)"

definition open_tslots :: "fp_sched_data \<Rightarrow> u16 \<Rightarrow> u64" where
  "open_tslots q d = demand_tslots (dsts q (unat d)) - used_tslots (dsts q (unat d))"

definition pays :: "fp_sched_data \<Rightarrow> fp_sched_data \<Rightarrow> bool" where
  "pays q q' \<longleftrightarrow> (queue_ok q \<longrightarrow> queue_ok q')
     \<and> (\<exists>ds. sch_admitted q' = sch_admitted q @ ds
          \<and> (\<forall>d. unat (open_tslots q' d) + count_list ds d = unat (open_tslots q d)))"

lemma pays_refl [simp]: "pays q q"
  by (simp add: pays_def)

lemma pays_trans [trans]:
  assumes "pays q1 q2" "pays q2 q3"
  shows "pays q1 q3"
proof -
  obtain ds where ds: "sch_admitted q2 = sch_admitted q1 @ ds"
      "\<forall>d. unat (open_tslots q2 d) + count_list ds d = unat (open_tslots q1 d)"
    using assms(1) by (auto simp: pays_def)
  obtain es where es: "sch_admitted q3 = sch_admitted q2 @ es"
      "\<forall>d. unat (open_tslots q3 d) + count_list es d = unat (open_tslots q2 d)"
    using assms(2) by (auto simp: pays_def)
  have "unat (open_tslots q3 d) + count_list (ds @ es) d = unat (open_tslots q1 d)" for d
    using ds(2) es(2) by (metis (no_types, lifting) add.assoc add.commute count_list_append)
  then show ?thesis
    using assms ds(1) es(1) by (auto simp: pays_def)
qed

lemma pays_frame:
  assumes "dsts q' = dsts q" "unreq_flows q' = unreq_flows q" "unreq_dsts_head q' = unreq_dsts_head q"
    and "unreq_dsts_tail q' = unreq_dsts_tail q" "sch_admitted q' = sch_admitted q"
  shows "pays q q'"
  using assms by (simp add: pays_def queue_ok_def open_tslots_def)

lemma pays_upd:
  assumes "\<And>d. flow_state (f d) = flow_state d" "\<And>d. demand_tslots (f d) - used_tslots (f d) = demand_tslots d - used_tslots d"
  shows "pays q (upd_dst dst_id f q)"
proof -
  have "queued (upd_dst dst_id f q) i = queued q i" for i
    by (simp add: upd_dst_def assms(1))
  then have "queue_ok q \<longrightarrow> queue_ok (upd_dst dst_id f q)"
    unfolding queue_ok_def using flagged_cong [of "queued q" "queued (upd_dst dst_id f q)"] by (simp add: upd_dst_def)
  moreover have "open_tslots (upd_dst dst_id f q) d = open_tslots q d" for d
    by (simp add: open_tslots_def upd_dst_def assms(2))
  ultimately show ?thesis
    by (simp add: pays_def upd_dst_def)
qed

lemma foldo_pays:
  assumes "\<And>x s s'. f x s = Some s' \<Longrightarrow> pays s s'" and "foldo f xs s = Some s'"
  shows "pays s s'"
  using assms(2)
proof (induction xs arbitrary: s)
  case (Cons x xs)
  then obtain t where "f x s = Some t" "foldo f xs t = Some s'"
    by (auto simp: bind_eq_Some_conv)
  then show ?case
    using Cons.IH assms(1) pays_trans by blast
qed simp

lemma mod_256: "unat ((x :: u32) mod of_nat MAX_NODES) = unat x mod 256"
  by (simp add: MAX_NODES_def unat_mod)

subsection \<open>The operations on the queue\<close>

lemma trigger_tx_pays [simp]: "pays q (trigger_tx now q)"
  by (rule pays_frame) (simp_all add: trigger_tx_def)

lemma stat_inc_pays [simp]: "pays q (sch_stat_inc upd q)"
  by (rule pays_frame) (simp_all add: sch_stat_inc_def)

lemma enqueue_new:
  assumes "queue_ok q" "unat d < 256" "\<not> queued q (unat d)"
  shows "queue_ok (unreq_dsts_enqueue_if_not_queued now d q)"
    and "unreq_list (unreq_dsts_enqueue_if_not_queued now d q) = unreq_list q @ [d]"
proof -
  define q' where "q' = unreq_dsts_enqueue_if_not_queued now d q"
  have st: "flow_state (dsts q (unat d)) = FLOW_UNQUEUED"
    using assms(3) by (cases "flow_state (dsts q (unat d))") simp_all
  have arr: "unreq_flows q' = (unreq_flows q)(unat (unreq_dsts_tail q) mod 256 := d)"
      "unreq_dsts_head q' = unreq_dsts_head q" "unreq_dsts_tail q' = unreq_dsts_tail q + 1"
      "queued q' = (queued q)(unat d := True)"
    using st by (auto simp: q'_def unreq_dsts_enqueue_if_not_queued_def trigger_tx_def upd_dst_def mod_256 fun_eq_iff)
  note p = flagged_push [OF assms(1) [unfolded queue_ok_def] _ _ _ assms(2,3)]
  show "queue_ok (unreq_dsts_enqueue_if_not_queued now d q)"
    using p(1) unfolding q'_def [symmetric] queue_ok_def arr by simp
  show "unreq_list (unreq_dsts_enqueue_if_not_queued now d q) = unreq_list q @ [d]"
    using p(2) unfolding q'_def [symmetric] unreq_list_def arr by simp
qed

lemma enqueue_old: "queued q (unat d) \<Longrightarrow> unreq_dsts_enqueue_if_not_queued now d q = q"
  by (simp add: unreq_dsts_enqueue_if_not_queued_def)

lemma enqueue_dsts:
  "dsts (unreq_dsts_enqueue_if_not_queued now d q) = (dsts q)(unat d := (dsts q (unat d))\<lparr> flow_state := FLOW_REQUEST_QUEUE \<rparr>)"
  by (cases "flow_state (dsts q (unat d))")
    (auto simp: unreq_dsts_enqueue_if_not_queued_def trigger_tx_def upd_dst_def fun_eq_iff)

lemma enqueue_admitted [simp]: "sch_admitted (unreq_dsts_enqueue_if_not_queued now d q) = sch_admitted q"
  by (simp add: unreq_dsts_enqueue_if_not_queued_def trigger_tx_def upd_dst_def Let_def)

lemma enqueue_pays:
  assumes "unat d < 256"
  shows "pays q (unreq_dsts_enqueue_if_not_queued now d q)"
proof -
  have "open_tslots (unreq_dsts_enqueue_if_not_queued now d q) x = open_tslots q x" for x
    by (simp add: open_tslots_def enqueue_dsts)
  then show ?thesis
    using enqueue_new(1) [OF _ assms] enqueue_old [of q d now] by (cases "queued q (unat d)") (simp_all add: pays_def)
qed

lemma dequeue_ok:
  assumes "unreq_dsts_dequeue_and_get q = Some (Some d, q')"
  shows "pays q q'" and "unat d < 256"
proof -
  have ne: "unreq_dsts_head q \<noteq> unreq_dsts_tail q" and d: "d = unreq_flows q (unat (unreq_dsts_head q) mod 256)"
    and q': "q' = upd_dst d (\<lambda>d. d\<lparr> flow_state := FLOW_UNQUEUED \<rparr>) (q\<lparr> unreq_dsts_head := unreq_dsts_head q + 1 \<rparr>)"
    and lt: "unat d < 256"
    using assms by (auto simp: unreq_dsts_dequeue_and_get_def get_dst_def Let_def MAX_NODES_def unat_mod bind_eq_Some_conv
        split: if_splits)
  show "unat d < 256"
    by (rule lt)
  have "queue_ok q'" if "queue_ok q"
  proof -
    note p = flagged_pop(4) [OF that [unfolded queue_ok_def] _ ne]
    moreover have "queued q' = (queued q)(unat d := False)"
      by (auto simp: q' upd_dst_def fun_eq_iff)
    ultimately show ?thesis
      unfolding queue_ok_def by (simp add: q' upd_dst_def d [symmetric])
  qed
  moreover have "open_tslots q' x = open_tslots q x" for x
    by (simp add: q' open_tslots_def upd_dst_def)
  ultimately show "pays q q'"
    by (simp add: pays_def q' upd_dst_def)
qed

lemma dequeue_None: "unreq_dsts_dequeue_and_get q = Some (None, q') \<Longrightarrow> q' = q"
  by (auto simp: unreq_dsts_dequeue_and_get_def get_dst_def Let_def split: if_splits)

subsection \<open>The callbacks\<close>

named_theorems pays_intro \<open>operations of the end node that conserve timeslots\<close>

lemma get_dst_Some: "get_dst q i = Some d \<Longrightarrow> unat i < 256 \<and> d = dsts q (unat i)"
  by (simp add: get_dst_def MAX_NODES_def split: if_splits)

lemma reset_dst_pays:
  assumes "unat d < 256"
  shows "pays q (reset_dst now d q)"
proof (cases "demand_tslots (dsts q (unat d)) = used_tslots (dsts q (unat d))")
  case False
  define q1 where "q1 = upd_dst d (\<lambda>d. d\<lparr> demand_tslots := demand_tslots d - used_tslots d,
    alloc_tslots := 0, acked_tslots := 0, requested_tslots := 0, used_tslots := 0 \<rparr>) q"
  define q2 where "q2 = q1\<lparr> q_demand_tslots := q_demand_tslots q1 + ucast (demand_tslots (dsts q1 (unat d))) \<rparr>"
  have "pays q q1"
    unfolding q1_def by (rule pays_upd) simp_all
  also have "pays q1 q2"
    by (rule pays_frame) (simp_all add: q2_def)
  also have "pays q2 (reset_dst now d q)"
    using False enqueue_pays [OF assms, of q2 now] by (simp add: reset_dst_def Let_def q1_def q2_def)
  finally show ?thesis .
qed (simp add: reset_dst_def)

lemma and_mask_node: "unat (ucast ((x :: u32) AND of_nat (MAX_NODES - 1)) :: u16) < 256"
proof -
  have "unat (x AND 255) < 256"
    by (simp add: unat_and_255)
  then show ?thesis
    by (simp add: MAX_NODES_def unsigned_ucast_eq take_bit_eq_mod)
qed

lemma fold_pays:
  assumes "\<And>x s. pays s (f x s)"
  shows "pays s (fold f xs s)"
proof (induction xs arbitrary: s)
  case (Cons x xs)
  then show ?case
    using assms pays_trans by (metis fold_simps(2))
qed simp

lemma handle_reset_pays [pays_intro]: "pays q (sch_handle_reset now base_idx q)"
proof -
  have "pays q (q\<lparr> alloc_wnd := wnd_reset (alloc_wnd q) (sch_timeslot q),
           q_demand_tslots := 0, q_requested_tslots := 0, q_alloc_tslots := 0, q_acked_tslots := 0,
           q_used_tslots := 0 \<rparr>)" (is "pays q ?q0")
    by (rule pays_frame) simp_all
  also have "pays ?q0 (sch_handle_reset now base_idx q)"
    unfolding sch_handle_reset_def by (intro fold_pays reset_dst_pays and_mask_node)
  finally show ?thesis .
qed

lemma count_late_frame [simp]:
  "dsts (count_late cur t q) = dsts q" "unreq_flows (count_late cur t q) = unreq_flows q"
  "unreq_dsts_head (count_late cur t q) = unreq_dsts_head q" "unreq_dsts_tail (count_late cur t q) = unreq_dsts_tail q"
  "sch_admitted (count_late cur t q) = sch_admitted q"
  by (simp_all add: count_late_def sch_stat_inc_def Let_def)

lemma admit_tslot_pays:
  assumes "admit_tslot cur t d q = Some q'"
  shows "pays q q'"
proof (cases "q' = sch_stat_inc alloc_too_late_update q \<or> q' = sch_stat_inc alloc_premature_update q
    \<or> q' = sch_stat_inc unwanted_alloc_update q")
  case False
  then have ne: "open_tslots q d \<noteq> 0" and lt: "unat d < 256"
    and q': "q' = count_late cur t (sch_stat_inc admitted_timeslots_update
      ((upd_dst d (\<lambda>d. d\<lparr> alloc_tslots := alloc_tslots d + 1 \<rparr>) (flow_inc_used d 1 q))
         \<lparr> sch_admitted := sch_admitted q @ [d], q_alloc_tslots := q_alloc_tslots q + 1 \<rparr>))"
    using assms by (auto simp: admit_tslot_def open_tslots_def get_dst_def flow_inc_used_def upd_dst_def MAX_NODES_def
        bind_eq_Some_conv split: if_splits)
  have f: "dsts q' = (dsts q)(unat d := (dsts q (unat d))\<lparr> used_tslots := used_tslots (dsts q (unat d)) + 1,
      alloc_tslots := alloc_tslots (dsts q (unat d)) + 1 \<rparr>)"
    "unreq_flows q' = unreq_flows q" "unreq_dsts_head q' = unreq_dsts_head q" "unreq_dsts_tail q' = unreq_dsts_tail q"
    "sch_admitted q' = sch_admitted q @ [d]"
    by (simp_all add: q' sch_stat_inc_def flow_inc_used_def upd_dst_def)
  have "queued q' i = queued q i" for i
    by (simp add: f)
  then have "queue_ok q \<longrightarrow> queue_ok q'"
    unfolding queue_ok_def f(2-4) using flagged_cong [of "queued q" "queued q'"] by simp
  moreover have "unat (open_tslots q' x) + count_list [d] x = unat (open_tslots q x)" for x
  proof (cases "x = d")
    case True
    have "open_tslots q' d = open_tslots q d - 1"
      by (simp add: open_tslots_def f)
    then show ?thesis
      using ne unat_minus_one [OF ne] by (simp add: True unat_gt_0 Suc_diff_1)
  qed (simp add: open_tslots_def f word_unat_eq_iff)
  ultimately show ?thesis
    by (auto simp: pays_def f(5))
qed auto

lemma alloc_specs_pays: "alloc_specs cur dst_ids ss t q = Some q' \<Longrightarrow> pays q q'"
proof (induction ss arbitrary: t q)
  case (Cons sp ss)
  show ?case
  proof (cases "0 < unat (drop_bit 4 sp) \<and> unat (drop_bit 4 sp) \<le> length dst_ids")
    case True
    then obtain y t' where y: "admit_tslot cur t' (dst_ids ! (unat (drop_bit 4 sp) - 1)) q = Some y"
        "alloc_specs cur dst_ids ss t' y = Some q'"
      using Cons.prems by (auto simp: Let_def bind_eq_Some_conv)
    then show ?thesis
      using admit_tslot_pays Cons.IH pays_trans by blast
  next
    case False
    then show ?thesis
      using Cons by (auto simp: Let_def split: if_splits)
  qed
qed simp

lemma handle_alloc_pays [pays_intro]: "sch_handle_alloc now now_real base ids descs q = Some q' \<Longrightarrow> pays q q'"
  by (auto simp: sch_handle_alloc_def Let_def intro: pays_trans [OF trigger_tx_pays] dest: alloc_specs_pays)

lemma lost_pays:
  assumes "unat d < 256"
  shows "pays q (flow_inc_demand now d n (flow_inc_used d n q))"
proof -
  define q0 where "q0 = q\<lparr> q_used_tslots := q_used_tslots q + n \<rparr>"
  define q1 where "q1 = upd_dst d (\<lambda>d. d\<lparr> used_tslots := used_tslots d + n, demand_tslots := demand_tslots d + n \<rparr>) q0"
  define q2 where "q2 = unreq_dsts_enqueue_if_not_queued now d q1"
  have "pays q q0"
    by (rule pays_frame) (simp_all add: q0_def)
  also have "pays q0 q1"
    unfolding q1_def by (rule pays_upd) simp_all
  also have "pays q1 q2"
    unfolding q2_def by (rule enqueue_pays [OF assms])
  also have "pays q2 (flow_inc_demand now d n (flow_inc_used d n q))"
  proof -
    have "upd_dst d (\<lambda>d. d\<lparr> demand_tslots := demand_tslots d + n \<rparr>) (flow_inc_used d n q) = q1"
      by (simp add: flow_inc_used_def upd_dst_def q1_def q0_def)
    then show ?thesis
      by (intro pays_frame) (simp_all add: flow_inc_demand_def q2_def Let_def)
  qed
  finally show ?thesis .
qed

lemma areq_one_pays:
  assumes "sch_areq_one now now_real base_idx d c q = Some (go, q')"
  shows "pays q q'"
proof -
  have lt: "unat d < 256"
    using assms by (auto simp: sch_areq_one_def bind_eq_Some_conv dest: get_dst_Some)
  define n where "n = full_count (alloc_tslots (dsts q (unat d))) c - alloc_tslots (dsts q (unat d))"
  define q1 where "q1 = upd_dst d (\<lambda>d. d\<lparr> alloc_tslots := alloc_tslots d + n \<rparr>) q"
  define q2 where "q2 = flow_inc_demand now d n (flow_inc_used d n q1)"
  consider "q' = q"
    | "q' = sch_handle_reset now base_idx ((sch_stat_inc alloc_report_larger_than_requested_update q)
        \<lparr> sch_conn := fpproto_force_reset True now_real (sch_conn (sch_stat_inc alloc_report_larger_than_requested_update q)) \<rparr>)"
    | "q' = q2\<lparr> q_alloc_tslots := q_alloc_tslots q2 + ucast n,
        sch_stat := timeslots_assumed_lost_update (\<lambda>m. m + n) (sch_stat q2) \<rparr>"
    using assms by (auto simp: sch_areq_one_def get_dst_def q2_def q1_def n_def [symmetric] Let_def bind_eq_Some_conv
        split: if_splits)
  then show ?thesis
  proof cases
    case 2
    have "pays q ((sch_stat_inc alloc_report_larger_than_requested_update q)
        \<lparr> sch_conn := fpproto_force_reset True now_real (sch_conn (sch_stat_inc alloc_report_larger_than_requested_update q)) \<rparr>)"
      by (rule pays_frame) (simp_all add: sch_stat_inc_def)
    then show ?thesis
      unfolding 2 by (rule pays_trans [OF _ handle_reset_pays])
  next
    case 3
    have "pays q q1"
      unfolding q1_def by (rule pays_upd) simp_all
    also have "pays q1 q2"
      unfolding q2_def by (rule lost_pays [OF lt])
    also have "pays q2 q'"
      unfolding 3 by (rule pays_frame) simp_all
    finally show ?thesis .
  qed simp
qed

lemma areq_loop_pays: "sch_areq_loop now now_real base_idx bs is q = Some q' \<Longrightarrow> pays q q'"
proof (induction "is" arbitrary: q)
  case (Cons i "is")
  then show ?case
    by (auto simp: bind_eq_Some_conv split: if_splits dest: areq_one_pays pays_trans)
qed simp

lemma handle_areq_pays [pays_intro]: "sch_handle_areq now now_real base_idx bs n q = Some q' \<Longrightarrow> pays q q'"
  by (auto simp: sch_handle_areq_def intro: pays_trans [OF trigger_tx_pays] dest: areq_loop_pays)

lemma ack_one_pays:
  assumes "sch_ack_one now d ts q = Some q'"
  shows "pays q q'"
proof -
  have lt: "unat d < 256"
    using assms by (auto simp: sch_ack_one_def bind_eq_Some_conv dest: get_dst_Some)
  define q1 where "q1 = q\<lparr> sch_bug := sch_bug q \<or> ts > demand_tslots (dsts q (unat d)),
    q_acked_tslots := q_acked_tslots q + (ts - acked_tslots (dsts q (unat d))) \<rparr>"
  define q2 where "q2 = upd_dst d (\<lambda>d. d\<lparr> acked_tslots := ts \<rparr>) q1"
  have "pays q q1"
    by (rule pays_frame) (simp_all add: q1_def)
  also have "pays q1 q2"
    unfolding q2_def by (rule pays_upd) simp_all
  finally have "pays q q2" .
  moreover have "q' = q \<or> q' = q2 \<or> q' = unreq_dsts_enqueue_if_not_queued now d q2"
    using assms by (auto simp: sch_ack_one_def get_dst_def Let_def q1_def q2_def split: if_splits)
  ultimately show ?thesis
    using enqueue_pays [OF lt] pays_trans by auto
qed

lemma handle_ack_pays [pays_intro]: "sch_handle_ack now pd q = Some q' \<Longrightarrow> pays q q'"
  unfolding sch_handle_ack_def by (erule foldo_pays [rotated]) (auto simp: bind_eq_Some_conv dest: ack_one_pays)

lemma handle_neg_ack_pays [pays_intro]: "sch_handle_neg_ack now pd q = Some q' \<Longrightarrow> pays q q'"
  unfolding sch_handle_neg_ack_def
  by (erule foldo_pays [rotated]) (auto simp: bind_eq_Some_conv dest!: get_dst_Some intro: enqueue_pays split: if_splits)

lemma event_pays: "sch_event now now_real base_idx e q = Some q' \<Longrightarrow> pays q q'"
  by (auto simp: sch_event_def intro: pays_intro pays_frame split: out_event.splits)

lemma run_pays:
  assumes "sch_run now now_real base_idx f q = Some (r, q')"
  shows "pays q q'"
proof -
  obtain s where s: "foldo (sch_event now now_real base_idx) (trace s) (q\<lparr> sch_conn := s \<rparr>) = Some q'"
    using assms by (auto simp: sch_run_def Let_def split: prod.splits)
  have "pays q (q\<lparr> sch_conn := s \<rparr>)"
    by (rule pays_frame) simp_all
  then show ?thesis
    by (rule pays_trans) (rule foldo_pays [OF _ s], erule event_pays)
qed

lemma do_pays: "sch_do now now_real base_idx f q = Some q' \<Longrightarrow> pays q q'"
  by (auto simp: sch_do_def dest: run_pays)

subsection \<open>Requests and runs\<close>

lemma request_one_pays: "pays q (snd (request_one d (pd, q)))"
proof -
  define ts where "ts = min (demand_tslots (dsts q (unat d))) (acked_tslots (dsts q (unat d)) + FASTPASS_REQUEST_WINDOW_SIZE - 1)"
  define q1 where "q1 = q\<lparr> q_requested_tslots := q_requested_tslots q + (ts - requested_tslots (dsts q (unat d))) \<rparr>"
  have "pays q q1"
    by (rule pays_frame) (simp_all add: q1_def)
  also have "pays q1 (upd_dst d (\<lambda>d. d\<lparr> requested_tslots := ts \<rparr>) q1)"
    by (rule pays_upd) simp_all
  finally show ?thesis
    by (simp add: request_one_def Let_def ts_def [symmetric] q1_def)
qed

lemma request_loop_pays: "request_loop s = Some s' \<Longrightarrow> pays (snd s) (snd s')"
proof (induction s rule: request_loop.induct)
  case (1 pd q)
  show ?case
  proof (cases "unat (pd_n_areq pd) < SCH_MAX_AREQ")
    case True
    then obtain r q1 where r: "unreq_dsts_dequeue_and_get q = Some (r, q1)"
      using "1.prems" by (auto simp: request_loop.simps split: option.splits)
    show ?thesis
    proof (cases r)
      case None
      then show ?thesis
        using "1.prems" True r by (auto simp: request_loop.simps dest: dequeue_None)
    next
      case (Some d)
      then have "request_loop (request_one d (pd, q1)) = Some s'"
        using "1.prems" True r by (simp add: request_loop.simps)
      then have "pays (snd (request_one d (pd, q1))) (snd s')"
        using "1.IH" [OF True r refl Some] by simp
      then show ?thesis
        using dequeue_ok(1) [of q d q1] r Some request_one_pays [of q1 d pd] pays_trans by (metis snd_conv)
    qed
  next
    case False
    then show ?thesis
      using "1.prems" by (simp add: request_loop.simps split: if_splits)
  qed
qed

lemma send_request_pays:
  assumes "send_request now now_real base_idx mem q = Some q'"
  shows "pays q q'"
proof (cases "mem = None \<or> is_destroyed q")
  case True
  have "pays q (trigger_tx now (sch_stat_inc req_alloc_errors_update q))"
    by (rule pays_trans [OF stat_inc_pays trigger_tx_pays])
  then show ?thesis
    using assms True by (auto simp: send_request_def split: option.splits)
next
  case False
  then obtain pd0 where "mem = Some pd0" "\<not> is_destroyed q"
    by auto
  then have e: "send_request now now_real base_idx mem q = do {
      q \<leftarrow> sch_do now now_real base_idx fpproto_prepare_to_send q;
      (pd, q) \<leftarrow> request_loop (pd0\<lparr> pd_n_areq := 0 \<rparr>, q);
      let q = (if pd_n_areq pd = 0 then sch_stat_inc request_with_empty_flowqueue_update q else q);
      let committed = commit_fields (sch_conn q) now pd;
      q \<leftarrow> sch_do now now_real base_idx (fpproto_commit_packet pd now) q;
      let q = q\<lparr> sch_sent := sch_sent q @ [committed] \<rparr>;
      Some (if q_alloc_tslots q \<noteq> q_demand_tslots q then trigger_tx now q else q) }"
    by (simp add: send_request_def)
  obtain q1 where q1: "sch_do now now_real base_idx fpproto_prepare_to_send q = Some q1"
    using assms unfolding e by (cases "sch_do now now_real base_idx fpproto_prepare_to_send q") simp_all
  obtain pd q2 where q2: "request_loop (pd0\<lparr> pd_n_areq := 0 \<rparr>, q1) = Some (pd, q2)"
    using assms q1 unfolding e by (cases "request_loop (pd0\<lparr> pd_n_areq := 0 \<rparr>, q1)") auto
  define q2' where "q2' = (if pd_n_areq pd = 0 then sch_stat_inc request_with_empty_flowqueue_update q2 else q2)"
  obtain q3 where q3: "sch_do now now_real base_idx (fpproto_commit_packet pd now) q2' = Some q3"
    using assms q1 q2 unfolding e
    by (cases "sch_do now now_real base_idx (fpproto_commit_packet pd now) q2'") (simp_all add: q2'_def [symmetric])
  define q4 where "q4 = q3\<lparr> sch_sent := sch_sent q3 @ [commit_fields (sch_conn q2') now pd] \<rparr>"
  have "q' = (if q_alloc_tslots q4 \<noteq> q_demand_tslots q4 then trigger_tx now q4 else q4)"
    using assms q1 q2 q3 unfolding e q4_def q2'_def by (cases "pd_n_areq pd = 0") (auto simp: Let_def)
  then have q': "pays q4 q'"
    by simp
  have "pays q q1"
    using q1 by (rule do_pays)
  also have "pays q1 q2"
    using request_loop_pays [OF q2] by simp
  also have "pays q2 q2'"
    by (simp add: q2'_def)
  also have "pays q2' q3"
    using q3 by (rule do_pays)
  also have "pays q3 q4"
    by (rule pays_frame) (simp_all add: q4_def)
  also note q'
  finally show ?thesis .
qed

lemma maintenance_pays: "maintenance_tasklet_func now now_real base_idx mem q = Some q' \<Longrightarrow> pays q q'"
proof -
  have "pays q (q\<lparr> request_pacer := pacer_reset (request_pacer q) \<rparr>)"
    by (rule pays_frame) simp_all
  then show "maintenance_tasklet_func now now_real base_idx mem q = Some q' \<Longrightarrow> pays q q'"
    by (auto simp: maintenance_tasklet_func_def split: if_splits intro: pays_trans dest: send_request_pays)
qed

lemma retrans_pays: "retrans_tasklet_func now now_real base_idx q = Some q' \<Longrightarrow> pays q q'"
  by (auto simp: retrans_tasklet_func_def split: if_splits dest: do_pays)

lemma rcv_pays:
  assumes "ctrl_rcv_handler now now_real base_idx addr pkt q = Some q'"
  shows "pays q q'"
proof (cases "is_destroyed q")
  case False
  with assms obtain r s p q1 where q1: "sch_run now now_real base_idx
      (\<lambda>s. case fpproto_handle_rx_packet True addr now_real now_real pkt s of
             (ret, in_seq, pkt, s) \<Rightarrow> ((ret, in_seq, pkt), s)) q = Some ((r, s, p), q1)"
      "\<not> r \<Longrightarrow> q' = q1"
      "r \<Longrightarrow> \<exists>r2 q2. sch_run now now_real base_idx (fpproto_perform_rx_callbacks p) q1 = Some (r2, q2)
         \<and> (q' = q2 \<or> (\<exists>f. sch_do now now_real base_idx f q2 = Some q'))"
    by (auto simp: ctrl_rcv_handler_def bind_eq_Some_conv split: if_splits) blast+
  have "pays q q1"
    using q1(1) by (rule run_pays)
  moreover have "pays q1 q'"
  proof (cases r)
    case True
    from q1(3) [OF this] obtain r2 q2 where q2: "sch_run now now_real base_idx (fpproto_perform_rx_callbacks p) q1 = Some (r2, q2)"
        "q' = q2 \<or> (\<exists>f. sch_do now now_real base_idx f q2 = Some q')"
      by blast
    have "pays q2 q'"
      using q2(2) do_pays by auto
    then show ?thesis
      by (rule pays_trans [OF run_pays [OF q2(1)]])
  qed (use q1(2) in simp)
  ultimately show ?thesis
    by (rule pays_trans)
qed (use assms in \<open>simp add: ctrl_rcv_handler_def\<close>)

text \<open>
  The runs of an end node: the queueing discipline asks for a timeslot, a packet arrives from the
  arbiter, a tasklet runs, the qdisc is stopped. \<^verbatim>\<open>asked\<close> lists the destinations asked for.
\<close>

inductive sch_reach :: "fp_sched_data \<Rightarrow> u16 list \<Rightarrow> fp_sched_data \<Rightarrow> bool" for q0 where
  start: "sch_reach q0 [] q0"
| ask: "sch_reach q0 asked q \<Longrightarrow> fpq_add_timeslot now dst q = Some q' \<Longrightarrow> sch_reach q0 (asked @ [ucast dst]) q'"
| receive: "sch_reach q0 asked q \<Longrightarrow> ctrl_rcv_handler now now_real base_idx addr pkt q = Some q' \<Longrightarrow> sch_reach q0 asked q'"
| maintain: "sch_reach q0 asked q \<Longrightarrow> maintenance_tasklet_func now now_real base_idx mem q = Some q' \<Longrightarrow> sch_reach q0 asked q'"
| retransmit: "sch_reach q0 asked q \<Longrightarrow> retrans_tasklet_func now now_real base_idx q = Some q' \<Longrightarrow> sch_reach q0 asked q'"
| stopped: "sch_reach q0 asked q \<Longrightarrow> sch_reach q0 asked (fpq_stop_qdisc q)"

definition fresh_sched :: "fp_sched_data \<Rightarrow> bool" where
  "fresh_sched q \<longleftrightarrow> unreq_dsts_head q = unreq_dsts_tail q \<and> sch_admitted q = []
     \<and> (\<forall>i < 256. flow_state (dsts q i) = FLOW_UNQUEUED \<and> demand_tslots (dsts q i) = used_tslots (dsts q i))"

lemma add_timeslot_ok:
  assumes "fpq_add_timeslot now dst q = Some q'"
  shows "queue_ok q \<Longrightarrow> queue_ok q'" and "sch_admitted q' = sch_admitted q" and "unat (ucast dst :: u16) < 256"
    and "open_tslots q' d = open_tslots q d + (if d = ucast dst then 1 else 0)"
proof -
  let ?d = "ucast dst :: u16"
  define q1 where "q1 = upd_dst ?d (\<lambda>d. d\<lparr> demand_tslots := demand_tslots d + 1 \<rparr>) q"
  have g: "unat (ucast dst :: u32) < 256" and q': "q' = (unreq_dsts_enqueue_if_not_queued now ?d q1)
      \<lparr> q_demand_tslots := q_demand_tslots (unreq_dsts_enqueue_if_not_queued now ?d q1) + 1 \<rparr>"
    using assms by (auto simp: fpq_add_timeslot_def guard_o_def flow_inc_demand_def q1_def MAX_NODES_def Let_def
        split: if_splits)
  have "unat ?d = unat (ucast dst :: u32) mod 65536"
    using mod_mod_cancel [of 65536 4294967296 "unat dst"] by (simp add: unsigned_ucast_eq take_bit_eq_mod)
  with g show lt: "unat ?d < 256"
    by simp
  have "queued q1 i = queued q i" for i
    by (simp add: q1_def upd_dst_def)
  then have q1: "queue_ok q \<Longrightarrow> queue_ok q1"
    unfolding queue_ok_def using flagged_cong [of "queued q" "queued q1"] by (simp add: q1_def upd_dst_def)
  show "queue_ok q'" if "queue_ok q"
    using enqueue_pays [OF lt, of q1 now] q1 [OF that] by (simp add: q' pays_def queue_ok_def)
  show "sch_admitted q' = sch_admitted q"
    by (simp add: q' q1_def upd_dst_def)
  show "open_tslots q' d = open_tslots q d + (if d = ucast dst then 1 else 0)"
    by (auto simp: open_tslots_def q' enqueue_dsts q1_def upd_dst_def algebra_simps word_unat_eq_iff [symmetric])
qed

lemma pays_inv:
  assumes "pays q q'"
    and "queue_ok q \<and> (\<forall>d. unat d < 256 \<longrightarrow> count_list (sch_admitted q) d + unat (open_tslots q d) = c d)"
  shows "queue_ok q' \<and> (\<forall>d. unat d < 256 \<longrightarrow> count_list (sch_admitted q') d + unat (open_tslots q' d) = c d)"
proof -
  obtain ds where "sch_admitted q' = sch_admitted q @ ds"
      "\<forall>d. unat (open_tslots q' d) + count_list ds d = unat (open_tslots q d)"
    using assms(1) by (auto simp: pays_def)
  then have "count_list (sch_admitted q') d + unat (open_tslots q' d) = count_list (sch_admitted q) d + unat (open_tslots q d)" for d
    by (metis (no_types, lifting) add.assoc add.commute count_list_append)
  then show ?thesis
    using assms by (simp add: pays_def)
qed

lemma sch_reach_inv:
  assumes "sch_reach q0 asked q" "fresh_sched q0" "length asked < 2 ^ 64"
  shows "queue_ok q \<and> (\<forall>d. unat d < 256 \<longrightarrow> count_list (sch_admitted q) d + unat (open_tslots q d) = count_list asked d)"
  using assms(1,3)
proof (induction rule: sch_reach.induct)
  case start
  have "flagged 256 (unreq_flows q0) (unreq_dsts_head q0) (unreq_dsts_tail q0) (\<lambda>_. False)"
    using assms(2) flagged_empty by (simp add: fresh_sched_def)
  moreover have "queued q0 i = False" if "i < 256" for i
    using assms(2) that by (simp add: fresh_sched_def)
  ultimately have "queue_ok q0"
    unfolding queue_ok_def using flagged_cong [of "queued q0" "\<lambda>_. False"] by simp
  then show ?case
    using assms(2) by (simp add: fresh_sched_def open_tslots_def)
next
  case (ask asked q now dst q')
  note a = add_timeslot_ok [OF ask.hyps(2)]
  have IH: "queue_ok q" "\<And>d. unat d < 256 \<Longrightarrow> count_list (sch_admitted q) d + unat (open_tslots q d) = count_list asked d"
    using ask by auto
  have "count_list (sch_admitted q') d + unat (open_tslots q' d) = count_list (asked @ [ucast dst]) d"
    if d: "unat d < 256" for d
  proof -
    have "count_list asked d \<le> length asked"
      by (rule count_le_length)
    then have "unat (open_tslots q d) + 1 < 18446744073709551616"
      using IH(2) [OF d] ask.prems by simp
    then have "unat (open_tslots q d + 1) = unat (open_tslots q d) + 1"
      by (simp add: unat_add_mod)
    then show ?thesis
      using IH(2) [OF d] by (simp add: a(2,4))
  qed
  then show ?case
    using a(1) [OF IH(1)] by blast
next
  case (stopped asked q)
  then show ?case
    by (simp add: fpq_stop_qdisc_def queue_ok_def open_tslots_def)
next
  case (receive asked q now now_real base_idx addr pkt q')
  then show ?case
    using pays_inv [OF rcv_pays] by blast
next
  case (maintain asked q now now_real base_idx mem q')
  then show ?case
    using pays_inv [OF maintenance_pays] by blast
next
  case (retransmit asked q now now_real base_idx q')
  then show ?case
    using pays_inv [OF retrans_pays] by blast
qed

subsection \<open>Properties\<close>

text \<open>
  C34. Whatever happens to an end node from its creation on (demands, packets of any content from
  the network, timers, stopping), the request queue holds every destination that is marked as
  queued exactly once and nothing else: it never overflows its 256 entries and no destination is
  dropped or requested twice in a packet.
\<close>

theorem request_queue_invariant:
  assumes "fresh_sched q0" and "sch_reach q0 asked q" and "length asked < 2 ^ 64"
  shows "length (unreq_list q) \<le> 256 \<and> distinct (unreq_list q)
    \<and> (\<forall>d. d \<in> set (unreq_list q) \<longleftrightarrow> unat d < 256 \<and> flow_state (dsts q (unat d)) = FLOW_REQUEST_QUEUE)"
  using sch_reach_inv [OF assms(2,1,3)]
  by (auto simp: queue_ok_def flagged_def unreq_list_def length_circ_list)

text \<open>A fresh qdisc, and the same after two timeslots to destination 3 were asked for.\<close>

definition zero_dst :: fp_dst where
  "zero_dst = \<lparr> demand_tslots = 0, requested_tslots = 0, acked_tslots = 0, alloc_tslots = 0, used_tslots = 0,
     flow_state = FLOW_UNQUEUED \<rparr>"

definition zero_sched_stat :: fp_sched_stat where
  "zero_sched_stat = \<lparr> admitted_timeslots = 0, early_enqueue = 0, late_enqueue1 = 0, late_enqueue2 = 0, late_enqueue3 = 0,
     late_enqueue4 = 0, req_alloc_errors = 0, request_with_empty_flowqueue = 0, queued_flow_already_acked = 0,
     alloc_too_late = 0, alloc_premature = 0, unwanted_alloc = 0, alloc_report_larger_than_requested = 0,
     timeslots_assumed_lost = 0 \<rparr>"

definition demo_sched :: fp_sched_data where
  "demo_sched = \<lparr> tslot_mul = 1, tslot_shift = 0, miss_threshold = 16, max_preload = 64, unreq_flows = \<lambda>_. 0,
     unreq_dsts_head = 0, unreq_dsts_tail = 0, dsts = \<lambda>_. zero_dst, alloc_wnd = zero_window, sch_timeslot = 0,
     request_pacer = pacer_init_full 0 1 1 1, is_destroyed = False, sch_conn = zero_conn, q_demand_tslots = 0,
     q_requested_tslots = 0, q_alloc_tslots = 0, q_acked_tslots = 0, q_used_tslots = 0, sch_stat = zero_sched_stat,
     sch_bug = False, retrans_timer = None, sch_admitted = [], sch_sent = [] \<rparr>"

definition demo_sched2 :: fp_sched_data where
  "demo_sched2 = flow_inc_demand 6 3 1 (flow_inc_demand 5 3 1 demo_sched)"

lemma demo_fresh: "fresh_sched demo_sched"
  by (simp add: fresh_sched_def demo_sched_def zero_dst_def)

lemma demo_reach: "sch_reach demo_sched [3, 3] demo_sched2"
proof -
  have "fpq_add_timeslot now 3 q = Some (flow_inc_demand now 3 1 q)" for now q
    by (simp add: fpq_add_timeslot_def guard_o_def MAX_NODES_def)
  then have "sch_reach demo_sched ([] @ [ucast (3 :: u64)]) (flow_inc_demand 5 3 1 demo_sched)"
    by (intro sch_reach.ask [OF sch_reach.start])
  then have "sch_reach demo_sched (([] @ [ucast (3 :: u64)]) @ [ucast (3 :: u64)]) demo_sched2"
    unfolding demo_sched2_def
    by (rule sch_reach.ask) (simp add: fpq_add_timeslot_def guard_o_def MAX_NODES_def)
  then show ?thesis
    by simp
qed

theorem request_queue_invariant_witness: "3 \<in> set (unreq_list demo_sched2) \<and> distinct (unreq_list demo_sched2)"
proof -
  have "flow_state (dsts demo_sched2 3) = FLOW_REQUEST_QUEUE"
    by (simp add: demo_sched2_def flow_inc_demand_def enqueue_dsts upd_dst_def Let_def)
  then show ?thesis
    using request_queue_invariant [OF demo_fresh demo_reach] by simp
qed

text \<open>
  C35. Timeslots are conserved: along every run of the end node, the timeslots the queueing
  discipline asked for to a destination are the ones it was told to send in plus the ones that
  are still open. An allocation is never used without a demand, and no demand is lost when
  allocations are lost and reported, when packets are repeated, or when the connection resets.
\<close>

theorem timeslots_conserved:
  assumes "fresh_sched q0" and "sch_reach q0 asked q" and "length asked < 2 ^ 64" and "unat d < 256"
  shows "count_list (sch_admitted q) d + unat (demand_tslots (dsts q (unat d)) - used_tslots (dsts q (unat d)))
    = count_list asked d"
  using sch_reach_inv [OF assms(2,1,3)] assms(4) by (simp add: open_tslots_def)

theorem timeslots_conserved_witness:
  "count_list (sch_admitted demo_sched2) 3 + unat (demand_tslots (dsts demo_sched2 3) - used_tslots (dsts demo_sched2 3)) = 2"
  using timeslots_conserved [OF demo_fresh demo_reach, of 3] by simp

end
