(* ===== verification/FP_Tslots.thy ===== *)
theory FP_Tslots
  imports FP_Comm FP_Client_Inv FP_Codec
begin

unbundle bit_operations_syntax

text \<open>
  The allocations in a packet: \<^verbatim>\<open>fill_packet_alloc\<close> of the arbiter writes the pending timeslots of an
  end node as a base and a sequence of skip and allocation bytes, \<^verbatim>\<open>handle_alloc\<close> of the end node
  reads them. The reading of the bytes is \<^verbatim>\<open>decode_alloc\<close>; the invariant of the writing loop is
  \<^verbatim>\<open>filled\<close>.
\<close>

subsection \<open>Reading\<close>

primrec decode_alloc :: "u16 list \<Rightarrow> u8 list \<Rightarrow> u64 \<Rightarrow> (u64 \<times> u16) list" where
  "decode_alloc ids [] full = []"
| "decode_alloc ids (b # bs) full =
     (let k = unat (drop_bit 4 b); low = ucast (b AND 0xF) :: u64
      in if k = 0 then decode_alloc ids bs (full + 16 * (1 + low))
         else if k > length ids then []
         else (full + (1 + low), ids ! (k - 1)) # decode_alloc ids bs (full + (1 + low)))"

lemma alloc_specs_decode:
  "alloc_specs cur ids bs full q = foldo (\<lambda>(t, d). admit_tslot cur t d) (decode_alloc ids bs full) q"
proof (induction bs arbitrary: full q)
  case (Cons b bs)
  have "alloc_specs cur ids bs full = foldo (\<lambda>(t, d). admit_tslot cur t d) (decode_alloc ids bs full)" for full
    using Cons.IH by (rule ext)
  then show ?case
    by (simp add: Let_def)
qed simp

subsection \<open>The two kinds of bytes\<close>

lemma unat_u8_high: "unat (drop_bit 4 (b :: u8)) = unat b div 16"
  by (simp add: drop_bit_eq_div unat_div)

lemma unat_u8_low: "unat (ucast (b AND 0xF :: u8) :: u64) = unat b mod 16"
proof -
  have "(0xF :: u8) = mask 4"
    by (simp add: mask_eq_exp_minus_1)
  then have "unat (b AND 0xF) = unat b mod 16"
    using unat_and_mask [of b 4] by simp
  moreover have "unat b mod 16 < 18446744073709551616"
    by (rule less_trans [of _ 16]) simp_all
  ultimately show ?thesis
    by (simp add: unsigned_ucast_eq take_bit_eq_mod)
qed

lemma u8_low: "(ucast (b AND 0xF :: u8) :: u64) = of_nat (unat b mod 16)"
  using unat_eqD [OF unat_u8_low [of b]] .

lemma decode_skip:
  assumes "unat b < 16"
  shows "decode_alloc ids (b # bs) full = decode_alloc ids bs (full + of_nat (16 * (unat b + 1)))"
  using assms by (simp add: Let_def unat_u8_high u8_low algebra_simps)

lemma decode_byte:
  assumes "unat b = 16 * k + g" "g < 16" "0 < k" "k \<le> length ids"
  shows "decode_alloc ids (b # bs) full =
    (full + of_nat (g + 1), ids ! (k - 1)) # decode_alloc ids bs (full + of_nat (g + 1))"
  using assms by (simp add: Let_def unat_u8_high u8_low algebra_simps)

subsection \<open>Writing\<close>

definition valid_alloc :: "u16 \<Rightarrow> bool" where
  "valid_alloc d \<longleftrightarrow> unat d mod 16384 < 256"

lemma enc_index_inj:
  assumes "valid_alloc d" "valid_alloc d'" "enc_index d = enc_index d'"
  shows "d = d'"
proof -
  have e: "enc_index x = unat x mod 256 + 256 * (unat x div 16384)" for x
    by (simp add: enc_index_def NUM_NODES_def drop_bit_eq_div unat_div)
  have v: "unat x mod 16384 = unat x mod 256" if "valid_alloc x" for x
    using that mod_mod_cancel [of 256 16384 "unat x"] by (simp add: valid_alloc_def)
  have eq: "unat d mod 256 + 256 * (unat d div 16384) = unat d' mod 256 + 256 * (unat d' div 16384)"
    using assms(3) by (simp only: e)
  then have "(unat d mod 256 + 256 * (unat d div 16384)) mod 256 = (unat d' mod 256 + 256 * (unat d' div 16384)) mod 256"
    by (rule arg_cong)
  then have m: "unat d mod 256 = unat d' mod 256"
    by simp
  with eq have "unat d div 16384 = unat d' div 16384"
    by simp
  moreover have "unat d mod 16384 = unat d' mod 16384"
    using m v assms(1,2) by simp
  ultimately have "unat d = unat d'"
    by (metis div_mult_mod_eq)
  then show ?thesis
    by (simp add: word_unat_eq_iff)
qed

abbreviation written_dsts :: "fill_state \<Rightarrow> u16 list" where
  "written_dsts f \<equiv> take (f_n_dsts f) (pd_dsts (f_pd f))"

abbreviation written_bytes :: "fill_state \<Rightarrow> u8 list" where
  "written_bytes f \<equiv> take (f_n_tslot f) (pd_tslot_desc (f_pd f))"

text \<open>What was written so far reads as \<open>es\<close> and leaves the reader at \<open>full\<close>, whatever follows.\<close>

definition emits :: "u64 \<Rightarrow> fill_state \<Rightarrow> (u64 \<times> u16) list \<Rightarrow> u64 \<Rightarrow> bool" where
  "emits base f es full \<longleftrightarrow> (\<forall>ds bs. decode_alloc (written_dsts f @ ds) (written_bytes f @ bs) base
     = es @ decode_alloc (written_dsts f @ ds) bs full)"

definition enc_ok :: "fill_state \<Rightarrow> bool" where
  "enc_ok f \<longleftrightarrow> (\<forall>i. f_enc f i \<noteq> 0 \<longrightarrow> unat (f_enc f i) < f_n_dsts f \<and> enc_index (pd_dsts (f_pd f) ! unat (f_enc f i)) = i)
     \<and> (\<forall>d \<in> set (written_dsts f). valid_alloc d)"

definition sizes_ok :: "fill_state \<Rightarrow> bool" where
  "sizes_ok f \<longleftrightarrow> length (pd_dsts (f_pd f)) = 15 \<and> length (pd_dst_counts (f_pd f)) = 15
     \<and> length (pd_tslot_desc (f_pd f)) = 64 \<and> f_n_dsts f \<le> 15 \<and> f_n_tslot f \<le> 64"

definition filled :: "u64 \<Rightarrow> fill_state \<Rightarrow> (u64 \<times> u16) list \<Rightarrow> u64 \<Rightarrow> bool" where
  "filled base f es full \<longleftrightarrow> sizes_ok f \<and> enc_ok f \<and> emits base f es full \<and> wnd_inv (f_wnd f) \<and> \<not> f_bug f"

lemma put_tslot_ok:
  assumes "filled base f es full" "f_n_tslot f < 64"
    and read: "\<And>ds bs. decode_alloc (written_dsts f @ ds) (b # bs) full = xs @ decode_alloc (written_dsts f @ ds) bs full'"
  shows "wp (put_tslot b f) (\<lambda>f'. filled base f' (es @ xs) full' \<and> f_n_tslot f' = f_n_tslot f + 1
    \<and> f_wnd f' = f_wnd f \<and> f_enc f' = f_enc f \<and> f_n_dsts f' = f_n_dsts f \<and> pd_dsts (f_pd f') = pd_dsts (f_pd f)
    \<and> pd_base_tslot (f_pd f') = pd_base_tslot (f_pd f))"
proof -
  define f' where "f' = f\<lparr> f_pd := (f_pd f)\<lparr> pd_tslot_desc := (pd_tslot_desc (f_pd f))[f_n_tslot f := b] \<rparr>,
    f_n_tslot := f_n_tslot f + 1 \<rparr>"
  have len: "f_n_tslot f < length (pd_tslot_desc (f_pd f))"
    using assms by (simp add: filled_def sizes_ok_def)
  have bytes: "written_bytes f' = written_bytes f @ [b]"
    using len by (simp add: f'_def take_Suc_conv_app_nth)
  have dst: "written_dsts f' = written_dsts f"
    by (simp add: f'_def)
  have "emits base f' (es @ xs) full'"
    using assms(1) read unfolding emits_def bytes dst filled_def by simp
  then have "filled base f' (es @ xs) full'"
    using assms(1,2) by (simp add: filled_def sizes_ok_def enc_ok_def f'_def)
  then show ?thesis
    using assms(2) by (simp add: put_tslot_def FASTPASS_PKT_MAX_ALLOC_TSLOTS_def f'_def)
qed

lemma put_dst_ok:
  assumes f: "filled base f es full" and n: "f_n_dsts f < 15" and d: "valid_alloc d" and new: "f_enc f (enc_index d) = 0"
  shows "filled base (put_dst d f) es full" and "f_enc (put_dst d f) (enc_index d) = of_nat (f_n_dsts f)"
    and "written_dsts (put_dst d f) = written_dsts f @ [d]"
proof -
  define f' where "f' = put_dst d f"
  have len: "f_n_dsts f < length (pd_dsts (f_pd f))"
    using f n by (simp add: filled_def sizes_ok_def)
  show ds: "written_dsts (put_dst d f) = written_dsts f @ [d]"
    using len by (simp add: put_dst_def take_Suc_conv_app_nth)
  show enc: "f_enc (put_dst d f) (enc_index d) = of_nat (f_n_dsts f)"
    by (simp add: put_dst_def)
  have u: "unat (of_nat (f_n_dsts f) :: u8) = f_n_dsts f"
    using n by (simp add: unat_of_nat)
  have nth: "pd_dsts (f_pd (put_dst d f)) ! i = (if i = f_n_dsts f then d else pd_dsts (f_pd f) ! i)" if "i < 15" for i
    using that len by (simp add: put_dst_def nth_list_update)
  have "enc_ok (put_dst d f)"
    unfolding enc_ok_def
  proof (intro conjI allI impI)
    fix i assume i: "f_enc (put_dst d f) i \<noteq> 0"
    have "unat (f_enc (put_dst d f) i) < f_n_dsts (put_dst d f)
      \<and> enc_index (pd_dsts (f_pd (put_dst d f)) ! unat (f_enc (put_dst d f) i)) = i"
    proof (cases "i = enc_index d")
      case True
      then show ?thesis
        using n by (simp add: enc u nth) (simp add: put_dst_def)
    next
      case False
      then have e: "f_enc (put_dst d f) i = f_enc f i"
        by (simp add: put_dst_def)
      then have "unat (f_enc f i) < f_n_dsts f" "enc_index (pd_dsts (f_pd f) ! unat (f_enc f i)) = i"
        using i f by (simp_all add: filled_def enc_ok_def)
      then show ?thesis
        using n by (simp add: e nth) (simp add: put_dst_def)
    qed
    then show "unat (f_enc (put_dst d f) i) < f_n_dsts (put_dst d f)"
      "enc_index (pd_dsts (f_pd (put_dst d f)) ! unat (f_enc (put_dst d f) i)) = i"
      by blast+
  next
    show "\<forall>d' \<in> set (written_dsts (put_dst d f)). valid_alloc d'"
      using f d unfolding ds by (simp add: filled_def enc_ok_def)
  qed
  moreover have "emits base (put_dst d f) es full"
    using f unfolding emits_def ds filled_def by (simp add: put_dst_def)
  ultimately show "filled base (put_dst d f) es full"
    using f n by (simp add: filled_def sizes_ok_def put_dst_def)
qed

lemma alloc_byte:
  assumes a: "unat a < 16" and b: "unat b < 16"
  shows "unat (push_bit 4 a OR b :: u8) = 16 * unat a + unat b"
proof -
  have low: "\<not> bit b n" if "4 \<le> n" for n
    using bit_small [of b 4 n] b that by auto
  have "push_bit 4 a AND b = 0"
    by (rule bit_word_eqI) (auto simp: bit_and_iff bit_push_bit_iff dest: low)
  then have "push_bit 4 a OR b = push_bit 4 a + b"
    by (rule disjunctive_add_eq_or [symmetric])
  moreover have "push_bit 4 a = a * 16"
    by (simp add: push_bit_eq_mult)
  ultimately show ?thesis
    using assms by (simp add: unat_word_ariths)
qed

abbreviation same_but_bytes :: "fill_state \<Rightarrow> fill_state \<Rightarrow> bool" where
  "same_but_bytes f f' \<equiv> f_wnd f' = f_wnd f \<and> f_enc f' = f_enc f \<and> f_n_dsts f' = f_n_dsts f
     \<and> pd_dsts (f_pd f') = pd_dsts (f_pd f) \<and> pd_base_tslot (f_pd f') = pd_base_tslot (f_pd f)"

lemma put_skip_ok:
  assumes f: "filled base f es full" and n: "f_n_tslot f < 64" and g: "1 \<le> unat gap" "unat gap \<le> 256"
  shows "wp (put_skip gap f) (\<lambda>(gap', f'). \<exists>full'. filled base f' es full'
    \<and> full' + of_nat (unat gap') = full + of_nat (unat gap) \<and> 1 \<le> unat gap' \<and> unat gap' \<le> 16
    \<and> f_n_tslot f' \<le> f_n_tslot f + 1 \<and> same_but_bytes f f')"
proof (cases "gap > 16")
  case False
  then have "unat gap \<le> 16"
    by (simp add: word_less_nat_alt)
  then show ?thesis
    using f g False by (auto simp: put_skip_def)
next
  case True
  define k where "k = (unat gap - 1) div 16"
  have k: "1 \<le> k" "k \<le> 15" "16 * k < unat gap" "unat gap \<le> 16 * k + 16"
    using True g by (auto simp: k_def word_less_nat_alt)
  have "unat (gap - 1) = unat gap - 1"
    using g(1) by (intro unat_minus_one) auto
  then have s: "unat ((gap - 1) div 16) = k"
    by (simp add: unat_div k_def)
  have "unat ((gap - 1) div 16 - 1) = k - 1"
    using s k(1) unat_minus_one [of "(gap - 1) div 16"] by force
  then have b: "unat (ucast ((gap - 1) div 16 - 1) :: u8) = k - 1"
    using k by (simp add: unsigned_ucast_eq take_bit_eq_mod)
  have m: "unat (16 * ((gap - 1) div 16)) = 16 * k"
    using k s by (simp add: unat_word_ariths)
  have gap': "unat (gap - 16 * ((gap - 1) div 16)) = unat gap - 16 * k"
    using k m by (subst unat_sub) (simp_all add: word_le_nat_alt)
  have "decode_alloc ids (ucast ((gap - 1) div 16 - 1) # bs) full = [] @ decode_alloc ids bs (full + of_nat (16 * k))" for ids bs
    using decode_skip [of "ucast ((gap - 1) div 16 - 1)" ids bs full] b k by simp
  note P = put_tslot_ok [OF f n this]
  have eq: "full + of_nat (16 * k) + of_nat (unat gap - 16 * k) = full + of_nat (unat gap)"
    using k(3) by (simp only: add.assoc of_nat_add [symmetric] le_add_diff_inverse less_imp_le)
  define gap' where "gap' = gap - 16 * ((gap - 1) div 16)"
  have "wp (put_skip gap f) (\<lambda>(g', f'). g' = gap' \<and> filled base f' es (full + of_nat (16 * k))
      \<and> f_n_tslot f' = f_n_tslot f + 1 \<and> same_but_bytes f f')"
    using True by (auto simp: put_skip_def gap'_def intro!: wp_mono [OF P])
  then show ?thesis
  proof (rule wp_mono, goal_cases)
    case (1 x)
    then obtain f' where f': "x = (gap', f')" "filled base f' es (full + of_nat (16 * k))"
        "f_n_tslot f' = f_n_tslot f + 1" "same_but_bytes f f'"
      by auto
    have "full + of_nat (16 * k) + of_nat (unat gap') = full + of_nat (unat gap)"
      unfolding gap'_def gap' by (rule eq)
    moreover have "1 \<le> unat gap'" "unat gap' \<le> 16"
      unfolding gap'_def gap' using k by linarith+
    ultimately show ?case
      using f' by (simp only: prod.case) (rule exI [of _ "full + of_nat (16 * k)"], simp)
  qed
qed

lemma put_alloc_ok:
  assumes f: "filled base f es full" and n: "f_n_tslot f < 64" and g: "1 \<le> unat gap" "unat gap \<le> 16"
    and cur: "full + of_nat (unat gap) = cur" "cur \<in> wnd_set (f_wnd f)"
    and e: "unat (f_enc f (enc_index d)) < f_n_dsts f" "pd_dsts (f_pd f) ! unat (f_enc f (enc_index d)) = d"
  shows "wp (put_alloc cur gap d f) (\<lambda>f'. filled base f' (es @ [(cur, d)]) cur \<and> f_n_tslot f' = f_n_tslot f + 1
    \<and> wnd_set (f_wnd f') = wnd_set (f_wnd f) - {cur} \<and> head (f_wnd f') = head (f_wnd f)
    \<and> pd_base_tslot (f_pd f') = pd_base_tslot (f_pd f))"
proof -
  let ?e = "f_enc f (enc_index d)"
  have sz: "f_n_dsts f \<le> 15" "length (pd_dsts (f_pd f)) = 15"
    using f by (simp_all add: filled_def sizes_ok_def)
  then have e15: "unat ?e < 15"
    using e(1) by simp
  have e1: "unat (?e + 1) = unat ?e + 1"
    using e15 by (simp add: unat_word_ariths)
  have gb: "unat (ucast gap - 1 :: u8) = unat gap - 1"
  proof -
    have "unat (ucast gap :: u8) = unat gap"
      using g by (simp add: unsigned_ucast_eq take_bit_eq_mod)
    then show ?thesis
      using g unat_minus_one [of "ucast gap :: u8"] by force
  qed
  have b: "unat (push_bit 4 (?e + 1) OR (ucast gap - 1) :: u8) = 16 * (unat ?e + 1) + (unat gap - 1)"
    using alloc_byte [of "?e + 1" "ucast gap - 1"] e15 e1 g gb by simp
  have nth: "(written_dsts f @ ds) ! unat ?e = d" for ds
    using e sz by (simp add: nth_append)
  have full: "full + of_nat (unat gap - 1 + 1) = cur"
    using g cur(1) by (simp only: le_add_diff_inverse2)
  have "decode_alloc (written_dsts f @ ds) ((push_bit 4 (?e + 1) OR (ucast gap - 1)) # bs) full
      = [(cur, d)] @ decode_alloc (written_dsts f @ ds) bs cur" for ds bs
    using decode_byte [OF b, of "written_dsts f @ ds" bs full] g e(1) sz nth full by simp
  note P = put_tslot_ok [OF f n this]
  obtain w where w: "wnd_clear (f_wnd f) cur = (w, False)" "wnd_inv w" "wnd_set w = wnd_set (f_wnd f) - {cur}"
      "head w = head (f_wnd f)"
    using wnd_clear_correct [of "f_wnd f" cur] f cur(2) by (auto simp: filled_def)
  have upd: "filled base (f'\<lparr> f_pd := (f_pd f')\<lparr> pd_dst_counts := (pd_dst_counts (f_pd f'))[i := x] \<rparr>, f_wnd := w, f_bug := f_bug f' \<rparr>) es' full'"
    if "filled base f' es' full'" for f' es' full' i x
    using that w(2) by (simp add: filled_def sizes_ok_def enc_ok_def emits_def)
  show ?thesis
    unfolding put_alloc_def
    using e15 w upd by (auto simp: Let_def intro!: wp_mono [OF P])
qed

lemma next_alloc_ok:
  assumes f: "filled base f es prev" and n: "f_n_tslot f \<le> 62" and g: "1 \<le> unat (cur - prev)" "unat (cur - prev) \<le> 256"
    and cur: "cur \<in> wnd_set (f_wnd f)" and d: "valid_alloc d" "d = allocs (unat (wnd_pos cur))"
  shows "wp (next_alloc allocs prev cur f) (\<lambda>(stop, f'). pd_base_tslot (f_pd f') = pd_base_tslot (f_pd f)
    \<and> (if stop then (\<exists>full. filled base f' es full) \<and> f_wnd f' = f_wnd f \<and> f_n_dsts f' = 15 \<and> f_n_dsts f = 15
        else filled base f' (es @ [(cur, d)]) cur \<and> wnd_set (f_wnd f') = wnd_set (f_wnd f) - {cur}
          \<and> head (f_wnd f') = head (f_wnd f)))"
proof -
  define gap where "gap = (ucast (cur - prev) :: u16)"
  have gap: "unat gap = unat (cur - prev)"
    using g by (simp add: gap_def unsigned_ucast_eq take_bit_eq_mod)
  have cg: "prev + of_nat (unat gap) = cur"
    by (simp only: gap) simp
  have g1: "1 \<le> unat gap" "unat gap \<le> 256" "f_n_tslot f < 64"
    using g n by (simp_all add: gap)
  from wpD [OF put_skip_ok [OF f g1(3,1,2)]] obtain gap' f1 full where
    f1: "put_skip gap f = Some (gap', f1)" "filled base f1 es full" "full + of_nat (unat gap') = prev + of_nat (unat gap)"
      "1 \<le> unat gap'" "unat gap' \<le> 16" "f_n_tslot f1 \<le> f_n_tslot f + 1" "same_but_bytes f f1"
    by (auto simp del: of_nat_unat)
  have full: "full + of_nat (unat gap') = cur"
    using f1(3) by (simp only: cg)
  have n1: "f_n_tslot f1 < 64"
    using f1(6) n by simp
  have e: "next_alloc allocs prev cur f = (if f_enc f1 (enc_index d) = 0 \<and> f_n_dsts f1 = 15 then Some (True, f1)
      else put_alloc cur gap' d (if f_enc f1 (enc_index d) = 0 then put_dst d f1 else f1) \<bind> (\<lambda>f. Some (False, f)))"
    using f1(1) by (simp add: next_alloc_def gap_def [symmetric] d(2) Let_def)
  show ?thesis
  proof (cases "f_enc f1 (enc_index d) = 0 \<and> f_n_dsts f1 = 15")
    case True
    then show ?thesis
      using f1 by (auto simp: e)
  next
    case False
    define f2 where "f2 = (if f_enc f1 (enc_index d) = 0 then put_dst d f1 else f1)"
    have sz: "f_n_dsts f1 \<le> 15" "length (pd_dsts (f_pd f1)) = 15"
      using f1(2) by (simp_all add: filled_def sizes_ok_def)
    have f2: "filled base f2 es full \<and> unat (f_enc f2 (enc_index d)) < f_n_dsts f2
        \<and> pd_dsts (f_pd f2) ! unat (f_enc f2 (enc_index d)) = d"
    proof (cases "f_enc f1 (enc_index d) = 0")
      case True
      then have n15: "f_n_dsts f1 < 15"
        using False sz by simp
      have u: "unat (of_nat (f_n_dsts f1) :: u8) = f_n_dsts f1"
        using n15 by (simp add: unat_of_nat)
      show ?thesis
        using put_dst_ok(1,2) [OF f1(2) n15 d(1) True] True n15 sz u by (simp add: f2_def put_dst_def)
    next
      case ne: False
      then have "unat (f_enc f1 (enc_index d)) < f_n_dsts f1"
        "enc_index (pd_dsts (f_pd f1) ! unat (f_enc f1 (enc_index d))) = enc_index d"
        using f1(2) by (simp_all add: filled_def enc_ok_def)
      moreover from this(1) have "pd_dsts (f_pd f1) ! unat (f_enc f1 (enc_index d)) \<in> set (written_dsts f1)"
        using sz by (auto simp: in_set_conv_nth intro!: exI [of _ "unat (f_enc f1 (enc_index d))"])
      then have "valid_alloc (pd_dsts (f_pd f1) ! unat (f_enc f1 (enc_index d)))"
        using f1(2) by (auto simp: filled_def enc_ok_def)
      ultimately show ?thesis
        using enc_index_inj [OF _ d(1)] f1(2) ne by (simp add: f2_def)
    qed
    have same: "f_wnd f2 = f_wnd f" "f_n_tslot f2 = f_n_tslot f1" "pd_base_tslot (f_pd f2) = pd_base_tslot (f_pd f)"
      using f1(7) by (simp_all add: f2_def put_dst_def)
    have "wp (put_alloc cur gap' d f2) (\<lambda>f'. filled base f' (es @ [(cur, d)]) cur \<and> f_n_tslot f' = f_n_tslot f2 + 1
      \<and> wnd_set (f_wnd f') = wnd_set (f_wnd f2) - {cur} \<and> head (f_wnd f') = head (f_wnd f2)
      \<and> pd_base_tslot (f_pd f') = pd_base_tslot (f_pd f2))"
      using f2 n1 f1(4,5) full cur same by (intro put_alloc_ok [where full = full]) auto
    then have "wp (put_alloc cur gap' d f2) (\<lambda>f'. filled base f' (es @ [(cur, d)]) cur
      \<and> wnd_set (f_wnd f') = wnd_set (f_wnd f) - {cur} \<and> head (f_wnd f') = head (f_wnd f)
      \<and> pd_base_tslot (f_pd f') = pd_base_tslot (f_pd f))"
      by (rule wp_mono) (use same in auto)
    then show ?thesis
      using False unfolding e f2_def [symmetric] by (simp only: if_False wp_bind) (rule wp_mono, assumption, simp)
  qed
qed

text \<open>
  The timeslots \<open>ts\<close> are taken out of the window \<open>w\<close>, oldest first, and leave \<open>w'\<close>.
\<close>

definition oldest_first :: "fp_window \<Rightarrow> u64 list \<Rightarrow> fp_window \<Rightarrow> bool" where
  "oldest_first w ts w' \<longleftrightarrow> head w' = head w \<and> set ts \<union> wnd_set w' = wnd_set w \<and> set ts \<inter> wnd_set w' = {}
     \<and> sorted_wrt (\<lambda>a b. unat (head w - b) < unat (head w - a)) ts
     \<and> (\<forall>t \<in> set ts. \<forall>u \<in> wnd_set w'. unat (head w - u) < unat (head w - t))"

lemma oldest_first_Nil: "oldest_first w [] w"
  by (simp add: oldest_first_def)

lemma unat_word_inj: "unat ((h :: u64) - a) = unat (h - b) \<Longrightarrow> a = b"
  by (simp add: word_unat_eq_iff [symmetric])

lemma oldest_first_Cons:
  assumes "earliest_of w (wnd_set w) t" "wnd_set w1 = wnd_set w - {t}" "head w1 = head w" "oldest_first w1 ts w'"
  shows "oldest_first w (t # ts) w'"
proof -
  have lt: "unat (head w - u) < unat (head w - t)" if "u \<in> wnd_set w1" for u
  proof -
    have "unat (head w - u) \<le> unat (head w - t)" "u \<noteq> t"
      using assms(1,2) that by (auto simp: earliest_of_def)
    then show ?thesis
      using unat_word_inj [of "head w" u t] by (auto simp: le_less)
  qed
  have "set ts \<union> wnd_set w' = wnd_set w1" and t: "t \<in> wnd_set w"
    using assms(1,4) by (simp_all add: oldest_first_def earliest_of_def)
  then show ?thesis
    using assms lt by (auto simp: oldest_first_def)
qed

lemma earliest_gap:
  assumes "wnd_inv w" "earliest_of w (wnd_set w) t" "wnd_set w1 = wnd_set w - {t}" "head w1 = head w" "u \<in> wnd_set w1"
  shows "1 \<le> unat (u - t)" and "unat (u - t) \<le> 256"
proof -
  have "unat (head w - t) < 192"
    using wnd_set_age [of t w] assms(2) by (simp add: earliest_of_def)
  moreover have "unat (head w - u) \<le> unat (head w - t)" "u \<noteq> t"
    using assms by (auto simp: earliest_of_def)
  moreover from this have "unat (head w - u) < unat (head w - t)"
    using unat_word_inj [of "head w" u t] by (auto simp: le_less)
  moreover from this have "unat (u - t) = unat (head w - t) - unat (head w - u)"
    using unat_diff_age [of "head w" u t] by simp
  ultimately show "1 \<le> unat (u - t)" "unat (u - t) \<le> 256"
    by simp_all
qed

definition entry :: "(nat \<Rightarrow> u16) \<Rightarrow> u64 \<Rightarrow> u64 \<times> u16" where
  "entry allocs t = (t, allocs (unat (wnd_pos t)))"

lemma wnd_empty_iff: "wnd_inv w \<Longrightarrow> wnd_empty w \<longleftrightarrow> wnd_set w = {}"
  using wnd_invD(5) [of w] by (auto simp: wnd_empty_def unat_eq_zero)

definition packed :: "u64 \<Rightarrow> (nat \<Rightarrow> u16) \<Rightarrow> fill_state \<Rightarrow> (u64 \<times> u16) list \<Rightarrow> u64 list \<Rightarrow> fill_state \<Rightarrow> bool" where
  "packed base allocs f es ts f' \<longleftrightarrow> (\<exists>full. filled base f' (es @ map (entry allocs) ts) full)
     \<and> oldest_first (f_wnd f) ts (f_wnd f') \<and> pd_base_tslot (f_pd f') = pd_base_tslot (f_pd f)
     \<and> (f_n_dsts f < 15 \<longrightarrow> ts \<noteq> []) \<and> (wnd_set (f_wnd f') = {} \<or> 62 < f_n_tslot f' \<or> f_n_dsts f' = 15)"

lemma fill_allocs_ok:
  assumes "filled base f es prev" "f_n_tslot f \<le> 62" "1 \<le> unat (cur - prev)" "unat (cur - prev) \<le> 256"
    and "earliest_of (f_wnd f) (wnd_set (f_wnd f)) cur" "\<forall>t \<in> wnd_set (f_wnd f). valid_alloc (allocs (unat (wnd_pos t)))"
  shows "wp (fill_allocs allocs prev cur f) (\<lambda>f'. \<exists>ts. packed base allocs f es ts f')"
  using assms
proof (induction allocs prev cur f arbitrary: es rule: fill_allocs.induct)
  case (1 allocs prev cur f)
  define d where "d = allocs (unat (wnd_pos cur))"
  have cur: "cur \<in> wnd_set (f_wnd f)" "valid_alloc d"
    using "1.prems"(5,6) by (simp_all add: earliest_of_def d_def)
  have inv: "wnd_inv (f_wnd f)"
    using "1.prems"(1) by (simp add: filled_def)
  from wpD [OF next_alloc_ok [where allocs = allocs and d = d, OF "1.prems"(1-4) cur d_def]] obtain stop f1 where
    f1: "next_alloc allocs prev cur f = Some (stop, f1)" "pd_base_tslot (f_pd f1) = pd_base_tslot (f_pd f)"
      "if stop then (\<exists>full. filled base f1 es full) \<and> f_wnd f1 = f_wnd f \<and> f_n_dsts f1 = 15 \<and> f_n_dsts f = 15
       else filled base f1 (es @ [(cur, d)]) cur \<and> wnd_set (f_wnd f1) = wnd_set (f_wnd f) - {cur}
         \<and> head (f_wnd f1) = head (f_wnd f)"
    by auto
  show ?case
  proof (cases stop)
    case True
    then have "packed base allocs f es [] f1"
      using f1 by (auto simp: packed_def oldest_first_Nil)
    then show ?thesis
      using f1(1) True by (subst fill_allocs.simps) auto
  next
    case False
    then have g: "filled base f1 (es @ [(cur, d)]) cur" "wnd_set (f_wnd f1) = wnd_set (f_wnd f) - {cur}"
        "head (f_wnd f1) = head (f_wnd f)"
      using f1(3) by simp_all
    have inv1: "wnd_inv (f_wnd f1)"
      using g(1) by (simp add: filled_def)
    show ?thesis
    proof (cases "\<not> wnd_empty (f_wnd f1) \<and> f_n_tslot f1 \<le> FASTPASS_PKT_MAX_ALLOC_TSLOTS - 2")
      case go: True
      define next_t where "next_t = wnd_earliest_marked (f_wnd f1)"
      have ne: "wnd_set (f_wnd f1) \<noteq> {}" and le: "f_n_tslot f1 \<le> 62"
        using go wnd_empty_iff [OF inv1] by (simp_all add: FASTPASS_PKT_MAX_ALLOC_TSLOTS_def)
      have e: "earliest_of (f_wnd f1) (wnd_set (f_wnd f1)) next_t"
        unfolding next_t_def by (rule wnd_earliest_marked_correct [OF inv1 ne])
      then have "next_t \<in> wnd_set (f_wnd f1)"
        by (simp add: earliest_of_def)
      note gap = earliest_gap [OF inv "1.prems"(5) g(2,3) this]
      have v: "\<forall>t \<in> wnd_set (f_wnd f1). valid_alloc (allocs (unat (wnd_pos t)))"
        using "1.prems"(6) g(2) by blast
      have "wp (fill_allocs allocs cur next_t f1) (\<lambda>f'. \<exists>ts. packed base allocs f1 (es @ [(cur, d)]) ts f')"
        using "1.IH" [of "(stop, f1)" stop f1 "es @ [(cur, d)]"] f1(1) False go g(1) le v gap e
        by (simp add: next_t_def)
      then have "wp (fill_allocs allocs cur next_t f1) (\<lambda>f'. \<exists>ts. packed base allocs f es ts f')"
      proof (rule wp_mono)
        fix f' assume "\<exists>ts. packed base allocs f1 (es @ [(cur, d)]) ts f'"
        then obtain ts where ts: "packed base allocs f1 (es @ [(cur, d)]) ts f'" ..
        have "oldest_first (f_wnd f) (cur # ts) (f_wnd f')"
          using ts by (intro oldest_first_Cons [OF "1.prems"(5) g(2,3)]) (simp add: packed_def)
        then have "packed base allocs f es (cur # ts) f'"
          using ts f1(2) by (simp add: packed_def entry_def d_def)
        then show "\<exists>ts. packed base allocs f es ts f'" ..
      qed
      then show ?thesis
        using f1(1) False go by (subst fill_allocs.simps) (simp add: next_t_def)
    next
      case stop': False
      have "oldest_first (f_wnd f) [cur] (f_wnd f1)"
        by (rule oldest_first_Cons [OF "1.prems"(5) g(2,3) oldest_first_Nil])
      moreover have "wnd_set (f_wnd f1) = {} \<or> 62 < f_n_tslot f1"
        using stop' wnd_empty_iff [OF inv1] by (auto simp: FASTPASS_PKT_MAX_ALLOC_TSLOTS_def)
      ultimately have "packed base allocs f es [cur] f1"
        using g(1) f1(2) by (auto simp: packed_def entry_def d_def)
      then show ?thesis
        using f1(1) False stop' by (subst fill_allocs.simps) auto
    qed
  qed
qed

subsection \<open>A packet\<close>

lemma fold_clear: "fold (\<lambda>i e. e(g i := (0 :: u8))) is e = (\<lambda>x. if x \<in> g ` set is then 0 else e x)"
  by (induction "is" arbitrary: e) (auto simp: fun_eq_iff)

lemma fill_cleanup_ok:
  assumes f: "filled base f es full"
  shows "wp (fill_cleanup f) (\<lambda>f'. (\<forall>i. f_enc f' i = 0) \<and> sizes_ok f' \<and> even (f_n_tslot f') \<and> wnd_inv (f_wnd f')
    \<and> f_wnd f' = f_wnd f \<and> \<not> f_bug f' \<and> f_n_dsts f' = f_n_dsts f \<and> pd_base_tslot (f_pd f') = pd_base_tslot (f_pd f)
    \<and> decode_alloc (written_dsts f') (written_bytes f') base = es)"
proof -
  define f1 where "f1 = f\<lparr> f_enc := fold (\<lambda>i e. e(enc_index (pd_dsts (f_pd f) ! i) := 0)) [0..<f_n_dsts f] (f_enc f) \<rparr>"
  have zero: "f_enc f1 x = 0" for x
  proof (cases "f_enc f x = 0")
    case False
    then have "unat (f_enc f x) < f_n_dsts f" "enc_index (pd_dsts (f_pd f) ! unat (f_enc f x)) = x"
      using f by (simp_all add: filled_def enc_ok_def)
    then have "x \<in> (\<lambda>i. enc_index (pd_dsts (f_pd f) ! i)) ` set [0..<f_n_dsts f]"
      by (auto intro!: image_eqI [of _ _ "unat (f_enc f x)"])
    then show ?thesis
      by (simp add: f1_def fold_clear)
  qed (simp add: f1_def fold_clear)
  have fill1: "filled base f1 es full"
    using f zero by (simp add: filled_def f1_def sizes_ok_def emits_def enc_ok_def)
  have dec: "decode_alloc (written_dsts f') (written_bytes f') base = es" if "emits base f' es full'" for f' full'
    using that unfolding emits_def by (metis append_Nil2 decode_alloc.simps(1))
  show ?thesis
  proof (cases "odd (f_n_tslot f)")
    case True
    then have n: "f_n_tslot f1 < 64"
      using f by (cases "f_n_tslot f = 64") (simp_all add: f1_def filled_def sizes_ok_def)
    have "decode_alloc ids (0 # bs) full = [] @ decode_alloc ids bs (full + 16)" for ids bs
      using decode_skip [of 0 ids bs full] by simp
    note P = put_tslot_ok [OF fill1 n this]
    have "wp (put_tslot 0 f1) (\<lambda>f'. (\<forall>i. f_enc f' i = 0) \<and> sizes_ok f' \<and> even (f_n_tslot f') \<and> wnd_inv (f_wnd f')
      \<and> f_wnd f' = f_wnd f \<and> \<not> f_bug f' \<and> f_n_dsts f' = f_n_dsts f \<and> pd_base_tslot (f_pd f') = pd_base_tslot (f_pd f)
      \<and> decode_alloc (written_dsts f') (written_bytes f') base = es)"
    proof (rule wp_mono [OF P], elim conjE)
      fix f' assume f': "filled base f' (es @ []) (full + 16)" "f_n_tslot f' = f_n_tslot f1 + 1" "f_wnd f' = f_wnd f1"
        "f_enc f' = f_enc f1" "f_n_dsts f' = f_n_dsts f1" "pd_base_tslot (f_pd f') = pd_base_tslot (f_pd f1)"
      have "decode_alloc (written_dsts f') (written_bytes f') base = es"
        using f'(1) by (intro dec [of f' "full + 16"]) (simp add: filled_def)
      then show "(\<forall>i. f_enc f' i = 0) \<and> sizes_ok f' \<and> even (f_n_tslot f') \<and> wnd_inv (f_wnd f')
        \<and> f_wnd f' = f_wnd f \<and> \<not> f_bug f' \<and> f_n_dsts f' = f_n_dsts f \<and> pd_base_tslot (f_pd f') = pd_base_tslot (f_pd f)
        \<and> decode_alloc (written_dsts f') (written_bytes f') base = es"
        using f' zero True by (simp add: filled_def f1_def)
    qed
    then show ?thesis
      using True by (simp add: fill_cleanup_def f1_def [symmetric]) (simp add: f1_def)
  next
    case False
    have "decode_alloc (written_dsts f1) (written_bytes f1) base = es"
      using fill1 by (intro dec [of f1 full]) (simp add: filled_def)
    then show ?thesis
      using False zero fill1 by (simp add: fill_cleanup_def f1_def [symmetric]) (simp add: f1_def filled_def sizes_ok_def)
  qed
qed

lemma base_of_packet:
  assumes "16 dvd unat prev"
  shows "uint (push_bit 4 (ucast (ucast (drop_bit 4 (prev :: u64) AND 0xFFFF) :: u16) :: u32)) = uint prev mod 1048576"
proof -
  obtain k where k: "unat prev = 16 * k"
    using assms by (elim dvdE)
  have "unat (drop_bit 4 prev) = k"
    by (simp add: drop_bit_eq_div unat_div k)
  then have "unat (drop_bit 4 prev AND 0xFFFF) = k mod 65536"
    using unat_and_mask [of "drop_bit 4 prev" 16] by (simp add: mask_eq_exp_minus_1)
  then have "unat (ucast (drop_bit 4 prev AND 0xFFFF) :: u16) = k mod 65536"
    by (simp add: unsigned_ucast_eq take_bit_eq_mod)
  then have "unat (ucast (ucast (drop_bit 4 prev AND 0xFFFF) :: u16) :: u32) = k mod 65536"
    by (simp add: unat_ucast_u16_u32)
  then have "unat (push_bit 4 (ucast (ucast (drop_bit 4 prev AND 0xFFFF) :: u16) :: u32)) = 16 * (k mod 65536)"
    by (simp add: push_bit_eq_mult unat_word_ariths)
  also have "\<dots> = unat prev mod 1048576"
    using mult_mod_right [of 16 k 65536] by (simp add: k)
  finally have "int (unat (push_bit 4 (ucast (ucast (drop_bit 4 prev AND 0xFFFF) :: u16) :: u32))) = int (unat prev mod 1048576)"
    by (rule arg_cong)
  then show ?thesis
    by (simp add: zmod_int)
qed

lemma full_base_correct:
  assumes "16 dvd unat prev" "unat (prev - (cur - 262144)) < 1048576"
  shows "full_base_tslot cur (push_bit 4 (ucast (ucast (drop_bit 4 prev AND 0xFFFF) :: u16))) = prev"
proof -
  define F where "F = cur - 262144"
  define b where "b = (push_bit 4 (ucast (ucast (drop_bit 4 prev AND 0xFFFF) :: u16)) :: u32)"
  have F: "cur - push_bit 18 1 = F"
    by (simp add: F_def)
  have m: "uint (x AND 0xFFFFF) = uint x mod 1048576" for x :: u32
    using arg_cong [OF unat_and_mask [of x 20], of int] by (simp add: mask_eq_exp_minus_1 zmod_int)
  have dvd: "(1048576 :: int) dvd 4294967296" "(1048576 :: int) dvd 18446744073709551616"
    by simp_all
  have "uint (ucast F :: u32) = uint F mod 4294967296"
    by (simp add: unsigned_ucast_eq take_bit_eq_mod)
  then have "uint (b - ucast F) mod 1048576 = (uint prev mod 1048576 - uint F mod 4294967296) mod 1048576"
    using base_of_packet [OF assms(1)] by (simp add: b_def [symmetric] uint_word_ariths mod_mod_cancel [OF dvd(1)])
  also have "\<dots> = (uint prev - uint F) mod 1048576"
    by (subst (1 2) mod_diff_eq [symmetric]) (simp only: mod_mod_cancel [OF dvd(1)] mod_mod_trivial)
  also have "\<dots> = uint (prev - F) mod 1048576"
    by (simp add: uint_word_ariths mod_mod_cancel [OF dvd(2)])
  also have "\<dots> = uint (prev - F)"
  proof (rule mod_pos_pos_trivial)
    show "uint (prev - F) < 1048576"
      using of_nat_less_iff [where ?'a = int, THEN iffD2, OF assms(2)] by (simp add: F_def [symmetric])
  qed simp
  finally have "uint ((b - ucast F) AND 0xFFFFF) = uint (prev - F)"
    by (simp only: m)
  then have "ucast ((b - ucast F) AND 0xFFFFF) = prev - F"
    by (simp only: ucast_eq) simp
  then show ?thesis
    unfolding full_base_tslot_def F Let_def b_def [symmetric] by simp
qed

lemma first_prev:
  defines "prev \<equiv> (\<lambda>cur :: u64. (cur - 1) AND push_bit 4 (NOT 0))"
  shows "16 dvd unat (prev cur)" and "1 \<le> unat (cur - prev cur)" and "unat (cur - prev cur) \<le> 16"
proof -
  have n: "push_bit 4 (NOT 0) = NOT (mask 4 :: u64)"
    by (rule bit_word_eqI) (auto simp: bit_push_bit_iff bit_not_iff bit_mask_iff)
  define r where "r = (cur - 1) AND mask 4"
  have sum: "r + prev cur = cur - 1"
    unfolding r_def prev_def n by (rule and_plus_and_not)
  have r: "unat r < 16"
    unfolding r_def unat_and_mask by simp
  have "cur - prev cur = r + 1"
    using sum by (simp add: algebra_simps)
  then have "unat (cur - prev cur) = unat r + 1"
    using r by (simp add: unat_add_mod)
  then show "1 \<le> unat (cur - prev cur)" "unat (cur - prev cur) \<le> 16"
    using r by simp_all
  have "prev cur AND mask 4 = 0"
    unfolding prev_def n by (rule bit_word_eqI) (auto simp: bit_and_iff bit_not_iff)
  then have "unat (prev cur) mod 16 = 0"
    using unat_and_mask [of "prev cur" 4] by simp
  then show "16 dvd unat (prev cur)"
    by (simp add: dvd_eq_mod_eq_0)
qed

definition pd_sizes :: "fpproto_pktdesc \<Rightarrow> bool" where
  "pd_sizes pd \<longleftrightarrow> length (pd_dsts pd) = 15 \<and> length (pd_dst_counts pd) = 15 \<and> length (pd_tslot_desc pd) = 64"

definition base_before :: "u64 \<Rightarrow> u64" where
  "base_before cur = (cur - 1) AND push_bit 4 (NOT 0)"

lemma fill_packet_alloc_marked:
  fixes c node pd
  defines "w \<equiv> en_pending (end_nodes c node)" and "allocs \<equiv> en_allocs (end_nodes c node)"
  defines "cur \<equiv> wnd_earliest_marked w"
  defines "f0 \<equiv> \<lparr> f_enc = alloc_enc_space (ccore c),
      f_pd = pd\<lparr> pd_base_tslot := ucast (drop_bit 4 (base_before cur) AND 0xFFFF) \<rparr>,
      f_wnd = w, f_n_dsts = 0, f_n_tslot = 0, f_bug = False \<rparr>"
  assumes ne: "\<not> wnd_empty w" and f1: "fill_allocs allocs (base_before cur) cur f0 = Some f1"
    and f: "fill_cleanup f1 = Some f" "even (f_n_tslot f)"
  shows "fill_packet_alloc node pd c = Some ((f_pd f)\<lparr> pd_n_dsts := of_nat (f_n_dsts f), pd_alloc_tslot := of_nat (f_n_tslot f) \<rparr>,
      (upd_en node (\<lambda>en. en\<lparr> en_pending := f_wnd f \<rparr>) c)\<lparr> ccore := (ccore c)\<lparr> alloc_enc_space := f_enc f \<rparr>, comm_bug := comm_bug c \<or> f_bug f \<rparr>)"
proof -
  have "fill_packet_alloc node pd c = do {
      f \<leftarrow> fill_allocs allocs (base_before cur) cur f0;
      f \<leftarrow> fill_cleanup f;
      guard_o (even (f_n_tslot f));
      let c = upd_en node (\<lambda>en. en\<lparr> en_pending := f_wnd f \<rparr>) c;
      let c = c\<lparr> ccore := (ccore c)\<lparr> alloc_enc_space := f_enc f \<rparr>, comm_bug := comm_bug c \<or> f_bug f \<rparr>;
      Some ((f_pd f)\<lparr> pd_n_dsts := of_nat (f_n_dsts f), pd_alloc_tslot := of_nat (f_n_tslot f) \<rparr>, c) }"
    using ne unfolding fill_packet_alloc_def Let_def w_def allocs_def f0_def cur_def base_before_def
    by (simp only: if_False)
  then show ?thesis
    by (simp add: f1 f guard_o_def upd_en_def)
qed

lemma fill_packet_alloc_ok:
  fixes c node
  defines "w \<equiv> en_pending (end_nodes c node)" and "allocs \<equiv> en_allocs (end_nodes c node)"
  assumes inv: "wnd_inv w" and ne: "wnd_set w \<noteq> {}" and enc: "\<forall>i. alloc_enc_space (ccore c) i = 0"
    and sz: "pd_sizes pd" and v: "\<forall>t \<in> wnd_set w. valid_alloc (allocs (unat (wnd_pos t)))"
  shows "\<exists>f ts. fill_packet_alloc node pd c = Some ((f_pd f)\<lparr> pd_n_dsts := of_nat (f_n_dsts f), pd_alloc_tslot := of_nat (f_n_tslot f) \<rparr>,
      (upd_en node (\<lambda>en. en\<lparr> en_pending := f_wnd f \<rparr>) c)\<lparr> ccore := (ccore c)\<lparr> alloc_enc_space := f_enc f \<rparr>, comm_bug := comm_bug c \<rparr>)
    \<and> ts \<noteq> [] \<and> oldest_first w ts (f_wnd f) \<and> wnd_inv (f_wnd f) \<and> (\<forall>i. f_enc f i = 0) \<and> sizes_ok f \<and> even (f_n_tslot f)
    \<and> decode_alloc (written_dsts f) (written_bytes f) (base_before (wnd_earliest_marked w)) = map (entry allocs) ts
    \<and> pd_base_tslot (f_pd f) = ucast (drop_bit 4 (base_before (wnd_earliest_marked w)) AND 0xFFFF)
    \<and> (wnd_set (f_wnd f) = {} \<or> 62 < f_n_tslot f \<or> f_n_dsts f = 15)"
proof -
  define cur where "cur = wnd_earliest_marked w"
  define prev where "prev = base_before cur"
  define pd1 where "pd1 = pd\<lparr> pd_base_tslot := ucast (drop_bit 4 prev AND 0xFFFF) \<rparr>"
  define f0 where "f0 = \<lparr> f_enc = alloc_enc_space (ccore c), f_pd = pd1, f_wnd = w, f_n_dsts = 0, f_n_tslot = 0, f_bug = False \<rparr>"
  have f0: "filled prev f0 [] prev"
    using inv enc sz by (simp add: filled_def sizes_ok_def enc_ok_def emits_def f0_def pd1_def pd_sizes_def)
  have e: "earliest_of (f_wnd f0) (wnd_set (f_wnd f0)) cur"
    using wnd_earliest_marked_correct [OF inv ne] by (simp add: f0_def cur_def)
  have gap: "1 \<le> unat (cur - prev)" "unat (cur - prev) \<le> 256"
    using first_prev(2,3) [of cur] by (simp_all add: prev_def base_before_def)
  have "wp (fill_allocs allocs prev cur f0) (\<lambda>f'. \<exists>ts. packed prev allocs f0 [] ts f')"
    using v by (intro fill_allocs_ok [OF f0 _ gap e]) (simp_all add: f0_def)
  then obtain f1 ts where f1: "fill_allocs allocs prev cur f0 = Some f1" "packed prev allocs f0 [] ts f1"
    by (auto dest!: wpD)
  then obtain full where full: "filled prev f1 (map (entry allocs) ts) full"
    by (auto simp: packed_def)
  from wpD [OF fill_cleanup_ok [OF full]] obtain f where f: "fill_cleanup f1 = Some f" "\<forall>i. f_enc f i = 0"
      "sizes_ok f" "even (f_n_tslot f)" "wnd_inv (f_wnd f)" "f_wnd f = f_wnd f1" "\<not> f_bug f" "f_n_dsts f = f_n_dsts f1"
      "pd_base_tslot (f_pd f) = pd_base_tslot (f_pd f1)"
      "decode_alloc (written_dsts f) (written_bytes f) prev = map (entry allocs) ts"
    by auto
  have n: "f_n_tslot f1 \<le> f_n_tslot f"
    using f(1) by (auto simp: fill_cleanup_def Let_def dest: put_tslot_n split: if_splits)
  have "\<not> wnd_empty w"
    using ne wnd_empty_iff [OF inv] by simp
  then have "fill_packet_alloc node pd c = Some ((f_pd f)\<lparr> pd_n_dsts := of_nat (f_n_dsts f), pd_alloc_tslot := of_nat (f_n_tslot f) \<rparr>,
      (upd_en node (\<lambda>en. en\<lparr> en_pending := f_wnd f \<rparr>) c)\<lparr> ccore := (ccore c)\<lparr> alloc_enc_space := f_enc f \<rparr>, comm_bug := comm_bug c \<rparr>)"
    using fill_packet_alloc_marked [of c node pd f1 f] f1(1) f(1,4,7)
    by (simp add: w_def allocs_def cur_def prev_def pd1_def f0_def)
  moreover have "ts \<noteq> []" "oldest_first w ts (f_wnd f)" "pd_base_tslot (f_pd f) = ucast (drop_bit 4 prev AND 0xFFFF)"
    "wnd_set (f_wnd f) = {} \<or> 62 < f_n_tslot f \<or> f_n_dsts f = 15"
    using f1(2) f n by (auto simp: packed_def f0_def pd1_def)
  ultimately show ?thesis
    using f unfolding prev_def cur_def by blast
qed

end
