(* ===== verification/FP_Comm_Spec.thy ===== *)
theory FP_Comm_Spec
  imports FP_Tslots FP_Alloc_Spec
begin

unbundle bit_operations_syntax

text \<open>
  Properties that span the arbiter's communication core and the end node's scheduler: the
  allocations an arbiter packs are the timeslots the end node is admitted in, the demand counters
  the two sides keep agree, the allocation window of the arbiter, and what goes wrong where the two
  sides disagree.
\<close>

subsection \<open>A small arbiter\<close>

definition zero_timers :: fp_timers where
  "zero_timers = \<lparr> tmr_head = 0, tmr_slots = \<lambda>_. [], tim_time = \<lambda>_. TIMER_NOT_SET_TIME \<rparr>"

definition demo_en :: "fp_window \<Rightarrow> end_node_state" where
  "demo_en w = \<lparr> en_conn = zero_conn, en_dst_ether = replicate 6 0, en_dst_ip = replicate 4 0, en_controller_ip = replicate 4 0,
     en_pending = w, en_allocs = \<lambda>_. 5, en_demands = \<lambda>_. 0, alloc_to_dst = \<lambda>_. 0, acked_allocs = \<lambda>_. 0,
     report_queue = \<lparr> is_pending = \<lambda>_. 0, q_pending = \<lambda>_. 0, rq_head = 0, rq_tail = 0 \<rparr>,
     tx_pacer = pacer_init_full 0 1 1 1, total_alloc = 0, total_acked_alloc = 0 \<rparr>"

definition demo_comm :: comm where
  "demo_comm = \<lparr> end_nodes = \<lambda>_. demo_en demo_wnd,
     ccore = \<lparr> alloc_enc_space = \<lambda>_. 0, latest_timeslot = \<lambda>_. 1000, timeout_timers = zero_timers, tx_timers = zero_timers \<rparr>,
     adm = demo_status demo_backlog [], comm_bug = False, comm_sent = [] \<rparr>"

definition blank_pd :: fpproto_pktdesc where
  "blank_pd = \<lparr> pd_n_areq = 0, pd_areq = replicate 10 \<lparr> src_dst_key = 0, tslots = 0 \<rparr>, pd_n_dsts = 0, pd_dsts = replicate 15 0,
     pd_dst_counts = replicate 15 0, pd_alloc_tslot = 0, pd_tslot_desc = replicate 64 0, pd_base_tslot = 0,
     pd_sent_timestamp = 0, pd_seqno = 0, pd_ack_seq = 0, pd_ack_vec = 0, pd_send_reset = False, pd_reset_timestamp = 0 \<rparr>"

subsection \<open>Allocations\<close>

lemma base_before_near:
  assumes "unat (t - (cur - 262128)) < 1048560"
  shows "unat (base_before t - (cur - 262144)) < 1048576"
proof -
  define p where "p = base_before t"
  have p: "1 \<le> unat (t - p)" "unat (t - p) \<le> 16"
    using first_prev(2,3) [of t] by (simp_all add: p_def base_before_def)
  have "unat (16 - (t - p)) = 16 - unat (t - p)"
    using p by (simp add: unat_sub word_le_nat_alt)
  then have "unat (16 - (t - p)) < 16"
    using p by simp
  moreover have e: "p - (cur - 262144) = (t - (cur - 262128)) + (16 - (t - p))"
    by simp
  moreover have "unat (x + y) = unat x + unat y" if "unat x < 1048560" "unat y < 16" for x y :: u64
    using that by (simp add: unat_add_mod)
  ultimately show ?thesis
    using assms unfolding p_def [symmetric] e by fastforce
qed

lemma foldo_entry:
  "foldo (\<lambda>(t, d). admit_tslot cur t d) (map (entry allocs) ts) q
     = foldo (\<lambda>t. admit_tslot cur t (allocs (unat (wnd_pos t)))) ts q"
  by (induction ts arbitrary: q) (simp_all add: entry_def cong: Option.bind_cong)

text \<open>
  C36. Allocations round trip. When the arbiter has allocations pending for an end node,
  \<^verbatim>\<open>fill_packet_alloc\<close> ends and packs the oldest of them: those it packs leave the window, the rest
  stays, and something stays only when the packet has no room for another destination or another
  timeslot. The end node that reads the bytes admits exactly these timeslots, oldest first, each for
  the destination the arbiter recorded, whatever the 16 bits of the base stand for, provided the
  oldest timeslot is within \<^verbatim>\<open>2^18\<close> timeslots behind and about \<^verbatim>\<open>3 * 2^18\<close> ahead of the end node's
  clock. The arbiter's scratch table is left all zero for the next packet.
\<close>

theorem allocations_roundtrip:
  assumes "wnd_inv (en_pending (end_nodes c node))" "wnd_set (en_pending (end_nodes c node)) \<noteq> {}"
    and "\<forall>i. alloc_enc_space (ccore c) i = 0" "pd_sizes pd"
    and "\<forall>t \<in> wnd_set (en_pending (end_nodes c node)). valid_alloc (en_allocs (end_nodes c node) (unat (wnd_pos t)))"
    and "unat (wnd_earliest_marked (en_pending (end_nodes c node)) - (timeslot_at now_real q - 262128)) < 1048560"
  shows "\<exists>pd' c' ts. fill_packet_alloc node pd c = Some (pd', c') \<and> ts \<noteq> []
    \<and> oldest_first (en_pending (end_nodes c node)) ts (en_pending (end_nodes c' node))
    \<and> (wnd_set (en_pending (end_nodes c' node)) = {} \<or> 62 < pd_alloc_tslot pd' \<or> pd_n_dsts pd' = 15)
    \<and> wnd_inv (en_pending (end_nodes c' node)) \<and> (\<forall>i. alloc_enc_space (ccore c') i = 0) \<and> pd_sizes pd'
    \<and> sch_handle_alloc now now_real (push_bit 4 (ucast (pd_base_tslot pd'))) (take (unat (pd_n_dsts pd')) (pd_dsts pd'))
        (take (unat (pd_alloc_tslot pd')) (pd_tslot_desc pd')) q
      = foldo (\<lambda>t. admit_tslot (timeslot_at now_real q) t (en_allocs (end_nodes c node) (unat (wnd_pos t)))) ts (trigger_tx now q)"
proof -
  define w where "w = en_pending (end_nodes c node)"
  define allocs where "allocs = en_allocs (end_nodes c node)"
  define cur where "cur = timeslot_at now_real q"
  define b where "b = base_before (wnd_earliest_marked w)"
  obtain f ts where f: "fill_packet_alloc node pd c = Some ((f_pd f)\<lparr> pd_n_dsts := of_nat (f_n_dsts f), pd_alloc_tslot := of_nat (f_n_tslot f) \<rparr>,
      (upd_en node (\<lambda>en. en\<lparr> en_pending := f_wnd f \<rparr>) c)\<lparr> ccore := (ccore c)\<lparr> alloc_enc_space := f_enc f \<rparr>, comm_bug := comm_bug c \<rparr>)"
      "ts \<noteq> []" "oldest_first w ts (f_wnd f)" "wnd_inv (f_wnd f)" "\<forall>i. f_enc f i = 0" "sizes_ok f"
      "decode_alloc (written_dsts f) (written_bytes f) b = map (entry allocs) ts"
      "pd_base_tslot (f_pd f) = ucast (drop_bit 4 b AND 0xFFFF)"
      "wnd_set (f_wnd f) = {} \<or> 62 < f_n_tslot f \<or> f_n_dsts f = 15"
    using fill_packet_alloc_ok [OF assms(1-5)] by (auto simp: w_def allocs_def b_def)
  have n: "unat (of_nat (f_n_dsts f) :: u16) = f_n_dsts f" "unat (of_nat (f_n_tslot f) :: u16) = f_n_tslot f"
    using f(6) by (simp_all add: sizes_ok_def unat_of_nat)
  have "full_base_tslot cur (push_bit 4 (ucast (pd_base_tslot (f_pd f)))) = b"
    unfolding f(8) b_def
  proof (rule full_base_correct)
    show "16 dvd unat (base_before (wnd_earliest_marked w))"
      using first_prev(1) by (simp add: base_before_def)
    show "unat (base_before (wnd_earliest_marked w) - (cur - 262144)) < 1048576"
      using base_before_near assms(6) by (simp add: w_def cur_def)
  qed
  moreover have "timeslot_at now_real (trigger_tx now q) = cur"
    by (simp add: cur_def timeslot_at_def trigger_tx_def Let_def split: prod.splits)
  ultimately have "sch_handle_alloc now now_real (push_bit 4 (ucast (pd_base_tslot (f_pd f)))) (written_dsts f) (written_bytes f) q
      = foldo (\<lambda>t. admit_tslot cur t (allocs (unat (wnd_pos t)))) ts (trigger_tx now q)"
    by (simp add: sch_handle_alloc_def alloc_specs_decode f(7) foldo_entry)
  then show ?thesis
    unfolding f(1) w_def [symmetric] allocs_def [symmetric] cur_def [symmetric]
    using f(2-6,9) n
    by (intro exI [of _ ts] exI conjI refl)
       (auto simp: upd_en_def pd_sizes_def sizes_ok_def word_less_nat_alt word_unat_eq_iff)
qed

lemma demo_earliest: "wnd_earliest_marked demo_wnd = 900"
proof -
  have "earliest_of demo_wnd {900, 990} (wnd_earliest_marked demo_wnd)"
    using wnd_earliest_marked_correct [OF demo_wnd_inv(1)] by (simp add: demo_wnd_inv)
  then show ?thesis
    by (auto simp: earliest_of_def demo_wnd_inv)
qed

theorem allocations_roundtrip_witness:
  "\<exists>pd' c' ts. fill_packet_alloc 7 blank_pd demo_comm = Some (pd', c') \<and> ts \<noteq> []
    \<and> oldest_first demo_wnd ts (en_pending (end_nodes c' 7))
    \<and> sch_handle_alloc 0 950 (push_bit 4 (ucast (pd_base_tslot pd'))) (take (unat (pd_n_dsts pd')) (pd_dsts pd'))
        (take (unat (pd_alloc_tslot pd')) (pd_tslot_desc pd')) demo_sched
      = foldo (\<lambda>t. admit_tslot 950 t 5) ts (trigger_tx 0 demo_sched)"
proof -
  have c: "end_nodes demo_comm 7 = demo_en demo_wnd" "alloc_enc_space (ccore demo_comm) = (\<lambda>_. 0)"
    by (simp_all add: demo_comm_def)
  have e: "en_pending (demo_en demo_wnd) = demo_wnd" "en_allocs (demo_en demo_wnd) = (\<lambda>_. 5)"
    by (simp_all add: demo_en_def)
  have t: "timeslot_at 950 demo_sched = 950"
    by (simp add: timeslot_at_def demo_sched_def)
  have p: "pd_sizes blank_pd" "valid_alloc 5"
    by (simp_all add: pd_sizes_def blank_pd_def valid_alloc_def)
  show ?thesis
    using allocations_roundtrip [of demo_comm 7 blank_pd 950 demo_sched 0, unfolded c e t demo_earliest] p
    by (simp add: demo_wnd_inv) blast
qed

subsection \<open>Demands\<close>

lemma areq_demand_recovers:
  fixes D orig :: u32
  assumes "unat (D - (orig - 32768)) < 65536"
  shows "areq_demand orig (ucast D) = D"
proof -
  define F where "F = orig - 32768"
  have m: "uint ((x :: u32) AND 0xFFFF) = uint x mod 65536" for x
    using arg_cong [OF unat_and_mask [of x 16], of int] by (simp add: mask_eq_exp_minus_1 zmod_int)
  have dvd: "(65536 :: int) dvd 4294967296"
    by simp
  have "unat (ucast (ucast D :: u16) :: u32) = unat D mod 65536"
    unfolding unat_ucast_u16_u32 by (simp add: unsigned_ucast_eq take_bit_eq_mod)
  from arg_cong [OF this, of int] have "uint (ucast (ucast D :: u16) :: u32) = uint D mod 65536"
    by (simp only: uint_nat zmod_int of_nat_numeral)
  then have "uint (ucast (ucast D :: u16) - F) mod 65536 = (uint D mod 65536 - uint F) mod 65536"
    by (simp add: uint_word_ariths mod_mod_cancel [OF dvd])
  also have "\<dots> = uint (D - F) mod 65536"
    by (simp add: uint_word_ariths mod_mod_cancel [OF dvd] mod_diff_left_eq)
  also have "\<dots> = uint (D - F)"
  proof (rule mod_pos_pos_trivial)
    show "uint (D - F) < 65536"
      using of_nat_less_iff [where ?'a = int, THEN iffD2, OF assms] by (simp add: F_def [symmetric])
  qed simp
  finally have "uint ((ucast (ucast D :: u16) - F) AND 0xFFFF) = uint (D - F)"
    by (simp only: m)
  then have "(ucast (ucast D :: u16) - F) AND 0xFFFF = D - F"
    by (rule word_uint_eqI)
  moreover have "orig - push_bit 15 1 = F"
    by (simp add: F_def)
  ultimately show ?thesis
    unfolding areq_demand_def Let_def by simp
qed

lemma ucast_diff_u32: "(ucast (x :: u64) :: u32) - ucast y = ucast (x - y)"
  by (rule word_uint_eqI)
     (simp add: unsigned_ucast_eq take_bit_eq_mod uint_word_ariths mod_diff_eq mod_mod_cancel)

lemma sint_small: "int (unat (x :: u32)) < 2 ^ 31 \<Longrightarrow> sint x = int (unat x)"
  by (simp add: sint_uint signed_take_bit_int_eq_self_iff) (rule order_trans [OF _ uint_ge_0], simp)

lemma sint_of_int_u32: "- 2147483648 \<le> k \<Longrightarrow> k < 2147483648 \<Longrightarrow> sint (word_of_int k :: u32) = k"
  by (simp add: sint_sbintrunc' signed_take_bit_int_eq_self_iff)

lemma unat_ucast_small: "unat (x :: u64) < 4294967296 \<Longrightarrow> unat (ucast x :: u32) = unat x"
  by (simp add: unsigned_ucast_eq take_bit_eq_mod)

lemma ucast_u16_u32: "(ucast (ucast (N :: u64) :: u32) :: u16) = ucast N"
  by (rule bit_word_eqI) (simp add: bit_ucast_iff)

lemma demand_ahead:
  fixes A N :: u64
  assumes "A \<le> N" "unat N < unat A + 32768"
  shows "areq_demand (ucast A) (ucast N) = ucast N" and "sint (ucast N - (ucast A :: u32)) = int (unat N - unat A)"
proof -
  have k: "unat (N - A) = unat N - unat A"
    using assms(1) by (simp add: unat_sub)
  have d: "unat ((ucast N :: u32) - ucast A) = unat N - unat A"
    unfolding ucast_diff_u32 using assms k by (subst unat_ucast_small) simp_all
  then show "sint (ucast N - (ucast A :: u32)) = int (unat N - unat A)"
    using assms by (subst sint_small) simp_all
  define x where "x = (ucast N :: u32) - ucast A"
  have "(ucast N :: u32) - (ucast A - 32768) = x + 32768"
    by (simp add: x_def)
  moreover have "unat (x + 32768) < 65536"
    using d assms by (simp add: x_def [symmetric] unat_word_ariths)
  ultimately have "unat ((ucast N :: u32) - (ucast A - 32768)) < 65536"
    by (simp only:)
  from areq_demand_recovers [OF this] show "areq_demand (ucast A) (ucast N) = ucast N"
    by (simp only: ucast_u16_u32)
qed

lemma demand_behind:
  fixes A N :: u64
  assumes "N \<le> A" "unat A < unat N + 32768"
  shows "areq_demand (ucast A) (ucast N) = ucast N" and "sint (ucast N - (ucast A :: u32)) \<le> 0"
proof -
  have k: "unat (A - N) = unat A - unat N"
    using assms(1) by (simp add: unat_sub)
  define x where "x = (ucast A :: u32) - ucast N"
  have x: "unat x < 32768" "ucast N - (ucast A :: u32) = - x"
    using assms k by (simp add: x_def ucast_diff_u32 unat_ucast_small) (simp add: x_def)
  show "sint (ucast N - (ucast A :: u32)) \<le> 0"
  proof -
    have "- 2147483648 \<le> - int (unat x)" "- int (unat x) < 2147483648"
      using x(1) by linarith+
    from sint_of_int_u32 [OF this] show ?thesis
      by (simp add: x(2))
  qed
  have "(ucast N :: u32) - (ucast A - 32768) = 32768 - x"
    by (simp add: x_def)
  moreover have "unat (32768 - x) < 65536"
    using x(1) by (simp add: unat_sub word_le_nat_alt)
  ultimately have "unat ((ucast N :: u32) - (ucast A - 32768)) < 65536"
    by (simp only:)
  from areq_demand_recovers [OF this] show "areq_demand (ucast A) (ucast N) = ucast N"
    by (simp only: ucast_u16_u32)
qed

lemma areq_one_counter:
  fixes A N :: u64
  assumes "en_demands (end_nodes c node) (unat dst) = ucast A" "unat N < unat A + 32768" "unat A < unat N + 32768"
  shows "comm_areq_one node dst (ucast N) c = (if N \<le> A then Some c else do {
      st \<leftarrow> seq_add_backlog (adm c) (of_nat node) dst (of_nat (unat N - unat A));
      Some (upd_en node (\<lambda>en. en\<lparr> en_demands := (en_demands en)(unat dst := ucast N) \<rparr>) (c\<lparr> adm := st \<rparr>)) })"
proof (cases "N \<le> A")
  case True
  show ?thesis
    using demand_behind [OF True assms(3)] True by (simp add: comm_areq_one_def assms(1) Let_def)
next
  case False
  then have le: "A \<le> N" and lt: "unat A < unat N"
    by (simp_all add: word_le_nat_alt)
  have pos: "0 < int (unat N - unat A)"
    unfolding of_nat_0_less_iff using lt by simp
  show ?thesis
    unfolding comm_areq_one_def Let_def assms(1) demand_ahead [OF le assms(2)] if_P [OF pos] if_not_P [OF False]
    by (simp only: of_int_of_nat_eq)
qed

text \<open>
  C37. A request reaches the arbiter exactly. The end node asks for its whole demand, but for less
  than \<^verbatim>\<open>2^13\<close> timeslots more than the arbiter has acknowledged; the packet carries 16 bits of the
  counter. When the arbiter's counter is one the end node may have sent since, the arbiter adds to
  its backlog exactly the timeslots it has not seen, and its counter becomes the end node's; a
  request that arrives late or twice changes nothing.
\<close>

theorem request_reaches_arbiter:
  assumes "acked_tslots (dsts q (unat dst)) < demand_tslots (dsts q (unat dst))"
    and "unat (acked_tslots (dsts q (unat dst))) + 8191 < 2 ^ 64"
    and "unat (pd_n_areq pd) < length (pd_areq pd)"
    and "en_demands (end_nodes c node) (unat dst) = ucast (A :: u64)"
    and "acked_tslots (dsts q (unat dst)) \<le> A" "A \<le> acked_tslots (dsts q (unat dst)) + 8191"
  shows "\<exists>pd' q' N. request_one dst (pd, q) = (pd', q') \<and> pd_n_areq pd' = pd_n_areq pd + 1
    \<and> pd_areq pd' ! unat (pd_n_areq pd) = \<lparr> src_dst_key = ucast dst, tslots = N \<rparr>
    \<and> requested_tslots (dsts q' (unat dst)) = N
    \<and> N = min (demand_tslots (dsts q (unat dst))) (acked_tslots (dsts q (unat dst)) + 8191)
    \<and> comm_areq_one node dst (ucast N) c = (if N \<le> A then Some c else do {
        st \<leftarrow> seq_add_backlog (adm c) (of_nat node) dst (of_nat (unat N - unat A));
        Some (upd_en node (\<lambda>en. en\<lparr> en_demands := (en_demands en)(unat dst := ucast N) \<rparr>) (c\<lparr> adm := st \<rparr>)) })"
proof -
  define a where "a = acked_tslots (dsts q (unat dst))"
  define N where "N = min (demand_tslots (dsts q (unat dst))) (a + 8191)"
  have a8: "unat (a + 8191) = unat a + 8191"
    using assms(2) by (simp add: a_def [symmetric] unat_add_mod)
  then have "a < a + 8191"
    by (simp add: word_less_nat_alt)
  then have N: "a < N" "N \<le> a + 8191"
    using assms(1) by (simp_all add: N_def a_def [symmetric])
  have W: "a + FASTPASS_REQUEST_WINDOW_SIZE - 1 = a + 8191"
    by (simp add: FASTPASS_REQUEST_WINDOW_SIZE_def)
  have "unat N < unat A + 32768" "unat A < unat N + 32768"
    using N assms(5,6) a8 by (simp_all add: a_def [symmetric] word_le_nat_alt word_less_nat_alt)
  note r = areq_one_counter [OF assms(4) this]
  obtain pd' q' where "request_one dst (pd, q) = (pd', q')" "pd_n_areq pd' = pd_n_areq pd + 1"
      "pd_areq pd' ! unat (pd_n_areq pd) = \<lparr> src_dst_key = ucast dst, tslots = N \<rparr>"
      "requested_tslots (dsts q' (unat dst)) = N"
    using N(1) [unfolded linorder_not_le [symmetric]] assms(3)
    by (simp add: request_one_def Let_def upd_dst_def a_def [symmetric] W N_def [symmetric])
  then show ?thesis
    unfolding a_def [symmetric] N_def [symmetric] using r by (intro exI [of _ N] exI conjI refl)
qed

theorem request_reaches_arbiter_witness:
  "\<exists>pd' q' N. request_one 3 (blank_pd, demo_sched2) = (pd', q') \<and> tslots (pd_areq pd' ! 0) = N
    \<and> (\<exists>st. comm_areq_one 7 3 (ucast N) demo_comm
         = Some (upd_en 7 (\<lambda>en. en\<lparr> en_demands := (en_demands en)(3 := ucast N) \<rparr>) (demo_comm\<lparr> adm := st \<rparr>)))"
proof -
  have d: "dsts demo_sched2 3 = zero_dst\<lparr> demand_tslots := 2, flow_state := FLOW_REQUEST_QUEUE \<rparr>"
    by (simp add: demo_sched2_def flow_inc_demand_def enqueue_dsts upd_dst_def Let_def demo_sched_def zero_dst_def)
  have c: "en_demands (end_nodes demo_comm 7) = (\<lambda>_. 0)" "pd_n_areq blank_pd = 0" "length (pd_areq blank_pd) = 10"
    by (simp_all add: demo_comm_def demo_en_def blank_pd_def)
  have "endnodes (7, 3)" "adm demo_comm = demo_status demo_backlog []"
    by (simp_all add: endnodes_def demo_comm_def)
  then have "\<exists>st. seq_add_backlog (adm demo_comm) 7 3 2 = Some st"
    using wpD [OF seq_add_backlog_ok [OF demo_room demo_status_ok, of 7 3 2]] by auto
  then show ?thesis
    using request_reaches_arbiter [of demo_sched2 3 blank_pd demo_comm 7 0]
    by (auto simp: d c zero_dst_def)
qed

subsection \<open>Resets\<close>

lemma reset_dst_idle:
  assumes "demand_tslots (dsts q d) = used_tslots (dsts q d)"
  shows "dsts (reset_dst now i q) d = dsts q d"
  using assms
  by (auto simp: reset_dst_def Let_def upd_dst_def unreq_dsts_enqueue_if_not_queued_def trigger_tx_def)

lemma handle_reset_idle:
  assumes "demand_tslots (dsts q d) = used_tslots (dsts q d)"
  shows "dsts (sch_handle_reset now base_idx q) d = dsts q d"
proof -
  have keep: "dsts (fold (\<lambda>i. reset_dst now (g i)) is q') d = dsts q d" if "dsts q' d = dsts q d" for g "is" q'
    using that
  proof (induction "is" arbitrary: q')
    case (Cons i "is")
    then show ?case
      using reset_dst_idle [of q' d now "g i"] assms by simp
  qed simp
  show ?thesis
    unfolding sch_handle_reset_def by (rule keep) simp
qed

lemma handle_reset_demands:
  assumes "comm_handle_reset node c = Some c'" "d < 256"
  shows "en_demands (end_nodes c' node) d = 0"
  using assms by (auto simp: comm_handle_reset_def upd_en_def fill_def MAX_NODES_def bind_eq_Some_conv)

lemma areq_demand_ignored:
  fixes N :: u64
  assumes "32768 \<le> unat N" "unat N < 65536"
  shows "sint (areq_demand 0 (ucast N)) \<le> 0"
proof -
  obtain k where k: "unat N = k + 32768" "k < 32768"
    using assms le_Suc_ex [of 32768 "unat N"] by (auto simp: add.commute)
  define x where "x = (ucast (ucast N :: u16) :: u32)"
  have "unat x = unat N"
    unfolding x_def unat_ucast_u16_u32 using assms(2) by (simp add: unsigned_ucast_eq take_bit_eq_mod)
  then have "unat ((x + 32768) AND 0xFFFF) = k"
    using k(2) unat_and_mask [of "x + 32768" 16]
    by (simp add: mask_eq_exp_minus_1 unat_word_ariths k(1) mod_mod_cancel)
  then have "(x + 32768) AND 0xFFFF = of_nat k"
    by (intro word_unat_eq_iff [THEN iffD2]) (use k in \<open>simp add: unat_of_nat\<close>)
  then have "areq_demand 0 (ucast N) = word_of_int (int k - 32768)"
    by (simp add: areq_demand_def Let_def x_def)
  then show ?thesis
    using k by (simp only: sint_of_int_u32)
qed

lemma areq_one_low:
  assumes "en_demands (end_nodes c node) (unat dst) = ucast (0 :: u64)" "d < 65536"
  shows "comm_areq_one node dst (ucast (of_nat d :: u64)) c = (if 0 < d \<and> d < 32768 then do {
      st \<leftarrow> seq_add_backlog (adm c) (of_nat node) dst (of_nat d);
      Some (upd_en node (\<lambda>en. en\<lparr> en_demands := (en_demands en)(unat dst := of_nat d) \<rparr>) (c\<lparr> adm := st \<rparr>)) }
    else Some c)"
proof -
  have u: "unat (of_nat d :: u64) = d" "(ucast (of_nat d :: u64) :: u32) = of_nat d"
    using assms(2) by (simp_all add: unat_of_nat word_unat_eq_iff unsigned_ucast_eq take_bit_eq_mod)
  show ?thesis
  proof (cases "d < 32768")
    case True
    then show ?thesis
      using areq_one_counter [OF assms(1), of "of_nat d"] u by (simp add: word_le_nat_alt)
  next
    case False
    then have "sint (areq_demand 0 (ucast (of_nat d :: u64))) \<le> 0"
      using assms(2) u(1) by (intro areq_demand_ignored) simp_all
    then show ?thesis
      using False assms(1) by (simp add: comm_areq_one_def Let_def)
  qed
qed

text \<open>
  C38. After a reset the two sides disagree about the flows that were idle. The end node rebases only
  the flows that have timeslots pending; the arbiter forgets all demands. When the end node then
  asks for one timeslot of a flow that used \<open>X\<close> timeslots before, its request carries \<open>X + 1\<close>, of
  which the packet holds the low 16 bits. With \<open>d\<close> these low bits, the arbiter adds \<open>d\<close> timeslots to
  its backlog when \<open>0 < d < 2^15\<close>, and ignores the request otherwise. So after fewer than 32767 timeslots
  it allocates all of them again and one more, and after 32767 to 65535 of them it allocates none; only
  when \<open>d\<close> is 1 are the two in agreement. The counters are 64 bits wide; \<open>X\<close> is below \<^verbatim>\<open>2^63\<close>, so that they do
  not wrap.
\<close>

theorem idle_flow_diverges_on_reset:
  assumes "unat dst < 256" "demand_tslots (dsts q (unat dst)) = X" "used_tslots (dsts q (unat dst)) = X"
    and "acked_tslots (dsts q (unat dst)) = X" "unat X < 2 ^ 63"
    and "unat (pd_n_areq pd) < length (pd_areq pd)" and "comm_handle_reset node c = Some c'"
  shows "\<exists>q' pd' q''. fpq_add_timeslot now (ucast dst) (sch_handle_reset now base_idx q) = Some q'
    \<and> demand_tslots (dsts q' (unat dst)) - used_tslots (dsts q' (unat dst)) = 1
    \<and> request_one dst (pd, q') = (pd', q'') \<and> pd_areq pd' ! unat (pd_n_areq pd) = \<lparr> src_dst_key = ucast dst, tslots = X + 1 \<rparr>
    \<and> comm_areq_one node dst (ucast (X + 1)) c' = (let d = (unat X + 1) mod 65536 in if 0 < d \<and> d < 32768 then do {
        st \<leftarrow> seq_add_backlog (adm c') (of_nat node) dst (of_nat d);
        Some (upd_en node (\<lambda>en. en\<lparr> en_demands := (en_demands en)(unat dst := of_nat d) \<rparr>) (c'\<lparr> adm := st \<rparr>)) }
      else Some c')"
proof -
  define q1 where "q1 = sch_handle_reset now base_idx q"
  define q' where "q' = flow_inc_demand now dst 1 q1"
  have d1: "dsts q1 (unat dst) = dsts q (unat dst)"
    unfolding q1_def using assms(2,3) by (intro handle_reset_idle) simp
  have X: "unat (X + 1) = unat X + 1" "unat (X + 8191) = unat X + 8191"
    using assms(5) by (simp_all add: unat_add_mod)
  have u: "unat (ucast (ucast dst :: u64) :: u32) = unat dst" "(ucast (ucast dst :: u64) :: u16) = dst"
  proof -
    show "(ucast (ucast dst :: u64) :: u16) = dst"
      by (rule bit_word_eqI) (simp add: bit_ucast_iff)
    have "(ucast (ucast dst :: u64) :: u32) = ucast dst"
      by (rule bit_word_eqI) (simp add: bit_ucast_iff)
    then show "unat (ucast (ucast dst :: u64) :: u32) = unat dst"
      by (simp add: unat_ucast_u16_u32)
  qed
  have add: "fpq_add_timeslot now (ucast dst) q1 = Some q'"
    using assms(1) u by (simp add: fpq_add_timeslot_def guard_o_def MAX_NODES_def q'_def)
  have d': "demand_tslots (dsts q' (unat dst)) = X + 1" "used_tslots (dsts q' (unat dst)) = X" "acked_tslots (dsts q' (unat dst)) = X"
    using assms(2-4) by (simp_all add: q'_def flow_inc_demand_def Let_def enqueue_dsts upd_dst_def d1)
  have W: "min (X + 1) (X + FASTPASS_REQUEST_WINDOW_SIZE - 1) = X + 1"
    using X by (simp add: FASTPASS_REQUEST_WINDOW_SIZE_def min_def word_le_nat_alt add.commute)
  have "\<not> X + 1 \<le> X"
    using X by (simp add: word_le_nat_alt)
  then have req: "pd_areq (fst (request_one dst (pd, q'))) ! unat (pd_n_areq pd) = \<lparr> src_dst_key = ucast dst, tslots = X + 1 \<rparr>"
    using assms(6) by (simp add: request_one_def Let_def d' W)
  have z: "en_demands (end_nodes c' node) (unat dst) = ucast (0 :: u64)"
    using handle_reset_demands [OF assms(7,1)] by simp
  have low: "(ucast (X + 1) :: u16) = ucast (of_nat ((unat X + 1) mod 65536) :: u64)"
    by (simp add: word_unat_eq_iff unsigned_ucast_eq take_bit_eq_mod unat_of_nat X(1) mod_mod_cancel)
  note areq = areq_one_low [OF z, of "(unat X + 1) mod 65536"]
  show ?thesis
    using add d' req areq unfolding q1_def [symmetric] low Let_def by (intro exI [of _ q'] exI [of _ "fst (request_one dst (pd, q'))"]
      exI [of _ "snd (request_one dst (pd, q'))"] conjI) simp_all
qed

theorem idle_flow_diverges_on_reset_witness:
  "\<exists>q' pd' q'' c'. comm_handle_reset 7 demo_comm = Some c'
    \<and> fpq_add_timeslot 0 3 (sch_handle_reset 0 0 (demo_sched\<lparr> dsts := \<lambda>_. zero_dst\<lparr> demand_tslots := 9, used_tslots := 9, acked_tslots := 9 \<rparr> \<rparr>)) = Some q'
    \<and> request_one 3 (blank_pd, q') = (pd', q'') \<and> tslots (pd_areq pd' ! 0) = 10
    \<and> comm_areq_one 7 3 10 c' = do {
        st \<leftarrow> seq_add_backlog (adm c') 7 3 10;
        Some (upd_en 7 (\<lambda>en. en\<lparr> en_demands := (en_demands en)(3 := 10) \<rparr>) (c'\<lparr> adm := st \<rparr>)) }"
proof -
  have "\<exists>c'. comm_handle_reset 7 demo_comm = Some c'"
    using wpD [OF seq_reset_sender_ok [OF _ demo_status_ok, of 7]] by (auto simp: comm_handle_reset_def demo_comm_def)
  then obtain c' where c': "comm_handle_reset 7 demo_comm = Some c'"
    by blast
  show ?thesis
    using c' idle_flow_diverges_on_reset [of 3 "demo_sched\<lparr> dsts := \<lambda>_. zero_dst\<lparr> demand_tslots := 9, used_tslots := 9, acked_tslots := 9 \<rparr> \<rparr>"
      9 blank_pd 7 demo_comm c' 0 0]
    by (auto simp: blank_pd_def)
qed

subsection \<open>The size of a packet\<close>

definition payload_len :: "fpproto_pktdesc \<Rightarrow> nat" where
  "payload_len pd = 8 + (if pd_send_reset pd then 8 else 0)
     + (if 0 < pd_alloc_tslot pd then 4 + 2 * unat (pd_n_dsts pd) + unat (pd_alloc_tslot pd) else 0)
     + (if 0 < pd_n_areq pd then 2 + 4 * unat (pd_n_areq pd) else 0)"

lemma length_unpadded: "length (unpadded False pd) = payload_len pd"
  by (simp add: unpadded_def hdr_bytes_def reset_bytes_def alloc_bytes_def areq_bytes_def length_encode_areq
      length_encode_alloc payload_len_def)

lemma payload_len_bound:
  assumes "unat (pd_n_areq pd) \<le> 10" "unat (pd_n_dsts pd) \<le> 15" "unat (pd_alloc_tslot pd) \<le> 64"
  shows "154 < payload_len pd \<longleftrightarrow> pd_send_reset pd \<and> unat (pd_n_areq pd) = 10 \<and> unat (pd_n_dsts pd) = 15
    \<and> 63 \<le> unat (pd_alloc_tslot pd)"
proof -
  have "payload_len pd \<le> 148" if "\<not> pd_send_reset pd"
    using that assms by (simp add: payload_len_def)
  moreover have "payload_len pd \<le> 114" if "\<not> 0 < pd_n_areq pd"
    using that assms by (simp add: payload_len_def)
  moreover have "payload_len pd \<le> 58" if "\<not> 0 < pd_alloc_tslot pd"
    using that assms by (simp add: payload_len_def)
  moreover have "payload_len pd = 22 + 2 * unat (pd_n_dsts pd) + unat (pd_alloc_tslot pd) + 4 * unat (pd_n_areq pd)"
    if "pd_send_reset pd" "0 < pd_n_areq pd" "0 < pd_alloc_tslot pd"
    using that by (simp add: payload_len_def)
  ultimately show ?thesis
    using assms by (cases "pd_send_reset pd"; cases "0 < pd_n_areq pd"; cases "0 < pd_alloc_tslot pd")
      (auto simp: word_less_nat_alt)
qed

text \<open>
  The arbiter's packets fit the buffer except the largest. With at most 10 reports, 15
  destinations and 64 timeslots, \<^verbatim>\<open>fpproto_encode_packet\<close> gives the length of the payload, padded to 26
  bytes; but \<^verbatim>\<open>FASTPASS_PKT_ALLOC_LEN\<close> leaves out the two bytes of the base timeslot, so a packet with
  a reset, 10 reports, 15 destinations and 63 or 64 timeslots fails with -5.
\<close>

theorem arbiter_packet_fits:
  assumes "unat (pd_n_areq pd) \<le> FASTPASS_PKT_MAX_AREQ" "unat (pd_n_dsts pd) \<le> 15"
    and "unat (pd_alloc_tslot pd) \<le> FASTPASS_PKT_MAX_ALLOC_TSLOTS"
  shows "fst (fpproto_encode_packet False addr pd FASTPASS_MAX_PAYLOAD 26)
    = (if pd_send_reset pd \<and> unat (pd_n_areq pd) = 10 \<and> unat (pd_n_dsts pd) = 15 \<and> 63 \<le> unat (pd_alloc_tslot pd)
       then - 5 else int (max 26 (payload_len pd)))"
proof -
  have n: "unat (pd_n_areq pd) \<le> 10" "unat (pd_alloc_tslot pd) \<le> 64"
    using assms by (simp_all add: FASTPASS_PKT_MAX_AREQ_def FASTPASS_PKT_MAX_ALLOC_TSLOTS_def)
  have p: "FASTPASS_MAX_PAYLOAD = 154"
    by (simp add: FASTPASS_MAX_PAYLOAD_def FASTPASS_PKT_ALLOC_LEN_def FASTPASS_PKT_MAX_ALLOC_TSLOTS_def FASTPASS_PKT_MAX_AREQ_def)
  show ?thesis
    unfolding payload_len_bound [OF n(1) assms(2) n(2), symmetric] p encode_unfold length_unpadded
    using n by (simp add: Let_def length_unpadded max_def) linarith
qed

theorem arbiter_packet_fits_witness:
  "fst (fpproto_encode_packet False 0 (blank_pd\<lparr> pd_n_areq := 10, pd_n_dsts := 15, pd_alloc_tslot := 64, pd_send_reset := True \<rparr>)
     FASTPASS_MAX_PAYLOAD 26) = - 5
   \<and> fst (fpproto_encode_packet False 0 (blank_pd\<lparr> pd_n_areq := 10, pd_n_dsts := 15, pd_alloc_tslot := 64 \<rparr>)
     FASTPASS_MAX_PAYLOAD 26) = 148"
  using arbiter_packet_fits [of "blank_pd\<lparr> pd_n_areq := 10, pd_n_dsts := 15, pd_alloc_tslot := 64, pd_send_reset := True \<rparr>" 0]
    arbiter_packet_fits [of "blank_pd\<lparr> pd_n_areq := 10, pd_n_dsts := 15, pd_alloc_tslot := 64 \<rparr>" 0]
  by (simp add: FASTPASS_PKT_MAX_AREQ_def FASTPASS_PKT_MAX_ALLOC_TSLOTS_def blank_pd_def payload_len_def)

subsection \<open>The window of pending allocations\<close>

lemma throw_away_ok:
  assumes "wnd_inv w" "unat (head w - t) < 192" "card {u \<in> wnd_set w. unat (head w - t) \<le> unat (head w - u)} < fuel"
  shows "\<exists>w'. throw_away fuel t (w, b) = Some (w', b) \<and> wnd_inv w' \<and> head w' = head w
    \<and> wnd_set w' = {u \<in> wnd_set w. unat (head w - u) < unat (head w - t)}"
  using assms
proof (induction fuel arbitrary: w t b)
  case (Suc fuel)
  let ?old = "\<lambda>w t. {u \<in> wnd_set w. unat (head w - t) \<le> unat (head w - u)}"
  note before = fpw.before_law [OF Suc.prems(1,2)]
  show ?case
  proof (cases "\<exists>u \<in> wnd_set w. unat (head w - t) \<le> unat (head w - u)")
    case True
    then obtain u where u: "u \<in> wnd_set w" "unat (head w - t) \<le> unat (head w - u)" "wnd_at_or_before w t = (int (unat (t - u)), False)"
        "\<forall>v \<in> wnd_set w. unat (head w - t) \<le> unat (head w - v) \<longrightarrow> unat (head w - u) \<le> unat (head w - v)"
      using before by (simp only: if_True) blast
    obtain w1 where w1: "wnd_clear w u = (w1, False)" "wnd_inv w1" "wnd_set w1 = wnd_set w - {u}" "head w1 = head w"
      using wnd_clear_correct [OF Suc.prems(1) u(1)] by blast
    have "?old w1 u \<subseteq> ?old w t - {u}"
      using u(2) by (auto simp: w1)
    then have "card (?old w1 u) \<le> card (?old w t - {u})"
      by (intro card_mono) (auto intro: finite_subset [OF _ finite_wnd_set])
    also have "\<dots> < card (?old w t)"
      using u(1,2) by (intro card_Diff1_less) (auto intro: finite_subset [OF _ finite_wnd_set])
    finally have "card (?old w1 u) < fuel"
      using Suc.prems(3) by simp
    moreover have "unat (head w1 - u) < 192"
      using wnd_set_age [OF u(1)] by (simp add: w1)
    ultimately obtain w' where w': "throw_away fuel u (w1, b) = Some (w', b)" "wnd_inv w'" "head w' = head w1"
        "wnd_set w' = {v \<in> wnd_set w1. unat (head w1 - v) < unat (head w1 - u)}"
      using Suc.IH [of w1 u b] w1(2) by blast
    have "wnd_set w' = {v \<in> wnd_set w. unat (head w - v) < unat (head w - t)}"
      using w'(4) w1(3,4) u by (auto simp: not_le [symmetric])
    moreover have "t - of_int (int (unat (t - u))) = u"
      by simp
    ultimately show ?thesis
      using w' w1 u(3) by simp
  next
    case False
    then have "wnd_at_or_before w t = (- 1, False)" "\<forall>u \<in> wnd_set w. unat (head w - u) < unat (head w - t)"
      using before by (simp_all only: if_False) auto
    then show ?thesis
      using Suc.prems(1) by auto
  qed
qed simp

lemma add_alloc_wnd_ok:
  assumes "wnd_inv w" "0 < unat (cur - head w)" "unat (cur - head w) < 9223372036854775808"
    and "unat (head w) + unat (cur - head w) < 18446744073709551616"
  shows "\<exists>w'. add_alloc_wnd cur w = Some (w', False) \<and> wnd_inv w' \<and> head w' = cur
    \<and> wnd_set w' = insert cur {t \<in> wnd_set w. unat (cur - t) < 192}"
proof -
  define a where "a = cur - head w"
  define t where "t = (if time_before64 (wnd_head w) (cur - 192) then wnd_head w else cur - 192)"
  have a: "0 < unat a" "unat a < 9223372036854775808"
    using assms(2,3) by (simp_all add: a_def)
  have h: "head w - (cur - 192) = 192 - a"
    by (simp add: a_def)
  have age: "unat (cur - u) = unat (head w - u) + unat a" if "u \<in> wnd_set w" for u
    using wnd_set_age [OF that] a unat_add_mod [of "head w - u" a] by (simp add: a_def)
  have t: "unat (head w - t) = 192 - unat a"
  proof (cases "unat a \<le> 192")
    case True
    then have "unat (192 - a) = 192 - unat a"
      by (simp add: unat_sub word_le_nat_alt)
    then show ?thesis
      by (simp add: t_def time_before64_def time_after64_iff wnd_head_def a_def [symmetric] h)
  next
    case False
    then have "9223372036854775808 \<le> unat (192 - a)"
      using a(2) by (simp add: unat_sub_if_size word_size word_le_nat_alt)
    then show ?thesis
      using False by (simp add: t_def time_before64_def time_after64_iff wnd_head_def h)
  qed
  obtain w1 where w1: "throw_away 193 t (w, False) = Some (w1, False)" "wnd_inv w1" "head w1 = head w"
      "wnd_set w1 = {u \<in> wnd_set w. unat (head w - u) < unat (head w - t)}"
    using throw_away_ok [OF assms(1), of t 193 False] t a card_mono [OF finite_wnd_set, of "{u \<in> wnd_set w. unat (head w - t) \<le> unat (head w - u)}" w]
      card_wnd_set_le [of w] by (auto simp: le_less_trans)
  have s1: "wnd_set w1 = {u \<in> wnd_set w. unat (cur - u) < 192}"
    unfolding w1(4) using t age by auto
  have "\<forall>u \<in> wnd_set w1. unat (head w1 - u) + unat a < 192"
    using s1 age by (auto simp: w1(3))
  then obtain w2 where w2: "wnd_advance w1 a = (w2, False)" "wnd_inv w2" "wnd_set w2 = wnd_set w1" "head w2 = cur"
    using fpw.advance_law [OF w1(2), of a] assms(4) by (auto simp: w1(3) a_def)
  have "cur \<notin> wnd_set w2"
    using age [of cur] a by (auto simp: w2(3) s1)
  then obtain w3 where "wnd_mark w2 cur = (w3, False)" "wnd_inv w3" "wnd_set w3 = insert cur (wnd_set w2)" "head w3 = cur"
    using wnd_mark_correct [OF w2(2), of cur] w2(4) by auto
  then show ?thesis
    using w1(1,3) w2 s1 by (simp add: add_alloc_wnd_def FASTPASS_WND_LEN_def FASTPASS_WND_LOG_def BITS_PER_LONG_def
        Let_def t_def wnd_head_def a_def)
qed

lemma trigger_request_frame:
  "comm_bug (trigger_request node now c) = comm_bug c"
  "en_pending (end_nodes (trigger_request node now c) i) = en_pending (end_nodes c i)"
  "en_allocs (end_nodes (trigger_request node now c) i) = en_allocs (end_nodes c i)"
  "alloc_to_dst (end_nodes (trigger_request node now c) i) = alloc_to_dst (end_nodes c i)"
  by (simp_all add: trigger_request_def upd_en_def Let_def split: prod.splits)

lemma trigger_report_frame:
  assumes "unat d < 256"
  shows "\<exists>c'. trigger_report node d now c = Some c' \<and> comm_bug c' = comm_bug c
    \<and> (\<forall>i. en_pending (end_nodes c' i) = en_pending (end_nodes c i) \<and> en_allocs (end_nodes c' i) = en_allocs (end_nodes c i)
          \<and> alloc_to_dst (end_nodes c' i) = alloc_to_dst (end_nodes c i))"
  using assms by (auto simp: trigger_report_def guard_o_def MAX_NODES_def trigger_request_frame upd_en_def)

text \<open>
  C40. Recording an allocation. When the arbiter is given an allocation for a timeslot after the last
  one of the end node, the loop that throws away old timeslots ends, the window of pending
  allocations moves to the new timeslot and holds it together with the pending timeslots of the
  last 192, whose recorded destinations are not overwritten in the circular array; no bug is
  reported and no other end node is touched.
\<close>

theorem allocation_recorded:
  fixes c edge cur
  defines "src \<equiv> unat (a_src edge)"
  assumes "src < 256" "wnd_inv (en_pending (end_nodes c src))"
    and "0 < unat (cur - head (en_pending (end_nodes c src)))" "unat (cur - head (en_pending (end_nodes c src))) < 2 ^ 63"
    and "unat (head (en_pending (end_nodes c src))) + unat (cur - head (en_pending (end_nodes c src))) < 2 ^ 64"
  shows "\<exists>c'. add_alloc cur now edge c = Some c' \<and> comm_bug c' = comm_bug c
    \<and> wnd_inv (en_pending (end_nodes c' src)) \<and> head (en_pending (end_nodes c' src)) = cur
    \<and> wnd_set (en_pending (end_nodes c' src)) = insert cur {t \<in> wnd_set (en_pending (end_nodes c src)). unat (cur - t) < 192}
    \<and> en_allocs (end_nodes c' src) (unat (wnd_pos cur)) = a_dst edge
    \<and> (\<forall>t \<in> wnd_set (en_pending (end_nodes c' src)) - {cur}.
          en_allocs (end_nodes c' src) (unat (wnd_pos t)) = en_allocs (end_nodes c src) (unat (wnd_pos t)))
    \<and> alloc_to_dst (end_nodes c' src) = (alloc_to_dst (end_nodes c src))
          (unat (a_dst edge) mod 256 := alloc_to_dst (end_nodes c src) (unat (a_dst edge) mod 256) + 1)
    \<and> (\<forall>i. i \<noteq> src \<longrightarrow> en_pending (end_nodes c' i) = en_pending (end_nodes c i) \<and> en_allocs (end_nodes c' i) = en_allocs (end_nodes c i))"
proof -
  define w where "w = en_pending (end_nodes c src)"
  let ?d = "a_dst edge"
  obtain w' where w': "add_alloc_wnd cur w = Some (w', False)" "wnd_inv w'" "head w' = cur"
      "wnd_set w' = insert cur {t \<in> wnd_set w. unat (cur - t) < 192}"
    using add_alloc_wnd_ok [of w cur] assms(3-6) by (auto simp: w_def)
  define c1 where "c1 = (upd_en src (\<lambda>en. en\<lparr> en_pending := w', en_allocs := (en_allocs en)(unat (wnd_pos cur) := ?d),
      alloc_to_dst := (alloc_to_dst en)(unat ?d mod MAX_NODES := alloc_to_dst en (unat ?d mod MAX_NODES) + 1),
      total_alloc := total_alloc en + 1 \<rparr>) c)"
  have "unat (of_nat (unat ?d mod MAX_NODES) :: u16) < 256"
    by (simp add: MAX_NODES_def unat_of_nat)
  from trigger_report_frame [OF this, of src now c1] obtain c' where c': "trigger_report src (of_nat (unat ?d mod MAX_NODES)) now c1 = Some c'"
      "comm_bug c' = comm_bug c1" "\<forall>i. en_pending (end_nodes c' i) = en_pending (end_nodes c1 i)
         \<and> en_allocs (end_nodes c' i) = en_allocs (end_nodes c1 i) \<and> alloc_to_dst (end_nodes c' i) = alloc_to_dst (end_nodes c1 i)"
    by blast
  have "add_alloc cur now edge c = Some c'"
    using assms(2) w'(1) c'(1)
    by (simp add: add_alloc_def src_def [symmetric] w_def [symmetric] guard_o_def MAX_NODES_def c1_def Let_def)
  moreover have "slot t \<noteq> slot cur" if "t \<in> wnd_set w'" "t \<noteq> cur" for t
    using slot_mem_iff [of t w' cur] that w'(4) by simp
  ultimately show ?thesis
    using w' c'(2,3) unfolding w_def [symmetric] by (intro exI [of _ c']) (auto simp: c1_def upd_en_def MAX_NODES_def)
qed

theorem allocation_recorded_witness:
  "\<exists>c'. add_alloc 1100 0 \<lparr> a_src = 7, a_dst = 9 \<rparr> demo_comm = Some c'
    \<and> wnd_set (en_pending (end_nodes c' 7)) = {1100, 990} \<and> en_allocs (end_nodes c' 7) 76 = 9"
proof -
  let ?e = "\<lparr> a_src = 7, a_dst = 9 \<rparr>"
  have e: "unat (a_src ?e) = 7" "a_dst ?e = 9" and p: "en_pending (end_nodes demo_comm 7) = demo_wnd"
    by (simp_all add: demo_comm_def demo_en_def)
  have "{t \<in> wnd_set demo_wnd. unat (1100 - t) < 192} = {990}" "unat (wnd_pos 1100) = 76"
    by (auto simp: demo_wnd_inv slot_def)
  then show ?thesis
    using allocation_recorded [of ?e demo_comm 1100 0] unfolding e p by (auto simp: demo_wnd_inv)
qed

end
