(* ===== verification/FP_Skbq.thy ===== *)
theory FP_Skbq
  imports FP_Loops
begin

text \<open>
  The packet queues of the queueing discipline (\<^verbatim>\<open>kernel-mod/sch_timeslot.c\<close>): singly linked lists threaded
  through the packets, with a pointer to the last one. Packets are addresses in a store that holds
  \<^verbatim>\<open>skb->next\<close>; several queues share it. The queues refine lists, which is how the rest of the queueing
  discipline is modelled.
\<close>

subsection \<open>Definitions\<close>

type_synonym skb_store = "nat \<Rightarrow> nat option"

record timeslot_skb_q =
  sq_head :: "nat option"
  sq_tail :: nat

definition skb_q_init :: "timeslot_skb_q \<Rightarrow> timeslot_skb_q" where
  "skb_q_init queue = queue\<lparr> sq_head := None \<rparr>"

definition skb_q_empty :: "timeslot_skb_q \<Rightarrow> bool" where
  "skb_q_empty queue = (sq_head queue = None)"

definition skb_q_enqueue :: "nat \<Rightarrow> timeslot_skb_q \<times> skb_store \<Rightarrow> timeslot_skb_q \<times> skb_store" where
  "skb_q_enqueue skb = (\<lambda>(queue, next).
     let next = next(skb := None);
         (queue, next) = (if sq_head queue = None then (queue\<lparr> sq_head := Some skb \<rparr>, next)
                          else (queue, next(sq_tail queue := Some skb)))
     in (queue\<lparr> sq_tail := skb \<rparr>, next))"

definition skb_q_dequeue :: "timeslot_skb_q \<times> skb_store \<Rightarrow> nat option \<times> timeslot_skb_q \<times> skb_store" where
  "skb_q_dequeue = (\<lambda>(queue, next).
     case sq_head queue of
       None \<Rightarrow> (None, queue, next)
     | Some skb \<Rightarrow> (Some skb, queue\<lparr> sq_head := next skb \<rparr>, next(skb := None)))"

text \<open>\<^verbatim>\<open>FASTPASS_BUG_ON\<close> of \<^verbatim>\<open>skb_q_move\<close> stops the run.\<close>

definition skb_q_move :: "timeslot_skb_q \<Rightarrow> timeslot_skb_q \<Rightarrow> (timeslot_skb_q \<times> timeslot_skb_q) option" where
  "skb_q_move queue what = do {
     guard_o (sq_head queue = None);
     Some (queue\<lparr> sq_head := sq_head what, sq_tail := sq_tail what \<rparr>, what\<lparr> sq_head := None \<rparr>) }"

definition skb_q_append :: "timeslot_skb_q \<Rightarrow> timeslot_skb_q \<Rightarrow> skb_store \<Rightarrow> timeslot_skb_q \<times> timeslot_skb_q \<times> skb_store" where
  "skb_q_append queue what next =
     (let (queue, next) = (if sq_head queue = None then (queue\<lparr> sq_head := sq_head what \<rparr>, next)
                           else (queue, next(sq_tail queue := sq_head what)))
      in (queue\<lparr> sq_tail := sq_tail what \<rparr>, what\<lparr> sq_head := None \<rparr>, next))"

subsection \<open>A queue is a list\<close>

primrec chain :: "skb_store \<Rightarrow> nat option \<Rightarrow> nat list \<Rightarrow> bool" where
  "chain next p [] \<longleftrightarrow> p = None"
| "chain next p (x # xs) \<longleftrightarrow> p = Some x \<and> chain next (next x) xs"

definition skbq :: "skb_store \<Rightarrow> timeslot_skb_q \<Rightarrow> nat list \<Rightarrow> bool" where
  "skbq next q xs \<longleftrightarrow> chain next (sq_head q) xs \<and> distinct xs \<and> (xs \<noteq> [] \<longrightarrow> sq_tail q = last xs)"

lemma chain_upd [simp]: "x \<notin> set xs \<Longrightarrow> chain (next(x := v)) p xs = chain next p xs"
  by (induction xs arbitrary: p) auto

lemma chain_append:
  "xs \<noteq> [] \<Longrightarrow> distinct xs \<Longrightarrow> chain next p xs \<Longrightarrow> chain next r ys \<Longrightarrow> last xs \<notin> set ys
    \<Longrightarrow> chain (next(last xs := r)) p (xs @ ys)"
proof (induction xs arbitrary: p)
  case (Cons x xs)
  show ?case
  proof (cases "xs = []")
    case True
    then show ?thesis
      using Cons.prems by (simp del: fun_upd_apply) simp
  next
    case False
    then have "x \<noteq> last xs"
      using Cons.prems(2) by auto
    then show ?thesis
      using Cons.IH [of "next x"] Cons.prems False by simp
  qed
qed simp

lemma skbq_upd [simp]: "x \<notin> set xs \<Longrightarrow> skbq (next(x := v)) q xs = skbq next q xs"
  by (simp add: skbq_def)

lemma skbq_head: "skbq next q xs \<Longrightarrow> sq_head q = None \<longleftrightarrow> xs = []"
  by (cases xs) (auto simp: skbq_def)

lemma enqueue_list:
  assumes "skbq next q xs" "skb \<notin> set xs" "skb_q_enqueue skb (q, next) = (q', next')"
  shows "skbq next' q' (xs @ [skb])"
    and "\<lbrakk>skbq next r ys; skb \<notin> set ys; set xs \<inter> set ys = {}\<rbrakk> \<Longrightarrow> skbq next' r ys"
proof -
  have n: "next' = (if xs = [] then next(skb := None) else next(skb := None, last xs := Some skb))"
    using assms(1,3) skbq_head [OF assms(1)] by (auto simp: skb_q_enqueue_def skbq_def Let_def)
  show "skbq next' q' (xs @ [skb])"
  proof (cases "xs = []")
    case True
    then show ?thesis
      using assms skbq_head [OF assms(1)] by (auto simp: skb_q_enqueue_def skbq_def Let_def)
  next
    case False
    have "last xs \<noteq> skb"
      using assms(2) last_in_set [OF False] by auto
    moreover have "chain (next(skb := None)) (sq_head q) xs"
      using assms(1,2) by (simp add: skbq_def)
    ultimately have "chain next' (sq_head q) (xs @ [skb])"
      using chain_append [of xs "next(skb := None)" "sq_head q" "Some skb" "[skb]"] assms(1,2) False
      by (auto simp: skbq_def n)
    then show ?thesis
      using assms skbq_head [OF assms(1)] False by (auto simp: skb_q_enqueue_def skbq_def Let_def)
  qed
  show "skbq next' r ys" if "skbq next r ys" "skb \<notin> set ys" "set xs \<inter> set ys = {}"
  proof (cases "xs = []")
    case False
    then have "last xs \<notin> set ys"
      using that(3) last_in_set [of xs] by blast
    then show ?thesis
      using that(1,2) False by (simp add: n)
  qed (use that in \<open>simp add: n\<close>)
qed

lemma dequeue_list:
  assumes "skbq next q xs" "skb_q_dequeue (q, next) = (s, q', next')"
  shows "skbq next' q' (tl xs)" and "s = (if xs = [] then None else Some (hd xs))"
    and "\<lbrakk>skbq next r ys; set xs \<inter> set ys = {}\<rbrakk> \<Longrightarrow> skbq next' r ys"
proof -
  have "skbq next' q' (tl xs) \<and> s = (if xs = [] then None else Some (hd xs))
      \<and> (skbq next r ys \<longrightarrow> set xs \<inter> set ys = {} \<longrightarrow> skbq next' r ys)" for r ys
  proof (cases xs)
    case Nil
    then show ?thesis
      using assms skbq_head [OF assms(1)] by (auto simp: skb_q_dequeue_def)
  next
    case (Cons x zs)
    then have x: "s = Some x" "q' = q\<lparr> sq_head := next x \<rparr>" "next' = next(x := None)"
      using assms by (auto simp: skb_q_dequeue_def skbq_def)
    have "chain next' (next x) zs = chain next (next x) zs"
      using assms(1) Cons by (simp add: x skbq_def)
    then have "skbq next' q' zs"
      using assms(1) Cons by (auto simp: x(2) skbq_def)
    moreover have "skbq next' r ys" if "skbq next r ys" "set xs \<inter> set ys = {}"
      using that Cons by (simp add: x)
    ultimately show ?thesis
      using Cons x by auto
  qed
  then show "skbq next' q' (tl xs)" "s = (if xs = [] then None else Some (hd xs))"
      "\<lbrakk>skbq next r ys; set xs \<inter> set ys = {}\<rbrakk> \<Longrightarrow> skbq next' r ys"
    by blast+
qed

lemma move_list:
  assumes "skbq next q []" "skbq next w ys"
  shows "\<exists>q' w'. skb_q_move q w = Some (q', w') \<and> skbq next q' ys \<and> skbq next w' []"
  using assms skbq_head [OF assms(1)] by (auto simp: skb_q_move_def guard_o_def skbq_def)

lemma append_list:
  assumes "skbq next q xs" "skbq next w ys" "ys \<noteq> []" "set xs \<inter> set ys = {}" "skb_q_append q w next = (q', w', next')"
  shows "skbq next' q' (xs @ ys)" and "skbq next' w' []"
    and "\<lbrakk>skbq next r zs; set xs \<inter> set zs = {}\<rbrakk> \<Longrightarrow> skbq next' r zs"
proof -
  have n: "next' = (if xs = [] then next else next(last xs := sq_head w))"
    using assms(1,5) skbq_head [OF assms(1)] by (auto simp: skb_q_append_def skbq_def Let_def)
  show "skbq next' w' []"
    using assms(5) by (auto simp: skb_q_append_def skbq_def Let_def split: if_splits)
  show "skbq next' r zs" if "skbq next r zs" "set xs \<inter> set zs = {}"
  proof (cases "xs = []")
    case False
    then have "last xs \<notin> set zs"
      using that(2) last_in_set [of xs] by blast
    then show ?thesis
      using that(1) False by (simp add: n)
  qed (use that in \<open>simp add: n\<close>)
  show "skbq next' q' (xs @ ys)"
  proof (cases "xs = []")
    case True
    then show ?thesis
      using assms skbq_head [OF assms(1)] by (auto simp: skb_q_append_def skbq_def Let_def)
  next
    case False
    moreover from this have "last xs \<notin> set ys"
      using assms(4) last_in_set [of xs] by blast
    ultimately have "chain next' (sq_head q) (xs @ ys)"
      using assms(1,2) chain_append [of xs "next" "sq_head q" "sq_head w" ys] by (simp add: skbq_def n)
    then show ?thesis
      using assms skbq_head [OF assms(1)] False by (auto simp: skb_q_append_def skbq_def Let_def)
  qed
qed

subsection \<open>Two queues over one store\<close>

text \<open>
  What the queueing discipline does with its queues: packets are enqueued and dequeued, and a whole
  queue is moved into an empty one or appended to another.
\<close>

datatype skb_op = Sq_enqueue bool nat | Sq_dequeue bool | Sq_move | Sq_append

definition skb_step :: "skb_op \<Rightarrow> timeslot_skb_q \<times> timeslot_skb_q \<times> skb_store
    \<Rightarrow> (nat option \<times> timeslot_skb_q \<times> timeslot_skb_q \<times> skb_store) option" where
  "skb_step op = (\<lambda>(q, w, next).
     case op of
       Sq_enqueue second skb \<Rightarrow>
         if second then (let (w, next) = skb_q_enqueue skb (w, next) in Some (None, q, w, next))
         else (let (q, next) = skb_q_enqueue skb (q, next) in Some (None, q, w, next))
     | Sq_dequeue second \<Rightarrow>
         if second then (let (s, w, next) = skb_q_dequeue (w, next) in Some (s, q, w, next))
         else (let (s, q, next) = skb_q_dequeue (q, next) in Some (s, q, w, next))
     | Sq_move \<Rightarrow> map_option (\<lambda>(q, w). (None, q, w, next)) (skb_q_move q w)
     | Sq_append \<Rightarrow> (let (q, w, next) = skb_q_append q w next in Some (None, q, w, next)))"

primrec skb_run :: "skb_op list \<Rightarrow> timeslot_skb_q \<times> timeslot_skb_q \<times> skb_store \<Rightarrow> nat option list option" where
  "skb_run [] st = Some []"
| "skb_run (op # ops) st = do { (r, st) \<leftarrow> skb_step op st; rs \<leftarrow> skb_run ops st; Some (r # rs) }"

definition list_step :: "skb_op \<Rightarrow> nat list \<times> nat list \<Rightarrow> (nat option \<times> nat list \<times> nat list) option" where
  "list_step op = (\<lambda>(xs, ys).
     case op of
       Sq_enqueue second skb \<Rightarrow>
         if skb \<in> set xs \<union> set ys then None
         else Some (None, if second then (xs, ys @ [skb]) else (xs @ [skb], ys))
     | Sq_dequeue second \<Rightarrow>
         if second then Some (if ys = [] then None else Some (hd ys), xs, tl ys)
         else Some (if xs = [] then None else Some (hd xs), tl xs, ys)
     | Sq_move \<Rightarrow> if xs = [] then Some (None, ys, []) else None
     | Sq_append \<Rightarrow> if ys = [] then None else Some (None, xs @ ys, []))"

primrec list_run :: "skb_op list \<Rightarrow> nat list \<times> nat list \<Rightarrow> nat option list option" where
  "list_run [] st = Some []"
| "list_run (op # ops) st = do { (r, st) \<leftarrow> list_step op st; rs \<leftarrow> list_run ops st; Some (r # rs) }"

definition skb_abs :: "timeslot_skb_q \<times> timeslot_skb_q \<times> skb_store \<Rightarrow> nat list \<times> nat list \<Rightarrow> bool" where
  "skb_abs = (\<lambda>(q, w, next) (xs, ys). skbq next q xs \<and> skbq next w ys \<and> set xs \<inter> set ys = {})"

lemma skb_step_refines:
  assumes "skb_abs st ls" "list_step op ls = Some (r, ls')"
  shows "\<exists>st'. skb_step op st = Some (r, st') \<and> skb_abs st' ls'"
proof -
  obtain q w "next" xs ys where st: "st = (q, w, next)" "ls = (xs, ys)"
    by (metis prod.exhaust)
  have q: "skbq next q xs" and w: "skbq next w ys" and dis: "set xs \<inter> set ys = {}"
    using assms(1) by (simp_all add: st skb_abs_def)
  have tls: "set (tl zs) \<subseteq> set zs" for zs :: "nat list"
    by (cases zs) auto
  show ?thesis
  proof (cases op)
    case (Sq_enqueue second skb)
    then have new: "skb \<notin> set xs" "skb \<notin> set ys" "r = None"
      using assms(2) by (auto simp: st list_step_def split: if_splits)
    obtain q' n' where e: "skb_q_enqueue skb (q, next) = (q', n')"
      by fastforce
    obtain w' m' where e': "skb_q_enqueue skb (w, next) = (w', m')"
      by fastforce
    show ?thesis
      using enqueue_list [OF q new(1) e] enqueue_list [OF w new(2) e'] q w dis assms(2) Sq_enqueue new e e'
      by (auto simp: st list_step_def skb_step_def skb_abs_def Int_commute split: if_splits)
  next
    case (Sq_dequeue second)
    obtain s q' n' where e: "skb_q_dequeue (q, next) = (s, q', n')"
      by (metis prod.exhaust)
    obtain s' w' m' where e': "skb_q_dequeue (w, next) = (s', w', m')"
      by (metis prod.exhaust)
    show ?thesis
      using dequeue_list [OF q e] dequeue_list [OF w e'] q w dis assms(2) Sq_dequeue e e' tls [of xs] tls [of ys]
      by (cases second) (auto simp: st list_step_def skb_step_def skb_abs_def Int_commute)
  next
    case Sq_move
    then show ?thesis
      using move_list [of "next" q w ys] q w assms(2)
      by (auto simp: st list_step_def skb_step_def skb_abs_def split: if_splits)
  next
    case Sq_append
    obtain q' w' n' where e: "skb_q_append q w next = (q', w', n')"
      by (metis prod.exhaust)
    show ?thesis
      using append_list [OF q w _ dis e] assms(2) Sq_append e
      by (auto simp: st list_step_def skb_step_def skb_abs_def split: if_splits)
  qed
qed

lemma skb_run_refines:
  "skb_abs st ls \<Longrightarrow> list_run ops ls = Some rs \<Longrightarrow> skb_run ops st = Some rs"
proof (induction ops arbitrary: st ls rs)
  case (Cons op ops)
  then obtain r ls' rs' where l: "list_step op ls = Some (r, ls')" "list_run ops ls' = Some rs'" "rs = r # rs'"
    by (auto simp: bind_eq_Some_conv)
  obtain st' where "skb_step op st = Some (r, st')" "skb_abs st' ls'"
    using skb_step_refines [OF Cons.prems(1) l(1)] by blast
  then show ?case
    using Cons.IH l by simp
qed simp

text \<open>
  C30. The linked packet queues behave as lists: take two queues that were just initialised, over any
  contents of the packets' links, and any sequence of operations that never enqueues a packet that is
  queued already, moves only into an empty queue and appends only a nonempty one. The operations on
  the links return what the same operations on lists return, packet by packet, and never fail.
\<close>

theorem skb_queues_refine:
  assumes "list_run script ([], []) = Some rs"
  shows "skb_run script (skb_q_init q, skb_q_init w, next) = Some rs"
  by (rule skb_run_refines [OF _ assms]) (simp add: skb_abs_def skbq_def skb_q_init_def)

theorem skb_queues_refine_witness:
  "skb_run [Sq_enqueue False 1, Sq_enqueue True 2, Sq_enqueue True 3, Sq_append, Sq_dequeue False, Sq_dequeue True, Sq_dequeue False]
     (skb_q_init \<lparr> sq_head = Some 7, sq_tail = 7 \<rparr>, skb_q_init \<lparr> sq_head = None, sq_tail = 9 \<rparr>, \<lambda>x. Some x)
   = Some [None, None, None, None, Some 1, None, Some 2]"
  by (rule skb_queues_refine) (simp add: list_step_def)

end
