(* ===== verification/FP_Tsq.thy ===== *)
theory FP_Tsq
  imports FP_Skbq FP_Packet "HOL-Library.Tree"
begin

unbundle bit_operations_syntax

text \<open>
  The queueing discipline of the end node (\<^verbatim>\<open>kernel-mod/sch_timeslot.c\<close>, with the rate computation of
  \<^verbatim>\<open>compat-3_2.c\<close>) and the trivial scheduler of \<^verbatim>\<open>sch_simple.c\<close>. Packets are classified, collected per
  destination into queues of one timeslot each, and released to the device when a timeslot is admitted.

  The queues are lists, as justified in \<^verbatim>\<open>FP_Skbq\<close>. The flow table is an array of search trees; looking up
  and linking is the code's, the rebalancing and removal of the kernel's red-black trees and its hash
  are parameters (\<^verbatim>\<open>tsq_env\<close>). Memory that may be exhausted is a boolean argument. The lock of the flow
  table is part of the state, because some paths return without releasing it: taking it again never
  returns, which is the value \<^term>\<open>None\<close>, as is a division by zero, an undefined shift or the use of a
  null pointer.
\<close>

subsection \<open>Definitions: packets and rates\<close>

record flow_keys =
  fk_proto :: u8
  fk_sport :: u16
  fk_dport :: u16

text \<open>
  Of a packet: its identity, the protocol and ports in host order, the destination address of the
  Ethernet header, what \<^verbatim>\<open>skb_flow_dissect\<close> finds, and \<^verbatim>\<open>qdisc_pkt_len\<close>.
\<close>

record sk_buff =
  skb_id :: nat
  skb_protocol :: u16
  h_dest :: "u8 list"
  skb_keys :: "flow_keys option"
  skb_len :: u32

definition ETH_P_ARP :: u16 where "ETH_P_ARP = 0x0806"
definition ETH_P_1588 :: u16 where "ETH_P_1588 = 0x88F7"
definition ETH_P_ALL :: u16 where "ETH_P_ALL = 0x0003"
definition ETH_P_IP :: u16 where "ETH_P_IP = 0x0800"
definition ETH_P_IPV6 :: u16 where "ETH_P_IPV6 = 0x86DD"
definition IPPROTO_IGMP :: u8 where "IPPROTO_IGMP = 2"
definition IPPROTO_TCP :: u8 where "IPPROTO_TCP = 6"
definition IPPROTO_UDP :: u8 where "IPPROTO_UDP = 17"
definition MANUFACTURER_MAC_MASK :: u64 where "MANUFACTURER_MAC_MASK = 0xFFFFFF000000"
definition VRRP_SWITCH_MAC_PREFIX :: u64 where "VRRP_SWITCH_MAC_PREFIX = 0x00005e000000"
definition CISCO_SWITCH_MAC_PREFIX :: u64 where "CISCO_SWITCH_MAC_PREFIX = 0xa4934c000000"

record psched_ratecfg =
  rate_bps :: u64
  r_mult :: u32
  r_overhead :: u16
  r_linklayer :: u8
  r_shift :: u8

definition TC_LINKLAYER_ATM :: u8 where "TC_LINKLAYER_ATM = 2"

definition psched_l2t_ns :: "psched_ratecfg \<Rightarrow> u32 \<Rightarrow> u64" where
  "psched_l2t_ns r len =
     (let len = len + ucast (r_overhead r)
      in if r_linklayer r = TC_LINKLAYER_ATM
         then drop_bit (unat (r_shift r)) (ucast ((len + 47) div 48 * 53) * ucast (r_mult r))
         else drop_bit (unat (r_shift r)) (ucast len * ucast (r_mult r)))"

text \<open>
  The loop looks for the first shift at which the multiplier no longer fits 32 bits; the last one
  that fits is used.
\<close>

definition rate_factor :: "nat \<Rightarrow> u64" where
  "rate_factor shift = 8 * 1000000000 * push_bit shift 1"

definition psched_shift :: "u64 \<Rightarrow> nat" where
  "psched_shift bps =
     (case find (\<lambda>s. rate_factor s div bps > 0xFFFFFFFF) [0..<16] of None \<Rightarrow> 16 | Some s \<Rightarrow> s) - 1"

definition psched_ratecfg_precompute :: "u32 \<Rightarrow> u16 \<Rightarrow> u8 \<Rightarrow> psched_ratecfg" where
  "psched_ratecfg_precompute rate overhead linklayer =
     (let bps = push_bit 3 (ucast rate);
          r = \<lparr> rate_bps = bps, r_mult = 1, r_overhead = overhead, r_linklayer = linklayer AND 0x0F, r_shift = 0 \<rparr>
      in if bps > 0
         then r\<lparr> r_shift := of_nat (psched_shift bps), r_mult := ucast (rate_factor (psched_shift bps) div bps) \<rparr>
         else r)"

subsection \<open>Definitions: state\<close>

record tsq_dst =
  td_key :: u64
  skb_qs :: "sk_buff list list"
  td_credit :: u64

record tsq_sched_stat =
  ts_gc_flows :: u64
  ts_ctrl_pkts :: u64
  ts_ntp_pkts :: u64
  ts_ptp_pkts :: u64
  ts_arp_pkts :: u64
  ts_igmp_pkts :: u64
  ts_ssh_pkts :: u64
  ts_data_pkts :: u64
  ts_classify_errors :: u64
  ts_above_plimit :: u64
  ts_allocation_errors :: u64
  ts_pkt_too_big :: u64
  ts_added_tslots :: u64
  ts_used_timeslots :: u64
  ts_unwanted_alloc :: u64
  ts_dst_not_found_admit_now :: u64

text \<open>
  The state with the fields of \<^verbatim>\<open>struct Qdisc\<close> the code uses (\<^verbatim>\<open>q_qlen\<close>, \<^verbatim>\<open>q_limit\<close>). Counters of the code
  that is compiled out, its schedule and the other two locks, which are always released, are left out.
\<close>

record tsq_sched_data =
  hash_tbl_log :: nat
  tsq_mul :: u32
  tsq_shift :: u32
  data_rate :: psched_ratecfg
  tslot_len_approx :: u32
  hash_tbl_lock :: bool
  dst_hash_tbl :: "(nat \<Rightarrow> tsq_dst tree) option"
  enqueue_skb_q :: "sk_buff list"
  reg_prio :: "sk_buff list"
  hi_prio :: "sk_buff list"
  prequeue :: "sk_buff list"
  next_zero_queue_time :: u64
  tsq_wnd :: fp_window
  tsq_timeslot :: u64
  flows :: u32
  inactive_flows :: u32
  tsq_stat :: tsq_sched_stat
  q_qlen :: u32
  q_limit :: u32

definition tsq_stat_inc :: "((u64 \<Rightarrow> u64) \<Rightarrow> tsq_sched_stat \<Rightarrow> tsq_sched_stat) \<Rightarrow> tsq_sched_data \<Rightarrow> tsq_sched_data" where
  "tsq_stat_inc upd q = q\<lparr> tsq_stat := upd (\<lambda>n. n + 1) (tsq_stat q) \<rparr>"

record tsq_env =
  jhash_2words :: "u32 \<Rightarrow> u32 \<Rightarrow> u32 \<Rightarrow> u32"
  rb_insert_color :: "tsq_dst tree \<Rightarrow> tsq_dst tree"
  rb_erase :: "u64 \<Rightarrow> tsq_dst tree \<Rightarrow> tsq_dst tree"

definition spin_lock_hash :: "tsq_sched_data \<Rightarrow> tsq_sched_data option" where
  "spin_lock_hash q = (if hash_tbl_lock q then None else Some (q\<lparr> hash_tbl_lock := True \<rparr>))"

definition spin_unlock_hash :: "tsq_sched_data \<Rightarrow> tsq_sched_data" where
  "spin_unlock_hash q = q\<lparr> hash_tbl_lock := False \<rparr>"

subsection \<open>Definitions: the flow table\<close>

definition src_dst_key_hash :: "tsq_env \<Rightarrow> u64 \<Rightarrow> u32" where
  "src_dst_key_hash env key = jhash_2words env (ucast (drop_bit 32 key)) (ucast key) 0"

text \<open>
  The source shifts a 32-bit hash by \<^verbatim>\<open>32 - log\<close> and a 32-bit one by \<^verbatim>\<open>log\<close>, which C defines for logs from 1 to
  31 only; the operations below have no result for other logs. (The configuration accepts 1 to 18.)
\<close>

definition log_ok :: "nat \<Rightarrow> bool" where
  "log_ok log \<longleftrightarrow> 0 < log \<and> log < 32"

definition dst_bucket :: "tsq_env \<Rightarrow> nat \<Rightarrow> u64 \<Rightarrow> nat" where
  "dst_bucket env log key = unat (drop_bit (32 - log) (src_dst_key_hash env key))"

fun rb_search :: "u64 \<Rightarrow> tsq_dst tree \<Rightarrow> tsq_dst option" where
  "rb_search key Leaf = None"
| "rb_search key (Node l dst r) =
     (if td_key dst = key then Some dst
      else if td_key dst > key then rb_search key r else rb_search key l)"

fun rb_link :: "tsq_dst \<Rightarrow> tsq_dst tree \<Rightarrow> tsq_dst tree" where
  "rb_link d Leaf = Node Leaf d Leaf"
| "rb_link d (Node l e r) = (if td_key e > td_key d then Node l e (rb_link d r) else Node (rb_link d l) e r)"

definition rb_insert :: "tsq_env \<Rightarrow> nat \<Rightarrow> tsq_dst \<Rightarrow> (nat \<Rightarrow> tsq_dst tree) \<Rightarrow> nat \<Rightarrow> tsq_dst tree" where
  "rb_insert env log d tbl =
     (let i = dst_bucket env log (td_key d) in tbl(i := rb_insert_color env (rb_link d (tbl i))))"

definition dst_lookup :: "tsq_env \<Rightarrow> bool \<Rightarrow> u64 \<Rightarrow> bool \<Rightarrow> tsq_sched_data \<Rightarrow> (tsq_dst option \<times> tsq_sched_data) option" where
  "dst_lookup env mem key create_if_missing q = do {
     guard_o (log_ok (hash_tbl_log q));
     tbl \<leftarrow> dst_hash_tbl q;
     case rb_search key (tbl (dst_bucket env (hash_tbl_log q) key)) of
       Some dst \<Rightarrow> Some (Some dst, q)
     | None \<Rightarrow>
         if \<not> create_if_missing then Some (None, q)
         else if \<not> mem then Some (None, tsq_stat_inc ts_allocation_errors_update q)
         else do {
           let dst = \<lparr> td_key = key, skb_qs = [], td_credit = 0 \<rparr>;
           Some (Some dst, q\<lparr> dst_hash_tbl := Some (rb_insert env (hash_tbl_log q) dst tbl),
                              flows := flows q + 1, inactive_flows := inactive_flows q + 1 \<rparr>) } }"

text \<open>Writing through the pointer \<^verbatim>\<open>dst\<close>: the node of the tree with this key changes.\<close>

definition upd_td :: "tsq_env \<Rightarrow> u64 \<Rightarrow> (tsq_dst \<Rightarrow> tsq_dst) \<Rightarrow> tsq_sched_data \<Rightarrow> tsq_sched_data" where
  "upd_td env key f q = q\<lparr> dst_hash_tbl := map_option (\<lambda>tbl.
     let i = dst_bucket env (hash_tbl_log q) key
     in tbl(i := map_tree (\<lambda>d. if td_key d = key then f d else d) (tbl i))) (dst_hash_tbl q) \<rparr>"

subsection \<open>Definitions: classification\<close>

definition get_mac :: "sk_buff \<Rightarrow> u64" where
  "get_mac skb = fold (\<lambda>b res. push_bit 8 res OR ucast b) (h_dest skb) 0"

datatype tsq_prio = Reg_prio | Hi_prio

definition cannot_classify :: "tsq_sched_data \<Rightarrow> tsq_prio option \<times> tsq_sched_data" where
  "cannot_classify q = (Some Reg_prio, tsq_stat_inc ts_classify_errors_update q)"

definition classify_ip :: "flow_keys \<Rightarrow> tsq_sched_data \<Rightarrow> tsq_prio option \<times> tsq_sched_data" where
  "classify_ip keys q =
     (if fk_proto keys = IPPROTO_IGMP then (Some Reg_prio, tsq_stat_inc ts_igmp_pkts_update q)
      else if fk_proto keys = IPPROTO_UDP then
        (if fk_dport keys = 123 then (Some Hi_prio, tsq_stat_inc ts_ntp_pkts_update q)
         else if ((ucast (fk_dport keys) :: u32) - 1) AND NOT 1 = 318
         then (Some Hi_prio, tsq_stat_inc ts_ptp_pkts_update q)
         else (None, q))
      else if fk_proto keys = IPPROTO_TCP then
        (if fk_sport keys = 22 \<or> fk_dport keys = 22 then (Some Reg_prio, tsq_stat_inc ts_ssh_pkts_update q)
         else (None, q))
      else if fk_proto keys = ucast IPPROTO_FASTPASS then (Some Hi_prio, tsq_stat_inc ts_ctrl_pkts_update q)
      else (None, q))"

definition classify_hi_prio :: "sk_buff \<Rightarrow> tsq_sched_data \<Rightarrow> tsq_prio option \<times> tsq_sched_data" where
  "classify_hi_prio skb q =
     (let proto = skb_protocol skb
      in if proto = ETH_P_ARP then (Some Reg_prio, tsq_stat_inc ts_arp_pkts_update q)
         else if proto = ETH_P_1588 \<or> proto = ETH_P_ALL then
           (if get_mac skb = 0x011b19000000 then (Some Hi_prio, tsq_stat_inc ts_ptp_pkts_update q)
            else cannot_classify q)
         else if proto = ETH_P_IPV6 \<or> proto = ETH_P_IP then
           (case skb_keys skb of None \<Rightarrow> cannot_classify q | Some keys \<Rightarrow> classify_ip keys q)
         else cannot_classify q)"

definition skb_key :: "sk_buff \<Rightarrow> u64" where
  "skb_key skb =
     (let mac = get_mac skb; masked_mac = mac AND MANUFACTURER_MAC_MASK
      in if masked_mac = VRRP_SWITCH_MAC_PREFIX \<or> masked_mac = CISCO_SWITCH_MAC_PREFIX
         then of_nat OUT_OF_BOUNDARY_NODE_ID else ucast (fp_map_mac_to_id mac))"

definition classify_data :: "tsq_env \<Rightarrow> bool \<Rightarrow> sk_buff \<Rightarrow> tsq_sched_data \<Rightarrow> (tsq_dst option \<times> tsq_sched_data) option" where
  "classify_data env mem skb q = dst_lookup env mem (skb_key skb) True (tsq_stat_inc ts_data_pkts_update q)"

subsection \<open>Definitions: packets in\<close>

text \<open>\<^verbatim>\<open>tsq_enqueue\<close> returns whether the packet was accepted; a packet that is not is freed.\<close>

definition tsq_enqueue :: "sk_buff \<Rightarrow> tsq_sched_data \<Rightarrow> bool \<times> tsq_sched_data" where
  "tsq_enqueue skb q =
     (case classify_hi_prio skb q of
        (Some Hi_prio, q) \<Rightarrow> (True, q\<lparr> hi_prio := hi_prio q @ [skb], q_qlen := q_qlen q + 1 \<rparr>)
      | (Some Reg_prio, q) \<Rightarrow> (True, q\<lparr> reg_prio := reg_prio q @ [skb], q_qlen := q_qlen q + 1 \<rparr>)
      | (None, q) \<Rightarrow>
          if q_qlen q \<ge> q_limit q then (False, tsq_stat_inc ts_above_plimit_update q)
          else (True, q\<lparr> enqueue_skb_q := enqueue_skb_q q @ [skb], q_qlen := q_qlen q + 1 \<rparr>))"

text \<open>
  \<^verbatim>\<open>enqueue_single_skb\<close> returns the key of the timeslot it asks for, if it opens one; the caller hands it
  to the scheduler, as the code does after it has released the lock. When memory is short the packet goes
  to \<^verbatim>\<open>prequeue\<close>, with the lock still held. \<^verbatim>\<open>mem\<close> tells whether a flow and a queue can be allocated.
\<close>

definition enqueue_to_prequeue :: "sk_buff \<Rightarrow> tsq_sched_data \<Rightarrow> tsq_sched_data" where
  "enqueue_to_prequeue skb q = q\<lparr> prequeue := prequeue q @ [skb] \<rparr>"

definition open_timeslot :: "tsq_env \<Rightarrow> u64 \<Rightarrow> tsq_dst \<Rightarrow> tsq_sched_data \<Rightarrow> tsq_sched_data" where
  "open_timeslot env cost dst q =
     (let q = (if skb_qs dst = [] then q\<lparr> inactive_flows := inactive_flows q - 1 \<rparr> else q);
          q = upd_td env (td_key dst) (\<lambda>d. d\<lparr> skb_qs := skb_qs d @ [[]], td_credit := ucast (tslot_len_approx q) \<rparr>) q;
          q = tsq_stat_inc ts_added_tslots_update q
      in if sint cost > int (unat (tslot_len_approx q)) then tsq_stat_inc ts_pkt_too_big_update q else q)"

definition add_to_timeslot :: "u64 \<Rightarrow> sk_buff \<Rightarrow> tsq_dst \<Rightarrow> tsq_dst" where
  "add_to_timeslot cost skb d =
     d\<lparr> td_credit := td_credit d - cost, skb_qs := butlast (skb_qs d) @ [last (skb_qs d) @ [skb]] \<rparr>"

definition enqueue_single_skb :: "tsq_env \<Rightarrow> bool \<times> bool \<Rightarrow> sk_buff \<Rightarrow> tsq_sched_data
    \<Rightarrow> (u64 option \<times> tsq_sched_data) option" where
  "enqueue_single_skb env mem skb q = do {
     let cost = psched_l2t_ns (data_rate q) (skb_len skb);
     q \<leftarrow> spin_lock_hash q;
     (dst, q) \<leftarrow> classify_data env (fst mem) skb q;
     case dst of
       None \<Rightarrow> Some (None, enqueue_to_prequeue skb q)
     | Some dst \<Rightarrow>
         if sint cost > sint (td_credit dst) then
           if \<not> snd mem then Some (None, enqueue_to_prequeue skb q)
           else do {
             let q = upd_td env (td_key dst) (add_to_timeslot cost skb) (open_timeslot env cost dst q);
             Some (Some (td_key dst), spin_unlock_hash q) }
         else do {
           guard_o (skb_qs dst \<noteq> []);
           let q = upd_td env (td_key dst) (add_to_timeslot cost skb) q;
           Some (None, spin_unlock_hash q) } }"

text \<open>
  The scheduler behind the queueing discipline: its private state is of type \<open>'p\<close>; its operations may
  call back into the queueing discipline.
\<close>

record 'p tsq_ops =
  new_qdisc :: "u32 \<Rightarrow> u32 \<Rightarrow> 'p \<Rightarrow> int \<times> 'p"
  stop_qdisc :: "'p \<Rightarrow> 'p"
  add_timeslot :: "u64 \<Rightarrow> 'p \<times> tsq_sched_data \<Rightarrow> ('p \<times> tsq_sched_data) option"

definition enqueue_one :: "'p tsq_ops \<Rightarrow> tsq_env \<Rightarrow> sk_buff \<times> bool \<times> bool \<Rightarrow> 'p \<times> tsq_sched_data
    \<Rightarrow> ('p \<times> tsq_sched_data) option" where
  "enqueue_one tops env = (\<lambda>(skb, mem) (p, q). do {
     (new, q) \<leftarrow> enqueue_single_skb env mem skb q;
     case new of None \<Rightarrow> Some (p, q) | Some key \<Rightarrow> add_timeslot tops key (p, q) })"

definition enqueue_tasklet_func :: "'p tsq_ops \<Rightarrow> tsq_env \<Rightarrow> (nat \<Rightarrow> bool \<times> bool) \<Rightarrow> 'p \<times> tsq_sched_data
    \<Rightarrow> ('p \<times> tsq_sched_data) option" where
  "enqueue_tasklet_func tops env mems = (\<lambda>(p, q).
     let skbs = enqueue_skb_q q
     in foldo (enqueue_one tops env) (zip skbs (map mems [0..<length skbs])) (p, q\<lparr> enqueue_skb_q := [] \<rparr>))"

subsection \<open>Definitions: packets out\<close>

text \<open>
  \<^verbatim>\<open>tsq_admit_now\<close> has two sections: it takes the first timeslot of the flow under the lock of the table
  (\<^verbatim>\<open>admit_take\<close>), releases the lock, and appends the packets to \<^verbatim>\<open>prequeue\<close> (\<^verbatim>\<open>admit_append\<close>). Its two early
  returns take nothing and keep the lock. Appending an empty queue would leave a stale tail pointer; see
  \<^verbatim>\<open>skb_q_append\<close>.
\<close>

definition admit_timeslot :: "tsq_env \<Rightarrow> tsq_dst \<Rightarrow> tsq_sched_data \<Rightarrow> sk_buff list \<times> tsq_sched_data" where
  "admit_timeslot env dst q =
     (let timeslot_q = hd (skb_qs dst);
          q = upd_td env (td_key dst) (\<lambda>d. d\<lparr> skb_qs := tl (skb_qs d) \<rparr>) q;
          q = (if tl (skb_qs dst) = []
               then (upd_td env (td_key dst) (\<lambda>d. d\<lparr> td_credit := 0 \<rparr>) q)\<lparr> inactive_flows := inactive_flows q + 1 \<rparr>
               else q)
      in (timeslot_q, spin_unlock_hash (tsq_stat_inc ts_used_timeslots_update q)))"

definition admit_take :: "tsq_env \<Rightarrow> u64 \<Rightarrow> tsq_sched_data \<Rightarrow> (sk_buff list option \<times> tsq_sched_data) option" where
  "admit_take env key q = do {
     q \<leftarrow> spin_lock_hash q;
     (dst, q) \<leftarrow> dst_lookup env True key False q;
     case dst of
       None \<Rightarrow> Some (None, tsq_stat_inc ts_dst_not_found_admit_now_update q)
     | Some dst \<Rightarrow>
         if skb_qs dst = [] then Some (None, tsq_stat_inc ts_unwanted_alloc_update q)
         else let (timeslot_q, q) = admit_timeslot env dst q in Some (Some timeslot_q, q) }"

definition admit_append :: "sk_buff list \<Rightarrow> tsq_sched_data \<Rightarrow> tsq_sched_data option" where
  "admit_append timeslot_q q = do {
     guard_o (timeslot_q \<noteq> []);
     Some (q\<lparr> prequeue := prequeue q @ timeslot_q \<rparr>) }"

definition tsq_admit_now :: "tsq_env \<Rightarrow> u64 \<Rightarrow> tsq_sched_data \<Rightarrow> tsq_sched_data option" where
  "tsq_admit_now env key q = do {
     (taken, q) \<leftarrow> admit_take env key q;
     case taken of None \<Rightarrow> Some q | Some timeslot_q \<Rightarrow> admit_append timeslot_q q }"

definition got_skb :: "sk_buff \<Rightarrow> tsq_sched_data \<Rightarrow> sk_buff option \<times> tsq_sched_data" where
  "got_skb skb q = (Some skb, q\<lparr> q_qlen := q_qlen q - 1 \<rparr>)"

definition tsq_dequeue :: "tsq_sched_data \<Rightarrow> sk_buff option \<times> tsq_sched_data" where
  "tsq_dequeue q =
     (case hi_prio q of
        skb # rest \<Rightarrow> got_skb skb (q\<lparr> hi_prio := rest \<rparr>)
      | [] \<Rightarrow>
          (case reg_prio q of
             skb # rest \<Rightarrow> got_skb skb (q\<lparr> reg_prio := rest \<rparr>)
           | [] \<Rightarrow>
               let q = (if prequeue q \<noteq> [] then q\<lparr> reg_prio := prequeue q, prequeue := [] \<rparr> else q)
               in (case reg_prio q of
                     skb # rest \<Rightarrow> got_skb skb (q\<lparr> reg_prio := rest \<rparr>)
                   | [] \<Rightarrow> (None, q))))"

subsection \<open>Definitions: maintenance and configuration\<close>

definition emptied :: "nat \<Rightarrow> (nat \<Rightarrow> tsq_dst tree) \<Rightarrow> nat \<Rightarrow> tsq_dst tree" where
  "emptied log tbl i = (if i < 2 ^ log then Leaf else tbl i)"

definition tsq_tc_reset :: "u64 \<Rightarrow> tsq_sched_data \<Rightarrow> tsq_sched_data option" where
  "tsq_tc_reset now_monotonic q = do {
     let q = q\<lparr> reg_prio := [], hi_prio := [], enqueue_skb_q := [], prequeue := [] \<rparr>;
     q \<leftarrow> spin_lock_hash q;
     guard_o (log_ok (hash_tbl_log q));
     tbl \<leftarrow> dst_hash_tbl q;
     let q = spin_unlock_hash (q\<lparr> dst_hash_tbl := Some (emptied (hash_tbl_log q) tbl) \<rparr>);
     Some (q\<lparr> tsq_wnd := wnd_reset (tsq_wnd q) (tsq_timeslot q), flows := 0, inactive_flows := 0,
              next_zero_queue_time := now_monotonic \<rparr>) }"

text \<open>
  A tree is emptied from its first node on, so its flows are moved in order; \<^verbatim>\<open>FASTPASS_BUG_ON\<close> tests that
  the walk does not meet the key.
\<close>

definition rehash_one :: "tsq_env \<Rightarrow> nat \<Rightarrow> tsq_dst \<Rightarrow> (nat \<Rightarrow> tsq_dst tree) \<Rightarrow> (nat \<Rightarrow> tsq_dst tree) option" where
  "rehash_one env new_log d tbl = do {
     guard_o (rb_search (td_key d) (tbl (dst_bucket env new_log (td_key d))) = None);
     Some (rb_insert env new_log d tbl) }"

definition rehash_buckets :: "tsq_env \<Rightarrow> (nat \<Rightarrow> tsq_dst tree) \<Rightarrow> nat \<Rightarrow> nat \<Rightarrow> (nat \<Rightarrow> tsq_dst tree)
    \<Rightarrow> (nat \<Rightarrow> tsq_dst tree) option" where
  "rehash_buckets env old_array old_log new_log new_array =
     foldo (\<lambda>idx. foldo (rehash_one env new_log) (inorder (old_array idx))) [0..<2 ^ old_log] new_array"

definition rehash_dst_table :: "tsq_env \<Rightarrow> nat \<Rightarrow> (nat \<Rightarrow> tsq_dst tree) \<Rightarrow> tsq_sched_data
    \<Rightarrow> ((nat \<Rightarrow> tsq_dst tree) \<times> tsq_sched_data) option" where
  "rehash_dst_table env new_log new_array q = do {
     q \<leftarrow> spin_lock_hash q;
     guard_o (log_ok (hash_tbl_log q) \<and> log_ok new_log);
     tbl \<leftarrow> dst_hash_tbl q;
     array \<leftarrow> rehash_buckets env tbl (hash_tbl_log q) new_log new_array;
     Some (array, spin_unlock_hash (q\<lparr> dst_hash_tbl := Some (emptied (hash_tbl_log q) tbl) \<rparr>)) }"

definition ENOMEM :: int where "ENOMEM = 12"
definition EINVAL :: int where "EINVAL = 22"
definition ENOSYS :: int where "ENOSYS = 38"

text \<open>
  \<^verbatim>\<open>rehash_dst_table\<close> leaves the old table empty and gives the lock back; the new table is put in place
  afterwards, without the lock (\<^verbatim>\<open>install_table\<close>).
\<close>

definition install_table :: "(nat \<Rightarrow> tsq_dst tree) \<Rightarrow> nat \<Rightarrow> tsq_sched_data \<Rightarrow> tsq_sched_data" where
  "install_table array log q = q\<lparr> dst_hash_tbl := Some array, hash_tbl_log := log \<rparr>"

definition tsq_tc_resize :: "tsq_env \<Rightarrow> bool \<Rightarrow> nat \<Rightarrow> tsq_sched_data \<Rightarrow> (int \<times> tsq_sched_data) option" where
  "tsq_tc_resize env mem log q =
     (if dst_hash_tbl q \<noteq> None \<and> log = hash_tbl_log q then Some (0, q)
      else if \<not> mem then Some (- ENOMEM, q)
      else do {
        guard_o (log_ok log);
        let array = (\<lambda>_. Leaf);
        (array, q) \<leftarrow> (case dst_hash_tbl q of
             None \<Rightarrow> Some (array, q)
           | Some tbl \<Rightarrow> rehash_dst_table env log array q);
        Some (0, install_table array log q) })"

definition gc_bucket :: "tsq_env \<Rightarrow> nat \<Rightarrow> tsq_sched_data \<Rightarrow> tsq_sched_data option" where
  "gc_bucket env i q = do {
     tbl \<leftarrow> dst_hash_tbl q;
     Some (fold (\<lambda>d q. if skb_qs d = []
                  then tsq_stat_inc ts_gc_flows_update (q\<lparr> dst_hash_tbl :=
                         map_option (\<lambda>tbl. tbl(i := rb_erase env (td_key d) (tbl i))) (dst_hash_tbl q) \<rparr>)
                  else q) (inorder (tbl i)) q) }"

definition tsq_garbage_collect :: "tsq_env \<Rightarrow> u64 \<Rightarrow> tsq_sched_data \<Rightarrow> tsq_sched_data option" where
  "tsq_garbage_collect env now_monotonic q = do {
     guard_o (log_ok (hash_tbl_log q));
     let base_idx = dst_bucket env (hash_tbl_log q) now_monotonic;
     q \<leftarrow> spin_lock_hash q;
     q \<leftarrow> foldo (\<lambda>idx. gc_bucket env ((idx + base_idx) mod 2 ^ hash_tbl_log q)) [0..<2 ^ hash_tbl_log q] q;
     Some (spin_unlock_hash q) }"

text \<open>
  The netlink attributes. Those that are deprecated only set \<^verbatim>\<open>err\<close>, and \<^verbatim>\<open>err\<close> is overwritten by the result
  of \<^verbatim>\<open>tsq_tc_resize\<close>, so they leave no trace. A zero \<^verbatim>\<open>tslot_mul\<close> is divided by all the same.
\<close>

record tsq_attrs =
  at_plimit :: "u32 option"
  at_buckets_log :: "u32 option"
  at_data_rate :: "u32 option"
  at_timeslot_mul :: "u32 option"
  at_timeslot_shift :: "u32 option"

definition set_tslot_len :: "u64 \<Rightarrow> u32 \<Rightarrow> u32 \<Rightarrow> tsq_sched_data \<Rightarrow> tsq_sched_data option" where
  "set_tslot_len now_real tslot_mul tslot_shift q = do {
     guard_o (unat tslot_shift < 32 \<and> tslot_mul \<noteq> 0);
     let q = q\<lparr> tsq_mul := tslot_mul, tsq_shift := tslot_shift,
                tslot_len_approx := push_bit (unat tslot_shift) 1 div tslot_mul,
                tsq_timeslot := drop_bit (unat tslot_shift) (now_real * ucast tslot_mul) \<rparr>;
     Some (q\<lparr> tsq_wnd := wnd_reset (tsq_wnd q) (tsq_timeslot q) \<rparr>) }"

definition change_limits :: "tsq_attrs \<Rightarrow> tsq_sched_data \<Rightarrow> tsq_sched_data" where
  "change_limits a q =
     (let q = (case at_plimit a of Some n \<Rightarrow> if n > 0 then q\<lparr> q_limit := n \<rparr> else q | None \<Rightarrow> q)
      in case at_data_rate a of
           Some rate \<Rightarrow> if rate = 0 then q else q\<lparr> data_rate := psched_ratecfg_precompute rate 24 0 \<rparr>
         | None \<Rightarrow> q)"

definition new_tbl_log :: "tsq_attrs \<Rightarrow> nat \<Rightarrow> nat" where
  "new_tbl_log a fp_log =
     (case at_buckets_log a of Some n \<Rightarrow> if 1 \<le> n \<and> n \<le> 18 then unat n else fp_log | None \<Rightarrow> fp_log)"

definition tsq_tc_change :: "tsq_env \<Rightarrow> bool \<Rightarrow> u64 \<Rightarrow> tsq_attrs option \<Rightarrow> tsq_sched_data \<Rightarrow> (int \<times> tsq_sched_data) option" where
  "tsq_tc_change env mem now_real opt q =
     (case opt of
        None \<Rightarrow> Some (- EINVAL, q)
      | Some a \<Rightarrow> do {
          let q = change_limits a q;
          let mul = (case at_timeslot_mul a of Some n \<Rightarrow> n | None \<Rightarrow> tsq_mul q);
          let shift = (case at_timeslot_shift a of Some n \<Rightarrow> n | None \<Rightarrow> tsq_shift q);
          (err, q) \<leftarrow> tsq_tc_resize env mem (new_tbl_log a (hash_tbl_log q)) q;
          if err = 0 \<and> (at_timeslot_mul a \<noteq> None \<or> at_timeslot_shift a \<noteq> None)
          then do { q \<leftarrow> set_tslot_len now_real mul shift q; Some (err, q) }
          else Some (err, q) })"

text \<open>
  The memory of the qdisc is zeroed by the kernel, so the lock starts free. \<^verbatim>\<open>proc_ok\<close>, \<^verbatim>\<open>mem_cleanup\<close> and \<^verbatim>\<open>mem\<close>: the proc entry, the cleanup record and the table could be created. On an
  error after the table was allocated it is freed, which leaves the pointer dangling.
\<close>

definition tsq_tc_init :: "'p tsq_ops \<Rightarrow> tsq_env \<Rightarrow> bool \<Rightarrow> bool \<Rightarrow> bool \<Rightarrow> u64 \<Rightarrow> u64 \<Rightarrow> tsq_attrs option
    \<Rightarrow> 'p \<times> tsq_sched_data \<Rightarrow> (int \<times> 'p \<times> tsq_sched_data) option" where
  "tsq_tc_init tops env proc_ok mem_cleanup mem now_real now_monotonic opt = (\<lambda>(p, q). do {
     let q = q\<lparr> q_limit := 10000, hash_tbl_log := 10, data_rate := psched_ratecfg_precompute 125000000 24 0,
                dst_hash_tbl := None, enqueue_skb_q := [], reg_prio := [], hi_prio := [], prequeue := [],
                next_zero_queue_time := now_monotonic \<rparr>;
     q \<leftarrow> set_tslot_len now_real 419 19 q;
     let q = q\<lparr> flows := 0, inactive_flows := 0 \<rparr>;
     if \<not> proc_ok then Some (- ENOSYS, p, q)
     else if \<not> mem_cleanup then Some (- ENOMEM, p, q)
     else do {
       (err, q) \<leftarrow> (case opt of Some a \<Rightarrow> tsq_tc_change env mem now_real opt q
                             | None \<Rightarrow> tsq_tc_resize env mem (hash_tbl_log q) q);
       if err \<noteq> 0 then Some (err, p, q)
       else let (err, p) = new_qdisc tops (tsq_mul q) (tsq_shift q) p in Some (err, p, q) } })"

definition tsq_tc_destroy :: "'p tsq_ops \<Rightarrow> u64 \<Rightarrow> 'p \<times> tsq_sched_data \<Rightarrow> ('p \<times> tsq_sched_data) option" where
  "tsq_tc_destroy tops now_monotonic = (\<lambda>(p, q). do {
     let p = stop_qdisc tops p;
     q \<leftarrow> tsq_tc_reset now_monotonic q;
     Some (p, q) })"

subsection \<open>Definitions: the simple scheduler\<close>

text \<open>It has no private state and admits every timeslot at once.\<close>

definition simple_add_timeslot :: "tsq_env \<Rightarrow> u64 \<Rightarrow> unit \<times> tsq_sched_data \<Rightarrow> (unit \<times> tsq_sched_data) option" where
  "simple_add_timeslot env key = (\<lambda>(p, q). map_option (Pair p) (tsq_admit_now env key q))"

definition simple_tsq_ops :: "tsq_env \<Rightarrow> unit tsq_ops" where
  "simple_tsq_ops env = \<lparr> new_qdisc = (\<lambda>mul shift p. (0, p)), stop_qdisc = (\<lambda>p. p),
     add_timeslot = simple_add_timeslot env \<rparr>"

end
