(* ===== verification/FP_Tsq_Table.thy ===== *)
theory FP_Tsq_Table
  imports FP_Tsq
begin

unbundle bit_operations_syntax

text \<open>
  The flow table of the queueing discipline as a map: search trees in hash buckets, for any hash and
  any rebalancing that keeps the order of the nodes.
\<close>

subsection \<open>Search trees\<close>

text \<open>What the kernel documents of its red-black trees.\<close>

definition env_ok :: "tsq_env \<Rightarrow> bool" where
  "env_ok env \<longleftrightarrow> (\<forall>t. inorder (rb_insert_color env t) = inorder t)
     \<and> (\<forall>k t. distinct (map td_key (inorder t)) \<longrightarrow> inorder (rb_erase env k t) = filter (\<lambda>d. td_key d \<noteq> k) (inorder t))"

definition desc :: "tsq_dst tree \<Rightarrow> bool" where
  "desc t \<longleftrightarrow> sorted_wrt (\<lambda>d e. td_key d > td_key e) (inorder t)"

lemma desc_Node:
  "desc (Node l d r) \<longleftrightarrow> desc l \<and> desc r \<and> (\<forall>x \<in> set_tree l. td_key x > td_key d) \<and> (\<forall>x \<in> set_tree r. td_key d > td_key x)
    \<and> (\<forall>x \<in> set_tree l. \<forall>y \<in> set_tree r. td_key x > td_key y)"
  by (auto simp: desc_def sorted_wrt_append)

lemma rb_search_iff:
  "desc t \<Longrightarrow> rb_search k t = Some d \<longleftrightarrow> d \<in> set_tree t \<and> td_key d = k"
proof (induction t)
  case (Node l e r)
  then have IH: "rb_search k l = Some d \<longleftrightarrow> d \<in> set_tree l \<and> td_key d = k"
      "rb_search k r = Some d \<longleftrightarrow> d \<in> set_tree r \<and> td_key d = k"
    and o: "\<forall>x \<in> set_tree l. td_key x > td_key e" "\<forall>x \<in> set_tree r. td_key e > td_key x"
    by (simp_all add: desc_Node)
  then show ?case
    by (cases "td_key e = k"; cases "td_key e > k") (auto simp: not_less_iff_gr_or_eq)
qed simp

lemma rb_search_None: "desc t \<Longrightarrow> rb_search k t = None \<longleftrightarrow> (\<forall>d \<in> set_tree t. td_key d \<noteq> k)"
  using rb_search_iff [of t k] by (metis not_None_eq)

lemma rb_link_set [simp]: "set_tree (rb_link d t) = insert d (set_tree t)"
  by (induction t) auto

lemma rb_link_desc:
  "desc t \<Longrightarrow> \<forall>e \<in> set_tree t. td_key e \<noteq> td_key d \<Longrightarrow> desc (rb_link d t)"
proof (induction t)
  case (Node l e r)
  then have "td_key e \<noteq> td_key d"
    by simp
  then show ?case
    using Node by (cases "td_key e > td_key d") (auto simp: desc_Node)
qed (simp add: desc_def)

lemma desc_inorder: "inorder t' = inorder t \<Longrightarrow> desc t' = desc t \<and> set_tree t' = set_tree t"
  by (metis desc_def set_inorder)

lemma desc_distinct: "desc t \<Longrightarrow> distinct (map td_key (inorder t))"
  unfolding desc_def by (induction "inorder t" arbitrary: t rule: rev_induct)
    (force simp: sorted_wrt_iff_nth_less distinct_conv_nth linorder_neq_iff)+

lemma desc_map:
  assumes "\<And>d. td_key (f d) = td_key d"
  shows "desc (map_tree f t) = desc t"
  by (simp add: desc_def inorder_map sorted_wrt_map assms)

lemma rb_search_map:
  assumes "desc t" "\<And>d. td_key (f d) = td_key d"
  shows "rb_search k (map_tree f t) = map_option f (rb_search k t)"
  using assms(2) by (induction t) auto

subsection \<open>The table\<close>

definition tbl_ok :: "tsq_env \<Rightarrow> nat \<Rightarrow> (nat \<Rightarrow> tsq_dst tree) \<Rightarrow> bool" where
  "tbl_ok env log tbl \<longleftrightarrow> (\<forall>i < 2 ^ log. desc (tbl i) \<and> (\<forall>d \<in> set_tree (tbl i). dst_bucket env log (td_key d) = i))"

definition tbl_flow :: "tsq_env \<Rightarrow> nat \<Rightarrow> (nat \<Rightarrow> tsq_dst tree) \<Rightarrow> u64 \<Rightarrow> tsq_dst option" where
  "tbl_flow env log tbl k = rb_search k (tbl (dst_bucket env log k))"

lemma log_ok_le: "log_ok log \<Longrightarrow> log \<le> 32"
  by (simp add: log_ok_def)

lemma dst_bucket_lt: "log \<le> 32 \<Longrightarrow> dst_bucket env log k < 2 ^ log"
proof -
  assume "log \<le> 32"
  then have "unat x div 2 ^ (32 - log) < 2 ^ log" for x :: u32
    using unat_u32_lt [of x] by (simp add: div_less_iff_less_mult power_add [symmetric])
  then show ?thesis
    by (simp add: dst_bucket_def unat_drop_bit_eq drop_bit_nat_def)
qed

lemma tbl_flow_iff:
  assumes "tbl_ok env log tbl" "log \<le> 32"
  shows "tbl_flow env log tbl k = Some d \<longleftrightarrow> (\<exists>i < 2 ^ log. d \<in> set_tree (tbl i)) \<and> td_key d = k"
  using assms dst_bucket_lt [OF assms(2), of env k]
  by (auto simp: tbl_flow_def tbl_ok_def rb_search_iff)

lemma tbl_flow_key: "tbl_ok env log tbl \<Longrightarrow> log \<le> 32 \<Longrightarrow> tbl_flow env log tbl k = Some d \<Longrightarrow> td_key d = k"
  by (simp add: tbl_flow_iff)

lemma rb_insert_ok:
  assumes env: "env_ok env" and ok: "tbl_ok env log tbl" and log: "log \<le> 32" and new: "tbl_flow env log tbl (td_key d) = None"
  shows "tbl_ok env log (rb_insert env log d tbl)"
    and "tbl_flow env log (rb_insert env log d tbl) = (tbl_flow env log tbl)(td_key d \<mapsto> d)"
proof -
  let ?i = "dst_bucket env log (td_key d)" and ?t' = "rb_insert env log d tbl"
  have i: "?i < 2 ^ log"
    by (rule dst_bucket_lt [OF log])
  then have o: "desc (tbl ?i)" "\<forall>e \<in> set_tree (tbl ?i). td_key e \<noteq> td_key d"
    using ok new by (auto simp: tbl_ok_def tbl_flow_def rb_search_None)
  have t: "desc (?t' ?i)" "set_tree (?t' ?i) = insert d (set_tree (tbl ?i))" "\<And>j. j \<noteq> ?i \<Longrightarrow> ?t' j = tbl j"
    using rb_link_desc [OF o] desc_inorder [of "rb_insert_color env (rb_link d (tbl ?i))" "rb_link d (tbl ?i)"] env
    by (simp_all add: rb_insert_def Let_def env_ok_def)
  show ok': "tbl_ok env log ?t'"
    unfolding tbl_ok_def
  proof (intro allI impI)
    fix j :: nat
    assume "j < 2 ^ log"
    then show "desc (?t' j) \<and> (\<forall>e \<in> set_tree (?t' j). dst_bucket env log (td_key e) = j)"
      using ok t by (cases "j = ?i") (auto simp: tbl_ok_def)
  qed
  have "tbl_flow env log ?t' k = Some e \<longleftrightarrow> ((tbl_flow env log tbl)(td_key d \<mapsto> d)) k = Some e" for k e
  proof -
    have "(\<exists>j < 2 ^ log. e \<in> set_tree (?t' j)) \<longleftrightarrow> e = d \<or> (\<exists>j < 2 ^ log. e \<in> set_tree (tbl j))"
      using i t by (metis insert_iff)
    then show ?thesis
      using tbl_flow_iff [OF ok' log, of k e] tbl_flow_iff [OF ok log, of k e] tbl_flow_iff [OF ok log, of "td_key d" e] new by auto
  qed
  then show "tbl_flow env log ?t' = (tbl_flow env log tbl)(td_key d \<mapsto> d)"
    by (metis (no_types) not_None_eq ext)
qed

lemma tbl_upd_ok:
  fixes f k env log tbl
  defines "i \<equiv> dst_bucket env log k" and "g \<equiv> (\<lambda>d. if td_key d = k then f d else d)"
  assumes ok: "tbl_ok env log tbl" and log: "log \<le> 32" and f: "\<And>d. td_key (f d) = td_key d"
  shows "tbl_ok env log (tbl(i := map_tree g (tbl i)))"
    and "tbl_flow env log (tbl(i := map_tree g (tbl i))) = (tbl_flow env log tbl)(k := map_option f (tbl_flow env log tbl k))"
proof -
  have g: "td_key (g d) = td_key d" for d
    by (simp add: g_def f)
  show "tbl_ok env log (tbl(i := map_tree g (tbl i)))"
    using ok by (auto simp: tbl_ok_def desc_map [OF g] tree.set_map g)
  show "tbl_flow env log (tbl(i := map_tree g (tbl i))) = (tbl_flow env log tbl)(k := map_option f (tbl_flow env log tbl k))"
  proof
    fix k'
    have d: "desc (tbl (dst_bucket env log k'))"
      using ok dst_bucket_lt [OF log] by (simp add: tbl_ok_def)
    have "map_option g (rb_search k' t) = (if k' = k then map_option f (rb_search k' t) else rb_search k' t)" if "desc t" for t
      using rb_search_iff [OF that, of k' "the (rb_search k' t)"] by (cases "rb_search k' t") (auto simp: g_def)
    from this [OF d] show "tbl_flow env log (tbl(i := map_tree g (tbl i))) k' = ((tbl_flow env log tbl)(k := map_option f (tbl_flow env log tbl k))) k'"
      using rb_search_map [OF d g, of k'] by (auto simp: tbl_flow_def i_def)
  qed
qed

lemma tbl_erase_ok:
  assumes env: "env_ok env" and ok: "tbl_ok env log tbl" and log: "log \<le> 32" and i: "i < 2 ^ log" "dst_bucket env log k = i"
  shows "tbl_ok env log (tbl(i := rb_erase env k (tbl i)))"
    and "tbl_flow env log (tbl(i := rb_erase env k (tbl i))) = (tbl_flow env log tbl)(k := None)"
proof -
  let ?t' = "tbl(i := rb_erase env k (tbl i))"
  have o: "desc (tbl i)"
    using ok i by (simp add: tbl_ok_def)
  have e: "inorder (rb_erase env k (tbl i)) = filter (\<lambda>d. td_key d \<noteq> k) (inorder (tbl i))"
    using env desc_distinct [OF o] by (simp add: env_ok_def)
  then have t: "set_tree (rb_erase env k (tbl i)) = {d \<in> set_tree (tbl i). td_key d \<noteq> k}"
    by (metis set_filter set_inorder)
  have "desc (rb_erase env k (tbl i))"
    using o unfolding desc_def e by (rule sorted_wrt_filter)
  then show ok': "tbl_ok env log ?t'"
    using ok by (auto simp: tbl_ok_def t)
  have "tbl_flow env log ?t' k' = Some d \<longleftrightarrow> ((tbl_flow env log tbl)(k := None)) k' = Some d" for k' d
  proof -
    have "(\<exists>j < 2 ^ log. d \<in> set_tree (?t' j)) \<and> td_key d = k' \<longleftrightarrow> (\<exists>j < 2 ^ log. d \<in> set_tree (tbl j)) \<and> td_key d = k' \<and> k' \<noteq> k"
    proof -
      have "j = i" if "j < 2 ^ log" "d \<in> set_tree (tbl j)" "td_key d = k" for j
        using ok i(2) that by (auto simp: tbl_ok_def)
      then show ?thesis
        using t i(1) by (auto split: if_splits)
    qed
    then show ?thesis
      using tbl_flow_iff [OF ok' log, of k' d] tbl_flow_iff [OF ok log, of k' d] by auto
  qed
  then show "tbl_flow env log ?t' = (tbl_flow env log tbl)(k := None)"
    by (metis (no_types) not_None_eq ext)
qed

lemma tbl_empty: "tbl_ok env log (\<lambda>_. Leaf)" "tbl_flow env log (\<lambda>_. Leaf) = (\<lambda>_. None)"
  by (simp_all add: tbl_ok_def desc_def tbl_flow_def fun_eq_iff)

lemma rehash_list:
  assumes "env_ok env" "log \<le> 32" "distinct (map td_key ds)" "tbl_ok env log tbl" "\<forall>d \<in> set ds. tbl_flow env log tbl (td_key d) = None"
  shows "\<exists>tbl'. foldo (rehash_one env log) ds tbl = Some tbl' \<and> tbl_ok env log tbl'
    \<and> tbl_flow env log tbl' = tbl_flow env log tbl ++ map_of (map (\<lambda>d. (td_key d, d)) ds)"
  using assms(3-5)
proof (induction ds arbitrary: tbl)
  case (Cons d ds)
  have n: "rehash_one env log d tbl = Some (rb_insert env log d tbl)"
    using Cons.prems(3) by (simp add: rehash_one_def guard_o_def tbl_flow_def)
  note ins = rb_insert_ok [OF assms(1) Cons.prems(2) assms(2), of d]
  have "tbl_flow env log tbl (td_key d) = None"
    using Cons.prems(3) by simp
  note ins = ins [OF this]
  have "\<forall>e \<in> set ds. tbl_flow env log (rb_insert env log d tbl) (td_key e) = None"
    using Cons.prems(1,3) by (auto simp: ins(2)) (metis imageI)
  then obtain tbl' where t': "foldo (rehash_one env log) ds (rb_insert env log d tbl) = Some tbl'" "tbl_ok env log tbl'"
      "tbl_flow env log tbl' = tbl_flow env log (rb_insert env log d tbl) ++ map_of (map (\<lambda>d. (td_key d, d)) ds)"
    using Cons.IH [OF _ ins(1)] Cons.prems(1) by auto
  have "map_of (map (\<lambda>d. (td_key d, d)) ds) (td_key d) = None"
    using Cons.prems(1) by (auto simp: map_of_eq_None_iff image_iff)
  then have "tbl_flow env log tbl' = tbl_flow env log tbl ++ map_of (map (\<lambda>d. (td_key d, d)) (d # ds))"
    unfolding t'(3) ins(2) by (auto simp: fun_eq_iff map_add_def split: option.splits)
  moreover have "foldo (rehash_one env log) (d # ds) tbl = Some tbl'"
    using t'(1) n by simp
  ultimately show ?case
    using t'(2) by blast
qed simp

lemma bucket_flows:
  assumes ok: "tbl_ok env log tbl" and log: "log \<le> 32" and i: "i < 2 ^ log"
  shows "map_of (map (\<lambda>d. (td_key d, d)) (inorder (tbl i))) = (\<lambda>k. if dst_bucket env log k = i then tbl_flow env log tbl k else None)"
proof
  fix k
  let ?m = "map_of (map (\<lambda>d. (td_key d, d)) (inorder (tbl i)))"
  have o: "desc (tbl i)" and b: "\<forall>d \<in> set_tree (tbl i). dst_bucket env log (td_key d) = i"
    using ok i by (simp_all add: tbl_ok_def)
  have "?m k = Some d \<longleftrightarrow> d \<in> set_tree (tbl i) \<and> td_key d = k" for d
    using map_of_eq_Some_iff [of "map (\<lambda>d. (td_key d, d)) (inorder (tbl i))" k d] desc_distinct [OF o]
    by (auto simp: comp_def)
  then have "?m k = Some d \<longleftrightarrow> (if dst_bucket env log k = i then tbl_flow env log tbl k else None) = Some d" for d
    using b rb_search_iff [OF o, of k d] by (auto simp: tbl_flow_def)
  then show "?m k = (if dst_bucket env log k = i then tbl_flow env log tbl k else None)"
    by (metis (no_types) not_None_eq)
qed

lemma rehash_ok:
  assumes env: "env_ok env" and ok: "tbl_ok env log tbl" and log: "log \<le> 32" "log' \<le> 32"
  shows "\<exists>tbl'. rehash_buckets env tbl log log' (\<lambda>_. Leaf) = Some tbl' \<and> tbl_ok env log' tbl'
    \<and> tbl_flow env log' tbl' = tbl_flow env log tbl"
proof -
  define J where "J = (\<lambda>n tbl'. tbl_ok env log' tbl'
    \<and> tbl_flow env log' tbl' = (\<lambda>k. if dst_bucket env log k < n then tbl_flow env log tbl k else None))"
  have "wp (rehash_buckets env tbl log log' (\<lambda>_. Leaf)) (J (2 ^ log))"
    unfolding rehash_buckets_def
  proof (rule wp_upto)
    show "J 0 (\<lambda>_. Leaf)"
      using tbl_empty by (simp add: J_def)
    fix i t
    assume i: "i < 2 ^ log" and J: "J i t"
    let ?m = "map_of (map (\<lambda>d. (td_key d, d)) (inorder (tbl i)))"
    note b = bucket_flows [OF ok log(1) i]
    have "desc (tbl i)"
      using ok i by (simp add: tbl_ok_def)
    moreover have "\<forall>d \<in> set (inorder (tbl i)). tbl_flow env log' t (td_key d) = None"
      using J ok i by (auto simp: J_def tbl_ok_def)
    ultimately obtain t' where t': "foldo (rehash_one env log') (inorder (tbl i)) t = Some t'" "tbl_ok env log' t'"
        "tbl_flow env log' t' = tbl_flow env log' t ++ ?m"
      using rehash_list [OF env log(2) desc_distinct [of "tbl i"], of t] J unfolding J_def by blast
    have "J (Suc i) t'"
      using t'(2) J unfolding J_def t'(3) b by (auto simp: fun_eq_iff map_add_def less_Suc_eq split: option.splits)
    then show "wp (foldo (rehash_one env log') (inorder (tbl i)) t) (J (Suc i))"
      using t'(1) by simp
  qed
  then obtain tbl' where "rehash_buckets env tbl log log' (\<lambda>_. Leaf) = Some tbl'" "J (2 ^ log) tbl'"
    by (auto dest!: wpD)
  then show ?thesis
    using dst_bucket_lt [OF log(1)] by (auto simp: J_def)
qed

subsection \<open>The flows of the queueing discipline\<close>

definition table_inv :: "tsq_env \<Rightarrow> tsq_sched_data \<Rightarrow> bool" where
  "table_inv env q \<longleftrightarrow> log_ok (hash_tbl_log q)
     \<and> (case dst_hash_tbl q of None \<Rightarrow> False | Some tbl \<Rightarrow> tbl_ok env (hash_tbl_log q) tbl)"

definition flow :: "tsq_env \<Rightarrow> tsq_sched_data \<Rightarrow> u64 \<Rightarrow> tsq_dst option" where
  "flow env q = (case dst_hash_tbl q of None \<Rightarrow> (\<lambda>_. None) | Some tbl \<Rightarrow> tbl_flow env (hash_tbl_log q) tbl)"

lemma table_invE:
  assumes "table_inv env q"
  obtains tbl where "dst_hash_tbl q = Some tbl" "tbl_ok env (hash_tbl_log q) tbl" "hash_tbl_log q \<le> 32"
    "flow env q = tbl_flow env (hash_tbl_log q) tbl" "log_ok (hash_tbl_log q)"
  using assms by (auto simp: table_inv_def flow_def log_ok_le split: option.splits)

lemma table_cong:
  assumes "dst_hash_tbl q' = dst_hash_tbl q" "hash_tbl_log q' = hash_tbl_log q"
  shows "table_inv env q' = table_inv env q" and "flow env q' = flow env q"
  unfolding table_inv_def flow_def assms by (rule refl)+

lemma flow_key: "table_inv env q \<Longrightarrow> flow env q k = Some d \<Longrightarrow> td_key d = k"
  by (elim table_invE) (auto dest: tbl_flow_key)

lemma dst_lookup_found:
  "table_inv env q \<Longrightarrow> flow env q k = Some d \<Longrightarrow> dst_lookup env mem k create q = Some (Some d, q)"
  by (elim table_invE) (simp add: dst_lookup_def tbl_flow_def guard_o_def)

lemma dst_lookup_missing:
  "table_inv env q \<Longrightarrow> flow env q k = None \<Longrightarrow> dst_lookup env mem k False q = Some (None, q)"
  by (elim table_invE) (simp add: dst_lookup_def tbl_flow_def guard_o_def)

lemma dst_lookup_no_mem:
  "table_inv env q \<Longrightarrow> flow env q k = None \<Longrightarrow> dst_lookup env False k True q = Some (None, tsq_stat_inc ts_allocation_errors_update q)"
  by (elim table_invE) (simp add: dst_lookup_def tbl_flow_def guard_o_def)

definition new_dst :: "u64 \<Rightarrow> tsq_dst" where
  "new_dst k = \<lparr> td_key = k, skb_qs = [], td_credit = 0 \<rparr>"

lemma dst_lookup_create:
  assumes "env_ok env" "table_inv env q" "flow env q k = None"
  shows "\<exists>tbl. dst_lookup env True k True q = Some (Some (new_dst k),
      q\<lparr> dst_hash_tbl := Some tbl, flows := flows q + 1, inactive_flows := inactive_flows q + 1 \<rparr>)
    \<and> tbl_ok env (hash_tbl_log q) tbl \<and> tbl_flow env (hash_tbl_log q) tbl = (flow env q)(k \<mapsto> new_dst k)"
proof -
  obtain tbl where t: "dst_hash_tbl q = Some tbl" "tbl_ok env (hash_tbl_log q) tbl" "hash_tbl_log q \<le> 32"
      "flow env q = tbl_flow env (hash_tbl_log q) tbl" "log_ok (hash_tbl_log q)"
    using assms(2) by (rule table_invE)
  have "tbl_flow env (hash_tbl_log q) tbl (td_key (new_dst k)) = None"
    using assms(3) t(4) by (simp add: new_dst_def)
  note ins = rb_insert_ok [OF assms(1) t(2,3) this]
  then show ?thesis
    using assms(3) t by (auto simp: dst_lookup_def tbl_flow_def new_dst_def guard_o_def Let_def)
qed

lemma upd_td_ok:
  assumes "table_inv env q" "\<And>d. td_key (f d) = td_key d"
  shows "table_inv env (upd_td env k f q)"
    and "flow env (upd_td env k f q) = (flow env q)(k := map_option f (flow env q k))"
proof -
  obtain tbl where t: "dst_hash_tbl q = Some tbl" "tbl_ok env (hash_tbl_log q) tbl" "hash_tbl_log q \<le> 32"
      "flow env q = tbl_flow env (hash_tbl_log q) tbl" "log_ok (hash_tbl_log q)"
    using assms(1) by (rule table_invE)
  note u = tbl_upd_ok [OF t(2,3) assms(2), of k]
  show "table_inv env (upd_td env k f q)"
    using u(1) t by (simp add: table_inv_def upd_td_def Let_def)
  show "flow env (upd_td env k f q) = (flow env q)(k := map_option f (flow env q k))"
    using u(2) t by (simp add: flow_def upd_td_def Let_def)
qed

definition gc_step :: "tsq_env \<Rightarrow> nat \<Rightarrow> tsq_dst \<Rightarrow> tsq_sched_data \<Rightarrow> tsq_sched_data" where
  "gc_step env i d q = (if skb_qs d = []
     then tsq_stat_inc ts_gc_flows_update (q\<lparr> dst_hash_tbl :=
            map_option (\<lambda>tbl. tbl(i := rb_erase env (td_key d) (tbl i))) (dst_hash_tbl q) \<rparr>)
     else q)"

text \<open>Only the table and a counter change.\<close>

definition same_queues :: "tsq_sched_data \<Rightarrow> tsq_sched_data \<Rightarrow> bool" where
  "same_queues q q' \<longleftrightarrow> hi_prio q' = hi_prio q \<and> reg_prio q' = reg_prio q \<and> prequeue q' = prequeue q
     \<and> enqueue_skb_q q' = enqueue_skb_q q \<and> hash_tbl_lock q' = hash_tbl_lock q \<and> data_rate q' = data_rate q
     \<and> tslot_len_approx q' = tslot_len_approx q \<and> q_qlen q' = q_qlen q \<and> q_limit q' = q_limit q"

lemma same_queues_refl [simp]: "same_queues q q"
  by (simp add: same_queues_def)

lemma same_queues_trans: "same_queues q r \<Longrightarrow> same_queues r s \<Longrightarrow> same_queues q s"
  by (simp add: same_queues_def)

lemma gc_list:
  assumes "env_ok env" "table_inv env q" "i < 2 ^ hash_tbl_log q" "\<forall>d \<in> set ds. dst_bucket env (hash_tbl_log q) (td_key d) = i"
  shows "table_inv env (fold (gc_step env i) ds q) \<and> hash_tbl_log (fold (gc_step env i) ds q) = hash_tbl_log q
    \<and> flow env (fold (gc_step env i) ds q) = (\<lambda>k. if \<exists>d \<in> set ds. td_key d = k \<and> skb_qs d = [] then None else flow env q k)
    \<and> same_queues q (fold (gc_step env i) ds q)"
  using assms(2-)
proof (induction ds arbitrary: q)
  case (Cons d ds)
  obtain tbl where t: "dst_hash_tbl q = Some tbl" "tbl_ok env (hash_tbl_log q) tbl" "hash_tbl_log q \<le> 32"
      "flow env q = tbl_flow env (hash_tbl_log q) tbl" "log_ok (hash_tbl_log q)"
    using Cons.prems(1) by (rule table_invE)
  have b: "dst_bucket env (hash_tbl_log q) (td_key d) = i"
    using Cons.prems(3) by simp
  let ?q = "gc_step env i d q"
  note e = tbl_erase_ok [OF assms(1) t(2,3) Cons.prems(2) b]
  have q: "table_inv env ?q" "hash_tbl_log ?q = hash_tbl_log q" "same_queues q ?q"
      "flow env ?q = (if skb_qs d = [] then (flow env q)(td_key d := None) else flow env q)"
    using e t Cons.prems(1) by (auto simp: gc_step_def tsq_stat_inc_def table_inv_def flow_def same_queues_def)
  have "\<forall>d \<in> set ds. dst_bucket env (hash_tbl_log ?q) (td_key d) = i"
    using Cons.prems(3) by (simp add: q(2))
  note IH = Cons.IH [OF q(1) _ this, unfolded q(2), OF Cons.prems(2)]
  show ?case
    using IH q(3,4) by (auto simp: fun_eq_iff intro: same_queues_trans)
qed (simp add: fun_eq_iff)

text \<open>Garbage collection forgets exactly the flows without waiting timeslots.\<close>

definition busy_flow :: "tsq_dst option \<Rightarrow> tsq_dst option" where
  "busy_flow f = (case f of Some d \<Rightarrow> if skb_qs d = [] then None else Some d | None \<Rightarrow> None)"

lemma gc_bucket_ok:
  assumes env: "env_ok env" and inv: "table_inv env q" and i: "i < 2 ^ hash_tbl_log q"
  shows "\<exists>q'. gc_bucket env i q = Some q' \<and> table_inv env q' \<and> hash_tbl_log q' = hash_tbl_log q \<and> same_queues q q'
    \<and> flow env q' = (\<lambda>k. if dst_bucket env (hash_tbl_log q) k = i then busy_flow (flow env q k) else flow env q k)"
proof -
  obtain tbl where t: "dst_hash_tbl q = Some tbl" "tbl_ok env (hash_tbl_log q) tbl" "hash_tbl_log q \<le> 32"
      "flow env q = tbl_flow env (hash_tbl_log q) tbl" "log_ok (hash_tbl_log q)"
    using inv by (rule table_invE)
  have b: "\<forall>d \<in> set (inorder (tbl i)). dst_bucket env (hash_tbl_log q) (td_key d) = i"
    using t(2) i by (simp add: tbl_ok_def)
  have o: "desc (tbl i)"
    using t(2) i by (simp add: tbl_ok_def)
  have g: "gc_bucket env i q = Some (fold (gc_step env i) (inorder (tbl i)) q)"
    by (simp add: gc_bucket_def t(1) gc_step_def [abs_def])
  have "(if \<exists>d \<in> set (inorder (tbl i)). td_key d = k \<and> skb_qs d = [] then None else flow env q k)
      = (if dst_bucket env (hash_tbl_log q) k = i then busy_flow (flow env q k) else flow env q k)" for k
  proof (cases "dst_bucket env (hash_tbl_log q) k = i")
    case True
    then have f: "flow env q k = rb_search k (tbl i)"
      by (simp add: t(4) tbl_flow_def)
    show ?thesis
    proof (cases "rb_search k (tbl i)")
      case None
      then show ?thesis
        using True f by (auto simp: busy_flow_def)
    next
      case (Some d)
      then have "(\<exists>e \<in> set (inorder (tbl i)). td_key e = k \<and> skb_qs e = []) \<longleftrightarrow> skb_qs d = []"
        using rb_search_iff [OF o, of k] by (metis option.inject set_inorder)
      then show ?thesis
        using True f Some by (simp add: busy_flow_def)
    qed
  next
    case False
    then show ?thesis
      using b by auto
  qed
  then show ?thesis
    using gc_list [OF env inv i b] unfolding g by (intro exI [of _ "fold (gc_step env i) (inorder (tbl i)) q"]) simp
qed

end
