(* ===== verification/FP_Tsq_Inv.thy ===== *)
theory FP_Tsq_Inv
  imports FP_Tsq_Table
begin

unbundle bit_operations_syntax

text \<open>
  What the operations of the queueing discipline do to the flows, as functions on flows: a packet is
  put into the last timeslot of its flow or opens a new one, an admission takes the first timeslot.
  The invariant of the queueing discipline, and that every operation returns with the lock released
  and keeps it.
\<close>

subsection \<open>The cost of a packet\<close>

definition MAX_PKT :: nat where "MAX_PKT = 1048576"

definition pkt_cost :: "psched_ratecfg \<Rightarrow> sk_buff \<Rightarrow> int" where
  "pkt_cost r skb = sint (psched_l2t_ns r (skb_len skb))"

text \<open>A rate at which every packet takes time, and at which costs stay far from the range of the type.\<close>

definition rate_ok :: "psched_ratecfg \<Rightarrow> bool" where
  "rate_ok r \<longleftrightarrow> r_linklayer r \<noteq> TC_LINKLAYER_ATM \<and> unat (r_shift r) < 64 \<and> 0 < unat (r_overhead r)
     \<and> 2 ^ unat (r_shift r) \<le> unat (r_overhead r) * unat (r_mult r)"

lemma wire_len: "unat (len :: u32) < MAX_PKT \<Longrightarrow> unat len + unat (ov :: u16) < 2097152"
proof -
  assume "unat len < MAX_PKT"
  moreover have "unat ov < 65536"
    using unsigned_less [of ov] by simp
  ultimately show "unat len + unat ov < 2097152"
    unfolding MAX_PKT_def by linarith
qed

lemma wire_time:
  assumes "unat (len :: u32) < MAX_PKT"
  shows "(unat len + unat (ov :: u16)) * unat (m :: u32) < 2097152 * 4294967296"
proof -
  have "unat m < 4294967296"
    using unsigned_less [of m] by simp
  with wire_len [OF assms, of ov] show ?thesis
    by (intro mult_strict_mono) auto
qed

lemma psched_l2t_ns_unat:
  assumes r: "rate_ok r" and len: "unat len < MAX_PKT"
  shows "unat (psched_l2t_ns r len) = (unat len + unat (r_overhead r)) * unat (r_mult r) div 2 ^ unat (r_shift r)"
proof -
  have l: "unat (len + ucast (r_overhead r)) = unat len + unat (r_overhead r)"
    using wire_len [OF len, of "r_overhead r"] by (simp add: unat_word_ariths unsigned_ucast_eq take_bit_eq_mod)
  note t = wire_time [OF len, of "r_overhead r" "r_mult r"]
  have "unat (ucast (len + ucast (r_overhead r)) * ucast (r_mult r) :: u64) = (unat len + unat (r_overhead r)) * unat (r_mult r)"
    using l t by (simp add: unat_word_ariths unsigned_ucast_eq take_bit_eq_mod)
  then show ?thesis
    using r by (simp add: psched_l2t_ns_def rate_ok_def Let_def unat_drop_bit_eq drop_bit_nat_def)
qed

lemma sint_u64_small: "unat (x :: u64) < 2 ^ 63 \<Longrightarrow> sint x = int (unat x)"
proof -
  assume "unat x < 2 ^ 63"
  then have "uint x < 2 ^ 63"
    by (simp only: unat_eq_nat_uint nat_less_numeral_power_cancel_iff)
  moreover have "- (2 ^ 63) \<le> uint x"
    by (rule order_trans [OF _ unsigned_greater_eq]) simp
  ultimately have "signed_take_bit 63 (uint x) = uint x"
    by (rule signed_take_bit_int_eq_self [rotated])
  then show "sint x = int (unat x)"
    by (simp add: sint_uint)
qed

lemma pkt_cost_eq:
  assumes "rate_ok r" "unat (skb_len skb) < MAX_PKT"
  shows "unat (psched_l2t_ns r (skb_len skb)) < 9007199254740992" and "0 < pkt_cost r skb"
    and "pkt_cost r skb = int (unat (psched_l2t_ns r (skb_len skb)))"
proof -
  note c = psched_l2t_ns_unat [OF assms]
  let ?n = "unat (skb_len skb) + unat (r_overhead r)"
  show lt: "unat (psched_l2t_ns r (skb_len skb)) < 9007199254740992"
    unfolding c using wire_time [OF assms(2), of "r_overhead r" "r_mult r"]
    by (intro le_less_trans [OF div_le_dividend]) simp
  show e: "pkt_cost r skb = int (unat (psched_l2t_ns r (skb_len skb)))"
    unfolding pkt_cost_def by (rule sint_u64_small) (use lt in simp)
  have "2 ^ unat (r_shift r) \<le> ?n * unat (r_mult r)"
    using assms(1) by (auto simp: rate_ok_def add_mult_distrib intro: le_trans)
  then have "0 < unat (psched_l2t_ns r (skb_len skb))"
    unfolding c by (simp add: div_greater_zero_iff)
  then show "0 < pkt_cost r skb"
    unfolding e by (simp only: of_nat_0_less_iff)
qed

lemma psched_shift_ok:
  assumes "bps \<ge> 8"
  shows "psched_shift bps < 16" and "rate_factor (psched_shift bps) div bps \<le> 0xFFFFFFFF"
    and "psched_shift bps < 15 \<Longrightarrow> rate_factor (psched_shift bps + 1) div bps > 0xFFFFFFFF"
proof -
  have z: "\<not> rate_factor 0 div bps > 0xFFFFFFFF"
  proof -
    have "unat (rate_factor 0 div bps) \<le> 8000000000 div 8"
      using assms div_le_mono2 [of 8 "unat bps" 8000000000]
      by (simp add: rate_factor_def unat_div word_le_nat_alt)
    then show ?thesis
      by (simp add: word_less_nat_alt)
  qed
  have "psched_shift bps < 16 \<and> rate_factor (psched_shift bps) div bps \<le> 0xFFFFFFFF
      \<and> (psched_shift bps < 15 \<longrightarrow> rate_factor (psched_shift bps + 1) div bps > 0xFFFFFFFF)"
  proof (cases "find (\<lambda>s. rate_factor s div bps > 0xFFFFFFFF) [0..<16]")
    case None
    then have "psched_shift bps = 15"
      by (simp add: psched_shift_def)
    moreover have "\<not> rate_factor 15 div bps > 0xFFFFFFFF"
      using None by (simp add: find_None_iff)
    ultimately show ?thesis
      by (simp add: not_less)
  next
    case (Some s)
    then obtain i where i: "i < 16" "s = i" "rate_factor i div bps > 0xFFFFFFFF" "\<forall>j < i. \<not> rate_factor j div bps > 0xFFFFFFFF"
      by (auto simp: find_Some_iff)
    have "i \<noteq> 0"
      using i(3) z by (cases "i = 0") auto
    then show ?thesis
      using i by (auto simp: psched_shift_def Some not_less)
  qed
  then show "psched_shift bps < 16" "rate_factor (psched_shift bps) div bps \<le> 0xFFFFFFFF"
      "psched_shift bps < 15 \<Longrightarrow> rate_factor (psched_shift bps + 1) div bps > 0xFFFFFFFF"
    by blast+
qed

lemma rate_factor_unat:
  assumes "s < 16"
  shows "unat (rate_factor s) = 8000000000 * 2 ^ s"
proof -
  have "(2 :: nat) ^ s \<le> 2 ^ 15"
    using assms by (intro power_increasing) auto
  then have lt: "8000000000 * 2 ^ s < (18446744073709551616 :: nat)" "2 ^ s < (18446744073709551616 :: nat)"
    by simp_all
  have "unat (push_bit s 1 :: u64) = take_bit 64 (push_bit s (unat (1 :: u64)))"
    using unsigned_push_bit_eq [of s "1 :: u64", where 'a = nat] by (simp del: push_bit_of_1)
  also have "\<dots> = 2 ^ s"
    using lt(2) by (simp add: take_bit_eq_mod)
  finally show ?thesis
    using lt(1) by (simp add: rate_factor_def unat_word_ariths)
qed

text \<open>Every rate that can be configured is one at which packets take time.\<close>

lemma rate_ok_precompute:
  assumes "rate \<noteq> 0"
  shows "rate_ok (psched_ratecfg_precompute rate 24 0)"
proof -
  let ?bps = "push_bit 3 (ucast rate) :: u64" and ?s = "psched_shift (push_bit 3 (ucast rate))"
  have r: "unat rate < 4294967296" "0 < unat rate"
    using unsigned_less [of rate] assms by (simp_all add: unat_gt_0)
  then have "unat rate * 8 < 18446744073709551616"
    by linarith
  then have b: "unat ?bps = 8 * unat rate"
    by (simp add: push_bit_eq_mult unat_word_ariths unsigned_ucast_eq take_bit_eq_mod)
  then have bps: "?bps \<ge> 8" "?bps > 0"
    using r(2) by (simp_all add: word_le_nat_alt word_less_nat_alt)
  note s = psched_shift_ok [OF bps(1)]
  let ?m = "1000000000 * 2 ^ ?s div unat rate"
  have m: "unat (ucast (rate_factor ?s div ?bps) :: u32) = ?m"
    using s(2) div_mult_mult1 [of 8 "1000000000 * 2 ^ ?s" "unat rate"]
    by (simp add: unsigned_ucast_eq take_bit_eq_mod word_le_nat_alt unat_div b rate_factor_unat [OF s(1)])
  have "2 ^ ?s \<le> 24 * ?m"
  proof (cases "?s < 15")
    case True
    have "4294967296 \<le> 1000000000 * 2 ^ (?s + 1) div unat rate"
      using s(3) [OF True] True div_mult_mult1 [of 8 "1000000000 * 2 ^ (?s + 1)" "unat rate"]
      by (simp add: word_less_nat_alt unat_div b rate_factor_unat)
    then have "4294967296 * unat rate \<le> 1000000000 * 2 ^ (?s + 1)"
      using r(2) by (simp add: less_eq_div_iff_mult_less_eq)
    then have "2147483648 \<le> ?m"
      using r(2) by (simp add: less_eq_div_iff_mult_less_eq)
    moreover have "(2 :: nat) ^ ?s \<le> 2 ^ 15"
      using True by (intro power_increasing) auto
    ultimately show ?thesis
      by simp
  next
    case False
    then have "?s = 15"
      using s(1) by simp
    moreover have "1000000000 * 2 ^ 15 div 4294967296 \<le> 1000000000 * 2 ^ 15 div unat rate"
      using r by (intro div_le_mono2) linarith+
    ultimately show ?thesis
      by simp
  qed
  moreover have "unat (of_nat ?s :: u8) = ?s"
    using s(1) by (simp add: unat_of_nat)
  ultimately show ?thesis
    using m s(1) bps(2) by (simp add: rate_ok_def psched_ratecfg_precompute_def Let_def TC_LINKLAYER_ATM_def)
qed

subsection \<open>Operations on a flow\<close>

text \<open>Data packets are the ones that \<^verbatim>\<open>classify_hi_prio\<close> leaves to the timeslots.\<close>

definition is_data :: "sk_buff \<Rightarrow> bool" where
  "is_data skb \<longleftrightarrow> fst (classify_hi_prio skb undefined) = None"

lemma classify_hi_prio_fst: "fst (classify_hi_prio skb q) = fst (classify_hi_prio skb q')"
  by (simp add: classify_hi_prio_def classify_ip_def cannot_classify_def Let_def split: option.splits)

definition stat_only :: "tsq_sched_data \<Rightarrow> tsq_sched_data \<Rightarrow> bool" where
  "stat_only q q' \<longleftrightarrow> (\<exists>st. q' = q\<lparr> tsq_stat := st \<rparr>)"

lemma stat_only_inc [simp]: "stat_only q (tsq_stat_inc upd q)" "stat_only q q"
proof -
  show "stat_only q (tsq_stat_inc upd q)"
    by (auto simp: stat_only_def tsq_stat_inc_def)
  have "q = q\<lparr> tsq_stat := tsq_stat q \<rparr>"
    by simp
  then show "stat_only q q"
    unfolding stat_only_def by blast
qed

lemma classify_hi_prio_snd: "stat_only q (snd (classify_hi_prio skb q))"
  by (simp add: classify_hi_prio_def classify_ip_def cannot_classify_def Let_def split: option.split)

definition put_skb :: "u64 \<Rightarrow> u32 \<Rightarrow> sk_buff \<Rightarrow> tsq_dst \<Rightarrow> tsq_dst" where
  "put_skb cost slot skb d =
     (if sint cost > sint (td_credit d)
      then d\<lparr> td_credit := ucast slot - cost, skb_qs := skb_qs d @ [[skb]] \<rparr>
      else d\<lparr> td_credit := td_credit d - cost, skb_qs := butlast (skb_qs d) @ [last (skb_qs d) @ [skb]] \<rparr>)"

definition pop_slot :: "tsq_dst \<Rightarrow> tsq_dst" where
  "pop_slot d = d\<lparr> skb_qs := tl (skb_qs d), td_credit := (if tl (skb_qs d) = [] then 0 else td_credit d) \<rparr>"

definition flow_or_new :: "tsq_env \<Rightarrow> tsq_sched_data \<Rightarrow> u64 \<Rightarrow> tsq_dst" where
  "flow_or_new env q k = (case flow env q k of Some d \<Rightarrow> d | None \<Rightarrow> new_dst k)"

lemma table_inv_upd [simp]:
  "table_inv env (q\<lparr> hash_tbl_lock := b \<rparr>) = table_inv env q" "flow env (q\<lparr> hash_tbl_lock := b \<rparr>) = flow env q"
  "table_inv env (q\<lparr> tsq_stat := st \<rparr>) = table_inv env q" "flow env (q\<lparr> tsq_stat := st \<rparr>) = flow env q"
  "table_inv env (q\<lparr> inactive_flows := n \<rparr>) = table_inv env q" "flow env (q\<lparr> inactive_flows := n \<rparr>) = flow env q"
  "table_inv env (q\<lparr> prequeue := xs \<rparr>) = table_inv env q" "flow env (q\<lparr> prequeue := xs \<rparr>) = flow env q"
  "table_inv env (q\<lparr> enqueue_skb_q := xs \<rparr>) = table_inv env q" "flow env (q\<lparr> enqueue_skb_q := xs \<rparr>) = flow env q"
  "table_inv env (q\<lparr> reg_prio := xs \<rparr>) = table_inv env q" "flow env (q\<lparr> reg_prio := xs \<rparr>) = flow env q"
  "table_inv env (q\<lparr> hi_prio := xs \<rparr>) = table_inv env q" "flow env (q\<lparr> hi_prio := xs \<rparr>) = flow env q"
  "table_inv env (q\<lparr> q_qlen := m \<rparr>) = table_inv env q" "flow env (q\<lparr> q_qlen := m \<rparr>) = flow env q"
  "table_inv env (tsq_stat_inc upd q) = table_inv env q" "flow env (tsq_stat_inc upd q) = flow env q"
  "table_inv env (spin_unlock_hash q) = table_inv env q" "flow env (spin_unlock_hash q) = flow env q"
  by (rule table_cong; simp add: tsq_stat_inc_def spin_unlock_hash_def)+

lemma upd_td_queues [simp]: "same_queues (upd_td env k f q) q' = same_queues q q'" "same_queues q (upd_td env k f q') = same_queues q q'"
  by (simp_all add: same_queues_def upd_td_def)

lemma stat_inc_queues [simp]: "same_queues (tsq_stat_inc upd q) q' = same_queues q q'" "same_queues q (tsq_stat_inc upd q') = same_queues q q'"
  by (simp_all add: same_queues_def tsq_stat_inc_def)

lemma inactive_queues [simp]: "same_queues q (q'\<lparr> inactive_flows := n \<rparr>) = same_queues q q'"
  by (simp add: same_queues_def)

lemma classify_data_ok:
  assumes "env_ok env" "table_inv env q"
  shows "\<exists>q'. classify_data env True skb q = Some (Some (flow_or_new env q (skb_key skb)), q') \<and> table_inv env q'
    \<and> same_queues q q' \<and> flow env q' = (flow env q)(skb_key skb \<mapsto> flow_or_new env q (skb_key skb))"
proof -
  let ?q = "tsq_stat_inc ts_data_pkts_update q"
  have t: "table_inv env ?q" "flow env ?q = flow env q"
    using assms by simp_all
  show ?thesis
  proof (cases "flow env q (skb_key skb)")
    case None
    then show ?thesis
      using dst_lookup_create [OF assms(1) t(1), of "skb_key skb"] t(2) assms(2)
      by (auto simp: classify_data_def flow_or_new_def table_inv_def flow_def same_queues_def tsq_stat_inc_def)
  next
    case (Some d)
    then show ?thesis
      using dst_lookup_found [OF t(1), of "skb_key skb" d] t
      by (auto simp: classify_data_def flow_or_new_def)
  qed
qed

lemma same_queues_sym: "same_queues q r \<Longrightarrow> same_queues r q"
  by (simp add: same_queues_def)

lemma same_queues_unlock:
  "same_queues (q\<lparr> hash_tbl_lock := True \<rparr>) q' \<Longrightarrow> \<not> hash_tbl_lock q \<Longrightarrow> same_queues q (spin_unlock_hash q')"
  by (simp add: same_queues_def spin_unlock_hash_def)

lemma upd_td_at:
  assumes "table_inv env q" "flow env q k = Some d" "\<And>d. td_key (f d) = td_key d"
  shows "table_inv env (upd_td env k f q)" "flow env (upd_td env k f q) = (flow env q)(k \<mapsto> f d)"
  using upd_td_ok [OF assms(1,3), of k] assms(2) by simp_all

lemma open_timeslot_ok:
  assumes "table_inv env q" "flow env q k = Some d"
  shows "table_inv env (open_timeslot env cost d q)" and "same_queues q (open_timeslot env cost d q)"
    and "flow env (open_timeslot env cost d q) = (flow env q)(k \<mapsto> d\<lparr> skb_qs := skb_qs d @ [[]], td_credit := ucast (tslot_len_approx q) \<rparr>)"
proof -
  have k: "td_key d = k"
    using assms by (rule flow_key)
  let ?f = "\<lambda>d. d\<lparr> skb_qs := skb_qs d @ [[]], td_credit := ucast (tslot_len_approx q) \<rparr>"
  define q1 where "q1 = (if skb_qs d = [] then q\<lparr> inactive_flows := inactive_flows q - 1 \<rparr> else q)"
  have q1: "table_inv env q1" "flow env q1 = flow env q" "same_queues q q1" "tslot_len_approx q1 = tslot_len_approx q"
    using assms by (simp_all add: q1_def)
  have "open_timeslot env cost d q = (let q = tsq_stat_inc ts_added_tslots_update (upd_td env k ?f q1)
      in if sint cost > int (unat (tslot_len_approx q)) then tsq_stat_inc ts_pkt_too_big_update q else q)"
    by (simp add: open_timeslot_def k q1_def Let_def)
  moreover note upd_td_at [OF q1(1), of k d ?f]
  ultimately show "table_inv env (open_timeslot env cost d q)" "same_queues q (open_timeslot env cost d q)"
      "flow env (open_timeslot env cost d q) = (flow env q)(k \<mapsto> ?f d)"
    using q1 assms(2) by (simp_all add: Let_def)
qed

text \<open>A data packet, when there is memory and an empty flow has less credit than the packet costs.\<close>

lemma enqueue_single_ok:
  fixes skb
  defines "k \<equiv> skb_key skb"
  assumes env: "env_ok env" and inv: "table_inv env q" and free: "\<not> hash_tbl_lock q"
    and ne: "skb_qs (flow_or_new env q k) \<noteq> [] \<or> sint (psched_l2t_ns (data_rate q) (skb_len skb)) > sint (td_credit (flow_or_new env q k))"
  shows "\<exists>q'. enqueue_single_skb env (True, True) skb q =
      Some (if pkt_cost (data_rate q) skb > sint (td_credit (flow_or_new env q k)) then Some k else None, q')
    \<and> table_inv env q' \<and> same_queues q q'
    \<and> flow env q' = (flow env q)(k \<mapsto>
        put_skb (psched_l2t_ns (data_rate q) (skb_len skb)) (tslot_len_approx q) skb (flow_or_new env q k))"
proof -
  let ?c = "psched_l2t_ns (data_rate q) (skb_len skb)" and ?d = "flow_or_new env q k" and ?q = "q\<lparr> hash_tbl_lock := True \<rparr>"
  have lock: "spin_lock_hash q = Some ?q"
    using free by (simp add: spin_lock_hash_def)
  obtain q1 where q1: "classify_data env True skb ?q = Some (Some ?d, q1)" "table_inv env q1" "same_queues ?q q1"
      "flow env q1 = (flow env q)(k \<mapsto> ?d)"
    using classify_data_ok [OF env, of ?q skb] inv by (auto simp: k_def flow_or_new_def)
  then have fd: "flow env q1 k = Some ?d" and tl: "tslot_len_approx q1 = tslot_len_approx q"
    by (simp_all add: same_queues_def)
  have key: "td_key ?d = k"
    using flow_key [OF q1(2) fd] .
  have add: "td_key (add_to_timeslot ?c skb e) = td_key e" for e
    by (simp add: add_to_timeslot_def)
  show ?thesis
  proof (cases "sint ?c > sint (td_credit ?d)")
    case True
    define q2 where "q2 = upd_td env k (add_to_timeslot ?c skb) (open_timeslot env ?c ?d q1)"
    note o = open_timeslot_ok [OF q1(2) fd, of ?c]
    have "flow env (open_timeslot env ?c ?d q1) k = Some (?d\<lparr> skb_qs := skb_qs ?d @ [[]], td_credit := ucast (tslot_len_approx q) \<rparr>)"
      by (simp add: o(3) tl)
    note u = upd_td_at [OF o(1) this add, folded q2_def]
    have "enqueue_single_skb env (True, True) skb q = Some (Some k, spin_unlock_hash q2)"
      using True by (simp add: enqueue_single_skb_def lock q1(1) key q2_def Let_def)
    moreover have "same_queues q (spin_unlock_hash q2)"
      by (rule same_queues_unlock [OF _ free], rule same_queues_trans [OF q1(3)])
        (use o(2) in \<open>simp add: q2_def\<close>)
    moreover have "flow env q2 = (flow env q)(k \<mapsto> put_skb ?c (tslot_len_approx q) skb ?d)"
      using True by (simp add: u(2) o(3) q1(4) put_skb_def add_to_timeslot_def tl)
    ultimately show ?thesis
      using True u(1) by (simp add: pkt_cost_def)
  next
    case False
    then have "skb_qs ?d \<noteq> []"
      using ne by simp
    note u = upd_td_at [OF q1(2) fd add]
    let ?q2 = "upd_td env k (add_to_timeslot ?c skb) q1"
    have "enqueue_single_skb env (True, True) skb q = Some (None, spin_unlock_hash ?q2)"
      using False \<open>skb_qs ?d \<noteq> []\<close> by (simp add: enqueue_single_skb_def lock q1(1) key guard_o_def Let_def)
    moreover have "same_queues q (spin_unlock_hash ?q2)"
      by (rule same_queues_unlock [OF _ free]) (use q1(3) in simp)
    moreover have "flow env ?q2 = (flow env q)(k \<mapsto> put_skb ?c (tslot_len_approx q) skb ?d)"
      using False by (simp add: u(2) q1(4) put_skb_def add_to_timeslot_def)
    ultimately show ?thesis
      using False u(1) by (simp add: pkt_cost_def)
  qed
qed

lemma admit_take_ok:
  assumes inv: "table_inv env q" and free: "\<not> hash_tbl_lock q" and d: "flow env q k = Some d" "skb_qs d = x # xs"
  shows "\<exists>q'. admit_take env k q = Some (Some x, q') \<and> table_inv env q' \<and> flow env q' = (flow env q)(k \<mapsto> pop_slot d)
    \<and> same_queues q q'"
proof -
  let ?q = "q\<lparr> hash_tbl_lock := True \<rparr>"
  have lock: "spin_lock_hash q = Some ?q"
    using free by (simp add: spin_lock_hash_def)
  have look: "dst_lookup env True k False ?q = Some (Some d, ?q)"
    using dst_lookup_found [of env ?q k d] inv d(1) by simp
  have key: "td_key d = k"
    using inv d(1) by (rule flow_key)
  define q1 where "q1 = upd_td env k (\<lambda>d. d\<lparr> skb_qs := tl (skb_qs d) \<rparr>) ?q"
  define q2 where "q2 = (if xs = [] then (upd_td env k (\<lambda>d. d\<lparr> td_credit := 0 \<rparr>) q1)\<lparr> inactive_flows := inactive_flows q1 + 1 \<rparr> else q1)"
  have "table_inv env ?q" "flow env ?q k = Some d"
    using inv d(1) by simp_all
  note u1 = upd_td_at [OF this, of "\<lambda>d. d\<lparr> skb_qs := tl (skb_qs d) \<rparr>", folded q1_def]
  then have f1: "flow env q1 k = Some (d\<lparr> skb_qs := xs \<rparr>)" and i1: "table_inv env q1"
    by (simp_all add: d(2))
  note u2 = upd_td_at [OF i1 f1, of "\<lambda>d. d\<lparr> td_credit := 0 \<rparr>"]
  have q2: "table_inv env q2" "flow env q2 = (flow env q)(k \<mapsto> pop_slot d)" "same_queues ?q q2"
    using u1 u2 i1 by (simp_all add: q2_def q1_def [symmetric] pop_slot_def d(2)) (simp add: q1_def)
  have "admit_take env k q = Some (Some x, spin_unlock_hash (tsq_stat_inc ts_used_timeslots_update q2))"
    by (simp add: admit_take_def lock look admit_timeslot_def d(2) key q1_def q2_def Let_def)
  then show ?thesis
    using q2 free by (simp add: same_queues_def spin_unlock_hash_def tsq_stat_inc_def)
qed

lemma busy_flow_idem [simp]: "busy_flow (busy_flow f) = busy_flow f"
  by (simp add: busy_flow_def split: option.splits)

lemma garbage_collect_ok:
  assumes env: "env_ok env" and inv: "table_inv env q" and free: "\<not> hash_tbl_lock q"
  shows "\<exists>q'. tsq_garbage_collect env now q = Some q' \<and> table_inv env q' \<and> same_queues q q'
    \<and> flow env q' = busy_flow \<circ> flow env q"
proof -
  let ?q = "q\<lparr> hash_tbl_lock := True \<rparr>" and ?N = "2 ^ hash_tbl_log q" and ?b = "dst_bucket env (hash_tbl_log q) now"
  let ?i = "\<lambda>idx. (idx + ?b) mod ?N" and ?bk = "dst_bucket env (hash_tbl_log q)"
  have log: "hash_tbl_log q \<le> 32"
    using inv by (simp add: table_inv_def log_ok_le)
  define J where "J = (\<lambda>n q'. table_inv env q' \<and> hash_tbl_log q' = hash_tbl_log q \<and> same_queues ?q q'
    \<and> flow env q' = (\<lambda>k. if \<exists>idx < n. ?bk k = ?i idx then busy_flow (flow env q k) else flow env q k))"
  have "wp (foldo (\<lambda>idx. gc_bucket env (?i idx)) [0..<?N] ?q) (J ?N)"
  proof (rule wp_upto)
    show "J 0 ?q"
      using inv by (simp add: J_def)
    fix idx r
    assume J: "J idx r"
    then have i: "table_inv env r" "?i idx < 2 ^ hash_tbl_log r"
      by (simp_all add: J_def)
    obtain r' where r': "gc_bucket env (?i idx) r = Some r'" "table_inv env r'" "hash_tbl_log r' = hash_tbl_log r" "same_queues r r'"
        "flow env r' = (\<lambda>k. if dst_bucket env (hash_tbl_log r) k = ?i idx then busy_flow (flow env r k) else flow env r k)"
      using gc_bucket_ok [OF env i] by blast
    have "J (Suc idx) r'"
      using J r'(2-) unfolding J_def by (auto simp: fun_eq_iff less_Suc_eq intro: same_queues_trans)
    then show "wp (gc_bucket env (?i idx) r) (J (Suc idx))"
      by (simp add: r'(1))
  qed
  then obtain r where r: "foldo (\<lambda>idx. gc_bucket env (?i idx)) [0..<?N] ?q = Some r" "J ?N r"
    by (auto dest!: wpD)
  have "\<exists>idx < ?N. ?bk k = ?i idx" for k
  proof -
    have "?bk k < ?N" "?b < ?N"
      using dst_bucket_lt [OF log] by blast+
    then have "(((?bk k + (?N - ?b)) mod ?N) + ?b) mod ?N = ?bk k"
      by (simp add: mod_add_left_eq)
    then show ?thesis
      by (intro exI [of _ "(?bk k + (?N - ?b)) mod ?N"]) simp
  qed
  then have "flow env r = busy_flow \<circ> flow env q"
    using r(2) by (simp add: J_def fun_eq_iff)
  moreover have "tsq_garbage_collect env now q = Some (spin_unlock_hash r)"
    using r(1) free inv by (simp add: tsq_garbage_collect_def spin_lock_hash_def guard_o_def table_inv_def Let_def)
  ultimately show ?thesis
    using r(2) same_queues_unlock [OF _ free] by (auto simp: J_def)
qed

text \<open>Rehashing moves every flow to the new table and leaves the old one empty.\<close>

lemma rehash_table_ok:
  assumes env: "env_ok env" and inv: "table_inv env q" and free: "\<not> hash_tbl_lock q" and log: "log_ok log"
  shows "\<exists>array q'. rehash_dst_table env log (\<lambda>_. Leaf) q = Some (array, q') \<and> same_queues q q' \<and> table_inv env q'
    \<and> flow env q' = (\<lambda>_. None) \<and> hash_tbl_log q' = hash_tbl_log q \<and> dst_hash_tbl q' \<noteq> None
    \<and> (\<forall>r. table_inv env (install_table array log r) \<and> flow env (install_table array log r) = flow env q)"
proof -
  obtain tbl where t: "dst_hash_tbl q = Some tbl" "tbl_ok env (hash_tbl_log q) tbl" "hash_tbl_log q \<le> 32"
      "flow env q = tbl_flow env (hash_tbl_log q) tbl" "log_ok (hash_tbl_log q)"
    using inv by (rule table_invE)
  obtain array where a: "rehash_buckets env tbl (hash_tbl_log q) log (\<lambda>_. Leaf) = Some array" "tbl_ok env log array"
      "tbl_flow env log array = tbl_flow env (hash_tbl_log q) tbl"
    using rehash_ok [OF env t(2,3) log_ok_le [OF log]] by blast
  let ?q' = "q\<lparr> hash_tbl_lock := False, dst_hash_tbl := Some (emptied (hash_tbl_log q) tbl) \<rparr>"
  have "tbl_ok env (hash_tbl_log q) (emptied (hash_tbl_log q) tbl)"
      "tbl_flow env (hash_tbl_log q) (emptied (hash_tbl_log q) tbl) = (\<lambda>_. None)"
    using dst_bucket_lt [OF t(3), of env] by (simp_all add: tbl_ok_def tbl_flow_def emptied_def desc_def fun_eq_iff)
  then have "table_inv env ?q'" "flow env ?q' = (\<lambda>_. None)"
    using t(5) by (simp_all add: table_inv_def flow_def)
  moreover have "rehash_dst_table env log (\<lambda>_. Leaf) q = Some (array, ?q')"
    using t(1,5) log free a(1) by (simp add: rehash_dst_table_def spin_lock_hash_def spin_unlock_hash_def guard_o_def)
  moreover have "same_queues q ?q'"
    using free by (simp add: same_queues_def)
  ultimately show ?thesis
    using a(2,3) t(4) log by (intro exI [of _ array] exI [of _ ?q']) (simp add: install_table_def table_inv_def flow_def)
qed

lemma install_queues [simp]: "same_queues q (install_table array log r) = same_queues q r"
  by (simp add: same_queues_def install_table_def)

lemma resize_ok:
  assumes env: "env_ok env" and inv: "table_inv env q" and free: "\<not> hash_tbl_lock q" and log: "log_ok log"
  shows "\<exists>err q'. tsq_tc_resize env mem log q = Some (err, q') \<and> table_inv env q' \<and> same_queues q q' \<and> flow env q' = flow env q"
proof -
  obtain tbl where t: "dst_hash_tbl q = Some tbl"
    using inv by (rule table_invE)
  obtain array q' where "rehash_dst_table env log (\<lambda>_. Leaf) q = Some (array, q')" "same_queues q q'"
      "table_inv env (install_table array log q')" "flow env (install_table array log q') = flow env q"
    using rehash_table_ok [OF assms] by blast
  then show ?thesis
    using t log inv by (simp add: tsq_tc_resize_def guard_o_def)
qed

subsection \<open>The invariant\<close>

definition data_ok :: "sk_buff \<Rightarrow> bool" where
  "data_ok skb \<longleftrightarrow> is_data skb \<and> unat (skb_len skb) < MAX_PKT"

definition slot_cost :: "psched_ratecfg \<Rightarrow> sk_buff list \<Rightarrow> int" where
  "slot_cost r xs = (\<Sum>s\<leftarrow>xs. pkt_cost r s)"

text \<open>The packets of a timeslot fit its length, unless it is one packet that is longer.\<close>

definition slot_ok :: "psched_ratecfg \<Rightarrow> int \<Rightarrow> u64 \<Rightarrow> sk_buff list \<Rightarrow> bool" where
  "slot_ok r L k xs \<longleftrightarrow> xs \<noteq> [] \<and> (length xs = 1 \<or> slot_cost r xs \<le> L) \<and> (\<forall>s \<in> set xs. data_ok s \<and> skb_key s = k)"

text \<open>A timeslot is opened only for a packet that no longer fits the one before.\<close>

definition packed :: "psched_ratecfg \<Rightarrow> int \<Rightarrow> sk_buff list list \<Rightarrow> bool" where
  "packed r L = successively (\<lambda>xs ys. slot_cost r xs + pkt_cost r (hd ys) > L)"

definition td_ok :: "psched_ratecfg \<Rightarrow> int \<Rightarrow> u64 \<Rightarrow> tsq_dst \<Rightarrow> bool" where
  "td_ok r L k d \<longleftrightarrow> (\<forall>xs \<in> set (skb_qs d). slot_ok r L k xs) \<and> packed r L (skb_qs d)
     \<and> sint (td_credit d) = (if skb_qs d = [] then 0 else L - slot_cost r (last (skb_qs d)))"

definition tslot_len :: "tsq_sched_data \<Rightarrow> int" where
  "tslot_len q = int (unat (tslot_len_approx q))"

definition tsq_inv :: "tsq_env \<Rightarrow> tsq_sched_data \<Rightarrow> bool" where
  "tsq_inv env q \<longleftrightarrow> table_inv env q \<and> \<not> hash_tbl_lock q \<and> rate_ok (data_rate q)
     \<and> (\<forall>k d. flow env q k = Some d \<longrightarrow> td_ok (data_rate q) (tslot_len q) k d)
     \<and> (\<forall>s \<in> set (enqueue_skb_q q). data_ok s) \<and> (\<forall>s \<in> set (hi_prio q). \<not> is_data s)"

definition waiting :: "tsq_env \<Rightarrow> tsq_sched_data \<Rightarrow> u64 \<Rightarrow> sk_buff list list" where
  "waiting env q k = (case flow env q k of None \<Rightarrow> [] | Some d \<Rightarrow> skb_qs d)"

lemma td_ok_new: "td_ok r L k (new_dst k)"
  by (simp add: td_ok_def new_dst_def packed_def)

lemma packed_simps [simp]: "packed r L []" "packed r L [xs]"
  by (simp_all add: packed_def)

lemma packed_tl: "packed r L (xs # xss) \<Longrightarrow> packed r L xss"
  by (cases xss) (simp_all add: packed_def)

lemma packed_snoc: "packed r L (xss @ [ys]) \<longleftrightarrow> packed r L xss \<and> (xss \<noteq> [] \<longrightarrow> slot_cost r (last xss) + pkt_cost r (hd ys) > L)"
  by (auto simp: packed_def successively_append_iff)

lemma sint_diff:
  assumes "- 9223372036854775808 \<le> sint (a :: u64) - sint b" "sint a - sint b < 9223372036854775808"
  shows "sint (a - b) = sint a - sint b"
  using assms by (simp add: sint_word_ariths signed_take_bit_int_eq_self)

lemma pop_slot_ok: "td_ok r L k d \<Longrightarrow> td_ok r L k (pop_slot d)"
  by (cases "skb_qs d") (auto simp: td_ok_def pop_slot_def dest: packed_tl)

lemma put_skb_ok:
  assumes d: "td_ok r (int (unat L)) k d" and r: "rate_ok r" and skb: "data_ok skb" "skb_key skb = k"
  shows "td_ok r (int (unat (L :: u32))) k (put_skb (psched_l2t_ns r (skb_len skb)) L skb d)"
    and "concat (skb_qs (put_skb (psched_l2t_ns r (skb_len skb)) L skb d)) = concat (skb_qs d) @ [skb]"
    and "length (skb_qs (put_skb (psched_l2t_ns r (skb_len skb)) L skb d))
      = length (skb_qs d) + (if pkt_cost r skb > sint (td_credit d) then 1 else 0)"
proof -
  let ?c = "psched_l2t_ns r (skb_len skb)" and ?L = "int (unat L)"
  have len: "unat (skb_len skb) < MAX_PKT"
    using skb(1) by (simp add: data_ok_def)
  note c = pkt_cost_eq [OF r len]
  have pos: "0 < sint ?c"
    using c(2) by (simp add: pkt_cost_def)
  have lt: "sint ?c < 9007199254740992"
    unfolding c(3) [unfolded pkt_cost_def] using c(1) by linarith
  have L: "0 \<le> ?L" "?L < 4294967296"
    using unat_u32_lt [of L] by linarith+
  have ucL: "unat (ucast L :: u64) = unat L"
    using unat_u32_lt [of L] by (simp add: unsigned_ucast_eq take_bit_eq_mod)
  have sL: "sint (ucast L :: u64) = ?L"
    using sint_u64_small [of "ucast L"] unat_u32_lt [of L] by (simp only: ucL) simp
  show "td_ok r ?L k (put_skb ?c L skb d)" "concat (skb_qs (put_skb ?c L skb d)) = concat (skb_qs d) @ [skb]"
      "length (skb_qs (put_skb ?c L skb d)) = length (skb_qs d) + (if pkt_cost r skb > sint (td_credit d) then 1 else 0)"
  proof (atomize (full), cases "sint ?c > sint (td_credit d)")
    case True
    have "sint (ucast L - ?c :: u64) = ?L - sint ?c"
      using L lt pos sint_diff [of "ucast L" ?c, unfolded sL] by linarith
    then show "td_ok r ?L k (put_skb ?c L skb d) \<and> concat (skb_qs (put_skb ?c L skb d)) = concat (skb_qs d) @ [skb]
        \<and> length (skb_qs (put_skb ?c L skb d)) = length (skb_qs d) + (if pkt_cost r skb > sint (td_credit d) then 1 else 0)"
      using True d skb by (simp add: put_skb_def td_ok_def slot_ok_def slot_cost_def pkt_cost_def packed_snoc split: if_splits)
  next
    case False
    then have "skb_qs d \<noteq> []"
      using d pos by (auto simp: td_ok_def)
    then obtain yss ys where q: "skb_qs d = yss @ [ys]"
      by (metis rev_exhaust)
    have cr: "sint (td_credit d) = ?L - slot_cost r ys"
      using d by (simp add: td_ok_def q)
    have "sint (td_credit d) < 9223372036854775808"
      using sint_lt [of "td_credit d"] by simp
    then have "sint (td_credit d - ?c) = sint (td_credit d) - sint ?c"
      using False pos by (intro sint_diff) linarith+
    then have "sint (td_credit d - ?c) = ?L - slot_cost r (ys @ [skb])"
      by (simp add: cr slot_cost_def pkt_cost_def)
    moreover have "slot_cost r (ys @ [skb]) \<le> ?L"
      using False cr by (simp add: slot_cost_def pkt_cost_def)
    moreover have "packed r ?L (yss @ [ys @ [skb]])"
      using d by (auto simp: td_ok_def slot_ok_def packed_snoc q)
    ultimately show "td_ok r ?L k (put_skb ?c L skb d) \<and> concat (skb_qs (put_skb ?c L skb d)) = concat (skb_qs d) @ [skb]
        \<and> length (skb_qs (put_skb ?c L skb d)) = length (skb_qs d) + (if pkt_cost r skb > sint (td_credit d) then 1 else 0)"
      using False d skb by (simp add: put_skb_def td_ok_def slot_ok_def pkt_cost_def q ball_Un)
  qed
qed

subsection \<open>Every operation keeps the invariant\<close>

lemma tsq_inv_frame:
  assumes "tsq_inv env q" "table_inv env q'" "same_queues q q'" "\<And>k d. flow env q' k = Some d \<Longrightarrow> td_ok (data_rate q) (tslot_len q) k d"
  shows "tsq_inv env q'"
  using assms by (auto simp: tsq_inv_def same_queues_def tslot_len_def)

lemma td_ok_or_new: "tsq_inv env q \<Longrightarrow> td_ok (data_rate q) (tslot_len q) k (flow_or_new env q k)"
  by (simp add: tsq_inv_def flow_or_new_def td_ok_new split: option.splits)

lemma waiting_or_new: "waiting env q k = skb_qs (flow_or_new env q k)"
  by (simp add: waiting_def flow_or_new_def new_dst_def split: option.splits)

lemma inv_single:
  assumes env: "env_ok env" and inv: "tsq_inv env q" and skb: "data_ok skb"
  shows "\<exists>new q'. enqueue_single_skb env (True, True) skb q = Some (new, q') \<and> tsq_inv env q' \<and> same_queues q q'
    \<and> (new = None \<or> new = Some (skb_key skb))
    \<and> (\<forall>k. concat (waiting env q' k) = concat (waiting env q k) @ (if k = skb_key skb then [skb] else []))
    \<and> (\<forall>k. length (waiting env q' k) = length (waiting env q k) + (if new = Some k then 1 else 0))"
proof -
  let ?k = "skb_key skb" and ?c = "psched_l2t_ns (data_rate q) (skb_len skb)"
  let ?d = "flow_or_new env q ?k"
  let ?new = "if pkt_cost (data_rate q) skb > sint (td_credit ?d) then Some ?k else None"
  have r: "rate_ok (data_rate q)" "table_inv env q" "\<not> hash_tbl_lock q"
    using inv by (simp_all add: tsq_inv_def)
  note d = td_ok_or_new [OF inv, of ?k, unfolded tslot_len_def]
  note p = put_skb_ok [OF d r(1) skb refl]
  have "0 < pkt_cost (data_rate q) skb"
    using skb by (intro pkt_cost_eq [OF r(1)]) (simp add: data_ok_def)
  then have "skb_qs ?d \<noteq> [] \<or> sint ?c > sint (td_credit ?d)"
    using d by (auto simp: td_ok_def pkt_cost_def)
  from enqueue_single_ok [OF env r(2,3) this] obtain q' where q': "enqueue_single_skb env (True, True) skb q = Some (?new, q')"
      "table_inv env q'" "same_queues q q'" "flow env q' = (flow env q)(?k \<mapsto> put_skb ?c (tslot_len_approx q) skb ?d)"
    by blast
  have "tsq_inv env q'"
    using inv q'(2,3) p(1) by (rule_tac tsq_inv_frame) (auto simp: q'(4) tsq_inv_def tslot_len_def split: if_splits)
  moreover have "waiting env q' k = (if k = ?k then skb_qs (put_skb ?c (tslot_len_approx q) skb ?d) else waiting env q k)" for k
    by (simp add: waiting_def q'(4))
  ultimately show ?thesis
    using q'(1,3) p(2,3) by (intro exI [of _ ?new] exI [of _ q']) (simp add: waiting_or_new [of env q ?k])
qed

lemma inv_take:
  assumes inv: "tsq_inv env q" and w: "waiting env q k \<noteq> []"
  shows "\<exists>q'. admit_take env k q = Some (Some (hd (waiting env q k)), q') \<and> tsq_inv env q'
    \<and> waiting env q' = (waiting env q)(k := tl (waiting env q k)) \<and> same_queues q q'"
proof -
  obtain d x xs where d: "flow env q k = Some d" "skb_qs d = x # xs" "waiting env q k = x # xs"
    using w by (auto simp: waiting_def neq_Nil_conv split: option.splits)
  have ok: "td_ok (data_rate q) (tslot_len q) k d" "table_inv env q" "\<not> hash_tbl_lock q"
    using inv d(1) by (simp_all add: tsq_inv_def)
  from admit_take_ok [OF ok(2,3) d(1,2)] obtain q' where q': "admit_take env k q = Some (Some x, q')" "table_inv env q'"
      "flow env q' = (flow env q)(k \<mapsto> pop_slot d)" "same_queues q q'"
    by blast
  have "tsq_inv env q'"
    using inv q'(2,4) pop_slot_ok [OF ok(1)] by (rule_tac tsq_inv_frame) (auto simp: q'(3) tsq_inv_def split: if_splits)
  moreover have "waiting env q' = (waiting env q)(k := xs)"
    by (auto simp: waiting_def q'(3) pop_slot_def d(2))
  ultimately show ?thesis
    using q' d(3) by simp
qed

lemma waiting_ok: "tsq_inv env q \<Longrightarrow> xs \<in> set (waiting env q k) \<Longrightarrow> slot_ok (data_rate q) (tslot_len q) k xs"
  by (cases "flow env q k") (auto simp: tsq_inv_def waiting_def td_ok_def)

lemma inv_prequeue [simp]: "tsq_inv env (q\<lparr> prequeue := xs \<rparr>) = tsq_inv env q" "waiting env (q\<lparr> prequeue := xs \<rparr>) = waiting env q"
  by (simp_all add: tsq_inv_def tslot_len_def waiting_def fun_eq_iff)

lemma inv_admit:
  assumes inv: "tsq_inv env q" and w: "waiting env q k \<noteq> []"
  shows "\<exists>q'. tsq_admit_now env k q = Some q' \<and> tsq_inv env q' \<and> prequeue q' = prequeue q @ hd (waiting env q k)
    \<and> waiting env q' = (waiting env q)(k := tl (waiting env q k)) \<and> same_queues q (q'\<lparr> prequeue := prequeue q \<rparr>)"
proof -
  obtain q' where q': "admit_take env k q = Some (Some (hd (waiting env q k)), q')" "tsq_inv env q'"
      "waiting env q' = (waiting env q)(k := tl (waiting env q k))" "same_queues q q'"
    using inv_take [OF assms] by blast
  have "hd (waiting env q k) \<noteq> []"
    using waiting_ok [OF inv, of "hd (waiting env q k)" k] w by (simp add: slot_ok_def)
  then show ?thesis
    using q' by (simp add: tsq_admit_now_def admit_append_def guard_o_def same_queues_def)
qed

lemma inv_gc:
  assumes env: "env_ok env" and inv: "tsq_inv env q"
  shows "\<exists>q'. tsq_garbage_collect env now q = Some q' \<and> tsq_inv env q' \<and> waiting env q' = waiting env q \<and> same_queues q q'"
proof -
  obtain q' where q': "tsq_garbage_collect env now q = Some q'" "table_inv env q'" "same_queues q q'"
      "flow env q' = busy_flow \<circ> flow env q"
    using garbage_collect_ok [OF env] inv unfolding tsq_inv_def by blast
  have "tsq_inv env q'"
    using inv q'(2,3) by (rule_tac tsq_inv_frame) (auto simp: q'(4) tsq_inv_def busy_flow_def split: option.splits if_splits)
  moreover have "waiting env q' = waiting env q"
    by (auto simp: waiting_def q'(4) busy_flow_def split: option.splits)
  ultimately show ?thesis
    using q' by blast
qed

lemma inv_rehash:
  assumes env: "env_ok env" and inv: "tsq_inv env q" and log: "log_ok log"
  shows "\<exists>array q'. rehash_dst_table env log (\<lambda>_. Leaf) q = Some (array, q') \<and> same_queues q q' \<and> flow env q' = (\<lambda>_. None)
    \<and> table_inv env q' \<and> hash_tbl_log q' = hash_tbl_log q
    \<and> tsq_inv env (install_table array log q') \<and> waiting env (install_table array log q') = waiting env q"
proof -
  obtain array q' where q': "rehash_dst_table env log (\<lambda>_. Leaf) q = Some (array, q')" "same_queues q q'" "flow env q' = (\<lambda>_. None)"
      "table_inv env q'" "hash_tbl_log q' = hash_tbl_log q"
      "table_inv env (install_table array log q')" "flow env (install_table array log q') = flow env q"
    using rehash_table_ok [OF env _ _ log] inv unfolding tsq_inv_def by blast
  have "tsq_inv env (install_table array log q')"
    using inv q'(6) by (rule tsq_inv_frame) (use q'(2,7) inv in \<open>auto simp: tsq_inv_def\<close>)
  then show ?thesis
    using q' by (auto simp: waiting_def)
qed

subsection \<open>The flow table\<close>

text \<open>
  C31. The flow table is well formed and stands for a map from keys to flows, for every hash function
  and every rebalancing that keeps the order of the nodes, with a table of 2 to 2^31 cells: looking a key
  up returns the flow of the map; creating adds exactly the new, empty flow; resizing the table, to any
  of these sizes and with no other handler in between, keeps every flow, also the empty ones, and fails
  only for lack of memory, with the old table untouched; garbage collection ends and removes exactly the
  flows with no timeslot waiting. So it is garbage collection alone that forgets flows, although the
  comment on \<^verbatim>\<open>rehash_dst_table\<close> says that rehashing collects garbage too.
\<close>

theorem flow_table_is_map:
  assumes "env_ok env" "table_inv env q" "\<not> hash_tbl_lock q" "0 < log" "log < 32"
  shows "dst_lookup env mem k False q = Some (flow env q k, q)
    \<and> (\<exists>q'. dst_lookup env True k True q = Some (Some (flow_or_new env q k), q') \<and> table_inv env q'
         \<and> flow env q' = (flow env q)(k \<mapsto> flow_or_new env q k))
    \<and> (\<exists>q'. tsq_tc_resize env True log q = Some (0, q') \<and> table_inv env q' \<and> flow env q' = flow env q
         \<and> hash_tbl_log q' = log \<and> \<not> hash_tbl_lock q')
    \<and> (log \<noteq> hash_tbl_log q \<longrightarrow> tsq_tc_resize env False log q = Some (- ENOMEM, q))
    \<and> (\<exists>q'. tsq_garbage_collect env now q = Some q' \<and> table_inv env q' \<and> \<not> hash_tbl_lock q'
         \<and> flow env q' = (\<lambda>k. case flow env q k of Some d \<Rightarrow> if skb_qs d = [] then None else Some d | None \<Rightarrow> None))"
proof -
  have log: "log_ok log"
    using assms(4,5) by (simp add: log_ok_def)
  have "dst_lookup env mem k False q = Some (flow env q k, q)"
    using assms(2) by (cases "flow env q k") (auto simp: dst_lookup_found dst_lookup_missing)
  moreover have "\<exists>q'. dst_lookup env True k True q = Some (Some (flow_or_new env q k), q') \<and> table_inv env q'
         \<and> flow env q' = (flow env q)(k \<mapsto> flow_or_new env q k)"
  proof (cases "flow env q k")
    case None
    then show ?thesis
      using dst_lookup_create [OF assms(1,2), of k] assms(2) by (auto simp: flow_or_new_def table_inv_def flow_def)
  next
    case (Some d)
    then show ?thesis
      using assms(2) by (auto simp: dst_lookup_found flow_or_new_def)
  qed
  moreover have "\<exists>q'. tsq_tc_resize env True log q = Some (0, q') \<and> table_inv env q' \<and> flow env q' = flow env q
         \<and> hash_tbl_log q' = log \<and> \<not> hash_tbl_lock q'"
  proof -
    obtain err q' where r: "tsq_tc_resize env True log q = Some (err, q')" "table_inv env q'" "same_queues q q'" "flow env q' = flow env q"
      using resize_ok [OF assms(1-3) log] by blast
    moreover have "err = 0 \<and> hash_tbl_log q' = log"
      using r(1) by (auto simp: tsq_tc_resize_def bind_eq_Some_conv install_table_def Let_def split: if_splits)
    ultimately show ?thesis
      using assms(3) by (simp add: same_queues_def)
  qed
  moreover have "tsq_tc_resize env False log q = Some (- ENOMEM, q)" if "log \<noteq> hash_tbl_log q"
    using that by (simp add: tsq_tc_resize_def)
  moreover have "\<exists>q'. tsq_garbage_collect env now q = Some q' \<and> table_inv env q' \<and> \<not> hash_tbl_lock q'
         \<and> flow env q' = (\<lambda>k. case flow env q k of Some d \<Rightarrow> if skb_qs d = [] then None else Some d | None \<Rightarrow> None)"
    using garbage_collect_ok [OF assms(1-3), of now] assms(3) by (auto simp: same_queues_def busy_flow_def fun_eq_iff)
  ultimately show ?thesis
    by blast
qed

text \<open>Trees without balance, and a hash that is far from uniform.\<close>

definition demo_env :: tsq_env where
  "demo_env = \<lparr> jhash_2words = (\<lambda>a b c. push_bit 24 b + a), rb_insert_color = (\<lambda>t. t),
     rb_erase = (\<lambda>k t. foldr (\<lambda>d t. Node Leaf d t) (filter (\<lambda>d. td_key d \<noteq> k) (inorder t)) Leaf) \<rparr>"

lemma demo_env_ok: "env_ok demo_env"
proof -
  have "inorder (foldr (\<lambda>d t. Node Leaf d t) xs Leaf) = xs" for xs :: "tsq_dst list"
    by (induction xs) auto
  then show ?thesis
    by (simp add: env_ok_def demo_env_def)
qed

definition zero_tsq_stat :: tsq_sched_stat where
  "zero_tsq_stat = \<lparr> ts_gc_flows = 0, ts_ctrl_pkts = 0, ts_ntp_pkts = 0, ts_ptp_pkts = 0, ts_arp_pkts = 0, ts_igmp_pkts = 0,
     ts_ssh_pkts = 0, ts_data_pkts = 0, ts_classify_errors = 0, ts_above_plimit = 0, ts_allocation_errors = 0, ts_pkt_too_big = 0,
     ts_added_tslots = 0, ts_used_timeslots = 0, ts_unwanted_alloc = 0, ts_dst_not_found_admit_now = 0 \<rparr>"

definition demo_qdisc :: "(nat \<Rightarrow> tsq_dst tree) option \<Rightarrow> tsq_sched_data" where
  "demo_qdisc tbl = \<lparr> hash_tbl_log = 10, tsq_mul = 419, tsq_shift = 19, data_rate = psched_ratecfg_precompute 125000000 24 0,
     tslot_len_approx = 1251, hash_tbl_lock = False, dst_hash_tbl = tbl, enqueue_skb_q = [], reg_prio = [], hi_prio = [],
     prequeue = [], next_zero_queue_time = 0,
     tsq_wnd = \<lparr>marked = [], summary = 0, head = 0, head_word = 0, num_marked = 0\<rparr>, tsq_timeslot = 0, flows = 0, inactive_flows = 0,
     tsq_stat = zero_tsq_stat, q_qlen = 0, q_limit = 10000 \<rparr>"

lemma demo_table: "table_inv demo_env (demo_qdisc (Some (\<lambda>_. Leaf)))" "flow demo_env (demo_qdisc (Some (\<lambda>_. Leaf))) = (\<lambda>_. None)"
  using tbl_empty by (simp_all add: table_inv_def flow_def demo_qdisc_def log_ok_def)

theorem flow_table_is_map_witness:
  "dst_lookup demo_env True 3 False (demo_qdisc (Some (\<lambda>_. Leaf))) = Some (None, demo_qdisc (Some (\<lambda>_. Leaf)))
    \<and> (\<exists>q'. dst_lookup demo_env True 3 True (demo_qdisc (Some (\<lambda>_. Leaf))) = Some (Some (new_dst 3), q') \<and> flow demo_env q' 3 = Some (new_dst 3))
    \<and> tsq_tc_resize demo_env False 12 (demo_qdisc (Some (\<lambda>_. Leaf))) = Some (- ENOMEM, demo_qdisc (Some (\<lambda>_. Leaf)))"
proof -
  have "\<not> hash_tbl_lock (demo_qdisc (Some (\<lambda>_. Leaf)))" "hash_tbl_log (demo_qdisc (Some (\<lambda>_. Leaf))) = 10"
    by (simp_all add: demo_qdisc_def)
  with flow_table_is_map [OF demo_env_ok demo_table(1), of 12 True 3 0] show ?thesis
    by (auto simp: demo_table(2) flow_or_new_def)
qed

end
