(* ===== verification/FP_Node.thy ===== *)
theory FP_Node
  imports FP_Tsq_Inv FP_Client_Inv
begin

unbundle bit_operations_syntax

text \<open>
  The end node as a whole: the queueing discipline with the scheduler behind it, for the two
  schedulers of the kernel module, Fastpass (\<^verbatim>\<open>sch_fastpass.c\<close>) and the simple one (\<^verbatim>\<open>sch_simple.c\<close>).

  The handlers run concurrently: packets arrive and leave, the tasklet sorts packets into timeslots, a
  packet from the arbiter or a timer makes the scheduler admit timeslots. A step of the model is the
  part of a handler between two releases of the lock of the flow table, or of another lock where it works
  on another queue: the tasklet takes the arrived packets as a batch, puts them into timeslots one by
  one, and asks the scheduler after each timeslot it opens; an admission takes a timeslot from the table
  in one step and appends it to the packets that are ready in another; a change of the table's size moves
  the flows to the new table in one step and installs that table in another. The steps interleave.
\<close>

subsection \<open>Definitions: the node\<close>

text \<open>
  \<^verbatim>\<open>nd_flight\<close> are the timeslots that admissions have taken and not yet appended, \<^verbatim>\<open>nd_resize\<close> the table, with its
  log, that waits to be installed.
\<close>

record 'p node =
  nd_sched :: 'p
  nd_q :: tsq_sched_data
  nd_batch :: "sk_buff list"
  nd_new :: "u64 option"
  nd_admits :: "u64 list"
  nd_flight :: "sk_buff list list"
  nd_resize :: "((nat \<Rightarrow> tsq_dst tree) \<times> nat) option"

datatype node_event = Arrive sk_buff bool | Leave sk_buff | Quiet

text \<open>
  \<^verbatim>\<open>tops\<close> is the scheduler's table of operations at a reading of the clock, \<^verbatim>\<open>own\<close> the steps the scheduler
  makes by itself with the flows it admits. Reconfiguration may change the limit and the size of the table.

  \<^verbatim>\<open>calm\<close> says what the code relies on without enforcing it: there is memory for flows and timeslots, the
  qdisc is not reset, admissions are carried out one at a time and in order (the receive path no longer
  takes the lock of the socket, \<^verbatim>\<open>fastpass_proto.c\<close>), and neither the tasklet nor an admission nor
  garbage collection runs between the two parts of a resize (\<^verbatim>\<open>tsq_tc_resize\<close> gives the lock of the table
  back before it installs the new one). Without \<^verbatim>\<open>calm\<close> none of this is assumed.

  A scheduler that admits when it is asked does so within the tasklet's step; nothing else admits then.
\<close>

inductive node_step :: "bool \<Rightarrow> (u64 \<Rightarrow> 'p tsq_ops) \<Rightarrow> ('p \<Rightarrow> u64 list \<Rightarrow> 'p \<Rightarrow> bool) \<Rightarrow> tsq_env \<Rightarrow> 'p node \<Rightarrow> node_event
    \<Rightarrow> 'p node \<Rightarrow> bool"
  for calm tops own env where
  arrive: "tsq_enqueue skb (nd_q n) = (acc, q') \<Longrightarrow> unat (skb_len skb) < MAX_PKT
     \<Longrightarrow> node_step calm tops own env n (Arrive skb acc) (n\<lparr> nd_q := q' \<rparr>)"
| leave: "tsq_dequeue (nd_q n) = (Some skb, q') \<Longrightarrow> node_step calm tops own env n (Leave skb) (n\<lparr> nd_q := q' \<rparr>)"
| idle: "tsq_dequeue (nd_q n) = (None, q') \<Longrightarrow> node_step calm tops own env n Quiet (n\<lparr> nd_q := q' \<rparr>)"
| take: "nd_batch n = [] \<Longrightarrow> nd_new n = None
     \<Longrightarrow> node_step calm tops own env n Quiet (n\<lparr> nd_batch := enqueue_skb_q (nd_q n), nd_q := (nd_q n)\<lparr> enqueue_skb_q := [] \<rparr> \<rparr>)"
| put: "nd_batch n = skb # rest \<Longrightarrow> nd_new n = None \<Longrightarrow> enqueue_single_skb env mem skb (nd_q n) = Some (new, q')
     \<Longrightarrow> (calm \<Longrightarrow> mem = (True, True) \<and> nd_resize n = None)
     \<Longrightarrow> node_step calm tops own env n Quiet (n\<lparr> nd_batch := rest, nd_new := new, nd_q := q' \<rparr>)"
| ask: "nd_new n = Some k \<Longrightarrow> add_timeslot (tops now) k (nd_sched n, nd_q n) = Some (p', q') \<Longrightarrow> (calm \<Longrightarrow> nd_resize n = None)
     \<Longrightarrow> node_step calm tops own env n Quiet (n\<lparr> nd_sched := p', nd_q := q', nd_new := None \<rparr>)"
| own: "own (nd_sched n) ks p' \<Longrightarrow> node_step calm tops own env n Quiet (n\<lparr> nd_sched := p', nd_admits := nd_admits n @ ks \<rparr>)"
| admit: "nd_admits n = ks @ k # ks' \<Longrightarrow> admit_take env k (nd_q n) = Some (taken, q')
     \<Longrightarrow> (calm \<Longrightarrow> ks = [] \<and> nd_flight n = [] \<and> nd_resize n = None)
     \<Longrightarrow> node_step calm tops own env n Quiet (n\<lparr> nd_q := q', nd_admits := ks @ ks',
           nd_flight := nd_flight n @ (case taken of None \<Rightarrow> [] | Some tq \<Rightarrow> [tq]) \<rparr>)"
| append: "nd_flight n = fl @ tq # fl' \<Longrightarrow> admit_append tq (nd_q n) = Some q'
     \<Longrightarrow> node_step calm tops own env n Quiet (n\<lparr> nd_q := q', nd_flight := fl @ fl' \<rparr>)"
| collect: "tsq_garbage_collect env now (nd_q n) = Some q' \<Longrightarrow> (calm \<Longrightarrow> nd_resize n = None)
     \<Longrightarrow> node_step calm tops own env n Quiet (n\<lparr> nd_q := q' \<rparr>)"
| change: "tsq_tc_change env mem now_real (Some a) (nd_q n) = Some (err, q') \<Longrightarrow> at_data_rate a = None
     \<Longrightarrow> at_timeslot_mul a = None \<Longrightarrow> at_timeslot_shift a = None
     \<Longrightarrow> \<not> mem \<or> new_tbl_log a (hash_tbl_log (nd_q n)) = hash_tbl_log (nd_q n) \<Longrightarrow> nd_resize n = None
     \<Longrightarrow> node_step calm tops own env n Quiet (n\<lparr> nd_q := q' \<rparr>)"
| rehash: "rehash_dst_table env (new_tbl_log a (hash_tbl_log (nd_q n))) (\<lambda>_. Leaf) (change_limits a (nd_q n)) = Some (array, q')
     \<Longrightarrow> at_data_rate a = None \<Longrightarrow> at_timeslot_mul a = None \<Longrightarrow> at_timeslot_shift a = None
     \<Longrightarrow> new_tbl_log a (hash_tbl_log (nd_q n)) \<noteq> hash_tbl_log (nd_q n) \<Longrightarrow> nd_resize n = None
     \<Longrightarrow> node_step calm tops own env n Quiet (n\<lparr> nd_q := q', nd_resize := Some (array, new_tbl_log a (hash_tbl_log (nd_q n))) \<rparr>)"
| install: "nd_resize n = Some (array, log)
     \<Longrightarrow> node_step calm tops own env n Quiet (n\<lparr> nd_q := install_table array log (nd_q n), nd_resize := None \<rparr>)"
| reset: "tsq_tc_reset now (nd_q n) = Some q' \<Longrightarrow> \<not> calm \<Longrightarrow> nd_resize n = None
     \<Longrightarrow> node_step calm tops own env n Quiet (n\<lparr> nd_q := q' \<rparr>)"

inductive node_run :: "bool \<Rightarrow> (u64 \<Rightarrow> 'p tsq_ops) \<Rightarrow> ('p \<Rightarrow> u64 list \<Rightarrow> 'p \<Rightarrow> bool) \<Rightarrow> tsq_env \<Rightarrow> 'p \<times> tsq_sched_data
    \<Rightarrow> node_event list \<Rightarrow> 'p node \<Rightarrow> bool"
  for calm tops own env pq0 where
  boot: "tsq_tc_init (tops now) env proc_ok mem_cleanup mem now_real now_monotonic opt pq0 = Some (0, p, q)
     \<Longrightarrow> node_run calm tops own env pq0 [] \<lparr> nd_sched = p, nd_q = q, nd_batch = [], nd_new = None, nd_admits = [],
           nd_flight = [], nd_resize = None \<rparr>"
| step: "node_run calm tops own env pq0 evs n \<Longrightarrow> node_step calm tops own env n e n'
     \<Longrightarrow> node_run calm tops own env pq0 (evs @ [e]) n'"

text \<open>The state of the queueing discipline with the new table in place.\<close>

definition settle :: "((nat \<Rightarrow> tsq_dst tree) \<times> nat) option \<Rightarrow> tsq_sched_data \<Rightarrow> tsq_sched_data" where
  "settle r q = (case r of None \<Rightarrow> q | Some (array, log) \<Rightarrow> install_table array log q)"

abbreviation settled :: "'p node \<Rightarrow> tsq_sched_data" where
  "settled n \<equiv> settle (nd_resize n) (nd_q n)"

text \<open>Data packets to a destination: those accepted and those handed to the device in a run, and those inside.\<close>

definition data_for :: "u64 \<Rightarrow> sk_buff list \<Rightarrow> sk_buff list" where
  "data_for k = filter (\<lambda>s. is_data s \<and> skb_key s = k)"

fun ev_accepted :: "node_event \<Rightarrow> sk_buff list" where
  "ev_accepted (Arrive skb acc) = (if acc then [skb] else [])"
| "ev_accepted _ = []"

fun ev_left :: "node_event \<Rightarrow> sk_buff list" where
  "ev_left (Leave skb) = [skb]"
| "ev_left _ = []"

definition inside :: "tsq_env \<Rightarrow> 'p node \<Rightarrow> u64 \<Rightarrow> sk_buff list" where
  "inside env n k = data_for k (reg_prio (nd_q n) @ prequeue (nd_q n) @ concat (nd_flight n))
     @ concat (waiting env (settled n) k) @ data_for k (nd_batch n @ enqueue_skb_q (nd_q n))"

subsection \<open>Packets in and out\<close>

lemma data_for_simps [simp]:
  "data_for k [] = []" "data_for k (xs @ ys) = data_for k xs @ data_for k ys"
  "data_for k (x # xs) = (if is_data x \<and> skb_key x = k then x # data_for k xs else data_for k xs)"
  by (simp_all add: data_for_def)

lemma data_for_all: "\<forall>s \<in> set xs. is_data s \<and> skb_key s = k \<Longrightarrow> data_for k xs = xs"
  by (simp add: data_for_def)

lemma data_for_other: "\<forall>s \<in> set xs. is_data s \<longrightarrow> skb_key s \<noteq> k \<Longrightarrow> data_for k xs = []"
  by (induction xs) auto

definition ready :: "tsq_env \<Rightarrow> tsq_sched_data \<Rightarrow> u64 \<Rightarrow> sk_buff list" where
  "ready env q k = data_for k (reg_prio q @ prequeue q) @ concat (waiting env q k)"

lemma inside_ready:
  "nd_flight n = [] \<Longrightarrow> nd_resize n = None
    \<Longrightarrow> inside env n k = ready env (nd_q n) k @ data_for k (nd_batch n @ enqueue_skb_q (nd_q n))"
  by (simp add: inside_def ready_def settle_def)

lemma settle_simps [simp]:
  "settle None q = q" "reg_prio (settle r q) = reg_prio q" "hi_prio (settle r q) = hi_prio q" "prequeue (settle r q) = prequeue q"
  "enqueue_skb_q (settle r q) = enqueue_skb_q q" "hash_tbl_lock (settle r q) = hash_tbl_lock q"
  "settle r (q\<lparr> prequeue := xs \<rparr>) = (settle r q)\<lparr> prequeue := xs \<rparr>"
  "settle r (q\<lparr> enqueue_skb_q := xs \<rparr>) = (settle r q)\<lparr> enqueue_skb_q := xs \<rparr>"
  by (simp_all add: settle_def install_table_def split: option.splits prod.splits)

lemma settle_stat: "tsq_stat_inc f (settle r q) = settle r (tsq_stat_inc f q)"
  by (simp add: settle_def install_table_def tsq_stat_inc_def split: option.splits prod.splits)

lemma settle_classify: "classify_hi_prio skb (settle r q) = map_prod id (settle r) (classify_hi_prio skb q)"
  by (simp add: classify_hi_prio_def classify_ip_def cannot_classify_def settle_stat Let_def split: option.split)

lemma settle_enqueue: "tsq_enqueue skb (settle r q) = map_prod id (settle r) (tsq_enqueue skb q)"
proof -
  obtain c q1 where c: "classify_hi_prio skb q = (c, q1)"
    by fastforce
  have upd: "q_qlen (settle r q) = q_qlen q" "q_limit (settle r q) = q_limit q" "settle r (q\<lparr> q_qlen := m \<rparr>) = (settle r q)\<lparr> q_qlen := m \<rparr>"
      "settle r (q\<lparr> hi_prio := xs \<rparr>) = (settle r q)\<lparr> hi_prio := xs \<rparr>" "settle r (q\<lparr> reg_prio := xs \<rparr>) = (settle r q)\<lparr> reg_prio := xs \<rparr>" for q m xs
    by (simp_all add: settle_def install_table_def split: option.splits prod.splits)
  show ?thesis
    unfolding tsq_enqueue_def settle_classify c
    by (cases c) (simp_all add: upd settle_stat split: tsq_prio.split)
qed

lemma settle_dequeue: "tsq_dequeue (settle r q) = map_prod id (settle r) (tsq_dequeue q)"
proof -
  have upd: "settle r (q\<lparr> q_qlen := m \<rparr>) = (settle r q)\<lparr> q_qlen := m \<rparr>" "q_qlen (settle r q) = q_qlen q"
      "settle r (q\<lparr> hi_prio := xs \<rparr>) = (settle r q)\<lparr> hi_prio := xs \<rparr>" "settle r (q\<lparr> reg_prio := xs \<rparr>) = (settle r q)\<lparr> reg_prio := xs \<rparr>" for q m xs
    by (simp_all add: settle_def install_table_def split: option.splits prod.splits)
  show ?thesis
    by (cases "hi_prio q"; cases "reg_prio q"; cases "prequeue q") (simp_all add: tsq_dequeue_def got_skb_def upd)
qed

lemma length_accepted: "length (data_for k (concat (map ev_accepted evs))) \<le> length evs"
proof -
  have "length (concat (map ev_accepted evs)) \<le> length evs"
  proof (induction evs)
    case (Cons e es)
    then show ?case
      by (cases e) auto
  qed simp
  then show ?thesis
    unfolding data_for_def using length_filter_le le_trans by blast
qed

lemma inv_enqueue:
  assumes inv: "tsq_inv env q" and len: "unat (skb_len skb) < MAX_PKT" and e: "tsq_enqueue skb q = (acc, q')"
  shows "tsq_inv env q' \<and> waiting env q' = waiting env q \<and> prequeue q' = prequeue q
    \<and> data_for k (reg_prio q') = data_for k (reg_prio q)
    \<and> data_for k (enqueue_skb_q q') = data_for k (enqueue_skb_q q) @ data_for k (if acc then [skb] else [])"
proof -
  obtain pr q1 where c: "classify_hi_prio skb q = (pr, q1)"
    by fastforce
  have d: "is_data skb \<longleftrightarrow> pr = None"
    using classify_hi_prio_fst [of skb q undefined] c by (simp add: is_data_def)
  obtain st where q1: "q1 = q\<lparr> tsq_stat := st \<rparr>"
    using classify_hi_prio_snd [of q skb] c by (auto simp: stat_only_def)
  show ?thesis
  proof (cases pr)
    case None
    then show ?thesis
      using e c d q1 inv len by (auto simp: tsq_enqueue_def tsq_inv_def waiting_def tslot_len_def data_ok_def tsq_stat_inc_def split: if_splits)
  next
    case (Some x)
    then show ?thesis
      using e c d q1 inv by (cases x) (auto simp: tsq_enqueue_def tsq_inv_def waiting_def tslot_len_def split: if_splits)
  qed
qed

lemma inv_dequeue:
  assumes inv: "tsq_inv env q" and e: "tsq_dequeue q = (s, q')"
  shows "tsq_inv env q' \<and> waiting env q' = waiting env q \<and> enqueue_skb_q q' = enqueue_skb_q q
    \<and> data_for k (reg_prio q @ prequeue q) = data_for k (case s of None \<Rightarrow> [] | Some skb \<Rightarrow> [skb]) @ data_for k (reg_prio q' @ prequeue q')"
  using e inv
  by (auto simp: tsq_dequeue_def got_skb_def tsq_inv_def waiting_def tslot_len_def Let_def split: list.splits if_splits)

lemma new_tbl_log_ok: "log_ok log \<Longrightarrow> log_ok (new_tbl_log a log)"
proof -
  have "0 < unat (n :: u32) \<and> unat n < 32" if "1 \<le> n" "n \<le> 18" for n
    using that by (simp add: word_le_nat_alt)
  then show "log_ok log \<Longrightarrow> log_ok (new_tbl_log a log)"
    by (auto simp: new_tbl_log_def log_ok_def split: option.splits)
qed

lemma inv_limits:
  assumes "tsq_inv env q" "at_data_rate a = None"
  shows "tsq_inv env (change_limits a q) \<and> waiting env (change_limits a q) = waiting env q \<and> reg_prio (change_limits a q) = reg_prio q
    \<and> prequeue (change_limits a q) = prequeue q \<and> enqueue_skb_q (change_limits a q) = enqueue_skb_q q
    \<and> hash_tbl_log (change_limits a q) = hash_tbl_log q \<and> dst_hash_tbl (change_limits a q) = dst_hash_tbl q"
proof -
  have c: "\<exists>m. change_limits a q = q\<lparr> q_limit := m \<rparr>"
    using assms(2) by (cases "at_plimit a") (auto simp: change_limits_def intro: exI [of _ "q_limit q"])
  have "table_inv env (q\<lparr> q_limit := m \<rparr>) = table_inv env q" "flow env (q\<lparr> q_limit := m \<rparr>) = flow env q" for m
    by (rule table_cong; simp)+
  with c show ?thesis
    using assms(1) by (auto simp: tsq_inv_def waiting_def tslot_len_def)
qed

lemma change_keeps_table:
  assumes "tsq_tc_change env mem now (Some a) q = Some (err, q')" "\<not> mem \<or> new_tbl_log a (hash_tbl_log q) = hash_tbl_log q"
    and "at_data_rate a = None" "at_timeslot_mul a = None" "at_timeslot_shift a = None" "tsq_inv env q"
  shows "q' = change_limits a q"
proof -
  have "dst_hash_tbl q \<noteq> None"
    using assms(6) by (auto simp: tsq_inv_def table_inv_def split: option.splits)
  then show ?thesis
    using assms inv_limits [OF assms(6,3)] by (auto simp: tsq_tc_change_def tsq_tc_resize_def Let_def split: if_splits)
qed

lemma length_waiting: "tsq_inv env q \<Longrightarrow> length (waiting env q k) \<le> length (concat (waiting env q k))"
proof -
  have "\<forall>xs \<in> set xss. xs \<noteq> [] \<Longrightarrow> length xss \<le> length (concat xss)" for xss :: "sk_buff list list"
  proof (induction xss)
    case (Cons xs xss)
    then show ?case
      by (cases xs) auto
  qed simp
  then show "tsq_inv env q \<Longrightarrow> length (waiting env q k) \<le> length (concat (waiting env q k))"
    using waiting_ok [of env q _ k] by (auto simp: slot_ok_def)
qed

lemma skb_key_lt: "unat (skb_key skb) < 256"
proof -
  have "unat (ucast (h AND 0xFF :: u32) :: u16) < 256" for h
  proof -
    have "unat (h AND 0xFF) \<le> 255"
      using word_and_le1 [of h 255] by (simp add: word_le_nat_alt)
    then show ?thesis
      by (simp add: unsigned_ucast_eq take_bit_eq_mod)
  qed
  then have "unat (fp_map_mac_to_id mac) < 256" for mac
    by (simp add: fp_map_mac_to_id_def Let_def)
  then have "unat (fp_map_mac_to_id mac) mod 18446744073709551616 < 256" for mac
    by (rule le_less_trans [OF mod_less_eq_dividend])
  then show ?thesis
    by (simp add: skb_key_def Let_def OUT_OF_BOUNDARY_NODE_ID_def MAX_NODES_def unsigned_ucast_eq take_bit_eq_mod)
qed

lemma admit_ready:
  assumes inv: "tsq_inv env q" and w: "waiting env q k \<noteq> []"
  shows "\<exists>q'. tsq_admit_now env k q = Some q' \<and> tsq_inv env q' \<and> ready env q' = ready env q \<and> enqueue_skb_q q' = enqueue_skb_q q
    \<and> (\<forall>j. length (waiting env q' j) + (if j = k then 1 else 0) = length (waiting env q j))"
proof -
  obtain q' where q': "tsq_admit_now env k q = Some q'" "tsq_inv env q'" "prequeue q' = prequeue q @ hd (waiting env q k)"
      "waiting env q' = (waiting env q)(k := tl (waiting env q k))" "same_queues q (q'\<lparr> prequeue := prequeue q \<rparr>)"
    using inv_admit [OF assms] by blast
  obtain x xs where x: "waiting env q k = x # xs"
    using w by (auto simp: neq_Nil_conv)
  have "slot_ok (data_rate q) (tslot_len q) k x"
    using waiting_ok [OF inv, of x k] by (simp add: x)
  then have "data_for j x = (if j = k then x else [])" for j
    using data_for_all [of x k] data_for_other [of x j] by (auto simp: slot_ok_def data_ok_def)
  then have "ready env q' = ready env q"
    using q'(3-5) x by (simp add: ready_def fun_eq_iff same_queues_def)
  then show ?thesis
    using q' x by (simp add: same_queues_def)
qed

lemma admits_ready:
  assumes "tsq_inv env q" "\<forall>j. count_list ks j \<le> length (waiting env q j)"
  shows "\<exists>q'. foldo (tsq_admit_now env) ks q = Some q' \<and> tsq_inv env q' \<and> ready env q' = ready env q \<and> enqueue_skb_q q' = enqueue_skb_q q
    \<and> (\<forall>j. length (waiting env q' j) + count_list ks j = length (waiting env q j))"
  using assms
proof (induction ks arbitrary: q)
  case (Cons k ks)
  have "count_list (k # ks) k \<le> length (waiting env q k)"
    using Cons.prems(2) by blast
  then have "waiting env q k \<noteq> []"
    by auto
  from admit_ready [OF Cons.prems(1) this] obtain q1 where q1: "tsq_admit_now env k q = Some q1" "tsq_inv env q1"
      "ready env q1 = ready env q" "enqueue_skb_q q1 = enqueue_skb_q q"
      "\<And>j. length (waiting env q1 j) + (if j = k then 1 else 0) = length (waiting env q j)"
    by blast
  have "count_list ks j \<le> length (waiting env q1 j)" for j
    using Cons.prems(2) [rule_format, of j] q1(5) [of j] by (auto split: if_splits)
  with Cons.IH [OF q1(2)] obtain q' where q': "foldo (tsq_admit_now env) ks q1 = Some q'" "tsq_inv env q'" "ready env q' = ready env q1"
      "enqueue_skb_q q' = enqueue_skb_q q1" "\<And>j. length (waiting env q' j) + count_list ks j = length (waiting env q1 j)"
    by blast
  have "length (waiting env q' j) + count_list (k # ks) j = length (waiting env q j)" for j
    using q1(5) [of j] q'(5) [of j] by auto
  then show ?case
    using q1 q' by (intro exI [of _ q']) simp
qed simp

subsection \<open>A new qdisc\<close>

definition qdisc_empty :: "tsq_sched_data \<Rightarrow> bool" where
  "qdisc_empty q \<longleftrightarrow> enqueue_skb_q q = [] \<and> reg_prio q = [] \<and> hi_prio q = [] \<and> prequeue q = []"

lemma set_tslot_len_frame:
  "set_tslot_len now mul shift q = Some q' \<Longrightarrow> dst_hash_tbl q' = dst_hash_tbl q \<and> hash_tbl_log q' = hash_tbl_log q
    \<and> data_rate q' = data_rate q \<and> hash_tbl_lock q' = hash_tbl_lock q \<and> qdisc_empty q' = qdisc_empty q"
  by (auto simp: set_tslot_len_def guard_o_def qdisc_empty_def Let_def split: if_splits)

lemma first_resize:
  assumes "dst_hash_tbl q = None" "tsq_tc_resize env mem log q = Some (0, q')"
  shows "q' = q\<lparr> dst_hash_tbl := Some (\<lambda>_. Leaf), hash_tbl_log := log \<rparr>"
  using assms by (auto simp: tsq_tc_resize_def install_table_def ENOMEM_def bind_eq_Some_conv Let_def split: if_splits)

definition fresh_table :: "tsq_sched_data \<Rightarrow> bool" where
  "fresh_table q \<longleftrightarrow> dst_hash_tbl q = Some (\<lambda>_. Leaf) \<and> log_ok (hash_tbl_log q) \<and> rate_ok (data_rate q)
     \<and> \<not> hash_tbl_lock q \<and> qdisc_empty q"

lemma first_change:
  assumes q: "dst_hash_tbl q = None" "log_ok (hash_tbl_log q)" "rate_ok (data_rate q)" "\<not> hash_tbl_lock q" "qdisc_empty q"
    and c: "tsq_tc_change env mem now (Some a) q = Some (0, q')"
  shows "fresh_table q'"
proof -
  define q1 where "q1 = change_limits a q"
  have q1: "dst_hash_tbl q1 = None" "hash_tbl_log q1 = hash_tbl_log q" "rate_ok (data_rate q1)" "\<not> hash_tbl_lock q1" "qdisc_empty q1"
    using q by (auto simp: q1_def change_limits_def qdisc_empty_def Let_def rate_ok_precompute split: option.splits)
  let ?l = "new_tbl_log a (hash_tbl_log q1)"
  obtain err q2 where q2: "tsq_tc_resize env mem ?l q1 = Some (err, q2)"
      "err = 0" "q' = q2 \<or> (\<exists>mul shift. set_tslot_len now mul shift q2 = Some q')"
    using c by (auto simp: tsq_tc_change_def q1_def [symmetric] bind_eq_Some_conv Let_def split: if_splits)
  have "q2 = q1\<lparr> dst_hash_tbl := Some (\<lambda>_. Leaf), hash_tbl_log := ?l \<rparr>"
    using q2(1,2) by (intro first_resize [OF q1(1)]) simp
  then have "fresh_table q2"
    using q1 q(2) by (simp add: fresh_table_def qdisc_empty_def new_tbl_log_ok)
  then show ?thesis
    using q2(3) by (auto simp: fresh_table_def dest!: set_tslot_len_frame)
qed

lemma fresh_table_inv: "fresh_table q \<Longrightarrow> tsq_inv env q \<and> waiting env q = (\<lambda>_. [])"
  using tbl_empty by (auto simp: fresh_table_def tsq_inv_def table_inv_def flow_def waiting_def qdisc_empty_def fun_eq_iff)

lemma tsq_init_ok:
  assumes i: "tsq_tc_init tops env proc_ok mem_cleanup mem now_real now opt (p0, q0) = Some (0, p, q)" and free: "\<not> hash_tbl_lock q0"
  shows "fresh_table q \<and> (\<exists>mul shift. new_qdisc tops mul shift p0 = (0, p))"
proof -
  define q1 where "q1 = q0\<lparr> q_limit := 10000, hash_tbl_log := 10, data_rate := psched_ratecfg_precompute 125000000 24 0,
                dst_hash_tbl := None, enqueue_skb_q := [], reg_prio := [], hi_prio := [], prequeue := [],
                next_zero_queue_time := now \<rparr>"
  obtain q2 where q2: "set_tslot_len now_real 419 19 q1 = Some q2"
    using i by (auto simp: tsq_tc_init_def q1_def [symmetric] bind_eq_Some_conv)
  define q3 where "q3 = q2\<lparr> flows := 0, inactive_flows := 0 \<rparr>"
  have q3: "dst_hash_tbl q3 = None" "log_ok (hash_tbl_log q3)" "rate_ok (data_rate q3)" "\<not> hash_tbl_lock q3" "qdisc_empty q3"
    using set_tslot_len_frame [OF q2] free by (simp_all add: q3_def q1_def qdisc_empty_def rate_ok_precompute log_ok_def)
  have m: "(case opt of Some a \<Rightarrow> tsq_tc_change env mem now_real opt q3 | None \<Rightarrow> tsq_tc_resize env mem (hash_tbl_log q3) q3) = Some (0, q)
      \<and> (\<exists>mul shift. new_qdisc tops mul shift p0 = (0, p))"
    using i by (auto simp: tsq_tc_init_def q1_def [symmetric] q2 q3_def [symmetric] bind_eq_Some_conv ENOSYS_def ENOMEM_def
        split: if_splits prod.splits)
  have "fresh_table q"
  proof (cases opt)
    case None
    then have "q = q3\<lparr> dst_hash_tbl := Some (\<lambda>_. Leaf), hash_tbl_log := hash_tbl_log q3 \<rparr>"
      using m by (intro first_resize [OF q3(1), of env mem]) simp
    then show ?thesis
      using q3 by (simp add: fresh_table_def qdisc_empty_def)
  next
    case (Some a)
    then show ?thesis
      using m first_change [OF q3, of env mem now_real a q] by simp
  qed
  then show ?thesis
    using m by blast
qed

subsection \<open>The contract of a scheduler\<close>

text \<open>
  \<^verbatim>\<open>slots p k\<close> counts the timeslots of flow \<^verbatim>\<open>k\<close> the scheduler \<^verbatim>\<open>p\<close> was asked for and has not admitted. A scheduler
  starts with none, accepts every demand the queueing discipline can express, and admits only what it
  was asked for: either on its own or, if it is \<^verbatim>\<open>eager\<close>, at once when it is asked.
\<close>

locale slot_source =
  fixes tops :: "u64 \<Rightarrow> 'p tsq_ops" and own :: "'p \<Rightarrow> u64 list \<Rightarrow> 'p \<Rightarrow> bool" and env :: tsq_env
    and blank :: "'p \<Rightarrow> bool" and slots :: "'p \<Rightarrow> u64 \<Rightarrow> nat"
    and eager :: bool
  assumes start: "blank p0 \<Longrightarrow> new_qdisc (tops now) mul shift p0 = (0, p) \<Longrightarrow> slots p k = 0"
    and own_slots: "own p ks p' \<Longrightarrow> slots p' k + count_list ks k = slots p k"
    and own_eager: "own p ks p' \<Longrightarrow> \<not> eager"
    and demand: "env_ok env \<Longrightarrow> unat k < 256 \<Longrightarrow> tsq_inv env q \<Longrightarrow> waiting env q k \<noteq> [] \<Longrightarrow> slots p k + 1 < 2 ^ 64
      \<Longrightarrow> \<exists>p' q' ks. add_timeslot (tops now) k (p, q) = Some (p', q') \<and> ks \<in> {[], [k]} \<and> (ks = [k] \<longrightarrow> eager)
        \<and> foldo (tsq_admit_now env) ks q = Some q' \<and> (\<forall>j. slots p' j + count_list ks j = slots p j + (if j = k then 1 else 0))"
begin

definition matched :: "'p node \<Rightarrow> bool" where
  "matched n \<longleftrightarrow> (\<forall>k. length (waiting env (settled n) k)
     = slots (nd_sched n) k + count_list (nd_admits n) k + (if nd_new n = Some k then 1 else 0))"

definition node_inv :: "'p node \<Rightarrow> bool" where
  "node_inv n \<longleftrightarrow> tsq_inv env (settled n) \<and> (\<forall>s \<in> set (nd_batch n). data_ok s) \<and> matched n
     \<and> (\<forall>k. nd_new n = Some k \<longrightarrow> unat k < 256) \<and> (eager \<longrightarrow> nd_admits n = [] \<and> nd_flight n = [])
     \<and> length (nd_flight n) \<le> 1 \<and> (\<forall>tq \<in> set (nd_flight n). tq \<noteq> [])"

lemma inv_new: "node_inv n \<Longrightarrow> nd_new n = Some k \<Longrightarrow> waiting env (settled n) k \<noteq> []"
proof -
  assume "node_inv n" "nd_new n = Some k"
  then have "length (waiting env (settled n) k) = slots (nd_sched n) k + count_list (nd_admits n) k + 1"
    by (simp add: node_inv_def matched_def)
  then show "waiting env (settled n) k \<noteq> []"
    by auto
qed

lemma inv_admits: "node_inv n \<Longrightarrow> nd_admits n = k # ks \<Longrightarrow> waiting env (settled n) k \<noteq> []"
proof -
  assume "node_inv n" "nd_admits n = k # ks"
  then have "length (waiting env (settled n) k) = slots (nd_sched n) k + (count_list ks k + 1) + (if nd_new n = Some k then 1 else 0)"
    by (simp add: node_inv_def matched_def)
  then show "waiting env (settled n) k \<noteq> []"
    by auto
qed

lemma slots_le:
  assumes "node_inv n"
  shows "slots (nd_sched n) k + (if nd_new n = Some k then 1 else 0) \<le> length (inside env n k)"
proof -
  have "slots (nd_sched n) k + (if nd_new n = Some k then 1 else 0) \<le> length (waiting env (settled n) k)"
    using assms by (simp add: node_inv_def matched_def)
  also have "\<dots> \<le> length (concat (waiting env (settled n) k))"
    using assms by (intro length_waiting) (simp add: node_inv_def)
  finally show ?thesis
    by (simp add: inside_def)
qed

lemma step_inv:
  assumes env: "env_ok env" and inv: "node_inv n" and lt: "\<forall>k. length (inside env n k) < 2 ^ 64"
    and step: "node_step True tops own env n e n'"
  shows "node_inv n' \<and> (\<forall>k. data_for k (ev_left e) @ inside env n' k = inside env n k @ data_for k (ev_accepted e))"
  using step
proof cases
  case (arrive skb acc q')
  have t: "tsq_inv env (settled n)" "tsq_enqueue skb (settled n) = (acc, settle (nd_resize n) q')"
    using inv arrive(3) by (simp_all add: node_inv_def settle_enqueue)
  note e = inv_enqueue [OF t(1) arrive(4) t(2)]
  then show ?thesis
    using inv arrive by (simp add: node_inv_def matched_def inside_def)
next
  case (leave skb q')
  have t: "tsq_inv env (settled n)" "tsq_dequeue (settled n) = (Some skb, settle (nd_resize n) q')"
    using inv leave(3) by (simp_all add: node_inv_def settle_dequeue)
  note e = inv_dequeue [OF t]
  show ?thesis
    using inv leave e by (simp add: node_inv_def matched_def inside_def)
next
  case (idle q')
  have t: "tsq_inv env (settled n)" "tsq_dequeue (settled n) = (None, settle (nd_resize n) q')"
    using inv idle(3) by (simp_all add: node_inv_def settle_dequeue)
  note e = inv_dequeue [OF t]
  show ?thesis
    using inv idle e by (simp add: node_inv_def matched_def inside_def)
next
  case take
  then show ?thesis
    using inv by (auto simp: node_inv_def matched_def inside_def waiting_def tsq_inv_def tslot_len_def)
next
  case (put skb rest mem new q')
  have m: "mem = (True, True)" "nd_resize n = None"
    using put(6) by simp_all
  have t: "tsq_inv env (nd_q n)" "data_ok skb"
    using inv put m(2) by (simp_all add: node_inv_def)
  then obtain q1 where q': "tsq_inv env q'" "same_queues (nd_q n) q'" "new = None \<or> new = Some (skb_key skb)"
      "\<And>k. concat (waiting env q' k) = concat (waiting env (nd_q n) k) @ (if k = skb_key skb then [skb] else [])"
      "\<And>k. length (waiting env q' k) = length (waiting env (nd_q n) k) + (if new = Some k then 1 else 0)"
    using inv_single [OF env t] put(5) m(1) by auto
  show ?thesis
    using inv put q' t(2) skb_key_lt m(2) by (auto simp: node_inv_def matched_def inside_def same_queues_def data_ok_def)
next
  case (ask k now p' q')
  have r: "nd_resize n = None"
    using ask(5) by simp
  have t: "tsq_inv env (nd_q n)" "unat k < 256"
    using inv ask r by (simp_all add: node_inv_def)
  have w: "waiting env (nd_q n) k \<noteq> []"
    using inv_new [OF inv ask(3)] r by simp
  have "slots (nd_sched n) k + 1 < 2 ^ 64"
    using slots_le [OF inv, of k] lt [rule_format, of k] ask(3) by simp
  then obtain ks where ks: "ks = [] \<or> ks = [k]" "ks = [k] \<longrightarrow> eager" "foldo (tsq_admit_now env) ks (nd_q n) = Some q'"
      "\<And>j. slots p' j + count_list ks j = slots (nd_sched n) j + (if j = k then 1 else 0)"
    using demand [OF env t(2,1) w, of "nd_sched n" now] ask(4) by auto
  have "\<forall>j. count_list ks j \<le> length (waiting env (nd_q n) j)"
    using w ks(1) by (auto simp: Suc_le_eq)
  from admits_ready [OF t(1) this] ks(3) have q': "tsq_inv env q'" "ready env q' = ready env (nd_q n)"
      "enqueue_skb_q q' = enqueue_skb_q (nd_q n)" "\<And>j. length (waiting env q' j) + count_list ks j = length (waiting env (nd_q n) j)"
    by auto
  have "length (waiting env q' j) = slots p' j + count_list (nd_admits n) j" for j
    using q'(4) [of j] ks(4) [of j] inv ask(3) r by (auto simp: node_inv_def matched_def split: if_splits)
  moreover have fl: "eager \<longrightarrow> nd_flight n = []"
    using inv unfolding node_inv_def by blast
  moreover have "inside env n' j = inside env n j" for j
  proof (cases "ks = [k]")
    case True
    then show ?thesis
      using ks(2) fl ask q' r by (simp add: inside_ready)
  next
    case False
    then show ?thesis
      using ks(1,3) ask by (simp add: inside_def)
  qed
  ultimately show ?thesis
    using inv ask q' r by (simp add: node_inv_def matched_def)
next
  case (own ks p')
  then show ?thesis
    using inv own_slots [OF own(3)] own_eager [OF own(3)] unfolding node_inv_def matched_def inside_def by simp
next
  case (admit ks k ks' taken q')
  have c: "ks = []" "nd_flight n = []" "nd_resize n = None"
    using admit(5) by simp_all
  have t: "tsq_inv env (nd_q n)" "waiting env (nd_q n) k \<noteq> []"
    using inv inv_admits [OF inv, of k ks'] admit(3) c by (simp_all add: node_inv_def)
  from inv_take [OF t] admit(4) have q': "taken = Some (hd (waiting env (nd_q n) k))" "tsq_inv env q'"
      "waiting env q' = (waiting env (nd_q n))(k := tl (waiting env (nd_q n) k))" "same_queues (nd_q n) q'"
    by auto
  obtain x xs where x: "waiting env (nd_q n) k = x # xs"
    using t(2) by (auto simp: neq_Nil_conv)
  have s: "slot_ok (data_rate (nd_q n)) (tslot_len (nd_q n)) k x"
    using waiting_ok [OF t(1), of x k] by (simp add: x)
  then have d: "data_for j x = (if j = k then x else [])" for j
    using data_for_all [of x k] data_for_other [of x j] by (auto simp: slot_ok_def data_ok_def)
  have "length (waiting env q' j) = slots (nd_sched n) j + count_list ks' j + (if nd_new n = Some j then 1 else 0)" for j
    using inv [unfolded node_inv_def matched_def, THEN conjunct2, THEN conjunct2, THEN conjunct1, rule_format, of j] admit(3) c x
    by (auto simp: q'(3) split: if_splits)
  then show ?thesis
    using inv admit c q' x d s unfolding node_inv_def matched_def inside_def by (simp add: same_queues_def slot_ok_def)
next
  case (append fl tq fl' q')
  have "fl = []" "fl' = []"
    using inv append(3) by (simp_all add: node_inv_def)
  then show ?thesis
    using inv append unfolding node_inv_def matched_def inside_def by (auto simp: admit_append_def guard_o_def split: if_splits)
next
  case (collect now q')
  then show ?thesis
    using inv inv_gc [OF env, of "nd_q n" now] by (auto simp: node_inv_def matched_def inside_def same_queues_def)
next
  case (change mem now_real a err q')
  have t: "tsq_inv env (nd_q n)"
    using inv change by (simp add: node_inv_def)
  then show ?thesis
    using inv change change_keeps_table [OF change(3,7,4-6) t] inv_limits [OF t change(4)]
    by (simp add: node_inv_def matched_def inside_def)
next
  case (rehash a array q')
  have t: "tsq_inv env (nd_q n)"
    using inv rehash by (simp add: node_inv_def)
  note l = inv_limits [OF t rehash(4)]
  have "log_ok (new_tbl_log a (hash_tbl_log (nd_q n)))"
    using t by (intro new_tbl_log_ok) (simp add: tsq_inv_def table_inv_def)
  then show ?thesis
    using inv rehash l inv_rehash [OF env, of "change_limits a (nd_q n)" "new_tbl_log a (hash_tbl_log (nd_q n))"]
    by (auto simp: node_inv_def matched_def inside_def settle_def same_queues_def)
next
  case (install array log)
  then show ?thesis
    using inv by (simp add: node_inv_def matched_def inside_def settle_def install_table_def)
next
  case (reset now q')
  then show ?thesis
    by simp
qed

lemma run_inv:
  assumes env: "env_ok env" and pq: "pq0 = (p0, q0)" "blank p0" "\<not> hash_tbl_lock q0"
    and run: "node_run True tops own env pq0 evs n" and lt: "length evs < 2 ^ 64"
  shows "node_inv n \<and> (\<forall>k. data_for k (concat (map ev_left evs)) @ inside env n k = data_for k (concat (map ev_accepted evs)))"
  using run lt
proof (induction rule: node_run.induct)
  case (boot now proc_ok mem_cleanup mem now_real now_monotonic opt p q)
  have f: "fresh_table q" "\<exists>mul shift. new_qdisc (tops now) mul shift p0 = (0, p)"
    using tsq_init_ok [OF boot.hyps [unfolded pq(1)] pq(3)] by blast+
  then have "slots p k = 0" for k
    using start [OF pq(2)] by blast
  then show ?case
    using fresh_table_inv [OF f(1), of env] f(1) by (simp add: node_inv_def matched_def inside_def fresh_table_def qdisc_empty_def)
next
  case (step evs n e n')
  have IH: "node_inv n" "\<And>k. data_for k (concat (map ev_left evs)) @ inside env n k = data_for k (concat (map ev_accepted evs))"
    using step by auto
  have "length (inside env n k) \<le> length evs" for k
    using arg_cong [OF IH(2) [of k], of length] length_accepted [of k evs] by simp
  then have "\<forall>k. length (inside env n k) < 2 ^ 64"
    using step.prems by (metis add_lessD1 le_less_trans length_append)
  note s = step_inv [OF env IH(1) this step.hyps(2)]
  have "data_for k (concat (map ev_left (evs @ [e]))) @ inside env n' k = data_for k (concat (map ev_accepted (evs @ [e])))" for k
    using s IH(2) [of k, symmetric] by simp
  then show ?case
    using s by blast
qed

lemma run_small:
  assumes "env_ok env" "pq0 = (p0, q0)" "blank p0" "\<not> hash_tbl_lock q0" "node_run True tops own env pq0 evs n" "length evs < 2 ^ 64"
  shows "\<forall>k. length (inside env n k) < 2 ^ 64"
proof
  fix k
  have "data_for k (concat (map ev_left evs)) @ inside env n k = data_for k (concat (map ev_accepted evs))"
    using run_inv [OF assms] by blast
  from arg_cong [OF this, of length] show "length (inside env n k) < 2 ^ 64"
    using length_accepted [of k evs] assms(6) by simp
qed

text \<open>Nothing can get stuck: whatever the node has begun, it can go on with.\<close>

lemma run_progress:
  assumes env: "env_ok env" and inv: "node_inv n" and lt: "\<forall>k. length (inside env n k) < 2 ^ 64"
    and quiet: "nd_resize n = None"
  shows "nd_batch n = skb # rest \<Longrightarrow> \<exists>r. enqueue_single_skb env (True, True) skb (nd_q n) = Some r"
    and "nd_new n = Some k \<Longrightarrow> \<exists>r. add_timeslot (tops now) k (nd_sched n, nd_q n) = Some r"
    and "nd_admits n = k # ks \<Longrightarrow> \<exists>tq q'. admit_take env k (nd_q n) = Some (Some tq, q') \<and> tq = hd (waiting env (nd_q n) k) \<and> tq \<noteq> []
      \<and> \<not> hash_tbl_lock q'"
    and "\<exists>q'. tsq_garbage_collect env now (nd_q n) = Some q'"
    and "log_ok log \<Longrightarrow> \<exists>r. tsq_tc_resize env mem log (nd_q n) = Some r"
proof -
  have t: "tsq_inv env (nd_q n)"
    using inv quiet by (simp add: node_inv_def)
  show "\<exists>r. enqueue_single_skb env (True, True) skb (nd_q n) = Some r" if "nd_batch n = skb # rest"
    using inv_single [OF env t, of skb] inv that by (auto simp: node_inv_def)
  show "\<exists>r. add_timeslot (tops now) k (nd_sched n, nd_q n) = Some r" if "nd_new n = Some k"
  proof -
    have "unat k < 256" "slots (nd_sched n) k + 1 < 2 ^ 64"
      using inv that slots_le [OF inv, of k] lt [rule_format, of k] by (simp_all add: node_inv_def)
    then show ?thesis
      using demand [OF env _ t, of k "nd_sched n" now] inv_new [OF inv that] quiet by auto
  qed
  show "\<exists>tq q'. admit_take env k (nd_q n) = Some (Some tq, q') \<and> tq = hd (waiting env (nd_q n) k) \<and> tq \<noteq> []
      \<and> \<not> hash_tbl_lock q'" if "nd_admits n = k # ks"
  proof -
    have w: "waiting env (nd_q n) k \<noteq> []"
      using inv_admits [OF inv that] quiet by simp
    then have "hd (waiting env (nd_q n) k) \<noteq> []"
      using waiting_ok [OF t, of "hd (waiting env (nd_q n) k)" k] by (simp add: slot_ok_def)
    then show ?thesis
      using inv_take [OF t w] by (auto simp: tsq_inv_def)
  qed
  show "\<exists>r. tsq_tc_resize env mem log (nd_q n) = Some r" if "log_ok log"
    using resize_ok [OF env _ _ that, of "nd_q n" mem] t unfolding tsq_inv_def by blast
  show "\<exists>q'. tsq_garbage_collect env now (nd_q n) = Some q'"
    using inv_gc [OF env t] by blast
qed

text \<open>The tasklet as a whole returns, and is a sequence of the steps above.\<close>

lemma tasklet_loop:
  assumes env: "env_ok env" and "node_inv n" and "\<forall>k. length (inside env n k) < 2 ^ 64" and "nd_new n = None" and "nd_resize n = None"
  shows "\<exists>n'. foldo (enqueue_one (tops now) env) (map (\<lambda>s. (s, True, True)) (nd_batch n)) (nd_sched n, nd_q n) = Some (nd_sched n', nd_q n')
    \<and> (\<lambda>a b. node_step True tops own env a Quiet b)\<^sup>*\<^sup>* n n' \<and> node_inv n' \<and> inside env n' = inside env n \<and> nd_batch n' = [] \<and> nd_new n' = None"
  using assms(2-5)
proof (induction "nd_batch n" arbitrary: n)
  case Nil
  then show ?case
    by (intro exI [of _ n]) simp
next
  case (Cons skb rest)
  obtain new q1 where e: "enqueue_single_skb env (True, True) skb (nd_q n) = Some (new, q1)"
    using run_progress(1) [OF env Cons.prems(1,2,4) Cons.hyps(2) [symmetric]] by auto
  let ?n1 = "n\<lparr> nd_batch := rest, nd_new := new, nd_q := q1 \<rparr>"
  have s1: "node_step True tops own env n Quiet ?n1"
    using Cons.hyps(2) [symmetric] Cons.prems(3) e by (rule node_step.put) (use Cons.prems(4) in simp)
  have i1: "node_inv ?n1" "inside env ?n1 = inside env n"
    using step_inv [OF env Cons.prems(1,2) s1] by (auto simp: fun_eq_iff)
  show ?case
  proof (cases new)
    case None
    have "\<exists>n'. foldo (enqueue_one (tops now) env) (map (\<lambda>s. (s, True, True)) (nd_batch ?n1)) (nd_sched ?n1, nd_q ?n1) = Some (nd_sched n', nd_q n')
        \<and> (\<lambda>a b. node_step True tops own env a Quiet b)\<^sup>*\<^sup>* ?n1 n' \<and> node_inv n' \<and> inside env n' = inside env ?n1 \<and> nd_batch n' = [] \<and> nd_new n' = None"
      using i1 Cons.prems(2,4) None by (intro Cons.hyps(1)) simp_all
    then show ?thesis
      using e None s1 i1(2) by (auto simp: Cons.hyps(2) [symmetric] enqueue_one_def intro: converse_rtranclp_into_rtranclp)
  next
    case (Some k)
    obtain p2 q2 where a: "add_timeslot (tops now) k (nd_sched n, q1) = Some (p2, q2)"
      using run_progress(2) [OF env i1(1), of k now] i1(2) Cons.prems(2,4) Some by auto
    let ?n2 = "?n1\<lparr> nd_sched := p2, nd_q := q2, nd_new := None \<rparr>"
    have s2: "node_step True tops own env ?n1 Quiet ?n2"
      using Some a Cons.prems(4) by (intro node_step.ask) simp_all
    have i2: "node_inv ?n2" "inside env ?n2 = inside env n"
      using step_inv [OF env i1(1) _ s2] i1(2) Cons.prems(2) by (auto simp: fun_eq_iff)
    have "\<exists>n'. foldo (enqueue_one (tops now) env) (map (\<lambda>s. (s, True, True)) (nd_batch ?n2)) (nd_sched ?n2, nd_q ?n2) = Some (nd_sched n', nd_q n')
        \<and> (\<lambda>a b. node_step True tops own env a Quiet b)\<^sup>*\<^sup>* ?n2 n' \<and> node_inv n' \<and> inside env n' = inside env ?n2 \<and> nd_batch n' = [] \<and> nd_new n' = None"
      using i2 Cons.prems(2,4) by (intro Cons.hyps(1)) simp_all
    then show ?thesis
      using e a Some s1 s2 i2(2)
      by (auto simp: Cons.hyps(2) [symmetric] enqueue_one_def intro: converse_rtranclp_into_rtranclp)
  qed
qed

lemma tasklet_returns:
  assumes env: "env_ok env" and inv: "node_inv n" and lt: "\<forall>k. length (inside env n k) < 2 ^ 64"
    and idle: "nd_batch n = []" "nd_new n = None" and quiet: "nd_resize n = None"
  shows "\<exists>n'. enqueue_tasklet_func (tops now) env (\<lambda>_. (True, True)) (nd_sched n, nd_q n) = Some (nd_sched n', nd_q n')
    \<and> (\<lambda>a b. node_step True tops own env a Quiet b)\<^sup>*\<^sup>* n n'"
proof -
  let ?n1 = "n\<lparr> nd_batch := enqueue_skb_q (nd_q n), nd_q := (nd_q n)\<lparr> enqueue_skb_q := [] \<rparr> \<rparr>"
  have s1: "node_step True tops own env n Quiet ?n1"
    using idle by (rule node_step.take)
  have i1: "node_inv ?n1" "inside env ?n1 = inside env n"
    using step_inv [OF env inv lt s1] by (auto simp: fun_eq_iff)
  have "zip xs (map (\<lambda>_. (True, True)) [0..<length xs]) = map (\<lambda>s. (s, True, True)) xs" for xs :: "sk_buff list"
    by (intro nth_equalityI) simp_all
  then show ?thesis
    using tasklet_loop [OF env i1(1), of now] i1(2) lt idle(2) quiet s1
    by (auto simp: enqueue_tasklet_func_def Let_def intro: converse_rtranclp_into_rtranclp)
qed

end

end
