(* ===== verification/FP_Node_Spec.thy ===== *)
theory FP_Node_Spec
  imports FP_Node
begin

unbundle bit_operations_syntax

text \<open>
  The two schedulers as instances of the scheduler's contract, and the properties of the end node: no
  data packet is lost, duplicated or reordered within its destination, the waiting timeslots are
  exactly the open demand, and no handler blocks.
\<close>

subsection \<open>Definitions: Fastpass behind the queueing discipline\<close>

text \<open>Clock readings at creation, module parameters, and whether the proc entry and the socket can be created.\<close>

record sch_args =
  sa_now_real :: u64
  sa_now :: u64
  sa_req_cost :: u32
  sa_req_bucketlen :: u32
  sa_req_min_gap :: u32
  sa_reset_window :: u64
  sa_retrans_timeout :: u64
  sa_proc_ok :: bool
  sa_sock_err :: int

definition fastpass_tsq_ops :: "sch_args \<Rightarrow> u64 \<Rightarrow> fp_sched_data tsq_ops" where
  "fastpass_tsq_ops a now = \<lparr>
     new_qdisc = (\<lambda>mul shift p.
       case fpq_new_qdisc (sa_now_real a) (sa_now a) mul shift (sa_req_cost a) (sa_req_bucketlen a) (sa_req_min_gap a)
              (sa_reset_window a) (sa_retrans_timeout a) (sa_proc_ok a) (sa_sock_err a = 0) p of
         (ok, p) \<Rightarrow> (if ok then 0 else if \<not> sa_proc_ok a then - 1 else sa_sock_err a, p)),
     stop_qdisc = fpq_stop_qdisc,
     add_timeslot = (\<lambda>key (p, q). map_option (\<lambda>p. (p, q)) (fpq_add_timeslot now key p)) \<rparr>"

text \<open>What the scheduler does on its own; the admissions of a step are the ones it adds to \<^verbatim>\<open>sch_admitted\<close>.\<close>

inductive fpq_own :: "fp_sched_data \<Rightarrow> u64 list \<Rightarrow> fp_sched_data \<Rightarrow> bool" where
  receive: "ctrl_rcv_handler now now_real base_idx addr pkt q = Some q' \<Longrightarrow> sch_admitted q' = sch_admitted q @ ds
     \<Longrightarrow> fpq_own q (map ucast ds) q'"
| maintain: "maintenance_tasklet_func now now_real base_idx mem q = Some q' \<Longrightarrow> sch_admitted q' = sch_admitted q @ ds
     \<Longrightarrow> fpq_own q (map ucast ds) q'"
| retransmit: "retrans_tasklet_func now now_real base_idx q = Some q' \<Longrightarrow> sch_admitted q' = sch_admitted q @ ds
     \<Longrightarrow> fpq_own q (map ucast ds) q'"

definition zeroed_sched :: "fp_sched_data \<Rightarrow> bool" where
  "zeroed_sched p \<longleftrightarrow> (\<forall>i. dsts p i = zero_dst)"

definition fpq_slots :: "fp_sched_data \<Rightarrow> u64 \<Rightarrow> nat" where
  "fpq_slots p k = (if unat k < 65536 then unat (open_tslots p (ucast k)) else 0)"

subsection \<open>Both schedulers meet the contract\<close>

lemma ucast_u16_u64: "(ucast (d :: u16) :: u64) = k \<longleftrightarrow> unat k < 65536 \<and> d = ucast k"
proof -
  have d: "unat d < 65536"
    using unsigned_less [of d, where 'a = nat] by simp
  then have "unat d < 18446744073709551616"
    by linarith
  then have u: "unat (ucast d :: u64) = unat d"
    by (simp add: unsigned_ucast_eq take_bit_eq_mod)
  have k: "unat (ucast k :: u16) = unat k mod 65536"
    by (simp add: unsigned_ucast_eq take_bit_eq_mod)
  show ?thesis
    unfolding word_unat_eq_iff u k using d by (metis mod_less)
qed

lemma count_list_ucast: "count_list (map ucast (ds :: u16 list)) (k :: u64) = (if unat k < 65536 then count_list ds (ucast k) else 0)"
  by (induction ds) (auto simp: ucast_u16_u64)

lemma pays_slots:
  assumes "pays p p'" "sch_admitted p' = sch_admitted p @ ds"
  shows "fpq_slots p' k + count_list (map ucast ds) k = fpq_slots p k"
  using assms by (auto simp: pays_def fpq_slots_def count_list_ucast)

lemma fpq_own_slots: "fpq_own p ks p' \<Longrightarrow> fpq_slots p' k + count_list ks k = fpq_slots p k"
  by (auto elim!: fpq_own.cases dest: rcv_pays maintenance_pays retrans_pays intro: pays_slots)

lemma fpq_start:
  assumes "zeroed_sched p0" "new_qdisc (fastpass_tsq_ops a now) mul shift p0 = (0, p)"
  shows "fpq_slots p k = 0"
proof -
  have "dsts p = dsts p0"
    using assms(2) by (auto simp: fastpass_tsq_ops_def fpq_new_qdisc_def Let_def split: if_splits)
  then show ?thesis
    using assms(1) by (simp add: fpq_slots_def zeroed_sched_def open_tslots_def zero_dst_def)
qed

lemma fpq_demand:
  assumes k: "unat k < 256" and lt: "fpq_slots p k + 1 < 2 ^ 64"
  shows "\<exists>p'. add_timeslot (fastpass_tsq_ops a now) k (p, q) = Some (p', q)
    \<and> (\<forall>j. fpq_slots p' j = fpq_slots p j + (if j = k then 1 else 0))"
proof -
  have "unat (ucast k :: u32) = unat k"
    using k by (simp add: unsigned_ucast_eq take_bit_eq_mod)
  then obtain p' where p': "fpq_add_timeslot now k p = Some p'"
    using k by (simp add: fpq_add_timeslot_def guard_o_def MAX_NODES_def)
  note o = add_timeslot_ok(4) [OF p']
  have "fpq_slots p' j = fpq_slots p j + (if j = k then 1 else 0)" for j
  proof (cases "unat j < 65536")
    case True
    have "(ucast j :: u16) = ucast k \<longleftrightarrow> j = k"
      using True k by (auto simp: word_unat_eq_iff unsigned_ucast_eq take_bit_eq_mod)
    moreover have "unat (open_tslots p (ucast k) + 1) = unat (open_tslots p (ucast k)) + 1"
      using lt k by (simp add: fpq_slots_def unat_add_mod)
    ultimately show ?thesis
      using True by (auto simp: fpq_slots_def o)
  next
    case False
    then show ?thesis
      using k by (auto simp: fpq_slots_def)
  qed
  then show ?thesis
    using p' by (simp add: fastpass_tsq_ops_def)
qed

interpretation fpq: slot_source "fastpass_tsq_ops args" fpq_own env zeroed_sched fpq_slots False for args env
proof
  fix k q p now
  assume "unat k < 256" "fpq_slots p k + 1 < 2 ^ 64"
  from fpq_demand [OF this, of args now q]
  show "\<exists>p' q' ks. add_timeslot (fastpass_tsq_ops args now) k (p, q) = Some (p', q') \<and> ks \<in> {[], [k]} \<and> (ks = [k] \<longrightarrow> False)
      \<and> foldo (tsq_admit_now env) ks q = Some q' \<and> (\<forall>j. fpq_slots p' j + count_list ks j = fpq_slots p j + (if j = k then 1 else 0))"
    by (metis (no_types) add.right_neutral count_list.simps(1) foldo.simps(1) insertI1 not_Cons_self2)
qed (auto intro: fpq_start fpq_own_slots)

interpretation smp: slot_source "\<lambda>_. simple_tsq_ops env" "\<lambda>_ _ _. False" env "\<lambda>_. True" "\<lambda>_ _. 0" True for env
proof
  fix k q p
  assume "tsq_inv env q" "waiting env q k \<noteq> []"
  from admit_ready [OF this] obtain q' where "tsq_admit_now env k q = Some q'"
    by blast
  then show "\<exists>p' q' ks. add_timeslot (simple_tsq_ops env) k (p, q) = Some (p', q') \<and> ks \<in> {[], [k]} \<and> (ks = [k] \<longrightarrow> True)
      \<and> foldo (tsq_admit_now env) ks q = Some q' \<and> (\<forall>j. 0 + count_list ks j = 0 + (if j = k then 1 else 0))"
    by (intro exI [of _ p] exI [of _ q'] exI [of _ "[k]"]) (simp add: simple_tsq_ops_def simple_add_timeslot_def)
qed simp_all

subsection \<open>A run to look at\<close>

definition demo_args :: sch_args where
  "demo_args = \<lparr> sa_now_real = 0, sa_now = 0, sa_req_cost = 1, sa_req_bucketlen = 1, sa_req_min_gap = 1, sa_reset_window = 0,
     sa_retrans_timeout = 0, sa_proc_ok = True, sa_sock_err = 0 \<rparr>"

definition demo_skb :: sk_buff where
  "demo_skb = \<lparr> skb_id = 1, skb_protocol = ETH_P_IP, h_dest = [0, 0, 0, 0, 0, 7],
     skb_keys = Some \<lparr> fk_proto = IPPROTO_TCP, fk_sport = 1000, fk_dport = 80 \<rparr>, skb_len = 1500 \<rparr>"

lemma demo_skb_data: "is_data demo_skb" "classify_hi_prio demo_skb q = (None, q)" "unat (skb_len demo_skb) < MAX_PKT"
  by (simp_all add: is_data_def classify_hi_prio_def classify_ip_def demo_skb_def ETH_P_ARP_def ETH_P_1588_def ETH_P_ALL_def
      ETH_P_IPV6_def ETH_P_IP_def IPPROTO_IGMP_def IPPROTO_UDP_def IPPROTO_TCP_def MAX_PKT_def)

lemma demo_zeroed: "zeroed_sched demo_sched"
  by (simp add: zeroed_sched_def demo_sched_def)

lemma demo_free: "\<not> hash_tbl_lock (demo_qdisc None)"
  by (simp add: demo_qdisc_def)

lemma demo_boot:
  "\<exists>p q. tsq_tc_init (fastpass_tsq_ops demo_args 0) env True True True 0 0 None (demo_sched, demo_qdisc None) = Some (0, p, q)
    \<and> q_qlen q = 0 \<and> q_limit q = 10000 \<and> enqueue_skb_q q = []"
  by (simp add: tsq_tc_init_def set_tslot_len_def guard_o_def tsq_tc_resize_def demo_qdisc_def fastpass_tsq_ops_def
      fpq_new_qdisc_def demo_args_def install_table_def log_ok_def Let_def)

lemma demo_run:
  "\<exists>n. node_run True (fastpass_tsq_ops demo_args) fpq_own demo_env (demo_sched, demo_qdisc None) [Arrive demo_skb True] n
    \<and> nd_batch n = [] \<and> nd_new n = None \<and> nd_resize n = None \<and> enqueue_skb_q (nd_q n) = [demo_skb]"
proof -
  obtain p q where b: "tsq_tc_init (fastpass_tsq_ops demo_args 0) demo_env True True True 0 0 None (demo_sched, demo_qdisc None) = Some (0, p, q)"
      "q_qlen q = 0" "q_limit q = 10000" "enqueue_skb_q q = []"
    using demo_boot by blast
  let ?n = "\<lparr> nd_sched = p, nd_q = q, nd_batch = [], nd_new = None, nd_admits = [], nd_flight = [], nd_resize = None \<rparr>"
  have "node_run True (fastpass_tsq_ops demo_args) fpq_own demo_env (demo_sched, demo_qdisc None) [] ?n"
    using b(1) by (rule node_run.boot)
  moreover have "tsq_enqueue demo_skb q = (True, q\<lparr> enqueue_skb_q := enqueue_skb_q q @ [demo_skb], q_qlen := q_qlen q + 1 \<rparr>)"
    using b(2,3) by (simp add: tsq_enqueue_def demo_skb_data)
  then have "node_step True (fastpass_tsq_ops demo_args) fpq_own demo_env ?n (Arrive demo_skb True)
      (?n\<lparr> nd_q := q\<lparr> enqueue_skb_q := enqueue_skb_q q @ [demo_skb], q_qlen := q_qlen q + 1 \<rparr> \<rparr>)"
    using demo_skb_data(3) by (intro node_step.arrive) simp
  ultimately have "node_run True (fastpass_tsq_ops demo_args) fpq_own demo_env (demo_sched, demo_qdisc None) ([] @ [Arrive demo_skb True])
      (?n\<lparr> nd_q := q\<lparr> enqueue_skb_q := enqueue_skb_q q @ [demo_skb], q_qlen := q_qlen q + 1 \<rparr> \<rparr>)"
    by (rule node_run.step)
  then show ?thesis
    using b(4) by (intro exI conjI, simp) simp_all
qed

lemma demo_run_sorted:
  "\<exists>n d. node_run True (fastpass_tsq_ops demo_args) fpq_own demo_env (demo_sched, demo_qdisc None) [Arrive demo_skb True, Quiet, Quiet] n
    \<and> flow demo_env (settled n) (skb_key demo_skb) = Some d \<and> concat (skb_qs d) = [demo_skb]"
proof -
  obtain n where n: "node_run True (fastpass_tsq_ops demo_args) fpq_own demo_env (demo_sched, demo_qdisc None) [Arrive demo_skb True] n"
      "nd_batch n = []" "nd_new n = None" "enqueue_skb_q (nd_q n) = [demo_skb]" "nd_resize n = None"
    using demo_run by blast
  define n1 where "n1 = n\<lparr> nd_batch := enqueue_skb_q (nd_q n), nd_q := (nd_q n)\<lparr> enqueue_skb_q := [] \<rparr> \<rparr>"
  have r1: "node_run True (fastpass_tsq_ops demo_args) fpq_own demo_env (demo_sched, demo_qdisc None) ([Arrive demo_skb True] @ [Quiet]) n1"
    using n(2,3) unfolding n1_def by (intro node_run.step [OF n(1)] node_step.take)
  note inv = fpq.run_inv [OF demo_env_ok refl demo_zeroed demo_free r1]
  have t: "tsq_inv demo_env (nd_q n1)" and e: "inside demo_env n1 (skb_key demo_skb) = [demo_skb]"
    using inv demo_skb_data(1) n(5) by (auto simp: fpq.node_inv_def n1_def)
  have "data_ok demo_skb"
    using demo_skb_data by (simp add: data_ok_def)
  then obtain new q2 where q2: "enqueue_single_skb demo_env (True, True) demo_skb (nd_q n1) = Some (new, q2)"
      "concat (waiting demo_env q2 (skb_key demo_skb)) = concat (waiting demo_env (nd_q n1) (skb_key demo_skb)) @ [demo_skb]"
    using inv_single [OF demo_env_ok t, of demo_skb] by auto
  have "concat (waiting demo_env (nd_q n1) (skb_key demo_skb)) = []"
    using e n(4,5) demo_skb_data(1) by (simp add: inside_def n1_def)
  with q2(2) have w: "concat (waiting demo_env q2 (skb_key demo_skb)) = [demo_skb]"
    by simp
  have "node_run True (fastpass_tsq_ops demo_args) fpq_own demo_env (demo_sched, demo_qdisc None)
      (([Arrive demo_skb True] @ [Quiet]) @ [Quiet]) (n1\<lparr> nd_batch := [], nd_new := new, nd_q := q2 \<rparr>)"
    using n(3-5) q2(1) by (intro node_run.step [OF r1] node_step.put) (simp_all add: n1_def)
  moreover obtain d where "flow demo_env q2 (skb_key demo_skb) = Some d" "concat (skb_qs d) = [demo_skb]"
    using w by (auto simp: waiting_def split: option.splits)
  ultimately show ?thesis
    using n(5) by (intro exI conjI) (simp, simp add: n1_def, simp)
qed

subsection \<open>Properties\<close>

text \<open>
  C14. No data packet is lost, duplicated, misdirected or reordered within its destination. Take any run
  from the creation of the qdisc on in which there is memory for flows and timeslots, the qdisc is not
  reset, admissions are carried out one at a time, and neither the tasklet nor an admission nor garbage
  collection runs in the middle of a resize of the flow table; otherwise the steps of the handlers
  interleave in any way, and garbage collection and changes of the limit and of the table size happen at
  any time. Then the packets handed to the device for a destination followed by the ones still inside
  (those ready, the timeslot an admission has taken and not yet appended, those that wait, those not yet
  sorted) are the ones accepted for it, in the order of arrival. This holds for Fastpass, whatever the
  network sends, and for the simple scheduler, under which in addition nothing waits once the tasklet
  has asked for its timeslot. The code does not enforce these conditions: what happens without memory,
  after a reset and in the middle of a resize is C17, and two receivers can put two timeslots of a flow
  into the wrong order (\<^verbatim>\<open>admissions_overtake\<close> below).
\<close>

theorem packets_in_order:
  assumes "env_ok env" and "\<not> hash_tbl_lock q0" and "length evs < 2 ^ 64"
  shows "(zeroed_sched p0 \<longrightarrow> node_run True (fastpass_tsq_ops args) fpq_own env (p0, q0) evs n \<longrightarrow>
        data_for k (concat (map ev_left evs)) @ inside env n k = data_for k (concat (map ev_accepted evs)))
    \<and> (node_run True (\<lambda>_. simple_tsq_ops env) (\<lambda>_ _ _. False) env ((), q0) evs m \<longrightarrow>
        data_for k (concat (map ev_left evs)) @ inside env m k = data_for k (concat (map ev_accepted evs))
        \<and> length (waiting env (settled m) k) = (if nd_new m = Some k then 1 else 0))"
  using fpq.run_inv [OF assms(1) refl _ assms(2), of p0 args evs n] smp.run_inv [OF assms(1) refl _ assms(2), of "()" evs m] assms(3)
  by (auto simp: smp.node_inv_def smp.matched_def)

theorem packets_in_order_witness:
  "\<exists>n d. node_run True (fastpass_tsq_ops demo_args) fpq_own demo_env (demo_sched, demo_qdisc None) [Arrive demo_skb True, Quiet, Quiet] n
     \<and> flow demo_env (settled n) (skb_key demo_skb) = Some d \<and> concat (skb_qs d) = [demo_skb]
     \<and> inside demo_env n (skb_key demo_skb) = [demo_skb]"
proof -
  obtain n d where n: "node_run True (fastpass_tsq_ops demo_args) fpq_own demo_env (demo_sched, demo_qdisc None) [Arrive demo_skb True, Quiet, Quiet] n"
      "flow demo_env (settled n) (skb_key demo_skb) = Some d" "concat (skb_qs d) = [demo_skb]"
    using demo_run_sorted by blast
  have "length [Arrive demo_skb True, Quiet, Quiet] < 2 ^ 64"
    by simp
  from packets_in_order [OF demo_env_ok demo_free this, of demo_sched demo_args n "skb_key demo_skb"] show ?thesis
    using n demo_zeroed demo_skb_data(1) by (intro exI [of _ n] exI [of _ d]) auto
qed



text \<open>
  C16. Timeslots are filled to the brim and not beyond. Along every run with Fastpass (under the
  conditions of C14; during a resize, in the table about to be installed), a waiting timeslot of
  a destination holds at least one packet, all of them for that destination; together they take no
  longer on the wire than a timeslot, unless it is a single packet that is longer by itself; and the
  first packet of a timeslot would not have fitted the timeslot before it. What the flow may still put
  into its last timeslot is exactly what is left of it.
\<close>

theorem timeslots_filled:
  assumes "env_ok env" and "zeroed_sched p0" and "\<not> hash_tbl_lock q0" and "length evs < 2 ^ 64"
    and "node_run True (fastpass_tsq_ops args) fpq_own env (p0, q0) evs n" and "flow env (settled n) k = Some d"
  defines "cost \<equiv> \<lambda>xs. \<Sum>s\<leftarrow>xs. sint (psched_l2t_ns (data_rate (nd_q n)) (skb_len s))"
    and "L \<equiv> int (unat (tslot_len_approx (nd_q n)))"
  shows "(\<forall>xs \<in> set (skb_qs d). xs \<noteq> [] \<and> (length xs = 1 \<or> cost xs \<le> L) \<and> (\<forall>s \<in> set xs. skb_key s = k))
    \<and> (\<forall>i. Suc i < length (skb_qs d) \<longrightarrow> cost (skb_qs d ! i) + cost [hd (skb_qs d ! Suc i)] > L)
    \<and> sint (td_credit d) = (if skb_qs d = [] then 0 else L - cost (last (skb_qs d)))"
proof -
  have "fpq.node_inv env n"
    using fpq.run_inv [OF assms(1) refl assms(2,3,5,4)] by blast
  moreover have "data_rate (settled n) = data_rate (nd_q n)" "tslot_len_approx (settled n) = tslot_len_approx (nd_q n)"
    by (simp_all add: settle_def install_table_def split: option.splits prod.splits)
  ultimately have td: "td_ok (data_rate (nd_q n)) L k d"
    using assms(6) by (simp add: fpq.node_inv_def tsq_inv_def tslot_len_def L_def)
  have c: "slot_cost (data_rate (nd_q n)) = cost" "\<And>s. pkt_cost (data_rate (nd_q n)) s = cost [s]"
    by (simp_all add: fun_eq_iff slot_cost_def pkt_cost_def cost_def)
  have "cost (skb_qs d ! i) + cost [hd (skb_qs d ! Suc i)] > L" if "Suc i < length (skb_qs d)" for i
    using td that by (auto simp: td_ok_def packed_def c successively_conv_nth)
  then show ?thesis
    using td by (auto simp: td_ok_def slot_ok_def c)
qed

theorem timeslots_filled_witness:
  "\<exists>n d. node_run True (fastpass_tsq_ops demo_args) fpq_own demo_env (demo_sched, demo_qdisc None) [Arrive demo_skb True, Quiet, Quiet] n
     \<and> flow demo_env (settled n) (skb_key demo_skb) = Some d \<and> skb_qs d \<noteq> []
     \<and> sint (td_credit d) = int (unat (tslot_len_approx (nd_q n)))
         - (\<Sum>s\<leftarrow>last (skb_qs d). sint (psched_l2t_ns (data_rate (nd_q n)) (skb_len s)))"
proof -
  obtain n d where n: "node_run True (fastpass_tsq_ops demo_args) fpq_own demo_env (demo_sched, demo_qdisc None) [Arrive demo_skb True, Quiet, Quiet] n"
      "flow demo_env (settled n) (skb_key demo_skb) = Some d" "concat (skb_qs d) = [demo_skb]"
    using demo_run_sorted by blast
  have "skb_qs d \<noteq> []"
    using n(3) by auto
  moreover have "length [Arrive demo_skb True, Quiet, Quiet] < 2 ^ 64"
    by simp
  ultimately show ?thesis
    using timeslots_filled [OF demo_env_ok demo_zeroed demo_free _ n(1,2)] n by (intro exI [of _ n] exI [of _ d]) simp
qed

subsection \<open>Without the conditions\<close>

text \<open>
  Two receivers, each of which admits a timeslot of the same flow, may append them in either order, since
  the lock of the table is released before a timeslot is appended.
\<close>

lemma admissions_overtake:
  fixes n :: "'p node"
  assumes inv: "tsq_inv env (nd_q n)" and w: "waiting env (nd_q n) k = x # y # zs"
    and n: "nd_admits n = [k, k]" "nd_flight n = []"
  shows "\<exists>n'. (\<lambda>a b. node_step False tops own env a Quiet b)\<^sup>*\<^sup>* n n' \<and> prequeue (nd_q n') = prequeue (nd_q n) @ y @ x"
proof -
  have ne: "x \<noteq> []" "y \<noteq> []"
    using waiting_ok [OF inv, of x k] waiting_ok [OF inv, of y k] w by (simp_all add: slot_ok_def)
  obtain q1 where q1: "admit_take env k (nd_q n) = Some (Some x, q1)" "tsq_inv env q1" "waiting env q1 k = y # zs" "same_queues (nd_q n) q1"
    using inv_take [OF inv, of k] w by auto
  obtain q2 where q2: "admit_take env k q1 = Some (Some y, q2)" "same_queues q1 q2"
    using inv_take [OF q1(2), of k] q1(3) by auto
  let ?n1 = "n\<lparr> nd_q := q1, nd_admits := [k], nd_flight := [x] \<rparr>"
  let ?n2 = "?n1\<lparr> nd_q := q2, nd_admits := [], nd_flight := [x, y] \<rparr>"
  let ?q3 = "q2\<lparr> prequeue := prequeue q2 @ y \<rparr>"
  let ?n3 = "?n2\<lparr> nd_q := ?q3, nd_flight := [x] \<rparr>"
  let ?n4 = "?n3\<lparr> nd_q := ?q3\<lparr> prequeue := prequeue ?q3 @ x \<rparr>, nd_flight := [] \<rparr>"
  have "node_step False tops own env n Quiet ?n1"
    using node_step.admit [of n "[]" k "[k]" env "Some x" q1 False tops own] q1(1) n by simp
  moreover have "node_step False tops own env ?n1 Quiet ?n2"
    using node_step.admit [of ?n1 "[]" k "[]" env "Some y" q2 False tops own] q2(1) by simp
  moreover have "node_step False tops own env ?n2 Quiet ?n3"
    using node_step.append [of ?n2 "[x]" y "[]" ?q3 False tops own env] ne by (simp add: admit_append_def guard_o_def)
  moreover have "node_step False tops own env ?n3 Quiet ?n4"
    using node_step.append [of ?n3 "[]" x "[]" _ False tops own env] ne by (simp add: admit_append_def guard_o_def)
  ultimately have "(\<lambda>a b. node_step False tops own env a Quiet b)\<^sup>*\<^sup>* n ?n4"
    by (meson converse_rtranclp_into_rtranclp rtranclp.rtrancl_refl)
  moreover have "prequeue (nd_q ?n4) = prequeue (nd_q n) @ y @ x"
    using q1(4) q2(2) by (simp add: same_queues_def)
  ultimately show ?thesis
    by blast
qed

text \<open>Every operation that takes the lock of the flow table waits forever.\<close>

definition blocked :: "tsq_env \<Rightarrow> tsq_sched_data \<Rightarrow> bool" where
  "blocked env q \<longleftrightarrow> (\<forall>k. tsq_admit_now env k q = None) \<and> (\<forall>mem skb. enqueue_single_skb env mem skb q = None)
     \<and> (\<forall>now. tsq_garbage_collect env now q = None) \<and> (\<forall>now. tsq_tc_reset now q = None)
     \<and> (\<forall>log. log \<noteq> hash_tbl_log q \<longrightarrow> tsq_tc_resize env True log q = None)"

lemma lock_blocks: "hash_tbl_lock q \<Longrightarrow> dst_hash_tbl q \<noteq> None \<Longrightarrow> blocked env q"
  by (auto simp: blocked_def tsq_admit_now_def admit_take_def enqueue_single_skb_def tsq_garbage_collect_def tsq_tc_reset_def
      tsq_tc_resize_def rehash_dst_table_def spin_lock_hash_def guard_o_def Let_def)

lemma table_some: "table_inv env q \<Longrightarrow> dst_hash_tbl q \<noteq> None"
  by (auto simp: table_inv_def split: option.splits)

lemma admit_not_found:
  assumes "table_inv env q" "\<not> hash_tbl_lock q" "flow env q k = None"
  shows "\<exists>q'. tsq_admit_now env k q = Some q' \<and> blocked env q'"
proof -
  have "dst_lookup env True k False (q\<lparr> hash_tbl_lock := True \<rparr>) = Some (None, q\<lparr> hash_tbl_lock := True \<rparr>)"
    using assms by (intro dst_lookup_missing) simp_all
  then show ?thesis
    using assms(2) table_some [OF assms(1)]
    by (auto simp: tsq_admit_now_def admit_take_def spin_lock_hash_def tsq_stat_inc_def intro!: lock_blocks)
qed

lemma no_flow_memory:
  assumes inv: "table_inv env q" and free: "\<not> hash_tbl_lock q" and new: "flow env q (skb_key skb) = None"
  shows "\<exists>q'. enqueue_single_skb env (False, m) skb q = Some (None, q') \<and> prequeue q' = prequeue q @ [skb] \<and> blocked env q'"
proof -
  let ?q = "tsq_stat_inc ts_data_pkts_update (q\<lparr> hash_tbl_lock := True \<rparr>)"
  have "dst_lookup env False (skb_key skb) True ?q = Some (None, tsq_stat_inc ts_allocation_errors_update ?q)"
    using inv new by (intro dst_lookup_no_mem) simp_all
  then show ?thesis
    using free table_some [OF inv]
    by (auto simp: enqueue_single_skb_def spin_lock_hash_def classify_data_def enqueue_to_prequeue_def tsq_stat_inc_def Let_def
        intro!: lock_blocks)
qed

lemma no_timeslot_memory:
  assumes env: "env_ok env" and inv: "table_inv env q" and free: "\<not> hash_tbl_lock q"
    and cost: "sint (psched_l2t_ns (data_rate q) (skb_len skb)) > sint (td_credit (flow_or_new env q (skb_key skb)))"
  shows "\<exists>q'. enqueue_single_skb env (True, False) skb q = Some (None, q') \<and> prequeue q' = prequeue q @ [skb] \<and> blocked env q'"
proof -
  let ?q = "q\<lparr> hash_tbl_lock := True \<rparr>"
  have lock: "spin_lock_hash q = Some ?q" and d: "flow_or_new env ?q (skb_key skb) = flow_or_new env q (skb_key skb)"
    using free by (simp_all add: spin_lock_hash_def flow_or_new_def)
  obtain q1 where q1: "classify_data env True skb ?q = Some (Some (flow_or_new env q (skb_key skb)), q1)" "table_inv env q1" "same_queues ?q q1"
    using classify_data_ok [OF env, of ?q skb] inv unfolding d by auto
  have "enqueue_single_skb env (True, False) skb q = Some (None, q1\<lparr> prequeue := prequeue q1 @ [skb] \<rparr>)"
    using cost by (simp add: enqueue_single_skb_def lock q1(1) enqueue_to_prequeue_def Let_def)
  moreover have "blocked env (q1\<lparr> prequeue := prequeue q1 @ [skb] \<rparr>)"
    using q1(2,3) table_some [OF q1(2)] by (intro lock_blocks) (simp_all add: same_queues_def)
  ultimately show ?thesis
    using q1(3) by (simp add: same_queues_def)
qed

lemma put_during_resize:
  assumes env: "env_ok env" and inv: "table_inv env q" and free: "\<not> hash_tbl_lock q" and new: "flow env q (skb_key skb) = None"
    and log: "log_ok log" and cost: "sint (psched_l2t_ns (data_rate q) (skb_len skb)) > 0"
  shows "\<exists>array q1 q2 q3. rehash_dst_table env log (\<lambda>_. Leaf) q = Some (array, q1)
    \<and> enqueue_single_skb env (True, True) skb q1 = Some (Some (skb_key skb), q2)
    \<and> flow env (install_table array log q2) = flow env q
    \<and> tsq_admit_now env (skb_key skb) (install_table array log q2) = Some q3 \<and> blocked env q3"
proof -
  obtain array q1 where q1: "rehash_dst_table env log (\<lambda>_. Leaf) q = Some (array, q1)" "same_queues q q1" "table_inv env q1"
      "flow env q1 = (\<lambda>_. None)" "\<And>r. table_inv env (install_table array log r)" "\<And>r. flow env (install_table array log r) = flow env q"
    using rehash_table_ok [OF env inv free log] by blast
  have l: "\<not> hash_tbl_lock q1" "data_rate q1 = data_rate q"
    using q1(2) free by (simp_all add: same_queues_def)
  have nd: "flow_or_new env q1 (skb_key skb) = new_dst (skb_key skb)"
    by (simp add: flow_or_new_def q1(4))
  have c: "sint (psched_l2t_ns (data_rate q1) (skb_len skb)) > sint (td_credit (flow_or_new env q1 (skb_key skb)))"
    using cost by (simp add: l(2) nd new_dst_def)
  then obtain q2 where q2: "enqueue_single_skb env (True, True) skb q1 = Some (Some (skb_key skb), q2)" "same_queues q1 q2"
    using enqueue_single_ok [OF env q1(3) l(1), of skb] by (auto simp: pkt_cost_def)
  have "\<not> hash_tbl_lock (install_table array log q2)"
    using l(1) q2(2) by (simp add: same_queues_def install_table_def)
  from admit_not_found [OF q1(5) this, of "skb_key skb"] show ?thesis
    using q1(1,6) q2(1) new by auto
qed

text \<open>
  C17. The ways to a blocked node. In each of these cases the lock of the flow table is left held, and from
  then on no admission, no data packet, no garbage collection, no reset and no change of the table size
  ever returns. After the qdisc is reset, the scheduler still holds its open demand, and the next
  admission does not find its flow, upon which \<^verbatim>\<open>tsq_admit_now\<close> returns without releasing the lock. When
  there is no memory for the flow of a packet, or for the timeslot it needs, the packet is passed on to the
  device, with the lock held. When the tasklet puts a packet of a new flow into the table after
  \<^verbatim>\<open>rehash_dst_table\<close> has given the lock back and before \<^verbatim>\<open>tsq_tc_resize\<close> installs the new table, the flow is
  not in the new table, so the packet is lost and the admission of its timeslot blocks the node.
\<close>

theorem lock_left_held:
  assumes "env_ok env" and "table_inv env q" and "\<not> hash_tbl_lock q"
  shows "(\<exists>q1 q2. tsq_tc_reset now q = Some q1 \<and> tsq_admit_now env k q1 = Some q2 \<and> blocked env q2)
    \<and> (flow env q (skb_key skb) = None \<longrightarrow>
        (\<exists>q2. enqueue_single_skb env (False, m) skb q = Some (None, q2) \<and> prequeue q2 = prequeue q @ [skb] \<and> blocked env q2))
    \<and> (sint (psched_l2t_ns (data_rate q) (skb_len skb)) > sint (td_credit (flow_or_new env q (skb_key skb))) \<longrightarrow>
        (\<exists>q2. enqueue_single_skb env (True, False) skb q = Some (None, q2) \<and> prequeue q2 = prequeue q @ [skb] \<and> blocked env q2))
    \<and> (flow env q (skb_key skb) = None \<longrightarrow> sint (psched_l2t_ns (data_rate q) (skb_len skb)) > 0 \<longrightarrow> 0 < log \<longrightarrow> log < 32 \<longrightarrow>
        (\<exists>array q1 q2 q3. rehash_dst_table env log (\<lambda>_. Leaf) q = Some (array, q1)
          \<and> enqueue_single_skb env (True, True) skb q1 = Some (Some (skb_key skb), q2)
          \<and> flow env (install_table array log q2) = flow env q
          \<and> tsq_admit_now env (skb_key skb) (install_table array log q2) = Some q3 \<and> blocked env q3))"
proof -
  obtain tbl where t: "dst_hash_tbl q = Some tbl" "hash_tbl_log q \<le> 32" "log_ok (hash_tbl_log q)"
    using assms(2) by (rule table_invE)
  obtain q1 where q1: "tsq_tc_reset now q = Some q1" "\<not> hash_tbl_lock q1" "hash_tbl_log q1 = hash_tbl_log q"
      "dst_hash_tbl q1 = Some (emptied (hash_tbl_log q) tbl)"
    using assms(3) t(1,3) by (simp add: tsq_tc_reset_def spin_lock_hash_def spin_unlock_hash_def guard_o_def)
  have "table_inv env q1" "flow env q1 k = None"
    using q1(3,4) t(3) dst_bucket_lt [OF t(2), of env k]
    by (simp_all add: table_inv_def flow_def tbl_ok_def tbl_flow_def emptied_def desc_def)
  from admit_not_found [OF this(1) q1(2) this(2)]
  have "\<exists>q1 q2. tsq_tc_reset now q = Some q1 \<and> tsq_admit_now env k q1 = Some q2 \<and> blocked env q2"
    using q1(1) by blast
  then show ?thesis
    using no_flow_memory [OF assms(2,3), of skb m] no_timeslot_memory [OF assms, of skb]
      put_during_resize [OF assms, of skb log] by (simp add: log_ok_def)
qed

theorem lock_left_held_witness:
  "(\<exists>q1 q2. tsq_tc_reset 5 (demo_qdisc (Some (\<lambda>_. Leaf))) = Some q1 \<and> tsq_admit_now demo_env 3 q1 = Some q2 \<and> blocked demo_env q2)
    \<and> (\<exists>q2. enqueue_single_skb demo_env (True, False) demo_skb (demo_qdisc (Some (\<lambda>_. Leaf))) = Some (None, q2)
        \<and> prequeue q2 = [demo_skb] \<and> blocked demo_env q2)
    \<and> (\<exists>array q1 q2 q3. rehash_dst_table demo_env 11 (\<lambda>_. Leaf) (demo_qdisc (Some (\<lambda>_. Leaf))) = Some (array, q1)
        \<and> enqueue_single_skb demo_env (True, True) demo_skb q1 = Some (Some (skb_key demo_skb), q2)
        \<and> tsq_admit_now demo_env (skb_key demo_skb) (install_table array 11 q2) = Some q3 \<and> blocked demo_env q3)"
proof -
  let ?q = "demo_qdisc (Some (\<lambda>_. Leaf))"
  have f: "\<not> hash_tbl_lock ?q" "prequeue ?q = []" "flow_or_new demo_env ?q (skb_key demo_skb) = new_dst (skb_key demo_skb)"
    by (simp_all add: demo_qdisc_def demo_table(2) flow_or_new_def demo_table(2) [unfolded demo_qdisc_def])
  have "0 < pkt_cost (data_rate ?q) demo_skb"
    using demo_skb_data(3) by (intro pkt_cost_eq(2)) (simp_all add: demo_qdisc_def rate_ok_precompute)
  then have c: "sint (psched_l2t_ns (data_rate ?q) (skb_len demo_skb)) > 0"
    by (simp add: pkt_cost_def)
  then have "sint (psched_l2t_ns (data_rate ?q) (skb_len demo_skb)) > sint (td_credit (flow_or_new demo_env ?q (skb_key demo_skb)))"
    unfolding f(3) by (simp add: new_dst_def)
  then show ?thesis
    using lock_left_held [OF demo_env_ok demo_table(1) f(1), of 5 3 demo_skb True 11] c f(2) demo_table(2) by auto
qed

end
