(* ===== verification/FP_Once.thy ===== *)
theory FP_Once
  imports FP_Codec
begin

unbundle bit_operations_syntax

text \<open>
  At-most-once delivery: receptions of arbitrary bytes, one at a time, between two resets of the
  connection, with sending and timeouts in between. A packet is recorded as received when its callbacks
  have all been performed (\<^verbatim>\<open>ctrl_rcv_handler\<close>, \<^verbatim>\<open>fpproto_handle_rx_complete\<close>) or when it carries no payload.
\<close>

subsection \<open>Definitions: receptions between two resets\<close>

definition resets :: "proto \<Rightarrow> u64" where
  "resets s = st_proto_resets (stat s)"

text \<open>The sequence number of the packet, if \<^verbatim>\<open>fpproto_handle_rx_complete\<close> performs its callbacks to the end.\<close>

definition rx_performed :: "bool \<Rightarrow> nat \<Rightarrow> u64 \<Rightarrow> u64 \<Rightarrow> u8 list \<Rightarrow> proto \<Rightarrow> u64 list" where
  "rx_performed ep addr now1 now2 pkt s =
     (case fpproto_handle_rx_packet ep addr now1 now2 pkt s of
        (True, Some in_seq, pkt, s) \<Rightarrow> if fst (fpproto_perform_rx_callbacks pkt s) then [in_seq] else []
      | _ \<Rightarrow> [])"

text \<open>\<^verbatim>\<open>rx_run ep s0 n ts s\<close>: from \<^verbatim>\<open>s0\<close> to \<^verbatim>\<open>s\<close> with \<^verbatim>\<open>n\<close> receptions and no reset; \<^verbatim>\<open>ts\<close> are the numbers performed.\<close>

inductive rx_run :: "bool \<Rightarrow> proto \<Rightarrow> nat \<Rightarrow> u64 list \<Rightarrow> proto \<Rightarrow> bool" for ep s0 where
  start: "rx_run ep s0 0 [] s0"
| receive: "rx_run ep s0 n ts s \<Longrightarrow> s' = fpproto_handle_rx_complete ep addr now1 now2 pkt s \<Longrightarrow> resets s' = resets s
     \<Longrightarrow> rx_run ep s0 (Suc n) (ts @ rx_performed ep addr now1 now2 pkt s) s'"
| prepare: "rx_run ep s0 n ts s \<Longrightarrow> rx_run ep s0 n ts (fpproto_prepare_to_send s)"
| commit: "rx_run ep s0 n ts s \<Longrightarrow> rx_run ep s0 n ts (fpproto_commit_packet pd now s)"
| timeout: "rx_run ep s0 n ts s \<Longrightarrow> rx_run ep s0 n ts (fpproto_handle_timeout now s)"
| stats: "rx_run ep s0 n ts s \<Longrightarrow> rx_run ep s0 n ts (fpproto_update_internal_stats s)"

text \<open>The first sequence number after the last reset, and the state a reset leaves.\<close>

definition first_in :: "bool \<Rightarrow> proto \<Rightarrow> u64" where
  "first_in ep s = base_seqno_from_timestamp (last_reset_time s) + FASTPASS_INGRESS_SEQNO_OFFSET ep"

definition just_reset :: "bool \<Rightarrow> proto \<Rightarrow> bool" where
  "just_reset ep s \<longleftrightarrow> in_max_seqno s = first_in ep s - 1"

subsection \<open>What the receiver remembers\<close>

definition rxv :: "proto \<Rightarrow> u64 \<times> u64 \<times> u64 \<times> u64" where
  "rxv s = (in_max_seqno s, inwnd s, last_reset_time s, resets s)"

lemma rxv_stat [simp]: "st_proto_resets (u (\<lambda>n. n + 1) (stat s)) = st_proto_resets (stat s) \<Longrightarrow> rxv (stat_inc u s) = rxv s"
  by (simp add: rxv_def resets_def stat_inc_def)

lemma rxv_simps [simp]:
  "rxv (emit e s) = rxv s" "rxv (bug_on b s) = rxv s" "rxv (s\<lparr>in_sync := b\<rparr>) = rxv s" "rxv (s\<lparr>consecutive_bad_pkts := c\<rparr>) = rxv s"
  "rxv (s\<lparr>next_timeout_seqno := t\<rparr>) = rxv s" "rxv (s\<lparr>outwnd := w\<rparr>) = rxv s" "rxv (s\<lparr>unacked_pkts := u\<rparr>) = rxv s"
  "rxv (call_with_pd p cb pd s) = rxv s" "rxv (call_handle_reset s) = rxv s" "rxv (call_trigger_request s) = rxv s"
  by (simp_all add: rxv_def resets_def emit_def bug_on_def call_with_pd_def call_handle_reset_def call_trigger_request_def split: option.split)

lemma rxv_pop [simp]: "rxv (snd (outwnd_pop t s)) = rxv s"
  by (simp add: outwnd_pop_def Let_def split: prod.split option.split)

lemma rxv_add [simp]: "rxv (outwnd_add pd s) = rxv s"
  by (simp add: outwnd_add_def Let_def split: prod.split)

lemma rxv_ack [simp]: "rxv (do_ack_seqno t s) = rxv s" "rxv (do_neg_ack_seqno t s) = rxv s"
  by (simp_all add: do_ack_seqno_def do_neg_ack_seqno_def Let_def split_beta)

lemma rxv_retrans [simp]: "rxv (recompute_and_reset_retrans_timer s) = rxv s"
  by (simp add: recompute_and_reset_retrans_timer_def Let_def split: option.split)

lemma rxv_ack_todo [simp]: "rxv (snd (ack_todo a m n s)) = rxv s"
  by (induction a m n s rule: ack_todo.induct) (subst ack_todo.simps, simp add: Let_def)

lemma rxv_ack_payload [simp]: "rxv (ack_payload_handler a v s) = rxv s"
  by (simp add: ack_payload_handler_def Let_def split_beta)

lemma rxv_timeout_loop [simp]: "rxv (timeout_loop fuel now t s) = rxv s"
  by (induction fuel arbitrary: t s) (simp_all add: timeout_loop.simps Let_def split: option.split)

lemma rxv_ops [simp]:
  "rxv (fpproto_prepare_to_send s) = rxv s" "rxv (fpproto_commit_packet pd now s) = rxv s" "rxv (fpproto_handle_timeout now s) = rxv s"
  "rxv (fpproto_update_internal_stats s) = rxv s"
  by (simp_all add: fpproto_prepare_to_send_def fpproto_commit_packet_def fpproto_handle_timeout_def Let_def split_beta)
    (simp add: fpproto_update_internal_stats_def rxv_def resets_def)

lemma rxv_payloads [simp]: "rxv (snd (rx_payloads pkt curp s)) = rxv s"
proof (induction pkt curp s rule: rx_payloads.induct)
  case (1 pkt curp s)
  have "rxv (snd (process_alloc pkt curp s)) = rxv s" "rxv (snd (process_areq pkt curp s)) = rxv s"
    by (simp_all add: process_alloc_def process_areq_def Let_def split: option.split)
  then have h: "rxv (snd (handle_payload pkt curp s)) = rxv s"
    by (auto simp: handle_payload_def Let_def split: option.split prod.split)
  then show ?case
    using 1 by (subst rx_payloads.simps) (auto split: prod.split option.split)
qed

subsection \<open>One reception\<close>

lemma rxv_eqD: "rxv s = rxv s' \<Longrightarrow> in_max_seqno s = in_max_seqno s' \<and> inwnd s = inwnd s' \<and> last_reset_time s = last_reset_time s' \<and> resets s = resets s'"
  by (simp add: rxv_def)

lemma may_accept_cong: "rxv s = rxv s' \<Longrightarrow> at_most_once_may_accept s t = at_most_once_may_accept s' t"
  by (auto simp: at_most_once_may_accept_def Let_def dest!: rxv_eqD)

lemma successful_rx_cong: "rxv s = rxv s' \<Longrightarrow> rxv (fpproto_successful_rx t s) = rxv (fpproto_successful_rx t s')"
  by (simp add: fpproto_successful_rx_def update_inwnd_def Let_def rxv_def resets_def stat_inc_def)

lemma resets_successful [simp]: "resets (fpproto_successful_rx t s) = resets s"
  by (simp add: fpproto_successful_rx_def update_inwnd_def Let_def resets_def stat_inc_def)

lemma rxv_resets: "rxv s = rxv s' \<Longrightarrow> resets s = resets s'"
  by (simp add: rxv_def)

lemma resets_do_reset: "resets (do_proto_reset ep now sync s) = resets s + 1"
proof -
  have "rxv (clear_next_unacked fuel t s) = rxv s" for fuel t s
    by (induction fuel arbitrary: t s) (simp_all add: clear_next_unacked.simps Let_def split_beta)
  then have "resets (free_unacked s) = resets s"
    unfolding free_unacked_def by (rule rxv_resets)
  then show ?thesis
    by (simp add: do_proto_reset_def Let_def resets_def stat_inc_def)
qed

lemma resets_simps [simp]:
  "resets (call_handle_reset s) = resets s" "resets (call_trigger_request s) = resets s" "resets (emit e s) = resets s"
  "resets (s\<lparr>in_sync := b\<rparr>) = resets s" "resets (s\<lparr>consecutive_bad_pkts := c\<rparr>) = resets s"
  "resets (ack_payload_handler a v s) = resets s"
  by (rule rxv_resets, simp)+

lemma resets_stat [simp]: "st_proto_resets (u (\<lambda>n. n + 1) (stat s)) = st_proto_resets (stat s) \<Longrightarrow> resets (stat_inc u s) = resets s"
  by (simp add: resets_def stat_inc_def)

lemma reset_payload_rxv:
  assumes "reset_payload_handler ep now t s = (d, s')"
  shows "resets s' = resets s + 1 \<or> rxv s' = rxv s \<and> (d \<or> t = last_reset_time s)"
proof (cases "t = last_reset_time s")
  case True
  then show ?thesis
    using assms by (cases "ep \<and> \<not> in_sync s") (auto simp: reset_payload_handler_def Let_def)
next
  case False
  then show ?thesis
    using assms
    by (cases "tstamp_in_window (last_reset_time s) now (rst_win_ns s)"; cases "tstamp_in_window t now (rst_win_ns s)";
        cases "time_before64 t (last_reset_time s)") (auto simp: reset_payload_handler_def Let_def resets_do_reset)
qed

lemma got_bad_rxv: "resets (got_bad_packet ep now s) = resets s + 1 \<or> rxv (got_bad_packet ep now s) = rxv s"
  by (simp add: got_bad_packet_def Let_def resets_do_reset)

text \<open>The number the receiver gives to a packet: near the largest one received, or near the first one after a reset.\<close>

definition numbered :: "bool \<Rightarrow> proto \<Rightarrow> u64 \<Rightarrow> bool" where
  "numbered ep s t \<longleftrightarrow> (\<exists>x. t = complete_seqno (in_max_seqno s - push_bit 14 1) x) \<or> (\<exists>x. t = complete_seqno (first_in ep s) x)"

lemma numbered_cong: "rxv s = rxv s' \<Longrightarrow> numbered ep s t = numbered ep s' t"
  by (auto simp: numbered_def first_in_def dest!: rxv_eqD)

definition rx_effect :: "bool \<Rightarrow> proto \<Rightarrow> bool \<Rightarrow> u64 option \<Rightarrow> proto \<Rightarrow> bool" where
  "rx_effect ep s d q s' \<longleftrightarrow> resets s' = resets s + 1
     \<or> rxv s' = rxv s \<and> (d \<longrightarrow> (\<exists>t. q = Some t \<and> numbered ep s t \<and> \<not> at_most_once_may_accept s t))
     \<or> \<not> d \<and> (\<exists>t. numbered ep s t \<and> rxv s' = rxv (fpproto_successful_rx t s))"

lemma rx_effect_cong: "rxv s = rxv r \<Longrightarrow> rx_effect ep s d q s' \<Longrightarrow> rx_effect ep r d q s'"
  by (auto simp: rx_effect_def numbered_cong [of s r] may_accept_cong [of s r] successful_rx_cong [of s r] rxv_resets [of s r])

lemma rx_acks_rxv:
  assumes "rx_acks pkt curp t a v s = (d, q, s')" "numbered ep s t" "\<not> at_most_once_may_accept s t"
  shows "rx_effect ep s d q s'"
proof -
  have "rxv s' = rxv s \<and> (d \<longrightarrow> q = Some t) \<or> \<not> d \<and> rxv s' = rxv (fpproto_successful_rx t s)"
    using assms(1) successful_rx_cong [of "ack_payload_handler a (ack_vec_of_hdr v) s" s t]
    by (auto simp: rx_acks_def Let_def split: if_splits option.splits)
  then show ?thesis
    using assms(2,3) by (auto simp: rx_effect_def)
qed

lemma rx_verified_rxv:
  assumes r: "rx_verified ep now pt pkt rst t a v s = (d, q, s')"
    and num: "if pt = FASTPASS_PTYPE_RESET then \<exists>x. t = complete_seqno (base_seqno_from_timestamp rst + FASTPASS_INGRESS_SEQNO_OFFSET ep) x
              else \<exists>x. t = complete_seqno (in_max_seqno s - push_bit 14 1) x"
  shows "rx_effect ep s d q s'"
proof (cases "pt = FASTPASS_PTYPE_RESET")
  case True
  let ?s = "if \<not> ep then call_trigger_request (s\<lparr>in_sync := False\<rparr>) else s\<lparr>in_sync := False\<rparr>"
  obtain r0 s0 where rp: "reset_payload_handler ep now rst ?s = (r0, s0)"
    by (metis surj_pair)
  have v: "rxv ?s = rxv s"
    by simp
  show ?thesis
  proof (cases "resets s0 = resets ?s + 1")
    case reset: True
    have "resets s' = resets s0"
    proof -
      have "rx_acks pkt 16 t a v s0 = (d, q, s') \<Longrightarrow> resets s' = resets s0"
        by (auto simp: rx_acks_def Let_def split: if_splits option.splits)
      then show ?thesis
        using r True rp by (auto simp: rx_verified_def Let_def split: if_splits)
    qed
    then show ?thesis
      using reset rxv_resets [OF v] by (simp add: rx_effect_def)
  next
    case False
    then have s0: "rxv s0 = rxv s" "r0 \<or> rst = last_reset_time s"
      using reset_payload_rxv [OF rp] v rxv_eqD [OF v] by auto
    show ?thesis
    proof (cases "r0 \<or> at_most_once_may_accept s0 t")
      case True
      then show ?thesis
        using r \<open>pt = FASTPASS_PTYPE_RESET\<close> rp s0(1) by (auto simp: rx_verified_def Let_def rx_effect_def split: if_splits)
    next
      case False
      then have "numbered ep s0 t"
        using num True s0 rxv_eqD [OF s0(1)] by (auto simp: numbered_def first_in_def)
      moreover have "rx_acks pkt 16 t a v s0 = (d, q, s')"
        using r True rp False by (simp add: rx_verified_def Let_def split: if_splits)
      ultimately have "rx_effect ep s0 d q s'"
        using False by (intro rx_acks_rxv) auto
      then show ?thesis
        by (rule rx_effect_cong [OF s0(1)])
    qed
  qed
next
  case False
  let ?s = "s\<lparr>in_sync := True\<rparr>"
  have v: "rxv ?s = rxv s"
    by simp
  show ?thesis
  proof (cases "at_most_once_may_accept ?s t")
    case True
    then show ?thesis
      using r False by (auto simp: rx_verified_def Let_def rx_effect_def)
  next
    case new: False
    have "rx_acks pkt 8 t a v ?s = (d, q, s')"
      using r False new by (simp add: rx_verified_def Let_def)
    then have "rx_effect ep ?s d q s'"
      using num False new by (intro rx_acks_rxv) (auto simp: numbered_def)
    then show ?thesis
      by (rule rx_effect_cong [OF v])
  qed
qed

lemma rx_packet_rxv:
  assumes r: "fpproto_handle_rx_packet ep addr now1 now2 pkt s = (d, q, pkt', s')"
  shows "rx_effect ep s d q s'"
proof -
  let ?s = "stat_inc st_rx_pkts_update s"
  have same: "rx_effect ep s False q' r" if "rxv r = rxv s" for q' r
    using that by (simp add: rx_effect_def)
  show ?thesis
  proof (cases "length pkt < 8")
    case True
    then show ?thesis
      using r same by (auto simp: fpproto_handle_rx_packet_def Let_def)
  next
    case len: False
    define pt where "pt = (if length pkt = 8 then 0 else drop_bit 4 (pkt ! 8))"
    have pt: "(if length pkt = 8 then Some 0 else map_option (drop_bit 4) (rd8 pkt 8)) = Some pt"
      using len by (simp add: pt_def rd8_def)
    obtain h where h: "read_hdr pkt = Some h"
      using read_hdr_Some [of pkt] len by auto
    show ?thesis
    proof (cases "pt = FASTPASS_PTYPE_RESET \<and> length pkt < 16")
      case True
      then show ?thesis
        using r same len pt by (auto simp: fpproto_handle_rx_packet_def Let_def)
    next
      case False
      then obtain rst t a where q: "rx_seqnos ep now1 pt pkt h ?s = Some (rst, t, a)"
        using rx_seqnos_Some [of pt pkt ep now1 h ?s] by (auto simp: not_less)
      let ?pkt = "clear_checksum pkt"
      show ?thesis
      proof (cases "fastpass_checksum addr ?pkt t a = hdr_checksum h")
        case bad: False
        let ?b = "got_bad_packet ep now2 ?s"
        have "d = False" "s' = stat_inc st_rx_checksum_error_update ?b"
          using r len pt False h q bad by (auto simp: fpproto_handle_rx_packet_def Let_def)
        then show ?thesis
          using got_bad_rxv [of ep now2 ?s] by (auto simp: rx_effect_def)
      next
        case good: True
        let ?g = "got_good_packet ?s"
        have v: "rxv ?g = rxv s"
          by (simp add: got_good_packet_def)
        have "rx_verified ep now2 pt ?pkt rst t a (hdr_ack_vec h) ?g = (d, q', s')" if "q' = q" for q'
          using r len pt False h q good that by (auto simp: fpproto_handle_rx_packet_def Let_def split: prod.splits)
        moreover have "if pt = FASTPASS_PTYPE_RESET then \<exists>x. t = complete_seqno (base_seqno_from_timestamp rst + FASTPASS_INGRESS_SEQNO_OFFSET ep) x
              else \<exists>x. t = complete_seqno (in_max_seqno ?g - push_bit 14 1) x"
          using q rxv_eqD [OF v] by (auto simp: rx_seqnos_def Let_def split: if_splits option.splits)
        ultimately have "rx_effect ep ?g d q s'"
          by (intro rx_verified_rxv) blast+
        then show ?thesis
          by (rule rx_effect_cong [OF v])
      qed
    qed
  qed
qed

text \<open>A reception either resets, or leaves the record alone and performs nothing, or records a number that was not recorded.\<close>

lemma rx_complete_cases:
  assumes s': "s' = fpproto_handle_rx_complete ep addr now1 now2 pkt s" and no: "resets s' = resets s"
  obtains "rxv s' = rxv s" "rx_performed ep addr now1 now2 pkt s = []"
  | t where "numbered ep s t" "rxv s' = rxv (fpproto_successful_rx t s)"
      "rx_performed ep addr now1 now2 pkt s = [] \<or> rx_performed ep addr now1 now2 pkt s = [t] \<and> \<not> at_most_once_may_accept s t"
proof -
  obtain d q pkt' s1 where r: "fpproto_handle_rx_packet ep addr now1 now2 pkt s = (d, q, pkt', s1)"
    by (metis surj_pair)
  note e = rx_packet_rxv [OF r]
  obtain c s2 where c: "fpproto_perform_rx_callbacks pkt' s1 = (c, s2)"
    by fastforce
  then have v: "rxv s2 = rxv s1"
    using rxv_payloads [of pkt' 8 "bug_on (length pkt' = 8) s1"] by (simp add: fpproto_perform_rx_callbacks_def)
  have ne: "resets s + 1 \<noteq> resets s"
    by simp
  show ?thesis
  proof (cases "d \<and> q \<noteq> None")
    case True
    then obtain t where t: "q = Some t"
      by auto
    have s1: "resets s1 \<noteq> resets s + 1"
      using no ne rxv_resets [OF v] True t c r by (cases c) (auto simp: s' fpproto_handle_rx_complete_def)
    then have i: "rxv s1 = rxv s" "numbered ep s t" "\<not> at_most_once_may_accept s t"
      using e True t by (auto simp: rx_effect_def)
    show ?thesis
    proof (cases c)
      case True
      then show ?thesis
        using that(2) [of t] i v c r t successful_rx_cong [of s2 s t] \<open>d \<and> q \<noteq> None\<close>
        by (simp add: s' fpproto_handle_rx_complete_def rx_performed_def)
    next
      case False
      then show ?thesis
        using that(1) i v c r t \<open>d \<and> q \<noteq> None\<close> by (simp add: s' fpproto_handle_rx_complete_def rx_performed_def)
    qed
  next
    case False
    then have "s' = s1" "rx_performed ep addr now1 now2 pkt s = []"
      using r by (cases d; auto simp: s' fpproto_handle_rx_complete_def rx_performed_def split: option.splits)+
    then show ?thesis
      using that e no ne by (auto simp: rx_effect_def)
  qed
qed

subsection \<open>Receptions between two resets\<close>

lemma off_add: "off b x + unat d < 2 ^ 64 \<Longrightarrow> off b (x + d) = off b x + unat d"
proof -
  have e: "x + d - b = (x - b) + d"
    by simp
  show "off b x + unat d < 2 ^ 64 \<Longrightarrow> off b (x + d) = off b x + unat d"
    unfolding off_def e by (simp only: unat_word_ariths) simp
qed

lemma off_sub_le: "unat d \<le> off b x \<Longrightarrow> off b (x - d) = off b x - unat d"
proof -
  have e: "x - d - b = (x - b) - d"
    by simp
  show "unat d \<le> off b x \<Longrightarrow> off b (x - d) = off b x - unat d"
    unfolding off_def e by (simp only: unat_sub word_le_nat_alt)
qed

lemma off_complete:
  assumes "off b x < 2 ^ 62"
  shows "off b x \<le> off b (complete_seqno x y)" "off b (complete_seqno x y) < off b x + 65536"
proof -
  let ?d = "(ucast y - x) AND 0xFFFF"
  have d: "unat ?d < 65536"
    using word_and_le1 [of "ucast y - x" "0xFFFF"] by (simp add: word_le_nat_alt)
  have "off b (complete_seqno x y) = off b x + unat ?d"
    unfolding complete_seqno_def using d assms by (intro off_add) simp
  then show "off b x \<le> off b (complete_seqno x y)" "off b (complete_seqno x y) < off b x + 65536"
    using d by simp_all
qed

definition once_inv :: "u64 \<Rightarrow> bool \<Rightarrow> nat \<Rightarrow> u64 list \<Rightarrow> proto \<Rightarrow> bool" where
  "once_inv b ep n ts s \<longleftrightarrow> off b (first_in ep s) = 1048576 \<and> 1048575 \<le> off b (in_max_seqno s)
     \<and> off b (in_max_seqno s) \<le> 1048576 + n * 65536 \<and> distinct ts \<and> (\<forall>t \<in> set ts. off b t \<in> seen b s)"

lemma once_inv_cong: "rxv s = rxv s' \<Longrightarrow> once_inv b ep n ts s = once_inv b ep n ts s'"
  by (auto simp: once_inv_def first_in_def seen_def dest!: rxv_eqD)

lemma numbered_off:
  assumes "once_inv b ep n ts s" "numbered ep s t" "n < 2 ^ 45"
  shows "off b t < 1048576 + Suc n * 65536" "near b t" "near b (in_max_seqno s)"
proof -
  have i: "off b (first_in ep s) = 1048576" "1048575 \<le> off b (in_max_seqno s)" "off b (in_max_seqno s) \<le> 1048576 + n * 65536"
    using assms(1) by (simp_all add: once_inv_def)
  have n: "n * 65536 < 2 ^ 61"
    using assms(3) by simp
  have o: "off b (in_max_seqno s - 16384) = off b (in_max_seqno s) - 16384"
    using i(2) off_sub_le [of 16384 b "in_max_seqno s"] by simp
  have "off b t < 1048576 + Suc n * 65536"
    using assms(2) unfolding numbered_def
  proof (elim disjE exE)
    fix x
    assume t: "t = complete_seqno (in_max_seqno s - push_bit 14 1) x"
    have "off b (in_max_seqno s - 16384) < 2 ^ 62"
      using o i(3) n by simp
    from off_complete(2) [OF this, of x] show ?thesis
      using i(2,3) by (simp add: t o)
  next
    fix x
    assume t: "t = complete_seqno (first_in ep s) x"
    then show ?thesis
      using off_complete(2) [of b "first_in ep s" x] i(1) by simp
  qed
  then show "off b t < 1048576 + Suc n * 65536" "near b t" "near b (in_max_seqno s)"
    using i(3) n by (simp_all add: near_def)
qed

lemma once_step:
  assumes inv: "once_inv b ep n ts s" and n: "n < 2 ^ 45" and t: "numbered ep s t" and r: "rxv s' = rxv (fpproto_successful_rx t s)"
    and us: "us = [] \<or> us = [t] \<and> \<not> at_most_once_may_accept s t"
  shows "once_inv b ep (Suc n) (ts @ us) s'"
proof -
  let ?r = "fpproto_successful_rx t s"
  note o = numbered_off [OF inv t n]
  obtain d where u: "update_inwnd t s = (d, ?r)"
    by (simp add: fpproto_successful_rx_def prod_eq_iff)
  note U = update_inwnd_seen [OF o(2,3) u]
  have "first_in ep ?r = first_in ep s"
    by (simp add: first_in_def fpproto_successful_rx_def update_inwnd_def Let_def stat_inc_def)
  moreover have "off b t \<notin> seen b s" if "us = [t]"
    using us that may_accept_seen [OF o(2,3)] by auto
  ultimately have "once_inv b ep (Suc n) (ts @ us) ?r"
    using inv o(1) us U(2,3) by (auto simp: once_inv_def)
  then show ?thesis
    using once_inv_cong [OF r] by simp
qed

lemma run_once:
  assumes "rx_run ep s0 n ts s" "just_reset ep s0" "n \<le> 2 ^ 45"
  shows "once_inv (first_in ep s0 - 1048576) ep n ts s"
  using assms(1,3)
proof (induction rule: rx_run.induct)
  case start
  have "off (x - 1048576) x = 1048576" "off (x - 1048576) (x - 1) = 1048575" for x
    by (simp_all add: off_def)
  then show ?case
    using assms(2) by (simp add: once_inv_def just_reset_def)
next
  case (receive n ts s s' addr now1 now2 pkt)
  then have inv: "once_inv (first_in ep s0 - 1048576) ep n ts s" and n: "n < 2 ^ 45"
    by auto
  show ?case
  proof (rule rx_complete_cases [OF receive.hyps(2,3)])
    assume "rxv s' = rxv s" "rx_performed ep addr now1 now2 pkt s = []"
    then show ?case
      using inv once_inv_cong [of s' s "first_in ep s0 - 1048576" ep n ts] by (simp add: once_inv_def)
  next
    fix t
    assume "numbered ep s t" "rxv s' = rxv (fpproto_successful_rx t s)"
      "rx_performed ep addr now1 now2 pkt s = [] \<or> rx_performed ep addr now1 now2 pkt s = [t] \<and> \<not> at_most_once_may_accept s t"
    then show ?case
      by (rule once_step [OF inv n])
  qed
next
  case (prepare n ts s)
  then show ?case
    using once_inv_cong [of "fpproto_prepare_to_send s" s] by simp
next
  case (commit n ts s pd now)
  then show ?case
    using once_inv_cong [of "fpproto_commit_packet pd now s" s] by simp
next
  case (timeout n ts s now)
  then show ?case
    using once_inv_cong [of "fpproto_handle_timeout now s" s] by simp
next
  case (stats n ts s)
  then show ?case
    using once_inv_cong [of "fpproto_update_internal_stats s" s] by simp
qed

text \<open>A number that was performed is not passed on to the callbacks again.\<close>

lemma run_not_again:
  assumes run: "rx_run ep s0 n ts s" "just_reset ep s0" "n < 2 ^ 45" and t: "t \<in> set ts"
    and r: "fpproto_handle_rx_packet ep addr now1 now2 pkt s = (True, Some t, pkt', s')"
  shows "resets s' = resets s + 1"
proof (rule ccontr)
  assume "resets s' \<noteq> resets s + 1"
  then have i: "numbered ep s t" "\<not> at_most_once_may_accept s t"
    using rx_packet_rxv [OF r] by (auto simp: rx_effect_def)
  have inv: "once_inv (first_in ep s0 - 1048576) ep n ts s"
    using run by (intro run_once) auto
  from may_accept_seen [OF numbered_off(2,3) [OF inv i(1) run(3)]] show False
    using inv i(2) t by (auto simp: once_inv_def)
qed

text \<open>A packet whose callbacks fail is not recorded, and passes the check of its number again.\<close>

lemma failed_not_recorded:
  assumes r: "fpproto_handle_rx_packet ep addr now1 now2 pkt s = (True, Some t, pkt', s1)"
    and c: "\<not> fst (fpproto_perform_rx_callbacks pkt' s1)" and no: "resets s1 = resets s"
  shows "\<not> at_most_once_may_accept (fpproto_handle_rx_complete ep addr now1 now2 pkt s) t"
proof -
  obtain s2 where c: "fpproto_perform_rx_callbacks pkt' s1 = (False, s2)"
    using c by (cases "fpproto_perform_rx_callbacks pkt' s1") auto
  then have "rxv s2 = rxv s1"
    using rxv_payloads [of pkt' 8 "bug_on (length pkt' = 8) s1"] by (simp add: fpproto_perform_rx_callbacks_def)
  moreover have "rxv s1 = rxv s" "\<not> at_most_once_may_accept s t"
    using rx_packet_rxv [OF r] no by (auto simp: rx_effect_def)
  ultimately show ?thesis
    using r c may_accept_cong [of s2 s t] by (simp add: fpproto_handle_rx_complete_def)
qed

subsection \<open>A packet of the encoder\<close>

text \<open>A packet of the encoder with a number that was not recorded is performed, and recorded, without a reset.\<close>

lemma encoded_performed:
  assumes enc: "fpproto_encode_packet ep' addr pd max_len min_size = (n, pkt)" "8 < n" and wf: "wf_pd pd" "\<not> pd_send_reset pd"
    and c: "completable ep now1 pd s" "addr' mod 4 = addr mod 4" and new: "\<not> at_most_once_may_accept s (pd_seqno pd)"
  shows "rx_performed ep addr' now1 now2 pkt s = [pd_seqno pd]
    \<and> resets (fpproto_handle_rx_complete ep addr' now1 now2 pkt s) = resets s"
proof -
  let ?p = "clear_checksum pkt" and ?s = "(got_good_packet (stat_inc st_rx_pkts_update s))\<lparr>in_sync := True\<rparr>"
  let ?s1 = "ack_payload_handler (pd_ack_seq pd) (ack_vec_of_hdr (pd_ack_vec pd)) ?s"
  obtain cs k where k: "pkt = hdr_bytes pd cs @ payload ep' pd k" "n = int (length pkt)"
    using encode_shape [OF enc(1)] enc(2) by auto
  have ty: "wire_type pd pkt \<in> {3, 2, 0}" and len: "8 < length pkt"
    using wire_type_plain [OF wf(2,1)] k enc(2) by auto
  have b: "rd8 ?p 8 = Some (pkt ! 8)" "drop_bit 4 (pkt ! 8) = wire_type pd pkt"
    using len by (simp_all add: rd8_def wire_type_def clear_checksum_def)
  have v: "rxv ?s = rxv s"
    by (simp add: got_good_packet_def)
  have "rx_verified ep now2 (wire_type pd pkt) ?p 0 (pd_seqno pd) (pd_ack_seq pd) (pd_ack_vec pd) (got_good_packet (stat_inc st_rx_pkts_update s))
      = (True, Some (pd_seqno pd), ?s1)"
    using ty len b may_accept_cong [OF v, of "pd_seqno pd"] new
    by (auto simp: rx_verified_def rx_acks_def Let_def FASTPASS_PTYPE_RESET_def FASTPASS_PTYPE_ACK_def)
  then have r: "fpproto_handle_rx_packet ep addr' now1 now2 pkt s = (True, Some (pd_seqno pd), ?p, ?s1)"
    using header_roundtrip [OF enc(1) _ wf(1) c, of now2] enc(2) wf(2) by simp
  obtain s2 where p: "fpproto_perform_rx_callbacks ?p ?s1 = (True, s2)"
    using payload_roundtrip [OF enc wf(1)] by blast
  then have "rxv s2 = rxv ?s1"
    using rxv_payloads [of ?p 8 "bug_on (length ?p = 8) ?s1"] by (simp add: fpproto_perform_rx_callbacks_def)
  then have "resets s2 = resets s"
    using rxv_resets [of s2 ?s1] rxv_resets [OF v] by simp
  then show ?thesis
    by (simp add: rx_performed_def fpproto_handle_rx_complete_def r p)
qed

end
