(* ===== verification/FP_Matrix.thy ===== *)
theory FP_Matrix
  imports FP_Euler FP_Prelude
begin

text \<open>
  The matrix representation of bipartite multigraphs (\<^verbatim>\<open>graph_matrix.h\<close>) and the Euler split over it
  (\<^verbatim>\<open>euler_split_matrix.c\<close>): an entry counts the edges between a left and a right vertex, and the degrees are
  kept beside it, all in 8 bits. The split is the third instance of \<^verbatim>\<open>euler_walk\<close>. \<^term>\<open>None\<close> is a failed
  assertion. The three graphs of a split are different objects.
\<close>

subsection \<open>Definitions\<close>

definition MATRIX_NODES :: nat where "MATRIX_NODES = 40"

record matrix_graph =
  mg_n :: nat
  mg_edges :: "nat \<Rightarrow> nat \<Rightarrow> u8"
  mg_degrees :: "nat \<Rightarrow> u8"

definition mx_graph_init :: "matrix_graph \<Rightarrow> nat \<Rightarrow> matrix_graph option" where
  "mx_graph_init graph n = do {
     guard_o (n \<le> MATRIX_NODES);
     Some (graph\<lparr> mg_n := n, mg_edges := (\<lambda>i j. if i < n \<and> j < n then 0 else mg_edges graph i j),
                  mg_degrees := (\<lambda>i. if i < 2 * n then 0 else mg_degrees graph i) \<rparr>) }"

definition mx_get_neighbor :: "matrix_graph \<Rightarrow> nat \<Rightarrow> nat option" where
  "mx_get_neighbor graph vertex = do {
     guard_o (vertex < 2 * mg_n graph);
     let n = mg_n graph;
     if vertex < n then do {
       i \<leftarrow> find (\<lambda>i. mg_edges graph vertex i > 0) [0..<n];
       Some (n + i) }
     else find (\<lambda>i. mg_edges graph i (vertex - n) > 0) [0..<n] }"

definition mx_get_degree :: "matrix_graph \<Rightarrow> nat \<Rightarrow> u8 option" where
  "mx_get_degree graph vertex = do {
     guard_o (vertex < 2 * mg_n graph);
     Some (mg_degrees graph vertex) }"

definition mx_get_max_degree :: "matrix_graph \<Rightarrow> u8 option" where
  "mx_get_max_degree graph = foldo (\<lambda>i max_degree. do {
       d \<leftarrow> mx_get_degree graph i;
       Some (if max_degree > d then max_degree else d) }) [0..<2 * mg_n graph] 0"

definition mx_upd :: "(u8 \<Rightarrow> u8) \<Rightarrow> nat \<Rightarrow> nat \<Rightarrow> matrix_graph \<Rightarrow> matrix_graph" where
  "mx_upd f u v graph = graph\<lparr>
     mg_edges := (mg_edges graph)(u := (mg_edges graph u)(v - mg_n graph := f (mg_edges graph u (v - mg_n graph)))),
     mg_degrees := (mg_degrees graph)(u := f (mg_degrees graph u), v := f (mg_degrees graph v)) \<rparr>"

definition mx_add_edge :: "matrix_graph \<Rightarrow> nat \<Rightarrow> nat \<Rightarrow> matrix_graph option" where
  "mx_add_edge graph u v = do {
     guard_o (u < mg_n graph);
     guard_o (mg_n graph \<le> v \<and> v < 2 * mg_n graph);
     Some (mx_upd (\<lambda>x. x + 1) u v graph) }"

definition mx_remove_edge :: "matrix_graph \<Rightarrow> nat \<Rightarrow> nat \<Rightarrow> matrix_graph option" where
  "mx_remove_edge graph u v = do {
     guard_o (u < mg_n graph);
     guard_o (mg_n graph \<le> v \<and> v < 2 * mg_n graph);
     guard_o (mg_edges graph u (v - mg_n graph) > 0);
     Some (mx_upd (\<lambda>x. x - 1) u v graph) }"

definition mx_add_graph :: "matrix_graph \<Rightarrow> matrix_graph \<Rightarrow> matrix_graph option" where
  "mx_add_graph graph_1 graph_2 = do {
     guard_o (mg_n graph_1 = mg_n graph_2);
     let n = mg_n graph_1;
     Some (graph_1\<lparr>
       mg_edges := (\<lambda>i j. if i < n \<and> j < n then mg_edges graph_1 i j + mg_edges graph_2 i j else mg_edges graph_1 i j),
       mg_degrees := (\<lambda>i. if i < 2 * n then mg_degrees graph_1 i + mg_degrees graph_2 i else mg_degrees graph_1 i) \<rparr>) }"

definition mx_copy_graph :: "matrix_graph \<Rightarrow> matrix_graph \<Rightarrow> matrix_graph option" where
  "mx_copy_graph src_graph dst_graph = do {
     dst_graph \<leftarrow> mx_graph_init dst_graph (mg_n src_graph);
     mx_add_graph dst_graph src_graph }"

definition mx_are_equal :: "matrix_graph \<Rightarrow> matrix_graph \<Rightarrow> bool" where
  "mx_are_equal graph_1 graph_2 \<longleftrightarrow> mg_n graph_1 = mg_n graph_2
     \<and> (\<forall>i \<in> set [0..<mg_n graph_1]. \<forall>j \<in> set [0..<mg_n graph_1]. mg_edges graph_1 i j = mg_edges graph_2 i j)"

definition mx_is_perfect_matching :: "matrix_graph \<Rightarrow> bool" where
  "mx_is_perfect_matching graph \<longleftrightarrow>
     (\<forall>i \<in> set [0..<mg_n graph]. sum_list (map (\<lambda>j. mg_edges graph i j) [0..<mg_n graph]) = 1)
     \<and> (\<forall>i \<in> set [0..<mg_n graph]. sum_list (map (\<lambda>j. mg_edges graph j i) [0..<mg_n graph]) = 1)"

type_synonym mx_split = "matrix_graph \<times> matrix_graph \<times> matrix_graph"

text \<open>Peeling off one edge: from a left vertex into the first output, from a right one into the second.\<close>

definition mx_peel :: "bool \<Rightarrow> nat \<Rightarrow> mx_split \<Rightarrow> (nat \<times> mx_split) option" where
  "mx_peel second cur = (\<lambda>(graph_in, graph_1, graph_2). do {
     new_node \<leftarrow> mx_get_neighbor graph_in cur;
     if \<not> second then do {
       graph_1 \<leftarrow> mx_add_edge graph_1 cur new_node;
       graph_in \<leftarrow> mx_remove_edge graph_in cur new_node;
       Some (new_node, graph_in, graph_1, graph_2) }
     else do {
       graph_2 \<leftarrow> mx_add_edge graph_2 new_node cur;
       graph_in \<leftarrow> mx_remove_edge graph_in new_node cur;
       Some (new_node, graph_in, graph_1, graph_2) } })"

partial_function (option) mx_split_loop :: "nat \<Rightarrow> nat \<Rightarrow> mx_split \<Rightarrow> mx_split option" where
  "mx_split_loop node cur_node s = do {
     d \<leftarrow> mx_get_degree (fst s) node;
     if d > 0 then do {
       (cur_node, s) \<leftarrow> mx_peel False cur_node s;
       (cur_node, s) \<leftarrow> mx_peel True cur_node s;
       mx_split_loop node cur_node s }
     else Some s }"

definition mx_split_graph :: "mx_split \<Rightarrow> mx_split option" where
  "mx_split_graph s = foldo (\<lambda>node s. mx_split_loop node node s) [0..<mg_n (fst s)] s"

subsection \<open>Consistent graphs\<close>

text \<open>The degrees are the sums of the rows and columns, and do not wrap.\<close>

definition mx_ok :: "nat \<Rightarrow> matrix_graph \<Rightarrow> bool" where
  "mx_ok n g \<longleftrightarrow> mg_n g = n
     \<and> (\<forall>u < n. unat (mg_degrees g u) = (\<Sum>j<n. unat (mg_edges g u j)))
     \<and> (\<forall>v < n. unat (mg_degrees g (n + v)) = (\<Sum>i<n. unat (mg_edges g i v)))"

lemma sum_bump:
  fixes f g :: "nat \<Rightarrow> nat"
  assumes "j < n" "\<And>i. i < n \<Longrightarrow> i \<noteq> j \<Longrightarrow> g i = f i"
  shows "(\<Sum>i<n. g i) + f j = (\<Sum>i<n. f i) + g j"
proof -
  have "(\<Sum>i<n. g i) = g j + (\<Sum>i \<in> {..<n} - {j}. g i)" "(\<Sum>i<n. f i) = f j + (\<Sum>i \<in> {..<n} - {j}. f i)"
    using assms(1) by (simp_all add: sum.remove)
  moreover have "(\<Sum>i \<in> {..<n} - {j}. g i) = (\<Sum>i \<in> {..<n} - {j}. f i)"
    using assms(2) by (intro sum.cong) auto
  ultimately show ?thesis
    by simp
qed

lemma entry_le:
  assumes "mx_ok n g" "u < n" "v < n"
  shows "unat (mg_edges g u v) \<le> unat (mg_degrees g u)" "unat (mg_edges g u v) \<le> unat (mg_degrees g (n + v))"
  using assms member_le_sum [of v "{..<n}" "\<lambda>j. unat (mg_edges g u j)"] member_le_sum [of u "{..<n}" "\<lambda>i. unat (mg_edges g i v)"]
  by (auto simp: mx_ok_def)

text \<open>Any update that moves the entry and the two degrees by the same amount keeps a graph consistent.\<close>

lemma mx_upd_ok:
  assumes ok: "mx_ok n g" and uv: "u < n" "v < n"
    and f: "unat (f (mg_edges g u v)) + a = unat (mg_edges g u v) + b"
      "unat (f (mg_degrees g u)) + a = unat (mg_degrees g u) + b"
      "unat (f (mg_degrees g (n + v))) + a = unat (mg_degrees g (n + v)) + b"
  shows "mx_ok n (mx_upd f u (n + v) g)"
proof -
  let ?g = "mx_upd f u (n + v) g"
  have n: "mg_n g = n"
    using ok by (simp add: mx_ok_def)
  have e: "mg_edges ?g i j = (if i = u \<and> j = v then f (mg_edges g u v) else mg_edges g i j)" for i j
    by (simp add: mx_upd_def n)
  have d: "mg_degrees ?g w = (if w = n + v then f (mg_degrees g (n + v)) else if w = u then f (mg_degrees g u) else mg_degrees g w)" for w
    using uv by (simp add: mx_upd_def)
  have "unat (mg_degrees ?g w) = (\<Sum>j<n. unat (mg_edges ?g w j))" if "w < n" for w
  proof (cases "w = u")
    case True
    have "(\<Sum>j<n. unat (mg_edges ?g u j)) + unat (mg_edges g u v) = (\<Sum>j<n. unat (mg_edges g u j)) + unat (mg_edges ?g u v)"
      using uv(2) by (intro sum_bump) (auto simp: e)
    moreover have "unat (mg_degrees g u) = (\<Sum>j<n. unat (mg_edges g u j))"
      using ok uv(1) by (simp add: mx_ok_def)
    ultimately have "(\<Sum>j<n. unat (mg_edges ?g u j)) + unat (mg_edges g u v) = unat (mg_degrees g u) + unat (f (mg_edges g u v))"
      by (simp add: e)
    moreover have "unat (mg_degrees ?g u) = unat (f (mg_degrees g u))"
      using uv by (simp add: d)
    ultimately show ?thesis
      using f(1,2) unfolding True by linarith
  next
    case False
    then show ?thesis
      using ok that by (auto simp: e d mx_ok_def)
  qed
  moreover have "unat (mg_degrees ?g (n + w)) = (\<Sum>i<n. unat (mg_edges ?g i w))" if "w < n" for w
  proof (cases "w = v")
    case True
    have "(\<Sum>i<n. unat (mg_edges ?g i v)) + unat (mg_edges g u v) = (\<Sum>i<n. unat (mg_edges g i v)) + unat (mg_edges ?g u v)"
      using uv(1) by (intro sum_bump) (auto simp: e)
    moreover have "unat (mg_degrees g (n + v)) = (\<Sum>i<n. unat (mg_edges g i v))"
      using ok uv(2) by (simp add: mx_ok_def)
    ultimately have "(\<Sum>i<n. unat (mg_edges ?g i v)) + unat (mg_edges g u v) = unat (mg_degrees g (n + v)) + unat (f (mg_edges g u v))"
      by (simp add: e)
    moreover have "unat (mg_degrees ?g (n + v)) = unat (f (mg_degrees g (n + v)))"
      by (simp add: d)
    ultimately show ?thesis
      using f(1,3) unfolding True by linarith
  next
    case False
    then show ?thesis
      using ok that uv(1) by (auto simp: e d mx_ok_def)
  qed
  ultimately show ?thesis
    by (simp add: mx_ok_def) (simp add: mx_upd_def n)
qed

lemma unat_u8_inc: "unat (x :: u8) < 255 \<Longrightarrow> unat (x + 1) = unat x + 1"
  by (simp add: unat_word_ariths)

lemma unat_u8_dec: "0 < unat (x :: u8) \<Longrightarrow> unat (x - 1) + 1 = unat x"
  by (cases "x = 0") (auto simp: unat_minus_one)

subsection \<open>Peeling off an edge\<close>

text \<open>
  Every edge of the input is in exactly one of the three graphs, so no count can wrap: \<^verbatim>\<open>M\<close> counts the
  edges of the input, \<^verbatim>\<open>D\<close> its degrees, \<^verbatim>\<open>C\<close> the degrees of the two outputs.
\<close>

definition mx_inv :: "nat \<Rightarrow> matrix_graph \<Rightarrow> (bool \<Rightarrow> nat \<Rightarrow> nat) \<Rightarrow> mx_split \<Rightarrow> bool" where
  "mx_inv n G C = (\<lambda>(g, g1, g2). mx_ok n g \<and> mx_ok n g1 \<and> mx_ok n g2
     \<and> (\<forall>i < n. \<forall>j < n. unat (mg_edges g i j) + unat (mg_edges g1 i j) + unat (mg_edges g2 i j) = unat (mg_edges G i j))
     \<and> (\<forall>w < 2 * n. unat (mg_degrees g w) + unat (mg_degrees g1 w) + unat (mg_degrees g2 w) = unat (mg_degrees G w)
          \<and> C False w = unat (mg_degrees g1 w) \<and> C True w = unat (mg_degrees g2 w)))"

lemma neighbor_left:
  assumes ok: "mx_ok n g" and u: "u < n" "0 < unat (mg_degrees g u)"
  shows "\<exists>v < n. mx_get_neighbor g u = Some (n + v) \<and> 0 < unat (mg_edges g u v)"
proof -
  have n: "mg_n g = n" and d: "0 < (\<Sum>j<n. unat (mg_edges g u j))"
    using ok u by (simp_all add: mx_ok_def)
  then obtain j where "j < n" "mg_edges g u j > 0"
    by (metis (no_types, lifting) finite_lessThan gr_zeroI lessThan_iff sum.neutral unat_eq_zero word_gt_0 less_irrefl)
  then obtain v where "find (\<lambda>i. mg_edges g u i > 0) [0..<n] = Some v"
    by (cases "find (\<lambda>i. mg_edges g u i > 0) [0..<n]") (auto simp: find_None_iff)
  moreover from this have "v < n" "mg_edges g u v > 0"
    by (auto simp: find_Some_iff)
  ultimately show ?thesis
    using u(1) by (auto simp: mx_get_neighbor_def guard_o_def n unat_gt_0 word_gt_0)
qed

lemma neighbor_right:
  assumes ok: "mx_ok n g" and v: "v < n" "0 < unat (mg_degrees g (n + v))"
  shows "\<exists>u < n. mx_get_neighbor g (n + v) = Some u \<and> 0 < unat (mg_edges g u v)"
proof -
  have n: "mg_n g = n" and d: "0 < (\<Sum>i<n. unat (mg_edges g i v))"
    using ok v by (simp_all add: mx_ok_def)
  then obtain i where "i < n" "mg_edges g i v > 0"
    by (metis (no_types, lifting) finite_lessThan gr_zeroI lessThan_iff sum.neutral unat_eq_zero word_gt_0 less_irrefl)
  then obtain u where "find (\<lambda>i. mg_edges g i v > 0) [0..<n] = Some u"
    by (cases "find (\<lambda>i. mg_edges g i v > 0) [0..<n]") (auto simp: find_None_iff)
  moreover from this have "u < n" "mg_edges g u v > 0"
    by (auto simp: find_Some_iff)
  ultimately show ?thesis
    using v(1) by (auto simp: mx_get_neighbor_def guard_o_def n unat_gt_0 word_gt_0)
qed

lemma mx_move_edge:
  assumes a: "mx_ok n g" "mx_ok n h" and uv: "u < n" "v < n" "0 < unat (mg_edges g u v)"
    and room: "unat (mg_degrees g u) + unat (mg_degrees h u) < 256" "unat (mg_degrees g (n + v)) + unat (mg_degrees h (n + v)) < 256"
  shows "\<exists>g' h'. mx_remove_edge g u (n + v) = Some g' \<and> mx_add_edge h u (n + v) = Some h' \<and> mx_ok n g' \<and> mx_ok n h'
    \<and> (\<forall>i < n. \<forall>j < n. unat (mg_edges g' i j) + unat (mg_edges h' i j) = unat (mg_edges g i j) + unat (mg_edges h i j))
    \<and> (\<forall>w < 2 * n. unat (mg_degrees g' w) = (if w = u \<or> w = n + v then unat (mg_degrees g w) - 1 else unat (mg_degrees g w))
         \<and> unat (mg_degrees h' w) = (if w = u \<or> w = n + v then Suc (unat (mg_degrees h w)) else unat (mg_degrees h w)))"
proof -
  have n: "mg_n g = n" "mg_n h = n"
    using a by (simp_all add: mx_ok_def)
  have pos: "0 < unat (mg_degrees g u)" "0 < unat (mg_degrees g (n + v))"
    using entry_le [OF a(1) uv(1,2)] uv(3) by simp_all
  have lt: "unat (mg_edges h u v) < 255" "unat (mg_degrees h u) < 255" "unat (mg_degrees h (n + v)) < 255"
    using entry_le [OF a(2) uv(1,2)] pos room by simp_all
  note dec = unat_u8_dec [OF uv(3)] unat_u8_dec [OF pos(1)] unat_u8_dec [OF pos(2)]
  note inc = unat_u8_inc [OF lt(1)] unat_u8_inc [OF lt(2)] unat_u8_inc [OF lt(3)]
  let ?g = "mx_upd (\<lambda>x. x - 1) u (n + v) g" and ?h = "mx_upd (\<lambda>x. x + 1) u (n + v) h"
  have "mx_ok n ?g"
    by (rule mx_upd_ok [OF a(1) uv(1,2), where a = 1 and b = 0]) (use dec in simp_all)
  moreover have "mx_ok n ?h"
    by (rule mx_upd_ok [OF a(2) uv(1,2), where a = 0 and b = 1]) (use inc in simp_all)
  moreover have "mx_remove_edge g u (n + v) = Some ?g" "mx_add_edge h u (n + v) = Some ?h"
    using uv by (simp_all add: mx_remove_edge_def mx_add_edge_def guard_o_def n unat_gt_0 word_gt_0)
  moreover have "unat (mg_edges ?g i j) + unat (mg_edges ?h i j) = unat (mg_edges g i j) + unat (mg_edges h i j)" for i j
    using dec(1) inc(1) by (simp add: mx_upd_def n)
  moreover have "unat (mg_degrees ?g w) = (if w = u \<or> w = n + v then unat (mg_degrees g w) - 1 else unat (mg_degrees g w))
         \<and> unat (mg_degrees ?h w) = (if w = u \<or> w = n + v then Suc (unat (mg_degrees h w)) else unat (mg_degrees h w))" for w
    using dec(2,3) inc(2,3) uv(1) by (auto simp: mx_upd_def)
  ultimately show ?thesis
    by blast
qed

lemma mx_peel_left:
  assumes inv: "mx_inv n G C s" and u: "u < n" "0 < unat (mg_degrees (fst s) u)"
  shows "wp (mx_peel False u s) (\<lambda>(v, s'). n \<le> v \<and> v < 2 * n
    \<and> peeled n (\<lambda>w. unat (mg_degrees (fst s) w)) (\<lambda>w. unat (mg_degrees (fst s') w)) u v \<and> mx_inv n G (bump C False u v) s')"
proof -
  obtain g g1 g2 where s: "s = (g, g1, g2)" by (cases s)
  have ok: "mx_ok n g" "mx_ok n g1" "mx_ok n g2"
    and e: "\<And>i j. i < n \<Longrightarrow> j < n \<Longrightarrow> unat (mg_edges g i j) + unat (mg_edges g1 i j) + unat (mg_edges g2 i j) = unat (mg_edges G i j)"
    and d: "\<And>w. w < 2 * n \<Longrightarrow> unat (mg_degrees g w) + unat (mg_degrees g1 w) + unat (mg_degrees g2 w) = unat (mg_degrees G w)
        \<and> C False w = unat (mg_degrees g1 w) \<and> C True w = unat (mg_degrees g2 w)"
    using inv by (simp_all add: s mx_inv_def)
  obtain v where v: "v < n" "mx_get_neighbor g u = Some (n + v)" "0 < unat (mg_edges g u v)"
    using neighbor_left [OF ok(1) u(1)] u(2) by (auto simp: s)
  have "unat (mg_degrees g w) + unat (mg_degrees g1 w) < 256" if "w < 2 * n" for w
    using d [OF that] unat_u8_lt [of "mg_degrees G w"] by linarith
  then obtain g' h' where m: "mx_remove_edge g u (n + v) = Some g'" "mx_add_edge g1 u (n + v) = Some h'" "mx_ok n g'" "mx_ok n h'"
      "\<And>i j. i < n \<Longrightarrow> j < n \<Longrightarrow> unat (mg_edges g' i j) + unat (mg_edges h' i j) = unat (mg_edges g i j) + unat (mg_edges g1 i j)"
      "\<And>w. w < 2 * n \<Longrightarrow> unat (mg_degrees g' w) = (if w = u \<or> w = n + v then unat (mg_degrees g w) - 1 else unat (mg_degrees g w))
         \<and> unat (mg_degrees h' w) = (if w = u \<or> w = n + v then Suc (unat (mg_degrees g1 w)) else unat (mg_degrees g1 w))"
    using mx_move_edge [OF ok(1,2) u(1) v(1,3)] u(1) v(1) by force
  have pos: "0 < unat (mg_degrees g u)" "0 < unat (mg_degrees g (n + v))"
    using entry_le [OF ok(1) u(1) v(1)] v(3) by simp_all
  have "peeled n (\<lambda>w. unat (mg_degrees g w)) (\<lambda>w. unat (mg_degrees g' w)) u (n + v)"
    using m(6) pos by (simp add: peeled_def)
  moreover have "mx_inv n G (bump C False u (n + v)) (g', h', g2)"
    using m(3,4,5) ok(3) e
  proof (simp add: mx_inv_def, intro allI impI)
    fix w assume w: "w < 2 * n"
    show "unat (mg_degrees g' w) + unat (mg_degrees h' w) + unat (mg_degrees g2 w) = unat (mg_degrees G w)
        \<and> bump C False u (n + v) False w = unat (mg_degrees h' w) \<and> bump C False u (n + v) True w = unat (mg_degrees g2 w)"
      using d [OF w] m(6) [OF w] pos by (auto simp: bump_def)
  qed
  ultimately show ?thesis
    using v(1) by (simp add: s mx_peel_def v(2) m(1,2))
qed

lemma mx_peel_right:
  assumes inv: "mx_inv n G C s" and u: "n \<le> u" "u < 2 * n" "0 < unat (mg_degrees (fst s) u)"
  shows "wp (mx_peel True u s) (\<lambda>(v, s'). v < n
    \<and> peeled n (\<lambda>w. unat (mg_degrees (fst s) w)) (\<lambda>w. unat (mg_degrees (fst s') w)) u v \<and> mx_inv n G (bump C True u v) s')"
proof -
  obtain g g1 g2 where s: "s = (g, g1, g2)" by (cases s)
  define v where "v = u - n"
  have v: "v < n" "u = n + v"
    using u by (auto simp: v_def)
  have ok: "mx_ok n g" "mx_ok n g1" "mx_ok n g2"
    and e: "\<And>i j. i < n \<Longrightarrow> j < n \<Longrightarrow> unat (mg_edges g i j) + unat (mg_edges g1 i j) + unat (mg_edges g2 i j) = unat (mg_edges G i j)"
    and d: "\<And>w. w < 2 * n \<Longrightarrow> unat (mg_degrees g w) + unat (mg_degrees g1 w) + unat (mg_degrees g2 w) = unat (mg_degrees G w)
        \<and> C False w = unat (mg_degrees g1 w) \<and> C True w = unat (mg_degrees g2 w)"
    using inv by (simp_all add: s mx_inv_def)
  obtain x where x: "x < n" "mx_get_neighbor g (n + v) = Some x" "0 < unat (mg_edges g x v)"
    using neighbor_right [OF ok(1) v(1)] u(3) by (auto simp: s v(2))
  have "unat (mg_degrees g w) + unat (mg_degrees g2 w) < 256" if "w < 2 * n" for w
    using d [OF that] unat_u8_lt [of "mg_degrees G w"] by linarith
  then obtain g' h' where m: "mx_remove_edge g x (n + v) = Some g'" "mx_add_edge g2 x (n + v) = Some h'" "mx_ok n g'" "mx_ok n h'"
      "\<And>i j. i < n \<Longrightarrow> j < n \<Longrightarrow> unat (mg_edges g' i j) + unat (mg_edges h' i j) = unat (mg_edges g i j) + unat (mg_edges g2 i j)"
      "\<And>w. w < 2 * n \<Longrightarrow> unat (mg_degrees g' w) = (if w = x \<or> w = n + v then unat (mg_degrees g w) - 1 else unat (mg_degrees g w))
         \<and> unat (mg_degrees h' w) = (if w = x \<or> w = n + v then Suc (unat (mg_degrees g2 w)) else unat (mg_degrees g2 w))"
    using mx_move_edge [OF ok(1,3) x(1) v(1) x(3)] x(1) v(1) by force
  have pos: "0 < unat (mg_degrees g x)" "0 < unat (mg_degrees g (n + v))"
    using entry_le [OF ok(1) x(1) v(1)] x(3) by simp_all
  have "peeled n (\<lambda>w. unat (mg_degrees g w)) (\<lambda>w. unat (mg_degrees g' w)) (n + v) x"
    using m(6) pos by (auto simp: peeled_def)
  moreover have "mx_inv n G (bump C True (n + v) x) (g', g1, h')"
    using m(3,4) ok(2)
  proof (simp add: mx_inv_def, intro conjI allI impI)
    fix i j assume ij: "i < n" "j < n"
    show "unat (mg_edges g' i j) + unat (mg_edges g1 i j) + unat (mg_edges h' i j) = unat (mg_edges G i j)"
      using m(5) [OF ij] e [OF ij] by linarith
  next
    fix w assume w: "w < 2 * n"
    show "unat (mg_degrees g' w) + unat (mg_degrees g1 w) + unat (mg_degrees h' w) = unat (mg_degrees G w)"
        "bump C True (n + v) x False w = unat (mg_degrees g1 w)" "bump C True (n + v) x True w = unat (mg_degrees h' w)"
      using d [OF w] m(6) [OF w] pos by (auto simp: bump_def)
  qed
  ultimately show ?thesis
    using x(1) by (simp add: s mx_peel_def v(2) x(2) m(1,2))
qed

lemma mx_loop_unfold:
  assumes "mx_inv n G C s" "node < n"
  shows "mx_split_loop node cur s = (if unat (mg_degrees (fst s) node) = 0 then Some s
    else do { (v, s) \<leftarrow> mx_peel False cur s; (w, s) \<leftarrow> mx_peel True v s; mx_split_loop node w s })"
proof -
  have "mx_get_degree (fst s) node = Some (mg_degrees (fst s) node)"
    using assms by (cases s) (simp add: mx_inv_def mx_ok_def mx_get_degree_def guard_o_def)
  then show ?thesis
    by (subst mx_split_loop.simps) (simp add: unat_eq_zero word_gt_0)
qed

lemma mx_no_left:
  assumes inv: "mx_inv n G C s" and z: "\<forall>u < n. unat (mg_degrees (fst s) u) = 0" and v: "v < 2 * n"
  shows "unat (mg_degrees (fst s) v) = 0"
proof (cases "v < n")
  case False
  then obtain w where w: "v = n + w" "w < n"
    using v by (metis add_diff_inverse_nat less_diff_conv2 mult_2 not_less)
  obtain g where g: "mx_ok n g" "fst s = g"
    using inv by (cases s) (auto simp: mx_inv_def)
  have "unat (mg_edges g i w) = 0" if "i < n" for i
    using entry_le(1) [OF g(1) that w(2)] z that g(2) by simp
  then show ?thesis
    using g w by (simp add: mx_ok_def)
qed (use z in simp)

interpretation mx: euler_walk n "\<lambda>s w. unat (mg_degrees (fst s) w)" mx_peel mx_split_loop "mx_inv n G"
  for n :: nat and G :: matrix_graph
  by unfold_locales (rule mx_loop_unfold mx_peel_left mx_peel_right mx_no_left; assumption)+

subsection \<open>The split\<close>

lemma mx_init_ok:
  assumes "n \<le> 40"
  shows "\<exists>g. mx_graph_init g0 n = Some g \<and> mx_ok n g \<and> (\<forall>i < n. \<forall>j < n. mg_edges g i j = 0) \<and> (\<forall>w < 2 * n. mg_degrees g w = 0)"
  using assms by (simp add: mx_graph_init_def guard_o_def MATRIX_NODES_def mx_ok_def)

text \<open>Copies are equal to the original, and the perfect matchings are the consistent graphs of degree one.\<close>

lemma mx_copy_equal:
  assumes "mx_ok n g" "n \<le> 40"
  shows "\<exists>h. mx_copy_graph g h0 = Some h \<and> mx_are_equal g h \<and> mx_ok n h"
proof -
  have n: "mg_n g = n"
    using assms(1) by (simp add: mx_ok_def)
  then show ?thesis
    using assms by (simp add: mx_copy_graph_def mx_graph_init_def mx_add_graph_def guard_o_def MATRIX_NODES_def mx_are_equal_def mx_ok_def)
qed

lemma sum_list_u8:
  assumes "(\<Sum>j<n. unat (f j :: u8)) < 256"
  shows "unat (sum_list (map f [0..<n])) = (\<Sum>j<n. unat (f j))"
  using assms
proof (induction n)
  case (Suc n)
  then show ?case
    by (simp add: unat_word_ariths)
qed simp

lemma mx_perfect_iff:
  assumes "mx_ok n g"
  shows "mx_is_perfect_matching g \<longleftrightarrow> (\<forall>w < 2 * n. mg_degrees g w = 1)"
proof -
  have n: "mg_n g = n"
    using assms by (simp add: mx_ok_def)
  have one: "x = 1 \<longleftrightarrow> unat x = 1" for x :: u8
    by (simp add: word_unat_eq_iff)
  have row: "sum_list (map (\<lambda>j. mg_edges g i j) [0..<n]) = 1 \<longleftrightarrow> mg_degrees g i = 1" if "i < n" for i
    using assms that sum_list_u8 [where f = "mg_edges g i" and n = n] unat_u8_lt [of "mg_degrees g i"] unfolding one mx_ok_def by auto
  have col: "sum_list (map (\<lambda>j. mg_edges g j i) [0..<n]) = 1 \<longleftrightarrow> mg_degrees g (n + i) = 1" if "i < n" for i
    using assms that sum_list_u8 [where f = "\<lambda>j. mg_edges g j i" and n = n] unat_u8_lt [of "mg_degrees g (n + i)"] unfolding one mx_ok_def by auto
  have "(\<forall>w < 2 * n. P w) \<longleftrightarrow> (\<forall>i < n. P i) \<and> (\<forall>i < n. P (n + i))" for P
  proof -
    have "P w" if "\<forall>i < n. P i" "\<forall>i < n. P (n + i)" "w < 2 * n" for w
      using that by (cases "w < n") (auto dest: spec [of _ "w - n"])
    then show ?thesis
      by auto
  qed
  then show ?thesis
    using row col by (auto simp: mx_is_perfect_matching_def n)
qed

lemma mx_split_ok:
  assumes ok: "mx_ok n G" "mx_ok n b1" "mx_ok n b2" and z: "\<forall>i < n. \<forall>j < n. mg_edges b1 i j = 0 \<and> mg_edges b2 i j = 0"
    "\<forall>w < 2 * n. mg_degrees b1 w = 0 \<and> mg_degrees b2 w = 0" and ev: "\<forall>w < 2 * n. even (unat (mg_degrees G w))"
  shows "\<exists>G' g1 g2. mx_split_graph (G, b1, b2) = Some (G', g1, g2) \<and> mx_ok n g1 \<and> mx_ok n g2
    \<and> (\<forall>w < 2 * n. mg_degrees G' w = 0 \<and> 2 * unat (mg_degrees g1 w) = unat (mg_degrees G w) \<and> 2 * unat (mg_degrees g2 w) = unat (mg_degrees G w))
    \<and> (\<forall>i < n. \<forall>j < n. unat (mg_edges g1 i j) + unat (mg_edges g2 i j) = unat (mg_edges G i j))"
proof -
  have "mx_inv n G (\<lambda>_ _. 0) (G, b1, b2)"
    using ok z by (simp add: mx_inv_def)
  from wpD [OF mx.euler_split [OF this]] ev obtain G' g1 g2 C where
    r: "foldo (\<lambda>node s. mx_split_loop node node s) [0..<n] (G, b1, b2) = Some (G', g1, g2)" "mx_inv n G C (G', g1, g2)"
      "\<And>w. w < 2 * n \<Longrightarrow> unat (mg_degrees G' w) = 0 \<and> 2 * C False w = unat (mg_degrees G w) \<and> 2 * C True w = unat (mg_degrees G w)"
    by auto
  have ok': "mx_ok n G'" and e: "\<And>i j. i < n \<Longrightarrow> j < n \<Longrightarrow>
      unat (mg_edges G' i j) + unat (mg_edges g1 i j) + unat (mg_edges g2 i j) = unat (mg_edges G i j)"
    using r(2) by (simp_all add: mx_inv_def)
  have "unat (mg_edges g1 i j) + unat (mg_edges g2 i j) = unat (mg_edges G i j)" if "i < n" "j < n" for i j
    using entry_le(1) [OF ok' that] r(3) [of i] that e [OF that] by linarith
  moreover have "mg_degrees G' w = 0 \<and> 2 * unat (mg_degrees g1 w) = unat (mg_degrees G w) \<and> 2 * unat (mg_degrees g2 w) = unat (mg_degrees G w)"
    if "w < 2 * n" for w
    using r(2,3) that by (simp add: mx_inv_def unat_eq_zero)
  moreover have "mg_n G = n"
    using ok(1) by (simp add: mx_ok_def)
  ultimately show ?thesis
    using r(1,2) by (simp add: mx_split_graph_def mx_inv_def)
qed

text \<open>
  C18. The Euler split over matrices: on every consistent graph of at most 40 vertices on each side with
  even degrees, with freshly initialised outputs, the split ends without a failed assertion, no
  8-bit count wraps, every vertex gets exactly half of its edges in each output, and the two outputs
  together have exactly the edges of the input between any two vertices.
\<close>

theorem matrix_split_halves:
  assumes "mx_ok n G" and "n \<le> 40" and "\<forall>w < 2 * n. even (unat (mg_degrees G w))"
  shows "\<exists>b1 b2 G' g1 g2. mx_graph_init x n = Some b1 \<and> mx_graph_init y n = Some b2
    \<and> mx_split_graph (G, b1, b2) = Some (G', g1, g2) \<and> mx_ok n g1 \<and> mx_ok n g2
    \<and> (\<forall>w < 2 * n. mg_degrees G' w = 0 \<and> 2 * unat (mg_degrees g1 w) = unat (mg_degrees G w) \<and> 2 * unat (mg_degrees g2 w) = unat (mg_degrees G w))
    \<and> (\<forall>i < n. \<forall>j < n. unat (mg_edges g1 i j) + unat (mg_edges g2 i j) = unat (mg_edges G i j))"
proof -
  obtain b1 b2 where b: "mx_graph_init x n = Some b1" "mx_ok n b1" "\<forall>i < n. \<forall>j < n. mg_edges b1 i j = 0" "\<forall>w < 2 * n. mg_degrees b1 w = 0"
      "mx_graph_init y n = Some b2" "mx_ok n b2" "\<forall>i < n. \<forall>j < n. mg_edges b2 i j = 0" "\<forall>w < 2 * n. mg_degrees b2 w = 0"
    using mx_init_ok [OF assms(2), of x] mx_init_ok [OF assms(2), of y] by blast
  show ?thesis
    using mx_split_ok [OF assms(1) b(2,6) _ _ assms(3)] b by blast
qed

definition demo_matrix :: matrix_graph where
  "demo_matrix = \<lparr> mg_n = 2, mg_edges = (\<lambda>i j. if i = j then 3 else 1), mg_degrees = (\<lambda>_. 4) \<rparr>"

theorem matrix_split_halves_witness:
  "\<exists>b1 b2 G' g1 g2. mx_graph_init demo_matrix 2 = Some b1 \<and> mx_graph_init demo_matrix 2 = Some b2
    \<and> mx_split_graph (demo_matrix, b1, b2) = Some (G', g1, g2) \<and> unat (mg_degrees g1 3) = 2
    \<and> unat (mg_edges g1 0 0) + unat (mg_edges g2 0 0) = 3"
proof -
  have "(\<Sum>j<2. f j) = f 0 + f 1" for f :: "nat \<Rightarrow> nat"
    by (simp add: numeral_2_eq_2)
  moreover have "u < 2 \<longleftrightarrow> u = 0 \<or> u = 1" for u :: nat
    by auto
  ultimately have "mx_ok 2 demo_matrix"
    by (auto simp: mx_ok_def demo_matrix_def)
  moreover have "\<forall>w < 2 * (2 :: nat). even (unat (mg_degrees demo_matrix w))"
    by (simp add: demo_matrix_def)
  ultimately obtain b1 b2 G' g1 g2 where r: "mx_graph_init demo_matrix 2 = Some b1" "mx_graph_init demo_matrix 2 = Some b2"
      "mx_split_graph (demo_matrix, b1, b2) = Some (G', g1, g2)"
      "\<forall>w < 2 * 2. 2 * unat (mg_degrees g1 w) = unat (mg_degrees demo_matrix w)"
      "\<forall>i < 2. \<forall>j < 2. unat (mg_edges g1 i j) + unat (mg_edges g2 i j) = unat (mg_edges demo_matrix i j)"
    using matrix_split_halves [of 2 demo_matrix demo_matrix demo_matrix] by auto
  then have "unat (mg_degrees g1 3) = 2" "unat (mg_edges g1 0 0) + unat (mg_edges g2 0 0) = 3"
    by (simp_all add: demo_matrix_def)
  then show ?thesis
    using r(1-3) by blast
qed

end
