(* ===== verification/FP_Sjf.thy ===== *)
theory FP_Sjf
  imports FP_Ring FP_Platform
begin

unbundle bit_operations_syntax

text \<open>
  The shortest-job-first allocator, stand-alone build:
  \<^verbatim>\<open>src/src/graph-algo/admissible_structures_sjf.h\<close>, \<^verbatim>\<open>admissible_traffic_sjf.h\<close> and
  \<^verbatim>\<open>admissible_traffic_sjf.c\<close>, with the atomic counters of \<^verbatim>\<open>atomic.h\<close>. Names that the pipelined allocator uses too carry the
  prefix \<^verbatim>\<open>sjf\<close>.

  The two rings a core reads from and the two it writes to may be the same ring (the benchmark
  closes the circle with one core), so rings live in a store and a core names them by index; the
  admitted-traffic structures stay reachable from the core after their pointer was enqueued, so
  they live in a store too. A bin has one owner at a time and is passed by value; a NULL bin is
  \<^term>\<open>None\<close>. Arrays are functions from indices.

  The other cores act while this one runs. A \<^emph>\<open>script\<close> says what they do: its entries are taken
  one by one, each just before one look at the request queues, and hold the requests that the
  communication core adds (\<^verbatim>\<open>add_backlog\<close>) and the bins that the previous core passes on. A
  waiting loop that finds the script at its end with nothing to do waits for ever and has the
  value \<^term>\<open>None\<close>, as has a failed assertion. In the stand-alone build a ring that is full stops
  the run at an assertion, so the loops on \<^verbatim>\<open>-ENOBUFS\<close> run once, and the clock does not move.
\<close>

subsection \<open>Definitions: constants\<close>

definition SJF_BATCH_SIZE :: nat where "SJF_BATCH_SIZE = 64"
definition SJF_BATCH_SHIFT :: nat where "SJF_BATCH_SHIFT = 6"
definition NONE_AVAILABLE :: nat where "NONE_AVAILABLE = 251"
definition SJF_NUM_BINS :: nat where "SJF_NUM_BINS = 256"
definition SJF_BURST_SIZE :: nat where "SJF_BURST_SIZE = 256"
definition SJF_NUM_SRC_DST_PAIRS :: nat where "SJF_NUM_SRC_DST_PAIRS = MAX_NODES * MAX_NODES"
definition URGENT_Q_HEAD_TOKEN :: u64 where "URGENT_Q_HEAD_TOKEN = NOT 0"
definition sjf_get_time_ns :: u64 where "sjf_get_time_ns = push_bit 40 1"

subsection \<open>Definitions: data\<close>

record sjf_edge =
  je_src :: u16
  je_dst :: u16

record sjf_admitted =
  ja_size :: u16
  ja_edges :: "nat \<Rightarrow> sjf_edge"

record sjf_bin =
  jn_head :: u16
  jn_tail :: u16
  jn_edges :: "nat \<Rightarrow> sjf_edge"

record sjf_batch_state =
  jb_oversubscribed :: bool
  jb_inter_rack_capacity :: u16
  jb_out_of_boundary_capacity :: u16
  jb_allowed_mask :: u64
  jb_src_endnodes :: "nat \<Rightarrow> u64"
  jb_dst_endnodes :: "nat \<Rightarrow> u64"
  jb_src_rack_bitmaps :: "nat \<Rightarrow> u64"
  jb_dst_rack_bitmaps :: "nat \<Rightarrow> u64"
  jb_src_rack_counts :: "nat \<Rightarrow> u16"
  jb_dst_rack_counts :: "nat \<Rightarrow> u16"
  jb_out_of_boundary_counts :: "nat \<Rightarrow> u16"

record sjf_core =
  jc_new_request_bins :: "sjf_bin list"
  jc_outgoing_bins :: "sjf_bin option list"
  jc_temporary_bins :: "sjf_bin option list"
  jc_batch_state :: sjf_batch_state
  jc_admitted :: "nat list"
  jc_is_head :: u8
  jc_q_bin_in :: nat
  jc_q_bin_out :: nat
  jc_q_urgent_in :: nat
  jc_q_urgent_out :: nat

record sjf_statistics =
  jw_space_in_q_head :: u64
  jw_space_in_q_urgent :: u64
  jw_space_in_q_admitted_out :: u64
  jw_space_in_q_bin_out :: u64
  jw_waiting_to_pass_token :: u64
  jw_pacing_wait :: u64
  jw_wait_for_q_bin_in :: u64

record sjf_status =
  js_current_timeslot :: u64
  js_oversubscribed :: bool
  js_out_of_boundary_capacity :: u16
  js_inter_rack_capacity :: u16
  js_num_nodes :: u16
  js_last_alloc_tslot :: "nat \<Rightarrow> u64"
  js_flows :: "nat \<Rightarrow> u32"
  js_q_head :: "u64 fp_ring"
  js_q_admitted_out :: "nat fp_ring"
  js_stat :: sjf_statistics

text \<open>The system: one core, the global status, and the stores of what they point to.\<close>

record sjf =
  j_core :: sjf_core
  j_status :: sjf_status
  j_bin_rings :: "sjf_bin fp_ring list"
  j_urgent_rings :: "u64 fp_ring list"
  j_admitted :: "sjf_admitted list"

abbreviation j_batch :: "sjf \<Rightarrow> sjf_batch_state" where
  "j_batch s \<equiv> jc_batch_state (j_core s)"

definition upd_core :: "(sjf_core \<Rightarrow> sjf_core) \<Rightarrow> sjf \<Rightarrow> sjf" where
  "upd_core f s = s\<lparr> j_core := f (j_core s) \<rparr>"

definition upd_status :: "(sjf_status \<Rightarrow> sjf_status) \<Rightarrow> sjf \<Rightarrow> sjf" where
  "upd_status f s = s\<lparr> j_status := f (j_status s) \<rparr>"

definition upd_stat :: "(sjf_statistics \<Rightarrow> sjf_statistics) \<Rightarrow> sjf \<Rightarrow> sjf" where
  "upd_stat f = upd_status (\<lambda>st. st\<lparr> js_stat := f (js_stat st) \<rparr>)"

subsection \<open>Definitions: admitted traffic and bins\<close>

definition sjf_init_admitted_traffic :: "sjf_admitted \<Rightarrow> sjf_admitted" where
  "sjf_init_admitted_traffic admitted = admitted\<lparr> ja_size := 0 \<rparr>"

definition sjf_insert_admitted_edge :: "sjf_admitted \<Rightarrow> u16 \<Rightarrow> u16 \<Rightarrow> sjf_admitted option" where
  "sjf_insert_admitted_edge admitted src dst = do {
     guard_o (unat (ja_size admitted) < MAX_NODES);
     guard_o (unat src < MAX_NODES);
     guard_o (unat dst < MAX_NODES);
     Some (admitted\<lparr> ja_size := ja_size admitted + 1,
                     ja_edges := (ja_edges admitted)(unat (ja_size admitted) := \<lparr> je_src = src, je_dst = dst \<rparr>) \<rparr>) }"

definition sjf_get_admitted_edge :: "sjf_admitted \<Rightarrow> u16 \<Rightarrow> sjf_edge option" where
  "sjf_get_admitted_edge admitted index = do {
     guard_o (index \<le> ja_size admitted);
     guard_o (unat index < MAX_NODES);
     Some (ja_edges admitted (unat index)) }"

definition sjf_init_bin :: "sjf_bin \<Rightarrow> sjf_bin" where
  "sjf_init_bin bin = bin\<lparr> jn_head := 0, jn_tail := 0 \<rparr>"

definition sjf_is_empty_bin :: "sjf_bin \<Rightarrow> bool" where
  "sjf_is_empty_bin bin = (jn_head bin = jn_tail bin)"

text \<open>A bin has \<^verbatim>\<open>MAX_NODES * MAX_NODES\<close> entries, so that a 16-bit index is always inside.\<close>

definition sjf_enqueue_bin :: "sjf_bin \<Rightarrow> u16 \<Rightarrow> u16 \<Rightarrow> sjf_bin" where
  "sjf_enqueue_bin bin src dst =
     bin\<lparr> jn_edges := (jn_edges bin)(unat (jn_tail bin) := \<lparr> je_src = src, je_dst = dst \<rparr>),
          jn_tail := jn_tail bin + 1 \<rparr>"

definition sjf_peek_head_bin :: "sjf_bin \<Rightarrow> sjf_edge" where
  "sjf_peek_head_bin bin = jn_edges bin (unat (jn_head bin))"

definition sjf_dequeue_bin :: "sjf_bin \<Rightarrow> sjf_bin option" where
  "sjf_dequeue_bin bin = do {
     guard_o (\<not> sjf_is_empty_bin bin);
     Some (bin\<lparr> jn_head := jn_head bin + 1 \<rparr>) }"

subsection \<open>Definitions: the occupancy of a batch\<close>

definition sjf_rack :: "u16 \<Rightarrow> nat" where
  "sjf_rack i = unat (drop_bit TOR_SHIFT i)"

definition fill_upto :: "nat \<Rightarrow> 'a \<Rightarrow> (nat \<Rightarrow> 'a) \<Rightarrow> nat \<Rightarrow> 'a" where
  "fill_upto n x a = (\<lambda>i. if i < n then x else a i)"

definition sjf_init_batch_state :: "sjf_batch_state \<Rightarrow> bool \<Rightarrow> u16 \<Rightarrow> u16 \<Rightarrow> u16 \<Rightarrow> sjf_batch_state option" where
  "sjf_init_batch_state state over inter_rack out_of_boundary num_nodes = do {
     guard_o (unat num_nodes \<le> MAX_NODES);
     let n = unat num_nodes;
     let state = state\<lparr> jb_oversubscribed := over, jb_inter_rack_capacity := inter_rack,
       jb_out_of_boundary_capacity := out_of_boundary, jb_allowed_mask := NOT 0,
       jb_src_endnodes := fill_upto n (NOT 0) (jb_src_endnodes state),
       jb_dst_endnodes := (fill_upto n (NOT 0) (jb_dst_endnodes state))(OUT_OF_BOUNDARY_NODE_ID := NOT 0) \<rparr>;
     let state = (if over then state\<lparr>
         jb_src_rack_bitmaps := fill_upto n (NOT 0) (jb_src_rack_bitmaps state),
         jb_dst_rack_bitmaps := fill_upto n (NOT 0) (jb_dst_rack_bitmaps state),
         jb_src_rack_counts := fill_upto (MAX_RACKS * SJF_BATCH_SIZE) 0 (jb_src_rack_counts state),
         jb_dst_rack_counts := fill_upto (MAX_RACKS * SJF_BATCH_SIZE) 0 (jb_dst_rack_counts state) \<rparr>
       else state);
     Some (state\<lparr> jb_out_of_boundary_counts := fill_upto SJF_BATCH_SIZE 0 (jb_out_of_boundary_counts state) \<rparr>) }"

definition sjf_avail :: "sjf_batch_state \<Rightarrow> u16 \<Rightarrow> u16 \<Rightarrow> u64" where
  "sjf_avail state src dst = (
     let endnode_bitmap = jb_allowed_mask state AND jb_src_endnodes state (unat src)
           AND jb_dst_endnodes state (unat dst)
     in if jb_oversubscribed state
        then let rack_bitmap =
               (if unat dst = OUT_OF_BOUNDARY_NODE_ID then jb_src_rack_bitmaps state (sjf_rack src)
                else jb_src_rack_bitmaps state (sjf_rack src) AND jb_dst_rack_bitmaps state (sjf_rack dst))
             in endnode_bitmap AND rack_bitmap
        else endnode_bitmap)"

definition sjf_get_first_timeslot :: "sjf_batch_state \<Rightarrow> u16 \<Rightarrow> u16 \<Rightarrow> nat option" where
  "sjf_get_first_timeslot state src dst = do {
     guard_o (unat src < MAX_NODES);
     guard_o (unat dst < MAX_NODES);
     let bitmap = sjf_avail state src dst;
     if bitmap = 0 then Some NONE_AVAILABLE else Some (lsb_of bitmap) }"

text \<open>
  \<^verbatim>\<open>clear_slot\<close> is \<^verbatim>\<open>x & ~(0x1ULL << timeslot)\<close>. A counter that reaches its capacity closes the
  timeslot in the bitmap beside it.
\<close>

definition clear_slot :: "nat \<Rightarrow> u64 \<Rightarrow> u64" where
  "clear_slot timeslot x = x AND NOT (push_bit timeslot 1)"

definition sjf_occupy_dst :: "u16 \<Rightarrow> nat \<Rightarrow> sjf_batch_state \<Rightarrow> sjf_batch_state" where
  "sjf_occupy_dst dst timeslot state = (
     let d = unat dst;
         closed = state\<lparr> jb_dst_endnodes := (jb_dst_endnodes state)(d := clear_slot timeslot (jb_dst_endnodes state d)) \<rparr>
     in if d = OUT_OF_BOUNDARY_NODE_ID
        then let c = jb_out_of_boundary_counts state timeslot + 1
             in (if c = jb_out_of_boundary_capacity state then closed else state)
                  \<lparr> jb_out_of_boundary_counts := (jb_out_of_boundary_counts state)(timeslot := c) \<rparr>
        else closed)"

definition sjf_occupy_racks :: "u16 \<Rightarrow> u16 \<Rightarrow> nat \<Rightarrow> sjf_batch_state \<Rightarrow> sjf_batch_state" where
  "sjf_occupy_racks src dst timeslot state = (
     let r = sjf_rack src;
         c = jb_src_rack_counts state (SJF_BATCH_SIZE * r + timeslot) + 1;
         state = state\<lparr> jb_src_rack_counts := (jb_src_rack_counts state)(SJF_BATCH_SIZE * r + timeslot := c) \<rparr>;
         state = (if c = jb_inter_rack_capacity state
                  then state\<lparr> jb_src_rack_bitmaps := (jb_src_rack_bitmaps state)
                         (r := clear_slot timeslot (jb_src_rack_bitmaps state r)) \<rparr>
                  else state)
     in if unat dst = OUT_OF_BOUNDARY_NODE_ID then state
        else let r = sjf_rack dst;
                 c = jb_dst_rack_counts state (SJF_BATCH_SIZE * r + timeslot) + 1;
                 state = state\<lparr> jb_dst_rack_counts := (jb_dst_rack_counts state)(SJF_BATCH_SIZE * r + timeslot := c) \<rparr>
             in if c = jb_inter_rack_capacity state
                then state\<lparr> jb_dst_rack_bitmaps := (jb_dst_rack_bitmaps state)
                       (r := clear_slot timeslot (jb_dst_rack_bitmaps state r)) \<rparr>
                else state)"

definition sjf_set_timeslot_occupied :: "sjf_batch_state \<Rightarrow> u16 \<Rightarrow> u16 \<Rightarrow> nat \<Rightarrow> sjf_batch_state option" where
  "sjf_set_timeslot_occupied state src dst timeslot = do {
     guard_o (unat src < MAX_NODES);
     guard_o (unat dst < MAX_NODES);
     guard_o (timeslot \<le> SJF_BATCH_SIZE);
     guard_o (timeslot < SJF_BATCH_SIZE);
     let state = state\<lparr> jb_src_endnodes := (jb_src_endnodes state)
           (unat src := clear_slot timeslot (jb_src_endnodes state (unat src))) \<rparr>;
     let state = sjf_occupy_dst dst timeslot state;
     Some (if jb_oversubscribed state then sjf_occupy_racks src dst timeslot state else state) }"

subsection \<open>Definitions: status and core\<close>

definition sjf_status_index :: "u16 \<Rightarrow> u16 \<Rightarrow> nat" where
  "sjf_status_index src dst = unat (push_bit FP_NODES_SHIFT (ucast src) + ucast dst :: u32)"

definition sjf_reset_admissible_status :: "sjf_status \<Rightarrow> bool \<Rightarrow> u16 \<Rightarrow> u16 \<Rightarrow> u16 \<Rightarrow> sjf_status" where
  "sjf_reset_admissible_status status over inter_rack out_of_boundary num_nodes =
     status\<lparr> js_current_timeslot := of_nat SJF_NUM_BINS, js_oversubscribed := over,
             js_inter_rack_capacity := inter_rack, js_out_of_boundary_capacity := out_of_boundary,
             js_num_nodes := num_nodes,
             js_last_alloc_tslot := fill_upto SJF_NUM_SRC_DST_PAIRS 0 (js_last_alloc_tslot status),
             js_flows := fill_upto SJF_NUM_SRC_DST_PAIRS 0 (js_flows status) \<rparr>"

text \<open>
  \<^verbatim>\<open>reset_flow\<close> reads the counter and then subtracts what it read plus one. An allocator that
  runs on another core may grant timeslots in between; \<^verbatim>\<open>granted\<close> is their number.
\<close>

definition sjf_reset_backlog :: "u32 \<Rightarrow> u32 \<Rightarrow> u32" where
  "sjf_reset_backlog granted backlog =
     (if backlog \<noteq> 0
      then if (backlog - granted) - (backlog + 1) = - (backlog + 1) then 0 else 1
      else backlog)"

definition sjf_reset_flow :: "u32 \<Rightarrow> u16 \<Rightarrow> u16 \<Rightarrow> sjf_status \<Rightarrow> sjf_status option" where
  "sjf_reset_flow granted src dst status = do {
     let i = sjf_status_index src dst;
     guard_o (i < SJF_NUM_SRC_DST_PAIRS);
     Some (status\<lparr> js_flows := (js_flows status)(i := sjf_reset_backlog granted (js_flows status i)) \<rparr>) }"

definition sjf_reset_sender :: "(nat \<Rightarrow> u32) \<Rightarrow> u16 \<Rightarrow> sjf_status \<Rightarrow> sjf_status option" where
  "sjf_reset_sender granted src status =
     foldo (\<lambda>dst. sjf_reset_flow (granted dst) src (of_nat dst)) [0..<MAX_NODES] status"

definition sjf_alloc_core_reset :: "nat list \<Rightarrow> sjf \<Rightarrow> sjf option" where
  "sjf_alloc_core_reset admitted s = do {
     let core = j_core s;
     guard_o (length (jc_new_request_bins core) = SJF_NUM_BINS);
     guard_o (length (jc_outgoing_bins core) = SJF_NUM_BINS \<and> None \<notin> set (jc_outgoing_bins core));
     state \<leftarrow> sjf_init_batch_state (jc_batch_state core) (js_oversubscribed (j_status s))
        (js_inter_rack_capacity (j_status s)) (js_out_of_boundary_capacity (j_status s))
        (js_num_nodes (j_status s));
     guard_o (length admitted = SJF_BATCH_SIZE);
     store \<leftarrow> foldo (\<lambda>p store. do {
         guard_o (p < length store);
         Some (store[p := sjf_init_admitted_traffic (store ! p)]) }) admitted (j_admitted s);
     Some (s\<lparr> j_admitted := store, j_core := core\<lparr>
         jc_new_request_bins := map sjf_init_bin (jc_new_request_bins core),
         jc_outgoing_bins := map (map_option sjf_init_bin) (jc_outgoing_bins core),
         jc_batch_state := state, jc_admitted := admitted, jc_is_head := 0 \<rparr> \<rparr>) }"

text \<open>
  The constructors call \<^verbatim>\<open>fp_malloc\<close>; the argument \<^verbatim>\<open>mem\<close> is what it returned, \<^term>\<open>None\<close> for
  NULL. \<^verbatim>\<open>alloc_core_init\<close> returns -1 (here \<^term>\<open>None\<close>) at the first failure.
\<close>

definition sjf_create_admitted_traffic :: "sjf_admitted option \<Rightarrow> sjf_admitted option" where
  "sjf_create_admitted_traffic mem = map_option sjf_init_admitted_traffic mem"

definition sjf_create_bin :: "sjf_bin option \<Rightarrow> sjf_bin option" where
  "sjf_create_bin mem = map_option sjf_init_bin mem"

definition sjf_alloc_core_init :: "sjf_core \<Rightarrow> (nat \<Rightarrow> sjf_bin option) \<Rightarrow> (nat \<Rightarrow> sjf_bin option)
    \<Rightarrow> nat \<Rightarrow> nat \<Rightarrow> nat \<Rightarrow> nat \<Rightarrow> sjf_core option" where
  "sjf_alloc_core_init core small large q_bin_in q_bin_out q_urgent_in q_urgent_out = do {
     let news = map (\<lambda>j. sjf_create_bin (small j)) [0..<SJF_NUM_BINS];
     let outs = map (\<lambda>j. sjf_create_bin (large j)) [0..<SJF_NUM_BINS];
     guard_o (None \<notin> set news \<and> None \<notin> set outs);
     Some (core\<lparr> jc_new_request_bins := map the news, jc_outgoing_bins := outs,
         jc_temporary_bins := replicate SJF_NUM_BINS None,
         jc_q_bin_in := q_bin_in, jc_q_bin_out := q_bin_out,
         jc_q_urgent_in := q_urgent_in, jc_q_urgent_out := q_urgent_out \<rparr>) }"

definition sjf_init_admissible_status :: "sjf_status \<Rightarrow> bool \<Rightarrow> u16 \<Rightarrow> u16 \<Rightarrow> u16 \<Rightarrow> u64 fp_ring
    \<Rightarrow> nat fp_ring \<Rightarrow> sjf_status" where
  "sjf_init_admissible_status status over inter_rack out_of_boundary num_nodes q_head q_admitted =
     (sjf_reset_admissible_status status over inter_rack out_of_boundary num_nodes)
       \<lparr> js_q_head := q_head, js_q_admitted_out := q_admitted \<rparr>"

definition sjf_create_admissible_status :: "sjf_status option \<Rightarrow> bool \<Rightarrow> u16 \<Rightarrow> u16 \<Rightarrow> u16 \<Rightarrow> u64 fp_ring
    \<Rightarrow> nat fp_ring \<Rightarrow> sjf_status option" where
  "sjf_create_admissible_status mem over inter_rack out_of_boundary num_nodes q_head q_admitted =
     map_option (\<lambda>st. sjf_init_admissible_status st over inter_rack out_of_boundary num_nodes q_head q_admitted) mem"

definition sjf_create_admitted_batch :: "(nat \<Rightarrow> sjf_admitted option) option \<Rightarrow> sjf_admitted list option" where
  "sjf_create_admitted_batch mem = do {
     elems \<leftarrow> mem;
     let batch = map (\<lambda>i. sjf_create_admitted_traffic (elems i)) [0..<SJF_BATCH_SIZE];
     guard_o (None \<notin> set batch);
     Some (map the batch) }"

end
