(* ===== verification/FP_Sjf_Alloc.thy ===== *)
theory FP_Sjf_Alloc
  imports FP_Sjf
begin

unbundle bit_operations_syntax

text \<open>
  The algorithm of the shortest-job-first allocator,
  \<^verbatim>\<open>src/src/graph-algo/admissible_traffic_sjf.c\<close> and \<^verbatim>\<open>admissible_traffic_sjf.h\<close>. The conventions are those of the theory FP-Sjf.
  The loops whose end depends on the state are partial functions: a run that does not end is
  \<^term>\<open>None\<close>.
\<close>

subsection \<open>Definitions: requests\<close>

definition MAKE_EDGE :: "u16 \<Rightarrow> u16 \<Rightarrow> u16 \<Rightarrow> u64" where
  "MAKE_EDGE bin src dst = push_bit 32 (ucast bin) OR ucast (push_bit 16 (ucast src) :: u32) OR ucast dst"

definition EDGE_BIN :: "u64 \<Rightarrow> u16" where "EDGE_BIN edge = ucast (drop_bit 32 edge)"
definition EDGE_SRC :: "u64 \<Rightarrow> u16" where "EDGE_SRC edge = ucast (drop_bit 16 edge)"
definition EDGE_DST :: "u64 \<Rightarrow> u16" where "EDGE_DST edge = ucast edge"

definition sjf_bin_index_from_src_dst :: "sjf_status \<Rightarrow> u16 \<Rightarrow> u16 \<Rightarrow> nat option" where
  "sjf_bin_index_from_src_dst status src dst = do {
     guard_o (unat src < MAX_NODES);
     guard_o (unat dst < MAX_NODES);
     let backlog = js_flows status (sjf_status_index src dst);
     guard_o (0 < backlog);
     Some (if unat backlog \<le> SJF_NUM_BINS then unat backlog - 1 else SJF_NUM_BINS - 1) }"

definition sjf_add_backlog_no_enqueue :: "u16 \<Rightarrow> u16 \<Rightarrow> u16 \<Rightarrow> sjf_status \<Rightarrow> (u64 option \<times> sjf_status) option" where
  "sjf_add_backlog_no_enqueue src dst backlog_increase status = do {
     let i = sjf_status_index src dst;
     guard_o (i < SJF_NUM_SRC_DST_PAIRS);
     let b = js_flows status i + ucast backlog_increase;
     let status = status\<lparr> js_flows := (js_flows status)(i := b) \<rparr>;
     Some (if b = ucast backlog_increase then Some (MAKE_EDGE 0 src dst) else None, status) }"

definition sjf_add_backlog :: "u16 \<Rightarrow> u16 \<Rightarrow> u16 \<Rightarrow> sjf_status \<Rightarrow> sjf_status option" where
  "sjf_add_backlog src dst backlog_increase status = do {
     (out_edge, status) \<leftarrow> sjf_add_backlog_no_enqueue src dst backlog_increase status;
     case out_edge of
       None \<Rightarrow> Some status
     | Some edge \<Rightarrow> do {
         q \<leftarrow> fp_ring_enqueue (js_q_head status) edge;
         Some (status\<lparr> js_q_head := q \<rparr>) } }"

subsection \<open>Definitions: allocating one flow\<close>

definition sjf_allocate :: "nat \<Rightarrow> u16 \<Rightarrow> u16 \<Rightarrow> sjf \<Rightarrow> sjf option" where
  "sjf_allocate batch_timeslot src dst s = do {
     state \<leftarrow> sjf_set_timeslot_occupied (j_batch s) src dst batch_timeslot;
     guard_o (batch_timeslot < length (jc_admitted (j_core s)));
     let p = jc_admitted (j_core s) ! batch_timeslot;
     guard_o (p < length (j_admitted s));
     adm \<leftarrow> sjf_insert_admitted_edge (j_admitted s ! p) src dst;
     let index = sjf_status_index src dst;
     let status = j_status s;
     Some (s\<lparr> j_core := (j_core s)\<lparr> jc_batch_state := state \<rparr>,
              j_admitted := (j_admitted s)[p := adm],
              j_status := status\<lparr>
                js_last_alloc_tslot := (js_last_alloc_tslot status)
                   (index := js_current_timeslot status + of_nat batch_timeslot),
                js_flows := (js_flows status)(index := js_flows status index - 1) \<rparr> \<rparr>) }"

text \<open>The result tells whether more backlog remains (the return code 1).\<close>

partial_function (option) sjf_try_allocation :: "u16 \<Rightarrow> u16 \<Rightarrow> sjf \<Rightarrow> (bool \<times> sjf) option" where
  "sjf_try_allocation src dst s = do {
     batch_timeslot \<leftarrow> sjf_get_first_timeslot (j_batch s) src dst;
     if batch_timeslot = NONE_AVAILABLE then Some (True, s)
     else do {
       s \<leftarrow> sjf_allocate batch_timeslot src dst s;
       if js_flows (j_status s) (sjf_status_index src dst) \<noteq> 0
       then sjf_try_allocation src dst s
       else Some (False, s) } }"

subsection \<open>Definitions: bins\<close>

definition sjf_enqueue_outgoing :: "nat \<Rightarrow> u16 \<Rightarrow> u16 \<Rightarrow> sjf \<Rightarrow> sjf option" where
  "sjf_enqueue_outgoing bin_index src dst s = do {
     guard_o (bin_index < length (jc_outgoing_bins (j_core s)));
     b \<leftarrow> jc_outgoing_bins (j_core s) ! bin_index;
     Some (upd_core (\<lambda>c. c\<lparr> jc_outgoing_bins := (jc_outgoing_bins c)[bin_index := Some (sjf_enqueue_bin b src dst)] \<rparr>) s) }"

partial_function (option) sjf_try_allocation_bin :: "sjf_bin \<Rightarrow> sjf \<Rightarrow> (sjf_bin \<times> sjf) option" where
  "sjf_try_allocation_bin in_bin s =
     (if sjf_is_empty_bin in_bin then Some (in_bin, s)
      else do {
        let edge = sjf_peek_head_bin in_bin;
        (rc, s) \<leftarrow> sjf_try_allocation (je_src edge) (je_dst edge) s;
        s \<leftarrow> (if rc then do {
                bin_index \<leftarrow> sjf_bin_index_from_src_dst (j_status s) (je_src edge) (je_dst edge);
                sjf_enqueue_outgoing bin_index (je_src edge) (je_dst edge) s }
              else Some s);
        in_bin \<leftarrow> sjf_dequeue_bin in_bin;
        sjf_try_allocation_bin in_bin s })"

partial_function (option) sjf_move_bin :: "sjf_bin \<Rightarrow> sjf_bin \<Rightarrow> (sjf_bin \<times> sjf_bin) option" where
  "sjf_move_bin from_bin to_bin =
     (if sjf_is_empty_bin from_bin then Some (from_bin, to_bin)
      else do {
        let edge = sjf_peek_head_bin from_bin;
        let to_bin = sjf_enqueue_bin to_bin (je_src edge) (je_dst edge);
        from_bin \<leftarrow> sjf_dequeue_bin from_bin;
        sjf_move_bin from_bin to_bin })"

subsection \<open>Definitions: new requests\<close>

definition sjf_enqueue_urgent :: "u64 \<Rightarrow> sjf \<Rightarrow> sjf option" where
  "sjf_enqueue_urgent x s = do {
     let i = jc_q_urgent_out (j_core s);
     guard_o (i < length (j_urgent_rings s));
     q \<leftarrow> fp_ring_enqueue (j_urgent_rings s ! i) x;
     Some (s\<lparr> j_urgent_rings := (j_urgent_rings s)[i := q] \<rparr>) }"

definition sjf_process_one_new_request :: "u16 \<Rightarrow> u16 \<Rightarrow> nat \<Rightarrow> nat \<Rightarrow> sjf \<Rightarrow> sjf option" where
  "sjf_process_one_new_request src dst bin_index current_bin s =
     (if bin_index < current_bin then do {
        (rc, s) \<leftarrow> sjf_try_allocation src dst s;
        if rc then do {
          bin_index \<leftarrow> sjf_bin_index_from_src_dst (j_status s) src dst;
          sjf_enqueue_urgent (MAKE_EDGE (of_nat bin_index) src dst) s }
        else Some s }
      else do {
        guard_o (bin_index < length (jc_new_request_bins (j_core s)));
        Some (upd_core (\<lambda>c. c\<lparr> jc_new_request_bins := (jc_new_request_bins c)
          [bin_index := sjf_enqueue_bin (jc_new_request_bins c ! bin_index) src dst] \<rparr>) s) })"

definition sjf_process_head_edge :: "nat \<Rightarrow> u64 \<Rightarrow> sjf \<Rightarrow> sjf option" where
  "sjf_process_head_edge current_bin edge s = do {
     bin_index \<leftarrow> sjf_bin_index_from_src_dst (j_status s) (EDGE_SRC edge) (EDGE_DST edge);
     sjf_process_one_new_request (EDGE_SRC edge) (EDGE_DST edge) bin_index current_bin s }"

partial_function (option) sjf_process_head :: "nat \<Rightarrow> sjf \<Rightarrow> sjf option" where
  "sjf_process_head current_bin s = do {
     (edges, q) \<leftarrow> fp_ring_dequeue_burst (js_q_head (j_status s)) SJF_BURST_SIZE;
     s \<leftarrow> foldo (sjf_process_head_edge current_bin) edges (upd_status (\<lambda>st. st\<lparr> js_q_head := q \<rparr>) s);
     if edges \<noteq> [] then sjf_process_head current_bin s else Some s }"

text \<open>
  A burst of urgent requests: at the token the core becomes the head, and the rest of the burst
  is left in the local array. The result tells whether the token was found.
\<close>

primrec sjf_process_urgent_edges :: "nat \<Rightarrow> u64 list \<Rightarrow> sjf \<Rightarrow> (bool \<times> sjf) option" where
  "sjf_process_urgent_edges current_bin [] s = Some (False, s)"
| "sjf_process_urgent_edges current_bin (edge # edges) s =
     (if edge = URGENT_Q_HEAD_TOKEN then Some (True, upd_core (\<lambda>c. c\<lparr> jc_is_head := 1 \<rparr>) s)
      else do {
        s \<leftarrow> sjf_process_one_new_request (EDGE_SRC edge) (EDGE_DST edge) (unat (EDGE_BIN edge)) current_bin s;
        sjf_process_urgent_edges current_bin edges s })"

partial_function (option) sjf_process_q_urgent :: "nat \<Rightarrow> sjf \<Rightarrow> sjf option" where
  "sjf_process_q_urgent current_bin s = do {
     let i = jc_q_urgent_in (j_core s);
     guard_o (i < length (j_urgent_rings s));
     (edges, q) \<leftarrow> fp_ring_dequeue_burst (j_urgent_rings s ! i) SJF_BURST_SIZE;
     (token, s) \<leftarrow> sjf_process_urgent_edges current_bin edges (s\<lparr> j_urgent_rings := (j_urgent_rings s)[i := q] \<rparr>);
     if token then sjf_process_head current_bin s
     else if edges \<noteq> [] then sjf_process_q_urgent current_bin s
     else Some s }"

definition sjf_process_new_requests :: "nat \<Rightarrow> sjf \<Rightarrow> sjf option" where
  "sjf_process_new_requests current_bin s =
     (if jc_is_head (j_core s) \<noteq> 0 then sjf_process_head current_bin s
      else sjf_process_q_urgent current_bin s)"

subsection \<open>Definitions: what the other cores do\<close>

datatype sjf_event = Request u16 u16 u16 | BinArrives sjf_bin

type_synonym sjf_script = "sjf_event list list"

definition sjf_event_step :: "sjf_event \<Rightarrow> sjf \<Rightarrow> sjf option" where
  "sjf_event_step ev s =
     (case ev of
        Request src dst n \<Rightarrow> do {
          status \<leftarrow> sjf_add_backlog src dst n (j_status s);
          Some (s\<lparr> j_status := status \<rparr>) }
      | BinArrives b \<Rightarrow> do {
          let i = jc_q_bin_in (j_core s);
          guard_o (i < length (j_bin_rings s));
          q \<leftarrow> fp_ring_enqueue (j_bin_rings s ! i) b;
          Some (s\<lparr> j_bin_rings := (j_bin_rings s)[i := q] \<rparr>) })"

definition sjf_poll :: "sjf_event list \<Rightarrow> nat \<Rightarrow> sjf \<Rightarrow> sjf option" where
  "sjf_poll evs current_bin s = foldo sjf_event_step evs s \<bind> sjf_process_new_requests current_bin"

subsection \<open>Definitions: a batch\<close>

definition sjf_take_bin :: "sjf \<Rightarrow> (sjf_bin option \<times> sjf) option" where
  "sjf_take_bin s = do {
     let i = jc_q_bin_in (j_core s);
     guard_o (i < length (j_bin_rings s));
     (b, q) \<leftarrow> fp_ring_dequeue (j_bin_rings s ! i);
     Some (b, s\<lparr> j_bin_rings := (j_bin_rings s)[i := q] \<rparr>) }"

primrec sjf_wait_bin :: "sjf_script \<Rightarrow> nat \<Rightarrow> sjf \<Rightarrow> (sjf_bin \<times> sjf_script \<times> sjf) option" where
  "sjf_wait_bin [] bin s = do {
     (b, s) \<leftarrow> sjf_take_bin s;
     bin_in \<leftarrow> b;
     Some (bin_in, [], s) }"
| "sjf_wait_bin (evs # script) bin s = do {
     (b, s) \<leftarrow> sjf_take_bin s;
     case b of
       Some bin_in \<Rightarrow> Some (bin_in, evs # script, s)
     | None \<Rightarrow> do {
         s \<leftarrow> sjf_poll evs bin s;
         sjf_wait_bin script bin
           (upd_stat (\<lambda>w. w\<lparr> jw_wait_for_q_bin_in := jw_wait_for_q_bin_in w + 1 \<rparr>) s) } }"

definition sjf_pass_bin :: "nat \<Rightarrow> sjf \<Rightarrow> sjf option" where
  "sjf_pass_bin i s = do {
     guard_o (i < length (jc_outgoing_bins (j_core s)));
     b \<leftarrow> jc_outgoing_bins (j_core s) ! i;
     let k = jc_q_bin_out (j_core s);
     guard_o (k < length (j_bin_rings s));
     q \<leftarrow> fp_ring_enqueue (j_bin_rings s ! k) b;
     Some (upd_core (\<lambda>c. c\<lparr> jc_outgoing_bins := (jc_outgoing_bins c)[i := None] \<rparr>)
       (s\<lparr> j_bin_rings := (j_bin_rings s)[k := q] \<rparr>)) }"

definition sjf_bin_step :: "nat \<Rightarrow> sjf_script \<times> sjf \<Rightarrow> (sjf_script \<times> sjf) option" where
  "sjf_bin_step bin x = do {
     let (script, s) = x;
     (bin_in, script, s) \<leftarrow> sjf_wait_bin script bin s;
     (bin_in, s) \<leftarrow> sjf_try_allocation_bin bin_in s;
     guard_o (bin < length (jc_new_request_bins (j_core s)));
     (new_bin, s) \<leftarrow> sjf_try_allocation_bin (jc_new_request_bins (j_core s) ! bin) s;
     let s = upd_core (\<lambda>c. c\<lparr> jc_new_request_bins := (jc_new_request_bins c)[bin := new_bin] \<rparr>) s;
     s \<leftarrow> (if SJF_BATCH_SIZE \<le> bin then sjf_pass_bin (bin - SJF_BATCH_SIZE) s else Some s);
     guard_o (bin < length (jc_temporary_bins (j_core s)));
     Some (script, upd_core (\<lambda>c. c\<lparr> jc_temporary_bins := (jc_temporary_bins c)[bin := Some bin_in] \<rparr>) s) }"

definition sjf_now_timeslot :: "u32 \<Rightarrow> u32 \<Rightarrow> u64" where
  "sjf_now_timeslot tslot_mul tslot_shift = drop_bit (unat tslot_shift) (sjf_get_time_ns * ucast tslot_mul)"

text \<open>
  One round of the pacing loop, and the loop. At the end of the script nothing changes any more.
\<close>

definition sjf_pace_round :: "sjf_event list \<Rightarrow> nat \<Rightarrow> sjf \<Rightarrow> sjf option" where
  "sjf_pace_round evs bin s = do {
     s \<leftarrow> sjf_poll evs bin s;
     Some (upd_stat (\<lambda>w. w\<lparr> jw_pacing_wait := jw_pacing_wait w + 1 \<rparr>) s) }"

primrec sjf_pace :: "sjf_script \<Rightarrow> nat \<Rightarrow> u64 \<Rightarrow> u64 \<Rightarrow> sjf \<Rightarrow> (sjf_script \<times> sjf) option" where
  "sjf_pace [] bin now start s = do {
     s \<leftarrow> sjf_pace_round [] bin s;
     guard_o (\<not> (jc_is_head (j_core s) = 0 \<or> now < start));
     Some ([], s) }"
| "sjf_pace (evs # script) bin now start s = do {
     s \<leftarrow> sjf_pace_round evs bin s;
     if jc_is_head (j_core s) = 0 \<or> now < start then sjf_pace script bin now start s
     else Some (script, s) }"

definition sjf_send_admitted :: "nat \<Rightarrow> sjf \<Rightarrow> sjf option" where
  "sjf_send_admitted bin s = do {
     guard_o (bin < length (jc_admitted (j_core s)));
     q \<leftarrow> fp_ring_enqueue (js_q_admitted_out (j_status s)) (jc_admitted (j_core s) ! bin);
     Some (upd_core (\<lambda>c. c\<lparr> jc_batch_state := (jc_batch_state c)
               \<lparr> jb_allowed_mask := push_bit 1 (jb_allowed_mask (jc_batch_state c)) \<rparr> \<rparr>)
       (upd_status (\<lambda>st. st\<lparr> js_q_admitted_out := q \<rparr>) s)) }"

definition sjf_output_step :: "u64 \<Rightarrow> u64 \<Rightarrow> nat \<Rightarrow> sjf_script \<times> sjf \<Rightarrow> (sjf_script \<times> sjf) option" where
  "sjf_output_step first_timeslot now bin x = do {
     (script, s) \<leftarrow> (if bin mod 4 = 0
       then sjf_pace (fst x) bin now (first_timeslot + of_nat bin) (snd x) else Some x);
     s \<leftarrow> sjf_send_admitted bin s;
     Some (script, s) }"

definition sjf_flush_last_bin :: "sjf \<Rightarrow> sjf option" where
  "sjf_flush_last_bin s = do {
     let core = j_core s;
     guard_o (SJF_NUM_BINS - 1 < length (jc_new_request_bins core) \<and> SJF_NUM_BINS - 1 < length (jc_outgoing_bins core));
     last_out_bin \<leftarrow> jc_outgoing_bins core ! (SJF_NUM_BINS - 1);
     (last_new_bin, last_out_bin) \<leftarrow> sjf_move_bin (jc_new_request_bins core ! (SJF_NUM_BINS - 1)) last_out_bin;
     Some (s\<lparr> j_core := core\<lparr>
         jc_new_request_bins := (jc_new_request_bins core)[SJF_NUM_BINS - 1 := last_new_bin],
         jc_outgoing_bins := (jc_outgoing_bins core)[SJF_NUM_BINS - 1 := Some last_out_bin] \<rparr> \<rparr>) }"

definition sjf_rearrange :: "sjf \<Rightarrow> sjf" where
  "sjf_rearrange s = upd_core (\<lambda>c. c\<lparr> jc_outgoing_bins := jc_temporary_bins c,
     jc_temporary_bins := map (\<lambda>_. None) (jc_temporary_bins c) \<rparr>) s"

text \<open>
  The batch in three parts: taking the bins in, sending the timeslots out, and passing the rest
  on to the next core.
\<close>

definition script_head :: "sjf_script \<Rightarrow> sjf_event list" where
  "script_head script = (case script of [] \<Rightarrow> [] | evs # _ \<Rightarrow> evs)"

definition sjf_begin :: "nat list \<Rightarrow> sjf_script \<Rightarrow> sjf \<Rightarrow> (sjf_script \<times> sjf) option" where
  "sjf_begin admitted script s = do {
     s \<leftarrow> sjf_alloc_core_reset admitted s;
     guard_o (\<forall>b \<in> set (jc_new_request_bins (j_core s)). sjf_is_empty_bin b \<and> jn_head b = 0);
     guard_o (\<forall>b \<in> set (jc_outgoing_bins (j_core s)). pred_option (\<lambda>b. sjf_is_empty_bin b \<and> jn_head b = 0) b);
     s \<leftarrow> sjf_poll (script_head script) 0 s;
     foldo sjf_bin_step [0..<SJF_NUM_BINS] (tl script, s) }"

definition sjf_output :: "u64 \<Rightarrow> u32 \<Rightarrow> u32 \<Rightarrow> sjf_script \<times> sjf \<Rightarrow> (sjf_script \<times> sjf) option" where
  "sjf_output first_timeslot tslot_mul tslot_shift x = do {
     guard_o (unat tslot_shift < 64);
     foldo (sjf_output_step first_timeslot (sjf_now_timeslot tslot_mul tslot_shift)) [0..<SJF_BATCH_SIZE] x }"

definition sjf_finish :: "sjf \<Rightarrow> sjf option" where
  "sjf_finish s = do {
     s \<leftarrow> sjf_enqueue_urgent URGENT_Q_HEAD_TOKEN s;
     s \<leftarrow> sjf_flush_last_bin s;
     s \<leftarrow> foldo sjf_pass_bin [SJF_NUM_BINS - SJF_BATCH_SIZE..<SJF_NUM_BINS] s;
     guard_o (length (jc_temporary_bins (j_core s)) = SJF_NUM_BINS);
     Some (upd_status (\<lambda>st. st\<lparr> js_current_timeslot := js_current_timeslot st + of_nat SJF_BATCH_SIZE \<rparr>)
       (sjf_rearrange s)) }"

definition sjf_get_admissible_traffic :: "nat list \<Rightarrow> u64 \<Rightarrow> u32 \<Rightarrow> u32 \<Rightarrow> sjf_script \<Rightarrow> sjf
    \<Rightarrow> (sjf_script \<times> sjf) option" where
  "sjf_get_admissible_traffic admitted first_timeslot tslot_mul tslot_shift script s = do {
     x \<leftarrow> sjf_begin admitted script s;
     (script, s) \<leftarrow> sjf_output first_timeslot tslot_mul tslot_shift x;
     s \<leftarrow> sjf_finish s;
     Some (script, s) }"

end
