(* ===== verification/FP_Sjf_Slots.thy ===== *)
theory FP_Sjf_Slots
  imports FP_Sjf_Alloc
begin

unbundle bit_operations_syntax

text \<open>
  What the data structures of the shortest-job-first allocator hold. A bin is a queue of flows:
  its 16-bit indices wrap exactly at its capacity, so it is an instance of the contract
  \<^verbatim>\<open>fifo\<close> of a queue. The words passed through the rings decode to what was encoded and are
  never the token. Last, the occupancy bitmaps of a batch: a timeslot that is free for a pair is
  free for its source, its destination and its racks.
\<close>

subsection \<open>Definitions: what a bin and a timeslot hold\<close>

type_synonym flow = "u16 \<times> u16"

definition jpair :: "sjf_edge \<Rightarrow> flow" where
  "jpair e = (je_src e, je_dst e)"

definition jbin_list :: "sjf_bin \<Rightarrow> sjf_edge list" where
  "jbin_list b = map (\<lambda>i. jn_edges b (unat (jn_head b + of_nat i))) [0..<unat (jn_tail b - jn_head b)]"

definition jbin_enq :: "sjf_bin \<Rightarrow> sjf_edge \<Rightarrow> sjf_bin option" where
  "jbin_enq b e = Some (sjf_enqueue_bin b (je_src e) (je_dst e))"

definition jbin_deq :: "sjf_bin \<Rightarrow> (sjf_edge option \<times> sjf_bin) option" where
  "jbin_deq b = (if sjf_is_empty_bin b then Some (None, b)
     else do { b' \<leftarrow> sjf_dequeue_bin b; Some (Some (sjf_peek_head_bin b), b') })"

definition ja_list :: "sjf_admitted \<Rightarrow> sjf_edge list" where
  "ja_list a = map (ja_edges a) [0..<unat (ja_size a)]"

definition edge_flow :: "u64 \<Rightarrow> flow" where
  "edge_flow x = (EDGE_SRC x, EDGE_DST x)"

definition outside :: "sjf_edge \<Rightarrow> bool" where
  "outside e \<longleftrightarrow> unat (je_dst e) = OUT_OF_BOUNDARY_NODE_ID"

definition load :: "(sjf_edge \<Rightarrow> bool) \<Rightarrow> sjf_edge list \<Rightarrow> nat" where
  "load P es = length (filter P es)"

definition cap_ok :: "u16 \<Rightarrow> u16 \<Rightarrow> bool \<Rightarrow> nat \<Rightarrow> bool" where
  "cap_ok cap c free n \<longleftrightarrow> c = of_nat n \<and> (cap \<noteq> 0 \<longrightarrow> n \<le> unat cap \<and> (free \<longrightarrow> n < unat cap))"

definition valid_flow :: "nat \<Rightarrow> flow \<Rightarrow> bool" where
  "valid_flow n p \<longleftrightarrow> unat (fst p) < n \<and> (unat (snd p) < n \<or> unat (snd p) = OUT_OF_BOUNDARY_NODE_ID)"

text \<open>The edges of a timeslot against the bitmaps of the end nodes, the counter of traffic that
  leaves the network, and the counters of the racks.\<close>

definition ends_ok :: "nat \<Rightarrow> sjf_batch_state \<Rightarrow> nat \<Rightarrow> sjf_edge list \<Rightarrow> bool" where
  "ends_ok n bs t es \<longleftrightarrow> (\<forall>e \<in> set es. valid_flow n (jpair e))
     \<and> distinct (map je_src es) \<and> distinct (map je_dst (filter (\<lambda>e. \<not> outside e) es))
     \<and> (\<forall>e \<in> set es. \<not> bit (jb_src_endnodes bs (unat (je_src e))) t)
     \<and> (\<forall>e \<in> set es. \<not> outside e \<longrightarrow> \<not> bit (jb_dst_endnodes bs (unat (je_dst e))) t)"

definition boundary_ok :: "sjf_batch_state \<Rightarrow> nat \<Rightarrow> sjf_edge list \<Rightarrow> bool" where
  "boundary_ok bs t es = cap_ok (jb_out_of_boundary_capacity bs) (jb_out_of_boundary_counts bs t)
     (bit (jb_dst_endnodes bs OUT_OF_BOUNDARY_NODE_ID) t) (load outside es)"

definition racks_ok :: "sjf_batch_state \<Rightarrow> nat \<Rightarrow> sjf_edge list \<Rightarrow> bool" where
  "racks_ok bs t es \<longleftrightarrow> (jb_oversubscribed bs \<longrightarrow> (\<forall>r < MAX_RACKS.
      cap_ok (jb_inter_rack_capacity bs) (jb_src_rack_counts bs (SJF_BATCH_SIZE * r + t))
        (bit (jb_src_rack_bitmaps bs r) t) (load (\<lambda>e. sjf_rack (je_src e) = r) es)
    \<and> cap_ok (jb_inter_rack_capacity bs) (jb_dst_rack_counts bs (SJF_BATCH_SIZE * r + t))
        (bit (jb_dst_rack_bitmaps bs r) t) (load (\<lambda>e. \<not> outside e \<and> sjf_rack (je_dst e) = r) es)))"

definition sjf_slot_ok :: "nat \<Rightarrow> sjf_batch_state \<Rightarrow> nat \<Rightarrow> sjf_edge list \<Rightarrow> bool" where
  "sjf_slot_ok n bs t es \<longleftrightarrow> ends_ok n bs t es \<and> boundary_ok bs t es \<and> racks_ok bs t es"

subsection \<open>Bins are queues\<close>

lemma length_jbin_list [simp]: "length (jbin_list b) = unat (jn_tail b - jn_head b)"
  by (simp add: jbin_list_def)

lemma jbin_list_empty: "sjf_is_empty_bin b \<longleftrightarrow> jbin_list b = []"
  by (auto simp: jbin_list_def sjf_is_empty_bin_def unat_eq_zero)

lemma jbin_list_init [simp]: "jbin_list (sjf_init_bin b) = []"
  by (simp add: jbin_list_def sjf_init_bin_def)

lemma unat_u16_add_of_nat: "unat ((h :: u16) + of_nat i) = (unat h + i) mod 65536"
  by (simp add: unat_word_ariths unat_of_nat mod_add_right_eq)

lemma jbin_slot_inj:
  assumes "unat (h + of_nat i) = unat ((h :: u16) + of_nat j)" "i < 65536" "j < 65536"
  shows "i = j"
  using mod_add_inj [of i 65536 j "unat h"] assms by (simp add: unat_u16_add_of_nat)

lemma jbin_list_enqueue:
  assumes "length (jbin_list b) < 65535"
  shows "jbin_list (sjf_enqueue_bin b src dst) = jbin_list b @ [\<lparr> je_src = src, je_dst = dst \<rparr>]"
proof -
  let ?n = "unat (jn_tail b - jn_head b)" and ?h = "jn_head b" and ?e = "\<lparr> je_src = src, je_dst = dst \<rparr>"
  have n: "?n < 65535"
    using assms by simp
  have t: "jn_tail b = ?h + of_nat ?n"
    by simp
  have "unat (jn_tail b + 1 - ?h) = unat (1 + (jn_tail b - ?h))"
    by (simp add: algebra_simps)
  also have "\<dots> = Suc ?n"
    using n by (simp add: unat_word_ariths)
  finally have s: "unat (jn_tail b + 1 - ?h) = Suc ?n" .
  have "unat (?h + of_nat i) \<noteq> unat (jn_tail b)" if "i < ?n" for i
    using jbin_slot_inj [of ?h i ?n] that n by (subst t) auto
  then show ?thesis
    by (auto simp: jbin_list_def sjf_enqueue_bin_def s)
qed

lemma jbin_list_Cons:
  assumes "jbin_list b = e # es"
  shows "sjf_peek_head_bin b = e"
    and "\<exists>b'. sjf_dequeue_bin b = Some b' \<and> jbin_list b' = es"
proof -
  have n: "unat (jn_tail b - jn_head b) = Suc (length es)"
    using arg_cong [OF assms, of length] by simp
  show "sjf_peek_head_bin b = e"
    using assms n by (simp add: jbin_list_def sjf_peek_head_bin_def upt_conv_Cons del: upt_Suc)
  have "unat (jn_tail b - (jn_head b + 1)) = unat ((jn_tail b - jn_head b) - 1)"
    by (simp add: algebra_simps)
  also have "\<dots> = length es"
    using n by (subst unat_sub) (simp_all add: word_le_nat_alt)
  finally have s: "unat (jn_tail b - (jn_head b + 1)) = length es" .
  have "es = map (\<lambda>i. jn_edges b (unat (jn_head b + of_nat i))) [1..<Suc (length es)]"
    using assms n by (simp add: jbin_list_def upt_conv_Cons del: upt_Suc)
  also have "\<dots> = map (\<lambda>i. jn_edges b (unat (jn_head b + 1 + of_nat i))) [0..<length es]"
    by (simp add: map_Suc_upt [symmetric] algebra_simps del: upt_Suc)
  finally have "jbin_list (b\<lparr> jn_head := jn_head b + 1 \<rparr>) = es"
    by (simp add: jbin_list_def s)
  moreover have "sjf_dequeue_bin b = Some (b\<lparr> jn_head := jn_head b + 1 \<rparr>)"
    using jbin_list_empty [of b] assms by (simp add: sjf_dequeue_bin_def guard_o_def)
  ultimately show "\<exists>b'. sjf_dequeue_bin b = Some b' \<and> jbin_list b' = es"
    by blast
qed

interpretation jbq: fifo "\<lambda>_. True" jbin_list "\<lambda>_. 65535" jbin_enq jbin_deq
proof
  fix q :: sjf_bin and x xs
  show "length (jbin_list q) \<le> 65535"
    using unat_u16_lt [of "jn_tail q - jn_head q"] unfolding length_jbin_list by linarith
  show "length (jbin_list q) < 65535 \<Longrightarrow> wp (jbin_enq q x)
      (\<lambda>q'. True \<and> jbin_list q' = jbin_list q @ [x] \<and> (65535 :: nat) = 65535)"
    by (simp add: jbin_enq_def jbin_list_enqueue)
  show "jbin_list q = [] \<Longrightarrow> jbin_deq q = Some (None, q)"
    by (simp add: jbin_deq_def jbin_list_empty)
  show "jbin_list q = x # xs \<Longrightarrow> wp (jbin_deq q)
      (\<lambda>(y, q'). y = Some x \<and> True \<and> jbin_list q' = xs \<and> (65535 :: nat) = 65535)"
    using jbin_list_Cons [of q x xs] by (auto simp: jbin_deq_def jbin_list_empty)
qed

lemma sjf_move_bin_ok:
  assumes "length (jbin_list a) + length (jbin_list b) \<le> 65535"
  shows "wp (sjf_move_bin a b) (\<lambda>(a', b'). jbin_list a' = [] \<and> jbin_list b' = jbin_list b @ jbin_list a)"
  using assms
proof (induction "jbin_list a" arbitrary: a b)
  case Nil
  then show ?case
    by (subst sjf_move_bin.simps) (simp add: jbin_list_empty)
next
  case (Cons e es)
  note e = Cons.hyps(2) [symmetric]
  obtain a' where a': "sjf_dequeue_bin a = Some a'" "jbin_list a' = es" and p: "sjf_peek_head_bin a = e"
    using jbin_list_Cons [OF e] by blast
  have l: "length (jbin_list a) = Suc (length es)"
    by (simp only: e) simp
  have enq: "jbin_list (sjf_enqueue_bin b (je_src e) (je_dst e)) = jbin_list b @ [e]"
    using Cons.prems unfolding l by (subst jbin_list_enqueue) simp_all
  have "length (jbin_list a') + length (jbin_list (sjf_enqueue_bin b (je_src e) (je_dst e))) \<le> 65535"
    using Cons.prems unfolding l by (simp only: enq a'(2)) simp
  from Cons.hyps(1) [OF a'(2) [symmetric] this]
  show ?case
    by (subst sjf_move_bin.simps) (simp add: jbin_list_empty e a'(1) p enq a'(2))
qed

subsection \<open>The words in the rings\<close>

lemma bit_ucast_lt: "bit (ucast (x :: u16) :: u64) n \<longleftrightarrow> n < 16 \<and> bit x n"
  by (auto simp: bit_simps dest: bit_imp_le_length)

lemma bit_MAKE_EDGE:
  assumes "n < 64"
  shows "bit (MAKE_EDGE b s d) n \<longleftrightarrow> (32 \<le> n \<and> n < 48 \<and> bit b (n - 32))
    \<or> (16 \<le> n \<and> n < 32 \<and> bit s (n - 16)) \<or> (n < 16 \<and> bit d n)"
  using assms by (auto simp: MAKE_EDGE_def bit_simps dest: bit_imp_le_length)

lemma EDGE_MAKE [simp]:
  "EDGE_BIN (MAKE_EDGE b s d) = b" "EDGE_SRC (MAKE_EDGE b s d) = s" "EDGE_DST (MAKE_EDGE b s d) = d"
  by (rule bit_word_eqI, auto simp: EDGE_BIN_def EDGE_SRC_def EDGE_DST_def bit_simps bit_MAKE_EDGE)+

lemma MAKE_EDGE_not_token [simp]: "MAKE_EDGE b s d \<noteq> URGENT_Q_HEAD_TOKEN"
proof
  assume "MAKE_EDGE b s d = URGENT_Q_HEAD_TOKEN"
  then have "bit (MAKE_EDGE b s d) 63"
    by (simp add: URGENT_Q_HEAD_TOKEN_def bit_simps)
  then show False
    by (simp add: bit_MAKE_EDGE)
qed

lemma edge_flow_MAKE [simp]: "edge_flow (MAKE_EDGE b s d) = (s, d)"
  by (simp add: edge_flow_def)

subsection \<open>Occupying a timeslot\<close>

lemma bit_clear_slot [simp]: "bit (clear_slot t x) i \<longleftrightarrow> bit x i \<and> i \<noteq> t"
  by (auto simp: clear_slot_def word_bits simp del: push_bit_of_1 dest: bit_word_lt)

lemma load_append [simp]: "load P (es @ [e]) = load P es + (if P e then 1 else 0)"
  by (simp add: load_def)

lemma load_le: "load P es \<le> length es"
  by (simp add: load_def)

lemma cap_ok_take:
  assumes "cap_ok cap c True n" "n < 65535"
  shows "cap_ok cap (c + 1) (c + 1 \<noteq> cap) (Suc n)"
proof -
  have "Suc n \<noteq> unat cap" if "c + 1 \<noteq> cap"
  proof
    assume "Suc n = unat cap"
    then have "of_nat (Suc n) = (of_nat (unat cap) :: u16)"
      by simp
    then show False
      using that assms(1) by (simp add: cap_ok_def ac_simps)
  qed
  then show ?thesis
    using assms by (auto simp: cap_ok_def)
qed

lemma cap_ok_less: "cap_ok cap c free n \<Longrightarrow> (free' \<Longrightarrow> free) \<Longrightarrow> cap_ok cap c free' n"
  by (auto simp: cap_ok_def)

lemma valid_flow_lt:
  assumes "valid_flow n p" "n \<le> 255"
  shows "unat (fst p) < 255" "unat (snd p) < 256"
  using assms by (auto simp: valid_flow_def OUT_OF_BOUNDARY_NODE_ID_def MAX_NODES_def)

lemma sjf_rack_0: "unat x < 256 \<Longrightarrow> sjf_rack x = 0"
  by (simp add: sjf_rack_def TOR_SHIFT_def drop_bit_eq_div unat_div)

lemma ends_ok_length:
  assumes "ends_ok n bs t es" "n \<le> 255"
  shows "length es \<le> n"
proof -
  have "set (map (unat \<circ> je_src) es) \<subseteq> {..<n}"
    using assms(1) by (auto simp: ends_ok_def valid_flow_def jpair_def)
  moreover have "distinct (map (unat \<circ> je_src) es)"
    using assms(1) by (auto simp: ends_ok_def distinct_map inj_on_def word_unat_eq_iff [symmetric])
  ultimately show ?thesis
    using card_mono [of "{..<n}" "set (map (unat \<circ> je_src) es)"] distinct_card by fastforce
qed

lemma occupied_eq:
  assumes "sjf_set_timeslot_occupied bs src dst t = Some bs'"
  obtains b1 where "b1 = bs\<lparr> jb_src_endnodes := (jb_src_endnodes bs)(unat src := clear_slot t (jb_src_endnodes bs (unat src))) \<rparr>"
    "bs' = (if jb_oversubscribed (sjf_occupy_dst dst t b1) then sjf_occupy_racks src dst t (sjf_occupy_dst dst t b1)
       else sjf_occupy_dst dst t b1)"
  using assms by (auto simp: sjf_set_timeslot_occupied_def Let_def split: bind_splits)

lemma occupy_dst_fields [simp]:
  "jb_oversubscribed (sjf_occupy_dst dst t bs) = jb_oversubscribed bs"
  "jb_inter_rack_capacity (sjf_occupy_dst dst t bs) = jb_inter_rack_capacity bs"
  "jb_out_of_boundary_capacity (sjf_occupy_dst dst t bs) = jb_out_of_boundary_capacity bs"
  "jb_allowed_mask (sjf_occupy_dst dst t bs) = jb_allowed_mask bs"
  "jb_src_endnodes (sjf_occupy_dst dst t bs) = jb_src_endnodes bs"
  "jb_src_rack_counts (sjf_occupy_dst dst t bs) = jb_src_rack_counts bs"
  "jb_dst_rack_counts (sjf_occupy_dst dst t bs) = jb_dst_rack_counts bs"
  "jb_src_rack_bitmaps (sjf_occupy_dst dst t bs) = jb_src_rack_bitmaps bs"
  "jb_dst_rack_bitmaps (sjf_occupy_dst dst t bs) = jb_dst_rack_bitmaps bs"
  by (simp_all add: sjf_occupy_dst_def Let_def)

lemma occupy_racks_fields [simp]:
  "jb_oversubscribed (sjf_occupy_racks src dst t bs) = jb_oversubscribed bs"
  "jb_inter_rack_capacity (sjf_occupy_racks src dst t bs) = jb_inter_rack_capacity bs"
  "jb_out_of_boundary_capacity (sjf_occupy_racks src dst t bs) = jb_out_of_boundary_capacity bs"
  "jb_allowed_mask (sjf_occupy_racks src dst t bs) = jb_allowed_mask bs"
  "jb_src_endnodes (sjf_occupy_racks src dst t bs) = jb_src_endnodes bs"
  "jb_dst_endnodes (sjf_occupy_racks src dst t bs) = jb_dst_endnodes bs"
  "jb_out_of_boundary_counts (sjf_occupy_racks src dst t bs) = jb_out_of_boundary_counts bs"
  by (simp_all add: sjf_occupy_racks_def Let_def)

lemma occupied_fields:
  assumes "sjf_set_timeslot_occupied bs src dst t = Some bs'"
  shows "jb_oversubscribed bs' = jb_oversubscribed bs" "jb_inter_rack_capacity bs' = jb_inter_rack_capacity bs"
    "jb_out_of_boundary_capacity bs' = jb_out_of_boundary_capacity bs" "jb_allowed_mask bs' = jb_allowed_mask bs"
    "jb_src_endnodes bs' = (jb_src_endnodes bs)(unat src := clear_slot t (jb_src_endnodes bs (unat src)))"
    "jb_dst_endnodes bs' = (if unat dst = OUT_OF_BOUNDARY_NODE_ID
         \<and> jb_out_of_boundary_counts bs t + 1 \<noteq> jb_out_of_boundary_capacity bs then jb_dst_endnodes bs
       else (jb_dst_endnodes bs)(unat dst := clear_slot t (jb_dst_endnodes bs (unat dst))))"
    "jb_out_of_boundary_counts bs' = (if unat dst = OUT_OF_BOUNDARY_NODE_ID
       then (jb_out_of_boundary_counts bs)(t := jb_out_of_boundary_counts bs t + 1) else jb_out_of_boundary_counts bs)"
  by (rule occupied_eq [OF assms(1)], simp add: sjf_occupy_dst_def Let_def)+

lemma occupied_rack_fields:
  assumes "sjf_set_timeslot_occupied bs src dst t = Some bs'" "jb_oversubscribed bs"
  shows "jb_src_rack_counts bs' = (let i = SJF_BATCH_SIZE * sjf_rack src + t in
       (jb_src_rack_counts bs)(i := jb_src_rack_counts bs i + 1))"
    "jb_src_rack_bitmaps bs' = (let r = sjf_rack src in
       if jb_src_rack_counts bs (SJF_BATCH_SIZE * r + t) + 1 = jb_inter_rack_capacity bs
       then (jb_src_rack_bitmaps bs)(r := clear_slot t (jb_src_rack_bitmaps bs r)) else jb_src_rack_bitmaps bs)"
    "jb_dst_rack_counts bs' = (let i = SJF_BATCH_SIZE * sjf_rack dst + t in
       if unat dst = OUT_OF_BOUNDARY_NODE_ID then jb_dst_rack_counts bs
       else (jb_dst_rack_counts bs)(i := jb_dst_rack_counts bs i + 1))"
    "jb_dst_rack_bitmaps bs' = (let r = sjf_rack dst in
       if unat dst \<noteq> OUT_OF_BOUNDARY_NODE_ID \<and> jb_dst_rack_counts bs (SJF_BATCH_SIZE * r + t) + 1 = jb_inter_rack_capacity bs
       then (jb_dst_rack_bitmaps bs)(r := clear_slot t (jb_dst_rack_bitmaps bs r)) else jb_dst_rack_bitmaps bs)"
  by (rule occupied_eq [OF assms(1)], simp add: assms(2) sjf_occupy_racks_def Let_def)+

lemma sjf_avail_bit:
  assumes "bit (sjf_avail bs src dst) t"
  shows "bit (jb_allowed_mask bs) t" "bit (jb_src_endnodes bs (unat src)) t" "bit (jb_dst_endnodes bs (unat dst)) t"
    "jb_oversubscribed bs \<Longrightarrow> bit (jb_src_rack_bitmaps bs (sjf_rack src)) t"
    "jb_oversubscribed bs \<Longrightarrow> unat dst \<noteq> OUT_OF_BOUNDARY_NODE_ID \<Longrightarrow> bit (jb_dst_rack_bitmaps bs (sjf_rack dst)) t"
  using assms by (auto simp: sjf_avail_def Let_def bit_and_iff split: if_splits)

lemma ends_ok_take:
  assumes "ends_ok n bs t es" "sjf_set_timeslot_occupied bs src dst t = Some bs'" "bit (sjf_avail bs src dst) t"
    and "valid_flow n (src, dst)"
  shows "ends_ok n bs' t (es @ [\<lparr> je_src = src, je_dst = dst \<rparr>])"
  using assms(1,4) sjf_avail_bit(2,3) [OF assms(3)]
  unfolding ends_ok_def occupied_fields(5,6) [OF assms(2)]
  by (auto simp: jpair_def outside_def)

lemma boundary_ok_take:
  assumes "boundary_ok bs t es" "sjf_set_timeslot_occupied bs src dst t = Some bs'" "bit (sjf_avail bs src dst) t"
    and "length es < 65535"
  shows "boundary_ok bs' t (es @ [\<lparr> je_src = src, je_dst = dst \<rparr>])"
proof (cases "unat dst = OUT_OF_BOUNDARY_NODE_ID")
  case True
  then have "cap_ok (jb_out_of_boundary_capacity bs) (jb_out_of_boundary_counts bs t) True (load outside es)"
    using assms(1) sjf_avail_bit(3) [OF assms(3)] by (simp add: boundary_ok_def)
  from cap_ok_take [OF this] load_le [of outside es] assms(4)
  have "cap_ok (jb_out_of_boundary_capacity bs) (jb_out_of_boundary_counts bs t + 1)
      (jb_out_of_boundary_counts bs t + 1 \<noteq> jb_out_of_boundary_capacity bs) (Suc (load outside es))"
    by simp
  then show ?thesis
    using True by (auto simp: boundary_ok_def occupied_fields [OF assms(2)] outside_def elim: cap_ok_less)
next
  case False
  then show ?thesis
    using assms(1) by (auto simp: boundary_ok_def occupied_fields [OF assms(2)] outside_def)
qed

lemma rack_index_inj: "t < 64 \<Longrightarrow> t' < 64 \<Longrightarrow> 64 * r + t = 64 * r' + (t' :: nat) \<longleftrightarrow> r = r' \<and> t = t'"
  by (metis div_mult_self4 mod_less mod_mult_self4 add_left_cancel div_less add.right_neutral zero_neq_numeral)

lemma racks_ok_take:
  assumes "racks_ok bs t es" "sjf_set_timeslot_occupied bs src dst t = Some bs'" "bit (sjf_avail bs src dst) t"
    and "length es < 65535" "t < 64"
  shows "racks_ok bs' t (es @ [\<lparr> je_src = src, je_dst = dst \<rparr>])"
proof (cases "jb_oversubscribed bs")
  case True
  note f = occupied_rack_fields [OF assms(2) True, unfolded Let_def] occupied_fields(1,2) [OF assms(2)]
  have l: "load P es < 65535" for P
    using load_le [of P es] assms(4) by linarith
  show ?thesis
    unfolding racks_ok_def
  proof (intro impI allI conjI)
    fix r assume r: "r < MAX_RACKS"
    let ?s = "\<lambda>e. sjf_rack (je_src e) = r" and ?d = "\<lambda>e. \<not> outside e \<and> sjf_rack (je_dst e) = r"
    have s: "cap_ok (jb_inter_rack_capacity bs) (jb_src_rack_counts bs (SJF_BATCH_SIZE * r + t))
        (bit (jb_src_rack_bitmaps bs r) t) (load ?s es)"
      and d: "cap_ok (jb_inter_rack_capacity bs) (jb_dst_rack_counts bs (SJF_BATCH_SIZE * r + t))
        (bit (jb_dst_rack_bitmaps bs r) t) (load ?d es)"
      using assms(1) r True by (simp_all add: racks_ok_def)
    show "cap_ok (jb_inter_rack_capacity bs') (jb_src_rack_counts bs' (SJF_BATCH_SIZE * r + t))
        (bit (jb_src_rack_bitmaps bs' r) t) (load ?s (es @ [\<lparr> je_src = src, je_dst = dst \<rparr>]))"
      using s cap_ok_take [OF _ l, of "jb_inter_rack_capacity bs" "jb_src_rack_counts bs (SJF_BATCH_SIZE * r + t)" ?s]
        sjf_avail_bit(4) [OF assms(3) True]
      by (auto simp: f SJF_BATCH_SIZE_def elim: cap_ok_less)
    show "cap_ok (jb_inter_rack_capacity bs') (jb_dst_rack_counts bs' (SJF_BATCH_SIZE * r + t))
        (bit (jb_dst_rack_bitmaps bs' r) t) (load ?d (es @ [\<lparr> je_src = src, je_dst = dst \<rparr>]))"
      using d cap_ok_take [OF _ l, of "jb_inter_rack_capacity bs" "jb_dst_rack_counts bs (SJF_BATCH_SIZE * r + t)" ?d]
        sjf_avail_bit(5) [OF assms(3) True]
      by (auto simp: f SJF_BATCH_SIZE_def outside_def elim: cap_ok_less)
  qed
next
  case False
  then show ?thesis
    by (simp add: racks_ok_def occupied_fields(1) [OF assms(2)])
qed

lemma slot_ok_take:
  assumes "sjf_slot_ok n bs t es" "sjf_set_timeslot_occupied bs src dst t = Some bs'" "bit (sjf_avail bs src dst) t"
    and "valid_flow n (src, dst)" "n \<le> 255" "t < 64"
  shows "sjf_slot_ok n bs' t (es @ [\<lparr> je_src = src, je_dst = dst \<rparr>])"
proof -
  have "length es < 65535"
    using ends_ok_length [of n bs t es] assms(1,5) by (simp add: sjf_slot_ok_def)
  then show ?thesis
    using assms(1,4-6) ends_ok_take [OF _ assms(2,3)] boundary_ok_take [OF _ assms(2,3)] racks_ok_take [OF _ assms(2,3)]
    by (simp add: sjf_slot_ok_def)
qed

lemma slot_ok_other:
  assumes "sjf_slot_ok n bs t' es" "sjf_set_timeslot_occupied bs src dst t = Some bs'" "t \<noteq> t'" "t < 64" "t' < 64"
  shows "sjf_slot_ok n bs' t' es"
proof -
  have "ends_ok n bs' t' es" "boundary_ok bs' t' es"
    using assms(1,3) by (auto simp: sjf_slot_ok_def ends_ok_def boundary_ok_def occupied_fields [OF assms(2)] elim: cap_ok_less)
  moreover have "racks_ok bs' t' es"
  proof (cases "jb_oversubscribed bs")
    case True
    note f = occupied_rack_fields [OF assms(2) True, unfolded Let_def] occupied_fields(1,2) [OF assms(2)]
    show ?thesis
      using assms(1,3-5) True by (auto simp: sjf_slot_ok_def racks_ok_def f SJF_BATCH_SIZE_def rack_index_inj elim!: cap_ok_less)
  next
    case False
    then show ?thesis
      by (simp add: racks_ok_def occupied_fields(1) [OF assms(2)])
  qed
  ultimately show ?thesis
    by (simp add: sjf_slot_ok_def)
qed

lemma slot_ok_init:
  assumes "sjf_init_batch_state bs over rack_cap out_cap n = Some bs'" "t < 64" "0 < n"
  shows "sjf_slot_ok (unat n) bs' t []" "jb_allowed_mask bs' = NOT 0" "jb_oversubscribed bs' = over"
    "jb_inter_rack_capacity bs' = rack_cap" "jb_out_of_boundary_capacity bs' = out_cap"
  using assms
  by (auto simp: sjf_init_batch_state_def Let_def sjf_slot_ok_def ends_ok_def boundary_ok_def racks_ok_def cap_ok_def
      load_def fill_upto_def SJF_BATCH_SIZE_def MAX_RACKS_def unat_gt_0 split: bind_splits if_splits)

end
