(* ===== verification/FP_Sjf_Inv.thy ===== *)
theory FP_Sjf_Inv
  imports FP_Sjf_Slots
begin

unbundle bit_operations_syntax

text \<open>
  The invariant of a batch of the shortest-job-first allocator, in four parts: where the flows
  with backlog are (\<^verbatim>\<open>flow_inv\<close>, with what is granted and still to be requested), at least how
  much backlog the flows of a bin have (\<^verbatim>\<open>level_inv\<close>), that every timeslot is a matching
  within the capacities (\<^verbatim>\<open>slots_inv\<close>), and that the queues have room (\<^verbatim>\<open>room_inv\<close>). It is kept by
  the allocation of one flow and of a whole bin.

  Constants of a batch (\<^verbatim>\<open>sjf_ctx\<close>): the number of nodes, the flows that earlier batches lost,
  the sum of backlog, grants and requests to come of every flow, how many timeslots were sent
  out at a given moment and what they held, the configuration of the network. The parameters of the invariant: \<^verbatim>\<open>B\<close>, the new-request bins whose flows
  are in hand; \<^verbatim>\<open>k\<close> and \<^verbatim>\<open>m\<close>, the numbers of bins taken in and passed on; the script still to
  come; \<^verbatim>\<open>X\<close>, the flows in hand.
\<close>

subsection \<open>Definitions: where flows are\<close>

definition flow_backlog :: "sjf \<Rightarrow> flow \<Rightarrow> u32" where
  "flow_backlog s p = js_flows (j_status s) (sjf_status_index (fst p) (snd p))"

definition slot_edges :: "sjf \<Rightarrow> nat \<Rightarrow> sjf_edge list" where
  "slot_edges s t = ja_list (j_admitted s ! (jc_admitted (j_core s) ! t))"

definition grants :: "sjf \<Rightarrow> flow \<Rightarrow> nat" where
  "grants s p = (\<Sum>t < 64. count (mset (map jpair (slot_edges s t))) p)"

definition bin_flows :: "sjf_bin \<Rightarrow> flow multiset" where
  "bin_flows b = mset (map jpair (jbin_list b))"

definition ring_flows :: "sjf_bin fp_ring \<Rightarrow> flow multiset" where
  "ring_flows r = sum_list (map bin_flows (ring_list r))"

definition new_flows :: "nat set \<Rightarrow> sjf_bin list \<Rightarrow> flow multiset" where
  "new_flows B bs = sum_list (map (\<lambda>i. if i \<in> B then {#} else bin_flows (bs ! i)) [0..<length bs])"

definition out_flows :: "sjf_bin option list \<Rightarrow> flow multiset" where
  "out_flows bs = sum_list (map (case_option {#} bin_flows) bs)"

definition urgent_flows :: "u64 fp_ring \<Rightarrow> flow multiset" where
  "urgent_flows r = mset (map edge_flow (filter (\<lambda>x. x \<noteq> URGENT_Q_HEAD_TOKEN) (ring_list r)))"

definition head_flows :: "u64 fp_ring \<Rightarrow> flow multiset" where
  "head_flows r = mset (map edge_flow (ring_list r))"

definition places :: "nat set \<Rightarrow> sjf \<Rightarrow> flow multiset" where
  "places B s = sum_list (map ring_flows (j_bin_rings s)) + out_flows (jc_outgoing_bins (j_core s))
     + new_flows B (jc_new_request_bins (j_core s)) + head_flows (js_q_head (j_status s))
     + sum_list (map urgent_flows (j_urgent_rings s))"

fun event_bins :: "sjf_event \<Rightarrow> sjf_bin list" where
  "event_bins (BinArrives b) = [b]"
| "event_bins (Request src dst n) = []"

definition script_bins :: "sjf_script \<Rightarrow> sjf_bin list" where
  "script_bins script = concat (map (\<lambda>evs. concat (map event_bins evs)) script)"

definition script_flows :: "sjf_script \<Rightarrow> flow multiset" where
  "script_flows script = sum_list (map bin_flows (script_bins script))"

fun event_request :: "flow \<Rightarrow> sjf_event \<Rightarrow> nat" where
  "event_request p (Request src dst n) = (if p = (src, dst) then unat n else 0)"
| "event_request p (BinArrives b) = 0"

definition requested :: "sjf_script \<Rightarrow> flow \<Rightarrow> nat" where
  "requested script p = sum_list (map (\<lambda>evs. sum_list (map (event_request p) evs)) script)"

fun event_ok :: "nat \<Rightarrow> sjf_event \<Rightarrow> bool" where
  "event_ok n (Request src dst k) \<longleftrightarrow> valid_flow n (src, dst) \<and> k \<noteq> 0"
| "event_ok n (BinArrives b) \<longleftrightarrow> True"

definition script_ok :: "nat \<Rightarrow> sjf_script \<Rightarrow> bool" where
  "script_ok n script \<longleftrightarrow> (\<forall>evs \<in> set script. \<forall>ev \<in> set evs. event_ok n ev)"

subsection \<open>Definitions: the invariant\<close>

record sjf_ctx =
  kx_nodes :: nat
  kx_lost :: "flow set"
  kx_total :: "flow \<Rightarrow> nat"
  kx_closed :: nat
  kx_sent :: "nat \<Rightarrow> sjf_edge list"
  kx_config :: "bool \<times> u16 \<times> u16"

definition held :: "sjf_ctx \<Rightarrow> (flow \<Rightarrow> u32) \<Rightarrow> flow multiset \<Rightarrow> bool" where
  "held K f M \<longleftrightarrow> (\<forall>p. count M p = (if valid_flow (kx_nodes K) p \<and> f p \<noteq> 0 \<and> p \<notin> kx_lost K then 1 else 0))
     \<and> (\<forall>p \<in> kx_lost K. valid_flow (kx_nodes K) p \<and> f p \<noteq> 0)"

definition flow_inv :: "sjf_ctx \<Rightarrow> nat set \<Rightarrow> sjf_script \<Rightarrow> flow multiset \<Rightarrow> sjf \<Rightarrow> bool" where
  "flow_inv K B script X s \<longleftrightarrow> held K (flow_backlog s) (X + places B s + script_flows script)
     \<and> script_ok (kx_nodes K) script \<and> (\<forall>p \<in> kx_lost K. grants s p = 0)
     \<and> (\<forall>p. valid_flow (kx_nodes K) p \<longrightarrow>
          unat (flow_backlog s p) + grants s p + requested script p = kx_total K p \<and> kx_total K p < 4294967296)"

definition at_least :: "sjf \<Rightarrow> nat \<Rightarrow> sjf_bin \<Rightarrow> bool" where
  "at_least s i b \<longleftrightarrow> (\<forall>p \<in># bin_flows b. i < unat (flow_backlog s p))"

abbreviation in_ring :: "sjf \<Rightarrow> sjf_bin fp_ring" where
  "in_ring s \<equiv> j_bin_rings s ! jc_q_bin_in (j_core s)"

abbreviation out_ring :: "sjf \<Rightarrow> sjf_bin fp_ring" where
  "out_ring s \<equiv> j_bin_rings s ! jc_q_bin_out (j_core s)"

abbreviation urgent_out :: "sjf \<Rightarrow> u64 fp_ring" where
  "urgent_out s \<equiv> j_urgent_rings s ! jc_q_urgent_out (j_core s)"

definition stream :: "sjf_script \<Rightarrow> sjf \<Rightarrow> sjf_bin list" where
  "stream script s = ring_list (in_ring s) @ script_bins script"

definition urgent_ok :: "sjf \<Rightarrow> u64 \<Rightarrow> bool" where
  "urgent_ok s x \<longleftrightarrow> x = URGENT_Q_HEAD_TOKEN
     \<or> unat (EDGE_BIN x) < SJF_NUM_BINS \<and> unat (EDGE_BIN x) < unat (flow_backlog s (edge_flow x))"

definition level_inv :: "nat set \<Rightarrow> nat \<Rightarrow> sjf_script \<Rightarrow> sjf \<Rightarrow> bool" where
  "level_inv B k script s \<longleftrightarrow>
     (\<forall>i < SJF_NUM_BINS. i \<notin> B \<longrightarrow> at_least s i (jc_new_request_bins (j_core s) ! i))
   \<and> (\<forall>i < SJF_NUM_BINS. \<forall>b. jc_outgoing_bins (j_core s) ! i = Some b \<longrightarrow> at_least s i b)
   \<and> (\<forall>j < length (stream script s). at_least s ((k + j) mod SJF_NUM_BINS) (stream script s ! j))
   \<and> (\<forall>r \<in> set (j_urgent_rings s). \<forall>x \<in> set (ring_list r). urgent_ok s x)"

definition sjf_config :: "sjf_status \<Rightarrow> bool \<times> u16 \<times> u16" where
  "sjf_config st = (js_oversubscribed st, js_inter_rack_capacity st, js_out_of_boundary_capacity st)"

definition slots_inv :: "sjf_ctx \<Rightarrow> sjf \<Rightarrow> bool" where
  "slots_inv K s \<longleftrightarrow> (let bs = j_batch s; st = j_status s; adm = jc_admitted (j_core s) in
     kx_nodes K = unat (js_num_nodes st) \<and> 0 < kx_nodes K \<and> kx_nodes K \<le> 255
   \<and> length adm = SJF_BATCH_SIZE \<and> distinct adm \<and> (\<forall>p \<in> set adm. p < length (j_admitted s))
   \<and> (\<forall>t < 64. sjf_slot_ok (kx_nodes K) bs t (slot_edges s t))
   \<and> (\<forall>t < kx_closed K. \<not> bit (jb_allowed_mask bs) t \<and> slot_edges s t = kx_sent K t) \<and> kx_closed K \<le> 64
   \<and> jb_oversubscribed bs = js_oversubscribed st \<and> jb_inter_rack_capacity bs = js_inter_rack_capacity st
   \<and> jb_out_of_boundary_capacity bs = js_out_of_boundary_capacity st \<and> kx_config K = sjf_config st)"

definition tokens :: "u64 fp_ring \<Rightarrow> nat" where
  "tokens r = length (filter (\<lambda>x. x = URGENT_Q_HEAD_TOKEN) (ring_list r))"

definition room_inv :: "nat \<Rightarrow> nat \<Rightarrow> sjf_script \<Rightarrow> sjf \<Rightarrow> bool" where
  "room_inv k m script s \<longleftrightarrow> (let c = j_core s in
     (\<forall>r \<in> set (j_bin_rings s). ring_wf r) \<and> (\<forall>r \<in> set (j_urgent_rings s). ring_wf r)
   \<and> ring_wf (js_q_head (j_status s)) \<and> 65280 \<le> ring_room (js_q_head (j_status s))
   \<and> ring_wf (js_q_admitted_out (j_status s))
   \<and> jc_q_bin_in c < length (j_bin_rings s) \<and> jc_q_bin_out c < length (j_bin_rings s)
   \<and> jc_q_urgent_in c < length (j_urgent_rings s) \<and> jc_q_urgent_out c < length (j_urgent_rings s)
   \<and> 65282 \<le> ring_room (urgent_out s) \<and> tokens (urgent_out s) \<le> 1
   \<and> length (jc_new_request_bins c) = SJF_NUM_BINS \<and> length (jc_outgoing_bins c) = SJF_NUM_BINS
   \<and> length (jc_temporary_bins c) = SJF_NUM_BINS
   \<and> m \<le> k \<and> k \<le> SJF_NUM_BINS
   \<and> SJF_NUM_BINS \<le> k + length (stream script s)
   \<and> length (stream script s) \<le> ring_room (in_ring s)
   \<and> (if jc_q_bin_in c = jc_q_bin_out c
      then k + length (stream script s) = SJF_NUM_BINS + m \<and> script_bins script = [] \<and> SJF_NUM_BINS \<le> ring_room (in_ring s)
      else ring_count (out_ring s) + SJF_NUM_BINS \<le> ring_room (out_ring s) + m)
   \<and> (\<forall>i < SJF_NUM_BINS. jc_outgoing_bins c ! i = None \<longleftrightarrow> i < m))"

definition jinv :: "sjf_ctx \<Rightarrow> nat set \<Rightarrow> nat \<Rightarrow> nat \<Rightarrow> sjf_script \<Rightarrow> flow multiset \<Rightarrow> sjf \<Rightarrow> bool" where
  "jinv K B k m script X s \<longleftrightarrow> flow_inv K B script X s \<and> level_inv B k script s \<and> slots_inv K s \<and> room_inv k m script s"

text \<open>What the allocation of a flow does not touch.\<close>

definition sjf_frame :: "sjf \<Rightarrow> sjf" where
  "sjf_frame s = s\<lparr> j_core := (j_core s)\<lparr> jc_batch_state := undefined \<rparr>,
     j_status := (j_status s)\<lparr> js_flows := undefined, js_last_alloc_tslot := undefined, js_stat := undefined \<rparr>,
     j_admitted := undefined \<rparr>"

lemma frameD:
  assumes "sjf_frame s' = sjf_frame s"
  shows "j_bin_rings s' = j_bin_rings s" "j_urgent_rings s' = j_urgent_rings s"
    "js_q_head (j_status s') = js_q_head (j_status s)" "js_q_admitted_out (j_status s') = js_q_admitted_out (j_status s)"
    "js_num_nodes (j_status s') = js_num_nodes (j_status s)" "js_oversubscribed (j_status s') = js_oversubscribed (j_status s)"
    "js_inter_rack_capacity (j_status s') = js_inter_rack_capacity (j_status s)"
    "js_out_of_boundary_capacity (j_status s') = js_out_of_boundary_capacity (j_status s)"
    "js_current_timeslot (j_status s') = js_current_timeslot (j_status s)"
    "jc_new_request_bins (j_core s') = jc_new_request_bins (j_core s)" "jc_outgoing_bins (j_core s') = jc_outgoing_bins (j_core s)"
    "jc_temporary_bins (j_core s') = jc_temporary_bins (j_core s)" "jc_admitted (j_core s') = jc_admitted (j_core s)"
    "jc_is_head (j_core s') = jc_is_head (j_core s)" "jc_q_bin_in (j_core s') = jc_q_bin_in (j_core s)"
    "jc_q_bin_out (j_core s') = jc_q_bin_out (j_core s)" "jc_q_urgent_in (j_core s') = jc_q_urgent_in (j_core s)"
    "jc_q_urgent_out (j_core s') = jc_q_urgent_out (j_core s)"
  using assms by (cases s; cases s'; cases "j_core s"; cases "j_core s'"; cases "j_status s"; cases "j_status s'";
      simp add: sjf_frame_def)+

lemma frame_eqs:
  assumes "sjf_frame s' = sjf_frame s"
  shows "places B s' = places B s" "stream script s' = stream script s" "room_inv k m script s' = room_inv k m script s"
proof -
  note f = frameD [OF assms]
  show "places B s' = places B s" and st: "stream script s' = stream script s"
    by (simp_all add: places_def stream_def f)
  show "room_inv k m script s' = room_inv k m script s"
    by (simp add: room_inv_def Let_def f st)
qed

subsection \<open>Flows and their indices\<close>

lemma sjf_status_index_eq:
  assumes "unat src < 256" "unat dst < 256"
  shows "sjf_status_index src dst = 256 * unat src + unat dst"
proof -
  have "unat (push_bit FP_NODES_SHIFT (ucast src) :: u32) = 256 * unat src"
    using assms by (simp add: FP_NODES_SHIFT_def push_bit_eq_mult unat_word_ariths unat_ucast_u16_u32)
  then show ?thesis
    using assms by (simp add: sjf_status_index_def unat_word_ariths unat_ucast_u16_u32)
qed

lemma valid_index:
  assumes "valid_flow n p" "n \<le> 255"
  shows "sjf_status_index (fst p) (snd p) = 256 * unat (fst p) + unat (snd p)"
    "sjf_status_index (fst p) (snd p) < SJF_NUM_SRC_DST_PAIRS"
  using valid_flow_lt [OF assms] by (simp_all add: sjf_status_index_eq SJF_NUM_SRC_DST_PAIRS_def MAX_NODES_def)

lemma valid_index_inj:
  assumes "valid_flow n p" "valid_flow n q" "n \<le> 255"
    "sjf_status_index (fst p) (snd p) = sjf_status_index (fst q) (snd q)"
  shows "p = q"
proof -
  note p = valid_flow_lt [OF assms(1,3)] and q = valid_flow_lt [OF assms(2,3)]
  have e: "256 * unat (fst p) + unat (snd p) = 256 * unat (fst q) + unat (snd q)"
    using assms by (simp add: valid_index)
  then have "(256 * unat (fst p) + unat (snd p)) div 256 = (256 * unat (fst q) + unat (snd q)) div 256"
    "(256 * unat (fst p) + unat (snd p)) mod 256 = (256 * unat (fst q) + unat (snd q)) mod 256"
    by simp_all
  then show ?thesis
    using p q by (simp add: word_unat_eq_iff prod_eq_iff)
qed

lemma valid_flows_card:
  assumes "n \<le> 255"
  shows "finite {p. valid_flow n p}" "card {p. valid_flow n p} \<le> 65280"
proof -
  let ?f = "\<lambda>p :: flow. (unat (fst p), unat (snd p))"
  have sub: "?f ` {p. valid_flow n p} \<subseteq> {..<255} \<times> {..<256}"
    using valid_flow_lt [OF _ assms] by auto
  have inj: "inj_on ?f {p. valid_flow n p}"
    by (auto simp: inj_on_def word_unat_eq_iff)
  show "finite {p. valid_flow n p}"
    by simp
  have "card {p. valid_flow n p} = card (?f ` {p. valid_flow n p})"
    using card_image [OF inj] by simp
  also have "\<dots> \<le> card ({..<255 :: nat} \<times> {..<256 :: nat})"
    using sub by (intro card_mono) simp_all
  finally show "card {p. valid_flow n p} \<le> 65280"
    by simp
qed

lemma held_size:
  assumes "held K f M" "kx_nodes K \<le> 255"
  shows "size M \<le> 65280"
proof -
  have "set_mset M \<subseteq> {p. valid_flow (kx_nodes K) p}"
  proof
    fix p assume "p \<in># M"
    then have "count M p \<noteq> 0"
      by simp
    then show "p \<in> {p. valid_flow (kx_nodes K) p}"
      using assms(1) unfolding held_def by (metis mem_Collect_eq)
  qed
  moreover have "size M = card (set_mset M)"
    unfolding size_multiset_overloaded_eq
  proof -
    have "count M p = 1" if "p \<in># M" for p
      using assms(1) that unfolding held_def by (metis count_eq_zero_iff)
    then show "(\<Sum>p \<in> set_mset M. count M p) = card (set_mset M)"
      by simp
  qed
  ultimately show ?thesis
    using card_mono [OF valid_flows_card(1) [OF assms(2)], of "set_mset M"] valid_flows_card(2) [OF assms(2)] by linarith
qed

lemma held_mem:
  assumes "held K f M" "p \<in># M"
  shows "valid_flow (kx_nodes K) p" "f p \<noteq> 0" "p \<notin> kx_lost K" "count M p = 1"
proof -
  have "count M p \<noteq> 0"
    using assms(2) by simp
  then show "valid_flow (kx_nodes K) p" "f p \<noteq> 0" "p \<notin> kx_lost K" "count M p = 1"
    using assms(1) unfolding held_def by metis+
qed

lemma held_fresh:
  assumes "held K f (add_mset p M)"
  shows "p \<notin># M"
  using held_mem(4) [OF assms, of p] by (simp add: not_in_iff)

lemma held_cong: "held K f M \<Longrightarrow> (\<And>p. valid_flow (kx_nodes K) p \<Longrightarrow> (f' p = 0) = (f p = 0)) \<Longrightarrow> held K f' M"
  unfolding held_def by auto

lemma held_drop:
  assumes "held K f (add_mset p M)" "f' p = 0" "\<And>q. valid_flow (kx_nodes K) q \<Longrightarrow> q \<noteq> p \<Longrightarrow> f' q = f q"
  shows "held K f' M"
proof -
  have p: "count M p = 0" "p \<notin> kx_lost K"
    using held_fresh [OF assms(1)] held_mem(3) [OF assms(1), of p] by (simp_all add: not_in_iff)
  have "count M q = (if valid_flow (kx_nodes K) q \<and> f' q \<noteq> 0 \<and> q \<notin> kx_lost K then 1 else 0)" for q
  proof -
    have "count (add_mset p M) q = (if valid_flow (kx_nodes K) q \<and> f q \<noteq> 0 \<and> q \<notin> kx_lost K then 1 else 0)"
      using assms(1) unfolding held_def by blast
    then show ?thesis
      using assms(2,3) p by (cases "q = p") auto
  qed
  moreover have "\<forall>q \<in> kx_lost K. valid_flow (kx_nodes K) q \<and> f' q \<noteq> 0"
    using assms(1,3) p(2) unfolding held_def by metis
  ultimately show ?thesis
    unfolding held_def by blast
qed

subsection \<open>Membership in the places\<close>

lemma mem_sum_list: "p \<in># sum_list Ms \<longleftrightarrow> (\<exists>M \<in> set Ms. p \<in># M)"
  by (induction Ms) auto

lemma places_mem:
  "p \<in># places B s \<longleftrightarrow> (\<exists>r \<in> set (j_bin_rings s). \<exists>b \<in> set (ring_list r). p \<in># bin_flows b)
     \<or> (\<exists>b. Some b \<in> set (jc_outgoing_bins (j_core s)) \<and> p \<in># bin_flows b)
     \<or> (\<exists>i < length (jc_new_request_bins (j_core s)). i \<notin> B \<and> p \<in># bin_flows (jc_new_request_bins (j_core s) ! i))
     \<or> (\<exists>x \<in> set (ring_list (js_q_head (j_status s))). p = edge_flow x)
     \<or> (\<exists>r \<in> set (j_urgent_rings s). \<exists>x \<in> set (ring_list r). x \<noteq> URGENT_Q_HEAD_TOKEN \<and> p = edge_flow x)"
proof -
  have "p \<in># out_flows bs \<longleftrightarrow> (\<exists>b. Some b \<in> set bs \<and> p \<in># bin_flows b)" for bs
    unfolding out_flows_def mem_sum_list by (force split: option.splits)
  moreover have "p \<in># new_flows B bs \<longleftrightarrow> (\<exists>i < length bs. i \<notin> B \<and> p \<in># bin_flows (bs ! i))" for bs
    unfolding new_flows_def mem_sum_list by (force split: if_splits)
  ultimately show ?thesis
    unfolding places_def ring_flows_def urgent_flows_def head_flows_def by (auto simp: mem_sum_list)
qed

lemma places_new: "i < length (jc_new_request_bins (j_core s)) \<Longrightarrow> i \<notin> B \<Longrightarrow>
    p \<in># bin_flows (jc_new_request_bins (j_core s) ! i) \<Longrightarrow> p \<in># places B s"
  unfolding places_mem by blast

lemma places_out: "i < length (jc_outgoing_bins (j_core s)) \<Longrightarrow> jc_outgoing_bins (j_core s) ! i = Some b \<Longrightarrow>
    p \<in># bin_flows b \<Longrightarrow> p \<in># places B s"
  unfolding places_mem by (metis nth_mem)

lemma places_urgent: "r \<in> set (j_urgent_rings s) \<Longrightarrow> x \<in> set (ring_list r) \<Longrightarrow> x \<noteq> URGENT_Q_HEAD_TOKEN \<Longrightarrow>
    edge_flow x \<in># places B s"
  unfolding places_mem by blast

lemma places_ring: "r \<in> set (j_bin_rings s) \<Longrightarrow> b \<in> set (ring_list r) \<Longrightarrow> p \<in># bin_flows b \<Longrightarrow> p \<in># places B s"
  unfolding places_mem by blast

lemma script_flows_mem: "p \<in># script_flows script \<longleftrightarrow> (\<exists>b \<in> set (script_bins script). p \<in># bin_flows b)"
  by (simp add: script_flows_def mem_sum_list)

lemma stream_mem:
  assumes "b \<in> set (stream script s)" "jc_q_bin_in (j_core s) < length (j_bin_rings s)" "p \<in># bin_flows b"
  shows "p \<in># places B s + script_flows script"
  using assms places_ring [of "in_ring s" s b p B] by (auto simp: stream_def script_flows_mem)

lemma at_least_mono:
  assumes "at_least s i b" "\<And>p. p \<in># bin_flows b \<Longrightarrow> unat (flow_backlog s p) \<le> unat (flow_backlog s' p)"
  shows "at_least s' i b"
  using assms unfolding at_least_def by (meson less_le_trans)

lemma level_inv_mono:
  assumes inv: "level_inv B k script s" "room_inv k m script s" and f: "sjf_frame s' = sjf_frame s"
    and le: "\<And>q. q \<in># places B s + script_flows script \<Longrightarrow> unat (flow_backlog s q) \<le> unat (flow_backlog s' q)"
  shows "level_inv B k script s'"
proof -
  note eqs = frameD [OF f] frame_eqs [OF f]
  note v = inv(1) [unfolded level_inv_def]
  have len: "length (jc_new_request_bins (j_core s)) = SJF_NUM_BINS" "length (jc_outgoing_bins (j_core s)) = SJF_NUM_BINS"
    "jc_q_bin_in (j_core s) < length (j_bin_rings s)"
    using inv(2) by (simp_all add: room_inv_def Let_def)
  have "at_least s' i (jc_new_request_bins (j_core s) ! i)" if "i < SJF_NUM_BINS" "i \<notin> B" for i
  proof (rule at_least_mono [of s i])
    show "at_least s i (jc_new_request_bins (j_core s) ! i)"
      using v that by blast
    show "unat (flow_backlog s p) \<le> unat (flow_backlog s' p)"
      if "p \<in># bin_flows (jc_new_request_bins (j_core s) ! i)" for p
      using places_new [of i s B p] that \<open>i < _\<close> \<open>i \<notin> B\<close> len by (intro le) simp
  qed
  moreover have "at_least s' i b" if "i < SJF_NUM_BINS" "jc_outgoing_bins (j_core s) ! i = Some b" for i b
  proof (rule at_least_mono [of s i])
    show "at_least s i b"
      using v that by blast
    show "unat (flow_backlog s p) \<le> unat (flow_backlog s' p)" if "p \<in># bin_flows b" for p
      using places_out [of i s b p B] that \<open>i < _\<close> \<open>_ = Some b\<close> len by (intro le) simp
  qed
  moreover have "at_least s' ((k + j) mod SJF_NUM_BINS) (stream script s ! j)" if "j < length (stream script s)" for j
  proof (rule at_least_mono)
    show "at_least s ((k + j) mod SJF_NUM_BINS) (stream script s ! j)"
      using v that by blast
    show "unat (flow_backlog s p) \<le> unat (flow_backlog s' p)" if "p \<in># bin_flows (stream script s ! j)" for p
      by (rule le, rule stream_mem [OF nth_mem len(3) that]) (rule \<open>j < _\<close>)
  qed
  moreover have "urgent_ok s' x" if "r \<in> set (j_urgent_rings s)" "x \<in> set (ring_list r)" for r x
  proof (cases "x = URGENT_Q_HEAD_TOKEN")
    case False
    then have "unat (flow_backlog s (edge_flow x)) \<le> unat (flow_backlog s' (edge_flow x))"
      using that places_urgent [of r s x B] by (intro le) simp
    moreover have "urgent_ok s x"
      using v that by blast
    ultimately show ?thesis
      by (auto simp: urgent_ok_def)
  qed (simp add: urgent_ok_def)
  ultimately show ?thesis
    unfolding level_inv_def eqs by blast
qed

subsection \<open>Allocating one timeslot\<close>

lemma ja_list_insert:
  assumes "sjf_insert_admitted_edge a src dst = Some a'"
  shows "ja_list a' = ja_list a @ [\<lparr> je_src = src, je_dst = dst \<rparr>]"
proof -
  have n: "unat (ja_size a) < 256"
    using assms by (auto simp: sjf_insert_admitted_edge_def MAX_NODES_def guard_o_def split: if_splits bind_splits)
  then have "unat (ja_size a + 1) = Suc (unat (ja_size a))"
    by (simp add: unat_word_ariths)
  then show ?thesis
    using assms by (auto simp: sjf_insert_admitted_edge_def ja_list_def split: bind_splits)
qed

lemma length_ja_list [simp]: "length (ja_list a) = unat (ja_size a)"
  by (simp add: ja_list_def)

lemma sjf_allocate_shape:
  assumes inv: "slots_inv K s" and t: "t < 64" and a: "bit (sjf_avail (j_batch s) src dst) t"
    and v: "valid_flow (kx_nodes K) (src, dst)"
  obtains s' where "sjf_allocate t src dst s = Some s'" "sjf_frame s' = sjf_frame s"
    "sjf_set_timeslot_occupied (j_batch s) src dst t = Some (j_batch s')"
    "slot_edges s' t = slot_edges s t @ [\<lparr> je_src = src, je_dst = dst \<rparr>]"
    "\<forall>t' < 64. t' \<noteq> t \<longrightarrow> slot_edges s' t' = slot_edges s t'"
    "length (j_admitted s') = length (j_admitted s)"
    "js_flows (j_status s') = (js_flows (j_status s))(sjf_status_index src dst := js_flows (j_status s) (sjf_status_index src dst) - 1)"
proof -
  let ?adm = "jc_admitted (j_core s)"
  let ?p = "?adm ! t"
  have N: "kx_nodes K \<le> 255" and len: "length ?adm = 64" "distinct ?adm" "\<forall>p \<in> set ?adm. p < length (j_admitted s)"
    and sl: "sjf_slot_ok (kx_nodes K) (j_batch s) t (slot_edges s t)"
    using inv t unfolding slots_inv_def Let_def SJF_BATCH_SIZE_def by blast+
  have p: "?p < length (j_admitted s)"
    using len t by simp
  note lt = valid_flow_lt [OF v N, simplified]
  obtain bs' where bs: "sjf_set_timeslot_occupied (j_batch s) src dst t = Some bs'"
    using lt t by (simp add: sjf_set_timeslot_occupied_def guard_o_def MAX_NODES_def SJF_BATCH_SIZE_def Let_def)
  have "length (slot_edges s t) \<le> kx_nodes K"
    using sl N unfolding sjf_slot_ok_def by (blast intro: ends_ok_length)
  then have "unat (ja_size (j_admitted s ! ?p)) < 256"
    using N by (simp add: slot_edges_def)
  then obtain a' where a': "sjf_insert_admitted_edge (j_admitted s ! ?p) src dst = Some a'"
    using lt by (simp add: sjf_insert_admitted_edge_def guard_o_def MAX_NODES_def)
  have "?p \<noteq> ?adm ! t'" if "t' < 64" "t' \<noteq> t" for t'
    using len(1,2) that t by (simp add: nth_eq_iff_index_eq)
  moreover define s' where "s' = s\<lparr> j_core := (j_core s)\<lparr> jc_batch_state := bs' \<rparr>, j_admitted := (j_admitted s)[?p := a'],
      j_status := (j_status s)\<lparr>
        js_last_alloc_tslot := (js_last_alloc_tslot (j_status s))
          (sjf_status_index src dst := js_current_timeslot (j_status s) + of_nat t),
        js_flows := (js_flows (j_status s))
          (sjf_status_index src dst := js_flows (j_status s) (sjf_status_index src dst) - 1) \<rparr> \<rparr>"
  moreover have "sjf_allocate t src dst s = Some s'"
    using p t len(1) by (simp add: sjf_allocate_def bs a' guard_o_def s'_def Let_def)
  ultimately show thesis
    using p ja_list_insert [OF a'] bs by (intro that [of s']) (simp_all add: sjf_frame_def slot_edges_def s'_def)
qed

lemma grants_give:
  assumes "t < 64" "slot_edges s' t = slot_edges s t @ [e]"
    "\<And>t'. t' < 64 \<Longrightarrow> t' \<noteq> t \<Longrightarrow> slot_edges s' t' = slot_edges s t'"
  shows "grants s' p = grants s p + (if p = jpair e then 1 else 0)"
proof -
  let ?g = "\<lambda>s t. count (mset (map jpair (slot_edges s t))) p"
  have "(\<Sum>t' \<in> {..<64} - {t}. ?g s' t') = (\<Sum>t' \<in> {..<64} - {t}. ?g s t')"
    using assms(3) by (intro sum.cong) auto
  then show ?thesis
    using assms(1,2) by (simp add: grants_def sum.remove [of "{..<64}" t])
qed

lemma slots_inv_give:
  assumes inv: "slots_inv K s" and t: "t < 64" and a: "bit (sjf_avail (j_batch s) src dst) t"
    and v: "valid_flow (kx_nodes K) (src, dst)" and f: "sjf_frame s' = sjf_frame s"
    and bs: "sjf_set_timeslot_occupied (j_batch s) src dst t = Some (j_batch s')"
    and sl: "slot_edges s' t = slot_edges s t @ [\<lparr> je_src = src, je_dst = dst \<rparr>]"
      "\<And>t'. t' < 64 \<Longrightarrow> t' \<noteq> t \<Longrightarrow> slot_edges s' t' = slot_edges s t'"
    and len: "length (j_admitted s') = length (j_admitted s)"
  shows "slots_inv K s'"
proof -
  note i = inv [unfolded slots_inv_def Let_def]
  have "sjf_slot_ok (kx_nodes K) (j_batch s') t' (slot_edges s' t')" if "t' < 64" for t'
    using i slot_ok_take [OF _ bs a v _ t] slot_ok_other [OF _ bs _ t that] sl that by (cases "t' = t") auto
  moreover have "\<not> bit (jb_allowed_mask (j_batch s)) t' \<and> slot_edges s' t' = kx_sent K t'" if "t' < kx_closed K" for t'
  proof -
    have "\<not> bit (jb_allowed_mask (j_batch s)) t'" "t' < 64" "slot_edges s t' = kx_sent K t'"
      using i that by auto
    then show ?thesis
      using sl(2) sjf_avail_bit(1) [OF a] by metis
  qed
  ultimately show ?thesis
    using i by (simp add: slots_inv_def Let_def sjf_config_def frameD [OF f] occupied_fields [OF bs] len)
qed

lemma sjf_allocate_ok:
  assumes inv: "jinv K B k m script (add_mset (src, dst) X) s"
    and t: "t < 64" and a: "bit (sjf_avail (j_batch s) src dst) t"
  shows "wp (sjf_allocate t src dst s) (\<lambda>s'. sjf_frame s' = sjf_frame s
    \<and> (\<forall>q. valid_flow (kx_nodes K) q \<longrightarrow>
        flow_backlog s' q = (if q = (src, dst) then flow_backlog s q - 1 else flow_backlog s q))
    \<and> jb_src_endnodes (j_batch s') (unat src) = clear_slot t (jb_src_endnodes (j_batch s) (unat src))
    \<and> jb_allowed_mask (j_batch s') = jb_allowed_mask (j_batch s)
    \<and> jinv K B k m script (if flow_backlog s (src, dst) = 1 then X else add_mset (src, dst) X) s')"
proof -
  let ?p = "(src, dst)" and ?M = "X + places B s + script_flows script"
  have fi: "flow_inv K B script (add_mset ?p X) s" and sl: "slots_inv K s" and rm: "room_inv k m script s"
    and lv: "level_inv B k script s"
    using inv by (simp_all add: jinv_def)
  then have fl: "held K (flow_backlog s) (add_mset ?p ?M)" and so: "script_ok (kx_nodes K) script"
    by (simp_all add: flow_inv_def)
  have lg: "grants s q = 0" if "q \<in> kx_lost K" for q
    using fi that unfolding flow_inv_def by blast
  have tot: "unat (flow_backlog s q) + grants s q + requested script q = kx_total K q \<and> kx_total K q < 4294967296"
    if "valid_flow (kx_nodes K) q" for q
    using fi that unfolding flow_inv_def by blast
  have v: "valid_flow (kx_nodes K) ?p" and nz: "flow_backlog s ?p \<noteq> 0"
    using held_mem [OF fl, of ?p] by simp_all
  have N: "kx_nodes K \<le> 255"
    using sl by (simp add: slots_inv_def Let_def)
  obtain s' where s': "sjf_allocate t src dst s = Some s'" and f: "sjf_frame s' = sjf_frame s"
    and bs: "sjf_set_timeslot_occupied (j_batch s) src dst t = Some (j_batch s')"
    and sl1: "slot_edges s' t = slot_edges s t @ [\<lparr> je_src = src, je_dst = dst \<rparr>]"
    and sl2: "\<forall>t' < 64. t' \<noteq> t \<longrightarrow> slot_edges s' t' = slot_edges s t'"
    and len: "length (j_admitted s') = length (j_admitted s)"
    and fu: "js_flows (j_status s') = (js_flows (j_status s))
      (sjf_status_index src dst := js_flows (j_status s) (sjf_status_index src dst) - 1)"
    by (rule sjf_allocate_shape [OF sl t a v])
  note sle = sl1 sl2 [rule_format]
  have b: "flow_backlog s' q = (if q = ?p then flow_backlog s q - 1 else flow_backlog s q)" if "valid_flow (kx_nodes K) q" for q
  proof (cases "q = ?p")
    case False
    then have "sjf_status_index (fst q) (snd q) \<noteq> sjf_status_index src dst"
      using valid_index_inj [OF that v N] by (metis fst_conv snd_conv)
    then show ?thesis
      using False by (simp only: flow_backlog_def fu fun_upd_apply simp_thms if_False)
  qed (simp add: flow_backlog_def fu)
  have dec: "unat (flow_backlog s' ?p) + 1 = unat (flow_backlog s ?p)"
    using nz by (simp add: b v unat_minus_one unat_gt_0)
  let ?X = "if flow_backlog s ?p = 1 then X else add_mset ?p X"
  have "held K (flow_backlog s') (?X + places B s' + script_flows script)"
  proof (cases "flow_backlog s ?p = 1")
    case True
    have "flow_backlog s' ?p = 0"
      by (simp only: b [OF v] True) simp
    then have "held K (flow_backlog s') ?M"
      by (rule held_drop [OF fl]) (simp only: b if_False)
    then show ?thesis
      by (simp only: frame_eqs(1) [OF f] True simp_thms if_True)
  next
    case False
    have "flow_backlog s' ?p \<noteq> 0"
      using False by (simp add: b [OF v])
    then have "held K (flow_backlog s') (add_mset ?p ?M)"
      using nz by (intro held_cong [OF fl]) (metis b)
    then show ?thesis
      by (simp only: frame_eqs(1) [OF f] False simp_thms if_False union_mset_add_mset_left)
  qed
  moreover have "unat (flow_backlog s' q) + grants s' q + requested script q = kx_total K q" if "valid_flow (kx_nodes K) q" for q
    using tot [OF that] dec grants_give [OF t sle] by (cases "q = ?p") (simp_all add: b that jpair_def)
  moreover have "grants s' q = 0" if "q \<in> kx_lost K" for q
    using lg [OF that] held_mem(3) [OF fl, of ?p] that grants_give [OF t sle, of q] by (auto simp: jpair_def)
  ultimately have "flow_inv K B script ?X s'"
    using so tot unfolding flow_inv_def by blast
  moreover have "level_inv B k script s'"
  proof (rule level_inv_mono [OF lv rm f])
    fix q assume "q \<in># places B s + script_flows script"
    then have "q \<in># ?M"
      by auto
    then have "q \<noteq> ?p" "valid_flow (kx_nodes K) q"
      using held_fresh [OF fl] held_mem(1) [OF fl, of q] by auto
    then show "unat (flow_backlog s q) \<le> unat (flow_backlog s' q)"
      by (simp add: b)
  qed
  ultimately have "jinv K B k m script ?X s'"
    using rm slots_inv_give [OF sl t a v f bs sle len] unfolding jinv_def frame_eqs(3) [OF f] by blast
  moreover have "jb_src_endnodes (j_batch s') (unat src) = clear_slot t (jb_src_endnodes (j_batch s) (unat src))"
    by (simp add: occupied_fields(5) [OF bs])
  ultimately show ?thesis
    unfolding s' wp_Some using f b occupied_fields(4) [OF bs] by blast
qed

subsection \<open>Allocating a flow\<close>

definition open_slots :: "sjf \<Rightarrow> u16 \<Rightarrow> nat" where
  "open_slots s src = card {t. t < 64 \<and> bit (jb_src_endnodes (j_batch s) (unat src)) t}"

lemma open_slots_le: "open_slots s src \<le> 64"
  using card_mono [of "{..<64 :: nat}" "{t. t < 64 \<and> bit (jb_src_endnodes (j_batch s) (unat src)) t}"]
  by (auto simp: open_slots_def)

lemma open_slots_clear:
  assumes "jb_src_endnodes (j_batch s') (unat src) = clear_slot t (jb_src_endnodes (j_batch s) (unat src))"
    "t < 64" "bit (jb_src_endnodes (j_batch s) (unat src)) t"
  shows "Suc (open_slots s' src) = open_slots s src"
proof -
  have "{t. t < 64 \<and> bit (jb_src_endnodes (j_batch s) (unat src)) t}
      = insert t {t. t < 64 \<and> bit (jb_src_endnodes (j_batch s') (unat src)) t}"
    using assms by auto
  moreover have "t \<notin> {t. t < 64 \<and> bit (jb_src_endnodes (j_batch s') (unat src)) t}"
    by (simp add: assms(1))
  ultimately show ?thesis
    by (simp add: open_slots_def)
qed

lemma jinv_hand:
  assumes "jinv K B k m script (add_mset p X) s"
  shows "valid_flow (kx_nodes K) p" "flow_backlog s p \<noteq> 0" "kx_nodes K \<le> 255"
    "p \<notin># X + places B s + script_flows script"
proof -
  have h: "held K (flow_backlog s) (add_mset p (X + places B s + script_flows script))"
    using assms by (simp add: jinv_def flow_inv_def)
  show "valid_flow (kx_nodes K) p" "flow_backlog s p \<noteq> 0" "p \<notin># X + places B s + script_flows script"
    using held_mem [OF h, of p] held_fresh [OF h] by simp_all
  show "kx_nodes K \<le> 255"
    using assms by (simp add: jinv_def slots_inv_def Let_def)
qed

lemma get_first_timeslot_ok:
  assumes "valid_flow n (src, dst)" "n \<le> 255"
  shows "sjf_get_first_timeslot bs src dst =
    Some (if sjf_avail bs src dst = 0 then NONE_AVAILABLE else lsb_of (sjf_avail bs src dst))"
  using valid_flow_lt [OF assms] by (simp add: sjf_get_first_timeslot_def guard_o_def MAX_NODES_def Let_def)

definition spends :: "sjf_ctx \<Rightarrow> flow \<Rightarrow> sjf \<Rightarrow> sjf \<Rightarrow> bool" where
  "spends K p s s' \<longleftrightarrow> sjf_frame s' = sjf_frame s \<and> jb_allowed_mask (j_batch s') = jb_allowed_mask (j_batch s)
     \<and> (\<forall>q. valid_flow (kx_nodes K) q \<longrightarrow> q \<noteq> p \<longrightarrow> flow_backlog s' q = flow_backlog s q)"

lemma spends_trans: "spends K p s s' \<Longrightarrow> spends K p s' s'' \<Longrightarrow> spends K p s s''"
  by (simp add: spends_def)

lemma sjf_try_allocation_ok:
  assumes "jinv K B k m script (add_mset (src, dst) X) s"
  shows "wp (sjf_try_allocation src dst s) (\<lambda>(rc, s'). spends K (src, dst) s s'
    \<and> jinv K B k m script (if rc then add_mset (src, dst) X else X) s'
    \<and> (rc \<longrightarrow> unat (flow_backlog s (src, dst)) \<le> unat (flow_backlog s' (src, dst)) + open_slots s src))"
  using assms
proof (induction "open_slots s src" arbitrary: s rule: less_induct)
  case less
  let ?p = "(src, dst)" and ?a = "sjf_avail (j_batch s) src dst"
  note h = jinv_hand [OF less.prems]
  show ?case
  proof (cases "?a = 0")
    case True
    then show ?thesis
      using less.prems
      by (subst sjf_try_allocation.simps) (simp add: get_first_timeslot_ok [OF h(1,3)] spends_def)
  next
    case False
    let ?t = "lsb_of ?a"
    note t = lsb_of_Some(1,2) [OF False]
    have ft: "sjf_get_first_timeslot (j_batch s) src dst = Some ?t" and tn: "?t \<noteq> NONE_AVAILABLE"
      using False t(2) by (simp_all add: get_first_timeslot_ok [OF h(1,3)] NONE_AVAILABLE_def)
    obtain s1 where s1: "sjf_allocate ?t src dst s = Some s1" "sjf_frame s1 = sjf_frame s"
      and b: "\<forall>q. valid_flow (kx_nodes K) q \<longrightarrow> flow_backlog s1 q = (if q = ?p then flow_backlog s q - 1 else flow_backlog s q)"
      and c: "jb_src_endnodes (j_batch s1) (unat src) = clear_slot ?t (jb_src_endnodes (j_batch s) (unat src))"
        "jb_allowed_mask (j_batch s1) = jb_allowed_mask (j_batch s)"
      and inv: "jinv K B k m script (if flow_backlog s ?p = 1 then X else add_mset ?p X) s1"
      using wpD [OF sjf_allocate_ok [OF less.prems t(2,1)]] by blast
    have os: "Suc (open_slots s1 src) = open_slots s src"
      using open_slots_clear [OF c(1) t(2)] sjf_avail_bit(2) [OF t(1)] by simp
    have sp: "spends K ?p s s1" and p1: "flow_backlog s1 ?p = flow_backlog s ?p - 1"
      using b s1(2) c(2) h(1) by (simp_all add: spends_def)
    have unf: "sjf_try_allocation src dst s =
        (if flow_backlog s1 ?p \<noteq> 0 then sjf_try_allocation src dst s1 else Some (False, s1))"
      by (subst sjf_try_allocation.simps) (simp add: ft tn s1(1) flow_backlog_def)
    show ?thesis
    proof (cases "flow_backlog s ?p = 1")
      case True
      then show ?thesis
        using inv sp p1 by (simp add: unf)
    next
      case False
      then have nz: "flow_backlog s1 ?p \<noteq> 0"
        by (simp add: p1)
      have dec: "unat (flow_backlog s ?p) = Suc (unat (flow_backlog s1 ?p))"
        using h(2) by (simp add: p1 unat_minus_one unat_gt_0)
      have "jinv K B k m script (add_mset ?p X) s1"
        using inv False by simp
      from less.hyps [OF _ this] os
      have "wp (sjf_try_allocation src dst s1) (\<lambda>(rc, s'). spends K ?p s1 s'
        \<and> jinv K B k m script (if rc then add_mset ?p X else X) s'
        \<and> (rc \<longrightarrow> unat (flow_backlog s1 ?p) \<le> unat (flow_backlog s' ?p) + open_slots s1 src))"
        by simp
      then show ?thesis
        using nz by (simp only: unf simp_thms if_True, elim wp_mono)
          (use os dec spends_trans [OF sp] in \<open>force split: if_splits\<close>)
    qed
  qed
qed

end
