(* ===== verification/FP_Sjf_Step.thy ===== *)
theory FP_Sjf_Step
  imports FP_Sjf_Inv
begin

unbundle bit_operations_syntax

text \<open>
  The steps of a batch of the shortest-job-first allocator keep its invariant: moving a flow
  between the hand of the core and its bins and rings, allocating a whole bin, looking at the
  queues of new requests, and what the other cores do meanwhile.
\<close>

subsection \<open>States that differ in their queues only\<close>

definition same_alloc :: "sjf \<Rightarrow> sjf \<Rightarrow> bool" where
  "same_alloc s s' \<longleftrightarrow> j_batch s' = j_batch s \<and> j_admitted s' = j_admitted s \<and> jc_admitted (j_core s') = jc_admitted (j_core s)
     \<and> js_flows (j_status s') = js_flows (j_status s) \<and> js_num_nodes (j_status s') = js_num_nodes (j_status s)
     \<and> js_oversubscribed (j_status s') = js_oversubscribed (j_status s)
     \<and> js_inter_rack_capacity (j_status s') = js_inter_rack_capacity (j_status s)
     \<and> js_out_of_boundary_capacity (j_status s') = js_out_of_boundary_capacity (j_status s)"

lemma slots_inv_cong:
  assumes "j_batch s' = j_batch s" "j_admitted s' = j_admitted s" "jc_admitted (j_core s') = jc_admitted (j_core s)"
    "js_num_nodes (j_status s') = js_num_nodes (j_status s)" "js_oversubscribed (j_status s') = js_oversubscribed (j_status s)"
    "js_inter_rack_capacity (j_status s') = js_inter_rack_capacity (j_status s)"
    "js_out_of_boundary_capacity (j_status s') = js_out_of_boundary_capacity (j_status s)"
  shows "slots_inv K s' = slots_inv K s"
  unfolding slots_inv_def Let_def slot_edges_def sjf_config_def assms by (rule refl)

lemma same_alloc_eqs:
  assumes "same_alloc s s'"
  shows "flow_backlog s' = flow_backlog s" "slot_edges s' = slot_edges s" "grants s' = grants s"
    "at_least s' = at_least s" "urgent_ok s' = urgent_ok s" "slots_inv K s' = slots_inv K s"
proof -
  show f: "flow_backlog s' = flow_backlog s" and e: "slot_edges s' = slot_edges s"
    using assms by (simp_all add: fun_eq_iff same_alloc_def flow_backlog_def slot_edges_def)
  show "grants s' = grants s" "at_least s' = at_least s" "urgent_ok s' = urgent_ok s"
    by (simp_all add: fun_eq_iff grants_def at_least_def urgent_ok_def f e)
  show "slots_inv K s' = slots_inv K s"
    using assms by (intro slots_inv_cong) (simp_all add: same_alloc_def)
qed

lemma jinv_move_script:
  assumes inv: "jinv K B k m script X s" and sa: "same_alloc s s'"
    and pl: "X' + places B' s' + script_flows script' = X + places B s + script_flows script"
    and sc: "requested script' = requested script" "script_ok (kx_nodes K) script'"
    and lv: "level_inv B' k' script' s'" and rm: "room_inv k' m' script' s'"
  shows "jinv K B' k' m' script' X' s'"
proof -
  have "flow_inv K B' script' X' s'"
    using inv pl sc by (simp add: jinv_def flow_inv_def same_alloc_eqs [OF sa])
  then show ?thesis
    using inv lv rm by (simp add: jinv_def same_alloc_eqs [OF sa])
qed

lemma jinv_move:
  assumes inv: "jinv K B k m script X s" and sa: "same_alloc s s'"
    and pl: "X' + places B' s' = X + places B s"
    and lv: "level_inv B' k' script s'" and rm: "room_inv k' m' script s'"
  shows "jinv K B' k' m' script X' s'"
  using inv by (intro jinv_move_script [OF inv sa _ _ _ lv rm]) (simp_all add: pl jinv_def flow_inv_def)

lemma sum_map_upd:
  fixes f :: "'a \<Rightarrow> flow multiset"
  assumes "i < length xs"
  shows "sum_list (map f (xs[i := y])) + f (xs ! i) = sum_list (map f xs) + f y"
  using sum_list_upd [of i "map f xs" "f y"] assms by (simp add: map_update)

lemma new_flows_upd:
  assumes "i < length bs" "i \<notin> B"
  shows "new_flows B (bs[i := b]) + bin_flows (bs ! i) = new_flows B bs + bin_flows b"
proof -
  let ?f = "\<lambda>bs i. if i \<in> B then {#} else bin_flows (bs ! i)"
  have "map (?f (bs[i := b])) [0..<length bs] = (map (?f bs) [0..<length bs])[i := bin_flows b]"
    using assms by (intro nth_equalityI) (auto simp: nth_list_update)
  then show ?thesis
    using sum_list_upd [of i "map (?f bs) [0..<length bs]" "bin_flows b"] assms by (simp add: new_flows_def)
qed

lemma new_flows_skip: "i \<in> B \<Longrightarrow> new_flows B (bs[i := b]) = new_flows B bs"
  unfolding new_flows_def length_list_update
  by (intro arg_cong [where f = sum_list] map_cong refl) (metis nth_list_update_neq)

lemma new_flows_open:
  assumes "i < length bs" "i \<notin> B"
  shows "new_flows B bs = bin_flows (bs ! i) + new_flows (insert i B) bs"
proof -
  let ?f = "\<lambda>B i. if i \<in> B then {#} else bin_flows (bs ! i)"
  have "map (?f (insert i B)) [0..<length bs] = (map (?f B) [0..<length bs])[i := {#}]"
    using assms by (intro nth_equalityI) (auto simp: nth_list_update)
  then show ?thesis
    using sum_list_upd [of i "map (?f B) [0..<length bs]" "{#}"] assms by (simp add: new_flows_def ac_simps)
qed

lemma out_flows_upd:
  assumes "i < length bs"
  shows "out_flows (bs[i := x]) + case_option {#} bin_flows (bs ! i) = out_flows bs + case_option {#} bin_flows x"
  using sum_map_upd [OF assms, of "case_option {#} bin_flows" x] by (simp add: out_flows_def)

lemma bin_flows_size: "size (bin_flows b) = length (jbin_list b)"
  by (simp add: bin_flows_def)

lemma bin_flows_enqueue:
  assumes "length (jbin_list b) < 65535"
  shows "bin_flows (sjf_enqueue_bin b src dst) = add_mset (src, dst) (bin_flows b)"
  using assms by (simp add: bin_flows_def jbin_list_enqueue jpair_def)

lemma jinv_size:
  assumes "jinv K B k m script X s"
  shows "size (X + places B s + script_flows script) \<le> 65280"
proof -
  have "held K (flow_backlog s) (X + places B s + script_flows script)" "kx_nodes K \<le> 255"
    using assms by (simp_all add: jinv_def flow_inv_def slots_inv_def Let_def)
  then show ?thesis
    by (rule held_size)
qed

lemma places_bin_size:
  assumes inv: "jinv K B k m script X s"
  shows "i < length (jc_outgoing_bins (j_core s)) \<Longrightarrow> jc_outgoing_bins (j_core s) ! i = Some b \<Longrightarrow> length (jbin_list b) \<le> 65280"
    and "i < length (jc_new_request_bins (j_core s)) \<Longrightarrow> i \<notin> B \<Longrightarrow> length (jbin_list (jc_new_request_bins (j_core s) ! i)) \<le> 65280"
proof -
  note sz = jinv_size [OF inv]
  { assume i: "i < length (jc_outgoing_bins (j_core s))" "jc_outgoing_bins (j_core s) ! i = Some b"
    have "size (bin_flows b) \<le> size (out_flows (jc_outgoing_bins (j_core s)))"
      using arg_cong [OF out_flows_upd [OF i(1), of None], of size] i(2) by simp
    then show "length (jbin_list b) \<le> 65280"
      using sz by (simp add: places_def bin_flows_size) }
  { assume i: "i < length (jc_new_request_bins (j_core s))" "i \<notin> B"
    have "size (bin_flows (jc_new_request_bins (j_core s) ! i)) \<le> size (new_flows B (jc_new_request_bins (j_core s)))"
      using arg_cong [OF new_flows_open [OF i], of size] by simp
    then show "length (jbin_list (jc_new_request_bins (j_core s) ! i)) \<le> 65280"
      using sz by (simp add: places_def bin_flows_size) }
qed

lemmas room_simps = room_inv_def Let_def

text \<open>What no step of the allocation changes.\<close>

definition idle :: "sjf \<Rightarrow> sjf \<Rightarrow> bool" where
  "idle s s' \<longleftrightarrow> jc_is_head (j_core s') = jc_is_head (j_core s) \<and> jc_admitted (j_core s') = jc_admitted (j_core s)
     \<and> jc_temporary_bins (j_core s') = jc_temporary_bins (j_core s)
     \<and> jc_q_bin_in (j_core s') = jc_q_bin_in (j_core s) \<and> jc_q_bin_out (j_core s') = jc_q_bin_out (j_core s)
     \<and> jc_q_urgent_in (j_core s') = jc_q_urgent_in (j_core s) \<and> jc_q_urgent_out (j_core s') = jc_q_urgent_out (j_core s)
     \<and> map tokens (j_urgent_rings s') = map tokens (j_urgent_rings s)
     \<and> js_q_admitted_out (j_status s') = js_q_admitted_out (j_status s)
     \<and> js_current_timeslot (j_status s') = js_current_timeslot (j_status s)
     \<and> jb_allowed_mask (j_batch s') = jb_allowed_mask (j_batch s)"

definition steady :: "sjf \<Rightarrow> sjf \<Rightarrow> bool" where
  "steady s s' \<longleftrightarrow> idle s s' \<and> js_q_head (j_status s') = js_q_head (j_status s)"

lemma idle_refl [simp]: "idle s s" and steady_refl [simp]: "steady s s"
  by (simp_all add: steady_def idle_def)

lemma idle_trans: "idle s s' \<Longrightarrow> idle s' s'' \<Longrightarrow> idle s s''"
  by (simp add: idle_def)

lemma steady_trans: "steady s s' \<Longrightarrow> steady s' s'' \<Longrightarrow> steady s s''"
  by (simp add: steady_def idle_def)

lemma spends_steady: "spends K p s s' \<Longrightarrow> steady s s'"
  using frameD [of s' s] by (simp add: spends_def steady_def idle_def)

subsection \<open>Putting a flow into a bin\<close>

lemma bin_index_ok:
  assumes "jinv K B k m script (add_mset (src, dst) X) s"
  obtains i where "sjf_bin_index_from_src_dst (j_status s) src dst = Some i" "i < SJF_NUM_BINS"
    "i < unat (flow_backlog s (src, dst))"
    "\<And>j. j < SJF_NUM_BINS \<Longrightarrow> j < unat (flow_backlog s (src, dst)) \<Longrightarrow> j \<le> i"
proof -
  note h = jinv_hand [OF assms]
  let ?b = "flow_backlog s (src, dst)"
  let ?i = "if unat ?b \<le> SJF_NUM_BINS then unat ?b - 1 else SJF_NUM_BINS - 1"
  have "0 < unat ?b" "0 < ?b"
    using h(2) by (simp_all add: unat_gt_0 word_gt_0)
  then have "sjf_bin_index_from_src_dst (j_status s) src dst = Some ?i"
    using valid_flow_lt [OF h(1,3)]
    by (simp add: sjf_bin_index_from_src_dst_def guard_o_def MAX_NODES_def flow_backlog_def Let_def)
  then show thesis
    by (rule that) (use \<open>0 < unat ?b\<close> in \<open>auto simp: SJF_NUM_BINS_def\<close>)
qed

lemma at_least_enqueue:
  assumes "at_least s i b" "i < unat (flow_backlog s (src, dst))" "length (jbin_list b) < 65535"
  shows "at_least s i (sjf_enqueue_bin b src dst)"
  using assms by (simp add: at_least_def bin_flows_enqueue)

lemma sjf_enqueue_outgoing_ok:
  assumes inv: "jinv K B k m script (add_mset (src, dst) X) s"
    and i: "i < SJF_NUM_BINS" "m \<le> i" "i < unat (flow_backlog s (src, dst))"
  shows "wp (sjf_enqueue_outgoing i src dst s) (\<lambda>s'. jinv K B k m script X s' \<and> steady s s'
    \<and> flow_backlog s' = flow_backlog s)"
proof -
  let ?outs = "jc_outgoing_bins (j_core s)"
  have rm: "room_inv k m script s" and lv: "level_inv B k script s"
    using inv by (simp_all add: jinv_def)
  then have len: "length ?outs = SJF_NUM_BINS" and nn: "?outs ! i \<noteq> None"
    using i by (auto simp: room_simps)
  then obtain b where b: "?outs ! i = Some b"
    by blast
  have sz: "length (jbin_list b) < 65535"
    using places_bin_size(1) [OF inv, of i b] i b len by linarith
  define b' where "b' = sjf_enqueue_bin b src dst"
  let ?s = "upd_core (\<lambda>c. c\<lparr> jc_outgoing_bins := (jc_outgoing_bins c)[i := Some b'] \<rparr>) s"
  have sa: "same_alloc s ?s"
    by (simp add: same_alloc_def upd_core_def)
  have "out_flows (?outs[i := Some b']) = add_mset (src, dst) (out_flows ?outs)"
    using out_flows_upd [of i ?outs "Some b'"] i len b by (simp add: b'_def bin_flows_enqueue [OF sz])
  then have pl: "X + places B ?s = add_mset (src, dst) X + places B s"
    by (simp add: places_def upd_core_def)
  have "at_least s i b'"
    using lv i b at_least_enqueue [OF _ i(3) sz] by (simp add: level_inv_def b'_def)
  then have "level_inv B k script ?s"
    unfolding level_inv_def same_alloc_eqs [OF sa]
    using lv i len by (auto simp: level_inv_def upd_core_def stream_def nth_list_update)
  moreover have "room_inv k m script ?s"
    using rm i by (auto simp: room_simps upd_core_def stream_def nth_list_update)
  ultimately have "jinv K B k m script X ?s"
    using jinv_move [OF inv sa pl] by blast
  then show ?thesis
    using b len i by (simp add: sjf_enqueue_outgoing_def guard_o_def b'_def [symmetric] same_alloc_eqs(1) [OF sa])
      (simp add: steady_def idle_def upd_core_def)
qed

lemma sjf_enqueue_new_ok:
  assumes inv: "jinv K B k m script (add_mset (src, dst) X) s"
    and i: "i < SJF_NUM_BINS" "i \<notin> B" "i < unat (flow_backlog s (src, dst))"
  defines "s' \<equiv> upd_core (\<lambda>c. c\<lparr> jc_new_request_bins := (jc_new_request_bins c)
          [i := sjf_enqueue_bin (jc_new_request_bins c ! i) src dst] \<rparr>) s"
  shows "jinv K B k m script X s'" "steady s s'" "flow_backlog s' = flow_backlog s"
proof -
  let ?news = "jc_new_request_bins (j_core s)"
  let ?b = "?news ! i"
  have rm: "room_inv k m script s" and lv: "level_inv B k script s"
    using inv by (simp_all add: jinv_def)
  then have len: "length ?news = SJF_NUM_BINS"
    by (simp add: room_simps)
  have sz: "length (jbin_list ?b) < 65535"
    using places_bin_size(2) [OF inv, of i] i len by linarith
  have sa: "same_alloc s s'"
    by (simp add: same_alloc_def upd_core_def s'_def)
  have "new_flows B (?news[i := sjf_enqueue_bin ?b src dst]) = add_mset (src, dst) (new_flows B ?news)"
    using new_flows_upd [of i ?news B "sjf_enqueue_bin ?b src dst"] i len by (simp add: bin_flows_enqueue [OF sz])
  then have pl: "X + places B s' = add_mset (src, dst) X + places B s"
    by (simp add: places_def upd_core_def s'_def)
  have "at_least s i (sjf_enqueue_bin ?b src dst)"
    using lv i at_least_enqueue [OF _ i(3) sz] by (simp add: level_inv_def)
  then have "level_inv B k script s'"
    unfolding level_inv_def same_alloc_eqs [OF sa]
    using lv i len by (auto simp: level_inv_def upd_core_def s'_def stream_def nth_list_update)
  moreover have "room_inv k m script s'"
    using rm by (auto simp: room_simps upd_core_def s'_def stream_def split: if_splits)
  ultimately show "jinv K B k m script X s'"
    using jinv_move [OF inv sa pl] by blast
  show "steady s s'" "flow_backlog s' = flow_backlog s"
    using same_alloc_eqs(1) [OF sa] by (simp_all add: steady_def idle_def upd_core_def s'_def)
qed

subsection \<open>Allocating a bin\<close>

lemma sjf_try_allocation_bin_ok:
  assumes "jinv K B k m script (X + bin_flows b) s" "at_least s i b"
    and m: "m + 64 \<le> i \<or> m = 0" "i < SJF_NUM_BINS"
  shows "wp (sjf_try_allocation_bin b s) (\<lambda>(b', s'). jbin_list b' = [] \<and> jinv K B k m script X s' \<and> steady s s')"
  using assms(1,2)
proof (induction "jbin_list b" arbitrary: b s)
  case Nil
  then show ?case
    by (subst sjf_try_allocation_bin.simps) (simp add: jbin_list_empty bin_flows_def)
next
  case (Cons e es)
  note e = Cons.hyps(2) [symmetric]
  let ?src = "je_src e" and ?dst = "je_dst e"
  let ?p = "(?src, ?dst)"
  obtain b' where b': "sjf_dequeue_bin b = Some b'" "jbin_list b' = es" and pk: "sjf_peek_head_bin b = e"
    using jbin_list_Cons [OF e] by blast
  have fl: "bin_flows b = add_mset ?p (bin_flows b')"
    unfolding bin_flows_def e b'(2) by (simp add: jpair_def)
  have inv: "jinv K B k m script (add_mset ?p (X + bin_flows b')) s"
    using Cons.prems(1) by (simp add: fl)
  have ip: "i < unat (flow_backlog s ?p)" and ib: "at_least s i b'"
    using Cons.prems(2) by (simp_all add: at_least_def fl)
  obtain rc s1 where s1: "sjf_try_allocation ?src ?dst s = Some (rc, s1)" and sp: "spends K ?p s s1"
    and inv1: "jinv K B k m script (if rc then add_mset ?p (X + bin_flows b') else X + bin_flows b') s1"
    and left: "rc \<Longrightarrow> unat (flow_backlog s ?p) \<le> unat (flow_backlog s1 ?p) + open_slots s ?src"
    using wpD [OF sjf_try_allocation_ok [OF inv]] by fast
  have same: "flow_backlog s1 q = flow_backlog s q" if "q \<in># bin_flows b'" for q
  proof -
    have "held K (flow_backlog s) (add_mset ?p (X + bin_flows b' + places B s + script_flows script))"
      using inv by (simp add: jinv_def flow_inv_def)
    from held_mem(1) [OF this, of q] have "valid_flow (kx_nodes K) q"
      using that by simp
    moreover have "q \<noteq> ?p"
      using jinv_hand(4) [OF inv] that by auto
    ultimately show ?thesis
      using sp unfolding spends_def by blast
  qed
  have ib1: "at_least s1 i b'"
    using ib by (simp add: at_least_def same)
  obtain s2 where s2: "(if rc then do {
        bin_index \<leftarrow> sjf_bin_index_from_src_dst (j_status s1) ?src ?dst;
        sjf_enqueue_outgoing bin_index ?src ?dst s1 } else Some s1) = Some s2"
    and inv2: "jinv K B k m script (X + bin_flows b') s2" and st2: "steady s1 s2" and ib2: "at_least s2 i b'"
  proof (cases rc)
    case True
    have i1: "jinv K B k m script (add_mset ?p (X + bin_flows b')) s1"
      using inv1 True by simp
    obtain j where j: "sjf_bin_index_from_src_dst (j_status s1) ?src ?dst = Some j" "j < SJF_NUM_BINS"
      "j < unat (flow_backlog s1 ?p)" "\<And>l. l < SJF_NUM_BINS \<Longrightarrow> l < unat (flow_backlog s1 ?p) \<Longrightarrow> l \<le> j"
      by (rule bin_index_ok [OF i1]) blast
    have "m < unat (flow_backlog s1 ?p)"
      using left [OF True] ip m(1) open_slots_le [of s ?src] j(3) by linarith
    then have "m \<le> j"
      using m by (intro j(4)) auto
    from wpD [OF sjf_enqueue_outgoing_ok [OF i1 j(2) this j(3)]]
    show thesis
      using that True j(1) ib1 by (auto simp: at_least_def)
  next
    case False
    then show thesis
      using that inv1 ib1 by simp
  qed
  have "wp (sjf_try_allocation_bin b' s2) (\<lambda>(b'', s'). jbin_list b'' = [] \<and> jinv K B k m script X s' \<and> steady s2 s')"
    using Cons.hyps(1) [OF b'(2) [symmetric] inv2 ib2] .
  moreover have "sjf_try_allocation_bin b s = sjf_try_allocation_bin b' s2"
    using s2 by (subst sjf_try_allocation_bin.simps) (simp add: jbin_list_empty e pk s1 b'(1))
  moreover have "steady s s2"
    using steady_trans [OF spends_steady [OF sp] st2] .
  ultimately show ?case
    by (auto elim!: wp_mono intro: steady_trans)
qed

subsection \<open>New requests\<close>

lemma ring_tokens: "ring_count r = tokens r + size (urgent_flows r)"
  using sum_length_filter_compl [of "\<lambda>x. x = URGENT_Q_HEAD_TOKEN" "ring_list r"]
  by (simp only: tokens_def urgent_flows_def size_mset length_map length_ring_list)

lemma size_sum_list_nth:
  fixes f :: "'a \<Rightarrow> flow multiset"
  assumes "i < length xs"
  shows "size (f (xs ! i)) \<le> size (sum_list (map f xs))"
proof -
  have "\<exists>M. sum_list (map f xs) = f (xs ! i) + M"
    using sum_list_map_remove1 [OF nth_mem [OF assms], of f] by blast
  then show ?thesis
    by auto
qed

lemma sjf_enqueue_urgent_ok:
  assumes inv: "jinv K B k m script (add_mset (src, dst) X) s"
    and i: "i < SJF_NUM_BINS" "i < unat (flow_backlog s (src, dst))"
  shows "wp (sjf_enqueue_urgent (MAKE_EDGE (of_nat i) src dst) s) (\<lambda>s'. jinv K B k m script X s' \<and> steady s s')"
proof -
  let ?x = "MAKE_EDGE (of_nat i) src dst" and ?us = "j_urgent_rings s" and ?o = "jc_q_urgent_out (j_core s)"
  have rm: "room_inv k m script s" and lv: "level_inv B k script s"
    using inv by (simp_all add: jinv_def)
  then have o: "?o < length ?us" "ring_wf (?us ! ?o)" "65282 \<le> ring_room (?us ! ?o)" "tokens (?us ! ?o) \<le> 1"
    by (simp_all add: room_simps)
  have "size (urgent_flows (?us ! ?o)) \<le> 65280"
    using size_sum_list_nth [OF o(1), of urgent_flows] jinv_size [OF inv] by (simp add: places_def)
  then have "ring_count (?us ! ?o) < ring_room (?us ! ?o)"
    using o(3,4) by (simp add: ring_tokens)
  from wpD [OF fp_ring_enqueue_ok [OF o(2) this, of ?x]]
  obtain q where q: "fp_ring_enqueue (?us ! ?o) ?x = Some q" "ring_wf q" "ring_list q = ring_list (?us ! ?o) @ [?x]"
    "ring_room q = ring_room (?us ! ?o)"
    by blast
  let ?s = "s\<lparr> j_urgent_rings := ?us[?o := q] \<rparr>"
  have sa: "same_alloc s ?s"
    by (simp add: same_alloc_def)
  have uf: "urgent_flows q = add_mset (src, dst) (urgent_flows (?us ! ?o))" and tk: "tokens q = tokens (?us ! ?o)"
    by (simp_all add: urgent_flows_def tokens_def q(3))
  have pl: "X + places B ?s = add_mset (src, dst) X + places B s"
    using sum_map_upd [OF o(1), of urgent_flows q] by (simp add: places_def uf)
  have i16: "unat (of_nat i :: u16) = i"
    using i(1) by (simp add: unat_of_nat SJF_NUM_BINS_def)
  then have "urgent_ok s ?x"
    using i by (simp add: urgent_ok_def)
  then have "\<forall>r \<in> set (?us[?o := q]). \<forall>x \<in> set (ring_list r). urgent_ok s x"
    using lv o(1) by (intro list_update_all) (auto simp: level_inv_def q(3))
  then have "level_inv B k script ?s"
    unfolding level_inv_def same_alloc_eqs [OF sa] using lv by (simp add: level_inv_def stream_def)
  moreover have "\<forall>r \<in> set (?us[?o := q]). ring_wf r"
    using rm q(2) by (intro list_update_all) (simp_all add: room_simps)
  then have "room_inv k m script ?s"
    using rm o(1) by (auto simp: room_simps stream_def q(4) tk split: if_splits)
  ultimately have "jinv K B k m script X ?s"
    using jinv_move [OF inv sa pl] by blast
  moreover have "steady s ?s"
    using o(1) tk by (simp add: steady_def idle_def map_update list_update_same_conv)
  ultimately show ?thesis
    using o(1) by (simp add: sjf_enqueue_urgent_def guard_o_def q(1))
qed

lemma sjf_process_one_ok:
  assumes inv: "jinv K {} k m script (add_mset (src, dst) X) s"
    and i: "i < SJF_NUM_BINS" "i < unat (flow_backlog s (src, dst))"
  shows "wp (sjf_process_one_new_request src dst i current_bin s) (\<lambda>s'. jinv K {} k m script X s' \<and> steady s s')"
proof (cases "i < current_bin")
  case True
  obtain rc s1 where s1: "sjf_try_allocation src dst s = Some (rc, s1)" and sp: "spends K (src, dst) s s1"
    and inv1: "jinv K {} k m script (if rc then add_mset (src, dst) X else X) s1"
    using wpD [OF sjf_try_allocation_ok [OF inv]] by fast
  note st = spends_steady [OF sp]
  show ?thesis
  proof (cases rc)
    case rc: True
    then have i1: "jinv K {} k m script (add_mset (src, dst) X) s1"
      using inv1 by simp
    obtain j where j: "sjf_bin_index_from_src_dst (j_status s1) src dst = Some j" "j < SJF_NUM_BINS"
      "j < unat (flow_backlog s1 (src, dst))"
      by (rule bin_index_ok [OF i1]) blast
    show ?thesis
      using True s1 rc j(1) wp_mono [OF sjf_enqueue_urgent_ok [OF i1 j(2,3)]] steady_trans [OF st]
      by (simp add: sjf_process_one_new_request_def)
  next
    case False
    then show ?thesis
      using True s1 inv1 st by (simp add: sjf_process_one_new_request_def)
  qed
next
  case False
  have "i < length (jc_new_request_bins (j_core s))"
    using inv i by (simp add: jinv_def room_simps)
  then show ?thesis
    using False sjf_enqueue_new_ok(1,2) [OF inv i(1) _ i(2)] by (simp add: sjf_process_one_new_request_def guard_o_def)
qed

lemma jinv_take_head:
  assumes inv: "jinv K B k m script X s" and q: "ring_wf q" "ring_list (js_q_head (j_status s)) = xs @ ring_list q"
    "ring_room q = ring_room (js_q_head (j_status s))"
  defines "s' \<equiv> upd_status (\<lambda>st. st\<lparr> js_q_head := q \<rparr>) s"
  shows "jinv K B k m script (X + mset (map edge_flow xs)) s'" "idle s s'"
proof -
  have rm: "room_inv k m script s" and lv: "level_inv B k script s"
    using inv by (simp_all add: jinv_def)
  have sa: "same_alloc s s'"
    by (simp add: same_alloc_def upd_status_def s'_def)
  have "X + mset (map edge_flow xs) + places B s' = X + places B s"
    by (simp add: places_def upd_status_def s'_def head_flows_def q(2))
  moreover have "level_inv B k script s'"
    unfolding level_inv_def same_alloc_eqs [OF sa] using lv by (simp add: level_inv_def stream_def upd_status_def s'_def)
  moreover have "room_inv k m script s'"
    using rm q(1,3) by (auto simp: room_simps stream_def upd_status_def s'_def split: if_splits)
  ultimately show "jinv K B k m script (X + mset (map edge_flow xs)) s'"
    by (rule jinv_move [OF inv sa])
  show "idle s s'"
    by (simp add: idle_def upd_status_def s'_def)
qed

lemma sjf_process_head_edges_ok:
  assumes "jinv K {} k m script (X + mset (map edge_flow xs)) s"
  shows "wp (foldo (sjf_process_head_edge current_bin) xs s) (\<lambda>s'. jinv K {} k m script X s' \<and> steady s s')"
  using assms
proof (induction xs arbitrary: s)
  case (Cons x xs)
  let ?src = "EDGE_SRC x" and ?dst = "EDGE_DST x"
  have inv: "jinv K {} k m script (add_mset (?src, ?dst) (X + mset (map edge_flow xs))) s"
    using Cons.prems by (simp add: edge_flow_def [of x])
  obtain j where j: "sjf_bin_index_from_src_dst (j_status s) ?src ?dst = Some j" "j < SJF_NUM_BINS"
    "j < unat (flow_backlog s (?src, ?dst))"
    by (rule bin_index_ok [OF inv]) blast
  from wpD [OF sjf_process_one_ok [OF inv j(2,3), of current_bin]]
  obtain s1 where s1: "sjf_process_head_edge current_bin x s = Some s1" "steady s s1"
    "jinv K {} k m script (X + mset (map edge_flow xs)) s1"
    by (auto simp: sjf_process_head_edge_def j(1))
  show ?case
    using wp_mono [OF Cons.IH [OF s1(3)]] steady_trans [OF s1(2)] by (simp add: s1(1))
qed simp

lemma sjf_process_head_ok:
  assumes "jinv K {} k m script X s"
  shows "wp (sjf_process_head current_bin s) (\<lambda>s'. jinv K {} k m script X s' \<and> idle s s'
    \<and> ring_list (js_q_head (j_status s')) = [])"
  using assms
proof (induction "ring_count (js_q_head (j_status s))" arbitrary: s rule: less_induct)
  case less
  let ?q = "js_q_head (j_status s)"
  have "ring_wf ?q"
    using less.prems by (simp add: jinv_def room_simps)
  from wpD [OF fp_ring_dequeue_burst_ok [OF this, of SJF_BURST_SIZE]]
  obtain xs q where q: "fp_ring_dequeue_burst ?q SJF_BURST_SIZE = Some (xs, q)" "xs = take SJF_BURST_SIZE (ring_list ?q)"
    "ring_wf q" "ring_list q = drop SJF_BURST_SIZE (ring_list ?q)" "ring_room q = ring_room ?q"
    by blast
  have split: "ring_list ?q = xs @ ring_list q"
    by (simp only: q(2,4) append_take_drop_id)
  let ?s = "upd_status (\<lambda>st. st\<lparr> js_q_head := q \<rparr>) s"
  note t = jinv_take_head [OF less.prems q(3) split q(5)]
  obtain s1 where s1: "foldo (sjf_process_head_edge current_bin) xs ?s = Some s1" "jinv K {} k m script X s1" "steady ?s s1"
    using wpD [OF sjf_process_head_edges_ok [OF t(1), of current_bin]] by blast
  have id1: "idle s s1" and q1: "js_q_head (j_status s1) = q"
    using t(2) s1(3) idle_trans by (auto simp: steady_def upd_status_def)
  show ?case
  proof (cases "xs = []")
    case True
    then have "ring_list q = []"
      using q(2,4) by (simp add: SJF_BURST_SIZE_def)
    then show ?thesis
      using True q(1) s1 id1 q1 by (subst sjf_process_head.simps) simp
  next
    case False
    have "ring_count (js_q_head (j_status s1)) < ring_count ?q"
      using arg_cong [OF split, of length] False by (simp add: q1)
    from less.hyps [OF this s1(2)] show ?thesis
      using q(1) s1(1) False id1 by (subst sjf_process_head.simps) (auto elim!: wp_mono intro: idle_trans)
  qed
qed

subsection \<open>What the other cores do\<close>

lemma script_parts [simp]:
  "script_bins ([] # script) = script_bins script" "requested ([] # script) = requested script"
  "script_flows ([] # script) = script_flows script" "script_ok n ([] # script) \<longleftrightarrow> script_ok n script"
  "script_bins ((ev # evs) # script) = event_bins ev @ script_bins (evs # script)"
  "requested ((ev # evs) # script) p = event_request p ev + requested (evs # script) p"
  "script_ok n ((ev # evs) # script) \<longleftrightarrow> event_ok n ev \<and> script_ok n (evs # script)"
  "script_bins [] = []" "script_flows [] = {#}" "requested [] p = 0" "script_ok n []"
  by (auto simp: script_bins_def script_flows_def requested_def script_ok_def fun_eq_iff)

lemma script_flows_event: "script_flows ((ev # evs) # script) = sum_list (map bin_flows (event_bins ev)) + script_flows (evs # script)"
  by (simp add: script_flows_def)

lemma jinv_skip: "jinv K B k m ([] # script) X s = jinv K B k m script X s"
  by (simp add: jinv_def flow_inv_def level_inv_def room_inv_def stream_def)

lemma script_bins_only:
  assumes "script_bins script' = script_bins script"
  shows "level_inv B k script' s = level_inv B k script s" "room_inv k m script' s = room_inv k m script s"
  unfolding level_inv_def room_inv_def stream_def assms by (rule refl)+

lemma jinv_bin_arrives:
  assumes inv: "jinv K B k m ((BinArrives b # evs) # script) X s"
  shows "wp (sjf_event_step (BinArrives b) s) (\<lambda>s'. jinv K B k m (evs # script) X s' \<and> idle s s')"
proof -
  let ?sc = "(BinArrives b # evs) # script" and ?i = "jc_q_bin_in (j_core s)" and ?rs = "j_bin_rings s"
  have rm: "room_inv k m ?sc s" and lv: "level_inv B k ?sc s" and so: "script_ok (kx_nodes K) (evs # script)"
    using inv by (simp_all add: jinv_def flow_inv_def)
  then have i: "?i < length ?rs" "ring_wf (?rs ! ?i)" "?i \<noteq> jc_q_bin_out (j_core s)"
    "ring_count (?rs ! ?i) < ring_room (?rs ! ?i)"
    by (auto simp: room_simps stream_def split: if_splits)
  from wpD [OF fp_ring_enqueue_ok [OF i(2,4), of b]]
  obtain q where q: "fp_ring_enqueue (?rs ! ?i) b = Some q" "ring_wf q" "ring_list q = ring_list (?rs ! ?i) @ [b]"
    "ring_room q = ring_room (?rs ! ?i)"
    by blast
  define s' where "s' = s\<lparr> j_bin_rings := ?rs[?i := q] \<rparr>"
  have sa: "same_alloc s s'"
    by (simp add: same_alloc_def s'_def)
  have st: "stream (evs # script) s' = stream ?sc s"
    using i(1) by (simp add: stream_def s'_def q(3))
  have "ring_flows q = bin_flows b + ring_flows (?rs ! ?i)"
    by (simp add: ring_flows_def q(3))
  then have "X + places B s' + script_flows (evs # script) = X + places B s + script_flows ?sc"
    using sum_map_upd [OF i(1), of ring_flows q] by (simp add: places_def s'_def script_flows_event)
  moreover have "level_inv B k (evs # script) s'"
    unfolding level_inv_def same_alloc_eqs [OF sa] st using lv by (simp add: level_inv_def s'_def)
  moreover have "\<forall>r \<in> set (?rs[?i := q]). ring_wf r"
    using rm q(2) by (intro list_update_all) (simp_all add: room_simps)
  then have "room_inv k m (evs # script) s'"
    using rm i(1,3) unfolding room_simps st by (simp add: s'_def q(4))
  ultimately have "jinv K B k m (evs # script) X s'"
    using so by (intro jinv_move_script [OF inv sa]) (simp_all add: fun_eq_iff)
  moreover have "sjf_event_step (BinArrives b) s = Some s'"
    using i(1) by (simp add: sjf_event_step_def guard_o_def q(1) s'_def)
  moreover have "idle s s'"
    by (simp add: idle_def s'_def)
  ultimately show ?thesis
    by simp
qed

lemma held_add:
  assumes "held K f M" "valid_flow (kx_nodes K) p" "f p = 0" "f' p \<noteq> 0"
    "\<And>q. valid_flow (kx_nodes K) q \<Longrightarrow> q \<noteq> p \<Longrightarrow> f' q = f q"
  shows "held K f' (add_mset p M)"
proof -
  have l: "p \<notin> kx_lost K"
    using assms(1,3) unfolding held_def by blast
  have "count (add_mset p M) q = (if valid_flow (kx_nodes K) q \<and> f' q \<noteq> 0 \<and> q \<notin> kx_lost K then 1 else 0)" for q
  proof -
    have "count M q = (if valid_flow (kx_nodes K) q \<and> f q \<noteq> 0 \<and> q \<notin> kx_lost K then 1 else 0)"
      using assms(1) unfolding held_def by blast
    then show ?thesis
      using assms(2-5) l by (cases "q = p") auto
  qed
  moreover have "\<forall>q \<in> kx_lost K. valid_flow (kx_nodes K) q \<and> f' q \<noteq> 0"
    using assms(1,5) l unfolding held_def by metis
  ultimately show ?thesis
    unfolding held_def by blast
qed

text \<open>The counter of a flow is raised; a flow that had no backlog is in hand now.\<close>

lemma jinv_request:
  assumes inv: "jinv K B k m ((Request src dst n # evs) # script) X s"
  defines "i \<equiv> sjf_status_index src dst"
  defines "s' \<equiv> upd_status (\<lambda>st. st\<lparr> js_flows := (js_flows st)(i := js_flows st i + ucast n) \<rparr>) s"
  shows "jinv K B k m (evs # script) (if flow_backlog s (src, dst) = 0 then add_mset (src, dst) X else X) s'"
    and "steady s s'" "i < SJF_NUM_SRC_DST_PAIRS"
proof -
  let ?p = "(src, dst)" and ?sc = "(Request src dst n # evs) # script" and ?sc' = "evs # script"
  have fi: "flow_inv K B ?sc X s" and sl: "slots_inv K s" and rm: "room_inv k m ?sc s" and lv: "level_inv B k ?sc s"
    using inv by (simp_all add: jinv_def)
  have hl: "held K (flow_backlog s) (X + places B s + script_flows ?sc')"
    using fi by (simp add: flow_inv_def script_flows_event)
  have so: "script_ok (kx_nodes K) ?sc'" "valid_flow (kx_nodes K) ?p" "n \<noteq> 0"
    using fi by (simp_all add: flow_inv_def)
  have N: "kx_nodes K \<le> 255"
    using sl by (simp add: slots_inv_def Let_def)
  have tot: "unat (flow_backlog s q) + grants s q + (event_request q (Request src dst n) + requested ?sc' q) = kx_total K q
      \<and> kx_total K q < 4294967296" if "valid_flow (kx_nodes K) q" for q
    using fi that unfolding flow_inv_def script_parts(6) by blast
  have fr: "sjf_frame s' = sjf_frame s"
    by (simp add: sjf_frame_def s'_def upd_status_def)
  have b: "flow_backlog s' q = (if q = ?p then flow_backlog s q + ucast n else flow_backlog s q)"
    if "valid_flow (kx_nodes K) q" for q
  proof (cases "q = ?p")
    case False
    then have "sjf_status_index (fst q) (snd q) \<noteq> i"
      using valid_index_inj [OF that so(2) N] unfolding i_def by (metis fst_conv snd_conv)
    then show ?thesis
      using False by (simp add: flow_backlog_def s'_def upd_status_def)
  qed (simp add: flow_backlog_def s'_def upd_status_def i_def)
  have up: "unat (flow_backlog s' ?p) = unat (flow_backlog s ?p) + unat n"
    using tot [OF so(2)] unfolding b [OF so(2)] by (simp add: unat_word_ariths unat_ucast_u16_u32)
  have nz: "flow_backlog s' ?p \<noteq> 0"
  proof
    assume "flow_backlog s' ?p = 0"
    then have "unat n = 0"
      using up by simp
    then show False
      using so(3) by (simp add: unat_eq_0)
  qed
  have gr: "grants s' = grants s"
    by (simp add: fun_eq_iff grants_def slot_edges_def s'_def upd_status_def)
  let ?X = "if flow_backlog s ?p = 0 then add_mset ?p X else X"
  have "held K (flow_backlog s') (?X + places B s' + script_flows ?sc')"
  proof (cases "flow_backlog s ?p = 0")
    case True
    have "held K (flow_backlog s') (add_mset ?p (X + places B s + script_flows ?sc'))"
      by (rule held_add [where f' = "flow_backlog s'", OF hl so(2) True nz]) (simp only: b if_False)
    then show ?thesis
      by (simp only: frame_eqs(1) [OF fr] True simp_thms if_True union_mset_add_mset_left)
  next
    case False
    have "held K (flow_backlog s') (X + places B s + script_flows ?sc')"
      using False nz by (intro held_cong [OF hl]) (metis b)
    then show ?thesis
      by (simp only: frame_eqs(1) [OF fr] False simp_thms if_False)
  qed
  moreover have "unat (flow_backlog s' q) + grants s' q + requested ?sc' q = kx_total K q" if "valid_flow (kx_nodes K) q" for q
    using tot [OF that] up by (cases "q = ?p") (simp_all add: b that gr)
  moreover have "\<forall>q \<in> kx_lost K. grants s' q = 0"
    using fi unfolding flow_inv_def gr by blast
  ultimately have "flow_inv K B ?sc' ?X s'"
    using so(1) tot unfolding flow_inv_def by blast
  moreover have lv': "level_inv B k ?sc' s" and rm': "room_inv k m ?sc' s"
    using lv rm script_bins_only [of ?sc ?sc'] by simp_all
  moreover have "level_inv B k ?sc' s'"
  proof (rule level_inv_mono [OF lv' rm' fr])
    fix q assume "q \<in># places B s + script_flows ?sc'"
    then have "valid_flow (kx_nodes K) q"
      using held_mem(1) [OF hl, of q] by auto
    then show "unat (flow_backlog s q) \<le> unat (flow_backlog s' q)"
      using up by (cases "q = ?p") (simp_all add: b)
  qed
  moreover have "slots_inv K s'"
    using sl by (subst slots_inv_cong [of s' s]) (simp_all add: s'_def upd_status_def)
  ultimately show "jinv K B k m ?sc' ?X s'"
    using frame_eqs(3) [OF fr] unfolding jinv_def by blast
  show "steady s s'"
    by (simp add: steady_def idle_def s'_def upd_status_def)
  show "i < SJF_NUM_SRC_DST_PAIRS"
    using valid_index(2) [OF so(2) N] by (simp add: i_def)
qed

lemma jinv_put_head:
  assumes inv: "jinv K B k m script (add_mset (src, dst) X) s"
  shows "wp (fp_ring_enqueue (js_q_head (j_status s)) (MAKE_EDGE 0 src dst))
    (\<lambda>q. jinv K B k m script X (upd_status (\<lambda>st. st\<lparr> js_q_head := q \<rparr>) s)
      \<and> idle s (upd_status (\<lambda>st. st\<lparr> js_q_head := q \<rparr>) s))"
proof -
  let ?h = "js_q_head (j_status s)"
  have rm: "room_inv k m script s" and lv: "level_inv B k script s"
    using inv by (simp_all add: jinv_def)
  have "Suc (size (head_flows ?h)) \<le> 65280"
    using jinv_size [OF inv] by (simp add: places_def)
  then have "ring_wf ?h" "ring_count ?h < ring_room ?h"
    using rm by (simp_all add: room_simps head_flows_def)
  from wpD [OF fp_ring_enqueue_ok [OF this, of "MAKE_EDGE 0 src dst"]]
  obtain q where q: "fp_ring_enqueue ?h (MAKE_EDGE 0 src dst) = Some q" "ring_wf q"
    "ring_list q = ring_list ?h @ [MAKE_EDGE 0 src dst]" "ring_room q = ring_room ?h"
    by blast
  let ?s = "upd_status (\<lambda>st. st\<lparr> js_q_head := q \<rparr>) s"
  have sa: "same_alloc s ?s"
    by (simp add: same_alloc_def upd_status_def)
  have "X + places B ?s = add_mset (src, dst) X + places B s"
    by (simp add: places_def upd_status_def head_flows_def q(3))
  moreover have "level_inv B k script ?s"
    unfolding level_inv_def same_alloc_eqs [OF sa] using lv by (simp add: level_inv_def stream_def upd_status_def)
  moreover have "room_inv k m script ?s"
    using rm q(2,4) by (auto simp: room_simps stream_def upd_status_def split: if_splits)
  ultimately have "jinv K B k m script X ?s"
    by (rule jinv_move [OF inv sa])
  then show ?thesis
    by (simp add: q(1)) (simp add: idle_def upd_status_def)
qed

lemma jinv_event:
  assumes inv: "jinv K B k m ((ev # evs) # script) X s"
  shows "wp (sjf_event_step ev s) (\<lambda>s'. jinv K B k m (evs # script) X s' \<and> idle s s')"
proof (cases ev)
  case (BinArrives b)
  then show ?thesis
    using jinv_bin_arrives inv by simp
next
  case (Request src dst n)
  let ?i = "sjf_status_index src dst"
  let ?s = "upd_status (\<lambda>st. st\<lparr> js_flows := (js_flows st)(?i := js_flows st ?i + ucast n) \<rparr>) s"
  note r = jinv_request [OF inv [unfolded Request]]
  have bl: "flow_backlog s (src, dst) = js_flows (j_status s) ?i"
    by (simp add: flow_backlog_def)
  have ne: "sjf_add_backlog_no_enqueue src dst n (j_status s) =
      Some (if flow_backlog s (src, dst) = 0 then Some (MAKE_EDGE 0 src dst) else None, j_status ?s)"
    using r(3) by (simp add: sjf_add_backlog_no_enqueue_def guard_o_def Let_def upd_status_def bl)
  have id: "idle s ?s"
    using r(2) by (simp add: steady_def)
  show ?thesis
  proof (cases "flow_backlog s (src, dst) = 0")
    case True
    then have inv1: "jinv K B k m (evs # script) (add_mset (src, dst) X) ?s"
      using r(1) by (simp only: simp_thms if_True)
    have e: "s\<lparr>j_status := (j_status ?s)\<lparr> js_q_head := q \<rparr> \<rparr> = upd_status (\<lambda>st. st\<lparr> js_q_head := q \<rparr>) ?s" for q
      by (simp add: upd_status_def)
    show ?thesis
      using wpD [OF jinv_put_head [OF inv1]] idle_trans [OF id]
      by (auto simp: sjf_event_step_def Request sjf_add_backlog_def ne True e simp del: fun_upd_apply)
  next
    case False
    then have "jinv K B k m (evs # script) X ?s"
      using r(1) by (simp only: simp_thms if_False)
    moreover have "s\<lparr> j_status := j_status ?s \<rparr> = ?s"
      by (simp add: upd_status_def)
    ultimately show ?thesis
      using id False by (simp add: sjf_event_step_def Request sjf_add_backlog_def ne)
  qed
qed

lemma jinv_events:
  assumes "jinv K B k m (evs # script) X s"
  shows "wp (foldo sjf_event_step evs s) (\<lambda>s'. jinv K B k m script X s' \<and> idle s s')"
  using assms
proof (induction evs arbitrary: s)
  case Nil
  then show ?case
    by (simp add: jinv_skip)
next
  case (Cons ev evs)
  obtain s1 where s1: "sjf_event_step ev s = Some s1" "jinv K B k m (evs # script) X s1" "idle s s1"
    using wpD [OF jinv_event [OF Cons.prems]] by blast
  show ?case
    using wp_mono [OF Cons.IH [OF s1(2)]] idle_trans [OF s1(3)] by (simp add: s1(1))
qed

lemma sjf_poll_ok:
  assumes "jinv K {} k m (evs # script) X s" "jc_is_head (j_core s) \<noteq> 0"
  shows "wp (sjf_poll evs current_bin s) (\<lambda>s'. jinv K {} k m script X s' \<and> idle s s'
    \<and> ring_list (js_q_head (j_status s')) = [])"
proof -
  obtain s1 where s1: "foldo sjf_event_step evs s = Some s1" "jinv K {} k m script X s1" "idle s s1"
    using wpD [OF jinv_events [OF assms(1)]] by blast
  then have "jc_is_head (j_core s1) \<noteq> 0"
    using assms(2) by (simp add: idle_def)
  then show ?thesis
    using wp_mono [OF sjf_process_head_ok [OF s1(2), of current_bin]] idle_trans [OF s1(3)]
    by (simp add: sjf_poll_def s1(1) sjf_process_new_requests_def)
qed

end
