(* ===== verification/FP_Sjf_Batch.thy ===== *)
theory FP_Sjf_Batch
  imports FP_Sjf_Step
begin

unbundle bit_operations_syntax

text \<open>
  A whole batch of the shortest-job-first allocator, \<^verbatim>\<open>get_admissible_traffic\<close>: from a state in
  which the token is at the end of the urgent queue, the batch returns, and the invariant of the
  theory FP-Sjf-Inv holds in its result.
\<close>

subsection \<open>Becoming the head\<close>

definition woken :: "sjf \<Rightarrow> sjf \<Rightarrow> bool" where
  "woken s s' \<longleftrightarrow> jc_admitted (j_core s') = jc_admitted (j_core s) \<and> jc_temporary_bins (j_core s') = jc_temporary_bins (j_core s)
     \<and> jc_q_bin_in (j_core s') = jc_q_bin_in (j_core s) \<and> jc_q_bin_out (j_core s') = jc_q_bin_out (j_core s)
     \<and> jc_q_urgent_in (j_core s') = jc_q_urgent_in (j_core s) \<and> jc_q_urgent_out (j_core s') = jc_q_urgent_out (j_core s)
     \<and> map tokens (j_urgent_rings s') = (map tokens (j_urgent_rings s))[jc_q_urgent_in (j_core s) := 0]
     \<and> js_q_admitted_out (j_status s') = js_q_admitted_out (j_status s)
     \<and> js_current_timeslot (j_status s') = js_current_timeslot (j_status s)
     \<and> jb_allowed_mask (j_batch s') = jb_allowed_mask (j_batch s)"

lemma urgent_edges_to_bins:
  assumes "jinv K {} k m script (X + mset (map edge_flow xs)) s" "URGENT_Q_HEAD_TOKEN \<notin> set xs"
    "\<forall>x \<in> set xs. urgent_ok s x"
  shows "\<exists>s1. sjf_process_urgent_edges 0 (xs @ zs) s = sjf_process_urgent_edges 0 zs s1
    \<and> jinv K {} k m script X s1 \<and> steady s s1 \<and> j_urgent_rings s1 = j_urgent_rings s"
  using assms
proof (induction xs arbitrary: s)
  case (Cons x xs)
  let ?i = "unat (EDGE_BIN x)" and ?src = "EDGE_SRC x" and ?dst = "EDGE_DST x"
  have inv: "jinv K {} k m script (add_mset (?src, ?dst) (X + mset (map edge_flow xs))) s"
    using Cons.prems(1) by (simp add: edge_flow_def [of x])
  have i: "?i < SJF_NUM_BINS" "?i < unat (flow_backlog s (?src, ?dst))" "x \<noteq> URGENT_Q_HEAD_TOKEN"
    using Cons.prems(2,3) by (auto simp: urgent_ok_def edge_flow_def)
  let ?s = "upd_core (\<lambda>c. c\<lparr> jc_new_request_bins := (jc_new_request_bins c)
          [?i := sjf_enqueue_bin (jc_new_request_bins c ! ?i) ?src ?dst] \<rparr>) s"
  have "?i \<notin> {}"
    by simp
  note n = sjf_enqueue_new_ok [OF inv i(1) this i(2)]
  have "?i < length (jc_new_request_bins (j_core s))"
    using inv i by (simp add: jinv_def room_simps)
  then have one: "sjf_process_one_new_request ?src ?dst ?i 0 s = Some ?s"
    by (simp add: sjf_process_one_new_request_def guard_o_def)
  have "\<forall>x \<in> set xs. urgent_ok ?s x" "j_urgent_rings ?s = j_urgent_rings s"
    using Cons.prems(3) n(3) by (simp_all add: urgent_ok_def) (simp add: upd_core_def)
  then show ?case
    using Cons.IH [OF n(1)] Cons.prems(2) i(3) one steady_trans [OF n(2)] by auto
qed auto

lemma jinv_take_urgent:
  assumes inv: "jinv K B k m script X s" and q: "ring_wf q" "ring_list (j_urgent_rings s ! i) = xs @ ring_list q"
    "ring_room q = ring_room (j_urgent_rings s ! i)" and i: "i < length (j_urgent_rings s)"
  defines "s' \<equiv> s\<lparr> j_urgent_rings := (j_urgent_rings s)[i := q] \<rparr>"
  shows "jinv K B k m script (X + mset (map edge_flow (filter (\<lambda>x. x \<noteq> URGENT_Q_HEAD_TOKEN) xs))) s'"
    "\<forall>x \<in> set xs. urgent_ok s' x"
proof -
  let ?us = "j_urgent_rings s"
  have rm: "room_inv k m script s" and lv: "level_inv B k script s"
    using inv by (simp_all add: jinv_def)
  have sa: "same_alloc s s'"
    by (simp add: same_alloc_def s'_def)
  have u: "urgent_ok s x" if "x \<in> set (ring_list (?us ! i))" for x
    using lv that nth_mem [OF i] by (auto simp: level_inv_def)
  then show "\<forall>x \<in> set xs. urgent_ok s' x"
    unfolding same_alloc_eqs [OF sa] by (simp add: q(2))
  have "urgent_flows (?us ! i) = mset (map edge_flow (filter (\<lambda>x. x \<noteq> URGENT_Q_HEAD_TOKEN) xs)) + urgent_flows q"
    by (simp add: urgent_flows_def q(2))
  then have "X + mset (map edge_flow (filter (\<lambda>x. x \<noteq> URGENT_Q_HEAD_TOKEN) xs)) + places B s' = X + places B s"
    using sum_map_upd [OF i, of urgent_flows q] by (simp add: places_def s'_def ac_simps)
  moreover have "\<forall>r \<in> set (?us[i := q]). \<forall>x \<in> set (ring_list r). urgent_ok s x"
    using lv u by (intro list_update_all) (simp_all add: level_inv_def q(2))
  then have "level_inv B k script s'"
    unfolding level_inv_def same_alloc_eqs [OF sa] using lv by (simp add: level_inv_def stream_def s'_def)
  moreover have "\<forall>r \<in> set (?us[i := q]). ring_wf r"
    using rm q(1) by (intro list_update_all) (simp_all add: room_simps)
  moreover have "tokens q \<le> tokens (?us ! i)"
    by (simp add: tokens_def q(2))
  ultimately have "room_inv k m script s'"
    using rm i by (auto simp: room_simps stream_def s'_def q(3) nth_list_update split: if_splits)
  then show "jinv K B k m script (X + mset (map edge_flow (filter (\<lambda>x. x \<noteq> URGENT_Q_HEAD_TOKEN) xs))) s'"
    using \<open>X + _ + places B s' = X + places B s\<close> \<open>level_inv B k script s'\<close> by (intro jinv_move [OF inv sa])
qed

lemma sjf_process_q_urgent_ok:
  assumes "jinv K {} k m script X s" "ring_list (j_urgent_rings s ! jc_q_urgent_in (j_core s)) = us @ [URGENT_Q_HEAD_TOKEN]"
    "URGENT_Q_HEAD_TOKEN \<notin> set us"
  shows "wp (sjf_process_q_urgent 0 s) (\<lambda>s'. jinv K {} k m script X s' \<and> jc_is_head (j_core s') = 1 \<and> woken s s'
    \<and> ring_list (js_q_head (j_status s')) = [])"
  using assms
proof (induction "length us" arbitrary: us s rule: less_induct)
  case less
  let ?i = "jc_q_urgent_in (j_core s)" and ?us = "j_urgent_rings s"
  have i: "?i < length ?us" "ring_wf (?us ! ?i)"
    using less.prems(1) by (simp_all add: jinv_def room_simps)
  from wpD [OF fp_ring_dequeue_burst_ok [OF i(2), of SJF_BURST_SIZE]]
  obtain xs q where q: "fp_ring_dequeue_burst (?us ! ?i) SJF_BURST_SIZE = Some (xs, q)"
    "xs = take SJF_BURST_SIZE (ring_list (?us ! ?i))" "ring_wf q" "ring_list q = drop SJF_BURST_SIZE (ring_list (?us ! ?i))"
    "ring_room q = ring_room (?us ! ?i)"
    by blast
  have split: "ring_list (?us ! ?i) = xs @ ring_list q"
    by (simp only: q(2,4) append_take_drop_id)
  let ?s = "s\<lparr> j_urgent_rings := ?us[?i := q] \<rparr>"
  note t = jinv_take_urgent [OF less.prems(1) q(3) split q(5) i(1)]
  have unf: "sjf_process_q_urgent 0 s = do {
      (token, s) \<leftarrow> sjf_process_urgent_edges 0 xs ?s;
      if token then sjf_process_head 0 s
      else if xs \<noteq> [] then sjf_process_q_urgent 0 s else Some s }"
    using i(1) q(1) by (subst sjf_process_q_urgent.simps) (simp add: guard_o_def)
  show ?case
  proof (cases "length us < SJF_BURST_SIZE")
    case True
    then have xs: "xs = us @ [URGENT_Q_HEAD_TOKEN]" and qn: "ring_list q = []"
      by (simp_all add: q(2,4) less.prems(2))
    have f: "filter (\<lambda>x. x \<noteq> URGENT_Q_HEAD_TOKEN) xs = us"
      using less.prems(3) by (auto simp: xs filter_id_conv)
    obtain s1 where s1: "sjf_process_urgent_edges 0 xs ?s = sjf_process_urgent_edges 0 [URGENT_Q_HEAD_TOKEN] s1"
      "jinv K {} k m script X s1" "steady ?s s1" "j_urgent_rings s1 = ?us[?i := q]"
      using urgent_edges_to_bins [of K k m script X us ?s "[URGENT_Q_HEAD_TOKEN]"] t less.prems(3)
      unfolding f by (auto simp: xs)
    define s2 where "s2 = upd_core (\<lambda>c. c\<lparr> jc_is_head := 1 \<rparr>) s1"
    have sa: "same_alloc s1 s2"
      by (simp add: same_alloc_def upd_core_def s2_def)
    have l2: "level_inv {} k script s2"
      unfolding level_inv_def same_alloc_eqs [OF sa] using s1(2) by (simp add: jinv_def level_inv_def stream_def upd_core_def s2_def)
    have r2: "room_inv k m script s2"
      using s1(2) by (auto simp: jinv_def room_simps stream_def upd_core_def s2_def split: if_splits)
    have "jinv K {} k m script X s2"
      by (rule jinv_move [OF s1(2) sa _ l2 r2]) (simp add: places_def upd_core_def s2_def)
    from wpD [OF sjf_process_head_ok [OF this, of 0]]
    obtain s3 where s3: "sjf_process_head 0 s2 = Some s3" "jinv K {} k m script X s3" "idle s2 s3"
      "ring_list (js_q_head (j_status s3)) = []"
      by blast
    have "tokens q = 0"
      by (simp add: tokens_def qn)
    then have "woken s s3" "jc_is_head (j_core s3) = 1"
      using s3(3) s1(3,4) i(1) by (simp_all add: woken_def idle_def steady_def s2_def upd_core_def map_update)
    then show ?thesis
      using s1(1) s3(1,2,4) by (simp add: unf s2_def)
  next
    case False
    define us' where "us' = drop SJF_BURST_SIZE us"
    have xs: "xs = take SJF_BURST_SIZE us" and ql: "ring_list q = us' @ [URGENT_Q_HEAD_TOKEN]"
      using False by (simp_all add: q(2,4) less.prems(2) us'_def)
    have xn: "URGENT_Q_HEAD_TOKEN \<notin> set xs" "URGENT_Q_HEAD_TOKEN \<notin> set us'" "xs \<noteq> []" "length us' < length us"
      using less.prems(3) False by (auto simp: xs us'_def SJF_BURST_SIZE_def dest: in_set_takeD in_set_dropD)
    have f: "filter (\<lambda>x. x \<noteq> URGENT_Q_HEAD_TOKEN) xs = xs"
      using xn(1) by (auto simp: filter_id_conv)
    obtain s1 where s1: "sjf_process_urgent_edges 0 xs ?s = Some (False, s1)"
      "jinv K {} k m script X s1" "steady ?s s1" "j_urgent_rings s1 = ?us[?i := q]"
      using urgent_edges_to_bins [of K k m script X xs ?s "[]"] t xn(1) unfolding f by auto
    have in1: "jc_q_urgent_in (j_core s1) = ?i"
      using s1(3) by (simp add: steady_def idle_def)
    have "ring_list (j_urgent_rings s1 ! jc_q_urgent_in (j_core s1)) = us' @ [URGENT_Q_HEAD_TOKEN]"
      using i(1) by (simp add: in1 s1(4) ql)
    from less.hyps [OF xn(4) s1(2) this xn(2)]
    have "wp (sjf_process_q_urgent 0 s1) (\<lambda>s'. jinv K {} k m script X s' \<and> jc_is_head (j_core s') = 1 \<and> woken s1 s'
      \<and> ring_list (js_q_head (j_status s')) = [])" .
    then show ?thesis
      using s1(1,3,4) xn(3) i(1) in1
      by (simp add: unf) (erule wp_mono, simp add: woken_def steady_def idle_def map_update)
  qed
qed

subsection \<open>Taking bins in and passing bins on\<close>

lemma jinv_stat: "jinv K B k m script X (upd_stat f s) = jinv K B k m script X s" and idle_stat: "idle s (upd_stat f s)"
proof -
  have fr: "sjf_frame (upd_stat f s) = sjf_frame s"
    by (simp add: sjf_frame_def upd_stat_def upd_status_def)
  have sa: "same_alloc s (upd_stat f s)"
    by (simp add: same_alloc_def upd_stat_def upd_status_def)
  have "level_inv B k script (upd_stat f s) = level_inv B k script s"
    unfolding level_inv_def same_alloc_eqs [OF sa] frame_eqs(2) [OF fr] frameD [OF fr] by (rule refl)
  then show "jinv K B k m script X (upd_stat f s) = jinv K B k m script X s"
    unfolding jinv_def flow_inv_def same_alloc_eqs [OF sa] frame_eqs [OF fr] by simp
  show "idle s (upd_stat f s)"
    by (simp add: idle_def upd_stat_def upd_status_def)
qed

lemma sjf_take_bin_ok:
  assumes inv: "jinv K {} k m script X s" and k: "k < SJF_NUM_BINS" and bs: "ring_list (in_ring s) = b # bs"
  shows "wp (sjf_take_bin s) (\<lambda>(r, s'). r = Some b \<and> jinv K {} (Suc k) m script (X + bin_flows b) s'
    \<and> at_least s' k b \<and> steady s s')"
proof -
  let ?i = "jc_q_bin_in (j_core s)" and ?rs = "j_bin_rings s"
  have rm: "room_inv k m script s" and lv: "level_inv {} k script s"
    using inv by (simp_all add: jinv_def)
  then have i: "?i < length ?rs" "ring_wf (?rs ! ?i)"
    by (simp_all add: room_simps)
  from wpD [OF fp_ring_dequeue_ok [OF i(2) bs]]
  obtain q where q: "fp_ring_dequeue (?rs ! ?i) = Some (Some b, q)" "ring_wf q" "ring_list q = bs" "ring_room q = ring_room (?rs ! ?i)"
    by blast
  define s' where "s' = s\<lparr> j_bin_rings := ?rs[?i := q] \<rparr>"
  have sa: "same_alloc s s'"
    by (simp add: same_alloc_def s'_def)
  have st: "stream script s = b # stream script s'"
    using i(1) bs by (simp add: stream_def s'_def q(3))
  have cnt: "ring_count (?rs ! ?i) = Suc (length bs)" "ring_count q = length bs"
    using arg_cong [OF bs, of length] arg_cong [OF q(3), of length] by simp_all
  have al: "at_least s ((k + j) mod SJF_NUM_BINS) (stream script s ! j)" if "j < length (stream script s)" for j
    using lv that by (simp add: level_inv_def)
  have "at_least s ((Suc k + j) mod SJF_NUM_BINS) (stream script s' ! j)" if "j < length (stream script s')" for j
    using al [of "Suc j"] that by (simp add: st)
  then have "level_inv {} (Suc k) script s'"
    unfolding level_inv_def same_alloc_eqs [OF sa] using lv by (simp add: level_inv_def s'_def)
  moreover have "ring_flows (?rs ! ?i) = bin_flows b + ring_flows q"
    by (simp add: ring_flows_def bs q(3))
  then have "X + bin_flows b + places {} s' = X + places {} s"
    using sum_map_upd [OF i(1), of ring_flows q] by (simp add: places_def s'_def ac_simps)
  moreover have "\<forall>r \<in> set (?rs[?i := q]). ring_wf r"
    using rm q(2) by (intro list_update_all) (simp_all add: room_simps)
  then have "room_inv (Suc k) m script s'"
    using rm i(1) k unfolding room_simps st by (auto simp: s'_def q(4) cnt split: if_splits)
  ultimately have "jinv K {} (Suc k) m script (X + bin_flows b) s'"
    by (intro jinv_move [OF inv sa])
  moreover have "at_least s' k b"
    unfolding same_alloc_eqs [OF sa] using al [of 0] k by (simp add: st)
  moreover have "sjf_take_bin s = Some (Some b, s')" "steady s s'"
    using i(1) by (simp_all add: sjf_take_bin_def guard_o_def q(1) s'_def steady_def idle_def)
  ultimately show ?thesis
    by simp
qed

lemma sjf_take_bin_none:
  assumes "jinv K {} k m script X s" "ring_list (in_ring s) = []"
  shows "sjf_take_bin s = Some (None, s)"
proof -
  have "jc_q_bin_in (j_core s) < length (j_bin_rings s)" "ring_wf (in_ring s)"
    using assms(1) by (simp_all add: jinv_def room_simps)
  then show ?thesis
    using fp_ring_dequeue_empty [OF _ assms(2)] by (simp add: sjf_take_bin_def guard_o_def)
qed

lemma sjf_wait_bin_ok:
  assumes "jinv K {} k m script {#} s" "k < SJF_NUM_BINS" "jc_is_head (j_core s) \<noteq> 0"
  shows "wp (sjf_wait_bin script bin s) (\<lambda>(b, script', s'). jinv K {} (Suc k) m script' (bin_flows b) s'
    \<and> at_least s' k b \<and> idle s s' \<and> (ring_list (in_ring s) \<noteq> [] \<longrightarrow> script' = script \<and> steady s s'))"
  using assms(1,3)
proof (induction script arbitrary: s)
  case Nil
  have "SJF_NUM_BINS \<le> k + ring_count (in_ring s)"
    using Nil.prems(1) by (simp add: jinv_def room_simps stream_def)
  then have "ring_list (in_ring s) \<noteq> []"
    using assms(2) length_ring_list [of "in_ring s"] by fastforce
  then obtain b bs where "ring_list (in_ring s) = b # bs"
    by (cases "ring_list (in_ring s)") auto
  from wpD [OF sjf_take_bin_ok [OF Nil.prems(1) assms(2) this]]
  show ?case
    by (auto simp: steady_def)
next
  case (Cons evs script)
  show ?case
  proof (cases "ring_list (in_ring s)")
    case Nil
    note none = sjf_take_bin_none [OF Cons.prems(1) Nil]
    obtain s1 where s1: "sjf_poll evs bin s = Some s1" "jinv K {} k m script {#} s1" "idle s s1"
      using wpD [OF sjf_poll_ok [OF Cons.prems]] by blast
    let ?s = "upd_stat (\<lambda>w. w\<lparr> jw_wait_for_q_bin_in := jw_wait_for_q_bin_in w + 1 \<rparr>) s1"
    have i2: "idle s ?s"
      using idle_trans [OF s1(3) idle_stat] .
    then have "jc_is_head (j_core ?s) \<noteq> 0"
      using Cons.prems(2) by (simp add: idle_def)
    from Cons.IH [OF _ this] s1(2)
    have "wp (sjf_wait_bin script bin ?s) (\<lambda>(b, script', s'). jinv K {} (Suc k) m script' (bin_flows b) s'
        \<and> at_least s' k b \<and> idle ?s s')"
      by (auto simp: jinv_stat elim!: wp_mono)
    then show ?thesis
      using none s1(1) idle_trans [OF i2] Nil by (auto elim!: wp_mono)
  next
    case (Cons b bs)
    from wpD [OF sjf_take_bin_ok [OF Cons.prems(1) assms(2) Cons]]
    show ?thesis
      by (auto simp: steady_def)
  qed
qed

lemma sjf_pass_bin_ok:
  assumes inv: "jinv K {} k m script X s" and m: "m < SJF_NUM_BINS" "m < k"
  shows "wp (sjf_pass_bin m s) (\<lambda>s'. jinv K {} k (Suc m) script X s' \<and> steady s s'
    \<and> jc_new_request_bins (j_core s') = jc_new_request_bins (j_core s) \<and> j_urgent_rings s' = j_urgent_rings s)"
proof -
  let ?o = "jc_q_bin_out (j_core s)" and ?rs = "j_bin_rings s" and ?outs = "jc_outgoing_bins (j_core s)"
  have rm: "room_inv k m script s" and lv: "level_inv {} k script s"
    using inv by (simp_all add: jinv_def)
  have o: "?o < length ?rs" "ring_wf (?rs ! ?o)" "length ?outs = SJF_NUM_BINS" "?outs ! m \<noteq> None"
    and room: "ring_count (?rs ! ?o) < ring_room (?rs ! ?o)"
    using rm m by (auto simp: room_simps stream_def split: if_splits)
  obtain b where b: "?outs ! m = Some b"
    using o(4) by blast
  from wpD [OF fp_ring_enqueue_ok [OF o(2) room, of b]]
  obtain q where q: "fp_ring_enqueue (?rs ! ?o) b = Some q" "ring_wf q" "ring_list q = ring_list (?rs ! ?o) @ [b]"
    "ring_room q = ring_room (?rs ! ?o)"
    by blast
  define s' where "s' = upd_core (\<lambda>c. c\<lparr> jc_outgoing_bins := (jc_outgoing_bins c)[m := None] \<rparr>) (s\<lparr> j_bin_rings := ?rs[?o := q] \<rparr>)"
  have sa: "same_alloc s s'"
    by (simp add: same_alloc_def s'_def upd_core_def)
  have cnt: "ring_count q = Suc (ring_count (?rs ! ?o))"
    using arg_cong [OF q(3), of length] by simp
  have bf: "bin_flows b + out_flows (?outs[m := None]) = out_flows ?outs"
    using out_flows_upd [of m ?outs None] m(1) o(3) b by (simp add: ac_simps)
  have rf: "sum_list (map ring_flows (?rs[?o := q])) = sum_list (map ring_flows ?rs) + bin_flows b"
    using sum_map_upd [OF o(1), of ring_flows q] by (simp add: ring_flows_def q(3) ac_simps)
  have pl: "X + places {} s' = X + places {} s"
    unfolding places_def bf [symmetric] by (simp add: s'_def upd_core_def rf ac_simps)
  have al: "at_least s m b"
    using lv b m(1) by (simp add: level_inv_def)
  have lst: "at_least s ((k + j) mod SJF_NUM_BINS) (stream script s' ! j)" if "j < length (stream script s')" for j
  proof (cases "jc_q_bin_in (j_core s) = ?o")
    case True
    then have st: "stream script s' = stream script s @ [b]" "k + length (stream script s) = SJF_NUM_BINS + m"
      using rm o(1) by (auto simp: room_simps stream_def s'_def upd_core_def q(3))
    show ?thesis
    proof (cases "j < length (stream script s)")
      case True
      then show ?thesis
        using lv by (simp add: level_inv_def st(1) nth_append)
    next
      case False
      then have "j = length (stream script s)"
        using that by (simp add: st(1))
      then show ?thesis
        using al st(2) m(1) by (simp add: st(1))
    qed
  next
    case False
    then have "stream script s' = stream script s"
      by (simp add: stream_def s'_def upd_core_def)
    then show ?thesis
      using lv that by (simp add: level_inv_def)
  qed
  have outs: "at_least s i c" if "i < SJF_NUM_BINS" "(?outs[m := None]) ! i = Some c" for i c
    using lv that o(3) m(1) by (auto simp: level_inv_def nth_list_update split: if_splits)
  have "level_inv {} k script s'"
    unfolding level_inv_def same_alloc_eqs [OF sa]
    using lv lst outs by (simp add: level_inv_def) (simp add: s'_def upd_core_def)
  moreover have "\<forall>r \<in> set (?rs[?o := q]). ring_wf r"
    using rm q(2) by (intro list_update_all) (simp_all add: room_simps)
  then have "room_inv k (Suc m) script s'"
    using rm o(1) m unfolding room_simps stream_def
    by (auto simp: s'_def upd_core_def q(4) cnt nth_list_update less_Suc_eq split: if_splits)
  ultimately have "jinv K {} k (Suc m) script X s'"
    by (intro jinv_move [OF inv sa pl])
  moreover have "sjf_pass_bin m s = Some s'" "steady s s'" "jc_new_request_bins (j_core s') = jc_new_request_bins (j_core s)"
    "j_urgent_rings s' = j_urgent_rings s"
    using o m b by (simp_all add: sjf_pass_bin_def guard_o_def q(1) s'_def steady_def idle_def upd_core_def)
  ultimately show ?thesis
    by simp
qed

subsection \<open>One bin\<close>

definition calm :: "sjf \<Rightarrow> sjf \<Rightarrow> bool" where
  "calm s s' \<longleftrightarrow> idle (upd_core (\<lambda>c. c\<lparr> jc_temporary_bins := [] \<rparr>) s) (upd_core (\<lambda>c. c\<lparr> jc_temporary_bins := [] \<rparr>) s')"

lemma calm_iff:
  "calm s s' \<longleftrightarrow> jc_is_head (j_core s') = jc_is_head (j_core s) \<and> jc_admitted (j_core s') = jc_admitted (j_core s)
     \<and> jc_q_bin_in (j_core s') = jc_q_bin_in (j_core s) \<and> jc_q_bin_out (j_core s') = jc_q_bin_out (j_core s)
     \<and> jc_q_urgent_in (j_core s') = jc_q_urgent_in (j_core s) \<and> jc_q_urgent_out (j_core s') = jc_q_urgent_out (j_core s)
     \<and> map tokens (j_urgent_rings s') = map tokens (j_urgent_rings s)
     \<and> js_q_admitted_out (j_status s') = js_q_admitted_out (j_status s)
     \<and> js_current_timeslot (j_status s') = js_current_timeslot (j_status s)
     \<and> jb_allowed_mask (j_batch s') = jb_allowed_mask (j_batch s)"
  by (simp add: calm_def idle_def upd_core_def)

lemma calm_trans: "calm s s' \<Longrightarrow> calm s' s'' \<Longrightarrow> calm s s''"
  by (simp add: calm_iff)

lemma idle_calm: "idle s s' \<Longrightarrow> calm s s'"
  by (simp add: calm_iff idle_def)

definition temps_filled :: "nat \<Rightarrow> sjf \<Rightarrow> bool" where
  "temps_filled n s \<longleftrightarrow> (\<forall>i < n. \<exists>b. jc_temporary_bins (j_core s) ! i = Some b \<and> jbin_list b = [])"

lemma jinv_open_new:
  assumes inv: "jinv K {} k m script {#} s" and i: "i < SJF_NUM_BINS"
  shows "jinv K {i} k m script (bin_flows (jc_new_request_bins (j_core s) ! i)) s"
    "at_least s i (jc_new_request_bins (j_core s) ! i)"
proof -
  let ?news = "jc_new_request_bins (j_core s)"
  have rm: "room_inv k m script s" and lv: "level_inv {} k script s"
    using inv by (simp_all add: jinv_def)
  then have "bin_flows (?news ! i) + places {i} s = {#} + places {} s"
    using new_flows_open [of i ?news "{}"] i by (simp add: room_simps places_def)
  moreover have "level_inv {i} k script s"
    using lv by (simp add: level_inv_def)
  ultimately show "jinv K {i} k m script (bin_flows (?news ! i)) s"
    using rm by (intro jinv_move [OF inv]) (simp_all add: same_alloc_def)
  show "at_least s i (?news ! i)"
    using lv i by (simp add: level_inv_def)
qed

lemma jinv_close_new:
  assumes inv: "jinv K {i} k m script X s" and i: "i < SJF_NUM_BINS" and b: "jbin_list b = []"
  defines "s' \<equiv> upd_core (\<lambda>c. c\<lparr> jc_new_request_bins := (jc_new_request_bins c)[i := b] \<rparr>) s"
  shows "jinv K {} k m script X s'" "steady s s'"
proof -
  let ?news = "jc_new_request_bins (j_core s)"
  have rm: "room_inv k m script s" and lv: "level_inv {i} k script s"
    using inv by (simp_all add: jinv_def)
  have len: "length ?news = SJF_NUM_BINS"
    using rm by (simp add: room_simps)
  have sa: "same_alloc s s'"
    by (simp add: same_alloc_def s'_def upd_core_def)
  have "bin_flows b = {#}"
    by (simp add: bin_flows_def b)
  then have "new_flows {} (?news[i := b]) = new_flows {i} ?news" and be: "at_least s i b"
    using new_flows_open [of i "?news[i := b]" "{}"] new_flows_skip [of i "{i}" ?news b] i len by (simp_all add: at_least_def)
  then have "X + places {} s' = X + places {i} s"
    by (simp add: places_def s'_def upd_core_def)
  moreover have "level_inv {} k script s'"
    unfolding level_inv_def same_alloc_eqs [OF sa]
    using lv be len i by (auto simp: level_inv_def s'_def upd_core_def stream_def nth_list_update)
  moreover have "room_inv k m script s'"
    using rm by (auto simp: room_simps s'_def upd_core_def stream_def split: if_splits)
  ultimately show "jinv K {} k m script X s'"
    by (intro jinv_move [OF inv sa])
  show "steady s s'"
    by (simp add: steady_def idle_def s'_def upd_core_def)
qed

lemma jinv_store_temp:
  assumes inv: "jinv K {} k m script X s" and f: "temps_filled i s" and i: "i < SJF_NUM_BINS" and b: "jbin_list b = []"
  defines "s' \<equiv> upd_core (\<lambda>c. c\<lparr> jc_temporary_bins := (jc_temporary_bins c)[i := Some b] \<rparr>) s"
  shows "jinv K {} k m script X s'" "calm s s'" "temps_filled (Suc i) s'"
proof -
  have rm: "room_inv k m script s" and lv: "level_inv {} k script s"
    using inv by (simp_all add: jinv_def)
  have sa: "same_alloc s s'"
    by (simp add: same_alloc_def s'_def upd_core_def)
  have "X + places {} s' = X + places {} s"
    by (simp add: places_def s'_def upd_core_def)
  moreover have "level_inv {} k script s'"
    unfolding level_inv_def same_alloc_eqs [OF sa] using lv by (simp add: level_inv_def s'_def upd_core_def stream_def)
  moreover have "room_inv k m script s'"
    using rm by (auto simp: room_simps s'_def upd_core_def stream_def split: if_splits)
  ultimately show "jinv K {} k m script X s'"
    by (intro jinv_move [OF inv sa])
  have "length (jc_temporary_bins (j_core s)) = SJF_NUM_BINS"
    using rm by (simp add: room_simps)
  then show "temps_filled (Suc i) s'"
    using f b i by (auto simp: temps_filled_def s'_def upd_core_def nth_list_update less_Suc_eq)
  show "calm s s'"
    by (simp add: calm_iff s'_def upd_core_def)
qed

lemma sjf_bin_step_ok:
  assumes inv: "jinv K {} bin (bin - 64) script {#} s" and bin: "bin < SJF_NUM_BINS"
    and hd: "jc_is_head (j_core s) \<noteq> 0" and f: "temps_filled bin s"
  shows "wp (sjf_bin_step bin (script, s)) (\<lambda>(script', s').
    jinv K {} (Suc bin) (Suc bin - 64) script' {#} s' \<and> calm s s' \<and> temps_filled (Suc bin) s'
    \<and> (ring_list (in_ring s) \<noteq> [] \<longrightarrow> script' = script \<and> js_q_head (j_status s') = js_q_head (j_status s)))"
proof -
  let ?m = "bin - 64"
  obtain b script1 s1 where s1: "sjf_wait_bin script bin s = Some (b, script1, s1)"
    "jinv K {} (Suc bin) ?m script1 (bin_flows b) s1" "at_least s1 bin b" "idle s s1"
    "ring_list (in_ring s) \<noteq> [] \<longrightarrow> script1 = script \<and> steady s s1"
    using wpD [OF sjf_wait_bin_ok [OF inv bin hd, of bin]] by auto
  have m: "?m + 64 \<le> bin \<or> ?m = 0"
    by auto
  obtain b' s2 where s2: "sjf_try_allocation_bin b s1 = Some (b', s2)" "jbin_list b' = []"
    "jinv K {} (Suc bin) ?m script1 {#} s2" "steady s1 s2"
    using wpD [OF sjf_try_allocation_bin_ok [OF _ s1(3) m bin, of K "{}" "Suc bin" script1 "{#}"]] s1(2) by auto
  let ?nb = "jc_new_request_bins (j_core s2) ! bin"
  have len: "bin < length (jc_new_request_bins (j_core s2))"
    using s2(3) bin by (simp add: jinv_def room_simps)
  note o = jinv_open_new [OF s2(3) bin]
  obtain nb s3 where s3: "sjf_try_allocation_bin ?nb s2 = Some (nb, s3)" "jbin_list nb = []"
    "jinv K {bin} (Suc bin) ?m script1 {#} s3" "steady s2 s3"
    using wpD [OF sjf_try_allocation_bin_ok [OF _ o(2) m bin, of K "{bin}" "Suc bin" script1 "{#}"]] o(1) by auto
  define s4 where "s4 = upd_core (\<lambda>c. c\<lparr> jc_new_request_bins := (jc_new_request_bins c)[bin := nb] \<rparr>) s3"
  note c = jinv_close_new [OF s3(3) bin s3(2), folded s4_def]
  obtain s5 where s5: "(if SJF_BATCH_SIZE \<le> bin then sjf_pass_bin (bin - SJF_BATCH_SIZE) s4 else Some s4) = Some s5"
    "jinv K {} (Suc bin) (Suc bin - 64) script1 {#} s5" "steady s4 s5"
  proof (cases "64 \<le> bin")
    case True
    then have "wp (sjf_pass_bin ?m s4) (\<lambda>s'. jinv K {} (Suc bin) (Suc ?m) script1 {#} s' \<and> steady s4 s')"
      using bin by (intro wp_mono [OF sjf_pass_bin_ok [OF c(1)]]) auto
    then obtain x where x: "sjf_pass_bin ?m s4 = Some x" "jinv K {} (Suc bin) (Suc ?m) script1 {#} x" "steady s4 x"
      by (auto dest!: wpD)
    moreover have "Suc bin - 64 = Suc ?m"
      using True by simp
    ultimately show thesis
      using that True by (simp only: SJF_BATCH_SIZE_def simp_thms if_True)
  next
    case False
    then show thesis
      using that c(1) by (simp add: SJF_BATCH_SIZE_def)
  qed
  have "idle s1 s5"
    using s2(4) s3(4) c(2) s5(3) by (auto simp: steady_def intro: idle_trans)
  then have id: "idle s s5"
    using s1(4) idle_trans by blast
  then have f5: "temps_filled bin s5"
    using f by (simp add: temps_filled_def idle_def)
  have lt: "bin < length (jc_temporary_bins (j_core s5))"
    using s5(2) bin by (simp add: jinv_def room_simps)
  note t = jinv_store_temp [OF s5(2) f5 bin s2(2)]
  have "js_q_head (j_status s5) = js_q_head (j_status s1)"
    using s2(4) s3(4) c(2) s5(3) by (simp add: steady_def)
  then have "ring_list (in_ring s) \<noteq> [] \<longrightarrow> script1 = script \<and> js_q_head (j_status s5) = js_q_head (j_status s)"
    using s1(5) by (simp add: steady_def)
  then have "ring_list (in_ring s) \<noteq> [] \<longrightarrow> script1 = script \<and> js_q_head (j_status
      (upd_core (\<lambda>c. c\<lparr> jc_temporary_bins := (jc_temporary_bins c)[bin := Some b'] \<rparr>) s5)) = js_q_head (j_status s)"
    by (simp add: upd_core_def)
  then show ?thesis
    using t calm_trans [OF idle_calm [OF id] t(2)]
    by (simp add: sjf_bin_step_def s1(1) s2(1) s3(1) len guard_o_def s4_def [symmetric] s5(1) lt)
qed

end
