(* ===== verification/FP_Sjf_Run.thy ===== *)
theory FP_Sjf_Run
  imports FP_Sjf_Batch
begin

unbundle bit_operations_syntax

text \<open>
  The end of a batch of the shortest-job-first allocator: sending out the timeslots, handing the
  token on, passing on the last bins; then the whole batch, from a state that is \<^verbatim>\<open>sjf_ready\<close>.
\<close>

subsection \<open>Sending out timeslots\<close>

definition outing :: "sjf \<Rightarrow> sjf \<Rightarrow> bool" where
  "outing s s' \<longleftrightarrow> jc_is_head (j_core s') = jc_is_head (j_core s) \<and> jc_admitted (j_core s') = jc_admitted (j_core s)
     \<and> jc_temporary_bins (j_core s') = jc_temporary_bins (j_core s)
     \<and> jc_q_bin_in (j_core s') = jc_q_bin_in (j_core s) \<and> jc_q_bin_out (j_core s') = jc_q_bin_out (j_core s)
     \<and> jc_q_urgent_in (j_core s') = jc_q_urgent_in (j_core s) \<and> jc_q_urgent_out (j_core s') = jc_q_urgent_out (j_core s)
     \<and> map tokens (j_urgent_rings s') = map tokens (j_urgent_rings s)
     \<and> ring_room (js_q_admitted_out (j_status s')) = ring_room (js_q_admitted_out (j_status s))
     \<and> js_current_timeslot (j_status s') = js_current_timeslot (j_status s)"

lemma outing_refl [simp]: "outing s s"
  by (simp add: outing_def)

lemma outing_trans: "outing s s' \<Longrightarrow> outing s' s'' \<Longrightarrow> outing s s''"
  by (simp add: outing_def)

lemma idle_outing: "idle s s' \<Longrightarrow> outing s s'"
  by (simp add: outing_def idle_def)

abbreviation sent_list :: "sjf \<Rightarrow> nat list" where
  "sent_list s \<equiv> ring_list (js_q_admitted_out (j_status s))"

text \<open>The timeslots from \<^verbatim>\<open>a\<close> on.\<close>

definition mask_from :: "nat \<Rightarrow> u64" where
  "mask_from a = push_bit a (NOT 0)"

lemma mask_from_Suc: "mask_from (Suc a) = push_bit 1 (mask_from a)"
  by (simp only: mask_from_def push_bit_push_bit plus_1_eq_Suc)

lemma mask_from_bit: "bit (mask_from a) t \<longleftrightarrow> a \<le> t \<and> t < 64"
  by (auto simp: mask_from_def bit_simps)

lemma slot_ok_mask [simp]: "sjf_slot_ok n (bs\<lparr> jb_allowed_mask := x \<rparr>) t es = sjf_slot_ok n bs t es"
  by (simp add: sjf_slot_ok_def ends_ok_def boundary_ok_def racks_ok_def)

lemma sjf_send_admitted_ok:
  assumes inv: "jinv K B k m script X s" and bin: "bin < 64"
    and room: "ring_count (js_q_admitted_out (j_status s)) < ring_room (js_q_admitted_out (j_status s))"
  shows "wp (sjf_send_admitted bin s) (\<lambda>s'. jinv K B k m script X s' \<and> outing s s'
    \<and> sent_list s' = sent_list s @ [jc_admitted (j_core s) ! bin]
    \<and> jb_allowed_mask (j_batch s') = push_bit 1 (jb_allowed_mask (j_batch s))
    \<and> jc_new_request_bins (j_core s') = jc_new_request_bins (j_core s) \<and> slot_edges s' = slot_edges s)"
proof -
  let ?q = "js_q_admitted_out (j_status s)" and ?p = "jc_admitted (j_core s) ! bin"
  have rm: "room_inv k m script s" and lv: "level_inv B k script s" and sl: "slots_inv K s" and fi: "flow_inv K B script X s"
    using inv by (simp_all add: jinv_def)
  then have wf: "ring_wf ?q" and len: "bin < length (jc_admitted (j_core s))"
    using bin by (simp_all add: room_simps slots_inv_def SJF_BATCH_SIZE_def)
  from wpD [OF fp_ring_enqueue_ok [OF wf room, of ?p]]
  obtain q where q: "fp_ring_enqueue ?q ?p = Some q" "ring_wf q" "ring_list q = ring_list ?q @ [?p]" "ring_room q = ring_room ?q"
    by blast
  define s' where "s' = upd_core (\<lambda>c. c\<lparr> jc_batch_state := (jc_batch_state c)
       \<lparr> jb_allowed_mask := push_bit 1 (jb_allowed_mask (jc_batch_state c)) \<rparr> \<rparr>)
     (upd_status (\<lambda>st. st\<lparr> js_q_admitted_out := q \<rparr>) s)"
  have e: "flow_backlog s' = flow_backlog s" "slot_edges s' = slot_edges s" "places B s' = places B s"
      "stream script s' = stream script s" "jc_new_request_bins (j_core s') = jc_new_request_bins (j_core s)"
      "jc_outgoing_bins (j_core s') = jc_outgoing_bins (j_core s)" "j_urgent_rings s' = j_urgent_rings s"
    by (simp_all add: fun_eq_iff flow_backlog_def slot_edges_def places_def stream_def s'_def upd_core_def upd_status_def)
  have e2: "at_least s' = at_least s" "urgent_ok s' = urgent_ok s" "grants s' = grants s"
    by (intro ext, simp add: at_least_def urgent_ok_def grants_def e)+
  have "flow_inv K B script X s'" "level_inv B k script s'"
    using fi lv unfolding flow_inv_def level_inv_def e e2 by simp_all
  moreover have "room_inv k m script s'"
    using rm q(2) unfolding room_simps e by (auto simp: s'_def upd_core_def upd_status_def split: if_splits)
  moreover have "\<not> bit (push_bit 1 (jb_allowed_mask (j_batch s))) t" if "t < kx_closed K" for t
  proof -
    have "\<not> bit (jb_allowed_mask (j_batch s)) (t - 1)"
      using sl that unfolding slots_inv_def Let_def by (metis less_imp_diff_less)
    then show ?thesis
      by (simp only: bit_push_bit_iff simp_thms)
  qed
  then have "slots_inv K s'"
    using sl unfolding slots_inv_def Let_def e sjf_config_def by (auto simp: s'_def upd_core_def upd_status_def)
  ultimately have "jinv K B k m script X s'"
    by (simp add: jinv_def)
  moreover have "sjf_send_admitted bin s = Some s'"
    using len by (simp add: sjf_send_admitted_def guard_o_def q(1) s'_def)
  moreover have "outing s s'" "sent_list s' = sent_list s @ [?p]" "jb_allowed_mask (j_batch s') = push_bit 1 (jb_allowed_mask (j_batch s))"
    by (simp_all add: outing_def s'_def upd_core_def upd_status_def q(3,4))
  ultimately show ?thesis
    using e by simp
qed

lemma sjf_pace_ok:
  assumes inv: "jinv K {} k m script X s" and hd: "jc_is_head (j_core s) \<noteq> 0" and t: "\<not> now < start"
  shows "wp (sjf_pace script bin now start s) (\<lambda>(script', s'). jinv K {} k m script' X s' \<and> idle s s'
     \<and> script' = tl script)"
proof -
  have round: "wp (sjf_pace_round evs bin s) (\<lambda>s'. jinv K {} k m rest X s' \<and> idle s s' \<and> jc_is_head (j_core s') \<noteq> 0)"
    if i: "jinv K {} k m (evs # rest) X s" for evs rest
  proof -
    obtain s1 where "sjf_poll evs bin s = Some s1" "jinv K {} k m rest X s1" "idle s s1"
      using wpD [OF sjf_poll_ok [OF i hd]] by blast
    then show ?thesis
      using idle_trans [OF _ idle_stat] hd by (auto simp: sjf_pace_round_def jinv_stat idle_def)
  qed
  show ?thesis
  proof (cases script)
    case Nil
    show ?thesis
      using wpD [OF round [of "[]" "[]"]] inv t by (auto simp: Nil jinv_skip guard_o_def)
  next
    case (Cons evs rest)
    show ?thesis
      using wpD [OF round [of evs rest]] inv t by (auto simp: Cons)
  qed
qed

lemma sjf_output_step_ok:
  assumes inv: "jinv K {} k m script X s" and hd: "jc_is_head (j_core s) \<noteq> 0" and bin: "bin < 64"
    and t: "bin mod 4 = 0 \<Longrightarrow> first_timeslot + of_nat bin \<le> now"
    and room: "ring_count (js_q_admitted_out (j_status s)) < ring_room (js_q_admitted_out (j_status s))"
  shows "wp (sjf_output_step first_timeslot now bin (script, s)) (\<lambda>(script', s'). jinv K {} k m script' X s' \<and> outing s s'
    \<and> sent_list s' = sent_list s @ [jc_admitted (j_core s) ! bin]
    \<and> jb_allowed_mask (j_batch s') = push_bit 1 (jb_allowed_mask (j_batch s))
    \<and> script' = (if bin mod 4 = 0 then tl script else script))"
proof -
  obtain script1 s1 where s1: "(if bin mod 4 = 0
       then sjf_pace script bin now (first_timeslot + of_nat bin) s else Some (script, s)) = Some (script1, s1)"
    "jinv K {} k m script1 X s1" "idle s s1" "script1 = (if bin mod 4 = 0 then tl script else script)"
  proof (cases "bin mod 4 = 0")
    case True
    obtain script1 s1 where "sjf_pace script bin now (first_timeslot + of_nat bin) s = Some (script1, s1)"
      "jinv K {} k m script1 X s1" "idle s s1" "script1 = tl script"
      using wpD [OF sjf_pace_ok [OF inv hd, of now "first_timeslot + of_nat bin" bin]] t [OF True] by fastforce
    then show thesis
      using that True by simp
  qed (use that inv in auto)
  have "ring_count (js_q_admitted_out (j_status s1)) < ring_room (js_q_admitted_out (j_status s1))"
    using room s1(3) by (simp add: idle_def)
  from wpD [OF sjf_send_admitted_ok [OF s1(2) bin this]]
  obtain s2 where s2: "sjf_send_admitted bin s1 = Some s2" "jinv K {} k m script1 X s2" "outing s1 s2"
    "sent_list s2 = sent_list s1 @ [jc_admitted (j_core s1) ! bin]"
    "jb_allowed_mask (j_batch s2) = push_bit 1 (jb_allowed_mask (j_batch s1))"
    by blast
  have "outing s s2" "sent_list s1 = sent_list s" "jc_admitted (j_core s1) = jc_admitted (j_core s)"
      "jb_allowed_mask (j_batch s1) = jb_allowed_mask (j_batch s)"
    using outing_trans [OF idle_outing [OF s1(3)] s2(3)] s1(3) by (simp_all add: idle_def)
  moreover have "sjf_output_step first_timeslot now bin (script, s) = Some (script1, s2)"
    unfolding sjf_output_step_def fst_conv snd_conv s1(1) by (simp add: s2(1))
  ultimately show ?thesis
    using s1(4) s2 by simp
qed

lemma sjf_output_loop_ok:
  assumes inv: "jinv K {} k m script X s" and hd: "jc_is_head (j_core s) \<noteq> 0"
    and t: "\<And>i. i < 64 \<Longrightarrow> i mod 4 = 0 \<Longrightarrow> first_timeslot + of_nat i \<le> now"
    and n: "a \<le> b" "b \<le> 64"
    and room: "ring_count (js_q_admitted_out (j_status s)) + (b - a) \<le> ring_room (js_q_admitted_out (j_status s))"
    and mask: "jb_allowed_mask (j_batch s) = mask_from a"
  shows "wp (foldo (sjf_output_step first_timeslot now) [a..<b] (script, s)) (\<lambda>(script', s').
     jinv K {} k m script' X s' \<and> outing s s' \<and> jb_allowed_mask (j_batch s') = mask_from b
     \<and> sent_list s' = sent_list s @ drop a (take b (jc_admitted (j_core s))))"
proof -
  let ?adm = "jc_admitted (j_core s)"
  let ?P = "\<lambda>i (x :: sjf_script \<times> sjf). jinv K {} k m (fst x) X (snd x) \<and> outing s (snd x)
    \<and> jb_allowed_mask (j_batch (snd x)) = mask_from (a + i)
    \<and> sent_list (snd x) = sent_list s @ drop a (take (a + i) ?adm)"
  have len: "length ?adm = 64"
    using inv by (simp add: jinv_def slots_inv_def Let_def SJF_BATCH_SIZE_def)
  have "wp (foldo (sjf_output_step first_timeslot now) [a..<b] (script, s)) (?P (length [a..<b]))"
  proof (rule wp_foldo)
    show "?P 0 (script, s)"
      using inv mask by simp
    fix i x assume i: "i < length [a..<b]" and P: "?P i x"
    obtain sc u where x: "x = (sc, u)"
      by (cases x)
    have o: "outing s u" and sl: "sent_list u = sent_list s @ drop a (take (a + i) ?adm)"
      using P by (simp_all add: x)
    have ai: "a + i < 64" and nth: "[a..<b] ! i = a + i"
      using i n by simp_all
    have "length (sent_list u) = ring_count (js_q_admitted_out (j_status s)) + i"
      using ai len by (simp add: sl)
    then have "ring_count (js_q_admitted_out (j_status u)) < ring_room (js_q_admitted_out (j_status u))"
      using room i o by (simp add: outing_def)
    from wpD [OF sjf_output_step_ok [OF _ _ ai t this, of K k m sc X]] P hd o ai
    obtain sc' u' where u': "sjf_output_step first_timeslot now (a + i) (sc, u) = Some (sc', u')"
      "jinv K {} k m sc' X u'" "outing u u'" "sent_list u' = sent_list u @ [jc_admitted (j_core u) ! (a + i)]"
      "jb_allowed_mask (j_batch u') = push_bit 1 (jb_allowed_mask (j_batch u))"
      by (auto simp: x outing_def)
    have "drop a (take (a + Suc i) ?adm) = drop a (take (a + i) ?adm) @ [?adm ! (a + i)]"
      using ai len by (simp add: take_Suc_conv_app_nth)
    moreover have "jc_admitted (j_core u) = ?adm"
      using o by (simp add: outing_def)
    moreover have "jb_allowed_mask (j_batch u) = mask_from (a + i)"
      using P by (simp add: x)
    then have "jb_allowed_mask (j_batch u') = mask_from (a + Suc i)"
      by (simp only: u'(5) mask_from_Suc add_Suc_right)
    ultimately show "wp (sjf_output_step first_timeslot now ([a..<b] ! i) x) (?P (Suc i))"
      using u'(1-4) outing_trans [OF o] unfolding nth x by (simp add: sl)
  qed
  then show ?thesis
    using n(1) by (auto elim!: wp_mono)
qed

subsection \<open>Handing the token and the last bins on\<close>

lemma sjf_enqueue_token_ok:
  assumes inv: "jinv K B k m script X s" and tk: "tokens (urgent_out s) = 0"
  shows "wp (sjf_enqueue_urgent URGENT_Q_HEAD_TOKEN s) (\<lambda>s'. jinv K B k m script X s'
    \<and> ring_list (urgent_out s') = ring_list (urgent_out s) @ [URGENT_Q_HEAD_TOKEN]
    \<and> s' = s\<lparr> j_urgent_rings := j_urgent_rings s' \<rparr>)"
proof -
  let ?us = "j_urgent_rings s" and ?o = "jc_q_urgent_out (j_core s)"
  have rm: "room_inv k m script s" and lv: "level_inv B k script s"
    using inv by (simp_all add: jinv_def)
  then have o: "?o < length ?us" "ring_wf (?us ! ?o)" "65282 \<le> ring_room (?us ! ?o)"
    by (simp_all add: room_simps)
  have "size (urgent_flows (?us ! ?o)) \<le> 65280"
    using size_sum_list_nth [OF o(1), of urgent_flows] jinv_size [OF inv] by (simp add: places_def)
  then have "ring_count (?us ! ?o) < ring_room (?us ! ?o)"
    using o(3) tk by (simp add: ring_tokens)
  from wpD [OF fp_ring_enqueue_ok [OF o(2) this, of URGENT_Q_HEAD_TOKEN]]
  obtain q where q: "fp_ring_enqueue (?us ! ?o) URGENT_Q_HEAD_TOKEN = Some q" "ring_wf q"
    "ring_list q = ring_list (?us ! ?o) @ [URGENT_Q_HEAD_TOKEN]" "ring_room q = ring_room (?us ! ?o)"
    by blast
  let ?s = "s\<lparr> j_urgent_rings := ?us[?o := q] \<rparr>"
  have sa: "same_alloc s ?s"
    by (simp add: same_alloc_def)
  have uf: "urgent_flows q = urgent_flows (?us ! ?o)" and t1: "tokens q = 1"
    using tk by (simp_all add: urgent_flows_def tokens_def q(3))
  have "X + places B ?s = X + places B s"
    using sum_map_upd [OF o(1), of urgent_flows q] by (simp add: places_def uf)
  moreover have "\<forall>r \<in> set (?us[?o := q]). \<forall>x \<in> set (ring_list r). urgent_ok s x"
    using lv nth_mem [OF o(1)] by (intro list_update_all) (auto simp: level_inv_def q(3) urgent_ok_def)
  then have "level_inv B k script ?s"
    unfolding level_inv_def same_alloc_eqs [OF sa] using lv by (simp add: level_inv_def stream_def)
  moreover have "\<forall>r \<in> set (?us[?o := q]). ring_wf r"
    using rm q(2) by (intro list_update_all) (simp_all add: room_simps)
  then have "room_inv k m script ?s"
    using rm o(1) by (auto simp: room_simps stream_def q(4) t1 split: if_splits)
  ultimately have "jinv K B k m script X ?s"
    by (intro jinv_move [OF inv sa])
  then show ?thesis
    using o(1) by (simp add: sjf_enqueue_urgent_def guard_o_def q(1,3))
qed

lemma sjf_flush_last_bin_ok:
  assumes inv: "jinv K {} k m script X s" and m: "m < SJF_NUM_BINS"
  shows "wp (sjf_flush_last_bin s) (\<lambda>s'. jinv K {} k m script X s' \<and> steady s s' \<and> j_urgent_rings s' = j_urgent_rings s
    \<and> (\<exists>nb. jc_new_request_bins (j_core s') = (jc_new_request_bins (j_core s))[SJF_NUM_BINS - 1 := nb] \<and> jbin_list nb = []))"
proof -
  let ?l = "SJF_NUM_BINS - 1" and ?news = "jc_new_request_bins (j_core s)" and ?outs = "jc_outgoing_bins (j_core s)"
  have rm: "room_inv k m script s" and lv: "level_inv {} k script s"
    using inv by (simp_all add: jinv_def)
  have l: "?l < SJF_NUM_BINS"
    by (simp add: SJF_NUM_BINS_def)
  have len: "length ?news = SJF_NUM_BINS" "length ?outs = SJF_NUM_BINS" and "?outs ! ?l \<noteq> None"
    using rm m l by (auto simp: room_simps)
  then obtain b where b: "?outs ! ?l = Some b"
    by blast
  have fo: "out_flows (?outs[?l := None]) + bin_flows b = out_flows ?outs"
    using out_flows_upd [of ?l ?outs None] l len b by simp
  have fn: "new_flows {} ?news = bin_flows (?news ! ?l) + new_flows {?l} ?news"
    using new_flows_open [of ?l ?news "{}"] l len by simp
  have "size (bin_flows b) + size (bin_flows (?news ! ?l)) \<le> 65280"
    using jinv_size [OF inv] unfolding places_def fn fo [symmetric] by simp
  then have "length (jbin_list (?news ! ?l)) + length (jbin_list b) \<le> 65535"
    unfolding bin_flows_size by linarith
  from wpD [OF sjf_move_bin_ok [OF this]]
  obtain nb b' where mv: "sjf_move_bin (?news ! ?l) b = Some (nb, b')" "jbin_list nb = []"
    "jbin_list b' = jbin_list b @ jbin_list (?news ! ?l)"
    by blast
  define s' where "s' = s\<lparr> j_core := (j_core s)\<lparr> jc_new_request_bins := ?news[?l := nb], jc_outgoing_bins := ?outs[?l := Some b'] \<rparr> \<rparr>"
  have sa: "same_alloc s s'"
    by (simp add: same_alloc_def s'_def)
  have bf: "bin_flows b' = bin_flows b + bin_flows (?news ! ?l)" "bin_flows nb = {#}"
    by (simp_all add: bin_flows_def mv(2,3))
  have "new_flows {} (?news[?l := nb]) = new_flows {?l} ?news"
    using new_flows_open [of ?l "?news[?l := nb]" "{}"] new_flows_skip [of ?l "{?l}" ?news nb] l len bf(2) by simp
  moreover have "out_flows (?outs[?l := Some b']) = out_flows (?outs[?l := None]) + bin_flows b'"
    using out_flows_upd [of ?l "?outs[?l := None]" "Some b'"] l len by simp
  ultimately have "X + places {} s' = X + places {} s"
    unfolding places_def fn fo [symmetric] by (simp add: s'_def bf(1) ac_simps)
  moreover have "at_least s ?l b" "at_least s ?l (?news ! ?l)"
    using lv b l by (simp_all add: level_inv_def)
  then have ab: "at_least s ?l b'" "at_least s ?l nb"
    by (auto simp: at_least_def bf)
  have "level_inv {} k script s'"
    unfolding level_inv_def same_alloc_eqs [OF sa]
    using lv ab len l by (auto simp: level_inv_def s'_def stream_def nth_list_update)
  moreover have "room_inv k m script s'"
    using rm m l by (auto simp: room_simps s'_def stream_def nth_list_update split: if_splits)
  ultimately have "jinv K {} k m script X s'"
    by (intro jinv_move [OF inv sa])
  moreover have "sjf_flush_last_bin s = Some s'" "steady s s'" "j_urgent_rings s' = j_urgent_rings s"
    using l len by (simp_all add: sjf_flush_last_bin_def guard_o_def b [simplified] mv(1) [simplified] s'_def steady_def idle_def Let_def)
  moreover have "jc_new_request_bins (j_core s') = ?news[?l := nb]"
    by (simp add: s'_def)
  ultimately show ?thesis
    using mv(2) by auto
qed

lemma sjf_pass_bins_ok:
  assumes inv: "jinv K {} SJF_NUM_BINS m script X s" and m: "m \<le> SJF_NUM_BINS"
  shows "wp (foldo sjf_pass_bin [m..<SJF_NUM_BINS] s) (\<lambda>s'. jinv K {} SJF_NUM_BINS SJF_NUM_BINS script X s' \<and> steady s s'
    \<and> jc_new_request_bins (j_core s') = jc_new_request_bins (j_core s) \<and> j_urgent_rings s' = j_urgent_rings s)"
proof -
  let ?P = "\<lambda>i s'. jinv K {} SJF_NUM_BINS (m + i) script X s' \<and> steady s s'
    \<and> jc_new_request_bins (j_core s') = jc_new_request_bins (j_core s) \<and> j_urgent_rings s' = j_urgent_rings s"
  have "wp (foldo sjf_pass_bin [m..<SJF_NUM_BINS] s) (?P (length [m..<SJF_NUM_BINS]))"
  proof (rule wp_foldo)
    show "?P 0 s"
      using inv by simp
    fix i u assume i: "i < length [m..<SJF_NUM_BINS]" and P: "?P i u"
    have "wp (sjf_pass_bin (m + i) u) (\<lambda>s'. jinv K {} SJF_NUM_BINS (Suc (m + i)) script X s' \<and> steady u s'
        \<and> jc_new_request_bins (j_core s') = jc_new_request_bins (j_core u) \<and> j_urgent_rings s' = j_urgent_rings u)"
      using P i by (intro sjf_pass_bin_ok) simp_all
    then show "wp (sjf_pass_bin ([m..<SJF_NUM_BINS] ! i) u) (?P (Suc i))"
      using P i steady_trans [of s u] by (auto elim!: wp_mono)
  qed
  then show ?thesis
    using m by (auto elim!: wp_mono)
qed

subsection \<open>Starting a batch\<close>

text \<open>
  A state in which the core can run a batch. The flows in the new-request bins of the last batch
  are counted here, and lost at the start of the next.
\<close>

definition sjf_ready :: "sjf_ctx \<Rightarrow> sjf_script \<Rightarrow> sjf \<Rightarrow> bool" where
  "sjf_ready K script s \<longleftrightarrow> held K (flow_backlog s) (places {} s + script_flows script) \<and> script_ok (kx_nodes K) script
   \<and> (\<forall>p. valid_flow (kx_nodes K) p \<longrightarrow> unat (flow_backlog s p) + requested script p = kx_total K p \<and> kx_total K p < 4294967296)
   \<and> level_inv UNIV 0 script s \<and> room_inv 0 0 script s
   \<and> kx_nodes K = unat (js_num_nodes (j_status s)) \<and> 0 < kx_nodes K \<and> kx_nodes K \<le> 255 \<and> kx_config K = sjf_config (j_status s)
   \<and> out_flows (jc_outgoing_bins (j_core s)) = {#}
   \<and> (\<exists>us. ring_list (j_urgent_rings s ! jc_q_urgent_in (j_core s)) = us @ [URGENT_Q_HEAD_TOKEN] \<and> URGENT_Q_HEAD_TOKEN \<notin> set us)
   \<and> (jc_q_urgent_in (j_core s) \<noteq> jc_q_urgent_out (j_core s) \<longrightarrow> tokens (urgent_out s) = 0)"

definition left_over :: "sjf \<Rightarrow> flow set" where
  "left_over s = set_mset (new_flows {} (jc_new_request_bins (j_core s)))"

definition admitted_ok :: "nat list \<Rightarrow> sjf \<Rightarrow> bool" where
  "admitted_ok admitted s \<longleftrightarrow> length admitted = SJF_BATCH_SIZE \<and> distinct admitted \<and> (\<forall>p \<in> set admitted. p < length (j_admitted s))"

lemma held_lose:
  assumes "held K f (N + M)"
  shows "held (K\<lparr> kx_lost := kx_lost K \<union> set_mset N \<rparr>) f M"
proof -
  have "count M p = (if valid_flow (kx_nodes K) p \<and> f p \<noteq> 0 \<and> p \<notin> kx_lost K \<union> set_mset N then 1 else 0)" for p
  proof (cases "p \<in># N")
    case True
    then have "count (N + M) p = 1"
      by (intro held_mem(4) [OF assms]) simp
    moreover have "count N p \<noteq> 0"
      using True by simp
    ultimately have "count M p = 0"
      unfolding count_union by linarith
    then show ?thesis
      using True by simp
  next
    case False
    have "count (N + M) p = (if valid_flow (kx_nodes K) p \<and> f p \<noteq> 0 \<and> p \<notin> kx_lost K then 1 else 0)"
      using assms unfolding held_def by blast
    then show ?thesis
      using False by (simp add: not_in_iff)
  qed
  moreover have "\<forall>p \<in> kx_lost K \<union> set_mset N. valid_flow (kx_nodes K) p \<and> f p \<noteq> 0"
    using assms held_mem(1,2) [OF assms] unfolding held_def by (metis UnE union_iff)
  ultimately show ?thesis
    unfolding held_def by simp
qed

lemma init_store_ok:
  assumes "\<forall>p \<in> set admitted. p < length store"
  shows "wp (foldo (\<lambda>p store. do {
         guard_o (p < length store);
         Some (store[p := sjf_init_admitted_traffic (store ! p)]) }) admitted store)
    (\<lambda>store'. length store' = length store \<and> (\<forall>p \<in> set admitted. ja_list (store' ! p) = []))"
proof -
  let ?f = "\<lambda>p store. do { guard_o (p < length store); Some (store[p := sjf_init_admitted_traffic (store ! p)]) }"
  let ?P = "\<lambda>i st. length st = length store \<and> (\<forall>j < i. ja_list (st ! (admitted ! j)) = [])"
  have "wp (foldo ?f admitted store) (?P (length admitted))"
  proof (rule wp_foldo)
    fix i st assume i: "i < length admitted" and P: "?P i st"
    then show "wp (?f (admitted ! i) st) (?P (Suc i))"
      using assms by (auto simp: less_Suc_eq nth_list_update ja_list_def sjf_init_admitted_traffic_def)
  qed simp
  then show ?thesis
    by (auto elim!: wp_mono simp: in_set_conv_nth)
qed

lemma new_flows_init: "new_flows {} (map sjf_init_bin bs) = {#}"
proof -
  have "map (\<lambda>i. if i \<in> {} then {#} else bin_flows (map sjf_init_bin bs ! i)) [0..<length bs] = map (\<lambda>_. {#}) [0..<length bs]"
    by (intro map_cong) (auto simp: bin_flows_def)
  then show ?thesis
    by (simp only: new_flows_def length_map) simp
qed

lemma out_flows_init: "out_flows (map (map_option sjf_init_bin) bs) = {#}"
  by (induction bs) (auto simp: out_flows_def bin_flows_def split: option.splits)

lemma sjf_alloc_core_reset_ok:
  assumes r: "sjf_ready K script s" and a: "admitted_ok admitted s"
  defines "K' \<equiv> K\<lparr> kx_lost := kx_lost K \<union> left_over s, kx_closed := 0 \<rparr>"
  shows "wp (sjf_alloc_core_reset admitted s) (\<lambda>s'. jinv K' {} 0 0 script {#} s' \<and> jc_admitted (j_core s') = admitted
    \<and> jc_is_head (j_core s') = 0 \<and> jb_allowed_mask (j_batch s') = mask_from 0
    \<and> j_urgent_rings s' = j_urgent_rings s \<and> j_status s' = j_status s
    \<and> jc_q_bin_in (j_core s') = jc_q_bin_in (j_core s) \<and> jc_q_bin_out (j_core s') = jc_q_bin_out (j_core s)
    \<and> jc_q_urgent_in (j_core s') = jc_q_urgent_in (j_core s) \<and> jc_q_urgent_out (j_core s') = jc_q_urgent_out (j_core s)
    \<and> (\<forall>b \<in> set (jc_new_request_bins (j_core s')). sjf_is_empty_bin b \<and> jn_head b = 0)
    \<and> (\<forall>b \<in> set (jc_outgoing_bins (j_core s')). pred_option (\<lambda>b. sjf_is_empty_bin b \<and> jn_head b = 0) b)
    \<and> jc_temporary_bins (j_core s') = jc_temporary_bins (j_core s) \<and> length (j_admitted s') = length (j_admitted s))"
proof -
  have h: "held K (flow_backlog s) (places {} s + script_flows script)" and so: "script_ok (kx_nodes K) script"
    and lv: "level_inv UNIV 0 script s" and rm: "room_inv 0 0 script s"
    and N: "kx_nodes K = unat (js_num_nodes (j_status s))" "0 < kx_nodes K" "kx_nodes K \<le> 255"
    and cf: "kx_config K = sjf_config (j_status s)" and oz: "out_flows (jc_outgoing_bins (j_core s)) = {#}"
    using r unfolding sjf_ready_def by blast+
  have tot: "unat (flow_backlog s p) + requested script p = kx_total K p \<and> kx_total K p < 4294967296"
    if "valid_flow (kx_nodes K) p" for p
    using r that unfolding sjf_ready_def by blast
  have len: "length (jc_new_request_bins (j_core s)) = SJF_NUM_BINS" "length (jc_outgoing_bins (j_core s)) = SJF_NUM_BINS"
    using rm by (simp_all add: room_simps)
  have nn: "None \<notin> set (jc_outgoing_bins (j_core s))"
    using rm by (auto simp: room_simps in_set_conv_nth)
  obtain bs where bs: "sjf_init_batch_state (j_batch s) (js_oversubscribed (j_status s)) (js_inter_rack_capacity (j_status s))
      (js_out_of_boundary_capacity (j_status s)) (js_num_nodes (j_status s)) = Some bs"
    using N by (simp add: sjf_init_batch_state_def guard_o_def MAX_NODES_def Let_def)
  obtain store where st: "foldo (\<lambda>p store. do {
         guard_o (p < length store);
         Some (store[p := sjf_init_admitted_traffic (store ! p)]) }) admitted (j_admitted s) = Some store"
      "length store = length (j_admitted s)" "\<forall>p \<in> set admitted. ja_list (store ! p) = []"
    using wpD [OF init_store_ok, of admitted "j_admitted s"] a unfolding admitted_ok_def by blast
  define s' where "s' = s\<lparr> j_admitted := store, j_core := (j_core s)\<lparr>
         jc_new_request_bins := map sjf_init_bin (jc_new_request_bins (j_core s)),
         jc_outgoing_bins := map (map_option sjf_init_bin) (jc_outgoing_bins (j_core s)),
         jc_batch_state := bs, jc_admitted := admitted, jc_is_head := 0 \<rparr> \<rparr>"
  have eq: "sjf_alloc_core_reset admitted s = Some s'"
    using a len nn by (simp add: sjf_alloc_core_reset_def guard_o_def Let_def bs st(1) [unfolded guard_o_def] s'_def admitted_ok_def)
  have fb: "flow_backlog s' = flow_backlog s"
    by (simp add: fun_eq_iff flow_backlog_def s'_def)
  have se: "slot_edges s' t = []" if "t < 64" for t
    using st(3) a that by (simp add: slot_edges_def s'_def admitted_ok_def SJF_BATCH_SIZE_def)
  have gr: "grants s' p = 0" for p
    by (simp add: grants_def se)
  have K': "kx_nodes K' = kx_nodes K" "kx_total K' = kx_total K" "kx_closed K' = 0" "kx_config K' = sjf_config (j_status s')"
    by (simp_all add: K'_def cf s'_def)
  have "places {} s = new_flows {} (jc_new_request_bins (j_core s)) + places {} s'"
    by (simp add: places_def s'_def new_flows_init out_flows_init oz ac_simps)
  then have "held K (flow_backlog s') (new_flows {} (jc_new_request_bins (j_core s)) + (places {} s' + script_flows script))"
    using h by (simp add: fb ac_simps)
  from held_lose [OF this] have hl: "held K' (flow_backlog s') (places {} s' + script_flows script)"
    unfolding K'_def left_over_def held_def by simp
  have fi: "flow_inv K' {} script {#} s'"
    unfolding flow_inv_def K' fb gr using so hl tot by (simp add: fb)
  have e: "at_least s' = at_least s" "urgent_ok s' = urgent_ok s"
    by (intro ext, simp add: at_least_def urgent_ok_def fb)+
  have e3: "stream script s' = stream script s"
    by (simp add: stream_def s'_def)
  have al: "at_least s i (sjf_init_bin b)" for i b
    by (simp add: at_least_def bin_flows_def)
  have an: "at_least s i (jc_new_request_bins (j_core s') ! i)" if "i < SJF_NUM_BINS" for i
    using that len al by (simp add: s'_def)
  have ao: "at_least s i b" if "i < SJF_NUM_BINS" "jc_outgoing_bins (j_core s') ! i = Some b" for i b
    using that len al by (auto simp: s'_def)
  have us: "j_urgent_rings s' = j_urgent_rings s"
    by (simp add: s'_def)
  have lv': "level_inv {} 0 script s'"
    using lv an ao unfolding level_inv_def e e3 us by blast
  have rm': "room_inv 0 0 script s'"
    using rm unfolding room_simps e3 by (auto simp: s'_def split: if_splits)
  have nz: "0 < js_num_nodes (j_status s)"
    using N by (simp add: word_gt_0 unat_gt_0)
  note i = slot_ok_init [OF bs _ nz]
  have "\<forall>t < 64. sjf_slot_ok (kx_nodes K') (j_batch s') t (slot_edges s' t)"
    using i(1) by (simp add: se K' N(1)) (simp add: s'_def)
  then have sl': "slots_inv K' s'"
    using a N i(3-5) [of 0] st(2) unfolding slots_inv_def Let_def admitted_ok_def K' by (simp add: s'_def)
  have "jinv K' {} 0 0 script {#} s'"
    using fi lv' rm' sl' by (simp add: jinv_def)
  moreover have "jb_allowed_mask (j_batch s') = mask_from 0"
    using i(2) [of 0] by (simp add: s'_def mask_from_def)
  moreover have "\<forall>b \<in> set (jc_new_request_bins (j_core s')). sjf_is_empty_bin b \<and> jn_head b = 0"
    by (auto simp: s'_def sjf_is_empty_bin_def sjf_init_bin_def)
  moreover have "\<forall>b \<in> set (jc_outgoing_bins (j_core s')). pred_option (\<lambda>b. sjf_is_empty_bin b \<and> jn_head b = 0) b"
    by (auto simp: s'_def sjf_is_empty_bin_def sjf_init_bin_def option.pred_map pred_option_def)
  ultimately show ?thesis
    unfolding eq wp_Some using st(2) us by (simp add: s'_def)
qed

end
