(* ===== verification/FP_Sjf_Quiet.thy ===== *)
theory FP_Sjf_Quiet
  imports FP_Sjf_Run
begin

unbundle bit_operations_syntax

text \<open>
  What happens to the new-request bins of the shortest-job-first allocator in a batch: taking the
  bins in empties one after the other, and while no request arrives sending the timeslots out
  leaves them alone. These are facts about the runs that return.
\<close>

abbreviation news :: "sjf \<Rightarrow> sjf_bin list" where
  "news s \<equiv> jc_new_request_bins (j_core s)"

definition drained :: "nat \<Rightarrow> sjf \<Rightarrow> bool" where
  "drained n s \<longleftrightarrow> (\<forall>i < n. jbin_list (news s ! i) = [])"

lemma some_bindE: "m \<bind> f = Some y \<Longrightarrow> (\<And>x. m = Some x \<Longrightarrow> f x = Some y \<Longrightarrow> P) \<Longrightarrow> P"
  by (cases m) auto

subsection \<open>Taking the bins in\<close>

lemma sjf_allocate_news: "sjf_allocate t src dst s = Some s' \<Longrightarrow> news s' = news s"
  by (auto simp: sjf_allocate_def Let_def elim!: some_bindE)

lemma sjf_try_allocation_news:
  assumes "sjf_try_allocation src dst s = Some r"
  shows "news (snd r) = news s"
proof (rule sjf_try_allocation.raw_induct [OF _ assms], goal_cases)
  case (1 f src dst s r)
  show ?case
    using 1(2) by (auto simp: sjf_allocate_news split: if_splits elim!: some_bindE dest!: 1(1))
qed

lemma sjf_enqueue_outgoing_news: "sjf_enqueue_outgoing i src dst s = Some s' \<Longrightarrow> news s' = news s"
  by (auto simp: sjf_enqueue_outgoing_def upd_core_def elim!: some_bindE)

lemma sjf_try_allocation_bin_news:
  assumes "sjf_try_allocation_bin b s = Some r"
  shows "news (snd r) = news s \<and> jbin_list (fst r) = []"
proof (rule sjf_try_allocation_bin.raw_induct [OF _ assms], goal_cases)
  case (1 f b s r)
  show ?case
    using 1(2) by (auto simp: Let_def jbin_list_empty split: if_splits elim!: some_bindE
        dest!: sjf_enqueue_outgoing_news sjf_try_allocation_news 1(1))
qed

lemma sjf_take_bin_news: "sjf_take_bin s = Some (b, s') \<Longrightarrow> news s' = news s"
  by (auto simp: sjf_take_bin_def Let_def elim!: some_bindE)

lemma sjf_take_bin_some:
  assumes "sjf_take_bin s = Some (b, s')" "ring_list (in_ring s) \<noteq> []"
  shows "b \<noteq> None"
  using assms by (auto simp: sjf_take_bin_def Let_def fp_ring_dequeue_def ring_list_def ring_count_def
      split: if_splits elim!: some_bindE)

lemma sjf_wait_bin_news:
  assumes "sjf_wait_bin script bin s = Some (b, script', s')" "ring_list (in_ring s) \<noteq> []"
  shows "news s' = news s"
proof (cases script)
  case Nil
  then show ?thesis
    using assms(1) by (auto simp: sjf_take_bin_news elim!: some_bindE)
next
  case (Cons evs rest)
  then show ?thesis
    using assms sjf_take_bin_some [OF _ assms(2)] by (auto simp: sjf_take_bin_news split: option.splits elim!: some_bindE)
qed

lemma sjf_pass_bin_news: "sjf_pass_bin i s = Some s' \<Longrightarrow> news s' = news s"
  by (auto simp: sjf_pass_bin_def Let_def upd_core_def elim!: some_bindE)

lemma sjf_bin_step_news:
  assumes "sjf_bin_step bin (script, s) = Some (script', s')" "ring_list (in_ring s) \<noteq> []"
  shows "news s' \<in> (\<lambda>nb. (news s)[bin := nb]) ` {nb. jbin_list nb = []}"
  using assms(1) by (auto simp: sjf_bin_step_def Let_def upd_core_def split: if_splits
      elim!: some_bindE dest!: sjf_pass_bin_news sjf_try_allocation_bin_news sjf_wait_bin_news [OF _ assms(2)])

lemma drained_step:
  assumes "sjf_bin_step bin (script, s) = Some (script', s')" "ring_list (in_ring s) \<noteq> []" "drained bin s"
    "bin < length (news s)"
  shows "drained (Suc bin) s'"
  using sjf_bin_step_news [OF assms(1,2)] assms(3,4) by (auto simp: drained_def nth_list_update)

subsection \<open>Sending out timeslots while nothing arrives\<close>

definition quiet :: "sjf \<Rightarrow> bool" where
  "quiet s \<longleftrightarrow> ring_wf (js_q_head (j_status s)) \<and> ring_list (js_q_head (j_status s)) = [] \<and> jc_is_head (j_core s) \<noteq> 0"

lemma process_head_empty:
  assumes "ring_wf (js_q_head (j_status s))" "ring_list (js_q_head (j_status s)) = []"
  shows "sjf_process_head bin s = Some s"
proof -
  have "fp_ring_dequeue_burst (js_q_head (j_status s)) SJF_BURST_SIZE = Some ([], js_q_head (j_status s))"
    using fp_ring_dequeue_empty [OF assms] by (simp add: fp_ring_dequeue_burst_def SJF_BURST_SIZE_def eval_nat_numeral)
  then show ?thesis
    by (subst sjf_process_head.simps) (simp add: upd_status_def)
qed

lemma quiet_poll: "quiet s \<Longrightarrow> sjf_poll [] bin s = Some s"
  by (simp add: quiet_def sjf_poll_def sjf_process_new_requests_def process_head_empty)

lemma quiet_output_step:
  assumes "quiet s" "sjf_output_step first_timeslot now bin ([], s) = Some (script', s')"
  shows "script' = [] \<and> quiet s' \<and> news s' = news s"
proof -
  have "quiet (upd_stat f s) \<and> news (upd_stat f s) = news s" for f
    using assms(1) by (simp add: quiet_def upd_stat_def upd_status_def)
  then show ?thesis
    using assms by (auto simp: sjf_output_step_def sjf_pace_round_def quiet_poll sjf_send_admitted_def
        quiet_def upd_stat_def upd_core_def upd_status_def split: if_splits elim!: some_bindE)
qed

lemma quiet_output:
  "quiet s \<Longrightarrow> foldo (sjf_output_step first_timeslot now) bins ([], s) = Some (script', s')
    \<Longrightarrow> script' = [] \<and> quiet s' \<and> news s' = news s"
proof (induction bins arbitrary: s)
  case (Cons bin bins)
  obtain sc u where u: "sjf_output_step first_timeslot now bin ([], s) = Some (sc, u)"
    "foldo (sjf_output_step first_timeslot now) bins (sc, u) = Some (script', s')"
    using Cons.prems(2) by (auto elim!: some_bindE)
  then show ?case
    using quiet_output_step [OF Cons.prems(1) u(1)] Cons.IH [of u] by simp
qed simp

end
