(* ===== verification/FP_Sjf_Spec.thy ===== *)
theory FP_Sjf_Spec
  imports FP_Sjf_Quiet
begin

unbundle bit_operations_syntax

text \<open>
  A whole batch of the shortest-job-first allocator: taking the bins in, sending the timeslots
  out, passing the rest on. From a state that is \<^verbatim>\<open>sjf_ready\<close> the batch returns, keeps the invariant,
  and on a single core ends in a state that is ready for the next batch.
\<close>

subsection \<open>The first part of a batch\<close>

lemma event_urgent: "sjf_event_step ev s = Some s' \<Longrightarrow> j_urgent_rings s' = j_urgent_rings s"
  by (auto simp: sjf_event_step_def Let_def split: sjf_event.splits bind_splits)

lemma events_urgent: "foldo sjf_event_step evs s = Some s' \<Longrightarrow> j_urgent_rings s' = j_urgent_rings s"
  by (induction evs arbitrary: s) (auto simp: event_urgent split: bind_splits)

lemma jinv_head_tl: "jinv K B k m (script_head script # tl script) X s = jinv K B k m script X s"
  by (cases script) (simp_all add: script_head_def jinv_skip)

lemma first_poll_ok:
  assumes inv: "jinv K {} 0 0 script {#} s" and h: "jc_is_head (j_core s) = 0"
    and us: "ring_list (j_urgent_rings s ! jc_q_urgent_in (j_core s)) = us @ [URGENT_Q_HEAD_TOKEN]"
      "URGENT_Q_HEAD_TOKEN \<notin> set us"
  shows "wp (sjf_poll (script_head script) 0 s) (\<lambda>s'. jinv K {} 0 0 (tl script) {#} s' \<and> jc_is_head (j_core s') = 1
    \<and> woken s s' \<and> ring_list (js_q_head (j_status s')) = [])"
proof -
  obtain s1 where s1: "foldo sjf_event_step (script_head script) s = Some s1" "jinv K {} 0 0 (tl script) {#} s1" "idle s s1"
    using wpD [OF jinv_events [of K "{}" 0 0 "script_head script" "tl script" "{#}" s]] inv by (auto simp: jinv_head_tl)
  have u1: "ring_list (j_urgent_rings s1 ! jc_q_urgent_in (j_core s1)) = us @ [URGENT_Q_HEAD_TOKEN]"
    using us(1) s1(3) events_urgent [OF s1(1)] by (simp add: idle_def)
  have h1: "jc_is_head (j_core s1) = 0"
    using s1(3) h by (simp add: idle_def)
  have w: "woken s s'" if "woken s1 s'" for s'
    using that s1(3) by (simp add: woken_def idle_def)
  show ?thesis
    using wp_mono [OF sjf_process_q_urgent_ok [OF s1(2) u1 us(2)]] w h1
    by (simp add: sjf_poll_def s1(1) sjf_process_new_requests_def)
qed

lemma bin_loop_ok:
  assumes inv: "jinv K {} 0 0 script {#} s" and hd: "jc_is_head (j_core s) \<noteq> 0"
  shows "wp (foldo sjf_bin_step [0..<SJF_NUM_BINS] (script, s)) (\<lambda>(script', s'). jinv K {} SJF_NUM_BINS 192 script' {#} s'
    \<and> calm s s' \<and> temps_filled SJF_NUM_BINS s'
    \<and> (jc_q_bin_in (j_core s) = jc_q_bin_out (j_core s) \<longrightarrow> script' = script \<and> js_q_head (j_status s') = js_q_head (j_status s)
        \<and> drained SJF_NUM_BINS s'))"
proof -
  let ?shared = "jc_q_bin_in (j_core s) = jc_q_bin_out (j_core s)"
  let ?P = "\<lambda>i (x :: sjf_script \<times> sjf). jinv K {} i (i - 64) (fst x) {#} (snd x) \<and> calm s (snd x) \<and> temps_filled i (snd x)
    \<and> (?shared \<longrightarrow> fst x = script \<and> js_q_head (j_status (snd x)) = js_q_head (j_status s) \<and> drained i (snd x))"
  have "wp (foldo sjf_bin_step [0..<SJF_NUM_BINS] (script, s)) (?P SJF_NUM_BINS)"
  proof (rule wp_upto)
    show "?P 0 (script, s)"
      using inv by (simp add: calm_iff temps_filled_def drained_def)
    fix i x assume i: "i < SJF_NUM_BINS" and P: "?P i x"
    obtain sc u where x: "x = (sc, u)"
      by (cases x)
    have P': "jinv K {} i (i - 64) sc {#} u" "calm s u" "temps_filled i u"
      "?shared \<longrightarrow> sc = script \<and> js_q_head (j_status u) = js_q_head (j_status s) \<and> drained i u"
      using P by (simp_all add: x)
    have h: "jc_is_head (j_core u) \<noteq> 0" and al: "(jc_q_bin_in (j_core u) = jc_q_bin_out (j_core u)) = ?shared"
      using hd P'(2) by (simp_all add: calm_iff)
    have ne: "ring_list (in_ring u) \<noteq> []" if ?shared
    proof
      assume "ring_list (in_ring u) = []"
      then have "ring_count (in_ring u) = 0"
        using length_ring_list [of "in_ring u"] by simp
      moreover have "room_inv i (i - 64) sc u"
        using P'(1) by (simp add: jinv_def)
      ultimately show False
        using that al i by (auto simp: room_simps stream_def SJF_NUM_BINS_def)
    qed
    from wpD [OF sjf_bin_step_ok [OF P'(1) i h P'(3)]]
    obtain sc' u' where u': "sjf_bin_step i (sc, u) = Some (sc', u')" "jinv K {} (Suc i) (Suc i - 64) sc' {#} u'" "calm u u'"
      "temps_filled (Suc i) u'" "ring_list (in_ring u) \<noteq> [] \<longrightarrow> sc' = sc \<and> js_q_head (j_status u') = js_q_head (j_status u)"
      by auto
    have "i < length (news u)"
      using P'(1) i by (simp add: jinv_def room_simps)
    then have "?shared \<longrightarrow> drained (Suc i) u'"
      using P'(4) ne drained_step [OF u'(1)] by blast
    then show "wp (sjf_bin_step i x) (?P (Suc i))"
      using u' P'(4) calm_trans [OF P'(2) u'(3)] ne by (simp add: x)
  qed
  then show ?thesis
    by (rule wp_mono) (auto simp: SJF_NUM_BINS_def)
qed

definition begun :: "nat list \<Rightarrow> sjf \<Rightarrow> sjf \<Rightarrow> bool" where
  "begun admitted s u \<longleftrightarrow> jc_is_head (j_core u) = 1 \<and> jc_admitted (j_core u) = admitted
     \<and> jc_q_bin_in (j_core u) = jc_q_bin_in (j_core s) \<and> jc_q_bin_out (j_core u) = jc_q_bin_out (j_core s)
     \<and> jc_q_urgent_in (j_core u) = jc_q_urgent_in (j_core s) \<and> jc_q_urgent_out (j_core u) = jc_q_urgent_out (j_core s)
     \<and> map tokens (j_urgent_rings u) = (map tokens (j_urgent_rings s))[jc_q_urgent_in (j_core s) := 0]
     \<and> js_q_admitted_out (j_status u) = js_q_admitted_out (j_status s)
     \<and> js_current_timeslot (j_status u) = js_current_timeslot (j_status s)
     \<and> jb_allowed_mask (j_batch u) = mask_from 0 \<and> temps_filled SJF_NUM_BINS u"

abbreviation after_reset :: "sjf_ctx \<Rightarrow> sjf \<Rightarrow> sjf_ctx" where
  "after_reset K s \<equiv> K\<lparr> kx_lost := kx_lost K \<union> left_over s, kx_closed := 0 \<rparr>"

lemma sjf_begin_ok:
  assumes r: "sjf_ready K script s" and a: "admitted_ok admitted s"
  shows "wp (sjf_begin admitted script s) (\<lambda>(script', u). jinv (after_reset K s) {} SJF_NUM_BINS 192 script' {#} u
    \<and> begun admitted s u
    \<and> (jc_q_bin_in (j_core s) = jc_q_bin_out (j_core s) \<longrightarrow> script' = tl script \<and> ring_list (js_q_head (j_status u)) = []
        \<and> drained SJF_NUM_BINS u))"
proof -
  obtain s1 where s1: "sjf_alloc_core_reset admitted s = Some s1" "jinv (after_reset K s) {} 0 0 script {#} s1"
    "jc_admitted (j_core s1) = admitted" "jc_is_head (j_core s1) = 0" "jb_allowed_mask (j_batch s1) = mask_from 0"
    "j_urgent_rings s1 = j_urgent_rings s" "j_status s1 = j_status s"
    "jc_q_bin_in (j_core s1) = jc_q_bin_in (j_core s)" "jc_q_bin_out (j_core s1) = jc_q_bin_out (j_core s)"
    "jc_q_urgent_in (j_core s1) = jc_q_urgent_in (j_core s)" "jc_q_urgent_out (j_core s1) = jc_q_urgent_out (j_core s)"
    "\<forall>b \<in> set (jc_new_request_bins (j_core s1)). sjf_is_empty_bin b \<and> jn_head b = 0"
    "\<forall>b \<in> set (jc_outgoing_bins (j_core s1)). pred_option (\<lambda>b. sjf_is_empty_bin b \<and> jn_head b = 0) b"
    using wpD [OF sjf_alloc_core_reset_ok [OF r a]] by blast
  obtain us where us: "ring_list (j_urgent_rings s ! jc_q_urgent_in (j_core s)) = us @ [URGENT_Q_HEAD_TOKEN]"
    "URGENT_Q_HEAD_TOKEN \<notin> set us"
    using r unfolding sjf_ready_def by blast
  have us1: "ring_list (j_urgent_rings s1 ! jc_q_urgent_in (j_core s1)) = us @ [URGENT_Q_HEAD_TOKEN]"
    by (simp only: s1 us(1))
  obtain s2 where s2: "sjf_poll (script_head script) 0 s1 = Some s2" "jinv (after_reset K s) {} 0 0 (tl script) {#} s2"
    "jc_is_head (j_core s2) = 1" "woken s1 s2" "ring_list (js_q_head (j_status s2)) = []"
    using wpD [OF first_poll_ok [OF s1(2,4) us1 us(2)]] by blast
  have h2: "jc_is_head (j_core s2) \<noteq> 0"
    by (simp add: s2(3))
  obtain sc u where u: "foldo sjf_bin_step [0..<SJF_NUM_BINS] (tl script, s2) = Some (sc, u)"
    "jinv (after_reset K s) {} SJF_NUM_BINS 192 sc {#} u" "calm s2 u" "temps_filled SJF_NUM_BINS u"
    "jc_q_bin_in (j_core s2) = jc_q_bin_out (j_core s2) \<longrightarrow> sc = tl script \<and> js_q_head (j_status u) = js_q_head (j_status s2)
      \<and> drained SJF_NUM_BINS u"
    using wpD [OF bin_loop_ok [OF s2(2) h2]] by auto
  have "begun admitted s u"
    using u(3,4) s2(3,4) s1 by (simp add: begun_def calm_iff woken_def)
  moreover have "jc_q_bin_in (j_core s) = jc_q_bin_out (j_core s) \<longrightarrow> sc = tl script \<and> ring_list (js_q_head (j_status u)) = []
      \<and> drained SJF_NUM_BINS u"
    using u(5) s2(4,5) s1 by (simp add: woken_def)
  moreover have "sjf_begin admitted script s = Some (sc, u)"
    using s1(12,13) by (simp add: sjf_begin_def s1(1) s2(1) u(1) guard_o_def)
  ultimately show ?thesis
    using u(2) by simp
qed

subsection \<open>The end of a batch\<close>

definition ended :: "sjf_ctx \<Rightarrow> sjf_script \<Rightarrow> sjf \<Rightarrow> sjf \<Rightarrow> bool" where
  "ended K script u s' \<longleftrightarrow> flow_inv K {} script {#} s' \<and> slots_inv K s' \<and> level_inv UNIV 0 script s'
     \<and> (jc_q_bin_in (j_core s') = jc_q_bin_out (j_core s') \<longrightarrow> room_inv 0 0 script s')
     \<and> out_flows (jc_outgoing_bins (j_core s')) = {#}
     \<and> ring_list (urgent_out s') = ring_list (urgent_out u) @ [URGENT_Q_HEAD_TOKEN]
     \<and> (\<exists>nb. jc_new_request_bins (j_core s') = (jc_new_request_bins (j_core u))[SJF_NUM_BINS - 1 := nb] \<and> jbin_list nb = [])
     \<and> jc_admitted (j_core s') = jc_admitted (j_core u) \<and> js_q_admitted_out (j_status s') = js_q_admitted_out (j_status u)
     \<and> jc_q_bin_in (j_core s') = jc_q_bin_in (j_core u) \<and> jc_q_bin_out (j_core s') = jc_q_bin_out (j_core u)
     \<and> jc_q_urgent_in (j_core s') = jc_q_urgent_in (j_core u) \<and> jc_q_urgent_out (j_core s') = jc_q_urgent_out (j_core u)
     \<and> js_current_timeslot (j_status s') = js_current_timeslot (j_status u) + of_nat SJF_BATCH_SIZE"

lemma out_flows_none: "(\<And>i. i < length bs \<Longrightarrow> bs ! i = None \<or> (\<exists>b. bs ! i = Some b \<and> jbin_list b = [])) \<Longrightarrow> out_flows bs = {#}"
proof (induction bs)
  case (Cons x bs)
  have "out_flows bs = {#}"
    using Cons.prems [of "Suc _"] by (intro Cons.IH) simp
  then show ?case
    using Cons.prems [of 0] by (auto simp: out_flows_def bin_flows_def)
qed (simp add: out_flows_def)

lemma jinv_rearrange:
  assumes inv: "jinv K {} SJF_NUM_BINS SJF_NUM_BINS script {#} s" and f: "temps_filled SJF_NUM_BINS s"
  defines "s' \<equiv> upd_status (\<lambda>st. st\<lparr> js_current_timeslot := js_current_timeslot st + of_nat SJF_BATCH_SIZE \<rparr>) (sjf_rearrange s)"
  shows "flow_inv K {} script {#} s'" "slots_inv K s'" "level_inv UNIV 0 script s'"
    "jc_q_bin_in (j_core s) = jc_q_bin_out (j_core s) \<Longrightarrow> room_inv 0 0 script s'"
    "out_flows (jc_outgoing_bins (j_core s')) = {#}"
proof -
  have rm: "room_inv SJF_NUM_BINS SJF_NUM_BINS script s" and lv: "level_inv {} SJF_NUM_BINS script s"
    and sl: "slots_inv K s" and fi: "flow_inv K {} script {#} s"
    using inv by (simp_all add: jinv_def)
  have len: "length (jc_temporary_bins (j_core s)) = SJF_NUM_BINS" "length (jc_outgoing_bins (j_core s)) = SJF_NUM_BINS"
    "\<forall>i < SJF_NUM_BINS. jc_outgoing_bins (j_core s) ! i = None"
    using rm by (simp_all add: room_simps)
  have sa: "same_alloc s s'"
    by (simp add: same_alloc_def s'_def upd_status_def sjf_rearrange_def upd_core_def)
  have oc: "jc_outgoing_bins (j_core s') = jc_temporary_bins (j_core s)"
    by (simp add: s'_def upd_status_def sjf_rearrange_def upd_core_def)
  show oz: "out_flows (jc_outgoing_bins (j_core s')) = {#}"
    unfolding oc using f len(1) by (intro out_flows_none) (auto simp: temps_filled_def)
  have "out_flows (jc_outgoing_bins (j_core s)) = {#}"
    using len by (intro out_flows_none) auto
  then have "places {} s' = places {} s"
    using oz by (simp add: places_def) (simp add: s'_def upd_status_def sjf_rearrange_def upd_core_def)
  then show "flow_inv K {} script {#} s'"
    using fi by (simp add: flow_inv_def same_alloc_eqs [OF sa])
  show "slots_inv K s'"
    using sl by (simp add: same_alloc_eqs [OF sa])
  have st: "stream script s' = stream script s" "j_urgent_rings s' = j_urgent_rings s"
    by (simp_all add: stream_def s'_def upd_status_def sjf_rearrange_def upd_core_def)
  have "at_least s i b" if "i < SJF_NUM_BINS" "jc_temporary_bins (j_core s) ! i = Some b" for i b
    using f that by (auto simp: temps_filled_def at_least_def bin_flows_def)
  then show "level_inv UNIV 0 script s'"
    using lv unfolding level_inv_def same_alloc_eqs [OF sa] st oc by simp
  show "room_inv 0 0 script s'" if "jc_q_bin_in (j_core s) = jc_q_bin_out (j_core s)"
    using rm f that unfolding room_simps st
    by (auto simp: temps_filled_def s'_def upd_status_def sjf_rearrange_def upd_core_def)
qed

lemma sjf_finish_ok:
  assumes inv: "jinv K {} SJF_NUM_BINS 192 script {#} u" and tk: "tokens (urgent_out u) = 0" and f: "temps_filled SJF_NUM_BINS u"
  shows "wp (sjf_finish u) (ended K script u)"
proof -
  obtain s1 where s1: "sjf_enqueue_urgent URGENT_Q_HEAD_TOKEN u = Some s1" "jinv K {} SJF_NUM_BINS 192 script {#} s1"
    "ring_list (urgent_out s1) = ring_list (urgent_out u) @ [URGENT_Q_HEAD_TOKEN]" "s1 = u\<lparr> j_urgent_rings := j_urgent_rings s1 \<rparr>"
    using wpD [OF sjf_enqueue_token_ok [OF inv tk]] by blast
  have c1: "j_core s1 = j_core u" "j_status s1 = j_status u"
    by (subst s1(4), simp)+
  obtain s2 nb where s2: "sjf_flush_last_bin s1 = Some s2" "jinv K {} SJF_NUM_BINS 192 script {#} s2" "steady s1 s2"
    "j_urgent_rings s2 = j_urgent_rings s1"
    "jc_new_request_bins (j_core s2) = (jc_new_request_bins (j_core s1))[SJF_NUM_BINS - 1 := nb]" "jbin_list nb = []"
    using wpD [OF sjf_flush_last_bin_ok [OF s1(2)]] unfolding SJF_NUM_BINS_def by auto
  obtain s3 where s3: "foldo sjf_pass_bin [192..<SJF_NUM_BINS] s2 = Some s3" "jinv K {} SJF_NUM_BINS SJF_NUM_BINS script {#} s3"
    "steady s2 s3" "jc_new_request_bins (j_core s3) = jc_new_request_bins (j_core s2)" "j_urgent_rings s3 = j_urgent_rings s2"
    using wpD [OF sjf_pass_bins_ok [OF s2(2)]] unfolding SJF_NUM_BINS_def by auto
  let ?s = "upd_status (\<lambda>st. st\<lparr> js_current_timeslot := js_current_timeslot st + of_nat SJF_BATCH_SIZE \<rparr>) (sjf_rearrange s3)"
  have id: "idle s1 s3"
    using idle_trans s2(3) s3(3) unfolding steady_def by blast
  then have f3: "temps_filled SJF_NUM_BINS s3"
    using f by (simp add: temps_filled_def idle_def c1)
  note r = jinv_rearrange [OF s3(2) f3]
  have len: "length (jc_temporary_bins (j_core s3)) = SJF_NUM_BINS"
    using s3(2) by (simp add: jinv_def room_simps)
  have "SJF_NUM_BINS - SJF_BATCH_SIZE = 192"
    by (simp add: SJF_NUM_BINS_def SJF_BATCH_SIZE_def)
  then have eq: "sjf_finish u = Some ?s"
    using len by (simp add: sjf_finish_def s1(1) s2(1) s3(1) guard_o_def)
  have fld: "j_urgent_rings ?s = j_urgent_rings s3" "jc_new_request_bins (j_core ?s) = jc_new_request_bins (j_core s3)"
    "jc_admitted (j_core ?s) = jc_admitted (j_core s3)" "js_q_admitted_out (j_status ?s) = js_q_admitted_out (j_status s3)"
    "jc_q_bin_in (j_core ?s) = jc_q_bin_in (j_core s3)" "jc_q_bin_out (j_core ?s) = jc_q_bin_out (j_core s3)"
    "jc_q_urgent_in (j_core ?s) = jc_q_urgent_in (j_core s3)" "jc_q_urgent_out (j_core ?s) = jc_q_urgent_out (j_core s3)"
    "js_current_timeslot (j_status ?s) = js_current_timeslot (j_status s3) + of_nat SJF_BATCH_SIZE"
    by (simp_all add: upd_status_def sjf_rearrange_def upd_core_def)
  have i: "jc_admitted (j_core s3) = jc_admitted (j_core u)" "js_q_admitted_out (j_status s3) = js_q_admitted_out (j_status u)"
    "jc_q_bin_in (j_core s3) = jc_q_bin_in (j_core u)" "jc_q_bin_out (j_core s3) = jc_q_bin_out (j_core u)"
    "jc_q_urgent_in (j_core s3) = jc_q_urgent_in (j_core u)" "jc_q_urgent_out (j_core s3) = jc_q_urgent_out (j_core u)"
    "js_current_timeslot (j_status s3) = js_current_timeslot (j_status u)"
    using id by (simp_all add: idle_def c1)
  have "ended K script u ?s"
    unfolding ended_def fld i using r s1(3) s2(4-6) s3(4,5) i c1 by (auto simp: c1)
  then show ?thesis
    by (simp add: eq)
qed

subsection \<open>The whole batch\<close>

text \<open>The timeslots are due: the pacing loops run once each.\<close>

definition on_time :: "u64 \<Rightarrow> u32 \<Rightarrow> u32 \<Rightarrow> bool" where
  "on_time first_timeslot tslot_mul tslot_shift \<longleftrightarrow> unat tslot_shift < 64
     \<and> (\<forall>i < SJF_BATCH_SIZE. i mod 4 = 0 \<longrightarrow> first_timeslot + of_nat i \<le> sjf_now_timeslot tslot_mul tslot_shift)"

definition room_out :: "sjf \<Rightarrow> bool" where
  "room_out s \<longleftrightarrow> ring_count (js_q_admitted_out (j_status s)) + SJF_BATCH_SIZE \<le> ring_room (js_q_admitted_out (j_status s))"

definition single_core :: "sjf \<Rightarrow> bool" where
  "single_core s \<longleftrightarrow> jc_q_bin_in (j_core s) = jc_q_bin_out (j_core s) \<and> jc_q_urgent_in (j_core s) = jc_q_urgent_out (j_core s)"

definition after_batch :: "sjf_ctx \<Rightarrow> nat list \<Rightarrow> sjf \<Rightarrow> sjf_script \<Rightarrow> sjf \<Rightarrow> bool" where
  "after_batch K admitted s script' s' \<longleftrightarrow> flow_inv K {} script' {#} s' \<and> slots_inv K s'
     \<and> jc_admitted (j_core s') = admitted \<and> sent_list s' = sent_list s @ admitted
     \<and> ring_room (js_q_admitted_out (j_status s')) = ring_room (js_q_admitted_out (j_status s))
     \<and> js_current_timeslot (j_status s') = js_current_timeslot (j_status s) + of_nat SJF_BATCH_SIZE
     \<and> single_core s' = single_core s"

definition recount :: "sjf_script \<Rightarrow> sjf \<Rightarrow> sjf_ctx \<Rightarrow> sjf_ctx" where
  "recount script s K = K\<lparr> kx_total := (\<lambda>p. unat (flow_backlog s p) + requested script p) \<rparr>"

lemma no_tokens:
  assumes r: "sjf_ready K script s" and b: "begun admitted s u" and o: "map tokens (j_urgent_rings v) = map tokens (j_urgent_rings u)"
    and q: "jc_q_urgent_out (j_core v) = jc_q_urgent_out (j_core s)"
  shows "tokens (urgent_out v) = 0"
proof -
  let ?i = "jc_q_urgent_in (j_core s)" and ?o = "jc_q_urgent_out (j_core s)"
  have "room_inv 0 0 script s" and z: "?i \<noteq> ?o \<longrightarrow> tokens (j_urgent_rings s ! ?o) = 0"
    using r unfolding sjf_ready_def by blast+
  then have l: "?o < length (j_urgent_rings s)"
    by (simp add: room_simps)
  have m: "map tokens (j_urgent_rings v) = (map tokens (j_urgent_rings s))[?i := 0]"
    using b o by (simp add: begun_def)
  then have lv: "length (j_urgent_rings v) = length (j_urgent_rings s)"
    using map_eq_imp_length_eq by (metis length_list_update length_map)
  have "tokens (j_urgent_rings v ! ?o) = (map tokens (j_urgent_rings s))[?i := 0] ! ?o"
    using l lv by (simp flip: m)
  then show ?thesis
    using z l q by (cases "?i = ?o") simp_all
qed

lemma ready_again:
  assumes e: "ended K script v s'" and tk: "tokens (urgent_out v) = 0"
    and q: "jc_q_bin_in (j_core s') = jc_q_bin_out (j_core s')" "jc_q_urgent_in (j_core s') = jc_q_urgent_out (j_core s')"
  shows "sjf_ready (recount script s' K) script s'"
proof -
  have fi: "flow_inv K {} script {#} s'" and sl: "slots_inv K s'" and lv: "level_inv UNIV 0 script s'"
    and rm: "room_inv 0 0 script s'" and oz: "out_flows (jc_outgoing_bins (j_core s')) = {#}"
    and ur: "ring_list (urgent_out s') = ring_list (urgent_out v) @ [URGENT_Q_HEAD_TOKEN]"
    using e q(1) unfolding ended_def by blast+
  have K: "kx_nodes (recount script s' K) = kx_nodes K" "kx_lost (recount script s' K) = kx_lost K" "kx_config (recount script s' K) = kx_config K"
    "kx_total (recount script s' K) p = unat (flow_backlog s' p) + requested script p" for p
    by (simp_all add: recount_def)
  have h: "held (recount script s' K) (flow_backlog s') (places {} s' + script_flows script)"
    using fi unfolding flow_inv_def held_def K by simp
  have tot: "kx_total (recount script s' K) p < 4294967296" if "valid_flow (kx_nodes K) p" for p
  proof -
    have "unat (flow_backlog s' p) + grants s' p + requested script p = kx_total K p \<and> kx_total K p < 4294967296"
      using fi that unfolding flow_inv_def by blast
    then show ?thesis
      by (simp add: K)
  qed
  have "URGENT_Q_HEAD_TOKEN \<notin> set (ring_list (urgent_out v))"
    using tk by (auto simp: tokens_def filter_empty_conv)
  then have us: "\<exists>us. ring_list (j_urgent_rings s' ! jc_q_urgent_in (j_core s')) = us @ [URGENT_Q_HEAD_TOKEN] \<and> URGENT_Q_HEAD_TOKEN \<notin> set us"
    unfolding q(2) ur by blast
  have so: "script_ok (kx_nodes K) script" and n: "kx_nodes K = unat (js_num_nodes (j_status s'))" "0 < kx_nodes K" "kx_nodes K \<le> 255"
      "kx_config K = sjf_config (j_status s')"
    using fi sl by (simp_all add: flow_inv_def slots_inv_def Let_def)
  show ?thesis
    unfolding sjf_ready_def K(1,3,4) using h tot us so n lv rm oz q(2) by (simp add: K(4))
qed

lemma sjf_batch_parts:
  assumes r: "sjf_ready K script s" and a: "admitted_ok admitted s" and t: "on_time first_timeslot tslot_mul tslot_shift"
    and room: "room_out s"
  obtains sc u sc' v s' where "sjf_begin admitted script s = Some (sc, u)" "jinv (after_reset K s) {} SJF_NUM_BINS 192 sc {#} u"
    "begun admitted s u"
    "jc_q_bin_in (j_core s) = jc_q_bin_out (j_core s) \<longrightarrow> sc = tl script \<and> ring_list (js_q_head (j_status u)) = [] \<and> drained SJF_NUM_BINS u"
    "foldo (sjf_output_step first_timeslot (sjf_now_timeslot tslot_mul tslot_shift)) [0..<64] (sc, u) = Some (sc', v)"
    "jinv (after_reset K s) {} SJF_NUM_BINS 192 sc' {#} v" "outing u v" "sent_list v = sent_list s @ admitted"
    "tokens (urgent_out v) = 0" "ended (after_reset K s) sc' v s'" "sjf_finish v = Some s'"
    "sjf_get_admissible_traffic admitted first_timeslot tslot_mul tslot_shift script s = Some (sc', s')"
proof -
  let ?K = "after_reset K s" and ?now = "sjf_now_timeslot tslot_mul tslot_shift"
  obtain sc u where u: "sjf_begin admitted script s = Some (sc, u)" "jinv ?K {} SJF_NUM_BINS 192 sc {#} u" "begun admitted s u"
    "jc_q_bin_in (j_core s) = jc_q_bin_out (j_core s) \<longrightarrow> sc = tl script \<and> ring_list (js_q_head (j_status u)) = [] \<and> drained SJF_NUM_BINS u"
    using wpD [OF sjf_begin_ok [OF r a]] by auto
  have b: "jc_is_head (j_core u) \<noteq> 0" "jb_allowed_mask (j_batch u) = mask_from 0" "jc_admitted (j_core u) = admitted"
    "js_q_admitted_out (j_status u) = js_q_admitted_out (j_status s)" "temps_filled SJF_NUM_BINS u"
    using u(3) by (simp_all add: begun_def)
  have la: "length admitted = 64"
    using a by (simp add: admitted_ok_def SJF_BATCH_SIZE_def)
  have "wp (foldo (sjf_output_step first_timeslot ?now) [0..<64] (sc, u)) (\<lambda>(script', s').
     jinv ?K {} SJF_NUM_BINS 192 script' {#} s' \<and> outing u s' \<and> jb_allowed_mask (j_batch s') = mask_from 64
     \<and> sent_list s' = sent_list u @ drop 0 (take 64 (jc_admitted (j_core u))))"
    using t room b by (intro sjf_output_loop_ok [OF u(2)]) (simp_all add: on_time_def room_out_def SJF_BATCH_SIZE_def)
  from wpD [OF this] obtain sc' v where v: "foldo (sjf_output_step first_timeslot ?now) [0..<64] (sc, u) = Some (sc', v)"
    "jinv ?K {} SJF_NUM_BINS 192 sc' {#} v" "outing u v" "sent_list v = sent_list s @ admitted"
    using b la by auto
  have out: "sjf_output first_timeslot tslot_mul tslot_shift (sc, u) = Some (sc', v)"
    using t v(1) by (simp add: sjf_output_def on_time_def guard_o_def SJF_BATCH_SIZE_def)
  have "jc_q_urgent_out (j_core v) = jc_q_urgent_out (j_core s)" "map tokens (j_urgent_rings v) = map tokens (j_urgent_rings u)"
    and fv: "temps_filled SJF_NUM_BINS v"
    using v(3) u(3) b(5) by (simp_all add: outing_def begun_def temps_filled_def)
  then have tk: "tokens (urgent_out v) = 0"
    using no_tokens [OF r u(3)] by blast
  obtain s' where s': "sjf_finish v = Some s'" "ended ?K sc' v s'"
    using wpD [OF sjf_finish_ok [OF v(2) tk fv]] by blast
  have "sjf_get_admissible_traffic admitted first_timeslot tslot_mul tslot_shift script s = Some (sc', s')"
    by (simp add: sjf_get_admissible_traffic_def u(1) out s'(1))
  then show thesis
    using that u v tk s' by blast
qed

lemma sjf_batch_ok:
  assumes r: "sjf_ready K script s" and a: "admitted_ok admitted s" and t: "on_time first_timeslot tslot_mul tslot_shift"
    and room: "room_out s"
  shows "wp (sjf_get_admissible_traffic admitted first_timeslot tslot_mul tslot_shift script s)
    (\<lambda>(script', s'). after_batch (after_reset K s) admitted s script' s'
       \<and> (single_core s \<longrightarrow> sjf_ready (recount script' s' (after_reset K s)) script' s'))"
proof (rule sjf_batch_parts [OF assms])
  fix sc u sc' v s'
  assume b: "begun admitted s u" and o: "outing u v" "sent_list v = sent_list s @ admitted" and tk: "tokens (urgent_out v) = 0"
    and e: "ended (after_reset K s) sc' v s'"
    and eq: "sjf_get_admissible_traffic admitted first_timeslot tslot_mul tslot_shift script s = Some (sc', s')"
  have q: "jc_q_bin_in (j_core s') = jc_q_bin_in (j_core s)" "jc_q_bin_out (j_core s') = jc_q_bin_out (j_core s)"
    "jc_q_urgent_in (j_core s') = jc_q_urgent_in (j_core s)" "jc_q_urgent_out (j_core s') = jc_q_urgent_out (j_core s)"
    using b o(1) e by (simp_all add: ended_def outing_def begun_def)
  have "after_batch (after_reset K s) admitted s sc' s'"
    using e o b unfolding after_batch_def single_core_def q by (simp add: ended_def outing_def begun_def)
  moreover have "sjf_ready (recount sc' s' (after_reset K s)) sc' s'" if "single_core s"
    using ready_again [OF e tk] q that by (simp add: single_core_def)
  ultimately show ?thesis
    by (simp add: eq)
qed

subsection \<open>What stays in the new-request bins\<close>

lemma left_over_conv: "left_over s = {p. \<exists>i < length (news s). p \<in># bin_flows (news s ! i)}"
proof -
  have "set_mset (sum_list (map f xs)) = (\<Union>x \<in> set xs. set_mset (f x))" for f :: "nat \<Rightarrow> flow multiset" and xs
    by (induction xs) auto
  then show ?thesis
    by (auto simp: left_over_def new_flows_def)
qed

lemma left_over_drained: "drained (length (news s)) s \<Longrightarrow> left_over s = {}"
  by (simp add: left_over_conv drained_def bin_flows_def)

text \<open>On a single core the batch takes 17 entries of the script: one before the bins are taken
  in, and one before every fourth timeslot is sent out. When only the first has events, every
  request is served or passed on.\<close>

lemma sjf_batch_drained:
  assumes r: "sjf_ready K script s" and a: "admitted_ok admitted s" and t: "on_time first_timeslot tslot_mul tslot_shift"
    and room: "room_out s" and sc: "single_core s" and one: "tl script = []"
    and eq: "sjf_get_admissible_traffic admitted first_timeslot tslot_mul tslot_shift script s = Some (script', s')"
  shows "script' = []" "left_over s' = {}"
proof -
  obtain sc u sc' v s1 where u: "jinv (after_reset K s) {} SJF_NUM_BINS 192 sc {#} u" "begun admitted s u"
      "sc = tl script" "ring_list (js_q_head (j_status u)) = []" "drained SJF_NUM_BINS u"
    and v: "foldo (sjf_output_step first_timeslot (sjf_now_timeslot tslot_mul tslot_shift)) [0..<64] (sc, u) = Some (sc', v)"
    and e: "ended (after_reset K s) sc' v s1"
    and s1: "sjf_get_admissible_traffic admitted first_timeslot tslot_mul tslot_shift script s = Some (sc', s1)"
    by (rule sjf_batch_parts [OF r a t room]) (use sc in \<open>auto simp: single_core_def\<close>)
  have "quiet u" and len: "length (news u) = SJF_NUM_BINS"
    using u(1,2,4) by (simp_all add: quiet_def jinv_def room_simps begun_def)
  from quiet_output [OF this(1) v [unfolded u(3) one]]
  have q: "sc' = []" "news v = news u"
    by simp_all
  show "script' = []"
    using s1 eq q(1) by simp
  have s': "s' = s1"
    using s1 eq by simp
  obtain nb where "news s1 = (news u)[SJF_NUM_BINS - 1 := nb]" "jbin_list nb = []"
    using e q(2) by (auto simp: ended_def)
  then show "left_over s' = {}"
    using u(5) len by (intro left_over_drained) (auto simp: s' drained_def nth_list_update)
qed

end
