(* ===== verification/FP_Sjf_Bench.thy ===== *)
theory FP_Sjf_Bench
  imports FP_Sjf_Spec "HOL-Library.Sublist"
begin

unbundle bit_operations_syntax

text \<open>
  The benchmark of the shortest-job-first allocator, \<^verbatim>\<open>src/src/graph-algo/benchmark_sjf.c\<close>: what
  \<^verbatim>\<open>main\<close> sets up and resets, and the loop \<^verbatim>\<open>run_experiment\<close>. One core runs alone, with one ring
  for the bins and one for the urgent requests, so nothing arrives during a batch: the script is
  empty. Between two batches the state is \<^verbatim>\<open>between\<close>; a round (a batch, then taking the
  timeslots out of \<^verbatim>\<open>q_admitted_out\<close>) leads from such a state to the next.
\<close>

subsection \<open>Definitions: setting up\<close>

text \<open>
  What \<^verbatim>\<open>malloc\<close> returned (\<^term>\<open>None\<close> for NULL) and what the memory held before. A bin that
  cannot be created would be enqueued as NULL and stop the next \<^verbatim>\<open>init_bin\<close>; here the set-up
  stops at once. The sizes of the rings of bins and of admitted timeslots are arguments: \<^verbatim>\<open>main\<close>
  passes \<^verbatim>\<open>NUM_BINS_SHIFT\<close> and \<^verbatim>\<open>BATCH_SHIFT\<close>.
\<close>

definition NUM_BINS_SHIFT_SJF :: nat where "NUM_BINS_SHIFT_SJF = 8"

record sjf_memory =
  mm_q_bin :: "(nat \<Rightarrow> sjf_bin) option"
  mm_q_urgent :: "(nat \<Rightarrow> u64) option"
  mm_q_head :: "(nat \<Rightarrow> u64) option"
  mm_q_admitted_out :: "(nat \<Rightarrow> nat) option"
  mm_core :: sjf_core
  mm_small_bins :: "nat \<Rightarrow> sjf_bin option"
  mm_large_bins :: "nat \<Rightarrow> sjf_bin option"
  mm_status :: "sjf_status option"
  mm_admitted :: "(nat \<Rightarrow> sjf_admitted option) option"
  mm_bins :: "nat \<Rightarrow> sjf_bin option"

definition sjf_benchmark_setup :: "nat \<Rightarrow> nat \<Rightarrow> sjf_memory \<Rightarrow> sjf option" where
  "sjf_benchmark_setup bin_shift out_shift mem = do {
     q_bin \<leftarrow> fp_ring_create bin_shift (mm_q_bin mem);
     q_urgent \<leftarrow> fp_ring_create (2 * FP_NODES_SHIFT + 1) (mm_q_urgent mem);
     q_head \<leftarrow> fp_ring_create (2 * FP_NODES_SHIFT) (mm_q_head mem);
     q_admitted_out \<leftarrow> fp_ring_create out_shift (mm_q_admitted_out mem);
     core \<leftarrow> sjf_alloc_core_init (mm_core mem) (mm_small_bins mem) (mm_large_bins mem) 0 0 0 0;
     status \<leftarrow> sjf_create_admissible_status (mm_status mem) False 0 0 0 q_head q_admitted_out;
     admitted \<leftarrow> sjf_create_admitted_batch (mm_admitted mem);
     q_bin \<leftarrow> foldo (\<lambda>i q. sjf_create_bin (mm_bins mem i) \<bind> fp_ring_enqueue q) [0..<SJF_NUM_BINS] q_bin;
     Some \<lparr> j_core = core, j_status = status, j_bin_rings = [q_bin], j_urgent_rings = [q_urgent],
            j_admitted = admitted \<rparr> }"

definition sjf_reinit_bin :: "sjf_bin fp_ring \<Rightarrow> sjf_bin fp_ring option" where
  "sjf_reinit_bin q_bin = do {
     (b, q_bin) \<leftarrow> fp_ring_dequeue q_bin;
     b \<leftarrow> b;
     fp_ring_enqueue q_bin (sjf_init_bin b) }"

partial_function (option) sjf_drain_urgent :: "u64 fp_ring \<Rightarrow> u64 fp_ring option" where
  "sjf_drain_urgent q_urgent = do {
     (vp, q_urgent) \<leftarrow> fp_ring_dequeue q_urgent;
     if vp \<noteq> None then sjf_drain_urgent q_urgent else Some q_urgent }"

definition sjf_benchmark_reset :: "u16 \<Rightarrow> sjf \<Rightarrow> sjf option" where
  "sjf_benchmark_reset num_nodes s = do {
     let status = sjf_reset_admissible_status (j_status s) False 0 0 num_nodes;
     let i = jc_q_bin_in (j_core s);
     guard_o (i < length (j_bin_rings s));
     q_bin \<leftarrow> foldo (\<lambda>k. sjf_reinit_bin) [0..<SJF_NUM_BINS] (j_bin_rings s ! i);
     let k = jc_q_urgent_in (j_core s);
     guard_o (k < length (j_urgent_rings s));
     q_urgent \<leftarrow> sjf_drain_urgent (j_urgent_rings s ! k);
     q_urgent \<leftarrow> fp_ring_enqueue q_urgent URGENT_Q_HEAD_TOKEN;
     Some (s\<lparr> j_status := status, j_bin_rings := (j_bin_rings s)[i := q_bin],
              j_urgent_rings := (j_urgent_rings s)[k := q_urgent] \<rparr>) }"

subsection \<open>Definitions: the experiment\<close>

record request_info =
  rq_src :: u16
  rq_dst :: u16
  rq_backlog :: u16
  rq_timeslot :: u16

text \<open>The list of requests starts at \<^verbatim>\<open>current_request\<close> and ends at \<^verbatim>\<open>requests + num_requests\<close>.\<close>

fun sjf_issue :: "nat \<Rightarrow> request_info list \<Rightarrow> sjf \<Rightarrow> (request_info list \<times> sjf) option" where
  "sjf_issue b [] s = Some ([], s)"
| "sjf_issue b (r # rs) s =
     (if unat (drop_bit SJF_BATCH_SHIFT (rq_timeslot r)) = b mod (65536 div 2 ^ SJF_BATCH_SHIFT)
      then do {
        status \<leftarrow> sjf_add_backlog (rq_src r) (rq_dst r) (rq_backlog r) (j_status s);
        sjf_issue b rs (s\<lparr> j_status := status \<rparr>) }
      else Some (r # rs, s))"

definition sjf_collect :: "nat \<Rightarrow> u32 \<times> nat list \<times> sjf \<Rightarrow> (u32 \<times> nat list \<times> sjf) option" where
  "sjf_collect i x = do {
     let (num_admitted, admitted_batch, s) = x;
     (p, q) \<leftarrow> fp_ring_dequeue (js_q_admitted_out (j_status s));
     admitted \<leftarrow> p;
     guard_o (admitted < length (j_admitted s));
     Some (num_admitted + ucast (ja_size (j_admitted s ! admitted)), admitted_batch[i := admitted],
       upd_status (\<lambda>st. st\<lparr> js_q_admitted_out := q \<rparr>) s) }"

definition sjf_round :: "sjf_script \<Rightarrow> u32 \<times> nat list \<times> sjf \<Rightarrow> (u32 \<times> nat list \<times> sjf) option" where
  "sjf_round script x = do {
     let (num_admitted, admitted_batch, s) = x;
     (script, s) \<leftarrow> sjf_get_admissible_traffic admitted_batch 0 1 0 script s;
     foldo sjf_collect [0..<SJF_BATCH_SIZE] (num_admitted, admitted_batch, s) }"

definition sjf_experiment_step :: "nat \<Rightarrow> request_info list \<times> u32 \<times> nat list \<times> sjf
    \<Rightarrow> (request_info list \<times> u32 \<times> nat list \<times> sjf) option" where
  "sjf_experiment_step b x = do {
     let (requests, num_admitted, admitted_batch, s) = x;
     (requests, s) \<leftarrow> sjf_issue b requests s;
     y \<leftarrow> sjf_round [] (num_admitted, admitted_batch, s);
     Some (requests, y) }"

definition all_bins_in :: "sjf \<Rightarrow> bool" where
  "all_bins_in s \<longleftrightarrow> jc_q_bin_in (j_core s) < length (j_bin_rings s)
     \<and> ring_tail (in_ring s) = ring_head (in_ring s) + of_nat SJF_NUM_BINS"

definition run_experiment_sjf :: "request_info list \<Rightarrow> u32 \<Rightarrow> u32 \<Rightarrow> nat list \<Rightarrow> sjf
    \<Rightarrow> (request_info list \<times> u32 \<times> nat list \<times> sjf) option" where
  "run_experiment_sjf requests start_time end_time admitted_batch s = do {
     guard_o (all_bins_in s);
     (requests, num_admitted, admitted_batch, s) \<leftarrow> foldo sjf_experiment_step
       [unat (drop_bit SJF_BATCH_SHIFT start_time)..<unat (drop_bit SJF_BATCH_SHIFT end_time)]
       (requests, 0, admitted_batch, s);
     guard_o (all_bins_in s);
     Some (requests, num_admitted, admitted_batch, s) }"

subsection \<open>Between two batches\<close>

definition between :: "flow set \<Rightarrow> nat list \<Rightarrow> sjf \<Rightarrow> bool" where
  "between L batch s \<longleftrightarrow> (\<exists>K. sjf_ready K [] s \<and> kx_lost K = L) \<and> single_core s \<and> admitted_ok batch s
     \<and> sent_list s = [] \<and> SJF_BATCH_SIZE \<le> ring_room (js_q_admitted_out (j_status s))"

definition requests_fit :: "sjf_script \<Rightarrow> sjf \<Rightarrow> bool" where
  "requests_fit script s \<longleftrightarrow> script_ok (unat (js_num_nodes (j_status s))) script \<and> script_bins script = []
     \<and> (\<forall>p. valid_flow (unat (js_num_nodes (j_status s))) p \<longrightarrow> unat (flow_backlog s p) + requested script p < 4294967296)"

lemma script_bins_Nil [simp]: "script_bins [] = []"
  by (simp add: script_bins_def)

lemma no_bins: "script_bins script = [] \<Longrightarrow> stream script s = stream [] s \<and> script_flows script = {#}"
  by (simp add: stream_def script_flows_def)

lemma held_recount: "held (recount script s K) f M = held K f M"
  by (simp add: held_def recount_def)

lemma ready_script:
  assumes r: "sjf_ready K [] s" and f: "requests_fit script s"
  shows "sjf_ready (recount script s K) script s"
proof -
  have sb: "script_bins script = []"
    using f by (simp add: requests_fit_def)
  note b = no_bins [OF sb, of s]
  have lv: "level_inv UNIV 0 script s = level_inv UNIV 0 [] s" and rm: "room_inv 0 0 script s = room_inv 0 0 [] s"
    unfolding level_inv_def room_inv_def Let_def using b sb by simp_all
  have K: "kx_nodes (recount script s K) = kx_nodes K" "kx_config (recount script s K) = kx_config K"
    "kx_total (recount script s K) p = unat (flow_backlog s p) + requested script p" for p
    by (simp_all add: recount_def)
  have n: "kx_nodes K = unat (js_num_nodes (j_status s))"
    using r unfolding sjf_ready_def by blast
  have "held K (flow_backlog s) (places {} s)"
    using r unfolding sjf_ready_def by (simp add: script_flows_def)
  then show ?thesis
    using r f unfolding sjf_ready_def lv rm held_recount K requests_fit_def n by (simp add: b)
qed

lemma ready_drop:
  assumes r: "sjf_ready K script s" and sc: "single_core s"
  shows "sjf_ready (recount [] s K) [] s"
proof -
  have n: "kx_nodes K = unat (js_num_nodes (j_status s))" and rm: "room_inv 0 0 script s"
    using r unfolding sjf_ready_def by blast+
  then have sb: "script_bins script = []"
    using sc by (simp add: room_simps single_core_def)
  note b = no_bins [OF sb, of s]
  have lv: "level_inv UNIV 0 [] s = level_inv UNIV 0 script s" and rm: "room_inv 0 0 [] s = room_inv 0 0 script s"
    unfolding level_inv_def room_inv_def Let_def using b sb by simp_all
  have K: "kx_nodes (recount [] s K) = kx_nodes K" "kx_config (recount [] s K) = kx_config K"
    "kx_total (recount [] s K) p = unat (flow_backlog s p)" for p
    by (simp_all add: recount_def requested_def)
  have "unat (flow_backlog s p) < 4294967296" for p
    using unsigned_less [of "flow_backlog s p"] by simp
  moreover have "requested [] p = 0" "script_flows [] = {#}" "script_ok m []" for p m
    by (simp_all add: requested_def script_flows_def script_ok_def)
  moreover have "held K (flow_backlog s) (places {} s)"
    using r b unfolding sjf_ready_def by simp
  ultimately show ?thesis
    using r unfolding sjf_ready_def lv rm held_recount K by simp
qed

lemma on_time_benchmark: "on_time 0 1 0"
proof -
  have "of_nat i \<le> (1099511627776 :: u64)" if "i < 64" for i
    using that by (simp add: word_le_nat_alt unat_of_nat)
  then show ?thesis
    by (simp add: on_time_def sjf_now_timeslot_def sjf_get_time_ns_def SJF_BATCH_SIZE_def push_bit_eq_mult)
qed

subsection \<open>A round\<close>

abbreviation set_out :: "nat fp_ring \<Rightarrow> sjf \<Rightarrow> sjf" where
  "set_out q \<equiv> upd_status (\<lambda>st. st\<lparr> js_q_admitted_out := q \<rparr>)"

lemma set_out_eqs:
  "flow_backlog (set_out q s) = flow_backlog s" "slot_edges (set_out q s) = slot_edges s" "grants (set_out q s) = grants s"
  "places B (set_out q s) = places B s" "left_over (set_out q s) = left_over s" "single_core (set_out q s) = single_core s"
  "sjf_config (j_status (set_out q s)) = sjf_config (j_status s)" "js_num_nodes (j_status (set_out q s)) = js_num_nodes (j_status s)"
  "j_core (set_out q s) = j_core s" "j_urgent_rings (set_out q s) = j_urgent_rings s"
  by (simp_all add: fun_eq_iff flow_backlog_def slot_edges_def grants_def places_def left_over_def single_core_def
      sjf_config_def upd_status_def)

lemma ready_out:
  assumes "sjf_ready K script s" "ring_wf q"
  shows "sjf_ready K script (set_out q s)"
proof -
  have e: "at_least (set_out q s) = at_least s" "urgent_ok (set_out q s) = urgent_ok s" "stream script (set_out q s) = stream script s"
    by (simp_all add: fun_eq_iff at_least_def urgent_ok_def set_out_eqs) (simp add: stream_def upd_status_def)
  have "level_inv UNIV 0 script (set_out q s) = level_inv UNIV 0 script s"
    unfolding level_inv_def e by (simp add: upd_status_def)
  moreover have "room_inv 0 0 script s"
    using assms(1) unfolding sjf_ready_def by blast
  then have "room_inv 0 0 script (set_out q s)"
    using assms(2) unfolding room_simps e by (auto simp: upd_status_def split: if_splits)
  ultimately show ?thesis
    using assms(1) unfolding sjf_ready_def set_out_eqs by blast
qed

lemma sjf_collect_ok:
  assumes wf: "ring_wf (js_q_admitted_out (j_status s))" and l: "sent_list s = batch" "length batch = SJF_BATCH_SIZE"
    and a: "\<forall>p \<in> set batch. p < length (j_admitted s)"
  shows "wp (foldo sjf_collect [0..<SJF_BATCH_SIZE] (num, batch, s)) (\<lambda>(num', batch', s').
    batch' = batch \<and> num' = num + of_nat (\<Sum>t < SJF_BATCH_SIZE. unat (ja_size (j_admitted s ! (batch ! t))))
    \<and> (\<exists>q. s' = set_out q s \<and> ring_wf q \<and> ring_list q = [] \<and> ring_room q = ring_room (js_q_admitted_out (j_status s))))"
proof -
  let ?size = "\<lambda>t. unat (ja_size (j_admitted s ! (batch ! t)))"
  let ?P = "\<lambda>i x. case x of (num', batch', s') \<Rightarrow> batch' = batch \<and> num' = num + of_nat (\<Sum>t < i. ?size t)
    \<and> (\<exists>q. s' = set_out q s \<and> ring_wf q \<and> ring_list q = drop i batch \<and> ring_room q = ring_room (js_q_admitted_out (j_status s)))"
  have "wp (foldo sjf_collect [0..<SJF_BATCH_SIZE] (num, batch, s)) (?P SJF_BATCH_SIZE)"
  proof (rule wp_upto)
    show "?P 0 (num, batch, s)"
      using wf l(1) by (auto simp: upd_status_def intro!: exI [of _ "js_q_admitted_out (j_status s)"])
    fix i x assume i: "i < SJF_BATCH_SIZE" and P: "?P i x"
    obtain num' s' q where x: "x = (num', batch, s')" "num' = num + of_nat (\<Sum>t < i. ?size t)" "s' = set_out q s" "ring_wf q"
      "ring_list q = drop i batch" "ring_room q = ring_room (js_q_admitted_out (j_status s))"
      using P by auto
    have "ring_list q = batch ! i # drop (Suc i) batch"
      using i l(2) x(5) by (simp add: Cons_nth_drop_Suc)
    from wpD [OF fp_ring_dequeue_ok [OF x(4) this]] obtain q' where q': "fp_ring_dequeue q = Some (Some (batch ! i), q')"
      "ring_wf q'" "ring_list q' = drop (Suc i) batch" "ring_room q' = ring_room q"
      by auto
    have "batch ! i < length (j_admitted s)"
      using a i l(2) by simp
    then show "wp (sjf_collect i x) (?P (Suc i))"
      using q' x by (auto simp: sjf_collect_def upd_status_def intro!: exI [of _ q'])
  qed
  then show ?thesis
    using l(2) by simp
qed

lemma sum_grants:
  assumes "slots_inv K s"
  shows "(\<Sum>p | valid_flow (kx_nodes K) p. grants s p)
    = (\<Sum>t < SJF_BATCH_SIZE. unat (ja_size (j_admitted s ! (jc_admitted (j_core s) ! t))))"
proof -
  let ?V = "{p. valid_flow (kx_nodes K) p}"
  have "(\<Sum>p \<in> ?V. count (mset (map jpair (slot_edges s t))) p) = unat (ja_size (j_admitted s ! (jc_admitted (j_core s) ! t)))"
    if "t < 64" for t
  proof -
    let ?M = "mset (map jpair (slot_edges s t))"
    have "sjf_slot_ok (kx_nodes K) (j_batch s) t (slot_edges s t)" and n: "kx_nodes K \<le> 255"
      using assms that unfolding slots_inv_def Let_def by blast+
    then have "set_mset ?M \<subseteq> ?V"
      by (auto simp: sjf_slot_ok_def ends_ok_def)
    moreover have "count ?M p = 0" if "p \<in> ?V - set_mset ?M" for p
      using that by (metis DiffD2 not_in_iff)
    ultimately have "(\<Sum>p \<in> ?V. count ?M p) = size ?M"
      unfolding size_multiset_overloaded_eq
      by (intro sum.mono_neutral_right valid_flows_card(1) [OF n]) blast+
    then show ?thesis
      by (simp add: slot_edges_def ja_list_def)
  qed
  then show ?thesis
    unfolding grants_def by (subst sum.swap) (simp add: SJF_BATCH_SIZE_def)
qed

lemma flow_inv_lost:
  assumes "flow_inv K {} script {#} s"
  shows "\<forall>p \<in> kx_lost K. flow_backlog s p \<noteq> 0 \<and> grants s p = 0 \<and> p \<notin># places {} s"
proof
  fix p assume p: "p \<in> kx_lost K"
  have h: "held K (flow_backlog s) ({#} + places {} s + script_flows script)"
    using assms by (simp add: flow_inv_def)
  then have "p \<notin># places {} s"
    using held_mem(3) [OF h, of p] p by auto
  then show "flow_backlog s p \<noteq> 0 \<and> grants s p = 0 \<and> p \<notin># places {} s"
    using assms h p unfolding flow_inv_def held_def by blast
qed

text \<open>What a round does to the flows: \<^verbatim>\<open>n\<close> is the number of nodes, \<^verbatim>\<open>L\<close> the flows lost so far.\<close>

definition round_done :: "nat list \<Rightarrow> sjf_script \<Rightarrow> sjf \<Rightarrow> sjf_script \<Rightarrow> sjf \<Rightarrow> bool" where
  "round_done batch script s script' s' \<longleftrightarrow> js_num_nodes (j_status s') = js_num_nodes (j_status s)
     \<and> jc_admitted (j_core s') = batch
     \<and> (\<forall>p. valid_flow (unat (js_num_nodes (j_status s))) p \<longrightarrow>
          unat (flow_backlog s' p) + grants s' p + requested script' p = unat (flow_backlog s p) + requested script p)"

lemma sjf_round_ok:
  assumes b: "between L batch s" and f: "requests_fit script s"
  shows "wp (sjf_round script (num, batch, s)) (\<lambda>(num', batch', s'). batch' = batch \<and> between (L \<union> left_over s) batch s'
    \<and> (\<forall>p \<in> L \<union> left_over s. flow_backlog s' p \<noteq> 0 \<and> grants s' p = 0 \<and> p \<notin># places {} s')
    \<and> (\<exists>script' s1. sjf_get_admissible_traffic batch 0 1 0 script s = Some (script', s1) \<and> round_done batch script s script' s'
         \<and> left_over s' = left_over s1)
    \<and> num' = num + of_nat (\<Sum>p | valid_flow (unat (js_num_nodes (j_status s))) p. grants s' p))"
proof -
  obtain K where K: "sjf_ready K [] s" "kx_lost K = L"
    using b by (auto simp: between_def)
  have b': "single_core s" "admitted_ok batch s" "sent_list s = []" "room_out s"
    "SJF_BATCH_SIZE \<le> ring_room (js_q_admitted_out (j_status s))"
    using b length_ring_list [of "js_q_admitted_out (j_status s)"] by (auto simp: between_def room_out_def)
  let ?K = "recount script s K"
  note r = ready_script [OF K(1) f]
  let ?K' = "after_reset ?K s"
  obtain script' s1 where s1: "sjf_get_admissible_traffic batch 0 1 0 script s = Some (script', s1)"
    "after_batch ?K' batch s script' s1" "sjf_ready (recount script' s1 ?K') script' s1"
    using wpD [OF sjf_batch_ok [OF r b'(2) on_time_benchmark b'(4)]] b'(1) by auto
  have fi: "flow_inv ?K' {} script' {#} s1" and sl: "slots_inv ?K' s1" and ad: "jc_admitted (j_core s1) = batch"
    "sent_list s1 = batch" and sc: "single_core s1" and rr: "ring_room (js_q_admitted_out (j_status s1)) = ring_room (js_q_admitted_out (j_status s))"
    using s1(2) b'(1,3) by (simp_all add: after_batch_def)
  have nodes: "kx_nodes ?K' = unat (js_num_nodes (j_status s))" "kx_lost ?K' = L \<union> left_over s"
    using K unfolding sjf_ready_def by (simp_all add: recount_def)
  have n1: "js_num_nodes (j_status s1) = js_num_nodes (j_status s)"
    using sl nodes(1) by (simp add: slots_inv_def Let_def word_unat_eq_iff)
  have tot: "kx_total ?K' p = unat (flow_backlog s p) + requested script p" for p
    by (simp add: recount_def)
  have wf: "ring_wf (js_q_admitted_out (j_status s1))"
    using s1(3) unfolding sjf_ready_def by (simp add: room_simps)
  have ao: "admitted_ok batch s1"
    using sl ad(1) by (simp add: slots_inv_def Let_def admitted_ok_def)
  obtain q where q: "foldo sjf_collect [0..<SJF_BATCH_SIZE] (num, batch, s1)
      = Some (num + of_nat (\<Sum>t < SJF_BATCH_SIZE. unat (ja_size (j_admitted s1 ! (batch ! t)))), batch, set_out q s1)"
    "ring_wf q" "ring_list q = []" "ring_room q = ring_room (js_q_admitted_out (j_status s1))"
    using wpD [OF sjf_collect_ok [OF wf ad(2), of num]] ao by (auto simp: admitted_ok_def)
  let ?s = "set_out q s1"
  let ?KK = "recount [] ?s (recount script' s1 ?K')"
  have "sjf_ready ?KK [] ?s"
    using ready_drop [OF ready_out [OF s1(3) q(2)]] sc by (simp add: set_out_eqs)
  moreover have "admitted_ok batch ?s" "sent_list ?s = []" "ring_room (js_q_admitted_out (j_status ?s)) = ring_room q"
    using ao q(3) by (simp_all add: admitted_ok_def upd_status_def)
  ultimately have "between (L \<union> left_over s) batch ?s"
    using sc q(4) rr b'(5) nodes(2) unfolding between_def set_out_eqs by (intro conjI exI [of _ ?KK]) (simp_all add: recount_def)
  moreover have "\<forall>p \<in> L \<union> left_over s. flow_backlog ?s p \<noteq> 0 \<and> grants ?s p = 0 \<and> p \<notin># places {} ?s"
    using flow_inv_lost [OF fi] unfolding nodes set_out_eqs by blast
  moreover have "round_done batch script s script' ?s"
    using fi unfolding flow_inv_def round_done_def set_out_eqs nodes(1) tot n1 ad by blast
  moreover have "(\<Sum>p | valid_flow (unat (js_num_nodes (j_status s))) p. grants ?s p)
      = (\<Sum>t < SJF_BATCH_SIZE. unat (ja_size (j_admitted s1 ! (batch ! t))))"
    using sum_grants [OF sl] by (simp add: nodes set_out_eqs ad(1))
  ultimately show ?thesis
    by (simp only: sjf_round_def Let_def prod.case s1(1) bind.bind_lunit q(1) wp_Some) (simp add: set_out_eqs)
qed

lemma sjf_round_drained:
  assumes b: "between L batch s" and f: "requests_fit script s" and one: "tl script = []"
    and eq: "sjf_get_admissible_traffic batch 0 1 0 script s = Some (script', s')"
  shows "script' = []" "left_over s' = {}"
proof -
  obtain K where "sjf_ready K [] s" and b': "single_core s" "admitted_ok batch s" "room_out s"
    using b length_ring_list [of "js_q_admitted_out (j_status s)"] by (auto simp: between_def room_out_def)
  then show "script' = []" "left_over s' = {}"
    using sjf_batch_drained [OF ready_script [OF _ f] b'(2) on_time_benchmark b'(3,1) one eq] by blast+
qed

subsection \<open>Requests before the batch\<close>

text \<open>
  Requests that are added before a batch have the effect of requests that arrive before its first
  look at the queues.
\<close>

fun sjf_add_event :: "sjf_event \<Rightarrow> sjf_status \<Rightarrow> sjf_status option" where
  "sjf_add_event (Request src dst n) status = sjf_add_backlog src dst n status"
| "sjf_add_event (BinArrives b) status = Some status"

lemma add_event_config: "sjf_add_event ev st = Some st' \<Longrightarrow> sjf_config st' = sjf_config st \<and> js_num_nodes st' = js_num_nodes st"
  by (cases ev) (auto simp: sjf_add_backlog_def sjf_add_backlog_no_enqueue_def sjf_config_def Let_def
      split: option.splits elim!: some_bindE)

lemma add_events_config:
  "foldo sjf_add_event evs st = Some st' \<Longrightarrow> sjf_config st' = sjf_config st \<and> js_num_nodes st' = js_num_nodes st"
  by (induction evs arbitrary: st) (auto elim!: some_bindE dest!: add_event_config)

lemma requests_status:
  "\<forall>ev \<in> set evs. event_bins ev = [] \<Longrightarrow>
    foldo sjf_event_step evs s = map_option (\<lambda>st. s\<lparr> j_status := st \<rparr>) (foldo sjf_add_event evs (j_status s))"
proof (induction evs arbitrary: s)
  case (Cons ev evs)
  obtain src dst n where ev: "ev = Request src dst n"
    using Cons.prems by (cases ev) auto
  show ?case
    using Cons by (cases "sjf_add_backlog src dst n (j_status s)") (simp_all add: ev sjf_event_step_def)
qed simp

lemma reset_status:
  assumes "sjf_config st = sjf_config (j_status s)" "js_num_nodes st = js_num_nodes (j_status s)"
  shows "sjf_alloc_core_reset batch (s\<lparr> j_status := st \<rparr>) = map_option (\<lambda>s'. s'\<lparr> j_status := st \<rparr>) (sjf_alloc_core_reset batch s)"
  using assms by (cases s) (simp add: sjf_alloc_core_reset_def Let_def sjf_config_def map_option_bind o_def guard_o_def)

lemma reset_keeps_status: "sjf_alloc_core_reset batch s = Some s' \<Longrightarrow> j_status s' = j_status s"
  by (auto simp: sjf_alloc_core_reset_def Let_def elim!: some_bindE)

lemma batch_requests_first:
  assumes "\<forall>ev \<in> set evs. event_bins ev = []" "foldo sjf_event_step evs s = Some s1"
  shows "sjf_get_admissible_traffic batch first_timeslot tslot_mul tslot_shift [] s1
    = sjf_get_admissible_traffic batch first_timeslot tslot_mul tslot_shift [evs] s"
proof -
  obtain st where st: "foldo sjf_add_event evs (j_status s) = Some st" "s1 = s\<lparr> j_status := st \<rparr>"
    using assms(2) unfolding requests_status [OF assms(1)] by blast
  note c = add_events_config [OF st(1)]
  have "sjf_begin batch [] s1 = sjf_begin batch [evs] s"
  proof (cases "sjf_alloc_core_reset batch s")
    case None
    then show ?thesis
      using c by (simp add: sjf_begin_def st(2) reset_status)
  next
    case (Some s2)
    then show ?thesis
      using c st(1) by (simp add: sjf_begin_def st(2) reset_status sjf_poll_def script_head_def
          requests_status [OF assms(1)] reset_keeps_status)
  qed
  then show ?thesis
    by (simp add: sjf_get_admissible_traffic_def)
qed

subsection \<open>The experiment\<close>

definition req_event :: "request_info \<Rightarrow> sjf_event" where
  "req_event r = Request (rq_src r) (rq_dst r) (rq_backlog r)"

definition issued_now :: "nat \<Rightarrow> request_info \<Rightarrow> bool" where
  "issued_now b r \<longleftrightarrow> unat (drop_bit SJF_BATCH_SHIFT (rq_timeslot r)) = b mod (65536 div 2 ^ SJF_BATCH_SHIFT)"

lemma sjf_issue_events:
  "sjf_issue b rs s = map_option (\<lambda>s'. (dropWhile (issued_now b) rs, s')) (foldo sjf_event_step (map req_event (takeWhile (issued_now b) rs)) s)"
proof (induction rs arbitrary: s)
  case (Cons r rs)
  then show ?case
    by (cases "sjf_add_backlog (rq_src r) (rq_dst r) (rq_backlog r) (j_status s)")
      (simp_all add: issued_now_def req_event_def sjf_event_step_def)
qed simp

definition requests_ok :: "nat \<Rightarrow> request_info list \<Rightarrow> bool" where
  "requests_ok n rs \<longleftrightarrow> (\<forall>r \<in> set rs. valid_flow n (rq_src r, rq_dst r) \<and> rq_backlog r \<noteq> 0)"

definition asked :: "request_info list \<Rightarrow> flow \<Rightarrow> nat" where
  "asked rs p = sum_list (map (\<lambda>r. if p = (rq_src r, rq_dst r) then unat (rq_backlog r) else 0) rs)"

lemma asked_append: "asked (xs @ ys) p = asked xs p + asked ys p"
  by (simp add: asked_def)

lemma asked_events: "requested [map req_event rs] p = asked rs p"
  by (simp add: requested_def asked_def req_event_def o_def)

lemma asked_due: "asked (takeWhile P rs) p + asked (dropWhile P rs) p = asked rs p"
  by (simp flip: asked_append)

definition total_backlog :: "sjf \<Rightarrow> nat" where
  "total_backlog s = (\<Sum>p | valid_flow (unat (js_num_nodes (j_status s))) p. unat (flow_backlog s p))"

lemma sjf_experiment_step_ok:
  assumes b: "between {} batch s" and l: "left_over s = {}"
    and rq: "requests_ok (unat (js_num_nodes (j_status s))) rs"
    and fit: "\<forall>p. valid_flow (unat (js_num_nodes (j_status s))) p \<longrightarrow> unat (flow_backlog s p) + asked rs p < 4294967296"
  shows "wp (sjf_experiment_step k (rs, num, batch, s)) (\<lambda>(rs', num', batch', s'). batch' = batch \<and> between {} batch s'
    \<and> left_over s' = {} \<and> js_num_nodes (j_status s') = js_num_nodes (j_status s) \<and> rs' = dropWhile (issued_now k) rs
    \<and> (\<forall>p. valid_flow (unat (js_num_nodes (j_status s))) p \<longrightarrow>
         unat (flow_backlog s' p) + asked rs' p + grants s' p = unat (flow_backlog s p) + asked rs p)
    \<and> num' = num + of_nat (\<Sum>p | valid_flow (unat (js_num_nodes (j_status s))) p. grants s' p))"
proof -
  let ?n = "unat (js_num_nodes (j_status s))" and ?due = "takeWhile (issued_now k) rs" and ?rs = "dropWhile (issued_now k) rs"
  let ?evs = "map req_event ?due"
  have nb: "\<forall>ev \<in> set ?evs. event_bins ev = []"
    by (simp add: req_event_def)
  have "script_ok ?n [?evs]"
    using rq set_takeWhileD [of _ "issued_now k" rs] by (auto simp: script_ok_def requests_ok_def req_event_def)
  moreover have "unat (flow_backlog s p) + requested [?evs] p < 4294967296" if "valid_flow ?n p" for p
    using fit that asked_due [of "issued_now k" rs p] unfolding asked_events by fastforce
  ultimately have f: "requests_fit [?evs] s"
    using nb by (simp add: requests_fit_def script_bins_def)
  from wpD [OF sjf_round_ok [OF b f, of num]]
  obtain num' s' script' s1 where r: "sjf_round [?evs] (num, batch, s) = Some (num', batch, s')" "between {} batch s'"
    "sjf_get_admissible_traffic batch 0 1 0 [?evs] s = Some (script', s1)" "round_done batch [?evs] s script' s'"
    "left_over s' = left_over s1" "num' = num + of_nat (\<Sum>p | valid_flow ?n p. grants s' p)"
    by (auto simp: l)
  have e: "script' = []" "left_over s1 = {}"
    using sjf_round_drained [OF b f _ r(3)] by simp_all
  obtain s2 s3 where "sjf_alloc_core_reset batch s = Some s2" "foldo sjf_event_step ?evs s2 = Some s3"
    using r(3) by (auto simp: sjf_get_admissible_traffic_def sjf_begin_def sjf_poll_def script_head_def elim!: some_bindE)
  then obtain s0 where s0: "foldo sjf_event_step ?evs s = Some s0"
    unfolding requests_status [OF nb] by (auto simp: reset_keeps_status)
  have "sjf_round [] (num, batch, s0) = Some (num', batch, s')"
    using r(1) batch_requests_first [OF nb s0] by (simp add: sjf_round_def)
  then have eq: "sjf_experiment_step k (rs, num, batch, s) = Some (?rs, num', batch, s')"
    by (simp add: sjf_experiment_step_def sjf_issue_events s0)
  have "unat (flow_backlog s' p) + asked ?rs p + grants s' p = unat (flow_backlog s p) + asked rs p" if "valid_flow ?n p" for p
  proof -
    have "unat (flow_backlog s' p) + grants s' p + requested script' p = unat (flow_backlog s p) + requested [?evs] p"
      using r(4) that unfolding round_done_def by blast
    then show ?thesis
      using asked_due [of "issued_now k" rs p] unfolding asked_events e(1) by (simp add: requested_def)
  qed
  then show ?thesis
    unfolding eq wp_Some prod.case using r(2,4,5,6) e(2) by (simp add: round_done_def)
qed

definition volume :: "request_info list \<Rightarrow> nat" where
  "volume rs = sum_list (map (\<lambda>r. unat (rq_backlog r)) rs)"

lemma volume_asked:
  assumes "requests_ok n rs" "n \<le> 255"
  shows "(\<Sum>p | valid_flow n p. asked rs p) = volume rs"
  using assms(1)
proof (induction rs)
  case (Cons r rs)
  have "(\<Sum>p | valid_flow n p. if p = (rq_src r, rq_dst r) then unat (rq_backlog r) else 0) = unat (rq_backlog r)"
    using Cons.prems by (subst sum.delta [OF valid_flows_card(1) [OF assms(2)]]) (simp add: requests_ok_def)
  then show ?case
    using Cons by (simp add: asked_def volume_def sum.distrib requests_ok_def)
qed (simp add: asked_def volume_def)

lemma between_bins: "between L batch s \<Longrightarrow> all_bins_in s \<and> js_num_nodes (j_status s) \<noteq> 0 \<and> unat (js_num_nodes (j_status s)) \<le> 255"
proof -
  assume b: "between L batch s"
  then obtain K where r: "sjf_ready K [] s"
    by (auto simp: between_def)
  then have "room_inv 0 0 [] s" and n: "kx_nodes K = unat (js_num_nodes (j_status s))" "0 < kx_nodes K" "kx_nodes K \<le> 255"
    unfolding sjf_ready_def by blast+
  then have "jc_q_bin_in (j_core s) < length (j_bin_rings s)" "ring_count (in_ring s) = 256"
    using b by (simp_all add: room_simps between_def single_core_def stream_def SJF_NUM_BINS_def)
  then have "unat (ring_tail (in_ring s) - ring_head (in_ring s)) = unat (256 :: u32)"
    by (simp add: ring_count_def)
  then have "ring_tail (in_ring s) - ring_head (in_ring s) = 256"
    by (simp only: word_unat_eq_iff [symmetric])
  then show ?thesis
    using \<open>jc_q_bin_in (j_core s) < length (j_bin_rings s)\<close> n by (auto simp: all_bins_in_def SJF_NUM_BINS_def algebra_simps)
qed

definition run_inv :: "nat list \<Rightarrow> request_info list \<Rightarrow> sjf \<Rightarrow> request_info list \<times> u32 \<times> nat list \<times> sjf \<Rightarrow> bool" where
  "run_inv batch rs s x \<longleftrightarrow> (case x of (rs', num', batch', s') \<Rightarrow> batch' = batch \<and> between {} batch s' \<and> left_over s' = {}
     \<and> js_num_nodes (j_status s') = js_num_nodes (j_status s) \<and> suffix rs' rs
     \<and> (\<exists>g. (\<forall>p. valid_flow (unat (js_num_nodes (j_status s))) p \<longrightarrow>
              unat (flow_backlog s' p) + asked rs' p + g p = unat (flow_backlog s p) + asked rs p)
            \<and> num' = of_nat (\<Sum>p | valid_flow (unat (js_num_nodes (j_status s))) p. g p)))"

lemma run_inv_step:
  assumes rq: "requests_ok (unat (js_num_nodes (j_status s))) rs"
    and fit: "\<forall>p. valid_flow (unat (js_num_nodes (j_status s))) p \<longrightarrow> unat (flow_backlog s p) + asked rs p < 4294967296"
    and inv: "run_inv batch rs s x"
  shows "wp (sjf_experiment_step k x) (run_inv batch rs s)"
proof -
  let ?n = "unat (js_num_nodes (j_status s))"
  obtain rs1 num1 s1 g where x: "x = (rs1, num1, batch, s1)" "between {} batch s1" "left_over s1 = {}"
    "js_num_nodes (j_status s1) = js_num_nodes (j_status s)" "suffix rs1 rs"
    "\<forall>p. valid_flow ?n p \<longrightarrow> unat (flow_backlog s1 p) + asked rs1 p + g p = unat (flow_backlog s p) + asked rs p"
    "num1 = of_nat (\<Sum>p | valid_flow ?n p. g p)"
    using inv by (auto simp: run_inv_def)
  have "requests_ok ?n rs1"
    using rq x(5) set_mono_suffix unfolding requests_ok_def by blast
  moreover have "unat (flow_backlog s1 p) + asked rs1 p < 4294967296" if "valid_flow ?n p" for p
    using fit [rule_format, OF that] x(6) [rule_format, OF that] by linarith
  ultimately have "wp (sjf_experiment_step k (rs1, num1, batch, s1)) (\<lambda>(rs', num', batch', s'). batch' = batch \<and> between {} batch s'
    \<and> left_over s' = {} \<and> js_num_nodes (j_status s') = js_num_nodes (j_status s) \<and> rs' = dropWhile (issued_now k) rs1
    \<and> (\<forall>p. valid_flow ?n p \<longrightarrow> unat (flow_backlog s' p) + asked rs' p + grants s' p = unat (flow_backlog s1 p) + asked rs1 p)
    \<and> num' = num1 + of_nat (\<Sum>p | valid_flow ?n p. grants s' p))"
    by (intro sjf_experiment_step_ok [OF x(2,3), of rs1 k num1, unfolded x(4)]) simp_all
  from wpD [OF this] obtain num2 s2 where s2: "sjf_experiment_step k (rs1, num1, batch, s1) = Some (dropWhile (issued_now k) rs1, num2, batch, s2)"
    "between {} batch s2" "left_over s2 = {}" "js_num_nodes (j_status s2) = js_num_nodes (j_status s)"
    "\<forall>p. valid_flow ?n p \<longrightarrow> unat (flow_backlog s2 p) + asked (dropWhile (issued_now k) rs1) p + grants s2 p = unat (flow_backlog s1 p) + asked rs1 p"
    "num2 = num1 + of_nat (\<Sum>p | valid_flow ?n p. grants s2 p)"
    by (auto simp only: split_paired_Ex prod.case)
  let ?g = "\<lambda>p. g p + grants s2 p"
  have "unat (flow_backlog s2 p) + asked (dropWhile (issued_now k) rs1) p + ?g p = unat (flow_backlog s p) + asked rs p" if "valid_flow ?n p" for p
    using x(6) [rule_format, OF that] s2(5) [rule_format, OF that] by linarith
  moreover have "num2 = of_nat (\<Sum>p | valid_flow ?n p. ?g p)"
    using x(7) s2(6) by (simp add: sum.distrib)
  moreover have "suffix (dropWhile (issued_now k) rs1) rs"
    using x(5) suffix_dropWhile suffix_order.trans by blast
  ultimately have "run_inv batch rs s (dropWhile (issued_now k) rs1, num2, batch, s2)"
    unfolding run_inv_def prod.case using s2(2-4) by (intro conjI exI [of _ ?g] allI impI) simp_all
  then show ?thesis
    by (simp add: x(1) s2(1))
qed

lemma run_experiment_ok:
  assumes b: "between {} batch s" and l: "left_over s = {}" and rq: "requests_ok (unat (js_num_nodes (j_status s))) rs"
    and fit: "\<forall>p. valid_flow (unat (js_num_nodes (j_status s))) p \<longrightarrow> unat (flow_backlog s p) + asked rs p < 4294967296"
  shows "wp (run_experiment_sjf rs start_time end_time batch s) (run_inv batch rs s)"
proof -
  let ?r = "[unat (drop_bit SJF_BATCH_SHIFT start_time)..<unat (drop_bit SJF_BATCH_SHIFT end_time)]"
  have "run_inv batch rs s (rs, 0, batch, s)"
    using b l unfolding run_inv_def prod.case by (intro conjI exI [of _ "\<lambda>_. 0"]) simp_all
  then have "wp (foldo sjf_experiment_step ?r (rs, 0, batch, s)) (run_inv batch rs s)"
    using wp_foldo [of "\<lambda>_. run_inv batch rs s"] run_inv_step [OF rq fit] by blast
  then obtain y where y: "foldo sjf_experiment_step ?r (rs, 0, batch, s) = Some y" "run_inv batch rs s y"
    by (auto dest!: wpD)
  obtain rs' num' batch' s' where "y = (rs', num', batch', s')"
    by (cases y) auto
  then show ?thesis
    using y between_bins [OF b] between_bins [of "{}" batch s'] by (simp add: run_experiment_sjf_def run_inv_def)
qed

end
