(* ===== verification/FP_Sjf_Setup.thy ===== *)
theory FP_Sjf_Setup
  imports FP_Sjf_Bench
begin

unbundle bit_operations_syntax

text \<open>
  The set-up of the benchmark of the shortest-job-first allocator: with rings of sufficient size
  it ends in a state from which batches run; with the sizes that \<^verbatim>\<open>main\<close> passes it stops.
\<close>

subsection \<open>Filling the rings\<close>

lemma fill_bins:
  assumes "ring_wf q" "ring_list q = []" "n \<le> ring_room q" "\<forall>i. mm_bins mem i \<noteq> None"
  shows "wp (foldo (\<lambda>i q. sjf_create_bin (mm_bins mem i) \<bind> fp_ring_enqueue q) [0..<n] q)
    (\<lambda>q'. ring_wf q' \<and> length (ring_list q') = n \<and> (\<forall>b \<in> set (ring_list q'). jbin_list b = []) \<and> ring_room q' = ring_room q)"
proof (rule wp_upto)
  show "ring_wf q \<and> length (ring_list q) = 0 \<and> (\<forall>b \<in> set (ring_list q). jbin_list b = []) \<and> ring_room q = ring_room q"
    using assms by simp
  fix i r assume i: "i < n" and P: "ring_wf r \<and> length (ring_list r) = i \<and> (\<forall>b \<in> set (ring_list r). jbin_list b = []) \<and> ring_room r = ring_room q"
  obtain b where b: "mm_bins mem i = Some b"
    using assms(4) by blast
  have "ring_wf r" "ring_count r < ring_room r"
    using P i assms(3) by simp_all
  note e = fp_ring_enqueue_ok [OF this, of "sjf_init_bin b"]
  show "wp (sjf_create_bin (mm_bins mem i) \<bind> fp_ring_enqueue r)
      (\<lambda>q'. ring_wf q' \<and> length (ring_list q') = Suc i \<and> (\<forall>b \<in> set (ring_list q'). jbin_list b = []) \<and> ring_room q' = ring_room q)"
    using P e unfolding sjf_create_bin_def b by (auto elim!: wp_mono simp flip: length_ring_list)
qed

lemma fp_ring_enqueue_full:
  assumes "ring_wf r" "ring_count r = ring_room r"
  shows "fp_ring_enqueue r x = None"
proof -
  have "ring_tail r - ring_head r = ring_mask r"
    using assms(2) by (simp add: ring_count_def ring_room_def word_unat_eq_iff)
  then have "ring_tail r = ring_head r + ring_mask r"
    by (simp add: algebra_simps)
  then show ?thesis
    by (simp add: fp_ring_enqueue_def guard_o_def)
qed

lemma reinit_bins:
  assumes "ring_wf q" "length (ring_list q) = n" "n \<le> ring_room q"
  shows "wp (foldo (\<lambda>k. sjf_reinit_bin) [0..<n] q)
    (\<lambda>q'. ring_wf q' \<and> length (ring_list q') = n \<and> (\<forall>b \<in> set (ring_list q'). jbin_list b = []) \<and> ring_room q' = ring_room q)"
proof -
  let ?P = "\<lambda>i r. ring_wf r \<and> ring_list r = drop i (ring_list q) @ map sjf_init_bin (take i (ring_list q)) \<and> ring_room r = ring_room q"
  have "wp (foldo (\<lambda>k. sjf_reinit_bin) [0..<n] q) (?P n)"
  proof (rule wp_upto)
    fix i r assume i: "i < n" and P: "?P i r"
    let ?b = "ring_list q ! i" and ?rest = "drop (Suc i) (ring_list q) @ map sjf_init_bin (take i (ring_list q))"
    have "ring_list r = ?b # ?rest"
      using P i assms(2) by (simp add: Cons_nth_drop_Suc)
    from wpD [OF fp_ring_dequeue_ok [OF _ this]] obtain r1 where r1: "fp_ring_dequeue r = Some (Some ?b, r1)" "ring_wf r1"
      "ring_list r1 = ?rest" "ring_room r1 = ring_room r"
      using P by auto
    have "length ?rest < ring_room r"
      using P i assms(2,3) by simp
    then have "ring_count r1 < ring_room r1"
      by (metis r1(3,4) length_ring_list)
    note e = fp_ring_enqueue_ok [OF r1(2) this, of "sjf_init_bin ?b"]
    show "wp (sjf_reinit_bin r) (?P (Suc i))"
      using e i P r1 assms(2) by (auto simp: sjf_reinit_bin_def take_Suc_conv_app_nth elim!: wp_mono)
  qed (use assms in simp)
  then show ?thesis
    by (rule wp_mono) (use assms(2) in \<open>auto simp flip: length_ring_list\<close>)
qed

lemma drain_urgent:
  "ring_wf q \<Longrightarrow> wp (sjf_drain_urgent q) (\<lambda>q'. ring_wf q' \<and> ring_list q' = [] \<and> ring_room q' = ring_room q)"
proof (induction "ring_list q" arbitrary: q)
  case Nil
  then show ?case
    by (subst sjf_drain_urgent.simps) (simp add: fp_ring_dequeue_empty)
next
  case (Cons x xs)
  from wpD [OF fp_ring_dequeue_ok [OF Cons.prems Cons.hyps(2) [symmetric]]]
  obtain r where r: "fp_ring_dequeue q = Some (Some x, r)" "ring_wf r" "ring_list r = xs" "ring_room r = ring_room q"
    by auto
  show ?case
    using Cons.hyps(1) [OF r(3) [symmetric] r(2)] r(4) by (subst sjf_drain_urgent.simps) (simp add: r(1))
qed

subsection \<open>The state after the set-up\<close>

definition memory_ok :: "sjf_memory \<Rightarrow> bool" where
  "memory_ok mem \<longleftrightarrow> mm_q_bin mem \<noteq> None \<and> mm_q_urgent mem \<noteq> None \<and> mm_q_head mem \<noteq> None \<and> mm_q_admitted_out mem \<noteq> None
     \<and> (\<forall>i. mm_small_bins mem i \<noteq> None) \<and> (\<forall>i. mm_large_bins mem i \<noteq> None) \<and> mm_status mem \<noteq> None
     \<and> (\<exists>f. mm_admitted mem = Some f \<and> (\<forall>i. f i \<noteq> None)) \<and> (\<forall>i. mm_bins mem i \<noteq> None)"

definition sjf_fresh :: "sjf \<Rightarrow> bool" where
  "sjf_fresh s \<longleftrightarrow> (let c = j_core s in
     jc_q_bin_in c = 0 \<and> jc_q_bin_out c = 0 \<and> jc_q_urgent_in c = 0 \<and> jc_q_urgent_out c = 0
   \<and> length (jc_new_request_bins c) = SJF_NUM_BINS \<and> (\<forall>b \<in> set (jc_new_request_bins c). jbin_list b = [])
   \<and> length (jc_outgoing_bins c) = SJF_NUM_BINS \<and> (\<forall>b \<in> set (jc_outgoing_bins c). \<exists>b'. b = Some b' \<and> jbin_list b' = [])
   \<and> length (jc_temporary_bins c) = SJF_NUM_BINS \<and> length (j_admitted s) = SJF_BATCH_SIZE
   \<and> (\<exists>q. j_bin_rings s = [q] \<and> ring_wf q \<and> length (ring_list q) = SJF_NUM_BINS \<and> SJF_NUM_BINS \<le> ring_room q
          \<and> (\<forall>b \<in> set (ring_list q). jbin_list b = []))
   \<and> (\<exists>q. j_urgent_rings s = [q] \<and> ring_wf q \<and> 65282 \<le> ring_room q)
   \<and> ring_wf (js_q_head (j_status s)) \<and> ring_list (js_q_head (j_status s)) = [] \<and> 65280 \<le> ring_room (js_q_head (j_status s))
   \<and> ring_wf (js_q_admitted_out (j_status s)) \<and> ring_list (js_q_admitted_out (j_status s)) = []
   \<and> SJF_BATCH_SIZE \<le> ring_room (js_q_admitted_out (j_status s)))"

lemma sjf_alloc_core_init_ok:
  assumes "\<forall>i. small i \<noteq> None" "\<forall>i. large i \<noteq> None"
  shows "wp (sjf_alloc_core_init core small large bi bo ui uo) (\<lambda>c. jc_q_bin_in c = bi \<and> jc_q_bin_out c = bo
    \<and> jc_q_urgent_in c = ui \<and> jc_q_urgent_out c = uo
    \<and> length (jc_new_request_bins c) = SJF_NUM_BINS \<and> (\<forall>b \<in> set (jc_new_request_bins c). jbin_list b = [])
    \<and> length (jc_outgoing_bins c) = SJF_NUM_BINS \<and> (\<forall>b \<in> set (jc_outgoing_bins c). \<exists>b'. b = Some b' \<and> jbin_list b' = [])
    \<and> length (jc_temporary_bins c) = SJF_NUM_BINS)"
proof -
  have "\<exists>b. small i = Some b" "\<exists>b. large i = Some b" for i
    using assms by blast+
  then have "\<exists>b. sjf_create_bin (small i) = Some b \<and> jbin_list b = []" "\<exists>b. sjf_create_bin (large i) = Some b \<and> jbin_list b = []" for i
    by (metis (full_types) jbin_list_init option.simps(9) sjf_create_bin_def)+
  then show ?thesis
    unfolding sjf_alloc_core_init_def by (simp add: image_iff) (metis option.distinct(1) option.sel)
qed

lemma sjf_benchmark_setup_ok:
  assumes m: "memory_ok mem" and b: "9 \<le> bin_shift" "bin_shift \<le> 31" and t: "7 \<le> out_shift" "out_shift \<le> 31"
  shows "wp (sjf_benchmark_setup bin_shift out_shift mem) sjf_fresh"
proof -
  obtain gb gu gh ga st f where g: "mm_q_bin mem = Some gb" "mm_q_urgent mem = Some gu" "mm_q_head mem = Some gh"
    "mm_q_admitted_out mem = Some ga" "mm_status mem = Some st" "mm_admitted mem = Some f" "\<forall>i. f i \<noteq> None"
    using m by (auto simp: memory_ok_def)
  have big: "2 ^ 9 \<le> (2 :: nat) ^ bin_shift" "2 ^ 7 \<le> (2 :: nat) ^ out_shift"
    using b t by (simp_all only: power_increasing)
  obtain qb where qb: "fp_ring_create bin_shift (Some gb) = Some qb" "ring_wf qb" "ring_list qb = []" "SJF_NUM_BINS \<le> ring_room qb"
    using wpD [OF fp_ring_create_ok [OF b(2), of gb]] big by (auto simp: SJF_NUM_BINS_def)
  obtain qu where qu: "fp_ring_create (2 * FP_NODES_SHIFT + 1) (Some gu) = Some qu" "ring_wf qu" "ring_list qu = []" "65282 \<le> ring_room qu"
    using wpD [OF fp_ring_create_ok [of "2 * FP_NODES_SHIFT + 1" gu]] by (auto simp: FP_NODES_SHIFT_def)
  obtain qh where qh: "fp_ring_create (2 * FP_NODES_SHIFT) (Some gh) = Some qh" "ring_wf qh" "ring_list qh = []" "65280 \<le> ring_room qh"
    using wpD [OF fp_ring_create_ok [of "2 * FP_NODES_SHIFT" gh]] by (auto simp: FP_NODES_SHIFT_def)
  obtain qa where qa: "fp_ring_create out_shift (Some ga) = Some qa" "ring_wf qa" "ring_list qa = []" "SJF_BATCH_SIZE \<le> ring_room qa"
    using wpD [OF fp_ring_create_ok [OF t(2), of ga]] big by (auto simp: SJF_BATCH_SIZE_def)
  from wpD [OF sjf_alloc_core_init_ok [of "mm_small_bins mem" "mm_large_bins mem" "mm_core mem" 0 0 0 0]]
  obtain c where c: "sjf_alloc_core_init (mm_core mem) (mm_small_bins mem) (mm_large_bins mem) 0 0 0 0 = Some c"
    "jc_q_bin_in c = 0" "jc_q_bin_out c = 0" "jc_q_urgent_in c = 0" "jc_q_urgent_out c = 0"
    "length (jc_new_request_bins c) = SJF_NUM_BINS" "\<forall>b \<in> set (jc_new_request_bins c). jbin_list b = []"
    "length (jc_outgoing_bins c) = SJF_NUM_BINS" "\<forall>b \<in> set (jc_outgoing_bins c). \<exists>b'. b = Some b' \<and> jbin_list b' = []"
    "length (jc_temporary_bins c) = SJF_NUM_BINS"
    using m unfolding memory_ok_def by auto
  obtain adm where adm: "sjf_create_admitted_batch (Some f) = Some adm" "length adm = SJF_BATCH_SIZE"
    using g(7) by (auto simp: sjf_create_admitted_batch_def sjf_create_admitted_traffic_def image_iff Let_def guard_o_def)
  obtain q where q: "foldo (\<lambda>i q. sjf_create_bin (mm_bins mem i) \<bind> fp_ring_enqueue q) [0..<SJF_NUM_BINS] qb = Some q"
    "ring_wf q" "length (ring_list q) = SJF_NUM_BINS" "\<forall>b \<in> set (ring_list q). jbin_list b = []" "ring_room q = ring_room qb"
    using wpD [OF fill_bins [OF qb(2-4), of mem]] m by (auto simp: memory_ok_def)
  show ?thesis
    using c adm q qb qu qh qa
    by (simp add: sjf_benchmark_setup_def g sjf_create_admissible_status_def sjf_fresh_def Let_def sjf_init_admissible_status_def)
qed

lemma sum_flows_none: "\<forall>x \<in> set xs. f x = {#} \<Longrightarrow> sum_list (map f xs) = {#}"
  by (induction xs) simp_all

text \<open>A ring with the token alone, and bins without flows: nothing is anywhere.\<close>

lemma no_places:
  assumes "\<forall>r \<in> set (j_bin_rings s). \<forall>b \<in> set (ring_list r). jbin_list b = []" "drained (length (news s)) s"
    "out_flows (jc_outgoing_bins (j_core s)) = {#}" "ring_list (js_q_head (j_status s)) = []"
    "\<forall>r \<in> set (j_urgent_rings s). \<forall>x \<in> set (ring_list r). x = URGENT_Q_HEAD_TOKEN"
  shows "places {} s = {#}"
proof -
  have "ring_flows r = {#}" if "r \<in> set (j_bin_rings s)" for r
    using assms(1) that unfolding ring_flows_def by (intro sum_flows_none) (simp add: bin_flows_def)
  moreover have "urgent_flows r = {#}" if "r \<in> set (j_urgent_rings s)" for r
    using assms(5) that by (simp add: urgent_flows_def filter_False)
  moreover have "set_mset (new_flows {} (news s)) = {}"
    using left_over_drained [OF assms(2)] by (simp add: left_over_def)
  ultimately show ?thesis
    using assms(3,4) by (simp add: places_def sum_flows_none head_flows_def)
qed

lemma sjf_benchmark_reset_ok:
  assumes f: "sjf_fresh s" and n: "num_nodes \<noteq> 0" "unat num_nodes \<le> 255"
  shows "wp (sjf_benchmark_reset num_nodes s) (\<lambda>s'. between {} [0..<SJF_BATCH_SIZE] s' \<and> left_over s' = {}
    \<and> js_num_nodes (j_status s') = num_nodes \<and> (\<forall>p. valid_flow (unat num_nodes) p \<longrightarrow> flow_backlog s' p = 0))"
proof -
  note f = f [unfolded sjf_fresh_def Let_def]
  obtain qb qu where q: "j_bin_rings s = [qb]" "ring_wf qb" "length (ring_list qb) = SJF_NUM_BINS" "SJF_NUM_BINS \<le> ring_room qb"
    "j_urgent_rings s = [qu]" "ring_wf qu" "65282 \<le> ring_room qu"
    using f by blast
  obtain qb' where qb': "foldo (\<lambda>k. sjf_reinit_bin) [0..<SJF_NUM_BINS] qb = Some qb'" "ring_wf qb'" "length (ring_list qb') = SJF_NUM_BINS"
    "\<forall>b \<in> set (ring_list qb'). jbin_list b = []" "ring_room qb' = ring_room qb"
    using wpD [OF reinit_bins [OF q(2-4)]] by blast
  obtain q1 where q1: "sjf_drain_urgent qu = Some q1" "ring_wf q1" "ring_list q1 = []" "ring_room q1 = ring_room qu"
    using wpD [OF drain_urgent [OF q(6)]] by blast
  have "ring_count q1 < ring_room q1"
    using q1 q(7) length_ring_list [of q1] by simp
  from wpD [OF fp_ring_enqueue_ok [OF q1(2) this, of URGENT_Q_HEAD_TOKEN]]
  obtain qu' where qu': "fp_ring_enqueue q1 URGENT_Q_HEAD_TOKEN = Some qu'" "ring_wf qu'" "ring_list qu' = [URGENT_Q_HEAD_TOKEN]"
    "ring_room qu' = ring_room qu"
    by (auto simp: q1)
  define s' where "s' = s\<lparr> j_status := sjf_reset_admissible_status (j_status s) False 0 0 num_nodes,
    j_bin_rings := [qb'], j_urgent_rings := [qu'] \<rparr>"
  have eq: "sjf_benchmark_reset num_nodes s = Some s'"
    using f by (simp add: sjf_benchmark_reset_def guard_o_def q qb'(1) q1(1) qu'(1) s'_def)
  have bl: "flow_backlog s' p = 0" if "valid_flow (unat num_nodes) p" for p
    using valid_index(2) [OF that n(2)] by (simp add: flow_backlog_def s'_def sjf_reset_admissible_status_def fill_upto_def)
  have len: "length (news s') = SJF_NUM_BINS" "length (jc_outgoing_bins (j_core s')) = SJF_NUM_BINS"
    and dr: "drained (length (news s')) s'"
    using f by (simp_all add: s'_def drained_def)
  have out: "\<exists>b. jc_outgoing_bins (j_core s') ! i = Some b \<and> jbin_list b = []" if "i < SJF_NUM_BINS" for i
    using f that by (simp add: s'_def)
  then have oz: "out_flows (jc_outgoing_bins (j_core s')) = {#}"
    using len by (intro out_flows_none) auto
  have pl: "places {} s' = {#}"
    using qb'(4) qu'(3) f by (intro no_places dr oz) (simp_all add: s'_def sjf_reset_admissible_status_def)
  have st: "stream [] s' = ring_list qb'"
    using f by (simp add: stream_def s'_def)
  have "at_least s' i b" if "jbin_list b = []" for i b
    using that by (simp add: at_least_def bin_flows_def)
  then have lv: "level_inv UNIV 0 [] s'"
    using out qb'(4) qu'(3) unfolding level_inv_def st by (fastforce simp: s'_def urgent_ok_def)
  have rm: "room_inv 0 0 [] s'"
    using f q qb' qu' out unfolding room_inv_def Let_def st
    by (auto simp: s'_def sjf_reset_admissible_status_def tokens_def)
  let ?K = "\<lparr> kx_nodes = unat num_nodes, kx_lost = {}, kx_total = \<lambda>p. unat (flow_backlog s' p), kx_closed = 0, kx_sent = \<lambda>_. [],
    kx_config = sjf_config (j_status s') \<rparr>"
  have "held ?K (flow_backlog s') (places {} s' + script_flows [])"
    using bl by (simp add: held_def pl script_flows_def)
  moreover have "unat (flow_backlog s' p) < 4294967296" for p
    using unsigned_less [of "flow_backlog s' p"] by simp
  moreover have "\<exists>us. ring_list (j_urgent_rings s' ! jc_q_urgent_in (j_core s')) = us @ [URGENT_Q_HEAD_TOKEN] \<and> URGENT_Q_HEAD_TOKEN \<notin> set us"
    using f by (simp add: s'_def qu'(3))
  moreover have "js_num_nodes (j_status s') = num_nodes" "jc_q_urgent_in (j_core s') = jc_q_urgent_out (j_core s')"
    using f by (simp_all add: s'_def sjf_reset_admissible_status_def)
  moreover have "0 < unat num_nodes"
    using n(1) by (simp add: unat_gt_0)
  ultimately have "sjf_ready ?K [] s'"
    unfolding sjf_ready_def using n(2) lv rm oz by (simp add: script_ok_def requested_def)
  moreover have "single_core s'" "admitted_ok [0..<SJF_BATCH_SIZE] s'" "sent_list s' = []"
    "SJF_BATCH_SIZE \<le> ring_room (js_q_admitted_out (j_status s'))" "js_num_nodes (j_status s') = num_nodes"
    using f by (simp_all add: s'_def single_core_def admitted_ok_def sjf_reset_admissible_status_def)
  ultimately show ?thesis
    using bl left_over_drained [OF dr] unfolding eq wp_Some between_def by (intro conjI exI [of _ ?K]) simp_all
qed

end
