(* ===== verification/FP_Sjf_Props.thy ===== *)
theory FP_Sjf_Props
  imports FP_Sjf_Setup
begin

unbundle bit_operations_syntax

text \<open>
  The properties of the shortest-job-first allocator: every timeslot of a batch is a matching
  within the capacities; a batch accounts for every grant and says where the flows with backlog
  are; a timeslot that was sent out does not change; a request that arrives while the timeslots
  of a batch are sent out is lost for ever; the benchmark counts what it admits, and stops with
  the sizes its rings have.
\<close>

subsection \<open>A request that comes late\<close>

lemma late_poll:
  assumes q: "quiet u" and room: "0 < ring_room (js_q_head (j_status u))" and v: "valid_flow N (src, dst)" "N \<le> 255"
    and z: "flow_backlog u (src, dst) = 0" and n: "n \<noteq> 0" "unat n \<le> 256" and len: "length (news u) = SJF_NUM_BINS"
  shows "\<exists>u'. sjf_poll [Request src dst n] 0 u = Some u' \<and> quiet u'
    \<and> news u' = (news u)[unat n - 1 := sjf_enqueue_bin (news u ! (unat n - 1)) src dst]"
proof -
  let ?i = "sjf_status_index src dst" and ?e = "MAKE_EDGE 0 src dst" and ?st = "j_status u"
  have i: "?i < SJF_NUM_SRC_DST_PAIRS" and f0: "js_flows ?st ?i = 0" and lt: "unat src < MAX_NODES" "unat dst < MAX_NODES"
    using valid_index(2) [OF v] valid_flow_lt [OF v] z by (simp_all add: flow_backlog_def MAX_NODES_def)
  have hd: "ring_wf (js_q_head ?st)" "ring_list (js_q_head ?st) = []" "jc_is_head (j_core u) \<noteq> 0"
    using q by (simp_all add: quiet_def)
  then have "ring_count (js_q_head ?st) < ring_room (js_q_head ?st)"
    using room length_ring_list [of "js_q_head ?st"] by simp
  from wpD [OF fp_ring_enqueue_ok [OF hd(1) this, of ?e]] obtain q1 where q1: "fp_ring_enqueue (js_q_head ?st) ?e = Some q1"
    "ring_wf q1" "ring_list q1 = [?e]"
    by (auto simp: hd)
  let ?st1 = "?st\<lparr> js_flows := (js_flows ?st)(?i := ucast n), js_q_head := q1 \<rparr>"
  have ev: "sjf_event_step (Request src dst n) u = Some (u\<lparr> j_status := ?st1 \<rparr>)"
    using i by (simp add: sjf_event_step_def sjf_add_backlog_def sjf_add_backlog_no_enqueue_def guard_o_def Let_def f0 q1(1))
  from wpD [OF fp_ring_dequeue_burst_ok [OF q1(2), of SJF_BURST_SIZE]]
  obtain q2 where q2: "fp_ring_dequeue_burst q1 SJF_BURST_SIZE = Some ([?e], q2)" "ring_wf q2" "ring_list q2 = []"
    using q1(3) by (auto simp: SJF_BURST_SIZE_def)
  let ?u1 = "u\<lparr> j_status := ?st1\<lparr> js_q_head := q2 \<rparr> \<rparr>"
  define u' where "u' = upd_core (\<lambda>c. c\<lparr> jc_new_request_bins := (jc_new_request_bins c)
    [unat n - 1 := sjf_enqueue_bin (jc_new_request_bins c ! (unat n - 1)) src dst] \<rparr>) ?u1"
  have un: "unat (ucast n :: u32) = unat n" "(0 :: u32) < ucast n"
    using n(1) by (simp_all add: unat_ucast_u16_u32 word_less_nat_alt unat_gt_0)
  have "sjf_process_head_edge 0 ?e ?u1 = Some u'"
    using lt n un len by (simp add: sjf_process_head_edge_def sjf_bin_index_from_src_dst_def guard_o_def Let_def
        sjf_process_one_new_request_def SJF_NUM_BINS_def u'_def)
  moreover have "quiet u'" "news u' = (news u)[unat n - 1 := sjf_enqueue_bin (news u ! (unat n - 1)) src dst]"
    using q2 hd by (simp_all add: quiet_def u'_def upd_core_def)
  moreover then have "sjf_process_head 0 u' = Some u'"
    by (intro process_head_empty) (simp_all add: quiet_def)
  ultimately show ?thesis
    using hd(3) q2(1) by (simp add: sjf_poll_def ev sjf_process_new_requests_def sjf_process_head.simps [of 0 "u\<lparr> j_status := ?st1 \<rparr>"]
        upd_status_def)
qed

lemma requested_append: "requested (xs @ ys) p = requested xs p + requested ys p"
  by (simp add: requested_def)

lemma late_output:
  assumes q: "quiet u'" "sjf_poll evs 0 u = Some u'"
    and eq: "foldo (sjf_output_step first_timeslot now) [0..<64] ([evs], u) = Some (script', v)" "first_timeslot \<le> now"
  shows "script' = []" "news v = news u'"
proof -
  have up: "[0..<64] = 0 # [Suc 0..<64]"
    by (simp add: upt_conv_Cons)
  obtain x where x: "sjf_output_step first_timeslot now 0 ([evs], u) = Some x"
    "foldo (sjf_output_step first_timeslot now) [Suc 0..<64] x = Some (script', v)"
    using eq(1) unfolding up by (auto elim!: some_bindE)
  have "fst x = [] \<and> quiet (snd x) \<and> news (snd x) = news u'"
    using x(1) q eq(2) by (auto simp: sjf_output_step_def sjf_pace_round_def sjf_send_admitted_def quiet_def
        upd_stat_def upd_core_def upd_status_def split: if_splits elim!: some_bindE)
  then show "script' = []" "news v = news u'"
    using quiet_output [of "snd x"] x(2) by (metis prod.collapse)+
qed

lemma late_request:
  assumes r: "sjf_ready K [evs, [Request src dst n]] s" and a: "admitted_ok admitted s" and t: "on_time first_timeslot tslot_mul tslot_shift"
    and room: "room_out s" and sc: "single_core s"
    and z: "flow_backlog s (src, dst) = 0" "requested [evs] (src, dst) = 0" and n: "unat n \<le> 255"
    and eq: "sjf_get_admissible_traffic admitted first_timeslot tslot_mul tslot_shift [evs, [Request src dst n]] s = Some (script', s')"
  shows "script' = []" "(src, dst) \<in> left_over s'"
proof -
  let ?late = "[Request src dst n]" and ?K = "after_reset K s"
  have "script_ok (kx_nodes K) [evs, ?late]" and n255: "kx_nodes K \<le> 255"
    using r unfolding sjf_ready_def by blast+
  then have v: "valid_flow (kx_nodes K) (src, dst)" "n \<noteq> 0" "kx_nodes K \<le> 255"
    by (simp_all add: script_ok_def)
  have tot: "unat (flow_backlog s (src, dst)) + requested [evs, ?late] (src, dst) = kx_total K (src, dst)"
    using r v(1) unfolding sjf_ready_def by blast
  obtain u v where u: "jinv ?K {} SJF_NUM_BINS 192 [?late] {#} u" "begun admitted s u" "ring_list (js_q_head (j_status u)) = []"
      "drained SJF_NUM_BINS u"
    and v': "foldo (sjf_output_step first_timeslot (sjf_now_timeslot tslot_mul tslot_shift)) [0..<64] ([?late], u) = Some (script', v)"
    and e: "ended ?K script' v s'"
    by (rule sjf_batch_parts [OF r a t room]) (use sc eq in \<open>auto simp: single_core_def\<close>)
  have q: "quiet u" and hr: "0 < ring_room (js_q_head (j_status u))" and len: "length (news u) = SJF_NUM_BINS"
    using u by (simp_all add: quiet_def jinv_def room_simps begun_def)
  have "unat (flow_backlog u (src, dst)) + grants u (src, dst) + requested [?late] (src, dst) = kx_total ?K (src, dst)"
    using u(1) v(1) unfolding jinv_def flow_inv_def by force
  then have zu: "flow_backlog u (src, dst) = 0"
    using tot z requested_append [of "[evs]" "[?late]" "(src, dst)"] by (simp add: unat_eq_zero)
  obtain u' where u': "sjf_poll ?late 0 u = Some u'" "quiet u'"
    "news u' = (news u)[unat n - 1 := sjf_enqueue_bin (news u ! (unat n - 1)) src dst]"
    using late_poll [OF q hr v(1,3) zu v(2) _ len] n by auto
  have "first_timeslot \<le> sjf_now_timeslot tslot_mul tslot_shift"
    using t unfolding on_time_def SJF_BATCH_SIZE_def by (auto dest: spec [of _ 0])
  note o = late_output [OF u'(2,1) v' this]
  show "script' = []"
    by (rule o(1))
  obtain nb where nb: "news s' = (news v)[SJF_NUM_BINS - 1 := nb]"
    using e unfolding ended_def by blast
  let ?b = "news u ! (unat n - 1)"
  have i: "unat n - 1 < SJF_NUM_BINS - 1"
    using n v(2) by (simp add: SJF_NUM_BINS_def unat_gt_0)
  have "jbin_list ?b = []"
    using u(4) i by (simp add: drained_def)
  then have "length (jbin_list ?b) < 65535"
    by (simp only: list.size)
  from bin_flows_enqueue [OF this, of src dst] have "(src, dst) \<in># bin_flows (news s' ! (unat n - 1))"
    using i len by (simp add: nb o(2) u'(3))
  then show "(src, dst) \<in> left_over s'"
    using i len unfolding left_over_conv mem_Collect_eq by (intro exI [of _ "unat n - 1"]) (simp add: nb o(2) u'(3))
qed

text \<open>Later rounds: what is lost stays lost.\<close>

definition rounds_fit :: "sjf_script list \<Rightarrow> sjf \<Rightarrow> bool" where
  "rounds_fit scripts s \<longleftrightarrow> (let n = unat (js_num_nodes (j_status s)) in
     (\<forall>script \<in> set scripts. script_ok n script \<and> script_bins script = [])
   \<and> (\<forall>p. valid_flow n p \<longrightarrow> unat (flow_backlog s p) + requested (concat scripts) p < 4294967296))"

lemma rounds_fit_head: "rounds_fit (script # scripts) s \<Longrightarrow> requests_fit script s"
  unfolding rounds_fit_def requests_fit_def Let_def by (fastforce simp: requested_append)

lemma rounds_fit_tail:
  assumes f: "rounds_fit (script # scripts) s" and r: "round_done batch script s script' s'"
  shows "rounds_fit scripts s'"
proof -
  have n: "js_num_nodes (j_status s') = js_num_nodes (j_status s)"
    using r by (simp add: round_done_def)
  have "unat (flow_backlog s' p) + requested (concat scripts) p < 4294967296"
    if "valid_flow (unat (js_num_nodes (j_status s))) p" for p
  proof -
    have "unat (flow_backlog s' p) + grants s' p + requested script' p = unat (flow_backlog s p) + requested script p"
      "unat (flow_backlog s p) + requested (concat (script # scripts)) p < 4294967296"
      using r f that unfolding rounds_fit_def Let_def round_done_def by blast+
    then show ?thesis
      by (simp add: requested_append)
  qed
  then show ?thesis
    using f unfolding rounds_fit_def Let_def n by simp
qed

lemma rounds_lose:
  "between L batch s \<Longrightarrow> rounds_fit scripts s \<Longrightarrow> p \<in> L \<union> left_over s \<Longrightarrow> scripts \<noteq> [] \<Longrightarrow>
    wp (foldo sjf_round scripts (num, batch, s)) (\<lambda>(num', batch', s'). batch' = batch
      \<and> flow_backlog s' p \<noteq> 0 \<and> grants s' p = 0 \<and> p \<notin># places {} s')"
proof (induction scripts arbitrary: L num s)
  case (Cons script scripts)
  from wpD [OF sjf_round_ok [OF Cons.prems(1) rounds_fit_head [OF Cons.prems(2)], of num]]
  obtain num' s' script' where r: "sjf_round script (num, batch, s) = Some (num', batch, s')" "between (L \<union> left_over s) batch s'"
    "\<forall>p \<in> L \<union> left_over s. flow_backlog s' p \<noteq> 0 \<and> grants s' p = 0 \<and> p \<notin># places {} s'" "round_done batch script s script' s'"
    by (auto simp only: split_paired_Ex prod.case)
  have "p \<in> L \<union> left_over s \<union> left_over s'"
    using Cons.prems(3) by blast
  note IH = Cons.IH [OF r(2) rounds_fit_tail [OF Cons.prems(2) r(4)] this, of num']
  show ?case
    using IH r(3) Cons.prems(3) by (cases "scripts = []") (simp_all add: r(1))
qed simp

subsection \<open>A system to start from\<close>

text \<open>The set-up of the benchmark with rings that are large enough, for four nodes.\<close>

definition demo_sjf_bin :: sjf_bin where
  "demo_sjf_bin = \<lparr> jn_head = 0, jn_tail = 0, jn_edges = \<lambda>_. \<lparr> je_src = 0, je_dst = 0 \<rparr> \<rparr>"

definition demo_memory :: sjf_memory where
  "demo_memory = \<lparr> mm_q_bin = Some (\<lambda>_. demo_sjf_bin), mm_q_urgent = Some (\<lambda>_. 0), mm_q_head = Some (\<lambda>_. 0), mm_q_admitted_out = Some (\<lambda>_. 0),
     mm_core = \<lparr> jc_new_request_bins = [], jc_outgoing_bins = [], jc_temporary_bins = [],
       jc_batch_state = \<lparr> jb_oversubscribed = False, jb_inter_rack_capacity = 0, jb_out_of_boundary_capacity = 0, jb_allowed_mask = 0,
         jb_src_endnodes = \<lambda>_. 0, jb_dst_endnodes = \<lambda>_. 0, jb_src_rack_bitmaps = \<lambda>_. 0, jb_dst_rack_bitmaps = \<lambda>_. 0,
         jb_src_rack_counts = \<lambda>_. 0, jb_dst_rack_counts = \<lambda>_. 0, jb_out_of_boundary_counts = \<lambda>_. 0 \<rparr>,
       jc_admitted = [], jc_is_head = 0, jc_q_bin_in = 0, jc_q_bin_out = 0, jc_q_urgent_in = 0, jc_q_urgent_out = 0 \<rparr>,
     mm_small_bins = \<lambda>_. Some demo_sjf_bin, mm_large_bins = \<lambda>_. Some demo_sjf_bin,
     mm_status = Some \<lparr> js_current_timeslot = 0, js_oversubscribed = False, js_out_of_boundary_capacity = 0, js_inter_rack_capacity = 0,
       js_num_nodes = 0, js_last_alloc_tslot = \<lambda>_. 0, js_flows = \<lambda>_. 0,
       js_q_head = \<lparr> ring_head = 0, ring_tail = 0, ring_mask = 0, ring_elem = [] \<rparr>,
       js_q_admitted_out = \<lparr> ring_head = 0, ring_tail = 0, ring_mask = 0, ring_elem = [] \<rparr>,
       js_stat = \<lparr> jw_space_in_q_head = 0, jw_space_in_q_urgent = 0, jw_space_in_q_admitted_out = 0, jw_space_in_q_bin_out = 0,
         jw_waiting_to_pass_token = 0, jw_pacing_wait = 0, jw_wait_for_q_bin_in = 0 \<rparr> \<rparr>,
     mm_admitted = Some (\<lambda>_. Some \<lparr> ja_size = 0, ja_edges = \<lambda>_. \<lparr> je_src = 0, je_dst = 0 \<rparr> \<rparr>), mm_bins = \<lambda>_. Some demo_sjf_bin \<rparr>"

definition demo_sjf :: sjf where
  "demo_sjf = the (sjf_benchmark_setup 9 7 demo_memory \<bind> sjf_benchmark_reset 4)"

abbreviation demo_batch :: "nat list" where
  "demo_batch \<equiv> [0..<SJF_BATCH_SIZE]"

lemma demo_sjf_ok:
  "between {} demo_batch demo_sjf" "left_over demo_sjf = {}" "js_num_nodes (j_status demo_sjf) = 4"
  "\<forall>p. valid_flow 4 p \<longrightarrow> flow_backlog demo_sjf p = 0"
proof -
  have "memory_ok demo_memory"
    by (simp add: memory_ok_def demo_memory_def)
  then obtain s where s: "sjf_benchmark_setup 9 7 demo_memory = Some s" "sjf_fresh s"
    using wpD [OF sjf_benchmark_setup_ok [of demo_memory 9 7]] by auto
  from wpD [OF sjf_benchmark_reset_ok [OF s(2), of 4]]
  show "between {} demo_batch demo_sjf" "left_over demo_sjf = {}" "js_num_nodes (j_status demo_sjf) = 4"
    "\<forall>p. valid_flow 4 p \<longrightarrow> flow_backlog demo_sjf p = 0"
    by (auto simp: demo_sjf_def s(1))
qed

lemma demo_fits:
  assumes "\<forall>script \<in> set scripts. script_ok 4 script \<and> script_bins script = []" "\<forall>p. requested (concat scripts) p < 4294967296"
  shows "rounds_fit scripts demo_sjf"
  using assms demo_sjf_ok(4) unfolding rounds_fit_def Let_def by (simp add: demo_sjf_ok(3))

lemma demo_ready: "\<exists>K. sjf_ready K [[Request 1 2 3]] demo_sjf" "admitted_ok demo_batch demo_sjf" "room_out demo_sjf"
proof -
  have "rounds_fit [[[Request 1 2 3]]] demo_sjf"
    by (rule demo_fits) (simp_all add: script_ok_def script_bins_def requested_def valid_flow_def)
  note f = rounds_fit_head [OF this]
  show "\<exists>K. sjf_ready K [[Request 1 2 3]] demo_sjf"
    using demo_sjf_ok(1) ready_script [OF _ f] unfolding between_def by blast
  show "admitted_ok demo_batch demo_sjf" "room_out demo_sjf"
    using demo_sjf_ok(1) length_ring_list [of "js_q_admitted_out (j_status demo_sjf)"] by (auto simp: between_def room_out_def)
qed

subsection \<open>A batch\<close>

definition slot_matching :: "sjf_status \<Rightarrow> sjf_edge list \<Rightarrow> bool" where
  "slot_matching st es \<longleftrightarrow> (\<forall>e \<in> set es. valid_flow (unat (js_num_nodes st)) (jpair e))
     \<and> distinct (map je_src es) \<and> distinct (map je_dst (filter (\<lambda>e. \<not> outside e) es))
     \<and> (js_out_of_boundary_capacity st \<noteq> 0 \<longrightarrow> load outside es \<le> unat (js_out_of_boundary_capacity st))
     \<and> (js_oversubscribed st \<and> js_inter_rack_capacity st \<noteq> 0 \<longrightarrow> (\<forall>r < MAX_RACKS.
          load (\<lambda>e. sjf_rack (je_src e) = r) es \<le> unat (js_inter_rack_capacity st)
        \<and> load (\<lambda>e. \<not> outside e \<and> sjf_rack (je_dst e) = r) es \<le> unat (js_inter_rack_capacity st)))"

lemma slots_inv_matching:
  assumes "slots_inv K s'" "kx_nodes K = unat (js_num_nodes st)" "kx_config K = sjf_config st" "p \<in> set (jc_admitted (j_core s'))"
  shows "slot_matching st (ja_list (j_admitted s' ! p))"
proof -
  obtain t where t: "t < 64" "p = jc_admitted (j_core s') ! t"
    using assms(1,4) by (auto simp: slots_inv_def Let_def in_set_conv_nth SJF_BATCH_SIZE_def)
  have so: "sjf_slot_ok (kx_nodes K) (j_batch s') t (slot_edges s' t)"
    and c: "jb_oversubscribed (j_batch s') = js_oversubscribed st" "jb_inter_rack_capacity (j_batch s') = js_inter_rack_capacity st"
      "jb_out_of_boundary_capacity (j_batch s') = js_out_of_boundary_capacity st"
    using assms(1,3) t(1) unfolding slots_inv_def Let_def sjf_config_def by auto
  have "slot_edges s' t = ja_list (j_admitted s' ! p)"
    by (simp add: slot_edges_def t(2))
  then show ?thesis
    using so unfolding sjf_slot_ok_def ends_ok_def boundary_ok_def racks_ok_def cap_ok_def slot_matching_def c assms(2) by simp
qed

text \<open>
  C9. A batch of the shortest-job-first allocator, started in a state that is ready and with
  timeslots that are due, returns whatever requests and bins arrive during it. It puts the given
  64 structures into \<^verbatim>\<open>q_admitted_out\<close> in their order, and each of them is a matching: no source
  twice, no destination twice except the node that stands for the world outside, only flows
  between configured nodes; the traffic to the outside stays within its capacity, and the traffic
  of every rack within the capacity between racks when the network is oversubscribed (a capacity
  of 0 means none is set).
\<close>

theorem sjf_batch_matching:
  assumes "sjf_ready K script s" "admitted_ok admitted s" "on_time first_timeslot tslot_mul tslot_shift" "room_out s"
  shows "\<exists>script' s'. sjf_get_admissible_traffic admitted first_timeslot tslot_mul tslot_shift script s = Some (script', s')
    \<and> ring_list (js_q_admitted_out (j_status s')) = ring_list (js_q_admitted_out (j_status s)) @ admitted
    \<and> (\<forall>p \<in> set admitted. slot_matching (j_status s) (ja_list (j_admitted s' ! p)))"
proof -
  obtain script' s' where s': "sjf_get_admissible_traffic admitted first_timeslot tslot_mul tslot_shift script s = Some (script', s')"
    "after_batch (after_reset K s) admitted s script' s'"
    using wpD [OF sjf_batch_ok [OF assms]] by auto
  have "kx_nodes (after_reset K s) = unat (js_num_nodes (j_status s))" "kx_config (after_reset K s) = sjf_config (j_status s)"
    using assms(1) unfolding sjf_ready_def by simp_all
  then show ?thesis
    using s' slots_inv_matching [of "after_reset K s" s' "j_status s"] by (auto simp: after_batch_def)
qed

theorem sjf_batch_matching_witness:
  "\<exists>K script' s'. sjf_ready K [[Request 1 2 3]] demo_sjf
    \<and> sjf_get_admissible_traffic demo_batch 0 1 0 [[Request 1 2 3]] demo_sjf = Some (script', s')
    \<and> ring_list (js_q_admitted_out (j_status s')) = ring_list (js_q_admitted_out (j_status demo_sjf)) @ demo_batch
    \<and> (\<forall>p \<in> set demo_batch. slot_matching (j_status demo_sjf) (ja_list (j_admitted s' ! p)))"
  using demo_ready(1) sjf_batch_matching [OF _ demo_ready(2) on_time_benchmark demo_ready(3)] by blast

text \<open>
  C24. A batch accounts for what it does: for every flow, the backlog afterwards, the timeslots
  granted in the batch and the requests that did not arrive in it add up to the backlog before
  and all requests. A flow with backlog is in exactly one bin or queue (of this core, or in a bin
  still to arrive), unless it is lost; the lost flows are those that were lost before and those
  that the last batch left in the new-request bins; they get no timeslot.
\<close>

theorem sjf_batch_accounts:
  assumes "sjf_ready K script s" "admitted_ok admitted s" "on_time first_timeslot tslot_mul tslot_shift" "room_out s"
  shows "\<exists>script' s'. sjf_get_admissible_traffic admitted first_timeslot tslot_mul tslot_shift script s = Some (script', s')
    \<and> (\<forall>p. valid_flow (unat (js_num_nodes (j_status s))) p \<longrightarrow>
         unat (flow_backlog s' p) + grants s' p + requested script' p = unat (flow_backlog s p) + requested script p
       \<and> count (places {} s' + script_flows script') p = (if flow_backlog s' p \<noteq> 0 \<and> p \<notin> kx_lost K \<union> left_over s then 1 else 0))
    \<and> (\<forall>p \<in> kx_lost K \<union> left_over s. flow_backlog s' p \<noteq> 0 \<and> grants s' p = 0)"
proof -
  let ?n = "unat (js_num_nodes (j_status s))"
  obtain script' s' where s': "sjf_get_admissible_traffic admitted first_timeslot tslot_mul tslot_shift script s = Some (script', s')"
    "after_batch (after_reset K s) admitted s script' s'"
    using wpD [OF sjf_batch_ok [OF assms]] by auto
  have n: "kx_nodes K = ?n" and tot: "\<forall>p. valid_flow (kx_nodes K) p \<longrightarrow> unat (flow_backlog s p) + requested script p = kx_total K p"
    using assms(1) unfolding sjf_ready_def by blast+
  have kn: "kx_nodes (after_reset K s) = ?n"
    by (simp add: n)
  have fi: "flow_inv (after_reset K s) {} script' {#} s'"
    using s'(2) by (simp add: after_batch_def)
  have "unat (flow_backlog s' p) + grants s' p + requested script' p = unat (flow_backlog s p) + requested script p"
    "count (places {} s' + script_flows script') p = (if flow_backlog s' p \<noteq> 0 \<and> p \<notin> kx_lost K \<union> left_over s then 1 else 0)"
    if "valid_flow ?n p" for p
  proof -
    have "unat (flow_backlog s' p) + grants s' p + requested script' p = kx_total (after_reset K s) p"
      "count ({#} + places {} s' + script_flows script') p
        = (if valid_flow ?n p \<and> flow_backlog s' p \<noteq> 0 \<and> p \<notin> kx_lost (after_reset K s) then 1 else 0)"
      using fi that unfolding flow_inv_def held_def kn by blast+
    then show "unat (flow_backlog s' p) + grants s' p + requested script' p = unat (flow_backlog s p) + requested script p"
      "count (places {} s' + script_flows script') p = (if flow_backlog s' p \<noteq> 0 \<and> p \<notin> kx_lost K \<union> left_over s then 1 else 0)"
      using tot [rule_format, unfolded n, OF that] by (simp_all add: that)
  qed
  then show ?thesis
    using s'(1) flow_inv_lost [OF fi] by auto
qed

theorem sjf_batch_accounts_witness:
  "\<exists>K script' s'. sjf_ready K [[Request 1 2 3]] demo_sjf
    \<and> sjf_get_admissible_traffic demo_batch 0 1 0 [[Request 1 2 3]] demo_sjf = Some (script', s')
    \<and> unat (flow_backlog s' (1, 2)) + grants s' (1, 2) + requested script' (1, 2) = 3"
proof -
  obtain K where K: "sjf_ready K [[Request 1 2 3]] demo_sjf"
    using demo_ready(1) by blast
  have "valid_flow 4 (1, 2)" "flow_backlog demo_sjf (1, 2) = 0" "requested [[Request 1 2 3]] (1, 2) = 3"
    using demo_sjf_ok(4) by (simp_all add: valid_flow_def requested_def)
  then show ?thesis
    using K sjf_batch_accounts [OF K demo_ready(2) on_time_benchmark demo_ready(3)] by (auto simp: demo_sjf_ok(3))
qed

lemma jinv_close:
  assumes "jb_allowed_mask (j_batch s) = mask_from k" "k \<le> 64" "jinv K B i m script X s"
  shows "jinv (K\<lparr> kx_closed := k, kx_sent := slot_edges s \<rparr>) B i m script X s"
proof -
  let ?K = "K\<lparr> kx_closed := k, kx_sent := slot_edges s \<rparr>"
  have "flow_inv ?K B script X s = flow_inv K B script X s"
    by (simp add: flow_inv_def held_def)
  moreover have "slots_inv ?K s"
    using assms unfolding jinv_def slots_inv_def Let_def by (auto simp: mask_from_bit)
  ultimately show ?thesis
    using assms(3) by (simp add: jinv_def)
qed

text \<open>
  C8. A timeslot whose structure was put into \<^verbatim>\<open>q_admitted_out\<close> is final: the core that runs the
  batch keeps the pointer, and requests that arrive later in the batch are still allocated, but
  what the first \<^verbatim>\<open>k\<close> structures hold when the \<^verbatim>\<open>k\<close>-th was sent out is what they hold at the end of
  the batch.
\<close>

theorem sjf_sent_final:
  assumes "sjf_ready K script s" "admitted_ok admitted s" "on_time first_timeslot tslot_mul tslot_shift" "room_out s"
    and "k \<le> SJF_BATCH_SIZE" "sjf_begin admitted script s = Some x"
    "foldo (sjf_output_step first_timeslot (sjf_now_timeslot tslot_mul tslot_shift)) [0..<k] x = Some (script1, v)"
  shows "\<exists>script' s'. sjf_get_admissible_traffic admitted first_timeslot tslot_mul tslot_shift script s = Some (script', s')
    \<and> (\<forall>t < k. ja_list (j_admitted s' ! (admitted ! t)) = ja_list (j_admitted v ! (admitted ! t)))"
proof -
  let ?now = "sjf_now_timeslot tslot_mul tslot_shift" and ?K = "after_reset K s"
  have k: "k \<le> 64"
    using assms(5) by (simp add: SJF_BATCH_SIZE_def)
  have due: "first_timeslot + of_nat i \<le> ?now" if "i < 64" "i mod 4 = 0" for i
    using assms(3) that by (simp add: on_time_def SJF_BATCH_SIZE_def)
  obtain sc u sc' v' s' where u: "x = (sc, u)" "jinv ?K {} SJF_NUM_BINS 192 sc {#} u" "begun admitted s u"
    and v': "foldo (sjf_output_step first_timeslot ?now) [0..<64] (sc, u) = Some (sc', v')"
    and e: "tokens (urgent_out v') = 0"
      "sjf_get_admissible_traffic admitted first_timeslot tslot_mul tslot_shift script s = Some (sc', s')" "sjf_finish v' = Some s'"
    by (rule sjf_batch_parts [OF assms(1-4)]) (use assms(6) in auto)
  have b: "jc_is_head (j_core u) \<noteq> 0" "jb_allowed_mask (j_batch u) = mask_from 0" "temps_filled SJF_NUM_BINS u"
    "jc_admitted (j_core u) = admitted" and room: "ring_count (js_q_admitted_out (j_status u)) + 64 \<le> ring_room (js_q_admitted_out (j_status u))"
    using u(3) assms(4) by (simp_all add: begun_def room_out_def SJF_BATCH_SIZE_def)
  have len: "length admitted = 64"
    using assms(2) by (simp add: admitted_ok_def SJF_BATCH_SIZE_def)
  have v: "jinv ?K {} SJF_NUM_BINS 192 script1 {#} v" "outing u v" "jb_allowed_mask (j_batch v) = mask_from k"
    "sent_list v = sent_list u @ take k admitted"
    using wpD [OF sjf_output_loop_ok [OF u(2) b(1) due, of 0 k]] room b k assms(7) unfolding u(1) by auto
  have ov: "jc_is_head (j_core v) \<noteq> 0" "jc_admitted (j_core v) = admitted"
    "ring_room (js_q_admitted_out (j_status v)) = ring_room (js_q_admitted_out (j_status u))"
    using v(2) b by (simp_all add: outing_def)
  let ?K' = "?K\<lparr> kx_closed := k, kx_sent := slot_edges v \<rparr>"
  note iv = jinv_close [OF v(3) k v(1)]
  have rv: "ring_count (js_q_admitted_out (j_status v)) + (64 - k) \<le> ring_room (js_q_admitted_out (j_status v))"
    using room k len length_ring_list [of "js_q_admitted_out (j_status v)"] ov(3) by (simp add: v(4))
  have "foldo (sjf_output_step first_timeslot ?now) [k..<64] (script1, v) = Some (sc', v')"
    using v' assms(7) k upt_add_eq_append [of 0 k "64 - k"] unfolding u(1) by (simp add: foldo_append)
  then have w: "jinv ?K' {} SJF_NUM_BINS 192 sc' {#} v'" "outing v v'"
    using wpD [OF sjf_output_loop_ok [OF iv ov(1) due k order.refl rv v(3)]] by simp_all
  then have "temps_filled SJF_NUM_BINS v'" "jc_admitted (j_core v') = admitted"
    using b v(2) by (simp_all add: outing_def temps_filled_def)
  then have "slots_inv ?K' s'" "jc_admitted (j_core s') = admitted"
    using wpD [OF sjf_finish_ok [OF w(1) e(1)]] e(3) by (simp_all add: ended_def)
  then have "slot_edges s' t = slot_edges v t" if "t < k" for t
    using that by (simp add: slots_inv_def Let_def)
  then show ?thesis
    using e(2) \<open>jc_admitted (j_core s') = admitted\<close> ov(2) by (simp add: slot_edges_def)
qed

theorem sjf_sent_final_witness:
  "\<exists>x script1 v script' s'. sjf_begin demo_batch [[Request 1 2 3]] demo_sjf = Some x
    \<and> foldo (sjf_output_step 0 (sjf_now_timeslot 1 0)) [0..<64] x = Some (script1, v)
    \<and> sjf_get_admissible_traffic demo_batch 0 1 0 [[Request 1 2 3]] demo_sjf = Some (script', s')
    \<and> (\<forall>t < 64. ja_list (j_admitted s' ! (demo_batch ! t)) = ja_list (j_admitted v ! (demo_batch ! t)))"
proof -
  obtain K where K: "sjf_ready K [[Request 1 2 3]] demo_sjf"
    using demo_ready(1) by blast
  obtain x script1 v where x: "sjf_begin demo_batch [[Request 1 2 3]] demo_sjf = Some x"
    "foldo (sjf_output_step 0 (sjf_now_timeslot 1 0)) [0..<64] x = Some (script1, v)"
    by (rule sjf_batch_parts [OF K demo_ready(2) on_time_benchmark demo_ready(3)]) blast
  have "64 \<le> SJF_BATCH_SIZE"
    by (simp add: SJF_BATCH_SIZE_def)
  from sjf_sent_final [OF K demo_ready(2) on_time_benchmark demo_ready(3) this x] x show ?thesis
    by blast
qed

text \<open>
  C23. A request that arrives while the timeslots of a batch are sent out can be lost for ever.
  On a single core, let an idle flow ask for at most 255 timeslots just before the first timeslot
  of a batch is sent out (the second entry of the script). Whatever requests follow, in every
  later round the flow has backlog, is in no bin and no queue, and gets no timeslot: the request
  was put into a new-request bin that the batch had already processed, and the next batch empties
  these bins without looking.
\<close>

theorem sjf_request_lost:
  assumes "between L batch s" "rounds_fit ([evs, [Request src dst n]] # scripts) s" "scripts \<noteq> []"
    and "flow_backlog s (src, dst) = 0" "requested [evs] (src, dst) = 0" "unat n \<le> 255"
  shows "\<exists>num s'. foldo sjf_round ([evs, [Request src dst n]] # scripts) (0, batch, s) = Some (num, batch, s')
    \<and> flow_backlog s' (src, dst) \<noteq> 0 \<and> grants s' (src, dst) = 0 \<and> (src, dst) \<notin># places {} s'"
proof -
  let ?script = "[evs, [Request src dst n]]"
  note f = rounds_fit_head [OF assms(2)]
  from wpD [OF sjf_round_ok [OF assms(1) f, of 0]]
  obtain num s1 script' s2 where r: "sjf_round ?script (0, batch, s) = Some (num, batch, s1)" "between (L \<union> left_over s) batch s1"
    "sjf_get_admissible_traffic batch 0 1 0 ?script s = Some (script', s2)" "round_done batch ?script s script' s1" "left_over s1 = left_over s2"
    by (auto simp only: split_paired_Ex prod.case)
  obtain K where "sjf_ready K [] s" and b: "single_core s" "admitted_ok batch s" "room_out s"
    using assms(1) length_ring_list [of "js_q_admitted_out (j_status s)"] by (auto simp: between_def room_out_def)
  then have "(src, dst) \<in> left_over s2"
    using late_request(2) [OF ready_script [OF _ f] b(2) on_time_benchmark b(3,1) assms(4-6) r(3)] by blast
  then have "(src, dst) \<in> L \<union> left_over s \<union> left_over s1"
    by (simp add: r(5))
  from wpD [OF rounds_lose [OF r(2) rounds_fit_tail [OF assms(2) r(4)] this assms(3), of num]]
  show ?thesis
    by (simp only: foldo.simps r(1) bind.bind_lunit) auto
qed

theorem sjf_request_lost_witness:
  "\<exists>num s'. foldo sjf_round [[[], [Request 1 2 3]], [[Request 1 2 5]], []] (0, demo_batch, demo_sjf) = Some (num, demo_batch, s')
    \<and> flow_backlog s' (1, 2) \<noteq> 0 \<and> grants s' (1, 2) = 0 \<and> (1, 2) \<notin># places {} s'"
proof -
  have "rounds_fit [[[], [Request 1 2 3]], [[Request 1 2 5]], []] demo_sjf"
    by (rule demo_fits) (simp_all add: script_ok_def script_bins_def requested_def valid_flow_def)
  moreover have "valid_flow 4 (1, 2)"
    by (simp add: valid_flow_def)
  then have "flow_backlog demo_sjf (1, 2) = 0"
    using demo_sjf_ok(4) by blast
  ultimately show ?thesis
    using sjf_request_lost [OF demo_sjf_ok(1), of "[]" 1 2 3 "[[[Request 1 2 5]], []]"] by (simp add: requested_def)
qed




end
