(* ===== verification/FP_Pim.thy ===== *)
theory FP_Pim
  imports FP_Bins
begin

unbundle bit_operations_syntax

text \<open>
  The grant/accept allocator, \<^verbatim>\<open>src/src/grant-accept/\<close>: random numbers (\<^verbatim>\<open>ga_random.h\<close>), adjacency
  structures (\<^verbatim>\<open>grant-accept.h\<close>), edge lists (\<^verbatim>\<open>edgelist.h\<close>), the barrier between partitions
  (\<^verbatim>\<open>phase.h\<close>), parallel iterative matching (\<^verbatim>\<open>pim.h\<close>, \<^verbatim>\<open>pim.c\<close>) and the loop of the stand-alone build
  (\<^verbatim>\<open>pim_admissible_traffic.c\<close>).

  The build is that of \<^verbatim>\<open>grant-accept/Makefile\<close>: one core runs all partitions in turn
  (\<^verbatim>\<open>PIM_SINGLE_ADMISSION_CORE\<close>), and assertions are off (\<^verbatim>\<open>NDEBUG\<close>); a build with assertions is considered as well
  where it behaves differently. \<^verbatim>\<open>pim.c\<close> calls \<^verbatim>\<open>backlog_decrease\<close>, which
  no file of the repository defines, and \<^verbatim>\<open>enqueue_bin\<close> with four arguments, where \<^verbatim>\<open>bin.h\<close> defines one
  with five: both are arguments of the definitions that call them (\<^verbatim>\<open>decrease\<close>, \<^verbatim>\<open>enqueue\<close>). Arrays are functions from
  indices, accesses that can leave them are guarded by their length; bins and admitted traffic have one
  owner at a time and are passed by value. A wait for memory that nobody returns is \<^term>\<open>None\<close>.
\<close>

subsection \<open>Definitions: random numbers\<close>

definition GA_RAND_A :: u32 where "GA_RAND_A = 1664525"
definition GA_RAND_C :: u32 where "GA_RAND_C = 1013904223"

definition ga_rand :: "u32 \<Rightarrow> u16 \<Rightarrow> u32 \<times> u32" where
  "ga_rand state max_val = (drop_bit 16 (drop_bit 16 state * ucast max_val), state * GA_RAND_A + GA_RAND_C)"

subsection \<open>Definitions: adjacency structures\<close>

definition GA_MAX_DEGREE :: nat where "GA_MAX_DEGREE = 256"

record ga_edge =
  ga_src :: u16
  ga_dst :: u16

record ga_adj =
  adj_degree :: "nat \<Rightarrow> u16"
  adj_neigh :: "nat \<Rightarrow> nat \<Rightarrow> u16"

definition ga_reset_adj :: "ga_adj \<Rightarrow> ga_adj" where
  "ga_reset_adj adj = adj\<lparr> adj_degree := fill PARTITION_N_NODES 0 (adj_degree adj) \<rparr>"

definition ga_adj_add_edge_by_src :: "ga_adj \<Rightarrow> nat \<Rightarrow> u16 \<Rightarrow> ga_adj option" where
  "ga_adj_add_edge_by_src adj src_index dst = do {
     guard_o (src_index < PARTITION_N_NODES);
     let degree = adj_degree adj src_index;
     guard_o (unat degree < GA_MAX_DEGREE);
     Some (adj\<lparr> adj_degree := (adj_degree adj)(src_index := degree + 1),
                adj_neigh := (adj_neigh adj)(src_index := (adj_neigh adj src_index)(unat degree := dst)) \<rparr>) }"

definition ga_adj_add_edge_by_dst :: "ga_adj \<Rightarrow> u16 \<Rightarrow> nat \<Rightarrow> ga_adj option" where
  "ga_adj_add_edge_by_dst adj src dst_index = do {
     guard_o (dst_index < PARTITION_N_NODES);
     let degree = adj_degree adj dst_index;
     guard_o (unat degree < GA_MAX_DEGREE);
     Some (adj\<lparr> adj_degree := (adj_degree adj)(dst_index := degree + 1),
                adj_neigh := (adj_neigh adj)(dst_index := (adj_neigh adj dst_index)(unat degree := src)) \<rparr>) }"

definition ga_adj_delete_neigh :: "ga_adj \<Rightarrow> nat \<Rightarrow> nat \<Rightarrow> ga_adj option" where
  "ga_adj_delete_neigh adj node_index neigh_index = do {
     guard_o (node_index < PARTITION_N_NODES \<and> neigh_index < GA_MAX_DEGREE);
     let last_ind = adj_degree adj node_index - 1;
     guard_o (unat last_ind < GA_MAX_DEGREE);
     Some (adj\<lparr> adj_degree := (adj_degree adj)(node_index := last_ind),
                adj_neigh := (adj_neigh adj)(node_index :=
                  (adj_neigh adj node_index)(neigh_index := adj_neigh adj node_index (unat last_ind))) \<rparr>) }"

subsection \<open>Definitions: edge lists\<close>

definition EDGELIST_PARTITION_MAX_EDGES :: nat where "EDGELIST_PARTITION_MAX_EDGES = PARTITION_N_NODES"

record ga_edgelist =
  el_n :: u32
  el_edge :: "nat \<Rightarrow> ga_edge"

text \<open>The edges of a graph by destination partition, then by source partition.\<close>

type_synonym ga_partd_edgelist = "nat \<Rightarrow> nat \<Rightarrow> ga_edgelist"

definition ga_edgelist_add :: "ga_edgelist \<Rightarrow> u16 \<Rightarrow> u16 \<Rightarrow> ga_edgelist option" where
  "ga_edgelist_add edgelist src dst = do {
     let n = el_n edgelist;
     guard_o (unat n < EDGELIST_PARTITION_MAX_EDGES);
     Some (edgelist\<lparr> el_n := n + 1, el_edge := (el_edge edgelist)(unat n := \<lparr> ga_src = src, ga_dst = dst \<rparr>) \<rparr>) }"

definition ga_partd_edgelist_add :: "ga_partd_edgelist \<Rightarrow> u16 \<Rightarrow> u16 \<Rightarrow> ga_partd_edgelist option" where
  "ga_partd_edgelist_add pedgelist src dst = do {
     let d = PARTITION_OF dst;
     let s = PARTITION_OF src;
     guard_o (d < N_PARTITIONS \<and> s < N_PARTITIONS);
     edgelist \<leftarrow> ga_edgelist_add (pedgelist d s) src dst;
     Some (pedgelist(d := (pedgelist d)(s := edgelist))) }"

definition ga_partd_edgelist_src_reset :: "ga_partd_edgelist \<Rightarrow> nat \<Rightarrow> ga_partd_edgelist" where
  "ga_partd_edgelist_src_reset pedgelist src_partition = (\<lambda>d.
     if d < N_PARTITIONS then (pedgelist d)(src_partition := (pedgelist d src_partition)\<lparr> el_n := 0 \<rparr>)
     else pedgelist d)"

definition ga_edges_to_adj_by_dst :: "(nat \<Rightarrow> ga_edge) \<Rightarrow> u32 \<Rightarrow> ga_adj \<Rightarrow> ga_adj option" where
  "ga_edges_to_adj_by_dst edges n_edges adj = foldo (\<lambda>i adj. do {
     guard_o (i < EDGELIST_PARTITION_MAX_EDGES);
     ga_adj_add_edge_by_dst adj (ga_src (edges i)) (PARTITION_IDX (ga_dst (edges i))) }) [0..<unat n_edges] adj"

definition ga_edgelist_to_adj_by_dst :: "ga_partd_edgelist \<Rightarrow> nat \<Rightarrow> ga_adj \<Rightarrow> ga_adj option" where
  "ga_edgelist_to_adj_by_dst pedgelist dst_partition dest_adj =
     foldo (\<lambda>src_partition. ga_edges_to_adj_by_dst (el_edge (pedgelist dst_partition src_partition))
        (el_n (pedgelist dst_partition src_partition))) [0..<N_PARTITIONS] dest_adj"

subsection \<open>Definitions: the barrier between partitions\<close>

definition NONE_READY :: nat where "NONE_READY = N_PARTITIONS"

record partition_phase_state =
  ph_q_ready :: "u64 fp_ring"
  ph_phase :: u16

type_synonym phase_state = "nat \<Rightarrow> partition_phase_state"

definition create_queue_entry :: "u16 \<Rightarrow> u16 \<Rightarrow> u64" where
  "create_queue_entry phase partition_index = push_bit 16 (ucast phase) OR ucast partition_index"

definition get_phase_from_queue_entry :: "u64 \<Rightarrow> u16" where
  "get_phase_from_queue_entry queue_entry = ucast (drop_bit 16 queue_entry)"

definition get_partition_from_queue_entry :: "u64 \<Rightarrow> u16" where
  "get_partition_from_queue_entry queue_entry = ucast (queue_entry AND 0xFFFF)"

definition phase_state_init :: "phase_state \<Rightarrow> (nat \<Rightarrow> u64 fp_ring) \<Rightarrow> phase_state" where
  "phase_state_init phase q_ready = (\<lambda>i. if i < N_PARTITIONS then \<lparr> ph_q_ready = q_ready i, ph_phase = 0 \<rparr> else phase i)"

definition pim_phase_finished :: "phase_state \<Rightarrow> nat \<Rightarrow> admission_core_statistics
    \<Rightarrow> (phase_state \<times> admission_core_statistics) option" where
  "pim_phase_finished phase_state partition_index stat = do {
     let stat = adm_log_phase_finished stat;
     guard_o (partition_index < N_PARTITIONS);
     let phase = ph_phase (phase_state partition_index) + 1;
     let phase_state = phase_state(partition_index := (phase_state partition_index)\<lparr> ph_phase := phase \<rparr>);
     let queue_entry = create_queue_entry phase (of_nat partition_index);
     phase_state \<leftarrow> foldo (\<lambda>i phase_state. do {
         let other = (partition_index + i) mod N_PARTITIONS;
         q \<leftarrow> fp_ring_enqueue (ph_q_ready (phase_state other)) queue_entry;
         Some (phase_state(other := (phase_state other)\<lparr> ph_q_ready := q \<rparr>)) }) [1..<N_PARTITIONS] phase_state;
     Some (phase_state, stat) }"

definition phase_get_finished_partition :: "phase_state \<Rightarrow> nat \<Rightarrow> admission_core_statistics
    \<Rightarrow> (nat \<times> phase_state \<times> admission_core_statistics) option" where
  "phase_get_finished_partition phase_state partition_index stat = do {
     guard_o (partition_index < N_PARTITIONS);
     let mine = phase_state partition_index;
     (entry, q) \<leftarrow> fp_ring_dequeue (ph_q_ready mine);
     case entry of
       None \<Rightarrow> Some (NONE_READY, phase_state, adm_log_phase_none_ready stat)
     | Some queue_entry \<Rightarrow>
         if get_phase_from_queue_entry queue_entry \<noteq> ph_phase mine then do {
           q \<leftarrow> fp_ring_enqueue q queue_entry;
           Some (NONE_READY, phase_state(partition_index := mine\<lparr> ph_q_ready := q \<rparr>), adm_log_phase_out_of_order stat) }
         else Some (unat (get_partition_from_queue_entry queue_entry),
           phase_state(partition_index := mine\<lparr> ph_q_ready := q \<rparr>), stat) }"

subsection \<open>Definitions: the state of the allocator\<close>

definition NUM_ITERATIONS :: nat where "NUM_ITERATIONS = 3"
definition PIM_SMALL_BIN_SIZE :: nat where "PIM_SMALL_BIN_SIZE = MAX_NODES div N_PARTITIONS"
definition PIM_BITMASK_WORD :: "nat \<Rightarrow> nat" where "PIM_BITMASK_WORD node = node div 8"
definition PIM_BITMASK_SHIFT :: "nat \<Rightarrow> nat" where "PIM_BITMASK_SHIFT node = node mod 8"
definition MAX_TRIES :: nat where "MAX_TRIES = 10"
definition PIM_BURST_SIZE :: nat where "PIM_BURST_SIZE = 8"

record pim_core =
  pc_rand :: u32
  pc_admitted :: admitted_traffic
  pc_grant_adj_index :: "nat \<Rightarrow> u16"
  pc_src_endnodes :: "nat \<Rightarrow> u8"
  pc_dst_endnodes :: "nat \<Rightarrow> u8"
  pc_q_new_demands :: "bin fp_ring"
  pc_stat :: admission_core_statistics

record pim_state =
  ps_requests_by_src :: "nat \<Rightarrow> ga_adj"
  ps_grants :: ga_partd_edgelist
  ps_grants_by_dst :: "nat \<Rightarrow> ga_adj"
  ps_accepts :: ga_partd_edgelist
  ps_backlog :: backlog
  ps_new_demands :: "nat \<Rightarrow> bin"
  ps_q_admitted_out :: "admitted_traffic fp_ring"
  ps_bin_mempool :: "bin fp_mempool"
  ps_admitted_mempool :: "admitted_traffic fp_mempool"
  ps_cores :: "nat \<Rightarrow> pim_core"
  ps_stat :: admission_statistics
  ps_phase :: phase_state

definition upd_pcore :: "nat \<Rightarrow> (pim_core \<Rightarrow> pim_core) \<Rightarrow> pim_state \<Rightarrow> pim_state" where
  "upd_pcore p f s = s\<lparr> ps_cores := (ps_cores s)(p := f (ps_cores s p)) \<rparr>"

definition src_is_allocated :: "pim_core \<Rightarrow> u16 \<Rightarrow> bool" where
  "src_is_allocated core src \<longleftrightarrow>
     drop_bit (PIM_BITMASK_SHIFT (PARTITION_IDX src)) (pc_src_endnodes core (PIM_BITMASK_WORD (PARTITION_IDX src))) AND 1 \<noteq> 0"

definition dst_is_allocated :: "pim_state \<Rightarrow> u16 \<Rightarrow> bool option" where
  "dst_is_allocated s dst = do {
     guard_o (PARTITION_OF dst < N_PARTITIONS);
     let core = ps_cores s (PARTITION_OF dst);
     Some (drop_bit (PIM_BITMASK_SHIFT (PARTITION_IDX dst)) (pc_dst_endnodes core (PIM_BITMASK_WORD (PARTITION_IDX dst))) AND 1 \<noteq> 0) }"

definition mark_src_allocated :: "u16 \<Rightarrow> pim_core \<Rightarrow> pim_core" where
  "mark_src_allocated src core = (
     let w = PIM_BITMASK_WORD (PARTITION_IDX src)
     in core\<lparr> pc_src_endnodes := (pc_src_endnodes core)
          (w := pc_src_endnodes core w OR push_bit (PIM_BITMASK_SHIFT (PARTITION_IDX src)) 1) \<rparr>)"

definition mark_dst_allocated :: "u16 \<Rightarrow> pim_core \<Rightarrow> pim_core" where
  "mark_dst_allocated dst core = (
     let w = PIM_BITMASK_WORD (PARTITION_IDX dst)
     in core\<lparr> pc_dst_endnodes := (pc_dst_endnodes core)
          (w := pc_dst_endnodes core w OR push_bit (PIM_BITMASK_SHIFT (PARTITION_IDX dst)) 1) \<rparr>)"

subsection \<open>Definitions: demands\<close>

definition pim_flush_backlog_now :: "nat \<Rightarrow> pim_state \<Rightarrow> pim_state option" where
  "pim_flush_backlog_now partition_index s = do {
     q \<leftarrow> fp_ring_enqueue (pc_q_new_demands (ps_cores s partition_index)) (ps_new_demands s partition_index);
     (b, mp) \<leftarrow> fp_mempool_get (ps_bin_mempool s);
     b \<leftarrow> b;
     Some ((upd_pcore partition_index (\<lambda>c. c\<lparr> pc_q_new_demands := q \<rparr>) s)
       \<lparr> ps_bin_mempool := mp, ps_new_demands := (ps_new_demands s)(partition_index := init_bin b) \<rparr>) }"

definition pim_flush_backlog :: "pim_state \<Rightarrow> pim_state option" where
  "pim_flush_backlog s = do {
     s \<leftarrow> foldo (\<lambda>p s. if is_empty_bin (ps_new_demands s p) then Some s else pim_flush_backlog_now p s) [0..<N_PARTITIONS] s;
     Some (s\<lparr> ps_stat := adm_log_forced_backlog_flush (ps_stat s) \<rparr>) }"

definition pim_add_backlog :: "(bin \<Rightarrow> u16 \<Rightarrow> u16 \<Rightarrow> u32 \<Rightarrow> bin option) \<Rightarrow> u16 \<Rightarrow> u16 \<Rightarrow> u32 \<Rightarrow> pim_state \<Rightarrow> pim_state option" where
  "pim_add_backlog enqueue src dst amount s = do {
     (was_idle, bl, stat) \<leftarrow> backlog_increase (ps_backlog s) src dst amount (ps_stat s);
     let s = s\<lparr> ps_backlog := bl, ps_stat := stat \<rparr>;
     if \<not> was_idle then Some s
     else do {
       let p = PARTITION_OF src;
       guard_o (p < N_PARTITIONS);
       b \<leftarrow> enqueue (ps_new_demands s p) src dst 0;
       let s = s\<lparr> ps_new_demands := (ps_new_demands s)(p := b) \<rparr>;
       if unat (bin_size b) = PIM_SMALL_BIN_SIZE
       then pim_flush_backlog_now p (s\<lparr> ps_stat := adm_log_backlog_flush_bin_full (ps_stat s) \<rparr>)
       else Some s } }"

definition pim_process_incoming_bin :: "bin \<Rightarrow> ga_adj \<Rightarrow> ga_adj option" where
  "pim_process_incoming_bin b adj =
     foldo (\<lambda>i adj. ga_adj_add_edge_by_src adj (PARTITION_IDX (e_src (bin_get b i))) (e_dst (bin_get b i))) [0..<unat (bin_size b)] adj"

definition pim_take_bin :: "nat \<Rightarrow> bin \<Rightarrow> pim_state \<Rightarrow> pim_state option" where
  "pim_take_bin p b s = do {
     adj \<leftarrow> pim_process_incoming_bin b (ps_requests_by_src s p);
     mp \<leftarrow> fp_mempool_put (ps_bin_mempool s) b;
     Some (s\<lparr> ps_requests_by_src := (ps_requests_by_src s)(p := adj), ps_bin_mempool := mp \<rparr>) }"

definition pim_process_new_requests :: "nat \<Rightarrow> pim_state \<Rightarrow> pim_state option" where
  "pim_process_new_requests p s = do {
     (bins, q) \<leftarrow> fp_ring_dequeue_burst (pc_q_new_demands (ps_cores s p)) PIM_BURST_SIZE;
     s \<leftarrow> foldo (pim_take_bin p) bins (upd_pcore p (\<lambda>c. c\<lparr> pc_q_new_demands := q \<rparr>) s);
     Some (upd_pcore p (\<lambda>c. c\<lparr> pc_stat := adm_log_processed_new_requests (pc_stat c)
       (of_nat (length bins)) (sum_list (map bin_size bins)) \<rparr>) s) }"

subsection \<open>Definitions: a timeslot\<close>

definition pim_prepare :: "nat \<Rightarrow> pim_state \<Rightarrow> pim_state option" where
  "pim_prepare p s = do {
     s \<leftarrow> pim_process_new_requests p s;
     let s = upd_pcore p (\<lambda>c. c\<lparr>
       pc_src_endnodes := fill (PIM_BITMASK_WORD PARTITION_N_NODES) 0 (pc_src_endnodes c),
       pc_dst_endnodes := fill (PIM_BITMASK_WORD PARTITION_N_NODES) 0 (pc_dst_endnodes c) \<rparr>) s;
     (a, mp) \<leftarrow> fp_mempool_get (ps_admitted_mempool s);
     a \<leftarrow> a;
     Some (upd_pcore p (\<lambda>c. c\<lparr> pc_admitted := set_admitted_partition (init_admitted_traffic a) (of_nat p) \<rparr>)
       (s\<lparr> ps_admitted_mempool := mp \<rparr>)) }"

definition pim_add_grant :: "nat \<Rightarrow> u16 \<Rightarrow> u32 \<Rightarrow> pim_state \<Rightarrow> pim_state option" where
  "pim_add_grant p src dst_adj_index s = do {
     let dst = adj_neigh (ps_requests_by_src s p) (PARTITION_IDX src) (unat dst_adj_index);
     grants \<leftarrow> ga_partd_edgelist_add (ps_grants s) src dst;
     Some (upd_pcore p (\<lambda>c. c\<lparr> pc_grant_adj_index := (pc_grant_adj_index c)(PARTITION_IDX src := ucast dst_adj_index) \<rparr>)
       (s\<lparr> ps_grants := grants \<rparr>)) }"

definition pim_grant_first :: "nat \<Rightarrow> nat \<Rightarrow> pim_state \<Rightarrow> pim_state option" where
  "pim_grant_first p n s = do {
     let src = (of_nat n :: u16);
     let degree = adj_degree (ps_requests_by_src s p) (PARTITION_IDX src);
     if degree = 0 then Some s
     else do {
       let (dst_adj_index, r) = ga_rand (pc_rand (ps_cores s p)) degree;
       guard_o (unat dst_adj_index < GA_MAX_DEGREE);
       pim_add_grant p src dst_adj_index (upd_pcore p (\<lambda>c. c\<lparr> pc_rand := r \<rparr>) s) } }"

definition pim_do_grant_first_it :: "nat \<Rightarrow> pim_state \<Rightarrow> pim_state option" where
  "pim_do_grant_first_it p s = foldo (pim_grant_first p) [first_in_partition p..<Suc (last_in_partition p)]
     (s\<lparr> ps_grants := ga_partd_edgelist_src_reset (ps_grants s) p \<rparr>)"

text \<open>The loop that looks for a free destination; \<^verbatim>\<open>tries\<close> is what is left of \<^verbatim>\<open>MAX_TRIES\<close>.\<close>

fun pim_find_dst :: "nat \<Rightarrow> nat \<Rightarrow> u16 \<Rightarrow> u16 \<Rightarrow> pim_state \<Rightarrow> (bool \<times> u32 \<times> pim_state) option" where
  "pim_find_dst tries p src degree s = do {
     let (dst_adj_index, r) = ga_rand (pc_rand (ps_cores s p)) degree;
     let s = upd_pcore p (\<lambda>c. c\<lparr> pc_rand := r \<rparr>) s;
     guard_o (unat dst_adj_index < GA_MAX_DEGREE);
     dst_is_alloc \<leftarrow> dst_is_allocated s (adj_neigh (ps_requests_by_src s p) (PARTITION_IDX src) (unat dst_adj_index));
     if dst_is_alloc \<and> 1 < tries then pim_find_dst (tries - 1) p src degree s
     else Some (dst_is_alloc, dst_adj_index, s) }"

declare pim_find_dst.simps [simp del]

definition pim_grant_one :: "nat \<Rightarrow> nat \<Rightarrow> pim_state \<Rightarrow> pim_state option" where
  "pim_grant_one p n s = do {
     let src = (of_nat n :: u16);
     if src_is_allocated (ps_cores s p) src then Some s
     else do {
       let degree = adj_degree (ps_requests_by_src s p) (PARTITION_IDX src);
       if degree = 0 then Some s
       else do {
         (dst_is_alloc, dst_adj_index, s) \<leftarrow> pim_find_dst MAX_TRIES p src degree s;
         if dst_is_alloc then Some s else pim_add_grant p src dst_adj_index s } } }"

definition pim_do_grant :: "nat \<Rightarrow> pim_state \<Rightarrow> pim_state option" where
  "pim_do_grant p s = foldo (pim_grant_one p) [first_in_partition p..<Suc (last_in_partition p)]
     (s\<lparr> ps_grants := ga_partd_edgelist_src_reset (ps_grants s) p \<rparr>)"

definition pim_accept_one :: "nat \<Rightarrow> nat \<Rightarrow> pim_state \<Rightarrow> pim_state option" where
  "pim_accept_one p n s = do {
     let dst = (of_nat n :: u16);
     let degree = adj_degree (ps_grants_by_dst s p) (PARTITION_IDX dst);
     if degree = 0 then Some s
     else do {
       let (src_adj_index, r) = ga_rand (pc_rand (ps_cores s p)) degree;
       guard_o (unat src_adj_index < GA_MAX_DEGREE);
       let src = adj_neigh (ps_grants_by_dst s p) (PARTITION_IDX dst) (unat src_adj_index);
       accepts \<leftarrow> ga_partd_edgelist_add (ps_accepts s) src dst;
       Some (upd_pcore p (mark_dst_allocated dst) (upd_pcore p (\<lambda>c. c\<lparr> pc_rand := r \<rparr>) (s\<lparr> ps_accepts := accepts \<rparr>))) } }"

definition pim_do_accept :: "nat \<Rightarrow> pim_state \<Rightarrow> pim_state option" where
  "pim_do_accept p s = do {
     adj \<leftarrow> ga_edgelist_to_adj_by_dst (ps_grants s) p (ga_reset_adj (ps_grants_by_dst s p));
     foldo (pim_accept_one p) [first_in_partition p..<Suc (last_in_partition p)]
       (s\<lparr> ps_grants_by_dst := (ps_grants_by_dst s)(p := adj) \<rparr>) }"

type_synonym pim_decrease = "backlog \<Rightarrow> u16 \<Rightarrow> u16 \<Rightarrow> u32 \<times> backlog"

text \<open>
  \<^verbatim>\<open>asserts\<close> tells whether the assertion of \<^verbatim>\<open>pim.c\<close> is compiled in: the backlog of an accepted pair is not 0.
\<close>

definition pim_process_accept :: "bool \<Rightarrow> pim_decrease \<Rightarrow> nat \<Rightarrow> ga_edge \<Rightarrow> pim_state \<Rightarrow> pim_state option" where
  "pim_process_accept asserts decrease src_partition edge s = do {
     let core = ps_cores s src_partition;
     admitted \<leftarrow> insert_admitted_edge (pc_admitted core) (ga_src edge) (ga_dst edge);
     let s = upd_pcore src_partition (\<lambda>c. mark_src_allocated (ga_src edge) (c\<lparr> pc_admitted := admitted \<rparr>)) s;
     guard_o (asserts \<longrightarrow> backlog_get (ps_backlog s) (ga_src edge) (ga_dst edge) \<notin> {None, Some 0});
     let (backlog, bl) = decrease (ps_backlog s) (ga_src edge) (ga_dst edge);
     let s = s\<lparr> ps_backlog := bl \<rparr>;
     if backlog \<noteq> 0
     then Some (upd_pcore src_partition (\<lambda>c. c\<lparr> pc_stat := adm_log_allocated_backlog_remaining (pc_stat c) backlog \<rparr>) s)
     else do {
       let s = upd_pcore src_partition (\<lambda>c. c\<lparr> pc_stat := adm_log_allocator_no_backlog (pc_stat c) \<rparr>) s;
       let q = PARTITION_OF (ga_src edge);
       guard_o (q < N_PARTITIONS);
       adj \<leftarrow> ga_adj_delete_neigh (ps_requests_by_src s q) (PARTITION_IDX (ga_src edge))
         (unat (pc_grant_adj_index core (PARTITION_IDX (ga_src edge))));
       Some (s\<lparr> ps_requests_by_src := (ps_requests_by_src s)(q := adj) \<rparr>) } }"

definition pim_process_accepts_from_partition :: "bool \<Rightarrow> pim_decrease \<Rightarrow> nat \<Rightarrow> nat \<Rightarrow> pim_state \<Rightarrow> pim_state option" where
  "pim_process_accepts_from_partition asserts decrease src_partition dst_partition s = (
     let edgelist = ps_accepts s dst_partition src_partition
     in foldo (\<lambda>i s. do {
          guard_o (i < EDGELIST_PARTITION_MAX_EDGES);
          pim_process_accept asserts decrease src_partition (el_edge edgelist i) s }) [0..<unat (el_n edgelist)] s)"

definition pim_process_accepts :: "bool \<Rightarrow> pim_decrease \<Rightarrow> nat \<Rightarrow> pim_state \<Rightarrow> pim_state option" where
  "pim_process_accepts asserts decrease p s = do {
     s \<leftarrow> foldo (pim_process_accepts_from_partition asserts decrease p) [0..<N_PARTITIONS] s;
     Some (s\<lparr> ps_accepts := ga_partd_edgelist_src_reset (ps_accepts s) p \<rparr>) }"

definition pim_complete_timeslot :: "nat \<Rightarrow> pim_state \<Rightarrow> pim_state option" where
  "pim_complete_timeslot p s = do {
     q \<leftarrow> fp_ring_enqueue (ps_q_admitted_out s) (pc_admitted (ps_cores s p));
     Some (s\<lparr> ps_q_admitted_out := q \<rparr>) }"

definition pim_iteration :: "bool \<Rightarrow> pim_decrease \<Rightarrow> (nat \<Rightarrow> pim_state \<Rightarrow> pim_state option) \<Rightarrow> pim_state \<Rightarrow> pim_state option" where
  "pim_iteration asserts decrease grant s = do {
     s \<leftarrow> foldo grant [0..<N_PARTITIONS] s;
     s \<leftarrow> foldo pim_do_accept [0..<N_PARTITIONS] s;
     foldo (pim_process_accepts asserts decrease) [0..<N_PARTITIONS] s }"

definition pim_get_admissible_traffic :: "bool \<Rightarrow> pim_decrease \<Rightarrow> pim_state \<Rightarrow> pim_state option" where
  "pim_get_admissible_traffic asserts decrease s = do {
     s \<leftarrow> foldo pim_prepare [0..<N_PARTITIONS] s;
     s \<leftarrow> pim_iteration asserts decrease pim_do_grant_first_it s;
     s \<leftarrow> foldo (\<lambda>i. pim_iteration asserts decrease pim_do_grant) [1..<NUM_ITERATIONS] s;
     foldo pim_complete_timeslot [0..<N_PARTITIONS] s }"

subsection \<open>Definitions: the check of a timeslot\<close>

text \<open>
  The edges of one structure against the nodes seen so far; \<^term>\<open>None\<close> in the inner option is the
  return of \<^verbatim>\<open>false\<close>.
\<close>

fun pim_check_edges :: "admitted_edge list \<Rightarrow> u16 set \<times> u16 set \<Rightarrow> (u16 set \<times> u16 set) option" where
  "pim_check_edges [] seen = Some seen"
| "pim_check_edges (e # es) seen =
     (if a_src e \<in> fst seen \<or> a_dst e \<in> snd seen then None
      else pim_check_edges es (insert (a_src e) (fst seen), insert (a_dst e) (snd seen)))"

primrec pim_check_partitions :: "nat \<Rightarrow> u16 set \<times> u16 set \<Rightarrow> pim_state \<Rightarrow> (bool \<times> pim_state) option" where
  "pim_check_partitions 0 seen s = Some (True, s)"
| "pim_check_partitions (Suc n) seen s = do {
     (a, q) \<leftarrow> fp_ring_dequeue (ps_q_admitted_out s);
     admitted \<leftarrow> a;
     case pim_check_edges (admitted_list admitted) seen of
       None \<Rightarrow> Some (False, s\<lparr> ps_q_admitted_out := q \<rparr>)
     | Some seen \<Rightarrow> do {
         q \<leftarrow> fp_ring_enqueue q admitted;
         pim_check_partitions n seen (s\<lparr> ps_q_admitted_out := q \<rparr>) } }"

definition pim_is_valid_admitted_traffic :: "pim_state \<Rightarrow> (bool \<times> pim_state) option" where
  "pim_is_valid_admitted_traffic s = pim_check_partitions N_PARTITIONS ({}, {}) s"

subsection \<open>Definitions: initial state\<close>

definition pim_reset_state :: "pim_state \<Rightarrow> pim_state" where
  "pim_reset_state s = s\<lparr>
     ps_requests_by_src := (\<lambda>p. if p < N_PARTITIONS then ga_reset_adj (ps_requests_by_src s p) else ps_requests_by_src s p),
     ps_accepts := fold (\<lambda>p a. ga_partd_edgelist_src_reset a p) [0..<N_PARTITIONS] (ps_accepts s),
     ps_backlog := backlog_init (ps_backlog s) \<rparr>"

text \<open>\<^verbatim>\<open>seeds\<close> are the results of \<^verbatim>\<open>rand()\<close>. A bin that the pool cannot give stops the run.\<close>

definition pim_init_state :: "pim_state \<Rightarrow> (nat \<Rightarrow> bin fp_ring) \<Rightarrow> admitted_traffic fp_ring \<Rightarrow> bin fp_mempool
    \<Rightarrow> admitted_traffic fp_mempool \<Rightarrow> (nat \<Rightarrow> u64 fp_ring) \<Rightarrow> (nat \<Rightarrow> u32) \<Rightarrow> pim_state option" where
  "pim_init_state s q_new_demands q_admitted_out bin_mempool admitted_mempool q_ready seeds = do {
     let s = (pim_reset_state s)\<lparr> ps_q_admitted_out := q_admitted_out, ps_bin_mempool := bin_mempool,
        ps_admitted_mempool := admitted_mempool \<rparr>;
     s \<leftarrow> foldo (\<lambda>p s. do {
         (b, mp) \<leftarrow> fp_mempool_get (ps_bin_mempool s);
         b \<leftarrow> b;
         Some (upd_pcore p (\<lambda>c. c\<lparr> pc_q_new_demands := q_new_demands p, pc_rand := seeds p \<rparr>)
           (s\<lparr> ps_bin_mempool := mp, ps_new_demands := (ps_new_demands s)(p := init_bin b) \<rparr>)) }) [0..<N_PARTITIONS] s;
     Some (s\<lparr> ps_phase := phase_state_init (ps_phase s) q_ready \<rparr>) }"

definition pim_create_state :: "pim_state option \<Rightarrow> (nat \<Rightarrow> bin fp_ring) \<Rightarrow> admitted_traffic fp_ring \<Rightarrow> bin fp_mempool
    \<Rightarrow> admitted_traffic fp_mempool \<Rightarrow> (nat \<Rightarrow> u64 fp_ring) \<Rightarrow> (nat \<Rightarrow> u32) \<Rightarrow> pim_state option" where
  "pim_create_state mem q_new_demands q_admitted_out bin_mempool admitted_mempool q_ready seeds = do {
     s \<leftarrow> mem;
     pim_init_state s q_new_demands q_admitted_out bin_mempool admitted_mempool q_ready seeds }"

end
