(* ===== verification/FP_Pim_Lists.thy ===== *)
theory FP_Pim_Lists
  imports FP_Pim
begin

unbundle bit_operations_syntax

text \<open>
  What the structures of the grant/accept allocator hold: the neighbours of a node and the edges
  of an edge list as lists, the nodes marked in a bitmap as a predicate, a random number below its
  bound, and the nodes of a partition.
\<close>

subsection \<open>Definitions: lists and bitmaps\<close>

definition nbrs :: "ga_adj \<Rightarrow> nat \<Rightarrow> u16 list" where
  "nbrs adj i = map (adj_neigh adj i) [0..<unat (adj_degree adj i)]"

definition edge_pair :: "ga_edge \<Rightarrow> u16 \<times> u16" where
  "edge_pair e = (ga_src e, ga_dst e)"

definition el_pairs :: "ga_edgelist \<Rightarrow> (u16 \<times> u16) list" where
  "el_pairs el = map (\<lambda>i. edge_pair (el_edge el i)) [0..<unat (el_n el)]"

definition marked :: "(nat \<Rightarrow> u8) \<Rightarrow> nat \<Rightarrow> bool" where
  "marked f i \<longleftrightarrow> bit (f (i div 8)) (i mod 8)"

definition node :: "nat \<Rightarrow> nat \<Rightarrow> u16" where
  "node p i = of_nat (PARTITION_N_NODES * p + i)"

definition del_nth :: "nat \<Rightarrow> 'a list \<Rightarrow> 'a list" where
  "del_nth k xs = butlast (xs[k := last xs])"

lemmas part_defs = PARTITION_N_NODES_def N_PARTITIONS_def MAX_NODES_def

subsection \<open>Nodes and partitions\<close>

lemma partitions [simp]: "N_PARTITIONS = 2"
  by (simp add: part_defs)

lemma partition_list: "[0..<N_PARTITIONS] = [0, 1]"
  by (simp add: numeral_2_eq_2)

lemma node_parts:
  assumes "p < 2" "i < 128"
  shows "PARTITION_OF (node p i) = p" "PARTITION_IDX (node p i) = i" "unat (node p i) = 128 * p + i"
proof -
  show u: "unat (node p i) = 128 * p + i"
    using assms unfolding node_def PARTITION_N_NODES_def by (subst unat_of_nat) (simp add: mod_less)
  show "PARTITION_OF (node p i) = p" "PARTITION_IDX (node p i) = i"
    using assms unfolding PARTITION_OF_def PARTITION_IDX_def u PARTITION_N_NODES_def by simp_all
qed

lemma node_of:
  assumes "unat a < 256"
  shows "node (PARTITION_OF a) (PARTITION_IDX a) = a" "PARTITION_OF a < 2" "PARTITION_IDX a < 128"
proof -
  show l: "PARTITION_OF a < 2" "PARTITION_IDX a < 128"
    using assms by (auto simp: PARTITION_OF_def PARTITION_IDX_def PARTITION_N_NODES_def)
  have "unat (node (PARTITION_OF a) (PARTITION_IDX a)) = unat a"
    unfolding node_parts(3) [OF l] by (simp add: PARTITION_OF_def PARTITION_IDX_def PARTITION_N_NODES_def)
  then show "node (PARTITION_OF a) (PARTITION_IDX a) = a"
    by (simp add: word_unat_eq_iff)
qed

lemma node_range: "p < 2 \<Longrightarrow> [first_in_partition p..<Suc (last_in_partition p)] = map (\<lambda>i. 128 * p + i) [0..<128]"
proof -
  assume "p < 2"
  then have "first_in_partition p = 128 * p" "Suc (last_in_partition p) = 128 * p + 128"
    by (auto simp: first_in_partition_def last_in_partition_def part_defs less_2_cases_iff)
  then have "[first_in_partition p..<Suc (last_in_partition p)] = [128 * p..<128 * p + 128]"
    by (simp only:)
  also have "\<dots> = map (\<lambda>i. 128 * p + i) [0..<128]"
    using map_add_upt [of "128 * p" 128] by (simp only: add.commute)
  finally show ?thesis .
qed

subsection \<open>Random numbers\<close>

lemma ga_rand_less:
  assumes "max_val \<noteq> 0"
  shows "unat (fst (ga_rand state max_val)) < unat max_val"
proof -
  let ?h = "drop_bit 16 state :: u32"
  have h: "unat ?h < 65536"
  proof -
    have "unat state div 65536 < 65536"
      using unat_u32_lt [of state] by (simp add: less_mult_imp_div_less)
    then show ?thesis
      unfolding unat_drop_bit_eq by (simp add: drop_bit_eq_div)
  qed
  have m: "unat max_val < 65536" "0 < unat max_val"
    using unat_u16_lt [of max_val] assms by (simp_all add: unat_gt_0)
  have "unat ?h * unat max_val < 65536 * unat max_val"
    using h m by simp
  also have "\<dots> < 4294967296"
    using m by simp
  finally have "unat (?h * ucast max_val) = unat ?h * unat max_val"
    by (simp add: unat_word_ariths unat_ucast_u16_u32)
  moreover have "unat ?h * unat max_val div 65536 < unat max_val"
    using h m by (simp add: less_mult_imp_div_less)
  ultimately show ?thesis
    unfolding ga_rand_def fst_conv unat_drop_bit_eq by (simp add: drop_bit_eq_div [where 'a = nat])
qed

subsection \<open>Adjacency structures and edge lists\<close>

lemma length_nbrs [simp]: "length (nbrs adj i) = unat (adj_degree adj i)"
  by (simp add: nbrs_def)

lemma nbrs_nth: "k < unat (adj_degree adj i) \<Longrightarrow> nbrs adj i ! k = adj_neigh adj i k"
  by (simp add: nbrs_def)

lemma nbrs_reset: "i < 128 \<Longrightarrow> nbrs (ga_reset_adj adj) i = []"
  by (simp add: nbrs_def ga_reset_adj_def fill_def PARTITION_N_NODES_def)

lemma add_by_src_ok:
  assumes "i < 128" "length (nbrs adj i) < 256"
  shows "wp (ga_adj_add_edge_by_src adj i x) (\<lambda>adj'. nbrs adj' = (nbrs adj)(i := nbrs adj i @ [x]))"
proof -
  let ?d = "adj_degree adj i"
  have "unat (?d + 1) = Suc (unat ?d)"
    using assms(2) by (simp add: unat_word_ariths)
  then show ?thesis
    using assms by (auto simp: ga_adj_add_edge_by_src_def GA_MAX_DEGREE_def PARTITION_N_NODES_def fun_eq_iff nbrs_def)
qed

lemma add_by_dst_eq: "ga_adj_add_edge_by_dst adj x i = ga_adj_add_edge_by_src adj i x"
  by (simp add: ga_adj_add_edge_by_dst_def ga_adj_add_edge_by_src_def)

lemma del_nth_distinct:
  assumes "distinct xs" "k < length xs"
  shows "distinct (del_nth k xs)" "set (del_nth k xs) = set xs - {xs ! k}" "length (del_nth k xs) = length xs - 1"
proof -
  obtain ys z where xs: "xs = ys @ [z]"
    using assms(2) by (cases xs rule: rev_cases) auto
  have "del_nth k xs = (if k < length ys then ys[k := z] else ys)"
    using assms(2) by (auto simp: del_nth_def xs list_update_append)
  moreover have "set (ys[k := z]) = insert z (set ys - {ys ! k})" if "k < length ys"
    using assms(1) that by (simp add: xs set_update_distinct)
  ultimately show "distinct (del_nth k xs)" "set (del_nth k xs) = set xs - {xs ! k}" "length (del_nth k xs) = length xs - 1"
    using assms by (auto simp: xs nth_append distinct_list_update)
qed

lemma delete_neigh_ok:
  assumes "i < 128" "k < length (nbrs adj i)" "length (nbrs adj i) \<le> 256"
  shows "wp (ga_adj_delete_neigh adj i k) (\<lambda>adj'. nbrs adj' = (nbrs adj)(i := del_nth k (nbrs adj i)))"
proof -
  let ?d = "adj_degree adj i"
  have d: "unat (?d - 1) = unat ?d - 1" "0 < unat ?d"
  proof -
    show "0 < unat ?d"
      using assms(2) by simp
    then show "unat (?d - 1) = unat ?d - 1"
      by (intro unat_minus_one) (simp add: unat_gt_0)
  qed
  have "map ((adj_neigh adj i)(k := adj_neigh adj i (unat ?d - 1))) [0..<unat ?d - 1] = del_nth k (nbrs adj i)"
    using assms(2) d(2) by (intro nth_equalityI) (auto simp: del_nth_def nbrs_def nth_butlast nth_list_update last_map last_conv_nth)
  then show ?thesis
    using assms d by (auto simp: ga_adj_delete_neigh_def GA_MAX_DEGREE_def PARTITION_N_NODES_def fun_eq_iff nbrs_def)
qed

lemma length_el_pairs [simp]: "length (el_pairs el) = unat (el_n el)"
  by (simp add: el_pairs_def)

lemma edgelist_add_ok:
  assumes "length (el_pairs el) < 128"
  shows "wp (ga_edgelist_add el a b) (\<lambda>el'. el_pairs el' = el_pairs el @ [(a, b)])"
proof -
  have "unat (el_n el + 1) = Suc (unat (el_n el))"
    using assms by (simp add: unat_word_ariths)
  then show ?thesis
    using assms by (simp add: ga_edgelist_add_def EDGELIST_PARTITION_MAX_EDGES_def PARTITION_N_NODES_def el_pairs_def edge_pair_def)
qed

lemma partd_add_ok:
  assumes "unat a < 256" "unat b < 256" "length (el_pairs (pl (PARTITION_OF b) (PARTITION_OF a))) < 128"
  shows "wp (ga_partd_edgelist_add pl a b) (\<lambda>pl'. \<forall>d s. el_pairs (pl' d s) =
    (if d = PARTITION_OF b \<and> s = PARTITION_OF a then el_pairs (pl d s) @ [(a, b)] else el_pairs (pl d s)))"
  using wpD [OF edgelist_add_ok [OF assms(3), of a b]] node_of(2) [OF assms(1)] node_of(2) [OF assms(2)]
  by (auto simp: ga_partd_edgelist_add_def)

lemma src_reset_edges: "d < 2 \<Longrightarrow> el_pairs (ga_partd_edgelist_src_reset pl p d s) = (if s = p then [] else el_pairs (pl d s))"
  by (simp add: ga_partd_edgelist_src_reset_def el_pairs_def)

subsection \<open>Bitmaps\<close>

lemma bit_test: "drop_bit k (w :: u8) AND 1 \<noteq> 0 \<longleftrightarrow> bit w k"
  unfolding bit_iff_odd_drop_bit by (simp add: and_one_eq mod_2_eq_odd del: drop_bit_eq_div)

lemma src_is_allocated_marked: "src_is_allocated core a = marked (pc_src_endnodes core) (PARTITION_IDX a)"
  unfolding src_is_allocated_def bit_test by (simp add: marked_def PIM_BITMASK_SHIFT_def PIM_BITMASK_WORD_def)

lemma dst_is_allocated_marked:
  "unat b < 256 \<Longrightarrow> dst_is_allocated s b = Some (marked (pc_dst_endnodes (ps_cores s (PARTITION_OF b))) (PARTITION_IDX b))"
  unfolding dst_is_allocated_def bit_test using node_of(2)
  by (simp add: marked_def PIM_BITMASK_SHIFT_def PIM_BITMASK_WORD_def guard_o_def)

lemma marked_or: "marked (f(i div 8 := f (i div 8) OR push_bit (i mod 8) 1)) = (marked f)(i := True)"
proof
  fix j
  have "j = i" if "j div 8 = i div 8" "j mod 8 = i mod 8"
    using that by (metis div_mult_mod_eq)
  moreover have "i mod 8 < 8"
    by simp
  ultimately show "marked (f(i div 8 := f (i div 8) OR push_bit (i mod 8) 1)) j = ((marked f)(i := True)) j"
    by (auto simp: marked_def bit_simps)
qed

lemma mark_src_marked:
  "marked (pc_src_endnodes (mark_src_allocated a c)) = (marked (pc_src_endnodes c))(PARTITION_IDX a := True)"
  "mark_src_allocated a c = c\<lparr> pc_src_endnodes := pc_src_endnodes (mark_src_allocated a c) \<rparr>"
  using marked_or by (simp_all add: mark_src_allocated_def Let_def PIM_BITMASK_SHIFT_def PIM_BITMASK_WORD_def)

lemma mark_dst_marked:
  "marked (pc_dst_endnodes (mark_dst_allocated b c)) = (marked (pc_dst_endnodes c))(PARTITION_IDX b := True)"
  "mark_dst_allocated b c = c\<lparr> pc_dst_endnodes := pc_dst_endnodes (mark_dst_allocated b c) \<rparr>"
  using marked_or by (simp_all add: mark_dst_allocated_def Let_def PIM_BITMASK_SHIFT_def PIM_BITMASK_WORD_def)

lemma marked_fill: "i < 128 \<Longrightarrow> \<not> marked (fill (PIM_BITMASK_WORD PARTITION_N_NODES) 0 f) i"
proof -
  assume "i < 128"
  then have "i div 8 < 16"
    by simp
  then show ?thesis
    by (simp add: marked_def fill_def PIM_BITMASK_WORD_def PARTITION_N_NODES_def)
qed

end
