(* ===== verification/FP_Pim_Inv.thy ===== *)
theory FP_Pim_Inv
  imports FP_Pim_Lists
begin

text \<open>
  The invariant of a timeslot of the grant/accept allocator, over what the state holds per node:
  its requests, whether it is marked as a source or as a destination, the index of its last grant; and per
  partition: the admitted, granted and accepted edges. \<^verbatim>\<open>pim_inv R X s\<close> says that the admitted edges
  with \<^verbatim>\<open>X\<close>, the edges that are accepted and not yet admitted, are a matching of requested pairs,
  that the marks are its end points, and that of the pairs \<^verbatim>\<open>R\<close> requested at the start only admitted ones are gone
  from the request lists. Here are the lemmas that the phases of a timeslot (\<^verbatim>\<open>FP_Pim_Phases\<close>) rest on.
\<close>

subsection \<open>Definitions: what the state holds\<close>

type_synonym node_pair = "u16 \<times> u16"

definition p_reqs :: "pim_state \<Rightarrow> u16 \<Rightarrow> u16 list" where
  "p_reqs s a = nbrs (ps_requests_by_src s (PARTITION_OF a)) (PARTITION_IDX a)"

definition p_adm :: "pim_state \<Rightarrow> nat \<Rightarrow> node_pair list" where
  "p_adm s p = map (\<lambda>e. (a_src e, a_dst e)) (admitted_list (pc_admitted (ps_cores s p)))"

definition p_smark :: "pim_state \<Rightarrow> u16 \<Rightarrow> bool" where
  "p_smark s a = marked (pc_src_endnodes (ps_cores s (PARTITION_OF a))) (PARTITION_IDX a)"

definition p_dmark :: "pim_state \<Rightarrow> u16 \<Rightarrow> bool" where
  "p_dmark s a = marked (pc_dst_endnodes (ps_cores s (PARTITION_OF a))) (PARTITION_IDX a)"

definition p_gidx :: "pim_state \<Rightarrow> u16 \<Rightarrow> nat" where
  "p_gidx s a = unat (pc_grant_adj_index (ps_cores s (PARTITION_OF a)) (PARTITION_IDX a))"

definition p_grants :: "pim_state \<Rightarrow> nat \<Rightarrow> nat \<Rightarrow> node_pair list" where
  "p_grants s d p = el_pairs (ps_grants s d p)"

definition p_accepts :: "pim_state \<Rightarrow> nat \<Rightarrow> nat \<Rightarrow> node_pair list" where
  "p_accepts s d p = el_pairs (ps_accepts s d p)"

definition p_admset :: "pim_state \<Rightarrow> node_pair set" where
  "p_admset s = set (p_adm s 0) \<union> set (p_adm s 1)"

definition p_held :: "pim_state \<Rightarrow> node_pair \<Rightarrow> bool" where
  "p_held s e \<longleftrightarrow> p_gidx s (fst e) < length (p_reqs s (fst e)) \<and> p_reqs s (fst e) ! p_gidx s (fst e) = snd e"

lemmas p_defs = p_reqs_def p_adm_def p_smark_def p_dmark_def p_gidx_def p_grants_def p_accepts_def

subsection \<open>Definitions: the invariant\<close>

definition pair_ok :: "node_pair \<Rightarrow> bool" where
  "pair_ok e \<longleftrightarrow> unat (fst e) < 256 \<and> unat (snd e) < 256"

definition pim_req_inv :: "(u16 \<Rightarrow> u16 set) \<Rightarrow> pim_state \<Rightarrow> bool" where
  "pim_req_inv R s \<longleftrightarrow> (\<forall>a. unat a < 256 \<longrightarrow> distinct (p_reqs s a) \<and> (\<forall>b \<in> set (p_reqs s a). unat b < 256)
     \<and> set (p_reqs s a) \<subseteq> R a \<and> R a \<subseteq> set (p_reqs s a) \<union> {b. (a, b) \<in> p_admset s})"

definition pim_adm_inv :: "pim_state \<Rightarrow> bool" where
  "pim_adm_inv s \<longleftrightarrow> (\<forall>p < 2. distinct (p_adm s p) \<and> (\<forall>e \<in> set (p_adm s p). PARTITION_OF (fst e) = p))"

definition pim_match_inv :: "(u16 \<Rightarrow> u16 set) \<Rightarrow> node_pair set \<Rightarrow> bool" where
  "pim_match_inv R E \<longleftrightarrow> inj_on fst E \<and> inj_on snd E \<and> (\<forall>e \<in> E. pair_ok e \<and> snd e \<in> R (fst e))"

definition pim_mark_inv :: "node_pair set \<Rightarrow> pim_state \<Rightarrow> bool" where
  "pim_mark_inv E s \<longleftrightarrow> (\<forall>a. unat a < 256 \<longrightarrow> p_smark s a = (a \<in> fst ` p_admset s) \<and> p_dmark s a = (a \<in> snd ` E))"

definition pim_inv :: "(u16 \<Rightarrow> u16 set) \<Rightarrow> node_pair set \<Rightarrow> pim_state \<Rightarrow> bool" where
  "pim_inv R X s \<longleftrightarrow> pim_req_inv R s \<and> pim_adm_inv s \<and> pim_match_inv R (p_admset s \<union> X) \<and> pim_mark_inv (p_admset s \<union> X) s
     \<and> p_admset s \<inter> X = {} \<and> (\<forall>e \<in> X. p_held s e)"

lemmas pim_inv_defs = pim_inv_def pim_req_inv_def pim_adm_inv_def pim_match_inv_def pim_mark_inv_def

subsection \<open>Updates of one core\<close>

lemma upd_pcore_sel [simp]:
  "ps_cores (upd_pcore p f s) = (ps_cores s)(p := f (ps_cores s p))"
  "ps_requests_by_src (upd_pcore p f s) = ps_requests_by_src s"
  "ps_grants (upd_pcore p f s) = ps_grants s"
  "ps_grants_by_dst (upd_pcore p f s) = ps_grants_by_dst s"
  "ps_accepts (upd_pcore p f s) = ps_accepts s"
  "ps_backlog (upd_pcore p f s) = ps_backlog s"
  "ps_q_admitted_out (upd_pcore p f s) = ps_q_admitted_out s"
  "ps_bin_mempool (upd_pcore p f s) = ps_bin_mempool s"
  "ps_admitted_mempool (upd_pcore p f s) = ps_admitted_mempool s"
  by (simp_all add: upd_pcore_def)

definition new_rand :: "nat \<Rightarrow> u32 \<Rightarrow> pim_state \<Rightarrow> pim_state" where
  "new_rand p r = upd_pcore p (\<lambda>c. c\<lparr> pc_rand := r \<rparr>)"

lemma new_rand_twice: "new_rand p r (new_rand p r' s) = new_rand p r s"
  by (simp add: new_rand_def upd_pcore_def)

text \<open>What a grant keeps: everything but the grants and their indices.\<close>

definition p_view :: "pim_state \<Rightarrow> _" where
  "p_view s = (p_reqs s, p_adm s, p_smark s, p_dmark s, p_accepts s, ps_q_admitted_out s, ps_backlog s)"

lemma new_rand_view [simp]:
  "p_view (new_rand p r s) = p_view s" "p_grants (new_rand p r s) = p_grants s" "p_gidx (new_rand p r s) = p_gidx s"
  by (simp_all add: p_view_def p_defs new_rand_def fun_eq_iff)

lemma view_inv:
  assumes "p_view s' = p_view s"
  shows "pim_inv R {} s' = pim_inv R {} s" "p_admset s' = p_admset s"
  using assms by (simp_all add: p_view_def pim_inv_defs p_admset_def)

subsection \<open>Nodes\<close>

lemma partition_lt: "PARTITION_OF a < 2 \<longleftrightarrow> unat a < 256"
  by (auto simp: PARTITION_OF_def PARTITION_N_NODES_def)

lemma node_eqI: "PARTITION_OF a = PARTITION_OF b \<Longrightarrow> PARTITION_IDX a = PARTITION_IDX b \<Longrightarrow> a = b"
  unfolding PARTITION_OF_def PARTITION_IDX_def word_unat_eq_iff by (metis div_mult_mod_eq)

lemma unat_node: "unat a = 128 * PARTITION_OF a + PARTITION_IDX a"
  by (simp add: PARTITION_OF_def PARTITION_IDX_def PARTITION_N_NODES_def)

lemma idx_lt [simp]: "PARTITION_IDX a < 128"
  by (simp add: PARTITION_IDX_def PARTITION_N_NODES_def)

lemma length_by_idx:
  assumes "distinct es" "inj_on f (set es)" "\<And>e. e \<in> set es \<Longrightarrow> PARTITION_OF (f e) = p \<and> PARTITION_IDX (f e) < n"
  shows "length es \<le> n"
proof -
  have "inj_on (\<lambda>e. PARTITION_IDX (f e)) (set es)"
  proof (rule inj_onI)
    fix x y
    assume "x \<in> set es" "y \<in> set es" "PARTITION_IDX (f x) = PARTITION_IDX (f y)"
    then show "x = y"
      using assms(3) by (intro inj_onD [OF assms(2)]) (auto intro: node_eqI)
  qed
  moreover have "(\<lambda>e. PARTITION_IDX (f e)) ` set es \<subseteq> {..<n}"
    using assms(3) by auto
  ultimately have "card (set es) \<le> card {..<n}"
    using card_inj_on_le by blast
  then show ?thesis
    by (simp add: distinct_card [OF assms(1)])
qed

lemma length_nodes: "distinct xs \<Longrightarrow> \<forall>b \<in> set xs. unat b < 256 \<Longrightarrow> length (xs :: u16 list) \<le> 256"
proof -
  assume xs: "distinct xs" "\<forall>b \<in> set xs. unat b < 256"
  have "card (set xs) \<le> card {..<256 :: nat}"
    using xs(2) by (intro card_inj_on_le [where f = unat]) (auto simp: inj_on_def word_unat_eq_iff)
  then show ?thesis
    by (simp add: distinct_card [OF xs(1)])
qed

end
