(* ===== verification/FP_Pim_Grant.thy ===== *)
theory FP_Pim_Grant
  imports FP_Pim_Inv
begin

text \<open>
  The grants of a partition: each of its sources grants at most one of the destinations it
  requests, free ones only; in the first iteration every source with a request grants one.
\<close>

definition p_other :: "nat \<Rightarrow> pim_state \<Rightarrow> pim_state \<Rightarrow> bool" where
  "p_other p s' s \<longleftrightarrow> p_view s' = p_view s \<and> (\<forall>d q. q \<noteq> p \<longrightarrow> p_grants s' d q = p_grants s d q)
     \<and> (\<forall>a. PARTITION_OF a \<noteq> p \<longrightarrow> p_gidx s' a = p_gidx s a)"

definition grant_ok :: "nat \<Rightarrow> nat \<Rightarrow> pim_state \<Rightarrow> nat \<Rightarrow> node_pair \<Rightarrow> bool" where
  "grant_ok p n s d e \<longleftrightarrow> PARTITION_OF (fst e) = p \<and> PARTITION_IDX (fst e) < n \<and> PARTITION_OF (snd e) = d
     \<and> p_held s e \<and> \<not> p_smark s (fst e) \<and> \<not> p_dmark s (snd e)"

definition grants_upto :: "bool \<Rightarrow> nat \<Rightarrow> nat \<Rightarrow> pim_state \<Rightarrow> bool" where
  "grants_upto all p n s \<longleftrightarrow> (\<forall>d < 2. \<forall>e \<in> set (p_grants s d p). grant_ok p n s d e)
     \<and> distinct (map fst (p_grants s 0 p @ p_grants s 1 p))
     \<and> (all \<longrightarrow> (\<forall>a. PARTITION_OF a = p \<longrightarrow> PARTITION_IDX a < n \<longrightarrow> p_reqs s a \<noteq> []
          \<longrightarrow> a \<in> fst ` set (p_grants s 0 p @ p_grants s 1 p)))"

lemma grants_upto_frame:
  assumes "p_other q s' s" "q \<noteq> p"
  shows "grants_upto all p n s' = grants_upto all p n s"
proof -
  have g: "p_grants s' d p = p_grants s d p" for d
    using assms by (simp add: p_other_def)
  have "grant_ok p n s' d e = grant_ok p n s d e" for d e
    using assms by (auto simp: p_other_def grant_ok_def p_held_def p_view_def)
  moreover have "p_reqs s' = p_reqs s"
    using assms by (simp add: p_other_def p_view_def)
  ultimately show ?thesis
    by (simp only: grants_upto_def g)
qed

lemma p_other_refl [simp]: "p_other p s s"
  by (simp add: p_other_def)

lemma p_other_trans: "p_other p s'' s' \<Longrightarrow> p_other p s' s \<Longrightarrow> p_other p s'' s"
  by (simp add: p_other_def)

lemma p_other_rand [simp]: "p_other p (new_rand p r s) s"
  by (simp add: p_other_def)

lemma grants_upto_rand: "grants_upto all p n (new_rand p r s) = grants_upto all p n s"
proof -
  have "p_view (new_rand p r s) = p_view s"
    by simp
  then show ?thesis
    by (simp add: grants_upto_def grant_ok_def p_held_def p_view_def)
qed

lemma grants_upto_skip:
  assumes "grants_upto all p n s" "n = PARTITION_IDX a" "PARTITION_OF a = p" "all \<longrightarrow> p_reqs s a = []"
  shows "grants_upto all p (Suc n) s"
proof -
  have "x = a" if "PARTITION_OF x = p" "PARTITION_IDX x = n" for x
    using that assms(2,3) by (auto intro: node_eqI)
  then show ?thesis
    using assms(1,4) unfolding grants_upto_def grant_ok_def less_Suc_eq by blast
qed

lemma add_grant_effect:
  assumes "p < 2" "PARTITION_OF a = p" "unat k < length (p_reqs s a)"
    and b: "b = p_reqs s a ! unat k" "unat b < 256"
    and len: "length (p_grants s (PARTITION_OF b) p) < 128"
  shows "wp (pim_add_grant p a k s) (\<lambda>s'. p_view s' = p_view s \<and> p_gidx s' = (p_gidx s)(a := unat k)
    \<and> (\<forall>d q. p_grants s' d q = (if d = PARTITION_OF b \<and> q = p then p_grants s d q @ [(a, b)] else p_grants s d q)))"
proof -
  have a: "unat a < 256"
    using assms(1,2) partition_lt by blast
  have nb: "adj_neigh (ps_requests_by_src s p) (PARTITION_IDX a) (unat k) = b"
    using assms(2,3) b(1) by (simp add: p_reqs_def nbrs_nth)
  have "unat k < 65536"
    using assms(3) unat_u16_lt [of "adj_degree (ps_requests_by_src s p) (PARTITION_IDX a)"]
    unfolding p_reqs_def assms(2) length_nbrs by (rule less_trans)
  then have k: "unat (ucast k :: u16) = unat k"
    by (simp add: unsigned_ucast_eq take_bit_eq_mod)
  have "length (el_pairs (ps_grants s (PARTITION_OF b) (PARTITION_OF a))) < 128"
    using len assms(2) by (simp add: p_grants_def)
  from wpD [OF partd_add_ok [of a b "ps_grants s", OF a b(2) this]] obtain gr where gr: "ga_partd_edgelist_add (ps_grants s) a b = Some gr"
    "\<And>d q. el_pairs (gr d q) = (if d = PARTITION_OF b \<and> q = PARTITION_OF a then el_pairs (ps_grants s d q) @ [(a, b)]
       else el_pairs (ps_grants s d q))"
    by blast
  let ?s = "upd_pcore p (\<lambda>c. c\<lparr> pc_grant_adj_index := (pc_grant_adj_index c)(PARTITION_IDX a := ucast k) \<rparr>) (s\<lparr> ps_grants := gr \<rparr>)"
  have "pim_add_grant p a k s = Some ?s"
    by (simp add: pim_add_grant_def nb gr(1))
  moreover have "p_view ?s = p_view s"
    by (simp add: p_view_def p_defs fun_eq_iff)
  moreover have "p_gidx ?s = (p_gidx s)(a := unat k)"
    using assms(2) k by (auto simp: p_gidx_def fun_eq_iff intro: node_eqI)
  moreover have "p_grants ?s d q = (if d = PARTITION_OF b \<and> q = p then p_grants s d q @ [(a, b)] else p_grants s d q)" for d q
    by (simp add: p_grants_def gr(2) assms(2))
  ultimately show ?thesis
    by (simp add: wp_def)
qed

lemma grants_upto_facts:
  assumes "grants_upto all p (PARTITION_IDX a) s" "unat b < 256"
  shows "length (p_grants s (PARTITION_OF b) p) < 128" "a \<notin> fst ` set (p_grants s 0 p @ p_grants s 1 p)"
    "PARTITION_OF b = 0 \<or> PARTITION_OF b = 1"
proof -
  let ?d = "PARTITION_OF b"
  have g: "grant_ok p (PARTITION_IDX a) s d e" if "d < 2" "e \<in> set (p_grants s d p)" for d e
    using assms(1) that by (simp add: grants_upto_def)
  show d: "?d = 0 \<or> ?d = 1"
    using assms(2) partition_lt by (simp add: less_2_cases_iff [symmetric] partition_lt)
  have "distinct (map fst (p_grants s 0 p @ p_grants s 1 p))"
    using assms(1) by (simp add: grants_upto_def)
  then have "distinct (map fst (p_grants s ?d p))"
    using d by auto
  then have "length (p_grants s ?d p) \<le> PARTITION_IDX a"
    using g [of ?d] assms(2) by (intro length_by_idx [where f = fst and p = p]) (auto simp: distinct_map grant_ok_def partition_lt)
  then show "length (p_grants s ?d p) < 128"
    using idx_lt [of a] by linarith
  show "a \<notin> fst ` set (p_grants s 0 p @ p_grants s 1 p)"
    using g [of 0] g [of 1] by (auto simp: grant_ok_def)
qed

lemma grants_upto_add:
  assumes upto: "grants_upto all p (PARTITION_IDX a) s" and a: "PARTITION_OF a = p"
    and view: "p_reqs s' = p_reqs s" "p_smark s' = p_smark s" "p_dmark s' = p_dmark s" "p_gidx s' = (p_gidx s)(a := k)"
    and gr: "\<And>d q. p_grants s' d q = (if d = PARTITION_OF b \<and> q = p then p_grants s d q @ [(a, b)] else p_grants s d q)"
    and b: "unat b < 256" "k < length (p_reqs s a)" "p_reqs s a ! k = b" "\<not> p_smark s a" "\<not> p_dmark s b"
  shows "grants_upto all p (Suc (PARTITION_IDX a)) s'"
proof -
  let ?n = "PARTITION_IDX a" and ?L = "\<lambda>s. p_grants s 0 p @ p_grants s 1 p"
  note new = grants_upto_facts(2,3) [OF upto b(1)]
  have g: "grant_ok p ?n s d e" if "d < 2" "e \<in> set (p_grants s d p)" for d e
    using upto that by (simp add: grants_upto_def)
  have set: "fst ` set (?L s') = insert a (fst ` set (?L s))"
    using new(2) by (auto simp: gr)
  have "grant_ok p (Suc ?n) s' d e" if "grant_ok p ?n s d e" for d e
    using that by (auto simp: grant_ok_def p_held_def view)
  moreover have "grant_ok p (Suc ?n) s' (PARTITION_OF b) (a, b)"
    using a b by (simp add: grant_ok_def p_held_def view)
  ultimately have "\<forall>d < 2. \<forall>e \<in> set (p_grants s' d p). grant_ok p (Suc ?n) s' d e"
    using g by (simp add: gr)
  moreover have "distinct (map fst (?L s'))"
    using new upto by (elim disjE) (simp_all add: gr image_Un grants_upto_def)
  moreover have "x \<in> fst ` set (?L s')" if "all" "PARTITION_OF x = p" "PARTITION_IDX x < Suc ?n" "p_reqs s' x \<noteq> []" for x
  proof (cases "x = a")
    case False
    then have "PARTITION_IDX x < ?n"
      using that(2,3) a node_eqI [of x a] by (auto simp: less_Suc_eq)
    then show ?thesis
      using upto that unfolding set grants_upto_def view by blast
  qed (simp only: set insertI1)
  ultimately show ?thesis
    unfolding grants_upto_def by blast
qed

lemma add_grant_ok:
  assumes "p < 2" "PARTITION_OF a = p" "unat k < length (p_reqs s a)" "grants_upto all p (PARTITION_IDX a) s"
    and b: "b = p_reqs s a ! unat k" "unat b < 256" "\<not> p_smark s a" "\<not> p_dmark s b"
  shows "wp (pim_add_grant p a k s) (\<lambda>s'. p_other p s' s \<and> grants_upto all p (Suc (PARTITION_IDX a)) s')"
proof (rule wp_mono [OF add_grant_effect [OF assms(1-3) b(1,2) grants_upto_facts(1) [OF assms(4) b(2)]]])
  fix s'
  assume s': "p_view s' = p_view s \<and> p_gidx s' = (p_gidx s)(a := unat k)
    \<and> (\<forall>d q. p_grants s' d q = (if d = PARTITION_OF b \<and> q = p then p_grants s d q @ [(a, b)] else p_grants s d q))"
  then have view: "p_reqs s' = p_reqs s" "p_smark s' = p_smark s" "p_dmark s' = p_dmark s"
    by (simp_all add: p_view_def)
  have "grants_upto all p (Suc (PARTITION_IDX a)) s'"
    using s' by (intro grants_upto_add [OF assms(4,2) view _ _ b(2) assms(3) b(1) [symmetric] b(3,4)]) blast+
  then show "p_other p s' s \<and> grants_upto all p (Suc (PARTITION_IDX a)) s'"
    using s' assms(2) by (auto simp: p_other_def)
qed

subsection \<open>One source\<close>

definition reqs_ok :: "pim_state \<Rightarrow> bool" where
  "reqs_ok s \<longleftrightarrow> (\<forall>a. unat a < 256 \<longrightarrow> distinct (p_reqs s a) \<and> (\<forall>b \<in> set (p_reqs s a). unat b < 256))"

lemma reqs_okD:
  assumes "reqs_ok s" "unat a < 256"
  shows "length (p_reqs s a) \<le> 256" "k < length (p_reqs s a) \<Longrightarrow> unat (p_reqs s a ! k) < 256"
  using assms length_nodes by (auto simp: reqs_ok_def)

lemma degree_reqs: "PARTITION_OF a = p \<Longrightarrow> unat (adj_degree (ps_requests_by_src s p) (PARTITION_IDX a)) = length (p_reqs s a)"
  by (auto simp: p_reqs_def)

lemma degree_zero: "PARTITION_OF a = p \<Longrightarrow> adj_degree (ps_requests_by_src s p) (PARTITION_IDX a) = 0 \<longleftrightarrow> p_reqs s a = []"
  using degree_reqs [of a p s] by (simp add: unat_eq_0 [symmetric])

definition source_post :: "bool \<Rightarrow> nat \<Rightarrow> u16 \<Rightarrow> pim_state \<Rightarrow> pim_state \<Rightarrow> bool" where
  "source_post all p a s s' \<longleftrightarrow> p_other p s' s \<and> grants_upto all p (Suc (PARTITION_IDX a)) s'"

lemma source_post_skip:
  assumes "grants_upto all p (PARTITION_IDX a) s" "PARTITION_OF a = p" "all \<longrightarrow> p_reqs s a = []"
  shows "source_post all p a s s"
  using grants_upto_skip [OF assms(1) refl assms(2,3)] by (simp add: source_post_def)

lemma add_grant_rand:
  assumes "p < 2" "PARTITION_OF a = p" "unat k < length (p_reqs s a)" "grants_upto all p (PARTITION_IDX a) s"
    "reqs_ok s" "\<not> p_smark s a" "\<not> p_dmark s (p_reqs s a ! unat k)"
  shows "wp (pim_add_grant p a k (new_rand p r s)) (source_post all p a s)"
proof -
  have v: "p_reqs (new_rand p r s) = p_reqs s" "p_smark (new_rand p r s) = p_smark s" "p_dmark (new_rand p r s) = p_dmark s"
    using new_rand_view(1) [of p r s] by (simp_all add: p_view_def)
  have "unat a < 256"
    using assms(1,2) partition_lt by blast
  then have "wp (pim_add_grant p a k (new_rand p r s))
      (\<lambda>s'. p_other p s' (new_rand p r s) \<and> grants_upto all p (Suc (PARTITION_IDX a)) s')"
    using assms reqs_okD(2) [OF assms(5)] by (intro add_grant_ok [OF _ _ _ _ refl]) (simp_all add: v grants_upto_rand)
  then show ?thesis
    by (rule wp_mono) (auto simp: source_post_def intro: p_other_trans [OF _ p_other_rand])
qed

lemma rand_index:
  assumes "PARTITION_OF a = p" "unat a < 256" "p_reqs s a \<noteq> []" "reqs_ok s"
  shows "unat (fst (ga_rand r (adj_degree (ps_requests_by_src s p) (PARTITION_IDX a)))) < length (p_reqs s a)"
    "unat (fst (ga_rand r (adj_degree (ps_requests_by_src s p) (PARTITION_IDX a)))) < GA_MAX_DEGREE"
proof -
  show l: "unat (fst (ga_rand r (adj_degree (ps_requests_by_src s p) (PARTITION_IDX a)))) < length (p_reqs s a)"
    using ga_rand_less [of "adj_degree (ps_requests_by_src s p) (PARTITION_IDX a)" r] degree_zero [OF assms(1)] assms(3)
    unfolding degree_reqs [OF assms(1)] by blast
  show "unat (fst (ga_rand r (adj_degree (ps_requests_by_src s p) (PARTITION_IDX a)))) < GA_MAX_DEGREE"
    using l reqs_okD(1) [OF assms(4,2)] by (simp add: GA_MAX_DEGREE_def)
qed

lemma grant_first_ok:
  assumes "p < 2" "i < 128" "reqs_ok s" "grants_upto True p i s" "\<And>a. unat a < 256 \<Longrightarrow> \<not> p_smark s a \<and> \<not> p_dmark s a"
  shows "wp (pim_grant_first p (128 * p + i) s) (source_post True p (node p i) s)"
proof -
  let ?a = "node p i"
  have a: "of_nat (128 * p + i) = ?a" "PARTITION_OF ?a = p" "PARTITION_IDX ?a = i" "unat ?a < 256"
    using assms(1,2) node_parts [of p i] by (simp_all add: node_def PARTITION_N_NODES_def)
  obtain k r where kr: "ga_rand (pc_rand (ps_cores s p)) (adj_degree (ps_requests_by_src s p) i) = (k, r)"
    by force
  show ?thesis
  proof (cases "p_reqs s ?a = []")
    case True
    then show ?thesis
      using source_post_skip [of True p ?a s] assms(4) degree_zero [OF a(2), of s] a
      unfolding pim_grant_first_def Let_def a(1) by simp
  next
    case False
    note k = rand_index [OF a(2,4) False assms(3), of "pc_rand (ps_cores s p)", unfolded a(3) kr fst_conv]
    have "wp (pim_add_grant p ?a k (new_rand p r s)) (source_post True p ?a s)"
      using assms a k reqs_okD(2) [OF assms(3) a(4) k(1)] by (intro add_grant_rand) simp_all
    then show ?thesis
      using degree_zero [OF a(2), of s] False k(2)
      unfolding pim_grant_first_def Let_def a(1) by (simp add: a kr new_rand_def)
  qed
qed

lemma find_dst_ok:
  assumes "p < 2" "PARTITION_OF a = p" "reqs_ok s" "p_reqs s a \<noteq> []"
  shows "wp (pim_find_dst tries p a (adj_degree (ps_requests_by_src s p) (PARTITION_IDX a)) s) (\<lambda>(busy, k, s').
    (\<exists>r. s' = new_rand p r s) \<and> unat k < length (p_reqs s a) \<and> busy = p_dmark s (p_reqs s a ! unat k))"
  using assms(3,4)
proof (induction tries arbitrary: s rule: less_induct)
  case (less tries)
  let ?d = "adj_degree (ps_requests_by_src s p) (PARTITION_IDX a)"
  obtain k r where kr: "ga_rand (pc_rand (ps_cores s p)) ?d = (k, r)"
    by force
  have a: "unat a < 256"
    using assms(1,2) partition_lt by blast
  note k = rand_index [OF assms(2) a less.prems(2,1), of "pc_rand (ps_cores s p)", unfolded kr fst_conv]
  have v: "p_reqs (new_rand p r s) = p_reqs s" "p_dmark (new_rand p r s) = p_dmark s" "reqs_ok (new_rand p r s)"
    using new_rand_view(1) [of p r s] less.prems(1) by (simp_all add: p_view_def reqs_ok_def)
  have nb: "adj_neigh (ps_requests_by_src s p) (PARTITION_IDX a) (unat k) = p_reqs s a ! unat k"
    using k(1) assms(2) by (auto simp: p_reqs_def nbrs_nth)
  have al: "dst_is_allocated (new_rand p r s) (p_reqs s a ! unat k) = Some (p_dmark s (p_reqs s a ! unat k))"
    using dst_is_allocated_marked [OF reqs_okD(2) [OF less.prems(1) a k(1)]] v(2) by (simp add: p_dmark_def fun_eq_iff)
  have rs: "ps_requests_by_src (new_rand p r s) = ps_requests_by_src s"
    by (simp add: new_rand_def)
  have again: "wp (pim_find_dst (tries - 1) p a ?d (new_rand p r s)) (\<lambda>(busy, k, s').
      (\<exists>r. s' = new_rand p r s) \<and> unat k < length (p_reqs s a) \<and> busy = p_dmark s (p_reqs s a ! unat k))"
    if "1 < tries"
    using less.IH [of "tries - 1" "new_rand p r s"] that less.prems(2)
    by (simp add: v rs new_rand_twice)
  show ?case
    using k again nb al
    by (subst pim_find_dst.simps) (auto simp: kr new_rand_def [symmetric] rs)
qed

lemma grant_one_ok:
  assumes "p < 2" "i < 128" "reqs_ok s" "grants_upto False p i s"
  shows "wp (pim_grant_one p (128 * p + i) s) (source_post False p (node p i) s)"
proof -
  let ?a = "node p i"
  have a: "of_nat (128 * p + i) = ?a" "PARTITION_OF ?a = p" "PARTITION_IDX ?a = i" "unat ?a < 256"
    using assms(1,2) node_parts [of p i] by (simp_all add: node_def PARTITION_N_NODES_def)
  have m: "src_is_allocated (ps_cores s p) ?a = p_smark s ?a"
    by (simp add: src_is_allocated_marked p_smark_def a)
  have skip: "source_post False p ?a s (new_rand p r s)" for r
    using grants_upto_skip [of False p i s ?a] assms(4) a by (simp add: source_post_def grants_upto_rand)
  have "source_post False p ?a s s"
    using assms(4) a by (intro source_post_skip) simp_all
  then show ?thesis
  proof (cases "p_smark s ?a \<or> p_reqs s ?a = []")
    case False
    have "wp (pim_find_dst MAX_TRIES p ?a (adj_degree (ps_requests_by_src s p) i) s) (\<lambda>(busy, k, s').
        wp (if busy then Some s' else pim_add_grant p ?a k s') (source_post False p ?a s))"
      using False
      by (intro wp_mono [OF find_dst_ok [OF assms(1) a(2) assms(3), unfolded a(3)]])
        (auto intro!: skip add_grant_rand simp: assms a)
    then show ?thesis
      using False degree_zero [OF a(2), of s]
      unfolding pim_grant_one_def Let_def a(1) by (simp add: a m case_prod_unfold)
  qed (use degree_zero [OF a(2), of s] in \<open>auto simp: pim_grant_one_def Let_def a m simp del: of_nat_add\<close>)
qed

subsection \<open>All sources of a partition\<close>

lemma reset_grants:
  assumes "p < 2"
  shows "p_other p (s\<lparr> ps_grants := ga_partd_edgelist_src_reset (ps_grants s) p \<rparr>) s"
    "grants_upto all p 0 (s\<lparr> ps_grants := ga_partd_edgelist_src_reset (ps_grants s) p \<rparr>)"
proof -
  let ?s = "s\<lparr> ps_grants := ga_partd_edgelist_src_reset (ps_grants s) p \<rparr>"
  have "p_grants ?s d q = p_grants s d q" if "q \<noteq> p" for d q
    using that by (simp add: p_grants_def ga_partd_edgelist_src_reset_def)
  then show "p_other p ?s s"
    by (simp add: p_other_def p_view_def p_defs fun_eq_iff)
  have "p_grants ?s d p = []" if "d < 2" for d
    using src_reset_edges [OF that] by (simp add: p_grants_def)
  then show "grants_upto all p 0 ?s"
    by (simp add: grants_upto_def)
qed

lemma grant_loop:
  assumes "p < 2" "reqs_ok s" "p_other p s' s" "grants_upto all p 0 s'"
    and step: "\<And>i u. i < 128 \<Longrightarrow> reqs_ok u \<Longrightarrow> p_view u = p_view s \<Longrightarrow> grants_upto all p i u
      \<Longrightarrow> wp (f (128 * p + i) u) (source_post all p (node p i) u)"
  shows "wp (foldo f [first_in_partition p..<Suc (last_in_partition p)] s') (\<lambda>u. p_other p u s \<and> grants_upto all p 128 u)"
proof -
  let ?ns = "map (\<lambda>i. 128 * p + i) [0..<128]"
  have "wp (foldo f ?ns s') (\<lambda>u. p_other p u s \<and> grants_upto all p (length ?ns) u)"
  proof (rule wp_foldo)
    show "p_other p s' s \<and> grants_upto all p 0 s'"
      using assms(3,4) by simp
  next
    fix i u
    assume i: "i < length ?ns" and u: "p_other p u s \<and> grants_upto all p i u"
    have "reqs_ok u" "p_view u = p_view s"
      using assms(2) u by (simp_all add: p_other_def p_view_def reqs_ok_def)
    moreover have "PARTITION_IDX (node p i) = i"
      using i assms(1) node_parts by (simp add: length_map)
    moreover have n: "?ns ! i = 128 * p + i" "i < 128"
      using i by simp_all
    ultimately have "wp (f (?ns ! i) u) (source_post all p (node p i) u)" "PARTITION_IDX (node p i) = i"
      using u step [of i u] by simp_all
    then show "wp (f (?ns ! i) u) (\<lambda>u. p_other p u s \<and> grants_upto all p (Suc i) u)"
      using u p_other_trans by (elim wp_mono) (auto simp: source_post_def)
  qed
  then show ?thesis
    unfolding node_range [OF assms(1)] by simp
qed

lemma do_grant_first_ok:
  assumes "p < 2" "reqs_ok s" "\<And>a. unat a < 256 \<Longrightarrow> \<not> p_smark s a \<and> \<not> p_dmark s a"
  shows "wp (pim_do_grant_first_it p s) (\<lambda>u. p_other p u s \<and> grants_upto True p 128 u)"
  unfolding pim_do_grant_first_it_def
  by (intro grant_loop reset_grants grant_first_ok) (use assms in \<open>simp_all add: p_view_def\<close>)

lemma do_grant_ok:
  assumes "p < 2" "reqs_ok s"
  shows "wp (pim_do_grant p s) (\<lambda>u. p_other p u s \<and> grants_upto False p 128 u)"
  unfolding pim_do_grant_def by (intro grant_loop reset_grants grant_one_ok) (use assms in simp_all)

lemma grant_phase:
  assumes "reqs_ok s"
    and step: "\<And>p u. p < 2 \<Longrightarrow> reqs_ok u \<Longrightarrow> p_view u = p_view s \<Longrightarrow> wp (f p u) (\<lambda>u'. p_other p u' u \<and> grants_upto all p 128 u')"
  shows "wp (foldo f [0..<N_PARTITIONS] s) (\<lambda>u. p_view u = p_view s \<and> (\<forall>p < 2. grants_upto all p 128 u))"
proof -
  have "wp (foldo f [0..<2] s) (\<lambda>u. p_view u = p_view s \<and> (\<forall>p < 2. grants_upto all p 128 u))"
  proof (rule wp_upto [where P = "\<lambda>n u. p_view u = p_view s \<and> (\<forall>p < n. grants_upto all p 128 u)"])
    fix i u
    assume i: "i < 2" and u: "p_view u = p_view s \<and> (\<forall>p < i. grants_upto all p 128 u)"
    have "reqs_ok u"
      using assms(1) u by (simp add: p_view_def reqs_ok_def)
    then have "wp (f i u) (\<lambda>u'. p_other i u' u \<and> grants_upto all i 128 u')"
      using i u step by blast
    then show "wp (f i u) (\<lambda>u. p_view u = p_view s \<and> (\<forall>p < Suc i. grants_upto all p 128 u))"
    proof (rule wp_mono)
      fix u'
      assume u': "p_other i u' u \<and> grants_upto all i 128 u'"
      then have "grants_upto all p 128 u'" if "p < i" for p
        using u that grants_upto_frame [of i u' u p all 128] by simp
      then show "p_view u' = p_view s \<and> (\<forall>p < Suc i. grants_upto all p 128 u')"
        using u u' by (auto simp: p_other_def less_Suc_eq)
    qed
  qed simp
  then show ?thesis
    by simp
qed

end
