(* ===== verification/FP_Pim_Accept.thy ===== *)
theory FP_Pim_Accept
  imports FP_Pim_Grant
begin

text \<open>
  The accepts of a partition: each of its destinations accepts one of the sources that granted
  it, if there is one. \<^verbatim>\<open>accept_inv R N s\<close> holds when the destinations below \<^verbatim>\<open>N\<close> have chosen.
\<close>

definition p_gra :: "pim_state \<Rightarrow> node_pair set" where
  "p_gra s = {e. \<exists>d < 2. \<exists>q < 2. e \<in> set (p_grants s d q)}"

definition p_acc :: "pim_state \<Rightarrow> node_pair set" where
  "p_acc s = {e. \<exists>d < 2. \<exists>q < 2. e \<in> set (p_accepts s d q)}"

definition grants_inv :: "nat \<Rightarrow> pim_state \<Rightarrow> bool" where
  "grants_inv N s \<longleftrightarrow> inj_on fst (p_gra s) \<and> (\<forall>d < 2. \<forall>q < 2. length (p_grants s d q) \<le> 128
     \<and> (\<forall>e \<in> set (p_grants s d q). PARTITION_OF (fst e) = q \<and> PARTITION_OF (snd e) = d \<and> p_held s e
          \<and> \<not> p_smark s (fst e) \<and> p_dmark s (snd e) = (unat (snd e) < N)))"

definition accepts_inv :: "nat \<Rightarrow> pim_state \<Rightarrow> bool" where
  "accepts_inv N s \<longleftrightarrow> (\<forall>d < 2. \<forall>q < 2. distinct (p_accepts s d q)
     \<and> (\<forall>e \<in> set (p_accepts s d q). PARTITION_OF (fst e) = q \<and> PARTITION_OF (snd e) = d \<and> unat (snd e) < N))"

definition accept_inv :: "(u16 \<Rightarrow> u16 set) \<Rightarrow> nat \<Rightarrow> pim_state \<Rightarrow> bool" where
  "accept_inv R N s \<longleftrightarrow> pim_inv R (p_acc s) s \<and> p_acc s \<subseteq> p_gra s \<and> grants_inv N s \<and> accepts_inv N s"

text \<open>What the accepts keep.\<close>

definition a_view :: "pim_state \<Rightarrow> _" where
  "a_view s = (p_reqs s, p_adm s, p_smark s, p_gidx s, p_grants s, ps_q_admitted_out s, ps_backlog s)"

subsection \<open>Grants by destination\<close>

definition sources_of :: "nat \<Rightarrow> node_pair list \<Rightarrow> u16 list" where
  "sources_of i es = map fst (filter (\<lambda>e. PARTITION_IDX (snd e) = i) es)"

lemma edges_nth: "k < unat (el_n el) \<Longrightarrow> el_pairs el ! k = (ga_src (el_edge el k), ga_dst (el_edge el k))"
  by (simp add: el_pairs_def edge_pair_def)

lemma length_sources: "length (sources_of i es) \<le> length es"
  by (simp add: sources_of_def)

lemma edges_to_adj_ok:
  assumes "length (el_pairs el) \<le> 128" "\<And>i. i < 128 \<Longrightarrow> length (nbrs adj i) \<le> 128"
  shows "wp (ga_edges_to_adj_by_dst (el_edge el) (el_n el) adj)
    (\<lambda>adj'. nbrs adj' = (\<lambda>i. nbrs adj i @ sources_of i (el_pairs el)))"
proof -
  have "wp (foldo (\<lambda>i adj. do { guard_o (i < EDGELIST_PARTITION_MAX_EDGES);
        ga_adj_add_edge_by_dst adj (ga_src (el_edge el i)) (PARTITION_IDX (ga_dst (el_edge el i))) }) [0..<unat (el_n el)] adj)
      (\<lambda>adj'. nbrs adj' = (\<lambda>i. nbrs adj i @ sources_of i (take (unat (el_n el)) (el_pairs el))))"
  proof (rule wp_upto [where P = "\<lambda>n adj'. nbrs adj' = (\<lambda>i. nbrs adj i @ sources_of i (take n (el_pairs el)))"])
    show "nbrs adj = (\<lambda>i. nbrs adj i @ sources_of i (take 0 (el_pairs el)))"
      by (simp add: sources_of_def)
  next
    fix k adj'
    assume k: "k < unat (el_n el)" and adj': "nbrs adj' = (\<lambda>i. nbrs adj i @ sources_of i (take k (el_pairs el)))"
    let ?a = "ga_src (el_edge el k)" and ?i = "PARTITION_IDX (ga_dst (el_edge el k))"
    have "length (sources_of ?i (take k (el_pairs el))) \<le> k"
      using length_sources [of ?i "take k (el_pairs el)"] by simp
    then have "length (nbrs adj' ?i) < 256"
      using k assms(1) assms(2) [OF idx_lt [of "ga_dst (el_edge el k)"]]
      by (simp add: adj' del: length_nbrs)
    from add_by_src_ok [OF idx_lt this, of ?a]
    have "wp (ga_adj_add_edge_by_dst adj' ?a ?i) (\<lambda>adj''. nbrs adj'' = (nbrs adj')(?i := nbrs adj' ?i @ [?a]))"
      by (simp add: add_by_dst_eq)
    moreover have "(nbrs adj')(?i := nbrs adj' ?i @ [?a]) = (\<lambda>i. nbrs adj i @ sources_of i (take (Suc k) (el_pairs el)))"
      using k by (auto simp: adj' fun_eq_iff sources_of_def take_Suc_conv_app_nth edges_nth)
    ultimately show "wp (do { guard_o (k < EDGELIST_PARTITION_MAX_EDGES); ga_adj_add_edge_by_dst adj' ?a ?i })
        (\<lambda>adj''. nbrs adj'' = (\<lambda>i. nbrs adj i @ sources_of i (take (Suc k) (el_pairs el))))"
      using k assms(1) by (simp add: EDGELIST_PARTITION_MAX_EDGES_def PARTITION_N_NODES_def)
  qed
  then show ?thesis
    by (simp add: ga_edges_to_adj_by_dst_def)
qed

definition by_dst :: "nat \<Rightarrow> pim_state \<Rightarrow> ga_adj \<Rightarrow> bool" where
  "by_dst p s adj \<longleftrightarrow> (\<forall>i < 128. nbrs adj i = sources_of i (p_grants s p 0 @ p_grants s p 1))"

lemma to_adj_ok:
  assumes "grants_inv N s" "p < 2"
  shows "wp (ga_edgelist_to_adj_by_dst (ps_grants s) p (ga_reset_adj adj)) (by_dst p s)"
proof -
  have l: "length (el_pairs (ps_grants s p q)) \<le> 128" if "q < 2" for q
    using assms that by (simp add: grants_inv_def p_grants_def)
  have step: "wp (ga_edges_to_adj_by_dst (el_edge (ps_grants s p 1)) (el_n (ps_grants s p 1)) adj') (by_dst p s)"
    if adj': "nbrs adj' = (\<lambda>i. nbrs (ga_reset_adj adj) i @ sources_of i (el_pairs (ps_grants s p 0)))" for adj'
  proof (rule wp_mono [OF edges_to_adj_ok])
    show "length (el_pairs (ps_grants s p 1)) \<le> 128"
      using l by simp
    show "length (nbrs adj' i) \<le> 128" if i: "i < 128" for i
      using i nbrs_reset order_trans [OF length_sources l [of 0]] unfolding adj' by (simp del: length_nbrs)
    show "by_dst p s adj''" if "nbrs adj'' = (\<lambda>i. nbrs adj' i @ sources_of i (el_pairs (ps_grants s p 1)))" for adj''
      using that adj' by (simp add: by_dst_def nbrs_reset p_grants_def sources_of_def)
  qed
  have "wp (ga_edges_to_adj_by_dst (el_edge (ps_grants s p 0)) (el_n (ps_grants s p 0)) (ga_reset_adj adj))
      (\<lambda>adj'. wp (ga_edges_to_adj_by_dst (el_edge (ps_grants s p 1)) (el_n (ps_grants s p 1)) adj') (by_dst p s))"
    by (rule wp_mono [OF edges_to_adj_ok [OF l]]) (simp_all add: nbrs_reset step del: length_nbrs One_nat_def)
  then show ?thesis
    unfolding ga_edgelist_to_adj_by_dst_def partition_list by simp
qed

lemma by_dst_set:
  assumes "by_dst p s adj" "grants_inv N s" "p < 2" "PARTITION_OF b = p"
  shows "set (nbrs adj (PARTITION_IDX b)) = {a. (a, b) \<in> p_gra s}" "length (nbrs adj (PARTITION_IDX b)) \<le> 256"
proof -
  have nb: "nbrs adj (PARTITION_IDX b) = sources_of (PARTITION_IDX b) (p_grants s p 0 @ p_grants s p 1)"
    using assms(1) idx_lt by (simp add: by_dst_def)
  have dst: "PARTITION_OF (snd e) = d" if "d < 2" "q < 2" "e \<in> set (p_grants s d q)" for d q e
    using assms(2,3) that by (auto simp: grants_inv_def)
  show "length (nbrs adj (PARTITION_IDX b)) \<le> 256"
  proof -
    have "length (p_grants s p 0) \<le> 128" "length (p_grants s p 1) \<le> 128"
      using assms(2,3) by (simp_all add: grants_inv_def)
    then show ?thesis
      unfolding nb by (intro order_trans [OF length_sources]) simp
  qed
  let ?L = "p_grants s p 0 @ p_grants s p 1"
  have gra: "(a, b) \<in> p_gra s \<longleftrightarrow> (a, b) \<in> set ?L" for a
  proof
    assume "(a, b) \<in> p_gra s"
    then obtain d q where e: "d < 2" "q < 2" "(a, b) \<in> set (p_grants s d q)"
      by (auto simp: p_gra_def)
    then have "d = p"
      using dst [OF e] assms(4) by simp
    then show "(a, b) \<in> set ?L"
      using e by (auto simp: less_2_cases_iff)
  next
    assume "(a, b) \<in> set ?L"
    then show "(a, b) \<in> p_gra s"
      using assms(3) unfolding p_gra_def set_append Un_iff mem_Collect_eq by (metis one_less_numeral_iff semiring_norm(76) zero_less_numeral)
  qed
  have "snd e = b" if "e \<in> set ?L" "PARTITION_IDX (snd e) = PARTITION_IDX b" for e
  proof -
    have "PARTITION_OF (snd e) = p"
      using that(1) dst [OF assms(3), of 0 e] dst [OF assms(3), of 1 e] by auto
    then show ?thesis
      using that(2) assms(4) by (intro node_eqI) simp_all
  qed
  then have "a \<in> set (sources_of (PARTITION_IDX b) ?L) \<longleftrightarrow> (a, b) \<in> set ?L" for a
    unfolding sources_of_def set_map set_filter by force
  then show "set (nbrs adj (PARTITION_IDX b)) = {a. (a, b) \<in> p_gra s}"
    unfolding nb gra by blast
qed

subsection \<open>One destination\<close>

lemma accept_effect:
  assumes "unat a < 256" "unat b < 256" "PARTITION_OF b = p" "length (p_accepts s p (PARTITION_OF a)) < 128"
  shows "wp (do { accepts \<leftarrow> ga_partd_edgelist_add (ps_accepts s) a b;
      Some (upd_pcore p (mark_dst_allocated b) (new_rand p r (s\<lparr> ps_accepts := accepts \<rparr>))) })
    (\<lambda>s'. a_view s' = a_view s \<and> ps_grants_by_dst s' = ps_grants_by_dst s \<and> p_dmark s' = (p_dmark s)(b := True)
      \<and> (\<forall>d q. p_accepts s' d q = (if d = p \<and> q = PARTITION_OF a then p_accepts s d q @ [(a, b)] else p_accepts s d q)))"
proof -
  have "length (el_pairs (ps_accepts s (PARTITION_OF b) (PARTITION_OF a))) < 128"
    using assms(3,4) by (simp add: p_accepts_def)
  from wpD [OF partd_add_ok [of a b "ps_accepts s", OF assms(1,2) this]] obtain ac where
    ac: "ga_partd_edgelist_add (ps_accepts s) a b = Some ac"
      "\<And>d q. el_pairs (ac d q) = (if d = PARTITION_OF b \<and> q = PARTITION_OF a then el_pairs (ps_accepts s d q) @ [(a, b)]
        else el_pairs (ps_accepts s d q))"
    by blast
  let ?s = "upd_pcore p (mark_dst_allocated b) (new_rand p r (s\<lparr> ps_accepts := ac \<rparr>))"
  have sel: "pc_admitted (mark_dst_allocated b c) = pc_admitted c" "pc_src_endnodes (mark_dst_allocated b c) = pc_src_endnodes c"
    "pc_grant_adj_index (mark_dst_allocated b c) = pc_grant_adj_index c" for c
    by (simp_all add: mark_dst_allocated_def Let_def)
  have "a_view ?s = a_view s"
    by (simp add: a_view_def p_defs new_rand_def fun_eq_iff sel)
  moreover have "p_dmark ?s = (p_dmark s)(b := True)"
    using assms(3) by (auto simp: p_dmark_def new_rand_def fun_eq_iff mark_dst_marked(1) intro: node_eqI)
  moreover have "p_accepts ?s d q = (if d = p \<and> q = PARTITION_OF a then p_accepts s d q @ [(a, b)] else p_accepts s d q)" for d q
    by (simp add: p_accepts_def new_rand_def ac(2) assms(3))
  ultimately show ?thesis
    by (simp add: ac(1) new_rand_def)
qed

lemma pim_inv_insert:
  assumes inv: "pim_inv R X s" and view: "a_view s' = a_view s" "p_dmark s' = (p_dmark s)(b := True)"
    and e: "p_held s (a, b)" "unat a < 256" "unat b < 256" "\<not> p_smark s a" "\<not> p_dmark s b" "a \<notin> fst ` X"
  shows "pim_inv R (insert (a, b) X) s'"
proof -
  have v: "p_reqs s' = p_reqs s" "p_adm s' = p_adm s" "p_smark s' = p_smark s" "p_gidx s' = p_gidx s" "p_admset s' = p_admset s"
    using view(1) by (simp_all add: a_view_def p_admset_def)
  have i: "pim_req_inv R s" "pim_adm_inv s" "pim_match_inv R (p_admset s \<union> X)" "pim_mark_inv (p_admset s \<union> X) s"
    "p_admset s \<inter> X = {}" "\<forall>e \<in> X. p_held s e"
    using inv by (simp_all add: pim_inv_def)
  have new: "a \<notin> fst ` (p_admset s \<union> X)" "b \<notin> snd ` (p_admset s \<union> X)"
    using i(4) e by (auto simp: pim_mark_inv_def image_Un)
  have "b \<in> set (p_reqs s a)"
    using e(1) nth_mem by (fastforce simp: p_held_def)
  then have "b \<in> R a"
    using i(1) e(2) by (auto simp: pim_req_inv_def)
  then have "pim_match_inv R (p_admset s \<union> insert (a, b) X)"
    using i(3) new e(2,3) by (auto simp: pim_match_inv_def pair_ok_def inj_on_insert)
  moreover have "pim_mark_inv (p_admset s \<union> insert (a, b) X) s'"
    using i(4) view(2) by (auto simp: pim_mark_inv_def v)
  moreover have "p_admset s \<inter> insert (a, b) X = {}"
    using i(5) new(1) by force
  moreover have "\<forall>e \<in> insert (a, b) X. p_held s' e"
    using i(6) e(1) by (simp add: p_held_def v)
  ultimately show ?thesis
    using i(1,2) by (simp add: pim_inv_def pim_req_inv_def pim_adm_inv_def v)
qed

lemma accept_inv_skip:
  assumes "accept_inv R (unat b) s" "\<And>a. (a, b) \<notin> p_gra s"
  shows "accept_inv R (Suc (unat b)) s"
proof -
  have "(unat (snd e) < Suc (unat b)) = (unat (snd e) < unat b)" if "d < 2" "q < 2" "e \<in> set (p_grants s d q)" for d q e
  proof -
    have "snd e \<noteq> b"
      using assms(2) [of "fst e"] that by (auto simp: p_gra_def)
    then show ?thesis
      by (auto simp: less_Suc_eq word_unat_eq_iff)
  qed
  then have "grants_inv (Suc (unat b)) s"
    using assms(1) by (auto simp: accept_inv_def grants_inv_def)
  moreover have "accepts_inv (Suc (unat b)) s"
    using assms(1) by (fastforce simp: accept_inv_def accepts_inv_def)
  ultimately show ?thesis
    using assms(1) by (simp add: accept_inv_def)
qed

lemma gra_facts:
  assumes "grants_inv N s" "(a, b) \<in> p_gra s"
  shows "p_held s (a, b)" "\<not> p_smark s a" "p_dmark s b = (unat b < N)" "unat a < 256" "unat b < 256"
    "(a, b') \<in> p_gra s \<Longrightarrow> b' = b"
proof -
  obtain d q where e: "d < 2" "q < 2" "(a, b) \<in> set (p_grants s d q)"
    using assms(2) by (auto simp: p_gra_def)
  have "\<forall>e \<in> set (p_grants s d q). PARTITION_OF (fst e) = q \<and> PARTITION_OF (snd e) = d \<and> p_held s e
      \<and> \<not> p_smark s (fst e) \<and> p_dmark s (snd e) = (unat (snd e) < N)"
    using assms(1) e(1,2) by (simp add: grants_inv_def)
  from bspec [OF this e(3)]
  show "p_held s (a, b)" "\<not> p_smark s a" "p_dmark s b = (unat b < N)" "unat a < 256" "unat b < 256"
    using e(1,2) by (simp_all add: partition_lt [symmetric])
  show "b' = b" if "(a, b') \<in> p_gra s"
    using assms that inj_onD [of fst "p_gra s" "(a, b')" "(a, b)"] by (simp add: grants_inv_def)
qed

lemma acc_add:
  assumes "PARTITION_OF a < 2" "PARTITION_OF b < 2"
    and acc: "\<And>d q. p_accepts s' d q =
        (if d = PARTITION_OF b \<and> q = PARTITION_OF a then p_accepts s d q @ [(a, b)] else p_accepts s d q)"
  shows "p_acc s' = insert (a, b) (p_acc s)" "accepts_inv (unat b) s \<Longrightarrow> accepts_inv (Suc (unat b)) s'"
proof -
  have "e \<in> set (p_accepts s' d q) \<longleftrightarrow>
      e \<in> set (p_accepts s d q) \<or> e = (a, b) \<and> d = PARTITION_OF b \<and> q = PARTITION_OF a" for e d q
    by (auto simp: acc)
  then show "p_acc s' = insert (a, b) (p_acc s)"
    using assms(1,2) unfolding p_acc_def by blast
  assume inv: "accepts_inv (unat b) s"
  have "distinct (p_accepts s' d q) \<and> (\<forall>e \<in> set (p_accepts s' d q).
      PARTITION_OF (fst e) = q \<and> PARTITION_OF (snd e) = d \<and> unat (snd e) < Suc (unat b))" if "d < 2" "q < 2" for d q
  proof -
    have "distinct (p_accepts s d q)" "\<forall>e \<in> set (p_accepts s d q).
        PARTITION_OF (fst e) = q \<and> PARTITION_OF (snd e) = d \<and> unat (snd e) < unat b"
      using inv that by (simp_all add: accepts_inv_def)
    then show ?thesis
      by (auto simp: acc less_Suc_eq)
  qed
  then show "accepts_inv (Suc (unat b)) s'"
    by (simp add: accepts_inv_def)
qed

lemma accept_inv_add:
  assumes inv: "accept_inv R (unat b) s" and gra: "(a, b) \<in> p_gra s"
    and s': "a_view s' = a_view s" "p_dmark s' = (p_dmark s)(b := True)"
      "\<And>d q. p_accepts s' d q =
        (if d = PARTITION_OF b \<and> q = PARTITION_OF a then p_accepts s d q @ [(a, b)] else p_accepts s d q)"
  shows "accept_inv R (Suc (unat b)) s'"
proof -
  have i: "pim_inv R (p_acc s) s" "p_acc s \<subseteq> p_gra s" "grants_inv (unat b) s" "accepts_inv (unat b) s"
    using inv by (simp_all add: accept_inv_def)
  note g = gra_facts [OF i(3) gra]
  have v: "p_reqs s' = p_reqs s" "p_smark s' = p_smark s" "p_gidx s' = p_gidx s" "p_grants s' = p_grants s"
    using s'(1) by (simp_all add: a_view_def)
  have held: "p_held s' = p_held s" and gra': "p_gra s' = p_gra s"
    by (simp_all add: p_held_def p_gra_def fun_eq_iff v)
  have part: "PARTITION_OF a < 2" "PARTITION_OF b < 2"
    using g(4,5) by (simp_all add: partition_lt)
  note acc = acc_add(1) [OF part s'(3)]
  have "a \<notin> fst ` p_acc s"
  proof
    assume "a \<in> fst ` p_acc s"
    then obtain b' where b': "(a, b') \<in> p_acc s"
      by force
    then have "(a, b) \<in> p_acc s"
      using g(6) i(2) by blast
    then have "p_dmark s b"
      using i(1) g(5) by (force simp: pim_inv_def pim_mark_inv_def)
    then show False
      using g(3) by simp
  qed
  then have "pim_inv R (p_acc s') s'"
    unfolding acc using g by (intro pim_inv_insert [OF i(1) s'(1,2)]) simp_all
  moreover have "p_acc s' \<subseteq> p_gra s'"
    using i(2) gra by (simp add: acc gra')
  moreover have "grants_inv (Suc (unat b)) s'"
  proof -
    have "p_dmark s' (snd e) = (unat (snd e) < Suc (unat b))" if "p_dmark s (snd e) = (unat (snd e) < unat b)" for e
      using that by (auto simp: s'(2) less_Suc_eq word_unat_eq_iff)
    then show ?thesis
      using i(3) unfolding grants_inv_def gra' held v by blast
  qed
  moreover have "accepts_inv (Suc (unat b)) s'"
    by (rule acc_add(2) [OF part s'(3) i(4)])
  ultimately show ?thesis
    by (simp add: accept_inv_def)
qed

definition dest_post :: "(u16 \<Rightarrow> u16 set) \<Rightarrow> u16 \<Rightarrow> pim_state \<Rightarrow> pim_state \<Rightarrow> bool" where
  "dest_post R b s s' \<longleftrightarrow> a_view s' = a_view s \<and> ps_grants_by_dst s' = ps_grants_by_dst s \<and> accept_inv R (Suc (unat b)) s'"

lemma accepts_room:
  assumes "accept_inv R (unat b) s" "PARTITION_OF b = p" "p < 2" "q < 2"
  shows "length (p_accepts s p q) < 128"
proof -
  have i: "distinct (p_accepts s p q)" "\<And>e. e \<in> set (p_accepts s p q) \<Longrightarrow> PARTITION_OF (snd e) = p \<and> unat (snd e) < unat b"
    using assms by (simp_all add: accept_inv_def accepts_inv_def)
  have "inj_on snd (p_acc s)"
    using assms(1) by (auto simp: accept_inv_def pim_inv_def pim_match_inv_def intro: inj_on_subset)
  then have "inj_on snd (set (p_accepts s p q))"
    using assms(3,4) by (auto simp: p_acc_def intro: inj_on_subset)
  then have "length (p_accepts s p q) \<le> PARTITION_IDX b"
  proof (intro length_by_idx [where f = snd and p = p] i(1))
    fix e
    assume "e \<in> set (p_accepts s p q)"
    then show "PARTITION_OF (snd e) = p \<and> PARTITION_IDX (snd e) < PARTITION_IDX b"
      using i(2) [of e] assms(2) unat_node [of b] unat_node [of "snd e"] by simp
  qed
  then show ?thesis
    using idx_lt [of b] by linarith
qed

lemma accept_one_ok:
  assumes "p < 2" "i < 128" "accept_inv R (128 * p + i) s" "by_dst p s (ps_grants_by_dst s p)"
  shows "wp (pim_accept_one p (128 * p + i) s) (dest_post R (node p i) s)"
proof -
  let ?b = "node p i" and ?adj = "ps_grants_by_dst s p"
  have b: "of_nat (128 * p + i) = ?b" "PARTITION_OF ?b = p" "PARTITION_IDX ?b = i" "unat ?b = 128 * p + i"
    using assms(1,2) node_parts [of p i] by (simp_all add: node_def PARTITION_N_NODES_def)
  have inv: "accept_inv R (unat ?b) s" and gi: "grants_inv (unat ?b) s"
    using assms(3) by (simp_all add: b accept_inv_def)
  note nb = by_dst_set [OF assms(4) gi assms(1) b(2), unfolded b(3)]
  obtain k r where kr: "ga_rand (pc_rand (ps_cores s p)) (adj_degree ?adj i) = (k, r)"
    by force
  show ?thesis
  proof (cases "adj_degree ?adj i = 0")
    case True
    then have "(a, ?b) \<notin> p_gra s" for a
      using nb(1) by (simp add: nbrs_def set_eq_iff)
    then show ?thesis
      using accept_inv_skip [OF inv] True
      unfolding pim_accept_one_def Let_def b(1) by (simp add: b dest_post_def)
  next
    case False
    have k: "unat k < unat (adj_degree ?adj i)"
      using ga_rand_less [OF False, of "pc_rand (ps_cores s p)"] by (simp add: kr)
    let ?a = "adj_neigh ?adj i (unat k)"
    have gra: "(?a, ?b) \<in> p_gra s"
      using nb(1) nth_mem [of "unat k" "nbrs ?adj i"] k by (simp add: nbrs_nth set_eq_iff)
    note g = gra_facts [OF gi gra]
    have "length (p_accepts s p (PARTITION_OF ?a)) < 128"
      using accepts_room [OF inv b(2) assms(1)] g(4) by (simp add: partition_lt)
    note eff = accept_effect [OF g(4,5) b(2) this, of r]
    have "wp (do { accepts \<leftarrow> ga_partd_edgelist_add (ps_accepts s) ?a ?b;
        Some (upd_pcore p (mark_dst_allocated ?b) (new_rand p r (s\<lparr> ps_accepts := accepts \<rparr>))) }) (dest_post R ?b s)"
      by (rule wp_mono [OF eff]) (auto simp: dest_post_def b intro!: accept_inv_add [OF inv gra, unfolded b(4)])
    then show ?thesis
      using False k nb(2)
      unfolding pim_accept_one_def Let_def b(1) by (simp add: b kr new_rand_def GA_MAX_DEGREE_def)
  qed
qed

subsection \<open>All destinations\<close>

lemma do_accept_ok:
  assumes "p < 2" "accept_inv R (128 * p) s"
  shows "wp (pim_do_accept p s) (\<lambda>s'. a_view s' = a_view s \<and> accept_inv R (128 * Suc p) s')"
proof -
  let ?ns = "map (\<lambda>i. 128 * p + i) [0..<128]"
  have loop: "wp (foldo (pim_accept_one p) [first_in_partition p..<Suc (last_in_partition p)]
        (s\<lparr> ps_grants_by_dst := (ps_grants_by_dst s)(p := adj) \<rparr>))
      (\<lambda>s'. a_view s' = a_view s \<and> accept_inv R (128 * Suc p) s')" (is "wp (foldo _ _ ?s) _") if adj: "by_dst p s adj" for adj
  proof -
    define P where "P i u \<longleftrightarrow> a_view u = a_view s \<and> ps_grants_by_dst u p = adj \<and> accept_inv R (128 * p + i) u" for i u
    have same: "a_view ?s = a_view s" "accept_inv R N ?s = accept_inv R N s" for N
      by (simp_all add: a_view_def p_defs fun_eq_iff accept_inv_def pim_inv_defs p_acc_def p_gra_def p_admset_def p_held_def
          grants_inv_def accepts_inv_def)
    have "wp (foldo (pim_accept_one p) ?ns ?s) (P (length ?ns))"
    proof (rule wp_foldo)
      show "P 0 ?s"
        using assms(2) same by (simp add: P_def)
    next
      fix i u
      assume i: "i < length ?ns" and u: "P i u"
      then have n: "?ns ! i = 128 * p + i" "i < 128"
        by simp_all
      have "p_grants u = p_grants s"
        using u by (simp add: P_def a_view_def)
      then have "by_dst p u (ps_grants_by_dst u p)"
        using u adj by (simp add: P_def by_dst_def)
      then have "wp (pim_accept_one p (?ns ! i) u) (dest_post R (node p i) u)"
        unfolding n(1) using u by (intro accept_one_ok assms(1) n(2)) (simp_all add: P_def)
      then show "wp (pim_accept_one p (?ns ! i) u) (P (Suc i))"
        by (rule wp_mono) (use u in \<open>simp add: P_def dest_post_def node_parts(3) [OF assms(1) n(2)]\<close>)
    qed
    then show ?thesis
      unfolding node_range [OF assms(1)] by (rule wp_mono) (simp add: P_def add.commute)
  qed
  have "grants_inv (128 * p) s"
    using assms(2) by (simp add: accept_inv_def)
  note adj = wp_mono [OF to_adj_ok [OF this assms(1)] loop]
  show ?thesis
    unfolding pim_do_accept_def wp_bind by (rule adj)
qed

lemma accept_phase:
  assumes "accept_inv R 0 s"
  shows "wp (foldo pim_do_accept [0..<N_PARTITIONS] s) (\<lambda>s'. a_view s' = a_view s \<and> accept_inv R 256 s')"
proof -
  have "wp (foldo pim_do_accept [0..<2] s) (\<lambda>s'. a_view s' = a_view s \<and> accept_inv R (128 * 2) s')"
  proof (rule wp_upto [where P = "\<lambda>p u. a_view u = a_view s \<and> accept_inv R (128 * p) u"])
    show "wp (pim_do_accept p u) (\<lambda>u'. a_view u' = a_view s \<and> accept_inv R (128 * Suc p) u')"
      if "p < 2" "a_view u = a_view s \<and> accept_inv R (128 * p) u" for p u
      using do_accept_ok [of p R u] that by simp
  qed (simp add: assms)
  then show ?thesis
    by simp
qed

end
