(* ===== verification/FP_Pim_Process.thy ===== *)
theory FP_Pim_Process
  imports FP_Pim_Accept
begin

text \<open>
  The admission of the accepted edges, whatever \<^verbatim>\<open>backlog_decrease\<close> returns, and one iteration of
  grants, accepts and admissions.
\<close>

subsection \<open>One accepted edge\<close>

definition process_post :: "node_pair \<Rightarrow> pim_state \<Rightarrow> pim_state \<Rightarrow> bool" where
  "process_post e s s' \<longleftrightarrow> p_adm s' = (p_adm s)(PARTITION_OF (fst e) := p_adm s (PARTITION_OF (fst e)) @ [e])
     \<and> p_smark s' = (p_smark s)(fst e := True) \<and> p_dmark s' = p_dmark s \<and> p_gidx s' = p_gidx s
     \<and> (\<exists>rs. p_reqs s' = (p_reqs s)(fst e := rs)
          \<and> (rs = p_reqs s (fst e) \<or> rs = del_nth (p_gidx s (fst e)) (p_reqs s (fst e))))
     \<and> p_accepts s' = p_accepts s \<and> ps_q_admitted_out s' = ps_q_admitted_out s"

lemma process_effect:
  assumes "p < 2" "PARTITION_OF a = p" "unat b < 256" "length (p_adm s p) < 256"
    and "p_gidx s a < length (p_reqs s a)" "length (p_reqs s a) \<le> 256"
  shows "wp (pim_process_accept False decrease p \<lparr> ga_src = a, ga_dst = b \<rparr> s) (process_post (a, b) s)"
proof -
  let ?c = "ps_cores s p"
  have a: "unat a < 256"
    using assms(1,2) partition_lt by blast
  have "length (admitted_list (pc_admitted ?c)) < 256"
    using assms(4) by (simp add: p_adm_def)
  from wpD [OF insert_admitted_edge_ok [OF this a assms(3)]] obtain ad where
    ad: "insert_admitted_edge (pc_admitted ?c) a b = Some ad"
      "admitted_list ad = admitted_list (pc_admitted ?c) @ [\<lparr> a_src = a, a_dst = b \<rparr>]"
    by blast
  obtain n bl where dec: "decrease (ps_backlog s) a b = (n, bl)"
    by force
  have mark: "pc_admitted (mark_src_allocated a c) = pc_admitted c" "pc_dst_endnodes (mark_src_allocated a c) = pc_dst_endnodes c"
    "pc_grant_adj_index (mark_src_allocated a c) = pc_grant_adj_index c" for c
    by (simp_all add: mark_src_allocated_def Let_def)
  define s1 where "s1 st = upd_pcore p (\<lambda>c. c\<lparr> pc_stat := st (pc_stat c) \<rparr>)
    ((upd_pcore p (\<lambda>c. mark_src_allocated a (c\<lparr> pc_admitted := ad \<rparr>)) s)\<lparr> ps_backlog := bl \<rparr>)" for st
  have adm: "p_adm (s1 st) = (p_adm s)(p := p_adm s p @ [(a, b)])" for st
    by (simp add: p_adm_def s1_def fun_eq_iff mark ad(2))
  have smark: "p_smark (s1 st) = (p_smark s)(a := True)" for st
    using assms(2) by (auto simp: p_smark_def s1_def fun_eq_iff mark_src_marked(1) intro: node_eqI)
  have rest: "p_dmark (s1 st) = p_dmark s" "p_gidx (s1 st) = p_gidx s" "p_reqs (s1 st) = p_reqs s"
    "p_accepts (s1 st) = p_accepts s" "ps_q_admitted_out (s1 st) = ps_q_admitted_out s"
    "ps_requests_by_src (s1 st) = ps_requests_by_src s" for st
    by (simp_all add: p_defs s1_def fun_eq_iff mark)
  have keep: "process_post (a, b) s (s1 st)" for st
    using assms(2) by (auto simp: process_post_def adm smark rest intro!: exI [of _ "p_reqs s a"])
  have "p_gidx s a < length (nbrs (ps_requests_by_src s p) (PARTITION_IDX a))"
    "length (nbrs (ps_requests_by_src s p) (PARTITION_IDX a)) \<le> 256"
    using assms(2,5,6) by (simp_all add: p_reqs_def del: length_nbrs)
  from wpD [OF delete_neigh_ok [OF idx_lt this]] obtain adj where
    adj: "ga_adj_delete_neigh (ps_requests_by_src s p) (PARTITION_IDX a) (p_gidx s a) = Some adj"
      "nbrs adj = (nbrs (ps_requests_by_src s p))(PARTITION_IDX a := del_nth (p_gidx s a) (p_reqs s a))"
    using assms(2) by (auto simp: p_reqs_def)
  have drop: "process_post (a, b) s ((s1 st)\<lparr> ps_requests_by_src := (ps_requests_by_src (s1 st))(p := adj) \<rparr>)" (is "process_post _ _ ?s") for st
  proof -
    have "p_reqs ?s = (p_reqs s)(a := del_nth (p_gidx s a) (p_reqs s a))"
      using assms(2) by (auto simp: p_reqs_def rest fun_eq_iff adj(2) intro: node_eqI)
    moreover have "p_adm ?s = p_adm (s1 st)" "p_smark ?s = p_smark (s1 st)" "p_dmark ?s = p_dmark (s1 st)"
      "p_gidx ?s = p_gidx (s1 st)" "p_accepts ?s = p_accepts (s1 st)"
      by (simp_all add: p_defs fun_eq_iff)
    ultimately show ?thesis
      using assms(2) by (auto simp: process_post_def adm smark rest)
  qed
  have g: "unat (pc_grant_adj_index ?c (PARTITION_IDX a)) = p_gidx s a"
    by (simp add: p_gidx_def assms(2))
  show ?thesis
    using keep [of "\<lambda>st. adm_log_allocated_backlog_remaining st n"] drop [of adm_log_allocator_no_backlog] assms(1,2)
    by (simp add: pim_process_accept_def ad(1) dec g s1_def adj(1) split_def)
qed

lemma process_req_inv:
  assumes inv: "pim_req_inv R s" and e: "unat (fst e) < 256" "p_held s e" and post: "process_post e s s'"
    and set: "p_admset s' = insert e (p_admset s)"
  shows "pim_req_inv R s'"
proof -
  let ?a = "fst e"
  obtain rs where rs: "p_reqs s' = (p_reqs s)(?a := rs)" "rs = p_reqs s ?a \<or> rs = del_nth (p_gidx s ?a) (p_reqs s ?a)"
    using post by (auto simp: process_post_def)
  have held: "p_gidx s ?a < length (p_reqs s ?a)" "p_reqs s ?a ! p_gidx s ?a = snd e"
    using e(2) by (auto simp: p_held_def)
  have dist: "distinct (p_reqs s ?a)"
    using inv e(1) by (simp add: pim_req_inv_def)
  have rset: "distinct rs" "set rs \<subseteq> set (p_reqs s ?a)" "set (p_reqs s ?a) \<subseteq> insert (snd e) (set rs)"
    using rs(2) dist del_nth_distinct [OF dist held(1)] held(2) by auto
  have "distinct (p_reqs s' x) \<and> (\<forall>b \<in> set (p_reqs s' x). unat b < 256) \<and> set (p_reqs s' x) \<subseteq> R x
      \<and> R x \<subseteq> set (p_reqs s' x) \<union> {b. (x, b) \<in> p_admset s'}" if x: "unat x < 256" for x
  proof -
    have old: "distinct (p_reqs s x)" "\<forall>b \<in> set (p_reqs s x). unat b < 256" "set (p_reqs s x) \<subseteq> R x"
      "R x \<subseteq> set (p_reqs s x) \<union> {b. (x, b) \<in> p_admset s}"
      using inv x by (simp_all add: pim_req_inv_def)
    show ?thesis
      using old rset by (cases "x = ?a") (auto simp: rs(1) set)
  qed
  then show ?thesis
    by (simp add: pim_req_inv_def)
qed

lemma process_adm_inv:
  assumes "pim_adm_inv s" "e \<notin> p_admset s" "process_post e s s'"
  shows "pim_adm_inv s'"
proof -
  have p: "p_adm s' = (p_adm s)(PARTITION_OF (fst e) := p_adm s (PARTITION_OF (fst e)) @ [e])"
    using assms(3) by (simp add: process_post_def)
  have "distinct (p_adm s' q) \<and> (\<forall>e \<in> set (p_adm s' q). PARTITION_OF (fst e) = q)" if "q < 2" for q
  proof -
    have old: "distinct (p_adm s q)" "\<forall>e \<in> set (p_adm s q). PARTITION_OF (fst e) = q" "e \<notin> set (p_adm s q)"
      using assms(1,2) that by (auto simp: pim_adm_inv_def p_admset_def less_2_cases_iff)
    then show ?thesis
      by (cases "q = PARTITION_OF (fst e)") (auto simp: p)
  qed
  then show ?thesis
    by (simp add: pim_adm_inv_def)
qed

lemma process_inv:
  assumes inv: "pim_inv R X s" and e: "e \<in> X" and post: "process_post e s s'"
  shows "pim_inv R (X - {e}) s'" "p_admset s' = insert e (p_admset s)"
proof -
  have i: "pim_req_inv R s" "pim_adm_inv s" "pim_match_inv R (p_admset s \<union> X)" "pim_mark_inv (p_admset s \<union> X) s"
    "p_admset s \<inter> X = {}" "\<forall>e \<in> X. p_held s e"
    using inv by (simp_all add: pim_inv_def)
  have p: "p_adm s' = (p_adm s)(PARTITION_OF (fst e) := p_adm s (PARTITION_OF (fst e)) @ [e])" "p_smark s' = (p_smark s)(fst e := True)"
    "p_dmark s' = p_dmark s" "p_gidx s' = p_gidx s" "\<And>x. x \<noteq> fst e \<Longrightarrow> p_reqs s' x = p_reqs s x"
    using post by (auto simp: process_post_def)
  have ok: "unat (fst e) < 256" "PARTITION_OF (fst e) < 2" "inj_on fst (p_admset s \<union> X)"
    using i(3) e by (auto simp: pim_match_inv_def pair_ok_def partition_lt)
  show set: "p_admset s' = insert e (p_admset s)"
    using ok(2) by (auto simp: p_admset_def p(1) less_2_cases_iff)
  have union: "p_admset s' \<union> (X - {e}) = p_admset s \<union> X"
    using e by (auto simp: set)
  have "pim_req_inv R s'" "pim_adm_inv s'"
    using process_req_inv [OF i(1) ok(1) _ post set] process_adm_inv [OF i(2) _ post] i(5,6) e by blast+
  moreover have "pim_mark_inv (p_admset s \<union> X) s'"
    using i(4) by (auto simp: pim_mark_inv_def p set)
  moreover have "p_admset s' \<inter> (X - {e}) = {}"
    using i(5) by (auto simp: set)
  moreover have "p_held s' x" if x: "x \<in> X - {e}" for x
  proof -
    have "fst x \<noteq> fst e"
      using x e inj_onD [OF ok(3), of x e] by blast
    then show ?thesis
      using i(6) x by (auto simp: p_held_def p(4,5))
  qed
  ultimately show "pim_inv R (X - {e}) s'"
    using i(3) by (simp add: pim_inv_def union)
qed

subsection \<open>All accepted edges\<close>

lemma process_accept_ok:
  assumes "p < 2" "pim_inv R X s" "(a, b) \<in> X" "PARTITION_OF a = p"
  shows "wp (pim_process_accept False decrease p \<lparr> ga_src = a, ga_dst = b \<rparr> s) (process_post (a, b) s)"
proof -
  have i: "pim_req_inv R s" "pim_adm_inv s" "pim_match_inv R (p_admset s \<union> X)" "p_held s (a, b)"
    using assms(2,3) by (auto simp: pim_inv_def)
  have "pair_ok (a, b)"
    using i(3) assms(3) unfolding pim_match_inv_def by blast
  then have ok: "unat a < 256" "unat b < 256"
    by (simp_all add: pair_ok_def)
  have sub: "set (p_adm s p) \<subseteq> p_admset s"
    using assms(1) by (auto simp: p_admset_def less_2_cases_iff)
  then have "inj_on fst (set (p_adm s p))"
    using i(3) by (auto simp: pim_match_inv_def intro: inj_on_subset)
  then have "length (p_adm s p) \<le> 128"
    using i(2) assms(1) idx_lt by (intro length_by_idx [where f = fst and p = p]) (auto simp: pim_adm_inv_def)
  moreover have "length (p_reqs s a) \<le> 256"
    using i(1) ok(1) length_nodes by (simp add: pim_req_inv_def)
  ultimately show ?thesis
    using i(4) ok(2) by (intro process_effect assms(1,4)) (auto simp: p_held_def)
qed

lemma process_list_ok:
  assumes "p < 2" "pim_inv R (set es \<union> Y) s" "distinct es" "set es \<inter> Y = {}" "\<forall>e \<in> set es. PARTITION_OF (fst e) = p"
  shows "wp (foldo (\<lambda>e. pim_process_accept False decrease p \<lparr> ga_src = fst e, ga_dst = snd e \<rparr>) es s) (\<lambda>s'. pim_inv R Y s'
    \<and> p_admset s' = p_admset s \<union> set es \<and> p_accepts s' = p_accepts s \<and> ps_q_admitted_out s' = ps_q_admitted_out s)"
  using assms(2-5)
proof (induction es arbitrary: s)
  case (Cons e es)
  have "wp (pim_process_accept False decrease p \<lparr> ga_src = fst e, ga_dst = snd e \<rparr> s) (process_post e s)"
    using process_accept_ok [OF assms(1) Cons.prems(1), of "fst e" "snd e"] Cons.prems(4) by simp
  moreover have "wp (foldo (\<lambda>e. pim_process_accept False decrease p \<lparr> ga_src = fst e, ga_dst = snd e \<rparr>) es u) (\<lambda>s'. pim_inv R Y s'
      \<and> p_admset s' = p_admset s \<union> set (e # es) \<and> p_accepts s' = p_accepts s \<and> ps_q_admitted_out s' = ps_q_admitted_out s)"
    if u: "process_post e s u" for u
  proof -
    have rem: "(set (e # es) \<union> Y) - {e} = set es \<union> Y"
      using Cons.prems(2,3) by auto
    note inv = process_inv [OF Cons.prems(1) _ u, unfolded rem]
    have "p_accepts u = p_accepts s" "ps_q_admitted_out u = ps_q_admitted_out s" "p_admset u = insert e (p_admset s)"
      using u inv(2) by (simp_all add: process_post_def)
    then show ?thesis
      using Cons.IH [of u] inv(1) Cons.prems(2-4) by (simp add: insert_commute)
  qed
  ultimately show ?case
    by (auto intro: wp_mono)
qed simp

lemma process_from_eq:
  assumes "length (el_pairs el) \<le> 128"
  shows "foldo (\<lambda>i s. do { guard_o (i < EDGELIST_PARTITION_MAX_EDGES); f (el_edge el i) s }) [0..<unat (el_n el)] s
    = foldo (\<lambda>e. f \<lparr> ga_src = fst e, ga_dst = snd e \<rparr>) (el_pairs el) s"
proof -
  have rec: "\<lparr> ga_src = ga_src e, ga_dst = ga_dst e \<rparr> = e" for e
    by (cases e) simp
  have "foldo (\<lambda>i s. do { guard_o (i < EDGELIST_PARTITION_MAX_EDGES); f (el_edge el i) s }) xs
      = foldo (\<lambda>e. f \<lparr> ga_src = fst e, ga_dst = snd e \<rparr>) (map (\<lambda>i. edge_pair (el_edge el i)) xs)"
    if "\<forall>i \<in> set xs. i < 128" for xs
    using that
  proof (induction xs)
    case (Cons i xs)
    then show ?case
      by (intro ext) (simp add: guard_o_def EDGELIST_PARTITION_MAX_EDGES_def PARTITION_N_NODES_def edge_pair_def rec)
  qed (simp add: fun_eq_iff)
  from this [of "[0..<unat (el_n el)]"] show ?thesis
    using assms by (simp add: el_pairs_def)
qed

lemma process_from_ok:
  assumes "p < 2" "pim_inv R (set (p_accepts s d p) \<union> Y) s" "distinct (p_accepts s d p)" "set (p_accepts s d p) \<inter> Y = {}"
    "\<forall>e \<in> set (p_accepts s d p). PARTITION_OF (fst e) = p"
  shows "wp (pim_process_accepts_from_partition False decrease p d s) (\<lambda>s'. pim_inv R Y s'
    \<and> p_admset s' = p_admset s \<union> set (p_accepts s d p) \<and> p_accepts s' = p_accepts s \<and> ps_q_admitted_out s' = ps_q_admitted_out s)"
proof -
  have "inj_on fst (set (p_accepts s d p))"
    using assms(2) by (auto simp: pim_inv_def pim_match_inv_def intro: inj_on_subset)
  then have "length (p_accepts s d p) \<le> 128"
    using assms(3,5) idx_lt by (intro length_by_idx [where f = fst and p = p]) auto
  then have "length (el_pairs (ps_accepts s d p)) \<le> 128"
    by (simp add: p_accepts_def)
  then have "pim_process_accepts_from_partition False decrease p d s
      = foldo (\<lambda>e. pim_process_accept False decrease p \<lparr> ga_src = fst e, ga_dst = snd e \<rparr>) (p_accepts s d p) s"
    unfolding pim_process_accepts_from_partition_def Let_def p_accepts_def by (rule process_from_eq)
  then show ?thesis
    using process_list_ok [OF assms] by simp
qed

text \<open>Before partition \<^verbatim>\<open>p\<close> admits its edges, those of the partitions below are done.\<close>

definition p_pending :: "nat \<Rightarrow> pim_state \<Rightarrow> node_pair set" where
  "p_pending p s = {e. \<exists>d < 2. \<exists>q < 2. p \<le> q \<and> e \<in> set (p_accepts s d q)}"

definition process_inv_at :: "(u16 \<Rightarrow> u16 set) \<Rightarrow> node_pair set \<Rightarrow> nat \<Rightarrow> pim_state \<Rightarrow> bool" where
  "process_inv_at R E p s \<longleftrightarrow> pim_inv R (p_pending p s) s \<and> p_admset s \<union> p_pending p s = E
     \<and> (\<forall>d < 2. \<forall>q < p. p_accepts s d q = [])
     \<and> (\<forall>d < 2. \<forall>q < 2. distinct (p_accepts s d q) \<and> (\<forall>e \<in> set (p_accepts s d q). PARTITION_OF (fst e) = q \<and> PARTITION_OF (snd e) = d))"

lemma pending_split:
  assumes "p < 2" "process_inv_at R E p s"
  defines "A \<equiv> set (p_accepts s 0 p)" and "B \<equiv> set (p_accepts s 1 p)" and "Y \<equiv> p_pending (Suc p) s"
  shows "p_pending p s = A \<union> (B \<union> Y)" "A \<inter> (B \<union> Y) = {}" "B \<inter> Y = {}"
proof -
  have uniq: "d = d' \<and> q = q'"
    if "d < 2" "q < 2" "d' < 2" "q' < 2" "e \<in> set (p_accepts s d q)" "e \<in> set (p_accepts s d' q')" for d q d' q' e
    using assms(2) that unfolding process_inv_at_def by metis
  show "p_pending p s = A \<union> (B \<union> Y)"
    using assms(1) unfolding p_pending_def Suc_le_eq le_less assms(3-5) by (auto simp: less_2_cases_iff)
  have later: "e \<notin> Y" if e: "d < 2" "e \<in> set (p_accepts s d p)" for d e
  proof
    assume "e \<in> Y"
    then obtain d' q where "d' < 2" "q < 2" "Suc p \<le> q" "e \<in> set (p_accepts s d' q)"
      unfolding p_pending_def assms(5) by blast
    then show False
      using uniq [OF e(1) assms(1) _ _ e(2), of d' q] by simp
  qed
  have "e \<notin> B" if "e \<in> A" for e
    using uniq [of 0 p 1 p e] that assms(1) unfolding assms(3,4) by auto
  then show "A \<inter> (B \<union> Y) = {}" "B \<inter> Y = {}"
    using later [of 0] later [of 1] unfolding assms(3,4) by (simp_all only: disjoint_iff Un_iff) auto
qed

lemma reset_accepts:
  assumes "process_inv_at R E p s" "pim_inv R (p_pending (Suc p) s) v" "p_admset v \<union> p_pending (Suc p) s = E" "p_accepts v = p_accepts s"
  shows "process_inv_at R E (Suc p) (v\<lparr> ps_accepts := ga_partd_edgelist_src_reset (ps_accepts v) p \<rparr>)" (is "process_inv_at _ _ _ ?v")
proof -
  have acc: "p_accepts ?v d q = (if q = p then [] else p_accepts s d q)" if "d < 2" for d q
    using src_reset_edges [OF that] assms(4) by (simp add: p_accepts_def fun_eq_iff)
  have pv: "p_pending (Suc p) ?v = p_pending (Suc p) s"
    unfolding p_pending_def by (intro Collect_cong ex_cong1 conj_cong refl) (auto simp: acc)
  have same: "p_reqs ?v = p_reqs v" "p_adm ?v = p_adm v" "p_smark ?v = p_smark v" "p_dmark ?v = p_dmark v" "p_gidx ?v = p_gidx v"
    by (simp_all add: p_defs fun_eq_iff)
  have "pim_inv R (p_pending (Suc p) s) ?v" "p_admset ?v = p_admset v"
    using assms(2) by (simp_all add: pim_inv_defs p_admset_def p_held_def same)
  then show ?thesis
    using assms(1,3) by (auto simp: process_inv_at_def pv acc less_Suc_eq)
qed

lemma process_partition_ok:
  assumes "p < 2" "process_inv_at R E p s"
  shows "wp (pim_process_accepts False decrease p s)
    (\<lambda>s'. process_inv_at R E (Suc p) s' \<and> ps_q_admitted_out s' = ps_q_admitted_out s)"
proof -
  let ?f = "pim_process_accepts_from_partition False decrease p"
  let ?A = "set (p_accepts s 0 p)" and ?B = "set (p_accepts s 1 p)" and ?Y = "p_pending (Suc p) s"
  note pend = pending_split [OF assms]
  have ac: "distinct (p_accepts s d p)" "\<forall>e \<in> set (p_accepts s d p). PARTITION_OF (fst e) = p" if "d < 2" for d
    using assms that by (simp_all add: process_inv_at_def)
  have first: "wp (?f 0 s) (\<lambda>u. pim_inv R (?B \<union> ?Y) u \<and> p_admset u = p_admset s \<union> ?A \<and> p_accepts u = p_accepts s
      \<and> ps_q_admitted_out u = ps_q_admitted_out s)"
    using assms(2) ac [of 0] pend by (intro process_from_ok assms(1)) (simp_all add: process_inv_at_def)
  have second: "wp (?f 1 u) (\<lambda>v. pim_inv R ?Y v \<and> p_admset v = p_admset s \<union> ?A \<union> ?B \<and> p_accepts v = p_accepts s
      \<and> ps_q_admitted_out v = ps_q_admitted_out s)"
    if u: "pim_inv R (?B \<union> ?Y) u" "p_admset u = p_admset s \<union> ?A" "p_accepts u = p_accepts s"
      "ps_q_admitted_out u = ps_q_admitted_out s" for u
    using process_from_ok [OF assms(1), of R u 1 ?Y decrease] ac [of 1] pend(3) u by simp
  have last: "process_inv_at R E (Suc p) (v\<lparr> ps_accepts := ga_partd_edgelist_src_reset (ps_accepts v) p \<rparr>)"
    if "pim_inv R ?Y v" "p_admset v = p_admset s \<union> ?A \<union> ?B" "p_accepts v = p_accepts s" for v
    using that assms(2) pend(1) by (intro reset_accepts [OF assms(2)]) (auto simp: process_inv_at_def)
  show ?thesis
    unfolding pim_process_accepts_def partition_list
    by simp (rule wp_mono [OF first], rule wp_mono [OF second [unfolded One_nat_def]], auto intro!: last)
qed

lemma process_phase:
  assumes "accept_inv R 256 s"
  shows "wp (foldo (pim_process_accepts False decrease) [0..<N_PARTITIONS] s) (\<lambda>s'. pim_inv R {} s'
    \<and> p_admset s' = p_admset s \<union> p_acc s \<and> (\<forall>d < 2. \<forall>q < 2. p_accepts s' d q = []) \<and> ps_q_admitted_out s' = ps_q_admitted_out s)"
proof -
  let ?E = "p_admset s \<union> p_acc s"
  have "wp (foldo (pim_process_accepts False decrease) [0..<2] s)
      (\<lambda>u. process_inv_at R ?E 2 u \<and> ps_q_admitted_out u = ps_q_admitted_out s)"
  proof (rule wp_upto [where P = "\<lambda>p u. process_inv_at R ?E p u \<and> ps_q_admitted_out u = ps_q_admitted_out s"])
    have "p_pending 0 s = p_acc s"
      by (simp add: p_pending_def p_acc_def)
    then show "process_inv_at R ?E 0 s \<and> ps_q_admitted_out s = ps_q_admitted_out s"
      using assms by (simp add: process_inv_at_def accept_inv_def accepts_inv_def)
  next
    show "wp (pim_process_accepts False decrease p u) (\<lambda>u. process_inv_at R ?E (Suc p) u \<and> ps_q_admitted_out u = ps_q_admitted_out s)"
      if "p < 2" "process_inv_at R ?E p u \<and> ps_q_admitted_out u = ps_q_admitted_out s" for p u
      using process_partition_ok [of p R ?E u decrease] that by simp
  qed
  moreover have "p_pending 2 u = {}" for u
    by (auto simp: p_pending_def)
  ultimately show ?thesis
    by (auto simp: process_inv_at_def elim: wp_mono)
qed

subsection \<open>One iteration\<close>

text \<open>The state between iterations: nothing is accepted and not admitted.\<close>

definition slot_inv :: "(u16 \<Rightarrow> u16 set) \<Rightarrow> pim_state \<Rightarrow> bool" where
  "slot_inv R s \<longleftrightarrow> pim_inv R {} s \<and> (\<forall>d < 2. \<forall>q < 2. p_accepts s d q = [])"

lemma slot_reqs_ok: "slot_inv R s \<Longrightarrow> reqs_ok s"
  by (simp add: slot_inv_def pim_inv_def pim_req_inv_def reqs_ok_def)

lemma grants_accept_inv:
  assumes "slot_inv R s" "p_view u = p_view s" "\<forall>p < 2. grants_upto all p 128 u"
  shows "accept_inv R 0 u"
proof -
  have "pim_inv R {} u" "\<forall>d < 2. \<forall>q < 2. p_accepts u d q = []"
    using assms(1,2) view_inv(1) [OF assms(2)] by (simp_all add: slot_inv_def p_view_def)
  then have acc: "p_acc u = {}" "accepts_inv 0 u"
    by (simp_all add: p_acc_def accepts_inv_def)
  have g: "grant_ok q 128 u d e" if "d < 2" "q < 2" "e \<in> set (p_grants u d q)" for d q e
    using assms(3) that by (simp add: grants_upto_def)
  have dist: "distinct (map fst (p_grants u 0 q @ p_grants u 1 q))" if "q < 2" for q
    using assms(3) that by (simp add: grants_upto_def)
  have sub: "set (p_grants u d q) \<subseteq> set (p_grants u 0 q @ p_grants u 1 q)" if "d < 2" for d q
    using that by (auto simp: less_2_cases_iff)
  have "inj_on fst (p_gra u)"
  proof (rule inj_onI)
    fix x y
    assume "x \<in> p_gra u" "y \<in> p_gra u" and xy: "fst x = fst y"
    then obtain d q d' q' where x: "d < 2" "q < 2" "x \<in> set (p_grants u d q)" and y: "d' < 2" "q' < 2" "y \<in> set (p_grants u d' q')"
      unfolding p_gra_def by blast
    have "q' = q"
      using g [OF x] g [OF y] xy by (simp add: grant_ok_def)
    then have "x \<in> set (p_grants u 0 q @ p_grants u 1 q)" "y \<in> set (p_grants u 0 q @ p_grants u 1 q)"
      using sub [OF x(1)] sub [OF y(1)] x(3) y(3) by blast+
    moreover have "inj_on fst (set (p_grants u 0 q @ p_grants u 1 q))"
      using dist [OF x(2)] unfolding distinct_map by (rule conjunct2)
    ultimately show "x = y"
      using xy by (rule_tac inj_onD)
  qed
  moreover have "length (p_grants u d q) \<le> 128" if "d < 2" "q < 2" for d q
  proof -
    have "distinct (map fst (p_grants u d q))"
      using dist [OF that(2)] that(1) by (auto simp: less_2_cases_iff)
    then show ?thesis
      using g [OF that] by (intro length_by_idx [where f = fst and p = q]) (auto simp: distinct_map grant_ok_def)
  qed
  ultimately have "grants_inv 0 u"
    using g by (simp add: grants_inv_def grant_ok_def)
  then show ?thesis
    using acc \<open>pim_inv R {} u\<close> by (simp add: accept_inv_def)
qed

definition iteration_post :: "bool \<Rightarrow> (u16 \<Rightarrow> u16 set) \<Rightarrow> pim_state \<Rightarrow> pim_state \<Rightarrow> bool" where
  "iteration_post all R s s' \<longleftrightarrow> slot_inv R s' \<and> ps_q_admitted_out s' = ps_q_admitted_out s \<and> p_admset s \<subseteq> p_admset s'
     \<and> (all \<and> (\<exists>a. unat a < 256 \<and> p_reqs s a \<noteq> []) \<longrightarrow> p_admset s' \<noteq> {})"

lemma grant_accept_ok:
  assumes inv: "slot_inv R s"
    and grant: "\<And>p u. p < 2 \<Longrightarrow> reqs_ok u \<Longrightarrow> p_view u = p_view s \<Longrightarrow> wp (f p u) (\<lambda>u'. p_other p u' u \<and> grants_upto all p 128 u')"
  shows "wp (do { u \<leftarrow> foldo f [0..<N_PARTITIONS] s; foldo pim_do_accept [0..<N_PARTITIONS] u }) (\<lambda>v. accept_inv R 256 v
    \<and> p_admset v = p_admset s \<and> ps_q_admitted_out v = ps_q_admitted_out s \<and> ps_backlog v = ps_backlog s
    \<and> (all \<and> (\<exists>a. unat a < 256 \<and> p_reqs s a \<noteq> []) \<longrightarrow> p_admset v \<union> p_acc v \<noteq> {}))"
  (is "wp _ ?post")
proof -
  have post: "?post v"
    if u: "p_view u = p_view s" "\<forall>p < 2. grants_upto all p 128 u" and v: "a_view v = a_view u" "accept_inv R 256 v" for u v
  proof -
    have adm: "p_admset v = p_admset s" and rq: "p_reqs u = p_reqs s" and gr: "p_gra v = p_gra u"
      and out: "ps_q_admitted_out v = ps_q_admitted_out s" "ps_backlog v = ps_backlog s"
      using u(1) v(1) by (simp_all add: p_view_def a_view_def p_admset_def p_gra_def)
    have "p_admset v \<union> p_acc v \<noteq> {}" if "all" "unat a < 256" "p_reqs s a \<noteq> []" for a
    proof -
      have "PARTITION_OF a < 2"
        using that(2) by (simp add: partition_lt)
      then have "a \<in> fst ` set (p_grants u 0 (PARTITION_OF a) @ p_grants u 1 (PARTITION_OF a))"
        using u(2) that(1,3) idx_lt unfolding grants_upto_def rq by blast
      then obtain b d where "(a, b) \<in> set (p_grants u d (PARTITION_OF a))" "d < 2"
        by (force simp: less_2_cases_iff)
      then have "(a, b) \<in> p_gra v"
        using \<open>PARTITION_OF a < 2\<close> unfolding gr unfolding p_gra_def by blast
      then have "p_dmark v b" "unat b < 256"
        using v(2) gra_facts(3,5) [of 256 v a b] by (auto simp: accept_inv_def)
      then have "b \<in> snd ` (p_admset v \<union> p_acc v)"
        using v(2) by (simp add: accept_inv_def pim_inv_def pim_mark_inv_def)
      then show ?thesis
        by auto
    qed
    then show ?thesis
      using v(2) adm out by blast
  qed
  show ?thesis
    unfolding wp_bind
  proof (rule wp_mono [OF grant_phase [OF slot_reqs_ok [OF inv] grant]])
    fix u
    assume u: "p_view u = p_view s \<and> (\<forall>p < 2. grants_upto all p 128 u)"
    then have "accept_inv R 0 u"
      using grants_accept_inv [OF inv] by blast
    then show "wp (foldo pim_do_accept [0..<N_PARTITIONS] u) ?post"
      by (rule wp_mono [OF accept_phase]) (rule post [of u], use u in auto)
  qed
qed

lemma pim_iteration_alt:
  "pim_iteration asserts decrease f s = (do { u \<leftarrow> foldo f [0..<N_PARTITIONS] s; foldo pim_do_accept [0..<N_PARTITIONS] u })
     \<bind> foldo (pim_process_accepts asserts decrease) [0..<N_PARTITIONS]"
  by (simp add: pim_iteration_def bind_assoc)

lemma iteration_ok:
  assumes inv: "slot_inv R s"
    and grant: "\<And>p u. p < 2 \<Longrightarrow> reqs_ok u \<Longrightarrow> p_view u = p_view s \<Longrightarrow> wp (f p u) (\<lambda>u'. p_other p u' u \<and> grants_upto all p 128 u')"
  shows "wp (pim_iteration False decrease f s) (iteration_post all R s)"
proof -
  have proc: "wp (foldo (pim_process_accepts False decrease) [0..<N_PARTITIONS] v) (iteration_post all R s)"
    if v: "accept_inv R 256 v \<and> p_admset v = p_admset s \<and> ps_q_admitted_out v = ps_q_admitted_out s \<and> ps_backlog v = ps_backlog s
      \<and> (all \<and> (\<exists>a. unat a < 256 \<and> p_reqs s a \<noteq> []) \<longrightarrow> p_admset v \<union> p_acc v \<noteq> {})" for v
  proof (rule wp_mono [OF process_phase])
    show "accept_inv R 256 v"
      using v by blast
  qed (use v in \<open>auto simp: iteration_post_def slot_inv_def\<close>)
  show ?thesis
    unfolding pim_iteration_alt wp_bind [of "do { u \<leftarrow> foldo f [0..<N_PARTITIONS] s; foldo pim_do_accept [0..<N_PARTITIONS] u }"]
    by (rule wp_mono [OF grant_accept_ok [OF assms]], assumption, assumption, assumption) (rule proc)
qed

subsection \<open>With assertions\<close>

text \<open>
  When the backlog of every accepted pair is 0 and there is an accepted pair, the assertion stops the
  first one that is processed.
\<close>

lemma asserts_stop:
  assumes "backlog_get (ps_backlog s) (ga_src e) (ga_dst e) = Some 0"
  shows "pim_process_accept True decrease p e s = None"
  using assms by (cases "insert_admitted_edge (pc_admitted (ps_cores s p)) (ga_src e) (ga_dst e)")
    (simp_all add: pim_process_accept_def guard_o_def)

lemma asserts_from:
  assumes "\<forall>e \<in> set (p_accepts s d p). backlog_get (ps_backlog s) (fst e) (snd e) = Some 0"
  shows "pim_process_accepts_from_partition True decrease p d s = (if p_accepts s d p = [] then Some s else None)"
proof (cases "unat (el_n (ps_accepts s d p))")
  case 0
  then show ?thesis
    by (simp add: pim_process_accepts_from_partition_def p_accepts_def el_pairs_def)
next
  case (Suc n)
  let ?e = "el_edge (ps_accepts s d p) 0"
  have "p_accepts s d p ! 0 = edge_pair ?e" "0 < length (p_accepts s d p)"
    using Suc by (simp_all add: p_accepts_def el_pairs_def del: upt_Suc)
  then have "edge_pair ?e \<in> set (p_accepts s d p)"
    by (metis nth_mem)
  then have "backlog_get (ps_backlog s) (ga_src ?e) (ga_dst ?e) = Some 0"
    using assms by (auto simp: edge_pair_def)
  note stop = asserts_stop [OF this, of decrease p]
  have "[0..<unat (el_n (ps_accepts s d p))] = 0 # [1..<Suc n]"
    unfolding Suc by (simp add: upt_conv_Cons)
  then show ?thesis
    using Suc stop by (simp add: pim_process_accepts_from_partition_def p_accepts_def el_pairs_def guard_o_def Let_def)
qed

lemma asserts_phase:
  assumes zero: "\<forall>e \<in> p_acc s. backlog_get (ps_backlog s) (fst e) (snd e) = Some 0" and some: "p_acc s \<noteq> {}"
  shows "foldo (pim_process_accepts True decrease) [0..<N_PARTITIONS] s = None"
proof -
  let ?r = "\<lambda>s p. s\<lparr> ps_accepts := ga_partd_edgelist_src_reset (ps_accepts s) p \<rparr>"
  have proc: "pim_process_accepts True decrease p u = (if p_accepts u 0 p = [] \<and> p_accepts u 1 p = [] then Some (?r u p) else None)"
    if "\<And>d. d < 2 \<Longrightarrow> \<forall>e \<in> set (p_accepts u d p). backlog_get (ps_backlog u) (fst e) (snd e) = Some 0" for p u
    using asserts_from [of u 0 p decrease] asserts_from [of u 1 p decrease] that [of 0] that [of 1]
    unfolding pim_process_accepts_def partition_list by simp
  have z: "\<forall>e \<in> set (p_accepts s d p). backlog_get (ps_backlog s) (fst e) (snd e) = Some 0" if "d < 2" "p < 2" for d p
    using zero that unfolding p_acc_def by blast
  have acc: "p_accepts (?r s 0) d 1 = p_accepts s d 1" if "d < 2" for d
    using src_reset_edges [OF that] by (simp add: p_accepts_def fun_eq_iff)
  have zr: "\<forall>e \<in> set (p_accepts (?r s 0) d 1). backlog_get (ps_backlog (?r s 0)) (fst e) (snd e) = Some 0" if "d < 2" for d
    using z [OF that, of 1] acc [OF that] by simp
  obtain d q where "d < 2" "q < 2" "p_accepts s d q \<noteq> []"
    using some unfolding p_acc_def by force
  then have "p_accepts s 0 0 \<noteq> [] \<or> p_accepts s 1 0 \<noteq> [] \<or> p_accepts s 0 1 \<noteq> [] \<or> p_accepts s 1 1 \<noteq> []"
    by (auto simp: less_2_cases_iff)
  then show ?thesis
    unfolding partition_list using proc [of s 0] z [of _ 0] proc [of "?r s 0" 1] zr acc [of 0] acc [of 1] by auto
qed

lemma iteration_asserts:
  assumes inv: "slot_inv R s"
    and grant: "\<And>p u. p < 2 \<Longrightarrow> reqs_ok u \<Longrightarrow> p_view u = p_view s \<Longrightarrow> wp (f p u) (\<lambda>u'. p_other p u' u \<and> grants_upto True p 128 u')"
    and req: "unat a < 256" "p_reqs s a \<noteq> []" and adm: "p_admset s = {}"
    and zero: "\<And>a b. unat a < 256 \<Longrightarrow> b \<in> R a \<Longrightarrow> backlog_get (ps_backlog s) a b = Some 0"
  shows "pim_iteration True decrease f s = None"
proof -
  obtain v where v: "do { u \<leftarrow> foldo f [0..<N_PARTITIONS] s; foldo pim_do_accept [0..<N_PARTITIONS] u } = Some v"
      "accept_inv R 256 v" "p_admset v = p_admset s" "ps_backlog v = ps_backlog s" "p_admset v \<union> p_acc v \<noteq> {}"
    using wpD [OF grant_accept_ok [OF inv grant]] req by blast
  have "backlog_get (ps_backlog v) (fst e) (snd e) = Some 0" if "e \<in> p_acc v" for e
  proof -
    have "pair_ok e" "snd e \<in> R (fst e)"
      using v(2) that by (auto simp: accept_inv_def pim_inv_def pim_match_inv_def)
    then show ?thesis
      using zero v(4) by (simp add: pair_ok_def)
  qed
  then have "foldo (pim_process_accepts True decrease) [0..<N_PARTITIONS] v = None"
    using v(3,5) adm by (intro asserts_phase) auto
  then show ?thesis
    unfolding pim_iteration_alt v(1) by simp
qed

end
