(* ===== verification/FP_Pim_Slot.thy ===== *)
theory FP_Pim_Slot
  imports FP_Pim_Process
begin

text \<open>
  A whole timeslot of the grant/accept allocator: the new demands are taken in, three iterations run, the
  admitted traffic is sent out, and the check of the timeslot accepts it.
\<close>

subsection \<open>Definitions: a state that is ready for a timeslot\<close>

definition p_taken_bins :: "pim_state \<Rightarrow> nat \<Rightarrow> bin list" where
  "p_taken_bins s p = take PIM_BURST_SIZE (ring_list (pc_q_new_demands (ps_cores s p)))"

definition p_taken :: "pim_state \<Rightarrow> nat \<Rightarrow> backlog_edge list" where
  "p_taken s p = concat (map bin_list (p_taken_bins s p))"

text \<open>The destinations that a source requests, with the new demands.\<close>

definition p_wanted :: "pim_state \<Rightarrow> u16 \<Rightarrow> u16 list" where
  "p_wanted s a = p_reqs s a @ map e_dst (filter (\<lambda>e. e_src e = a) (p_taken s (PARTITION_OF a)))"

definition pim_ready :: "pim_state \<Rightarrow> bool" where
  "pim_ready s \<longleftrightarrow>
     (\<forall>p < 2. ring_wf (pc_q_new_demands (ps_cores s p)) \<and> (\<forall>e \<in> set (p_taken s p). PARTITION_OF (e_src e) = p))
     \<and> (\<forall>a. unat a < 256 \<longrightarrow> distinct (p_wanted s a) \<and> (\<forall>b \<in> set (p_wanted s a). unat b < 256))
     \<and> (\<forall>d < 2. \<forall>q < 2. p_accepts s d q = [])
     \<and> pool_wf (ps_bin_mempool s)
     \<and> length (pool_list (ps_bin_mempool s)) + length (p_taken_bins s 0) + length (p_taken_bins s 1) \<le> pool_size (ps_bin_mempool s)
     \<and> pool_wf (ps_admitted_mempool s) \<and> 2 \<le> length (pool_list (ps_admitted_mempool s))
     \<and> ring_wf (ps_q_admitted_out s) \<and> ring_count (ps_q_admitted_out s) + 2 \<le> ring_room (ps_q_admitted_out s)"

subsection \<open>New demands\<close>

definition dests :: "nat \<Rightarrow> backlog_edge list \<Rightarrow> u16 list" where
  "dests i es = map e_dst (filter (\<lambda>e. PARTITION_IDX (e_src e) = i) es)"

lemma add_list_ok:
  assumes "\<And>i. i < 128 \<Longrightarrow> length (nbrs adj i @ dests i es) \<le> 256"
  shows "wp (foldo (\<lambda>e adj. ga_adj_add_edge_by_src adj (PARTITION_IDX (e_src e)) (e_dst e)) es adj)
    (\<lambda>adj'. nbrs adj' = (\<lambda>i. nbrs adj i @ dests i es))"
  using assms
proof (induction es arbitrary: adj)
  case Nil
  show ?case
    by (simp add: dests_def)
next
  case (Cons e es)
  let ?i = "PARTITION_IDX (e_src e)"
  have "length (nbrs adj ?i) < 256"
    using Cons.prems [OF idx_lt, of "e_src e"] by (simp add: dests_def del: length_nbrs)
  note add = add_by_src_ok [OF idx_lt this, of "e_dst e"]
  have "wp (foldo (\<lambda>e adj. ga_adj_add_edge_by_src adj (PARTITION_IDX (e_src e)) (e_dst e)) es adj')
      (\<lambda>adj''. nbrs adj'' = (\<lambda>i. nbrs adj i @ dests i (e # es)))"
    if adj': "nbrs adj' = (nbrs adj)(?i := nbrs adj ?i @ [e_dst e])" for adj'
  proof -
    have eq: "nbrs adj' i @ dests i es = nbrs adj i @ dests i (e # es)" for i
      by (simp add: adj' dests_def)
    show ?thesis
      using Cons.IH [of adj'] Cons.prems unfolding eq by blast
  qed
  then show ?case
    using add by (auto intro: wp_mono)
qed

lemma incoming_bin_eq: "pim_process_incoming_bin b adj
    = foldo (\<lambda>e adj. ga_adj_add_edge_by_src adj (PARTITION_IDX (e_src e)) (e_dst e)) (bin_list b) adj"
  by (simp add: pim_process_incoming_bin_def bin_list_def bin_get_def foldo_map)

lemma dests_append [simp]: "dests i (xs @ ys) = dests i xs @ dests i ys"
  by (simp add: dests_def)

lemma take_bins_ok:
  assumes "\<And>i. i < 128 \<Longrightarrow> length (nbrs (ps_requests_by_src s p) i @ dests i (concat (map bin_list bs))) \<le> 256"
    and "pool_wf (ps_bin_mempool s)" "length (pool_list (ps_bin_mempool s)) + length bs \<le> pool_size (ps_bin_mempool s)"
  shows "wp (foldo (pim_take_bin p) bs s) (\<lambda>s'. \<exists>adj mp.
    s' = s\<lparr> ps_requests_by_src := (ps_requests_by_src s)(p := adj), ps_bin_mempool := mp \<rparr>
    \<and> nbrs adj = (\<lambda>i. nbrs (ps_requests_by_src s p) i @ dests i (concat (map bin_list bs)))
    \<and> pool_wf mp \<and> length (pool_list mp) = length (pool_list (ps_bin_mempool s)) + length bs
    \<and> pool_size mp = pool_size (ps_bin_mempool s))"
  using assms
proof (induction bs arbitrary: s)
  case Nil
  then show ?case
    unfolding foldo.simps wp_Some
    by (intro exI [of _ "ps_requests_by_src s p"] exI [of _ "ps_bin_mempool s"]) (simp add: dests_def)
next
  case (Cons b bs)
  have "length (nbrs (ps_requests_by_src s p) i @ dests i (bin_list b)) \<le> 256" if "i < 128" for i
    using Cons.prems(1) [OF that] by (simp del: length_nbrs)
  from wpD [OF add_list_ok [OF this]] obtain adj where adj: "pim_process_incoming_bin b (ps_requests_by_src s p) = Some adj"
    "nbrs adj = (\<lambda>i. nbrs (ps_requests_by_src s p) i @ dests i (bin_list b))"
    unfolding incoming_bin_eq by blast
  obtain mp where mp: "fp_mempool_put (ps_bin_mempool s) b = Some mp" "pool_wf mp"
      "pool_list mp = pool_list (ps_bin_mempool s) @ [b]" "pool_size mp = pool_size (ps_bin_mempool s)"
    using wpD [OF fp_mempool_put_ok [OF Cons.prems(2), of b]] Cons.prems(3) by auto
  let ?s = "s\<lparr> ps_requests_by_src := (ps_requests_by_src s)(p := adj), ps_bin_mempool := mp \<rparr>"
  have "wp (foldo (pim_take_bin p) bs ?s) (\<lambda>s'. \<exists>adj' mp'.
      s' = ?s\<lparr> ps_requests_by_src := (ps_requests_by_src ?s)(p := adj'), ps_bin_mempool := mp' \<rparr>
      \<and> nbrs adj' = (\<lambda>i. nbrs (ps_requests_by_src ?s p) i @ dests i (concat (map bin_list bs)))
      \<and> pool_wf mp' \<and> length (pool_list mp') = length (pool_list (ps_bin_mempool ?s)) + length bs
      \<and> pool_size mp' = pool_size (ps_bin_mempool ?s))"
    using Cons.prems mp by (intro Cons.IH) (simp_all add: adj(2) del: length_nbrs)
  then have "wp (foldo (pim_take_bin p) bs ?s) (\<lambda>s'. \<exists>adj' mp'.
      s' = s\<lparr> ps_requests_by_src := (ps_requests_by_src s)(p := adj'), ps_bin_mempool := mp' \<rparr>
      \<and> nbrs adj' = (\<lambda>i. nbrs (ps_requests_by_src s p) i @ dests i (concat (map bin_list (b # bs))))
      \<and> pool_wf mp' \<and> length (pool_list mp') = length (pool_list (ps_bin_mempool s)) + length (b # bs)
      \<and> pool_size mp' = pool_size (ps_bin_mempool s))"
    by (rule wp_mono) (auto simp: adj(2) mp(3,4))
  moreover have "pim_take_bin p b s = Some ?s"
    by (simp add: pim_take_bin_def adj(1) mp(1))
  ultimately show ?case
    by (simp only: foldo.simps wp_bind wp_Some)
qed

subsection \<open>Preparation\<close>

text \<open>The first \<^verbatim>\<open>p\<close> partitions are prepared.\<close>

definition prepared :: "pim_state \<Rightarrow> nat \<Rightarrow> pim_state \<Rightarrow> bool" where
  "prepared s p u \<longleftrightarrow>
     (\<forall>a. if PARTITION_OF a < p then p_reqs u a = p_wanted s a \<and> \<not> p_smark u a \<and> \<not> p_dmark u a else p_reqs u a = p_reqs s a)
     \<and> (\<forall>q. if q < p then p_adm u q = [] else pc_q_new_demands (ps_cores u q) = pc_q_new_demands (ps_cores s q))
     \<and> p_accepts u = p_accepts s \<and> ps_q_admitted_out u = ps_q_admitted_out s
     \<and> pool_wf (ps_bin_mempool u) \<and> pool_size (ps_bin_mempool u) = pool_size (ps_bin_mempool s)
     \<and> length (pool_list (ps_bin_mempool u)) = length (pool_list (ps_bin_mempool s)) + (\<Sum>q < p. length (p_taken_bins s q))
     \<and> pool_wf (ps_admitted_mempool u) \<and> length (pool_list (ps_admitted_mempool u)) + p = length (pool_list (ps_admitted_mempool s))"

lemma wanted_dests:
  assumes "pim_ready s" "p < 2" "PARTITION_OF a = p"
  shows "p_wanted s a = p_reqs s a @ dests (PARTITION_IDX a) (p_taken s p)" "length (p_wanted s a) \<le> 256"
proof -
  have "PARTITION_OF (e_src e) = p" if "e \<in> set (p_taken s p)" for e
    using assms(1,2) that by (simp add: pim_ready_def)
  then have "(e_src e = a) = (PARTITION_IDX (e_src e) = PARTITION_IDX a)" if "e \<in> set (p_taken s p)" for e
    using that assms(3) node_eqI by blast
  then show "p_wanted s a = p_reqs s a @ dests (PARTITION_IDX a) (p_taken s p)"
    by (simp add: p_wanted_def dests_def assms(3) cong: filter_cong)
  have "unat a < 256"
    using assms(2,3) partition_lt by blast
  then show "length (p_wanted s a) \<le> 256"
    using assms(1) by (intro length_nodes) (simp_all add: pim_ready_def)
qed

definition prepare_core :: "bin fp_ring \<Rightarrow> bin list \<Rightarrow> admitted_traffic \<Rightarrow> nat \<Rightarrow> pim_core \<Rightarrow> pim_core" where
  "prepare_core q bs a p c = c\<lparr> pc_q_new_demands := q,
    pc_stat := adm_log_processed_new_requests (pc_stat c) (of_nat (length bs)) (sum_list (map bin_size bs)),
    pc_src_endnodes := fill (PIM_BITMASK_WORD PARTITION_N_NODES) 0 (pc_src_endnodes c),
    pc_dst_endnodes := fill (PIM_BITMASK_WORD PARTITION_N_NODES) 0 (pc_dst_endnodes c),
    pc_admitted := set_admitted_partition (init_admitted_traffic a) (of_nat p) \<rparr>"

lemma preparedD:
  assumes "prepared s p u"
  shows "if PARTITION_OF a < p then p_reqs u a = p_wanted s a \<and> \<not> p_smark u a \<and> \<not> p_dmark u a else p_reqs u a = p_reqs s a"
    "if q < p then p_adm u q = [] else pc_q_new_demands (ps_cores u q) = pc_q_new_demands (ps_cores s q)"
  using assms unfolding prepared_def by blast+

lemma prepare_run:
  assumes ready: "pim_ready s" and p: "p < 2" and u: "prepared s p u"
  obtains q a adj mp amp where "pim_prepare p u = Some (upd_pcore p (prepare_core q (p_taken_bins s p) a p)
      (u\<lparr> ps_requests_by_src := (ps_requests_by_src u)(p := adj), ps_bin_mempool := mp, ps_admitted_mempool := amp \<rparr>))"
    "nbrs adj = (\<lambda>i. nbrs (ps_requests_by_src u p) i @ dests i (p_taken s p))" "pool_wf mp"
    "length (pool_list mp) = length (pool_list (ps_bin_mempool u)) + length (p_taken_bins s p)"
    "pool_size mp = pool_size (ps_bin_mempool u)" "pool_wf amp" "pool_list (ps_admitted_mempool u) = pool_list amp @ [a]"
proof -
  let ?q = "pc_q_new_demands (ps_cores u p)" and ?bs = "p_taken_bins s p"
  have q: "?q = pc_q_new_demands (ps_cores s p)"
    using preparedD(2) [OF u, of p] by simp
  have pools: "pool_wf (ps_bin_mempool u)" "pool_size (ps_bin_mempool u) = pool_size (ps_bin_mempool s)"
    "length (pool_list (ps_bin_mempool u)) = length (pool_list (ps_bin_mempool s)) + (\<Sum>q < p. length (p_taken_bins s q))"
    "pool_wf (ps_admitted_mempool u)" "length (pool_list (ps_admitted_mempool u)) + p = length (pool_list (ps_admitted_mempool s))"
    using u by (simp_all add: prepared_def)
  have "ring_wf ?q"
    using ready p by (simp add: pim_ready_def q)
  from wpD [OF fp_ring_dequeue_burst_ok [OF this, of PIM_BURST_SIZE]] obtain q' where
    q': "fp_ring_dequeue_burst ?q PIM_BURST_SIZE = Some (?bs, q')"
    by (auto simp: p_taken_bins_def q)
  let ?u = "upd_pcore p (\<lambda>c. c\<lparr> pc_q_new_demands := q' \<rparr>) u"
  have "length (nbrs (ps_requests_by_src ?u p) i @ dests i (concat (map bin_list ?bs))) \<le> 256" if i: "i < 128" for i
  proof -
    have n: "PARTITION_OF (node p i) = p" "PARTITION_IDX (node p i) = i"
      using node_parts [OF p i] by simp_all
    have "nbrs (ps_requests_by_src ?u p) i = p_reqs s (node p i)"
      using preparedD(1) [OF u, of "node p i"] by (simp add: p_reqs_def n)
    then show ?thesis
      using wanted_dests [OF ready p n(1)] unfolding n(2) p_taken_def by simp
  qed
  moreover have "length (pool_list (ps_bin_mempool ?u)) + length ?bs \<le> pool_size (ps_bin_mempool ?u)"
    using ready p pools(2,3) by (auto simp: pim_ready_def less_2_cases_iff)
  ultimately obtain adj mp where
    take: "foldo (pim_take_bin p) ?bs ?u = Some (?u\<lparr> ps_requests_by_src := (ps_requests_by_src ?u)(p := adj), ps_bin_mempool := mp \<rparr>)"
      "nbrs adj = (\<lambda>i. nbrs (ps_requests_by_src u p) i @ dests i (p_taken s p))" "pool_wf mp"
      "length (pool_list mp) = length (pool_list (ps_bin_mempool u)) + length ?bs" "pool_size mp = pool_size (ps_bin_mempool u)"
    using wpD [OF take_bins_ok [of ?u p ?bs]] pools(1) by (auto simp: p_taken_def)
  have "pool_list (ps_admitted_mempool u) \<noteq> []"
    using ready p pools(5) by (auto simp: pim_ready_def)
  from wpD [OF fp_mempool_get_ok [OF pools(4) this]] obtain a amp where
    a: "fp_mempool_get (ps_admitted_mempool u) = Some (Some a, amp)" "pool_wf amp"
      "pool_list (ps_admitted_mempool u) = pool_list amp @ [a]"
    by auto
  have "pim_prepare p u = Some (upd_pcore p (prepare_core q' ?bs a p)
      (u\<lparr> ps_requests_by_src := (ps_requests_by_src u)(p := adj), ps_bin_mempool := mp, ps_admitted_mempool := amp \<rparr>))"
    by (simp add: pim_prepare_def pim_process_new_requests_def q' take(1) a(1)) (simp add: upd_pcore_def prepare_core_def)
  then show ?thesis
    using that take(2-5) a(2,3) by blast
qed

lemma pim_prepare_ok:
  assumes ready: "pim_ready s" and p: "p < 2" and u: "prepared s p u"
  shows "wp (pim_prepare p u) (prepared s (Suc p))"
proof -
  obtain q a adj mp amp where run: "pim_prepare p u = Some (upd_pcore p (prepare_core q (p_taken_bins s p) a p)
      (u\<lparr> ps_requests_by_src := (ps_requests_by_src u)(p := adj), ps_bin_mempool := mp, ps_admitted_mempool := amp \<rparr>))"
      (is "_ = Some ?v")
    and adj: "nbrs adj = (\<lambda>i. nbrs (ps_requests_by_src u p) i @ dests i (p_taken s p))"
    and pools: "pool_wf mp" "length (pool_list mp) = length (pool_list (ps_bin_mempool u)) + length (p_taken_bins s p)"
      "pool_size mp = pool_size (ps_bin_mempool u)" "pool_wf amp" "pool_list (ps_admitted_mempool u) = pool_list amp @ [a]"
    by (rule prepare_run [OF assms])
  have nodes: "if PARTITION_OF x < Suc p then p_reqs ?v x = p_wanted s x \<and> \<not> p_smark ?v x \<and> \<not> p_dmark ?v x
      else p_reqs ?v x = p_reqs s x" for x
  proof (cases "PARTITION_OF x = p")
    case True
    then show ?thesis
      using preparedD(1) [OF u, of x] wanted_dests(1) [OF ready p True] marked_fill [OF idx_lt]
      by (simp add: p_reqs_def p_smark_def p_dmark_def adj prepare_core_def)
  next
    case False
    then have "p_reqs ?v x = p_reqs u x" "p_smark ?v x = p_smark u x" "p_dmark ?v x = p_dmark u x"
      by (simp_all add: p_reqs_def p_smark_def p_dmark_def)
    then show ?thesis
      using False preparedD(1) [OF u, of x] by (simp add: less_Suc_eq)
  qed
  have cores: "if x < Suc p then p_adm ?v x = [] else pc_q_new_demands (ps_cores ?v x) = pc_q_new_demands (ps_cores s x)" for x
  proof (cases "x = p")
    case True
    then show ?thesis
      by (simp add: p_adm_def set_admitted_partition_def admitted_list_def init_admitted_traffic_def prepare_core_def)
  next
    case False
    then have "p_adm ?v x = p_adm u x" "ps_cores ?v x = ps_cores u x"
      by (simp_all add: p_adm_def)
    then show ?thesis
      using False preparedD(2) [OF u, of x] by (simp add: less_Suc_eq)
  qed
  have rest: "p_accepts ?v = p_accepts s" "ps_q_admitted_out ?v = ps_q_admitted_out s" "pool_wf (ps_bin_mempool ?v)"
    "pool_size (ps_bin_mempool ?v) = pool_size (ps_bin_mempool s)"
    "length (pool_list (ps_bin_mempool ?v)) = length (pool_list (ps_bin_mempool s)) + (\<Sum>q < Suc p. length (p_taken_bins s q))"
    "pool_wf (ps_admitted_mempool ?v)"
    "length (pool_list (ps_admitted_mempool ?v)) + Suc p = length (pool_list (ps_admitted_mempool s))"
    using u pools by (simp_all add: prepared_def p_accepts_def fun_eq_iff)
  have "prepared s (Suc p) ?v"
    unfolding prepared_def by (intro conjI allI nodes cores rest)
  then show ?thesis
    by (simp only: run wp_Some)
qed

subsection \<open>The timeslot\<close>

lemma prepared_slot_inv:
  assumes "pim_ready s" "prepared s 2 u"
  shows "slot_inv (\<lambda>a. set (p_wanted s a)) u" "\<And>a. unat a < 256 \<Longrightarrow> p_reqs u a = p_wanted s a"
    "\<And>a. unat a < 256 \<Longrightarrow> \<not> p_smark u a \<and> \<not> p_dmark u a" "ps_q_admitted_out u = ps_q_admitted_out s"
proof -
  show n: "p_reqs u a = p_wanted s a" "\<not> p_smark u a \<and> \<not> p_dmark u a" if "unat a < 256" for a
    using assms(2) that unfolding prepared_def partition_lt [symmetric] by metis+
  have adm: "p_adm u q = []" if "q < 2" for q
    using assms(2) that unfolding prepared_def by metis
  then have "p_admset u = {}"
    by (simp add: p_admset_def)
  then have "pim_inv (\<lambda>a. set (p_wanted s a)) {} u"
    using assms(1) n adm by (simp add: pim_inv_defs pim_ready_def)
  then show "slot_inv (\<lambda>a. set (p_wanted s a)) u"
    using assms by (simp add: slot_inv_def prepared_def pim_ready_def)
  show "ps_q_admitted_out u = ps_q_admitted_out s"
    using assms(2) by (simp add: prepared_def)
qed

definition slot_post :: "pim_state \<Rightarrow> pim_state \<Rightarrow> bool" where
  "slot_post s u \<longleftrightarrow> slot_inv (\<lambda>a. set (p_wanted s a)) u \<and> ps_q_admitted_out u = ps_q_admitted_out s
     \<and> ((\<exists>a. unat a < 256 \<and> p_wanted s a \<noteq> []) \<longrightarrow> p_admset u \<noteq> {})"

lemma later_iterations:
  assumes "slot_post s u"
  shows "wp (foldo (\<lambda>i. pim_iteration False decrease pim_do_grant) xs u) (slot_post s)"
proof -
  have "wp (pim_iteration False decrease pim_do_grant u) (slot_post s)" if u: "slot_post s u" for u
  proof (rule wp_mono [OF iteration_ok])
    show "slot_inv (\<lambda>a. set (p_wanted s a)) u"
      using u by (simp add: slot_post_def)
    show "wp (pim_do_grant p v) (\<lambda>v'. p_other p v' v \<and> grants_upto False p 128 v')" if "p < 2" "reqs_ok v" for p v
      using that by (rule do_grant_ok)
    show "slot_post s v" if "iteration_post False (\<lambda>a. set (p_wanted s a)) u v" for v
      using that u by (auto simp: slot_post_def iteration_post_def)
  qed
  then show ?thesis
    using wp_foldo [of "\<lambda>i. slot_post s" u xs "\<lambda>i. pim_iteration False decrease pim_do_grant"] assms by blast
qed

lemma iterations_ok:
  assumes "pim_ready s" "prepared s 2 u"
  shows "wp (do { u \<leftarrow> pim_iteration False decrease pim_do_grant_first_it u;
      foldo (\<lambda>i. pim_iteration False decrease pim_do_grant) [1..<NUM_ITERATIONS] u }) (slot_post s)"
proof -
  note u = prepared_slot_inv [OF assms]
  have "wp (pim_iteration False decrease pim_do_grant_first_it u) (iteration_post True (\<lambda>a. set (p_wanted s a)) u)"
  proof (rule iteration_ok [OF u(1)])
    show "wp (pim_do_grant_first_it p v) (\<lambda>v'. p_other p v' v \<and> grants_upto True p 128 v')"
      if "p < 2" "reqs_ok v" "p_view v = p_view u" for p v
      using that u(3) by (intro do_grant_first_ok) (simp_all add: p_view_def)
  qed
  then have "wp (pim_iteration False decrease pim_do_grant_first_it u) (slot_post s)"
    by (rule wp_mono) (use u in \<open>auto simp: slot_post_def iteration_post_def\<close>)
  then show ?thesis
    unfolding wp_bind by (rule wp_mono) (rule later_iterations)
qed

lemma complete_ok:
  assumes "ring_wf (ps_q_admitted_out u)" "ring_count (ps_q_admitted_out u) + 2 \<le> ring_room (ps_q_admitted_out u)"
  shows "wp (foldo pim_complete_timeslot [0..<N_PARTITIONS] u) (\<lambda>v. \<exists>q. v = u\<lparr> ps_q_admitted_out := q \<rparr> \<and> ring_wf q
    \<and> ring_list q = ring_list (ps_q_admitted_out u) @ [pc_admitted (ps_cores u 0), pc_admitted (ps_cores u 1)]
    \<and> ring_room q = ring_room (ps_q_admitted_out u))"
proof -
  let ?q = "ps_q_admitted_out u"
  obtain q where q: "fp_ring_enqueue ?q (pc_admitted (ps_cores u 0)) = Some q" "ring_wf q"
    "ring_list q = ring_list ?q @ [pc_admitted (ps_cores u 0)]" "ring_room q = ring_room ?q"
    using wpD [OF fp_ring_enqueue_ok [OF assms(1)]] assms(2) by auto
  have "ring_count q < ring_room q"
    using arg_cong [OF q(3), of length] q(4) assms(2) by simp
  then obtain q' where q': "fp_ring_enqueue q (pc_admitted (ps_cores u 1)) = Some q'" "ring_wf q'"
    "ring_list q' = ring_list q @ [pc_admitted (ps_cores u 1)]" "ring_room q' = ring_room q"
    using wpD [OF fp_ring_enqueue_ok [OF q(2)]] by blast
  show ?thesis
    using q q' unfolding partition_list by (auto simp: pim_complete_timeslot_def intro!: exI [of _ q'])
qed

definition sent_post :: "pim_state \<Rightarrow> pim_state \<Rightarrow> bool" where
  "sent_post s v \<longleftrightarrow> (\<exists>u q. slot_post s u \<and> v = u\<lparr> ps_q_admitted_out := q \<rparr> \<and> ring_wf q
    \<and> ring_list q = ring_list (ps_q_admitted_out s) @ [pc_admitted (ps_cores u 0), pc_admitted (ps_cores u 1)]
    \<and> ring_room q = ring_room (ps_q_admitted_out s))"

lemma timeslot_ok:
  assumes "pim_ready s"
  shows "wp (pim_get_admissible_traffic False decrease s) (sent_post s)"
proof -
  have prep: "wp (foldo pim_prepare [0..<N_PARTITIONS] s) (prepared s 2)"
    unfolding partitions
  proof (rule wp_upto)
    show "prepared s 0 s"
      using assms by (simp add: prepared_def pim_ready_def)
  qed (rule pim_prepare_ok [OF assms])
  have sent: "wp (foldo pim_complete_timeslot [0..<N_PARTITIONS] u) (sent_post s)" if u: "slot_post s u" for u
  proof -
    have q: "ps_q_admitted_out u = ps_q_admitted_out s"
      using u by (simp add: slot_post_def)
    have "ring_wf (ps_q_admitted_out u)" "ring_count (ps_q_admitted_out u) + 2 \<le> ring_room (ps_q_admitted_out u)"
      using assms by (simp_all add: q pim_ready_def)
    then show ?thesis
      by (rule wp_mono [OF complete_ok]) (use u in \<open>unfold sent_post_def q, blast\<close>)
  qed
  note steps = wp_mono [OF iterations_ok [OF assms] sent, unfolded wp_bind]
  show ?thesis
    unfolding pim_get_admissible_traffic_def wp_bind by (rule wp_mono [OF prep steps])
qed

text \<open>With assertions, a timeslot in which only pairs with an empty backlog are requested does not end.\<close>

lemma prepare_backlog: "pim_prepare p s = Some s' \<Longrightarrow> ps_backlog s' = ps_backlog s"
proof -
  have "foldo (pim_take_bin p) bs u = Some u' \<Longrightarrow> ps_backlog u' = ps_backlog u" for bs u u'
    by (induction bs arbitrary: u) (auto simp: pim_take_bin_def bind_eq_Some_conv)
  then show "pim_prepare p s = Some s' \<Longrightarrow> ps_backlog s' = ps_backlog s"
    by (fastforce simp: pim_prepare_def pim_process_new_requests_def bind_eq_Some_conv)
qed

lemma timeslot_asserts:
  assumes ready: "pim_ready s" and req: "unat a < 256" "p_wanted s a \<noteq> []"
    and zero: "\<And>a b. unat a < 256 \<Longrightarrow> b \<in> set (p_wanted s a) \<Longrightarrow> backlog_get (ps_backlog s) a b = Some 0"
  shows "pim_get_admissible_traffic True decrease s = None"
proof -
  have "wp (foldo pim_prepare [0..<N_PARTITIONS] s) (prepared s 2)"
    unfolding partitions
  proof (rule wp_upto)
    show "prepared s 0 s"
      using ready by (simp add: prepared_def pim_ready_def)
  qed (rule pim_prepare_ok [OF ready])
  then obtain u where u: "foldo pim_prepare [0..<N_PARTITIONS] s = Some u" "prepared s 2 u"
    by (auto dest!: wpD)
  have bl: "ps_backlog u = ps_backlog s"
    using u(1) unfolding partition_list by (auto simp: bind_eq_Some_conv dest!: prepare_backlog)
  note i = prepared_slot_inv [OF ready u(2)]
  have "p_adm u q = []" if "q < 2" for q
    using u(2) that unfolding prepared_def by metis
  then have adm: "p_admset u = {}"
    by (simp add: p_admset_def)
  have "pim_iteration True decrease pim_do_grant_first_it u = None"
  proof (rule iteration_asserts [OF i(1)])
    show "wp (pim_do_grant_first_it p v) (\<lambda>v'. p_other p v' v \<and> grants_upto True p 128 v')"
      if "p < 2" "reqs_ok v" "p_view v = p_view u" for p v
      using that i(3) by (intro do_grant_first_ok) (simp_all add: p_view_def)
  qed (use req zero bl i(2) adm in auto)
  then show ?thesis
    unfolding pim_get_admissible_traffic_def u(1) by simp
qed

subsection \<open>What was sent\<close>

lemma slot_edges_facts:
  assumes "slot_post s u"
  defines "es \<equiv> admitted_list (pc_admitted (ps_cores u 0)) @ admitted_list (pc_admitted (ps_cores u 1))"
  shows "distinct (map a_src es)" "distinct (map a_dst es)"
    "e \<in> set es \<Longrightarrow> unat (a_src e) < 256 \<and> unat (a_dst e) < 256 \<and> a_dst e \<in> set (p_wanted s (a_src e))"
    "unat a < 256 \<Longrightarrow> set (p_reqs u a) \<subseteq> set (p_wanted s a)"
    "unat a < 256 \<Longrightarrow> b \<in> set (p_wanted s a) \<Longrightarrow> b \<notin> set (p_reqs u a) \<Longrightarrow> \<exists>e \<in> set es. a_src e = a \<and> a_dst e = b"
    "unat a < 256 \<Longrightarrow> p_wanted s a \<noteq> [] \<Longrightarrow> es \<noteq> []"
proof -
  let ?pr = "\<lambda>e. (a_src e, a_dst e)"
  have prs: "map ?pr es = p_adm u 0 @ p_adm u 1" and set: "?pr ` set es = p_admset u"
    by (simp_all add: es_def p_adm_def p_admset_def image_Un)
  have i: "pim_req_inv (\<lambda>a. set (p_wanted s a)) u" "pim_adm_inv u" "pim_match_inv (\<lambda>a. set (p_wanted s a)) (p_admset u)"
    using assms(1) by (simp_all add: slot_post_def slot_inv_def pim_inv_def)
  have "distinct (p_adm u 0)" "distinct (p_adm u 1)" "\<forall>e \<in> set (p_adm u 0). PARTITION_OF (fst e) = 0"
    "\<forall>e \<in> set (p_adm u 1). PARTITION_OF (fst e) = 1"
    using i(2) by (simp_all add: pim_adm_inv_def)
  then have "distinct (p_adm u 0 @ p_adm u 1)"
    unfolding distinct_append disjoint_iff by (metis zero_neq_one)
  moreover have "set (p_adm u 0 @ p_adm u 1) = p_admset u"
    by (simp add: p_admset_def)
  ultimately have "distinct (map fst (map ?pr es))" "distinct (map snd (map ?pr es))"
    using i(3) unfolding prs distinct_map pim_match_inv_def by simp_all
  then show "distinct (map a_src es)" "distinct (map a_dst es)"
    by (simp_all add: comp_def)
  show "unat (a_src e) < 256 \<and> unat (a_dst e) < 256 \<and> a_dst e \<in> set (p_wanted s (a_src e))" if "e \<in> set es"
  proof -
    have "?pr e \<in> p_admset u"
      using that set by blast
    then show ?thesis
      using i(3) unfolding pim_match_inv_def pair_ok_def by fastforce
  qed
  show "set (p_reqs u a) \<subseteq> set (p_wanted s a)" if "unat a < 256"
    using i(1) that by (simp add: pim_req_inv_def)
  show "\<exists>e \<in> set es. a_src e = a \<and> a_dst e = b" if "unat a < 256" "b \<in> set (p_wanted s a)" "b \<notin> set (p_reqs u a)"
  proof -
    have "(a, b) \<in> ?pr ` set es"
      using i(1) that unfolding set pim_req_inv_def by blast
    then show ?thesis
      by auto
  qed
  show "es \<noteq> []" if "unat a < 256" "p_wanted s a \<noteq> []"
    using assms(1) that set by (auto simp: slot_post_def)
qed

subsection \<open>The check\<close>

lemma check_edges_ok:
  assumes "distinct (map a_src es)" "distinct (map a_dst es)" "a_src ` set es \<inter> A = {}" "a_dst ` set es \<inter> B = {}"
  shows "pim_check_edges es (A, B) = Some (A \<union> a_src ` set es, B \<union> a_dst ` set es)"
  using assms by (induction es arbitrary: A B) auto

lemma check_ok:
  assumes wf: "ring_wf (ps_q_admitted_out v)" and two: "ring_list (ps_q_admitted_out v) = [x, y]"
    and "distinct (map a_src (admitted_list x @ admitted_list y))" "distinct (map a_dst (admitted_list x @ admitted_list y))"
  shows "wp (pim_is_valid_admitted_traffic v) (\<lambda>(ok, v'). ok \<and> ring_list (ps_q_admitted_out v') = [x, y])"
proof -
  let ?q = "ps_q_admitted_out v"
  have room: "2 \<le> ring_room ?q"
    using ring_count_room [OF wf] arg_cong [OF two, of length] by simp
  obtain q1 where q1: "fp_ring_dequeue ?q = Some (Some x, q1)" "ring_wf q1" "ring_list q1 = [y]" "ring_room q1 = ring_room ?q"
    using wpD [OF fp_ring_dequeue_ok [OF wf two]] by auto
  have "ring_count q1 < ring_room q1"
    using arg_cong [OF q1(3), of length] q1(4) room by simp
  then obtain q2 where q2: "fp_ring_enqueue q1 x = Some q2" "ring_wf q2" "ring_list q2 = [y, x]" "ring_room q2 = ring_room ?q"
    using wpD [OF fp_ring_enqueue_ok [OF q1(2), of x]] q1(3,4) by auto
  obtain q3 where q3: "fp_ring_dequeue q2 = Some (Some y, q3)" "ring_wf q3" "ring_list q3 = [x]" "ring_room q3 = ring_room ?q"
    using wpD [OF fp_ring_dequeue_ok [OF q2(2,3)]] q2(4) by auto
  have "ring_count q3 < ring_room q3"
    using arg_cong [OF q3(3), of length] q3(4) room by simp
  then obtain q4 where q4: "fp_ring_enqueue q3 y = Some q4" "ring_list q4 = [x, y]"
    using wpD [OF fp_ring_enqueue_ok [OF q3(2), of y]] q3(3) by auto
  have c1: "pim_check_edges (admitted_list x) ({}, {}) = Some (a_src ` set (admitted_list x), a_dst ` set (admitted_list x))"
    using check_edges_ok [of "admitted_list x" "{}" "{}"] assms(3,4) by simp
  have c2: "\<exists>seen. pim_check_edges (admitted_list y) (a_src ` set (admitted_list x), a_dst ` set (admitted_list x)) = Some seen"
    using check_edges_ok [of "admitted_list y" "a_src ` set (admitted_list x)" "a_dst ` set (admitted_list x)"] assms(3,4)
    by (auto simp: Int_commute)
  show ?thesis
    using c1 c2 by (auto simp: pim_is_valid_admitted_traffic_def numeral_2_eq_2 q1(1) q2(1) q3(1) q4)
qed

end
