(* ===== verification/FP_Pim_Props.thy ===== *)
theory FP_Pim_Props
  imports FP_Pim_Slot FP_Alloc_Spec
begin

unbundle bit_operations_syntax

text \<open>
  The properties of the grant/accept allocator, with a concrete state on which their hypotheses
  hold: a timeslot is a matching of requested pairs, the check of the timeslot accepts it, a
  single request is admitted, and the entries of the barrier name their phase and partition.
\<close>

subsection \<open>A concrete state\<close>

definition demo_pim_core :: "bin list \<Rightarrow> pim_core" where
  "demo_pim_core bins = \<lparr> pc_rand = 1, pc_admitted = \<lparr> at_size = 0, at_partition = 0, at_edges = (\<lambda>_. \<lparr> a_src = 0, a_dst = 0 \<rparr>) \<rparr>,
     pc_grant_adj_index = (\<lambda>_. 0), pc_src_endnodes = (\<lambda>_. 0), pc_dst_endnodes = (\<lambda>_. 0),
     pc_q_new_demands = demo_ring (demo_bin 128 []) bins, pc_stat = core_stat demo_core \<rparr>"

definition demo_pim :: "bin list \<Rightarrow> pim_state" where
  "demo_pim bins = (let traffic = \<lparr> at_size = 0, at_partition = 0, at_edges = (\<lambda>_. \<lparr> a_src = 0, a_dst = 0 \<rparr>) \<rparr>;
       edges = (\<lambda>_ _. \<lparr> el_n = 0, el_edge = (\<lambda>_. \<lparr> ga_src = 0, ga_dst = 0 \<rparr>) \<rparr>);
       adj = (\<lambda>_. \<lparr> adj_degree = (\<lambda>_. 0), adj_neigh = (\<lambda>_ _. 0) \<rparr>)
     in \<lparr> ps_requests_by_src = adj, ps_grants = edges, ps_grants_by_dst = adj, ps_accepts = edges, ps_backlog = demo_backlog,
       ps_new_demands = (\<lambda>_. demo_bin 128 []), ps_q_admitted_out = demo_ring traffic [],
       ps_bin_mempool = \<lparr> total_elements = 8, cur_elements = 4, elements = replicate 8 (demo_bin 128 []) \<rparr>,
       ps_admitted_mempool = \<lparr> total_elements = 4, cur_elements = 4, elements = replicate 4 traffic \<rparr>,
       ps_cores = (\<lambda>p. demo_pim_core (if p = 0 then bins else [])),
       ps_stat = st_stat (demo_status demo_backlog []),
       ps_phase = (\<lambda>_. \<lparr> ph_q_ready = demo_ring 0 [], ph_phase = 0 \<rparr>) \<rparr>)"

lemma demo_pim_sel:
  "p_reqs (demo_pim bins) a = []" "p_accepts (demo_pim bins) d q = []"
  "length bins \<le> 8 \<Longrightarrow> p_taken_bins (demo_pim bins) p = (if p = 0 then bins else [])"
  by (simp_all add: demo_pim_def Let_def p_reqs_def nbrs_def p_accepts_def el_pairs_def p_taken_bins_def PIM_BURST_SIZE_def demo_pim_core_def)

lemma demo_pim_rest:
  assumes "length bins \<le> 4"
  shows "ring_wf (pc_q_new_demands (ps_cores (demo_pim bins) p))" "pool_wf (ps_bin_mempool (demo_pim bins))"
    "length (pool_list (ps_bin_mempool (demo_pim bins))) = 4" "pool_size (ps_bin_mempool (demo_pim bins)) = 8"
    "pool_wf (ps_admitted_mempool (demo_pim bins))" "length (pool_list (ps_admitted_mempool (demo_pim bins))) = 4"
    "ring_wf (ps_q_admitted_out (demo_pim bins))" "ring_count (ps_q_admitted_out (demo_pim bins)) = 0"
    "ring_room (ps_q_admitted_out (demo_pim bins)) = 31" "ring_list (ps_q_admitted_out (demo_pim bins)) = []"
  using assms by (simp_all add: demo_pim_def Let_def demo_pim_core_def pool_wf_def pool_list_def pool_size_def)

lemma demo_pim_ready:
  assumes "length bins \<le> 4" "\<forall>e \<in> set (concat (map bin_list bins)). unat (e_src e) < 128 \<and> unat (e_dst e) < 256"
    "distinct (map (\<lambda>e. (e_src e, e_dst e)) (concat (map bin_list bins)))"
  shows "pim_ready (demo_pim bins)"
proof -
  let ?s = "demo_pim bins" and ?es = "concat (map bin_list bins)"
  have tk: "p_taken ?s p = (if p = 0 then ?es else [])" for p
    using assms(1) by (simp add: p_taken_def demo_pim_sel)
  have "distinct (map e_dst (filter (\<lambda>e. e_src e = a) es))" if "distinct (map (\<lambda>e. (e_src e, e_dst e)) es)" for a es
    using that by (induction es) (auto simp: image_iff)
  then have want: "distinct (p_wanted ?s a)" "\<forall>b \<in> set (p_wanted ?s a). unat b < 256" for a
    using assms(2,3) by (auto simp: p_wanted_def demo_pim_sel tk)
  have part: "\<forall>e \<in> set (p_taken ?s p). PARTITION_OF (e_src e) = p" for p
    unfolding tk using assms(2) by (auto simp: PARTITION_OF_def PARTITION_N_NODES_def)
  show ?thesis
    unfolding pim_ready_def using want part assms(1) by (simp add: demo_pim_sel demo_pim_rest)
qed

lemma demo_pim_ready_0: "pim_ready (demo_pim [])" "p_wanted (demo_pim []) a = []"
  by (rule demo_pim_ready) (simp_all add: p_wanted_def demo_pim_sel p_taken_def)

lemma demo_pim_ready_3: "pim_ready (demo_pim [demo_bin 128 demo_edges])" "p_wanted (demo_pim [demo_bin 128 demo_edges]) 1 = [2, 3]"
proof -
  have "bin_list (demo_bin 128 demo_edges) = demo_edges"
    by (simp add: demo_edges_def)
  then show "pim_ready (demo_pim [demo_bin 128 demo_edges])" "p_wanted (demo_pim [demo_bin 128 demo_edges]) 1 = [2, 3]"
    by (intro demo_pim_ready)
      (simp_all add: p_wanted_def demo_pim_sel p_taken_def PARTITION_OF_def PARTITION_N_NODES_def demo_edges_def)
qed

subsection \<open>A timeslot\<close>

text \<open>
  C39. A timeslot of the grant/accept allocator, in a state that is ready for it and for any result of
  \<^verbatim>\<open>backlog_decrease\<close> and any random state, returns: it sends out two structures, whose edges
  together are a matching of pairs that were requested (no source and no destination twice, no pair
  that is neither in the request lists nor in the new demands). A pair leaves the request lists only when it is
  admitted, no other is added to them, and when anything is requested, something is admitted. When
  nothing else is in the output queue, \<^verbatim>\<open>pim_is_valid_admitted_traffic\<close> accepts the timeslot and leaves it there.
\<close>

theorem pim_timeslot_matching:
  assumes "pim_ready s"
  shows "\<exists>s' x y. pim_get_admissible_traffic False decrease s = Some s'
    \<and> ring_list (ps_q_admitted_out s') = ring_list (ps_q_admitted_out s) @ [x, y]
    \<and> distinct (map a_src (admitted_list x @ admitted_list y)) \<and> distinct (map a_dst (admitted_list x @ admitted_list y))
    \<and> (\<forall>e \<in> set (admitted_list x @ admitted_list y). unat (a_src e) < 256 \<and> a_dst e \<in> set (p_wanted s (a_src e)))
    \<and> (\<forall>a. unat a < 256 \<longrightarrow> set (p_reqs s' a) \<subseteq> set (p_wanted s a)
         \<and> (\<forall>b \<in> set (p_wanted s a) - set (p_reqs s' a). \<exists>e \<in> set (admitted_list x @ admitted_list y). a_src e = a \<and> a_dst e = b)
         \<and> (p_wanted s a \<noteq> [] \<longrightarrow> admitted_list x @ admitted_list y \<noteq> []))
    \<and> (ring_list (ps_q_admitted_out s) = [] \<longrightarrow> (\<exists>s''. pim_is_valid_admitted_traffic s' = Some (True, s'')
         \<and> ring_list (ps_q_admitted_out s'') = [x, y]))"
proof -
  obtain u q where u: "pim_get_admissible_traffic False decrease s = Some (u\<lparr> ps_q_admitted_out := q \<rparr>)" "slot_post s u" "ring_wf q"
    "ring_list q = ring_list (ps_q_admitted_out s) @ [pc_admitted (ps_cores u 0), pc_admitted (ps_cores u 1)]"
    using wpD [OF timeslot_ok [OF assms, of decrease]] by (auto simp: sent_post_def)
  let ?s = "u\<lparr> ps_q_admitted_out := q \<rparr>" and ?x = "pc_admitted (ps_cores u 0)" and ?y = "pc_admitted (ps_cores u 1)"
  note es = slot_edges_facts [OF u(2)]
  have "\<exists>s''. pim_is_valid_admitted_traffic ?s = Some (True, s'') \<and> ring_list (ps_q_admitted_out s'') = [?x, ?y]"
    if "ring_list (ps_q_admitted_out s) = []"
    using wpD [OF check_ok [of ?s ?x ?y]] u(3,4) that es(1,2) by auto
  moreover have "p_reqs ?s = p_reqs u"
    by (simp add: p_reqs_def fun_eq_iff)
  ultimately show ?thesis
    using u(1,4) es by (intro exI [of _ ?s] exI [of _ ?x] exI [of _ ?y]) simp
qed

theorem pim_timeslot_matching_witness:
  "\<exists>s' x y. pim_get_admissible_traffic False (\<lambda>bl src dst. (0, bl)) (demo_pim [demo_bin 128 demo_edges]) = Some s'
    \<and> ring_list (ps_q_admitted_out s') = [x, y] \<and> distinct (map a_src (admitted_list x @ admitted_list y))
    \<and> admitted_list x @ admitted_list y \<noteq> [] \<and> (\<exists>s''. pim_is_valid_admitted_traffic s' = Some (True, s''))"
proof -
  have "unat (1 :: u16) < 256"
    by simp
  then show ?thesis
    using pim_timeslot_matching [OF demo_pim_ready_3(1), of "\<lambda>bl src dst. (0, bl)"] demo_pim_ready_3(2)
      demo_pim_rest(10) [of "[demo_bin 128 demo_edges]"] by fastforce
qed

subsection \<open>One request\<close>

lemma flush_now_ok:
  assumes "ring_wf (pc_q_new_demands (ps_cores s p))" "ring_count (pc_q_new_demands (ps_cores s p)) < ring_room (pc_q_new_demands (ps_cores s p))"
    "pool_wf (ps_bin_mempool s)" "pool_list (ps_bin_mempool s) \<noteq> []"
  shows "wp (pim_flush_backlog_now p s) (\<lambda>s'. \<exists>q mp nd. s' = (upd_pcore p (\<lambda>c. c\<lparr> pc_q_new_demands := q \<rparr>) s)
      \<lparr> ps_bin_mempool := mp, ps_new_demands := nd \<rparr> \<and> ring_wf q
    \<and> ring_list q = ring_list (pc_q_new_demands (ps_cores s p)) @ [ps_new_demands s p]
    \<and> pool_wf mp \<and> length (pool_list mp) + 1 = length (pool_list (ps_bin_mempool s)) \<and> pool_size mp = pool_size (ps_bin_mempool s)
    \<and> (\<forall>i. bin_size (nd i) = (if i = p then 0 else bin_size (ps_new_demands s i))))"
proof -
  obtain q where q: "fp_ring_enqueue (pc_q_new_demands (ps_cores s p)) (ps_new_demands s p) = Some q" "ring_wf q"
    "ring_list q = ring_list (pc_q_new_demands (ps_cores s p)) @ [ps_new_demands s p]"
    using wpD [OF fp_ring_enqueue_ok [OF assms(1,2)]] by blast
  obtain b mp where mp: "fp_mempool_get (ps_bin_mempool s) = Some (Some b, mp)" "pool_wf mp"
    "pool_list (ps_bin_mempool s) = pool_list mp @ [b]" "pool_size mp = pool_size (ps_bin_mempool s)"
    using wpD [OF fp_mempool_get_ok [OF assms(3,4)]] by auto
  let ?nd = "(ps_new_demands s)(p := init_bin b)"
  have "pim_flush_backlog_now p s = Some ((upd_pcore p (\<lambda>c. c\<lparr> pc_q_new_demands := q \<rparr>) s)\<lparr> ps_bin_mempool := mp, ps_new_demands := ?nd \<rparr>)"
    by (simp add: pim_flush_backlog_now_def q(1) mp(1))
  then show ?thesis
    using q(2,3) mp(2-4)
    by (simp only: wp_Some, intro exI [of _ q] exI [of _ mp] exI [of _ ?nd]) (simp add: init_bin_def)
qed

text \<open>No request is known, and there is memory for one.\<close>

definition pim_idle :: "pim_state \<Rightarrow> bool" where
  "pim_idle s \<longleftrightarrow> pim_ready s \<and> (\<forall>a. unat a < 256 \<longrightarrow> p_wanted s a = [])
     \<and> (\<forall>p < 2. bin_size (ps_new_demands s p) = 0 \<and> ring_list (pc_q_new_demands (ps_cores s p)) = []
          \<and> 0 < ring_room (pc_q_new_demands (ps_cores s p)))
     \<and> pool_list (ps_bin_mempool s) \<noteq> []"

lemma demo_pim_idle: "pim_idle (demo_pim [])"
proof -
  have "pool_list (ps_bin_mempool (demo_pim [])) \<noteq> []"
    using demo_pim_rest(3) [of "[]"] by auto
  moreover have "bin_size (ps_new_demands (demo_pim []) p) = 0" "pc_q_new_demands (ps_cores (demo_pim []) p) = demo_ring (demo_bin 128 []) []" for p
    by (simp_all add: demo_pim_def Let_def demo_pim_core_def demo_bin_def)
  ultimately show ?thesis
    by (simp add: pim_idle_def demo_pim_ready_0)
qed

lemma request_added:
  assumes "pim_idle s" "unat src < 256" "unat dst < 256" "amount \<noteq> 0"
    and bl: "\<not> arr_bit (is_active (ps_backlog s)) (backlog_index src dst)" "bl_n (ps_backlog s) (backlog_index src dst) = 0"
    and enq: "enqueue (ps_new_demands s (PARTITION_OF src)) src dst 0 = Some b" "unat (bin_size b) = 1"
  obtains bl' st where "pim_add_backlog enqueue src dst amount s
    = Some (s\<lparr> ps_backlog := bl', ps_stat := st, ps_new_demands := (ps_new_demands s)(PARTITION_OF src := b) \<rparr>)"
    "backlog_get bl' src dst = Some 0"
proof -
  have "PARTITION_OF src < 2"
    using assms(2) by (simp add: partition_lt)
  then show ?thesis
    using that assms(4) bl enq backlog_index_lt [OF assms(2,3)]
    by (simp add: pim_add_backlog_def backlog_increase_def backlog_get_def PIM_SMALL_BIN_SIZE_def MAX_NODES_def guard_o_def)
qed

lemma flush_one:
  assumes "p < 2" "\<And>q. q < 2 \<Longrightarrow> is_empty_bin (ps_new_demands s q) = (q \<noteq> p)"
    and "pim_flush_backlog_now p s = Some s'" "\<And>q. bin_size (ps_new_demands s' q) = (if q = p then 0 else bin_size (ps_new_demands s q))"
  shows "pim_flush_backlog s = Some (s'\<lparr> ps_stat := adm_log_forced_backlog_flush (ps_stat s') \<rparr>)"
proof -
  have after: "is_empty_bin (ps_new_demands s' 1)"
    using assms(2) [of 1] assms(4) [of 1] by (auto simp: is_empty_bin_def)
  moreover have "p = 0 \<or> p = 1"
    using assms(1) by auto
  ultimately show ?thesis
    using assms(2) [of 0] assms(2) [of 1] assms(3) unfolding pim_flush_backlog_def partition_list by (elim disjE) simp_all
qed

lemma request_flushed:
  assumes idle: "pim_idle s" and p: "PARTITION_OF src = p" "unat src < 256" "unat dst < 256"
    and s1: "s1 = s\<lparr> ps_backlog := bl, ps_stat := st, ps_new_demands := (ps_new_demands s)(p := b) \<rparr>"
    and b: "bin_list b = [e]" "e_src e = src" "e_dst e = dst"
  shows "\<exists>s2. pim_flush_backlog s1 = Some s2 \<and> pim_ready s2 \<and> ps_q_admitted_out s2 = ps_q_admitted_out s
    \<and> (\<forall>a. unat a < 256 \<longrightarrow> p_wanted s2 a = (if a = src then [dst] else [])) \<and> ps_backlog s2 = bl"
proof -
  have p2: "p < 2"
    using p(1,2) partition_lt by blast
  have i: "pim_ready s" "\<And>a. unat a < 256 \<Longrightarrow> p_wanted s a = []" "pool_list (ps_bin_mempool s) \<noteq> []"
    "\<And>q. q < 2 \<Longrightarrow> bin_size (ps_new_demands s q) = 0" "\<And>q. q < 2 \<Longrightarrow> ring_list (pc_q_new_demands (ps_cores s q)) = []"
    "\<And>q. q < 2 \<Longrightarrow> 0 < ring_room (pc_q_new_demands (ps_cores s q))"
    using idle by (auto simp: pim_idle_def)
  have r: "\<And>q. q < 2 \<Longrightarrow> ring_wf (pc_q_new_demands (ps_cores s q))" "pool_wf (ps_bin_mempool s)"
    using i(1) by (auto simp: pim_ready_def)
  have cnt: "ring_count (pc_q_new_demands (ps_cores s p)) = 0"
    using arg_cong [OF i(5) [OF p2], of length] by simp
  have size: "unat (bin_size b) = 1"
    using arg_cong [OF b(1), of length] by (simp add: bin_list_def)
  obtain q mp nd where s2: "pim_flush_backlog_now p s1 = Some ((upd_pcore p (\<lambda>c. c\<lparr> pc_q_new_demands := q \<rparr>) s1)
      \<lparr> ps_bin_mempool := mp, ps_new_demands := nd \<rparr>)" (is "_ = Some ?s")
    "ring_wf q" "ring_list q = [b]" "pool_wf mp" "length (pool_list mp) + 1 = length (pool_list (ps_bin_mempool s))"
    "pool_size mp = pool_size (ps_bin_mempool s)" "\<And>i. bin_size (nd i) = (if i = p then 0 else bin_size (ps_new_demands s1 i))"
    using wpD [OF flush_now_ok [of s1 p]] r i(3,5,6) p2 cnt by (auto simp: s1)
  have fl: "pim_flush_backlog s1 = Some (?s\<lparr> ps_stat := adm_log_forced_backlog_flush (ps_stat ?s) \<rparr>)" (is "_ = Some ?t")
    using i(4) size by (intro flush_one [OF p2 _ s2(1)]) (auto simp: s2(7), auto simp: s1 is_empty_bin_def)
  have reqs: "p_reqs ?t a = []" if "unat a < 256" for a
    using i(2) [OF that] by (simp add: p_reqs_def p_wanted_def s1)
  have bins: "p_taken_bins ?t x = (if x = p then [b] else [])" if "x < 2" for x
    using i(5) [OF that] s2(3) by (simp add: p_taken_bins_def PIM_BURST_SIZE_def s1)
  then have tk: "p_taken ?t x = (if x = p then [e] else [])" if "x < 2" for x
    using that b(1) by (simp add: p_taken_def)
  have want: "p_wanted ?t a = (if a = src then [dst] else [])" if "unat a < 256" for a
    using reqs [OF that] tk that b(2,3) p(1) by (auto simp: p_wanted_def partition_lt)
  have "ring_wf (pc_q_new_demands (ps_cores ?t x)) \<and> (\<forall>e \<in> set (p_taken ?t x). PARTITION_OF (e_src e) = x)" if "x < 2" for x
    using r(1) [OF that] s2(2) tk [OF that] b(2) p(1) by (simp add: s1)
  moreover have "length (pool_list mp) + length (p_taken_bins ?t 0) + length (p_taken_bins ?t 1) \<le> pool_size mp"
    using bins [of 0] bins [of 1] s2(5,6) i(1) p2 by (auto simp: pim_ready_def less_2_cases_iff)
  moreover have "p_accepts ?t = p_accepts s" "ps_admitted_mempool ?t = ps_admitted_mempool s" "ps_q_admitted_out ?t = ps_q_admitted_out s"
    "ps_bin_mempool ?t = mp"
    by (simp_all add: p_accepts_def fun_eq_iff s1)
  ultimately have "pim_ready ?t"
    using i(1) want p(3) s2(4) unfolding pim_ready_def by simp
  then show ?thesis
    using fl want by (auto simp: s1)
qed

text \<open>
  C32. A request is served by the build without assertions, and stops the build with them. In a state
  without requests, with memory for one, call \<^verbatim>\<open>pim_add_backlog\<close> for a pair of nodes without backlog, flush,
  and run a timeslot. Without assertions (\<^verbatim>\<open>NDEBUG\<close>, as the Makefile builds it) this returns, and the traffic
  sent out is exactly that pair, for any random state. But \<^verbatim>\<open>backlog_increase\<close> leaves the count of a pair
  that was not active at 0, so that with assertions the same calls never return: the assertion of
  \<^verbatim>\<open>pim.c\<close> that the count of an accepted pair is not 0 fails. \<^verbatim>\<open>enqueue_bin\<close> is a parameter, of which only
  the effect on an empty bin is assumed: it appends an entry for the pair.
\<close>

theorem pim_request_admitted:
  assumes idle: "pim_idle s" and pair: "unat src < 256" "unat dst < 256" and "amount \<noteq> 0"
    and none: "\<not> arr_bit (is_active (ps_backlog s)) (backlog_index src dst)" "bl_n (ps_backlog s) (backlog_index src dst) = 0"
    and enqueue_appends: "\<exists>b e. enqueue (ps_new_demands s (PARTITION_OF src)) src dst 0 = Some b
      \<and> bin_list b = [e] \<and> e_src e = src \<and> e_dst e = dst"
  shows "(\<exists>s' x y. (pim_add_backlog enqueue src dst amount s \<bind> pim_flush_backlog \<bind> pim_get_admissible_traffic False decrease) = Some s'
      \<and> ring_list (ps_q_admitted_out s') = ring_list (ps_q_admitted_out s) @ [x, y]
      \<and> admitted_list x @ admitted_list y = [\<lparr> a_src = src, a_dst = dst \<rparr>])
    \<and> (\<exists>s2. (pim_add_backlog enqueue src dst amount s \<bind> pim_flush_backlog) = Some s2
      \<and> backlog_get (ps_backlog s2) src dst = Some 0 \<and> pim_get_admissible_traffic True decrease s2 = None)"
proof -
  let ?p = "PARTITION_OF src"
  obtain b e where b: "enqueue (ps_new_demands s ?p) src dst 0 = Some b" "bin_list b = [e]" "e_src e = src" "e_dst e = dst"
    using enqueue_appends by blast
  have "unat (bin_size b) = 1"
    using arg_cong [OF b(2), of length] by (simp add: bin_list_def)
  from request_added [where enqueue = enqueue, OF idle pair assms(4) none b(1) this] obtain bl st where
    s1: "pim_add_backlog enqueue src dst amount s
      = Some (s\<lparr> ps_backlog := bl, ps_stat := st, ps_new_demands := (ps_new_demands s)(?p := b) \<rparr>)" (is "_ = Some ?s1")
    "backlog_get bl src dst = Some 0" .
  obtain s2 where s2: "pim_flush_backlog ?s1 = Some s2" "pim_ready s2" "ps_q_admitted_out s2 = ps_q_admitted_out s"
    "\<And>a. unat a < 256 \<Longrightarrow> p_wanted s2 a = (if a = src then [dst] else [])" "ps_backlog s2 = bl"
    using request_flushed [OF idle refl pair refl b(2-4)] by blast
  have stop: "pim_get_admissible_traffic True decrease s2 = None"
    using s2(4) s1(2) pair by (intro timeslot_asserts [OF s2(2), of src]) (auto simp: s2(5) split: if_splits)
  obtain u q where u: "pim_get_admissible_traffic False decrease s2 = Some (u\<lparr> ps_q_admitted_out := q \<rparr>)" "slot_post s2 u"
    "ring_list q = ring_list (ps_q_admitted_out s) @ [pc_admitted (ps_cores u 0), pc_admitted (ps_cores u 1)]"
    using wpD [OF timeslot_ok [OF s2(2), of decrease]] s2(3) by (auto simp: sent_post_def)
  let ?es = "admitted_list (pc_admitted (ps_cores u 0)) @ admitted_list (pc_admitted (ps_cores u 1))"
  note es = slot_edges_facts [OF u(2)]
  have same: "e = \<lparr> a_src = src, a_dst = dst \<rparr>" if "e \<in> set ?es" for e
    using es(3) [OF that] s2(4) [of "a_src e"] by (cases e) (auto split: if_splits)
  have "?es \<noteq> []"
    using es(6) [of src] s2(4) [of src] pair(1) by simp
  then obtain x xs where xs: "?es = x # xs"
    by (cases ?es) auto
  have "x = \<lparr> a_src = src, a_dst = dst \<rparr>"
    using same [of x] unfolding xs by simp
  moreover have "a_src x \<notin> a_src ` set xs"
    using es(1) unfolding xs by simp
  then have "xs = []"
    using same unfolding xs by (cases xs) auto
  ultimately have "?es = [\<lparr> a_src = src, a_dst = dst \<rparr>]"
    using xs by simp
  then have "\<exists>s' x y. (pim_add_backlog enqueue src dst amount s \<bind> pim_flush_backlog \<bind> pim_get_admissible_traffic False decrease) = Some s'
      \<and> ring_list (ps_q_admitted_out s') = ring_list (ps_q_admitted_out s) @ [x, y]
      \<and> admitted_list x @ admitted_list y = [\<lparr> a_src = src, a_dst = dst \<rparr>]"
    using s1(1) s2(1) u(1,3)
    by (intro exI [of _ "u\<lparr> ps_q_admitted_out := q \<rparr>"] exI [of _ "pc_admitted (ps_cores u 0)"] exI [of _ "pc_admitted (ps_cores u 1)"])
      simp
  then show ?thesis
    using s1 s2(1,5) stop by auto
qed

theorem pim_request_admitted_witness:
  "(\<exists>s' x y. (pim_add_backlog (\<lambda>b src dst m. enqueue_bin b src dst 0 m) 3 200 5 (demo_pim [])
        \<bind> pim_flush_backlog \<bind> pim_get_admissible_traffic False (\<lambda>bl src dst. (0, bl))) = Some s'
      \<and> ring_list (ps_q_admitted_out s') = [x, y] \<and> admitted_list x @ admitted_list y = [\<lparr> a_src = 3, a_dst = 200 \<rparr>])
    \<and> (pim_add_backlog (\<lambda>b src dst m. enqueue_bin b src dst 0 m) 3 200 5 (demo_pim [])
        \<bind> pim_flush_backlog \<bind> pim_get_admissible_traffic True (\<lambda>bl src dst. (0, bl))) = None"
proof -
  have part: "PARTITION_OF 3 = 0"
    by (simp add: PARTITION_OF_def PARTITION_N_NODES_def)
  have "\<exists>b e. enqueue_bin (ps_new_demands (demo_pim []) (PARTITION_OF 3)) 3 200 0 0 = Some b
      \<and> bin_list b = [e] \<and> e_src e = 3 \<and> e_dst e = 200"
    by (simp add: part demo_pim_def Let_def demo_bin_def enqueue_bin_def enqueue_bin_edge_def guard_o_def bin_list_def)
  moreover have "\<not> arr_bit (is_active (ps_backlog (demo_pim []))) i" "bl_n (ps_backlog (demo_pim [])) i = 0" for i
    by (simp_all add: demo_pim_def Let_def demo_backlog_def arr_bit_def)
  ultimately show ?thesis
    using pim_request_admitted [OF demo_pim_idle, of 3 200 5 "\<lambda>b src dst m. enqueue_bin b src dst 0 m" "\<lambda>bl src dst. (0, bl)"]
      demo_pim_rest(10) [of "[]"] by (auto simp del: Option.bind_assoc)
qed

subsection \<open>The initial state\<close>

lemma reset_state_empty:
  "unat a < 256 \<Longrightarrow> p_reqs (pim_reset_state s) a = []"
  "d < 2 \<Longrightarrow> q < 2 \<Longrightarrow> p_accepts (pim_reset_state s) d q = []"
proof -
  show "p_reqs (pim_reset_state s) a = []" if "unat a < 256"
    using that by (simp add: p_reqs_def pim_reset_state_def partition_lt nbrs_reset)
  show "p_accepts (pim_reset_state s) d q = []" if "d < 2" "q < 2"
    using that unfolding pim_reset_state_def partition_list by (auto simp: p_accepts_def src_reset_edges less_2_cases_iff)
qed

text \<open>Initialisation gives a state without requests, in which \<^verbatim>\<open>pim_request_admitted\<close> applies to every pair.\<close>

theorem pim_init_idle:
  assumes bins: "pool_wf bin_pool" "3 \<le> length (pool_list bin_pool)"
    and traffic: "pool_wf traffic_pool" "2 \<le> length (pool_list traffic_pool)"
    and out: "ring_wf q_out" "ring_count q_out + 2 \<le> ring_room q_out"
    and demands: "\<And>p. p < 2 \<Longrightarrow> ring_wf (q_new p) \<and> ring_list (q_new p) = [] \<and> 0 < ring_room (q_new p)"
  shows "\<exists>s'. pim_init_state s q_new q_out bin_pool traffic_pool q_ready seeds = Some s' \<and> pim_idle s'
    \<and> ps_q_admitted_out s' = q_out \<and> ps_backlog s' = backlog_init (ps_backlog s)"
proof -
  obtain b mp where mp: "fp_mempool_get bin_pool = Some (Some b, mp)" "pool_wf mp" "pool_list bin_pool = pool_list mp @ [b]"
    "pool_size mp = pool_size bin_pool"
    using wpD [OF fp_mempool_get_ok [OF bins(1)]] bins(2) by fastforce
  then obtain b' mp' where mp': "fp_mempool_get mp = Some (Some b', mp')" "pool_wf mp'" "pool_list mp = pool_list mp' @ [b']"
    using wpD [OF fp_mempool_get_ok [OF mp(2)]] bins(2) by fastforce
  let ?s0 = "(pim_reset_state s)\<lparr> ps_q_admitted_out := q_out, ps_bin_mempool := bin_pool, ps_admitted_mempool := traffic_pool \<rparr>"
  let ?f = "\<lambda>p c. c\<lparr> pc_q_new_demands := q_new p, pc_rand := seeds p \<rparr>"
  let ?s = "(upd_pcore 1 (?f 1) (upd_pcore 0 (?f 0) ?s0))\<lparr> ps_bin_mempool := mp',
    ps_new_demands := (ps_new_demands ?s0)(0 := init_bin b, 1 := init_bin b'), ps_phase := phase_state_init (ps_phase ?s0) q_ready \<rparr>"
  have run: "pim_init_state s q_new q_out bin_pool traffic_pool q_ready seeds = Some ?s"
    unfolding pim_init_state_def partition_list by (simp add: mp(1) mp'(1)) (simp add: upd_pcore_def pim_reset_state_def)
  have q: "pc_q_new_demands (ps_cores ?s p) = q_new p" "bin_size (ps_new_demands ?s p) = 0" if "p < 2" for p
    using that by (auto simp: less_2_cases_iff init_bin_def)
  then have tk: "p_taken_bins ?s p = []" "p_taken ?s p = []" if "p < 2" for p
    using that demands [OF that] by (simp_all add: p_taken_def p_taken_bins_def)
  have "p_reqs ?s a = p_reqs (pim_reset_state s) a" "p_accepts ?s = p_accepts (pim_reset_state s)" for a
    by (simp_all add: p_reqs_def p_accepts_def fun_eq_iff)
  then have want: "p_wanted ?s a = []" and acc: "d < 2 \<Longrightarrow> x < 2 \<Longrightarrow> p_accepts ?s d x = []" if "unat a < 256" for a d x
    using that tk reset_state_empty by (simp_all add: p_wanted_def partition_lt)
  have pool: "pool_wf (ps_bin_mempool ?s)" "length (pool_list (ps_bin_mempool ?s)) \<le> pool_size (ps_bin_mempool ?s)"
    "pool_list (ps_bin_mempool ?s) \<noteq> []" "ps_admitted_mempool ?s = traffic_pool" "ps_q_admitted_out ?s = q_out"
    using mp' mp(3) bins(2) by (auto simp: pool_wf_def pool_size_def pool_list_def)
  have "pim_ready ?s"
    unfolding pim_ready_def using want acc [of 0] tk pool traffic out demands q by simp
  then have "pim_idle ?s"
    unfolding pim_idle_def using want q demands pool(3) by simp
  moreover have "ps_backlog ?s = backlog_init (ps_backlog s)"
    by (simp add: pim_reset_state_def)
  ultimately show ?thesis
    using run pool(5) by blast
qed

subsection \<open>The barrier\<close>

text \<open>An entry of a ready queue names the phase and the partition it was made for.\<close>

lemma queue_entry_roundtrip:
  "get_phase_from_queue_entry (create_queue_entry phase p) = phase" "get_partition_from_queue_entry (create_queue_entry phase p) = p"
proof -
  have m: "(0xFFFF :: u64) = mask 16"
    by (simp add: mask_eq_exp_minus_1)
  show "get_phase_from_queue_entry (create_queue_entry phase p) = phase"
    by (rule bit_eqI) (auto simp: get_phase_from_queue_entry_def create_queue_entry_def bit_simps dest: bit_imp_le_length)
  show "get_partition_from_queue_entry (create_queue_entry phase p) = p"
    unfolding get_partition_from_queue_entry_def create_queue_entry_def m
    by (rule bit_eqI) (auto simp: bit_simps dest: bit_imp_le_length)
qed

end
