(* ===== verification/FP_Pim_Barrier.thy ===== *)
theory FP_Pim_Barrier
  imports FP_Pim_Props
begin

unbundle bit_operations_syntax

text \<open>
  The barrier that keeps the partitions of the grant/accept allocator in step when each has a core of its
  own (\<^verbatim>\<open>phase.h\<close>): the two cores as interleaved steps. A core that ends a phase calls \<^verbatim>\<open>phase_finished\<close>,
  then polls \<^verbatim>\<open>phase_get_finished_partition\<close> until it returns the other partition. Phase numbers are
  16 bits wide and wrap.
\<close>

subsection \<open>Definitions: two cores\<close>

record barrier =
  ba_phase :: phase_state
  ba_waits :: "nat \<Rightarrow> bool"
  ba_done :: "nat \<Rightarrow> nat"
  ba_passed :: "nat \<Rightarrow> nat"

inductive barrier_run :: "barrier \<Rightarrow> barrier \<Rightarrow> bool" for b0 where
  start: "barrier_run b0 b0"
| finish: "\<lbrakk>barrier_run b0 b; p < N_PARTITIONS; \<not> ba_waits b p; pim_phase_finished (ba_phase b) p st = Some (ph, st')\<rbrakk>
    \<Longrightarrow> barrier_run b0 (b\<lparr> ba_phase := ph, ba_waits := (ba_waits b)(p := True), ba_done := (ba_done b)(p := ba_done b p + 1) \<rparr>)"
| pass: "\<lbrakk>barrier_run b0 b; p < N_PARTITIONS; ba_waits b p;
    phase_get_finished_partition (ba_phase b) p st = Some (r, ph, st'); r \<noteq> NONE_READY\<rbrakk>
    \<Longrightarrow> barrier_run b0 (b\<lparr> ba_phase := ph, ba_waits := (ba_waits b)(p := False), ba_passed := (ba_passed b)(p := ba_passed b p + 1) \<rparr>)"
| retry: "\<lbrakk>barrier_run b0 b; p < N_PARTITIONS; ba_waits b p;
    phase_get_finished_partition (ba_phase b) p st = Some (NONE_READY, ph, st')\<rbrakk>
    \<Longrightarrow> barrier_run b0 (b\<lparr> ba_phase := ph \<rparr>)"

text \<open>The state after initialisation, with room for two entries per partition.\<close>

definition barrier_start :: "barrier \<Rightarrow> bool" where
  "barrier_start b \<longleftrightarrow> (\<forall>p < 2. ph_phase (ba_phase b p) = 0 \<and> ring_wf (ph_q_ready (ba_phase b p))
     \<and> ring_list (ph_q_ready (ba_phase b p)) = [] \<and> 2 \<le> ring_room (ph_q_ready (ba_phase b p))
     \<and> \<not> ba_waits b p \<and> ba_done b p = 0 \<and> ba_passed b p = 0)"

subsection \<open>The invariant\<close>

definition entries_from :: "nat \<Rightarrow> nat \<Rightarrow> nat \<Rightarrow> u64 list" where
  "entries_from q m n = map (\<lambda>k. create_queue_entry (of_nat (Suc k)) (of_nat q)) [m..<n]"

definition barrier_core :: "barrier \<Rightarrow> nat \<Rightarrow> nat \<Rightarrow> bool" where
  "barrier_core b p q \<longleftrightarrow> ba_done b p = ba_passed b p + (if ba_waits b p then 1 else 0) \<and> ba_passed b p \<le> ba_done b q
     \<and> ph_phase (ba_phase b p) = of_nat (ba_done b p)
     \<and> ring_wf (ph_q_ready (ba_phase b p)) \<and> 2 \<le> ring_room (ph_q_ready (ba_phase b p))
     \<and> ring_list (ph_q_ready (ba_phase b p)) = entries_from q (ba_passed b p) (ba_done b q)"

definition barrier_inv :: "barrier \<Rightarrow> bool" where
  "barrier_inv b \<longleftrightarrow> (\<forall>p < 2. \<forall>q < 2. p \<noteq> q \<longrightarrow> barrier_core b p q)"

lemma barrier_invI:
  assumes "p < 2" "q < 2" "p \<noteq> q" "barrier_core b p q" "barrier_core b q p"
  shows "barrier_inv b"
  unfolding barrier_inv_def
proof (intro allI impI)
  fix x y
  assume "x < (2 :: nat)" "y < (2 :: nat)" "x \<noteq> y"
  then have "(x = p \<and> y = q) \<or> (x = q \<and> y = p)"
    using assms(1-3) by linarith
  then show "barrier_core b x y"
    using assms(4,5) by auto
qed

subsection \<open>The steps\<close>

lemma finished_ok:
  assumes "barrier_inv b" "p < 2" "\<not> ba_waits b p"
  shows "\<exists>ph. pim_phase_finished (ba_phase b) p st = Some (ph, adm_log_phase_finished st)
    \<and> barrier_inv (b\<lparr> ba_phase := ph, ba_waits := (ba_waits b)(p := True), ba_done := (ba_done b)(p := ba_done b p + 1) \<rparr>)"
proof -
  let ?ph = "ba_phase b" and ?x = "create_queue_entry (of_nat (Suc (ba_done b p))) (of_nat p)"
  obtain q where q: "q < 2" "p \<noteq> q" "(p + 1) mod N_PARTITIONS = q"
    using assms(2) by (auto simp: less_2_cases_iff)
  have c: "barrier_core b p q" "barrier_core b q p"
    using assms(1,2) q(1,2) by (simp_all add: barrier_inv_def)
  have le: "ba_done b p \<le> ba_passed b q + 1" "ba_passed b q \<le> ba_done b p"
    using c assms(3) unfolding barrier_core_def by (simp_all split: if_splits)
  have l: "ring_list (ph_q_ready (?ph q)) = entries_from p (ba_passed b q) (ba_done b p)"
    using c(2) unfolding barrier_core_def by blast
  have "ring_count (ph_q_ready (?ph q)) = ba_done b p - ba_passed b q"
    using arg_cong [OF l, of length] by (simp add: entries_from_def)
  then have "ring_count (ph_q_ready (?ph q)) < ring_room (ph_q_ready (?ph q))"
    using c(2) le unfolding barrier_core_def by linarith
  then obtain r where r: "fp_ring_enqueue (ph_q_ready (?ph q)) ?x = Some r" "ring_wf r"
    "ring_list r = ring_list (ph_q_ready (?ph q)) @ [?x]" "ring_room r = ring_room (ph_q_ready (?ph q))"
    using wpD [OF fp_ring_enqueue_ok [of "ph_q_ready (?ph q)"]] c(2) by (auto simp: barrier_core_def)
  let ?new = "?ph(p := (?ph p)\<lparr> ph_phase := ph_phase (?ph p) + 1 \<rparr>, q := (?ph q)\<lparr> ph_q_ready := r \<rparr>)"
  have "ph_phase (?ph p) + 1 = of_nat (Suc (ba_done b p))"
    using c(1) by (simp add: barrier_core_def)
  moreover have "[1..<N_PARTITIONS] = [1]"
    by (simp add: upt_rec)
  ultimately have run: "pim_phase_finished ?ph p st = Some (?new, adm_log_phase_finished st)"
    using r(1) q assms(2) unfolding pim_phase_finished_def by (simp add: guard_o_def Let_def add.commute)
  let ?b = "b\<lparr> ba_phase := ?new, ba_waits := (ba_waits b)(p := True), ba_done := (ba_done b)(p := ba_done b p + 1) \<rparr>"
  have "barrier_core ?b p q"
    using c(1) assms(3) q(2) by (simp add: barrier_core_def)
  moreover have "barrier_core ?b q p"
    using c(2) r le(2) q(2) by (simp add: barrier_core_def entries_from_def)
  ultimately show ?thesis
    using run barrier_invI [OF assms(2) q(1,2), of ?b] by blast
qed

lemma poll_ready:
  assumes "barrier_inv b" "p < 2" "q < 2" "p \<noteq> q" "ba_waits b p" "ba_done b p \<le> ba_done b q"
  shows "\<exists>ph. phase_get_finished_partition (ba_phase b) p st = Some (q, ph, st)
    \<and> barrier_inv (b\<lparr> ba_phase := ph, ba_waits := (ba_waits b)(p := False), ba_passed := (ba_passed b)(p := ba_passed b p + 1) \<rparr>)"
proof -
  let ?ph = "ba_phase b" and ?x = "create_queue_entry (of_nat (ba_done b p)) (of_nat q)"
  have c: "barrier_core b p q" "barrier_core b q p"
    using assms(1-4) by (simp_all add: barrier_inv_def)
  have m: "ba_done b p = Suc (ba_passed b p)" "ring_wf (ph_q_ready (?ph p))" "ph_phase (?ph p) = of_nat (ba_done b p)"
    "ring_list (ph_q_ready (?ph p)) = entries_from q (ba_passed b p) (ba_done b q)"
    using c(1) assms(5) by (simp_all add: barrier_core_def)
  have l: "ring_list (ph_q_ready (?ph p)) = ?x # entries_from q (Suc (ba_passed b p)) (ba_done b q)"
    using assms(6) m(1,4) by (simp add: entries_from_def upt_conv_Cons)
  obtain r where r: "fp_ring_dequeue (ph_q_ready (?ph p)) = Some (Some ?x, r)" "ring_wf r"
    "ring_list r = entries_from q (Suc (ba_passed b p)) (ba_done b q)" "ring_room r = ring_room (ph_q_ready (?ph p))"
    using wpD [OF fp_ring_dequeue_ok [OF m(2) l]] by auto
  let ?new = "?ph(p := (?ph p)\<lparr> ph_q_ready := r \<rparr>)"
  have "unat (of_nat q :: u16) = q"
    using assms(3) by (simp add: unat_of_nat)
  then have run: "phase_get_finished_partition ?ph p st = Some (q, ?new, st)"
    using assms(2) r(1) m(3) unfolding phase_get_finished_partition_def by (simp add: queue_entry_roundtrip guard_o_def)
  let ?b = "b\<lparr> ba_phase := ?new, ba_waits := (ba_waits b)(p := False), ba_passed := (ba_passed b)(p := ba_passed b p + 1) \<rparr>"
  have "barrier_core ?b p q"
    using c(1) r(2-4) assms(4-6) m(1) by (simp add: barrier_core_def)
  moreover have "barrier_core ?b q p"
    using c(2) assms(4) by (simp add: barrier_core_def)
  ultimately show ?thesis
    using run barrier_invI [OF assms(2-4), of ?b] by blast
qed

lemma poll_not_ready:
  assumes "barrier_inv b" "p < 2" "q < 2" "p \<noteq> q" "ba_waits b p" "ba_done b q < ba_done b p"
  shows "phase_get_finished_partition (ba_phase b) p st = Some (NONE_READY, ba_phase b, adm_log_phase_none_ready st)"
proof -
  have "barrier_core b p q"
    using assms(1-4) by (simp add: barrier_inv_def)
  then have "ring_wf (ph_q_ready (ba_phase b p))" "ring_list (ph_q_ready (ba_phase b p)) = []"
    using assms(5,6) by (simp_all add: barrier_core_def entries_from_def)
  then show ?thesis
    using assms(2) by (simp add: phase_get_finished_partition_def guard_o_def fp_ring_dequeue_empty Let_def)
qed

lemma barrier_run_inv:
  assumes "barrier_run b0 b" "barrier_start b0"
  shows "barrier_inv b"
  using assms(1)
proof (induction rule: barrier_run.induct)
  case start
  then show ?case
    using assms(2) by (simp add: barrier_inv_def barrier_core_def barrier_start_def entries_from_def)
next
  case (finish b p st ph st')
  then show ?case
    using finished_ok [of b p st] by auto
next
  case (pass b p st r ph st')
  obtain q where q: "q < 2" "p \<noteq> q"
    using pass.hyps by (auto simp: less_2_cases_iff)
  then have "ba_done b p \<le> ba_done b q"
    using pass poll_not_ready [of b p q st] by (force simp: not_le [symmetric])
  then show ?case
    using pass q poll_ready [of b p q st] by auto
next
  case (retry b p st ph st')
  obtain q where q: "q < 2" "p \<noteq> q"
    using retry.hyps by (auto simp: less_2_cases_iff)
  then have "ba_done b q < ba_done b p"
    using retry poll_ready [of b p q st] by (force simp: not_le [symmetric] NONE_READY_def)
  then show ?case
    using retry q poll_not_ready [of b p q st] by (cases b) simp
qed

subsection \<open>The property\<close>

text \<open>
  C12. The barrier synchronises the two partitions. However the calls of the two cores interleave, and however often the
  16-bit phase numbers wrap: a partition has passed as many barriers as the other has finished phases, at the most, and
  neither is more than one phase ahead. Neither call fails for lack of room; a poll returns the other
  partition exactly when that has finished as many phases, and never meets an entry out of order. So of two
  waiting partitions the one with fewer phases finished goes on.
\<close>

theorem barrier_synchronises:
  assumes "barrier_start b0" "barrier_run b0 b" "p < 2" "q < 2" "p \<noteq> q"
  shows "ba_passed b p \<le> ba_done b q \<and> ba_done b p \<le> ba_done b q + 1
    \<and> (\<not> ba_waits b p \<longrightarrow> (\<exists>ph. pim_phase_finished (ba_phase b) p st = Some (ph, adm_log_phase_finished st)))
    \<and> (ba_waits b p \<longrightarrow> (\<exists>ph st'. phase_get_finished_partition (ba_phase b) p st
         = Some (if ba_done b p \<le> ba_done b q then q else NONE_READY, ph, st') \<and> phase_out_of_order st' = phase_out_of_order st))"
proof -
  have inv: "barrier_inv b"
    using assms(1,2) barrier_run_inv by blast
  then have c: "barrier_core b p q"
    using assms(3-5) by (simp add: barrier_inv_def)
  have "\<exists>ph st'. phase_get_finished_partition (ba_phase b) p st
      = Some (if ba_done b p \<le> ba_done b q then q else NONE_READY, ph, st') \<and> phase_out_of_order st' = phase_out_of_order st" if w: "ba_waits b p"
  proof (cases "ba_done b p \<le> ba_done b q")
    case True
    then show ?thesis
      using poll_ready [OF inv assms(3-5) w, of st] by auto
  next
    case False
    then show ?thesis
      using poll_not_ready [OF inv assms(3-5) w, of st] by (simp add: adm_log_phase_none_ready_def)
  qed
  then show ?thesis
    using c finished_ok [OF inv assms(3), of st] by (auto simp: barrier_core_def)
qed

definition demo_barrier :: barrier where
  "demo_barrier = \<lparr> ba_phase = ps_phase (demo_pim []), ba_waits = (\<lambda>_. False), ba_done = (\<lambda>_. 0), ba_passed = (\<lambda>_. 0) \<rparr>"

lemma demo_barrier_start: "barrier_start demo_barrier"
  by (simp add: barrier_start_def demo_barrier_def demo_pim_def Let_def)

theorem barrier_synchronises_witness:
  "\<exists>b ph. barrier_run demo_barrier b \<and> ba_waits b 0 \<and> ba_done b 0 = 1 \<and> ba_done b 1 = 0
    \<and> phase_get_finished_partition (ba_phase b) 0 (core_stat demo_core) = Some (NONE_READY, ph)"
proof -
  have z: "\<not> ba_waits demo_barrier 0" "ba_done demo_barrier = (\<lambda>_. 0)"
    by (simp_all add: demo_barrier_def)
  obtain ph where ph: "pim_phase_finished (ba_phase demo_barrier) 0 (core_stat demo_core) = Some (ph, adm_log_phase_finished (core_stat demo_core))"
    using barrier_synchronises [OF demo_barrier_start barrier_run.start, of 0 1 "core_stat demo_core"] z(1) by auto
  let ?b = "demo_barrier\<lparr> ba_phase := ph, ba_waits := (ba_waits demo_barrier)(0 := True), ba_done := (ba_done demo_barrier)(0 := ba_done demo_barrier 0 + 1) \<rparr>"
  have run: "barrier_run demo_barrier ?b"
    by (rule barrier_run.finish [OF barrier_run.start _ z(1) ph]) simp
  then show ?thesis
    using barrier_synchronises [OF demo_barrier_start run, of 0 1 "core_stat demo_core"] z(2)
    by (intro exI [of _ ?b]) auto
qed

end
