(* ===== verification/Spec2Isabelle.thy ===== *)
theory Spec2Isabelle
  imports FP_Codec FP_Alloc_Spec FP_Paths_Spec FP_Comm_Spec FP_Node_Spec FP_Once FP_Matrix FP_Sjf_Props FP_Pim_Barrier
begin

unbundle bit_operations_syntax

text \<open>
  A verification development for Fastpass, the centralised zero-queue network: an arbiter
  tells every endpoint in which timeslot, to which destination and over which path it may
  send. The sources are under \<^verbatim>\<open>src/src/\<close>.

  \<^bold>\<open>The program.\<close> Endpoints (a kernel module) and the arbiter (a DPDK program) talk over the
  protocol of \<^verbatim>\<open>protocol/\<close>: packets with sequence numbers, acknowledgements and resets carry
  demands (AREQ) to the arbiter and allocations (ALLOC) back. At the arbiter demands enter the
  allocator of \<^verbatim>\<open>graph-algo/\<close>: a table of backlogs, bins of backlogged pairs that travel
  through rings from core to core, and batches of sixteen timeslots in each of which a core picks
  a matching of sources and destinations greedily. An alternative allocator serves short flows first: the bin of
  a flow is its backlog, and a core sends out batches of 64 timeslots while requests keep arriving. A third one, \<^verbatim>\<open>grant-accept/\<close>,
  finds the matching of a timeslot by rounds in which sources grant and destinations accept at random. Path selection then colours the racks'
  multigraph of a timeslot with four paths by Euler splits. At the end node a queueing discipline
  sorts packets into timeslots per destination, asks its scheduler for a timeslot of the network for each,
  and releases a timeslot's packets when the scheduler admits it.

  \<^bold>\<open>What is modelled.\<close> One theory per component, each importing what it calls.

  \<^item> \<^verbatim>\<open>FP_Prelude\<close>: words, bits, shared lemma collections; \<^verbatim>\<open>FP_Platform\<close>: \<^verbatim>\<open>platform/generic.h\<close> and
    \<^verbatim>\<open>topology.h\<close> (time comparison, hashes, checksum, node ids), \<^verbatim>\<open>partitioning.h\<close>.
  \<^item> \<^verbatim>\<open>FP_Window\<close>: the sliding window of \<^verbatim>\<open>window.h\<close>; \<^verbatim>\<open>FP_Window_Inv\<close> and \<^verbatim>\<open>FP_Window_Ops\<close>: its
    invariant and operations; \<^verbatim>\<open>FP_Window_Spec\<close>: the locale \<^verbatim>\<open>seq_window\<close> (a set of marked sequence
    numbers behind a head), interpreted on the code, and the properties of the window.
  \<^item> \<^verbatim>\<open>FP_Conn\<close>: connection state, outstanding packets (\<^verbatim>\<open>outwnd.h\<close>) and pacer (\<^verbatim>\<open>pacer.h\<close>);
    \<^verbatim>\<open>FP_Proto\<close> and \<^verbatim>\<open>FP_Packet\<close>: all of \<^verbatim>\<open>fpproto.c\<close>. Callbacks, frees, bug reports and faults are entries
    of a trace. \<^verbatim>\<open>FP_Proto_Inv\<close>, \<^verbatim>\<open>FP_Proto_Ops\<close>, \<^verbatim>\<open>FP_Rx\<close>, \<^verbatim>\<open>FP_Run\<close>: the invariant of a connection, kept by
    every entry point, and runs of arbitrary events; \<^verbatim>\<open>FP_Codec\<close>: encoding against decoding; \<^verbatim>\<open>FP_Once\<close>: runs of a
    receiver, with the numbers of the packets whose callbacks were performed.
  \<^item> \<^verbatim>\<open>FP_Loops\<close>: total correctness in the option monad (\<^verbatim>\<open>wp\<close>), the vocabulary of everything
    below, where \<^term>\<open>None\<close> is a failed assertion, an access out of bounds or a loop that never ends.
  \<^item> \<^verbatim>\<open>FP_Ring\<close>: ring buffer and memory pool of the stand-alone build (\<^verbatim>\<open>fp_ring.h\<close>, \<^verbatim>\<open>platform.h\<close>), with
    the locale \<^verbatim>\<open>fifo\<close>; \<^verbatim>\<open>FP_AdmLog\<close>: counters; \<^verbatim>\<open>FP_Bins\<close>: bins, backlogs, admitted traffic and batch
    occupancy (\<^verbatim>\<open>bin.h\<close>, \<^verbatim>\<open>backlog.h\<close>, \<^verbatim>\<open>bitasm.h\<close>, \<^verbatim>\<open>admitted.h\<close>, \<^verbatim>\<open>batch.h\<close>).
  \<^item> \<^verbatim>\<open>FP_Alloc\<close>: the pipelined allocator (\<^verbatim>\<open>admissible_structures.h\<close>, \<^verbatim>\<open>admissible_traffic.h\<close>, \<^verbatim>\<open>.c\<close>);
    \<^verbatim>\<open>FP_Alloc_Inv\<close>, \<^verbatim>\<open>FP_Alloc_Step\<close>, \<^verbatim>\<open>FP_Alloc_Batch\<close>, \<^verbatim>\<open>FP_Alloc_Run\<close>: the invariant of a batch and that
    a batch returns; \<^verbatim>\<open>FP_Alloc_Status\<close>: the table of backlogs; \<^verbatim>\<open>FP_Prio\<close>: the bin of a flow;
    \<^verbatim>\<open>FP_Alloc_Spec\<close>: sequences of calls and the properties of the allocator.
  \<^item> \<^verbatim>\<open>FP_Sjf\<close> and \<^verbatim>\<open>FP_Sjf_Alloc\<close>: the shortest-job-first allocator (\<^verbatim>\<open>admissible_structures_sjf.h\<close>,
    \<^verbatim>\<open>admissible_traffic_sjf.h\<close>, \<^verbatim>\<open>.c\<close>): one core, with a script of what the other cores do while it runs; \<^verbatim>\<open>FP_Sjf_Slots\<close>: bins as
    queues (a second instance of \<^verbatim>\<open>fifo\<close>) and the occupancy of timeslots; \<^verbatim>\<open>FP_Sjf_Inv\<close>, \<^verbatim>\<open>FP_Sjf_Step\<close>, \<^verbatim>\<open>FP_Sjf_Batch\<close>,
    \<^verbatim>\<open>FP_Sjf_Run\<close>, \<^verbatim>\<open>FP_Sjf_Quiet\<close>, \<^verbatim>\<open>FP_Sjf_Spec\<close>: the invariant \<^verbatim>\<open>jinv\<close> and that every part of a batch keeps it;
    \<^verbatim>\<open>FP_Sjf_Bench\<close> and \<^verbatim>\<open>FP_Sjf_Setup\<close>: the benchmark (\<^verbatim>\<open>benchmark_sjf.c\<close>) and its set-up; \<^verbatim>\<open>FP_Sjf_Props\<close>: the properties.
  \<^item> \<^verbatim>\<open>FP_Pim\<close>: the grant/accept allocator in the single-core build of its Makefile (\<^verbatim>\<open>pim.c\<close>, \<^verbatim>\<open>pim_admissible_traffic.c\<close> and the headers of
    \<^verbatim>\<open>grant-accept/\<close>), with \<^verbatim>\<open>backlog_decrease\<close>, which is defined nowhere, and the call of \<^verbatim>\<open>enqueue_bin\<close>, which does not fit
    its definition, as parameters, and a flag for the build with assertions; \<^verbatim>\<open>FP_Pim_Lists\<close>: its structures as lists and sets; \<^verbatim>\<open>FP_Pim_Inv\<close>: the invariant \<^verbatim>\<open>pim_inv\<close>;
    \<^verbatim>\<open>FP_Pim_Grant\<close>, \<^verbatim>\<open>FP_Pim_Accept\<close>, \<^verbatim>\<open>FP_Pim_Process\<close>, \<^verbatim>\<open>FP_Pim_Slot\<close>: the phases of a timeslot; \<^verbatim>\<open>FP_Pim_Props\<close>: the properties;
    \<^verbatim>\<open>FP_Pim_Barrier\<close>: the barrier between cores (\<^verbatim>\<open>phase.h\<close>) as interleaved steps.
  \<^item> \<^verbatim>\<open>FP_Graph\<close>: \<^verbatim>\<open>graph.h\<close>, \<^verbatim>\<open>euler_split.c\<close>, \<^verbatim>\<open>kapoor_rizzi.c\<close>; \<^verbatim>\<open>FP_Euler\<close>: the locale \<^verbatim>\<open>euler_walk\<close> with the
    Euler split proved once; \<^verbatim>\<open>FP_Split\<close>: its instance for \<^verbatim>\<open>split\<close>; \<^verbatim>\<open>FP_Paths\<close>: \<^verbatim>\<open>path_selection.c\<close>;
    \<^verbatim>\<open>FP_Paths_Graph\<close>, \<^verbatim>\<open>FP_Paths_Ok\<close>, \<^verbatim>\<open>FP_Paths_Spec\<close>: the regular graph, the assignment of paths (the
    second instance of \<^verbatim>\<open>euler_walk\<close>) and the properties; \<^verbatim>\<open>FP_Matrix\<close>: graphs as matrices (\<^verbatim>\<open>graph_matrix.h\<close>,
    \<^verbatim>\<open>euler_split_matrix.c\<close>), whose split is the third instance.
  \<^item> \<^verbatim>\<open>FP_Timer\<close>: the timer wheel of the arbiter (\<^verbatim>\<open>fp_timer.h\<close>) with the locale \<^verbatim>\<open>timer_queue\<close>; \<^verbatim>\<open>FP_Comm\<close>: the
    communication core (\<^verbatim>\<open>comm_core.c\<close>), whose state holds a connection, a window of pending allocations,
    demand and report counters per end node, and the status of the allocator. The callbacks of a protocol
    operation run over its trace (\<^verbatim>\<open>with_conn\<close>).
  \<^item> \<^verbatim>\<open>FP_Client\<close>: the scheduler of the end node (\<^verbatim>\<open>sch_fastpass.c\<close>); \<^verbatim>\<open>FP_Circ\<close>: circular queues with a flag per
    member; \<^verbatim>\<open>FP_Client_Inv\<close>: the runs of an end node (\<^verbatim>\<open>sch_reach\<close>) and their invariants.
  \<^item> \<^verbatim>\<open>FP_Skbq\<close>: the linked packet queues of \<^verbatim>\<open>sch_timeslot.c\<close>; \<^verbatim>\<open>FP_Tsq\<close>: the queueing discipline itself, with the
    rate computation of \<^verbatim>\<open>compat-3_2.c\<close> and the scheduler of \<^verbatim>\<open>sch_simple.c\<close>; \<^verbatim>\<open>FP_Tsq_Table\<close>: its flow table as a map,
    for any hash and rebalancing (\<^verbatim>\<open>env_ok\<close>) and tables of 2 to \<open>2 ^ 31\<close> buckets (\<^verbatim>\<open>log_ok\<close>: at other sizes a shift
    by 32 bits is undefined, and \<^term>\<open>None\<close>); \<^verbatim>\<open>FP_Tsq_Inv\<close>: what its operations do to a flow, and its
    invariant; \<^verbatim>\<open>FP_Node\<close>: the end node as interleaved steps (\<^verbatim>\<open>node_step\<close>), one for each stretch of a handler between
    two releases of the lock of the flow table: an admission is two of them and a resize three; with the locale
    \<^verbatim>\<open>slot_source\<close>, the contract of a scheduler; \<^verbatim>\<open>FP_Node_Spec\<close>: its instances, Fastpass and the simple scheduler, and the
    properties of the node.
  \<^item> \<^verbatim>\<open>FP_Tslots\<close>: the bytes of an allocation, written by the one and read by the other; \<^verbatim>\<open>FP_Comm_Spec\<close>: the
    properties that join arbiter and end node.

  \<^bold>\<open>What is shown.\<close> In this theory: no reachable connection state has reported a bug or
  faulted, descriptors are freed exactly once, any bytes can be received, the callbacks of a packet are performed to
  the end at most once between two resets, and what acknowledgements, timeouts, sends and resets do. In \<^verbatim>\<open>FP_Codec\<close>: round trips of header
  and payloads. In \<^verbatim>\<open>FP_Window_Spec\<close>: the window as a set. In \<^verbatim>\<open>FP_Ring\<close>: the ring is a queue. In
  \<^verbatim>\<open>FP_Alloc_Spec\<close> and \<^verbatim>\<open>FP_Prio\<close>: a batch returns, serves a source at most once in a timeslot, and a destination
  too when the capacity for traffic out of the network is 0 and there is none (not so in the arbiter, whose capacity is
  16), conserves demand, never grants more than requested, keeps one entry per active pair, and serves older flows first. In
  \<^verbatim>\<open>FP_Sjf_Props\<close>: whatever arrives during a batch of the shortest-job-first allocator, it returns, its timeslots are matchings
  within the capacities and final once sent, grants are accounted for and every flow with backlog has its place, except
  the flows whose request came while timeslots were sent out, which are lost; the experiment of the benchmark counts what is granted, once its rings are made large enough for its set-up
  to pass. In
  \<^verbatim>\<open>FP_Pim_Props\<close>: a timeslot of the grant/accept allocator is a matching of requested pairs, loses no request, admits something
  when anything is requested, and passes the check of the code (without assertions, as its Makefile builds it); a single request is admitted by
  that build and stops the one with assertions. In \<^verbatim>\<open>FP_Pim_Barrier\<close>: the barrier keeps
  two cores in step. In
  \<^verbatim>\<open>FP_Split\<close>, \<^verbatim>\<open>FP_Matrix\<close> and \<^verbatim>\<open>FP_Paths_Spec\<close>: the split halves every degree, and path selection is balanced for traffic of at most 64
  edges per rack, above which it stops. In
  \<^verbatim>\<open>FP_Timer\<close>: exactly the due timers expire. In \<^verbatim>\<open>FP_Client_Inv\<close>: the request queue holds each waiting flow
  once, and timeslots are conserved through losses and resets. In \<^verbatim>\<open>FP_Skbq\<close> and \<^verbatim>\<open>FP_Tsq_Inv\<close>: the packet
  queues are lists and the flow table is a map. In \<^verbatim>\<open>FP_Node_Spec\<close>: in every interleaving that is calm, packets leave
  in order and none is lost, no handler blocks, and timeslots are filled but not beyond. Calm asks for memory for flows and
  timeslots, no reset of the queueing discipline, admissions one at a time and in order, and no handler of the flow table inside
  a resize; each is needed, and the runs without it that lose the order or the lock are shown. In \<^verbatim>\<open>FP_Comm_Spec\<close>: allocations are
  recorded, packed and read back exactly, and requests reach the arbiter exactly. Where the
  code departs from its comments, a property states what it does (window wrap, traffic out
  of the network, lost requests, rings too small for the benchmark, racks of more than 64 edges, idle flows at a reset, the largest packet, the
  lock that is left held).

  \<^bold>\<open>Bounds and builds.\<close> Integers keep their width wherever they can wrap. The loops of the
  allocator are \<^verbatim>\<open>partial_function (option)\<close> and proved to return: the main loop of a batch takes exactly 48
  iterations, because the stand-alone build (\<^verbatim>\<open>NO_DPDK\<close>) advances its clock by one each time. The hypotheses
  of a batch (\<^verbatim>\<open>batch_pre\<close>) ask for as many bins and as much room in each ring as there are
  entries; \<^verbatim>\<open>demand_room\<close> asks the same for new demands. A batch of the shortest-job-first allocator starts from a
  state that is \<^verbatim>\<open>sjf_ready\<close>: at most 255 nodes, room for every flow in the queues and for the bins in their ring, the
  256 bins there or to come, and timeslots that are due (\<^verbatim>\<open>on_time\<close>; the clock of the stand-alone build stands still). Its
  waiting loops consume a script of arbitrary length. \<^verbatim>\<open>FP_Sjf_Setup\<close> shows that the set-up reaches such a state.
  A timeslot of the grant/accept allocator starts from a state that is \<^verbatim>\<open>pim_ready\<close>: no pair requested twice, nodes below 256, memory for two
  structures of admitted traffic and room for them in the queue; \<^verbatim>\<open>pim_init_idle\<close> shows that initialisation gives one.

  Loops of the communication core are bounded by what they fill or clear: \<^verbatim>\<open>throw_away\<close> has fuel 193 for at
  most 192 marks, which \<^verbatim>\<open>throw_away_ok\<close> shows to be enough; the others are functions with a termination
  proof. Clock readings, the jiffies of hash seeds, memory that may not be available and costs computed in
  floating point are arguments.

  The end node takes packets of less than a megabyte, which keeps costs far from the range of a signed 64-bit
  integer, and fewer than \<open>2 ^ 64\<close> steps. Its handlers interleave between releases of the lock of the
  flow table, which is part of the state: taking it while it is held is \<^term>\<open>None\<close>. Receivers are not serialised by the
  code (the socket lock is commented out in \<^verbatim>\<open>fastpass_proto.c\<close>): that their admissions do not overlap is part of calm.

  \<^bold>\<open>Not modelled.\<close> Concurrency between cores beyond the script of the shortest-job-first allocator (a batch of the
  pipelined one runs alone, as in the stand-alone build) and, within a
  step of the end node, between the contexts of the kernel (a step holds its locks), or between two receivers of one
  connection in the protocol; set-up, logging, ARP, IGMP and watchdog traffic of
  the DPDK program (\<^verbatim>\<open>arbiter/\<close>); the memory that the cores of the grant/accept allocator share between two barriers; the
  compiled-out schedule of \<^verbatim>\<open>sch_timeslot.c\<close> and
  the sockets of the kernel module; the other benchmarks, tests, bindings, printing of statistics and
  the vendored \<^verbatim>\<open>ccan/\<close> library (of which \<^verbatim>\<open>list_del\<close> is stated on lists).
\<close>

section \<open>Concrete connections\<close>

text \<open>An endpoint right after initialisation, and the same endpoint after sending one packet.\<close>

definition demo_conn :: proto where
  "demo_conn = fpproto_init_conn True 1000 all_ops 1000000 20 zero_conn"

definition demo_pd :: fpproto_pktdesc where
  "demo_pd = \<lparr>pd_n_areq = 1, pd_areq = replicate 10 \<lparr>src_dst_key = 7, tslots = 3\<rparr>, pd_n_dsts = 0, pd_dsts = replicate 15 0,
     pd_dst_counts = replicate 15 0, pd_alloc_tslot = 0, pd_tslot_desc = replicate 64 0, pd_base_tslot = 0,
     pd_sent_timestamp = 0, pd_seqno = 0, pd_ack_seq = 0, pd_ack_vec = 0, pd_send_reset = False,
     pd_reset_timestamp = 0\<rparr>"

definition demo_sent :: proto where
  "demo_sent = fpproto_commit_packet demo_pd 1005 (fpproto_prepare_to_send demo_conn)"

lemma demo_conn_inv: "conn_inv demo_conn" and demo_conn_reachable: "reachable True demo_conn {#}"
  using init_ok [OF zero_conn_inv(1)] reachable.init by (simp_all add: demo_conn_def ok_step_def)

lemma demo_head_eq: "head (outwnd demo_conn) = base_seqno_from_timestamp 1000 - 1"
  using do_proto_reset_ok(3) [OF zero_conn_inv(1), of True 1000 False]
  by (simp add: demo_conn_def fpproto_init_conn_def fresh_def FASTPASS_EGRESS_SEQNO_OFFSET_def
      FASTPASS_TO_CONTROLLER_SEQNO_OFFSET_def)

lemma demo_head: "head (outwnd demo_conn) \<noteq> - 1"
proof -
  have "base_seqno_from_timestamp 1000 - 1 \<noteq> - 1"
    by code_simp
  then show ?thesis
    by (simp add: demo_head_eq)
qed

lemma demo_sent_reachable:
  "reachable True demo_sent {#commit_fields (fpproto_prepare_to_send demo_conn) 1005 demo_pd#}"
  unfolding demo_sent_def
  by (rule reachable.step [OF demo_conn_reachable]) (rule proto_step.send [OF demo_head refl])

lemma demo_sent_inv: "conn_inv demo_sent"
  using reachable_inv [OF demo_sent_reachable] by simp

section \<open>Safety of the protocol\<close>

text \<open>
  C1. In every reachable state of a connection, for the endpoint and for the controller, the
  invariant holds and the trace contains no report of \<^verbatim>\<open>FASTPASS_BUG_ON\<close>, no NULL
  dereference, no read outside a packet and no loop that fails to end. The one assumption on
  the runs is that the head of the outgoing window is not \<open>2 ^ 64 - 1\<close> when a packet is sent.
\<close>

theorem reachable_no_fault:
  assumes "reachable ep s C"
  shows "conn_inv s \<and> (\<forall>e \<in> set (trace s). e \<notin> {Bug, Null_deref, Oob_read, Diverged})"
proof -
  have "filter is_fault (trace s) = []"
    using reachable_inv [OF assms] by (simp add: faults_def)
  then have "\<forall>e \<in> set (trace s). \<not> is_fault e"
    by (simp add: filter_empty_conv)
  then show ?thesis
    using reachable_inv [OF assms] unfolding is_fault_def by blast
qed

theorem reachable_no_fault_witness:
  "conn_inv demo_sent \<and> Bug \<notin> set (trace demo_sent) \<and> Null_deref \<notin> set (trace demo_sent)
    \<and> Oob_read \<notin> set (trace demo_sent) \<and> Diverged \<notin> set (trace demo_sent)"
  using reachable_no_fault [OF demo_sent_reachable] by blast

text \<open>
  C2. Every packet descriptor handed to the protocol is either still held by the window of
  outstanding packets or has been freed, and freed once: as multisets, the committed
  descriptors are the held ones plus the freed ones.
\<close>

theorem descriptors_freed_once:
  assumes "reachable ep s C"
  shows "C = held_list (unacked_pkts s) + freed s"
  using reachable_inv [OF assms] by (simp add: ledger_def)

theorem descriptors_freed_once_witness:
  "{#commit_fields (fpproto_prepare_to_send demo_conn) 1005 demo_pd#} = held_list (unacked_pkts demo_sent) + freed demo_sent"
  using descriptors_freed_once [OF demo_sent_reachable] .

text \<open>
  C3. Any sequence of bytes may arrive: processing it keeps the invariant, adds no fault to the
  trace and loses no descriptor.
\<close>

theorem rx_any_bytes:
  assumes "conn_inv s"
  shows "conn_inv (fpproto_handle_rx_complete ep addr now1 now2 pkt s)
    \<and> faults (fpproto_handle_rx_complete ep addr now1 now2 pkt s) = faults s
    \<and> ledger (fpproto_handle_rx_complete ep addr now1 now2 pkt s) = ledger s"
  using rx_complete_step [OF assms, of ep addr now1 now2 pkt] by (simp add: ok_step_def keeps_def)

theorem rx_any_bytes_witness:
  "conn_inv (fpproto_handle_rx_complete True 2 5 6 [1, 2, 3, 4, 5, 6, 7, 8, 16] demo_sent)
    \<and> faults (fpproto_handle_rx_complete True 2 5 6 [1, 2, 3, 4, 5, 6, 7, 8, 16] demo_sent) = faults demo_sent
    \<and> ledger (fpproto_handle_rx_complete True 2 5 6 [1, 2, 3, 4, 5, 6, 7, 8, 16] demo_sent) = ledger demo_sent"
  using rx_any_bytes [OF demo_sent_inv] .

text \<open>
  C4. At-most-once delivery between two resets. Let packets with any bytes be received one at a time by
  \<^verbatim>\<open>fpproto_handle_rx_complete\<close> after a reset, fewer than \<open>2 ^ 45\<close> of them and none of which makes the
  connection reset, in any order and with any repetitions, with sending and timeouts in between. Then
  the sequence numbers the receiver gave to the packets whose callbacks were performed to the end are
  pairwise distinct, and \<^verbatim>\<open>fpproto_handle_rx_packet\<close> does not pass a packet with one of these numbers on
  to the callbacks again, unless that packet causes a reset. (A packet whose callbacks fail is not
  recorded, so that a repetition of it is processed again, \<^verbatim>\<open>failed_not_recorded\<close>; and two receivers that
  process the same packet at the same time are not considered.)
\<close>

theorem at_most_once:
  assumes "rx_run ep s0 n ts s" and "just_reset ep s0" and "n < 2 ^ 45"
  shows "distinct ts \<and> (\<forall>t \<in> set ts. \<forall>addr now1 now2 pkt pkt' s'.
    fpproto_handle_rx_packet ep addr now1 now2 pkt s = (True, Some t, pkt', s') \<longrightarrow> resets s' = resets s + 1)"
proof -
  have "distinct ts"
    using run_once [OF assms(1,2)] assms(3) by (simp add: once_inv_def)
  then show ?thesis
    using run_not_again [OF assms] by blast
qed

text \<open>A new packet of the encoder is performed; received again it is not.\<close>

definition demo_new_pd :: fpproto_pktdesc where
  "demo_new_pd = demo_pd\<lparr>pd_seqno := base_seqno_from_timestamp 1000 + 0xDEADBEEF, pd_ack_seq := base_seqno_from_timestamp 1000 - 1\<rparr>"

lemma demo_new_pd_enc: "\<exists>pkt. fpproto_encode_packet False 0 demo_new_pd 154 64 = (64, pkt)"
proof -
  have "length (unpadded False demo_new_pd) = 14"
    by (simp add: unpadded_def reset_bytes_def alloc_bytes_def areq_bytes_def length_encode_areq length_encode_alloc)
      (simp add: demo_new_pd_def demo_pd_def)
  then show ?thesis
    unfolding encode_unfold by (simp add: Let_def) (simp add: demo_new_pd_def demo_pd_def)
qed

lemma demo_conn_reset: "just_reset True demo_conn" "in_max_seqno demo_conn = pd_seqno demo_new_pd - 1"
  by (simp_all add: just_reset_def first_in_def demo_conn_def demo_new_pd_def fpproto_init_conn_def do_proto_reset_def stat_inc_def
      FASTPASS_INGRESS_SEQNO_OFFSET_def FASTPASS_TO_ENDPOINT_SEQNO_OFFSET_def Let_def)

lemma demo_new_pd_fits:
  "completable True 1000 demo_new_pd demo_conn" "\<not> at_most_once_may_accept demo_conn (pd_seqno demo_new_pd)"
proof -
  have "head (outwnd demo_conn) = pd_ack_seq demo_new_pd"
    using demo_head_eq by (simp add: demo_new_pd_def)
  then show "completable True 1000 demo_new_pd demo_conn"
    using demo_conn_reset(2) by (simp add: completable_def wnd_head_def) (simp add: demo_new_pd_def demo_pd_def)
  show "\<not> at_most_once_may_accept demo_conn (pd_seqno demo_new_pd)"
    unfolding at_most_once_may_accept_def demo_conn_reset(2) by (simp add: Let_def time_after64_def)
qed

theorem at_most_once_witness:
  "\<exists>pkt s. fpproto_encode_packet False 0 demo_new_pd 154 64 = (64, pkt) \<and> rx_run True demo_conn 1 [pd_seqno demo_new_pd] s
    \<and> (\<forall>s'. fpproto_handle_rx_packet True 0 1000 1000 pkt s = (True, Some (pd_seqno demo_new_pd), pkt, s') \<longrightarrow> resets s' = resets s + 1)"
proof -
  obtain pkt where pkt: "fpproto_encode_packet False 0 demo_new_pd 154 64 = (64, pkt)"
    using demo_new_pd_enc by blast
  let ?s = "fpproto_handle_rx_complete True 0 1000 1000 pkt demo_conn"
  have "wf_pd demo_new_pd" "\<not> pd_send_reset demo_new_pd"
    by (simp_all add: wf_pd_def demo_new_pd_def demo_pd_def)
  from encoded_performed [OF pkt _ this demo_new_pd_fits(1) _ demo_new_pd_fits(2), of 0 1000]
  have p: "rx_performed True 0 1000 1000 pkt demo_conn = [pd_seqno demo_new_pd]" "resets ?s = resets demo_conn"
    by auto
  have "rx_run True demo_conn (Suc 0) ([] @ [pd_seqno demo_new_pd]) ?s"
    using rx_run.receive [OF rx_run.start refl p(2)] p(1) by simp
  then show ?thesis
    using pkt at_most_once [OF _ demo_conn_reset(1), of 1 "[pd_seqno demo_new_pd]" ?s] by (intro exI [of _ pkt] exI [of _ ?s]) simp
qed

text \<open>
  C5. An acknowledgement removes from the window exactly the outstanding packets that it
  acknowledges: those at the positions of the set bits of the vector, counted back from
  \<^verbatim>\<open>ack_seq\<close>; an acknowledgement before the window removes nothing.
\<close>

theorem ack_removes_exactly:
  assumes "conn_inv s"
  shows "wnd_set (outwnd (ack_payload_handler a v s)) =
    wnd_set (outwnd s) - (if wnd_seq_before (outwnd s) a then {} else {a - of_nat (63 - i) | i. i < 64 \<and> bit v i})"
proof -
  have "wnd_set (outwnd (ack_payload_handler a v s)) =
      wnd_set (outwnd s) - (if wnd_seq_before (outwnd s) a then {} else bit_seqs a v)"
    using assms ack_payload_ok [of s a v] by (simp add: conn_inv_def ack_effect_def)
  moreover have "bit_seqs a v = {a - of_nat (63 - i) | i. i < 64 \<and> bit v i}"
    unfolding bit_seqs_def seq_at_def by blast
  ultimately show ?thesis by (simp only:)
qed

theorem ack_removes_exactly_witness:
  "wnd_set (outwnd (ack_payload_handler 77 5 demo_sent)) =
    wnd_set (outwnd demo_sent) - (if wnd_seq_before (outwnd demo_sent) 77 then {} else {77 - of_nat (63 - i) | i. i < 64 \<and> bit (5 :: u64) i})"
  using ack_removes_exactly [OF demo_sent_inv] .

text \<open>
  C6. The timeout handler reports as lost exactly the outstanding packets, from
  \<^verbatim>\<open>next_timeout_seqno\<close> on and in the order of their sequence numbers, up to the first whose
  timeout has not expired; for that one the timer is set, and the packets stay in the window.
\<close>

theorem timeout_reports_expired:
  assumes "conn_inv s"
  shows "\<exists>ts es. timeout_effect now s (next_timeout_seqno s) (next_timeout_seqno (fpproto_handle_timeout now s)) ts es
    \<and> trace (fpproto_handle_timeout now s) = trace s @ es
    \<and> outwnd (fpproto_handle_timeout now s) = outwnd s \<and> unacked_pkts (fpproto_handle_timeout now s) = unacked_pkts s"
proof -
  have "core_inv s" "timer_ok 192 s"
    using assms by (simp_all add: conn_inv_def)
  from handle_timeout_ok [OF this, of now] show ?thesis
    by auto
qed

theorem timeout_reports_expired_witness:
  "\<exists>ts es. timeout_effect 2000 demo_sent (next_timeout_seqno demo_sent) (next_timeout_seqno (fpproto_handle_timeout 2000 demo_sent)) ts es
    \<and> trace (fpproto_handle_timeout 2000 demo_sent) = trace demo_sent @ es
    \<and> outwnd (fpproto_handle_timeout 2000 demo_sent) = outwnd demo_sent
    \<and> unacked_pkts (fpproto_handle_timeout 2000 demo_sent) = unacked_pkts demo_sent"
  using timeout_reports_expired [OF demo_sent_inv] .

text \<open>
  Sending a packet puts its descriptor, with the next sequence number, into the window and
  removes at most the oldest entry, which is freed; no other outstanding packet is touched.
\<close>

theorem send_packet:
  assumes "conn_inv s" and "head (outwnd s) \<noteq> - 1" and "s1 = fpproto_prepare_to_send s"
  shows "wnd_set (outwnd (fpproto_commit_packet pd now s1)) = insert (head (outwnd s) + 1) (wnd_set (outwnd s) - {wnd_edge (outwnd s)})
    \<and> head (outwnd (fpproto_commit_packet pd now s1)) = head (outwnd s) + 1
    \<and> outwnd_peek (fpproto_commit_packet pd now s1) (head (outwnd s) + 1) = Some (commit_fields s1 now pd)
    \<and> pd_seqno (commit_fields s1 now pd) = head (outwnd s) + 1
    \<and> ledger (fpproto_commit_packet pd now s1) = add_mset (commit_fields s1 now pd) (ledger s)"
proof -
  have "head (outwnd s1) = head (outwnd s)"
    using prepare_ok [OF assms(1)] assms(3) by simp
  then show ?thesis
    using send_ok [OF assms, of pd now] by (simp add: commit_fields_def wnd_head_def)
qed

theorem send_packet_witness:
  "wnd_set (outwnd demo_sent) = insert (head (outwnd demo_conn) + 1) (wnd_set (outwnd demo_conn) - {wnd_edge (outwnd demo_conn)})
    \<and> head (outwnd demo_sent) = head (outwnd demo_conn) + 1"
  using send_packet [OF demo_conn_inv demo_head refl, of demo_pd 1005] by (simp add: demo_sent_def)

text \<open>
  The decision table of RESET payloads: which timestamp wins, when the packet is dropped,
  and that adopting a timestamp empties the window, freeing every outstanding descriptor once,
  before the reset callback is called.
\<close>

theorem reset_table:
  assumes "conn_inv s" and "reset_payload_handler ep now tstamp s = (d, s')"
  shows "d = fst (reset_decision ep now tstamp s) \<and>
    (case snd (reset_decision ep now tstamp s) of
       None \<Rightarrow> outwnd s' = outwnd s \<and> last_reset_time s' = last_reset_time s \<and> trace s' = trace s
     | Some t \<Rightarrow> fresh ep t s' \<and> in_sync s' = ep \<and>
         (\<exists>pds. trace s' = trace s @ map (\<lambda>pd. Pktdesc_free (Some pd)) pds
              @ (if has_handle_reset (ops s) then [Handle_reset] else [])
            \<and> distinct (map pd_seqno pds) \<and> set (map pd_seqno pds) = wnd_set (outwnd s)))"
  using reset_decision_ok [OF conn_inv_core [OF assms(1)] assms(2)] .

theorem reset_table_witness:
  "fst (reset_payload_handler True 5000 2000 demo_sent) = fst (reset_decision True 5000 2000 demo_sent)"
  using reset_table [OF demo_sent_inv surjective_pairing, of True 5000 2000] by simp

text \<open>
  Two ends that reset to the same timestamp are in step: each expects next the sequence
  number that the other sends next.
\<close>

theorem reset_agreement:
  assumes "core_inv e" and "core_inv c"
  shows "head (outwnd (do_proto_reset True t b e)) = in_max_seqno (do_proto_reset False t b' c)
    \<and> head (outwnd (do_proto_reset False t b' c)) = in_max_seqno (do_proto_reset True t b e)"
  using fresh_agree [OF do_proto_reset_ok(3) [OF assms(1)] do_proto_reset_ok(3) [OF assms(2)]] by simp

theorem reset_agreement_witness:
  "head (outwnd (do_proto_reset True 9 False demo_sent)) = in_max_seqno (do_proto_reset False 9 True zero_conn)
    \<and> head (outwnd (do_proto_reset False 9 True zero_conn)) = in_max_seqno (do_proto_reset True 9 False demo_sent)"
  using reset_agreement [OF conn_inv_core [OF demo_sent_inv] zero_conn_inv(1)] .

end
